(* ===== verification/HSCFS_Prelude.thy ===== *)
theory HSCFS_Prelude
  imports Main "HOL-Library.Word"
begin

text \<open>
  Shared vocabulary of the development: the machine integers of
  \<^verbatim>\<open>inc/utils/types.h\<close>, the exceptions of \<^verbatim>\<open>inc/utils/hscfs_exceptions.hh\<close>,
  the outcome of a C++ call (a value or a fault), the error-and-state composition used
  by the stateful components, and generic facts about lists and words.
\<close>

section \<open>Machine integers\<close>

type_synonym u8 = "8 word"
type_synonym u16 = "16 word"
type_synonym u32 = "32 word"
type_synonym u64 = "64 word"

section \<open>Faults\<close>

text \<open>
  The exception classes of the program. \<open>Out_of_range\<close> and \<open>Invalid_argument\<close> are the
  standard library's, thrown by \<^verbatim>\<open>at\<close> and by the journal writer.
\<close>

datatype fs_exn =
    Alloc_error
  | Io_error
  | Timer_error
  | Thread_interrupted
  | Not_recoverable
  | Expand_file_size_exceed_limit
  | No_free_nid
  | No_free_segment
  | User_path_invalid
  | Invalid_fd
  | Rw_conflict_with_open_flag
  | Out_of_range
  | Invalid_argument

text \<open>
  A call that does not return a value either throws, fails an \<^verbatim>\<open>assert\<close> (the process
  aborts), or has undefined behaviour (an invalid iterator, a dangling pointer, a shift by
  at least the width, an access outside an object). \<open>Still_running\<close> is the outcome of a loop
  that is given too little fuel.
\<close>

datatype fault = Throw fs_exn | Assert_failed | Undefined | Still_running

section \<open>State and error composition\<close>

text \<open>
  A stateful operation takes the state and returns the outcome and the state it leaves
  behind; the state survives a throw, as it does in the program.
\<close>

type_synonym ('s, 'a) prog = "'s \<Rightarrow> (fault + 'a) \<times> 's"

definition ret :: "'a \<Rightarrow> ('s, 'a) prog" where
  "ret x = (\<lambda>s. (Inr x, s))"

definition fail :: "fault \<Rightarrow> ('s, 'a) prog" where
  "fail e = (\<lambda>s. (Inl e, s))"

definition bnd :: "('s, 'a) prog \<Rightarrow> ('a \<Rightarrow> ('s, 'b) prog) \<Rightarrow> ('s, 'b) prog" where
  "bnd m f = (\<lambda>s. case m s of (Inl e, s') \<Rightarrow> (Inl e, s') | (Inr x, s') \<Rightarrow> f x s')"

definition reads :: "('s \<Rightarrow> 'a) \<Rightarrow> ('s, 'a) prog" where
  "reads g = (\<lambda>s. (Inr (g s), s))"

definition modify :: "('s \<Rightarrow> 's) \<Rightarrow> ('s, unit) prog" where
  "modify g = (\<lambda>s. (Inr (), g s))"

definition assert_that :: "bool \<Rightarrow> ('s, unit) prog" where
  "assert_that b = (if b then ret () else fail Assert_failed)"

definition of_result :: "fault + 'a \<Rightarrow> ('s, 'a) prog" where
  "of_result r = (\<lambda>s. (r, s))"

text \<open>
  A local object: its destructor runs when the body returns and when an exception leaves the
  body.
\<close>

definition scoped :: "('s, unit) prog \<Rightarrow> ('s, 'a) prog \<Rightarrow> ('s, 'a) prog" where
  "scoped dtor body = (\<lambda>s. case body s of
       (Inr x, s1) \<Rightarrow> bnd dtor (\<lambda>_. ret x) s1
     | (Inl (Throw e), s1) \<Rightarrow> bnd dtor (\<lambda>_. fail (Throw e)) s1
     | (Inl f, s1) \<Rightarrow> (Inl f, s1))"

text \<open>The destructor of an object that the body takes over unless it throws.\<close>

definition on_throw :: "('s, unit) prog \<Rightarrow> ('s, 'a) prog \<Rightarrow> ('s, 'a) prog" where
  "on_throw dtor body = (\<lambda>s. case body s of
       (Inl (Throw e), s1) \<Rightarrow> bnd dtor (\<lambda>_. fail (Throw e)) s1
     | r \<Rightarrow> r)"

text \<open>A destructor that catches what the release it performs throws.\<close>

definition catch_all :: "('s, unit) prog \<Rightarrow> ('s, unit) prog" where
  "catch_all m = (\<lambda>s. case m s of (Inl (Throw _), s') \<Rightarrow> (Inr (), s') | r \<Rightarrow> r)"

text \<open>An exception that leaves a \<^verbatim>\<open>noexcept\<close> function ends the program.\<close>

definition no_throw :: "('s, 'a) prog \<Rightarrow> ('s, 'a) prog" where
  "no_throw m = (\<lambda>s. case m s of (Inl (Throw _), s') \<Rightarrow> (Inl Assert_failed, s') | r \<Rightarrow> r)"

text \<open>
  Commands that are under way use a synchroniser, a local object of the function that waits for them. An exception
  that leaves the function before that destroys the synchroniser, which the commands would still use.
\<close>

definition under_way :: "bool \<Rightarrow> ('s, 'a) prog \<Rightarrow> ('s, 'a) prog" where
  "under_way sent m = (\<lambda>s. case m s of
       (Inl (Throw e), s') \<Rightarrow> (Inl (if sent then Undefined else Throw e), s')
     | r \<Rightarrow> r)"

named_theorems prog_simps

declare ret_def [prog_simps] fail_def [prog_simps] bnd_def [prog_simps]
  reads_def [prog_simps] modify_def [prog_simps] assert_that_def [prog_simps]
  of_result_def [prog_simps] scoped_def [prog_simps] on_throw_def [prog_simps] catch_all_def [prog_simps]
  no_throw_def [prog_simps] under_way_def [prog_simps]

lemma bnd_assoc: "bnd (bnd m f) g = bnd m (\<lambda>x. bnd (f x) g)"
  by (auto simp: prog_simps fun_eq_iff split: prod.splits sum.splits)

lemma bnd_InrE:
  assumes "bnd m f s = (Inr y, t)"
  obtains x s' where "m s = (Inr x, s')" "f x s' = (Inr y, t)"
  using assms by (auto simp: bnd_def split: prod.splits sum.splits)

section \<open>State predicates kept by a program\<close>

definition keeps :: "('s \<Rightarrow> bool) \<Rightarrow> ('s, 'a) prog \<Rightarrow> bool" where
  "keeps Q m \<longleftrightarrow> (\<forall>s. Q s \<longrightarrow> Q (snd (m s)))"

named_theorems keeps_rules

lemma keeps_basic [keeps_rules]:
  "keeps Q (ret x)" "keeps Q (fail e)" "keeps Q (reads g)" "keeps Q (assert_that b)"
  by (simp_all add: keeps_def prog_simps)

lemma keeps_bnd [keeps_rules]: "keeps Q m \<Longrightarrow> (\<And>x. keeps Q (f x)) \<Longrightarrow> keeps Q (bnd m f)"
  unfolding keeps_def by (auto simp: bnd_def split: prod.splits sum.splits)

lemma keeps_scoped [keeps_rules]: "keeps Q d \<Longrightarrow> keeps Q m \<Longrightarrow> keeps Q (scoped d m)"
  unfolding keeps_def
  by (auto simp: prog_simps split: prod.splits sum.splits fault.splits)

lemma keeps_if [keeps_rules]: "keeps Q a \<Longrightarrow> keeps Q b \<Longrightarrow> keeps Q (if c then a else b)"
  by simp

lemma bnd_run: "m s = (Inr x, s1) \<Longrightarrow> bnd m f s = f x s1"
  by (simp add: bnd_def)

lemma keeps_snd: "keeps Q m \<Longrightarrow> Q s \<Longrightarrow> m s = (r, s') \<Longrightarrow> Q s'"
  unfolding keeps_def by (metis snd_conv)

lemma keeps_on_throw [keeps_rules]: "keeps Q d \<Longrightarrow> keeps Q m \<Longrightarrow> keeps Q (on_throw d m)"
  unfolding keeps_def by (auto simp: prog_simps split: prod.splits sum.splits fault.splits)

lemma keeps_no_throw [keeps_rules]: "keeps Q m \<Longrightarrow> keeps Q (no_throw m)"
  unfolding keeps_def by (auto simp: prog_simps split: prod.splits sum.splits fault.splits)

lemma keeps_under_way [keeps_rules]: "keeps Q m \<Longrightarrow> keeps Q (under_way sent m)"
  unfolding keeps_def by (auto simp: prog_simps split: prod.splits sum.splits fault.splits)

lemma keeps_modify: "(\<And>s. Q s \<Longrightarrow> Q (g s)) \<Longrightarrow> keeps Q (modify g)"
  by (simp add: keeps_def prog_simps)

section \<open>Plain outcomes\<close>

text \<open>Chaining of plain outcomes, for the operations that thread their state explicitly.\<close>

definition obind :: "fault + 'a \<Rightarrow> ('a \<Rightarrow> fault + 'b) \<Rightarrow> fault + 'b" where
  "obind r f = (case r of Inl e \<Rightarrow> Inl e | Inr x \<Rightarrow> f x)"

lemma obind_simps [simp]:
  "obind (Inl e) f = Inl e"
  "obind (Inr x) f = f x"
  by (simp_all add: obind_def)

lemma obind_InrE:
  assumes "obind r f = Inr y"
  obtains x where "r = Inr x" "f x = Inr y"
  using assms by (cases r) auto

definition outcome_ok :: "fault + 'a \<Rightarrow> bool" where
  "outcome_ok r = (case r of Inl _ \<Rightarrow> False | Inr _ \<Rightarrow> True)"

lemma outcome_ok_simps [simp]: "\<not> outcome_ok (Inl e)" "outcome_ok (Inr x)"
  by (simp_all add: outcome_ok_def)

text \<open>A fallible operation applied to each key of a list in turn.\<close>

fun run_all :: "('k \<Rightarrow> 'r \<Rightarrow> fault + 'r) \<Rightarrow> 'k list \<Rightarrow> 'r \<Rightarrow> fault + 'r" where
  "run_all f [] r = Inr r"
| "run_all f (k # ks) r = obind (f k r) (run_all f ks)"

section \<open>Lists\<close>

lemma distinct_map_filter: "distinct (map f xs) \<Longrightarrow> distinct (map f (filter P xs))"
  by (induction xs) auto

lemma filter_neq_remove1:
  "distinct xs \<Longrightarrow> filter (\<lambda>y. y \<noteq> x) xs = remove1 x xs"
  by (simp add: distinct_remove1_removeAll removeAll_filter_not_eq eq_commute)

lemma length_filter_neq:
  "distinct xs \<Longrightarrow> x \<in> set xs \<Longrightarrow> Suc (length (filter (\<lambda>y. y \<noteq> x) xs)) = length xs"
  by (simp add: filter_neq_remove1 length_remove1) (metis Suc_pred length_pos_if_in_set)

lemma card_dom_upd_None [simp]:
  "finite (dom m) \<Longrightarrow> m k = Some v \<Longrightarrow> card (dom (m(k := None))) = card (dom m) - 1"
  by (simp add: domI)

lemma card_dom_upd_Some [simp]:
  "finite (dom m) \<Longrightarrow> m k = None \<Longrightarrow> card (dom (m(k \<mapsto> v))) = Suc (card (dom m))"
  by (simp add: domIff)

section \<open>Words\<close>

lemma unat_u32_max: "unat (- 1 :: u32) = 2 ^ 32 - 1"
  by (simp add: unsigned_minus_1_eq_mask mask_eq_exp_minus_1)

lemma unat_u32_inc: "w \<noteq> (- 1 :: u32) \<Longrightarrow> unat (w + 1) = Suc (unat w)"
  by (metis add.commute add.right_inverse unatSuc add_eq_0_iff)

lemma unat_u32_dec: "w \<noteq> (0 :: u32) \<Longrightarrow> Suc (unat (w - 1)) = unat w"
  by (metis Suc_pred' unat_gt_0 unat_minus_one)

lemma unat_of_nat_u32: "k < 2 ^ 32 \<Longrightarrow> unat (word_of_nat k :: u32) = k"
  by (simp add: unsigned_of_nat take_bit_nat_eq_self_iff)

lemma of_nat_u32_inj: "j < 2 ^ 32 \<Longrightarrow> k < 2 ^ 32 \<Longrightarrow> (word_of_nat j :: u32) = word_of_nat k \<Longrightarrow> j = k"
  by (metis unat_of_nat_u32)

end
