(* ===== verification/FD_Array.thy ===== *)
theory FD_Array
  imports HSCFS_Prelude
begin

text \<open>
  The table of file descriptors of \<^verbatim>\<open>src/fs/fd_array.cc\<close>. Descriptors are the C++ type
  \<^verbatim>\<open>int\<close>; a slot holds a pointer to an opened file or null. The table refines a partial
  map from descriptors to opened files in which the lowest free descriptor from 3 on is
  handed out.
\<close>

section \<open>State and operations\<close>

record 'f fd_array =
  fd_arr :: "'f option list"
  alloc_pos :: nat
  free_set :: "nat set"
  unclosed_fds :: "nat set"

definition fd_array_init :: "nat \<Rightarrow> 'f fd_array" where
  "fd_array_init n =
     \<lparr>fd_arr = replicate (max 3 n) None, alloc_pos = 3, free_set = {}, unclosed_fds = {}\<rparr>"

definition alloc_fd :: "'f \<Rightarrow> 'f fd_array \<Rightarrow> fault + (nat \<times> 'f fd_array)" where
  "alloc_fd f a =
     (if free_set a \<noteq> {} then
        let fd = Min (free_set a) in
        Inr (fd, a\<lparr>free_set := free_set a - {fd}, fd_arr := (fd_arr a)[fd := Some f],
                   unclosed_fds := insert fd (unclosed_fds a)\<rparr>)
      else if \<not> alloc_pos a \<le> length (fd_arr a) then Inl Assert_failed
      else
        let arr = (if alloc_pos a = length (fd_arr a)
                   then fd_arr a @ replicate (length (fd_arr a)) None else fd_arr a);
            fd = alloc_pos a in
        Inr (fd, a\<lparr>alloc_pos := alloc_pos a + 1, fd_arr := arr[fd := Some f],
                   unclosed_fds := insert fd (unclosed_fds a)\<rparr>))"

text \<open>A negative descriptor becomes a huge \<^verbatim>\<open>size_t\<close> and is out of range.\<close>

definition fd_slot :: "int \<Rightarrow> 'f fd_array \<Rightarrow> 'f option" where
  "fd_slot fd a = (if fd < 0 \<or> nat fd \<ge> length (fd_arr a) then None else fd_arr a ! nat fd)"

definition free_fd :: "int \<Rightarrow> 'f fd_array \<Rightarrow> fault + ('f \<times> 'f fd_array)" where
  "free_fd fd a =
     (case fd_slot fd a of
        None \<Rightarrow> Inl (Throw Invalid_fd)
      | Some f \<Rightarrow> Inr (f, a\<lparr>fd_arr := (fd_arr a)[nat fd := None],
                            free_set := insert (nat fd) (free_set a),
                            unclosed_fds := unclosed_fds a - {nat fd}\<rparr>))"

definition get_opened_file_of_fd :: "int \<Rightarrow> 'f fd_array \<Rightarrow> fault + 'f" where
  "get_opened_file_of_fd fd a =
     (case fd_slot fd a of None \<Rightarrow> Inl (Throw Invalid_fd) | Some f \<Rightarrow> Inr f)"

definition get_and_clear_unclosed_fds :: "'f fd_array \<Rightarrow> nat set \<times> 'f fd_array" where
  "get_and_clear_unclosed_fds a = (unclosed_fds a, a\<lparr>unclosed_fds := {}\<rparr>)"

section \<open>Abstraction and invariant\<close>

definition slots :: "'f option list \<Rightarrow> nat \<rightharpoonup> 'f" where
  "slots xs i = (if i < length xs then xs ! i else None)"

definition fd_map :: "'f fd_array \<Rightarrow> nat \<rightharpoonup> 'f" where
  "fd_map a = slots (fd_arr a)"

definition fd_inv :: "'f fd_array \<Rightarrow> bool" where
  "fd_inv a \<longleftrightarrow>
     3 \<le> alloc_pos a \<and> alloc_pos a \<le> length (fd_arr a) \<and>
     free_set a \<subseteq> {3..<alloc_pos a} \<and>
     dom (fd_map a) = {3..<alloc_pos a} - free_set a \<and> unclosed_fds a = dom (fd_map a)"

lemma fd_slot_map: "fd_slot fd a = (if fd < 0 then None else fd_map a (nat fd))"
  by (simp add: fd_slot_def fd_map_def slots_def)

lemma fd_invD:
  assumes "fd_inv a"
  shows "3 \<le> alloc_pos a" "alloc_pos a \<le> length (fd_arr a)" "finite (free_set a)"
    "free_set a \<subseteq> {3..<alloc_pos a}" "dom (fd_map a) = {3..<alloc_pos a} - free_set a"
    "unclosed_fds a = dom (fd_map a)"
  using assms finite_subset [of "free_set a" "{3..<alloc_pos a}"] by (auto simp: fd_inv_def)

lemma slots_update: "i < length xs \<Longrightarrow> slots (xs[i := x]) = (slots xs)(i := x)"
  by (auto simp: slots_def fun_eq_iff nth_list_update)

lemma slots_grow: "slots (xs @ replicate n None) = slots xs"
  by (auto simp: slots_def fun_eq_iff nth_append)

lemma slots_replicate: "slots (replicate n None) = Map.empty"
  by (auto simp: slots_def fun_eq_iff)

lemma fd_array_init_inv: "fd_inv (fd_array_init n)" "fd_map (fd_array_init n) = Map.empty"
  by (simp_all add: fd_inv_def fd_array_init_def fd_map_def slots_replicate)

lemma alloc_fd_reuse:
  assumes "fd_inv a" "free_set a \<noteq> {}"
  shows "\<exists>a'. alloc_fd f a = Inr (Min (free_set a), a') \<and> fd_inv a' \<and>
    fd_map a' = (fd_map a)(Min (free_set a) \<mapsto> f)"
proof -
  note d = fd_invD [OF assms(1)]
  let ?fd = "Min (free_set a)"
  have fd: "?fd \<in> free_set a" using d(3) assms(2) by simp
  then have r: "3 \<le> ?fd" "?fd < alloc_pos a" using d(4) by auto
  let ?a = "a\<lparr>free_set := free_set a - {?fd}, fd_arr := (fd_arr a)[?fd := Some f],
                   unclosed_fds := insert ?fd (unclosed_fds a)\<rparr>"
  have m: "fd_map ?a = (fd_map a)(?fd \<mapsto> f)"
    using r d(2) by (simp add: fd_map_def slots_update)
  have "fd_inv ?a"
    using d r fd unfolding fd_inv_def m by auto
  then show ?thesis using assms(2) m by (simp add: alloc_fd_def Let_def)
qed

lemma alloc_fd_fresh:
  assumes "fd_inv a" "free_set a = {}"
  shows "\<exists>a'. alloc_fd f a = Inr (alloc_pos a, a') \<and> fd_inv a' \<and> fd_map a' = (fd_map a)(alloc_pos a \<mapsto> f)"
proof -
  note d = fd_invD [OF assms(1)]
  define arr where "arr = (if alloc_pos a = length (fd_arr a)
                   then fd_arr a @ replicate (length (fd_arr a)) None else fd_arr a)"
  let ?a = "a\<lparr>alloc_pos := alloc_pos a + 1, fd_arr := arr[alloc_pos a := Some f],
                   unclosed_fds := insert (alloc_pos a) (unclosed_fds a)\<rparr>"
  have b: "slots arr = fd_map a" by (simp add: arr_def fd_map_def slots_grow)
  have l: "alloc_pos a < length arr" using d(1,2) by (auto simp: arr_def)
  have m: "fd_map ?a = (fd_map a)(alloc_pos a \<mapsto> f)"
    using slots_update [OF l, of "Some f"] b by (simp add: fd_map_def)
  have "fd_inv ?a" using d l assms(2) unfolding fd_inv_def m by auto
  then show ?thesis using assms(2) d(2) m by (simp add: alloc_fd_def Let_def arr_def)
qed

lemma free_fd_ok:
  assumes "fd_inv a" "0 \<le> fd" "fd_map a (nat fd) = Some f"
  shows "\<exists>a'. free_fd fd a = Inr (f, a') \<and> fd_inv a' \<and> fd_map a' = (fd_map a)(nat fd := None)"
proof -
  note d = fd_invD [OF assms(1)]
  have "nat fd \<in> dom (fd_map a)" using assms(3) by blast
  then have r: "3 \<le> nat fd" "nat fd < alloc_pos a" "nat fd \<notin> free_set a" using d(5) by auto
  let ?a = "a\<lparr>fd_arr := (fd_arr a)[nat fd := None], free_set := insert (nat fd) (free_set a),
              unclosed_fds := unclosed_fds a - {nat fd}\<rparr>"
  have m: "fd_map ?a = (fd_map a)(nat fd := None)"
    using r d(2) by (simp add: fd_map_def slots_update)
  have "fd_inv ?a" using d r unfolding fd_inv_def m by auto
  then show ?thesis using m assms(2,3) by (simp add: free_fd_def fd_slot_map)
qed

section \<open>Properties\<close>

text \<open>
  C34. \<open>alloc_fd\<close> never fails, returns the lowest descriptor from 3 on that is not open, and
  binds exactly that descriptor, growing the table when it is full.
\<close>

theorem alloc_fd_lowest:
  assumes "fd_inv a"
  shows "\<exists>fd a'. alloc_fd f a = Inr (fd, a') \<and> fd_inv a' \<and> fd_map a' = (fd_map a)(fd \<mapsto> f) \<and>
    3 \<le> fd \<and> fd_map a fd = None \<and> (\<forall>i. 3 \<le> i \<and> i < fd \<longrightarrow> fd_map a i \<noteq> None)"
proof -
  note d = fd_invD [OF assms]
  show ?thesis
  proof (cases "free_set a = {}")
    case True
    have "fd_map a (alloc_pos a) = None" using d(5) True by auto
    moreover have "\<forall>i. 3 \<le> i \<and> i < alloc_pos a \<longrightarrow> fd_map a i \<noteq> None"
    proof (intro allI impI)
      fix i assume "3 \<le> i \<and> i < alloc_pos a"
      then have "i \<in> dom (fd_map a)" using d(5) True by simp
      then show "fd_map a i \<noteq> None" by blast
    qed
    ultimately show ?thesis using alloc_fd_fresh [OF assms True, of f] d(1) by blast
  next
    case False
    let ?fd = "Min (free_set a)"
    have fd: "?fd \<in> free_set a" using d(3) False by simp
    then have "?fd \<notin> dom (fd_map a)" "3 \<le> ?fd" "?fd < alloc_pos a" using d(4,5) by auto
    moreover from this(1) have "fd_map a ?fd = None" by blast
    moreover have "\<forall>i. 3 \<le> i \<and> i < ?fd \<longrightarrow> fd_map a i \<noteq> None"
    proof (intro allI impI)
      fix i assume i: "3 \<le> i \<and> i < ?fd"
      then have "i \<notin> free_set a" using d(3) Min_le by (metis leD)
      then have "i \<in> dom (fd_map a)" using d(5) i \<open>?fd < alloc_pos a\<close> by simp
      then show "fd_map a i \<noteq> None" by blast
    qed
    ultimately show ?thesis using alloc_fd_reuse [OF assms False, of f] by blast
  qed
qed

theorem alloc_fd_lowest_witness:
  "\<exists>a'. alloc_fd ''f'' (fd_array_init 3) = Inr (3, a') \<and> fd_map a' = [3 \<mapsto> ''f'']"
proof -
  let ?a = "fd_array_init 3 :: string fd_array"
  obtain fd a' where a': "alloc_fd ''f'' ?a = Inr (fd, a')" "fd_map a' = (fd_map ?a)(fd \<mapsto> ''f'')" "3 \<le> fd"
      "\<forall>i. 3 \<le> i \<and> i < fd \<longrightarrow> fd_map ?a i \<noteq> None"
    using alloc_fd_lowest [OF fd_array_init_inv(1), of "''f''" 3] by blast
  have e: "fd_map ?a = Map.empty" by (rule fd_array_init_inv(2))
  then have "fd = 3" using a'(3,4) by (metis le_neq_implies_less order_refl)
  with a' e show ?thesis by simp
qed

text \<open>
  Closing and looking up: for an open descriptor \<open>free_fd\<close> returns its file and unbinds
  exactly that descriptor, and \<open>get_opened_file_of_fd\<close> returns its file; for any other
  value, negative ones and ones beyond the table included, both throw \<^verbatim>\<open>invalid_fd\<close>.
\<close>

theorem fd_lookup_and_free:
  assumes "fd_inv a"
  shows "case (if fd < 0 then None else fd_map a (nat fd)) of
      None \<Rightarrow> free_fd fd a = Inl (Throw Invalid_fd) \<and> get_opened_file_of_fd fd a = Inl (Throw Invalid_fd)
    | Some f \<Rightarrow> get_opened_file_of_fd fd a = Inr f \<and>
        (\<exists>a'. free_fd fd a = Inr (f, a') \<and> fd_inv a' \<and> fd_map a' = (fd_map a)(nat fd := None))"
  using free_fd_ok [OF assms, of fd]
  by (auto simp: free_fd_def get_opened_file_of_fd_def fd_slot_map split: option.splits)

theorem fd_lookup_and_free_witness:
  "free_fd (-1) (fd_array_init 8 :: string fd_array) = Inl (Throw Invalid_fd)"
proof -
  have "fd_inv (fd_array_init 8 :: string fd_array)" by (rule fd_array_init_inv(1))
  from fd_lookup_and_free [OF this, of "-1"] show ?thesis by simp
qed

end
