(* ===== verification/Path_Utils.thy ===== *)
theory Path_Utils
  imports HSCFS_Prelude
begin

text \<open>
  Path strings of \<^verbatim>\<open>src/fs/path_utils.cc\<close>: the iterator over the components of a path, the
  helpers that split a user path, and the construction of the SSD's path lookup task. The
  iterator is shown to visit exactly the non-empty pieces between slashes.
\<close>

section \<open>String search\<close>

text \<open>The standard string searches give a position, or \<^verbatim>\<open>npos\<close> (here \<open>None\<close>).\<close>

primrec find_first :: "(char \<Rightarrow> bool) \<Rightarrow> string \<Rightarrow> nat option" where
  "find_first P [] = None"
| "find_first P (c # cs) = (if P c then Some 0 else map_option Suc (find_first P cs))"

definition find_from :: "(char \<Rightarrow> bool) \<Rightarrow> string \<Rightarrow> nat \<Rightarrow> nat option" where
  "find_from P s pos = map_option ((+) pos) (find_first P (drop pos s))"

primrec find_last :: "(char \<Rightarrow> bool) \<Rightarrow> string \<Rightarrow> nat option" where
  "find_last P [] = None"
| "find_last P (c # cs) =
     (case find_last P cs of Some i \<Rightarrow> Some (Suc i) | None \<Rightarrow> if P c then Some 0 else None)"

definition or_length :: "nat option \<Rightarrow> string \<Rightarrow> nat" where
  "or_length p s = (case p of None \<Rightarrow> length s | Some i \<Rightarrow> i)"

abbreviation slash :: char where "slash \<equiv> CHR ''/''"

section \<open>The component iterator\<close>

record path_dentry_iterator =
  it_path :: string
  cur_pos :: nat
  nxt_start_pos :: "nat option"

definition it_begin :: "string \<Rightarrow> path_dentry_iterator" where
  "it_begin p = \<lparr>it_path = p, cur_pos = 0, nxt_start_pos = None\<rparr>"

definition it_end :: "string \<Rightarrow> path_dentry_iterator" where
  "it_end p = \<lparr>it_path = p, cur_pos = length p, nxt_start_pos = None\<rparr>"

definition it_start_pos :: "path_dentry_iterator \<Rightarrow> nat" where
  "it_start_pos it = or_length (find_from (\<lambda>c. c \<noteq> slash) (it_path it) (cur_pos it)) (it_path it)"

definition it_end_pos :: "path_dentry_iterator \<Rightarrow> nat" where
  "it_end_pos it = or_length (find_from (\<lambda>c. c = slash) (it_path it) (it_start_pos it)) (it_path it)"

definition it_get :: "path_dentry_iterator \<Rightarrow> string \<times> path_dentry_iterator" where
  "it_get it =
     (take (it_end_pos it - it_start_pos it) (drop (it_start_pos it) (it_path it)),
      if nxt_start_pos it = None then it\<lparr>nxt_start_pos := Some (it_end_pos it)\<rparr> else it)"

definition it_next :: "path_dentry_iterator \<Rightarrow> path_dentry_iterator" where
  "it_next it =
     (let it' = (if nxt_start_pos it = None then snd (it_get it) else it) in
      it'\<lparr>cur_pos := the (nxt_start_pos it'), nxt_start_pos := None\<rparr>)"

definition is_pos_equal :: "string \<Rightarrow> nat \<Rightarrow> nat \<Rightarrow> bool" where
  "is_pos_equal p pos1 pos2 \<longleftrightarrow>
     pos1 = pos2 \<or> find_from (\<lambda>c. c \<noteq> slash) p pos1 = find_from (\<lambda>c. c \<noteq> slash) p pos2"

text \<open>Iterators compared are always of the same parser.\<close>

definition it_eq :: "path_dentry_iterator \<Rightarrow> path_dentry_iterator \<Rightarrow> bool" where
  "it_eq a b \<longleftrightarrow> is_pos_equal (it_path a) (cur_pos a) (cur_pos b)"

definition is_last_component :: "path_dentry_iterator \<Rightarrow> bool" where
  "is_last_component it = it_eq (it_next it) (it_end (it_path it))"

section \<open>User paths\<close>

text \<open>\<open>prefix\<close> is the build option \<^verbatim>\<open>CONFIG_PATH_PREFIX\<close>, absent by default.\<close>

definition is_prefix_valid :: "string \<Rightarrow> string \<Rightarrow> bool" where
  "is_prefix_valid user_path pre \<longleftrightarrow> take (length pre) user_path = pre"

definition extract_abs_path :: "string option \<Rightarrow> string \<Rightarrow> fault + string" where
  "extract_abs_path pre path =
     (case pre of
        Some p \<Rightarrow>
          if \<not> is_prefix_valid path p then Inl (Throw User_path_invalid)
          else if length path \<le> length p \<or> path ! length p \<noteq> slash then Inl (Throw User_path_invalid)
          else Inr (drop (length p) path)
      | None \<Rightarrow>
          if length path = 0 \<or> path ! 0 \<noteq> slash then Inl (Throw User_path_invalid) else Inr path)"

definition extract_dir_path :: "string \<Rightarrow> fault + string" where
  "extract_dir_path path =
     (case find_last (\<lambda>c. c = slash) path of
        None \<Rightarrow> Inl Assert_failed | Some pos \<Rightarrow> Inr (take (Suc pos) path))"

definition extract_file_name :: "string \<Rightarrow> fault + string" where
  "extract_file_name path =
     (case find_last (\<lambda>c. c = slash) path of
        None \<Rightarrow> Inl Assert_failed | Some pos \<Rightarrow> Inr (drop (Suc pos) path))"

section \<open>The path lookup task\<close>

record path_lookup_task =
  start_ino :: u32
  pathlen :: nat
  depth :: nat
  task_bytes :: string

text \<open>
  The loops that run an iterator up to the end; \<open>n\<close> bounds the number of rounds, and
  \<open>None\<close> means that it was not enough.
\<close>

fun it_names :: "nat \<Rightarrow> path_dentry_iterator \<Rightarrow> string list option" where
  "it_names 0 it = None"
| "it_names (Suc n) it =
     (if it_eq it (it_end (it_path it)) then Some []
      else map_option ((#) (fst (it_get it))) (it_names n (it_next (snd (it_get it)))))"

text \<open>Writing into the task's buffer; a write beyond its end is undefined.\<close>

definition buf_write :: "nat \<Rightarrow> string \<Rightarrow> string \<Rightarrow> fault + string" where
  "buf_write pos s buf =
     (if pos + length s \<le> length buf then Inr (take pos buf @ s @ drop (pos + length s) buf)
      else Inl Undefined)"

fun write_components :: "string list \<Rightarrow> nat \<Rightarrow> string \<Rightarrow> fault + string" where
  "write_components [] pos buf = Inr buf"
| "write_components (w # ws) pos buf =
     (if \<not> pos < length buf then Inl Assert_failed
      else obind (buf_write pos w buf) (\<lambda>b1.
           obind (buf_write (pos + length w) [slash] b1) (\<lambda>b2.
           write_components ws (pos + length w + 1) b2)))"

definition upper_align :: "nat \<Rightarrow> nat \<Rightarrow> nat" where
  "upper_align siz align = (siz + align - 1) div align * align"

text \<open>The size of the header, \<^verbatim>\<open>sizeof(path_lookup_task)\<close>.\<close>

abbreviation task_header_size :: nat where "task_header_size \<equiv> 12"

definition construct_task :: "bool \<Rightarrow> u32 \<Rightarrow> path_dentry_iterator \<Rightarrow> fault + path_lookup_task" where
  "construct_task alloc_ok ino it =
     (case it_names (Suc (length (it_path it))) it of
        None \<Rightarrow> Inl Undefined
      | Some names \<Rightarrow>
          let dpt = length names; total = sum_list (map length names) in
          if dpt = 0 \<or> total = 0 then Inl Assert_failed
          else
            let path_len = total + dpt - 1;
                task_size = upper_align (task_header_size + path_len) 4 in
            if \<not> alloc_ok then Inl (Throw Alloc_error)
            else obind (write_components names task_header_size (replicate task_size (CHR 0x00))) (\<lambda>buf.
              Inr \<lparr>start_ino = ino, pathlen = path_len, depth = dpt, task_bytes = buf\<rparr>))"

section \<open>The specification: pieces between slashes\<close>

primrec split_slash :: "string \<Rightarrow> string list" where
  "split_slash [] = [[]]"
| "split_slash (c # cs) =
     (if c = slash then [] # split_slash cs
      else (c # hd (split_slash cs)) # tl (split_slash cs))"

definition components :: "string \<Rightarrow> string list" where
  "components s = filter (\<lambda>w. w \<noteq> []) (split_slash s)"

fun join_slash :: "string list \<Rightarrow> string" where
  "join_slash [] = []"
| "join_slash [w] = w"
| "join_slash (w # ws) = w @ slash # join_slash ws"

lemma split_slash_ne: "split_slash s \<noteq> []"
  by (induction s) auto

lemma join_split: "join_slash (split_slash s) = s"
proof (induction s)
  case (Cons c s)
  obtain w ws where s: "split_slash s = w # ws" using split_slash_ne by (cases "split_slash s") auto
  show ?case
    using Cons s by (cases ws) auto
qed simp

lemma split_no_slash: "w \<in> set (split_slash s) \<Longrightarrow> slash \<notin> set w"
proof (induction s arbitrary: w)
  case (Cons c s)
  have "set (split_slash s) = insert (hd (split_slash s)) (set (tl (split_slash s)))"
    using split_slash_ne [of s] by (cases "split_slash s") auto
  with Cons show ?case by (auto split: if_splits)
qed simp

lemma split_append: "slash \<notin> set w \<Longrightarrow> split_slash (w @ s) = (w @ hd (split_slash s)) # tl (split_slash s)"
  by (induction w) (use split_slash_ne in auto)

lemma components_Nil: "components [] = []"
  by (simp add: components_def)

lemma components_skip: "components (dropWhile (\<lambda>c. c = slash) s) = components s"
  by (induction s) (auto simp: components_def)

lemma components_word:
  assumes "s \<noteq> []" "hd s \<noteq> slash"
  shows "components s = takeWhile (\<lambda>c. c \<noteq> slash) s # components (dropWhile (\<lambda>c. c \<noteq> slash) s)"
proof -
  let ?w = "takeWhile (\<lambda>c. c \<noteq> slash) s" and ?r = "dropWhile (\<lambda>c. c \<noteq> slash) s"
  have w: "slash \<notin> set ?w" by (auto dest: set_takeWhileD)
  have ne: "?w \<noteq> []" using assms by (cases s) simp_all
  have "hd (split_slash ?r) = []"
  proof (cases ?r)
    case (Cons c r)
    then have "c = slash" using hd_dropWhile [of "\<lambda>c. c \<noteq> slash" s] by simp
    with Cons show ?thesis by simp
  next
    case Nil
    show ?thesis unfolding Nil by simp
  qed
  then have "split_slash s = ?w # tl (split_slash ?r)"
    using split_append [OF w, of ?r] by simp
  moreover have "components ?r = filter (\<lambda>w. w \<noteq> []) (tl (split_slash ?r))"
    using \<open>hd (split_slash ?r) = []\<close> split_slash_ne [of ?r]
    by (cases "split_slash ?r") (auto simp: components_def)
  ultimately show ?thesis using ne by (simp add: components_def)
qed

section \<open>The iterator visits the components\<close>

lemma find_first_dropWhile:
  "find_first P s = (if dropWhile (\<lambda>c. \<not> P c) s = [] then None else Some (length (takeWhile (\<lambda>c. \<not> P c) s)))"
  by (induction s) auto

text \<open>The iterator's cached next position, when present, is the right one.\<close>

definition it_wf :: "path_dentry_iterator \<Rightarrow> bool" where
  "it_wf it \<longleftrightarrow> cur_pos it \<le> length (it_path it) \<and>
     (nxt_start_pos it = None \<or> nxt_start_pos it = Some (it_end_pos it))"

text \<open>What is left to visit, as a string.\<close>

definition it_rest :: "path_dentry_iterator \<Rightarrow> string" where
  "it_rest it = drop (cur_pos it) (it_path it)"

lemma it_start_pos_val:
  assumes "cur_pos it \<le> length (it_path it)"
  shows "it_start_pos it = cur_pos it + length (takeWhile (\<lambda>c. c = slash) (it_rest it))"
    "drop (it_start_pos it) (it_path it) = dropWhile (\<lambda>c. c = slash) (it_rest it)"
proof -
  let ?r = "it_rest it"
  show s: "it_start_pos it = cur_pos it + length (takeWhile (\<lambda>c. c = slash) ?r)"
  proof (cases "dropWhile (\<lambda>c. c = slash) ?r = []")
    case True
    then have "length (takeWhile (\<lambda>c. c = slash) ?r) = length ?r" by (metis append_Nil2 takeWhile_dropWhile_id)
    with True assms show ?thesis
      by (simp add: it_start_pos_def or_length_def find_from_def find_first_dropWhile it_rest_def)
  next
    case False
    then show ?thesis
      by (auto simp add: it_start_pos_def or_length_def find_from_def find_first_dropWhile it_rest_def)
  qed
  show "drop (it_start_pos it) (it_path it) = dropWhile (\<lambda>c. c = slash) ?r"
    unfolding s using dropWhile_eq_drop [of "\<lambda>c. c = slash" ?r] by (simp add: it_rest_def add.commute)
qed

lemma it_end_pos_val:
  assumes "cur_pos it \<le> length (it_path it)"
  defines "r \<equiv> dropWhile (\<lambda>c. c = slash) (it_rest it)"
  shows "it_end_pos it = it_start_pos it + length (takeWhile (\<lambda>c. c \<noteq> slash) r)"
    "drop (it_end_pos it) (it_path it) = dropWhile (\<lambda>c. c \<noteq> slash) r"
    "fst (it_get it) = takeWhile (\<lambda>c. c \<noteq> slash) r" "it_start_pos it \<le> length (it_path it)"
proof -
  note st = it_start_pos_val [OF assms(1), folded r_def]
  show sl: "it_start_pos it \<le> length (it_path it)"
    using st(1) assms(1) length_takeWhile_le [of "\<lambda>c. c = slash" "it_rest it"] by (simp add: it_rest_def)
  show e: "it_end_pos it = it_start_pos it + length (takeWhile (\<lambda>c. c \<noteq> slash) r)"
  proof (cases "dropWhile (\<lambda>c. c \<noteq> slash) r = []")
    case True
    then have "length (takeWhile (\<lambda>c. c \<noteq> slash) r) = length r" by (metis append_Nil2 takeWhile_dropWhile_id)
    moreover have "length r = length (it_path it) - it_start_pos it" using st(2) by (metis length_drop)
    ultimately show ?thesis
      using True sl st(2) by (simp add: it_end_pos_def or_length_def find_from_def find_first_dropWhile)
  next
    case False
    then show ?thesis
      using st(2) by (auto simp add: it_end_pos_def or_length_def find_from_def find_first_dropWhile)
  qed
  have "drop (it_end_pos it) (it_path it) = drop (length (takeWhile (\<lambda>c. c \<noteq> slash) r)) r"
    unfolding e st(2) [symmetric] by (simp add: add.commute)
  then show "drop (it_end_pos it) (it_path it) = dropWhile (\<lambda>c. c \<noteq> slash) r"
    by (simp add: dropWhile_eq_drop)
  show "fst (it_get it) = takeWhile (\<lambda>c. c \<noteq> slash) r"
    using st(2) e by (simp add: it_get_def takeWhile_eq_take [symmetric])
qed

lemma it_eq_end:
  assumes "cur_pos it \<le> length (it_path it)"
  shows "it_eq it (it_end (it_path it)) \<longleftrightarrow> dropWhile (\<lambda>c. c = slash) (it_rest it) = []"
  using assms
  by (auto simp: it_eq_def is_pos_equal_def it_end_def find_from_def find_first_dropWhile it_rest_def)

lemma it_next_get:
  assumes "it_wf it"
  shows "it_wf (it_next (snd (it_get it)))" "it_path (it_next (snd (it_get it))) = it_path it"
    "it_rest (it_next (snd (it_get it))) = dropWhile (\<lambda>c. c \<noteq> slash) (dropWhile (\<lambda>c. c = slash) (it_rest it))"
proof -
  have cur: "cur_pos it \<le> length (it_path it)" using assms by (simp add: it_wf_def)
  have n: "it_next (snd (it_get it)) = it\<lparr>cur_pos := it_end_pos it, nxt_start_pos := None\<rparr>"
    using assms by (auto simp: it_next_def it_get_def it_wf_def Let_def)
  note e = it_end_pos_val [OF cur]
  have "it_end_pos it \<le> length (it_path it)"
    using e(1,4) it_start_pos_val(2) [OF cur] length_takeWhile_le
    by (metis add_le_cancel_left le_add_diff_inverse length_drop)
  then show "it_wf (it_next (snd (it_get it)))" by (simp add: n it_wf_def)
  show "it_path (it_next (snd (it_get it))) = it_path it" by (simp add: n)
  show "it_rest (it_next (snd (it_get it))) = dropWhile (\<lambda>c. c \<noteq> slash) (dropWhile (\<lambda>c. c = slash) (it_rest it))"
    using e(2) by (simp add: n it_rest_def)
qed

lemma it_names_components:
  assumes "it_wf it" "length (it_rest it) < n"
  shows "it_names n it = Some (components (it_rest it))"
  using assms
proof (induction n arbitrary: it)
  case (Suc n)
  have cur: "cur_pos it \<le> length (it_path it)" using Suc.prems by (simp add: it_wf_def)
  let ?r = "dropWhile (\<lambda>c. c = slash) (it_rest it)"
  show ?case
  proof (cases "?r = []")
    case True
    then have "components (it_rest it) = []" by (metis components_skip components_Nil)
    with True it_eq_end [OF cur] show ?thesis by simp
  next
    case False
    then have hd: "hd ?r \<noteq> slash" by (rule hd_dropWhile)
    have len: "length (dropWhile (\<lambda>c. c \<noteq> slash) ?r) < length ?r"
      using False hd by (cases ?r) (auto simp: le_imp_less_Suc length_dropWhile_le)
    then have "length (it_rest (it_next (snd (it_get it)))) < n"
      using Suc.prems(2) length_dropWhile_le [of "\<lambda>c. c = slash" "it_rest it"]
      unfolding it_next_get(3) [OF Suc.prems(1)] by linarith
    from Suc.IH [OF it_next_get(1) [OF Suc.prems(1)] this]
    show ?thesis
      using it_eq_end [OF cur] False it_end_pos_val(3) [OF cur] components_word [OF False hd]
        components_skip [of "it_rest it"] it_next_get(3) [OF Suc.prems(1)] by simp
  qed
qed simp

section \<open>Building the task\<close>

lemma buf_write_mid:
  "buf_write (length a) s (a @ b @ c) = Inr (a @ s @ c)" if "length b = length s"
  using that by (simp add: buf_write_def)

text \<open>Each component is followed by a slash, the last one too.\<close>

lemma write_components_fits:
  "length b = sum_list (map length ws) + length ws \<Longrightarrow>
   write_components ws (length a) (a @ b @ c) = Inr (a @ concat (map (\<lambda>w. w @ [slash]) ws) @ c)"
proof (induction ws arbitrary: a b)
  case (Cons w ws)
  define b1 where "b1 = take (length w) b"
  define b2 where "b2 = drop (Suc (length w)) b"
  define x where "x = b ! length w"
  have l: "length w < length b" using Cons.prems by simp
  have b: "b = b1 @ [x] @ b2" "length b1 = length w"
    using l id_take_nth_drop [OF l] by (simp_all add: b1_def b2_def x_def)
  have s1: "buf_write (length a) w (a @ b @ c) = Inr (a @ w @ [x] @ b2 @ c)"
    using buf_write_mid [of b1 w a "[x] @ b2 @ c"] b by simp
  have s2: "buf_write (length a + length w) [slash] (a @ w @ [x] @ b2 @ c) = Inr (a @ w @ [slash] @ b2 @ c)"
    using buf_write_mid [of "[x]" "[slash]" "a @ w" "b2 @ c"] by simp
  have "length b2 = sum_list (map length ws) + length ws" using Cons.prems by (simp add: b2_def)
  from Cons.IH [OF this, of "a @ w @ [slash]"] Cons.prems s1 s2 show ?case by simp
qed simp

lemma write_components_short:
  "ws \<noteq> [] \<Longrightarrow> length b + 1 = sum_list (map length ws) + length ws \<Longrightarrow> (\<forall>w \<in> set ws. w \<noteq> []) \<Longrightarrow>
   write_components ws (length a) (a @ b) = Inl Undefined"
proof (induction ws arbitrary: a b)
  case (Cons w ws)
  show ?case
  proof (cases "ws = []")
    case True
    with Cons.prems show ?thesis
      by (cases "b = []") (auto simp: buf_write_def)
  next
    case False
    then obtain v vs where ws: "ws = v # vs" by (cases ws) auto
    define b1 where "b1 = take (length w) b"
    define b2 where "b2 = drop (Suc (length w)) b"
    define x where "x = b ! length w"
    have l: "length w < length b" using Cons.prems ws by (cases v) auto
    have b: "b = b1 @ [x] @ b2" "length b1 = length w"
      using l id_take_nth_drop [OF l] by (simp_all add: b1_def b2_def x_def)
    have s1: "buf_write (length a) w (a @ b) = Inr (a @ w @ [x] @ b2)"
      using buf_write_mid [of b1 w a "[x] @ b2"] b by simp
    have s2: "buf_write (length a + length w) [slash] (a @ w @ [x] @ b2) = Inr (a @ w @ [slash] @ b2)"
      using buf_write_mid [of "[x]" "[slash]" "a @ w" b2] by simp
    have "length b2 + 1 = sum_list (map length ws) + length ws" using Cons.prems l by (simp add: b2_def)
    from Cons.IH [OF False this, of "a @ w @ [slash]"] Cons.prems s1 s2 l show ?thesis by auto
  qed
qed simp

lemma concat_join:
  "ws \<noteq> [] \<Longrightarrow> concat (map (\<lambda>w. w @ [slash]) ws) = join_slash ws @ [slash]"
  by (induction ws rule: join_slash.induct) auto

lemma length_join:
  "ws \<noteq> [] \<Longrightarrow> length (join_slash ws) = sum_list (map length ws) + length ws - 1"
  by (induction ws rule: join_slash.induct) auto

lemma upper_align_4:
  "upper_align (12 + n) 4 = 12 + n + (if n mod 4 = 0 then 0 else 4 - n mod 4)"
  unfolding upper_align_def by presburger

section \<open>Properties\<close>

text \<open>
  The iterator, started at any position of a path and run to the end, visits exactly the
  non-empty pieces between slashes of what is left of the path, in order, in at most as many
  rounds as there are characters left.
\<close>

theorem path_iteration:
  assumes "it_wf it" "length (it_rest it) < n"
  shows "it_names n it = Some (components (it_rest it))"
  by (rule it_names_components [OF assms])

theorem path_iteration_witness:
  "it_names 13 (it_begin ''/home//a.txt'') = Some [''home'', ''a.txt'']"
proof -
  have "it_wf (it_begin ''/home//a.txt'')" "length (it_rest (it_begin ''/home//a.txt'')) < 13"
    by (simp_all add: it_wf_def it_begin_def it_rest_def)
  from path_iteration [OF this] show ?thesis by (simp add: it_begin_def it_rest_def components_def)
qed

text \<open>
  C35. The lookup task. For a path with components left, the task holds the number of
  components, the length of the components joined by single slashes, and that text right
  after the header, provided that this length is not a multiple of four; otherwise the slash
  written after the last component lies one byte beyond the buffer.
\<close>

theorem construct_task_layout:
  assumes "it_wf it" "components (it_rest it) \<noteq> []"
  defines "text \<equiv> join_slash (components (it_rest it))"
  shows "if length text mod 4 = 0 then construct_task True ino it = Inl Undefined
    else \<exists>task. construct_task True ino it = Inr task \<and> start_ino task = ino \<and>
      pathlen task = length text \<and> depth task = length (components (it_rest it)) \<and>
      take (pathlen task) (drop task_header_size (task_bytes task)) = text"
proof -
  let ?ws = "components (it_rest it)"
  have ne: "\<forall>w \<in> set ?ws. w \<noteq> []" by (simp add: components_def)
  have len: "length text = sum_list (map length ?ws) + length ?ws - 1"
    unfolding text_def by (rule length_join [OF assms(2)])
  obtain w ws where ws: "?ws = w # ws" using assms(2) by (cases ?ws) auto
  then have tot: "sum_list (map length ?ws) \<noteq> 0" using ne by auto
  have "length (it_rest it) < Suc (length (it_path it))" by (simp add: it_rest_def)
  then have names: "it_names (Suc (length (it_path it))) it = Some ?ws"
    using it_names_components [OF assms(1)] by blast
  let ?pad = "if length text mod 4 = 0 then 0 else 4 - length text mod 4"
  have size: "upper_align (12 + length text) 4 = 12 + (length text + ?pad)" by (simp add: upper_align_4)
  have run: "construct_task True ino it =
      obind (write_components ?ws 12 (replicate (12 + (length text + ?pad)) (CHR 0x00))) (\<lambda>buf.
        Inr \<lparr>start_ino = ino, pathlen = length text, depth = length ?ws, task_bytes = buf\<rparr>)"
  proof -
    have "\<not> (length ?ws = 0 \<or> sum_list (map length ?ws) = 0)" using assms(2) tot by blast
    then show ?thesis
      unfolding construct_task_def names
      by (simp only: option.case Let_def if_False len [symmetric] size not_True_eq_False)
  qed
  let ?hd = "replicate 12 (CHR 0x00)"
  show ?thesis
  proof (cases "length text mod 4 = 0")
    case True
    have "length (replicate (length text) (CHR 0x00)) + 1 = sum_list (map length ?ws) + length ?ws"
      using len ws by simp
    from write_components_short [OF assms(2) this ne, of ?hd] True run show ?thesis
      by (simp add: replicate_add)
  next
    case False
    define p where "p = ?pad - 1"
    have p: "?pad = Suc p" using False by (simp add: p_def)
    have n: "12 + (length text + ?pad) = 12 + ((length text + 1) + p)" using p by simp
    have rep: "replicate (12 + (length text + ?pad)) (CHR 0x00) =
        ?hd @ replicate (length text + 1) (CHR 0x00) @ replicate p (CHR 0x00)"
      unfolding n by (simp only: replicate_add append_assoc)
    have "length (replicate (length text + 1) (CHR 0x00)) = sum_list (map length ?ws) + length ?ws"
      using len ws by simp
    from write_components_fits [OF this, of ?hd "replicate p (CHR 0x00)"]
    have "write_components ?ws 12 (replicate (12 + (length text + ?pad)) (CHR 0x00)) =
        Inr (?hd @ text @ slash # replicate p (CHR 0x00))"
      unfolding rep by (simp add: concat_join [OF assms(2)] text_def)
    then have "construct_task True ino it = Inr \<lparr>start_ino = ino, pathlen = length text, depth = length ?ws,
        task_bytes = ?hd @ text @ slash # replicate p (CHR 0x00)\<rparr>"
      unfolding run by simp
    then show ?thesis using False by simp
  qed
qed

theorem construct_task_layout_witness:
  "construct_task True 2 (it_begin ''/home'') = Inl Undefined \<and>
   (\<exists>task. construct_task True 2 (it_begin ''/home/x'') = Inr task \<and> pathlen task = 6)"
proof -
  have "it_wf (it_begin ''/home'')" "it_wf (it_begin ''/home/x'')"
    "components (it_rest (it_begin ''/home'')) = [''home'']"
    "components (it_rest (it_begin ''/home/x'')) = [''home'', ''x'']"
    by (simp_all add: it_wf_def it_begin_def it_rest_def components_def)
  then show ?thesis
    using construct_task_layout [of "it_begin ''/home''" 2] construct_task_layout [of "it_begin ''/home/x''" 2]
    by auto
qed

text \<open>
  Splitting a path at its last slash: the directory part and the file name joined give
  the path back, the directory part ends in a slash and the file name contains none.
\<close>

theorem dir_and_file_name:
  assumes "slash \<in> set path"
  shows "\<exists>d f. extract_dir_path path = Inr (d @ [slash]) \<and> extract_file_name path = Inr f \<and>
    (d @ [slash]) @ f = path \<and> slash \<notin> set f"
proof -
  have "find_last (\<lambda>c. c = slash) s = None \<longleftrightarrow> slash \<notin> set s" for s
    by (induction s) (auto split: option.splits)
  moreover have "find_last (\<lambda>c. c = slash) s = Some i \<Longrightarrow>
     i < length s \<and> s ! i = slash \<and> slash \<notin> set (drop (Suc i) s)" for s i
    using calculation by (induction s arbitrary: i) (auto split: option.splits if_splits)
  ultimately obtain i where i: "find_last (\<lambda>c. c = slash) path = Some i" "i < length path" "path ! i = slash"
      "slash \<notin> set (drop (Suc i) path)"
    using assms by (cases "find_last (\<lambda>c. c = slash) path") auto
  have "take (Suc i) path = take i path @ [slash]" using i by (simp add: take_Suc_conv_app_nth)
  then show ?thesis using i by (auto simp: extract_dir_path_def extract_file_name_def) (metis append_take_drop_id append.assoc append_Cons append_Nil)
qed

theorem dir_and_file_name_witness:
  "extract_dir_path ''/home/a.txt'' = Inr ''/home/'' \<and> extract_file_name ''/home/a.txt'' = Inr ''a.txt'' \<and>
   (\<exists>d f. extract_dir_path ''/home/a.txt'' = Inr (d @ [slash]) \<and> extract_file_name ''/home/a.txt'' = Inr f)"
  using dir_and_file_name [of "''/home/a.txt''"] by (auto simp: extract_dir_path_def extract_file_name_def)

end
