(* ===== verification/FS_Layout.thy ===== *)
theory FS_Layout
  imports HSCFS_Prelude
begin

text \<open>
  The on-disk structures and macros of \<^verbatim>\<open>inc/fs/fs.h\<close>: super block, NAT and SIT
  entries, the SIT entry's packed counter and next-segment field, the size macros. Arrays
  are lists; their lengths are part of the well-formedness predicates.
\<close>

unbundle bit_operations_syntax

section \<open>Constants\<close>

abbreviation BLOCK_PER_SEGMENT :: u32 where "BLOCK_PER_SEGMENT \<equiv> 512"
abbreviation INVALID_LPA :: u32 where "INVALID_LPA \<equiv> 0"
abbreviation INVALID_SEGID :: u32 where "INVALID_SEGID \<equiv> 0"
abbreviation INVALID_NID :: u32 where "INVALID_NID \<equiv> 0"
abbreviation NAT_ENTRY_PER_BLOCK :: u32 where "NAT_ENTRY_PER_BLOCK \<equiv> 512"
abbreviation SIT_ENTRY_PER_BLOCK :: u32 where "SIT_ENTRY_PER_BLOCK \<equiv> 60"
abbreviation SIT_VBLOCK_MAP_SIZE :: nat where "SIT_VBLOCK_MAP_SIZE \<equiv> 64"
abbreviation HSCFS_MAGIC_NUMBER :: u32 where "HSCFS_MAGIC_NUMBER \<equiv> 0x336699cc"

section \<open>Super block\<close>

record hscfs_super_block =
  magic :: u32
  block_count :: u64
  segment_count :: u32
  segment_count_sit :: u32
  segment_count_nat :: u32
  segment_count_srmap :: u32
  segment_count_meta_journal :: u32
  segment_count_main :: u32
  segment0_blkaddr :: u32
  sit_blkaddr :: u32
  nat_blkaddr :: u32
  srmap_blkaddr :: u32
  meta_journal_blkaddr :: u32
  main_blkaddr :: u32
  root_ino :: u32
  first_free_segment_id :: u32
  first_data_segment_id :: u32
  first_node_segment_id :: u32
  current_data_segment_id :: u32
  current_data_segment_blkoff :: u32
  current_node_segment_id :: u32
  current_node_segment_blkoff :: u32
  meta_journal_start_blkoff :: u16
  meta_journal_end_blkoff :: u16
  free_segment_count :: u32
  next_free_nid :: u32

text \<open>\<^verbatim>\<open>offsetof\<close> of the fields that the journal names, in bytes.\<close>

abbreviation off_first_free_segment_id :: u32 where "off_first_free_segment_id \<equiv> 92"
abbreviation off_first_data_segment_id :: u32 where "off_first_data_segment_id \<equiv> 96"
abbreviation off_first_node_segment_id :: u32 where "off_first_node_segment_id \<equiv> 100"
abbreviation off_current_data_segment_id :: u32 where "off_current_data_segment_id \<equiv> 104"
abbreviation off_current_data_segment_blkoff :: u32 where "off_current_data_segment_blkoff \<equiv> 108"
abbreviation off_current_node_segment_id :: u32 where "off_current_node_segment_id \<equiv> 112"
abbreviation off_current_node_segment_blkoff :: u32 where "off_current_node_segment_blkoff \<equiv> 116"
abbreviation off_free_segment_count :: u32 where "off_free_segment_count \<equiv> 124"
abbreviation off_next_free_nid :: u32 where "off_next_free_nid \<equiv> 128"

section \<open>NAT entries\<close>

record hscfs_nat_entry =
  ne_ino :: u32
  ne_block_addr :: u32

type_synonym hscfs_nat_block = "hscfs_nat_entry list"

section \<open>SIT entries\<close>

record hscfs_sit_entry =
  vblocks :: u32
  valid_map :: "u8 list"

type_synonym hscfs_sit_block = "hscfs_sit_entry list"

abbreviation SIT_VBLOCKS_MASK :: u32 where "SIT_VBLOCKS_MASK \<equiv> 511"

definition GET_SIT_VBLOCKS :: "hscfs_sit_entry \<Rightarrow> u32" where
  "GET_SIT_VBLOCKS e = vblocks e AND SIT_VBLOCKS_MASK"

definition GET_NEXT_SEG :: "hscfs_sit_entry \<Rightarrow> u32" where
  "GET_NEXT_SEG e = drop_bit 9 (vblocks e AND NOT SIT_VBLOCKS_MASK)"

definition SET_NEXT_SEG :: "u32 \<Rightarrow> hscfs_sit_entry \<Rightarrow> hscfs_sit_entry" where
  "SET_NEXT_SEG next_seg e = e\<lparr>vblocks := vblocks e OR push_bit 9 next_seg\<rparr>"

section \<open>Size macros\<close>

text \<open>\<^verbatim>\<open>SIZE_TO_BLOCK\<close> on a 64-bit size; the addition wraps.\<close>

definition SIZE_TO_BLOCK :: "u64 \<Rightarrow> u64" where
  "SIZE_TO_BLOCK sz = drop_bit 12 (sz + 4095)"

definition GET_DENTRY_SLOTS :: "nat \<Rightarrow> nat" where
  "GET_DENTRY_SLOTS x = (x + 7) div 8"

section \<open>Facts\<close>

lemma SIT_VBLOCKS_MASK_mask: "SIT_VBLOCKS_MASK = mask 9"
  by (simp add: mask_eq_exp_minus_1)

lemma GET_SIT_VBLOCKS_take: "GET_SIT_VBLOCKS e = take_bit 9 (vblocks e)"
  by (simp only: GET_SIT_VBLOCKS_def SIT_VBLOCKS_MASK_mask take_bit_eq_mask)

lemma GET_NEXT_SEG_drop: "GET_NEXT_SEG e = drop_bit 9 (vblocks e)"
  unfolding GET_NEXT_SEG_def SIT_VBLOCKS_MASK_mask
  by (rule bit_word_eqI) (auto simp: bit_simps dest: bit_imp_le_length)

lemma GET_SIT_VBLOCKS_mod: "unat (GET_SIT_VBLOCKS e) = unat (vblocks e) mod 512"
  unfolding GET_SIT_VBLOCKS_take unsigned_take_bit_eq by (simp add: take_bit_eq_mod)

lemma GET_NEXT_SEG_div: "unat (GET_NEXT_SEG e) = unat (vblocks e) div 512"
  unfolding GET_NEXT_SEG_drop unat_drop_bit_eq by (simp add: drop_bit_eq_div)

text \<open>Setting the next segment leaves the counter alone, but it is or-ed into the old field.\<close>

lemma SET_NEXT_SEG_count: "GET_SIT_VBLOCKS (SET_NEXT_SEG s e) = GET_SIT_VBLOCKS e"
  unfolding GET_SIT_VBLOCKS_take SET_NEXT_SEG_def
  by (rule bit_word_eqI) (auto simp: bit_simps)

lemma SET_NEXT_SEG_or:
  assumes "unat s < 2 ^ 23"
  shows "GET_NEXT_SEG (SET_NEXT_SEG s e) = GET_NEXT_SEG e OR s"
proof -
  have "unat (take_bit 23 s) = unat s"
    using assms by (simp add: unsigned_take_bit_eq take_bit_nat_eq_self_iff)
  then have "take_bit 23 s = s" by (rule unsigned_word_eqI)
  then have "bit s n \<Longrightarrow> n < 23" for n by (metis bit_take_bit_iff)
  then show ?thesis
    unfolding GET_NEXT_SEG_drop SET_NEXT_SEG_def
    by (intro bit_word_eqI) (auto simp: bit_simps)
qed

lemma SIZE_TO_BLOCK_ceil:
  assumes "unat sz + 4095 < 2 ^ 64"
  shows "unat (SIZE_TO_BLOCK sz) = (unat sz + 4095) div 4096"
proof -
  have "unat (sz + 4095) = unat sz + 4095"
    using assms by (simp add: unat_word_ariths)
  then show ?thesis
    unfolding SIZE_TO_BLOCK_def unat_drop_bit_eq by (simp add: drop_bit_eq_div)
qed

end
