(* ===== verification/Journal_Container.thy ===== *)
theory Journal_Container
  imports FS_Layout
begin

text \<open>
  The journal entries of \<^verbatim>\<open>inc/journal/journal_type.h\<close> and the container of
  \<^verbatim>\<open>inc/journal/journal_container.hh\<close>, with the meaning of a journal: the update of
  the super block, the NAT and the SIT that an entry describes.
\<close>

section \<open>Entries and container\<close>

record super_block_journal_entry =
  Off :: u32
  newVal :: u32

record NAT_journal_entry =
  nid :: u32
  nat_newValue :: hscfs_nat_entry

record SIT_journal_entry =
  segID :: u32
  sit_newValue :: hscfs_sit_entry

record journal_container =
  super_block_journal :: "super_block_journal_entry list"
  NAT_journal :: "NAT_journal_entry list"
  SIT_journal :: "SIT_journal_entry list"
  tx_id :: u64

definition append_super_block_journal_entry ::
    "super_block_journal_entry \<Rightarrow> journal_container \<Rightarrow> journal_container" where
  "append_super_block_journal_entry e j = j\<lparr>super_block_journal := super_block_journal j @ [e]\<rparr>"

definition append_NAT_journal_entry ::
    "NAT_journal_entry \<Rightarrow> journal_container \<Rightarrow> journal_container" where
  "append_NAT_journal_entry e j = j\<lparr>NAT_journal := NAT_journal j @ [e]\<rparr>"

definition append_SIT_journal_entry ::
    "SIT_journal_entry \<Rightarrow> journal_container \<Rightarrow> journal_container" where
  "append_SIT_journal_entry e j = j\<lparr>SIT_journal := SIT_journal j @ [e]\<rparr>"

definition journal_is_empty :: "journal_container \<Rightarrow> bool" where
  "journal_is_empty j \<longleftrightarrow>
     super_block_journal j = [] \<and> NAT_journal j = [] \<and> SIT_journal j = []"

definition set_tx_id :: "u64 \<Rightarrow> journal_container \<Rightarrow> journal_container" where
  "set_tx_id i j = j\<lparr>tx_id := i\<rparr>"

definition empty_journal :: journal_container where
  "empty_journal = \<lparr>super_block_journal = [], NAT_journal = [], SIT_journal = [], tx_id = 0\<rparr>"

section \<open>Meaning of the entries\<close>

text \<open>
  A super block entry stores a 32-bit value at a byte offset of the super block. The offsets
  are those of the fields the program journals; another offset leaves the block unchanged.
\<close>

definition super_put :: "u32 \<Rightarrow> u32 \<Rightarrow> hscfs_super_block \<Rightarrow> hscfs_super_block" where
  "super_put off v s =
     (if off = off_first_free_segment_id then s\<lparr>first_free_segment_id := v\<rparr>
      else if off = off_first_data_segment_id then s\<lparr>first_data_segment_id := v\<rparr>
      else if off = off_first_node_segment_id then s\<lparr>first_node_segment_id := v\<rparr>
      else if off = off_current_data_segment_id then s\<lparr>current_data_segment_id := v\<rparr>
      else if off = off_current_data_segment_blkoff then s\<lparr>current_data_segment_blkoff := v\<rparr>
      else if off = off_current_node_segment_id then s\<lparr>current_node_segment_id := v\<rparr>
      else if off = off_current_node_segment_blkoff then s\<lparr>current_node_segment_blkoff := v\<rparr>
      else if off = off_free_segment_count then s\<lparr>free_segment_count := v\<rparr>
      else if off = off_next_free_nid then s\<lparr>next_free_nid := v\<rparr>
      else s)"

definition replay_super :: "super_block_journal_entry list \<Rightarrow> hscfs_super_block \<Rightarrow> hscfs_super_block" where
  "replay_super es s = foldl (\<lambda>s e. super_put (Off e) (newVal e) s) s es"

definition replay_nat ::
    "NAT_journal_entry list \<Rightarrow> (u32 \<rightharpoonup> hscfs_nat_entry) \<Rightarrow> (u32 \<rightharpoonup> hscfs_nat_entry)" where
  "replay_nat es t = foldl (\<lambda>t e. t(nid e \<mapsto> nat_newValue e)) t es"

definition replay_sit ::
    "SIT_journal_entry list \<Rightarrow> (u32 \<rightharpoonup> hscfs_sit_entry) \<Rightarrow> (u32 \<rightharpoonup> hscfs_sit_entry)" where
  "replay_sit es t = foldl (\<lambda>t e. t(segID e \<mapsto> sit_newValue e)) t es"

lemma replay_simps [simp]:
  "replay_super [] s = s" "replay_nat [] t = t" "replay_sit [] u = u"
  "replay_super (xs @ ys) s = replay_super ys (replay_super xs s)"
  "replay_nat (ns @ ms) t = replay_nat ms (replay_nat ns t)"
  "replay_sit (ss @ rs) u = replay_sit rs (replay_sit ss u)"
  by (simp_all add: replay_super_def replay_nat_def replay_sit_def)

lemma replay_Cons [simp]:
  "replay_super (e # es) s = replay_super es (super_put (Off e) (newVal e) s)"
  "replay_nat (n # ns) t = replay_nat ns (t(nid n \<mapsto> nat_newValue n))"
  "replay_sit (i # js) u = replay_sit js (u(segID i \<mapsto> sit_newValue i))"
  by (simp_all add: replay_super_def replay_nat_def replay_sit_def)

text \<open>The fields that place the tables on the device are never journalled.\<close>

lemma super_put_layout [simp]:
  "nat_blkaddr (super_put off v s) = nat_blkaddr s"
  "sit_blkaddr (super_put off v s) = sit_blkaddr s"
  "segment0_blkaddr (super_put off v s) = segment0_blkaddr s"
  "segment_count_nat (super_put off v s) = segment_count_nat s"
  "segment_count_sit (super_put off v s) = segment_count_sit s"
  by (simp_all add: super_put_def)

lemma replay_super_layout [simp]:
  "nat_blkaddr (replay_super es s) = nat_blkaddr s"
  "sit_blkaddr (replay_super es s) = sit_blkaddr s"
  "segment0_blkaddr (replay_super es s) = segment0_blkaddr s"
  "segment_count_nat (replay_super es s) = segment_count_nat s"
  "segment_count_sit (replay_super es s) = segment_count_sit s"
  by (induction es arbitrary: s) simp_all

text \<open>Each field after a store; stores at different offsets commute, and a later one at the same offset wins.\<close>

lemma super_put_fields:
  "first_free_segment_id (super_put off v s) = (if off = 92 then v else first_free_segment_id s)"
  "first_data_segment_id (super_put off v s) = (if off = 96 then v else first_data_segment_id s)"
  "first_node_segment_id (super_put off v s) = (if off = 100 then v else first_node_segment_id s)"
  "current_data_segment_id (super_put off v s) = (if off = 104 then v else current_data_segment_id s)"
  "current_data_segment_blkoff (super_put off v s) = (if off = 108 then v else current_data_segment_blkoff s)"
  "current_node_segment_id (super_put off v s) = (if off = 112 then v else current_node_segment_id s)"
  "current_node_segment_blkoff (super_put off v s) = (if off = 116 then v else current_node_segment_blkoff s)"
  "free_segment_count (super_put off v s) = (if off = 124 then v else free_segment_count s)"
  "next_free_nid (super_put off v s) = (if off = 128 then v else next_free_nid s)"
  by (simp_all add: super_put_def)

lemma super_put_others:
  "magic (super_put off v s) = magic s"
  "block_count (super_put off v s) = block_count s"
  "segment_count (super_put off v s) = segment_count s"
  "segment_count_srmap (super_put off v s) = segment_count_srmap s"
  "segment_count_meta_journal (super_put off v s) = segment_count_meta_journal s"
  "segment_count_main (super_put off v s) = segment_count_main s"
  "srmap_blkaddr (super_put off v s) = srmap_blkaddr s"
  "meta_journal_blkaddr (super_put off v s) = meta_journal_blkaddr s"
  "main_blkaddr (super_put off v s) = main_blkaddr s"
  "root_ino (super_put off v s) = root_ino s"
  "meta_journal_start_blkoff (super_put off v s) = meta_journal_start_blkoff s"
  "meta_journal_end_blkoff (super_put off v s) = meta_journal_end_blkoff s"
  "hscfs_super_block.more (super_put off v s) = hscfs_super_block.more s"
  by (simp_all add: super_put_def)

lemma super_put_overwrite: "super_put k v (super_put k v' s) = super_put k v s"
  by (rule hscfs_super_block.equality) (simp_all add: super_put_fields super_put_others)

lemma super_put_commute:
  assumes "k \<noteq> k'"
  shows "super_put k v (super_put k' v' s) = super_put k' v' (super_put k v s)"
  by (rule hscfs_super_block.equality) (use assms in \<open>auto simp: super_put_fields super_put_others\<close>)

end
