(* ===== verification/Journal_Writer.thy ===== *)
theory Journal_Writer
  imports Journal_Container
begin

text \<open>
  \<^verbatim>\<open>src/journal/journal_writer.cc\<close>: the entries of a transaction are merged per target, laid
  out in 4096-byte blocks as journal items, and closed with an END item. A block is modelled
  by the items that start at its byte offsets; what an earlier transaction left behind stays
  in it until it is overwritten. The scanner of \<^verbatim>\<open>src/debug/debug_utils.cc\<close> reads a block
  back. Reading back what was written gives a journal with the same effect on the metadata.
\<close>

section \<open>Journal items\<close>

text \<open>Sizes in bytes of the header and of the entries.\<close>

abbreviation header_len :: nat where "header_len \<equiv> 4"
abbreviation block_len :: nat where "block_len \<equiv> 4096"

datatype journal_item =
    SITS "SIT_journal_entry list"
  | NATS "NAT_journal_entry list"
  | SUPERS "super_block_journal_entry list"
  | NOP nat
  | END_item

fun item_len :: "journal_item \<Rightarrow> nat" where
  "item_len (SITS es) = header_len + length es * 72"
| "item_len (NATS es) = header_len + length es * 12"
| "item_len (SUPERS es) = header_len + length es * 8"
| "item_len (NOP l) = l"
| "item_len END_item = header_len"

text \<open>The bytes an item's writer touches; of a NOP only the header is written.\<close>

fun item_footprint :: "journal_item \<Rightarrow> nat" where
  "item_footprint (NOP l) = header_len"
| "item_footprint i = item_len i"

type_synonym journal_block = "nat \<rightharpoonup> journal_item"

definition put_item :: "nat \<Rightarrow> journal_item \<Rightarrow> journal_block \<Rightarrow> journal_block" where
  "put_item off i b =
     (\<lambda>p. if p = off then Some i else if off < p \<and> p < off + item_footprint i then None else b p)"

section \<open>How many entries fit\<close>

function generic_calculate_writable_entry_num :: "nat \<Rightarrow> nat \<Rightarrow> nat \<Rightarrow> nat" where
  "generic_calculate_writable_entry_num buffer_size entry_size expected_write_num =
     (let expected_write_len = header_len + expected_write_num * entry_size in
      if expected_write_len < buffer_size then
        if buffer_size - expected_write_len \<ge> header_len then expected_write_num
        else if buffer_size > 2 * header_len then (buffer_size - 2 * header_len) div entry_size
        else 0
      else if expected_write_len = buffer_size then expected_write_num
      else if buffer_size < header_len then 0
      else generic_calculate_writable_entry_num buffer_size entry_size
             ((buffer_size - header_len) div entry_size))"
  by pat_completeness auto
termination
proof (relation "measure (\<lambda>(b, s, n). n)", goal_cases)
  case (2 b s n l)
  then have "b - 4 < n * s" by auto
  then have "(b - 4) div s < n" by (metis div_less_iff_less_mult gr_zeroI mult_0_right not_less_zero)
  then show ?case by simp
qed simp

declare generic_calculate_writable_entry_num.simps [simp del]

section \<open>Merging entries\<close>

text \<open>The map from an entry's target to the index of its last entry.\<close>

definition j_map_of :: "('e \<Rightarrow> u32) \<Rightarrow> 'e list \<Rightarrow> (u32 \<rightharpoonup> nat)" where
  "j_map_of key journal = foldl (\<lambda>m i. m(key (journal ! i) \<mapsto> i)) Map.empty [0..<length journal]"

text \<open>The output vector: the last entry of each target, in the iteration order of the map.\<close>

definition output_vector :: "('e \<Rightarrow> u32) \<Rightarrow> (u32 set \<Rightarrow> u32 list) \<Rightarrow> 'e list \<Rightarrow> 'e list" where
  "output_vector key order journal =
     (let m = j_map_of key journal in map (\<lambda>k. journal ! the (m k)) (order (dom m)))"

definition SIT_output_vector :: "SIT_journal_entry list \<Rightarrow> SIT_journal_entry list" where
  "SIT_output_vector = output_vector segID sorted_list_of_set"

definition NAT_output_vector :: "NAT_journal_entry list \<Rightarrow> NAT_journal_entry list" where
  "NAT_output_vector = output_vector nid sorted_list_of_set"

text \<open>The order in which an \<^verbatim>\<open>unordered_map\<close> lists its keys is not specified; it is a parameter.\<close>

definition super_output_vector ::
    "(u32 set \<Rightarrow> u32 list) \<Rightarrow> super_block_journal_entry list \<Rightarrow> super_block_journal_entry list" where
  "super_output_vector order = output_vector Off order"

section \<open>The writer\<close>

record journal_writer =
  journal_buffer :: "journal_block list"
  buffer_tail_idx :: nat
  buffer_tail_off :: nat

definition journal_writer_init :: journal_writer where
  "journal_writer_init = \<lparr>journal_buffer = [], buffer_tail_idx = 0, buffer_tail_off = 0\<rparr>"

definition get_ith_buffer_block :: "nat \<Rightarrow> journal_writer \<Rightarrow> journal_writer" where
  "get_ith_buffer_block index w =
     (if index \<ge> length (journal_buffer w)
      then w\<lparr>journal_buffer := journal_buffer w @ replicate (index + 1 - length (journal_buffer w)) Map.empty\<rparr>
      else w)"

text \<open>A write of one item at the tail of the current block.\<close>

definition write_at_tail :: "journal_item \<Rightarrow> journal_writer \<Rightarrow> journal_writer" where
  "write_at_tail i w =
     w\<lparr>journal_buffer := (journal_buffer w)[buffer_tail_idx w :=
        put_item (buffer_tail_off w) i (journal_buffer w ! buffer_tail_idx w)]\<rparr>"

definition fill_buffer_with_nop :: "journal_writer \<Rightarrow> fault + journal_writer" where
  "fill_buffer_with_nop w =
     (let len = block_len - buffer_tail_off w in
      if len < header_len then Inl (Throw Invalid_argument) else Inr (write_at_tail (NOP len) w))"

definition append_end_entry :: "journal_writer \<Rightarrow> fault + journal_writer" where
  "append_end_entry w =
     (let w' = get_ith_buffer_block (buffer_tail_idx w) w in
      if buffer_tail_off w' + header_len \<le> block_len then Inr (write_at_tail END_item w') else Inl Undefined)"

text \<open>A full block: go on with the next one.\<close>

definition next_block_if_full :: "journal_writer \<Rightarrow> journal_writer" where
  "next_block_if_full w =
     (if buffer_tail_off w = block_len
      then w\<lparr>buffer_tail_idx := buffer_tail_idx w + 1, buffer_tail_off := 0\<rparr> else w)"

text \<open>
  The loop that outputs one vector: \<open>rest\<close> is what \<^verbatim>\<open>output_to_buffer\<close> has still to output,
  \<open>mk\<close> and \<open>sz\<close> the item constructor and the entry size of the vector. The number of rounds
  is bounded by \<open>fuel\<close>; \<open>None\<close> means that it ran out.
\<close>

fun output_rounds ::
    "nat \<Rightarrow> ('e list \<Rightarrow> journal_item) \<Rightarrow> nat \<Rightarrow> 'e list \<Rightarrow> journal_writer \<Rightarrow> (fault + journal_writer) option" where
  "output_rounds 0 mk sz rest w = None"
| "output_rounds (Suc fuel) mk sz rest w =
     (let w0 = get_ith_buffer_block (buffer_tail_idx w) w in
      if rest = [] then Some (Inr (next_block_if_full w0))
      else
        let n = generic_calculate_writable_entry_num (block_len - buffer_tail_off w0) sz (length rest) in
        if n = 0 then
          (case fill_buffer_with_nop w0 of
             Inl f \<Rightarrow> Some (Inl f)
           | Inr w1 \<Rightarrow> output_rounds fuel mk sz rest (next_block_if_full (w1\<lparr>buffer_tail_off := block_len\<rparr>)))
        else
          let w1 = write_at_tail (mk (take n rest)) w0;
              w2 = w1\<lparr>buffer_tail_off := buffer_tail_off w1 + header_len + n * sz\<rparr> in
          output_rounds fuel mk sz (drop n rest) (next_block_if_full w2))"

definition output_vec ::
    "('e list \<Rightarrow> journal_item) \<Rightarrow> nat \<Rightarrow> 'e list \<Rightarrow> journal_writer \<Rightarrow> (fault + journal_writer) option" where
  "output_vec mk sz v w = output_rounds (2 * length v + 2) mk sz v w"

definition then_out ::
    "(fault + journal_writer) option \<Rightarrow> (journal_writer \<Rightarrow> (fault + journal_writer) option) \<Rightarrow> (fault + journal_writer) option" where
  "then_out r f = (case r of None \<Rightarrow> None | Some (Inl e) \<Rightarrow> Some (Inl e) | Some (Inr w) \<Rightarrow> f w)"

definition collect_pending_journal ::
    "(u32 set \<Rightarrow> u32 list) \<Rightarrow> journal_container \<Rightarrow> journal_writer \<Rightarrow> (fault + journal_writer) option" where
  "collect_pending_journal order j w =
     then_out (Some (Inr (w\<lparr>buffer_tail_idx := 0, buffer_tail_off := 0\<rparr>))) (\<lambda>w0.
     then_out (if SIT_journal j \<noteq> [] then output_vec SITS 72 (SIT_output_vector (SIT_journal j)) w0
               else Some (Inr w0)) (\<lambda>w1.
     then_out (if NAT_journal j \<noteq> [] then output_vec NATS 12 (NAT_output_vector (NAT_journal j)) w1
               else Some (Inr w1)) (\<lambda>w2.
     then_out (if super_block_journal j \<noteq> []
               then output_vec SUPERS 8 (super_output_vector order (super_block_journal j)) w2
               else Some (Inr w2)) (\<lambda>w3.
     Some (append_end_entry w3)))))"

text \<open>
  The block addresses that \<^verbatim>\<open>write_to_SSD\<close> writes the buffer blocks to, wrapping at the end of
  the area; \<open>io_ok i\<close> says that the i-th write was submitted and completed.
\<close>

fun write_lpas :: "nat \<Rightarrow> nat \<Rightarrow> nat \<Rightarrow> nat \<Rightarrow> nat list" where
  "write_lpas start_lpa end_lpa 0 cur = []"
| "write_lpas start_lpa end_lpa (Suc n) cur =
     (let c = (if cur = end_lpa then start_lpa else cur) in c # write_lpas start_lpa end_lpa n (c + 1))"

definition write_to_SSD ::
    "(nat \<Rightarrow> bool) \<Rightarrow> nat \<Rightarrow> nat \<Rightarrow> nat \<Rightarrow> journal_writer \<Rightarrow> (nat \<rightharpoonup> journal_block) \<Rightarrow> fault + (nat \<rightharpoonup> journal_block)" where
  "write_to_SSD io_ok start_lpa end_lpa cur_tail w area =
     (let n = buffer_tail_idx w + 1 in
      if list_all io_ok [0..<n]
      then Inr (area(write_lpas start_lpa end_lpa n cur_tail [\<mapsto>] take n (journal_buffer w)))
      else Inl (Throw Io_error))"

section \<open>Reading a block\<close>

text \<open>
  The scan of a block from its start: an item without entries is invalid, END and NOP stop
  the scan, and so does the end of the block.
\<close>

fun item_entries :: "journal_item \<Rightarrow> nat" where
  "item_entries (SITS es) = length es"
| "item_entries (NATS es) = length es"
| "item_entries (SUPERS es) = length es"
| "item_entries _ = 1"

fun scan_block :: "nat \<Rightarrow> nat \<Rightarrow> journal_block \<Rightarrow> journal_item list option" where
  "scan_block 0 p b = None"
| "scan_block (Suc fuel) p b =
     (case b p of
        None \<Rightarrow> None
      | Some i \<Rightarrow>
          if item_entries i = 0 then None
          else (case i of
             END_item \<Rightarrow> Some [i]
           | NOP l \<Rightarrow> Some [i]
           | _ \<Rightarrow> if p + item_len i = block_len then Some [i]
                  else map_option ((#) i) (scan_block fuel (p + item_len i) b)))"

section \<open>How many entries fit: the largest number\<close>

text \<open>
  \<open>m\<close> entries fit when their item fills the buffer exactly or leaves room for a header.
\<close>

definition fits :: "nat \<Rightarrow> nat \<Rightarrow> nat \<Rightarrow> bool" where
  "fits b s m \<longleftrightarrow> header_len + m * s = b \<or> header_len + m * s + header_len \<le> b"

lemma fits_le: "fits b s m \<Longrightarrow> header_len + m * s \<le> b"
  by (auto simp: fits_def)

lemma calc_base:
  assumes "s > 0" "header_len + e * s \<le> b"
  defines "n \<equiv> generic_calculate_writable_entry_num b s e"
  shows "n \<le> e \<and> (n \<noteq> 0 \<longrightarrow> fits b s n) \<and> (\<forall>m \<le> e. m \<noteq> 0 \<and> fits b s m \<longrightarrow> m \<le> n)"
proof (cases "fits b s e")
  case True
  then have "n = e" using assms(2)
    by (subst n_def, subst generic_calculate_writable_entry_num.simps) (auto simp: fits_def Let_def)
  with True show ?thesis by simp
next
  case False
  let ?n = "(b - 8) div s"
  have nf: "header_len + e * s < b" "\<not> header_len + e * s + header_len \<le> b"
    using False assms(2) by (auto simp: fits_def)
  have n: "n = (if b > 8 then ?n else 0)"
    using nf by (subst n_def, subst generic_calculate_writable_entry_num.simps) (auto simp: Let_def)
  have le: "?n * s \<le> b - 8" by simp
  show ?thesis
  proof (cases "b > 8")
    case True
    have "?n \<le> e"
    proof (rule ccontr)
      assume "\<not> ?n \<le> e"
      then have "e * s + s \<le> ?n * s" by (metis Suc_leI add.commute mult_Suc mult_le_mono1 not_le)
      with le True nf(1) nf(2) show False using assms(1) by linarith
    qed
    moreover have "fits b s ?n" using le True unfolding fits_def by linarith
    moreover have "m \<le> ?n" if "m \<le> e" "fits b s m" for m
    proof -
      have "m * s \<le> e * s" using that(1) by (rule mult_le_mono1)
      then have "m * s \<le> b - 8" using that(2) nf by (auto simp: fits_def)
      then show ?thesis using assms(1) by (simp add: less_eq_div_iff_mult_less_eq)
    qed
    ultimately show ?thesis using n True by simp
  next
    case False
    have "m = 0" if "m \<le> e" "fits b s m" for m
    proof -
      have "m * s \<le> e * s" using that(1) by (rule mult_le_mono1)
      then have "m * s = 0" using that(2) nf False unfolding fits_def by linarith
      then show ?thesis using assms(1) by simp
    qed
    then show ?thesis using n False by simp
  qed
qed

lemma calc_spec:
  fixes b s e :: nat
  assumes "s > 0"
  defines "n \<equiv> generic_calculate_writable_entry_num b s e"
  shows "n \<le> e \<and> (n \<noteq> 0 \<longrightarrow> fits b s n) \<and> (\<forall>m \<le> e. m \<noteq> 0 \<and> fits b s m \<longrightarrow> m \<le> n)"
proof (cases "header_len + e * s \<le> b")
  case True
  show ?thesis unfolding n_def by (rule calc_base [OF assms(1) True])
next
  case False
  show ?thesis
  proof (cases "b < header_len")
    case True
    then have "n = 0" using False
      by (subst n_def, subst generic_calculate_writable_entry_num.simps) (simp add: Let_def)
    moreover have "\<not> fits b s m" for m using True by (simp add: fits_def)
    ultimately show ?thesis by simp
  next
    case ge: False
    let ?e = "(b - header_len) div s"
    have "?e * s \<le> b - header_len" by simp
    then have ee: "header_len + ?e * s \<le> b" using ge by linarith
    have n: "n = generic_calculate_writable_entry_num b s ?e"
      using False ge by (subst n_def, subst generic_calculate_writable_entry_num.simps) (simp add: Let_def)
    note base = calc_base [OF assms(1) ee, folded n]
    have "?e < e" using False ge assms(1) by (simp add: div_less_iff_less_mult)
    moreover have "m \<le> ?e" if "fits b s m" for m
      using fits_le [OF that] assms(1) by (simp add: less_eq_div_iff_mult_less_eq)
    ultimately show ?thesis using base by auto
  qed
qed

section \<open>Blocks hold the items written\<close>

abbreviation lens :: "journal_item list \<Rightarrow> nat" where
  "lens its \<equiv> sum_list (map item_len its)"

fun laid :: "journal_block \<Rightarrow> nat \<Rightarrow> journal_item list \<Rightarrow> bool" where
  "laid b p [] \<longleftrightarrow> True"
| "laid b p (i # is) \<longleftrightarrow> b p = Some i \<and> laid b (p + item_len i) is"

lemma laid_append: "laid b p (xs @ ys) \<longleftrightarrow> laid b p xs \<and> laid b (p + lens xs) ys"
  by (induction xs arbitrary: p) (auto simp: add.assoc)

lemma laid_put:
  "laid b p its \<Longrightarrow> p + lens its \<le> off \<Longrightarrow> \<forall>i \<in> set its. 0 < item_len i \<Longrightarrow> laid (put_item off i b) p its"
  by (induction its arbitrary: p) (auto simp: put_item_def)

definition data_item :: "journal_item \<Rightarrow> bool" where
  "data_item i \<longleftrightarrow> item_entries i \<noteq> 0 \<and> (case i of NOP _ \<Rightarrow> False | END_item \<Rightarrow> False | _ \<Rightarrow> True)"

lemma data_item_len: "data_item i \<Longrightarrow> 4 < item_len i \<and> item_footprint i = item_len i"
  by (cases i) (auto simp: data_item_def)

definition is_nop :: "journal_item \<Rightarrow> bool" where
  "is_nop i = (case i of NOP _ \<Rightarrow> True | _ \<Rightarrow> False)"

text \<open>A finished block: data items, then possibly one NOP up to the end of the block.\<close>

definition full_block :: "journal_item list \<Rightarrow> bool" where
  "full_block its \<longleftrightarrow> lens its = block_len \<and>
     (\<exists>ds ns. its = ds @ ns \<and> list_all data_item ds \<and> (ns = [] \<or> (\<exists>l. ns = [NOP l] \<and> header_len \<le> l)))"

text \<open>
  The writer after some items: \<open>blks\<close> are the finished blocks, \<open>cur\<close> the items of the current
  one, which still has room for a header.
\<close>

definition wr_ok :: "journal_writer \<Rightarrow> journal_item list list \<Rightarrow> journal_item list \<Rightarrow> bool" where
  "wr_ok w blks cur \<longleftrightarrow>
     buffer_tail_idx w = length blks \<and> buffer_tail_off w = lens cur \<and>
     lens cur + header_len \<le> block_len \<and> list_all data_item cur \<and>
     length blks \<le> length (journal_buffer w) \<and>
     (\<forall>j < length blks. laid (journal_buffer w ! j) 0 (blks ! j) \<and> full_block (blks ! j)) \<and>
     (if length blks < length (journal_buffer w) then laid (journal_buffer w ! length blks) 0 cur else cur = [])"

definition wr_abs :: "journal_writer \<Rightarrow> journal_item list \<Rightarrow> bool" where
  "wr_abs w its \<longleftrightarrow> (\<exists>blks cur. wr_ok w blks cur \<and> its = filter (\<lambda>i. \<not> is_nop i) (concat blks @ cur))"

lemma data_not_nop: "list_all data_item ds \<Longrightarrow> filter (\<lambda>i. \<not> is_nop i) ds = ds"
  by (induction ds) (auto simp: data_item_def is_nop_def split: journal_item.splits)

lemma data_pos: "list_all data_item ds \<Longrightarrow> \<forall>i \<in> set ds. 0 < item_len i"
  using data_item_len by (fastforce simp: list_all_iff)

lemma wr_ok_get:
  assumes "wr_ok w blks cur"
  shows "wr_ok (get_ith_buffer_block (buffer_tail_idx w) w) blks cur"
    "length blks < length (journal_buffer (get_ith_buffer_block (buffer_tail_idx w) w))"
  using assms by (auto simp: wr_ok_def get_ith_buffer_block_def nth_append)

text \<open>One more item at the tail.\<close>

lemma write_at_tail_laid:
  assumes "wr_ok w blks cur" "length blks < length (journal_buffer w)"
  shows "laid (journal_buffer (write_at_tail i w) ! length blks) 0 (cur @ [i])"
    "\<And>j. j < length blks \<Longrightarrow> journal_buffer (write_at_tail i w) ! j = journal_buffer w ! j"
    "length (journal_buffer (write_at_tail i w)) = length (journal_buffer w)"
proof -
  have idx: "buffer_tail_idx w = length blks" "buffer_tail_off w = lens cur" using assms(1) by (simp_all add: wr_ok_def)
  have "laid (journal_buffer w ! length blks) 0 cur" "\<forall>i \<in> set cur. 0 < item_len i"
    using assms data_pos by (auto simp: wr_ok_def)
  then have "laid (put_item (lens cur) i (journal_buffer w ! length blks)) 0 (cur @ [i])"
    using laid_put [of _ 0 cur "lens cur" i] by (simp add: laid_append put_item_def)
  then show "laid (journal_buffer (write_at_tail i w) ! length blks) 0 (cur @ [i])"
    using assms(2) idx by (simp add: write_at_tail_def)
  show "\<And>j. j < length blks \<Longrightarrow> journal_buffer (write_at_tail i w) ! j = journal_buffer w ! j"
    "length (journal_buffer (write_at_tail i w)) = length (journal_buffer w)"
    using idx by (simp_all add: write_at_tail_def)
qed

text \<open>Closing the current block with a last item.\<close>

lemma wr_close:
  assumes "wr_ok w blks cur" "length blks < length (journal_buffer w)" "full_block (cur @ [i])"
  shows "wr_ok (next_block_if_full ((write_at_tail i w)\<lparr>buffer_tail_off := block_len\<rparr>)) (blks @ [cur @ [i]]) []"
proof -
  note l = write_at_tail_laid [OF assms(1,2), where i = i]
  have idx: "buffer_tail_idx w = length blks" using assms(1) by (simp add: wr_ok_def)
  have "\<forall>j < Suc (length blks). laid (journal_buffer (write_at_tail i w) ! j) 0 ((blks @ [cur @ [i]]) ! j) \<and>
      full_block ((blks @ [cur @ [i]]) ! j)"
    using assms(1,3) l by (auto simp: wr_ok_def nth_append less_Suc_eq)
  moreover have "buffer_tail_idx (write_at_tail i w) = length blks" using idx by (simp add: write_at_tail_def)
  ultimately show ?thesis
    using assms(2) l(3) by (simp add: wr_ok_def next_block_if_full_def)
qed

lemma wr_put_data:
  assumes "wr_ok w blks cur" "length blks < length (journal_buffer w)" "data_item i"
    "lens cur + item_len i = block_len \<or> lens cur + item_len i + header_len \<le> block_len"
  shows "wr_abs (next_block_if_full ((write_at_tail i w)\<lparr>buffer_tail_off := buffer_tail_off w + item_len i\<rparr>))
    (filter (\<lambda>i. \<not> is_nop i) (concat blks @ cur) @ [i])"
proof -
  have off: "buffer_tail_off w = lens cur" and cur: "list_all data_item cur" using assms(1) by (simp_all add: wr_ok_def)
  have nn: "\<not> is_nop i" using data_not_nop [of "[i]"] assms(3) by (simp split: if_splits)
  show ?thesis
  proof (cases "lens cur + item_len i = block_len")
    case True
    then have "full_block (cur @ [i])"
      unfolding full_block_def using cur assms(3) by (intro conjI exI [of _ "cur @ [i]"] exI [of _ "[]"]) auto
    from wr_close [OF assms(1,2) this] True off nn show ?thesis
      unfolding wr_abs_def by (intro exI [of _ "blks @ [cur @ [i]]"] exI [of _ "[]"]) simp
  next
    case False
    note l = write_at_tail_laid [OF assms(1,2), where i = i]
    let ?w = "(write_at_tail i w)\<lparr>buffer_tail_off := buffer_tail_off w + item_len i\<rparr>"
    have "buffer_tail_idx (write_at_tail i w) = length blks" using assms(1) by (simp add: write_at_tail_def wr_ok_def)
    then have "wr_ok ?w blks (cur @ [i])"
      using assms l off cur False by (auto simp: wr_ok_def)
    moreover have "next_block_if_full ?w = ?w" using False off by (simp add: next_block_if_full_def)
    ultimately show ?thesis
      unfolding wr_abs_def using nn by (intro exI [of _ blks] exI [of _ "cur @ [i]"]) simp
  qed
qed

lemma wr_put_nop:
  assumes "wr_ok w blks cur" "length blks < length (journal_buffer w)"
  shows "\<exists>w1. fill_buffer_with_nop w = Inr w1 \<and>
    wr_ok (next_block_if_full (w1\<lparr>buffer_tail_off := block_len\<rparr>)) (blks @ [cur @ [NOP (block_len - lens cur)]]) []"
proof -
  have off: "buffer_tail_off w = lens cur" and cur: "list_all data_item cur" and r: "lens cur + header_len \<le> block_len"
    using assms(1) by (simp_all add: wr_ok_def)
  have "full_block (cur @ [NOP (block_len - lens cur)])"
    unfolding full_block_def using cur r
    by (intro conjI exI [of _ cur] exI [of _ "[NOP (block_len - lens cur)]"]) auto
  from wr_close [OF assms this] r off show ?thesis
    by (simp add: fill_buffer_with_nop_def Let_def)
qed

definition mk_ok :: "('e list \<Rightarrow> journal_item) \<Rightarrow> nat \<Rightarrow> bool" where
  "mk_ok mk sz \<longleftrightarrow> 0 < sz \<and> sz \<le> 72 \<and>
     (\<forall>es. item_len (mk es) = header_len + length es * sz \<and> (es \<noteq> [] \<longrightarrow> data_item (mk es)))"

lemma mk_ok_simps [simp]: "mk_ok SITS 72" "mk_ok NATS 12" "mk_ok SUPERS 8"
  by (simp_all add: mk_ok_def data_item_def)

text \<open>
  The rounds of one vector end, and add its entries, cut into non-empty chunks, to what was
  written before. Twice the number of entries plus two rounds are enough.
\<close>

lemma output_rounds_ok:
  assumes "mk_ok mk sz" "wr_ok w blks cur"
    "2 * length rest + (if cur = [] then 1 else 2) \<le> fuel"
  shows "\<exists>w' chunks. output_rounds fuel mk sz rest w = Some (Inr w') \<and> concat chunks = rest \<and>
    wr_abs w' (filter (\<lambda>i. \<not> is_nop i) (concat blks @ cur) @ map mk chunks)"
  using assms(2,3)
proof (induction fuel arbitrary: rest w blks cur)
  case 0
  then show ?case by (simp split: if_splits)
next
  case (Suc fuel)
  let ?w0 = "get_ith_buffer_block (buffer_tail_idx w) w"
  note g = wr_ok_get [OF Suc.prems(1)]
  have off: "buffer_tail_off ?w0 = lens cur" and room: "lens cur + header_len \<le> block_len"
    and cur: "list_all data_item cur" using g(1) by (simp_all add: wr_ok_def)
  have mk: "0 < sz" "sz \<le> 72" "\<And>es. item_len (mk es) = header_len + length es * sz"
    "\<And>es. es \<noteq> [] \<Longrightarrow> data_item (mk es)" using assms(1) by (auto simp: mk_ok_def)
  show ?case
  proof (cases "rest = []")
    case True
    have "next_block_if_full ?w0 = ?w0" using off room by (simp add: next_block_if_full_def)
    moreover have "wr_abs ?w0 (filter (\<lambda>i. \<not> is_nop i) (concat blks @ cur) @ map mk [])"
      unfolding wr_abs_def using g(1) by (intro exI [of _ blks] exI [of _ cur]) simp
    ultimately show ?thesis using True by (intro exI [of _ ?w0] exI [of _ "[]"]) (simp add: Let_def)
  next
    case False
    define n where "n = generic_calculate_writable_entry_num (block_len - lens cur) sz (length rest)"
    have n: "n \<le> length rest" "n \<noteq> 0 \<Longrightarrow> fits (block_len - lens cur) sz n"
      "\<And>m. m \<le> length rest \<Longrightarrow> m \<noteq> 0 \<Longrightarrow> fits (block_len - lens cur) sz m \<Longrightarrow> m \<le> n"
      using calc_spec [OF mk(1), of "block_len - lens cur" "length rest"] unfolding n_def by auto
    show ?thesis
    proof (cases "n = 0")
      case True
      have "cur \<noteq> []"
      proof
        assume "cur = []"
        then have "fits (block_len - lens cur) sz 1" using mk(2) by (simp add: fits_def)
        with n(3) [of 1] False True show False by (cases rest) auto
      qed
      obtain w1 where w1: "fill_buffer_with_nop ?w0 = Inr w1"
          "wr_ok (next_block_if_full (w1\<lparr>buffer_tail_off := block_len\<rparr>)) (blks @ [cur @ [NOP (block_len - lens cur)]]) []"
        using wr_put_nop [OF g] by auto
      have "2 * length rest + (if [] = ([] :: journal_item list) then 1 else 2) \<le> fuel"
        using Suc.prems(2) \<open>cur \<noteq> []\<close> by simp
      from Suc.IH [OF w1(2) this] obtain w' chunks where
        "output_rounds fuel mk sz rest (next_block_if_full (w1\<lparr>buffer_tail_off := block_len\<rparr>)) = Some (Inr w')"
        "concat chunks = rest" "wr_abs w' (filter (\<lambda>i. \<not> is_nop i) (concat blks @ cur) @ map mk chunks)"
        by (auto simp: is_nop_def)
      then show ?thesis using w1(1) False True off by (auto simp: n_def Let_def)
    next
      case nz: False
      define i where "i = mk (take n rest)"
      have i: "data_item i" "item_len i = header_len + n * sz"
        using mk(3,4) n(1) nz False by (auto simp: i_def min_def)
      have "lens cur + item_len i = block_len \<or> lens cur + item_len i + header_len \<le> block_len"
        using n(2) [OF nz] room i(2) unfolding fits_def by linarith
      from wr_put_data [OF g i(1) this] obtain blks' cur' where w':
        "wr_ok (next_block_if_full ((write_at_tail i ?w0)\<lparr>buffer_tail_off := lens cur + item_len i\<rparr>)) blks' cur'"
        "filter (\<lambda>i. \<not> is_nop i) (concat blks' @ cur') = filter (\<lambda>i. \<not> is_nop i) (concat blks @ cur) @ [i]"
        using off by (auto simp: wr_abs_def)
      have wo: "buffer_tail_off (write_at_tail i ?w0) = lens cur" using off by (simp add: write_at_tail_def)
      have "2 * length (drop n rest) + (if cur' = [] then 1 else 2) \<le> fuel"
        using Suc.prems(2) nz n(1) by (auto split: if_splits)
      from Suc.IH [OF w'(1) this] obtain w2 chunks where w2:
        "output_rounds fuel mk sz (drop n rest)
          (next_block_if_full ((write_at_tail i ?w0)\<lparr>buffer_tail_off := lens cur + item_len i\<rparr>)) = Some (Inr w2)"
        "concat chunks = drop n rest" "wr_abs w2 ((filter (\<lambda>i. \<not> is_nop i) (concat blks @ cur) @ [i]) @ map mk chunks)"
        unfolding w'(2) by blast
      have "output_rounds (Suc fuel) mk sz rest w = Some (Inr w2)"
        using w2(1) False nz off wo by (simp add: n_def [symmetric] i_def [symmetric] i(2) Let_def add.assoc)
      moreover have "concat (take n rest # chunks) = rest" using w2(2) by simp
      ultimately show ?thesis using w2(3) by (intro exI [of _ w2] exI [of _ "take n rest # chunks"]) (simp add: i_def)
    qed
  qed
qed

lemma output_vec_ok:
  assumes "mk_ok mk sz" "wr_abs w its"
  shows "\<exists>w' chunks. output_vec mk sz v w = Some (Inr w') \<and> concat chunks = v \<and> wr_abs w' (its @ map mk chunks)"
proof -
  obtain blks cur where "wr_ok w blks cur" "its = filter (\<lambda>i. \<not> is_nop i) (concat blks @ cur)"
    using assms(2) by (auto simp: wr_abs_def)
  then show ?thesis
    using output_rounds_ok [OF assms(1), of w blks cur v "2 * length v + 2"] by (simp add: output_vec_def split: if_splits)
qed

section \<open>Scanning gives the items back\<close>

lemma scan_data:
  assumes "laid b p (ds @ rest)" "list_all data_item ds" "length ds < fuel"
    "ds = [] \<or> rest \<noteq> [] \<longrightarrow> (\<exists>i. rest = [i] \<and> (i = END_item \<or> is_nop i))"
    "p + lens ds \<le> block_len" "rest \<noteq> [] \<longrightarrow> p + lens ds < block_len" "rest = [] \<longrightarrow> p + lens ds = block_len"
  shows "scan_block fuel p b = Some (ds @ rest)"
  using assms
proof (induction ds arbitrary: p fuel)
  case Nil
  then obtain i where i: "rest = [i]" "i = END_item \<or> is_nop i" by auto
  obtain f where "fuel = Suc f" using Nil.prems(3) by (cases fuel) auto
  with Nil.prems(1) i show ?case by (auto simp: is_nop_def split: journal_item.splits)
next
  case (Cons d ds)
  obtain f where f: "fuel = Suc f" using Cons.prems(3) by (cases fuel) auto
  have d: "data_item d" "4 < item_len d" using Cons.prems(2) data_item_len by auto
  show ?case
  proof (cases "p + item_len d = block_len")
    case True
    then have "rest = []" using Cons.prems(5,6) by auto
    moreover have "ds = []"
    proof (cases ds)
      case (Cons x xs)
      with Cons.prems(2,5) True data_item_len [of x] show ?thesis by auto
    qed simp
    ultimately show ?thesis
      using Cons.prems(1) d f True by (cases d) (auto simp: data_item_def)
  next
    case False
    have "scan_block f (p + item_len d) b = Some (ds @ rest)"
    proof (rule Cons.IH)
      show "ds = [] \<or> rest \<noteq> [] \<longrightarrow> (\<exists>i. rest = [i] \<and> (i = END_item \<or> is_nop i))"
        using Cons.prems(4,7) False by auto
    qed (use Cons.prems f in \<open>auto simp: add.assoc\<close>)
    then show ?thesis
      using Cons.prems(1) d f False by (cases d) (auto simp: data_item_def)
  qed
qed

lemma length_data: "list_all data_item ds \<Longrightarrow> 4 * length ds \<le> lens ds"
proof (induction ds)
  case (Cons d ds)
  then show ?case using data_item_len [of d] by auto
qed simp

lemma scan_full_block:
  assumes "laid b 0 its" "full_block its"
  shows "scan_block 1025 0 b = Some its"
proof -
  obtain ds ns where its: "its = ds @ ns" "list_all data_item ds" "ns = [] \<or> (\<exists>l. ns = [NOP l] \<and> header_len \<le> l)"
    "lens its = block_len" using assms(2) unfolding full_block_def by blast
  have "length ds < 1025" using length_data [OF its(2)] its(1,4) by auto
  moreover have "ds \<noteq> []" if "ns = []" using that its(1,4) by auto
  ultimately show ?thesis
    unfolding its(1) using assms(1) its by (intro scan_data) (auto simp: is_nop_def)
qed

lemma append_end_ok:
  assumes "wr_abs w its"
  shows "\<exists>w' itss. append_end_entry w = Inr w' \<and>
    map (scan_block 1025 0) (take (Suc (buffer_tail_idx w')) (journal_buffer w')) = map Some itss \<and>
    filter (\<lambda>i. \<not> is_nop i) (concat itss) = its @ [END_item] \<and> buffer_tail_idx w' < length (journal_buffer w')"
proof -
  obtain blks cur where ok: "wr_ok w blks cur" and its: "its = filter (\<lambda>i. \<not> is_nop i) (concat blks @ cur)"
    using assms by (auto simp: wr_abs_def)
  let ?w0 = "get_ith_buffer_block (buffer_tail_idx w) w"
  let ?we = "write_at_tail END_item ?w0"
  note g = wr_ok_get [OF ok]
  note l = write_at_tail_laid [OF g, where i = END_item]
  have d: "list_all data_item cur" "lens cur + header_len \<le> block_len" "buffer_tail_off ?w0 = lens cur"
    "buffer_tail_idx ?we = length blks"
    using g(1) by (simp_all add: wr_ok_def write_at_tail_def)
  have last: "scan_block 1025 0 (journal_buffer ?we ! length blks) = Some (cur @ [END_item])"
    using l(1) d length_data [OF d(1)] by (intro scan_data) auto
  have full: "scan_block 1025 0 (journal_buffer ?we ! j) = Some (blks ! j)" if "j < length blks" for j
    using g(1) l(2) [OF that] that scan_full_block by (auto simp: wr_ok_def)
  have len: "length blks < length (journal_buffer ?we)" using g(2) l(3) by simp
  have "map (scan_block 1025 0) (take (Suc (length blks)) (journal_buffer ?we)) = map Some (blks @ [cur @ [END_item]])"
    by (rule nth_equalityI) (use len last full in \<open>auto simp: nth_append less_Suc_eq\<close>)
  moreover have "append_end_entry w = Inr ?we"
    using d(2,3) by (simp add: append_end_entry_def Let_def)
  moreover have "filter (\<lambda>i. \<not> is_nop i) (concat (blks @ [cur @ [END_item]])) = its @ [END_item]"
    by (simp add: its is_nop_def)
  ultimately show ?thesis using d(4) len by metis
qed

lemma then_out_Some [simp]: "then_out (Some (Inr w)) f = f w"
  by (simp add: then_out_def)

text \<open>Vectors are written only when their journal is not empty; an empty one adds nothing.\<close>

lemma output_vec_if:
  assumes "mk_ok mk sz" "wr_abs w its" "js = [] \<Longrightarrow> v = []"
  shows "\<exists>w' chunks. (if js \<noteq> [] then output_vec mk sz v w else Some (Inr w)) = Some (Inr w') \<and>
    concat chunks = v \<and> wr_abs w' (its @ map mk chunks)"
proof (cases "js = []")
  case True
  with assms(2,3) show ?thesis by (intro exI [of _ w] exI [of _ "[]"]) simp
next
  case False
  with output_vec_ok [OF assms(1,2)] show ?thesis by auto
qed

lemma output_vector_Nil: "(\<And>K. set (order K) = K) \<Longrightarrow> output_vector key order [] = []"
  by (auto simp: output_vector_def j_map_of_def Let_def)

lemma collect_ok:
  assumes "\<And>K. set (order K) = K"
  shows "\<exists>w' itss c1 c2 c3. collect_pending_journal order j w = Some (Inr w') \<and>
    map (scan_block 1025 0) (take (Suc (buffer_tail_idx w')) (journal_buffer w')) = map Some itss \<and>
    filter (\<lambda>i. \<not> is_nop i) (concat itss) = map SITS c1 @ map NATS c2 @ map SUPERS c3 @ [END_item] \<and>
    concat c1 = SIT_output_vector (SIT_journal j) \<and> concat c2 = NAT_output_vector (NAT_journal j) \<and>
    concat c3 = super_output_vector order (super_block_journal j)"
proof -
  have nil: "SIT_output_vector [] = []" "NAT_output_vector [] = []" "super_output_vector order [] = []"
    using output_vector_Nil [of sorted_list_of_set] output_vector_Nil [of order] assms
    by (simp_all add: SIT_output_vector_def NAT_output_vector_def super_output_vector_def)
  let ?w0 = "w\<lparr>buffer_tail_idx := 0, buffer_tail_off := 0\<rparr>"
  have "wr_abs ?w0 []" unfolding wr_abs_def by (intro exI [of _ "[]"]) (simp add: wr_ok_def)
  from output_vec_if [OF mk_ok_simps(1) this, of "SIT_journal j" "SIT_output_vector (SIT_journal j)"] nil
  obtain w1 c1 where w1: "(if SIT_journal j \<noteq> [] then output_vec SITS 72 (SIT_output_vector (SIT_journal j)) ?w0
      else Some (Inr ?w0)) = Some (Inr w1)" "concat c1 = SIT_output_vector (SIT_journal j)" "wr_abs w1 (map SITS c1)"
    by auto
  from output_vec_if [OF mk_ok_simps(2) w1(3), of "NAT_journal j" "NAT_output_vector (NAT_journal j)"] nil
  obtain w2 c2 where w2: "(if NAT_journal j \<noteq> [] then output_vec NATS 12 (NAT_output_vector (NAT_journal j)) w1
      else Some (Inr w1)) = Some (Inr w2)" "concat c2 = NAT_output_vector (NAT_journal j)"
      "wr_abs w2 (map SITS c1 @ map NATS c2)"
    by auto
  from output_vec_if [OF mk_ok_simps(3) w2(3), of "super_block_journal j" "super_output_vector order (super_block_journal j)"] nil
  obtain w3 c3 where w3: "(if super_block_journal j \<noteq> [] then output_vec SUPERS 8 (super_output_vector order (super_block_journal j)) w2
      else Some (Inr w2)) = Some (Inr w3)" "concat c3 = super_output_vector order (super_block_journal j)"
      "wr_abs w3 ((map SITS c1 @ map NATS c2) @ map SUPERS c3)"
    by auto
  have "collect_pending_journal order j w = Some (append_end_entry w3)"
    unfolding collect_pending_journal_def then_out_Some w1(1) w2(1) w3(1) ..
  moreover obtain w' itss where w': "append_end_entry w3 = Inr w'"
    "map (scan_block 1025 0) (take (Suc (buffer_tail_idx w')) (journal_buffer w')) = map Some itss"
    "filter (\<lambda>i. \<not> is_nop i) (concat itss) = map SITS c1 @ map NATS c2 @ map SUPERS c3 @ [END_item]"
    using append_end_ok [OF w3(3)] by (metis append_assoc)
  ultimately have "collect_pending_journal order j w = Some (Inr w')" by simp
  with w'(2,3) w1(2) w2(2) w3(2) show ?thesis by blast
qed

section \<open>Merged entries have the same effect\<close>

definition run_updates :: "('k \<Rightarrow> 'v \<Rightarrow> 's \<Rightarrow> 's) \<Rightarrow> ('k \<times> 'v) list \<Rightarrow> 's \<Rightarrow> 's" where
  "run_updates upd xs s = foldl (\<lambda>s (k, v). upd k v s) s xs"

lemma run_updates_snoc: "run_updates upd (xs @ [(k, v)]) s = upd k v (run_updates upd xs s)"
  by (simp add: run_updates_def)

lemma run_updates_Nil: "run_updates upd [] s = s"
  by (simp add: run_updates_def)

text \<open>
  Updates that overwrite an earlier update of the same target and commute with updates of
  other targets: only the last update of each target counts, in any order.
\<close>

locale keyed_update =
  fixes upd :: "'k \<Rightarrow> 'v \<Rightarrow> 's \<Rightarrow> 's"
  assumes overwrite: "upd k v (upd k v' s) = upd k v s"
    and commute: "k \<noteq> k' \<Longrightarrow> upd k v (upd k' v' s) = upd k' v' (upd k v s)"
begin

lemma upd_run_filter: "upd k v (run_updates upd xs s) = upd k v (run_updates upd (filter (\<lambda>x. fst x \<noteq> k) xs) s)"
proof (induction xs rule: rev_induct)
  case (snoc x xs)
  obtain k' v' where x: "x = (k', v')" by (cases x)
  show ?case
  proof (cases "k' = k")
    case True
    then show ?thesis using snoc overwrite by (simp add: x run_updates_snoc)
  next
    case False
    then show ?thesis using snoc commute [of k k'] by (simp add: x run_updates_snoc)
  qed
qed simp

lemma run_extract:
  "map_of (rev xs) k = Some v \<Longrightarrow> run_updates upd xs s = upd k v (run_updates upd (filter (\<lambda>x. fst x \<noteq> k) xs) s)"
proof (induction xs rule: rev_induct)
  case (snoc x xs)
  obtain k' v' where x: "x = (k', v')" by (cases x)
  show ?case
  proof (cases "k' = k")
    case True
    with snoc.prems have "v' = v" by (simp add: x)
    with True upd_run_filter [of k v xs s] show ?thesis by (simp add: x run_updates_snoc)
  next
    case False
    with snoc.prems have "map_of (rev xs) k = Some v" by (simp add: x)
    with snoc.IH False commute [of k k'] show ?thesis by (simp add: x run_updates_snoc)
  qed
qed simp

lemma map_of_rev_filter:
  "map_of (rev (filter (\<lambda>x. fst x \<noteq> k) xs)) = (map_of (rev xs))(k := None)"
  by (simp add: rev_filter) (induction xs rule: rev_induct; auto simp: fun_eq_iff)

lemma run_same_last:
  assumes "map_of (rev xs) = map_of (rev ys)" "distinct (map fst ys)"
  shows "run_updates upd xs s = run_updates upd ys s"
  using assms
proof (induction ys arbitrary: xs rule: rev_induct)
  case Nil
  then have "rev xs = []" by (cases "rev xs") (auto simp: fun_eq_iff split: if_splits)
  then show ?case by (simp add: run_updates_Nil)
next
  case (snoc y ys)
  obtain k v where y: "y = (k, v)" by (cases y)
  let ?f = "filter (\<lambda>x. fst x \<noteq> k) xs"
  have "map_of (rev xs) k = Some v" using snoc.prems(1) by (simp add: y)
  then have "run_updates upd xs s = upd k v (run_updates upd ?f s)" by (rule run_extract)
  moreover have "map_of (rev ?f) = map_of (rev ys)"
  proof -
    have "k \<notin> fst ` set ys" using snoc.prems(2) by (simp add: y)
    then have "map_of (rev ys) k = None" by (simp add: map_of_eq_None_iff)
    then show ?thesis unfolding map_of_rev_filter snoc.prems(1) by (auto simp: y fun_eq_iff)
  qed
  then have "run_updates upd ?f s = run_updates upd ys s"
    using snoc.prems(2) by (intro snoc.IH) simp_all
  ultimately show ?case by (simp add: y run_updates_snoc)
qed

end

interpretation nat_upd: keyed_update "\<lambda>k (v :: hscfs_nat_entry) (t :: u32 \<rightharpoonup> hscfs_nat_entry). t(k \<mapsto> v)"
  by unfold_locales (auto simp: fun_upd_twist)

interpretation sit_upd: keyed_update "\<lambda>k (v :: hscfs_sit_entry) (t :: u32 \<rightharpoonup> hscfs_sit_entry). t(k \<mapsto> v)"
  by unfold_locales (auto simp: fun_upd_twist)

interpretation super_upd: keyed_update super_put
  by unfold_locales (rule super_put_overwrite, rule super_put_commute)

lemma replay_run:
  "replay_nat ns t = run_updates (\<lambda>k v t. t(k \<mapsto> v)) (map (\<lambda>e. (nid e, nat_newValue e)) ns) t"
  "replay_sit ss u = run_updates (\<lambda>k v t. t(k \<mapsto> v)) (map (\<lambda>e. (segID e, sit_newValue e)) ss) u"
  "replay_super es s = run_updates super_put (map (\<lambda>e. (Off e, newVal e)) es) s"
  by (simp_all add: replay_nat_def replay_sit_def replay_super_def run_updates_def foldl_map)

text \<open>The merged vector has one entry per target, the last one.\<close>

lemma j_map_of_snoc: "j_map_of key (xs @ [x]) = (j_map_of key xs)(key x \<mapsto> length xs)"
proof -
  have "foldl (\<lambda>m i. m(key ((xs @ [x]) ! i) \<mapsto> i)) m is = foldl (\<lambda>m i. m(key (xs ! i) \<mapsto> i)) m is"
    if "\<forall>i \<in> set is. i < length xs" for "is" m
    using that by (induction "is" arbitrary: m) (auto simp: nth_append)
  then show ?thesis by (simp add: j_map_of_def)
qed

lemma j_map_of_last:
  "map_option (\<lambda>i. journal ! i) (j_map_of key journal k) = map_of (rev (map (\<lambda>e. (key e, e)) journal)) k"
  "j_map_of key journal k = Some i \<Longrightarrow> i < length journal \<and> key (journal ! i) = k"
proof (induction journal arbitrary: i rule: rev_induct)
  case (snoc x xs)
  { case 1
    have "map_option ((!) (xs @ [x])) (j_map_of key xs k) = map_option ((!) xs) (j_map_of key xs k)"
      using snoc.IH(2) by (cases "j_map_of key xs k") (auto simp: nth_append)
    then show ?case using snoc.IH(1) by (auto simp: j_map_of_snoc)
  next
    case 2
    then show ?case using snoc.IH(2) [of i] by (auto simp: j_map_of_snoc nth_append split: if_splits)
  }
qed (simp_all add: j_map_of_def)

lemma output_vector_last:
  fixes key :: "'e \<Rightarrow> u32" and journal :: "'e list"
  assumes ord: "\<And>K :: u32 set. set (order K) = K \<and> distinct (order K)"
  defines "v \<equiv> output_vector key order journal"
  shows "map_of (rev (map (\<lambda>e. (key e, f e)) v)) = map_of (rev (map (\<lambda>e. (key e, f e)) journal))"
    "distinct (map fst (map (\<lambda>e. (key e, f e)) v))" "map key v = order (key ` set journal)"
proof -
  let ?m = "j_map_of key journal"
  have key: "k \<in> dom ?m \<Longrightarrow> key (journal ! the (?m k)) = k" for k using j_map_of_last(2) [of key journal k] by auto
  have keys: "map key v = order (dom ?m)"
    unfolding v_def output_vector_def Let_def map_map
    by (rule map_idI) (use ord key in auto)
  then show "distinct (map fst (map (\<lambda>e. (key e, f e)) v))" using ord by (simp add: comp_def)
  have dom: "dom ?m = key ` set journal"
  proof -
    have "k \<in> dom ?m \<longleftrightarrow> map_of (rev (map (\<lambda>e. (key e, e)) journal)) k \<noteq> None" for k
      using j_map_of_last(1) [of journal key k, symmetric] by (cases "?m k") auto
    then show ?thesis by (auto simp: map_of_eq_None_iff image_image)
  qed
  then show "map key v = order (key ` set journal)" using keys by simp
  have gen: "map_of (rev (map (\<lambda>e. (key e, f e)) xs)) k = map_option f (map_of (rev (map (\<lambda>e. (key e, e)) xs)) k)" for xs k
    by (induction xs rule: rev_induct) auto
  have "map_of (rev (map (\<lambda>e. (key e, e)) v)) k = map_of (rev (map (\<lambda>e. (key e, e)) journal)) k" for k
  proof (cases "k \<in> dom ?m")
    case True
    let ?e = "journal ! the (?m k)"
    have mem: "(k, ?e) \<in> set (rev (map (\<lambda>e. (key e, e)) v))"
      using True ord key [OF True] by (force simp: v_def output_vector_def Let_def image_iff)
    have "distinct (map fst (rev (map (\<lambda>e. (key e, e)) v)))" using keys ord by (simp add: comp_def rev_map [symmetric])
    then have "map_of (rev (map (\<lambda>e. (key e, e)) v)) k = Some ?e" using mem by (rule map_of_is_SomeI)
    then show ?thesis using j_map_of_last(1) [of journal key k] True by auto
  next
    case False
    then have "k \<notin> key ` set v" using keys ord by (metis list.set_map)
    then have "map_of (rev (map (\<lambda>e. (key e, e)) v)) k = None" by (auto simp: map_of_eq_None_iff)
    with False j_map_of_last(1) [of journal key k] show ?thesis by (auto simp: domIff)
  qed
  then show "map_of (rev (map (\<lambda>e. (key e, f e)) v)) = map_of (rev (map (\<lambda>e. (key e, f e)) journal))"
    unfolding gen fun_eq_iff by (simp add: gen)
qed

lemma sorted_keys: "set (sorted_list_of_set (K :: u32 set)) = K \<and> distinct (sorted_list_of_set K)"
  by simp

lemma merged_replay:
  assumes "\<And>K :: u32 set. set (order K) = K \<and> distinct (order K)"
  shows "replay_sit (SIT_output_vector ss) u = replay_sit ss u"
    "replay_nat (NAT_output_vector ns) t = replay_nat ns t"
    "replay_super (super_output_vector order es) s = replay_super es s"
proof -
  show "replay_sit (SIT_output_vector ss) u = replay_sit ss u"
    unfolding replay_run SIT_output_vector_def
    by (rule sit_upd.run_same_last [symmetric, OF output_vector_last(1) [symmetric] output_vector_last(2), OF sorted_keys sorted_keys])
  show "replay_nat (NAT_output_vector ns) t = replay_nat ns t"
    unfolding replay_run NAT_output_vector_def
    by (rule nat_upd.run_same_last [symmetric, OF output_vector_last(1) [symmetric] output_vector_last(2), OF sorted_keys sorted_keys])
  show "replay_super (super_output_vector order es) s = replay_super es s"
    unfolding replay_run super_output_vector_def
    by (rule super_upd.run_same_last [symmetric, OF output_vector_last(1) [symmetric] output_vector_last(2), OF assms assms])
qed

section \<open>Properties\<close>

text \<open>
  C8. Writing and reading a journal. Whatever the buffers held before, collecting a
  transaction's journal succeeds, every block up to the last used one scans without error,
  and the items read are SIT items, then NAT items, then super block items, then one END.
  Replaying the entries read has the same effect on the SIT, the NAT and the super block as
  replaying the transaction's journal, in whatever order the hash map lists the super block
  entries.
\<close>

theorem journal_roundtrip:
  assumes "\<forall>K. set (order K) = K \<and> distinct (order K)"
  shows "\<exists>w' itss c1 c2 c3. collect_pending_journal order j w = Some (Inr w') \<and>
    map (scan_block 1025 0) (take (Suc (buffer_tail_idx w')) (journal_buffer w')) = map Some itss \<and>
    filter (\<lambda>i. \<not> is_nop i) (concat itss) = map SITS c1 @ map NATS c2 @ map SUPERS c3 @ [END_item] \<and>
    replay_sit (concat c1) u = replay_sit (SIT_journal j) u \<and>
    replay_nat (concat c2) t = replay_nat (NAT_journal j) t \<and>
    replay_super (concat c3) s = replay_super (super_block_journal j) s"
proof -
  have ord: "\<And>K. set (order K) = K" "\<And>K. set (order K) = K \<and> distinct (order K)" using assms by simp_all
  from collect_ok [of order j w] ord(1) obtain w' itss c1 c2 c3 where
    "collect_pending_journal order j w = Some (Inr w')"
    "map (scan_block 1025 0) (take (Suc (buffer_tail_idx w')) (journal_buffer w')) = map Some itss"
    "filter (\<lambda>i. \<not> is_nop i) (concat itss) = map SITS c1 @ map NATS c2 @ map SUPERS c3 @ [END_item]"
    "concat c1 = SIT_output_vector (SIT_journal j)" "concat c2 = NAT_output_vector (NAT_journal j)"
    "concat c3 = super_output_vector order (super_block_journal j)" by blast
  with merged_replay [OF ord(2)] show ?thesis by metis
qed

theorem journal_roundtrip_witness:
  "\<exists>w'. collect_pending_journal sorted_list_of_set
     \<lparr>super_block_journal = [\<lparr>Off = 128, newVal = 7\<rparr>, \<lparr>Off = 128, newVal = 8\<rparr>], NAT_journal = [], SIT_journal = [], tx_id = 0\<rparr>
     journal_writer_init = Some (Inr w')"
  using journal_roundtrip [of sorted_list_of_set
      "\<lparr>super_block_journal = [\<lparr>Off = 128, newVal = 7\<rparr>, \<lparr>Off = 128, newVal = 8\<rparr>], NAT_journal = [], SIT_journal = [], tx_id = 0\<rparr>"
      journal_writer_init] by (simp del: ex_simps) blast

text \<open>
  The number of entries put into a buffer is the largest one, at most the number wanted,
  whose item either fills the buffer exactly or leaves room for the header of a NOP.
\<close>

theorem writable_entry_num_max:
  assumes "0 < entry_size"
  shows "let n = generic_calculate_writable_entry_num buffer_size entry_size expected in
    n \<le> expected \<and>
    (n \<noteq> 0 \<longrightarrow> header_len + n * entry_size = buffer_size \<or> header_len + n * entry_size + header_len \<le> buffer_size) \<and>
    (\<forall>m \<le> expected. m \<noteq> 0 \<and> (header_len + m * entry_size = buffer_size \<or>
        header_len + m * entry_size + header_len \<le> buffer_size) \<longrightarrow> m \<le> n)"
  using calc_spec [OF assms, of buffer_size expected] by (simp add: fits_def Let_def)

theorem writable_entry_num_max_witness:
  "generic_calculate_writable_entry_num 4096 72 100 = 56"
proof -
  let ?n = "generic_calculate_writable_entry_num 4096 72 100"
  have "?n \<noteq> 0 \<longrightarrow> ?n * 72 = 4092 \<or> ?n * 72 \<le> 4088" "56 \<le> ?n"
    using writable_entry_num_max [of 72 4096 100] by (auto simp: Let_def)
  then show ?thesis by (cases "?n = 0") auto
qed

end
