(* ===== verification/Journal_Processor.thy ===== *)
theory Journal_Processor
  imports Journal_Writer
begin

text \<open>
  \<^verbatim>\<open>src/journal/journal_processor.cc\<close> and \<^verbatim>\<open>src/journal/journal_process_env.cc\<close>: the thread
  that takes committed journals, writes them to the ring of journal blocks on the device and
  reports the transactions whose journal the device has applied. The thread, its clients and
  the device are a step relation; the device's part is what the program relies on: its head
  moves forward inside the occupied part of the ring. Addresses are natural numbers: they are
  64-bit in the program and lie inside the journal area.
\<close>

section \<open>Transaction records\<close>

record transaction_journal_record =
  rec_tx_id :: u64
  rec_start :: nat
  rec_end :: nat

definition is_applied :: "nat \<Rightarrow> nat \<Rightarrow> transaction_journal_record \<Rightarrow> bool" where
  "is_applied cur_head cur_tail r =
     (if rec_start r < rec_end r then
        if cur_head \<le> cur_tail then cur_head \<ge> rec_end r \<or> cur_tail < rec_start r
        else cur_head \<ge> rec_end r
      else cur_head \<le> cur_tail \<and> cur_head \<ge> rec_end r)"

section \<open>The processor and its environment\<close>

datatype journal_process_state = NEWLY_FETCHED | WRITTEN_IN_BUFFER

record journal_processor =
  head_lpa :: nat
  tail_lpa :: nat
  start_lpa :: nat
  end_lpa :: nat
  cur_avail_lpa :: nat
  total_avail_lpa :: nat
  pending_journal_list :: "journal_container list"
  tx_record :: "transaction_journal_record list"
  jrnl_writer :: journal_writer
  cur_journal_block_num :: nat
  cur_journal :: "journal_container option"
  cur_proc_state :: journal_process_state
  cur_journal_start_lpa :: nat
  cur_journal_end_lpa :: nat
  is_poll_timer_enabled :: bool

record journal_process_env =
  commit_queue :: "journal_container list"
  exit_req :: bool
  tx_id_to_alloc :: u64

definition journal_processor_init :: "nat \<Rightarrow> nat \<Rightarrow> nat \<Rightarrow> journal_processor" where
  "journal_processor_init journal_start_lpa journal_end_lpa journal_fifo_pos =
     \<lparr>head_lpa = journal_fifo_pos, tail_lpa = journal_fifo_pos,
      start_lpa = journal_start_lpa, end_lpa = journal_end_lpa,
      cur_avail_lpa = journal_end_lpa - journal_start_lpa - 1,
      total_avail_lpa = journal_end_lpa - journal_start_lpa - 1,
      pending_journal_list = [], tx_record = [], jrnl_writer = journal_writer_init,
      cur_journal_block_num = 0, cur_journal = None, cur_proc_state = NEWLY_FETCHED,
      cur_journal_start_lpa = 0, cur_journal_end_lpa = 0, is_poll_timer_enabled = False\<rparr>"

definition journal_process_env_init :: journal_process_env where
  "journal_process_env_init = \<lparr>commit_queue = [], exit_req = False, tx_id_to_alloc = 0\<rparr>"

definition alloc_tx_id :: "journal_process_env \<Rightarrow> u64 \<times> journal_process_env" where
  "alloc_tx_id e = (tx_id_to_alloc e, e\<lparr>tx_id_to_alloc := tx_id_to_alloc e + 1\<rparr>)"

text \<open>The second component says whether the waiting thread is notified.\<close>

definition commit_journal :: "journal_container \<Rightarrow> journal_process_env \<Rightarrow> journal_process_env \<times> bool" where
  "commit_journal j e = (e\<lparr>commit_queue := commit_queue e @ [j]\<rparr>, commit_queue e = [])"

definition stop_process_thread :: "journal_process_env \<Rightarrow> journal_process_env" where
  "stop_process_thread e = e\<lparr>exit_req := True\<rparr>"

definition is_working :: "journal_processor \<Rightarrow> bool" where
  "is_working p \<longleftrightarrow>
     \<not> (cur_avail_lpa p = total_avail_lpa p \<and> pending_journal_list p = [] \<and> cur_journal p = None)"

text \<open>
  Fetching either returns, blocks on the condition variable, or throws because the thread is
  asked to exit.
\<close>

datatype fetch_outcome =
    Fetch_returns journal_processor journal_process_env
  | Fetch_blocks
  | Fetch_interrupted journal_process_env

definition fetch_new_journal :: "journal_processor \<Rightarrow> journal_process_env \<Rightarrow> fetch_outcome" where
  "fetch_new_journal p e =
     (if is_working p \<and> commit_queue e = [] then Fetch_returns p e
      else if commit_queue e = [] then
        (if exit_req e then Fetch_interrupted (e\<lparr>exit_req := False\<rparr>) else Fetch_blocks)
      else Fetch_returns (p\<lparr>pending_journal_list := pending_journal_list p @ commit_queue e\<rparr>)
             (e\<lparr>commit_queue := []\<rparr>))"

definition write_journal_to_buffer ::
    "(u32 set \<Rightarrow> u32 list) \<Rightarrow> journal_container \<Rightarrow> journal_processor \<Rightarrow> fault + journal_processor" where
  "write_journal_to_buffer order j p =
     (case collect_pending_journal order j (jrnl_writer p) of
        None \<Rightarrow> Inl Undefined
      | Some r \<Rightarrow> obind r (\<lambda>w.
          Inr (p\<lparr>jrnl_writer := w, cur_journal_block_num := buffer_tail_idx w + 1,
                 cur_proc_state := WRITTEN_IN_BUFFER\<rparr>)))"

text \<open>
  The device's answers to the requests of one round: the completion of the block writes and
  of the tail update, the head it reports, and the results of the timer calls.
\<close>

record device_answers =
  io_ok :: "nat \<Rightarrow> bool"
  tail_ok :: bool
  reported_head :: "nat option"
  timer_start_ok :: bool
  timer_stop_ok :: bool
  timer_check_ok :: bool

type_synonym journal_area = "nat \<rightharpoonup> journal_block"

definition write_journal_to_SSD ::
    "device_answers \<Rightarrow> journal_processor \<Rightarrow> journal_area \<Rightarrow> fault + (bool \<times> journal_processor \<times> journal_area)" where
  "write_journal_to_SSD a p area =
     (if cur_journal_block_num p \<le> cur_avail_lpa p then
        obind (write_to_SSD (io_ok a) (start_lpa p) (end_lpa p) (tail_lpa p) (jrnl_writer p) area) (\<lambda>area'.
          if \<not> tail_ok a then Inl (Throw Io_error)
          else
            let t = tail_lpa p + cur_journal_block_num p;
                t' = (if t \<ge> end_lpa p then t - end_lpa p + start_lpa p else t) in
            Inr (True, p\<lparr>cur_journal_start_lpa := tail_lpa p, tail_lpa := t', cur_journal_end_lpa := t',
                         cur_avail_lpa := cur_avail_lpa p - cur_journal_block_num p\<rparr>, area'))
      else Inr (False, p, area))"

definition generate_tx_record :: "journal_container \<Rightarrow> journal_processor \<Rightarrow> journal_processor" where
  "generate_tx_record j p =
     p\<lparr>tx_record := tx_record p @
        [\<lparr>rec_tx_id = tx_id j, rec_start = cur_journal_start_lpa p, rec_end = cur_journal_end_lpa p\<rparr>]\<rparr>"

definition process_cur_journal ::
    "(u32 set \<Rightarrow> u32 list) \<Rightarrow> device_answers \<Rightarrow> journal_container \<Rightarrow> journal_processor \<Rightarrow> journal_area \<Rightarrow>
     fault + (journal_processor \<times> journal_area)" where
  "process_cur_journal order a j p area =
     obind (case cur_proc_state p of
              NEWLY_FETCHED \<Rightarrow> write_journal_to_buffer order j p
            | WRITTEN_IN_BUFFER \<Rightarrow> Inr p) (\<lambda>p1.
     obind (write_journal_to_SSD a p1 area) (\<lambda>(written, p2, area').
       if written then Inr ((generate_tx_record j p2)\<lparr>cur_journal := None\<rparr>, area')
       else Inr (p2, area')))"

definition process_pending_journal ::
    "(u32 set \<Rightarrow> u32 list) \<Rightarrow> device_answers \<Rightarrow> journal_processor \<Rightarrow> journal_area \<Rightarrow>
     fault + (journal_processor \<times> journal_area)" where
  "process_pending_journal order a p area =
     (case cur_journal p of
        Some j \<Rightarrow> process_cur_journal order a j p area
      | None \<Rightarrow>
         (case pending_journal_list p of
            [] \<Rightarrow> Inr (p, area)
          | j # js \<Rightarrow> process_cur_journal order a j
              (p\<lparr>cur_journal := Some j, pending_journal_list := js, cur_proc_state := NEWLY_FETCHED\<rparr>) area))"

definition enable_poll_timer :: "device_answers \<Rightarrow> journal_processor \<Rightarrow> fault + journal_processor" where
  "enable_poll_timer a p =
     (if is_poll_timer_enabled p then Inr p
      else if \<not> timer_start_ok a then Inl (Throw Timer_error)
      else Inr (p\<lparr>is_poll_timer_enabled := True\<rparr>))"

definition disable_poll_timer :: "device_answers \<Rightarrow> journal_processor \<Rightarrow> fault + journal_processor" where
  "disable_poll_timer a p =
     (if \<not> is_poll_timer_enabled p then Inr p
      else if \<not> timer_stop_ok a then Inl (Throw Timer_error)
      else Inr (p\<lparr>is_poll_timer_enabled := False\<rparr>))"

definition wait_poll_timer :: "device_answers \<Rightarrow> journal_processor \<Rightarrow> fault + journal_processor" where
  "wait_poll_timer a p = (if timer_check_ok a then Inr p else Inl (Throw Timer_error))"

definition sync_with_SSD_journal_pos :: "device_answers \<Rightarrow> journal_processor \<Rightarrow> fault + (bool \<times> journal_processor)" where
  "sync_with_SSD_journal_pos a p =
     (case reported_head a of
        None \<Rightarrow> Inl (Throw Io_error)
      | Some new_head_lpa \<Rightarrow>
          let new_avail_lpa = (if new_head_lpa \<ge> head_lpa p then new_head_lpa - head_lpa p
                               else new_head_lpa + end_lpa p - start_lpa p - head_lpa p) in
          Inr (new_avail_lpa \<noteq> 0,
               p\<lparr>head_lpa := new_head_lpa, cur_avail_lpa := cur_avail_lpa p + new_avail_lpa\<rparr>))"

text \<open>The records at the front that are applied: they are removed and their transactions notified.\<close>

fun applied_records ::
    "nat \<Rightarrow> nat \<Rightarrow> transaction_journal_record list \<Rightarrow> u64 list \<times> transaction_journal_record list" where
  "applied_records h t [] = ([], [])"
| "applied_records h t (r # rs) =
     (if is_applied h t r then let (ids, rest) = applied_records h t rs in (rec_tx_id r # ids, rest)
      else ([], r # rs))"

definition process_tx_record :: "journal_processor \<Rightarrow> u64 list \<times> journal_processor" where
  "process_tx_record p =
     (let (ids, rest) = applied_records (head_lpa p) (tail_lpa p) (tx_record p) in (ids, p\<lparr>tx_record := rest\<rparr>))"

definition process_cplt_journal :: "device_answers \<Rightarrow> journal_processor \<Rightarrow> fault + (u64 list \<times> journal_processor)" where
  "process_cplt_journal a p =
     (if cur_avail_lpa p = total_avail_lpa p then obind (disable_poll_timer a p) (\<lambda>p'. Inr ([], p'))
      else
        obind (enable_poll_timer a p) (\<lambda>p1.
        obind (wait_poll_timer a p1) (\<lambda>p2.
        obind (sync_with_SSD_journal_pos a p2) (\<lambda>(moved, p3).
          Inr (if moved then process_tx_record p3 else ([], p3))))))"

section \<open>The running system\<close>

text \<open>
  The thread is at one of the three calls of its loop. The device has applied the blocks below
  \<open>applied\<close> and holds those below \<open>written\<close>, both counted from the start of the first lap;
  \<open>block_log\<close> is the history of the blocks written, \<open>submitted\<close> that of the transactions with the
  blocks they occupy, and \<open>notified\<close> that of the completions reported.
\<close>

datatype thread_pos = At_fetch | At_pending | At_cplt | Exited

record jsystem =
  proc :: journal_processor
  env :: journal_process_env
  pc :: thread_pos
  area :: journal_area
  applied :: nat
  written :: nat
  block_log :: "nat \<rightharpoonup> journal_block"
  submitted :: "(u64 \<times> nat \<times> nat) list"
  notified :: "u64 list"

definition ring_size :: "journal_processor \<Rightarrow> nat" where
  "ring_size p = end_lpa p - start_lpa p"

definition ring_pos :: "journal_processor \<Rightarrow> nat \<Rightarrow> nat" where
  "ring_pos p x = start_lpa p + x mod ring_size p"

definition jsystem_init :: "nat \<Rightarrow> nat \<Rightarrow> nat \<Rightarrow> journal_area \<Rightarrow> jsystem" where
  "jsystem_init st en fifo ar =
     \<lparr>proc = journal_processor_init st en fifo, env = journal_process_env_init, pc = At_fetch, area = ar,
      applied = fifo - st, written = fifo - st, block_log = Map.empty, submitted = [], notified = []\<rparr>"

text \<open>The histories after a call of \<^verbatim>\<open>process_pending_journal\<close>: did it write a journal?\<close>

definition record_write :: "journal_processor \<Rightarrow> journal_processor \<Rightarrow> jsystem \<Rightarrow> jsystem" where
  "record_write p p' s =
     (if length (tx_record p) < length (tx_record p') then
        let k = cur_journal_block_num p' in
        s\<lparr>written := written s + k,
          block_log := (block_log s)([written s..<written s + k] [\<mapsto>] take k (journal_buffer (jrnl_writer p'))),
          submitted := submitted s @ [(rec_tx_id (last (tx_record p')), written s, written s + k)]\<rparr>
      else s)"

inductive jp_step :: "(u32 set \<Rightarrow> u32 list) \<Rightarrow> jsystem \<Rightarrow> jsystem \<Rightarrow> bool" for order where
  commit: "jp_step order s (s\<lparr>env := fst (commit_journal j (env s))\<rparr>)"
| stop: "jp_step order s (s\<lparr>env := stop_process_thread (env s)\<rparr>)"
| ssd_apply: "applied s < written s \<Longrightarrow> jp_step order s (s\<lparr>applied := applied s + 1\<rparr>)"
| fetch: "pc s = At_fetch \<Longrightarrow> fetch_new_journal (proc s) (env s) = Fetch_returns p' e' \<Longrightarrow>
    jp_step order s (s\<lparr>proc := p', env := e', pc := At_pending\<rparr>)"
| exit: "pc s = At_fetch \<Longrightarrow> fetch_new_journal (proc s) (env s) = Fetch_interrupted e' \<Longrightarrow>
    jp_step order s (s\<lparr>env := e', pc := Exited\<rparr>)"
| pending: "pc s = At_pending \<Longrightarrow>
    process_pending_journal order a (proc s) (area s) = Inr (p', area') \<Longrightarrow>
    jp_step order s (record_write (proc s) p' (s\<lparr>proc := p', area := area', pc := At_cplt\<rparr>))"
| cplt: "pc s = At_cplt \<Longrightarrow> reported_head a = Some (ring_pos (proc s) (applied s)) \<Longrightarrow>
    process_cplt_journal a (proc s) = Inr (ids, p') \<Longrightarrow>
    jp_step order s (s\<lparr>proc := p', notified := notified s @ ids, pc := At_fetch\<rparr>)"

section \<open>Positions on the ring\<close>

text \<open>How far a position has gone round, seen from an earlier one.\<close>

lemma mod_from:
  fixes x s N k :: nat
  assumes "s \<le> x" "x < s + k * N" "0 < N"
  shows "\<exists>i \<le> k. x mod N + i * N + s = x + s mod N"
proof -
  have "s mod N \<le> s" by simp
  let ?y = "x - s + s mod N"
  have y: "?y + s = x + s mod N" using assms(1) by simp
  have "(x - s + s) mod N = ?y mod N" by (metis mod_add_right_eq)
  then have "x mod N = ?y mod N" using assms(1) by simp
  then have eq: "x mod N + ?y div N * N = ?y" by simp
  have "?y < Suc k * N" using assms mod_less_divisor [OF assms(3), of s] by simp
  then have "?y div N \<le> k" using assms(3) by (simp add: less_mult_imp_div_less less_Suc_eq_le [symmetric])
  then show ?thesis using eq y by (intro exI [of _ "?y div N"]) linarith
qed

lemma mod_one_lap:
  "s \<le> x \<Longrightarrow> x < s + N \<Longrightarrow> x mod N + s = x + s mod N \<or> x mod N + N + s = x + s mod N" for x s N :: nat
  using mod_from [of s x 1 N] by (cases "N = 0") (auto simp: le_Suc_eq)

lemma mod_inj_near:
  fixes x y N :: nat
  assumes "x mod N = y mod N" "x \<le> y" "y < x + N"
  shows "x = y"
proof -
  have "y mod N < N" using assms(2,3) by (intro mod_less_divisor) linarith
  with mod_one_lap [OF assms(2,3)] assms show ?thesis by auto
qed

text \<open>
  The test of \<^verbatim>\<open>is_applied\<close> against the true positions: the record occupies the blocks from
  \<open>s\<close> to \<open>e\<close>, the head is at \<open>h\<close>, the tail at \<open>t\<close>.
\<close>

definition ring_record ::
    "nat \<Rightarrow> nat \<Rightarrow> nat \<Rightarrow> nat \<Rightarrow> nat \<Rightarrow> nat \<Rightarrow> transaction_journal_record \<Rightarrow> bool" where
  "ring_record N st s e h t r \<longleftrightarrow> s \<le> h \<and> h \<le> t \<and> e \<le> t \<and> t < h + N \<and> s < e \<and> e < s + N \<and>
     rec_start r = st + s mod N \<and> rec_end r = st + e mod N"

lemma ring_record_below:
  "ring_record N st s e h t r \<Longrightarrow> s mod N < N \<and> h mod N < N \<and> t mod N < N \<and> e mod N < N"
  by (cases "N = 0") (simp_all add: ring_record_def)

lemma ring_record_test:
  "ring_record N st s e h t r \<Longrightarrow> is_applied (st + h mod N) (st + t mod N) r \<longleftrightarrow>
     (if s mod N < e mod N then (h mod N \<le> t mod N \<and> t mod N < s mod N) \<or> e mod N \<le> h mod N
      else h mod N \<le> t mod N \<and> e mod N \<le> h mod N)"
  by (auto simp: is_applied_def ring_record_def)

lemma ring_record_sound:
  assumes r: "ring_record N st s e h t r" and ap: "is_applied (st + h mod N) (st + t mod N) r"
  shows "e \<le> h"
proof (rule ccontr)
  have d: "s \<le> h" "h \<le> t" "e \<le> t" "t < h + N" "s < e" "e < s + N" using r by (simp_all add: ring_record_def)
  have b: "s mod N < N" "h mod N < N" "t mod N < N" "e mod N < N" using ring_record_below [OF r] by simp_all
  assume lt: "\<not> e \<le> h"
  have e_lap: "e mod N + s = e + s mod N \<or> e mod N + N + s = e + s mod N" using mod_one_lap [of s e N] d by simp
  have h_lap: "h mod N + s = h + s mod N \<or> h mod N + N + s = h + s mod N"
    using mod_one_lap [of s h N] lt d by simp
  have t_lap: "t mod N + h = t + h mod N \<or> t mod N + N + h = t + h mod N"
    using mod_one_lap [of h t N] d by simp
  show False
    using h_lap t_lap e_lap ap [unfolded ring_record_test [OF r]] lt d b
    by (elim disjE; simp split: if_splits; linarith)
qed

lemma ring_record_complete:
  assumes r: "ring_record N st s e h t r" and eh: "e \<le> h" and ts: "t < s + N"
  shows "is_applied (st + h mod N) (st + t mod N) r"
proof -
  have d: "s \<le> h" "h \<le> t" "e \<le> t" "t < h + N" "s < e" "e < s + N" using r by (simp_all add: ring_record_def)
  have b: "s mod N < N" "h mod N < N" "t mod N < N" "e mod N < N" using ring_record_below [OF r] by simp_all
  have e_lap: "e mod N + s = e + s mod N \<or> e mod N + N + s = e + s mod N" using mod_one_lap [of s e N] d by simp
  have t_lap: "t mod N + s = t + s mod N \<or> t mod N + N + s = t + s mod N"
    using mod_one_lap [of s t N] d ts by simp
  have h_lap: "h mod N + s = h + s mod N \<or> h mod N + N + s = h + s mod N"
    using mod_one_lap [of s h N] d ts by simp
  show ?thesis
    unfolding ring_record_test [OF r]
    using h_lap t_lap e_lap eh ts d b
    by (elim disjE; simp split: if_splits; linarith)
qed

section \<open>Invariant\<close>

text \<open>The records of consecutive transactions, from block \<open>lo\<close> to block \<open>hi\<close>.\<close>

fun chain :: "nat \<Rightarrow> nat \<Rightarrow> (u64 \<times> nat \<times> nat) list \<Rightarrow> nat \<Rightarrow> bool" where
  "chain N lo [] hi \<longleftrightarrow> lo = hi"
| "chain N lo ((i, s, e) # xs) hi \<longleftrightarrow> s = lo \<and> s < e \<and> e < s + N \<and> chain N e xs hi"

definition record_of :: "journal_processor \<Rightarrow> u64 \<times> nat \<times> nat \<Rightarrow> transaction_journal_record" where
  "record_of p x = (case x of (i, s, e) \<Rightarrow> \<lparr>rec_tx_id = i, rec_start = ring_pos p s, rec_end = ring_pos p e\<rparr>)"

text \<open>What the processor knows to be applied: the blocks before its head.\<close>

definition known_applied :: "jsystem \<Rightarrow> nat" where
  "known_applied s = written s - (total_avail_lpa (proc s) - cur_avail_lpa (proc s))"

definition buffer_ok :: "journal_processor \<Rightarrow> bool" where
  "buffer_ok p \<longleftrightarrow> cur_proc_state p = WRITTEN_IN_BUFFER \<and>
     cur_journal_block_num p = buffer_tail_idx (jrnl_writer p) + 1 \<and>
     buffer_tail_idx (jrnl_writer p) < length (journal_buffer (jrnl_writer p))"

definition ring_inv :: "jsystem \<Rightarrow> bool" where
  "ring_inv s \<longleftrightarrow> (let p = proc s in
     start_lpa p < end_lpa p \<and> total_avail_lpa p = ring_size p - 1 \<and>
     cur_avail_lpa p \<le> total_avail_lpa p \<and> total_avail_lpa p - cur_avail_lpa p \<le> written s \<and>
     known_applied s \<le> applied s \<and> applied s \<le> written s \<and>
     head_lpa p = ring_pos p (known_applied s) \<and> tail_lpa p = ring_pos p (written s) \<and>
     (cur_journal p \<noteq> None \<longrightarrow> buffer_ok p))"

definition area_inv :: "jsystem \<Rightarrow> bool" where
  "area_inv s \<longleftrightarrow> (\<forall>x. applied s \<le> x \<and> x < written s \<longrightarrow>
     block_log s x \<noteq> None \<and> area s (ring_pos (proc s) x) = block_log s x)"

definition tx_inv :: "jsystem \<Rightarrow> bool" where
  "tx_inv s \<longleftrightarrow> (\<exists>done rest lo. submitted s = done @ rest \<and> notified s = map fst done \<and>
     tx_record (proc s) = map (record_of (proc s)) rest \<and>
     (\<forall>(i, b, e) \<in> set done. e \<le> known_applied s) \<and> lo \<le> known_applied s \<and>
     chain (ring_size (proc s)) lo rest (written s))"

definition jp_inv :: "jsystem \<Rightarrow> bool" where
  "jp_inv s \<longleftrightarrow> ring_inv s \<and> area_inv s \<and> tx_inv s"

lemma jp_inv_init:
  assumes "st \<le> fifo" "fifo < en"
  shows "jp_inv (jsystem_init st en fifo ar)"
proof -
  have "(fifo - st) mod (en - st) = fifo - st" using assms by simp
  then show ?thesis using assms
    by (simp add: jp_inv_def ring_inv_def area_inv_def tx_inv_def jsystem_init_def journal_processor_init_def
        known_applied_def ring_pos_def ring_size_def Let_def)
qed

section \<open>Every step keeps the invariant\<close>

lemma chain_append: "chain N lo (xs @ ys) hi \<longleftrightarrow> (\<exists>m. chain N lo xs m \<and> chain N m ys hi)"
  by (induction N lo xs hi rule: chain.induct) auto

lemma chain_le: "chain N lo xs hi \<Longrightarrow> lo \<le> hi"
  by (induction N lo xs hi rule: chain.induct) auto

text \<open>Steps that leave the ring alone.\<close>

definition same_ring :: "journal_processor \<Rightarrow> journal_processor \<Rightarrow> bool" where
  "same_ring p q \<longleftrightarrow> head_lpa p = head_lpa q \<and> tail_lpa p = tail_lpa q \<and> start_lpa p = start_lpa q \<and>
     end_lpa p = end_lpa q \<and> cur_avail_lpa p = cur_avail_lpa q \<and> total_avail_lpa p = total_avail_lpa q \<and>
     tx_record p = tx_record q"

lemma same_ringD:
  assumes "same_ring p q"
  shows "ring_size p = ring_size q" "ring_pos p = ring_pos q" "record_of p = record_of q"
  using assms by (auto simp: same_ring_def ring_size_def ring_pos_def record_of_def fun_eq_iff)

lemma jp_inv_same:
  assumes "jp_inv s" "same_ring (proc s) (proc s')" "cur_journal (proc s') \<noteq> None \<longrightarrow> buffer_ok (proc s')"
    "area s' = area s" "applied s' = applied s" "written s' = written s" "block_log s' = block_log s"
    "submitted s' = submitted s" "notified s' = notified s"
  shows "jp_inv s'"
proof -
  note e = same_ringD [OF assms(2)]
  have k: "known_applied s' = known_applied s"
    using assms(2,6) by (simp add: known_applied_def same_ring_def)
  show ?thesis
    using assms(1-3) unfolding jp_inv_def ring_inv_def area_inv_def tx_inv_def Let_def k assms(4-9) e
    by (auto simp: same_ring_def)
qed

text \<open>Writing a journal.\<close>

lemma then_out_SomeE:
  assumes "then_out r f = Some (Inr y)"
  obtains x where "r = Some (Inr x)" "f x = Some (Inr y)"
  using assms by (auto simp: then_out_def split: option.splits sum.splits)

lemma append_end_idx: "append_end_entry w = Inr w' \<Longrightarrow> buffer_tail_idx w' < length (journal_buffer w')"
  by (auto simp: append_end_entry_def write_at_tail_def get_ith_buffer_block_def Let_def split: if_splits)

lemma collect_idx:
  "collect_pending_journal order j w = Some (Inr w') \<Longrightarrow> buffer_tail_idx w' < length (journal_buffer w')"
  unfolding collect_pending_journal_def by (auto elim!: then_out_SomeE dest: append_end_idx)

lemma map_upds_nth:
  "distinct ks \<Longrightarrow> length vs = length ks \<Longrightarrow> i < length ks \<Longrightarrow> (m(ks [\<mapsto>] vs)) (ks ! i) = Some (vs ! i)"
proof (induction ks arbitrary: vs i m)
  case (Cons k ks)
  then obtain v ws where "vs = v # ws" by (cases vs) auto
  with Cons show ?case by (cases i) auto
qed simp

lemma write_lpas_ring:
  assumes "st < en" "cur = st + x mod (en - st) \<or> (cur = en \<and> x mod (en - st) = 0)"
  shows "write_lpas st en n cur = map (\<lambda>y. st + y mod (en - st)) [x..<x + n]"
  using assms(2)
proof (induction n arbitrary: cur x)
  case (Suc n)
  let ?N = "en - st"
  have lt: "x mod ?N < ?N" using assms(1) by simp
  let ?c = "if cur = en then st else cur"
  have c: "?c = st + x mod ?N" using Suc.prems lt assms(1) by (simp, linarith)
  have "?c + 1 = st + Suc x mod ?N \<or> (?c + 1 = en \<and> Suc x mod ?N = 0)"
    unfolding c using lt assms(1) by (auto simp: mod_Suc)
  from Suc.IH [OF this] show ?case by (simp add: Let_def c upt_conv_Cons del: upt_Suc)
qed simp

lemma process_cur_journal_cases:
  assumes "process_cur_journal order a j p ar = Inr (p', ar')"
    and "cur_proc_state p = WRITTEN_IN_BUFFER \<longrightarrow> buffer_ok p" and "cur_journal p = Some j"
  obtains (full) "same_ring p p'" "buffer_ok p'" "ar' = ar"
  | (written) "buffer_ok p'" "cur_journal p' = None" "cur_journal_block_num p' \<le> cur_avail_lpa p"
      "cur_avail_lpa p' = cur_avail_lpa p - cur_journal_block_num p'"
      "head_lpa p' = head_lpa p" "start_lpa p' = start_lpa p" "end_lpa p' = end_lpa p"
      "total_avail_lpa p' = total_avail_lpa p"
      "tail_lpa p' = (let t = tail_lpa p + cur_journal_block_num p' in
         if t \<ge> end_lpa p then t - end_lpa p + start_lpa p else t)"
      "tx_record p' = tx_record p @ [\<lparr>rec_tx_id = tx_id j, rec_start = tail_lpa p, rec_end = tail_lpa p'\<rparr>]"
      "ar' = ar(write_lpas (start_lpa p) (end_lpa p) (cur_journal_block_num p') (tail_lpa p)
                 [\<mapsto>] take (cur_journal_block_num p') (journal_buffer (jrnl_writer p')))"
proof -
  from assms(1) obtain p1 where p1: "(case cur_proc_state p of NEWLY_FETCHED \<Rightarrow> write_journal_to_buffer order j p
            | WRITTEN_IN_BUFFER \<Rightarrow> Inr p) = Inr p1"
    and rest: "obind (write_journal_to_SSD a p1 ar) (\<lambda>(written, p2, ar').
       if written then Inr ((generate_tx_record j p2)\<lparr>cur_journal := None\<rparr>, ar')
       else Inr (p2, ar')) = Inr (p', ar')"
    unfolding process_cur_journal_def by (rule obind_InrE) (auto simp: split_def)
  have b1: "buffer_ok p1" "same_ring p p1"
    using p1 assms(2)
    by (auto simp: write_journal_to_buffer_def buffer_ok_def same_ring_def dest: collect_idx
        split: journal_process_state.splits option.splits elim!: obind_InrE)
  show thesis
  proof (cases "cur_journal_block_num p1 \<le> cur_avail_lpa p1")
    case True
    with rest b1 show ?thesis
      by (intro written) (auto simp: write_journal_to_SSD_def write_to_SSD_def generate_tx_record_def
          buffer_ok_def same_ring_def Let_def split: if_splits)
  next
    case False
    with rest b1 show ?thesis by (intro full) (auto simp: write_journal_to_SSD_def same_ring_def)
  qed
qed

lemma tail_wrap:
  assumes "start_lpa p < end_lpa p" "tail_lpa p = ring_pos p x" "k < ring_size p"
  shows "(let t = tail_lpa p + k in if t \<ge> end_lpa p then t - end_lpa p + start_lpa p else t) = ring_pos p (x + k)"
proof -
  have lt: "x mod ring_size p < ring_size p" "ring_size p = end_lpa p - start_lpa p"
    "(x + k) mod ring_size p < ring_size p"
    using assms(1) by (simp_all add: ring_size_def)
  have "(x + k) mod ring_size p + x = x + k + x mod ring_size p \<or>
    (x + k) mod ring_size p + ring_size p + x = x + k + x mod ring_size p"
    using mod_one_lap [of x "x + k" "ring_size p"] assms(3) by simp
  then show ?thesis unfolding assms(2) ring_pos_def Let_def using lt assms(1) by (elim disjE; simp; linarith)
qed

lemma ring_pos_inj: "ring_pos p x = ring_pos p y \<Longrightarrow> x \<le> y \<Longrightarrow> y < x + ring_size p \<Longrightarrow> x = y"
  by (rule mod_inj_near [of x "ring_size p" y]) (simp_all add: ring_pos_def)

text \<open>Blocks written behind the tail, in room that is free, do not touch the occupied ones.\<close>

lemma area_write:
  fixes ar :: journal_area
  assumes inv: "\<forall>x. lo \<le> x \<and> x < t \<longrightarrow> lg x \<noteq> None \<and> ar (ring_pos p x) = lg x"
    and room: "t + k < lo + ring_size p" "lo \<le> t" and len: "length bs = k" and x: "lo \<le> x" "x < t + k"
  defines "ar' \<equiv> ar(map (ring_pos p) [t..<t + k] [\<mapsto>] bs)" and "lg' \<equiv> lg([t..<t + k] [\<mapsto>] bs)"
  shows "lg' x \<noteq> None \<and> ar' (ring_pos p x) = lg' x"
proof (cases "x < t")
  case True
  have "ring_pos p x \<noteq> ring_pos p y" if "y \<in> set [t..<t + k]" for y
    using ring_pos_inj [of p x y] that True room x by auto
  then have "ar' (ring_pos p x) = ar (ring_pos p x)" unfolding ar'_def by (intro map_upds_apply_nontin) (metis imageE list.set_map)
  moreover have "lg' x = lg x" unfolding lg'_def using True by (intro map_upds_apply_nontin) auto
  ultimately show ?thesis using inv True x by auto
next
  case False
  define i where "i = x - t"
  have i: "i < k" "x = t + i" using False x by (auto simp: i_def)
  have "inj_on (ring_pos p) (set [t..<t + k])"
  proof (rule inj_onI)
    fix y z assume "y \<in> set [t..<t + k]" "z \<in> set [t..<t + k]" "ring_pos p y = ring_pos p z"
    moreover have "k < ring_size p" using room x by linarith
    ultimately show "y = z"
      using ring_pos_inj [of p y z] ring_pos_inj [of p z y] by (cases "y \<le> z") auto
  qed
  then have d: "distinct (map (ring_pos p) [t..<t + k])" by (simp add: distinct_map)
  have "ar' (map (ring_pos p) [t..<t + k] ! i) = Some (bs ! i)"
    unfolding ar'_def using d len i by (intro map_upds_nth) auto
  moreover have "lg' ([t..<t + k] ! i) = Some (bs ! i)"
    unfolding lg'_def using len i by (intro map_upds_nth) auto
  ultimately show ?thesis using i by simp
qed

lemma jp_inv_written:
  assumes inv: "jp_inv s" and ok: "buffer_ok p'" and cur: "cur_journal p' = None"
    and k: "k = cur_journal_block_num p'" "k \<le> cur_avail_lpa (proc s)"
    and p': "cur_avail_lpa p' = cur_avail_lpa (proc s) - k" "head_lpa p' = head_lpa (proc s)"
      "start_lpa p' = start_lpa (proc s)" "end_lpa p' = end_lpa (proc s)"
      "total_avail_lpa p' = total_avail_lpa (proc s)"
      "tail_lpa p' = (let t = tail_lpa (proc s) + k in
         if t \<ge> end_lpa (proc s) then t - end_lpa (proc s) + start_lpa (proc s) else t)"
    and tx: "tx_record p' = tx_record (proc s) @ [\<lparr>rec_tx_id = tid, rec_start = tail_lpa (proc s), rec_end = tail_lpa p'\<rparr>]"
    and ar: "ar = (area s)(write_lpas (start_lpa (proc s)) (end_lpa (proc s)) k (tail_lpa (proc s))
                 [\<mapsto>] take k (journal_buffer (jrnl_writer p')))"
  shows "jp_inv (s\<lparr>proc := p', area := ar, pc := c, written := written s + k,
    block_log := (block_log s)([written s..<written s + k] [\<mapsto>] take k (journal_buffer (jrnl_writer p'))),
    submitted := submitted s @ [(tid, written s, written s + k)]\<rparr>)" (is "jp_inv ?s")
proof -
  let ?p = "proc s"
  have r: "start_lpa ?p < end_lpa ?p" "total_avail_lpa ?p = ring_size ?p - 1" "cur_avail_lpa ?p \<le> total_avail_lpa ?p"
    "total_avail_lpa ?p - cur_avail_lpa ?p \<le> written s" "known_applied s \<le> applied s" "applied s \<le> written s"
    "head_lpa ?p = ring_pos ?p (known_applied s)" "tail_lpa ?p = ring_pos ?p (written s)"
    using inv unfolding jp_inv_def ring_inv_def Let_def by blast+
  have size: "ring_size p' = ring_size ?p" "0 < ring_size ?p" using p' r(1) by (simp_all add: ring_size_def)
  have pos: "ring_pos p' = ring_pos ?p" using p' size by (simp add: ring_pos_def fun_eq_iff)
  have rec: "record_of p' = record_of ?p" by (simp add: record_of_def fun_eq_iff pos)
  have kpos: "0 < k" "k \<le> length (journal_buffer (jrnl_writer p'))" using ok k(1) by (simp_all add: buffer_ok_def)
  have kN: "k < ring_size ?p" using k(2) r(2,3) size by simp
  have tail: "tail_lpa p' = ring_pos ?p (written s + k)" using tail_wrap [OF r(1) r(8) kN] p'(6) by simp
  have known: "known_applied ?s = known_applied s" using p' k(2) r(3,4) by (simp add: known_applied_def)
  have roomA: "written s + k < known_applied s + ring_size ?p"
    using k(2) r(2-4) size(2) unfolding known_applied_def by linarith
  have "ring_inv ?s" using r p' k(2) known tail size pos cur
    by (auto simp: ring_inv_def Let_def)
  moreover have "area_inv ?s"
  proof -
    have lp: "write_lpas (start_lpa ?p) (end_lpa ?p) k (tail_lpa ?p) = map (ring_pos ?p) [written s..<written s + k]"
      using write_lpas_ring [OF r(1), of "tail_lpa ?p" "written s" k] r(8) by (simp add: ring_pos_def ring_size_def)
    have "\<forall>x. applied s \<le> x \<and> x < written s \<longrightarrow> block_log s x \<noteq> None \<and> area s (ring_pos ?p x) = block_log s x"
      using inv by (simp add: jp_inv_def area_inv_def)
    from area_write [OF this, of k "take k (journal_buffer (jrnl_writer p'))"] roomA r(5,6) kpos(2)
    show ?thesis by (auto simp: area_inv_def ar lp pos)
  qed
  moreover have "tx_inv ?s"
  proof -
    obtain d rest lo where t: "submitted s = d @ rest" "notified s = map fst d"
      "tx_record ?p = map (record_of ?p) rest" "\<forall>(i, b, e) \<in> set d. e \<le> known_applied s" "lo \<le> known_applied s"
      "chain (ring_size ?p) lo rest (written s)"
      using inv unfolding jp_inv_def tx_inv_def by blast
    have "chain (ring_size ?p) lo (rest @ [(tid, written s, written s + k)]) (written s + k)"
      using t(6) kpos(1) kN by (auto simp: chain_append)
    then show ?thesis unfolding tx_inv_def
      using t known size rec tail r(8) tx
      by (intro exI [of _ d] exI [of _ "rest @ [(tid, written s, written s + k)]"] exI [of _ lo])
         (simp add: record_of_def)
  qed
  ultimately show ?thesis by (simp add: jp_inv_def)
qed

text \<open>Reporting the applied transactions.\<close>

lemma applied_records_split:
  assumes "chain (ring_size p) lo rest t" "lo \<le> h" "h \<le> t" "t < h + ring_size p"
    "applied_records (ring_pos p h) (ring_pos p t) (map (record_of p) rest) = (ids, rs)"
  shows "\<exists>d r2 lo'. rest = d @ r2 \<and> ids = map fst d \<and> rs = map (record_of p) r2 \<and>
    (\<forall>(i, b, e) \<in> set d. e \<le> h) \<and> lo' \<le> h \<and> chain (ring_size p) lo' r2 t"
  using assms
proof (induction rest arbitrary: lo ids)
  case (Cons x rest)
  obtain i s e where x: "x = (i, s, e)" by (cases x)
  let ?r = "record_of p x"
  have rid: "rec_tx_id ?r = i" by (simp add: record_of_def x)
  show ?case
  proof (cases "is_applied (ring_pos p h) (ring_pos p t) ?r")
    case True
    have c: "s = lo" "s < e" "e < s + ring_size p" "chain (ring_size p) e rest t" using Cons.prems(1) x by auto
    have "ring_record (ring_size p) (start_lpa p) s e h t ?r"
      using c Cons.prems(2-4) chain_le [OF c(4)] by (simp add: ring_record_def record_of_def x ring_pos_def)
    with True have eh: "e \<le> h" using ring_record_sound unfolding ring_pos_def by blast
    obtain ids' where ids': "applied_records (ring_pos p h) (ring_pos p t) (map (record_of p) rest) = (ids', rs)"
      "ids = i # ids'"
      using Cons.prems(5) True rid by (auto split: prod.splits)
    obtain d r2 lo' where IH: "rest = d @ r2 \<and> ids' = map fst d \<and> rs = map (record_of p) r2 \<and>
      (\<forall>(i, b, e) \<in> set d. e \<le> h) \<and> lo' \<le> h \<and> chain (ring_size p) lo' r2 t"
      using Cons.IH [OF c(4) eh Cons.prems(3,4) ids'(1)] by blast
    then have "x # rest = (x # d) @ r2 \<and> ids = map fst (x # d) \<and> rs = map (record_of p) r2 \<and>
      (\<forall>(i, b, e) \<in> set (x # d). e \<le> h) \<and> lo' \<le> h \<and> chain (ring_size p) lo' r2 t"
      using ids'(2) x eh by simp
    then show ?thesis by blast
  next
    case False
    then have "ids = []" "rs = map (record_of p) (x # rest)" using Cons.prems(5) by auto
    then show ?thesis using Cons.prems(1,2) by (intro exI [of _ "[]"] exI [of _ "x # rest"] exI [of _ lo]) simp
  qed
qed simp

definition synced :: "nat \<Rightarrow> jsystem \<Rightarrow> jsystem" where
  "synced av s = s\<lparr>proc := (proc s)\<lparr>head_lpa := ring_pos (proc s) (applied s), cur_avail_lpa := av\<rparr>\<rparr>"

lemma ring_distance:
  fixes am km A K N st :: nat
  assumes "am + K = A + km \<or> am + N + K = A + km" "km < N" "am < N" "K \<le> A" "A < K + N"
  shows "(if st + km \<le> st + am then st + am - (st + km) else st + am + (st + N) - st - (st + km)) = A - K"
  using assms by auto

lemma sync_distance:
  assumes "ring_inv s" "reported_head a = Some (ring_pos (proc s) (applied s))"
    and "sync_with_SSD_journal_pos a (proc s) = Inr (moved, p')"
  defines "av \<equiv> cur_avail_lpa (proc s) + (applied s - known_applied s)"
  shows "p' = proc (synced av s)" "av \<le> total_avail_lpa (proc s)" "known_applied (synced av s) = applied s"
    "moved \<longleftrightarrow> known_applied s \<noteq> applied s"
proof -
  let ?p = "proc s"
  have r: "start_lpa ?p < end_lpa ?p" "total_avail_lpa ?p = ring_size ?p - 1" "cur_avail_lpa ?p \<le> total_avail_lpa ?p"
    "total_avail_lpa ?p - cur_avail_lpa ?p \<le> written s" "known_applied s \<le> applied s" "applied s \<le> written s"
    "head_lpa ?p = ring_pos ?p (known_applied s)"
    using assms(1) unfolding ring_inv_def Let_def by blast+
  let ?N = "ring_size ?p"
  have N: "?N = end_lpa ?p - start_lpa ?p" "0 < ?N" using r(1) by (simp_all add: ring_size_def)
  have en: "end_lpa ?p = start_lpa ?p + ?N" using N r(1) by simp
  have near: "applied s < known_applied s + ?N" using r(2-6) N(2) unfolding known_applied_def by linarith
  have b: "known_applied s mod ?N < ?N" "applied s mod ?N < ?N" using N(2) by simp_all
  have "applied s mod ?N + known_applied s = applied s + known_applied s mod ?N \<or>
      applied s mod ?N + ?N + known_applied s = applied s + known_applied s mod ?N"
    by (rule mod_one_lap [OF r(5) near])
  then have d: "(if ring_pos ?p (applied s) \<ge> head_lpa ?p then ring_pos ?p (applied s) - head_lpa ?p
      else ring_pos ?p (applied s) + end_lpa ?p - start_lpa ?p - head_lpa ?p) = applied s - known_applied s"
    unfolding r(7) ring_pos_def en by (rule ring_distance [OF _ b r(5) near])
  show "p' = proc (synced av s)" "moved \<longleftrightarrow> known_applied s \<noteq> applied s"
    using assms(3) r(5) unfolding sync_with_SSD_journal_pos_def assms(2) option.case d Let_def
    by (auto simp: synced_def av_def)
  show "av \<le> total_avail_lpa ?p" using r(3-6) unfolding av_def known_applied_def by linarith
  then show "known_applied (synced av s) = applied s"
    using r(3-6) unfolding synced_def known_applied_def av_def by simp
qed

lemma jp_inv_synced:
  assumes inv: "jp_inv s"
  defines "av \<equiv> cur_avail_lpa (proc s) + (applied s - known_applied s)"
  assumes av: "av \<le> total_avail_lpa (proc s)" "known_applied (synced av s) = applied s"
  shows "jp_inv (synced av s)"
proof -
  let ?s = "synced av s"
  have e: "ring_size (proc ?s) = ring_size (proc s)" "ring_pos (proc ?s) = ring_pos (proc s)"
    "record_of (proc ?s) = record_of (proc s)"
    by (auto simp: synced_def ring_size_def ring_pos_def record_of_def fun_eq_iff)
  have le: "known_applied s \<le> applied s" using inv by (simp add: jp_inv_def ring_inv_def Let_def)
  have "ring_inv ?s"
    using inv av unfolding jp_inv_def ring_inv_def Let_def e av(2)
    by (auto simp: synced_def buffer_ok_def av_def)
  moreover have "area_inv ?s" using inv unfolding jp_inv_def area_inv_def e by (simp add: synced_def)
  moreover have "tx_inv ?s"
  proof -
    obtain d rest lo where "submitted s = d @ rest" "notified s = map fst d"
      "tx_record (proc s) = map (record_of (proc s)) rest" "\<forall>(i, b, e) \<in> set d. e \<le> known_applied s"
      "lo \<le> known_applied s" "chain (ring_size (proc s)) lo rest (written s)"
      using inv unfolding jp_inv_def tx_inv_def by blast
    then show ?thesis unfolding tx_inv_def e av(2) using le
      by (intro exI [of _ d] exI [of _ rest] exI [of _ lo]) (fastforce simp: synced_def)
  qed
  ultimately show ?thesis by (simp add: jp_inv_def)
qed

lemma jp_inv_reported:
  assumes inv: "jp_inv s" and pr: "process_tx_record (proc s) = (ids, p')"
  shows "jp_inv (s\<lparr>proc := p', notified := notified s @ ids, pc := c\<rparr>)" (is "jp_inv ?s")
proof -
  let ?p = "proc s"
  obtain rs where ap: "applied_records (head_lpa ?p) (tail_lpa ?p) (tx_record ?p) = (ids, rs)" "p' = ?p\<lparr>tx_record := rs\<rparr>"
    using pr by (auto simp: process_tx_record_def split: prod.splits)
  have r: "start_lpa ?p < end_lpa ?p" "total_avail_lpa ?p = ring_size ?p - 1" "cur_avail_lpa ?p \<le> total_avail_lpa ?p"
    "total_avail_lpa ?p - cur_avail_lpa ?p \<le> written s" "known_applied s \<le> applied s" "applied s \<le> written s"
    "head_lpa ?p = ring_pos ?p (known_applied s)" "tail_lpa ?p = ring_pos ?p (written s)"
    using inv unfolding jp_inv_def ring_inv_def Let_def by blast+
  obtain d rest lo where t: "submitted s = d @ rest" "notified s = map fst d"
    "tx_record ?p = map (record_of ?p) rest" "\<forall>(i, b, e) \<in> set d. e \<le> known_applied s"
    "lo \<le> known_applied s" "chain (ring_size ?p) lo rest (written s)"
    using inv unfolding jp_inv_def tx_inv_def by blast
  have e: "ring_size p' = ring_size ?p" "ring_pos p' = ring_pos ?p" "record_of p' = record_of ?p"
    "known_applied ?s = known_applied s"
    by (auto simp: ap(2) ring_size_def ring_pos_def record_of_def known_applied_def fun_eq_iff)
  have "0 < ring_size ?p" using r(1) by (simp add: ring_size_def)
  then have near: "known_applied s \<le> written s" "written s < known_applied s + ring_size ?p"
    using r(2-6) unfolding known_applied_def by linarith+
  from applied_records_split [OF t(6,5) near] ap(1)
  obtain d2 r2 lo' where s: "rest = d2 @ r2" "ids = map fst d2" "rs = map (record_of ?p) r2"
    "\<forall>(i, b, e) \<in> set d2. e \<le> known_applied s" "lo' \<le> known_applied s" "chain (ring_size ?p) lo' r2 (written s)"
    unfolding r(7,8) t(3) by blast
  have "tx_inv ?s" unfolding tx_inv_def e(4) using s t e ap(2)
    by (intro exI [of _ "d @ d2"] exI [of _ r2] exI [of _ lo']) auto
  moreover have "ring_inv ?s" "area_inv ?s"
    using inv e ap(2) by (auto simp: jp_inv_def ring_inv_def area_inv_def buffer_ok_def Let_def)
  ultimately show ?thesis by (simp add: jp_inv_def)
qed

lemma jp_inv_cplt:
  assumes inv: "jp_inv s" and rh: "reported_head a = Some (ring_pos (proc s) (applied s))"
    and pr: "process_cplt_journal a (proc s) = Inr (ids, p')"
  shows "jp_inv (s\<lparr>proc := p', notified := notified s @ ids, pc := c\<rparr>)"
proof (cases "cur_avail_lpa (proc s) = total_avail_lpa (proc s)")
  case True
  then have "ids = []" "p' = proc s \<or> p' = (proc s)\<lparr>is_poll_timer_enabled := False\<rparr>"
    using pr by (auto simp: process_cplt_journal_def disable_poll_timer_def split: if_splits)
  then show ?thesis using inv
    by (intro jp_inv_same [OF inv]) (auto simp: same_ring_def buffer_ok_def jp_inv_def ring_inv_def Let_def)
next
  case False
  define p2 where "p2 = (proc s)\<lparr>is_poll_timer_enabled := True\<rparr>"
  let ?s2 = "s\<lparr>proc := p2\<rparr>"
  have inv2: "jp_inv ?s2" using inv
    by (intro jp_inv_same [OF inv]) (auto simp: p2_def same_ring_def buffer_ok_def jp_inv_def ring_inv_def Let_def)
  have "enable_poll_timer a (proc s) = Inr p2" if "enable_poll_timer a (proc s) = Inr q" for q
    using that by (auto simp: enable_poll_timer_def p2_def split: if_splits)
  with pr False obtain moved p3 where p3: "sync_with_SSD_journal_pos a p2 = Inr (moved, p3)"
    "(ids, p') = (if moved then process_tx_record p3 else ([], p3))"
    by (fastforce simp: process_cplt_journal_def wait_poll_timer_def elim!: obind_InrE split: if_splits)
  have rh2: "reported_head a = Some (ring_pos (proc ?s2) (applied ?s2))"
    using rh by (simp add: p2_def ring_pos_def ring_size_def)
  have ring2: "ring_inv ?s2" using inv2 by (simp add: jp_inv_def)
  note sync = sync_distance [OF ring2 rh2, of moved p3]
  let ?av = "cur_avail_lpa (proc ?s2) + (applied ?s2 - known_applied ?s2)"
  have inv3: "jp_inv (synced ?av ?s2)" using sync p3(1) by (intro jp_inv_synced [OF inv2]) simp_all
  have p3': "p3 = proc (synced ?av ?s2)" using sync p3(1) by simp
  show ?thesis
  proof (cases moved)
    case True
    then have "process_tx_record (proc (synced ?av ?s2)) = (ids, p')" using p3 p3' by simp
    from jp_inv_reported [OF inv3 this, of c] show ?thesis by (simp add: synced_def)
  next
    case False
    then have "ids = []" "p' = p3" using p3(2) by auto
    then show ?thesis using inv3 p3'
      by (intro jp_inv_same [OF inv3]) (auto simp: synced_def same_ring_def buffer_ok_def jp_inv_def ring_inv_def Let_def)
  qed
qed

lemma jp_inv_pending:
  assumes inv: "jp_inv s" and pr: "process_pending_journal order a (proc s) (area s) = Inr (p', ar)"
  shows "jp_inv (record_write (proc s) p' (s\<lparr>proc := p', area := ar, pc := c\<rparr>))"
proof -
  have buf: "cur_journal (proc s) \<noteq> None \<longrightarrow> buffer_ok (proc s)"
    using inv by (simp add: jp_inv_def ring_inv_def Let_def)
  consider (idle) "p' = proc s" "ar = area s"
    | (work) j p0 where "process_cur_journal order a j p0 (area s) = Inr (p', ar)" "same_ring (proc s) p0"
        "cur_journal p0 = Some j" "cur_proc_state p0 = WRITTEN_IN_BUFFER \<longrightarrow> buffer_ok p0"
  proof (cases "cur_journal (proc s)")
    case (Some j)
    then show ?thesis using pr buf work [of j "proc s"] by (simp add: process_pending_journal_def same_ring_def)
  next
    case None
    show ?thesis
    proof (cases "pending_journal_list (proc s)")
      case Nil
      then show ?thesis using pr None idle by (simp add: process_pending_journal_def)
    next
      case (Cons j js)
      let ?p0 = "(proc s)\<lparr>cur_journal := Some j, pending_journal_list := js, cur_proc_state := NEWLY_FETCHED\<rparr>"
      show ?thesis by (rule work [of j ?p0]) (use pr None Cons in \<open>simp_all add: process_pending_journal_def same_ring_def\<close>)
    qed
  qed
  then show ?thesis
  proof cases
    case idle
    then show ?thesis using inv buf by (intro jp_inv_same [OF inv]) (auto simp: record_write_def same_ring_def)
  next
    case work
    note eq = work(2) [unfolded same_ring_def]
    from work(1,4,3) show ?thesis
    proof (cases rule: process_cur_journal_cases)
      case full
      then show ?thesis using eq
        by (intro jp_inv_same [OF inv]) (auto simp: record_write_def same_ring_def)
    next
      case written
      show ?thesis
        using jp_inv_written [OF inv written(1,2) refl, of "tx_id j" ar c] written eq
        by (simp add: record_write_def Let_def)
    qed
  qed
qed

lemma jp_inv_env: "jp_inv s \<Longrightarrow> jp_inv (s\<lparr>env := e\<rparr>)" "jp_inv s \<Longrightarrow> jp_inv (s\<lparr>env := e, pc := c\<rparr>)"
  by (rule jp_inv_same [of s]; auto simp: same_ring_def jp_inv_def ring_inv_def Let_def)+

lemma jp_step_inv: "jp_step order s s' \<Longrightarrow> jp_inv s \<Longrightarrow> jp_inv s'"
proof (induction rule: jp_step.induct)
  case (ssd_apply s)
  then show ?case by (fastforce simp: jp_inv_def ring_inv_def area_inv_def tx_inv_def known_applied_def Let_def)
next
  case (fetch s p' e')
  then have p: "p' = proc s \<or> p' = (proc s)\<lparr>pending_journal_list := pending_journal_list (proc s) @ commit_queue (env s)\<rparr>"
    by (auto simp: fetch_new_journal_def split: if_splits)
  then show ?case using fetch.prems
    by (intro jp_inv_same [OF fetch.prems]) (auto simp: same_ring_def buffer_ok_def jp_inv_def ring_inv_def Let_def)
next
  case (pending s a p' ar)
  then show ?case by (intro jp_inv_pending)
next
  case (cplt s a ids p')
  then show ?case by (intro jp_inv_cplt)
qed (simp_all only: jp_inv_env)

lemma jp_reachable_inv:
  assumes "(jp_step order)\<^sup>*\<^sup>* (jsystem_init st en fifo ar) s" "st \<le> fifo" "fifo < en"
  shows "jp_inv s"
  using assms(1) by induction (use jp_inv_init [OF assms(2,3)] jp_step_inv in blast)+

section \<open>A run\<close>

text \<open>One transaction is committed, written, applied and reported.\<close>

definition answers :: "nat \<Rightarrow> device_answers" where
  "answers h = \<lparr>io_ok = (\<lambda>_. True), tail_ok = True, reported_head = Some h, timer_start_ok = True,
     timer_stop_ok = True, timer_check_ok = True\<rparr>"

lemma collect_empty:
  "collect_pending_journal order (empty_journal\<lparr>tx_id := i\<rparr>) journal_writer_init =
     Some (Inr \<lparr>journal_buffer = [put_item 0 END_item Map.empty], buffer_tail_idx = 0, buffer_tail_off = 0\<rparr>)"
  by (simp add: collect_pending_journal_def then_out_def empty_journal_def journal_writer_init_def
      append_end_entry_def get_ith_buffer_block_def write_at_tail_def)

lemma sample_run:
  "\<exists>s. (jp_step sorted_list_of_set)\<^sup>*\<^sup>* (jsystem_init 100 104 100 Map.empty) s \<and>
     notified s = [5] \<and> written s = 1 \<and> applied s = 1"
proof -
  let ?R = "jp_step sorted_list_of_set" and ?j = "empty_journal\<lparr>tx_id := 5\<rparr>"
  define s0 where "s0 = jsystem_init 100 104 100 Map.empty"
  define s1 where "s1 = s0\<lparr>env := fst (commit_journal ?j (env s0))\<rparr>"
  have r1: "?R s0 s1" unfolding s1_def by (rule jp_step.commit)
  have "fetch_new_journal (proc s1) (env s1) =
      Fetch_returns ((proc s1)\<lparr>pending_journal_list := [?j]\<rparr>) ((env s1)\<lparr>commit_queue := []\<rparr>)"
    by (simp add: s1_def s0_def jsystem_init_def fetch_new_journal_def commit_journal_def is_working_def
        journal_processor_init_def journal_process_env_init_def)
  then obtain s2 where r2: "?R s1 s2" and s2: "proc s2 = (proc s0)\<lparr>pending_journal_list := [?j]\<rparr>" "pc s2 = At_pending"
    "area s2 = Map.empty" "written s2 = 0" "applied s2 = 0" "notified s2 = []"
    using jp_step.fetch [of s1 _ _ sorted_list_of_set] by (fastforce simp: s1_def s0_def jsystem_init_def)
  obtain p3 ar where p3: "process_pending_journal sorted_list_of_set (answers 101) (proc s2) (area s2) = Inr (p3, ar)"
    "tx_record p3 = [\<lparr>rec_tx_id = 5, rec_start = 100, rec_end = 101\<rparr>]" "cur_journal_block_num p3 = 1"
    "cur_avail_lpa p3 = 2" "total_avail_lpa p3 = 3" "head_lpa p3 = 100" "tail_lpa p3 = 101" "start_lpa p3 = 100"
    "end_lpa p3 = 104" "\<not> is_poll_timer_enabled p3"
    unfolding s2(1) s0_def
    by (simp add: process_pending_journal_def process_cur_journal_def write_journal_to_buffer_def collect_empty
        write_journal_to_SSD_def write_to_SSD_def generate_tx_record_def jsystem_init_def journal_processor_init_def
        answers_def)
  obtain s3 where r3: "?R s2 s3"
    and s3: "written s3 = 1" "applied s3 = 0" "pc s3 = At_cplt" "notified s3 = []" "proc s3 = p3"
    using jp_step.pending [OF s2(2) p3(1)] s2 p3
    by (simp add: record_write_def s0_def jsystem_init_def journal_processor_init_def Let_def)
  obtain s4 where r4: "?R s3 s4"
    and s4: "written s4 = 1" "applied s4 = 1" "pc s4 = At_cplt" "notified s4 = []" "proc s4 = p3"
    using jp_step.ssd_apply [of s3 sorted_list_of_set] s3 by simp
  have "reported_head (answers 101) = Some (ring_pos (proc s4) (applied s4))"
    by (simp add: answers_def s4 ring_pos_def ring_size_def p3)
  moreover obtain p5 where "process_cplt_journal (answers 101) (proc s4) = Inr ([5], p5)"
    by (simp add: s4 process_cplt_journal_def enable_poll_timer_def wait_poll_timer_def sync_with_SSD_journal_pos_def
        process_tx_record_def answers_def p3 is_applied_def Let_def)
  ultimately obtain s5 where r5: "?R s4 s5" and s5: "notified s5 = [5]" "written s5 = 1" "applied s5 = 1"
    using jp_step.cplt [of s4 "answers 101" "[5]" p5 sorted_list_of_set] s4 by simp
  note step = converse_rtranclp_into_rtranclp [where r = ?R]
  have "?R\<^sup>*\<^sup>* s0 s5"
    by (rule step [OF r1 step [OF r2 step [OF r3 step [OF r4 step [OF r5 rtranclp.rtrancl_refl]]]]])
  then show ?thesis unfolding s0_def using s5 by blast
qed

section \<open>Properties\<close>

text \<open>
  C9. The journal ring is never overrun. In every reachable state of the thread, its clients
  and the device, whatever the interleaving, the free-block count plus the blocks between
  head and tail is the capacity, and every block that was written and that the device has not
  applied yet is still in the journal area exactly as it was written.
\<close>

theorem journal_ring_not_overrun:
  assumes "(jp_step order)\<^sup>*\<^sup>* (jsystem_init st en fifo ar) s" "st \<le> fifo" "fifo < en"
  shows "cur_avail_lpa (proc s) + (written s - known_applied s) = total_avail_lpa (proc s) \<and>
    head_lpa (proc s) = ring_pos (proc s) (known_applied s) \<and>
    tail_lpa (proc s) = ring_pos (proc s) (written s) \<and>
    known_applied s \<le> applied s \<and> applied s \<le> written s \<and>
    (\<forall>x. applied s \<le> x \<and> x < written s \<longrightarrow>
       block_log s x \<noteq> None \<and> area s (ring_pos (proc s) x) = block_log s x)"
  using jp_reachable_inv [OF assms] by (auto simp: jp_inv_def ring_inv_def area_inv_def known_applied_def Let_def)

theorem journal_ring_not_overrun_witness:
  "\<exists>s :: jsystem. written s = 1 \<and> applied s = 1 \<and>
     cur_avail_lpa (proc s) + (written s - known_applied s) = total_avail_lpa (proc s) \<and>
     tail_lpa (proc s) = ring_pos (proc s) 1"
proof -
  obtain s where run: "(jp_step sorted_list_of_set)\<^sup>*\<^sup>* (jsystem_init 100 104 100 Map.empty) s"
    and s: "written s = 1" "applied s = 1"
    using sample_run by blast
  show ?thesis using journal_ring_not_overrun [OF run] s by auto
qed

text \<open>
  C10. Completion is reported only for transactions whose journal the device has applied, and
  in the order in which the journals were written: the notified transactions are a prefix of
  the submitted ones, and all blocks of each of them are applied.
\<close>

theorem completion_reported_in_order:
  assumes "(jp_step order)\<^sup>*\<^sup>* (jsystem_init st en fifo ar) s" "st \<le> fifo" "fifo < en"
  shows "\<exists>done rest. submitted s = done @ rest \<and> notified s = map fst done \<and>
    map rec_tx_id (tx_record (proc s)) = map fst rest \<and> (\<forall>(i, b, e) \<in> set done. e \<le> applied s)"
proof -
  have inv: "jp_inv s" by (rule jp_reachable_inv [OF assms])
  then obtain d rest where "submitted s = d @ rest" "notified s = map fst d"
    "tx_record (proc s) = map (record_of (proc s)) rest" "\<forall>(i, b, e) \<in> set d. e \<le> known_applied s"
    unfolding jp_inv_def tx_inv_def by blast
  moreover have "known_applied s \<le> applied s" using inv by (simp add: jp_inv_def ring_inv_def Let_def)
  moreover have "rec_tx_id \<circ> record_of (proc s) = fst" by (simp add: fun_eq_iff record_of_def split: prod.splits)
  ultimately show ?thesis by (intro exI [of _ d] exI [of _ rest]) fastforce
qed

theorem completion_reported_in_order_witness:
  "\<exists>(s :: jsystem) done rest. submitted s = done @ rest \<and> map fst done = [5] \<and> (\<forall>(i, b, e) \<in> set done. e \<le> applied s)"
proof -
  obtain s where run: "(jp_step sorted_list_of_set)\<^sup>*\<^sup>* (jsystem_init 100 104 100 Map.empty) s"
    and s: "notified s = [5]"
    using sample_run by blast
  obtain d rest where "submitted s = d @ rest" "notified s = map fst d" "\<forall>(i, b, e) \<in> set d. e \<le> applied s"
    using completion_reported_in_order [OF run] by auto
  then show ?thesis using s by (intro exI [of _ s] exI [of _ d] exI [of _ rest]) simp
qed

text \<open>
  The test for an applied record. With the head at or behind the tail and the record's
  first block reached, the test is true only when all blocks of the record are applied, and it
  is true then as long as the tail has not come round to the record's first block again.
\<close>

theorem is_applied_exact:
  assumes "s < e" "e < s + N" "s \<le> h" "h \<le> t" "e \<le> t" "t < h + N"
    "rec_start r = st + s mod N" "rec_end r = st + e mod N"
  shows "(is_applied (st + h mod N) (st + t mod N) r \<longrightarrow> e \<le> h) \<and>
    (t < s + N \<longrightarrow> is_applied (st + h mod N) (st + t mod N) r = (e \<le> h))"
proof -
  have "ring_record N st s e h t r" using assms by (simp add: ring_record_def)
  then show ?thesis using ring_record_sound [of N st s e h t r] ring_record_complete [of N st s e h t r] by blast
qed

theorem is_applied_exact_witness:
  "is_applied 105 108 \<lparr>rec_tx_id = 1, rec_start = 102, rec_end = 105\<rparr> \<and>
   \<not> is_applied 104 108 \<lparr>rec_tx_id = 1, rec_start = 102, rec_end = 105\<rparr>"
  using is_applied_exact [of 2 5 10 5 8 "\<lparr>rec_tx_id = 1, rec_start = 102, rec_end = 105\<rparr>" 100]
    is_applied_exact [of 2 5 10 4 8 "\<lparr>rec_tx_id = 1, rec_start = 102, rec_end = 105\<rparr>" 100]
  by simp

text \<open>
  The blocks of a record are given back as soon as the device reports them, so the tail
  can come round into a record that is applied only in part. Then the test stays false when
  the device has applied everything: the round reports nothing, the processor counts as idle
  with the records still queued, and it blocks until another journal is committed.
\<close>

theorem applied_transaction_not_reported:
  assumes "head_lpa p < end_lpa p" "start_lpa p \<le> tail_lpa p" "tail_lpa p < head_lpa p"
    and "cur_avail_lpa p + (tail_lpa p + end_lpa p - start_lpa p - head_lpa p) = total_avail_lpa p"
    and "cur_avail_lpa p \<noteq> total_avail_lpa p" "is_poll_timer_enabled p"
    and "tx_record p = r # rs" "rec_start r \<le> tail_lpa p" "tail_lpa p < rec_end r"
    and "pending_journal_list p = []" "cur_journal p = None"
    and "reported_head a = Some (tail_lpa p)" "timer_check_ok a"
  shows "\<exists>p'. process_cplt_journal a p = Inr ([], p') \<and> tx_record p' = r # rs \<and> head_lpa p' = tail_lpa p' \<and>
    \<not> is_working p' \<and> fetch_new_journal p' journal_process_env_init = Fetch_blocks"
proof -
  have "\<not> is_applied (tail_lpa p) (tail_lpa p) r" using assms(8,9) by (auto simp: is_applied_def)
  then have rec: "applied_records (tail_lpa p) (tail_lpa p) (tx_record p) = ([], r # rs)" using assms(7) by simp
  let ?d = "tail_lpa p + end_lpa p - start_lpa p - head_lpa p"
  let ?p' = "p\<lparr>head_lpa := tail_lpa p, cur_avail_lpa := cur_avail_lpa p + ?d\<rparr>"
  have "?d \<noteq> 0" using assms(4,5) by linarith
  then have sync: "sync_with_SSD_journal_pos a p = Inr (True, ?p')"
    using assms(3,12) by (simp add: sync_with_SSD_journal_pos_def Let_def)
  have tx: "process_tx_record ?p' = ([], ?p')" using rec assms(7) by (simp add: process_tx_record_def)
  have "process_cplt_journal a p = Inr ([], ?p')"
    using assms(5,6,13) sync tx by (simp add: process_cplt_journal_def enable_poll_timer_def wait_poll_timer_def)
  moreover have "\<not> is_working ?p'" using assms(4,10,11) by (simp add: is_working_def)
  ultimately show ?thesis using assms(7)
    by (intro exI [of _ ?p']) (simp add: fetch_new_journal_def journal_process_env_init_def)
qed

theorem applied_transaction_not_reported_witness:
  "\<exists>p'. process_cplt_journal \<lparr>io_ok = (\<lambda>_. True), tail_ok = True, reported_head = Some 100, timer_start_ok = True,
      timer_stop_ok = True, timer_check_ok = True\<rparr>
     ((journal_processor_init 100 104 100)\<lparr>head_lpa := 101, tail_lpa := 100, cur_avail_lpa := 0,
        is_poll_timer_enabled := True, tx_record := [\<lparr>rec_tx_id = 7, rec_start = 100, rec_end = 102\<rparr>,
          \<lparr>rec_tx_id = 8, rec_start = 102, rec_end = 103\<rparr>, \<lparr>rec_tx_id = 9, rec_start = 103, rec_end = 100\<rparr>]\<rparr>) =
     Inr ([], p') \<and> \<not> is_working p' \<and> length (tx_record p') = 3"
  using applied_transaction_not_reported [of "(journal_processor_init 100 104 100)\<lparr>head_lpa := 101, tail_lpa := 100, cur_avail_lpa := 0,
        is_poll_timer_enabled := True, tx_record := [\<lparr>rec_tx_id = 7, rec_start = 100, rec_end = 102\<rparr>,
          \<lparr>rec_tx_id = 8, rec_start = 102, rec_end = 103\<rparr>, \<lparr>rec_tx_id = 9, rec_start = 103, rec_end = 100\<rparr>]\<rparr>"
      "\<lparr>rec_tx_id = 7, rec_start = 100, rec_end = 102\<rparr>"
      "[\<lparr>rec_tx_id = 8, rec_start = 102, rec_end = 103\<rparr>, \<lparr>rec_tx_id = 9, rec_start = 103, rec_end = 100\<rparr>]"
      "\<lparr>io_ok = (\<lambda>_. True), tail_ok = True, reported_head = Some 100, timer_start_ok = True,
      timer_stop_ok = True, timer_check_ok = True\<rparr>"]
  by (auto simp: journal_processor_init_def)

end
