(* ===== verification/Cache_Manager.thy ===== *)
theory Cache_Manager
  imports HSCFS_Prelude
begin

text \<open>
  The generic cache of \<^verbatim>\<open>inc/cache/cache_manager.hh\<close>: the hash index, the LRU
  replacer with its two linked lists, and the cache manager that combines them. The
  contract of a replacer is the locale \<open>replacer\<close>; the LRU replacer is its instance, and
  the cache manager's lemmas rest on the instance's laws. The eviction loop that every
  cache of the program repeats is \<open>cm_evict\<close>.
\<close>

section \<open>The hash index\<close>

text \<open>
  The index owns the entries. A pointer to an entry is modelled by the entry's key: it is
  valid as long as the key is in the index.
\<close>

type_synonym ('k, 'e) hash_index = "'k \<rightharpoonup> 'e"

definition index_add :: "'k \<Rightarrow> 'e \<Rightarrow> ('k, 'e) hash_index \<Rightarrow> fault + ('k, 'e) hash_index" where
  "index_add k e ix = (if ix k \<noteq> None then Inl Assert_failed else Inr (ix(k \<mapsto> e)))"

definition index_remove :: "'k \<Rightarrow> ('k, 'e) hash_index \<Rightarrow> fault + ('e \<times> ('k, 'e) hash_index)" where
  "index_remove k ix =
     (case ix k of None \<Rightarrow> Inl Assert_failed | Some e \<Rightarrow> Inr (e, ix(k := None)))"

definition index_get :: "'k \<Rightarrow> ('k, 'e) hash_index \<Rightarrow> 'e option" where
  "index_get k ix = ix k"

section \<open>The LRU replacer\<close>

text \<open>
  A node of a \<^verbatim>\<open>std::list\<close> is a pair of an identity and a key; an iterator is the
  identity of the node it points to. Nodes are numbered in the order of their allocation,
  so a new node is distinct from every node in a list.
\<close>

record 'k lru_replacer =
  lru_list :: "(nat \<times> 'k) list"
  pinned_list :: "(nat \<times> 'k) list"
  key_states :: "'k \<rightharpoonup> bool \<times> nat"
  next_node :: nat

definition lru_empty :: "'k lru_replacer" where
  "lru_empty = \<lparr>lru_list = [], pinned_list = [], key_states = Map.empty, next_node = 0\<rparr>"

text \<open>\<^verbatim>\<open>list::erase\<close>: the iterator must point into this list.\<close>

definition erase_node :: "nat \<Rightarrow> (nat \<times> 'k) list \<Rightarrow> fault + (nat \<times> 'k) list" where
  "erase_node i xs =
     (if i \<in> set (map fst xs) then Inr (filter (\<lambda>n. fst n \<noteq> i) xs) else Inl Undefined)"

text \<open>
  \<^verbatim>\<open>add_to_list_tail\<close> takes the list by reference; it has one version per list. It sets
  only the iterator of the key's state, leaving the pinned flag as it is.
\<close>

definition pinned_flag :: "'k lru_replacer \<Rightarrow> 'k \<Rightarrow> bool" where
  "pinned_flag r k = (case key_states r k of None \<Rightarrow> False | Some (p, _) \<Rightarrow> p)"

definition add_to_lru_tail :: "'k \<Rightarrow> 'k lru_replacer \<Rightarrow> 'k lru_replacer" where
  "add_to_lru_tail k r =
     r\<lparr>lru_list := lru_list r @ [(next_node r, k)],
       key_states := (key_states r)(k \<mapsto> (pinned_flag r k, next_node r)),
       next_node := Suc (next_node r)\<rparr>"

definition add_to_pinned_tail :: "'k \<Rightarrow> 'k lru_replacer \<Rightarrow> 'k lru_replacer" where
  "add_to_pinned_tail k r =
     r\<lparr>pinned_list := pinned_list r @ [(next_node r, k)],
       key_states := (key_states r)(k \<mapsto> (pinned_flag r k, next_node r)),
       next_node := Suc (next_node r)\<rparr>"

definition lru_add :: "'k \<Rightarrow> 'k lru_replacer \<Rightarrow> fault + 'k lru_replacer" where
  "lru_add k r =
     (if key_states r k \<noteq> None then Inl Assert_failed
      else Inr (add_to_lru_tail k (r\<lparr>key_states := (key_states r)(k \<mapsto> (False, 0))\<rparr>)))"

definition get_num_can_replace :: "'k lru_replacer \<Rightarrow> nat" where
  "get_num_can_replace r = length (lru_list r)"

definition pop_replaced :: "'k lru_replacer \<Rightarrow> fault + ('k \<times> 'k lru_replacer)" where
  "pop_replaced r =
     (case lru_list r of
        [] \<Rightarrow> Inl Assert_failed
      | (i, k) # rest \<Rightarrow>
          (case key_states r k of
             None \<Rightarrow> Inl (Throw Out_of_range)
           | Some (p, j) \<Rightarrow>
               if p \<or> j \<noteq> i then Inl Assert_failed
               else Inr (k, r\<lparr>lru_list := rest, key_states := (key_states r)(k := None)\<rparr>)))"

definition lru_pin :: "'k \<Rightarrow> 'k lru_replacer \<Rightarrow> fault + 'k lru_replacer" where
  "lru_pin k r =
     (case key_states r k of
        None \<Rightarrow> Inl (Throw Out_of_range)
      | Some (p, i) \<Rightarrow>
          if p then Inr r
          else obind (erase_node i (lru_list r)) (\<lambda>l.
            Inr (add_to_pinned_tail k
              (r\<lparr>lru_list := l, key_states := (key_states r)(k \<mapsto> (True, i))\<rparr>))))"

definition lru_unpin :: "'k \<Rightarrow> 'k lru_replacer \<Rightarrow> fault + 'k lru_replacer" where
  "lru_unpin k r =
     (case key_states r k of
        None \<Rightarrow> Inl (Throw Out_of_range)
      | Some (p, i) \<Rightarrow>
          if \<not> p then Inr r
          else obind (erase_node i (pinned_list r)) (\<lambda>l.
            Inr (add_to_lru_tail k
              (r\<lparr>pinned_list := l, key_states := (key_states r)(k \<mapsto> (False, i))\<rparr>))))"

definition lru_access :: "'k \<Rightarrow> 'k lru_replacer \<Rightarrow> fault + 'k lru_replacer" where
  "lru_access k r =
     (case key_states r k of
        None \<Rightarrow> Inl Assert_failed
      | Some (p, i) \<Rightarrow>
          if p then Inr r
          else obind (erase_node i (lru_list r)) (\<lambda>l.
            Inr (add_to_lru_tail k (r\<lparr>lru_list := l\<rparr>))))"

definition lru_remove :: "'k \<Rightarrow> 'k lru_replacer \<Rightarrow> fault + 'k lru_replacer" where
  "lru_remove k r =
     (case key_states r k of
        None \<Rightarrow> Inl Assert_failed
      | Some (p, i) \<Rightarrow>
          if p then obind (erase_node i (pinned_list r)) (\<lambda>l.
            Inr (r\<lparr>pinned_list := l, key_states := (key_states r)(k := None)\<rparr>))
          else obind (erase_node i (lru_list r)) (\<lambda>l.
            Inr (r\<lparr>lru_list := l, key_states := (key_states r)(k := None)\<rparr>)))"

section \<open>The cache manager\<close>

record ('k, 'e) cache_manager =
  cm_index :: "('k, 'e) hash_index"
  cm_replacer :: "'k lru_replacer"

definition cm_empty :: "('k, 'e) cache_manager" where
  "cm_empty = \<lparr>cm_index = Map.empty, cm_replacer = lru_empty\<rparr>"

definition cm_add ::
    "'k \<Rightarrow> 'e \<Rightarrow> ('k, 'e) cache_manager \<Rightarrow> fault + ('k, 'e) cache_manager" where
  "cm_add k e c =
     obind (index_add k e (cm_index c)) (\<lambda>ix.
     obind (lru_add k (cm_replacer c)) (\<lambda>r.
       Inr (c\<lparr>cm_index := ix, cm_replacer := r\<rparr>)))"

definition cm_get ::
    "'k \<Rightarrow> bool \<Rightarrow> ('k, 'e) cache_manager \<Rightarrow> fault + ('e option \<times> ('k, 'e) cache_manager)" where
  "cm_get k is_access c =
     (let e = index_get k (cm_index c) in
      if e \<noteq> None \<and> is_access
      then obind (lru_access k (cm_replacer c)) (\<lambda>r. Inr (e, c\<lparr>cm_replacer := r\<rparr>))
      else Inr (e, c))"

definition cm_pin :: "'k \<Rightarrow> ('k, 'e) cache_manager \<Rightarrow> fault + ('k, 'e) cache_manager" where
  "cm_pin k c = obind (lru_pin k (cm_replacer c)) (\<lambda>r. Inr (c\<lparr>cm_replacer := r\<rparr>))"

definition cm_unpin :: "'k \<Rightarrow> ('k, 'e) cache_manager \<Rightarrow> fault + ('k, 'e) cache_manager" where
  "cm_unpin k c = obind (lru_unpin k (cm_replacer c)) (\<lambda>r. Inr (c\<lparr>cm_replacer := r\<rparr>))"

definition cm_replace_one ::
    "('k, 'e) cache_manager \<Rightarrow> fault + ('e option \<times> ('k, 'e) cache_manager)" where
  "cm_replace_one c =
     (if get_num_can_replace (cm_replacer c) = 0 then Inr (None, c)
      else obind (pop_replaced (cm_replacer c)) (\<lambda>(k, r).
           obind (index_remove k (cm_index c)) (\<lambda>(e, ix).
             Inr (Some e, c\<lparr>cm_index := ix, cm_replacer := r\<rparr>))))"

definition cm_remove :: "'k \<Rightarrow> ('k, 'e) cache_manager \<Rightarrow> fault + ('k, 'e) cache_manager" where
  "cm_remove k c =
     obind (lru_remove k (cm_replacer c)) (\<lambda>r.
     obind (index_remove k (cm_index c)) (\<lambda>(_, ix).
       Inr (c\<lparr>cm_index := ix, cm_replacer := r\<rparr>)))"

text \<open>A write through an entry pointer.\<close>

definition cm_update :: "'k \<Rightarrow> ('e \<Rightarrow> 'e) \<Rightarrow> ('k, 'e) cache_manager \<Rightarrow> ('k, 'e) cache_manager" where
  "cm_update k f c = c\<lparr>cm_index := (cm_index c)(k := map_option f (cm_index c k))\<rparr>"

text \<open>
  The eviction loop of the caches' \<^verbatim>\<open>do_replace\<close>: evict the victim, check the assertion
  \<open>ok\<close> on it, decrement the size, stop when nothing can be evicted or the size is back
  within \<open>expect\<close>.
\<close>

lemma cm_replace_one_shrinks:
  "cm_replace_one c = Inr (Some e, c') \<Longrightarrow>
   length (lru_list (cm_replacer c')) < length (lru_list (cm_replacer c))"
  by (auto simp: cm_replace_one_def pop_replaced_def elim!: obind_InrE
      split: if_splits list.splits option.splits prod.splits)

function cm_evict ::
    "('e \<Rightarrow> bool) \<Rightarrow> nat \<Rightarrow> nat \<Rightarrow> ('k, 'e) cache_manager \<Rightarrow> fault + (nat \<times> ('k, 'e) cache_manager)"
where
  "cm_evict ok expect cur c =
     (case cm_replace_one c of
        Inl f \<Rightarrow> Inl f
      | Inr (None, c') \<Rightarrow> Inr (cur, c')
      | Inr (Some e, c') \<Rightarrow>
          if \<not> ok e then Inl Assert_failed
          else if cur - 1 \<le> expect then Inr (cur - 1, c')
          else cm_evict ok expect (cur - 1) c')"
  by pat_completeness auto
termination
  by (relation "measure (\<lambda>(ok, expect, cur, c). length (lru_list (cm_replacer c)))")
     (auto dest: cm_replace_one_shrinks)

declare cm_evict.simps [simp del]


section \<open>Contract of a replacer\<close>

text \<open>
  What the cache manager relies on: the candidates for replacement in the order in which
  they will be evicted, and the set of pinned keys.
\<close>

locale replacer =
  fixes r_add :: "'k \<Rightarrow> 'r \<Rightarrow> fault + 'r"
    and r_pop :: "'r \<Rightarrow> fault + ('k \<times> 'r)"
    and r_pin :: "'k \<Rightarrow> 'r \<Rightarrow> fault + 'r"
    and r_unpin :: "'k \<Rightarrow> 'r \<Rightarrow> fault + 'r"
    and r_access :: "'k \<Rightarrow> 'r \<Rightarrow> fault + 'r"
    and r_remove :: "'k \<Rightarrow> 'r \<Rightarrow> fault + 'r"
    and cands :: "'r \<Rightarrow> 'k list"
    and pins :: "'r \<Rightarrow> 'k set"
    and inv :: "'r \<Rightarrow> bool"
  assumes inv_disjoint: "inv r \<Longrightarrow> distinct (cands r) \<and> finite (pins r) \<and> set (cands r) \<inter> pins r = {}"
    and add_law: "inv r \<Longrightarrow> k \<notin> set (cands r) \<Longrightarrow> k \<notin> pins r \<Longrightarrow>
      \<exists>r'. r_add k r = Inr r' \<and> inv r' \<and> cands r' = cands r @ [k] \<and> pins r' = pins r"
    and pop_law: "inv r \<Longrightarrow> cands r = k # ks \<Longrightarrow>
      \<exists>r'. r_pop r = Inr (k, r') \<and> inv r' \<and> cands r' = ks \<and> pins r' = pins r"
    and pin_law: "inv r \<Longrightarrow> k \<in> set (cands r) \<Longrightarrow>
      \<exists>r'. r_pin k r = Inr r' \<and> inv r' \<and> cands r' = remove1 k (cands r) \<and> pins r' = insert k (pins r)"
    and pin_pinned: "inv r \<Longrightarrow> k \<in> pins r \<Longrightarrow> r_pin k r = Inr r"
    and unpin_law: "inv r \<Longrightarrow> k \<in> pins r \<Longrightarrow>
      \<exists>r'. r_unpin k r = Inr r' \<and> inv r' \<and> cands r' = cands r @ [k] \<and> pins r' = pins r - {k}"
    and unpin_unpinned: "inv r \<Longrightarrow> k \<in> set (cands r) \<Longrightarrow> r_unpin k r = Inr r"
    and access_law: "inv r \<Longrightarrow> k \<in> set (cands r) \<Longrightarrow>
      \<exists>r'. r_access k r = Inr r' \<and> inv r' \<and> cands r' = remove1 k (cands r) @ [k] \<and> pins r' = pins r"
    and access_pinned: "inv r \<Longrightarrow> k \<in> pins r \<Longrightarrow> r_access k r = Inr r"
    and remove_law: "inv r \<Longrightarrow> k \<in> set (cands r) \<union> pins r \<Longrightarrow>
      \<exists>r'. r_remove k r = Inr r' \<and> inv r' \<and> cands r' = remove1 k (cands r) \<and> pins r' = pins r - {k}"
begin

text \<open>An access never changes which keys are known, whether or not the key is pinned.\<close>

lemma access_keys:
  assumes "inv r" and "k \<in> set (cands r) \<union> pins r"
  shows "\<exists>r'. r_access k r = Inr r' \<and> inv r' \<and> set (cands r') = set (cands r) \<and> pins r' = pins r"
proof (cases "k \<in> pins r")
  case True
  with assms access_pinned show ?thesis by auto
next
  case False
  with assms have k: "k \<in> set (cands r)" by simp
  then have "set (remove1 k (cands r) @ [k]) = set (cands r)"
    using inv_disjoint [OF assms(1)] by auto
  with access_law [OF assms(1) k] show ?thesis by metis
qed

lemma pin_keys:
  assumes "inv r" and "k \<in> set (cands r) \<union> pins r"
  shows "\<exists>r'. r_pin k r = Inr r' \<and> inv r' \<and> set (cands r') = set (cands r) - {k} \<and>
    pins r' = insert k (pins r)"
proof (cases "k \<in> pins r")
  case True
  then have "set (cands r) - {k} = set (cands r)"
    using inv_disjoint [OF assms(1)] by auto
  with True assms pin_pinned [OF assms(1) True] show ?thesis by (auto simp: insert_absorb)
next
  case False
  with assms have "k \<in> set (cands r)" by simp
  with pin_law [OF assms(1) this] inv_disjoint [OF assms(1)] show ?thesis by auto
qed

lemma unpin_keys:
  assumes "inv r" and "k \<in> set (cands r) \<union> pins r"
  shows "\<exists>r'. r_unpin k r = Inr r' \<and> inv r' \<and> set (cands r') = insert k (set (cands r)) \<and>
    pins r' = pins r - {k}"
proof (cases "k \<in> pins r")
  case True
  with unpin_law [OF assms(1) True] show ?thesis by auto
next
  case False
  with assms have "k \<in> set (cands r)" by simp
  with unpin_unpinned [OF assms(1) this] False assms(1) show ?thesis by (auto simp: insert_absorb)
qed

text \<open>
  After a run of accesses the keys that were not touched come first, in their old order,
  and the touched ones follow in the order of their last access; pinned keys are not moved.
\<close>

lemma access_run:
  assumes "inv r" and "set ks \<subseteq> set (cands r) \<union> pins r"
  shows "\<exists>r'. run_all r_access ks r = Inr r' \<and> inv r' \<and> pins r' = pins r \<and>
    cands r' = filter (\<lambda>k. k \<notin> set ks) (cands r) @ filter (\<lambda>k. k \<notin> pins r) (remdups ks)"
  using assms
proof (induction ks arbitrary: r)
  case Nil
  then show ?case by (simp add: filter_True)
next
  case (Cons k ks)
  note inv = Cons.prems(1)
  have dist: "distinct (cands r)" using inv_disjoint [OF inv] by simp
  show ?case
  proof (cases "k \<in> pins r")
    case True
    then have "k \<notin> set (cands r)" using inv_disjoint [OF inv] by auto
    then have "filter (\<lambda>x. x \<notin> set (k # ks)) (cands r) = filter (\<lambda>x. x \<notin> set ks) (cands r)"
      by (intro filter_cong) auto
    with True Cons.IH [OF inv] Cons.prems(2) access_pinned [OF inv True] show ?thesis by simp
  next
    case False
    with Cons.prems have k: "k \<in> set (cands r)" by simp
    obtain r1 where r1: "r_access k r = Inr r1" "inv r1" "pins r1 = pins r"
        "cands r1 = remove1 k (cands r) @ [k]"
      using access_law [OF inv k] by auto
    have "set ks \<subseteq> set (cands r1) \<union> pins r1"
      using Cons.prems(2) r1 dist by auto
    from Cons.IH [OF r1(2) this] obtain r2 where r2: "run_all r_access ks r1 = Inr r2" "inv r2"
        "pins r2 = pins r1" "cands r2 = filter (\<lambda>k. k \<notin> set ks) (cands r1) @ filter (\<lambda>k. k \<notin> pins r1) (remdups ks)"
      by auto
    have "filter (\<lambda>x. x \<notin> set ks) (remove1 k (cands r)) = filter (\<lambda>x. x \<notin> set (k # ks)) (cands r)"
      using dist by (auto simp: filter_neq_remove1 [symmetric] intro!: filter_cong)
    with False r1 r2 show ?thesis by simp
  qed
qed

end

section \<open>The LRU replacer satisfies the contract\<close>

definition nodes_ok ::
    "(nat \<times> 'k) list \<Rightarrow> (nat \<times> 'k) list \<Rightarrow> ('k \<rightharpoonup> bool \<times> nat) \<Rightarrow> nat \<Rightarrow> bool" where
  "nodes_ok l p ks n \<longleftrightarrow>
     distinct (map fst (l @ p)) \<and> distinct (map snd (l @ p)) \<and>
     (\<forall>x \<in> set (l @ p). fst x < n) \<and>
     (\<forall>k i. (ks k = Some (False, i) \<longleftrightarrow> (i, k) \<in> set l) \<and> (ks k = Some (True, i) \<longleftrightarrow> (i, k) \<in> set p))"

definition lru_inv :: "'k lru_replacer \<Rightarrow> bool" where
  "lru_inv r \<longleftrightarrow> nodes_ok (lru_list r) (pinned_list r) (key_states r) (next_node r)"

definition lru_cands :: "'k lru_replacer \<Rightarrow> 'k list" where
  "lru_cands r = map snd (lru_list r)"

definition lru_pins :: "'k lru_replacer \<Rightarrow> 'k set" where
  "lru_pins r = set (map snd (pinned_list r))"

lemma map_snd_filter_node:
  assumes "distinct (map fst xs)" "distinct (map snd xs)" "(i, k) \<in> set xs"
  shows "map snd (filter (\<lambda>n. fst n \<noteq> i) xs) = remove1 k (map snd xs)"
  using assms
proof (induction xs)
  case Nil
  then show ?case by simp
next
  case (Cons x xs)
  show ?case
  proof (cases "x = (i, k)")
    case True
    with Cons.prems have "filter (\<lambda>n. fst n \<noteq> i) xs = xs"
      by (auto simp: filter_id_conv image_iff)
    with True show ?thesis by simp
  next
    case False
    with Cons.prems have "(i, k) \<in> set xs" by auto
    then have "i \<in> fst ` set xs" "k \<in> snd ` set xs" by force+
    with Cons.prems have "fst x \<noteq> i" "snd x \<noteq> k" by auto
    with Cons \<open>(i, k) \<in> set xs\<close> show ?thesis by simp
  qed
qed

lemma set_filter_node:
  assumes "distinct (map fst xs)" "(i, k) \<in> set xs"
  shows "set (filter (\<lambda>n. fst n \<noteq> i) xs) = set xs - {(i, k)}"
proof -
  have u: "\<And>b. (i, b) \<in> set xs \<Longrightarrow> b = k"
    using eq_key_imp_eq_value [OF assms(1) _ assms(2)] .
  show ?thesis by (auto dest: u)
qed

lemma erase_node_Inr:
  "(i, k) \<in> set xs \<Longrightarrow> erase_node i xs = Inr (filter (\<lambda>n. fst n \<noteq> i) xs)"
  by (force simp: erase_node_def)

lemma nodes_okD:
  assumes "nodes_ok l p ks n"
  shows "ks k = Some (False, i) \<longleftrightarrow> (i, k) \<in> set l" "ks k = Some (True, i) \<longleftrightarrow> (i, k) \<in> set p"
    "x \<in> set l \<Longrightarrow> fst x < n" "x \<in> set p \<Longrightarrow> fst x < n"
  using assms by (auto simp: nodes_ok_def)

lemma nodes_ok_unique:
  assumes "nodes_ok l p ks n"
  shows "(i, k) \<in> set l \<Longrightarrow> (j, k) \<notin> set p"
    and "(i, k) \<in> set l \<Longrightarrow> (j, k) \<in> set l \<Longrightarrow> i = j"
    and "(i, k) \<in> set p \<Longrightarrow> (j, k) \<in> set p \<Longrightarrow> i = j"
  using nodes_okD(1,2) [OF assms, of k, symmetric] by auto

lemma nodes_ok_drop_lru:
  assumes ok: "nodes_ok l p ks n" and mem: "(i, k) \<in> set l"
  shows "nodes_ok (filter (\<lambda>x. fst x \<noteq> i) l) p (ks(k := None)) n"
proof -
  have s: "set (filter (\<lambda>x. fst x \<noteq> i) l) = set l - {(i, k)}"
    using set_filter_node [OF _ mem] ok by (auto simp: nodes_ok_def)
  have d: "distinct (map fst (filter (\<lambda>x. fst x \<noteq> i) l))" "distinct (map snd (filter (\<lambda>x. fst x \<noteq> i) l))"
    using ok by (auto simp: nodes_ok_def intro: distinct_map_filter)
  show ?thesis
    using ok d nodes_ok_unique [OF ok, of _ k] mem
    unfolding nodes_ok_def s map_append distinct_append set_append set_map
    by (auto simp: s)
qed

lemma nodes_ok_drop_pinned:
  assumes ok: "nodes_ok l p ks n" and mem: "(i, k) \<in> set p"
  shows "nodes_ok l (filter (\<lambda>x. fst x \<noteq> i) p) (ks(k := None)) n"
proof -
  have s: "set (filter (\<lambda>x. fst x \<noteq> i) p) = set p - {(i, k)}"
    using set_filter_node [OF _ mem] ok by (auto simp: nodes_ok_def)
  have d: "distinct (map fst (filter (\<lambda>x. fst x \<noteq> i) p))" "distinct (map snd (filter (\<lambda>x. fst x \<noteq> i) p))"
    using ok by (auto simp: nodes_ok_def intro: distinct_map_filter)
  show ?thesis
    using ok d nodes_ok_unique [OF ok, of _ k] mem
    unfolding nodes_ok_def s map_append distinct_append set_append set_map
    by (auto simp: s)
qed

lemma nodes_ok_fresh:
  assumes ok: "nodes_ok l p ks n" and new: "ks k = None"
  shows "k \<notin> snd ` set l" "k \<notin> snd ` set p" "n \<notin> fst ` set l" "n \<notin> fst ` set p"
proof -
  have "\<And>i. (i, k) \<notin> set l" "\<And>i. (i, k) \<notin> set p"
    using nodes_okD(1,2) [OF ok, of k, symmetric] new by auto
  then show "k \<notin> snd ` set l" "k \<notin> snd ` set p" by auto
  show "n \<notin> fst ` set l" "n \<notin> fst ` set p"
    using nodes_okD(3,4) [OF ok] by force+
qed

lemma nodes_ok_add_lru:
  assumes ok: "nodes_ok l p ks n" and new: "ks k = None"
  shows "nodes_ok (l @ [(n, k)]) p (ks(k \<mapsto> (False, n))) (Suc n)"
proof -
  note f = nodes_ok_fresh [OF ok new]
  have k: "\<And>i. (i, k) \<notin> set l" "\<And>i. (i, k) \<notin> set p"
    using f(1,2) by force+
  show ?thesis
    using ok f k unfolding nodes_ok_def by (simp add: less_Suc_eq) blast
qed

lemma nodes_ok_add_pinned:
  assumes ok: "nodes_ok l p ks n" and new: "ks k = None"
  shows "nodes_ok l (p @ [(n, k)]) (ks(k \<mapsto> (True, n))) (Suc n)"
proof -
  note f = nodes_ok_fresh [OF ok new]
  have k: "\<And>i. (i, k) \<notin> set l" "\<And>i. (i, k) \<notin> set p"
    using f(1,2) by force+
  show ?thesis
    using ok f k unfolding nodes_ok_def by (simp add: less_Suc_eq) blast
qed

lemma lru_inv_states:
  assumes "lru_inv r"
  shows "k \<in> set (lru_cands r) \<longleftrightarrow> (\<exists>i. key_states r k = Some (False, i))"
    and "k \<in> lru_pins r \<longleftrightarrow> (\<exists>i. key_states r k = Some (True, i))"
proof -
  show "k \<in> set (lru_cands r) \<longleftrightarrow> (\<exists>i. key_states r k = Some (False, i))"
    using assms by (force simp: lru_inv_def nodes_ok_def lru_cands_def image_iff)
  show "k \<in> lru_pins r \<longleftrightarrow> (\<exists>i. key_states r k = Some (True, i))"
    using assms by (force simp: lru_inv_def nodes_ok_def lru_pins_def image_iff)
qed

lemma lru_key_cases:
  assumes "lru_inv r"
  obtains (cand) i where "key_states r k = Some (False, i)" "(i, k) \<in> set (lru_list r)"
  | (pinned) i where "key_states r k = Some (True, i)" "(i, k) \<in> set (pinned_list r)"
  | (absent) "key_states r k = None"
  using assms by (cases "key_states r k") (auto simp: lru_inv_def nodes_ok_def, metis (full_types))

lemma lru_inv_disjoint:
  "lru_inv r \<Longrightarrow> distinct (lru_cands r) \<and> finite (lru_pins r) \<and> set (lru_cands r) \<inter> lru_pins r = {}"
  by (auto simp: lru_inv_def nodes_ok_def lru_cands_def lru_pins_def)


lemmas lru_abs_defs = lru_inv_def lru_cands_def lru_pins_def

lemma lru_add_law:
  assumes "lru_inv r" "k \<notin> set (lru_cands r)" "k \<notin> lru_pins r"
  shows "\<exists>r'. lru_add k r = Inr r' \<and> lru_inv r' \<and> lru_cands r' = lru_cands r @ [k] \<and> lru_pins r' = lru_pins r"
proof -
  have none: "key_states r k = None"
    by (rule lru_key_cases [OF assms(1), of k]) (use assms lru_inv_states [OF assms(1)] in auto)
  then show ?thesis
    using nodes_ok_add_lru [OF assms(1) [unfolded lru_inv_def] none]
    by (simp add: lru_add_def add_to_lru_tail_def pinned_flag_def lru_abs_defs)
qed

lemma lru_pop_law:
  assumes "lru_inv r" "lru_cands r = k # ks"
  shows "\<exists>r'. pop_replaced r = Inr (k, r') \<and> lru_inv r' \<and> lru_cands r' = ks \<and> lru_pins r' = lru_pins r"
proof -
  obtain i rest where l: "lru_list r = (i, k) # rest" and rest: "map snd rest = ks"
    using assms(2) by (auto simp: lru_cands_def)
  have mem: "(i, k) \<in> set (lru_list r)" by (simp add: l)
  have st: "key_states r k = Some (False, i)"
    using nodes_okD(1) [OF assms(1) [unfolded lru_inv_def]] mem by blast
  have "filter (\<lambda>x. fst x \<noteq> i) (lru_list r) = rest"
    using assms(1) by (auto simp: l lru_inv_def nodes_ok_def filter_id_conv)
  then show ?thesis
    using nodes_ok_drop_lru [OF assms(1) [unfolded lru_inv_def] mem] rest
    by (simp add: pop_replaced_def l st lru_abs_defs)
qed

lemma lru_pin_law:
  assumes "lru_inv r" "k \<in> set (lru_cands r)"
  shows "\<exists>r'. lru_pin k r = Inr r' \<and> lru_inv r' \<and> lru_cands r' = remove1 k (lru_cands r) \<and>
    lru_pins r' = insert k (lru_pins r)"
proof -
  note ok = assms(1) [unfolded lru_inv_def]
  obtain i where st: "key_states r k = Some (False, i)"
    using lru_inv_states(1) [OF assms(1), of k] assms(2) by auto
  then have mem: "(i, k) \<in> set (lru_list r)" using nodes_okD(1) [OF ok] by blast
  have "map snd (filter (\<lambda>x. fst x \<noteq> i) (lru_list r)) = remove1 k (map snd (lru_list r))"
    using ok mem by (intro map_snd_filter_node) (auto simp: nodes_ok_def)
  then show ?thesis
    using nodes_ok_add_pinned [OF nodes_ok_drop_lru [OF ok mem], of k]
    by (simp add: lru_pin_def st erase_node_Inr [OF mem] add_to_pinned_tail_def pinned_flag_def
        lru_abs_defs)
qed

lemma lru_unpin_law:
  assumes "lru_inv r" "k \<in> lru_pins r"
  shows "\<exists>r'. lru_unpin k r = Inr r' \<and> lru_inv r' \<and> lru_cands r' = lru_cands r @ [k] \<and>
    lru_pins r' = lru_pins r - {k}"
proof -
  note ok = assms(1) [unfolded lru_inv_def]
  obtain i where st: "key_states r k = Some (True, i)"
    using lru_inv_states(2) [OF assms(1), of k] assms(2) by auto
  then have mem: "(i, k) \<in> set (pinned_list r)" using nodes_okD(2) [OF ok] by blast
  have d: "distinct (map snd (pinned_list r))" using ok by (simp add: nodes_ok_def)
  have "map snd (filter (\<lambda>x. fst x \<noteq> i) (pinned_list r)) = remove1 k (map snd (pinned_list r))"
    using ok mem by (intro map_snd_filter_node) (auto simp: nodes_ok_def)
  then have "snd ` set (filter (\<lambda>x. fst x \<noteq> i) (pinned_list r)) = snd ` set (pinned_list r) - {k}"
    using d by (metis set_map set_remove1_eq)
  then show ?thesis
    using nodes_ok_add_lru [OF nodes_ok_drop_pinned [OF ok mem], of k]
    by (simp add: lru_unpin_def st erase_node_Inr [OF mem] add_to_lru_tail_def pinned_flag_def
        lru_abs_defs)
qed

lemma lru_access_law:
  assumes "lru_inv r" "k \<in> set (lru_cands r)"
  shows "\<exists>r'. lru_access k r = Inr r' \<and> lru_inv r' \<and> lru_cands r' = remove1 k (lru_cands r) @ [k] \<and>
    lru_pins r' = lru_pins r"
proof -
  note ok = assms(1) [unfolded lru_inv_def]
  obtain i where st: "key_states r k = Some (False, i)"
    using lru_inv_states(1) [OF assms(1), of k] assms(2) by auto
  then have mem: "(i, k) \<in> set (lru_list r)" using nodes_okD(1) [OF ok] by blast
  have "map snd (filter (\<lambda>x. fst x \<noteq> i) (lru_list r)) = remove1 k (map snd (lru_list r))"
    using ok mem by (intro map_snd_filter_node) (auto simp: nodes_ok_def)
  then show ?thesis
    using nodes_ok_add_lru [OF nodes_ok_drop_lru [OF ok mem], of k]
    by (simp add: lru_access_def st erase_node_Inr [OF mem] add_to_lru_tail_def pinned_flag_def
        lru_abs_defs)
qed

lemma lru_remove_law:
  assumes "lru_inv r" "k \<in> set (lru_cands r) \<union> lru_pins r"
  shows "\<exists>r'. lru_remove k r = Inr r' \<and> lru_inv r' \<and> lru_cands r' = remove1 k (lru_cands r) \<and>
    lru_pins r' = lru_pins r - {k}"
proof -
  note ok = assms(1) [unfolded lru_inv_def]
  show ?thesis
  proof (rule lru_key_cases [OF assms(1), of k])
    fix i assume st: "key_states r k = Some (False, i)" and mem: "(i, k) \<in> set (lru_list r)"
    have "map snd (filter (\<lambda>x. fst x \<noteq> i) (lru_list r)) = remove1 k (map snd (lru_list r))"
      using ok mem by (intro map_snd_filter_node) (auto simp: nodes_ok_def)
    moreover have "k \<notin> lru_pins r" using lru_inv_states(2) [OF assms(1)] st by simp
    ultimately show ?thesis
      using nodes_ok_drop_lru [OF ok mem]
      by (simp add: lru_remove_def st erase_node_Inr [OF mem] lru_abs_defs)
  next
    fix i assume st: "key_states r k = Some (True, i)" and mem: "(i, k) \<in> set (pinned_list r)"
    have d: "distinct (map snd (pinned_list r))" using ok by (simp add: nodes_ok_def)
    have "map snd (filter (\<lambda>x. fst x \<noteq> i) (pinned_list r)) = remove1 k (map snd (pinned_list r))"
      using ok mem by (intro map_snd_filter_node) (auto simp: nodes_ok_def)
    then have "snd ` set (filter (\<lambda>x. fst x \<noteq> i) (pinned_list r)) = snd ` set (pinned_list r) - {k}"
      using d by (metis set_map set_remove1_eq)
    moreover have "k \<notin> set (lru_cands r)" using lru_inv_states(1) [OF assms(1)] st by simp
    ultimately show ?thesis
      using nodes_ok_drop_pinned [OF ok mem]
      by (simp add: lru_remove_def st erase_node_Inr [OF mem] lru_abs_defs remove1_idem)
  next
    assume "key_states r k = None"
    with assms lru_inv_states [OF assms(1)] show ?thesis by auto
  qed
qed

interpretation lru: replacer lru_add pop_replaced lru_pin lru_unpin lru_access lru_remove
  lru_cands lru_pins lru_inv
proof (unfold_locales, goal_cases)
  case (1 r) then show ?case by (rule lru_inv_disjoint)
next
  case (2 r k) then show ?case by (rule lru_add_law)
next
  case (3 r k ks) then show ?case by (rule lru_pop_law)
next
  case (4 r k) then show ?case by (rule lru_pin_law)
next
  case (5 r k) then show ?case
    using lru_inv_states(2) [OF 5(1), of k] by (auto simp: lru_pin_def)
next
  case (6 r k) then show ?case by (rule lru_unpin_law)
next
  case (7 r k) then show ?case
    using lru_inv_states(1) [OF 7(1), of k] by (auto simp: lru_unpin_def)
next
  case (8 r k) then show ?case by (rule lru_access_law)
next
  case (9 r k) then show ?case
    using lru_inv_states(2) [OF 9(1), of k] by (auto simp: lru_access_def)
next
  case (10 r k) then show ?case by (rule lru_remove_law)
qed

section \<open>Invariant and behaviour of the cache manager\<close>

abbreviation cm_cands :: "('k, 'e) cache_manager \<Rightarrow> 'k list" where
  "cm_cands c \<equiv> lru_cands (cm_replacer c)"

abbreviation cm_pins :: "('k, 'e) cache_manager \<Rightarrow> 'k set" where
  "cm_pins c \<equiv> lru_pins (cm_replacer c)"

text \<open>The index and the replacer know the same keys.\<close>

definition cm_inv :: "('k, 'e) cache_manager \<Rightarrow> bool" where
  "cm_inv c \<longleftrightarrow> lru_inv (cm_replacer c) \<and> dom (cm_index c) = set (cm_cands c) \<union> cm_pins c"

lemma cm_invD:
  assumes "cm_inv c"
  shows "lru_inv (cm_replacer c)" "dom (cm_index c) = set (cm_cands c) \<union> cm_pins c"
    "distinct (cm_cands c)" "finite (dom (cm_index c))" "set (cm_cands c) \<inter> cm_pins c = {}"
  using assms lru.inv_disjoint by (auto simp: cm_inv_def)

lemma cm_index_cands: "cm_inv c \<Longrightarrow> k \<in> set (cm_cands c) \<Longrightarrow> \<exists>e. cm_index c k = Some e"
  by (auto simp: cm_inv_def dom_def)

lemma cm_empty_inv [simp]: "cm_inv cm_empty"
  by (simp add: cm_inv_def cm_empty_def lru_empty_def lru_abs_defs nodes_ok_def)

lemma cm_empty_simps [simp]:
  "cm_index cm_empty = Map.empty" "cm_cands cm_empty = []" "cm_pins cm_empty = {}"
  by (simp_all add: cm_empty_def lru_empty_def lru_cands_def lru_pins_def)

lemma cm_add_ok:
  assumes "cm_inv c" "cm_index c k = None"
  shows "\<exists>c'. cm_add k e c = Inr c' \<and> cm_inv c' \<and> cm_index c' = (cm_index c)(k \<mapsto> e) \<and>
    cm_cands c' = cm_cands c @ [k] \<and> cm_pins c' = cm_pins c"
proof -
  have "k \<notin> set (cm_cands c)" "k \<notin> cm_pins c"
    using cm_invD(2) [OF assms(1)] assms(2) by auto
  from lru.add_law [OF cm_invD(1) [OF assms(1)] this] obtain r where
    r: "lru_add k (cm_replacer c) = Inr r" "lru_inv r" "lru_cands r = cm_cands c @ [k]"
       "lru_pins r = cm_pins c" by auto
  then show ?thesis
    using cm_invD(2) [OF assms(1)] assms(2)
    by (auto simp: cm_add_def index_add_def cm_inv_def)
qed

lemma cm_get_ok:
  assumes "cm_inv c"
  shows "\<exists>c'. cm_get k a c = Inr (cm_index c k, c') \<and> cm_inv c' \<and> cm_index c' = cm_index c \<and>
    set (cm_cands c') = set (cm_cands c) \<and> cm_pins c' = cm_pins c"
proof (cases "cm_index c k = None \<or> \<not> a")
  case True
  with assms show ?thesis by (auto simp: cm_get_def index_get_def)
next
  case False
  then have "k \<in> set (cm_cands c) \<union> cm_pins c"
    using cm_invD(2) [OF assms] by auto
  from lru.access_keys [OF cm_invD(1) [OF assms] this] False cm_invD(2) [OF assms]
  show ?thesis by (auto simp: cm_get_def index_get_def cm_inv_def)
qed

lemma cm_pin_ok:
  assumes "cm_inv c" "k \<in> dom (cm_index c)"
  shows "\<exists>c'. cm_pin k c = Inr c' \<and> cm_inv c' \<and> cm_index c' = cm_index c \<and>
    set (cm_cands c') = set (cm_cands c) - {k} \<and> cm_pins c' = insert k (cm_pins c)"
proof -
  have "k \<in> set (cm_cands c) \<union> cm_pins c" using cm_invD(2) [OF assms(1)] assms(2) by simp
  from lru.pin_keys [OF cm_invD(1) [OF assms(1)] this] cm_invD(2) [OF assms(1)] this
  show ?thesis by (auto simp: cm_pin_def cm_inv_def)
qed

lemma cm_unpin_ok:
  assumes "cm_inv c" "k \<in> dom (cm_index c)"
  shows "\<exists>c'. cm_unpin k c = Inr c' \<and> cm_inv c' \<and> cm_index c' = cm_index c \<and>
    set (cm_cands c') = insert k (set (cm_cands c)) \<and> cm_pins c' = cm_pins c - {k}"
proof -
  have "k \<in> set (cm_cands c) \<union> cm_pins c" using cm_invD(2) [OF assms(1)] assms(2) by simp
  from lru.unpin_keys [OF cm_invD(1) [OF assms(1)] this] cm_invD(2) [OF assms(1)] this
  show ?thesis by (auto simp: cm_unpin_def cm_inv_def)
qed

lemma cm_remove_ok:
  assumes "cm_inv c" "k \<in> dom (cm_index c)"
  shows "\<exists>c'. cm_remove k c = Inr c' \<and> cm_inv c' \<and> cm_index c' = (cm_index c)(k := None) \<and>
    set (cm_cands c') = set (cm_cands c) - {k} \<and> cm_pins c' = cm_pins c - {k}"
proof -
  have k: "k \<in> set (cm_cands c) \<union> cm_pins c" using cm_invD(2) [OF assms(1)] assms(2) by simp
  obtain r where r: "lru_remove k (cm_replacer c) = Inr r" "lru_inv r"
      "lru_cands r = remove1 k (cm_cands c)" "lru_pins r = cm_pins c - {k}"
    using lru.remove_law [OF cm_invD(1) [OF assms(1)] k] by auto
  obtain e where "cm_index c k = Some e" using assms(2) by auto
  then show ?thesis
    using r cm_invD(2,3) [OF assms(1)]
    by (auto simp: cm_remove_def index_remove_def cm_inv_def)
qed

lemma cm_update_simps [simp]:
  "cm_replacer (cm_update k f c) = cm_replacer c"
  "cm_index (cm_update k f c) = (cm_index c)(k := map_option f (cm_index c k))"
  "cm_inv (cm_update k f c) \<longleftrightarrow> cm_inv c"
proof -
  have "dom ((cm_index c)(k := map_option f (cm_index c k))) = dom (cm_index c)"
    by (auto simp: dom_def)
  then show "cm_inv (cm_update k f c) \<longleftrightarrow> cm_inv c"
    by (simp add: cm_inv_def cm_update_def)
qed (simp_all add: cm_update_def)

lemma cm_replace_one_empty: "cm_cands c = [] \<Longrightarrow> cm_replace_one c = Inr (None, c)"
  by (simp add: cm_replace_one_def get_num_can_replace_def lru_cands_def)

lemma cm_replace_one_ok:
  assumes "cm_inv c" "cm_cands c = k # ks"
  shows "\<exists>c' e. cm_replace_one c = Inr (Some e, c') \<and> cm_index c k = Some e \<and> cm_inv c' \<and>
    cm_index c' = (cm_index c)(k := None) \<and> cm_cands c' = ks \<and> cm_pins c' = cm_pins c"
proof -
  from lru.pop_law [OF cm_invD(1) [OF assms(1)] assms(2)] obtain r where
    r: "pop_replaced (cm_replacer c) = Inr (k, r)" "lru_inv r" "lru_cands r = ks" "lru_pins r = cm_pins c"
    by auto
  obtain e where e: "cm_index c k = Some e" using cm_index_cands [OF assms(1)] assms(2) by auto
  have "get_num_can_replace (cm_replacer c) \<noteq> 0"
    using assms(2) by (auto simp: get_num_can_replace_def lru_cands_def)
  moreover have "dom (cm_index c) - {k} = set ks \<union> cm_pins c"
    using cm_invD(2,3,5) [OF assms(1)] assms(2) by auto
  ultimately show ?thesis
    using r e by (auto simp: cm_replace_one_def index_remove_def cm_inv_def)
qed

text \<open>
  The eviction loop ends and evicts exactly the first \<open>cur - expect\<close> candidates, or all of
  them when there are fewer; it fails only if one of them violates the assertion.
\<close>

lemma cm_evict_ok:
  assumes "cm_inv c" "\<forall>k e. k \<in> set (cm_cands c) \<longrightarrow> cm_index c k = Some e \<longrightarrow> ok e" "expect < cur"
  shows "\<exists>c'. let n = min (length (cm_cands c)) (cur - expect) in
    cm_evict ok expect cur c = Inr (cur - n, c') \<and> cm_inv c' \<and>
    cm_index c' = cm_index c |` (- set (take n (cm_cands c))) \<and>
    cm_cands c' = drop n (cm_cands c) \<and> cm_pins c' = cm_pins c"
  using assms
proof (induction "cm_cands c" arbitrary: c cur)
  case Nil
  then show ?case
    by (subst cm_evict.simps) (simp add: cm_replace_one_empty restrict_map_def)
next
  case (Cons k ks)
  obtain c1 e where c1: "cm_replace_one c = Inr (Some e, c1)" "cm_index c k = Some e" "cm_inv c1"
     "cm_index c1 = (cm_index c)(k := None)" "cm_cands c1 = ks" "cm_pins c1 = cm_pins c"
    using cm_replace_one_ok [OF Cons.prems(1) Cons.hyps(2) [symmetric]] by auto
  have hd: "cm_cands c = k # ks" using Cons.hyps(2) by simp
  have ok: "ok e" using Cons.prems(2) c1(2) hd by simp
  show ?case
  proof (cases "cur - 1 \<le> expect")
    case True
    then have "cur - expect = 1" using Cons.prems(3) by simp
    with True ok c1 hd show ?thesis
      by (subst cm_evict.simps) (auto simp: restrict_map_def fun_eq_iff)
  next
    case False
    have "\<forall>k e. k \<in> set (cm_cands c1) \<longrightarrow> cm_index c1 k = Some e \<longrightarrow> ok e"
      using Cons.prems(2) c1 hd by (auto split: if_splits)
    then obtain c2 where c2: "let n = min (length ks) (cur - 1 - expect) in
        cm_evict ok expect (cur - 1) c1 = Inr (cur - 1 - n, c2) \<and> cm_inv c2 \<and>
        cm_index c2 = cm_index c1 |` (- set (take n ks)) \<and>
        cm_cands c2 = drop n ks \<and> cm_pins c2 = cm_pins c1"
      using Cons.hyps(1) [of c1 "cur - 1"] c1 False by (auto simp: Let_def)
    have "min (length (cm_cands c)) (cur - expect) = Suc (min (length ks) (cur - 1 - expect))"
      using False hd by simp
    then show ?thesis
      using c1 ok False c2 hd
      by (subst cm_evict.simps) (auto simp: Let_def restrict_map_def fun_eq_iff)
  qed
qed

section \<open>Properties\<close>

text \<open>
  C5. Least recently used order: after any sequence of accesses to known keys, the keys that
  were not accessed are evicted first, in their previous order, and then the accessed ones
  in the order of their last access; pinned keys are not candidates, and no access fails.
\<close>

theorem lru_order:
  assumes "lru_inv r" "set ks \<subseteq> set (lru_cands r) \<union> lru_pins r"
  shows "\<exists>r'. run_all lru_access ks r = Inr r' \<and> lru_inv r' \<and> lru_pins r' = lru_pins r \<and>
    lru_cands r' = filter (\<lambda>k. k \<notin> set ks) (lru_cands r) @ filter (\<lambda>k. k \<notin> lru_pins r) (remdups ks)"
  by (rule lru.access_run [OF assms])

theorem lru_order_witness:
  "\<exists>r r'. lru_cands r = [11, 12, 13 :: nat] \<and> lru_pins r = {14} \<and>
     run_all lru_access [12, 11, 12, 14] r = Inr r' \<and> lru_cands r' = [13, 11, 12]"
proof -
  define r where "r = (\<lparr>lru_list = [(0, 11), (1, 12), (2, 13)], pinned_list = [(3, 14)],
    key_states = [11 \<mapsto> (False, 0), 12 \<mapsto> (False, 1), 13 \<mapsto> (False, 2), 14 \<mapsto> (True, 3)],
    next_node = 4\<rparr> :: nat lru_replacer)"
  have "lru_inv r" by (auto simp: r_def lru_inv_def nodes_ok_def split: if_splits)
  moreover have c: "lru_cands r = [11, 12, 13]" "lru_pins r = {14}"
    by (simp_all add: r_def lru_cands_def lru_pins_def)
  ultimately obtain r' where "run_all lru_access [12, 11, 12, 14] r = Inr r'" "lru_cands r' = [13, 11, 12]"
    using lru_order [of r "[12, 11, 12, 14]"] by auto
  with c show ?thesis by blast
qed

text \<open>
  C7. The eviction loop of the caches terminates; it evicts, in replacement order, exactly as
  many entries as the cache exceeds its expected size by, or all candidates when there are
  fewer; pinned entries stay, and the assertion on a victim holds when it holds for every
  candidate.
\<close>

theorem evict_loop_exact:
  assumes "cm_inv c" "\<forall>k e. k \<in> set (cm_cands c) \<longrightarrow> cm_index c k = Some e \<longrightarrow> ok e" "expect < cur"
  shows "\<exists>c'. let n = min (length (cm_cands c)) (cur - expect) in
    cm_evict ok expect cur c = Inr (cur - n, c') \<and> cm_inv c' \<and>
    cm_index c' = cm_index c |` (- set (take n (cm_cands c))) \<and>
    cm_cands c' = drop n (cm_cands c) \<and> cm_pins c' = cm_pins c"
  by (rule cm_evict_ok [OF assms])

theorem evict_loop_exact_witness:
  "\<exists>c c'. cm_cands c = [11 :: nat, 12] \<and> cm_evict (\<lambda>e. e = (0 :: nat)) 4 5 c = Inr (4, c') \<and> cm_cands c' = [12]"
proof -
  obtain c1 where c1: "cm_add (11 :: nat) (0 :: nat) cm_empty = Inr c1" "cm_inv c1" "cm_index c1 = [11 \<mapsto> 0]" "cm_cands c1 = [11]"
    using cm_add_ok [OF cm_empty_inv, of 11 0] by auto
  obtain c2 where c2: "cm_add 12 0 c1 = Inr c2" "cm_inv c2" "cm_index c2 = [11 \<mapsto> 0, 12 \<mapsto> 0]" "cm_cands c2 = [11, 12]"
    using cm_add_ok [OF c1(2), of 12 0] c1 by auto
  have "\<forall>k e. k \<in> set (cm_cands c2) \<longrightarrow> cm_index c2 k = Some e \<longrightarrow> e = 0" using c2 by auto
  from evict_loop_exact [where ok = "\<lambda>e. e = 0", OF c2(2) this, of 4 5] c2(4) show ?thesis
    by (auto simp: Let_def)
qed

end
