(* ===== verification/SIT_NAT_Cache.thy ===== *)
theory SIT_NAT_Cache
  imports Cache_Manager
begin

text \<open>
  The cache of SIT and NAT blocks of \<^verbatim>\<open>inc/cache/SIT_NAT_cache.hh\<close> and
  \<^verbatim>\<open>src/cache/SIT_NAT_cache.cc\<close>. The content type of a block is a parameter; the device
  is a partial function from block addresses to contents, undefined where a read fails.
  The invariant ties the reference counts to pinning and requires an entry without
  references to hold what the device holds; every operation keeps it and never changes
  what a reader sees at any address (\<open>sn_view\<close>).
\<close>

section \<open>State\<close>

record 'b sn_entry =
  sne_lpa :: u32
  sne_ref_count :: u32
  sne_cache :: 'b

record 'b sn_cache =
  sn_mgr :: "(u32, 'b sn_entry) cache_manager"
  sn_expect :: nat
  sn_cur :: nat

text \<open>A handle holds a pointer to an entry, or null.\<close>

type_synonym sn_handle = "u32 option"

definition sn_init :: "nat \<Rightarrow> 'b sn_cache" where
  "sn_init n = \<lparr>sn_mgr = cm_empty, sn_expect = n, sn_cur = 0\<rparr>"

section \<open>Operations\<close>

definition sn_do_replace :: "'b sn_cache \<Rightarrow> fault + 'b sn_cache" where
  "sn_do_replace c =
     (if sn_cur c > sn_expect c
      then obind (cm_evict (\<lambda>e. sne_ref_count e = 0) (sn_expect c) (sn_cur c) (sn_mgr c)) (\<lambda>(n, m).
             Inr (c\<lparr>sn_mgr := m, sn_cur := n\<rparr>))
      else Inr c)"

definition sn_read_lpa :: "(u32 \<Rightarrow> 'b option) \<Rightarrow> u32 \<Rightarrow> fault + 'b" where
  "sn_read_lpa dev lpa = (case dev lpa of None \<Rightarrow> Inl (Throw Io_error) | Some b \<Rightarrow> Inr b)"

definition sn_get_inner ::
    "(u32 \<Rightarrow> 'b option) \<Rightarrow> u32 \<Rightarrow> bool \<Rightarrow> 'b sn_cache \<Rightarrow> fault + 'b sn_cache" where
  "sn_get_inner dev lpa is_access c =
     obind (cm_get lpa is_access (sn_mgr c)) (\<lambda>(p, m).
       case p of
         Some _ \<Rightarrow> Inr (c\<lparr>sn_mgr := m\<rparr>)
       | None \<Rightarrow>
           obind (sn_read_lpa dev lpa) (\<lambda>b.
           obind (cm_add lpa \<lparr>sne_lpa = lpa, sne_ref_count = 0, sne_cache = b\<rparr> m) (\<lambda>m'.
             Inr (c\<lparr>sn_mgr := m', sn_cur := Suc (sn_cur c)\<rparr>))))"

definition sn_add_refcount :: "u32 \<Rightarrow> 'b sn_cache \<Rightarrow> fault + 'b sn_cache" where
  "sn_add_refcount p c =
     (case cm_index (sn_mgr c) p of
        None \<Rightarrow> Inl Undefined
      | Some e \<Rightarrow>
          let m = cm_update p (\<lambda>e. e\<lparr>sne_ref_count := sne_ref_count e + 1\<rparr>) (sn_mgr c) in
          if sne_ref_count e + 1 = 1
          then obind (cm_pin (sne_lpa e) m) (\<lambda>m'. Inr (c\<lparr>sn_mgr := m'\<rparr>))
          else Inr (c\<lparr>sn_mgr := m\<rparr>))"

definition sn_sub_refcount :: "u32 \<Rightarrow> 'b sn_cache \<Rightarrow> fault + 'b sn_cache" where
  "sn_sub_refcount p c =
     (case cm_index (sn_mgr c) p of
        None \<Rightarrow> Inl Undefined
      | Some e \<Rightarrow>
          let m = cm_update p (\<lambda>e. e\<lparr>sne_ref_count := sne_ref_count e - 1\<rparr>) (sn_mgr c) in
          if sne_ref_count e - 1 = 0
          then obind (cm_unpin (sne_lpa e) m) (\<lambda>m'. sn_do_replace (c\<lparr>sn_mgr := m'\<rparr>))
          else Inr (c\<lparr>sn_mgr := m\<rparr>))"

definition sn_get ::
    "(u32 \<Rightarrow> 'b option) \<Rightarrow> u32 \<Rightarrow> 'b sn_cache \<Rightarrow> fault + 'b sn_cache" where
  "sn_get dev lpa c =
     obind (sn_get_inner dev lpa True c) (\<lambda>c1.
     obind (sn_add_refcount lpa c1) (\<lambda>c2.
     sn_do_replace c2))"

definition sn_add_SSD_version ::
    "(u32 \<Rightarrow> 'b option) \<Rightarrow> u32 \<Rightarrow> 'b sn_cache \<Rightarrow> fault + 'b sn_cache" where
  "sn_add_SSD_version dev lpa c = obind (sn_get_inner dev lpa False c) (sn_sub_refcount lpa)"

text \<open>Reading and writing the block through a handle's pointer.\<close>

definition sn_deref :: "u32 \<Rightarrow> 'b sn_cache \<Rightarrow> fault + 'b" where
  "sn_deref p c =
     (case cm_index (sn_mgr c) p of None \<Rightarrow> Inl Undefined | Some e \<Rightarrow> Inr (sne_cache e))"

definition sn_store :: "u32 \<Rightarrow> 'b \<Rightarrow> 'b sn_cache \<Rightarrow> 'b sn_cache" where
  "sn_store p b c = c\<lparr>sn_mgr := cm_update p (\<lambda>e. e\<lparr>sne_cache := b\<rparr>) (sn_mgr c)\<rparr>"

section \<open>Handles\<close>

definition sn_do_addref :: "sn_handle \<Rightarrow> 'b sn_cache \<Rightarrow> fault + 'b sn_cache" where
  "sn_do_addref h c = (case h of None \<Rightarrow> Inr c | Some p \<Rightarrow> sn_add_refcount p c)"

definition sn_do_subref :: "sn_handle \<Rightarrow> 'b sn_cache \<Rightarrow> fault + 'b sn_cache" where
  "sn_do_subref h c = (case h of None \<Rightarrow> Inr c | Some p \<Rightarrow> sn_sub_refcount p c)"

definition sn_handle_copy :: "sn_handle \<Rightarrow> 'b sn_cache \<Rightarrow> fault + (sn_handle \<times> 'b sn_cache)" where
  "sn_handle_copy src c = obind (sn_do_addref src c) (\<lambda>c'. Inr (src, c'))"

text \<open>The move constructor takes the source's pointer and nulls the source.\<close>

definition sn_handle_move :: "sn_handle \<Rightarrow> sn_handle \<times> sn_handle" where
  "sn_handle_move src = (src, None)"

text \<open>Assignment between two distinct handles.\<close>

definition sn_handle_assign ::
    "sn_handle \<Rightarrow> sn_handle \<Rightarrow> 'b sn_cache \<Rightarrow> fault + (sn_handle \<times> 'b sn_cache)" where
  "sn_handle_assign dst src c =
     obind (sn_do_subref dst c) (\<lambda>c1. obind (sn_do_addref src c1) (\<lambda>c2. Inr (src, c2)))"

text \<open>Move assignment gives the new destination and what is left in the source.\<close>

definition sn_handle_move_assign ::
    "sn_handle \<Rightarrow> sn_handle \<Rightarrow> 'b sn_cache \<Rightarrow> fault + (sn_handle \<times> sn_handle \<times> 'b sn_cache)" where
  "sn_handle_move_assign dst src c =
     obind (sn_do_subref dst c) (\<lambda>c1. Inr (src, src, c1))"

text \<open>
  The destructor swallows an exception (the cache then keeps the state in which the
  exception was thrown; releasing a reference throws before any change or not at all).
\<close>

definition sn_handle_dtor :: "sn_handle \<Rightarrow> 'b sn_cache \<Rightarrow> fault + 'b sn_cache" where
  "sn_handle_dtor h c =
     (case sn_do_subref h c of Inl (Throw _) \<Rightarrow> Inr c | r \<Rightarrow> r)"

section \<open>Invariant and view\<close>

definition sn_view :: "(u32 \<Rightarrow> 'b option) \<Rightarrow> 'b sn_cache \<Rightarrow> u32 \<Rightarrow> 'b option" where
  "sn_view dev c lpa =
     (case cm_index (sn_mgr c) lpa of Some e \<Rightarrow> Some (sne_cache e) | None \<Rightarrow> dev lpa)"

definition sn_refs :: "'b sn_cache \<Rightarrow> u32 \<Rightarrow> nat" where
  "sn_refs c lpa =
     (case cm_index (sn_mgr c) lpa of Some e \<Rightarrow> unat (sne_ref_count e) | None \<Rightarrow> 0)"

definition sn_inv :: "(u32 \<Rightarrow> 'b option) \<Rightarrow> 'b sn_cache \<Rightarrow> bool" where
  "sn_inv dev c \<longleftrightarrow>
     cm_inv (sn_mgr c) \<and> sn_cur c = card (dom (cm_index (sn_mgr c))) \<and>
     (\<forall>k e. cm_index (sn_mgr c) k = Some e \<longrightarrow>
        sne_lpa e = k \<and> (k \<in> cm_pins (sn_mgr c) \<longleftrightarrow> sne_ref_count e \<noteq> 0) \<and>
        (sne_ref_count e = 0 \<longrightarrow> dev k = Some (sne_cache e)))"

lemma sn_invI:
  assumes "cm_inv (sn_mgr c)" "sn_cur c = card (dom (cm_index (sn_mgr c)))"
    and "\<And>k e. cm_index (sn_mgr c) k = Some e \<Longrightarrow> sne_lpa e = k"
    and "\<And>k e. cm_index (sn_mgr c) k = Some e \<Longrightarrow> k \<in> cm_pins (sn_mgr c) \<longleftrightarrow> sne_ref_count e \<noteq> 0"
    and "\<And>k e. cm_index (sn_mgr c) k = Some e \<Longrightarrow> sne_ref_count e = 0 \<Longrightarrow> dev k = Some (sne_cache e)"
  shows "sn_inv dev c"
  using assms by (simp add: sn_inv_def)

lemma sn_invD:
  assumes "sn_inv dev c"
  shows "cm_inv (sn_mgr c)" "sn_cur c = card (dom (cm_index (sn_mgr c)))"
    "finite (dom (cm_index (sn_mgr c)))"
  using assms cm_invD(4) by (auto simp: sn_inv_def)

lemma sn_inv_entry:
  assumes "sn_inv dev c" "cm_index (sn_mgr c) k = Some e"
  shows "sne_lpa e = k" "k \<in> cm_pins (sn_mgr c) \<longleftrightarrow> sne_ref_count e \<noteq> 0"
    "sne_ref_count e = 0 \<Longrightarrow> dev k = Some (sne_cache e)"
  using assms by (auto simp: sn_inv_def)

lemma sn_init_inv: "sn_inv dev (sn_init n)"
  by (auto simp: sn_init_def sn_inv_def)

lemma sn_init_simps [simp]:
  "sn_view dev (sn_init n) = dev" "sn_refs (sn_init n) = (\<lambda>_. 0)" "sn_expect (sn_init n) = n"
  by (auto simp: sn_init_def sn_view_def sn_refs_def fun_eq_iff)

text \<open>A candidate for replacement has no references.\<close>

lemma sn_inv_cand:
  assumes "sn_inv dev c" "k \<in> set (cm_cands (sn_mgr c))" "cm_index (sn_mgr c) k = Some e"
  shows "sne_ref_count e = 0"
proof -
  have "k \<notin> cm_pins (sn_mgr c)"
    using cm_invD(5) [OF sn_invD(1) [OF assms(1)]] assms(2) by auto
  with sn_inv_entry(2) [OF assms(1,3)] show ?thesis by simp
qed

text \<open>The outcome of an operation that keeps the invariant, the view and the capacity.\<close>

definition sn_keeps ::
    "(u32 \<Rightarrow> 'b option) \<Rightarrow> 'b sn_cache \<Rightarrow> (u32 \<Rightarrow> nat) \<Rightarrow> fault + 'b sn_cache \<Rightarrow> bool" where
  "sn_keeps dev c refs r \<longleftrightarrow>
     (\<exists>c'. r = Inr c' \<and> sn_inv dev c' \<and> sn_view dev c' = sn_view dev c \<and>
       sn_refs c' = refs \<and> sn_expect c' = sn_expect c)"

lemma sn_keepsI:
  "r = Inr c' \<Longrightarrow> sn_inv dev c' \<Longrightarrow> sn_view dev c' = sn_view dev c \<Longrightarrow> sn_refs c' = refs \<Longrightarrow>
   sn_expect c' = sn_expect c \<Longrightarrow> sn_keeps dev c refs r"
  by (auto simp: sn_keeps_def)

lemma sn_keepsE:
  assumes "sn_keeps dev c refs r"
  obtains c' where "r = Inr c'" "sn_inv dev c'" "sn_view dev c' = sn_view dev c" "sn_refs c' = refs"
    "sn_expect c' = sn_expect c"
  using assms by (auto simp: sn_keeps_def)

lemma sn_keeps_trans:
  assumes "r = Inr c1" "sn_view dev c1 = sn_view dev c" "sn_expect c1 = sn_expect c"
    "sn_keeps dev c1 refs (f c1)"
  shows "sn_keeps dev c refs (obind r f)"
  using assms by (auto simp: sn_keeps_def)

section \<open>Every operation keeps the invariant and the view\<close>

lemma sn_do_replace_full:
  assumes "sn_inv dev c"
  shows "\<exists>c'. sn_do_replace c = Inr c' \<and> sn_inv dev c' \<and> sn_view dev c' = sn_view dev c \<and>
    sn_refs c' = sn_refs c \<and> sn_expect c' = sn_expect c \<and>
    cm_pins (sn_mgr c') = cm_pins (sn_mgr c) \<and>
    (sn_cur c' \<le> sn_expect c \<or> cm_cands (sn_mgr c') = [])"
proof (cases "sn_cur c > sn_expect c")
  case False
  then show ?thesis using assms by (simp add: sn_do_replace_def)
next
  case True
  let ?m = "sn_mgr c"
  define n where "n = min (length (cm_cands ?m)) (sn_cur c - sn_expect c)"
  define out where "out = set (take n (cm_cands ?m))"
  note m = sn_invD [OF assms]
  have cand: "\<forall>k e. k \<in> set (cm_cands ?m) \<longrightarrow> cm_index ?m k = Some e \<longrightarrow> sne_ref_count e = 0"
    using sn_inv_cand [OF assms] by simp
  obtain m' where m': "cm_evict (\<lambda>e. sne_ref_count e = 0) (sn_expect c) (sn_cur c) ?m = Inr (sn_cur c - n, m')"
     "cm_inv m'" "cm_index m' = cm_index ?m |` (- out)" "cm_cands m' = drop n (cm_cands ?m)" "cm_pins m' = cm_pins ?m"
    using cm_evict_ok [where ok = "\<lambda>e. sne_ref_count e = 0", OF m(1) cand True]
    by (auto simp: Let_def n_def out_def)
  have outs: "out \<subseteq> set (cm_cands ?m)" by (simp add: out_def set_take_subset)
  have gone: "\<exists>e. cm_index ?m k = Some e \<and> sne_ref_count e = 0 \<and> dev k = Some (sne_cache e)" if k: "k \<in> out" for k
  proof -
    obtain e where "cm_index ?m k = Some e" using cm_index_cands [OF m(1)] outs k by blast
    with cand sn_inv_entry(3) [OF assms] outs k show ?thesis by blast
  qed
  have "card out = n"
    using cm_invD(3) [OF m(1)] distinct_card [of "take n (cm_cands ?m)"]
    by (simp add: out_def n_def)
  moreover have "out \<subseteq> dom (cm_index ?m)" using gone by blast
  ultimately have "card (dom (cm_index ?m) - out) = card (dom (cm_index ?m)) - n"
    using m(3) by (simp add: card_Diff_subset finite_subset)
  moreover have "dom (cm_index m') = dom (cm_index ?m) - out"
    by (auto simp: m'(3) restrict_map_def split: if_splits)
  ultimately have size: "sn_cur c - n = card (dom (cm_index m'))" by (simp add: m(2))
  let ?c = "c\<lparr>sn_mgr := m', sn_cur := sn_cur c - n\<rparr>"
  have "sn_inv dev ?c"
    by (rule sn_invI)
       (use m'(2,3,5) size sn_inv_entry [OF assms] in \<open>auto simp: restrict_map_def split: if_splits\<close>)
  moreover have "sn_view dev ?c = sn_view dev c"
    by (auto simp: sn_view_def m'(3) restrict_map_def fun_eq_iff split: option.splits dest: gone)
  moreover have "sn_refs ?c = sn_refs c"
    by (auto simp: sn_refs_def m'(3) restrict_map_def fun_eq_iff split: option.splits dest: gone)
  moreover have "sn_cur c - n \<le> sn_expect c \<or> drop n (cm_cands ?m) = []"
    by (auto simp: n_def)
  ultimately show ?thesis
    using True m' by (simp add: sn_do_replace_def)
qed

lemma sn_do_replace_keeps: "sn_inv dev c \<Longrightarrow> sn_keeps dev c (sn_refs c) (sn_do_replace c)"
  using sn_do_replace_full [of dev c] by (auto simp: sn_keeps_def)

lemma sn_get_inner_miss:
  assumes "sn_inv dev c" "cm_index (sn_mgr c) lpa = None" "dev lpa = None"
  shows "sn_get_inner dev lpa a c = Inl (Throw Io_error)"
  using cm_get_ok [OF sn_invD(1) [OF assms(1)], of lpa a] assms(2,3)
  by (auto simp: sn_get_inner_def sn_read_lpa_def)

lemma sn_get_inner_keeps:
  assumes "sn_inv dev c" "sn_view dev c lpa = Some b"
  shows "sn_keeps dev c (sn_refs c) (sn_get_inner dev lpa a c)"
    and "\<And>c'. sn_get_inner dev lpa a c = Inr c' \<Longrightarrow> lpa \<in> dom (cm_index (sn_mgr c'))"
proof -
  obtain m where m: "cm_get lpa a (sn_mgr c) = Inr (cm_index (sn_mgr c) lpa, m)" "cm_inv m"
      "cm_index m = cm_index (sn_mgr c)" "cm_pins m = cm_pins (sn_mgr c)"
    using cm_get_ok [OF sn_invD(1) [OF assms(1)]] by metis
  have "sn_keeps dev c (sn_refs c) (sn_get_inner dev lpa a c) \<and>
     (\<forall>c'. sn_get_inner dev lpa a c = Inr c' \<longrightarrow> lpa \<in> dom (cm_index (sn_mgr c')))"
  proof (cases "cm_index (sn_mgr c) lpa")
    case (Some e)
    have "sn_inv dev (c\<lparr>sn_mgr := m\<rparr>)"
      by (rule sn_invI) (use m sn_invD [OF assms(1)] sn_inv_entry [OF assms(1)] in auto)
    then show ?thesis
      using m Some by (auto simp: sn_get_inner_def sn_keeps_def sn_view_def sn_refs_def fun_eq_iff)
  next
    case None
    with assms(2) have dev: "dev lpa = Some b" by (simp add: sn_view_def)
    let ?e = "\<lparr>sne_lpa = lpa, sne_ref_count = 0, sne_cache = b\<rparr>"
    obtain m2 where m2: "cm_add lpa ?e m = Inr m2" "cm_inv m2" "cm_index m2 = (cm_index m)(lpa \<mapsto> ?e)"
        "cm_pins m2 = cm_pins m"
      using cm_add_ok [OF m(2), of lpa ?e] None m(3) by auto
    have "lpa \<notin> cm_pins m" using cm_invD(2) [OF m(2)] None m(3) by auto
    then have "sn_inv dev (c\<lparr>sn_mgr := m2, sn_cur := Suc (sn_cur c)\<rparr>)"
      by (intro sn_invI)
         (use m m2 dev None sn_invD [OF assms(1)] sn_inv_entry [OF assms(1)] in \<open>auto simp: domIff card_insert_if split: if_splits\<close>)
    then show ?thesis
      using m m2 None dev
      by (auto simp: sn_get_inner_def sn_read_lpa_def sn_keeps_def sn_view_def sn_refs_def fun_eq_iff)
  qed
  then show "sn_keeps dev c (sn_refs c) (sn_get_inner dev lpa a c)"
    and "\<And>c'. sn_get_inner dev lpa a c = Inr c' \<Longrightarrow> lpa \<in> dom (cm_index (sn_mgr c'))" by auto
qed

lemma sn_add_refcount_keeps:
  assumes "sn_inv dev c" "lpa \<in> dom (cm_index (sn_mgr c))" "Suc (sn_refs c lpa) < 2 ^ 32"
  shows "sn_keeps dev c ((sn_refs c)(lpa := Suc (sn_refs c lpa))) (sn_add_refcount lpa c)"
proof -
  obtain e where e: "cm_index (sn_mgr c) lpa = Some e" using assms(2) by auto
  note ent = sn_inv_entry [OF assms(1)]
  have "sne_ref_count e \<noteq> -1" using assms(3) e by (auto simp: sn_refs_def unat_u32_max)
  then have inc: "unat (sne_ref_count e + 1) = Suc (unat (sne_ref_count e))" by (rule unat_u32_inc)
  then have nz: "sne_ref_count e + 1 \<noteq> 0" by (metis nat.simps(3) unat_0)
  let ?m = "cm_update lpa (\<lambda>e. e\<lparr>sne_ref_count := sne_ref_count e + 1\<rparr>) (sn_mgr c)"
  have m: "cm_inv ?m" using sn_invD(1) [OF assms(1)] by simp
  have d: "lpa \<in> dom (cm_index ?m)" using e by simp
  obtain m' where m': "cm_pin lpa ?m = Inr m'" "cm_inv m'" "cm_index m' = cm_index ?m"
      "cm_pins m' = insert lpa (cm_pins ?m)"
    using cm_pin_ok [OF m d] by auto
  define mm where "mm = (if sne_ref_count e + 1 = 1 then m' else ?m)"
  have run: "sn_add_refcount lpa c = Inr (c\<lparr>sn_mgr := mm\<rparr>)"
    using e ent(1) [OF e] m' by (simp add: sn_add_refcount_def mm_def Let_def)
  have pins: "cm_pins mm = insert lpa (cm_pins (sn_mgr c))"
    using m' ent(2) [OF e] by (auto simp: mm_def insert_absorb)
  have ix: "cm_index mm = (cm_index (sn_mgr c))(lpa \<mapsto> e\<lparr>sne_ref_count := sne_ref_count e + 1\<rparr>)"
    using m' e by (simp add: mm_def)
  have "sn_inv dev (c\<lparr>sn_mgr := mm\<rparr>)"
    by (rule sn_invI)
       (use m m'(2) ix pins nz e ent sn_invD [OF assms(1)] in
         \<open>auto simp: mm_def insert_absorb domI split: if_splits\<close>)
  then show ?thesis
    by (rule sn_keepsI [OF run])
       (use ix e inc in \<open>auto simp: sn_view_def sn_refs_def fun_eq_iff\<close>)
qed

lemma sn_sub_refcount_keeps:
  assumes "sn_inv dev c" "sn_refs c lpa = Suc n" "n = 0 \<Longrightarrow> dev lpa = sn_view dev c lpa"
  shows "sn_keeps dev c ((sn_refs c)(lpa := n)) (sn_sub_refcount lpa c)"
proof -
  obtain e where e: "cm_index (sn_mgr c) lpa = Some e" "unat (sne_ref_count e) = Suc n"
    using assms(2) by (auto simp: sn_refs_def split: option.splits)
  note ent = sn_inv_entry [OF assms(1)]
  have "sne_ref_count e \<noteq> 0" using e(2) by auto
  then have dec: "unat (sne_ref_count e - 1) = n" using unat_u32_dec [of "sne_ref_count e"] e(2) by simp
  have z: "sne_ref_count e - 1 = 0 \<longleftrightarrow> n = 0" using dec by (metis unat_0 unat_eq_zero)
  let ?m = "cm_update lpa (\<lambda>e. e\<lparr>sne_ref_count := sne_ref_count e - 1\<rparr>) (sn_mgr c)"
  have m: "cm_inv ?m" using sn_invD(1) [OF assms(1)] by simp
  have d: "lpa \<in> dom (cm_index ?m)" using e by simp
  obtain m' where m': "cm_unpin lpa ?m = Inr m'" "cm_inv m'" "cm_index m' = cm_index ?m"
      "cm_pins m' = cm_pins ?m - {lpa}"
    using cm_unpin_ok [OF m d] by auto
  define mm where "mm = (if n = 0 then m' else ?m)"
  let ?c = "c\<lparr>sn_mgr := mm\<rparr>"
  have pins: "cm_pins mm = (if n = 0 then cm_pins (sn_mgr c) - {lpa} else cm_pins (sn_mgr c))"
    using m' by (simp add: mm_def)
  have ix: "cm_index mm = (cm_index (sn_mgr c))(lpa \<mapsto> e\<lparr>sne_ref_count := sne_ref_count e - 1\<rparr>)"
    using m' e by (simp add: mm_def)
  have dev: "n = 0 \<Longrightarrow> dev lpa = Some (sne_cache e)" using assms(3) e by (simp add: sn_view_def)
  have inv: "sn_inv dev ?c"
    by (rule sn_invI)
       (use m m'(2) ix pins z e dev ent \<open>sne_ref_count e \<noteq> 0\<close> sn_invD [OF assms(1)] in
         \<open>auto simp: mm_def insert_absorb domI split: if_splits\<close>)
  have view: "sn_view dev ?c = sn_view dev c"
    using ix e by (auto simp: sn_view_def fun_eq_iff)
  have refs: "sn_refs ?c = (sn_refs c)(lpa := n)"
    using ix e dec by (auto simp: sn_refs_def fun_eq_iff)
  show ?thesis
  proof (cases "n = 0")
    case True
    then have run: "sn_sub_refcount lpa c = sn_do_replace ?c"
      using e ent(1) [OF e(1)] m' z by (simp add: sn_sub_refcount_def mm_def Let_def)
    show ?thesis
      using sn_do_replace_keeps [OF inv] view refs unfolding run by (simp add: sn_keeps_def)
  next
    case False
    then have "sn_sub_refcount lpa c = Inr ?c"
      using e z by (simp add: sn_sub_refcount_def mm_def Let_def)
    from sn_keepsI [OF this inv view refs] show ?thesis by simp
  qed
qed

lemma sn_get_keeps:
  assumes "sn_inv dev c" "sn_view dev c lpa = Some b" "Suc (sn_refs c lpa) < 2 ^ 32"
  shows "sn_keeps dev c ((sn_refs c)(lpa := Suc (sn_refs c lpa))) (sn_get dev lpa c)"
proof -
  obtain c1 where c1: "sn_get_inner dev lpa True c = Inr c1" "sn_inv dev c1" "sn_view dev c1 = sn_view dev c"
      "sn_refs c1 = sn_refs c" "sn_expect c1 = sn_expect c"
    using sn_get_inner_keeps(1) [OF assms(1,2)] by (rule sn_keepsE)
  have d: "lpa \<in> dom (cm_index (sn_mgr c1))" by (rule sn_get_inner_keeps(2) [OF assms(1,2) c1(1)])
  obtain c2 where c2: "sn_add_refcount lpa c1 = Inr c2" "sn_inv dev c2" "sn_view dev c2 = sn_view dev c"
      "sn_refs c2 = (sn_refs c)(lpa := Suc (sn_refs c lpa))" "sn_expect c2 = sn_expect c"
    using sn_add_refcount_keeps [OF c1(2) d] assms(3) c1 by (auto elim: sn_keepsE)
  show ?thesis
    using sn_do_replace_keeps [OF c2(2)] c1 c2 by (simp add: sn_get_def sn_keeps_def)
qed

lemma sn_add_SSD_version_keeps:
  assumes "sn_inv dev c" "sn_refs c lpa = Suc n" "n = 0 \<Longrightarrow> dev lpa = sn_view dev c lpa"
  shows "sn_keeps dev c ((sn_refs c)(lpa := n)) (sn_add_SSD_version dev lpa c)"
proof -
  obtain b where b: "sn_view dev c lpa = Some b"
    using assms(2) by (auto simp: sn_refs_def sn_view_def split: option.splits)
  obtain c1 where c1: "sn_get_inner dev lpa False c = Inr c1" "sn_inv dev c1" "sn_view dev c1 = sn_view dev c"
      "sn_refs c1 = sn_refs c" "sn_expect c1 = sn_expect c"
    using sn_get_inner_keeps(1) [OF assms(1) b] by (rule sn_keepsE)
  show ?thesis
    using sn_sub_refcount_keeps [OF c1(2)] c1 assms(2,3) by (simp add: sn_add_SSD_version_def sn_keeps_def)
qed

text \<open>A write through a pointer to a referenced entry changes the view at that address only.\<close>

lemma sn_store_inv:
  assumes "sn_inv dev c" "sn_refs c lpa \<noteq> 0"
  shows "sn_inv dev (sn_store lpa b c)" "sn_view dev (sn_store lpa b c) = (sn_view dev c)(lpa \<mapsto> b)"
    "sn_refs (sn_store lpa b c) = sn_refs c" "sn_expect (sn_store lpa b c) = sn_expect c"
proof -
  obtain e where e: "cm_index (sn_mgr c) lpa = Some e" "sne_ref_count e \<noteq> 0"
    using assms(2) by (auto simp: sn_refs_def unat_gt_0 split: option.splits)
  show "sn_inv dev (sn_store lpa b c)"
    by (rule sn_invI)
       (use e sn_invD [OF assms(1)] sn_inv_entry [OF assms(1)] in
         \<open>auto simp: sn_store_def insert_absorb domI split: if_splits\<close>)
  show "sn_view dev (sn_store lpa b c) = (sn_view dev c)(lpa \<mapsto> b)"
    "sn_refs (sn_store lpa b c) = sn_refs c" "sn_expect (sn_store lpa b c) = sn_expect c"
    using e by (auto simp: sn_view_def sn_refs_def sn_store_def fun_eq_iff)
qed

lemma sn_deref_view: "sn_refs c lpa \<noteq> 0 \<Longrightarrow> sn_view dev c lpa = Some b \<Longrightarrow> sn_deref lpa c = Inr b"
  by (auto simp: sn_refs_def sn_view_def sn_deref_def split: option.splits)

section \<open>Contract of a reference-counted block cache\<close>

text \<open>
  What the users of a cache rely on: \<open>view\<close> is what a reader sees, \<open>refs\<close> counts handles and
  uncommitted host versions, and a block without references equals the one on \<open>disk\<close>.
\<close>

locale refcounted_cache =
  fixes get :: "'k \<Rightarrow> 'c \<Rightarrow> fault + 'c"
    and addref :: "'k \<Rightarrow> 'c \<Rightarrow> fault + 'c"
    and subref :: "'k \<Rightarrow> 'c \<Rightarrow> fault + 'c"
    and deref :: "'k \<Rightarrow> 'c \<Rightarrow> fault + 'b"
    and store :: "'k \<Rightarrow> 'b \<Rightarrow> 'c \<Rightarrow> 'c"
    and view :: "'c \<Rightarrow> 'k \<Rightarrow> 'b option"
    and refs :: "'c \<Rightarrow> 'k \<Rightarrow> nat"
    and disk :: "'k \<Rightarrow> 'b option"
    and inv :: "'c \<Rightarrow> bool"
    and limit :: nat
  assumes clean_law: "inv c \<Longrightarrow> refs c k = 0 \<Longrightarrow> view c k = disk k"
    and get_law: "inv c \<Longrightarrow> view c k = Some b \<Longrightarrow> Suc (refs c k) < limit \<Longrightarrow>
      \<exists>c'. get k c = Inr c' \<and> inv c' \<and> view c' = view c \<and> refs c' = (refs c)(k := Suc (refs c k))"
    and get_io_law: "inv c \<Longrightarrow> view c k = None \<Longrightarrow> get k c = Inl (Throw Io_error)"
    and addref_law: "inv c \<Longrightarrow> refs c k \<noteq> 0 \<Longrightarrow> Suc (refs c k) < limit \<Longrightarrow>
      \<exists>c'. addref k c = Inr c' \<and> inv c' \<and> view c' = view c \<and> refs c' = (refs c)(k := Suc (refs c k))"
    and subref_law: "inv c \<Longrightarrow> refs c k = Suc n \<Longrightarrow> (n = 0 \<Longrightarrow> disk k = view c k) \<Longrightarrow>
      \<exists>c'. subref k c = Inr c' \<and> inv c' \<and> view c' = view c \<and> refs c' = (refs c)(k := n)"
    and deref_law: "refs c k \<noteq> 0 \<Longrightarrow> view c k = Some b \<Longrightarrow> deref k c = Inr b"
    and store_law: "inv c \<Longrightarrow> refs c k \<noteq> 0 \<Longrightarrow>
      inv (store k b c) \<and> view (store k b c) = (view c)(k \<mapsto> b) \<and> refs (store k b c) = refs c"
begin

text \<open>Acquire, read, release: nothing a reader or the device sees changes.\<close>

lemma read_through:
  assumes "inv c" "view c k = Some b" "Suc (refs c k) < limit"
  shows "\<exists>c1 c2. get k c = Inr c1 \<and> deref k c1 = Inr b \<and> subref k c1 = Inr c2 \<and>
    inv c2 \<and> view c2 = view c \<and> refs c2 = refs c"
proof -
  obtain c1 where c1: "get k c = Inr c1" "inv c1" "view c1 = view c" "refs c1 = (refs c)(k := Suc (refs c k))"
    using get_law [OF assms] by auto
  have "refs c1 k = Suc (refs c k)" using c1(4) by simp
  moreover have "refs c k = 0 \<Longrightarrow> disk k = view c1 k" using clean_law [OF assms(1)] c1(3) by simp
  ultimately obtain c2 where c2: "subref k c1 = Inr c2" "inv c2" "view c2 = view c1" "refs c2 = (refs c1)(k := refs c k)"
    using subref_law [OF c1(2), of k "refs c k"] by auto
  moreover have "deref k c1 = Inr b" using deref_law c1 assms(2) by simp
  ultimately show ?thesis using c1 by (auto simp: fun_upd_idem)
qed

text \<open>Acquire, write, add a host version, release: one more reference stays on the block.\<close>

lemma update_through:
  assumes "inv c" "view c k = Some b" "Suc (Suc (refs c k)) < limit"
  shows "\<exists>c1 c2 c3. get k c = Inr c1 \<and> deref k c1 = Inr b \<and> addref k (store k b' c1) = Inr c2 \<and>
    subref k c2 = Inr c3 \<and> inv c3 \<and> view c3 = (view c)(k \<mapsto> b') \<and> refs c3 = (refs c)(k := Suc (refs c k))"
proof -
  obtain c1 where c1: "get k c = Inr c1" "inv c1" "view c1 = view c" "refs c1 = (refs c)(k := Suc (refs c k))"
    using get_law [OF assms(1,2)] assms(3) by auto
  have r1: "refs c1 k \<noteq> 0" using c1(4) by simp
  note st = store_law [OF c1(2) r1, of b']
  have "refs (store k b' c1) k \<noteq> 0" "Suc (refs (store k b' c1) k) < limit" using st c1(4) assms(3) by simp_all
  then obtain c2 where c2: "addref k (store k b' c1) = Inr c2" "inv c2" "view c2 = (view c)(k \<mapsto> b')"
      "refs c2 = (refs c)(k := Suc (Suc (refs c k)))"
    using addref_law [of "store k b' c1" k] st c1 by auto
  have "refs c2 k = Suc (Suc (refs c k))" using c2(4) by simp
  then obtain c3 where "subref k c2 = Inr c3" "inv c3" "view c3 = view c2" "refs c3 = (refs c2)(k := Suc (refs c k))"
    using subref_law [OF c2(2), of k "Suc (refs c k)"] by auto
  moreover have "deref k c1 = Inr b" using deref_law [OF r1] c1 assms(2) by simp
  ultimately show ?thesis using c1 c2 by auto
qed

text \<open>
  Acquire, write, release without a host version: harmless only while somebody else still
  holds a reference.
\<close>

lemma write_through:
  assumes "inv c" "view c k = Some b" "refs c k \<noteq> 0" "Suc (refs c k) < limit"
  shows "\<exists>c1 c2. get k c = Inr c1 \<and> deref k c1 = Inr b \<and> subref k (store k b' c1) = Inr c2 \<and>
    inv c2 \<and> view c2 = (view c)(k \<mapsto> b') \<and> refs c2 = refs c"
proof -
  obtain c1 where c1: "get k c = Inr c1" "inv c1" "view c1 = view c" "refs c1 = (refs c)(k := Suc (refs c k))"
    using get_law [OF assms(1,2,4)] by auto
  have r1: "refs c1 k \<noteq> 0" using c1(4) by simp
  note st = store_law [OF c1(2) r1, of b']
  have "refs (store k b' c1) k = Suc (refs c k)" using st c1(4) by simp
  then obtain c2 where c2: "subref k (store k b' c1) = Inr c2" "inv c2" "view c2 = view (store k b' c1)"
      "refs c2 = (refs (store k b' c1))(k := refs c k)"
    using subref_law [of "store k b' c1" k "refs c k"] st assms(3) by auto
  moreover have "deref k c1 = Inr b" using deref_law [OF r1] c1 assms(2) by simp
  ultimately show ?thesis using c1 st by (auto simp: fun_upd_idem)
qed

end

lemma sn_get_io:
  assumes "sn_inv dev c" "sn_view dev c k = None"
  shows "sn_get dev k c = Inl (Throw Io_error)"
  using assms sn_get_inner_miss [OF assms(1), of k True]
  by (auto simp: sn_view_def sn_get_def split: option.splits)

interpretation sn: refcounted_cache "sn_get dev" sn_add_refcount sn_sub_refcount sn_deref sn_store
  "sn_view dev" sn_refs dev "sn_inv dev" "2 ^ 32" for dev :: "u32 \<Rightarrow> 'b option"
proof (unfold_locales, goal_cases)
  case (1 c k)
  then show ?case using sn_inv_entry(3) [OF 1(1), of k]
    by (auto simp: sn_refs_def sn_view_def unat_eq_zero split: option.splits)
next
  case (2 c k b) then show ?case using sn_get_keeps [OF 2] by (auto elim: sn_keepsE)
next
  case (3 c k) then show ?case by (rule sn_get_io)
next
  case (4 c k)
  then have "k \<in> dom (cm_index (sn_mgr c))" by (auto simp: sn_refs_def split: option.splits)
  from sn_add_refcount_keeps [OF 4(1) this 4(3)] show ?case by (auto elim: sn_keepsE)
next
  case (5 c k n) then show ?case using sn_sub_refcount_keeps [OF 5] by (auto elim: sn_keepsE)
next
  case (6 c k b) then show ?case by (rule sn_deref_view)
next
  case (7 c k b) then show ?case using sn_store_inv [OF 7] by simp
qed

section \<open>Properties\<close>

text \<open>
  C4. Acquiring a handle. On a coherent cache, \<open>get\<close> of a readable block succeeds, takes one
  reference on it, keeps every other count, keeps the cache coherent (unreferenced blocks
  equal the device) and never changes what is read at any address; afterwards the cache is
  within its expected size or every block in it is referenced. A block that cannot be read
  gives an I/O error.
\<close>

theorem sn_get_coherent:
  assumes "sn_inv dev c" "Suc (sn_refs c lpa) < 2 ^ 32"
  shows "case sn_view dev c lpa of
      None \<Rightarrow> sn_get dev lpa c = Inl (Throw Io_error)
    | Some b \<Rightarrow> \<exists>c'. sn_get dev lpa c = Inr c' \<and> sn_inv dev c' \<and> sn_deref lpa c' = Inr b \<and>
        sn_view dev c' = sn_view dev c \<and> sn_refs c' = (sn_refs c)(lpa := Suc (sn_refs c lpa)) \<and>
        (sn_cur c' \<le> sn_expect c' \<or> (\<forall>k e. cm_index (sn_mgr c') k = Some e \<longrightarrow> sne_ref_count e \<noteq> 0))"
proof (cases "sn_view dev c lpa")
  case None
  then show ?thesis using sn_get_io [OF assms(1)] by simp
next
  case (Some b)
  obtain c' where c': "sn_get dev lpa c = Inr c'" "sn_inv dev c'" "sn_view dev c' = sn_view dev c"
      "sn_refs c' = (sn_refs c)(lpa := Suc (sn_refs c lpa))" "sn_expect c' = sn_expect c"
    using sn_get_keeps [OF assms(1) Some assms(2)] by (rule sn_keepsE)
  obtain c2 where "sn_do_replace c2 = Inr c'" "sn_inv dev c2"
  proof -
    obtain c1 where c1: "sn_get_inner dev lpa True c = Inr c1" "sn_inv dev c1" "sn_refs c1 = sn_refs c"
      using sn_get_inner_keeps(1) [OF assms(1) Some] by (rule sn_keepsE)
    have d: "lpa \<in> dom (cm_index (sn_mgr c1))" by (rule sn_get_inner_keeps(2) [OF assms(1) Some c1(1)])
    obtain c2 where "sn_add_refcount lpa c1 = Inr c2" "sn_inv dev c2"
      using sn_add_refcount_keeps [OF c1(2) d] assms(2) c1(3) by (auto elim: sn_keepsE)
    with c'(1) c1(1) that show thesis by (simp add: sn_get_def)
  qed
  then have "sn_cur c' \<le> sn_expect c' \<or> cm_cands (sn_mgr c') = []"
    using sn_do_replace_full [of dev c2] by auto
  moreover have "sne_ref_count e \<noteq> 0" if "cm_cands (sn_mgr c') = []" "cm_index (sn_mgr c') k = Some e" for k e
    using that cm_invD(2) [OF sn_invD(1) [OF c'(2)]] sn_inv_entry(2) [OF c'(2) that(2)] by auto
  moreover have "sn_deref lpa c' = Inr b"
    using sn_deref_view [of c' lpa dev b] c'(3,4) Some by simp
  ultimately show ?thesis using c' Some by auto
qed

theorem sn_get_coherent_witness:
  "\<exists>c'. sn_get (\<lambda>_. Some (7 :: nat)) 5 (sn_init 0) = Inr c' \<and> sn_deref 5 c' = Inr 7 \<and> sn_refs c' 5 = 1"
  using sn_get_coherent [OF sn_init_inv, of 0 5 "\<lambda>_. Some (7 :: nat)"] by auto

text \<open>
  Completing a transaction on the SSD. For a block with outstanding host versions,
  \<open>add_SSD_version\<close> drops exactly one and leaves the cache coherent and the view unchanged,
  provided that the device holds the cached content when the last version is dropped.
\<close>

theorem sn_add_SSD_version_coherent:
  assumes "sn_inv dev c" "sn_refs c lpa = Suc n" "n = 0 \<longrightarrow> dev lpa = sn_view dev c lpa"
  shows "\<exists>c'. sn_add_SSD_version dev lpa c = Inr c' \<and> sn_inv dev c' \<and> sn_view dev c' = sn_view dev c \<and>
    sn_refs c' = (sn_refs c)(lpa := n)"
  using sn_add_SSD_version_keeps [OF assms(1,2)] assms(3) by (auto simp: sn_keeps_def)

theorem sn_add_SSD_version_coherent_witness:
  "\<exists>c c'. sn_get (\<lambda>_. Some (7 :: nat)) 5 (sn_init 0) = Inr c \<and>
     sn_add_SSD_version (\<lambda>_. Some 7) 5 c = Inr c' \<and> sn_refs c' 5 = 0"
proof -
  obtain c where c: "sn_get (\<lambda>_. Some (7 :: nat)) 5 (sn_init 0) = Inr c" "sn_inv (\<lambda>_. Some 7) c"
      "sn_view (\<lambda>_. Some 7) c = (\<lambda>_. Some 7)" "sn_refs c 5 = Suc 0"
    using sn_get_keeps [OF sn_init_inv, of "\<lambda>_. Some (7 :: nat)" 0 5 7] by (auto elim: sn_keepsE)
  then show ?thesis
    using sn_add_SSD_version_coherent [OF c(2,4)] by auto
qed

end
