(* ===== verification/Meta_State.thy ===== *)
theory Meta_State
  imports SIT_NAT_Cache Journal_Container
begin

text \<open>
  The metadata that the file system manager owns (\<^verbatim>\<open>inc/fs/fs_manager.hh\<close>): the super
  block cache, the NAT and SIT caches over their device areas, the journal of the current
  transaction and the super manager's lists of full segments not yet committed. On top of
  it, the NAT and the SIT as the tables they represent, and the relation \<open>journaled\<close>: the
  change from one state to the next is exactly what the journal entries written say.
\<close>

section \<open>State\<close>

record meta =
  super_blk :: hscfs_super_block
  nat_cache :: "hscfs_nat_block sn_cache"
  sit_cache :: "hscfs_sit_block sn_cache"
  nat_dev :: "u32 \<Rightarrow> hscfs_nat_block option"
  sit_dev :: "u32 \<Rightarrow> hscfs_sit_block option"
  cur_journal :: journal_container
  uncommit_node_segs :: "u32 list"
  uncommit_data_segs :: "u32 list"

section \<open>Cache accesses\<close>

definition on_nat :: "(hscfs_nat_block sn_cache \<Rightarrow> fault + hscfs_nat_block sn_cache) \<Rightarrow> (meta, unit) prog" where
  "on_nat f m = (case f (nat_cache m) of Inl e \<Rightarrow> (Inl e, m) | Inr c \<Rightarrow> (Inr (), m\<lparr>nat_cache := c\<rparr>))"

definition on_sit :: "(hscfs_sit_block sn_cache \<Rightarrow> fault + hscfs_sit_block sn_cache) \<Rightarrow> (meta, unit) prog" where
  "on_sit f m = (case f (sit_cache m) of Inl e \<Rightarrow> (Inl e, m) | Inr c \<Rightarrow> (Inr (), m\<lparr>sit_cache := c\<rparr>))"

definition nat_get :: "u32 \<Rightarrow> (meta, unit) prog" where
  "nat_get lpa m = on_nat (sn_get (nat_dev m) lpa) m"

definition sit_get :: "u32 \<Rightarrow> (meta, unit) prog" where
  "sit_get lpa m = on_sit (sn_get (sit_dev m) lpa) m"

text \<open>Array access through the block pointer of a handle; outside the array it is undefined.\<close>

definition array_at :: "'e list \<Rightarrow> nat \<Rightarrow> fault + 'e" where
  "array_at xs i = (if i < length xs then Inr (xs ! i) else Inl Undefined)"

definition array_set :: "'e list \<Rightarrow> nat \<Rightarrow> 'e \<Rightarrow> fault + 'e list" where
  "array_set xs i x = (if i < length xs then Inr (xs[i := x]) else Inl Undefined)"

definition nat_entry_read :: "u32 \<Rightarrow> u32 \<Rightarrow> (meta, hscfs_nat_entry) prog" where
  "nat_entry_read lpa idx m =
     of_result (obind (sn_deref lpa (nat_cache m)) (\<lambda>b. array_at b (unat idx))) m"

definition sit_entry_read :: "u32 \<Rightarrow> u32 \<Rightarrow> (meta, hscfs_sit_entry) prog" where
  "sit_entry_read lpa idx m =
     of_result (obind (sn_deref lpa (sit_cache m)) (\<lambda>b. array_at b (unat idx))) m"

definition nat_entry_write :: "u32 \<Rightarrow> u32 \<Rightarrow> hscfs_nat_entry \<Rightarrow> (meta, unit) prog" where
  "nat_entry_write lpa idx e =
     on_nat (\<lambda>c. obind (sn_deref lpa c) (\<lambda>b.
       obind (array_set b (unat idx) e) (\<lambda>b'. Inr (sn_store lpa b' c))))"

definition sit_entry_write :: "u32 \<Rightarrow> u32 \<Rightarrow> hscfs_sit_entry \<Rightarrow> (meta, unit) prog" where
  "sit_entry_write lpa idx e =
     on_sit (\<lambda>c. obind (sn_deref lpa c) (\<lambda>b.
       obind (array_set b (unat idx) e) (\<lambda>b'. Inr (sn_store lpa b' c))))"

definition nat_add_host_version :: "u32 \<Rightarrow> (meta, unit) prog" where
  "nat_add_host_version lpa = on_nat (sn_add_refcount lpa)"

definition sit_add_host_version :: "u32 \<Rightarrow> (meta, unit) prog" where
  "sit_add_host_version lpa = on_sit (sn_add_refcount lpa)"

text \<open>The handle goes out of scope.\<close>

definition nat_release :: "u32 \<Rightarrow> (meta, unit) prog" where
  "nat_release lpa = on_nat (sn_handle_dtor (Some lpa))"

definition sit_release :: "u32 \<Rightarrow> (meta, unit) prog" where
  "sit_release lpa = on_sit (sn_handle_dtor (Some lpa))"

definition append_super :: "u32 \<Rightarrow> u32 \<Rightarrow> (meta, unit) prog" where
  "append_super off v = modify (\<lambda>m. m\<lparr>cur_journal :=
     append_super_block_journal_entry \<lparr>Off = off, newVal = v\<rparr> (cur_journal m)\<rparr>)"

definition append_NAT :: "u32 \<Rightarrow> hscfs_nat_entry \<Rightarrow> (meta, unit) prog" where
  "append_NAT n e = modify (\<lambda>m. m\<lparr>cur_journal :=
     append_NAT_journal_entry \<lparr>nid = n, nat_newValue = e\<rparr> (cur_journal m)\<rparr>)"

definition append_SIT :: "u32 \<Rightarrow> hscfs_sit_entry \<Rightarrow> (meta, unit) prog" where
  "append_SIT s e = modify (\<lambda>m. m\<lparr>cur_journal :=
     append_SIT_journal_entry \<lparr>segID = s, sit_newValue = e\<rparr> (cur_journal m)\<rparr>)"

definition upd_super :: "(hscfs_super_block \<Rightarrow> hscfs_super_block) \<Rightarrow> (meta, unit) prog" where
  "upd_super f = modify (\<lambda>m. m\<lparr>super_blk := f (super_blk m)\<rparr>)"

section \<open>Tables\<close>

text \<open>
  A table of fixed-size entries stored in consecutive blocks from \<open>start\<close>, \<open>per\<close> entries to
  a block, read through the view of a cache.
\<close>

definition tbl_at :: "(u32 \<Rightarrow> 'e list option) \<Rightarrow> u32 \<Rightarrow> u32 \<Rightarrow> u32 \<rightharpoonup> 'e" where
  "tbl_at view start per k =
     (case view (start + k div per) of
        None \<Rightarrow> None
      | Some blk \<Rightarrow> if unat (k mod per) < length blk then Some (blk ! unat (k mod per)) else None)"

lemma tbl_at_Some:
  assumes "tbl_at view start per k = Some e"
  obtains blk where "view (start + k div per) = Some blk" "unat (k mod per) < length blk"
    "blk ! unat (k mod per) = e"
  using assms by (auto simp: tbl_at_def split: option.splits if_splits)

lemma tbl_at_upd:
  assumes "view (start + k div per) = Some blk" "unat (k mod per) < length blk"
  shows "tbl_at (view(start + k div per \<mapsto> blk[unat (k mod per) := x])) start per =
    (tbl_at view start per)(k \<mapsto> x)"
proof
  fix j
  show "tbl_at (view(start + k div per \<mapsto> blk[unat (k mod per) := x])) start per j =
    ((tbl_at view start per)(k \<mapsto> x)) j"
  proof (cases "j = k")
    case True
    then show ?thesis using assms by (simp add: tbl_at_def)
  next
    case False
    show ?thesis
    proof (cases "j div per = k div per")
      case True
      with False have "j mod per \<noteq> k mod per" by (metis div_mult_mod_eq)
      then have "unat (j mod per) \<noteq> unat (k mod per)" by (simp add: word_unat_eq_iff)
      with True False assms show ?thesis by (simp add: tbl_at_def)
    next
      case other: False
      with False show ?thesis by (simp add: tbl_at_def)
    qed
  qed
qed

definition nat_view :: "meta \<Rightarrow> u32 \<Rightarrow> hscfs_nat_block option" where
  "nat_view m = sn_view (nat_dev m) (nat_cache m)"

definition sit_view :: "meta \<Rightarrow> u32 \<Rightarrow> hscfs_sit_block option" where
  "sit_view m = sn_view (sit_dev m) (sit_cache m)"

definition nat_at :: "meta \<Rightarrow> u32 \<rightharpoonup> hscfs_nat_entry" where
  "nat_at m = tbl_at (nat_view m) (nat_blkaddr (super_blk m)) NAT_ENTRY_PER_BLOCK"

definition sit_at :: "meta \<Rightarrow> u32 \<rightharpoonup> hscfs_sit_entry" where
  "sit_at m = tbl_at (sit_view m) (sit_blkaddr (super_blk m)) SIT_ENTRY_PER_BLOCK"

section \<open>Invariant\<close>

definition meta_inv :: "meta \<Rightarrow> bool" where
  "meta_inv m \<longleftrightarrow> sn_inv (nat_dev m) (nat_cache m) \<and> sn_inv (sit_dev m) (sit_cache m)"

text \<open>The block of the NAT, respectively the SIT, that holds an entry.\<close>

definition nat_blk :: "meta \<Rightarrow> u32 \<Rightarrow> u32" where
  "nat_blk m n = nat_blkaddr (super_blk m) + n div NAT_ENTRY_PER_BLOCK"

definition sit_blk :: "meta \<Rightarrow> u32 \<Rightarrow> u32" where
  "sit_blk m s = sit_blkaddr (super_blk m) + s div SIT_ENTRY_PER_BLOCK"

section \<open>Journalled changes\<close>

definition journaled ::
    "meta \<Rightarrow> super_block_journal_entry list \<Rightarrow> NAT_journal_entry list \<Rightarrow> SIT_journal_entry list \<Rightarrow> meta \<Rightarrow> bool" where
  "journaled m ds dn dt m' \<longleftrightarrow>
     super_blk m' = replay_super ds (super_blk m) \<and>
     nat_at m' = replay_nat dn (nat_at m) \<and>
     sit_at m' = replay_sit dt (sit_at m) \<and>
     nat_dev m' = nat_dev m \<and> sit_dev m' = sit_dev m \<and>
     cur_journal m' = (cur_journal m)\<lparr>
       super_block_journal := super_block_journal (cur_journal m) @ ds,
       NAT_journal := NAT_journal (cur_journal m) @ dn,
       SIT_journal := SIT_journal (cur_journal m) @ dt\<rparr>"

lemma journaled_refl: "journaled m [] [] [] m"
  by (simp add: journaled_def)

lemma journaled_trans:
  "journaled m ds dn dt m1 \<Longrightarrow> journaled m1 ds' dn' dt' m2 \<Longrightarrow>
   journaled m (ds @ ds') (dn @ dn') (dt @ dt') m2"
  by (simp add: journaled_def)

lemma journaled_layout:
  assumes "journaled m ds dn dt m'"
  shows "nat_blk m' = nat_blk m" "sit_blk m' = sit_blk m"
    "segment0_blkaddr (super_blk m') = segment0_blkaddr (super_blk m)"
    "segment_count_nat (super_blk m') = segment_count_nat (super_blk m)"
    "segment_count_sit (super_blk m') = segment_count_sit (super_blk m)"
    "sit_blkaddr (super_blk m') = sit_blkaddr (super_blk m)"
  using assms by (auto simp: journaled_def nat_blk_def sit_blk_def)

text \<open>
  A step of the metadata: the change is what the journal says, and each NAT or SIT entry
  written to the journal leaves one more host version on the block that holds it, so the
  block stays in the cache until the SSD has applied the entry.
\<close>

definition nat_versions :: "meta \<Rightarrow> NAT_journal_entry list \<Rightarrow> u32 \<Rightarrow> nat" where
  "nat_versions m dn k = length (filter (\<lambda>e. nat_blk m (nid e) = k) dn)"

definition sit_versions :: "meta \<Rightarrow> SIT_journal_entry list \<Rightarrow> u32 \<Rightarrow> nat" where
  "sit_versions m dt k = length (filter (\<lambda>e. sit_blk m (segID e) = k) dt)"

definition meta_step ::
    "meta \<Rightarrow> super_block_journal_entry list \<Rightarrow> NAT_journal_entry list \<Rightarrow> SIT_journal_entry list \<Rightarrow> meta \<Rightarrow> bool" where
  "meta_step m ds dn dt m' \<longleftrightarrow>
     meta_inv m' \<and> journaled m ds dn dt m' \<and>
     sn_refs (nat_cache m') = (\<lambda>k. sn_refs (nat_cache m) k + nat_versions m dn k) \<and>
     sn_refs (sit_cache m') = (\<lambda>k. sn_refs (sit_cache m) k + sit_versions m dt k)"

lemma meta_step_trans:
  assumes "meta_step m ds dn dt m1" "meta_step m1 ds' dn' dt' m2"
  shows "meta_step m (ds @ ds') (dn @ dn') (dt @ dt') m2"
proof -
  have "nat_blk m1 = nat_blk m" "sit_blk m1 = sit_blk m"
    using assms(1) by (auto simp: meta_step_def dest: journaled_layout)
  then show ?thesis
    using assms journaled_trans [of m ds dn dt m1]
    by (auto simp: meta_step_def nat_versions_def sit_versions_def fun_eq_iff)
qed

lemma meta_stepD:
  assumes "meta_step m ds dn dt m'"
  shows "meta_inv m'" "journaled m ds dn dt m'" "super_blk m' = replay_super ds (super_blk m)"
    "nat_at m' = replay_nat dn (nat_at m)" "sit_at m' = replay_sit dt (sit_at m)"
    "nat_blk m' = nat_blk m" "sit_blk m' = sit_blk m"
    "sn_refs (nat_cache m') = (\<lambda>k. sn_refs (nat_cache m) k + nat_versions m dn k)"
    "sn_refs (sit_cache m') = (\<lambda>k. sn_refs (sit_cache m) k + sit_versions m dt k)"
  using assms journaled_layout by (auto simp: meta_step_def journaled_def nat_blk_def sit_blk_def)

section \<open>Access to a table entry through a handle\<close>

lemma sn_handle_dtor_Inr: "sn_sub_refcount p c = Inr c' \<Longrightarrow> sn_handle_dtor (Some p) c = Inr c'"
  by (simp add: sn_handle_dtor_def sn_do_subref_def)

lemma tbl_read_through:
  assumes "sn_inv dev c" "tbl_at (sn_view dev c) start per k = Some e"
    "Suc (sn_refs c (start + k div per)) < 2 ^ 32"
  obtains c1 b c2 where "sn_get dev (start + k div per) c = Inr c1" "sn_deref (start + k div per) c1 = Inr b"
    "array_at b (unat (k mod per)) = Inr e" "sn_handle_dtor (Some (start + k div per)) c1 = Inr c2"
    "sn_inv dev c2" "sn_view dev c2 = sn_view dev c" "sn_refs c2 = sn_refs c"
proof -
  obtain b where b: "sn_view dev c (start + k div per) = Some b" "unat (k mod per) < length b" "b ! unat (k mod per) = e"
    using assms(2) by (rule tbl_at_Some)
  obtain c1 c2 where "sn_get dev (start + k div per) c = Inr c1" "sn_deref (start + k div per) c1 = Inr b"
    "sn_sub_refcount (start + k div per) c1 = Inr c2"
    "sn_inv dev c2" "sn_view dev c2 = sn_view dev c" "sn_refs c2 = sn_refs c"
    using sn.read_through [OF assms(1) b(1) assms(3)] by blast
  then show thesis using that b by (simp add: array_at_def sn_handle_dtor_Inr)
qed

lemma tbl_update_through:
  assumes "sn_inv dev c" "tbl_at (sn_view dev c) start per k = Some e"
    "Suc (Suc (sn_refs c (start + k div per))) < 2 ^ 32"
  obtains c1 b b' c2 c3 where "sn_get dev (start + k div per) c = Inr c1" "sn_deref (start + k div per) c1 = Inr b"
    "array_at b (unat (k mod per)) = Inr e" "array_set b (unat (k mod per)) e' = Inr b'"
    "sn_add_refcount (start + k div per) (sn_store (start + k div per) b' c1) = Inr c2"
    "sn_handle_dtor (Some (start + k div per)) c2 = Inr c3" "sn_inv dev c3"
    "tbl_at (sn_view dev c3) start per = (tbl_at (sn_view dev c) start per)(k \<mapsto> e')"
    "sn_refs c3 = (sn_refs c)(start + k div per := Suc (sn_refs c (start + k div per)))"
proof -
  obtain b where b: "sn_view dev c (start + k div per) = Some b" "unat (k mod per) < length b" "b ! unat (k mod per) = e"
    using assms(2) by (rule tbl_at_Some)
  let ?b = "b[unat (k mod per) := e']"
  obtain c1 c2 c3 where c: "sn_get dev (start + k div per) c = Inr c1" "sn_deref (start + k div per) c1 = Inr b"
    "sn_add_refcount (start + k div per) (sn_store (start + k div per) ?b c1) = Inr c2"
    "sn_sub_refcount (start + k div per) c2 = Inr c3" "sn_inv dev c3"
    "sn_view dev c3 = (sn_view dev c)(start + k div per \<mapsto> ?b)"
    "sn_refs c3 = (sn_refs c)(start + k div per := Suc (sn_refs c (start + k div per)))"
    using sn.update_through [OF assms(1) b(1) assms(3), of ?b] by blast
  have "tbl_at (sn_view dev c3) start per = (tbl_at (sn_view dev c) start per)(k \<mapsto> e')"
    unfolding c(6) using b(1,2) by (rule tbl_at_upd)
  then show thesis
    using that [of c1 b ?b c2 c3] c b by (simp add: array_at_def array_set_def sn_handle_dtor_Inr)
qed

lemmas meta_op_defs = on_nat_def on_sit_def nat_get_def sit_get_def nat_entry_read_def sit_entry_read_def
  nat_entry_write_def sit_entry_write_def nat_add_host_version_def sit_add_host_version_def
  nat_release_def sit_release_def append_super_def append_NAT_def append_SIT_def upd_super_def
  append_super_block_journal_entry_def append_NAT_journal_entry_def append_SIT_journal_entry_def

text \<open>Room for two more references on every cached NAT and SIT block.\<close>

definition meta_room :: "meta \<Rightarrow> bool" where
  "meta_room m \<longleftrightarrow> (\<forall>k. sn_refs (nat_cache m) k + 2 < 2 ^ 32 \<and> sn_refs (sit_cache m) k + 2 < 2 ^ 32)"

lemma meta_roomD:
  assumes "meta_room m"
  shows "Suc (Suc (sn_refs (nat_cache m) k)) < 2 ^ 32" "Suc (Suc (sn_refs (sit_cache m) k)) < 2 ^ 32"
    "Suc (sn_refs (nat_cache m) k) < 2 ^ 32" "Suc (sn_refs (sit_cache m) k) < 2 ^ 32"
proof -
  have "sn_refs (nat_cache m) k + 2 < 2 ^ 32" "sn_refs (sit_cache m) k + 2 < 2 ^ 32"
    using assms by (simp_all only: meta_room_def)
  then show "Suc (Suc (sn_refs (nat_cache m) k)) < 2 ^ 32" "Suc (Suc (sn_refs (sit_cache m) k)) < 2 ^ 32"
    "Suc (sn_refs (nat_cache m) k) < 2 ^ 32" "Suc (sn_refs (sit_cache m) k) < 2 ^ 32" by linarith+
qed

end
