(* ===== verification/NAT_SIT_Utils.thy ===== *)
theory NAT_SIT_Utils
  imports Meta_State
begin

text \<open>
  \<^verbatim>\<open>src/fs/NAT_utils.cc\<close> and \<^verbatim>\<open>src/fs/SIT_utils.cc\<close>: the mapping from node ids to block
  addresses, and the validity bits and counters of the blocks of a segment.
\<close>

section \<open>NAT\<close>

definition get_nid_pos_in_nat :: "u32 \<Rightarrow> (meta, u32 \<times> u32) prog" where
  "get_nid_pos_in_nat n m =
     bnd (assert_that (n div NAT_ENTRY_PER_BLOCK < segment_count_nat (super_blk m) * BLOCK_PER_SEGMENT)) (\<lambda>_.
       ret (n div NAT_ENTRY_PER_BLOCK + nat_blkaddr (super_blk m), n mod NAT_ENTRY_PER_BLOCK)) m"

definition get_lpa_of_nid :: "u32 \<Rightarrow> (meta, u32) prog" where
  "get_lpa_of_nid n =
     bnd (get_nid_pos_in_nat n) (\<lambda>(lpa, idx).
     bnd (nat_get lpa) (\<lambda>_.
     bnd (nat_entry_read lpa idx) (\<lambda>e.
     bnd (nat_release lpa) (\<lambda>_.
     ret (ne_block_addr e)))))"

text \<open>The entry that is modified is a copy of the cached one; the copy goes to the journal.\<close>

definition set_lpa_of_nid :: "u32 \<Rightarrow> u32 \<Rightarrow> (meta, unit) prog" where
  "set_lpa_of_nid n new_lpa =
     bnd (get_nid_pos_in_nat n) (\<lambda>(lpa, idx).
     bnd (nat_get lpa) (\<lambda>_.
     bnd (nat_entry_read lpa idx) (\<lambda>e.
     bnd (append_NAT n (e\<lparr>ne_block_addr := new_lpa\<rparr>)) (\<lambda>_.
     bnd (nat_add_host_version lpa) (\<lambda>_.
     nat_release lpa)))))"

section \<open>SIT\<close>

definition get_seg_pos_of_lpa :: "u32 \<Rightarrow> meta \<Rightarrow> u32 \<times> u32" where
  "get_seg_pos_of_lpa lpa m =
     (let l = lpa - segment0_blkaddr (super_blk m) in
      (l div BLOCK_PER_SEGMENT, l mod BLOCK_PER_SEGMENT))"

definition get_segid_pos_in_sit :: "u32 \<Rightarrow> (meta, u32 \<times> u32) prog" where
  "get_segid_pos_in_sit segid m =
     bnd (assert_that (segid div SIT_ENTRY_PER_BLOCK < segment_count_sit (super_blk m) * BLOCK_PER_SEGMENT)) (\<lambda>_.
       ret (sit_blkaddr (super_blk m) + segid div SIT_ENTRY_PER_BLOCK, segid mod SIT_ENTRY_PER_BLOCK)) m"

definition get_first_lpa_of_segid :: "u32 \<Rightarrow> meta \<Rightarrow> u32" where
  "get_first_lpa_of_segid segid m = segment0_blkaddr (super_blk m) + segid * BLOCK_PER_SEGMENT"

text \<open>The change of one SIT entry: the bit of the block at offset \<open>segoff\<close> and the counter.\<close>

definition sit_entry_change :: "u32 \<Rightarrow> bool \<Rightarrow> hscfs_sit_entry \<Rightarrow> fault + hscfs_sit_entry" where
  "sit_entry_change segoff valid e =
     (let bitmap_idx = unat (segoff div 8); bitmap_off = unat (segoff mod 8) in
      obind (array_at (valid_map e) bitmap_idx) (\<lambda>byte.
        if valid then
          if byte AND push_bit bitmap_off 1 \<noteq> 0 then Inl Assert_failed
          else let e1 = e\<lparr>valid_map := (valid_map e)[bitmap_idx := byte OR push_bit bitmap_off 1]\<rparr>
               in Inr (if GET_SIT_VBLOCKS e1 < 511 then e1\<lparr>vblocks := vblocks e1 + 1\<rparr> else e1)
        else
          if byte AND push_bit bitmap_off 1 = 0 then Inl Assert_failed
          else let e1 = e\<lparr>valid_map := (valid_map e)[bitmap_idx := byte AND NOT (push_bit bitmap_off 1)]\<rparr>
               in Inr (if GET_SIT_VBLOCKS e1 > 0 then e1\<lparr>vblocks := vblocks e1 - 1\<rparr> else e1)))"

definition change_lpa_state :: "u32 \<Rightarrow> bool \<Rightarrow> (meta, unit) prog" where
  "change_lpa_state lpa valid m =
     (if lpa = INVALID_LPA then ret () m
      else
        let lpa_seg0_off = lpa - segment0_blkaddr (super_blk m);
            segid = lpa_seg0_off div BLOCK_PER_SEGMENT;
            segoff = lpa_seg0_off mod BLOCK_PER_SEGMENT;
            sit_lpa = sit_blkaddr (super_blk m) + segid div SIT_ENTRY_PER_BLOCK;
            idx = segid mod SIT_ENTRY_PER_BLOCK
        in bnd (sit_get sit_lpa) (\<lambda>_.
           bnd (sit_entry_read sit_lpa idx) (\<lambda>e.
           bnd (of_result (sit_entry_change segoff valid e)) (\<lambda>e'.
           bnd (sit_entry_write sit_lpa idx e') (\<lambda>_.
           bnd (append_SIT segid e') (\<lambda>_.
           bnd (sit_add_host_version sit_lpa) (\<lambda>_.
           sit_release sit_lpa)))))) m)"

definition validate_lpa :: "u32 \<Rightarrow> (meta, unit) prog" where
  "validate_lpa lpa = change_lpa_state lpa True"

definition invalidate_lpa :: "u32 \<Rightarrow> (meta, unit) prog" where
  "invalidate_lpa lpa = change_lpa_state lpa False"

section \<open>Node address lookup\<close>

definition nid_in_range :: "meta \<Rightarrow> u32 \<Rightarrow> bool" where
  "nid_in_range m n \<longleftrightarrow>
     n div NAT_ENTRY_PER_BLOCK < segment_count_nat (super_blk m) * BLOCK_PER_SEGMENT"

definition seg_in_range :: "meta \<Rightarrow> u32 \<Rightarrow> bool" where
  "seg_in_range m s \<longleftrightarrow>
     s div SIT_ENTRY_PER_BLOCK < segment_count_sit (super_blk m) * BLOCK_PER_SEGMENT"

lemma get_nid_pos_ok:
  "nid_in_range m n \<Longrightarrow> get_nid_pos_in_nat n m = (Inr (nat_blk m n, n mod NAT_ENTRY_PER_BLOCK), m)"
  by (simp add: get_nid_pos_in_nat_def nid_in_range_def nat_blk_def prog_simps add.commute)

lemma get_segid_pos_ok:
  "seg_in_range m s \<Longrightarrow> get_segid_pos_in_sit s m = (Inr (sit_blk m s, s mod SIT_ENTRY_PER_BLOCK), m)"
  by (simp add: get_segid_pos_in_sit_def seg_in_range_def sit_blk_def prog_simps)

lemma nat_at_tbl: "nat_at m = tbl_at (sn_view (nat_dev m) (nat_cache m)) (nat_blkaddr (super_blk m)) 512"
  by (simp add: nat_at_def nat_view_def)

lemma sit_at_tbl: "sit_at m = tbl_at (sn_view (sit_dev m) (sit_cache m)) (sit_blkaddr (super_blk m)) 60"
  by (simp add: sit_at_def sit_view_def)

lemma meta_step_read_nat:
  assumes "meta_inv m" "sn_inv (nat_dev m) c" "sn_view (nat_dev m) c = sn_view (nat_dev m) (nat_cache m)"
    "sn_refs c = sn_refs (nat_cache m)"
  shows "meta_step m [] [] [] (m\<lparr>nat_cache := c\<rparr>)"
  using assms
  by (simp add: meta_step_def meta_inv_def journaled_def nat_at_tbl sit_at_tbl nat_versions_def sit_versions_def)

lemma meta_step_read_sit:
  assumes "meta_inv m" "sn_inv (sit_dev m) c" "sn_view (sit_dev m) c = sn_view (sit_dev m) (sit_cache m)"
    "sn_refs c = sn_refs (sit_cache m)"
  shows "meta_step m [] [] [] (m\<lparr>sit_cache := c\<rparr>)"
  using assms
  by (simp add: meta_step_def meta_inv_def journaled_def nat_at_tbl sit_at_tbl nat_versions_def sit_versions_def)

lemma get_lpa_of_nid_ok:
  assumes "meta_inv m" "nid_in_range m n" "nat_at m n = Some e" "Suc (sn_refs (nat_cache m) (nat_blk m n)) < 2 ^ 32"
  shows "\<exists>c. get_lpa_of_nid n m = (Inr (ne_block_addr e), m\<lparr>nat_cache := c\<rparr>) \<and>
    meta_step m [] [] [] (m\<lparr>nat_cache := c\<rparr>)"
proof -
  have inv: "sn_inv (nat_dev m) (nat_cache m)" using assms(1) by (simp add: meta_inv_def)
  obtain c1 b c2 where c: "sn_get (nat_dev m) (nat_blk m n) (nat_cache m) = Inr c1" "sn_deref (nat_blk m n) c1 = Inr b"
    "array_at b (unat (n mod 512)) = Inr e" "sn_handle_dtor (Some (nat_blk m n)) c1 = Inr c2"
    "sn_inv (nat_dev m) c2" "sn_view (nat_dev m) c2 = sn_view (nat_dev m) (nat_cache m)"
    "sn_refs c2 = sn_refs (nat_cache m)"
    using tbl_read_through [OF inv assms(3) [unfolded nat_at_tbl] assms(4) [unfolded nat_blk_def]]
    unfolding nat_blk_def by blast
  from c(1-4) have "get_lpa_of_nid n m = (Inr (ne_block_addr e), m\<lparr>nat_cache := c2\<rparr>)"
    using assms(2) by (simp add: get_lpa_of_nid_def get_nid_pos_ok prog_simps meta_op_defs)
  with meta_step_read_nat [OF assms(1) c(5-7)] show ?thesis by blast
qed

section \<open>Block validity\<close>

text \<open>Segment and offset of a block, and the block at an offset of a segment.\<close>

lemma seg_pos_roundtrip:
  "get_first_lpa_of_segid (fst (get_seg_pos_of_lpa lpa m)) m + snd (get_seg_pos_of_lpa lpa m) = lpa"
proof -
  let ?l = "lpa - segment0_blkaddr (super_blk m)"
  have "?l div 512 * 512 + ?l mod 512 = ?l" by (rule div_mult_mod_eq)
  then show ?thesis by (simp add: get_first_lpa_of_segid_def get_seg_pos_of_lpa_def Let_def add.assoc)
qed

definition sit_bit :: "hscfs_sit_entry \<Rightarrow> u32 \<Rightarrow> bool" where
  "sit_bit e off = bit (valid_map e ! unat (off div 8)) (unat (off mod 8))"

definition sit_wf :: "hscfs_sit_entry \<Rightarrow> bool" where
  "sit_wf e \<longleftrightarrow> length (valid_map e) = SIT_VBLOCK_MAP_SIZE"

text \<open>Blocks marked valid in a segment.\<close>

definition valid_offs :: "hscfs_sit_entry \<Rightarrow> u32 set" where
  "valid_offs e = {off. off < 512 \<and> sit_bit e off}"

lemma valid_offs_card: "card (valid_offs e) \<le> 512"
proof -
  have "inj_on unat (valid_offs e)" by (auto intro: inj_onI simp: word_unat_eq_iff)
  then have "card (valid_offs e) = card (unat ` valid_offs e)" by (simp add: card_image)
  also have "\<dots> \<le> card {..<512::nat}"
    by (rule card_mono) (auto simp: valid_offs_def word_less_nat_alt)
  finally show ?thesis by simp
qed

lemma byte_bit_test: "(w AND push_bit n 1 \<noteq> (0 :: u8)) \<longleftrightarrow> bit w n"
  by (simp add: and_exp_eq_0_iff_not_bit push_bit_of_1)

lemma off_idx:
  assumes "off < (512 :: u32)"
  shows "unat (off div 8) < 64" "unat (off mod 8) < 8"
  using assms by (auto simp: unat_div unat_mod word_less_nat_alt)

lemma off_idx_inj:
  "unat (o1 div 8) = unat (o2 div 8) \<Longrightarrow> unat (o1 mod 8) = unat (o2 mod 8) \<Longrightarrow> o1 = (o2 :: u32)"
  by (metis div_mult_mod_eq word_unat_eq_iff)

lemma vblocks_inc:
  assumes "GET_SIT_VBLOCKS e < 511"
  shows "unat (GET_SIT_VBLOCKS (e\<lparr>vblocks := vblocks e + 1\<rparr>)) = Suc (unat (GET_SIT_VBLOCKS e))"
    "GET_NEXT_SEG (e\<lparr>vblocks := vblocks e + 1\<rparr>) = GET_NEXT_SEG e"
proof -
  have lt: "unat (vblocks e) mod 512 < 511"
    using assms by (simp add: word_less_nat_alt GET_SIT_VBLOCKS_mod)
  then have "vblocks e \<noteq> - 1" by (auto simp: unat_u32_max)
  then have inc: "unat (vblocks e + 1) = Suc (unat (vblocks e))" by (rule unat_u32_inc)
  show "unat (GET_SIT_VBLOCKS (e\<lparr>vblocks := vblocks e + 1\<rparr>)) = Suc (unat (GET_SIT_VBLOCKS e))"
    using lt inc by (simp add: GET_SIT_VBLOCKS_mod mod_Suc)
  have "unat (GET_NEXT_SEG (e\<lparr>vblocks := vblocks e + 1\<rparr>)) = unat (GET_NEXT_SEG e)"
    using lt inc by (simp add: GET_NEXT_SEG_div div_Suc mod_Suc)
  then show "GET_NEXT_SEG (e\<lparr>vblocks := vblocks e + 1\<rparr>) = GET_NEXT_SEG e"
    by (simp add: word_unat_eq_iff)
qed

lemma vblocks_dec:
  assumes "GET_SIT_VBLOCKS e > 0"
  shows "Suc (unat (GET_SIT_VBLOCKS (e\<lparr>vblocks := vblocks e - 1\<rparr>))) = unat (GET_SIT_VBLOCKS e)"
    "GET_NEXT_SEG (e\<lparr>vblocks := vblocks e - 1\<rparr>) = GET_NEXT_SEG e"
proof -
  let ?d = "e\<lparr>vblocks := vblocks e - 1\<rparr>"
  have gt: "unat (vblocks e) mod 512 > 0"
    using assms by (simp add: word_less_nat_alt GET_SIT_VBLOCKS_mod)
  then have "vblocks e \<noteq> 0" by auto
  then have dec: "unat (vblocks e) = Suc (unat (vblocks e - 1))" by (simp add: unat_u32_dec)
  then have lt: "GET_SIT_VBLOCKS ?d < 511"
    using gt by (simp add: word_less_nat_alt GET_SIT_VBLOCKS_mod mod_Suc split: if_splits)
  have "?d\<lparr>vblocks := vblocks ?d + 1\<rparr> = e" by simp
  with vblocks_inc [OF lt] show
    "Suc (unat (GET_SIT_VBLOCKS ?d)) = unat (GET_SIT_VBLOCKS e)" "GET_NEXT_SEG ?d = GET_NEXT_SEG e"
    by simp_all
qed

lemma byte_update_bit:
  assumes "n < 8"
  shows "bit ((w :: u8) OR 2 ^ n) k \<longleftrightarrow> k = n \<or> bit w k"
    "bit (w AND NOT (2 ^ n)) k \<longleftrightarrow> k \<noteq> n \<and> bit w k"
  using assms by (auto simp: bit_simps dest: bit_imp_le_length)

text \<open>The entry after a successful change: one bit differs, the link to the next segment does not.\<close>

definition sit_toggle :: "u32 \<Rightarrow> bool \<Rightarrow> hscfs_sit_entry \<Rightarrow> u8 list" where
  "sit_toggle off valid e =
     (let i = unat (off div 8); b = push_bit (unat (off mod 8)) 1; byte = valid_map e ! i in
      (valid_map e)[i := (if valid then byte OR b else byte AND NOT b)])"

lemma sit_toggle_bit:
  assumes "sit_wf e" "off < 512" "o' < 512" "valid_map e' = sit_toggle off valid e"
  shows "sit_bit e' o' = (if o' = off then valid else sit_bit e o')"
proof (cases "unat (o' div 8) = unat (off div 8)")
  case True
  then show ?thesis
    using assms off_idx [OF assms(2)] off_idx [OF assms(3)] off_idx_inj [of o' off]
    by (auto simp: sit_bit_def sit_toggle_def sit_wf_def Let_def byte_update_bit)
next
  case False
  then show ?thesis
    using assms by (auto simp: sit_bit_def sit_toggle_def Let_def)
qed

lemma sit_toggle_offs:
  assumes "sit_wf e" "off < 512" "valid_map e' = sit_toggle off valid e"
  shows "valid_offs e' = (if valid then insert off (valid_offs e) else valid_offs e - {off})"
  using sit_toggle_bit [OF assms(1,2) _ assms(3)] assms(2) by (auto simp: valid_offs_def split: if_splits)

lemma sit_entry_change_val:
  assumes "sit_wf e" "off < 512"
  shows "sit_entry_change off valid e =
    (if sit_bit e off = valid then Inl Assert_failed
     else let e1 = e\<lparr>valid_map := sit_toggle off valid e\<rparr> in
       Inr (if valid then (if GET_SIT_VBLOCKS e < 511 then e1\<lparr>vblocks := vblocks e + 1\<rparr> else e1)
            else (if GET_SIT_VBLOCKS e > 0 then e1\<lparr>vblocks := vblocks e - 1\<rparr> else e1)))"
proof -
  have "GET_SIT_VBLOCKS (e\<lparr>valid_map := v\<rparr>) = GET_SIT_VBLOCKS e" for v
    by (simp add: GET_SIT_VBLOCKS_def)
  moreover have "unat (off div 8) < length (valid_map e)"
    using assms off_idx by (simp add: sit_wf_def)
  ultimately show ?thesis
    using byte_bit_test [of "valid_map e ! unat (off div 8)" "unat (off mod 8)"]
    by (auto simp: sit_entry_change_def array_at_def sit_bit_def sit_toggle_def Let_def)
qed

lemma GET_valid_map [simp]:
  "GET_SIT_VBLOCKS (e\<lparr>valid_map := v\<rparr>) = GET_SIT_VBLOCKS e"
  "GET_NEXT_SEG (e\<lparr>valid_map := v\<rparr>) = GET_NEXT_SEG e"
  by (simp_all add: GET_SIT_VBLOCKS_def GET_NEXT_SEG_def)

lemma sit_entry_change_props:
  assumes "sit_wf e" "off < 512" "sit_entry_change off valid e = Inr e'"
  shows "sit_bit e off \<noteq> valid" "valid_map e' = sit_toggle off valid e" "sit_wf e'"
    "GET_NEXT_SEG e' = GET_NEXT_SEG e"
    "unat (GET_SIT_VBLOCKS e') =
       (if valid then min 511 (Suc (unat (GET_SIT_VBLOCKS e))) else unat (GET_SIT_VBLOCKS e) - 1)"
proof -
  have nv: "sit_bit e off \<noteq> valid" using assms(3) by (auto simp: sit_entry_change_val [OF assms(1,2)] split: if_splits)
  let ?v = "sit_toggle off valid e"
  have e': "e' = (if valid then (if GET_SIT_VBLOCKS e < 511 then e\<lparr>vblocks := vblocks e + 1\<rparr> else e)
            else (if GET_SIT_VBLOCKS e > 0 then e\<lparr>vblocks := vblocks e - 1\<rparr> else e))\<lparr>valid_map := ?v\<rparr>"
    using assms(3) nv by (auto simp: sit_entry_change_val [OF assms(1,2)] Let_def split: if_splits)
  show "sit_bit e off \<noteq> valid" by (rule nv)
  show "valid_map e' = ?v" by (simp add: e')
  then show "sit_wf e'" using assms(1) by (simp add: sit_wf_def sit_toggle_def Let_def)
  show "GET_NEXT_SEG e' = GET_NEXT_SEG e"
    by (simp add: e' vblocks_inc vblocks_dec)
  have "unat (GET_SIT_VBLOCKS e) \<le> 511" by (simp add: GET_SIT_VBLOCKS_mod)
  then show "unat (GET_SIT_VBLOCKS e') =
       (if valid then min 511 (Suc (unat (GET_SIT_VBLOCKS e))) else unat (GET_SIT_VBLOCKS e) - 1)"
    using vblocks_inc(1) [of e] vblocks_dec(1) [of e]
    by (auto simp: e' word_less_nat_alt)
qed

text \<open>The counter is the number of valid blocks, capped at the largest value of the field.\<close>

definition sit_count_ok :: "hscfs_sit_entry \<Rightarrow> bool" where
  "sit_count_ok e \<longleftrightarrow> unat (GET_SIT_VBLOCKS e) = min 511 (card (valid_offs e))"

lemma sit_entry_change_count:
  assumes "sit_wf e" "off < 512" "sit_entry_change off valid e = Inr e'" "sit_count_ok e"
    "valid \<or> card (valid_offs e) < 512"
  shows "sit_count_ok e'"
proof -
  note p = sit_entry_change_props [OF assms(1-3)]
  have off: "off \<in> valid_offs e \<longleftrightarrow> \<not> valid" using p(1) assms(2) by (simp add: valid_offs_def)
  show ?thesis
    using assms(4,5) off p(5) sit_toggle_offs [OF assms(1,2) p(2)]
    by (auto simp: sit_count_ok_def card_Diff_singleton)
qed

section \<open>The table operations on the metadata\<close>

definition lpa_seg :: "meta \<Rightarrow> u32 \<Rightarrow> u32" where
  "lpa_seg m lpa = fst (get_seg_pos_of_lpa lpa m)"

definition lpa_off :: "meta \<Rightarrow> u32 \<Rightarrow> u32" where
  "lpa_off m lpa = snd (get_seg_pos_of_lpa lpa m)"

lemma lpa_off_less: "lpa_off m lpa < 512"
  by (simp add: lpa_off_def get_seg_pos_of_lpa_def Let_def word_mod_less_divisor)

lemma lpa_pos_inj:
  "lpa_seg m l1 = lpa_seg m l2 \<Longrightarrow> lpa_off m l1 = lpa_off m l2 \<Longrightarrow> l1 = l2"
  unfolding lpa_seg_def lpa_off_def using seg_pos_roundtrip by metis

lemma change_lpa_state_ok:
  assumes "meta_inv m" "lpa \<noteq> INVALID_LPA" "sit_at m (lpa_seg m lpa) = Some e"
    "sit_entry_change (lpa_off m lpa) valid e = Inr e'"
    "Suc (Suc (sn_refs (sit_cache m) (sit_blk m (lpa_seg m lpa)))) < 2 ^ 32"
  shows "\<exists>c. let m' = m\<lparr>sit_cache := c, cur_journal :=
        append_SIT_journal_entry \<lparr>segID = lpa_seg m lpa, sit_newValue = e'\<rparr> (cur_journal m)\<rparr> in
      change_lpa_state lpa valid m = (Inr (), m') \<and>
      meta_step m [] [] [\<lparr>segID = lpa_seg m lpa, sit_newValue = e'\<rparr>] m'"
proof -
  let ?s = "lpa_seg m lpa"
  have inv: "sn_inv (sit_dev m) (sit_cache m)" using assms(1) by (simp add: meta_inv_def)
  obtain c1 b b' c2 c3 where c: "sn_get (sit_dev m) (sit_blk m ?s) (sit_cache m) = Inr c1"
    "sn_deref (sit_blk m ?s) c1 = Inr b" "array_at b (unat (?s mod 60)) = Inr e"
    "array_set b (unat (?s mod 60)) e' = Inr b'"
    "sn_add_refcount (sit_blk m ?s) (sn_store (sit_blk m ?s) b' c1) = Inr c2"
    "sn_handle_dtor (Some (sit_blk m ?s)) c2 = Inr c3" "sn_inv (sit_dev m) c3"
    "tbl_at (sn_view (sit_dev m) c3) (sit_blkaddr (super_blk m)) 60 = (sit_at m)(?s \<mapsto> e')"
    "sn_refs c3 = (sn_refs (sit_cache m))(sit_blk m ?s := Suc (sn_refs (sit_cache m) (sit_blk m ?s)))"
    using tbl_update_through [OF inv assms(3) [unfolded sit_at_tbl] assms(5) [unfolded sit_blk_def], of e']
    unfolding sit_blk_def sit_at_tbl by blast
  let ?m = "m\<lparr>sit_cache := c3, cur_journal :=
        append_SIT_journal_entry \<lparr>segID = ?s, sit_newValue = e'\<rparr> (cur_journal m)\<rparr>"
  have pos: "(lpa - segment0_blkaddr (super_blk m)) div 512 = ?s" "(lpa - segment0_blkaddr (super_blk m)) mod 512 = lpa_off m lpa"
    "sit_blkaddr (super_blk m) + ?s div 60 = sit_blk m ?s"
    by (simp_all add: lpa_seg_def lpa_off_def get_seg_pos_of_lpa_def sit_blk_def Let_def)
  have "change_lpa_state lpa valid m = (Inr (), ?m)"
    unfolding change_lpa_state_def Let_def pos
    using c(1-6) assms(2,4) by (simp add: prog_simps meta_op_defs)
  moreover have "meta_step m [] [] [\<lparr>segID = ?s, sit_newValue = e'\<rparr>] ?m"
    using assms(1) c(7-9)
    by (simp add: meta_step_def meta_inv_def journaled_def nat_at_tbl sit_at_tbl nat_versions_def
        sit_versions_def append_SIT_journal_entry_def fun_eq_iff)
  ultimately show ?thesis by (auto simp: Let_def)
qed

text \<open>Setting the address of a node: the journal gets the new entry, the cached table keeps the old one.\<close>

lemma set_lpa_of_nid_effect:
  assumes "meta_inv m" "nid_in_range m n" "nat_at m n = Some e"
    "Suc (Suc (sn_refs (nat_cache m) (nat_blk m n))) < 2 ^ 32"
  shows "\<exists>c. let m' = m\<lparr>nat_cache := c, cur_journal :=
        append_NAT_journal_entry \<lparr>nid = n, nat_newValue = e\<lparr>ne_block_addr := l\<rparr>\<rparr> (cur_journal m)\<rparr> in
      set_lpa_of_nid n l m = (Inr (), m') \<and> meta_inv m' \<and> nat_at m' = nat_at m \<and>
      sn_refs c = (sn_refs (nat_cache m))(nat_blk m n := Suc (sn_refs (nat_cache m) (nat_blk m n)))"
proof -
  have inv: "sn_inv (nat_dev m) (nat_cache m)" using assms(1) by (simp add: meta_inv_def)
  let ?k = "nat_blk m n"
  obtain b where b: "sn_view (nat_dev m) (nat_cache m) ?k = Some b" "unat (n mod 512) < length b" "b ! unat (n mod 512) = e"
    using assms(3) [unfolded nat_at_tbl] unfolding nat_blk_def by (rule tbl_at_Some)
  obtain c1 where c1: "sn_get (nat_dev m) ?k (nat_cache m) = Inr c1" "sn_inv (nat_dev m) c1"
      "sn_view (nat_dev m) c1 = sn_view (nat_dev m) (nat_cache m)"
      "sn_refs c1 = (sn_refs (nat_cache m))(?k := Suc (sn_refs (nat_cache m) ?k))"
    using sn.get_law [OF inv b(1)] assms(4) by auto
  have r1: "sn_refs c1 ?k \<noteq> 0" "Suc (sn_refs c1 ?k) < 2 ^ 32" using c1(4) assms(4) by simp_all
  have d: "sn_deref ?k c1 = Inr b" by (rule sn.deref_law [OF r1(1), of "nat_dev m"]) (simp add: c1(3) b(1))
  obtain c2 where c2: "sn_add_refcount ?k c1 = Inr c2" "sn_inv (nat_dev m) c2" "sn_view (nat_dev m) c2 = sn_view (nat_dev m) c1"
      "sn_refs c2 = (sn_refs c1)(?k := Suc (sn_refs c1 ?k))"
    using sn.addref_law [OF c1(2) r1] by auto
  have "sn_refs c2 ?k = Suc (Suc (sn_refs (nat_cache m) ?k))" using c2(4) c1(4) by simp
  then obtain c3 where c3: "sn_sub_refcount ?k c2 = Inr c3" "sn_inv (nat_dev m) c3"
      "sn_view (nat_dev m) c3 = sn_view (nat_dev m) c2"
      "sn_refs c3 = (sn_refs c2)(?k := Suc (sn_refs (nat_cache m) ?k))"
    using sn.subref_law [OF c2(2), of ?k "Suc (sn_refs (nat_cache m) ?k)"] by auto
  let ?m = "m\<lparr>nat_cache := c3, cur_journal :=
        append_NAT_journal_entry \<lparr>nid = n, nat_newValue = e\<lparr>ne_block_addr := l\<rparr>\<rparr> (cur_journal m)\<rparr>"
  have "set_lpa_of_nid n l m = (Inr (), ?m)"
    using c1(1) d b c2(1) sn_handle_dtor_Inr [OF c3(1)] assms(2)
    by (simp add: set_lpa_of_nid_def get_nid_pos_ok prog_simps meta_op_defs array_at_def)
  moreover have "meta_inv ?m" using assms(1) c3(2) by (simp add: meta_inv_def)
  moreover have "nat_at ?m = nat_at m" using c3(3) c2(3) c1(3) by (simp add: nat_at_tbl)
  ultimately show ?thesis using c3(4) c2(4) c1(4) by (auto simp: Let_def)
qed

definition lpa_valid :: "meta \<Rightarrow> u32 \<Rightarrow> bool" where
  "lpa_valid m lpa =
     (case sit_at m (lpa_seg m lpa) of None \<Rightarrow> False | Some e \<Rightarrow> sit_bit e (lpa_off m lpa))"

text \<open>A journalled change of one SIT entry's bit changes the validity of one block only.\<close>

lemma lpa_valid_change:
  assumes "journaled m ds dn [\<lparr>segID = lpa_seg m lpa, sit_newValue = e'\<rparr>] m'"
    "sit_at m (lpa_seg m lpa) = Some e" "sit_wf e" "sit_entry_change (lpa_off m lpa) valid e = Inr e'"
  shows "lpa_valid m' = (lpa_valid m)(lpa := valid)" "lpa_valid m lpa \<noteq> valid"
proof -
  have pos: "lpa_seg m' = lpa_seg m" "lpa_off m' = lpa_off m"
    using journaled_layout(3) [OF assms(1)]
    by (simp_all add: lpa_seg_def lpa_off_def get_seg_pos_of_lpa_def fun_eq_iff)
  have sit: "sit_at m' = (sit_at m)(lpa_seg m lpa \<mapsto> e')" using assms(1) by (simp add: journaled_def)
  note p = sit_entry_change_props [OF assms(3) lpa_off_less assms(4)]
  show "lpa_valid m lpa \<noteq> valid" using p(1) assms(2) by (simp add: lpa_valid_def)
  show "lpa_valid m' = (lpa_valid m)(lpa := valid)"
  proof
    fix l
    show "lpa_valid m' l = ((lpa_valid m)(lpa := valid)) l"
      using sit_toggle_bit [OF assms(3) lpa_off_less lpa_off_less p(2), of m l] lpa_pos_inj [of m l lpa] assms(2)
      by (auto simp: lpa_valid_def pos sit split: option.splits)
  qed
qed

section \<open>A small formatted state\<close>

text \<open>
  A state with cold caches on which the properties are exercised: node ids 510 and 511 are
  free, segments 10 and 11 are active and segment 12 is free.
\<close>

definition sample_super :: hscfs_super_block where
  "sample_super = \<lparr>magic = HSCFS_MAGIC_NUMBER, block_count = 10240, segment_count = 20,
     segment_count_sit = 1, segment_count_nat = 1, segment_count_srmap = 1,
     segment_count_meta_journal = 1, segment_count_main = 10, segment0_blkaddr = 0,
     sit_blkaddr = 512, nat_blkaddr = 1024, srmap_blkaddr = 1536, meta_journal_blkaddr = 2048,
     main_blkaddr = 5120, root_ino = 2, first_free_segment_id = 12, first_data_segment_id = 0,
     first_node_segment_id = 0, current_data_segment_id = 11, current_data_segment_blkoff = 3,
     current_node_segment_id = 10, current_node_segment_blkoff = 512,
     meta_journal_start_blkoff = 0, meta_journal_end_blkoff = 0, free_segment_count = 1,
     next_free_nid = 510\<rparr>"

definition sample_nat_block :: hscfs_nat_block where
  "sample_nat_block =
     map (\<lambda>i. \<lparr>ne_ino = 0, ne_block_addr = word_of_nat ((i + 1) mod 512)\<rparr>) [0..<512]"

definition sample_sit_entry :: hscfs_sit_entry where
  "sample_sit_entry = \<lparr>vblocks = 0, valid_map = replicate 64 0\<rparr>"

definition sample_meta :: meta where
  "sample_meta = \<lparr>super_blk = sample_super, nat_cache = sn_init 2, sit_cache = sn_init 2,
     nat_dev = (\<lambda>_. Some sample_nat_block), sit_dev = (\<lambda>_. Some (replicate 60 sample_sit_entry)),
     cur_journal = empty_journal, uncommit_node_segs = [], uncommit_data_segs = []\<rparr>"

lemma sample_super_blk [simp]: "super_blk sample_meta = sample_super"
  by (simp add: sample_meta_def)

lemma sample_inv [simp]: "meta_inv sample_meta" "meta_room sample_meta"
  by (simp_all add: sample_meta_def meta_inv_def meta_room_def sn_init_inv)

lemma sample_nat_at [simp]:
  "nat_at sample_meta n = Some \<lparr>ne_ino = 0, ne_block_addr = word_of_nat ((unat (n mod 512) + 1) mod 512)\<rparr>"
proof -
  have "unat (n mod 512) < 512" by (simp add: unat_mod)
  then show ?thesis by (simp add: nat_at_tbl sample_meta_def tbl_at_def sample_nat_block_def)
qed

lemma sample_sit_at [simp]: "sit_at sample_meta s = Some sample_sit_entry"
proof -
  have "unat (s mod 60) < 60" by (simp add: unat_mod)
  then show ?thesis by (simp add: sit_at_tbl sample_meta_def tbl_at_def)
qed

lemma sample_sit_entry_simps [simp]:
  "sit_wf sample_sit_entry" "GET_SIT_VBLOCKS sample_sit_entry = 0" "valid_offs sample_sit_entry = {}"
proof -
  show "sit_wf sample_sit_entry" "GET_SIT_VBLOCKS sample_sit_entry = 0"
    by (simp_all add: sample_sit_entry_def sit_wf_def GET_SIT_VBLOCKS_def)
  show "valid_offs sample_sit_entry = {}"
    using off_idx(1) by (auto simp: valid_offs_def sit_bit_def sample_sit_entry_def)
qed

section \<open>Properties\<close>

text \<open>
  C6. Changing the state of a block: if the block is not already in the requested state,
  \<open>change_lpa_state\<close> succeeds, the validity of exactly that block changes, the link to the
  next segment and every other entry of the table stay, and the change is the one
  journalled, with one host version left on the SIT block.
\<close>

theorem change_lpa_state_correct:
  assumes "meta_inv m" "meta_room m" "lpa \<noteq> INVALID_LPA" "sit_at m (lpa_seg m lpa) = Some e" "sit_wf e"
    "lpa_valid m lpa \<noteq> valid"
  shows "\<exists>m' e'. change_lpa_state lpa valid m = (Inr (), m') \<and> lpa_valid m' = (lpa_valid m)(lpa := valid) \<and>
    sit_at m' = (sit_at m)(lpa_seg m lpa \<mapsto> e') \<and> GET_NEXT_SEG e' = GET_NEXT_SEG e \<and> sit_wf e' \<and>
    meta_step m [] [] [\<lparr>segID = lpa_seg m lpa, sit_newValue = e'\<rparr>] m'"
proof -
  have "sit_bit e (lpa_off m lpa) \<noteq> valid" using assms(4,6) by (simp add: lpa_valid_def)
  then obtain e' where e': "sit_entry_change (lpa_off m lpa) valid e = Inr e'"
    by (simp add: sit_entry_change_val [OF assms(5) lpa_off_less] Let_def)
  obtain m' where m': "change_lpa_state lpa valid m = (Inr (), m')"
      "meta_step m [] [] [\<lparr>segID = lpa_seg m lpa, sit_newValue = e'\<rparr>] m'"
    using change_lpa_state_ok [OF assms(1,3,4) e' meta_roomD(2) [OF assms(2)]] by (auto simp: Let_def)
  have "sit_at m' = (sit_at m)(lpa_seg m lpa \<mapsto> e')" using meta_stepD(5) [OF m'(2)] by simp
  with m' lpa_valid_change(1) [OF meta_stepD(2) [OF m'(2)] assms(4,5) e']
    sit_entry_change_props(3,4) [OF assms(5) lpa_off_less e'] show ?thesis by auto
qed

theorem change_lpa_state_correct_witness:
  "\<exists>m'. change_lpa_state 5000 True sample_meta = (Inr (), m') \<and> lpa_valid m' 5000"
proof -
  have "sit_bit sample_sit_entry off = False" if "off < 512" for off
    using sample_sit_entry_simps(3) that by (auto simp: valid_offs_def)
  then have "lpa_valid sample_meta 5000 \<noteq> True" using lpa_off_less by (simp add: lpa_valid_def)
  then show ?thesis
    using change_lpa_state_correct [OF sample_inv _ sample_sit_at sample_sit_entry_simps(1), of 5000 True] by auto
qed

text \<open>
  The valid-block counter. As long as the counter equals the number of valid blocks
  (capped at 511), validating a block keeps it so, and invalidating does too unless the
  segment was completely valid; in that case the counter ends up one below the number of
  valid blocks.
\<close>

theorem sit_counter_tracks_bitmap:
  assumes "sit_wf e" "off < 512" "sit_count_ok e" "sit_entry_change off valid e = Inr e'"
  shows "if valid \<or> card (valid_offs e) < 512 then sit_count_ok e'
    else unat (GET_SIT_VBLOCKS e') + 1 = card (valid_offs e') \<and> card (valid_offs e') = 511"
proof (cases "valid \<or> card (valid_offs e) < 512")
  case True
  with sit_entry_change_count [OF assms(1,2,4,3)] show ?thesis by simp
next
  case False
  note p = sit_entry_change_props [OF assms(1,2,4)]
  have "card (valid_offs e) = 512" using False valid_offs_card [of e] by linarith
  moreover have "off \<in> valid_offs e" using p(1) False assms(2) by (simp add: valid_offs_def)
  ultimately show ?thesis
    using False assms(3) p(5) sit_toggle_offs [OF assms(1,2) p(2)]
    by (simp add: sit_count_ok_def card_Diff_singleton)
qed

theorem sit_counter_tracks_bitmap_witness:
  "\<exists>e'. sit_entry_change 9 True sample_sit_entry = Inr e' \<and> sit_count_ok e' \<and> card (valid_offs e') = 1"
proof -
  have nb: "\<not> sit_bit sample_sit_entry 9" using sample_sit_entry_simps(3) by (auto simp: valid_offs_def)
  then obtain e' where e': "sit_entry_change 9 True sample_sit_entry = Inr e'"
    by (simp add: sit_entry_change_val Let_def)
  have "valid_offs e' = {9}"
    using sit_toggle_offs [OF _ _ sit_entry_change_props(2) [OF _ _ e']] by simp
  moreover have "sit_count_ok sample_sit_entry" by (simp add: sit_count_ok_def)
  ultimately show ?thesis
    using sit_counter_tracks_bitmap [OF sample_sit_entry_simps(1) _ _ e'] e' by simp
qed

text \<open>
  The address a node was given is not seen by a later lookup: \<open>set_lpa_of_nid\<close> changes
  a copy of the cached NAT entry, so the journal carries the new address while
  \<open>get_lpa_of_nid\<close> goes on returning the old one.
\<close>

theorem set_lpa_of_nid_not_visible:
  assumes "meta_inv m" "meta_room m" "nid_in_range m n" "nat_at m n = Some e"
  shows "\<exists>m' m''. set_lpa_of_nid n new_lpa m = (Inr (), m') \<and>
    NAT_journal (cur_journal m') = NAT_journal (cur_journal m) @ [\<lparr>nid = n, nat_newValue = e\<lparr>ne_block_addr := new_lpa\<rparr>\<rparr>] \<and>
    get_lpa_of_nid n m' = (Inr (ne_block_addr e), m'')"
proof -
  obtain c m' where m': "set_lpa_of_nid n new_lpa m = (Inr (), m')" "meta_inv m'" "nat_at m' = nat_at m"
      "sn_refs c = (sn_refs (nat_cache m))(nat_blk m n := Suc (sn_refs (nat_cache m) (nat_blk m n)))"
      "m' = m\<lparr>nat_cache := c, cur_journal :=
        append_NAT_journal_entry \<lparr>nid = n, nat_newValue = e\<lparr>ne_block_addr := new_lpa\<rparr>\<rparr> (cur_journal m)\<rparr>"
    using set_lpa_of_nid_effect [OF assms(1,3,4) meta_roomD(1) [OF assms(2)], of new_lpa] by (auto simp: Let_def)
  have s: "super_blk m' = super_blk m" by (simp add: m'(5))
  have blk: "nat_blk m' n = nat_blk m n" "nid_in_range m' n" using s assms(3) by (simp_all add: nat_blk_def nid_in_range_def)
  have "Suc (sn_refs (nat_cache m') (nat_blk m' n)) < 2 ^ 32"
    using m'(4,5) blk meta_roomD(1) [OF assms(2), of "nat_blk m n"] by simp
  from get_lpa_of_nid_ok [OF m'(2) blk(2) _ this] m'(3) assms(4)
  obtain m'' where "get_lpa_of_nid n m' = (Inr (ne_block_addr e), m'')" by auto
  with m'(1,5) show ?thesis by (auto simp: append_NAT_journal_entry_def)
qed

theorem set_lpa_of_nid_not_visible_witness:
  "\<exists>m' m''. set_lpa_of_nid 5 9999 sample_meta = (Inr (), m') \<and> get_lpa_of_nid 5 m' = (Inr 6, m'')"
proof -
  have "nid_in_range sample_meta 5" by (simp add: nid_in_range_def sample_super_def)
  from set_lpa_of_nid_not_visible [OF sample_inv this sample_nat_at, of 9999] show ?thesis by auto
qed

end
