(* ===== verification/Super_Manager.thy ===== *)
theory Super_Manager
  imports NAT_SIT_Utils
begin

text \<open>
  \<^verbatim>\<open>src/fs/super_manager.cc\<close>: allocation and release of node ids over the free list kept in
  the NAT, allocation of blocks from the active segments and of segments from the free
  list kept in the SIT, and the lists of full segments. The free lists refine plain lists.
\<close>

section \<open>Node ids\<close>

definition alloc_nid :: "u32 \<Rightarrow> bool \<Rightarrow> (meta, u32) prog" where
  "alloc_nid ino is_inode =
     bnd (reads (\<lambda>m. next_free_nid (super_blk m))) (\<lambda>n.
     if n = INVALID_NID then fail (Throw No_free_nid)
     else
       bnd (get_nid_pos_in_nat n) (\<lambda>(lpa, idx).
       bnd (nat_get lpa) (\<lambda>_.
       bnd (nat_entry_read lpa idx) (\<lambda>e.
       bnd (assert_that (ne_ino e = 0)) (\<lambda>_.
       bnd (upd_super (\<lambda>s. s\<lparr>next_free_nid := ne_block_addr e\<rparr>)) (\<lambda>_.
       let e' = \<lparr>ne_ino = (if is_inode then n else ino), ne_block_addr = INVALID_LPA\<rparr> in
       bnd (nat_entry_write lpa idx e') (\<lambda>_.
       bnd (append_NAT n e') (\<lambda>_.
       bnd (append_super off_next_free_nid (ne_block_addr e)) (\<lambda>_.
       bnd (nat_add_host_version lpa) (\<lambda>_.
       bnd (nat_release lpa) (\<lambda>_.
       ret n)))))))))))"

definition free_nid :: "u32 \<Rightarrow> (meta, unit) prog" where
  "free_nid n =
     bnd (get_nid_pos_in_nat n) (\<lambda>(lpa, idx).
     bnd (nat_get lpa) (\<lambda>_.
     bnd (reads (\<lambda>m. next_free_nid (super_blk m))) (\<lambda>head.
     let e' = \<lparr>ne_ino = 0, ne_block_addr = head\<rparr> in
     bnd (nat_entry_write lpa idx e') (\<lambda>_.
     bnd (upd_super (\<lambda>s. s\<lparr>next_free_nid := n\<rparr>)) (\<lambda>_.
     bnd (append_NAT n e') (\<lambda>_.
     bnd (append_super off_next_free_nid n) (\<lambda>_.
     bnd (nat_add_host_version lpa) (\<lambda>_.
     nat_release lpa))))))))"

section \<open>Segments and blocks\<close>

definition alloc_segment :: "(meta, u32) prog" where
  "alloc_segment =
     bnd (reads super_blk) (\<lambda>s.
     if free_segment_count s = 0 then fail (Throw No_free_segment)
     else
       let segid = first_free_segment_id s in
       bnd (get_segid_pos_in_sit segid) (\<lambda>(lpa, idx).
       bnd (sit_get lpa) (\<lambda>_.
       bnd (sit_entry_read lpa idx) (\<lambda>e.
       bnd (assert_that (GET_SIT_VBLOCKS e = 0)) (\<lambda>_.
       bnd (upd_super (\<lambda>s. s\<lparr>first_free_segment_id := GET_NEXT_SEG e\<rparr>)) (\<lambda>_.
       bnd (upd_super (\<lambda>s. s\<lparr>free_segment_count := free_segment_count s - 1\<rparr>)) (\<lambda>_.
       bnd (append_super off_first_free_segment_id (GET_NEXT_SEG e)) (\<lambda>_.
       bnd (reads (\<lambda>m. free_segment_count (super_blk m))) (\<lambda>cnt.
       bnd (append_super off_free_segment_count cnt) (\<lambda>_.
       bnd (sit_release lpa) (\<lambda>_.
       ret segid)))))))))))"

text \<open>
  The list head that \<^verbatim>\<open>add_seg_to_list\<close> takes by reference is given by its getter and
  setter. The handle is released without a host version for the entry that was journalled.
\<close>

definition add_seg_to_list ::
    "u32 \<Rightarrow> (hscfs_super_block \<Rightarrow> u32) \<Rightarrow> (u32 \<Rightarrow> hscfs_super_block \<Rightarrow> hscfs_super_block) \<Rightarrow> u32 \<Rightarrow> (meta, unit) prog" where
  "add_seg_to_list segid get_head set_head list_head_addr_off =
     bnd (get_segid_pos_in_sit segid) (\<lambda>(lpa, idx).
     bnd (sit_get lpa) (\<lambda>_.
     bnd (sit_entry_read lpa idx) (\<lambda>e.
     bnd (reads (\<lambda>m. get_head (super_blk m))) (\<lambda>head.
     let e' = SET_NEXT_SEG head e in
     bnd (sit_entry_write lpa idx e') (\<lambda>_.
     bnd (upd_super (set_head segid)) (\<lambda>_.
     bnd (append_super list_head_addr_off segid) (\<lambda>_.
     bnd (append_SIT segid e') (\<lambda>_.
     sit_release lpa))))))))"

definition add_to_node_segment_list :: "u32 \<Rightarrow> (meta, unit) prog" where
  "add_to_node_segment_list segid =
     add_seg_to_list segid first_node_segment_id (\<lambda>v s. s\<lparr>first_node_segment_id := v\<rparr>) off_first_node_segment_id"

definition add_to_data_segment_list :: "u32 \<Rightarrow> (meta, unit) prog" where
  "add_to_data_segment_list segid =
     add_seg_to_list segid first_data_segment_id (\<lambda>v s. s\<lparr>first_data_segment_id := v\<rparr>) off_first_data_segment_id"

definition get_and_clear_uncommit_node_segs :: "(meta, u32 list) prog" where
  "get_and_clear_uncommit_node_segs =
     bnd (reads uncommit_node_segs) (\<lambda>r. bnd (modify (\<lambda>m. m\<lparr>uncommit_node_segs := []\<rparr>)) (\<lambda>_. ret r))"

definition get_and_clear_uncommit_data_segs :: "(meta, u32 list) prog" where
  "get_and_clear_uncommit_data_segs =
     bnd (reads uncommit_data_segs) (\<lambda>r. bnd (modify (\<lambda>m. m\<lparr>uncommit_data_segs := []\<rparr>)) (\<lambda>_. ret r))"

datatype lpa_alloc_type = Node_lpa | Data_lpa

text \<open>The context's references into the super block and the super manager.\<close>

record lpa_alloc_context =
  ctx_seg_id :: "hscfs_super_block \<Rightarrow> u32"
  ctx_set_seg_id :: "u32 \<Rightarrow> hscfs_super_block \<Rightarrow> hscfs_super_block"
  seg_id_addr_offset :: u32
  ctx_seg_off :: "hscfs_super_block \<Rightarrow> u32"
  ctx_set_seg_off :: "u32 \<Rightarrow> hscfs_super_block \<Rightarrow> hscfs_super_block"
  seg_off_addr_offset :: u32
  ctx_uncommit :: "u32 \<Rightarrow> meta \<Rightarrow> meta"

definition create_lpa_alloc_context :: "lpa_alloc_type \<Rightarrow> lpa_alloc_context" where
  "create_lpa_alloc_context t =
     (case t of
        Node_lpa \<Rightarrow>
          \<lparr>ctx_seg_id = current_node_segment_id,
           ctx_set_seg_id = (\<lambda>v s. s\<lparr>current_node_segment_id := v\<rparr>),
           seg_id_addr_offset = off_current_node_segment_id,
           ctx_seg_off = current_node_segment_blkoff,
           ctx_set_seg_off = (\<lambda>v s. s\<lparr>current_node_segment_blkoff := v\<rparr>),
           seg_off_addr_offset = off_current_node_segment_blkoff,
           ctx_uncommit = (\<lambda>i m. m\<lparr>uncommit_node_segs := uncommit_node_segs m @ [i]\<rparr>)\<rparr>
      | Data_lpa \<Rightarrow>
          \<lparr>ctx_seg_id = current_data_segment_id,
           ctx_set_seg_id = (\<lambda>v s. s\<lparr>current_data_segment_id := v\<rparr>),
           seg_id_addr_offset = off_current_data_segment_id,
           ctx_seg_off = current_data_segment_blkoff,
           ctx_set_seg_off = (\<lambda>v s. s\<lparr>current_data_segment_blkoff := v\<rparr>),
           seg_off_addr_offset = off_current_data_segment_blkoff,
           ctx_uncommit = (\<lambda>i m. m\<lparr>uncommit_data_segs := uncommit_data_segs m @ [i]\<rparr>)\<rparr>)"

definition alloc_lpa_inner :: "lpa_alloc_context \<Rightarrow> (meta, u32) prog" where
  "alloc_lpa_inner ctx =
     bnd (reads super_blk) (\<lambda>s.
     bnd (if ctx_seg_off ctx s = BLOCK_PER_SEGMENT
          then
            bnd (modify (ctx_uncommit ctx (ctx_seg_id ctx s))) (\<lambda>_.
            bnd alloc_segment (\<lambda>new_segid.
            bnd (upd_super (ctx_set_seg_id ctx new_segid)) (\<lambda>_.
            bnd (upd_super (ctx_set_seg_off ctx 0)) (\<lambda>_.
            append_super (seg_id_addr_offset ctx) new_segid))))
          else ret ()) (\<lambda>_.
     bnd (reads (\<lambda>m. get_first_lpa_of_segid (ctx_seg_id ctx (super_blk m)) m + ctx_seg_off ctx (super_blk m))) (\<lambda>lpa.
     bnd (upd_super (\<lambda>s. ctx_set_seg_off ctx (ctx_seg_off ctx s + 1) s)) (\<lambda>_.
     bnd (reads (\<lambda>m. ctx_seg_off ctx (super_blk m))) (\<lambda>off.
     bnd (append_super (seg_off_addr_offset ctx) off) (\<lambda>_.
     bnd (validate_lpa lpa) (\<lambda>_.
     ret lpa)))))))"

definition alloc_node_lpa :: "(meta, u32) prog" where
  "alloc_node_lpa = alloc_lpa_inner (create_lpa_alloc_context Node_lpa)"

definition alloc_data_lpa :: "(meta, u32) prog" where
  "alloc_data_lpa = alloc_lpa_inner (create_lpa_alloc_context Data_lpa)"

section \<open>The free list of node ids refines a list\<close>

fun nid_chain :: "(u32 \<rightharpoonup> hscfs_nat_entry) \<Rightarrow> u32 \<Rightarrow> u32 list \<Rightarrow> bool" where
  "nid_chain t head [] \<longleftrightarrow> head = INVALID_NID"
| "nid_chain t head (n # ns) \<longleftrightarrow>
     head = n \<and> n \<noteq> INVALID_NID \<and>
     (case t n of None \<Rightarrow> False | Some e \<Rightarrow> ne_ino e = 0 \<and> nid_chain t (ne_block_addr e) ns)"

definition free_nids :: "meta \<Rightarrow> u32 list \<Rightarrow> bool" where
  "free_nids m ns \<longleftrightarrow>
     nid_chain (nat_at m) (next_free_nid (super_blk m)) ns \<and> distinct ns \<and> (\<forall>n \<in> set ns. nid_in_range m n)"

lemma nid_chain_upd: "n \<notin> set ns \<Longrightarrow> nid_chain (t(n \<mapsto> e)) h ns = nid_chain t h ns"
  by (induction ns arbitrary: h) (auto split: option.splits)

text \<open>One update of a NAT entry, with its journal entry and host version, and one super block entry.\<close>

lemma meta_step_nat_update:
  assumes "meta_inv m" "sn_inv (nat_dev m) c"
    "tbl_at (sn_view (nat_dev m) c) (nat_blkaddr (super_blk m)) 512 = (nat_at m)(n \<mapsto> e')"
    "sn_refs c = (sn_refs (nat_cache m))(nat_blk m n := Suc (sn_refs (nat_cache m) (nat_blk m n)))"
    "s' = super_put off v (super_blk m)"
  shows "meta_step m [\<lparr>Off = off, newVal = v\<rparr>] [\<lparr>nid = n, nat_newValue = e'\<rparr>] []
    (m\<lparr>super_blk := s', nat_cache := c, cur_journal := (cur_journal m)\<lparr>
       super_block_journal := super_block_journal (cur_journal m) @ [\<lparr>Off = off, newVal = v\<rparr>],
       NAT_journal := NAT_journal (cur_journal m) @ [\<lparr>nid = n, nat_newValue = e'\<rparr>]\<rparr>\<rparr>)"
  using assms
  by (simp add: meta_step_def meta_inv_def journaled_def nat_at_tbl sit_at_tbl nat_versions_def
      sit_versions_def fun_eq_iff)

lemma nat_update_run:
  assumes "meta_inv m" "nat_at m n = Some e" "meta_room m"
  obtains c1 b b' c2 c3 where "sn_get (nat_dev m) (nat_blk m n) (nat_cache m) = Inr c1"
    "sn_deref (nat_blk m n) c1 = Inr b" "array_at b (unat (n mod 512)) = Inr e"
    "array_set b (unat (n mod 512)) e' = Inr b'"
    "sn_add_refcount (nat_blk m n) (sn_store (nat_blk m n) b' c1) = Inr c2"
    "sn_handle_dtor (Some (nat_blk m n)) c2 = Inr c3" "sn_inv (nat_dev m) c3"
    "tbl_at (sn_view (nat_dev m) c3) (nat_blkaddr (super_blk m)) 512 = (nat_at m)(n \<mapsto> e')"
    "sn_refs c3 = (sn_refs (nat_cache m))(nat_blk m n := Suc (sn_refs (nat_cache m) (nat_blk m n)))"
proof -
  have inv: "sn_inv (nat_dev m) (nat_cache m)" using assms(1) by (simp add: meta_inv_def)
  from tbl_update_through [OF inv assms(2) [unfolded nat_at_tbl] meta_roomD(1) [OF assms(3)], of e']
  show thesis using that unfolding nat_blk_def nat_at_tbl by blast
qed

lemma alloc_nid_ok:
  assumes "meta_inv m" "meta_room m" "free_nids m (n # ns)"
  shows "\<exists>nxt m'. let e' = \<lparr>ne_ino = (if b then n else ino), ne_block_addr = INVALID_LPA\<rparr> in
      alloc_nid ino b m = (Inr n, m') \<and>
      meta_step m [\<lparr>Off = off_next_free_nid, newVal = nxt\<rparr>] [\<lparr>nid = n, nat_newValue = e'\<rparr>] [] m' \<and>
      free_nids m' ns"
proof -
  let ?e' = "\<lparr>ne_ino = (if b then n else ino), ne_block_addr = INVALID_LPA\<rparr>"
  obtain e where e: "nat_at m n = Some e" "ne_ino e = 0" "nid_chain (nat_at m) (ne_block_addr e) ns"
      "next_free_nid (super_blk m) = n" "n \<noteq> 0" "nid_in_range m n" "n \<notin> set ns" "distinct ns"
      "\<forall>n \<in> set ns. nid_in_range m n"
    using assms(3) by (auto simp: free_nids_def split: option.splits)
  obtain c1 bb b' c2 c3 where c: "sn_get (nat_dev m) (nat_blk m n) (nat_cache m) = Inr c1"
    "sn_deref (nat_blk m n) c1 = Inr bb" "array_at bb (unat (n mod 512)) = Inr e"
    "array_set bb (unat (n mod 512)) ?e' = Inr b'"
    "sn_add_refcount (nat_blk m n) (sn_store (nat_blk m n) b' c1) = Inr c2"
    "sn_handle_dtor (Some (nat_blk m n)) c2 = Inr c3" "sn_inv (nat_dev m) c3"
    "tbl_at (sn_view (nat_dev m) c3) (nat_blkaddr (super_blk m)) 512 = (nat_at m)(n \<mapsto> ?e')"
    "sn_refs c3 = (sn_refs (nat_cache m))(nat_blk m n := Suc (sn_refs (nat_cache m) (nat_blk m n)))"
    using nat_update_run [OF assms(1) e(1) assms(2)] by metis
  define m' where "m' = m\<lparr>super_blk := super_put off_next_free_nid (ne_block_addr e) (super_blk m),
      nat_cache := c3, cur_journal := (cur_journal m)\<lparr>
       super_block_journal := super_block_journal (cur_journal m) @ [\<lparr>Off = off_next_free_nid, newVal = ne_block_addr e\<rparr>],
       NAT_journal := NAT_journal (cur_journal m) @ [\<lparr>nid = n, nat_newValue = ?e'\<rparr>]\<rparr>\<rparr>"
  have run: "alloc_nid ino b m = (Inr n, m')"
    using c(1-6) e get_nid_pos_ok [OF e(6)]
    by (cases b) (simp_all add: alloc_nid_def m'_def prog_simps meta_op_defs super_put_def Let_def)
  have step: "meta_step m [\<lparr>Off = off_next_free_nid, newVal = ne_block_addr e\<rparr>] [\<lparr>nid = n, nat_newValue = ?e'\<rparr>] [] m'"
    unfolding m'_def by (rule meta_step_nat_update [OF assms(1) c(7-9) refl])
  have "free_nids m' ns"
    using e meta_stepD(3,4) [OF step]
    by (simp add: free_nids_def nid_in_range_def nid_chain_upd super_put_def)
  with run step show ?thesis by (auto simp: Let_def)
qed

lemma free_nid_ok:
  assumes "meta_inv m" "meta_room m" "free_nids m ns" "nid_in_range m n" "n \<noteq> INVALID_NID" "n \<notin> set ns"
    "nat_at m n = Some e"
  shows "\<exists>m'. let e' = \<lparr>ne_ino = 0, ne_block_addr = next_free_nid (super_blk m)\<rparr> in
      free_nid n m = (Inr (), m') \<and>
      meta_step m [\<lparr>Off = off_next_free_nid, newVal = n\<rparr>] [\<lparr>nid = n, nat_newValue = e'\<rparr>] [] m' \<and>
      free_nids m' (n # ns)"
proof -
  let ?e' = "\<lparr>ne_ino = 0, ne_block_addr = next_free_nid (super_blk m)\<rparr>"
  obtain c1 bb b' c2 c3 where c: "sn_get (nat_dev m) (nat_blk m n) (nat_cache m) = Inr c1"
    "sn_deref (nat_blk m n) c1 = Inr bb" "array_at bb (unat (n mod 512)) = Inr e"
    "array_set bb (unat (n mod 512)) ?e' = Inr b'"
    "sn_add_refcount (nat_blk m n) (sn_store (nat_blk m n) b' c1) = Inr c2"
    "sn_handle_dtor (Some (nat_blk m n)) c2 = Inr c3" "sn_inv (nat_dev m) c3"
    "tbl_at (sn_view (nat_dev m) c3) (nat_blkaddr (super_blk m)) 512 = (nat_at m)(n \<mapsto> ?e')"
    "sn_refs c3 = (sn_refs (nat_cache m))(nat_blk m n := Suc (sn_refs (nat_cache m) (nat_blk m n)))"
    using nat_update_run [OF assms(1,7,2)] by metis
  define m' where "m' = m\<lparr>super_blk := super_put off_next_free_nid n (super_blk m),
      nat_cache := c3, cur_journal := (cur_journal m)\<lparr>
       super_block_journal := super_block_journal (cur_journal m) @ [\<lparr>Off = off_next_free_nid, newVal = n\<rparr>],
       NAT_journal := NAT_journal (cur_journal m) @ [\<lparr>nid = n, nat_newValue = ?e'\<rparr>]\<rparr>\<rparr>"
  have run: "free_nid n m = (Inr (), m')"
    using c(1-6) get_nid_pos_ok [OF assms(4)]
    by (simp add: free_nid_def m'_def prog_simps meta_op_defs super_put_def Let_def)
  have step: "meta_step m [\<lparr>Off = off_next_free_nid, newVal = n\<rparr>] [\<lparr>nid = n, nat_newValue = ?e'\<rparr>] [] m'"
    unfolding m'_def by (rule meta_step_nat_update [OF assms(1) c(7-9) refl])
  have "free_nids m' (n # ns)"
    using assms(3-6) meta_stepD(3,4) [OF step]
    by (simp add: free_nids_def nid_in_range_def nid_chain_upd super_put_def)
  with run step show ?thesis by (auto simp: Let_def)
qed

section \<open>Segments\<close>

text \<open>
  The free segments as a list: linked through the SIT entries, each with no valid block. The
  program ends the list by its length, not by a marker.
\<close>

fun seg_chain :: "(u32 \<rightharpoonup> hscfs_sit_entry) \<Rightarrow> u32 \<Rightarrow> u32 list \<Rightarrow> bool" where
  "seg_chain t head [] \<longleftrightarrow> True"
| "seg_chain t head (s # ss) \<longleftrightarrow>
     head = s \<and>
     (case t s of
        None \<Rightarrow> False
      | Some e \<Rightarrow> sit_wf e \<and> GET_SIT_VBLOCKS e = 0 \<and> valid_offs e = {} \<and> seg_chain t (GET_NEXT_SEG e) ss)"

definition seg_range :: "meta \<Rightarrow> u32 \<Rightarrow> bool" where
  "seg_range m s \<longleftrightarrow> seg_in_range m s \<and> s \<noteq> INVALID_SEGID \<and>
     unat (segment0_blkaddr (super_blk m)) + unat s * 512 + 512 \<le> 2 ^ 32"

text \<open>The blocks of an active segment from the allocation offset on are not valid.\<close>

definition active_ok :: "meta \<Rightarrow> u32 \<Rightarrow> u32 \<Rightarrow> bool" where
  "active_ok m seg off \<longleftrightarrow> off \<le> 512 \<and>
     (case sit_at m seg of
        None \<Rightarrow> False
      | Some e \<Rightarrow> sit_wf e \<and> (\<forall>o'. off \<le> o' \<longrightarrow> o' \<notin> valid_offs e))"

definition cur_seg :: "lpa_alloc_type \<Rightarrow> meta \<Rightarrow> u32" where
  "cur_seg t m = ctx_seg_id (create_lpa_alloc_context t) (super_blk m)"

definition cur_off :: "lpa_alloc_type \<Rightarrow> meta \<Rightarrow> u32" where
  "cur_off t m = ctx_seg_off (create_lpa_alloc_context t) (super_blk m)"

definition seg_inv :: "meta \<Rightarrow> u32 list \<Rightarrow> bool" where
  "seg_inv m fs \<longleftrightarrow>
     seg_chain (sit_at m) (first_free_segment_id (super_blk m)) fs \<and>
     unat (free_segment_count (super_blk m)) = length fs \<and>
     distinct (cur_seg Node_lpa m # cur_seg Data_lpa m # fs) \<and>
     (\<forall>s \<in> set (cur_seg Node_lpa m # cur_seg Data_lpa m # fs). seg_range m s) \<and>
     active_ok m (cur_seg Node_lpa m) (cur_off Node_lpa m) \<and>
     active_ok m (cur_seg Data_lpa m) (cur_off Data_lpa m)"

lemma seg_inv_cur:
  assumes "seg_inv m fs"
  shows "seg_range m (cur_seg t m)" "active_ok m (cur_seg t m) (cur_off t m)" "cur_seg t m \<notin> set fs"
  using assms by (cases t; auto simp: seg_inv_def)+

lemma seg_chain_upd: "s \<notin> set ss \<Longrightarrow> seg_chain (t(s \<mapsto> e)) h ss = seg_chain t h ss"
  by (induction ss arbitrary: h) (auto split: option.splits)

text \<open>The block handed out lies in the active segment at the allocation offset.\<close>

lemma alloc_pos:
  assumes "seg_range m s" "off < 512"
  defines "lpa \<equiv> get_first_lpa_of_segid s m + off"
  shows "lpa_seg m lpa = s" "lpa_off m lpa = off" "lpa \<noteq> INVALID_LPA"
proof -
  have u: "unat s * 512 + unat off < 2 ^ 32" "unat (segment0_blkaddr (super_blk m)) + (unat s * 512 + unat off) < 2 ^ 32"
    using assms(1,2) by (auto simp: seg_range_def word_less_nat_alt)
  have so: "unat (s * 512 + off) = unat s * 512 + unat off"
    using u(1) by (simp add: unat_word_ariths)
  have o: "unat off < 512" using assms(2) by (simp add: word_less_nat_alt)
  have "unat ((s * 512 + off) div 512) = unat s" "unat ((s * 512 + off) mod 512) = unat off"
    using o by (simp_all add: unat_div unat_mod so)
  then have dm: "(s * 512 + off) div 512 = s" "(s * 512 + off) mod 512 = off"
    by (simp_all add: word_unat_eq_iff)
  have l: "lpa = segment0_blkaddr (super_blk m) + (s * 512 + off)"
    by (simp add: lpa_def get_first_lpa_of_segid_def add.assoc)
  show "lpa_seg m lpa = s" "lpa_off m lpa = off"
    using dm by (simp_all add: l lpa_seg_def lpa_off_def get_seg_pos_of_lpa_def Let_def)
  have "unat lpa = unat (segment0_blkaddr (super_blk m)) + (unat s * 512 + unat off)"
    unfolding l using u(2) by (subst unat_word_ariths) (simp add: so)
  moreover have "unat s \<noteq> 0" using assms(1) by (simp add: seg_range_def unat_eq_zero)
  ultimately show "lpa \<noteq> INVALID_LPA" by auto
qed

lemma alloc_segment_ok:
  assumes "meta_inv m" "meta_room m" "seg_inv m (f # fs)"
  shows "\<exists>c e. let s' = (super_blk m)\<lparr>first_free_segment_id := GET_NEXT_SEG e,
           free_segment_count := free_segment_count (super_blk m) - 1\<rparr>;
         ds = [\<lparr>Off = off_first_free_segment_id, newVal = GET_NEXT_SEG e\<rparr>,
               \<lparr>Off = off_free_segment_count, newVal = free_segment_count (super_blk m) - 1\<rparr>];
         m' = m\<lparr>super_blk := s', sit_cache := c, cur_journal := (cur_journal m)\<lparr>
           super_block_journal := super_block_journal (cur_journal m) @ ds\<rparr>\<rparr> in
      alloc_segment m = (Inr f, m') \<and> sit_at m f = Some e \<and> meta_step m ds [] [] m'"
proof -
  have "unat (free_segment_count (super_blk m)) = Suc (length fs)"
    using assms(3) by (simp add: seg_inv_def)
  then have cnt: "free_segment_count (super_blk m) \<noteq> 0" by (metis nat.simps(3) unat_0)
  obtain e where e: "sit_at m f = Some e" "GET_SIT_VBLOCKS e = 0" "first_free_segment_id (super_blk m) = f"
      "seg_in_range m f"
    using assms(3) by (auto simp: seg_inv_def seg_range_def split: option.splits)
  have inv: "sn_inv (sit_dev m) (sit_cache m)" using assms(1) by (simp add: meta_inv_def)
  from tbl_read_through [OF inv e(1) [unfolded sit_at_tbl] meta_roomD(4) [OF assms(2)]]
  obtain c1 b c2 where c: "sn_get (sit_dev m) (sit_blk m f) (sit_cache m) = Inr c1" "sn_deref (sit_blk m f) c1 = Inr b"
    "array_at b (unat (f mod 60)) = Inr e" "sn_handle_dtor (Some (sit_blk m f)) c1 = Inr c2"
    "sn_inv (sit_dev m) c2" "sn_view (sit_dev m) c2 = sn_view (sit_dev m) (sit_cache m)"
    "sn_refs c2 = sn_refs (sit_cache m)"
    unfolding sit_blk_def by blast
  define ds where "ds = [\<lparr>Off = off_first_free_segment_id, newVal = GET_NEXT_SEG e\<rparr>,
               \<lparr>Off = off_free_segment_count, newVal = free_segment_count (super_blk m) - 1\<rparr>]"
  define m' where "m' = m\<lparr>super_blk := (super_blk m)\<lparr>first_free_segment_id := GET_NEXT_SEG e,
           free_segment_count := free_segment_count (super_blk m) - 1\<rparr>, sit_cache := c2, cur_journal := (cur_journal m)\<lparr>
           super_block_journal := super_block_journal (cur_journal m) @ ds\<rparr>\<rparr>"
  have "alloc_segment m = (Inr f, m')"
    using c(1-4) e cnt get_segid_pos_ok [OF e(4)]
    by (simp add: alloc_segment_def m'_def ds_def prog_simps meta_op_defs Let_def)
  moreover have "meta_step m ds [] [] m'"
    using assms(1) c(5-7)
    by (simp add: meta_step_def meta_inv_def journaled_def nat_at_tbl sit_at_tbl nat_versions_def
        sit_versions_def m'_def ds_def super_put_def)
  ultimately show ?thesis using e(1) by (auto simp: Let_def ds_def m'_def)
qed

lemma alloc_segment_none:
  "seg_inv m [] \<Longrightarrow> alloc_segment m = (Inl (Throw No_free_segment), m)"
  by (simp add: seg_inv_def alloc_segment_def prog_simps unat_eq_zero)

lemma ctx_simps [simp]:
  "ctx_seg_id (create_lpa_alloc_context t) (ctx_set_seg_off (create_lpa_alloc_context t) v s) =
     ctx_seg_id (create_lpa_alloc_context t) s"
  "ctx_seg_off (create_lpa_alloc_context t) (ctx_set_seg_off (create_lpa_alloc_context t) v s) = v"
  "ctx_seg_id (create_lpa_alloc_context t) (ctx_set_seg_id (create_lpa_alloc_context t) v s) = v"
  by (simp_all add: create_lpa_alloc_context_def split: lpa_alloc_type.splits)

lemma ctx_journal:
  "super_put (seg_off_addr_offset (create_lpa_alloc_context t)) v s = ctx_set_seg_off (create_lpa_alloc_context t) v s"
  "super_put (seg_id_addr_offset (create_lpa_alloc_context t)) v s = ctx_set_seg_id (create_lpa_alloc_context t) v s"
  by (simp_all add: create_lpa_alloc_context_def super_put_def split: lpa_alloc_type.splits)

text \<open>Room in the active segment: the next block of the segment is handed out and marked valid.\<close>

lemma alloc_lpa_room:
  assumes "meta_inv m" "meta_room m" "seg_inv m fs" "cur_off t m < 512"
  defines "lpa \<equiv> get_first_lpa_of_segid (cur_seg t m) m + cur_off t m"
  shows "\<exists>m' e e'. alloc_lpa_inner (create_lpa_alloc_context t) m = (Inr lpa, m') \<and>
      sit_at m (cur_seg t m) = Some e \<and> sit_wf e \<and> sit_entry_change (cur_off t m) True e = Inr e' \<and>
      meta_step m [\<lparr>Off = seg_off_addr_offset (create_lpa_alloc_context t), newVal = cur_off t m + 1\<rparr>] []
        [\<lparr>segID = cur_seg t m, sit_newValue = e'\<rparr>] m' \<and>
      uncommit_node_segs m' = uncommit_node_segs m \<and> uncommit_data_segs m' = uncommit_data_segs m"
proof -
  let ?ctx = "create_lpa_alloc_context t"
  let ?ds = "[\<lparr>Off = seg_off_addr_offset ?ctx, newVal = cur_off t m + 1\<rparr>]"
  obtain e where e: "sit_at m (cur_seg t m) = Some e" "sit_wf e" "cur_off t m \<notin> valid_offs e"
    using seg_inv_cur(2) [OF assms(3), of t] by (auto simp: active_ok_def split: option.splits)
  have "\<not> sit_bit e (cur_off t m)" using e(3) assms(4) by (simp add: valid_offs_def)
  then obtain e' where e': "sit_entry_change (cur_off t m) True e = Inr e'"
    by (simp add: sit_entry_change_val [OF e(2) assms(4)] Let_def)
  define m1 where "m1 = m\<lparr>super_blk := ctx_set_seg_off ?ctx (cur_off t m + 1) (super_blk m),
    cur_journal := append_super_block_journal_entry \<lparr>Off = seg_off_addr_offset ?ctx, newVal = cur_off t m + 1\<rparr> (cur_journal m)\<rparr>"
  have lay: "segment0_blkaddr (super_blk m1) = segment0_blkaddr (super_blk m)" "sit_blkaddr (super_blk m1) = sit_blkaddr (super_blk m)"
    "nat_blkaddr (super_blk m1) = nat_blkaddr (super_blk m)"
    unfolding m1_def ctx_journal(1) [symmetric] by simp_all
  have step1: "meta_step m ?ds [] [] m1"
    using assms(1) lay
    by (simp add: meta_step_def meta_inv_def journaled_def nat_at_tbl sit_at_tbl nat_versions_def
        sit_versions_def m1_def append_super_block_journal_entry_def ctx_journal)
  have pos: "lpa_seg m1 l = lpa_seg m l" "lpa_off m1 l = lpa_off m l" for l
    using lay by (simp_all add: lpa_seg_def lpa_off_def get_seg_pos_of_lpa_def)
  note p = alloc_pos [OF seg_inv_cur(1) [OF assms(3), of t] assms(4), folded lpa_def]
  have s1: "sit_at m1 (lpa_seg m1 lpa) = Some e" using meta_stepD(5) [OF step1] e(1) p(1) by (simp add: pos)
  have room: "Suc (Suc (sn_refs (sit_cache m1) (sit_blk m1 (lpa_seg m1 lpa)))) < 2 ^ 32"
  proof -
    have "sit_cache m1 = sit_cache m" by (simp add: m1_def)
    then show ?thesis using meta_roomD(2) [OF assms(2)] by metis
  qed
  have ch: "sit_entry_change (lpa_off m1 lpa) True e = Inr e'" using e' p(2) by (simp add: pos)
  obtain m' c where m': "change_lpa_state lpa True m1 = (Inr (), m')"
      "meta_step m1 [] [] [\<lparr>segID = cur_seg t m, sit_newValue = e'\<rparr>] m'"
      "m' = m1\<lparr>sit_cache := c, cur_journal := append_SIT_journal_entry \<lparr>segID = cur_seg t m, sit_newValue = e'\<rparr> (cur_journal m1)\<rparr>"
    using change_lpa_state_ok [OF meta_stepD(1) [OF step1] p(3) s1 ch room] p(1) pos by (auto simp: Let_def)
  have "ctx_seg_off ?ctx (super_blk m) \<noteq> 512" using assms(4) by (auto simp: cur_off_def)
  then have "alloc_lpa_inner ?ctx m = (Inr lpa, m')"
    using m'(1) by (simp add: alloc_lpa_inner_def prog_simps meta_op_defs validate_lpa_def m1_def lpa_def
        cur_seg_def cur_off_def append_super_block_journal_entry_def)
  moreover have "uncommit_node_segs m' = uncommit_node_segs m \<and> uncommit_data_segs m' = uncommit_data_segs m"
    by (simp add: m'(3) m1_def)
  ultimately show ?thesis using e e' meta_step_trans [OF step1 m'(2)] by auto
qed

lemma meta_step_range:
  assumes "meta_step m ds dn dt m'"
  shows "seg_range m' = seg_range m" "nid_in_range m' = nid_in_range m"
  using journaled_layout [OF meta_stepD(2) [OF assms]]
  by (simp_all add: seg_range_def seg_in_range_def nid_in_range_def fun_eq_iff)

lemma active_ok_other:
  "sit_at m' s = sit_at m s \<Longrightarrow> active_ok m' s off = active_ok m s off"
  by (simp add: active_ok_def)

lemma active_ok_next:
  assumes "active_ok m s off" "off < 512" "sit_at m s = Some e" "sit_entry_change off True e = Inr e'" "sit_at m' s = Some e'"
  shows "active_ok m' s (off + 1)"
proof -
  have e: "sit_wf e" "\<And>o'. off \<le> o' \<Longrightarrow> o' \<notin> valid_offs e"
    using assms(1,3) by (auto simp: active_ok_def)
  have p: "valid_map e' = sit_toggle off True e" "sit_wf e'"
    using sit_entry_change_props(2,3) [OF e(1) assms(2,4)] by simp_all
  have inc: "unat (off + 1) = Suc (unat off)"
    using assms(2) by (intro unat_u32_inc) auto
  have "o' \<notin> valid_offs e'" if "off + 1 \<le> o'" for o'
    using e(2) [of o'] that inc sit_toggle_offs [OF e(1) assms(2) p(1)]
    by (auto simp: word_le_nat_alt)
  moreover have "off + 1 \<le> 512" using assms(2) inc by (simp add: word_le_nat_alt word_less_nat_alt)
  ultimately show ?thesis using p(2) assms(5) by (simp add: active_ok_def)
qed

lemma ctx_super:
  assumes "super_blk m' = ctx_set_seg_off (create_lpa_alloc_context t) v (super_blk m)"
  shows "cur_seg t' m' = cur_seg t' m" "cur_off t' m' = (if t' = t then v else cur_off t' m)"
    "first_free_segment_id (super_blk m') = first_free_segment_id (super_blk m)"
    "free_segment_count (super_blk m') = free_segment_count (super_blk m)"
  using assms
  by (auto simp: cur_seg_def cur_off_def create_lpa_alloc_context_def split: lpa_alloc_type.splits)

lemma seg_inv_alloc:
  assumes "seg_inv m fs" "cur_off t m < 512" "sit_at m (cur_seg t m) = Some e"
    "sit_entry_change (cur_off t m) True e = Inr e'"
    "meta_step m [\<lparr>Off = seg_off_addr_offset (create_lpa_alloc_context t), newVal = cur_off t m + 1\<rparr>] []
        [\<lparr>segID = cur_seg t m, sit_newValue = e'\<rparr>] m'"
  shows "seg_inv m' fs"
proof -
  note sup = ctx_super [of m' t "cur_off t m + 1" m]
  have s: "super_blk m' = ctx_set_seg_off (create_lpa_alloc_context t) (cur_off t m + 1) (super_blk m)"
    using meta_stepD(3) [OF assms(5)] by (simp add: ctx_journal)
  have sit: "sit_at m' = (sit_at m)(cur_seg t m \<mapsto> e')"
    using meta_stepD(5) [OF assms(5)] by simp
  note inv = assms(1) [unfolded seg_inv_def]
  have ne: "cur_seg Node_lpa m \<noteq> cur_seg Data_lpa m" using inv by simp
  have "active_ok m' (cur_seg t' m) (cur_off t' m')" for t'
  proof (cases "t' = t")
    case True
    then show ?thesis
      using active_ok_next [OF seg_inv_cur(2) [OF assms(1)] assms(2-4), of m'] sit sup(2) [OF s] by simp
  next
    case False
    then have "cur_seg t' m \<noteq> cur_seg t m" using ne by (cases t; cases t'; auto)
    then show ?thesis
      using active_ok_other [of m' "cur_seg t' m" m] seg_inv_cur(2) [OF assms(1), of t'] sit sup(2) [OF s] False
      by simp
  qed
  then show ?thesis
    using inv seg_inv_cur(3) [OF assms(1), of t] sup [OF s] sit meta_step_range(1) [OF assms(5)]
    unfolding seg_inv_def by (simp add: seg_chain_upd)
qed

text \<open>The active segment is full: it joins the uncommitted list and a free segment takes its place.\<close>

lemma alloc_lpa_full_eq:
  assumes "cur_off t m = 512"
  shows "alloc_lpa_inner (create_lpa_alloc_context t) m =
    (case alloc_segment (ctx_uncommit (create_lpa_alloc_context t) (cur_seg t m) m) of
       (Inl f, m1) \<Rightarrow> (Inl f, m1)
     | (Inr s, m1) \<Rightarrow> alloc_lpa_inner (create_lpa_alloc_context t)
         (m1\<lparr>super_blk := ctx_set_seg_off (create_lpa_alloc_context t) 0
               (ctx_set_seg_id (create_lpa_alloc_context t) s (super_blk m1)),
             cur_journal := append_super_block_journal_entry
               \<lparr>Off = seg_id_addr_offset (create_lpa_alloc_context t), newVal = s\<rparr> (cur_journal m1)\<rparr>))"
  using assms
  by (auto simp: alloc_lpa_inner_def prog_simps meta_op_defs cur_seg_def cur_off_def Let_def
      split: prod.splits sum.splits)

lemma meta_step_reset_off:
  assumes "meta_step (m\<lparr>super_blk := ctx_set_seg_off (create_lpa_alloc_context t) v0 (super_blk m)\<rparr>)
      [\<lparr>Off = seg_off_addr_offset (create_lpa_alloc_context t), newVal = v\<rparr>] dn dt m'"
  shows "meta_step m [\<lparr>Off = seg_off_addr_offset (create_lpa_alloc_context t), newVal = v\<rparr>] dn dt m'"
proof -
  let ?c = "create_lpa_alloc_context t"
  have lay: "nat_blkaddr (ctx_set_seg_off ?c v' s) = nat_blkaddr s" "sit_blkaddr (ctx_set_seg_off ?c v' s) = sit_blkaddr s"
    "ctx_set_seg_off ?c v (ctx_set_seg_off ?c v' s) = ctx_set_seg_off ?c v s" for s v'
    by (simp_all add: create_lpa_alloc_context_def split: lpa_alloc_type.splits)
  show ?thesis
    using assms lay
    by (clarsimp simp: meta_step_def journaled_def nat_at_tbl sit_at_tbl nat_versions_def sit_versions_def
        nat_blk_def sit_blk_def ctx_journal)
qed

lemma meta_step_set_seg:
  assumes "meta_inv m"
  shows "meta_step m [\<lparr>Off = seg_id_addr_offset (create_lpa_alloc_context t), newVal = s\<rparr>] [] []
    (m\<lparr>super_blk := ctx_set_seg_id (create_lpa_alloc_context t) s (super_blk m),
       cur_journal := append_super_block_journal_entry
         \<lparr>Off = seg_id_addr_offset (create_lpa_alloc_context t), newVal = s\<rparr> (cur_journal m)\<rparr>)"
proof -
  have "nat_blkaddr (ctx_set_seg_id (create_lpa_alloc_context t) s x) = nat_blkaddr x"
    "sit_blkaddr (ctx_set_seg_id (create_lpa_alloc_context t) s x) = sit_blkaddr x" for x
    by (simp_all add: create_lpa_alloc_context_def split: lpa_alloc_type.splits)
  then show ?thesis
    using assms by (simp add: meta_step_def meta_inv_def journaled_def nat_at_tbl sit_at_tbl nat_versions_def
        sit_versions_def ctx_journal append_super_block_journal_entry_def)
qed

lemma uncommit_simps [simp]:
  "super_blk (ctx_uncommit (create_lpa_alloc_context t) i m) = super_blk m"
  "nat_cache (ctx_uncommit (create_lpa_alloc_context t) i m) = nat_cache m"
  "sit_cache (ctx_uncommit (create_lpa_alloc_context t) i m) = sit_cache m"
  "nat_dev (ctx_uncommit (create_lpa_alloc_context t) i m) = nat_dev m"
  "sit_dev (ctx_uncommit (create_lpa_alloc_context t) i m) = sit_dev m"
  "cur_journal (ctx_uncommit (create_lpa_alloc_context t) i m) = cur_journal m"
  by (simp_all add: create_lpa_alloc_context_def split: lpa_alloc_type.splits)

lemma meta_cong:
  assumes "super_blk m' = super_blk m" "nat_cache m' = nat_cache m" "sit_cache m' = sit_cache m"
    "nat_dev m' = nat_dev m" "sit_dev m' = sit_dev m"
  shows "nat_at m' = nat_at m" "sit_at m' = sit_at m" "meta_inv m' = meta_inv m" "meta_room m' = meta_room m"
    "seg_inv m' fs = seg_inv m fs" "cur_journal m' = cur_journal m \<Longrightarrow> meta_step m' ds dn dt m2 = meta_step m ds dn dt m2"
proof -
  show s: "nat_at m' = nat_at m" "sit_at m' = sit_at m" using assms by (simp_all add: nat_at_tbl sit_at_tbl)
  show "meta_inv m' = meta_inv m" "meta_room m' = meta_room m" using assms by (simp_all add: meta_inv_def meta_room_def)
  show "seg_inv m' fs = seg_inv m fs"
    using assms s by (simp add: seg_inv_def cur_seg_def cur_off_def active_ok_def seg_range_def seg_in_range_def)
  show "meta_step m' ds dn dt m2 = meta_step m ds dn dt m2" if "cur_journal m' = cur_journal m"
    using assms s that by (simp add: meta_step_def journaled_def nat_versions_def sit_versions_def nat_blk_def sit_blk_def)
qed

lemma seg_inv_new_segment:
  assumes "seg_inv m (f # fs)" "sit_at m f = Some e" "sit_at m2 = sit_at m"
    "super_blk m2 = ctx_set_seg_off (create_lpa_alloc_context t) 0 (ctx_set_seg_id (create_lpa_alloc_context t) f
       ((super_blk m)\<lparr>first_free_segment_id := GET_NEXT_SEG e, free_segment_count := free_segment_count (super_blk m) - 1\<rparr>))"
  shows "seg_inv m2 fs"
proof -
  note inv = assms(1) [unfolded seg_inv_def]
  have e: "sit_wf e" "valid_offs e = {}" "seg_chain (sit_at m) (GET_NEXT_SEG e) fs"
    using inv assms(2) by auto
  have cnt: "Suc (unat (free_segment_count (super_blk m) - 1)) = Suc (length fs)"
    using inv by (subst unat_u32_dec) auto
  have seg: "cur_seg t' m2 = (if t' = t then f else cur_seg t' m)" "cur_off t' m2 = (if t' = t then 0 else cur_off t' m)" for t'
    using assms(4) by (auto simp: cur_seg_def cur_off_def create_lpa_alloc_context_def split: lpa_alloc_type.splits)
  have sup: "first_free_segment_id (super_blk m2) = GET_NEXT_SEG e"
    "free_segment_count (super_blk m2) = free_segment_count (super_blk m) - 1"
    "segment0_blkaddr (super_blk m2) = segment0_blkaddr (super_blk m)"
    "segment_count_sit (super_blk m2) = segment_count_sit (super_blk m)"
    using assms(4) by (auto simp: create_lpa_alloc_context_def split: lpa_alloc_type.splits)
  have act: "active_ok m2 (cur_seg t' m2) (cur_off t' m2)" for t'
    using seg_inv_cur(2) [OF assms(1), of t'] e(1,2) assms(2,3)
    by (auto simp: seg active_ok_def)
  show ?thesis
    using act [of Node_lpa] act [of Data_lpa] inv e(3) cnt assms(3) sup unfolding seg_inv_def
    by (cases t) (auto simp: seg seg_range_def seg_in_range_def)
qed

lemma alloc_lpa_full:
  assumes "meta_inv m" "meta_room m" "seg_inv m (f # fs)" "cur_off t m = 512"
  defines "lpa \<equiv> get_first_lpa_of_segid f m"
  shows "\<exists>m' e e' ds. alloc_lpa_inner (create_lpa_alloc_context t) m = (Inr lpa, m') \<and> seg_inv m' fs \<and>
      sit_at m f = Some e \<and> sit_wf e \<and> sit_entry_change 0 True e = Inr e' \<and>
      meta_step m ds [] [\<lparr>segID = f, sit_newValue = e'\<rparr>] m' \<and>
      uncommit_node_segs m' = uncommit_node_segs m @ (if t = Node_lpa then [cur_seg t m] else []) \<and>
      uncommit_data_segs m' = uncommit_data_segs m @ (if t = Data_lpa then [cur_seg t m] else [])"
proof -
  let ?ctx = "create_lpa_alloc_context t"
  define m0 where "m0 = ctx_uncommit ?ctx (cur_seg t m) m"
  have unc: "uncommit_node_segs m0 = uncommit_node_segs m @ (if t = Node_lpa then [cur_seg t m] else [])"
    "uncommit_data_segs m0 = uncommit_data_segs m @ (if t = Data_lpa then [cur_seg t m] else [])"
    by (auto simp: m0_def create_lpa_alloc_context_def split: lpa_alloc_type.splits)
  note cong = meta_cong [of m0 m, unfolded m0_def, simplified, folded m0_def]
  have m0: "meta_inv m0" "meta_room m0" "seg_inv m0 (f # fs)" "sit_at m0 = sit_at m" "super_blk m0 = super_blk m"
    using cong assms(1-3) by (simp_all add: m0_def)
  obtain c e m1 ds1 where al: "alloc_segment m0 = (Inr f, m1)" "sit_at m0 f = Some e" "meta_step m0 ds1 [] [] m1"
      "m1 = m0\<lparr>super_blk := (super_blk m)\<lparr>first_free_segment_id := GET_NEXT_SEG e,
           free_segment_count := free_segment_count (super_blk m) - 1\<rparr>, sit_cache := c,
           cur_journal := (cur_journal m0)\<lparr>super_block_journal := super_block_journal (cur_journal m0) @ ds1\<rparr>\<rparr>"
    using alloc_segment_ok [OF m0(1-3)] m0(5) by (auto simp: Let_def)
  define m2 where "m2 = m1\<lparr>super_blk := ctx_set_seg_id ?ctx f (super_blk m1),
       cur_journal := append_super_block_journal_entry \<lparr>Off = seg_id_addr_offset ?ctx, newVal = f\<rparr> (cur_journal m1)\<rparr>"
  define m3 where "m3 = m2\<lparr>super_blk := ctx_set_seg_off ?ctx 0 (super_blk m2)\<rparr>"
  have step2: "meta_step m (ds1 @ [\<lparr>Off = seg_id_addr_offset ?ctx, newVal = f\<rparr>]) [] [] m2"
    using meta_step_trans [OF al(3) meta_step_set_seg [OF meta_stepD(1) [OF al(3)]]] cong(6)
    by (simp add: m2_def)
  have lay: "nat_blkaddr (super_blk m3) = nat_blkaddr (super_blk m2)" "sit_blkaddr (super_blk m3) = sit_blkaddr (super_blk m2)"
    by (simp_all add: m3_def create_lpa_alloc_context_def split: lpa_alloc_type.splits)
  have sit3: "sit_at m3 = sit_at m"
  proof -
    have "sit_at m3 = sit_at m2" using lay by (simp add: sit_at_tbl) (simp add: m3_def)
    then show ?thesis using meta_stepD(5) [OF step2] by simp
  qed
  have inv3: "meta_inv m3" "meta_room m3"
    using meta_stepD(1) [OF step2] assms(2) meta_stepD(8,9) [OF step2]
    by (simp_all add: m3_def meta_inv_def meta_room_def nat_versions_def sit_versions_def)
  have seg3: "seg_inv m3 fs"
    by (rule seg_inv_new_segment [OF m0(3) al(2), of _ t])
       (use sit3 m0(4,5) in \<open>simp_all add: m3_def m2_def al(4)\<close>)
  have cur3: "cur_off t m3 = 0" "cur_seg t m3 = f"
    by (simp_all add: cur_off_def cur_seg_def m3_def m2_def)
  have seg0: "segment0_blkaddr (super_blk m3) = segment0_blkaddr (super_blk m)"
    by (simp add: m3_def m2_def al(4) create_lpa_alloc_context_def split: lpa_alloc_type.splits)
  obtain m' e3 e' where m': "alloc_lpa_inner ?ctx m3 = (Inr lpa, m')" "sit_at m3 f = Some e3" "sit_wf e3"
      "sit_entry_change 0 True e3 = Inr e'"
      "meta_step m3 [\<lparr>Off = seg_off_addr_offset ?ctx, newVal = 1\<rparr>] [] [\<lparr>segID = f, sit_newValue = e'\<rparr>] m'"
      "uncommit_node_segs m' = uncommit_node_segs m3" "uncommit_data_segs m' = uncommit_data_segs m3"
    using alloc_lpa_room [OF inv3 seg3, of t] seg0
    by (auto simp: cur3 lpa_def get_first_lpa_of_segid_def)
  have "m3 = m1\<lparr>super_blk := ctx_set_seg_off ?ctx 0 (ctx_set_seg_id ?ctx f (super_blk m1)),
      cur_journal := append_super_block_journal_entry \<lparr>Off = seg_id_addr_offset ?ctx, newVal = f\<rparr> (cur_journal m1)\<rparr>"
    by (rule meta.equality) (simp_all add: m3_def m2_def)
  then have "alloc_lpa_inner ?ctx m = (Inr lpa, m')"
    using alloc_lpa_full_eq [OF assms(4)] al(1) m'(1) by (simp add: m0_def [symmetric])
  moreover have "seg_inv m' fs"
    using seg_inv_alloc [OF seg3, of t e3 e' m'] m' by (simp add: cur3)
  moreover have "meta_step m ((ds1 @ [\<lparr>Off = seg_id_addr_offset ?ctx, newVal = f\<rparr>]) @
      [\<lparr>Off = seg_off_addr_offset ?ctx, newVal = 1\<rparr>]) [] [\<lparr>segID = f, sit_newValue = e'\<rparr>] m'"
    using meta_step_trans [OF step2 meta_step_reset_off [OF m'(5) [unfolded m3_def]]] by simp
  moreover have "uncommit_node_segs m3 = uncommit_node_segs m0" "uncommit_data_segs m3 = uncommit_data_segs m0"
    by (simp_all add: m3_def m2_def al(4))
  ultimately show ?thesis using m' sit3 unc by metis
qed

section \<open>Linking full segments\<close>

lemma add_seg_to_list_effect:
  fixes get_head :: "hscfs_super_block \<Rightarrow> u32"
  assumes "meta_inv m" "meta_room m" "seg_in_range m s" "sit_at m s = Some e" "sn_refs (sit_cache m) (sit_blk m s) \<noteq> 0"
    "\<And>v x. sit_blkaddr (set_head v x) = sit_blkaddr x \<and> nat_blkaddr (set_head v x) = nat_blkaddr x"
  defines "e' \<equiv> SET_NEXT_SEG (get_head (super_blk m)) e"
  shows "\<exists>m'. add_seg_to_list s get_head set_head off m = (Inr (), m') \<and> meta_inv m' \<and>
      super_blk m' = set_head s (super_blk m) \<and> sit_at m' = (sit_at m)(s \<mapsto> e') \<and> nat_at m' = nat_at m \<and>
      cur_journal m' = (cur_journal m)\<lparr>
        super_block_journal := super_block_journal (cur_journal m) @ [\<lparr>Off = off, newVal = s\<rparr>],
        SIT_journal := SIT_journal (cur_journal m) @ [\<lparr>segID = s, sit_newValue = e'\<rparr>]\<rparr> \<and>
      sn_refs (sit_cache m') = sn_refs (sit_cache m) \<and> nat_cache m' = nat_cache m"
proof -
  let ?k = "sit_blk m s"
  have inv: "sn_inv (sit_dev m) (sit_cache m)" using assms(1) by (simp add: meta_inv_def)
  obtain b where b: "sn_view (sit_dev m) (sit_cache m) ?k = Some b" "unat (s mod 60) < length b" "b ! unat (s mod 60) = e"
    using assms(4) [unfolded sit_at_tbl] unfolding sit_blk_def by (rule tbl_at_Some)
  obtain c1 c2 where c: "sn_get (sit_dev m) ?k (sit_cache m) = Inr c1" "sn_deref ?k c1 = Inr b"
      "sn_sub_refcount ?k (sn_store ?k (b[unat (s mod 60) := e']) c1) = Inr c2" "sn_inv (sit_dev m) c2"
      "sn_view (sit_dev m) c2 = (sn_view (sit_dev m) (sit_cache m))(?k \<mapsto> b[unat (s mod 60) := e'])"
      "sn_refs c2 = sn_refs (sit_cache m)"
    using sn.write_through [OF inv b(1) assms(5) meta_roomD(4) [OF assms(2)]] by blast
  define m' where "m' = m\<lparr>super_blk := set_head s (super_blk m), sit_cache := c2,
    cur_journal := (cur_journal m)\<lparr>
        super_block_journal := super_block_journal (cur_journal m) @ [\<lparr>Off = off, newVal = s\<rparr>],
        SIT_journal := SIT_journal (cur_journal m) @ [\<lparr>segID = s, sit_newValue = e'\<rparr>]\<rparr>\<rparr>"
  have tbl: "tbl_at (sn_view (sit_dev m) c2) (sit_blkaddr (super_blk m)) 60 = (sit_at m)(s \<mapsto> e')"
    unfolding c(5) sit_at_tbl sit_blk_def using b(1,2) unfolding sit_blk_def by (rule tbl_at_upd)
  have "add_seg_to_list s get_head set_head off m = (Inr (), m')"
    using c(1,2) sn_handle_dtor_Inr [OF c(3)] b get_segid_pos_ok [OF assms(3)]
    by (simp add: add_seg_to_list_def m'_def e'_def prog_simps meta_op_defs array_at_def array_set_def Let_def)
  moreover have "meta_inv m'" using assms(1) c(4) by (simp add: meta_inv_def m'_def)
  moreover have "sit_at m' = (sit_at m)(s \<mapsto> e')" "nat_at m' = nat_at m"
    using tbl assms(6) by (simp_all add: sit_at_tbl nat_at_tbl m'_def)
  ultimately show ?thesis using c(6) by (simp add: m'_def)
qed

section \<open>The sample state\<close>

lemma sample_free_nids: "free_nids sample_meta [510, 511]"
  by (simp add: free_nids_def sample_super_def nid_in_range_def)

lemma sample_seg_inv: "seg_inv sample_meta [12]"
  by (simp add: seg_inv_def cur_seg_def cur_off_def create_lpa_alloc_context_def sample_super_def
      active_ok_def seg_range_def seg_in_range_def)

section \<open>Properties\<close>

text \<open>
  C1. The free list of node ids kept in the NAT behaves as a stack: \<open>alloc_nid\<close> on a
  non-empty list returns its head, sets the entry of the node to its owner with no block,
  leaves the rest as the free list, and journals exactly the changes it makes to the super
  block and the NAT, leaving one host version on the NAT block; on an empty list it throws
  \<^verbatim>\<open>no_free_nid\<close> and changes nothing.
\<close>

theorem alloc_nid_refines_pop:
  assumes "meta_inv m" "meta_room m" "free_nids m ns"
  shows "case ns of
      [] \<Rightarrow> alloc_nid ino is_inode m = (Inl (Throw No_free_nid), m)
    | n # rest \<Rightarrow> \<exists>nxt m'. alloc_nid ino is_inode m = (Inr n, m') \<and> free_nids m' rest \<and>
        nat_at m' = (nat_at m)(n \<mapsto> \<lparr>ne_ino = (if is_inode then n else ino), ne_block_addr = INVALID_LPA\<rparr>) \<and>
        meta_step m [\<lparr>Off = off_next_free_nid, newVal = nxt\<rparr>]
          [\<lparr>nid = n, nat_newValue = \<lparr>ne_ino = (if is_inode then n else ino), ne_block_addr = INVALID_LPA\<rparr>\<rparr>] [] m'"
proof (cases ns)
  case Nil
  with assms(3) have "next_free_nid (super_blk m) = INVALID_NID" by (simp add: free_nids_def)
  with Nil show ?thesis by (simp add: alloc_nid_def prog_simps)
next
  case (Cons n rest)
  obtain nxt m' where "alloc_nid ino is_inode m = (Inr n, m')" "free_nids m' rest"
    "meta_step m [\<lparr>Off = off_next_free_nid, newVal = nxt\<rparr>]
      [\<lparr>nid = n, nat_newValue = \<lparr>ne_ino = (if is_inode then n else ino), ne_block_addr = INVALID_LPA\<rparr>\<rparr>] [] m'"
    using alloc_nid_ok [OF assms(1,2)] assms(3) Cons by (metis (no_types, lifting))
  moreover from meta_stepD(4) [OF this(3)] have "nat_at m' = (nat_at m)(n \<mapsto> \<lparr>ne_ino = (if is_inode then n else ino), ne_block_addr = INVALID_LPA\<rparr>)"
    by simp
  ultimately show ?thesis using Cons by auto
qed

theorem alloc_nid_refines_pop_witness:
  "\<exists>m'. alloc_nid 7 False sample_meta = (Inr 510, m') \<and> free_nids m' [511]"
  using alloc_nid_refines_pop [OF sample_inv sample_free_nids, of 7 False] by auto

text \<open>
  \<open>free_nid\<close> pushes a node id that is not free onto the free list, journals exactly its
  changes, and the next \<open>alloc_nid\<close> hands the same id out again.
\<close>

theorem free_nid_then_alloc:
  assumes "meta_inv m" "meta_room m" "free_nids m ns" "nid_in_range m n" "n \<noteq> INVALID_NID" "n \<notin> set ns"
    "nat_at m n = Some e" "\<forall>k. sn_refs (nat_cache m) k + 3 < 2 ^ 32"
  shows "\<exists>m1 m2. free_nid n m = (Inr (), m1) \<and> free_nids m1 (n # ns) \<and>
    meta_step m [\<lparr>Off = off_next_free_nid, newVal = n\<rparr>]
      [\<lparr>nid = n, nat_newValue = \<lparr>ne_ino = 0, ne_block_addr = next_free_nid (super_blk m)\<rparr>\<rparr>] [] m1 \<and>
    alloc_nid ino is_inode m1 = (Inr n, m2) \<and> free_nids m2 ns"
proof -
  obtain m1 where m1: "free_nid n m = (Inr (), m1)" "free_nids m1 (n # ns)"
    "meta_step m [\<lparr>Off = off_next_free_nid, newVal = n\<rparr>]
      [\<lparr>nid = n, nat_newValue = \<lparr>ne_ino = 0, ne_block_addr = next_free_nid (super_blk m)\<rparr>\<rparr>] [] m1"
    using free_nid_ok [OF assms(1-7)] by (auto simp: Let_def)
  have "meta_room m1"
    using assms(2,8) meta_stepD(8,9) [OF m1(3)]
    by (simp add: meta_room_def nat_versions_def sit_versions_def)
  from alloc_nid_ok [OF meta_stepD(1) [OF m1(3)] this m1(2)] m1 show ?thesis
    by (auto simp: Let_def)
qed

theorem free_nid_then_alloc_witness:
  "\<exists>m1 m2. free_nid 7 sample_meta = (Inr (), m1) \<and> alloc_nid 9 False m1 = (Inr 7, m2)"
proof -
  have "nid_in_range sample_meta 7" by (simp add: nid_in_range_def sample_super_def)
  moreover have "\<forall>k. sn_refs (nat_cache sample_meta) k + 3 < 2 ^ 32" by (simp add: sample_meta_def)
  ultimately show ?thesis
    using free_nid_then_alloc [OF sample_inv sample_free_nids, of 7] by fastforce
qed

text \<open>
  C2. Block allocation. If the active segment has room or a free segment exists, the
  allocator returns a block that was not valid, marks exactly that block valid, keeps the
  invariant of the segments (taking the head of the free list when the active segment is
  full and recording the full one as uncommitted), and its changes to the super block and
  the SIT are exactly those it journals.
\<close>

theorem alloc_lpa_fresh:
  assumes "meta_inv m" "meta_room m" "seg_inv m fs" "cur_off t m < 512 \<or> fs \<noteq> []"
  shows "\<exists>lpa m' ds dt. alloc_lpa_inner (create_lpa_alloc_context t) m = (Inr lpa, m') \<and>
    lpa \<noteq> INVALID_LPA \<and> \<not> lpa_valid m lpa \<and> lpa_valid m' = (lpa_valid m)(lpa := True) \<and>
    seg_inv m' (if cur_off t m < 512 then fs else tl fs) \<and> meta_step m ds [] dt m' \<and>
    uncommit_node_segs m' = uncommit_node_segs m @
      (if t = Node_lpa \<and> \<not> cur_off t m < 512 then [cur_seg t m] else []) \<and>
    uncommit_data_segs m' = uncommit_data_segs m @
      (if t = Data_lpa \<and> \<not> cur_off t m < 512 then [cur_seg t m] else [])"
proof (cases "cur_off t m < 512")
  case True
  let ?lpa = "get_first_lpa_of_segid (cur_seg t m) m + cur_off t m"
  obtain m' e e' where m': "alloc_lpa_inner (create_lpa_alloc_context t) m = (Inr ?lpa, m')"
      "sit_at m (cur_seg t m) = Some e" "sit_wf e" "sit_entry_change (cur_off t m) True e = Inr e'"
      "meta_step m [\<lparr>Off = seg_off_addr_offset (create_lpa_alloc_context t), newVal = cur_off t m + 1\<rparr>] []
        [\<lparr>segID = cur_seg t m, sit_newValue = e'\<rparr>] m'"
      "uncommit_node_segs m' = uncommit_node_segs m" "uncommit_data_segs m' = uncommit_data_segs m"
    using alloc_lpa_room [OF assms(1-3) True] by auto
  note p = alloc_pos [OF seg_inv_cur(1) [OF assms(3), of t] True]
  have "lpa_valid m' = (lpa_valid m)(?lpa := True)" "lpa_valid m ?lpa \<noteq> True"
    using lpa_valid_change [of m _ "[]" ?lpa e' m' e True] meta_stepD(2) [OF m'(5)] m'(2-4) p by auto
  with m' p(3) seg_inv_alloc [OF assms(3) True m'(2,4,5)] True show ?thesis by auto
next
  case False
  have full: "cur_off t m = 512"
    using False seg_inv_cur(2) [OF assms(3), of t] by (simp add: active_ok_def)
  obtain f fs' where fs: "fs = f # fs'" using assms(4) False by (cases fs) auto
  let ?lpa = "get_first_lpa_of_segid f m"
  have f: "seg_range m f" using assms(3) fs by (simp add: seg_inv_def)
  obtain m' e e' ds where m': "alloc_lpa_inner (create_lpa_alloc_context t) m = (Inr ?lpa, m')" "seg_inv m' fs'"
      "sit_at m f = Some e" "sit_wf e" "sit_entry_change 0 True e = Inr e'"
      "meta_step m ds [] [\<lparr>segID = f, sit_newValue = e'\<rparr>] m'"
      "uncommit_node_segs m' = uncommit_node_segs m @ (if t = Node_lpa then [cur_seg t m] else [])"
      "uncommit_data_segs m' = uncommit_data_segs m @ (if t = Data_lpa then [cur_seg t m] else [])"
    using alloc_lpa_full [OF assms(1,2) _ full] assms(3) fs by blast
  have p: "lpa_seg m ?lpa = f" "lpa_off m ?lpa = 0" "?lpa \<noteq> INVALID_LPA"
    using alloc_pos [OF f, of 0] by simp_all
  have "lpa_valid m' = (lpa_valid m)(?lpa := True)" "lpa_valid m ?lpa \<noteq> True"
    using lpa_valid_change [of m ds "[]" ?lpa e' m' e True] meta_stepD(2) [OF m'(6)] m'(3-5) p by auto
  with m' p(3) False fs show ?thesis by auto
qed

theorem alloc_lpa_fresh_witness:
  "\<exists>lpa m'. alloc_lpa_inner (create_lpa_alloc_context Node_lpa) sample_meta = (Inr lpa, m') \<and>
     lpa_valid m' lpa \<and> uncommit_node_segs m' = [10]"
proof -
  have "\<not> cur_off Node_lpa sample_meta < 512" "cur_seg Node_lpa sample_meta = 10"
    "uncommit_node_segs sample_meta = []"
    by (simp_all add: cur_off_def cur_seg_def create_lpa_alloc_context_def sample_super_def sample_meta_def)
  then show ?thesis
    using alloc_lpa_fresh [OF sample_inv sample_seg_inv, of Node_lpa] by auto
qed

text \<open>
  When the active segment is full and no segment is free, the allocator throws
  \<^verbatim>\<open>no_free_segment\<close>; the full segment is then already on the uncommitted list although it
  is still the active one.
\<close>

theorem alloc_lpa_out_of_segments:
  assumes "seg_inv m []" "cur_off t m = BLOCK_PER_SEGMENT"
  shows "alloc_lpa_inner (create_lpa_alloc_context t) m =
    (Inl (Throw No_free_segment), ctx_uncommit (create_lpa_alloc_context t) (cur_seg t m) m)"
proof -
  let ?m = "ctx_uncommit (create_lpa_alloc_context t) (cur_seg t m) m"
  have "seg_inv ?m []" using assms(1) meta_cong(5) [of ?m m] by simp
  then show ?thesis
    using alloc_lpa_full_eq [OF assms(2)] by (simp add: alloc_segment_none)
qed

theorem alloc_lpa_out_of_segments_witness:
  "\<exists>m. seg_inv m [] \<and> alloc_lpa_inner (create_lpa_alloc_context Node_lpa) m =
     (Inl (Throw No_free_segment), m\<lparr>uncommit_node_segs := [10]\<rparr>)"
proof -
  define mm where "mm = sample_meta\<lparr>super_blk := sample_super\<lparr>free_segment_count := 0\<rparr>\<rparr>"
  have sit: "sit_at mm s = Some sample_sit_entry" for s
    using sample_sit_at [of s] by (simp add: mm_def sit_at_tbl sample_super_def sample_meta_def)
  have sup: "super_blk mm = sample_super\<lparr>free_segment_count := 0\<rparr>" by (simp add: mm_def)
  have "seg_inv mm []"
    by (simp add: seg_inv_def cur_seg_def cur_off_def create_lpa_alloc_context_def sample_super_def
      active_ok_def seg_range_def seg_in_range_def sit sup)
  moreover have "cur_off Node_lpa mm = 512" "cur_seg Node_lpa mm = 10"
    by (simp_all add: cur_off_def cur_seg_def create_lpa_alloc_context_def sample_super_def sup)
  ultimately show ?thesis
    using alloc_lpa_out_of_segments [of mm Node_lpa]
    by (intro exI [of _ mm]) (simp add: create_lpa_alloc_context_def mm_def sample_meta_def)
qed

end
