(* ===== verification/Node_Tree.thy ===== *)
theory Node_Tree
  imports FS_Layout
begin

text \<open>
  The index tree of a file: the node blocks of \<^verbatim>\<open>inc/fs/fs.h\<close> and the static helpers of
  \<^verbatim>\<open>src/fs/file_utils.cc\<close>. A node block is 1020 words and a footer; an inode is the same words
  read through the layout of \<^verbatim>\<open>struct hscfs_inode\<close>, as the union of the program does. A block
  number has one path in the tree, each path belongs to one block number, and the number a
  path gives to a node identifies the node.
\<close>

section \<open>Node blocks\<close>

record hscfs_node =
  node_words :: "u32 list"
  f_nid :: u32
  f_ino :: u32
  f_offset :: u32

abbreviation DEF_ADDRS_PER_INODE :: nat where "DEF_ADDRS_PER_INODE \<equiv> 932"
abbreviation DEF_ADDRS_PER_BLOCK :: nat where "DEF_ADDRS_PER_BLOCK \<equiv> 1020"
abbreviation NIDS_PER_BLOCK :: nat where "NIDS_PER_BLOCK \<equiv> 1020"
abbreviation NODE_DIR1_BLOCK :: nat where "NODE_DIR1_BLOCK \<equiv> 933"
abbreviation NODE_DIR2_BLOCK :: nat where "NODE_DIR2_BLOCK \<equiv> 934"
abbreviation NODE_IND1_BLOCK :: nat where "NODE_IND1_BLOCK \<equiv> 935"
abbreviation NODE_IND2_BLOCK :: nat where "NODE_IND2_BLOCK \<equiv> 936"
abbreviation NODE_DIND_BLOCK :: nat where "NODE_DIND_BLOCK \<equiv> 937"

text \<open>A block buffer fresh from the allocator is zero.\<close>

definition zero_node :: hscfs_node where
  "zero_node = \<lparr>node_words = replicate 1020 0, f_nid = 0, f_ino = 0, f_offset = 0\<rparr>"

text \<open>The word positions of the inode's fields; the 64-bit ones take two words, low word first.\<close>

definition wd :: "nat \<Rightarrow> hscfs_node \<Rightarrow> u32" where
  "wd k n = node_words n ! k"

definition set_wd :: "nat \<Rightarrow> u32 \<Rightarrow> hscfs_node \<Rightarrow> hscfs_node" where
  "set_wd k v n = n\<lparr>node_words := (node_words n)[k := v]\<rparr>"

definition wd64 :: "nat \<Rightarrow> hscfs_node \<Rightarrow> u64" where
  "wd64 k n = word_of_nat (unat (wd k n) + 2 ^ 32 * unat (wd (k + 1) n))"

definition set_wd64 :: "nat \<Rightarrow> u64 \<Rightarrow> hscfs_node \<Rightarrow> hscfs_node" where
  "set_wd64 k v n = set_wd (k + 1) (word_of_nat (unat v div 2 ^ 32)) (set_wd k (word_of_nat (unat v mod 2 ^ 32)) n)"

definition i_type :: "hscfs_node \<Rightarrow> u32" where "i_type = wd 1"
definition i_nlink :: "hscfs_node \<Rightarrow> u32" where "i_nlink = wd 2"
definition i_size :: "hscfs_node \<Rightarrow> u64" where "i_size = wd64 6"
definition i_dentry_num :: "hscfs_node \<Rightarrow> u64" where "i_dentry_num = wd64 12"
definition i_current_depth :: "hscfs_node \<Rightarrow> u32" where "i_current_depth = wd 16"
text \<open>The last byte of the 256 that hold the name, in the top byte of its word.\<close>

definition i_dir_level :: "hscfs_node \<Rightarrow> u8" where "i_dir_level n = ucast (drop_bit 24 (wd 82 n))"
definition i_addr :: "nat \<Rightarrow> hscfs_node \<Rightarrow> u32" where "i_addr k = wd (83 + k)"
definition i_nid :: "nat \<Rightarrow> hscfs_node \<Rightarrow> u32" where "i_nid k = wd (1015 + k)"

definition node_ok :: "hscfs_node \<Rightarrow> bool" where
  "node_ok n \<longleftrightarrow> length (node_words n) = 1020"

section \<open>Paths\<close>

text \<open>
  The level, the offsets inside the nodes of the path and the numbers of these nodes;
  \<open>None\<close> is the result -1. Only the entries the function writes are listed.
\<close>

definition get_node_path :: "nat \<Rightarrow> (nat \<times> nat list \<times> nat list) option" where
  "get_node_path block =
     (let direct_index = DEF_ADDRS_PER_INODE;
          direct_blks = DEF_ADDRS_PER_BLOCK;
          dptrs_per_blk = NIDS_PER_BLOCK;
          indirect_blks = DEF_ADDRS_PER_BLOCK * NIDS_PER_BLOCK;
          dindirect_blks = indirect_blks * NIDS_PER_BLOCK in
      if block < direct_index then Some (0, [block], [0]) else
      let block = block - direct_index in
      if block < direct_blks then Some (1, [NODE_DIR1_BLOCK, block], [0, 1]) else
      let block = block - direct_blks in
      if block < direct_blks then Some (1, [NODE_DIR2_BLOCK, block], [0, 2]) else
      let block = block - direct_blks in
      if block < indirect_blks then
        (let o1 = block div direct_blks in
         Some (2, [NODE_IND1_BLOCK, o1, block mod direct_blks], [0, 3, 4 + o1])) else
      let block = block - indirect_blks in
      if block < indirect_blks then
        (let o1 = block div direct_blks in
         Some (2, [NODE_IND2_BLOCK, o1, block mod direct_blks],
               [0, 4 + dptrs_per_blk, 5 + dptrs_per_blk + o1])) else
      let block = block - indirect_blks in
      if block < dindirect_blks then
        (let o1 = block div indirect_blks;
             o2 = (block div direct_blks) mod dptrs_per_blk in
         Some (3, [NODE_DIND_BLOCK, o1, o2, block mod direct_blks],
               [0, 5 + dptrs_per_blk * 2, 6 + dptrs_per_blk * 2 + o1 * (dptrs_per_blk + 1),
                7 + dptrs_per_blk * 2 + o1 * (dptrs_per_blk + 1) + o2]))
      else None)"

text \<open>Following and changing the pointers of a node. The array bounds are those of the structs.\<close>

definition get_next_nid :: "hscfs_node \<Rightarrow> nat \<Rightarrow> nat \<Rightarrow> fault + u32" where
  "get_next_nid node offset cur_level =
     (if cur_level = 0 then
        (if NODE_DIR1_BLOCK \<le> offset \<and> offset - NODE_DIR1_BLOCK < 5
         then Inr (i_nid (offset - NODE_DIR1_BLOCK) node) else Inl Undefined)
      else if offset < NIDS_PER_BLOCK then Inr (wd offset node) else Inl Undefined)"

definition set_next_nid :: "hscfs_node \<Rightarrow> nat \<Rightarrow> nat \<Rightarrow> u32 \<Rightarrow> fault + hscfs_node" where
  "set_next_nid node offset cur_level nxt_nid =
     (if cur_level = 0 then
        (if NODE_DIR1_BLOCK \<le> offset \<and> offset - NODE_DIR1_BLOCK < 5
         then Inr (set_wd (1015 + (offset - NODE_DIR1_BLOCK)) nxt_nid node) else Inl Undefined)
      else if offset < NIDS_PER_BLOCK then Inr (set_wd offset nxt_nid node) else Inl Undefined)"

definition get_lpa :: "hscfs_node \<Rightarrow> nat \<Rightarrow> nat \<Rightarrow> fault + u32" where
  "get_lpa node offset level =
     (if level = 0 then
        (if offset < DEF_ADDRS_PER_INODE then Inr (i_addr offset node) else Inl Assert_failed)
      else if offset < DEF_ADDRS_PER_BLOCK then Inr (wd offset node) else Inl Assert_failed)"

definition set_lpa :: "hscfs_node \<Rightarrow> nat \<Rightarrow> nat \<Rightarrow> u32 \<Rightarrow> fault + hscfs_node" where
  "set_lpa node offset level lpa =
     (if level = 0 then
        (if offset < DEF_ADDRS_PER_INODE then Inr (set_wd (83 + offset) lpa node) else Inl Assert_failed)
      else if offset < DEF_ADDRS_PER_BLOCK then Inr (set_wd offset lpa node) else Inl Assert_failed)"

abbreviation single_node_blks :: nat where "single_node_blks \<equiv> 1020"
abbreviation double_node_blks :: nat where "double_node_blks \<equiv> 1040400"
abbreviation triple_node_blks :: nat where "triple_node_blks \<equiv> 1061208000"

definition max_blkno_limit :: nat where
  "max_blkno_limit = DEF_ADDRS_PER_INODE + 2 * single_node_blks + 2 * double_node_blks + triple_node_blks"

section \<open>A path belongs to one block number\<close>

text \<open>The paths there are, and the block number of a path.\<close>

fun valid_path :: "nat list \<Rightarrow> bool" where
  "valid_path [a] \<longleftrightarrow> a < 932"
| "valid_path [a, b] \<longleftrightarrow> (a = 933 \<or> a = 934) \<and> b < 1020"
| "valid_path [a, b, c] \<longleftrightarrow> (a = 935 \<or> a = 936) \<and> b < 1020 \<and> c < 1020"
| "valid_path [a, b, c, d] \<longleftrightarrow> a = 937 \<and> b < 1020 \<and> c < 1020 \<and> d < 1020"
| "valid_path _ \<longleftrightarrow> False"

fun path_block :: "nat list \<Rightarrow> nat" where
  "path_block [a] = a"
| "path_block [a, b] = 932 + (a - 933) * 1020 + b"
| "path_block [a, b, c] = 2972 + (a - 935) * 1040400 + b * 1020 + c"
| "path_block [a, b, c, d] = 2083772 + b * 1040400 + c * 1020 + d"
| "path_block _ = 0"

text \<open>The number of the node reached by the first offsets of a path.\<close>

fun node_number :: "nat list \<Rightarrow> nat" where
  "node_number [] = 0"
| "node_number [a] = (if a = 933 then 1 else if a = 934 then 2 else if a = 935 then 3 else if a = 936 then 1024 else 2045)"
| "node_number [a, b] = (if a = 935 then 4 + b else if a = 936 then 1025 + b else 2046 + b * 1021)"
| "node_number (a # b # c # _) = 2047 + b * 1021 + c"

text \<open>The path as a function of the offsets.\<close>

definition path_of :: "nat list \<Rightarrow> nat \<times> nat list \<times> nat list" where
  "path_of offs = (length offs - 1, offs, map (\<lambda>k. node_number (take k offs)) [0..<length offs])"

lemma valid_path_shapes:
  assumes "valid_path offs"
  obtains a where "offs = [a]" "a < 932"
    | a b where "offs = [a, b]" "a = 933 \<or> a = 934" "b < 1020"
    | a b c where "offs = [a, b, c]" "a = 935 \<or> a = 936" "b < 1020" "c < 1020"
    | b c d where "offs = [937, b, c, d]" "b < 1020" "c < 1020" "d < 1020"
  using assms by (cases offs rule: valid_path.cases) auto

lemma get_node_path_of:
  assumes "valid_path offs"
  shows "get_node_path (path_block offs) = Some (path_of offs)"
proof -
  show ?thesis
  using assms proof (cases rule: valid_path_shapes)
    case 1
    then show ?thesis by (simp add: get_node_path_def path_of_def)
  next
    case 2
    then show ?thesis by (auto simp: get_node_path_def path_of_def)
  next
    case (3 a b c)
    then have "b * 1020 + c < 1040400" by linarith
    with 3 show ?thesis by (auto simp: get_node_path_def path_of_def upt_rec)
  next
    case (4 b c d)
    have lt: "c * 1020 + d < 1040400" "b * 1040400 + c * 1020 + d < 1061208000" using 4 by linarith+
    have "b * 1040400 + c * 1020 + d = (c * 1020 + d) + b * 1040400"
      "b * 1040400 + c * 1020 + d = d + (b * 1020 + c) * 1020" by simp_all
    then have dd: "(b * 1040400 + c * 1020 + d) div 1040400 = b" "(b * 1040400 + c * 1020 + d) div 1020 = b * 1020 + c"
      "(b * 1040400 + c * 1020 + d) mod 1020 = d"
      using lt(1) 4(4) by (metis div_mult_self1 div_less add_0_right zero_neq_numeral add.left_neutral add.commute
          mod_mult_self1 mod_less)+
    show ?thesis using 4 lt dd by (simp add: get_node_path_def path_of_def upt_rec Let_def add.assoc)
  qed
qed

lemma path_block_bounds: "valid_path offs \<Longrightarrow> path_block offs < max_blkno_limit"
  by (cases offs rule: valid_path.cases) (auto simp: max_blkno_limit_def)

lemma path_exists:
  assumes "block < max_blkno_limit"
  shows "\<exists>offs. valid_path offs \<and> path_block offs = block"
proof -
  have dm: "x = x div 1020 * 1020 + x mod 1020" "x mod 1020 < 1020" for x :: nat by simp_all
  consider "block < 932" | "932 \<le> block" "block < 1952" | "1952 \<le> block" "block < 2972"
    | "2972 \<le> block" "block < 1043372" | "1043372 \<le> block" "block < 2083772" | "2083772 \<le> block"
    by linarith
  then show ?thesis
  proof cases
    case 1
    then show ?thesis by (intro exI [of _ "[block]"]) simp
  next
    case 2
    then show ?thesis by (intro exI [of _ "[933, block - 932]"]) simp
  next
    case 3
    then show ?thesis by (intro exI [of _ "[934, block - 1952]"]) simp
  next
    case 4
    then show ?thesis
      by (intro exI [of _ "[935, (block - 2972) div 1020, (block - 2972) mod 1020]"])
         (simp add: less_mult_imp_div_less)
  next
    case 5
    then show ?thesis
      by (intro exI [of _ "[936, (block - 1043372) div 1020, (block - 1043372) mod 1020]"])
         (simp add: less_mult_imp_div_less)
  next
    case 6
    let ?b = "block - 2083772"
    have lt: "?b < 1061208000" using assms 6 by (simp add: max_blkno_limit_def)
    obtain q1 q2 q3 where "?b = q1 * 1040400 + q2 * 1020 + q3" "q1 < 1020" "q2 < 1020" "q3 < 1020"
    proof
      show "?b div 1020 div 1020 < 1020" using lt by (simp add: less_mult_imp_div_less)
      show "?b = ?b div 1020 div 1020 * 1040400 + ?b div 1020 mod 1020 * 1020 + ?b mod 1020"
        using dm(1) [of ?b] dm(1) [of "?b div 1020"] by linarith
    qed simp_all
    then show ?thesis using 6 by (intro exI [of _ "[937, q1, q2, q3]"]) simp
  qed
qed

lemma get_node_path_None: "\<not> block < max_blkno_limit \<Longrightarrow> get_node_path block = None"
  by (simp add: get_node_path_def max_blkno_limit_def Let_def; linarith)

lemma get_node_path_iff:
  "get_node_path block = Some p \<longleftrightarrow> (\<exists>offs. valid_path offs \<and> path_block offs = block \<and> p = path_of offs)"
proof
  assume p: "get_node_path block = Some p"
  then have "block < max_blkno_limit" using get_node_path_None by fastforce
  with path_exists obtain offs where "valid_path offs" "path_block offs = block" by blast
  with get_node_path_of p show "\<exists>offs. valid_path offs \<and> path_block offs = block \<and> p = path_of offs" by fastforce
qed (use get_node_path_of in blast)

text \<open>The prefixes of paths that lead to a node.\<close>

lemma prefix_shape:
  assumes "valid_path offs" "k < length offs"
  shows "take k offs = [] \<or> (\<exists>a. take k offs = [a] \<and> 933 \<le> a \<and> a \<le> 937) \<or>
    (\<exists>a b. take k offs = [a, b] \<and> 935 \<le> a \<and> a \<le> 937 \<and> b < 1020) \<or>
    (\<exists>b c. take k offs = [937, b, c] \<and> b < 1020 \<and> c < 1020)"
  using assms(1) by (cases rule: valid_path_shapes) (use assms(2) in \<open>auto simp: take_Cons split: nat.splits\<close>)

text \<open>Reading a node number back.\<close>

definition number_node :: "nat \<Rightarrow> nat list" where
  "number_node n =
     (if n = 0 then [] else if n \<le> 2 then [932 + n] else if n = 3 then [935]
      else if n < 1024 then [935, n - 4] else if n = 1024 then [936]
      else if n < 2045 then [936, n - 1025] else if n = 2045 then [937]
      else if (n - 2046) mod 1021 = 0 then [937, (n - 2046) div 1021]
      else [937, (n - 2046) div 1021, (n - 2046) mod 1021 - 1])"

lemma number_node_inverse:
  assumes "valid_path offs" "k < length offs"
  shows "number_node (node_number (take k offs)) = take k offs"
proof -
  have le: "a = 933 \<or> a = 934 \<or> a = 935 \<or> a = 936 \<or> a = 937" if "933 \<le> a" "a \<le> 937" for a :: nat
    using that by linarith
  show ?thesis
    using prefix_shape [OF assms]
  proof (elim disjE exE conjE)
    assume "take k offs = []"
    then show ?thesis by (simp only: node_number.simps) (simp add: number_node_def)
  next
    fix a assume *: "take k offs = [a]" "933 \<le> a" "a \<le> 937"
    show ?thesis unfolding *(1) using le [OF *(2,3)] by (auto simp: number_node_def)
  next
    fix a b assume *: "take k offs = [a, b]" "935 \<le> a" "a \<le> 937" "b < 1020"
    then have "a = 935 \<or> a = 936 \<or> a = 937" by linarith
    then show ?thesis unfolding *(1) using *(4) by (auto simp: number_node_def)
  next
    fix b c assume *: "take k offs = [937, b, c]" "b < 1020" "c < 1020"
    have "(b * 1021 + (c + 1)) div 1021 = b" "(b * 1021 + (c + 1)) mod 1021 = c + 1" using *(3) by simp_all
    then show ?thesis unfolding *(1) by (simp add: number_node_def)
  qed
qed

lemma node_number_inj:
  assumes "valid_path x" "i < length x" "valid_path y" "j < length y"
    and "node_number (take i x) = node_number (take j y)"
  shows "take i x = take j y"
proof -
  have "number_node (node_number (take i x)) = number_node (node_number (take j y))" by (simp only: assms(5))
  then show ?thesis by (simp only: number_node_inverse assms(1-4))
qed

section \<open>Reading and writing words\<close>

lemma wd_set_wd [simp]: "node_ok n \<Longrightarrow> k < 1020 \<Longrightarrow> wd j (set_wd k v n) = (if j = k then v else wd j n)"
  by (auto simp: wd_def set_wd_def node_ok_def)

lemma set_wd_footer [simp]:
  "f_nid (set_wd k v n) = f_nid n" "f_ino (set_wd k v n) = f_ino n" "f_offset (set_wd k v n) = f_offset n"
  "node_ok (set_wd k v n) = node_ok n"
  by (simp_all add: set_wd_def node_ok_def)

lemma wd64_set_wd64 [simp]:
  assumes "node_ok n" "k + 1 < 1020"
  shows "wd64 k (set_wd64 k v n) = v"
proof -
  have u: "unat v < 2 ^ 64" using unsigned_less [of v] by simp
  have "unat v div 2 ^ 32 < 2 ^ 32" using u by (simp add: less_mult_imp_div_less)
  then have "unat (word_of_nat (unat v div 2 ^ 32) :: u32) = unat v div 2 ^ 32"
    "unat (word_of_nat (unat v mod 2 ^ 32) :: u32) = unat v mod 2 ^ 32"
    by (simp_all add: unat_of_nat take_bit_nat_eq_self_iff unsigned_of_nat)
  moreover have "unat v mod 2 ^ 32 + 2 ^ 32 * (unat v div 2 ^ 32) = unat v" by simp
  ultimately show ?thesis using assms by (simp add: wd64_def set_wd64_def)
qed

section \<open>Properties\<close>

text \<open>
  C29. Paths and block numbers. Every block number below the limit on the number of blocks of
  a file has a path, whose offsets stay inside the arrays of the nodes; no other block number
  has one; and every well-formed list of offsets is the path of exactly the block number it
  addresses. The path lists the number of every node on it.
\<close>

theorem get_node_path_bijection:
  "(get_node_path block \<noteq> None \<longleftrightarrow> block < max_blkno_limit) \<and>
   (get_node_path block = Some (level, offs, noffs) \<longleftrightarrow>
      valid_path offs \<and> path_block offs = block \<and> length offs = level + 1 \<and>
      noffs = map (\<lambda>k. node_number (take k offs)) [0..<length offs])"
proof -
  have len: "valid_path offs \<Longrightarrow> 0 < length offs" by (cases offs) auto
  have "get_node_path block = None \<longleftrightarrow> \<not> block < max_blkno_limit"
    using get_node_path_None [of block] path_exists [of block] get_node_path_of by fastforce
  then show ?thesis unfolding get_node_path_iff using len by (auto simp: path_of_def simp del: upt_Suc)
qed

text \<open>
  The node numbers identify the nodes of a file's tree: the i-th node on the path of one
  block and the j-th node on the path of another have the same number exactly when the same
  offsets lead to them.
\<close>

theorem noffset_identifies_node:
  assumes "get_node_path b1 = Some (l1, offs1, noffs1)" "get_node_path b2 = Some (l2, offs2, noffs2)"
    "i \<le> l1" "j \<le> l2"
  shows "noffs1 ! i = noffs2 ! j \<longleftrightarrow> take i offs1 = take j offs2"
proof -
  have v: "valid_path offs1" "valid_path offs2" "length offs1 = l1 + 1" "length offs2 = l2 + 1"
    "noffs1 = map (\<lambda>k. node_number (take k offs1)) [0..<l1 + 1]"
    "noffs2 = map (\<lambda>k. node_number (take k offs2)) [0..<l2 + 1]"
    using assms(1,2) unfolding get_node_path_iff by (auto simp: path_of_def; cases offs1; cases offs2; auto)+
  have e: "noffs1 ! i = node_number (take i offs1)" "noffs2 ! j = node_number (take j offs2)"
    unfolding v(5,6) using assms(3,4) by (simp_all del: upt_Suc)
  show ?thesis unfolding e using node_number_inj [OF v(1) _ v(2)] v(3,4) assms(3,4) by fastforce
qed

theorem noffset_identifies_node_witness:
  "[0, 3, 9 :: nat] ! 2 = [0, 3, 9] ! 2 \<longleftrightarrow> take 2 [935, 5, 0 :: nat] = take 2 [935, 5, 1019]"
  by (rule noffset_identifies_node [of 8072 2 _ _ 9091 2]) (simp_all add: get_node_path_def)

text \<open>
  Writing a pointer of a node changes that pointer and nothing else that is read from the
  node: the data pointers and the child pointers of an inode do not overlap each other or the
  size, the link count and the type.
\<close>

theorem inode_pointers_disjoint:
  assumes "node_ok n" "k < 932" "l < 5"
  shows "\<exists>n' n''. set_lpa n k 0 v = Inr n' \<and> get_lpa n' k 0 = Inr v \<and>
    (\<forall>j < 932. j \<noteq> k \<longrightarrow> get_lpa n' j 0 = get_lpa n j 0) \<and>
    (\<forall>j < 5. get_next_nid n' (933 + j) 0 = get_next_nid n (933 + j) 0) \<and>
    set_next_nid n' (933 + l) 0 w = Inr n'' \<and> get_next_nid n'' (933 + l) 0 = Inr w \<and>
    (\<forall>j < 5. j \<noteq> l \<longrightarrow> get_next_nid n'' (933 + j) 0 = get_next_nid n (933 + j) 0) \<and>
    (\<forall>j < 932. get_lpa n'' j 0 = get_lpa n' j 0) \<and>
    i_size n'' = i_size n \<and> i_nlink n'' = i_nlink n \<and> i_type n'' = i_type n"
  using assms
  by (simp add: set_lpa_def get_lpa_def set_next_nid_def get_next_nid_def i_addr_def i_nid_def i_size_def
      i_nlink_def i_type_def wd64_def)

theorem inode_pointers_disjoint_witness:
  "\<exists>n' n''. set_lpa zero_node 3 0 77 = Inr n' \<and> set_next_nid n' 937 0 88 = Inr n'' \<and>
     get_lpa n'' 3 0 = Inr 77 \<and> get_next_nid n'' 937 0 = Inr 88 \<and> i_size n'' = i_size zero_node"
proof -
  have "node_ok zero_node" by (simp add: node_ok_def zero_node_def)
  from inode_pointers_disjoint [OF this, of 3 4 77 88] show ?thesis by auto
qed

end
