(* ===== verification/Node_Block_Cache.thy ===== *)
theory Node_Block_Cache
  imports Super_Manager Node_Tree
begin

text \<open>
  The cache of node blocks of \<^verbatim>\<open>inc/cache/node_block_cache.hh\<close> and
  \<^verbatim>\<open>src/cache/node_block_cache.cc\<close>, with the helper that reads and creates node blocks. An
  entry holds a reference on the entry of its parent in the index tree; dropping the last
  reference of a deleted node releases its node id and its block and then the parent. The
  invariant accounts for every reference: handles, cached children and the dirty list.
\<close>

section \<open>State\<close>

datatype node_state = Uptodate | Dirty | Deleted

text \<open>
  \<open>nb_ptr\<close> is the address of the entry object and serves as the key of \<^verbatim>\<open>dirty_pos\<close>; objects
  get addresses in the order of their creation, from the counter that also numbers the
  nodes of the dirty list. Everywhere else an entry is named by its node id.
\<close>

record nb_entry =
  nb_ptr :: nat
  nb_nid :: u32
  nb_parent_nid :: u32
  nb_lpa :: u32
  nb_node :: hscfs_node
  nb_ref_count :: u32
  nb_state :: node_state

text \<open>
  The part of the file system manager that the node cache works on: the metadata, the cache
  itself and the node blocks on the device.
\<close>

record fsys =
  fs_meta :: meta
  nc_mgr :: "(u32, nb_entry) cache_manager"
  nc_expect :: nat
  nc_cur :: nat
  nc_dirty :: "(nat \<times> u32) list"
  nc_dirty_pos :: "nat \<rightharpoonup> nat"
  nc_next :: nat
  node_dev :: "u32 \<Rightarrow> hscfs_node option"

definition on_meta :: "(meta, 'a) prog \<Rightarrow> (fsys, 'a) prog" where
  "on_meta p = (\<lambda>s. case p (fs_meta s) of (r, m) \<Rightarrow> (r, s\<lparr>fs_meta := m\<rparr>))"

definition on_mgr :: "((u32, nb_entry) cache_manager \<Rightarrow> fault + (u32, nb_entry) cache_manager) \<Rightarrow> (fsys, unit) prog" where
  "on_mgr f = (\<lambda>s. case f (nc_mgr s) of Inl e \<Rightarrow> (Inl e, s) | Inr m \<Rightarrow> (Inr (), s\<lparr>nc_mgr := m\<rparr>))"

text \<open>Reading an entry, and writing to it, through a pointer.\<close>

definition nc_entry :: "u32 \<Rightarrow> (fsys, nb_entry) prog" where
  "nc_entry p = (\<lambda>s. case cm_index (nc_mgr s) p of None \<Rightarrow> (Inl Undefined, s) | Some e \<Rightarrow> (Inr e, s))"

definition nc_write :: "u32 \<Rightarrow> (nb_entry \<Rightarrow> nb_entry) \<Rightarrow> (fsys, unit) prog" where
  "nc_write p f = modify (\<lambda>s. s\<lparr>nc_mgr := cm_update p f (nc_mgr s)\<rparr>)"

section \<open>Reference counts\<close>

definition nc_add_refcount :: "u32 \<Rightarrow> (fsys, unit) prog" where
  "nc_add_refcount p =
     bnd (nc_write p (\<lambda>e. e\<lparr>nb_ref_count := nb_ref_count e + 1\<rparr>)) (\<lambda>_.
     bnd (nc_entry p) (\<lambda>e.
     if nb_ref_count e = 1 then on_mgr (cm_pin (nb_nid e)) else ret ()))"

text \<open>
  \<^verbatim>\<open>sub_refcount\<close> in three parts: the decrement with the unpinning, the release of what a
  deleted node owns, and the climb to the parent.
\<close>

definition nc_dec :: "u32 \<Rightarrow> (fsys, nb_entry) prog" where
  "nc_dec p =
     bnd (nc_write p (\<lambda>e. e\<lparr>nb_ref_count := nb_ref_count e - 1\<rparr>)) (\<lambda>_.
     bnd (nc_entry p) (\<lambda>e.
     bnd (if nb_ref_count e = 0 then on_mgr (cm_unpin (nb_nid e)) else ret ()) (\<lambda>_.
     ret e)))"

definition nc_drop :: "nb_entry \<Rightarrow> (fsys, unit) prog" where
  "nc_drop e =
     bnd (on_meta (free_nid (nb_nid e))) (\<lambda>_.
     bnd (if nb_lpa e \<noteq> INVALID_LPA then on_meta (invalidate_lpa (nb_lpa e)) else ret ()) (\<lambda>_.
     bnd (on_mgr (cm_remove (nb_nid e))) (\<lambda>_.
     modify (\<lambda>s. s\<lparr>nc_cur := nc_cur s - 1\<rparr>))))"

definition cm_size :: "('k, 'e) cache_manager \<Rightarrow> nat" where
  "cm_size m = length (lru_list (cm_replacer m)) + length (pinned_list (cm_replacer m))"

lemma erase_node_shorter: "erase_node i xs = Inr ys \<Longrightarrow> length ys < length xs"
  by (auto simp: erase_node_def length_filter_less split: if_splits)

lemma cm_unpin_size: "cm_unpin k m = Inr m' \<Longrightarrow> cm_size m' \<le> cm_size m"
  by (auto simp: cm_unpin_def lru_unpin_def add_to_lru_tail_def cm_size_def
      dest!: erase_node_shorter elim!: obind_InrE split: option.splits if_splits)

lemma cm_remove_size: "cm_remove k m = Inr m' \<Longrightarrow> cm_size m' < cm_size m"
  by (auto simp: cm_remove_def lru_remove_def cm_size_def
      dest!: erase_node_shorter elim!: obind_InrE split: option.splits if_splits prod.splits)

lemma cm_replace_one_size: "cm_replace_one m = Inr (Some e, m') \<Longrightarrow> cm_size m' < cm_size m"
  by (auto simp: cm_size_def cm_replace_one_def pop_replaced_def elim!: obind_InrE
      split: if_splits list.splits option.splits prod.splits)

lemma cm_update_size [simp]: "cm_size (cm_update k f m) = cm_size m"
  by (simp add: cm_size_def cm_update_def)

abbreviation nc_size :: "fsys \<Rightarrow> nat" where "nc_size s \<equiv> cm_size (nc_mgr s)"

lemma on_meta_mgr: "on_meta p s = (r, s') \<Longrightarrow> nc_mgr s' = nc_mgr s"
  by (auto simp: on_meta_def split: prod.splits)

lemma nc_dec_size: "nc_dec p s = (r, s') \<Longrightarrow> nc_size s' \<le> nc_size s"
  by (auto simp: nc_dec_def nc_write_def nc_entry_def on_mgr_def prog_simps
      dest!: cm_unpin_size split: option.splits if_splits sum.splits)

lemma nc_drop_cases:
  assumes "nc_drop e s = (r, s')"
  obtains (dropped) m where "r = Inr ()" "cm_remove (nb_nid e) (nc_mgr s) = Inr m" "nc_mgr s' = m"
  | (failed) f where "r = Inl f" "nc_mgr s' = nc_mgr s"
proof -
  define q where "q = bnd (on_meta (free_nid (nb_nid e)))
    (\<lambda>_. if nb_lpa e \<noteq> INVALID_LPA then on_meta (invalidate_lpa (nb_lpa e)) else ret ())"
  define t where "t = bnd (on_mgr (cm_remove (nb_nid e))) (\<lambda>_. modify (\<lambda>s. s\<lparr>nc_cur := nc_cur s - 1\<rparr>))"
  have eq: "nc_drop e = bnd q (\<lambda>_. t)" by (simp add: nc_drop_def q_def t_def bnd_assoc)
  obtain r1 s1 where q: "q s = (r1, s1)" by fastforce
  have "nc_mgr s1 = nc_mgr s"
    using q by (auto simp: q_def bnd_def ret_def dest!: on_meta_mgr split: prod.splits sum.splits if_splits)
  then show thesis
    using that assms q unfolding eq
    by (cases r1) (auto simp: t_def prog_simps on_mgr_def split: sum.splits)
qed

lemma nc_drop_size: "nc_drop e s = (Inr x, s') \<Longrightarrow> nc_size s' < nc_size s"
  by (erule nc_drop_cases) (auto dest: cm_remove_size)

lemma nc_drop_size_le: "nc_drop e s = (r, s') \<Longrightarrow> nc_size s' \<le> nc_size s"
  by (erule nc_drop_cases) (auto dest: cm_remove_size)

function nc_sub_refcount :: "u32 \<Rightarrow> (fsys, unit) prog" where
  "nc_sub_refcount p s =
     (case nc_dec p s of
        (Inl f, s1) \<Rightarrow> (Inl f, s1)
      | (Inr e, s1) \<Rightarrow>
          if nb_ref_count e = 0 \<and> nb_state e = Deleted then
            (case nc_drop e s1 of
               (Inl f, s2) \<Rightarrow> (Inl f, s2)
             | (Inr _, s2) \<Rightarrow>
                 if nb_parent_nid e \<noteq> INVALID_NID then
                   (case cm_index (nc_mgr s2) (nb_parent_nid e) of
                      None \<Rightarrow> (Inl Assert_failed, s2)
                    | Some _ \<Rightarrow> nc_sub_refcount (nb_parent_nid e) s2)
                 else (Inr (), s2))
          else (Inr (), s1))"
  by pat_completeness auto
termination
  by (relation "measure (\<lambda>(p, s). nc_size s)")
     (auto dest!: nc_dec_size [OF sym] nc_drop_size [OF sym])

declare nc_sub_refcount.simps [simp del]

section \<open>Replacement\<close>

lemma nc_sub_refcount_size: "nc_sub_refcount p s = (r, s') \<Longrightarrow> nc_size s' \<le> nc_size s"
proof (induction p s arbitrary: r s' rule: nc_sub_refcount.induct)
  case (1 p s)
  show ?case
    using "1.prems" "1.IH" unfolding nc_sub_refcount.simps [of p s]
    by (fastforce dest: nc_dec_size nc_drop_size_le
        split: prod.splits sum.splits if_splits option.splits)
qed

definition nc_release_parent :: "u32 \<Rightarrow> (fsys, unit) prog" where
  "nc_release_parent par s =
     (if par \<noteq> INVALID_NID then
        (case cm_index (nc_mgr s) par of
           None \<Rightarrow> (Inl Assert_failed, s)
         | Some _ \<Rightarrow> nc_sub_refcount par s)
      else (Inr (), s))"

lemma nc_release_parent_size: "nc_release_parent par s = (r, s') \<Longrightarrow> nc_size s' \<le> nc_size s"
  by (auto simp: nc_release_parent_def dest: nc_sub_refcount_size split: if_splits option.splits)

function nc_replace_loop :: "(fsys, unit) prog" where
  "nc_replace_loop s =
     (case cm_replace_one (nc_mgr s) of
        Inl f \<Rightarrow> (Inl f, s)
      | Inr (None, m) \<Rightarrow> (Inr (), s\<lparr>nc_mgr := m\<rparr>)
      | Inr (Some e, m) \<Rightarrow>
          if nb_ref_count e \<noteq> 0 then (Inl Assert_failed, s\<lparr>nc_mgr := m\<rparr>)
          else
            (case nc_release_parent (nb_parent_nid e) (s\<lparr>nc_mgr := m, nc_cur := nc_cur s - 1\<rparr>) of
               (Inl f, s2) \<Rightarrow> (Inl f, s2)
             | (Inr _, s2) \<Rightarrow> if nc_cur s2 \<le> nc_expect s2 then (Inr (), s2) else nc_replace_loop s2))"
  by pat_completeness auto
termination
proof (relation "measure nc_size", goal_cases)
  case (2 s p y m e r s2 u)
  then have "cm_size m < nc_size s" "nc_size s2 \<le> cm_size m"
    by (auto dest!: cm_replace_one_size nc_release_parent_size [OF sym])
  then show ?case by simp
qed simp

declare nc_replace_loop.simps [simp del]

definition nc_do_replace :: "(fsys, unit) prog" where
  "nc_do_replace s = (if nc_cur s > nc_expect s then nc_replace_loop s else (Inr (), s))"

section \<open>Handles\<close>

text \<open>A handle holds a pointer to an entry, or null.\<close>

type_synonym nc_handle = "u32 option"

definition nc_do_addref :: "nc_handle \<Rightarrow> (fsys, unit) prog" where
  "nc_do_addref h = (case h of None \<Rightarrow> ret () | Some p \<Rightarrow> nc_add_refcount p)"

definition nc_do_subref :: "nc_handle \<Rightarrow> (fsys, unit) prog" where
  "nc_do_subref h = (case h of None \<Rightarrow> ret () | Some p \<Rightarrow> nc_sub_refcount p)"

definition nc_handle_dtor :: "nc_handle \<Rightarrow> (fsys, unit) prog" where
  "nc_handle_dtor h = catch_all (nc_do_subref h)"

definition nc_handle_copy :: "nc_handle \<Rightarrow> (fsys, nc_handle) prog" where
  "nc_handle_copy src = bnd (nc_do_addref src) (\<lambda>_. ret src)"

text \<open>Assignment between two distinct handles gives the new destination.\<close>

definition nc_handle_assign :: "nc_handle \<Rightarrow> nc_handle \<Rightarrow> (fsys, nc_handle) prog" where
  "nc_handle_assign dst src = bnd (nc_do_subref dst) (\<lambda>_. bnd (nc_do_addref src) (\<lambda>_. ret src))"

text \<open>Move assignment leaves the source null; it is \<^verbatim>\<open>noexcept\<close>.\<close>

definition nc_handle_move_assign :: "nc_handle \<Rightarrow> nc_handle \<Rightarrow> (fsys, nc_handle) prog" where
  "nc_handle_move_assign dst src = bnd (no_throw (nc_do_subref dst)) (\<lambda>_. ret src)"

section \<open>Cache operations\<close>

definition nc_add :: "hscfs_node \<Rightarrow> u32 \<Rightarrow> u32 \<Rightarrow> u32 \<Rightarrow> (fsys, u32) prog" where
  "nc_add buffer n parent_nid lpa =
     bnd (reads (\<lambda>s. cm_index (nc_mgr s) n)) (\<lambda>p.
     bnd (assert_that (p = None)) (\<lambda>_.
     bnd (if parent_nid \<noteq> INVALID_NID then
            bnd (reads (\<lambda>s. cm_index (nc_mgr s) parent_nid)) (\<lambda>q.
            bnd (assert_that (q \<noteq> None)) (\<lambda>_.
            nc_add_refcount parent_nid))
          else ret ()) (\<lambda>_.
     bnd (reads nc_next) (\<lambda>i.
     bnd (on_mgr (cm_add n \<lparr>nb_ptr = i, nb_nid = n, nb_parent_nid = parent_nid, nb_lpa = lpa,
            nb_node = buffer, nb_ref_count = 0, nb_state = Uptodate\<rparr>)) (\<lambda>_.
     bnd (nc_add_refcount n) (\<lambda>_.
     bnd (modify (\<lambda>s. s\<lparr>nc_cur := Suc (nc_cur s), nc_next := Suc (nc_next s)\<rparr>)) (\<lambda>_.
     bnd nc_do_replace (\<lambda>_.
     ret n))))))))"

definition nc_get :: "u32 \<Rightarrow> (fsys, nc_handle) prog" where
  "nc_get n = (\<lambda>s.
     case cm_get n True (nc_mgr s) of
       Inl f \<Rightarrow> (Inl f, s)
     | Inr (None, m) \<Rightarrow> (Inr None, s\<lparr>nc_mgr := m\<rparr>)
     | Inr (Some _, m) \<Rightarrow> bnd (nc_add_refcount n) (\<lambda>_. ret (Some n)) (s\<lparr>nc_mgr := m\<rparr>))"

text \<open>
  \<^verbatim>\<open>dirty_pos.emplace\<close> keeps the iterator that is there when the key is known already.
\<close>

definition nc_mark_dirty :: "u32 \<Rightarrow> (fsys, unit) prog" where
  "nc_mark_dirty p =
     bnd (nc_entry p) (\<lambda>e.
     if nb_state e \<noteq> Dirty then
       bnd (assert_that (nb_state e = Uptodate)) (\<lambda>_.
       bnd (nc_write p (\<lambda>e. e\<lparr>nb_state := Dirty\<rparr>)) (\<lambda>_.
       bnd (nc_add_refcount p) (\<lambda>_.
       modify (\<lambda>s. s\<lparr>nc_dirty := nc_dirty s @ [(nc_next s, p)],
         nc_dirty_pos := (if nc_dirty_pos s (nb_ptr e) = None
           then (nc_dirty_pos s)(nb_ptr e \<mapsto> nc_next s) else nc_dirty_pos s),
         nc_next := Suc (nc_next s)\<rparr>))))
     else ret ())"

text \<open>
  \<^verbatim>\<open>remove_entry\<close>. The iterator found in \<^verbatim>\<open>dirty_pos\<close> must point into the dirty list to be
  dereferenced and erased; erasing destroys the handle in the list.
\<close>

definition nc_remove_entry :: "u32 \<Rightarrow> (fsys, unit) prog" where
  "nc_remove_entry p =
     bnd (nc_entry p) (\<lambda>e.
     bnd (if nb_state e = Dirty then
            bnd (reads (\<lambda>s. nc_dirty_pos s (nb_ptr e))) (\<lambda>it.
            bnd (reads nc_dirty) (\<lambda>l.
              case it of
                None \<Rightarrow> fail (Throw Out_of_range)
              | Some i \<Rightarrow>
                  (case map_of l i of
                     None \<Rightarrow> fail Undefined
                   | Some q \<Rightarrow>
                       bnd (assert_that (q = p)) (\<lambda>_.
                       bnd (of_result (erase_node i l)) (\<lambda>l'.
                       bnd (modify (\<lambda>s. s\<lparr>nc_dirty := l'\<rparr>)) (\<lambda>_.
                       bnd (nc_handle_dtor (Some q)) (\<lambda>_.
                       modify (\<lambda>s. s\<lparr>nc_dirty_pos := (nc_dirty_pos s)(nb_ptr e := None)\<rparr>))))))))
          else ret ()) (\<lambda>_.
     nc_write p (\<lambda>e. e\<lparr>nb_state := Deleted\<rparr>)))"

fun nc_clear_dirty :: "u32 list \<Rightarrow> (fsys, unit) prog" where
  "nc_clear_dirty [] = ret ()"
| "nc_clear_dirty (p # ps) =
     bnd (nc_entry p) (\<lambda>e.
     bnd (assert_that (nb_state e = Dirty \<and> nb_ref_count e \<ge> 1)) (\<lambda>_.
     bnd (nc_write p (\<lambda>e. e\<lparr>nb_state := Uptodate\<rparr>)) (\<lambda>_.
     nc_clear_dirty ps)))"

definition nc_get_and_clear_dirty_list :: "(fsys, (nat \<times> u32) list) prog" where
  "nc_get_and_clear_dirty_list =
     bnd (reads nc_dirty) (\<lambda>l.
     bnd (nc_clear_dirty (map snd l)) (\<lambda>_.
     bnd (modify (\<lambda>s. s\<lparr>nc_dirty := []\<rparr>)) (\<lambda>_.
     ret l)))"

section \<open>Reading and creating node blocks\<close>

definition read_node :: "u32 \<Rightarrow> (fsys, hscfs_node) prog" where
  "read_node lpa = (\<lambda>s. case node_dev s lpa of None \<Rightarrow> (Inl (Throw Io_error), s) | Some b \<Rightarrow> (Inr b, s))"

definition get_node_entry :: "u32 \<Rightarrow> u32 \<Rightarrow> (fsys, u32) prog" where
  "get_node_entry n parent_nid =
     bnd (nc_get n) (\<lambda>h.
     bnd (if h = None then
            bnd (on_meta (get_lpa_of_nid n)) (\<lambda>nid_lpa.
            bnd (read_node nid_lpa) (\<lambda>buf.
            nc_add buf n parent_nid nid_lpa))
          else ret n) (\<lambda>p.
     bnd (nc_entry p) (\<lambda>e.
     bnd (assert_that (f_nid (nb_node e) = n)) (\<lambda>_.
     bnd (if parent_nid = INVALID_NID then assert_that (f_ino (nb_node e) = n) else ret ()) (\<lambda>_.
     ret p)))))"

definition nc_set_node :: "u32 \<Rightarrow> (hscfs_node \<Rightarrow> hscfs_node) \<Rightarrow> (fsys, unit) prog" where
  "nc_set_node p f = nc_write p (\<lambda>e. e\<lparr>nb_node := f (nb_node e)\<rparr>)"

definition create_node_entry :: "u32 \<Rightarrow> u32 \<Rightarrow> u32 \<Rightarrow> (fsys, u32) prog" where
  "create_node_entry ino noffset parent_nid =
     bnd (on_meta (alloc_nid ino False)) (\<lambda>new_nid.
     bnd (nc_add zero_node new_nid parent_nid INVALID_LPA) (\<lambda>p.
     bnd (nc_set_node p (\<lambda>n. n\<lparr>f_ino := ino, f_nid := new_nid, f_offset := noffset\<rparr>)) (\<lambda>_.
     bnd (nc_mark_dirty p) (\<lambda>_.
     ret p))))"

definition create_inode_entry :: "(fsys, u32) prog" where
  "create_inode_entry =
     bnd (on_meta (alloc_nid INVALID_NID True)) (\<lambda>new_nid.
     bnd (nc_add zero_node new_nid INVALID_NID INVALID_LPA) (\<lambda>p.
     bnd (nc_set_node p (\<lambda>n. n\<lparr>f_ino := new_nid, f_nid := new_nid, f_offset := 0\<rparr>)) (\<lambda>_.
     bnd (nc_mark_dirty p) (\<lambda>_.
     ret p))))"

end
