(* ===== verification/Node_Cache_Inv.thy ===== *)
theory Node_Cache_Inv
  imports Node_Block_Cache
begin

text \<open>
  The invariant of the node block cache and what its operations keep: every reference count
  is the number of handles, cached children and dirty-list entries; parents of cached nodes
  are cached; a node that is neither dirty nor being written equals its block on the
  device, so that replacement never changes what a reader of a node sees.
\<close>

section \<open>Views\<close>

abbreviation nc_ix :: "fsys \<Rightarrow> u32 \<rightharpoonup> nb_entry" where
  "nc_ix s \<equiv> cm_index (nc_mgr s)"

definition children :: "(u32 \<rightharpoonup> nb_entry) \<Rightarrow> u32 \<Rightarrow> nat" where
  "children ix k = card {j. \<exists>e. ix j = Some e \<and> nb_parent_nid e = k}"

definition dirty_nids :: "fsys \<Rightarrow> u32 set" where
  "dirty_nids s = snd ` set (nc_dirty s)"

text \<open>The node block that the NAT and the device give for a node id.\<close>

definition node_ondisk :: "fsys \<Rightarrow> u32 \<Rightarrow> hscfs_node option" where
  "node_ondisk s k = (case nat_at (fs_meta s) k of None \<Rightarrow> None | Some ne \<Rightarrow> node_dev s (ne_block_addr ne))"

definition node_view :: "fsys \<Rightarrow> u32 \<Rightarrow> hscfs_node option" where
  "node_view s k = (case nc_ix s k of Some e \<Rightarrow> Some (nb_node e) | None \<Rightarrow> node_ondisk s k)"

definition nc_parents :: "fsys \<Rightarrow> u32 \<rightharpoonup> u32" where
  "nc_parents s k = map_option nb_parent_nid (nc_ix s k)"

lemma node_ondisk_cong:
  "fs_meta s' = fs_meta s \<Longrightarrow> node_dev s' = node_dev s \<Longrightarrow> node_ondisk s' = node_ondisk s"
  by (simp add: node_ondisk_def fun_eq_iff split: option.splits)

lemma nc_view_simps [simp]:
  "dirty_nids (s\<lparr>nc_mgr := m\<rparr>) = dirty_nids s" "dirty_nids (s\<lparr>nc_cur := n\<rparr>) = dirty_nids s"
  "dirty_nids (s\<lparr>nc_next := n\<rparr>) = dirty_nids s" "dirty_nids (s\<lparr>fs_meta := mt\<rparr>) = dirty_nids s"
  "node_ondisk (s\<lparr>nc_mgr := m\<rparr>) = node_ondisk s" "node_ondisk (s\<lparr>nc_cur := n\<rparr>) = node_ondisk s"
  "node_ondisk (s\<lparr>nc_next := n\<rparr>) = node_ondisk s" "node_ondisk (s\<lparr>nc_dirty := l\<rparr>) = node_ondisk s"
  "node_ondisk (s\<lparr>nc_dirty_pos := q\<rparr>) = node_ondisk s"
  by (simp_all add: dirty_nids_def) (rule node_ondisk_cong; simp)+

section \<open>Invariant\<close>

text \<open>
  \<open>ext\<close> counts the handles held outside the cache; \<open>W\<close> is the set of nodes that a holder of
  a handle has written and not yet marked dirty, or that are being written to the device.
\<close>

definition nc_entry_ok :: "(u32 \<Rightarrow> nat) \<Rightarrow> u32 set \<Rightarrow> fsys \<Rightarrow> u32 \<Rightarrow> nb_entry \<Rightarrow> bool" where
  "nc_entry_ok ext W s k e \<longleftrightarrow>
     nb_nid e = k \<and> k \<noteq> INVALID_NID \<and> (k \<in> cm_pins (nc_mgr s) \<longleftrightarrow> nb_ref_count e \<noteq> 0) \<and>
     unat (nb_ref_count e) = ext k + children (nc_ix s) k + of_bool (k \<in> dirty_nids s) \<and>
     (nb_parent_nid e \<noteq> INVALID_NID \<longrightarrow> nb_parent_nid e \<in> dom (nc_ix s)) \<and>
     (nb_state e = Dirty \<longleftrightarrow> k \<in> dirty_nids s) \<and> nb_state e \<noteq> Deleted \<and>
     (nb_state e = Uptodate \<and> k \<notin> W \<longrightarrow> node_ondisk s k = Some (nb_node e))"

definition nc_inv :: "(u32 \<Rightarrow> nat) \<Rightarrow> u32 set \<Rightarrow> fsys \<Rightarrow> bool" where
  "nc_inv ext W s \<longleftrightarrow>
     cm_inv (nc_mgr s) \<and> nc_cur s = card (dom (nc_ix s)) \<and>
     dirty_nids s \<subseteq> dom (nc_ix s) \<and> distinct (map snd (nc_dirty s)) \<and>
     {k. ext k \<noteq> 0} \<subseteq> dom (nc_ix s) \<and> W \<subseteq> {k. ext k \<noteq> 0} \<and>
     (\<forall>k e. nc_ix s k = Some e \<longrightarrow> nc_entry_ok ext W s k e)"

lemma nc_invI:
  assumes "cm_inv (nc_mgr s)" "nc_cur s = card (dom (nc_ix s))"
    "dirty_nids s \<subseteq> dom (nc_ix s)" "distinct (map snd (nc_dirty s))"
    "{k. ext k \<noteq> 0} \<subseteq> dom (nc_ix s)" "W \<subseteq> {k. ext k \<noteq> 0}"
    "\<And>k e. nc_ix s k = Some e \<Longrightarrow> nc_entry_ok ext W s k e"
  shows "nc_inv ext W s"
  using assms by (simp add: nc_inv_def)

lemma nc_invD:
  assumes "nc_inv ext W s"
  shows "cm_inv (nc_mgr s)" "nc_cur s = card (dom (nc_ix s))" "finite (dom (nc_ix s))"
    "dirty_nids s \<subseteq> dom (nc_ix s)" "distinct (map snd (nc_dirty s))"
    "{k. ext k \<noteq> 0} \<subseteq> dom (nc_ix s)" "W \<subseteq> {k. ext k \<noteq> 0}"
    "nc_ix s k = Some e \<Longrightarrow> nc_entry_ok ext W s k e"
  using assms cm_invD(4) by (auto simp: nc_inv_def)

text \<open>What replacement and reference counting leave alone.\<close>

definition nc_frame :: "fsys \<Rightarrow> fsys \<Rightarrow> bool" where
  "nc_frame s s' \<longleftrightarrow>
     fs_meta s' = fs_meta s \<and> node_dev s' = node_dev s \<and> nc_expect s' = nc_expect s \<and>
     nc_dirty s' = nc_dirty s \<and> nc_dirty_pos s' = nc_dirty_pos s \<and> nc_next s' = nc_next s \<and>
     node_view s' = node_view s \<and> nc_parents s' \<subseteq>\<^sub>m nc_parents s"

lemma nc_frame_refl [simp]: "nc_frame s s"
  by (simp add: nc_frame_def)

lemma nc_frame_trans: "nc_frame s t \<Longrightarrow> nc_frame t u \<Longrightarrow> nc_frame s u"
  by (auto simp: nc_frame_def intro: map_le_trans)

section \<open>Children\<close>

lemma children_cong:
  assumes "\<And>j. map_option nb_parent_nid (ix' j) = map_option nb_parent_nid (ix j)"
  shows "children ix' = children ix"
proof
  fix k
  have alt: "{j. \<exists>e. f j = Some e \<and> nb_parent_nid e = k} = {j. map_option nb_parent_nid (f j) = Some k}"
    for f :: "u32 \<rightharpoonup> nb_entry" by auto
  show "children ix' k = children ix k" unfolding children_def alt assms ..
qed

lemma children_finite: "finite (dom ix) \<Longrightarrow> finite {j. \<exists>e. ix j = Some e \<and> nb_parent_nid e = k}"
  by (rule finite_subset [of _ "dom ix"]) auto

lemma children_le: "finite (dom ix) \<Longrightarrow> children ix k \<le> card (dom ix)"
  unfolding children_def by (rule card_mono) auto

lemma children_upd:
  assumes "ix k = Some e" "nb_parent_nid e' = nb_parent_nid e"
  shows "children (ix(k \<mapsto> e')) = children ix"
proof
  fix p
  have "{j. \<exists>x. (ix(k \<mapsto> e')) j = Some x \<and> nb_parent_nid x = p} = {j. \<exists>x. ix j = Some x \<and> nb_parent_nid x = p}"
    using assms by (auto split: if_splits)
  then show "children (ix(k \<mapsto> e')) p = children ix p" by (simp add: children_def)
qed

lemma children_add:
  assumes "ix k = None" "finite (dom ix)"
  shows "children (ix(k \<mapsto> e)) p = children ix p + of_bool (p = nb_parent_nid e)"
proof -
  have "{j. \<exists>x. (ix(k \<mapsto> e)) j = Some x \<and> nb_parent_nid x = p} =
    (if p = nb_parent_nid e then insert k {j. \<exists>x. ix j = Some x \<and> nb_parent_nid x = p}
     else {j. \<exists>x. ix j = Some x \<and> nb_parent_nid x = p})"
    using assms by (auto split: if_splits)
  then show ?thesis using assms children_finite [OF assms(2), of p] by (simp add: children_def card_insert_if)
qed

lemma children_remove:
  assumes "ix k = Some e" "finite (dom ix)"
  shows "children ix p = children (ix(k := None)) p + of_bool (p = nb_parent_nid e)"
proof -
  have "ix = (ix(k := None))(k \<mapsto> e)" using assms(1) by (auto simp: fun_eq_iff)
  moreover have "finite (dom (ix(k := None)))" using assms(2) by simp
  ultimately show ?thesis using children_add [of "ix(k := None)" k e p] by simp
qed

lemma children_none:
  assumes "children ix k = 0" "finite (dom ix)" "ix j = Some e"
  shows "nb_parent_nid e \<noteq> k"
  using assms children_finite [OF assms(2), of k] by (auto simp: children_def)

section \<open>Counting references\<close>

lemma nc_ref_bound:
  assumes "nc_inv ext W s" "nc_ix s k = Some e"
  shows "unat (nb_ref_count e) \<le> ext k + card (dom (nc_ix s)) + 1"
  using nc_invD(8) [OF assms] children_le [OF nc_invD(3) [OF assms(1)], of k]
  by (auto simp: nc_entry_ok_def)

text \<open>A change of one entry's reference count, with the pinning that goes with it.\<close>

lemma nc_inv_recount:
  assumes inv: "nc_inv ext W s" and e: "nc_ix s k = Some e"
    and m: "cm_inv m" "cm_index m = (nc_ix s)(k \<mapsto> e\<lparr>nb_ref_count := r\<rparr>)"
      "cm_pins m = (if r = 0 then cm_pins (nc_mgr s) - {k} else insert k (cm_pins (nc_mgr s)))"
    and r: "unat r = n + children (nc_ix s) k + of_bool (k \<in> dirty_nids s)" "k \<in> W \<longrightarrow> n \<noteq> 0"
  shows "nc_inv (ext(k := n)) W (s\<lparr>nc_mgr := m\<rparr>)" "nc_frame s (s\<lparr>nc_mgr := m\<rparr>)"
proof -
  note d = nc_invD [OF inv]
  have ch: "children (cm_index m) = children (nc_ix s)"
    unfolding m(2) using children_upd [of "nc_ix s" k e] e by simp
  have dom: "dom (cm_index m) = dom (nc_ix s)" using e by (auto simp: m(2))
  show "nc_inv (ext(k := n)) W (s\<lparr>nc_mgr := m\<rparr>)"
  proof (rule nc_invI)
    fix j x assume "nc_ix (s\<lparr>nc_mgr := m\<rparr>) j = Some x"
    then have x: "((nc_ix s)(k \<mapsto> e\<lparr>nb_ref_count := r\<rparr>)) j = Some x" by (simp add: m(2))
    show "nc_entry_ok (ext(k := n)) W (s\<lparr>nc_mgr := m\<rparr>) j x"
    proof (cases "j = k")
      case True
      then have "x = e\<lparr>nb_ref_count := r\<rparr>" using x by simp
      then show ?thesis
        using True d(8) [OF e] r(1) unfolding nc_entry_ok_def by (simp add: ch dom  m(3))
    next
      case False
      with x d(8) [of j x] show ?thesis
        by (auto simp: nc_entry_ok_def ch dom  m(3))
    qed
  qed (use m(1) d dom e r in \<open>auto split: if_splits\<close>)
  show "nc_frame s (s\<lparr>nc_mgr := m\<rparr>)"
    using e by (auto simp: nc_frame_def node_view_def nc_parents_def m(2) fun_eq_iff map_le_def
        split: option.splits)
qed

lemma nc_add_refcount_ok:
  assumes inv: "nc_inv ext W s" and k: "k \<in> dom (nc_ix s)" and room: "ext k + card (dom (nc_ix s)) + 2 < 2 ^ 32"
  shows "\<exists>m. nc_add_refcount k s = (Inr (), s\<lparr>nc_mgr := m\<rparr>) \<and> nc_inv (ext(k := Suc (ext k))) W (s\<lparr>nc_mgr := m\<rparr>) \<and>
    nc_frame s (s\<lparr>nc_mgr := m\<rparr>) \<and> dom (cm_index m) = dom (nc_ix s)"
proof -
  obtain e where e: "nc_ix s k = Some e" using k by auto
  note ok = nc_invD(8) [OF inv e, unfolded nc_entry_ok_def]
  have "nb_ref_count e \<noteq> -1"
    using nc_ref_bound [OF inv e] room by (auto simp: unat_u32_max)
  then have inc: "unat (nb_ref_count e + 1) = Suc (unat (nb_ref_count e))" by (rule unat_u32_inc)
  then have nz: "nb_ref_count e + 1 \<noteq> 0" by (metis nat.simps(3) unat_0)
  let ?u = "cm_update k (\<lambda>e. e\<lparr>nb_ref_count := nb_ref_count e + 1\<rparr>) (nc_mgr s)"
  have u: "cm_inv ?u" "k \<in> dom (cm_index ?u)" using nc_invD(1) [OF inv] e by auto
  obtain m' where m': "cm_pin k ?u = Inr m'" "cm_inv m'" "cm_index m' = cm_index ?u"
      "cm_pins m' = insert k (cm_pins ?u)"
    using cm_pin_ok [OF u] by auto
  define m where "m = (if nb_ref_count e + 1 = 1 then m' else ?u)"
  have run: "nc_add_refcount k s = (Inr (), s\<lparr>nc_mgr := m\<rparr>)"
    using m'(1) e ok by (auto simp: nc_add_refcount_def nc_write_def nc_entry_def on_mgr_def prog_simps m_def)
  have ix: "cm_index m = (nc_ix s)(k \<mapsto> e\<lparr>nb_ref_count := nb_ref_count e + 1\<rparr>)"
    using m' e by (simp add: m_def)
  have mi: "cm_inv m" "cm_pins m = insert k (cm_pins (nc_mgr s))"
    using m' u ok by (auto simp: m_def insert_absorb)
  have r: "unat (nb_ref_count e + 1) = Suc (ext k) + children (nc_ix s) k + of_bool (k \<in> dirty_nids s)"
    using inc ok by linarith
  have "nc_inv (ext(k := Suc (ext k))) W (s\<lparr>nc_mgr := m\<rparr>)" "nc_frame s (s\<lparr>nc_mgr := m\<rparr>)"
    using nc_inv_recount [OF inv e mi(1) ix _ r] mi(2) nz by auto
  moreover have "dom (cm_index m) = dom (nc_ix s)" using e by (auto simp: ix)
  ultimately show ?thesis using run by blast
qed

lemma nc_sub_refcount_ok:
  assumes inv: "nc_inv ext W s" and k: "ext k \<noteq> 0" and W: "k \<in> W \<longrightarrow> ext k \<noteq> 1"
  shows "\<exists>m. nc_sub_refcount k s = (Inr (), s\<lparr>nc_mgr := m\<rparr>) \<and> nc_inv (ext(k := ext k - 1)) W (s\<lparr>nc_mgr := m\<rparr>) \<and>
    nc_frame s (s\<lparr>nc_mgr := m\<rparr>) \<and> dom (cm_index m) = dom (nc_ix s)"
proof -
  obtain e where e: "nc_ix s k = Some e" using nc_invD(6) [OF inv] k by auto
  note ok = nc_invD(8) [OF inv e, unfolded nc_entry_ok_def]
  have "nb_ref_count e \<noteq> 0" using ok k by (metis add_is_0 unat_0)
  then have kp: "k \<in> cm_pins (nc_mgr s)" using ok by blast
  from \<open>nb_ref_count e \<noteq> 0\<close> have dec: "Suc (unat (nb_ref_count e - 1)) = unat (nb_ref_count e)" by (rule unat_u32_dec)
  let ?u = "cm_update k (\<lambda>e. e\<lparr>nb_ref_count := nb_ref_count e - 1\<rparr>) (nc_mgr s)"
  have u: "cm_inv ?u" "k \<in> dom (cm_index ?u)" using nc_invD(1) [OF inv] e by auto
  obtain m' where m': "cm_unpin k ?u = Inr m'" "cm_inv m'" "cm_index m' = cm_index ?u"
      "cm_pins m' = cm_pins ?u - {k}"
    using cm_unpin_ok [OF u] by auto
  define m where "m = (if nb_ref_count e - 1 = 0 then m' else ?u)"
  have run: "nc_sub_refcount k s = (Inr (), s\<lparr>nc_mgr := m\<rparr>)"
    using m'(1) e ok
    by (auto simp: nc_sub_refcount.simps nc_dec_def nc_write_def nc_entry_def on_mgr_def prog_simps m_def)
  have ix: "cm_index m = (nc_ix s)(k \<mapsto> e\<lparr>nb_ref_count := nb_ref_count e - 1\<rparr>)"
    using m' e by (simp add: m_def)
  have mi: "cm_inv m" "cm_pins m = (if nb_ref_count e - 1 = 0 then cm_pins (nc_mgr s) - {k} else insert k (cm_pins (nc_mgr s)))"
    using m' u(1) kp by (simp_all add: m_def insert_absorb)
  have r: "unat (nb_ref_count e - 1) = ext k - 1 + children (nc_ix s) k + of_bool (k \<in> dirty_nids s)"
    using dec ok k by linarith
  have "nc_inv (ext(k := ext k - 1)) W (s\<lparr>nc_mgr := m\<rparr>)" "nc_frame s (s\<lparr>nc_mgr := m\<rparr>)"
    using nc_inv_recount [OF inv e mi(1) ix mi(2) r] W k by auto
  moreover have "dom (cm_index m) = dom (nc_ix s)" using e by (auto simp: ix)
  ultimately show ?thesis using run by blast
qed

section \<open>Replacement\<close>

text \<open>An entry that can be replaced has no reference at all and equals its block on the device.\<close>

lemma nc_cand:
  assumes inv: "nc_inv ext W s" and k: "k \<in> set (cm_cands (nc_mgr s))" and e: "nc_ix s k = Some e"
  shows "nb_ref_count e = 0" "ext k = 0" "children (nc_ix s) k = 0" "k \<notin> dirty_nids s"
    "node_ondisk s k = Some (nb_node e)"
proof -
  note ok = nc_invD(8) [OF inv e, unfolded nc_entry_ok_def]
  have "k \<notin> cm_pins (nc_mgr s)" using cm_invD(5) [OF nc_invD(1) [OF inv]] k by auto
  then show z: "nb_ref_count e = 0" using ok by blast
  then have "ext k + children (nc_ix s) k + of_bool (k \<in> dirty_nids s) = 0" using ok by (metis unat_0)
  then show x: "ext k = 0" "children (nc_ix s) k = 0" "k \<notin> dirty_nids s" by (auto split: if_splits)
  then have "k \<notin> W" using nc_invD(7) [OF inv] by auto
  moreover have "nb_state e = Uptodate" using ok x(3) by (cases "nb_state e") auto
  ultimately show "node_ondisk s k = Some (nb_node e)" using ok by blast
qed

lemma nc_evict_inv:
  assumes inv: "nc_inv ext W s" and k: "k \<in> set (cm_cands (nc_mgr s))" and e: "nc_ix s k = Some e"
    and m: "cm_inv m" "cm_index m = (nc_ix s)(k := None)" "cm_pins m = cm_pins (nc_mgr s)"
    and p: "p = nb_parent_nid e"
  shows "nc_inv (if p = INVALID_NID then ext else ext(p := Suc (ext p))) W (s\<lparr>nc_mgr := m, nc_cur := nc_cur s - 1\<rparr>)"
    "nc_frame s (s\<lparr>nc_mgr := m, nc_cur := nc_cur s - 1\<rparr>)"
proof -
  let ?s = "s\<lparr>nc_mgr := m, nc_cur := nc_cur s - 1\<rparr>"
  note d = nc_invD [OF inv] and c = nc_cand [OF inv k e] and ok = nc_invD(8) [OF inv e, unfolded nc_entry_ok_def]
  have ch: "children (nc_ix s) j = children (cm_index m) j + of_bool (j = p)" for j
    unfolding m(2) p by (rule children_remove [OF e d(3)])
  have pk: "p \<noteq> k" using children_none [OF c(3) d(3) e] p by simp
  have pin: "p \<noteq> INVALID_NID \<Longrightarrow> p \<in> dom (cm_index m)" using ok pk p by (auto simp: m(2))
  show "nc_inv (if p = INVALID_NID then ext else ext(p := Suc (ext p))) W ?s"
  proof (rule nc_invI)
    fix j x assume "nc_ix ?s j = Some x"
    then have x: "nc_ix s j = Some x" "j \<noteq> k" by (auto simp: m(2) split: if_splits)
    note okj = d(8) [OF x(1), unfolded nc_entry_ok_def]
    have par: "nb_parent_nid x \<noteq> k" by (rule children_none [OF c(3) d(3) x(1)])
    have "unat (nb_ref_count x) = (if p = INVALID_NID then ext else ext(p := Suc (ext p))) j +
        children (cm_index m) j + of_bool (j \<in> dirty_nids s)"
      using okj ch [of j] by (cases "j = p") auto
    then show "nc_entry_ok (if p = INVALID_NID then ext else ext(p := Suc (ext p))) W ?s j x"
      using okj par unfolding nc_entry_ok_def by (simp add: m(2,3))
  next
    show "nc_cur ?s = card (dom (nc_ix ?s))" using d(2,3) e by (simp add: m(2) card_Diff_singleton domI)
    show "{j. (if p = INVALID_NID then ext else ext(p := Suc (ext p))) j \<noteq> 0} \<subseteq> dom (nc_ix ?s)"
      using d(6) c(2) pin by (auto simp: m(2) split: if_splits)
  qed (use m(1) d c in \<open>auto simp: m(2)\<close>)
  show "nc_frame s ?s"
    using e c(5) by (auto simp: nc_frame_def node_view_def nc_parents_def m(2) fun_eq_iff map_le_def
        split: option.splits)
qed

lemma nc_evict_step:
  assumes inv: "nc_inv ext W s" and c: "cm_cands (nc_mgr s) = k # ks"
  obtains e m s2 where "cm_replace_one (nc_mgr s) = Inr (Some e, m)" "nb_ref_count e = 0"
    "nc_release_parent (nb_parent_nid e) (s\<lparr>nc_mgr := m, nc_cur := nc_cur s - 1\<rparr>) = (Inr (), s2)"
    "nc_inv ext W s2" "nc_frame s s2" "dom (nc_ix s2) = dom (nc_ix s) - {k}"
proof -
  note d = nc_invD [OF inv]
  obtain m e where m: "cm_replace_one (nc_mgr s) = Inr (Some e, m)" "nc_ix s k = Some e" "cm_inv m"
      "cm_index m = (nc_ix s)(k := None)" "cm_pins m = cm_pins (nc_mgr s)"
    using cm_replace_one_ok [OF d(1) c] by auto
  have k: "k \<in> set (cm_cands (nc_mgr s))" by (simp add: c)
  define p where "p = nb_parent_nid e"
  let ?s = "s\<lparr>nc_mgr := m, nc_cur := nc_cur s - 1\<rparr>"
  note inv1 = nc_evict_inv [OF inv k m(2-5) p_def]
  have dom: "dom (nc_ix ?s) = dom (nc_ix s) - {k}" by (simp add: m(4))
  show thesis
  proof (cases "p = INVALID_NID")
    case True
    show ?thesis
      by (rule that [OF m(1) nc_cand(1) [OF inv k m(2)], of ?s])
         (use True inv1 dom in \<open>auto simp: nc_release_parent_def p_def\<close>)
  next
    case False
    let ?ext = "ext(p := Suc (ext p))"
    have inv': "nc_inv ?ext W ?s" using inv1(1) False by simp
    have "p \<in> dom (nc_ix ?s)" using nc_invD(6) [OF inv'] by auto
    moreover obtain m2 where m2: "nc_sub_refcount p ?s = (Inr (), ?s\<lparr>nc_mgr := m2\<rparr>)"
        "nc_inv (?ext(p := ?ext p - 1)) W (?s\<lparr>nc_mgr := m2\<rparr>)" "nc_frame ?s (?s\<lparr>nc_mgr := m2\<rparr>)"
        "dom (cm_index m2) = dom (nc_ix ?s)"
      using nc_sub_refcount_ok [OF inv', of p] d(7) by auto
    ultimately have "nc_release_parent p ?s = (Inr (), ?s\<lparr>nc_mgr := m2\<rparr>)"
      using False by (auto simp: nc_release_parent_def)
    moreover have "?ext(p := ?ext p - 1) = ext" by auto
    ultimately show ?thesis
      using that [OF m(1) nc_cand(1) [OF inv k m(2)], of "?s\<lparr>nc_mgr := m2\<rparr>"] m2 dom
        nc_frame_trans [OF inv1(2) m2(3)] by (simp add: p_def)
  qed
qed

lemma nc_replace_loop_ok:
  assumes "nc_inv ext W s"
  shows "\<exists>s'. nc_replace_loop s = (Inr (), s') \<and> nc_inv ext W s' \<and> nc_frame s s' \<and> dom (nc_ix s') \<subseteq> dom (nc_ix s) \<and>
    (nc_cur s' \<le> nc_expect s \<or> cm_cands (nc_mgr s') = [])"
  using assms
proof (induction s rule: nc_replace_loop.induct)
  case (1 s)
  show ?case
  proof (cases "cm_cands (nc_mgr s)")
    case Nil
    with "1.prems" show ?thesis
      by (simp add: nc_replace_loop.simps [of s] cm_replace_one_empty)
  next
    case (Cons k ks)
    obtain e m s2 where st: "cm_replace_one (nc_mgr s) = Inr (Some e, m)" "nb_ref_count e = 0"
        "nc_release_parent (nb_parent_nid e) (s\<lparr>nc_mgr := m, nc_cur := nc_cur s - 1\<rparr>) = (Inr (), s2)"
        "nc_inv ext W s2" "nc_frame s s2" "dom (nc_ix s2) = dom (nc_ix s) - {k}"
      using nc_evict_step [OF "1.prems" Cons] by blast
    have ex: "nc_expect s2 = nc_expect s" using st(5) by (simp add: nc_frame_def)
    show ?thesis
    proof (cases "nc_cur s2 \<le> nc_expect s2")
      case True
      with st ex show ?thesis by (auto simp: nc_replace_loop.simps [of s])
    next
      case False
      obtain s3 where "nc_replace_loop s2 = (Inr (), s3)" "nc_inv ext W s3" "nc_frame s2 s3"
          "dom (nc_ix s3) \<subseteq> dom (nc_ix s2)" "nc_cur s3 \<le> nc_expect s2 \<or> cm_cands (nc_mgr s3) = []"
        using "1.IH" [OF st(1) refl refl _ st(3) [symmetric] refl False st(4)] st(2) by auto
      with st ex False show ?thesis
        by (auto simp: nc_replace_loop.simps [of s] intro: nc_frame_trans)
    qed
  qed
qed

lemma nc_do_replace_ok:
  assumes "nc_inv ext W s"
  shows "\<exists>s'. nc_do_replace s = (Inr (), s') \<and> nc_inv ext W s' \<and> nc_frame s s' \<and> dom (nc_ix s') \<subseteq> dom (nc_ix s) \<and>
    (nc_cur s' \<le> nc_expect s \<or> cm_cands (nc_mgr s') = [])"
  using nc_replace_loop_ok [OF assms] assms by (auto simp: nc_do_replace_def)

section \<open>Adding and finding entries\<close>

text \<open>Room in the reference counters for \<open>n\<close> more handles or entries.\<close>

definition nc_room :: "(u32 \<Rightarrow> nat) \<Rightarrow> nat \<Rightarrow> fsys \<Rightarrow> bool" where
  "nc_room ext n s \<longleftrightarrow> (\<forall>k. ext k + card (dom (nc_ix s)) + n < 2 ^ 32)"

lemma nc_roomD: "nc_room ext n s \<Longrightarrow> ext k + card (dom (nc_ix s)) + n < 2 ^ 32"
  unfolding nc_room_def by blast

lemma nc_room_mono:
  assumes "nc_room ext n s" "\<forall>k. ext' k + card (dom (nc_ix s')) + n' \<le> ext k + card (dom (nc_ix s)) + n"
  shows "nc_room ext' n' s'"
  using assms le_less_trans unfolding nc_room_def by blast

lemma nc_inv_ext_outside: "nc_inv ext W s \<Longrightarrow> k \<notin> dom (nc_ix s) \<Longrightarrow> ext k = 0"
  using nc_invD(6) [of ext W s] by blast

lemma nc_inv_insert:
  assumes inv: "nc_inv (if p = INVALID_NID then ext else ext(p := Suc (ext p))) W s"
    and n: "n \<notin> dom (nc_ix s)" "n \<noteq> INVALID_NID" and p: "p \<noteq> INVALID_NID \<longrightarrow> p \<in> dom (nc_ix s)"
    and m: "cm_inv m" "cm_index m = (nc_ix s)(n \<mapsto> e)" "cm_pins m = insert n (cm_pins (nc_mgr s))"
    and e: "nb_nid e = n" "nb_parent_nid e = p" "nb_ref_count e = 1" "nb_state e = Uptodate"
    and W': "W \<subseteq> W'" "W' \<subseteq> insert n W" "node_ondisk s n = Some (nb_node e) \<or> n \<in> W'" "W \<subseteq> {k. ext k \<noteq> 0}"
    and i: "i = Suc (nc_cur s)"
  shows "nc_inv (ext(n := 1)) W' (s\<lparr>nc_mgr := m, nc_cur := i, nc_next := nx\<rparr>)"
proof -
  let ?ext = "if p = INVALID_NID then ext else ext(p := Suc (ext p))"
  note d = nc_invD [OF inv]
  have ixn: "nc_ix s n = None" using n(1) by auto
  have pn: "p \<noteq> n" using p n by auto
  have ch: "children ((nc_ix s)(n \<mapsto> e)) j = children (nc_ix s) j + of_bool (j = p)" for j
    using children_add [of "nc_ix s" n e j] ixn d(3) e(2) by simp
  have ext0: "ext n = 0" using nc_inv_ext_outside [OF inv n(1)] pn by (auto split: if_splits)
  have chn: "children (nc_ix s) n = 0"
  proof -
    have "{j. \<exists>x. nc_ix s j = Some x \<and> nb_parent_nid x = n} = {}"
      using d(8) n unfolding nc_entry_ok_def by blast
    then show ?thesis by (simp add: children_def)
  qed
  then have chn': "children ((nc_ix s)(n \<mapsto> e)) n = 0" using ch [of n] pn by simp
  have dn: "n \<notin> dirty_nids s" using d(4) n(1) by blast
  have extj: "?ext j = ext j + of_bool (j = p \<and> p \<noteq> INVALID_NID)" for j by auto
  show ?thesis
  proof (rule nc_invI)
    fix j x assume "nc_ix (s\<lparr>nc_mgr := m, nc_cur := i, nc_next := nx\<rparr>) j = Some x"
    then have x: "((nc_ix s)(n \<mapsto> e)) j = Some x" by (simp add: m(2))
    have "nc_entry_ok (ext(n := 1)) W' (s\<lparr>nc_mgr := m\<rparr>) j x"
    proof (cases "j = n")
      case True
      have "x = e" using x True by simp
      from this [symmetric] True show ?thesis
        using x e n(2) p W'(3) chn' dn unfolding nc_entry_ok_def by (auto simp add: m(2,3))
    next
      case False
      then have xj: "nc_ix s j = Some x" using x by simp
      note okj = d(8) [OF xj, unfolded nc_entry_ok_def]
      have "j \<in> W' \<longleftrightarrow> j \<in> W" using W'(1,2) False by auto
      then show ?thesis
        using okj False extj [of j] unfolding nc_entry_ok_def by (simp add: ch m(2,3))
    qed
    then show "nc_entry_ok (ext(n := 1)) W' (s\<lparr>nc_mgr := m, nc_cur := i, nc_next := nx\<rparr>) j x"
      by (simp add: nc_entry_ok_def)
  next
    show "{k. (ext(n := 1)) k \<noteq> 0} \<subseteq> dom (nc_ix (s\<lparr>nc_mgr := m, nc_cur := i, nc_next := nx\<rparr>))"
      using d(6) by (auto simp: m(2) split: if_splits)
    show "W' \<subseteq> {k. (ext(n := 1)) k \<noteq> 0}"
      using W'(2,4) by auto
  qed (use m(1) d i ixn in \<open>auto simp: m(2) domIff card_insert_if\<close>)
qed

lemma nc_add_ok:
  assumes inv: "nc_inv ext W s" and room: "nc_room ext 3 s"
    and n: "n \<notin> dom (nc_ix s)" "n \<noteq> INVALID_NID" and p: "p \<noteq> INVALID_NID \<longrightarrow> p \<in> dom (nc_ix s)"
    and W': "W \<subseteq> W'" "W' \<subseteq> insert n W" "node_ondisk s n = Some b \<or> n \<in> W'"
  shows "\<exists>s'. nc_add b n p lpa s = (Inr n, s') \<and> nc_inv (ext(n := 1)) W' s' \<and>
    nc_next s' = Suc (nc_next s) \<and> fs_meta s' = fs_meta s \<and> node_dev s' = node_dev s \<and> nc_expect s' = nc_expect s \<and>
    nc_dirty s' = nc_dirty s \<and> nc_dirty_pos s' = nc_dirty_pos s \<and>
    node_view s' = (node_view s)(n \<mapsto> b) \<and> nc_parents s' \<subseteq>\<^sub>m (nc_parents s)(n \<mapsto> p) \<and>
    dom (nc_ix s') \<subseteq> insert n (dom (nc_ix s))"
proof -
  let ?ext = "if p = INVALID_NID then ext else ext(p := Suc (ext p))"
  have ixn: "nc_ix s n = None" using n(1) by auto
  obtain m1 where m1: "(if p \<noteq> INVALID_NID then nc_add_refcount p else ret ()) s = (Inr (), s\<lparr>nc_mgr := m1\<rparr>)"
      "nc_inv ?ext W (s\<lparr>nc_mgr := m1\<rparr>)" "nc_frame s (s\<lparr>nc_mgr := m1\<rparr>)" "dom (cm_index m1) = dom (nc_ix s)"
      "p = INVALID_NID \<longrightarrow> m1 = nc_mgr s"
  proof (cases "p = INVALID_NID")
    case True
    then show ?thesis using that [of "nc_mgr s"] inv by (simp add: ret_def)
  next
    case False
    have "ext p + card (dom (nc_ix s)) + 2 < 2 ^ 32" using nc_roomD [OF room, of p] by simp
    from nc_add_refcount_ok [OF inv _ this] p False that show ?thesis by auto
  qed
  let ?s1 = "s\<lparr>nc_mgr := m1\<rparr>"
  let ?e = "\<lparr>nb_ptr = nc_next s, nb_nid = n, nb_parent_nid = p, nb_lpa = lpa, nb_node = b, nb_ref_count = 0, nb_state = Uptodate\<rparr>"
  obtain m2 where m2: "cm_add n ?e m1 = Inr m2" "cm_inv m2" "cm_index m2 = (cm_index m1)(n \<mapsto> ?e)" "cm_pins m2 = cm_pins m1"
    using cm_add_ok [of m1 n ?e] nc_invD(1) [OF m1(2)] m1(4) ixn by auto
  let ?u = "cm_update n (\<lambda>e. e\<lparr>nb_ref_count := nb_ref_count e + 1\<rparr>) m2"
  have "cm_inv ?u" "n \<in> dom (cm_index ?u)" using m2 by auto
  then obtain m3 where m3: "cm_pin n ?u = Inr m3" "cm_inv m3" "cm_index m3 = (cm_index m1)(n \<mapsto> ?e\<lparr>nb_ref_count := 1\<rparr>)"
      "cm_pins m3 = insert n (cm_pins m1)"
    using cm_pin_ok [of ?u n] m2 by auto
  let ?s3 = "?s1\<lparr>nc_mgr := m3, nc_cur := Suc (nc_cur s), nc_next := Suc (nc_next s)\<rparr>"
  have ref: "nc_add_refcount n (?s1\<lparr>nc_mgr := m2\<rparr>) = (Inr (), ?s1\<lparr>nc_mgr := m3\<rparr>)"
    using m2 m3(1) by (simp add: nc_add_refcount_def nc_write_def nc_entry_def on_mgr_def prog_simps)
  have inv3: "nc_inv (ext(n := 1)) W' ?s3"
    by (rule nc_inv_insert [OF m1(2)]) (use n p m1(4) m3 W' nc_invD(7) [OF inv] in auto)
  obtain s4 where s4: "nc_do_replace ?s3 = (Inr (), s4)" "nc_inv (ext(n := 1)) W' s4" "nc_frame ?s3 s4"
      "dom (nc_ix s4) \<subseteq> dom (nc_ix ?s3)"
    using nc_do_replace_ok [OF inv3] by auto
  have run: "nc_add b n p lpa s = (Inr n, s4)"
    using m1(1,5) m2(1) ref s4(1) ixn p
    by (cases "p = INVALID_NID") (auto simp: nc_add_def on_mgr_def prog_simps)
  have v: "node_view ?s3 = (node_view s)(n \<mapsto> b)" "nc_parents ?s3 \<subseteq>\<^sub>m (nc_parents s)(n \<mapsto> p)"
  proof -
    have "node_view ?s3 = (node_view ?s1)(n \<mapsto> b)" "nc_parents ?s3 = (nc_parents ?s1)(n \<mapsto> p)"
      using m3(3) by (simp_all add: node_view_def nc_parents_def fun_eq_iff split: option.splits)
    then show "node_view ?s3 = (node_view s)(n \<mapsto> b)" "nc_parents ?s3 \<subseteq>\<^sub>m (nc_parents s)(n \<mapsto> p)"
      using m1(3) unfolding nc_frame_def by (auto simp: map_le_def)
  qed
  show ?thesis
    using run s4 v m3(3) m1(4) map_le_trans [of "nc_parents s4" "nc_parents ?s3"] unfolding nc_frame_def
    by (intro exI [of _ s4]) auto
qed

lemma nc_get_miss:
  assumes "nc_inv ext W s" "n \<notin> dom (nc_ix s)"
  shows "nc_get n s = (Inr None, s)"
proof -
  have "nc_ix s n = None" using assms(2) by auto
  then show ?thesis by (simp add: nc_get_def cm_get_def index_get_def)
qed

lemma nc_inv_mgr_cong:
  assumes "nc_inv ext W s" "cm_inv m" "cm_index m = nc_ix s" "cm_pins m = cm_pins (nc_mgr s)"
  shows "nc_inv ext W (s\<lparr>nc_mgr := m\<rparr>)" "nc_frame s (s\<lparr>nc_mgr := m\<rparr>)"
proof -
  show "nc_inv ext W (s\<lparr>nc_mgr := m\<rparr>)"
    using assms by (simp add: nc_inv_def nc_entry_ok_def)
  have "nc_parents (s\<lparr>nc_mgr := m\<rparr>) = nc_parents s" by (simp add: nc_parents_def fun_eq_iff assms(3))
  moreover have "node_view (s\<lparr>nc_mgr := m\<rparr>) = node_view s"
    by (simp add: node_view_def fun_eq_iff assms(3) split: option.splits)
  ultimately show "nc_frame s (s\<lparr>nc_mgr := m\<rparr>)" by (simp add: nc_frame_def)
qed

lemma nc_get_hit:
  assumes inv: "nc_inv ext W s" and room: "nc_room ext 3 s" and n: "n \<in> dom (nc_ix s)"
  shows "\<exists>s'. nc_get n s = (Inr (Some n), s') \<and> nc_inv (ext(n := Suc (ext n))) W s' \<and> nc_frame s s' \<and>
    dom (nc_ix s') = dom (nc_ix s)"
proof -
  obtain m where m: "cm_get n True (nc_mgr s) = Inr (nc_ix s n, m)" "cm_inv m" "cm_index m = nc_ix s"
      "cm_pins m = cm_pins (nc_mgr s)"
    using cm_get_ok [OF nc_invD(1) [OF inv]] by metis
  note inv1 = nc_inv_mgr_cong [OF inv m(2-4)]
  have "ext n + card (dom (nc_ix (s\<lparr>nc_mgr := m\<rparr>))) + 2 < 2 ^ 32" "n \<in> dom (nc_ix (s\<lparr>nc_mgr := m\<rparr>))"
    using nc_roomD [OF room, of n] n by (auto simp: m(3))
  from nc_add_refcount_ok [OF inv1(1) this(2,1)] obtain m2 where
    "nc_add_refcount n (s\<lparr>nc_mgr := m\<rparr>) = (Inr (), s\<lparr>nc_mgr := m2\<rparr>)"
    "nc_inv (ext(n := Suc (ext n))) W (s\<lparr>nc_mgr := m2\<rparr>)" "nc_frame (s\<lparr>nc_mgr := m\<rparr>) (s\<lparr>nc_mgr := m2\<rparr>)"
    "dom (cm_index m2) = dom (nc_ix s)"
    by (auto simp: m(3))
  with m(1) n inv1(2) show ?thesis
    by (intro exI [of _ "s\<lparr>nc_mgr := m2\<rparr>"]) (auto simp: nc_get_def prog_simps intro: nc_frame_trans)
qed

section \<open>Handles and writes\<close>

lemma nc_handle_dtor_ok:
  assumes "nc_inv ext W s" "ext k \<noteq> 0" "k \<in> W \<longrightarrow> ext k \<noteq> 1"
  shows "\<exists>s'. nc_handle_dtor (Some k) s = (Inr (), s') \<and> nc_inv (ext(k := ext k - 1)) W s' \<and> nc_frame s s' \<and>
    dom (nc_ix s') = dom (nc_ix s)"
proof -
  obtain m where "nc_sub_refcount k s = (Inr (), s\<lparr>nc_mgr := m\<rparr>)" "nc_inv (ext(k := ext k - 1)) W (s\<lparr>nc_mgr := m\<rparr>)"
      "nc_frame s (s\<lparr>nc_mgr := m\<rparr>)" "dom (cm_index m) = dom (nc_ix s)"
    using nc_sub_refcount_ok [OF assms] by blast
  then show ?thesis
    by (intro exI [of _ "s\<lparr>nc_mgr := m\<rparr>"]) (simp add: nc_handle_dtor_def nc_do_subref_def catch_all_def)
qed

lemma nc_held:
  assumes "nc_inv ext W s" "ext k \<noteq> 0"
  obtains e where "nc_ix s k = Some e" "nc_entry_ok ext W s k e" "nb_ref_count e \<noteq> 0" "k \<in> cm_pins (nc_mgr s)"
    "node_view s k = Some (nb_node e)"
proof -
  obtain e where e: "nc_ix s k = Some e" using nc_invD(6) [OF assms(1)] assms(2) by auto
  note ok = nc_invD(8) [OF assms(1) e]
  have "nb_ref_count e \<noteq> 0" using ok assms(2) unfolding nc_entry_ok_def by (metis add_is_0 unat_0)
  with that e ok show thesis by (simp add: nc_entry_ok_def node_view_def)
qed

text \<open>A change of the content or the state of one entry.\<close>

lemma nc_inv_rewrite:
  assumes inv: "nc_inv ext W s" and e: "nc_ix s k = Some e"
    and same: "nb_parent_nid e' = nb_parent_nid e"
    and ix: "cm_index m = (nc_ix s)(k \<mapsto> e')" "cm_replacer m = cm_replacer (nc_mgr s)"
    and s': "nc_mgr s' = m" "nc_cur s' = nc_cur s" "node_ondisk s' = node_ondisk s"
    and dirty: "dirty_nids s' - {k} = dirty_nids s - {k}" "distinct (map snd (nc_dirty s'))"
    and W': "W' - {k} = W - {k}" "W' \<subseteq> {j. ext j \<noteq> 0}"
    and ok: "nc_entry_ok ext W' (s\<lparr>nc_dirty := nc_dirty s'\<rparr>) k e'"
  shows "nc_inv ext W' s'"
proof -
  note d = nc_invD [OF inv]
  have dom: "dom (cm_index m) = dom (nc_ix s)" using e by (auto simp: ix)
  have mi: "cm_inv m" using d(1) dom by (simp add: cm_inv_def ix(2))
  have ch: "children ((nc_ix s)(k \<mapsto> e')) = children (nc_ix s)" using children_upd [of "nc_ix s" k e e'] e same by simp
  have dn: "dirty_nids (s\<lparr>nc_dirty := nc_dirty s'\<rparr>) = dirty_nids s'" by (simp add: dirty_nids_def)
  show ?thesis
  proof (rule nc_invI)
    fix j x assume "nc_ix s' j = Some x"
    then have x: "((nc_ix s)(k \<mapsto> e')) j = Some x" by (simp add: s' ix)
    show "nc_entry_ok ext W' s' j x"
    proof (cases "j = k")
      case True
      then have "x = e'" using x by simp
      with True ok e show ?thesis unfolding nc_entry_ok_def by (simp add: s' ix ch dn insert_absorb domI)
    next
      case False
      then have xj: "nc_ix s j = Some x" using x by simp
      have "j \<in> W' \<longleftrightarrow> j \<in> W" "j \<in> dirty_nids s' \<longleftrightarrow> j \<in> dirty_nids s" using W' dirty False by blast+
      then show ?thesis using d(8) [OF xj] unfolding nc_entry_ok_def by (simp add: s' ix ch)
    qed
  next
    show "nc_cur s' = card (dom (nc_ix s'))" using d(2) dom by (simp add: s')
    have "dirty_nids s' \<subseteq> insert k (dirty_nids s)" using dirty(1) by blast
    then show "dirty_nids s' \<subseteq> dom (nc_ix s')" using d(4) dom e by (auto simp: s')
    show "{k. ext k \<noteq> 0} \<subseteq> dom (nc_ix s')" using d(6) dom by (simp add: s')
  qed (use mi W' dirty s' in auto)
qed

lemma nc_set_node_ok:
  assumes inv: "nc_inv ext W s" and k: "ext k \<noteq> 0" and v: "node_view s k = Some b"
  shows "\<exists>s'. nc_set_node k f s = (Inr (), s') \<and> nc_inv ext (insert k W) s' \<and>
    fs_meta s' = fs_meta s \<and> node_dev s' = node_dev s \<and> nc_dirty s' = nc_dirty s \<and> nc_next s' = nc_next s \<and>
    node_view s' = (node_view s)(k \<mapsto> f b) \<and> nc_parents s' = nc_parents s \<and> dom (nc_ix s') = dom (nc_ix s)"
proof -
  obtain e where e: "nc_ix s k = Some e" "nc_entry_ok ext W s k e" "node_view s k = Some (nb_node e)"
    using nc_held [OF inv k] by blast
  let ?m = "cm_update k (\<lambda>e. e\<lparr>nb_node := f (nb_node e)\<rparr>) (nc_mgr s)"
  let ?e = "e\<lparr>nb_node := f (nb_node e)\<rparr>"
  let ?s = "s\<lparr>nc_mgr := ?m\<rparr>"
  have b: "nb_node e = b" using e(3) v by simp
  have "nc_inv ext (insert k W) ?s"
    by (rule nc_inv_rewrite [OF inv e(1), of ?e ?m])
       (use e nc_invD [OF inv] k in \<open>auto simp: nc_entry_ok_def dirty_nids_def\<close>)
  moreover have "node_view ?s = (node_view s)(k \<mapsto> f b)" "nc_parents ?s = nc_parents s" "dom (nc_ix ?s) = dom (nc_ix s)"
    using e(1) b by (auto simp: node_view_def nc_parents_def fun_eq_iff split: option.splits)
  ultimately show ?thesis by (simp add: nc_set_node_def nc_write_def modify_def)
qed

lemma nc_mark_dirty_ok:
  assumes inv: "nc_inv ext W s" and k: "ext k \<noteq> 0" and room: "nc_room ext 3 s"
  shows "\<exists>s'. nc_mark_dirty k s = (Inr (), s') \<and> nc_inv ext (W - {k}) s' \<and>
    fs_meta s' = fs_meta s \<and> node_dev s' = node_dev s \<and> dirty_nids s' = insert k (dirty_nids s) \<and>
    node_view s' = node_view s \<and> nc_parents s' = nc_parents s \<and> dom (nc_ix s') = dom (nc_ix s)"
proof -
  obtain e where e: "nc_ix s k = Some e" "nc_entry_ok ext W s k e" "nb_ref_count e \<noteq> 0" "k \<in> cm_pins (nc_mgr s)"
    using nc_held [OF inv k] by blast
  note ok = e(2) [unfolded nc_entry_ok_def] and d = nc_invD [OF inv]
  show ?thesis
  proof (cases "nb_state e = Dirty")
    case True
    have "nc_entry_ok ext (W - {k}) (s\<lparr>nc_dirty := nc_dirty s\<rparr>) k e"
      using ok True by (simp add: nc_entry_ok_def)
    then have "nc_inv ext (W - {k}) s"
      by (intro nc_inv_rewrite [OF inv e(1), of e "nc_mgr s"]) (use e(1) d in \<open>auto simp: fun_eq_iff\<close>)
    with True e ok show ?thesis
      by (auto simp: nc_mark_dirty_def nc_entry_def prog_simps insert_absorb)
  next
    case False
    then have st: "nb_state e = Uptodate" "k \<notin> dirty_nids s" using ok by (cases "nb_state e"; simp)+
    have "nb_ref_count e \<noteq> -1"
      using nc_ref_bound [OF inv e(1)] nc_roomD [OF room, of k] by (auto simp: unat_u32_max)
    then have inc: "unat (nb_ref_count e + 1) = Suc (unat (nb_ref_count e))" by (rule unat_u32_inc)
    then have nz: "nb_ref_count e + 1 \<noteq> 0" by (metis nat.simps(3) unat_0)
    let ?e = "e\<lparr>nb_state := Dirty, nb_ref_count := nb_ref_count e + 1\<rparr>"
    let ?m = "cm_update k (\<lambda>_. ?e) (nc_mgr s)"
    define s' where "s' = s\<lparr>nc_mgr := ?m, nc_dirty := nc_dirty s @ [(nc_next s, k)],
         nc_dirty_pos := (if nc_dirty_pos s (nb_ptr e) = None
           then (nc_dirty_pos s)(nb_ptr e \<mapsto> nc_next s) else nc_dirty_pos s), nc_next := Suc (nc_next s)\<rparr>"
    have upd: "cm_update k (\<lambda>e. e\<lparr>nb_ref_count := nb_ref_count e + 1\<rparr>) (cm_update k (\<lambda>e. e\<lparr>nb_state := Dirty\<rparr>) (nc_mgr s)) = ?m"
      using e(1) by (simp add: cm_update_def)
    have run: "nc_mark_dirty k s = (Inr (), s')"
      using e st(1) upd
      by (simp add: nc_mark_dirty_def nc_entry_def nc_write_def nc_add_refcount_def prog_simps s'_def)
    have dn: "dirty_nids s' = insert k (dirty_nids s)" by (simp add: s'_def dirty_nids_def)
    have "nc_inv ext (W - {k}) s'"
    proof (rule nc_inv_rewrite [OF inv e(1), of ?e ?m])
      show "node_ondisk s' = node_ondisk s" by (rule node_ondisk_cong) (simp_all add: s'_def)
      have "dirty_nids (s\<lparr>nc_dirty := nc_dirty s'\<rparr>) = insert k (dirty_nids s)" using dn by (simp add: dirty_nids_def)
      then show "nc_entry_ok ext (W - {k}) (s\<lparr>nc_dirty := nc_dirty s'\<rparr>) k ?e"
        using ok st inc nz e(4) by (simp add: nc_entry_ok_def)
      show "distinct (map snd (nc_dirty s'))" using d(5) st(2) by (auto simp: s'_def dirty_nids_def)
    qed (use dn d(7) e(1) in \<open>auto simp: s'_def\<close>)
    moreover have "node_view s' = node_view s" "nc_parents s' = nc_parents s" "dom (nc_ix s') = dom (nc_ix s)"
      using e(1) by (auto simp: s'_def node_view_def nc_parents_def fun_eq_iff split: option.splits)
    ultimately show ?thesis using run dn by (simp add: s'_def)
  qed
qed

section \<open>Reading nodes\<close>

lemma meta_step_nil: "meta_inv m \<Longrightarrow> meta_step m [] [] [] m"
  by (simp add: meta_step_def journaled_refl nat_versions_def sit_versions_def)

text \<open>What reading nodes leaves alone: the tables, the device and every node a reader sees.\<close>

definition sys_frame :: "fsys \<Rightarrow> fsys \<Rightarrow> bool" where
  "sys_frame s s' \<longleftrightarrow>
     meta_step (fs_meta s) [] [] [] (fs_meta s') \<and> node_dev s' = node_dev s \<and>
     dirty_nids s' = dirty_nids s \<and> node_view s' = node_view s"

lemma sys_frame_refl: "meta_inv (fs_meta s) \<Longrightarrow> sys_frame s s"
  by (simp add: sys_frame_def meta_step_nil)

lemma sys_frame_trans: "sys_frame s t \<Longrightarrow> sys_frame t u \<Longrightarrow> sys_frame s u"
  using meta_step_trans [of "fs_meta s" "[]" "[]" "[]" "fs_meta t" "[]" "[]" "[]" "fs_meta u"]
  by (auto simp: sys_frame_def)

lemma nc_frame_sys: "nc_frame s s' \<Longrightarrow> meta_inv (fs_meta s) \<Longrightarrow> sys_frame s s'"
  by (simp add: nc_frame_def sys_frame_def meta_step_nil dirty_nids_def)

text \<open>The metadata a reader depends on: the caches keep their invariant and have room.\<close>

definition meta_ready :: "fsys \<Rightarrow> bool" where
  "meta_ready s \<longleftrightarrow> meta_inv (fs_meta s) \<and> meta_room (fs_meta s)"

lemma meta_step_ready:
  assumes "meta_step m [] [] [] m'" "meta_room m"
  shows "meta_room m'" "nid_in_range m' = nid_in_range m" "nat_at m' = nat_at m" "super_blk m' = super_blk m"
  using meta_stepD [OF assms(1)] assms(2)
  by (simp_all add: meta_room_def nat_versions_def sit_versions_def nid_in_range_def fun_eq_iff)

lemma sys_frame_ready: "sys_frame s s' \<Longrightarrow> meta_ready s \<Longrightarrow> meta_ready s'"
  unfolding sys_frame_def meta_ready_def using meta_step_ready(1) meta_stepD(1) by blast

lemma nc_inv_meta:
  assumes "nc_inv ext W s" "nat_at m = nat_at (fs_meta s)"
  shows "nc_inv ext W (s\<lparr>fs_meta := m\<rparr>)" "node_view (s\<lparr>fs_meta := m\<rparr>) = node_view s"
    "nc_parents (s\<lparr>fs_meta := m\<rparr>) = nc_parents s"
proof -
  have n: "node_ondisk (s\<lparr>fs_meta := m\<rparr>) = node_ondisk s"
    by (simp add: node_ondisk_def assms(2) fun_eq_iff split: option.splits)
  then show "nc_inv ext W (s\<lparr>fs_meta := m\<rparr>)" using assms(1) by (simp add: nc_inv_def nc_entry_ok_def)
  show "node_view (s\<lparr>fs_meta := m\<rparr>) = node_view s" "nc_parents (s\<lparr>fs_meta := m\<rparr>) = nc_parents s"
    by (simp_all add: node_view_def nc_parents_def n fun_eq_iff split: option.splits)
qed

lemma get_lpa_of_nid_sys:
  assumes "meta_ready s" "nid_in_range (fs_meta s) n" "nat_at (fs_meta s) n = Some ne"
  shows "\<exists>m. on_meta (get_lpa_of_nid n) s = (Inr (ne_block_addr ne), s\<lparr>fs_meta := m\<rparr>) \<and>
    meta_step (fs_meta s) [] [] [] m \<and> nat_at m = nat_at (fs_meta s)"
proof -
  have "meta_inv (fs_meta s)" "meta_room (fs_meta s)" using assms(1) by (simp_all add: meta_ready_def)
  from get_lpa_of_nid_ok [OF this(1) assms(2,3) meta_roomD(3) [OF this(2)]] show ?thesis
    using meta_stepD(4) by (fastforce simp: on_meta_def)
qed

text \<open>
  A node is read whether or not it is cached; the caller gets one more handle and nothing
  that can be seen changes.
\<close>

lemma get_node_entry_ok:
  assumes inv: "nc_inv ext W s" and room: "nc_room ext 3 s" and meta: "meta_ready s"
    and n: "n \<noteq> INVALID_NID" "node_view s n = Some b" "n \<notin> dom (nc_ix s) \<longrightarrow> nid_in_range (fs_meta s) n"
    and b: "f_nid b = n" "p = INVALID_NID \<longrightarrow> f_ino b = n" and p: "p \<noteq> INVALID_NID \<longrightarrow> p \<in> dom (nc_ix s)"
  shows "\<exists>s'. get_node_entry n p s = (Inr n, s') \<and> nc_inv (ext(n := Suc (ext n))) W s' \<and> sys_frame s s' \<and>
    nc_parents s' \<subseteq>\<^sub>m (if n \<in> dom (nc_ix s) then nc_parents s else (nc_parents s)(n \<mapsto> p)) \<and>
    dom (nc_ix s') \<subseteq> insert n (dom (nc_ix s))"
proof -
  have m: "meta_inv (fs_meta s)" using meta by (simp add: meta_ready_def)
  have fin: "get_node_entry n p s = (Inr n, s')"
    if "bnd (nc_get n) (\<lambda>h. if h = None then
            bnd (on_meta (get_lpa_of_nid n)) (\<lambda>nid_lpa. bnd (read_node nid_lpa) (\<lambda>buf. nc_add buf n p nid_lpa))
          else ret n) s = (Inr n, s')"
      "nc_inv (ext(n := Suc (ext n))) W s'" "node_view s' = node_view s" for s'
  proof -
    note t = that
    obtain e where "nc_ix s' n = Some e" "node_view s' n = Some (nb_node e)"
      using nc_held [OF t(2), of n] by auto
    then have "nc_entry n s' = (Inr e, s')" "nb_node e = b" using t(3) n(2) by (simp_all add: nc_entry_def)
    then show ?thesis
      using t(1) b unfolding get_node_entry_def bnd_assoc [symmetric]
      by (auto simp: bnd_def [of "bnd _ _"] assert_that_def ret_def bnd_def)
  qed
  show ?thesis
  proof (cases "n \<in> dom (nc_ix s)")
    case True
    obtain s' where s': "nc_get n s = (Inr (Some n), s')" "nc_inv (ext(n := Suc (ext n))) W s'" "nc_frame s s'"
        "dom (nc_ix s') = dom (nc_ix s)"
      using nc_get_hit [OF inv room True] by blast
    then have "get_node_entry n p s = (Inr n, s')"
      by (intro fin) (simp_all add: prog_simps nc_frame_def)
    with s' True show ?thesis using nc_frame_sys [OF s'(3) m] by (auto simp: nc_frame_def)
  next
    case False
    then have v: "node_ondisk s n = Some b" using n(2) by (auto simp: node_view_def split: option.splits)
    then obtain ne where ne: "nat_at (fs_meta s) n = Some ne" "node_dev s (ne_block_addr ne) = Some b"
      by (auto simp: node_ondisk_def split: option.splits)
    obtain mt where mt: "on_meta (get_lpa_of_nid n) s = (Inr (ne_block_addr ne), s\<lparr>fs_meta := mt\<rparr>)"
        "meta_step (fs_meta s) [] [] [] mt" "nat_at mt = nat_at (fs_meta s)"
      using get_lpa_of_nid_sys [OF meta _ ne(1)] n(3) False by auto
    let ?s = "s\<lparr>fs_meta := mt\<rparr>"
    note inv1 = nc_inv_meta [OF inv mt(3)]
    have "node_ondisk ?s = node_ondisk s"
      by (simp add: node_ondisk_def mt(3) fun_eq_iff split: option.splits)
    then have "\<exists>s'. nc_add b n p (ne_block_addr ne) ?s = (Inr n, s') \<and> nc_inv (ext(n := 1)) W s' \<and>
        nc_next s' = Suc (nc_next ?s) \<and> fs_meta s' = fs_meta ?s \<and> node_dev s' = node_dev ?s \<and> nc_expect s' = nc_expect ?s \<and>
        nc_dirty s' = nc_dirty ?s \<and> nc_dirty_pos s' = nc_dirty_pos ?s \<and>
        node_view s' = (node_view ?s)(n \<mapsto> b) \<and> nc_parents s' \<subseteq>\<^sub>m (nc_parents ?s)(n \<mapsto> p) \<and>
        dom (nc_ix s') \<subseteq> insert n (dom (nc_ix ?s))"
      by (intro nc_add_ok [OF inv1(1)]) (use room False n p v in \<open>auto simp: nc_room_def\<close>)
    then obtain s' where s': "nc_add b n p (ne_block_addr ne) ?s = (Inr n, s')" "nc_inv (ext(n := 1)) W s'"
        "fs_meta s' = mt" "node_dev s' = node_dev s" "nc_dirty s' = nc_dirty s"
        "node_view s' = (node_view s)(n \<mapsto> b)" "nc_parents s' \<subseteq>\<^sub>m (nc_parents s)(n \<mapsto> p)"
        "dom (nc_ix s') \<subseteq> insert n (dom (nc_ix s))"
      using inv1(2,3) by auto
    have e0: "ext n = 0" by (rule nc_inv_ext_outside [OF inv False])
    have v': "node_view s' = node_view s" using s'(6) n(2) by auto
    have "get_node_entry n p s = (Inr n, s')"
      by (rule fin)
         (use nc_get_miss [OF inv False] mt(1) ne(2) s' v' e0 in \<open>simp_all add: prog_simps read_node_def\<close>)
    moreover have "sys_frame s s'" using mt(2) s' v' by (simp add: sys_frame_def dirty_nids_def)
    ultimately show ?thesis using s' False e0 by auto
  qed
qed

section \<open>Taking the dirty list\<close>

definition clear_state :: "u32 set \<Rightarrow> (u32 \<rightharpoonup> nb_entry) \<Rightarrow> u32 \<rightharpoonup> nb_entry" where
  "clear_state D ix k = map_option (\<lambda>e. if k \<in> D then e\<lparr>nb_state := Uptodate\<rparr> else e) (ix k)"

lemma nc_clear_dirty_run:
  assumes "distinct ps" "\<forall>p \<in> set ps. \<exists>e. nc_ix s p = Some e \<and> nb_state e = Dirty \<and> nb_ref_count e \<noteq> 0"
  shows "\<exists>m. nc_clear_dirty ps s = (Inr (), s\<lparr>nc_mgr := m\<rparr>) \<and> cm_replacer m = cm_replacer (nc_mgr s) \<and>
    cm_index m = clear_state (set ps) (nc_ix s)"
  using assms
proof (induction ps arbitrary: s)
  case Nil
  have "clear_state {} (nc_ix s) = nc_ix s" by (auto simp: clear_state_def fun_eq_iff option.map_ident)
  then show ?case by (intro exI [of _ "nc_mgr s"]) (simp add: ret_def)
next
  case (Cons p ps)
  obtain e where e: "nc_ix s p = Some e" "nb_state e = Dirty" "nb_ref_count e \<noteq> 0" using Cons.prems(2) by auto
  let ?s = "s\<lparr>nc_mgr := cm_update p (\<lambda>e. e\<lparr>nb_state := Uptodate\<rparr>) (nc_mgr s)\<rparr>"
  have ge: "1 \<le> nb_ref_count e" using e(3) by (simp add: word_le_nat_alt unat_gt_0 Suc_le_eq)
  have ih: "distinct ps" "\<forall>q \<in> set ps. \<exists>e. nc_ix ?s q = Some e \<and> nb_state e = Dirty \<and> nb_ref_count e \<noteq> 0"
    using Cons.prems by auto
  obtain m where m: "nc_clear_dirty ps ?s = (Inr (), ?s\<lparr>nc_mgr := m\<rparr>)" "cm_replacer m = cm_replacer (nc_mgr ?s)"
      "cm_index m = clear_state (set ps) (nc_ix ?s)"
    using Cons.IH [OF ih] by blast
  have "cm_index m = clear_state (set (p # ps)) (nc_ix s)"
    unfolding m(3) using e(1) Cons.prems(1) by (auto simp: clear_state_def fun_eq_iff)
  with m e ge show ?case
    by (intro exI [of _ m]) (simp add: nc_entry_def nc_write_def prog_simps)
qed

text \<open>
  The handles of the dirty list pass to the caller and the nodes count as being written.
\<close>

lemma nc_get_and_clear_ok:
  assumes inv: "nc_inv ext W s"
  shows "\<exists>m. nc_get_and_clear_dirty_list s = (Inr (nc_dirty s), s\<lparr>nc_mgr := m, nc_dirty := []\<rparr>) \<and>
    nc_inv (\<lambda>k. ext k + of_bool (k \<in> dirty_nids s)) (W \<union> dirty_nids s) (s\<lparr>nc_mgr := m, nc_dirty := []\<rparr>) \<and>
    cm_index m = clear_state (dirty_nids s) (nc_ix s) \<and>
    node_view (s\<lparr>nc_mgr := m, nc_dirty := []\<rparr>) = node_view s"
proof -
  note d = nc_invD [OF inv]
  have ds: "set (map snd (nc_dirty s)) = dirty_nids s" by (simp add: dirty_nids_def)
  have "\<exists>e. nc_ix s p = Some e \<and> nb_state e = Dirty \<and> nb_ref_count e \<noteq> 0" if p: "p \<in> set (map snd (nc_dirty s))" for p
  proof -
    obtain e where e: "nc_ix s p = Some e" using d(4) p unfolding ds by auto
    have "unat (nb_ref_count e) \<noteq> 0" "nb_state e = Dirty"
      using d(8) [OF e] p unfolding ds nc_entry_ok_def by auto
    with e show ?thesis by auto
  qed
  then have h: "\<forall>p \<in> set (map snd (nc_dirty s)). \<exists>e. nc_ix s p = Some e \<and> nb_state e = Dirty \<and> nb_ref_count e \<noteq> 0" by blast
  obtain m where m: "nc_clear_dirty (map snd (nc_dirty s)) s = (Inr (), s\<lparr>nc_mgr := m\<rparr>)"
      "cm_replacer m = cm_replacer (nc_mgr s)" "cm_index m = clear_state (dirty_nids s) (nc_ix s)"
    using nc_clear_dirty_run [OF d(5) h] unfolding ds by blast
  let ?s = "s\<lparr>nc_mgr := m, nc_dirty := []\<rparr>"
  have ix: "cm_index m k = Some e' \<longleftrightarrow> (\<exists>e. nc_ix s k = Some e \<and> e' = (if k \<in> dirty_nids s then e\<lparr>nb_state := Uptodate\<rparr> else e))" for k e'
    by (auto simp: m(3) clear_state_def)
  have dom: "dom (cm_index m) = dom (nc_ix s)" by (auto simp: m(3) clear_state_def)
  have ch: "children (cm_index m) = children (nc_ix s)"
    by (rule children_cong) (simp add: m(3) clear_state_def option.map_comp comp_def if_distrib cong: if_cong)
  have dn: "dirty_nids ?s = {}" by (simp add: dirty_nids_def)
  have nd: "node_ondisk ?s = node_ondisk s" by (rule node_ondisk_cong) simp_all
  have "nc_inv (\<lambda>k. ext k + of_bool (k \<in> dirty_nids s)) (W \<union> dirty_nids s) ?s"
  proof (rule nc_invI)
    fix k e' assume "nc_ix ?s k = Some e'"
    then obtain e where e: "nc_ix s k = Some e" "e' = (if k \<in> dirty_nids s then e\<lparr>nb_state := Uptodate\<rparr> else e)"
      by (auto simp: ix)
    show "nc_entry_ok (\<lambda>k. ext k + of_bool (k \<in> dirty_nids s)) (W \<union> dirty_nids s) ?s k e'"
      using d(8) [OF e(1)] e(2) unfolding nc_entry_ok_def by (simp add: dn nd m(2) ch dom)
  qed (use d dom m(2) in \<open>auto simp: dn cm_inv_def\<close>)
  moreover have "node_view ?s = node_view s"
    by (auto simp: node_view_def nd m(3) clear_state_def fun_eq_iff split: option.splits)
  moreover have "nc_get_and_clear_dirty_list s = (Inr (nc_dirty s), ?s)"
    using m(1) by (simp add: nc_get_and_clear_dirty_list_def prog_simps)
  ultimately show ?thesis using m(3) by blast
qed

section \<open>Deleting a node\<close>

lemma invalidate_lpa_ok:
  assumes "meta_inv m" "lpa \<noteq> INVALID_LPA" "sit_at m (lpa_seg m lpa) = Some e" "sit_wf e" "lpa_valid m lpa"
    "Suc (Suc (sn_refs (sit_cache m) (sit_blk m (lpa_seg m lpa)))) < 2 ^ 32"
  shows "\<exists>m' dt. invalidate_lpa lpa m = (Inr (), m') \<and> meta_step m [] [] dt m' \<and> lpa_valid m' = (lpa_valid m)(lpa := False)"
proof -
  have "sit_bit e (lpa_off m lpa)" using assms(3,5) by (simp add: lpa_valid_def)
  then obtain e' where e': "sit_entry_change (lpa_off m lpa) False e = Inr e'"
    using sit_entry_change_val [OF assms(4) lpa_off_less [of m lpa], of False] by (auto simp: Let_def)
  from change_lpa_state_ok [OF assms(1-3) e' assms(6)] obtain m' where
    m': "change_lpa_state lpa False m = (Inr (), m')" "meta_step m [] [] [\<lparr>segID = lpa_seg m lpa, sit_newValue = e'\<rparr>] m'"
    by (auto simp: Let_def)
  with lpa_valid_change(1) [OF meta_stepD(2) [OF m'(2)] assms(3,4) e'] show ?thesis
    by (auto simp: invalidate_lpa_def)
qed

lemma meta_step_lpa_valid:
  assumes "meta_step m ds dn [] m'"
  shows "lpa_valid m' = lpa_valid m" "lpa_seg m' = lpa_seg m" "sit_at m' = sit_at m" "sit_blk m' = sit_blk m"
    "sn_refs (sit_cache m') = sn_refs (sit_cache m)"
proof -
  have s: "lpa_seg m' = lpa_seg m" "lpa_off m' = lpa_off m"
    using journaled_layout(3) [OF meta_stepD(2) [OF assms]]
    by (simp_all add: lpa_seg_def lpa_off_def get_seg_pos_of_lpa_def fun_eq_iff)
  then show "lpa_seg m' = lpa_seg m" by simp
  show t: "sit_at m' = sit_at m" "sit_blk m' = sit_blk m" "sn_refs (sit_cache m') = sn_refs (sit_cache m)"
    using meta_stepD [OF assms] by (simp_all add: sit_versions_def)
  show "lpa_valid m' = lpa_valid m" by (simp add: lpa_valid_def s t fun_eq_iff split: option.splits)
qed

text \<open>What a deleted node owns is released: the node id, the block if it has one, the entry.\<close>

lemma nc_drop_ok:
  assumes mgr: "cm_inv (nc_mgr s)" "nc_ix s k = Some x" "nb_nid e = k" and meta: "meta_inv (fs_meta s)" "meta_room (fs_meta s)"
    and fr: "free_nids (fs_meta s) fs" "nid_in_range (fs_meta s) k" "k \<noteq> INVALID_NID" "k \<notin> set fs"
      "nat_at (fs_meta s) k = Some ne"
    and lpa: "nb_lpa e \<noteq> INVALID_LPA" "sit_at (fs_meta s) (lpa_seg (fs_meta s) (nb_lpa e)) = Some se" "sit_wf se"
      "lpa_valid (fs_meta s) (nb_lpa e)"
  shows "\<exists>s' ds dn dt. nc_drop e s = (Inr (), s') \<and> nc_ix s' = (nc_ix s)(k := None) \<and> cm_inv (nc_mgr s') \<and>
    cm_pins (nc_mgr s') = cm_pins (nc_mgr s) - {k} \<and> nc_cur s' = nc_cur s - 1 \<and>
    free_nids (fs_meta s') (k # fs) \<and> meta_step (fs_meta s) ds dn dt (fs_meta s') \<and>
    lpa_valid (fs_meta s') = (lpa_valid (fs_meta s))(nb_lpa e := False)"
proof -
  obtain m1 ds dn where m1: "free_nid k (fs_meta s) = (Inr (), m1)" "free_nids m1 (k # fs)" "meta_step (fs_meta s) ds dn [] m1"
    using free_nid_ok [OF meta fr] by (auto simp: Let_def)
  note l1 = meta_step_lpa_valid [OF m1(3)]
  have r: "Suc (Suc (sn_refs (sit_cache m1) (sit_blk m1 (lpa_seg m1 (nb_lpa e))))) < 2 ^ 32"
    using meta_roomD(2) [OF meta(2)] by (simp add: l1)
  obtain m2 dt where m2: "invalidate_lpa (nb_lpa e) m1 = (Inr (), m2)" "meta_step m1 [] [] dt m2"
      "lpa_valid m2 = (lpa_valid m1)(nb_lpa e := False)"
    using invalidate_lpa_ok [OF meta_stepD(1) [OF m1(3)] lpa(1) _ lpa(3) _ r] lpa(2,4) by (auto simp: l1)
  have fr2: "free_nids m2 (k # fs)"
    using m1(2) meta_stepD(3,4) [OF m2(2)] by (simp add: free_nids_def nid_in_range_def)
  obtain c where c: "cm_remove k (nc_mgr s) = Inr c" "cm_inv c" "cm_index c = (nc_ix s)(k := None)" "cm_pins c = cm_pins (nc_mgr s) - {k}"
    using cm_remove_ok [OF mgr(1), of k] mgr(2) by auto
  have run: "nc_drop e s = (Inr (), s\<lparr>fs_meta := m2, nc_mgr := c, nc_cur := nc_cur s - 1\<rparr>)"
    using m1(1) m2(1) c(1) lpa(1) mgr(3) by (simp add: nc_drop_def on_meta_def on_mgr_def prog_simps)
  show ?thesis
    by (rule exI [of _ "s\<lparr>fs_meta := m2, nc_mgr := c, nc_cur := nc_cur s - 1\<rparr>"])
       (use run c fr2 meta_step_trans [OF m1(3) m2(2)] m2(3) l1(1) in auto)
qed

lemma nc_sub_refcount_deleted:
  assumes mgr: "cm_inv (nc_mgr s)" "nc_ix s k = Some e" "nb_nid e = k" "nb_ref_count e = 1" "nb_state e = Deleted"
    and meta: "meta_inv (fs_meta s)" "meta_room (fs_meta s)"
    and fr: "free_nids (fs_meta s) fs" "nid_in_range (fs_meta s) k" "k \<noteq> INVALID_NID" "k \<notin> set fs"
      "nat_at (fs_meta s) k = Some ne"
    and lpa: "nb_lpa e \<noteq> INVALID_LPA" "sit_at (fs_meta s) (lpa_seg (fs_meta s) (nb_lpa e)) = Some se" "sit_wf se"
      "lpa_valid (fs_meta s) (nb_lpa e)"
    and par: "nb_parent_nid e = p" "p \<noteq> INVALID_NID" "p \<noteq> k" "nc_ix s p = Some q" "1 < nb_ref_count q"
  shows "\<exists>s' ds dn dt. nc_sub_refcount k s = (Inr (), s') \<and>
    nc_ix s' = (nc_ix s)(k := None, p \<mapsto> q\<lparr>nb_ref_count := nb_ref_count q - 1\<rparr>) \<and> cm_inv (nc_mgr s') \<and>
    free_nids (fs_meta s') (k # fs) \<and> meta_step (fs_meta s) ds dn dt (fs_meta s') \<and>
    lpa_valid (fs_meta s') = (lpa_valid (fs_meta s))(nb_lpa e := False)"
proof -
  let ?e = "e\<lparr>nb_ref_count := 0\<rparr>"
  let ?u = "cm_update k (\<lambda>e. e\<lparr>nb_ref_count := nb_ref_count e - 1\<rparr>) (nc_mgr s)"
  have u: "cm_inv ?u" "k \<in> dom (cm_index ?u)" using mgr by auto
  obtain m1 where m1: "cm_unpin k ?u = Inr m1" "cm_inv m1" "cm_index m1 = (nc_ix s)(k \<mapsto> ?e)"
    using cm_unpin_ok [OF u] mgr(2,4) by auto
  let ?s1 = "s\<lparr>nc_mgr := m1\<rparr>"
  have dec: "nc_dec k s = (Inr ?e, ?s1)"
    using m1(1) mgr by (simp add: nc_dec_def nc_write_def nc_entry_def on_mgr_def prog_simps)
  have ix1: "nc_ix ?s1 k = Some ?e" by (simp add: m1(3))
  have "\<exists>s' ds dn dt. nc_drop ?e ?s1 = (Inr (), s') \<and> nc_ix s' = (nc_ix ?s1)(k := None) \<and> cm_inv (nc_mgr s') \<and>
    cm_pins (nc_mgr s') = cm_pins (nc_mgr ?s1) - {k} \<and> nc_cur s' = nc_cur ?s1 - 1 \<and>
    free_nids (fs_meta s') (k # fs) \<and> meta_step (fs_meta ?s1) ds dn dt (fs_meta s') \<and>
    lpa_valid (fs_meta s') = (lpa_valid (fs_meta ?s1))(nb_lpa ?e := False)"
    by (rule nc_drop_ok [OF _ ix1, where ne = ne and se = se]) (use m1(2) mgr meta fr lpa in simp_all)
  then obtain s2 ds dn dt where s2: "nc_drop ?e ?s1 = (Inr (), s2)" "nc_ix s2 = (nc_ix s)(k := None)" "cm_inv (nc_mgr s2)"
      "free_nids (fs_meta s2) (k # fs)" "meta_step (fs_meta s) ds dn dt (fs_meta s2)"
      "lpa_valid (fs_meta s2) = (lpa_valid (fs_meta s))(nb_lpa e := False)"
    by (auto simp: m1(3))
  have q2: "nc_ix s2 p = Some q" using par by (simp add: s2(2))
  let ?s3 = "s2\<lparr>nc_mgr := cm_update p (\<lambda>e. e\<lparr>nb_ref_count := nb_ref_count e - 1\<rparr>) (nc_mgr s2)\<rparr>"
  have "nb_ref_count q - 1 \<noteq> 0" using par(5) by auto
  then have "nc_sub_refcount p s2 = (Inr (), ?s3)"
    using q2 by (simp add: nc_sub_refcount.simps [of p s2] nc_dec_def nc_write_def nc_entry_def prog_simps)
  then have run: "nc_sub_refcount k s = (Inr (), ?s3)"
    using dec s2(1) mgr(5) par q2 by (simp add: nc_sub_refcount.simps [of k s])
  show ?thesis
    by (rule exI [of _ ?s3]) (use run s2 q2 in auto)
qed

section \<open>Marking dirty after a write back\<close>

lemma nc_mark_dirty_fresh:
  assumes inv: "nc_inv ext W s" and k: "ext k \<noteq> 0" "k \<notin> dirty_nids s" "nc_ix s k = Some e" and room: "nc_room ext 3 s"
  shows "\<exists>m. nc_mark_dirty k s = (Inr (), s\<lparr>nc_mgr := m, nc_dirty := nc_dirty s @ [(nc_next s, k)],
      nc_dirty_pos := (if nc_dirty_pos s (nb_ptr e) = None
           then (nc_dirty_pos s)(nb_ptr e \<mapsto> nc_next s) else nc_dirty_pos s), nc_next := Suc (nc_next s)\<rparr>) \<and>
    (\<exists>e'. cm_index m = (nc_ix s)(k \<mapsto> e') \<and> nb_ptr e' = nb_ptr e \<and> nb_state e' = Dirty)"
proof -
  obtain e' where "nc_ix s k = Some e'" "nc_entry_ok ext W s k e'" "nb_ref_count e' \<noteq> 0"
    using nc_held [OF inv k(1)] by blast
  then have e: "nc_ix s k = Some e" "nc_entry_ok ext W s k e" "nb_ref_count e \<noteq> 0" using k(3) by auto
  then have st: "nb_state e = Uptodate" using k(2) by (cases "nb_state e") (auto simp: nc_entry_ok_def)
  let ?m = "cm_update k (\<lambda>e. e\<lparr>nb_ref_count := nb_ref_count e + 1\<rparr>) (cm_update k (\<lambda>e. e\<lparr>nb_state := Dirty\<rparr>) (nc_mgr s))"
  have "nc_mark_dirty k s = (Inr (), s\<lparr>nc_mgr := ?m, nc_dirty := nc_dirty s @ [(nc_next s, k)],
      nc_dirty_pos := (if nc_dirty_pos s (nb_ptr e) = None
           then (nc_dirty_pos s)(nb_ptr e \<mapsto> nc_next s) else nc_dirty_pos s), nc_next := Suc (nc_next s)\<rparr>)"
    using e st by (simp add: nc_mark_dirty_def nc_entry_def nc_write_def nc_add_refcount_def prog_simps)
  moreover have "\<exists>e'. cm_index ?m = (nc_ix s)(k \<mapsto> e') \<and> nb_ptr e' = nb_ptr e \<and> nb_state e' = Dirty"
    using e(1) by (intro exI [of _ "e\<lparr>nb_state := Dirty, nb_ref_count := nb_ref_count e + 1\<rparr>"]) auto
  ultimately show ?thesis by blast
qed

section \<open>A concrete state\<close>

text \<open>
  A file with inode 10, whose block 3 is at address 777 and whose first direct node is node
  20, which holds address 888 for block 937; nothing is cached and the cache wants to keep
  one block.
\<close>

definition sample_inode :: hscfs_node where
  "sample_inode = (set_wd 1015 20 (set_wd 86 777 zero_node))\<lparr>f_nid := 10, f_ino := 10\<rparr>"

definition sample_direct :: hscfs_node where
  "sample_direct = (set_wd 5 888 zero_node)\<lparr>f_nid := 20, f_ino := 10, f_offset := 1\<rparr>"

definition sample_sys :: fsys where
  "sample_sys = \<lparr>fs_meta = sample_meta, nc_mgr = cm_empty, nc_expect = 1, nc_cur = 0, nc_dirty = [],
     nc_dirty_pos = Map.empty, nc_next = 0, node_dev = [11 \<mapsto> sample_inode, 21 \<mapsto> sample_direct]\<rparr>"

lemma zero_node_simps [simp]: "node_ok zero_node" "k < 1020 \<Longrightarrow> wd k zero_node = 0"
  by (simp_all add: node_ok_def zero_node_def wd_def)

lemma wd_footer [simp]:
  "wd k (n\<lparr>f_nid := x\<rparr>) = wd k n" "wd k (n\<lparr>f_ino := x\<rparr>) = wd k n" "wd k (n\<lparr>f_offset := y\<rparr>) = wd k n"
  "node_ok (n\<lparr>f_nid := x\<rparr>) = node_ok n" "node_ok (n\<lparr>f_ino := x\<rparr>) = node_ok n" "node_ok (n\<lparr>f_offset := y\<rparr>) = node_ok n"
  by (simp_all add: wd_def node_ok_def)

lemma sample_nodes [simp]:
  "f_nid sample_inode = 10" "f_ino sample_inode = 10" "f_offset sample_inode = 0" "wd 1015 sample_inode = 20"
  "f_nid sample_direct = 20" "f_ino sample_direct = 10" "f_offset sample_direct = 1" "wd 5 sample_direct = 888"
  "node_ok sample_inode" "node_ok sample_direct"
  by (simp_all add: sample_inode_def sample_direct_def zero_node_def [THEN arg_cong, of f_offset])

text \<open>
  A state in which node 20 is deleted, has one handle left and hangs below node 10; every
  block of the device is valid.
\<close>

definition full_sit_entry :: hscfs_sit_entry where
  "full_sit_entry = \<lparr>vblocks = 511, valid_map = replicate 64 (- 1)\<rparr>"

definition full_meta :: meta where
  "full_meta = sample_meta\<lparr>sit_dev := (\<lambda>_. Some (replicate 60 full_sit_entry))\<rparr>"

definition sample_entry :: "u32 \<Rightarrow> u32 \<Rightarrow> node_state \<Rightarrow> u32 \<Rightarrow> nb_entry" where
  "sample_entry k p st r = \<lparr>nb_ptr = 0, nb_nid = k, nb_parent_nid = p, nb_lpa = 6000, nb_node = zero_node,
     nb_ref_count = r, nb_state = st\<rparr>"

lemma full_meta_facts:
  "meta_inv full_meta" "meta_room full_meta" "free_nids full_meta [510, 511]" "nid_in_range full_meta 20"
  "nat_at full_meta 20 = Some \<lparr>ne_ino = 0, ne_block_addr = 21\<rparr>"
  "sit_at full_meta j = Some full_sit_entry" "sit_wf full_sit_entry" "lpa_valid full_meta l"
proof -
  have n: "nat_at full_meta = nat_at sample_meta" by (simp add: nat_at_tbl full_meta_def)
  show "meta_inv full_meta" "meta_room full_meta"
    by (simp_all add: full_meta_def sample_meta_def meta_inv_def meta_room_def sn_init_inv)
  show "free_nids full_meta [510, 511]"
    using sample_free_nids unfolding free_nids_def n by (simp add: nid_in_range_def full_meta_def)
  show "nid_in_range full_meta 20" by (simp add: nid_in_range_def full_meta_def sample_super_def)
  show "nat_at full_meta 20 = Some \<lparr>ne_ino = 0, ne_block_addr = 21\<rparr>" by (simp add: n)
  have "unat (j mod 60) < 60" for j :: u32 by (simp add: unat_mod)
  then show sit: "sit_at full_meta j = Some full_sit_entry" for j
    by (simp add: sit_at_tbl full_meta_def sample_meta_def tbl_at_def)
  show wf: "sit_wf full_sit_entry" by (simp add: sit_wf_def full_sit_entry_def)
  have "sit_bit full_sit_entry (lpa_off full_meta l)"
    using off_idx(1) [OF lpa_off_less, of full_meta l] off_idx(2) [OF lpa_off_less, of full_meta l]
    by (simp add: sit_bit_def full_sit_entry_def)
  then show "lpa_valid full_meta l" by (simp add: lpa_valid_def sit)
qed

section \<open>Properties\<close>

text \<open>
  C40. Releasing the last handle of a deleted node gives back everything the node owns: its node
  id becomes the head of the free list, its block becomes invalid and no other block changes
  its validity, its entry leaves the cache, and its parent loses exactly the reference that
  the node held on it. All changes of the tables are journalled.
\<close>

theorem deleted_node_is_released:
  assumes "cm_inv (nc_mgr s)" "nc_ix s k = Some e" "nb_nid e = k" "nb_ref_count e = 1" "nb_state e = Deleted"
    "meta_inv (fs_meta s)" "meta_room (fs_meta s)"
    "free_nids (fs_meta s) fs" "nid_in_range (fs_meta s) k" "k \<noteq> INVALID_NID" "k \<notin> set fs" "nat_at (fs_meta s) k = Some ne"
    "nb_lpa e \<noteq> INVALID_LPA" "sit_at (fs_meta s) (lpa_seg (fs_meta s) (nb_lpa e)) = Some se" "sit_wf se"
    "lpa_valid (fs_meta s) (nb_lpa e)"
    "nb_parent_nid e = p" "p \<noteq> INVALID_NID" "p \<noteq> k" "nc_ix s p = Some q" "1 < nb_ref_count q"
  shows "\<exists>s' ds dn dt. nc_sub_refcount k s = (Inr (), s') \<and>
    nc_ix s' = (nc_ix s)(k := None, p \<mapsto> q\<lparr>nb_ref_count := nb_ref_count q - 1\<rparr>) \<and> cm_inv (nc_mgr s') \<and>
    free_nids (fs_meta s') (k # fs) \<and> meta_step (fs_meta s) ds dn dt (fs_meta s') \<and>
    lpa_valid (fs_meta s') = (lpa_valid (fs_meta s))(nb_lpa e := False)"
  using assms by (rule nc_sub_refcount_deleted)

theorem deleted_node_is_released_witness:
  "\<exists>s s'. nc_sub_refcount 20 s = (Inr (), s') \<and> nc_ix s 20 = Some (sample_entry 20 10 Deleted 1) \<and>
     nc_ix s' 20 = None \<and> nc_ix s' 10 = Some (sample_entry 10 0 Uptodate 1) \<and>
     free_nids (fs_meta s') [20, 510, 511] \<and> \<not> lpa_valid (fs_meta s') 6000"
proof -
  obtain c1 where c1: "cm_inv c1" "cm_index c1 = [10 :: u32 \<mapsto> sample_entry 10 0 Uptodate 2]"
    using cm_add_ok [OF cm_empty_inv, of "10 :: u32" "sample_entry 10 0 Uptodate 2"] by auto
  obtain c2 where c2: "cm_inv c2" "cm_index c2 = [10 :: u32 \<mapsto> sample_entry 10 0 Uptodate 2, 20 \<mapsto> sample_entry 20 10 Deleted 1]"
    using cm_add_ok [OF c1(1), of 20 "sample_entry 20 10 Deleted 1"] c1(2) by auto
  define s where "s = sample_sys\<lparr>fs_meta := full_meta, nc_mgr := c2\<rparr>"
  have e: "nc_ix s 20 = Some (sample_entry 20 10 Deleted 1)" "nc_ix s 10 = Some (sample_entry 10 0 Uptodate 2)"
    by (simp_all add: s_def c2(2))
  have "\<exists>s' ds dn dt. nc_sub_refcount 20 s = (Inr (), s') \<and>
    nc_ix s' = (nc_ix s)(20 := None, 10 \<mapsto> (sample_entry 10 0 Uptodate 2)\<lparr>nb_ref_count := nb_ref_count (sample_entry 10 0 Uptodate 2) - 1\<rparr>) \<and>
    cm_inv (nc_mgr s') \<and> free_nids (fs_meta s') (20 # [510, 511]) \<and> meta_step (fs_meta s) ds dn dt (fs_meta s') \<and>
    lpa_valid (fs_meta s') = (lpa_valid (fs_meta s))(nb_lpa (sample_entry 20 10 Deleted 1) := False)"
    by (rule deleted_node_is_released [OF _ e(1), where p = 10 and se = full_sit_entry and ne = "\<lparr>ne_ino = 0, ne_block_addr = 21\<rparr>"])
       (use full_meta_facts e c2(1) in \<open>simp_all add: s_def sample_entry_def\<close>)
  then obtain s' where s': "nc_sub_refcount 20 s = (Inr (), s')" "free_nids (fs_meta s') [20, 510, 511]"
    "nc_ix s' = (nc_ix s)(20 := None, 10 \<mapsto> sample_entry 10 0 Uptodate 1)" "\<not> lpa_valid (fs_meta s') 6000"
    by (auto simp: sample_entry_def)
  moreover have "nc_ix s' 20 = None" "nc_ix s' 10 = Some (sample_entry 10 0 Uptodate 1)" by (simp_all add: s'(3))
  ultimately show ?thesis using e(1) by blast
qed

text \<open>
  A node that was written back and then changed again cannot be deleted. Taking the dirty
  list empties it but leaves the positions of its elements in \<^verbatim>\<open>dirty_pos\<close>; when the node is
  marked dirty again its old position stays there, and deleting the node then uses an
  iterator that does not point into the dirty list.
\<close>

theorem delete_after_write_back_undefined:
  assumes "nc_inv ext W s" "ext k \<noteq> 0" "k \<notin> dirty_nids s" "nc_room ext 4 s"
    "\<forall>x i. nc_dirty_pos s x = Some i \<longrightarrow> i < nc_next s"
  shows "fst (bnd (nc_mark_dirty k) (\<lambda>_. bnd nc_get_and_clear_dirty_list (\<lambda>_.
    bnd (nc_mark_dirty k) (\<lambda>_. nc_remove_entry k))) s) = Inl Undefined"
proof -
  note inv = assms(1)
  obtain e where e: "nc_ix s k = Some e" using nc_held [OF inv assms(2)] by blast
  have room: "nc_room ext 3 s" using assms(4) by (rule nc_room_mono) simp
  obtain m1 e1 where m1: "nc_mark_dirty k s = (Inr (), s\<lparr>nc_mgr := m1, nc_dirty := nc_dirty s @ [(nc_next s, k)],
      nc_dirty_pos := (if nc_dirty_pos s (nb_ptr e) = None
           then (nc_dirty_pos s)(nb_ptr e \<mapsto> nc_next s) else nc_dirty_pos s), nc_next := Suc (nc_next s)\<rparr>)"
      "cm_index m1 = (nc_ix s)(k \<mapsto> e1)" "nb_ptr e1 = nb_ptr e"
    using nc_mark_dirty_fresh [OF inv assms(2,3) e room] by blast
  define s1 where "s1 = s\<lparr>nc_mgr := m1, nc_dirty := nc_dirty s @ [(nc_next s, k)],
      nc_dirty_pos := (if nc_dirty_pos s (nb_ptr e) = None
           then (nc_dirty_pos s)(nb_ptr e \<mapsto> nc_next s) else nc_dirty_pos s), nc_next := Suc (nc_next s)\<rparr>"
  have inv1: "nc_inv ext (W - {k}) s1" and dom1: "dom (nc_ix s1) = dom (nc_ix s)"
    using nc_mark_dirty_ok [OF inv assms(2) room] m1(1) unfolding s1_def by auto
  obtain j where j: "nc_dirty_pos s1 (nb_ptr e) = Some j" "j < nc_next s1"
    using assms(5) by (cases "nc_dirty_pos s (nb_ptr e)") (auto simp: s1_def less_Suc_eq)
  obtain m2 where m2: "nc_get_and_clear_dirty_list s1 = (Inr (nc_dirty s1), s1\<lparr>nc_mgr := m2, nc_dirty := []\<rparr>)"
      "nc_inv (\<lambda>k. ext k + of_bool (k \<in> dirty_nids s1)) (W - {k} \<union> dirty_nids s1) (s1\<lparr>nc_mgr := m2, nc_dirty := []\<rparr>)"
      "cm_index m2 = clear_state (dirty_nids s1) (nc_ix s1)"
    using nc_get_and_clear_ok [OF inv1] by blast
  let ?s2 = "s1\<lparr>nc_mgr := m2, nc_dirty := []\<rparr>" and ?ext = "\<lambda>k. ext k + of_bool (k \<in> dirty_nids s1)"
  obtain e2 where e2: "nc_ix ?s2 k = Some e2" "nb_ptr e2 = nb_ptr e"
    using m1(2,3) by (auto simp: m2(3) clear_state_def s1_def)
  have dom2: "dom (nc_ix ?s2) = dom (nc_ix s)" unfolding dom1 [symmetric] by (auto simp: m2(3) clear_state_def)
  have r2: "nc_room ?ext 3 ?s2" using assms(4) by (rule nc_room_mono) (simp only: dom2, simp)
  have k2: "?ext k \<noteq> 0" "k \<notin> dirty_nids ?s2" using assms(2) by (simp_all add: dirty_nids_def)
  obtain m3 e3 where m3: "nc_mark_dirty k ?s2 = (Inr (), ?s2\<lparr>nc_mgr := m3, nc_dirty := [(nc_next s1, k)],
      nc_dirty_pos := nc_dirty_pos s1, nc_next := Suc (nc_next s1)\<rparr>)" "cm_index m3 = (nc_ix ?s2)(k \<mapsto> e3)"
      "nb_ptr e3 = nb_ptr e" "nb_state e3 = Dirty"
    using nc_mark_dirty_fresh [OF m2(2) k2 e2(1) r2] e2(2) j(1) by auto
  have "fst (nc_remove_entry k (?s2\<lparr>nc_mgr := m3, nc_dirty := [(nc_next s1, k)],
      nc_dirty_pos := nc_dirty_pos s1, nc_next := Suc (nc_next s1)\<rparr>)) = Inl Undefined"
    using m3(2-4) j by (simp add: nc_remove_entry_def nc_entry_def prog_simps)
  with m1(1) m2(1) m3(1) show ?thesis by (simp add: bnd_def s1_def)
qed

theorem delete_after_write_back_undefined_witness:
  "\<exists>s. node_view s 10 = Some sample_inode \<and> nc_dirty s = [] \<and>
    fst (bnd (nc_mark_dirty 10) (\<lambda>_. bnd nc_get_and_clear_dirty_list (\<lambda>_.
      bnd (nc_mark_dirty 10) (\<lambda>_. nc_remove_entry 10))) s) = Inl Undefined"
proof -
  have s0: "nc_inv (\<lambda>_. 0) {} sample_sys" "nc_room (\<lambda>_. 0) 3 sample_sys" "node_ondisk sample_sys 10 = Some sample_inode"
    by (simp_all add: nc_inv_def nc_room_def sample_sys_def dirty_nids_def node_ondisk_def)
  obtain s where s: "nc_inv ((\<lambda>_. 0)(10 := 1)) {} s" "nc_next s = 1" "nc_dirty s = []" "nc_dirty_pos s = Map.empty"
      "node_view s = (node_view sample_sys)(10 \<mapsto> sample_inode)" "dom (nc_ix s) \<subseteq> {10}"
    using nc_add_ok [OF s0(1,2), of 10 0 "{}" sample_inode 11] s0(3) by (auto simp: sample_sys_def)
  have "card (dom (nc_ix s)) \<le> card {10 :: u32}" using s(6) by (intro card_mono) auto
  then have room: "nc_room ((\<lambda>_. 0)(10 := 1)) 4 s" by (auto simp: nc_room_def)
  have "fst (bnd (nc_mark_dirty 10) (\<lambda>_. bnd nc_get_and_clear_dirty_list (\<lambda>_.
      bnd (nc_mark_dirty 10) (\<lambda>_. nc_remove_entry 10))) s) = Inl Undefined"
    by (rule delete_after_write_back_undefined [OF s(1) _ _ room]) (simp_all add: s(3,4) dirty_nids_def)
  moreover have "node_view s 10 = Some sample_inode" by (simp add: s(5))
  ultimately show ?thesis using s(3) by blast
qed

end
