(* ===== verification/Dentry_Block.thy ===== *)
theory Dentry_Block
  imports FS_Layout
begin

text \<open>
  Directory blocks, from \<^verbatim>\<open>src/fs/directory.cc\<close>: the hash of a name, the placement of the
  hash buckets in a directory file, and finding, creating and removing an entry in a block.
  The bitmap is read and written as 64-bit words although it is 27 bytes long: the upper half
  of the last word is the reserved bytes and the low 16 bits of the first entry's hash, and
  the model keeps that overlap.
\<close>

unbundle bit_operations_syntax

section \<open>Directory blocks\<close>

record hscfs_dir_entry =
  hash_code :: u32
  de_ino :: u32
  name_len :: u16
  file_type :: u8

text \<open>
  Bytes 0 to 31 of the block are the four words; bytes 30 and 31 belong to the hash of the
  entry 0 as well and are kept in the words only, so the low 16 bits of the stored hash of
  entry 0 are not used.
\<close>

record hscfs_dentry_block =
  bitmap :: "u64 list"
  dentry :: "hscfs_dir_entry list"
  filename :: "u8 list"

abbreviation NR_DENTRY_IN_BLOCK :: nat where "NR_DENTRY_IN_BLOCK \<equiv> 214"

definition blk_ok :: "hscfs_dentry_block \<Rightarrow> bool" where
  "blk_ok b \<longleftrightarrow> length (bitmap b) = 4 \<and> length (dentry b) = NR_DENTRY_IN_BLOCK \<and> length (filename b) = 1712"

definition zero_block :: hscfs_dentry_block where
  "zero_block = \<lparr>bitmap = replicate 4 0,
     dentry = replicate 214 \<lparr>hash_code = 0, de_ino = 0, name_len = 0, file_type = 0\<rparr>, filename = replicate 1712 0\<rparr>"

definition read_hash :: "nat \<Rightarrow> hscfs_dentry_block \<Rightarrow> u32" where
  "read_hash i b =
     (if i = 0 then push_bit 16 (drop_bit 16 (hash_code (dentry b ! 0))) OR ucast (drop_bit 48 (bitmap b ! 3))
      else hash_code (dentry b ! i))"

text \<open>Writing the four fields of an entry.\<close>

definition write_entry :: "nat \<Rightarrow> hscfs_dir_entry \<Rightarrow> hscfs_dentry_block \<Rightarrow> hscfs_dentry_block" where
  "write_entry i e b =
     b\<lparr>dentry := (dentry b)[i := e],
       bitmap := (if i = 0 then (bitmap b)[3 := take_bit 48 (bitmap b ! 3) OR push_bit 48 (ucast (hash_code e))]
                  else bitmap b)\<rparr>"

section \<open>The bitmap\<close>

definition test_bitmap_pos :: "nat \<Rightarrow> hscfs_dentry_block \<Rightarrow> bool" where
  "test_bitmap_pos slot_pos b \<longleftrightarrow> (1 :: u64) AND drop_bit (slot_pos mod 64) (bitmap b ! (slot_pos div 64)) \<noteq> 0"

text \<open>\<^verbatim>\<open>1U << off\<close> is a 32-bit shift; from 32 on it is undefined.\<close>

definition set_bitmap_pos :: "nat \<Rightarrow> hscfs_dentry_block \<Rightarrow> fault + hscfs_dentry_block" where
  "set_bitmap_pos slot_pos b =
     (let idx = slot_pos div 64; off = slot_pos mod 64 in
      if off \<ge> 32 then Inl Undefined
      else Inr (b\<lparr>bitmap := (bitmap b)[idx := bitmap b ! idx OR ucast (push_bit off (1 :: u32))]\<rparr>))"

definition reset_bitmap_pos :: "nat \<Rightarrow> hscfs_dentry_block \<Rightarrow> fault + hscfs_dentry_block" where
  "reset_bitmap_pos slot_pos b =
     (let idx = slot_pos div 64; off = slot_pos mod 64 in
      if off \<ge> 32 then Inl Undefined
      else Inr (b\<lparr>bitmap := (bitmap b)[idx := bitmap b ! idx AND ucast (NOT (push_bit off (1 :: u32)))]\<rparr>))"

section \<open>Hash and buckets\<close>

definition byte_at :: "u8 list \<Rightarrow> nat \<Rightarrow> u32" where
  "byte_at msg i = ucast (msg ! i)"

text \<open>
  \<^verbatim>\<open>str2hashbuf\<close> with four words: every complete group of four bytes gives a word, then the
  word being filled (or the padding) follows, and padding fills the rest.
\<close>

fun hashbuf_loop :: "u8 list \<Rightarrow> u32 \<Rightarrow> nat \<Rightarrow> nat \<Rightarrow> u32 \<Rightarrow> u32 list \<Rightarrow> u32 list \<times> u32" where
  "hashbuf_loop msg pad 0 i val out = (out, val)"
| "hashbuf_loop msg pad (Suc n) i val out =
     (let v0 = (if i mod 4 = 0 then pad else val);
          v = byte_at msg i + push_bit 8 v0 in
      if i mod 4 = 3 then hashbuf_loop msg pad n (i + 1) pad (out @ [v])
      else hashbuf_loop msg pad n (i + 1) v out)"

definition str2hashbuf :: "u8 list \<Rightarrow> nat \<Rightarrow> nat \<Rightarrow> u32 list" where
  "str2hashbuf msg len num =
     (let l = word_of_nat len :: u32;
          p0 = l OR push_bit 8 l;
          pad = p0 OR push_bit 16 p0;
          (out, val) = hashbuf_loop msg pad (min len (num * 4)) 0 pad [];
          out1 = (if length out < num then out @ [val] else out) in
      out1 @ replicate (num - length out1) pad)"

fun TEA_rounds :: "nat \<Rightarrow> u32 \<Rightarrow> u32 \<Rightarrow> u32 \<Rightarrow> u32 list \<Rightarrow> u32 \<times> u32" where
  "TEA_rounds 0 acc b0 b1 inp = (b0, b1)"
| "TEA_rounds (Suc n) acc b0 b1 inp =
     (let acc' = acc + 0x9E3779B9;
          b0' = b0 + ((push_bit 4 b1 + inp ! 0) XOR (b1 + acc') XOR (drop_bit 5 b1 + inp ! 1));
          b1' = b1 + ((push_bit 4 b0' + inp ! 2) XOR (b0' + acc') XOR (drop_bit 5 b0' + inp ! 3)) in
      TEA_rounds n acc' b0' b1' inp)"

definition TEA_transform :: "u32 \<times> u32 \<Rightarrow> u32 list \<Rightarrow> u32 \<times> u32" where
  "TEA_transform buf inp =
     (let (b0, b1) = TEA_rounds 16 0 (fst buf) (snd buf) inp in (fst buf + b0, snd buf + b1))"

text \<open>Only the first two words of the buffer are ever used.\<close>

function hash_chunks :: "u8 list \<Rightarrow> nat \<Rightarrow> u32 \<times> u32 \<Rightarrow> u32 \<times> u32" where
  "hash_chunks p len buf =
     (let buf' = TEA_transform buf (str2hashbuf p len 4) in
      if len \<le> 16 then buf' else hash_chunks (drop 16 p) (len - 16) buf')"
  by pat_completeness auto
termination by (relation "measure (\<lambda>(p, len, buf). len)") auto

declare hash_chunks.simps [simp del]

definition hscfs_dentry_hash :: "u8 list \<Rightarrow> u32" where
  "hscfs_dentry_hash name =
     (if name = [46] \<or> name = [46, 46] then 0
      else
        let hash = fst (hash_chunks name (length name) (0x67452301, 0xefcdab89)) in
        ucast (ucast hash AND NOT (push_bit 63 (1 :: u64))))"

definition bucket_num :: "nat \<Rightarrow> nat \<Rightarrow> nat" where
  "bucket_num level dir_level = (if level + dir_level < 63 div 2 then 2 ^ (level + dir_level) else 2 ^ 30)"

definition bucket_block_num :: "nat \<Rightarrow> nat" where
  "bucket_block_num level = (if level < 63 div 2 then 2 else 4)"

text \<open>Computed in 32 bits.\<close>

definition bucket_start_block_index :: "nat \<Rightarrow> nat \<Rightarrow> nat \<Rightarrow> nat" where
  "bucket_start_block_index level dir_level bucket_idx =
     ((\<Sum>i<level. bucket_num i dir_level * bucket_block_num i) + bucket_idx * bucket_block_num level) mod 2 ^ 32"

section \<open>Finding an entry\<close>

text \<open>The comparison reads the names area byte by byte and stops at the first difference.\<close>

fun compare_name :: "u8 list \<Rightarrow> u8 list \<Rightarrow> nat \<Rightarrow> fault + bool" where
  "compare_name fn [] p = Inr True"
| "compare_name fn (c # cs) p =
     (if p \<ge> length fn then Inl Undefined else if fn ! p \<noteq> c then Inr False else compare_name fn cs (p + 1))"

definition hscfs_match_name :: "hscfs_dentry_block \<Rightarrow> u8 list \<Rightarrow> u32 \<Rightarrow> nat \<Rightarrow> fault + bool" where
  "hscfs_match_name b name namehash bit_pos =
     (if read_hash bit_pos b \<noteq> namehash then Inr False
      else if length name \<noteq> unat (name_len (dentry b ! bit_pos)) then Inr False
      else compare_name (filename b) name (8 * bit_pos))"

lemma slots_pos [simp]: "0 < n \<Longrightarrow> 0 < GET_DENTRY_SLOTS n"
  by (simp add: GET_DENTRY_SLOTS_def)

lemma slots_pos_word: "w \<noteq> 0 \<Longrightarrow> 0 < GET_DENTRY_SLOTS (unat w)" for w :: u16
  by (simp add: unat_gt_0)

text \<open>The running maximum of free slots and where it starts; the start is unset at first.\<close>

definition better :: "nat \<Rightarrow> nat \<Rightarrow> nat \<times> nat option \<Rightarrow> nat \<times> nat option" where
  "better pos run best = (if run > fst best then (run, Some (pos - run)) else best)"

function find_loop ::
    "hscfs_dentry_block \<Rightarrow> u8 list \<Rightarrow> u32 \<Rightarrow> nat \<Rightarrow> nat \<Rightarrow> nat \<times> nat option \<Rightarrow> fault + (nat option \<times> nat \<times> nat option)" where
  "find_loop b name namehash bit_pos max_len best =
     (if bit_pos \<ge> NR_DENTRY_IN_BLOCK then Inr (None, better bit_pos max_len best)
      else if \<not> test_bitmap_pos bit_pos b then find_loop b name namehash (bit_pos + 1) (max_len + 1) best
      else if name_len (dentry b ! bit_pos) = 0 then find_loop b name namehash (bit_pos + 1) max_len best
      else
        (case hscfs_match_name b name namehash bit_pos of
           Inl f \<Rightarrow> Inl f
         | Inr True \<Rightarrow> Inr (Some bit_pos, better bit_pos max_len best)
         | Inr False \<Rightarrow>
             find_loop b name namehash (bit_pos + GET_DENTRY_SLOTS (unat (name_len (dentry b ! bit_pos)))) 0
               (better bit_pos max_len best)))"
  by pat_completeness auto
termination
  by (relation "measure (\<lambda>(b, n, h, p, l, best). NR_DENTRY_IN_BLOCK - p)") (auto dest: slots_pos_word)

declare find_loop.simps [simp del]

definition hscfs_find_target_dentry ::
    "hscfs_dentry_block \<Rightarrow> u8 list \<Rightarrow> u32 \<Rightarrow> fault + (nat option \<times> nat \<times> nat option)" where
  "hscfs_find_target_dentry b name namehash = find_loop b name namehash 0 0 (0, None)"

section \<open>Creating and removing an entry\<close>

fun set_bits :: "nat \<Rightarrow> nat \<Rightarrow> hscfs_dentry_block \<Rightarrow> fault + hscfs_dentry_block" where
  "set_bits start 0 b = Inr b"
| "set_bits start (Suc n) b =
     (if test_bitmap_pos start b then Inl Assert_failed
      else obind (set_bitmap_pos start b) (\<lambda>b'.
        if \<not> test_bitmap_pos start b' then Inl Assert_failed else set_bits (start + 1) n b'))"

fun reset_bits :: "nat \<Rightarrow> nat \<Rightarrow> hscfs_dentry_block \<Rightarrow> fault + hscfs_dentry_block" where
  "reset_bits start 0 b = Inr b"
| "reset_bits start (Suc n) b =
     (if \<not> test_bitmap_pos start b then Inl Assert_failed
      else obind (reset_bitmap_pos start b) (\<lambda>b'.
        if test_bitmap_pos start b' then Inl Assert_failed else reset_bits (start + 1) n b'))"

definition write_bytes :: "nat \<Rightarrow> u8 list \<Rightarrow> u8 list \<Rightarrow> fault + u8 list" where
  "write_bytes p bs xs =
     (if p + length bs \<le> length xs then Inr (take p xs @ bs @ drop (p + length bs) xs) else Inl Undefined)"

definition create_dentry_in_blk ::
    "u8 list \<Rightarrow> u8 \<Rightarrow> u32 \<Rightarrow> nat \<Rightarrow> hscfs_dentry_block \<Rightarrow> fault + hscfs_dentry_block" where
  "create_dentry_in_blk name type new_ino start_slot b =
     (if name = [] then Inl Assert_failed
      else
        let e = \<lparr>hash_code = hscfs_dentry_hash name, de_ino = new_ino,
                 name_len = word_of_nat (length name), file_type = type\<rparr> in
        obind (set_bits start_slot (GET_DENTRY_SLOTS (length name)) b) (\<lambda>b1.
        if start_slot \<ge> NR_DENTRY_IN_BLOCK then Inl Undefined
        else obind (write_bytes (8 * start_slot) name (filename b1)) (\<lambda>fn.
          Inr ((write_entry start_slot e b1)\<lparr>filename := fn\<rparr>))))"

definition remove_dentry_in_blk :: "u8 list \<Rightarrow> nat \<Rightarrow> hscfs_dentry_block \<Rightarrow> fault + hscfs_dentry_block" where
  "remove_dentry_in_blk name start_slot b =
     (if name = [] then Inl Assert_failed
      else
        obind (reset_bits start_slot (GET_DENTRY_SLOTS (length name)) b) (\<lambda>b1.
        if start_slot \<ge> NR_DENTRY_IN_BLOCK then Inl Undefined
        else obind (write_bytes (8 * start_slot) (replicate (length name) 0) (filename b1)) (\<lambda>fn.
          Inr ((write_entry start_slot \<lparr>hash_code = 0, de_ino = 0, name_len = 0, file_type = 0\<rparr> b1)\<lparr>filename := fn\<rparr>))))"

text \<open>The slots a name would occupy at a position are free.\<close>

definition create_pos_free :: "u8 list \<Rightarrow> nat \<Rightarrow> hscfs_dentry_block \<Rightarrow> bool" where
  "create_pos_free name slotno b \<longleftrightarrow>
     \<not> (\<exists>i \<in> set [0..<GET_DENTRY_SLOTS (length name)]. test_bitmap_pos (i + slotno) b)"

section \<open>Bits of the bitmap\<close>

lemma test_bitmap_pos_bit: "test_bitmap_pos q b \<longleftrightarrow> bit (bitmap b ! (q div 64)) (q mod 64)"
  by (simp add: test_bitmap_pos_def bit_iff_odd_drop_bit one_and_eq odd_iff_mod_2_eq_one)

lemma read_hash_words:
  "dentry b' = dentry b \<Longrightarrow> drop_bit 48 (bitmap b' ! 3) = drop_bit 48 (bitmap b ! 3) \<Longrightarrow> read_hash i b' = read_hash i b"
  by (simp add: read_hash_def)

lemma bit_one_u32: "off < 32 \<Longrightarrow> bit (ucast (2 ^ off :: u32) :: u64) n \<longleftrightarrow> n = off"
  by (auto simp: bit_unsigned_iff bit_exp_iff)

lemma bit_not_one_u32: "off < 32 \<Longrightarrow> bit (ucast (NOT (2 ^ off :: u32)) :: u64) n \<longleftrightarrow> n < 32 \<and> n \<noteq> off"
  by (auto simp: bit_unsigned_iff bit_not_iff bit_exp_iff dest: bit_imp_le_length)

lemma drop_48_or_low: "off < 32 \<Longrightarrow> drop_bit 48 (ucast (2 ^ off :: u32)) = (0 :: u64)"
  by (rule bit_word_eqI) (auto simp: bit_drop_bit_eq bit_one_u32)

lemma drop_48_and_low: "off < 32 \<Longrightarrow> drop_bit 48 (ucast (NOT (2 ^ off :: u32))) = (0 :: u64)"
  by (rule bit_word_eqI) (auto simp: bit_drop_bit_eq bit_not_one_u32)

lemma div_mod_64: "q div 64 = p div 64 \<Longrightarrow> q mod 64 = p mod 64 \<Longrightarrow> q = p" for p q :: nat
  by (metis div_mult_mod_eq)

lemma set_bitmap_ok:
  assumes "blk_ok b" "p < 256" "p mod 64 < 32"
  obtains b' where "set_bitmap_pos p b = Inr b'" "blk_ok b'" "dentry b' = dentry b" "filename b' = filename b"
    "\<And>q. test_bitmap_pos q b' \<longleftrightarrow> q = p \<or> test_bitmap_pos q b" "\<And>i. read_hash i b' = read_hash i b"
proof -
  let ?b = "b\<lparr>bitmap := (bitmap b)[p div 64 := bitmap b ! (p div 64) OR ucast (2 ^ (p mod 64) :: u32)]\<rparr>"
  have len: "p div 64 < length (bitmap b)" using assms by (auto simp: blk_ok_def)
  have "test_bitmap_pos q ?b \<longleftrightarrow> q = p \<or> test_bitmap_pos q b" for q
    using len assms(3) div_mod_64 [of q p]
    by (cases "q div 64 = p div 64") (auto simp: test_bitmap_pos_bit bit_or_iff bit_one_u32)
  moreover have "read_hash i ?b = read_hash i b" for i
    using len assms(3) by (intro read_hash_words) (auto simp: nth_list_update drop_48_or_low)
  ultimately show thesis using assms by (intro that [of ?b]) (auto simp: set_bitmap_pos_def Let_def blk_ok_def)
qed

lemma reset_bitmap_ok:
  assumes "blk_ok b" "p < 256" "p mod 64 < 32"
  obtains b' where "reset_bitmap_pos p b = Inr b'" "blk_ok b'" "dentry b' = dentry b" "filename b' = filename b"
    "\<And>q. test_bitmap_pos q b' \<longleftrightarrow> test_bitmap_pos q b \<and> q \<noteq> p \<and> \<not> (q div 64 = p div 64 \<and> q mod 64 \<ge> 32)"
    "p div 64 \<noteq> 3 \<Longrightarrow> bitmap b' ! 3 = bitmap b ! 3"
    "p div 64 = 3 \<Longrightarrow> drop_bit 48 (bitmap b' ! 3) = 0"
proof -
  let ?b = "b\<lparr>bitmap := (bitmap b)[p div 64 := bitmap b ! (p div 64) AND ucast (NOT (2 ^ (p mod 64) :: u32))]\<rparr>"
  have len: "p div 64 < length (bitmap b)" "length (bitmap b) = 4" using assms by (auto simp: blk_ok_def)
  have "test_bitmap_pos q ?b \<longleftrightarrow> test_bitmap_pos q b \<and> q \<noteq> p \<and> \<not> (q div 64 = p div 64 \<and> q mod 64 \<ge> 32)" for q
    using len assms(3) div_mod_64 [of q p]
    by (cases "q div 64 = p div 64") (auto simp: test_bitmap_pos_bit bit_and_iff bit_not_one_u32)
  moreover have "p div 64 = 3 \<Longrightarrow> drop_bit 48 (bitmap ?b ! 3) = 0" using len assms(3) by (simp add: drop_48_and_low)
  ultimately show thesis using assms by (intro that [of ?b]) (auto simp: reset_bitmap_pos_def Let_def blk_ok_def)
qed

lemma write_entry_ok:
  assumes "blk_ok b" "s < 214"
  shows "blk_ok (write_entry s e b)" "filename (write_entry s e b) = filename b"
    "i < 214 \<Longrightarrow> dentry (write_entry s e b) ! i = (if i = s then e else dentry b ! i)"
    "q < 240 \<Longrightarrow> test_bitmap_pos q (write_entry s e b) = test_bitmap_pos q b"
    "i < 214 \<Longrightarrow> read_hash i (write_entry s e b) = (if i = s then hash_code e else read_hash i b)"
proof -
  show "blk_ok (write_entry s e b)" "filename (write_entry s e b) = filename b"
    "i < 214 \<Longrightarrow> dentry (write_entry s e b) ! i = (if i = s then e else dentry b ! i)"
    using assms by (auto simp: blk_ok_def write_entry_def)
  have len: "length (bitmap b) = 4" "length (dentry b) = 214" using assms by (auto simp: blk_ok_def)
  show "test_bitmap_pos q (write_entry s e b) = test_bitmap_pos q b" if "q < 240"
  proof (cases "q div 64 = 3")
    case True
    have "q = q div 64 * 64 + q mod 64" by simp
    with that True have "q mod 64 < 48" by linarith
    with True len show ?thesis
      by (auto simp: test_bitmap_pos_bit write_entry_def bit_or_iff bit_take_bit_iff bit_push_bit_iff)
  next
    case False
    then show ?thesis by (simp add: test_bitmap_pos_bit write_entry_def)
  qed
  have low: "drop_bit 48 (take_bit 48 w) = 0" "drop_bit 48 (push_bit 48 w) = take_bit 16 w" for w :: u64
    by (rule bit_word_eqI; auto simp: bit_drop_bit_eq bit_take_bit_iff bit_push_bit_iff)+
  have join: "push_bit 16 (drop_bit 16 h) OR ucast (take_bit 16 (ucast h :: u64)) = h" for h :: u32
    by (rule bit_word_eqI) (auto simp: bit_or_iff bit_take_bit_iff bit_push_bit_iff bit_drop_bit_eq bit_unsigned_iff)
  show "read_hash i (write_entry s e b) = (if i = s then hash_code e else read_hash i b)" if "i < 214"
    using that len assms(2) by (cases "s = 0"; cases "i = 0") (auto simp: read_hash_def write_entry_def low join)
qed

lemma test_bitmap_filename [simp]:
  "test_bitmap_pos q (b\<lparr>filename := fn\<rparr>) = test_bitmap_pos q b" "read_hash i (b\<lparr>filename := fn\<rparr>) = read_hash i b"
  by (simp_all add: test_bitmap_pos_def read_hash_def)

lemma set_bits_ok:
  assumes "blk_ok b" "s + n \<le> 214" "\<forall>i. s \<le> i \<and> i < s + n \<longrightarrow> \<not> test_bitmap_pos i b \<and> i mod 64 < 32"
  shows "\<exists>b'. set_bits s n b = Inr b' \<and> blk_ok b' \<and> dentry b' = dentry b \<and> filename b' = filename b \<and>
    (\<forall>q. test_bitmap_pos q b' \<longleftrightarrow> (s \<le> q \<and> q < s + n) \<or> test_bitmap_pos q b) \<and> (\<forall>i. read_hash i b' = read_hash i b)"
  using assms
proof (induction n arbitrary: s b)
  case (Suc n)
  have s: "s < 256" "s mod 64 < 32" "\<not> test_bitmap_pos s b" using Suc.prems(2,3) by auto
  obtain b1 where b1: "set_bitmap_pos s b = Inr b1" "blk_ok b1" "dentry b1 = dentry b" "filename b1 = filename b"
    "\<And>q. test_bitmap_pos q b1 \<longleftrightarrow> q = s \<or> test_bitmap_pos q b" "\<And>i. read_hash i b1 = read_hash i b"
    using set_bitmap_ok [OF Suc.prems(1) s(1,2)] by blast
  have "\<forall>i. s + 1 \<le> i \<and> i < s + 1 + n \<longrightarrow> \<not> test_bitmap_pos i b1 \<and> i mod 64 < 32" using Suc.prems(3) b1(5) by auto
  with Suc.IH [OF b1(2), of "s + 1"] Suc.prems(2) obtain b2 where "set_bits (s + 1) n b1 = Inr b2" "blk_ok b2"
    "dentry b2 = dentry b1" "filename b2 = filename b1" "\<forall>i. read_hash i b2 = read_hash i b1"
    "\<forall>q. test_bitmap_pos q b2 \<longleftrightarrow> (s + 1 \<le> q \<and> q < s + 1 + n) \<or> test_bitmap_pos q b1" by auto
  then show ?case using b1 s(3) by (auto simp: le_less Suc_le_eq)
qed auto

section \<open>The entries a block holds\<close>

type_synonym slot_map = "nat \<rightharpoonup> u8 list \<times> u32 \<times> u8"

definition occ :: "u8 list \<times> u32 \<times> u8 \<Rightarrow> nat" where
  "occ e = GET_DENTRY_SLOTS (length (fst e))"

definition slot_entry_ok :: "hscfs_dentry_block \<Rightarrow> nat \<Rightarrow> u8 list \<times> u32 \<times> u8 \<Rightarrow> bool" where
  "slot_entry_ok b s e \<longleftrightarrow> (case e of (nm, ino, ty) \<Rightarrow>
     nm \<noteq> [] \<and> length nm < 2 ^ 16 \<and> s + occ e \<le> 214 \<and> read_hash s b = hscfs_dentry_hash nm \<and>
     de_ino (dentry b ! s) = ino \<and> name_len (dentry b ! s) = word_of_nat (length nm) \<and> file_type (dentry b ! s) = ty \<and>
     take (length nm) (drop (8 * s) (filename b)) = nm)"

text \<open>
  A block represents a map from first slots to entries: the entries are stored there, they do
  not overlap, and the bitmap marks exactly the slots they occupy.
\<close>

definition represents :: "hscfs_dentry_block \<Rightarrow> slot_map \<Rightarrow> bool" where
  "represents b m \<longleftrightarrow> blk_ok b \<and> (\<forall>s e. m s = Some e \<longrightarrow> slot_entry_ok b s e) \<and>
     (\<forall>i < 214. test_bitmap_pos i b \<longleftrightarrow> (\<exists>s e. m s = Some e \<and> s \<le> i \<and> i < s + occ e)) \<and>
     (\<forall>s e s' e'. m s = Some e \<and> m s' = Some e' \<and> s < s' \<longrightarrow> s + occ e \<le> s')"

definition free_run :: "hscfs_dentry_block \<Rightarrow> nat \<Rightarrow> nat \<Rightarrow> bool" where
  "free_run b q k \<longleftrightarrow> (\<forall>i. q \<le> i \<and> i < q + k \<longrightarrow> \<not> test_bitmap_pos i b)"

lemma representsD:
  assumes "represents b m"
  shows "blk_ok b" "m s = Some e \<Longrightarrow> slot_entry_ok b s e"
    "i < 214 \<Longrightarrow> test_bitmap_pos i b \<longleftrightarrow> (\<exists>s e. m s = Some e \<and> s \<le> i \<and> i < s + occ e)"
    "m s = Some e \<Longrightarrow> m s' = Some e' \<Longrightarrow> s < s' \<Longrightarrow> s + occ e \<le> s'"
  using assms unfolding represents_def by blast+

lemma occ_pos:
  assumes "slot_entry_ok b s e"
  shows "0 < occ e \<and> s + occ e \<le> 214 \<and> s < 214"
proof -
  have "fst e \<noteq> []" "s + occ e \<le> 214" using assms by (auto simp: slot_entry_ok_def split: prod.splits)
  moreover from this have "0 < occ e" by (simp add: occ_def)
  ultimately show ?thesis by linarith
qed

lemma represents_zero: "represents zero_block Map.empty"
proof -
  have "test_bitmap_pos i zero_block = False" if "i < 214" for i
  proof -
    have "i div 64 < 4" using that by simp
    then show ?thesis unfolding test_bitmap_pos_bit zero_block_def by (simp only: hscfs_dentry_block.simps nth_replicate bit_0_eq bot_apply) simp
  qed
  then show ?thesis by (simp add: represents_def blk_ok_def zero_block_def)
qed

lemma compare_name_eq:
  "p + length nm \<le> length fn \<Longrightarrow> compare_name fn nm p = Inr (take (length nm) (drop p fn) = nm)"
proof (induction nm arbitrary: p)
  case (Cons c cs)
  then have "drop p fn = fn ! p # drop (p + 1) fn" by (simp add: Cons_nth_drop_Suc)
  with Cons show ?case by simp
qed simp

lemma slots_bytes: "n \<le> 8 * GET_DENTRY_SLOTS n"
  by (simp add: GET_DENTRY_SLOTS_def)

lemma match_name_spec:
  assumes "blk_ok b" "slot_entry_ok b s (nm, ino, ty)"
  shows "hscfs_match_name b name (hscfs_dentry_hash name) s = Inr (name = nm)"
proof -
  have e: "length nm < 2 ^ 16" "s + GET_DENTRY_SLOTS (length nm) \<le> 214" "read_hash s b = hscfs_dentry_hash nm"
    "name_len (dentry b ! s) = word_of_nat (length nm)" "take (length nm) (drop (8 * s) (filename b)) = nm"
    using assms(2) by (simp_all add: slot_entry_ok_def occ_def)
  have len: "unat (name_len (dentry b ! s)) = length nm" using e(1,4) by (simp add: unsigned_of_nat take_bit_nat_eq_self)
  have room: "8 * s + length nm \<le> length (filename b)"
    using e(2) slots_bytes [of "length nm"] assms(1) by (simp add: blk_ok_def)
  show ?thesis
  proof (cases "length name = length nm")
    case True
    then have "compare_name (filename b) name (8 * s) = Inr (name = nm)"
      using compare_name_eq [of "8 * s" name "filename b"] room e(5) by (auto simp: True)
    with True len e(3) show ?thesis by (auto simp: hscfs_match_name_def)
  next
    case False
    with len e(3) show ?thesis by (auto simp: hscfs_match_name_def)
  qed
qed

text \<open>What the search has established when it reaches position \<open>p\<close> after \<open>ml\<close> free slots.\<close>

definition scan_inv :: "hscfs_dentry_block \<Rightarrow> slot_map \<Rightarrow> nat \<Rightarrow> nat \<Rightarrow> nat \<times> nat option \<Rightarrow> bool" where
  "scan_inv b m p ml best \<longleftrightarrow> p \<le> 214 \<and> ml \<le> p \<and> (\<forall>s e. m s = Some e \<and> s < p \<longrightarrow> s + occ e \<le> p) \<and>
     free_run b (p - ml) ml \<and> (ml < p \<longrightarrow> test_bitmap_pos (p - ml - 1) b) \<and>
     (fst best = 0 \<or> (\<exists>q. snd best = Some q \<and> q + fst best \<le> 214 \<and> free_run b q (fst best))) \<and>
     (\<forall>q k. q + k \<le> p - ml \<and> free_run b q k \<longrightarrow> k \<le> fst best)"

definition best_run :: "hscfs_dentry_block \<Rightarrow> nat \<Rightarrow> nat \<times> nat option \<Rightarrow> bool" where
  "best_run b p best \<longleftrightarrow>
     (fst best = 0 \<or> (\<exists>q. snd best = Some q \<and> q + fst best \<le> 214 \<and> free_run b q (fst best))) \<and>
     (\<forall>q k. q + k \<le> p \<and> free_run b q k \<longrightarrow> k \<le> fst best)"

lemma scan_better:
  assumes "scan_inv b m p ml best"
  shows "best_run b p (better p ml best)"
proof -
  have i: "p \<le> 214" "ml \<le> p" "free_run b (p - ml) ml" "ml < p \<longrightarrow> test_bitmap_pos (p - ml - 1) b"
    "fst best = 0 \<or> (\<exists>q. snd best = Some q \<and> q + fst best \<le> 214 \<and> free_run b q (fst best))"
    "\<forall>q k. q + k \<le> p - ml \<and> free_run b q k \<longrightarrow> k \<le> fst best"
    using assms by (simp_all only: scan_inv_def) blast+
  have run: "k \<le> max ml (fst best)" if "q + k \<le> p" "free_run b q k" for q k
  proof (cases "q + k \<le> p - ml")
    case True
    with i(6) that show ?thesis by fastforce
  next
    case False
    have "\<not> q < p - ml"
    proof
      assume "q < p - ml"
      then have "q \<le> p - ml - 1" "p - ml - 1 < q + k" "ml < p" using False by linarith+
      then show False using that(2) i(4) by (auto simp: free_run_def)
    qed
    then have "k \<le> ml" using that(1) by linarith
    then show ?thesis by simp
  qed
  show ?thesis
  proof (cases "ml > fst best")
    case True
    then show ?thesis using run i(1,2,3) by (auto simp: best_run_def better_def max_def)
  next
    case False
    then show ?thesis using run i(5) by (fastforce simp: best_run_def better_def max_def)
  qed
qed

lemma scan_free:
  assumes "represents b m" "scan_inv b m p ml best" "p < 214" "\<not> test_bitmap_pos p b"
  shows "scan_inv b m (p + 1) (ml + 1) best"
proof -
  have "s + occ e \<le> p + 1" if "m s = Some e" "s < p + 1" for s e
  proof (cases "s = p")
    case True
    have "s < 214 \<and> 0 < occ e" using occ_pos representsD(2) [OF assms(1) that(1)] by blast
    then have "test_bitmap_pos p b" using representsD(3) [OF assms(1,3)] that(1) True by fastforce
    with assms(4) show ?thesis by simp
  next
    case False
    then have "s < p" using that(2) by simp
    moreover have "\<forall>s e. m s = Some e \<and> s < p \<longrightarrow> s + occ e \<le> p" using assms(2) unfolding scan_inv_def by blast
    ultimately show ?thesis using that(1) by fastforce
  qed
  moreover have "free_run b (p - ml) (ml + 1)"
    using assms(2,4) by (auto simp: scan_inv_def free_run_def less_Suc_eq)
  ultimately show ?thesis using assms(2,3) by (auto simp: scan_inv_def)
qed

lemma scan_entry:
  assumes "represents b m" "scan_inv b m p ml best" "m p = Some e"
  shows "scan_inv b m (p + occ e) 0 (better p ml best)"
proof -
  have o: "0 < occ e" "p + occ e \<le> 214" using occ_pos representsD(2) [OF assms(1,3)] by blast+
  have set: "test_bitmap_pos i b" if "p \<le> i" "i < p + occ e" for i
    using representsD(3) [OF assms(1), of i] assms(3) that o by fastforce
  have "s + occ x \<le> p + occ e" if "m s = Some x" "s < p + occ e" for s x
  proof (cases s p rule: linorder_cases)
    case less
    then show ?thesis using representsD(4) [OF assms(1) that(1) assms(3)] by simp
  next
    case equal
    then show ?thesis using that assms(3) by simp
  next
    case greater
    then show ?thesis using representsD(4) [OF assms(1,3) that(1)] that(2) by simp
  qed
  moreover have "test_bitmap_pos (p + occ e - 1) b" using set o by simp
  moreover have "k \<le> fst (better p ml best)" if "q + k \<le> p + occ e" "free_run b q k" for q k
  proof (cases "q + k \<le> p")
    case True
    then show ?thesis using scan_better [OF assms(2)] that(2) by (auto simp: best_run_def)
  next
    case False
    have "k = 0"
    proof (rule ccontr)
      assume "k \<noteq> 0"
      then have "p \<le> max p q" "max p q < p + occ e" "q \<le> max p q" "max p q < q + k" using False that(1) o(1) by auto
      then show False using set [of "max p q"] that(2) unfolding free_run_def by blast
    qed
    then show ?thesis by simp
  qed
  ultimately show ?thesis using scan_better [OF assms(2)] o by (auto simp: scan_inv_def best_run_def free_run_def)
qed

definition search_ok ::
    "hscfs_dentry_block \<Rightarrow> slot_map \<Rightarrow> u8 list \<Rightarrow> nat \<Rightarrow> nat option \<times> nat \<times> nat option \<Rightarrow> bool" where
  "search_ok b m name p r \<longleftrightarrow>
     (case fst r of
        Some s \<Rightarrow> p \<le> s \<and> (\<exists>ino ty. m s = Some (name, ino, ty))
      | None \<Rightarrow> (\<forall>s ino ty. p \<le> s \<longrightarrow> m s \<noteq> Some (name, ino, ty)) \<and> best_run b 214 (snd r))"

lemma search_ok_mono:
  assumes "search_ok b m name p' r" "p \<le> p'" "\<And>s ino ty. p \<le> s \<Longrightarrow> s < p' \<Longrightarrow> m s \<noteq> Some (name, ino, ty)"
  shows "search_ok b m name p r"
proof (cases "fst r")
  case None
  then show ?thesis using assms by (simp add: search_ok_def) (meson not_le)
next
  case (Some s)
  then show ?thesis using assms by (auto simp: search_ok_def)
qed

lemma find_loop_spec:
  assumes "represents b m" "scan_inv b m p ml best"
  shows "\<exists>r. find_loop b name (hscfs_dentry_hash name) p ml best = Inr r \<and> search_ok b m name p r"
  using assms(2)
proof (induction "214 - p" arbitrary: p ml best rule: less_induct)
  case less
  note simps = find_loop.simps [of b name "hscfs_dentry_hash name" p ml best]
  show ?case
  proof (cases "p < 214")
    case False
    then have "p = 214" using less.prems by (simp add: scan_inv_def)
    moreover have "m s \<noteq> Some (name, ino, ty)" if "214 \<le> s" for s ino ty
      using occ_pos representsD(2) [OF assms(1)] that by fastforce
    ultimately show ?thesis using simps scan_better [OF less.prems] by (auto simp: search_ok_def)
  next
    case lt: True
    show ?thesis
    proof (cases "test_bitmap_pos p b")
      case False
      have "m p = None" using representsD(3) [OF assms(1) lt] occ_pos representsD(2) [OF assms(1), of p] False
        by (cases "m p") fastforce+
      then have here: "m p \<noteq> Some (name, ino, ty)" for ino ty by simp
      have shorter: "214 - (p + 1) < 214 - p" using lt by simp
      from less.hyps [OF shorter scan_free [OF assms(1) less.prems lt False]]
      obtain r where r: "find_loop b name (hscfs_dentry_hash name) (p + 1) (ml + 1) best = Inr r"
        "search_ok b m name (p + 1) r" by blast
      have "search_ok b m name p r" by (rule search_ok_mono [OF r(2)]) (use here in \<open>auto simp: less_Suc_eq\<close>)
      moreover have "find_loop b name (hscfs_dentry_hash name) p ml best = Inr r"
        unfolding simps using lt False r(1) by simp
      ultimately show ?thesis by blast
    next
      case True
      then obtain s e where se: "m s = Some e" "s \<le> p" "p < s + occ e" using representsD(3) [OF assms(1) lt] by blast
      have "\<forall>s e. m s = Some e \<and> s < p \<longrightarrow> s + occ e \<le> p" using less.prems unfolding scan_inv_def by blast
      then have "\<not> s < p" using se by (metis not_less)
      then have "s = p" using se(2) by simp
      with se have e: "m p = Some e" by simp
      obtain nm ino ty where nm: "e = (nm, ino, ty)" by (cases e)
      have ok: "slot_entry_ok b p (nm, ino, ty)" using representsD(2) [OF assms(1) e] nm by simp
      have len: "name_len (dentry b ! p) = word_of_nat (length nm)" "length nm < 2 ^ 16" "nm \<noteq> []"
        using ok by (simp_all add: slot_entry_ok_def)
      have un: "unat (name_len (dentry b ! p)) = length nm" using len by (simp add: unsigned_of_nat take_bit_nat_eq_self)
      then have nz: "name_len (dentry b ! p) \<noteq> 0" using len(3) by auto
      note match = match_name_spec [OF representsD(1) [OF assms(1)] ok, of name]
      show ?thesis
      proof (cases "name = nm")
        case True
        then show ?thesis using simps lt \<open>test_bitmap_pos p b\<close> nz match e nm by (auto simp: search_ok_def)
      next
        case False
        have occ: "occ e = GET_DENTRY_SLOTS (length nm)" by (simp add: occ_def nm)
        have "0 < occ e" using occ_pos representsD(2) [OF assms(1) e] by blast
        then have shorter: "214 - (p + occ e) < 214 - p" using lt by simp
        from less.hyps [OF shorter scan_entry [OF assms(1) less.prems e]]
        obtain r where r: "find_loop b name (hscfs_dentry_hash name) (p + occ e) 0 (better p ml best) = Inr r"
          "search_ok b m name (p + occ e) r" by blast
        have "m s \<noteq> Some (name, ino', ty')" if "p \<le> s" "s < p + occ e" for s ino' ty'
          using representsD(4) [OF assms(1) e, of s] that e nm False by (cases "s = p") fastforce+
        then have "search_ok b m name p r" by (intro search_ok_mono [OF r(2)]) simp_all
        moreover have "find_loop b name (hscfs_dentry_hash name) p ml best = Inr r"
          unfolding simps using lt \<open>test_bitmap_pos p b\<close> nz match False un occ r(1) by simp
        ultimately show ?thesis by blast
      qed
    qed
  qed
qed

lemma scan_start: "scan_inv b m 0 0 (0, None)"
  by (simp add: scan_inv_def free_run_def)

section \<open>Creating and removing\<close>

lemma write_bytes_ok:
  assumes "p + length bs \<le> length xs"
  obtains ys where "write_bytes p bs xs = Inr ys" "length ys = length xs" "take (length bs) (drop p ys) = bs"
    "\<And>q n. q + n \<le> p \<or> p + length bs \<le> q \<Longrightarrow> q + n \<le> length xs \<Longrightarrow> take n (drop q ys) = take n (drop q xs)"
proof -
  let ?ys = "take p xs @ bs @ drop (p + length bs) xs"
  have "take n (drop q ?ys) = take n (drop q xs)" if "q + n \<le> p \<or> p + length bs \<le> q" "q + n \<le> length xs" for q n
    using that assms by (intro nth_equalityI) (auto simp: nth_append)
  then show thesis using assms by (intro that [of ?ys]) (auto simp: write_bytes_def)
qed

lemma ex_map_upd:
  "m s = None \<Longrightarrow> (\<exists>s' e'. (m(s \<mapsto> e)) s' = Some e' \<and> P s' e') \<longleftrightarrow> P s e \<or> (\<exists>s' e'. m s' = Some e' \<and> P s' e')"
  by (metis fun_upd_apply option.distinct(1) option.inject)

lemma create_ok:
  assumes rep: "represents b m" and nm: "name \<noteq> []" "length name < 2 ^ 16"
    and room: "s + GET_DENTRY_SLOTS (length name) \<le> 214" and free: "free_run b s (GET_DENTRY_SLOTS (length name))"
    and low: "\<forall>i. s \<le> i \<and> i < s + GET_DENTRY_SLOTS (length name) \<longrightarrow> i mod 64 < 32"
  shows "\<exists>b'. create_dentry_in_blk name ty ino s b = Inr b' \<and> represents b' (m(s \<mapsto> (name, ino, ty)))"
proof -
  let ?n = "GET_DENTRY_SLOTS (length name)" and ?e = "(name, ino, ty)"
  let ?de = "\<lparr>hash_code = hscfs_dentry_hash name, de_ino = ino, name_len = word_of_nat (length name), file_type = ty\<rparr>"
  have n1: "0 < ?n" using nm(1) by simp
  then have n: "0 < ?n" "s < 214" "occ ?e = ?n" using room by (simp_all add: occ_def)
  obtain b1 where b1: "set_bits s ?n b = Inr b1" "blk_ok b1" "dentry b1 = dentry b" "filename b1 = filename b"
    "\<And>q. test_bitmap_pos q b1 \<longleftrightarrow> (s \<le> q \<and> q < s + ?n) \<or> test_bitmap_pos q b" "\<And>i. read_hash i b1 = read_hash i b"
    using set_bits_ok [OF representsD(1) [OF rep] room] free low by (auto simp: free_run_def)
  have "8 * s + length name \<le> length (filename b1)"
    using room slots_bytes [of "length name"] b1(2) by (simp add: blk_ok_def)
  from write_bytes_ok [OF this] obtain fn where fn: "write_bytes (8 * s) name (filename b1) = Inr fn"
    "length fn = length (filename b1)" "take (length name) (drop (8 * s) fn) = name"
    "\<And>q k. q + k \<le> 8 * s \<or> 8 * s + length name \<le> q \<Longrightarrow> q + k \<le> length (filename b1) \<Longrightarrow>
       take k (drop q fn) = take k (drop q (filename b1))" by blast
  let ?b = "(write_entry s ?de b1)\<lparr>filename := fn\<rparr>"
  note we = write_entry_ok [OF b1(2) n(2), where e = ?de]
  have cr: "create_dentry_in_blk name ty ino s b = Inr ?b"
    using nm(1) b1(1) n(2) fn(1) by (simp add: create_dentry_in_blk_def Let_def)
  have sep: "s' + occ e' \<le> s \<or> s + ?n \<le> s'" if "m s' = Some e'" for s' e'
  proof -
    have o: "0 < occ e'" "s' + occ e' \<le> 214" using occ_pos representsD(2) [OF rep that] by blast+
    have bits: "test_bitmap_pos i b" if "s' \<le> i" "i < s' + occ e'" for i
      using representsD(3) [OF rep, of i] that \<open>m s' = Some e'\<close> o by fastforce
    show ?thesis
    proof (rule ccontr)
      assume "\<not> ?thesis"
      then have "s \<le> max s s'" "max s s' < s + ?n" "s' \<le> max s s'" "max s s' < s' + occ e'" using o(1) n(1) by auto
      then show False using bits [of "max s s'"] free unfolding free_run_def by blast
    qed
  qed
  have none: "m s = None"
  proof (rule ccontr)
    assume "m s \<noteq> None"
    then obtain e' where e': "m s = Some e'" by blast
    have "0 < occ e'" using occ_pos representsD(2) [OF rep e'] by blast
    with sep [OF e'] n(1) show False by linarith
  qed
  have "represents ?b (m(s \<mapsto> ?e))" unfolding represents_def
  proof (intro conjI allI impI)
    show "blk_ok ?b" using we(1) fn(2) we(2) by (simp add: blk_ok_def)
  next
    fix s' e' assume e': "(m(s \<mapsto> ?e)) s' = Some e'"
    show "slot_entry_ok ?b s' e'"
    proof (cases "s' = s")
      case True
      then show ?thesis using e' we(3) [OF n(2)] we(5) [OF n(2)] nm room fn(3) n(3) by (auto simp: slot_entry_ok_def)
    next
      case False
      with e' have m': "m s' = Some e'" by simp
      obtain nm' ino' ty' where x: "e' = (nm', ino', ty')" by (cases e')
      have ok: "slot_entry_ok b s' (nm', ino', ty')" using representsD(2) [OF rep m'] x by simp
      have lt: "s' < 214" "s' + occ e' \<le> 214" using occ_pos representsD(2) [OF rep m'] by blast+
      have "take (length nm') (drop (8 * s') fn) = take (length nm') (drop (8 * s') (filename b1))"
      proof (rule fn(4))
        show "8 * s' + length nm' \<le> 8 * s \<or> 8 * s + length name \<le> 8 * s'"
          using sep [OF m'] slots_bytes [of "length nm'"] slots_bytes [of "length name"] by (auto simp: occ_def x)
        show "8 * s' + length nm' \<le> length (filename b1)"
          using lt(2) slots_bytes [of "length nm'"] b1(2) by (auto simp: occ_def x blk_ok_def)
      qed
      then show ?thesis using ok we(3) [OF lt(1)] we(5) [OF lt(1)] False b1 by (simp add: slot_entry_ok_def x)
    qed
  next
    fix i :: nat assume i: "i < 214"
    have "test_bitmap_pos i ?b \<longleftrightarrow> (s \<le> i \<and> i < s + ?n) \<or> (\<exists>s e. m s = Some e \<and> s \<le> i \<and> i < s + occ e)"
      using we(4) [of i] i b1(5) [of i] representsD(3) [OF rep i] by simp
    also have "\<dots> \<longleftrightarrow> (\<exists>s' e'. (m(s \<mapsto> ?e)) s' = Some e' \<and> s' \<le> i \<and> i < s' + occ e')"
      using none ex_map_upd [of m s ?e "\<lambda>s e. s \<le> i \<and> i < s + occ e"] n(3) by auto
    finally show "test_bitmap_pos i ?b \<longleftrightarrow> (\<exists>s' e'. (m(s \<mapsto> ?e)) s' = Some e' \<and> s' \<le> i \<and> i < s' + occ e')" .
  next
    fix s1 e1 s2 e2 assume "(m(s \<mapsto> ?e)) s1 = Some e1 \<and> (m(s \<mapsto> ?e)) s2 = Some e2 \<and> s1 < s2"
    then show "s1 + occ e1 \<le> s2"
      using sep [of s1 e1] sep [of s2 e2] representsD(4) [OF rep, of s1 e1 s2 e2] n(3) by (auto split: if_splits)
  qed
  with cr show ?thesis by blast
qed

lemma word3: "s < 256 \<Longrightarrow> s div 64 = 3 \<longleftrightarrow> 192 \<le> s" for s :: nat
  using div_mult_mod_eq [of s 64] mod_less_divisor [of 64 s] by (intro iffI) linarith+

lemma reset_bits_ok:
  assumes "blk_ok b" "s + n \<le> 214" "\<forall>i. s \<le> i \<and> i < s + n \<longrightarrow> test_bitmap_pos i b \<and> i mod 64 < 32"
  shows "\<exists>b'. reset_bits s n b = Inr b' \<and> blk_ok b' \<and> dentry b' = dentry b \<and> filename b' = filename b \<and>
    (\<forall>q. test_bitmap_pos q b' \<longleftrightarrow> test_bitmap_pos q b \<and> \<not> (s \<le> q \<and> q < s + n) \<and>
       \<not> (q mod 64 \<ge> 32 \<and> (\<exists>p. s \<le> p \<and> p < s + n \<and> q div 64 = p div 64))) \<and>
    (s + n \<le> 192 \<longrightarrow> bitmap b' ! 3 = bitmap b ! 3) \<and> (192 \<le> s \<and> 0 < n \<longrightarrow> drop_bit 48 (bitmap b' ! 3) = 0)"
  using assms
proof (induction n arbitrary: s b)
  case (Suc n)
  have s: "s < 256" "s mod 64 < 32" "test_bitmap_pos s b" using Suc.prems(2,3) by auto
  obtain b1 where b1: "reset_bitmap_pos s b = Inr b1" "blk_ok b1" "dentry b1 = dentry b" "filename b1 = filename b"
    "\<And>q. test_bitmap_pos q b1 \<longleftrightarrow> test_bitmap_pos q b \<and> q \<noteq> s \<and> \<not> (q div 64 = s div 64 \<and> q mod 64 \<ge> 32)"
    "s div 64 \<noteq> 3 \<Longrightarrow> bitmap b1 ! 3 = bitmap b ! 3" "s div 64 = 3 \<Longrightarrow> drop_bit 48 (bitmap b1 ! 3) = 0"
    using reset_bitmap_ok [OF Suc.prems(1) s(1,2)] by blast
  have "\<forall>i. s + 1 \<le> i \<and> i < s + 1 + n \<longrightarrow> test_bitmap_pos i b1 \<and> i mod 64 < 32"
  proof (intro allI impI)
    fix i assume i: "s + 1 \<le> i \<and> i < s + 1 + n"
    then have "test_bitmap_pos i b" "i mod 64 < 32" using Suc.prems(3) by simp_all
    then show "test_bitmap_pos i b1 \<and> i mod 64 < 32" using i by (simp add: b1(5))
  qed
  with Suc.IH [OF b1(2), of "s + 1"] Suc.prems(2) obtain b2 where b2: "reset_bits (s + 1) n b1 = Inr b2" "blk_ok b2"
    "dentry b2 = dentry b1" "filename b2 = filename b1"
    "\<And>q. test_bitmap_pos q b2 \<longleftrightarrow> test_bitmap_pos q b1 \<and> \<not> (s + 1 \<le> q \<and> q < s + 1 + n) \<and>
       \<not> (q mod 64 \<ge> 32 \<and> (\<exists>p. s + 1 \<le> p \<and> p < s + 1 + n \<and> q div 64 = p div 64))"
    "s + 1 + n \<le> 192 \<longrightarrow> bitmap b2 ! 3 = bitmap b1 ! 3"
    "192 \<le> s + 1 \<and> 0 < n \<longrightarrow> drop_bit 48 (bitmap b2 ! 3) = 0" by auto
  have run: "reset_bits s (Suc n) b = Inr b2" using s(3) b1(1) b1(5) [of s] b2(1) by simp
  have range: "(\<exists>p. s \<le> p \<and> p < s + Suc n \<and> q div 64 = p div 64) \<longleftrightarrow>
      q div 64 = s div 64 \<or> (\<exists>p. s + 1 \<le> p \<and> p < s + 1 + n \<and> q div 64 = p div 64)" for q
    by (metis add_Suc_right add_Suc_shift Suc_eq_plus1 le_eq_less_or_eq less_add_Suc1 Suc_le_eq)
  have "test_bitmap_pos q b2 \<longleftrightarrow> test_bitmap_pos q b \<and> \<not> (s \<le> q \<and> q < s + Suc n) \<and>
       \<not> (q mod 64 \<ge> 32 \<and> (\<exists>p. s \<le> p \<and> p < s + Suc n \<and> q div 64 = p div 64))" for q
    unfolding b2(5) b1(5) range by auto
  moreover have w: "s div 64 = 3 \<longleftrightarrow> 192 \<le> s" using word3 [of s] Suc.prems(2) by simp
  have "bitmap b2 ! 3 = bitmap b ! 3" if "s + Suc n \<le> 192"
  proof -
    have "bitmap b1 ! 3 = bitmap b ! 3" using b1(6) w that by simp
    then show ?thesis using b2(6) that by simp
  qed
  moreover have "drop_bit 48 (bitmap b2 ! 3) = 0" if "192 \<le> s"
  proof (cases "n = 0")
    case True
    then have "b2 = b1" using b2(1) by simp
    then show ?thesis using b1(7) w that by simp
  next
    case False
    then show ?thesis using b2(7) that by simp
  qed
  ultimately show ?case using run b2(2-4) b1(3,4) by (intro exI [of _ b2]) simp
qed auto

lemma remove_run:
  assumes rep: "represents b m" and e: "m s = Some (name, ino, ty)"
    and low: "\<forall>i. s \<le> i \<and> i < s + GET_DENTRY_SLOTS (length name) \<longrightarrow> i mod 64 < 32"
  obtains b1 fn where "reset_bits s (GET_DENTRY_SLOTS (length name)) b = Inr b1" "blk_ok b1" "dentry b1 = dentry b"
    "write_bytes (8 * s) (replicate (length name) 0) (filename b) = Inr fn" "length fn = 1712"
    "\<forall>q n. (q + n \<le> 8 * s \<or> 8 * s + length name \<le> q) \<and> q + n \<le> 1712 \<longrightarrow> take n (drop q fn) = take n (drop q (filename b))"
    "remove_dentry_in_blk name s b =
       Inr ((write_entry s \<lparr>hash_code = 0, de_ino = 0, name_len = 0, file_type = 0\<rparr> b1)\<lparr>filename := fn\<rparr>)"
    "\<forall>q. test_bitmap_pos q b1 \<longleftrightarrow> test_bitmap_pos q b \<and> \<not> (s \<le> q \<and> q < s + GET_DENTRY_SLOTS (length name)) \<and>
       \<not> (q mod 64 \<ge> 32 \<and> (\<exists>p. s \<le> p \<and> p < s + GET_DENTRY_SLOTS (length name) \<and> q div 64 = p div 64))"
    "s + GET_DENTRY_SLOTS (length name) \<le> 192 \<longrightarrow> bitmap b1 ! 3 = bitmap b ! 3"
    "192 \<le> s \<longrightarrow> drop_bit 48 (bitmap b1 ! 3) = 0"
proof -
  let ?n = "GET_DENTRY_SLOTS (length name)"
  have ok: "slot_entry_ok b s (name, ino, ty)" by (rule representsD(2) [OF rep e])
  have n: "0 < ?n" "s + ?n \<le> 214" "s < 214" "name \<noteq> []"
    using occ_pos [OF ok] ok by (auto simp: occ_def slot_entry_ok_def)
  have "\<forall>i. s \<le> i \<and> i < s + ?n \<longrightarrow> test_bitmap_pos i b \<and> i mod 64 < 32"
    using representsD(3) [OF rep] e n low by (fastforce simp: occ_def)
  from reset_bits_ok [OF representsD(1) [OF rep] n(2) this] obtain b1 where b1: "reset_bits s ?n b = Inr b1" "blk_ok b1"
    "dentry b1 = dentry b" "filename b1 = filename b"
    "\<forall>q. test_bitmap_pos q b1 \<longleftrightarrow> test_bitmap_pos q b \<and> \<not> (s \<le> q \<and> q < s + ?n) \<and>
       \<not> (q mod 64 \<ge> 32 \<and> (\<exists>p. s \<le> p \<and> p < s + ?n \<and> q div 64 = p div 64))"
    "s + ?n \<le> 192 \<longrightarrow> bitmap b1 ! 3 = bitmap b ! 3" "192 \<le> s \<and> 0 < ?n \<longrightarrow> drop_bit 48 (bitmap b1 ! 3) = 0" by blast
  have fl: "length (filename b) = 1712" using representsD(1) [OF rep] by (simp add: blk_ok_def)
  have "8 * s + length (replicate (length name) (0 :: u8)) \<le> length (filename b)"
    using n(2) slots_bytes [of "length name"] fl by simp
  from write_bytes_ok [OF this] obtain fn where fn: "write_bytes (8 * s) (replicate (length name) 0) (filename b) = Inr fn"
    "length fn = length (filename b)"
    "\<And>q k. q + k \<le> 8 * s \<or> 8 * s + length (replicate (length name) (0 :: u8)) \<le> q \<Longrightarrow> q + k \<le> length (filename b) \<Longrightarrow>
       take k (drop q fn) = take k (drop q (filename b))" by blast
  have rm: "remove_dentry_in_blk name s b =
      Inr ((write_entry s \<lparr>hash_code = 0, de_ino = 0, name_len = 0, file_type = 0\<rparr> b1)\<lparr>filename := fn\<rparr>)"
    using n(3,4) by (simp add: remove_dentry_in_blk_def b1(1,4) fn(1))
  show thesis
    by (rule that [OF b1(1-3) fn(1) _ _ rm]) (use fn(2,3) fl b1(5-7) n(1) in auto)
qed

lemma remove_ok:
  assumes rep: "represents b m" and e: "m s = Some (name, ino, ty)"
    and room: "s + GET_DENTRY_SLOTS (length name) \<le> 192"
    and low: "\<forall>i < 214. i mod 64 \<ge> 32 \<longrightarrow> \<not> test_bitmap_pos i b"
  shows "\<exists>b'. remove_dentry_in_blk name s b = Inr b' \<and> represents b' (m(s := None))"
proof -
  let ?n = "GET_DENTRY_SLOTS (length name)" and ?z = "\<lparr>hash_code = 0, de_ino = 0, name_len = 0, file_type = 0\<rparr>"
  have occ: "occ (name, ino, ty) = ?n" by (simp add: occ_def)
  have n: "0 < ?n" "s < 214" using occ_pos [OF representsD(2) [OF rep e]] by (simp_all add: occ)
  have bits: "\<forall>i. s \<le> i \<and> i < s + ?n \<longrightarrow> test_bitmap_pos i b" using representsD(3) [OF rep] e room occ by fastforce
  then have low': "\<forall>i. s \<le> i \<and> i < s + ?n \<longrightarrow> i mod 64 < 32" 
  proof (intro allI impI)
    fix i assume i: "s \<le> i \<and> i < s + ?n"
    then have "i < 214" using room by linarith
    with i bits low show "i mod 64 < 32" by (metis not_le)
  qed
  obtain b1 fn where rr: "reset_bits s ?n b = Inr b1" and b1: "blk_ok b1" "dentry b1 = dentry b"
    and wb: "write_bytes (8 * s) (replicate (length name) 0) (filename b) = Inr fn"
    and fn: "length fn = 1712" "\<forall>q n. (q + n \<le> 8 * s \<or> 8 * s + length name \<le> q) \<and> q + n \<le> 1712 \<longrightarrow>
      take n (drop q fn) = take n (drop q (filename b))"
    and rm: "remove_dentry_in_blk name s b = Inr ((write_entry s ?z b1)\<lparr>filename := fn\<rparr>)"
    and t: "\<forall>q. test_bitmap_pos q b1 \<longleftrightarrow> test_bitmap_pos q b \<and> \<not> (s \<le> q \<and> q < s + ?n) \<and>
       \<not> (q mod 64 \<ge> 32 \<and> (\<exists>p. s \<le> p \<and> p < s + ?n \<and> q div 64 = p div 64))"
    and w: "s + ?n \<le> 192 \<longrightarrow> bitmap b1 ! 3 = bitmap b ! 3" "192 \<le> s \<longrightarrow> drop_bit 48 (bitmap b1 ! 3) = 0"
    by (rule remove_run [OF rep e low']) blast
  have w3: "bitmap b1 ! 3 = bitmap b ! 3" using w(1) room by simp
  let ?b = "(write_entry s ?z b1)\<lparr>filename := fn\<rparr>"
  note we = write_entry_ok [OF b1(1) n(2), where e = ?z]
  have hash: "read_hash i b1 = read_hash i b" for i using b1(2) w3 by (intro read_hash_words) simp_all
  have sep: "s' + occ e' \<le> s \<or> s + ?n \<le> s'" if "m s' = Some e'" "s' \<noteq> s" for s' e'
    using representsD(4) [OF rep that(1) e] representsD(4) [OF rep e that(1)] that(2) occ by (cases "s' < s") auto
  have "represents ?b (m(s := None))" unfolding represents_def
  proof (intro conjI allI impI)
    show "blk_ok ?b" using we(1) fn(1) by (simp add: blk_ok_def)
  next
    fix s' e' assume "(m(s := None)) s' = Some e'"
    then have m': "m s' = Some e'" "s' \<noteq> s" by (auto split: if_splits)
    obtain nm' ino' ty' where x: "e' = (nm', ino', ty')" by (cases e')
    have ok: "slot_entry_ok b s' (nm', ino', ty')" using representsD(2) [OF rep m'(1)] x by simp
    have lt: "s' < 214" "s' + occ e' \<le> 214" using occ_pos representsD(2) [OF rep m'(1)] by blast+
    have "take (length nm') (drop (8 * s') fn) = take (length nm') (drop (8 * s') (filename b))"
      using sep [OF m'] slots_bytes [of "length nm'"] slots_bytes [of "length name"] lt(2)
      by (intro fn(2) [rule_format]) (auto simp: occ_def x)
    then show "slot_entry_ok ?b s' e'"
      using ok we(3) [OF lt(1)] we(5) [OF lt(1)] m'(2) b1(2) hash by (simp add: slot_entry_ok_def x)
  next
    fix i :: nat assume i: "i < 214"
    have "test_bitmap_pos i ?b \<longleftrightarrow> test_bitmap_pos i b \<and> \<not> (s \<le> i \<and> i < s + ?n)"
      using we(4) [of i] i t [rule_format, of i] low by auto
    also have "\<dots> \<longleftrightarrow> (\<exists>s' e'. m s' = Some e' \<and> s' \<noteq> s \<and> s' \<le> i \<and> i < s' + occ e')"
    proof
      assume l: "test_bitmap_pos i b \<and> \<not> (s \<le> i \<and> i < s + ?n)"
      then obtain s' e' where "m s' = Some e'" "s' \<le> i" "i < s' + occ e'" using representsD(3) [OF rep i] by blast
      moreover from this l have "s' \<noteq> s" using e occ by auto
      ultimately show "\<exists>s' e'. m s' = Some e' \<and> s' \<noteq> s \<and> s' \<le> i \<and> i < s' + occ e'" by blast
    next
      assume "\<exists>s' e'. m s' = Some e' \<and> s' \<noteq> s \<and> s' \<le> i \<and> i < s' + occ e'"
      then obtain s' e' where *: "m s' = Some e'" "s' \<noteq> s" "s' \<le> i" "i < s' + occ e'" by blast
      then have "\<not> (s \<le> i \<and> i < s + ?n)" using sep [OF *(1,2)] by linarith
      then show "test_bitmap_pos i b \<and> \<not> (s \<le> i \<and> i < s + ?n)" using * representsD(3) [OF rep i] by blast
    qed
    finally show "test_bitmap_pos i ?b \<longleftrightarrow> (\<exists>s' e'. (m(s := None)) s' = Some e' \<and> s' \<le> i \<and> i < s' + occ e')"
      by (auto split: if_splits)
  next
    fix s1 e1 s2 e2 assume "(m(s := None)) s1 = Some e1 \<and> (m(s := None)) s2 = Some e2 \<and> s1 < s2"
    then show "s1 + occ e1 \<le> s2" using representsD(4) [OF rep, of s1 e1 s2 e2] by (auto split: if_splits)
  qed
  with rm show ?thesis by blast
qed

lemma set_bits_undefined:
  assumes "blk_ok b" "s + n \<le> 214" "free_run b s n" "s \<le> i" "i < s + n" "i mod 64 \<ge> 32"
  shows "set_bits s n b = Inl Undefined"
  using assms
proof (induction n arbitrary: s b)
  case (Suc n)
  have s: "\<not> test_bitmap_pos s b" using Suc.prems(3) by (simp add: free_run_def)
  show ?case
  proof (cases "s mod 64 \<ge> 32")
    case True
    then show ?thesis using s by (simp add: set_bitmap_pos_def Let_def)
  next
    case False
    have lt: "s < 256" "s mod 64 < 32" using False Suc.prems(2) by auto
    obtain b1 where b1: "set_bitmap_pos s b = Inr b1" "blk_ok b1" "dentry b1 = dentry b" "filename b1 = filename b"
      "\<And>q. test_bitmap_pos q b1 \<longleftrightarrow> q = s \<or> test_bitmap_pos q b" "\<And>i. read_hash i b1 = read_hash i b"
      using set_bitmap_ok [OF Suc.prems(1) lt] by blast
    have "i \<noteq> s" using False Suc.prems(6) by auto
    then have "set_bits (s + 1) n b1 = Inl Undefined"
      using Suc.prems b1 by (intro Suc.IH) (auto simp: free_run_def)
    then show ?thesis using s b1 by simp
  qed
qed simp

section \<open>Buckets\<close>

lemma level_blocks:
  assumes "level \<le> 31"
  shows "(\<Sum>i<level. bucket_num i 0 * bucket_block_num i) = 2 * (2 ^ level - 1)"
  using assms
proof (induction level)
  case (Suc l)
  have "(1 :: nat) \<le> 2 ^ l" by simp
  with Suc show ?case by (simp add: bucket_num_def bucket_block_num_def)
qed simp

lemma bucket_start:
  assumes "level \<le> 30" "idx < bucket_num level 0"
  shows "bucket_start_block_index level 0 idx = 2 * (2 ^ level - 1) + 2 * idx"
proof -
  have "idx < 2 ^ level" using assms by (simp add: bucket_num_def)
  moreover have "(2 :: nat) ^ level \<le> 2 ^ 30" using assms(1) by (intro power_increasing) auto
  ultimately have "2 * (2 ^ level - 1) + 2 * idx < 2 ^ 32" by simp
  then show ?thesis using assms level_blocks [of level]
    by (simp add: bucket_start_block_index_def bucket_block_num_def)
qed

section \<open>Properties\<close>

text \<open>
  C26. Searching a block. On a block that holds the entries \<open>m\<close>, the search for a name never
  fails, returns the slot of an entry with that name if there is one, and otherwise returns
  the length and the position of a longest run of free slots.
\<close>

theorem find_target_dentry_correct:
  assumes "represents b m"
  shows "\<exists>found mx pos. hscfs_find_target_dentry b name (hscfs_dentry_hash name) = Inr (found, mx, pos) \<and>
    (case found of
       Some s \<Rightarrow> \<exists>ino ty. m s = Some (name, ino, ty)
     | None \<Rightarrow> (\<forall>s ino ty. m s \<noteq> Some (name, ino, ty)) \<and>
         (\<forall>q k. q + k \<le> 214 \<and> (\<forall>i. q \<le> i \<and> i < q + k \<longrightarrow> \<not> test_bitmap_pos i b) \<longrightarrow> k \<le> mx) \<and>
         (mx = 0 \<or> (\<exists>q. pos = Some q \<and> q + mx \<le> 214 \<and> (\<forall>i. q \<le> i \<and> i < q + mx \<longrightarrow> \<not> test_bitmap_pos i b))))"
proof -
  obtain r where "find_loop b name (hscfs_dentry_hash name) 0 0 (0, None) = Inr r" "search_ok b m name 0 r"
    using find_loop_spec [OF assms scan_start] by blast
  then show ?thesis
    by (cases r) (auto simp: hscfs_find_target_dentry_def search_ok_def best_run_def free_run_def split: option.splits)
qed

theorem find_target_dentry_correct_witness:
  "\<exists>found mx pos. hscfs_find_target_dentry zero_block [97, 98] (hscfs_dentry_hash [97, 98]) = Inr (found, mx, pos) \<and>
     found = None \<and> 214 \<le> mx"
proof -
  have "\<not> test_bitmap_pos i zero_block" if "i < 214" for i using representsD(3) [OF represents_zero that] by simp
  then have all: "\<forall>i. 0 \<le> i \<and> i < 0 + 214 \<longrightarrow> \<not> test_bitmap_pos i zero_block" by simp
  obtain found mx pos where f: "hscfs_find_target_dentry zero_block [97, 98] (hscfs_dentry_hash [97, 98]) = Inr (found, mx, pos)"
    and c: "case found of Some s \<Rightarrow> \<exists>ino ty. (Map.empty :: slot_map) s = Some ([97, 98], ino, ty)
      | None \<Rightarrow> (\<forall>s ino ty. (Map.empty :: slot_map) s \<noteq> Some ([97, 98], ino, ty)) \<and>
         (\<forall>q k. q + k \<le> 214 \<and> (\<forall>i. q \<le> i \<and> i < q + k \<longrightarrow> \<not> test_bitmap_pos i zero_block) \<longrightarrow> k \<le> mx) \<and>
         (mx = 0 \<or> (\<exists>q. pos = Some q \<and> q + mx \<le> 214 \<and> (\<forall>i. q \<le> i \<and> i < q + mx \<longrightarrow> \<not> test_bitmap_pos i zero_block)))"
    using find_target_dentry_correct [OF represents_zero, of "[97, 98]"] by blast
  from c have n: "found = None" by (cases found) auto
  from c [unfolded n option.case, THEN conjunct2, THEN conjunct1, rule_format, of 0 214] all
  have "214 \<le> mx" by simp
  with n have "found = None \<and> 214 \<le> mx" by simp
  then show ?thesis using f by blast
qed

text \<open>
  C27. Creating an entry. When the slots it needs are free and all of them lie in lower halves of
  the 64-bit words of the bitmap (slot numbers with \<open>i mod 64 < 32\<close>; for the others the shift of
  \<^verbatim>\<open>set_bitmap_pos\<close> is undefined), \<^verbatim>\<open>create_dentry_in_blk\<close> adds exactly the new entry to those the block holds, and a search for a name not used
  before then finds it at the position it was created at.
\<close>

theorem create_then_find:
  assumes "represents b m" "name \<noteq> []" "length name < 2 ^ 16"
    "s + GET_DENTRY_SLOTS (length name) \<le> 214" "create_pos_free name s b"
    "\<forall>i. s \<le> i \<and> i < s + GET_DENTRY_SLOTS (length name) \<longrightarrow> i mod 64 < 32"
    "\<forall>t ino ty. m t \<noteq> Some (name, ino, ty)"
  shows "\<exists>b' mx pos. create_dentry_in_blk name type new_ino s b = Inr b' \<and>
    represents b' (m(s \<mapsto> (name, new_ino, type))) \<and>
    hscfs_find_target_dentry b' name (hscfs_dentry_hash name) = Inr (Some s, mx, pos)"
proof -
  have "\<not> test_bitmap_pos i b" if "s \<le> i" "i < s + GET_DENTRY_SLOTS (length name)" for i
  proof -
    have "i - s \<in> set [0..<GET_DENTRY_SLOTS (length name)]" "i - s + s = i" using that by auto
    then show ?thesis using assms(5) unfolding create_pos_free_def by metis
  qed
  then have "free_run b s (GET_DENTRY_SLOTS (length name))" by (auto simp: free_run_def)
  from create_ok [OF assms(1-4) this assms(6)] obtain b' where b': "create_dentry_in_blk name type new_ino s b = Inr b'"
    "represents b' (m(s \<mapsto> (name, new_ino, type)))" by blast
  obtain r where r: "find_loop b' name (hscfs_dentry_hash name) 0 0 (0, None) = Inr r"
    "search_ok b' (m(s \<mapsto> (name, new_ino, type))) name 0 r"
    using find_loop_spec [OF b'(2) scan_start] by blast
  have "fst r = Some s" using r(2) assms(7) by (auto simp: search_ok_def split: option.splits if_splits)
  then show ?thesis using b' r(1) by (cases r) (auto simp: hscfs_find_target_dentry_def)
qed

theorem create_then_find_witness:
  "\<exists>b' mx pos. create_dentry_in_blk [97, 98] 1 7 3 zero_block = Inr b' \<and>
     hscfs_find_target_dentry b' [97, 98] (hscfs_dentry_hash [97, 98]) = Inr (Some 3, mx, pos)"
proof -
  have "create_pos_free [97, 98] 3 zero_block"
    by (simp add: create_pos_free_def test_bitmap_pos_bit zero_block_def GET_DENTRY_SLOTS_def)
  moreover have "GET_DENTRY_SLOTS (length [97, 98 :: u8]) = 1" by (simp add: GET_DENTRY_SLOTS_def)
  ultimately show ?thesis
    using create_then_find [OF represents_zero, of "[97, 98]" 3 1 7] by fastforce
qed

text \<open>
  The shift of \<^verbatim>\<open>set_bitmap_pos\<close> is a 32-bit one: creating an entry in free slots one of
  which lies in the upper half of a 64-bit word of the bitmap has undefined behaviour.
\<close>

theorem create_in_upper_half_undefined:
  assumes "represents b m" "name \<noteq> []" "s + GET_DENTRY_SLOTS (length name) \<le> 214"
    "\<forall>i. s \<le> i \<and> i < s + GET_DENTRY_SLOTS (length name) \<longrightarrow> \<not> test_bitmap_pos i b"
    "s \<le> i" "i < s + GET_DENTRY_SLOTS (length name)" "i mod 64 \<ge> 32"
  shows "create_dentry_in_blk name type new_ino s b = Inl Undefined"
  using set_bits_undefined [OF representsD(1) [OF assms(1)] assms(3) _ assms(5-7)] assms(2,4)
  by (simp add: create_dentry_in_blk_def free_run_def Let_def)

theorem create_in_upper_half_undefined_witness:
  "create_dentry_in_blk [97, 98] 1 7 40 zero_block = Inl Undefined"
proof -
  have "\<not> test_bitmap_pos i zero_block" if "i < 214" for i using representsD(3) [OF represents_zero that] by simp
  then show ?thesis
    by (intro create_in_upper_half_undefined [OF represents_zero, of "[97, 98]" 40 40])
       (simp_all add: GET_DENTRY_SLOTS_def)
qed

text \<open>
  C28. Removing an entry below slot 192 of a block in which no slot of the upper half of a bitmap
  word (\<open>i mod 64 \<ge> 32\<close>) is in use removes exactly that entry: the
  others stay, and a search for a name used once no longer finds it.
\<close>

theorem remove_then_absent:
  assumes "represents b m" "m s = Some (name, ino, ty)" "s + GET_DENTRY_SLOTS (length name) \<le> 192"
    "\<forall>i < 214. i mod 64 \<ge> 32 \<longrightarrow> \<not> test_bitmap_pos i b"
    "\<forall>t x y. t \<noteq> s \<longrightarrow> m t \<noteq> Some (name, x, y)"
  shows "\<exists>b' mx pos. remove_dentry_in_blk name s b = Inr b' \<and> represents b' (m(s := None)) \<and>
    hscfs_find_target_dentry b' name (hscfs_dentry_hash name) = Inr (None, mx, pos)"
proof -
  obtain b' where b': "remove_dentry_in_blk name s b = Inr b'" "represents b' (m(s := None))"
    using remove_ok [OF assms(1-4)] by blast
  obtain r where r: "find_loop b' name (hscfs_dentry_hash name) 0 0 (0, None) = Inr r"
    "search_ok b' (m(s := None)) name 0 r"
    using find_loop_spec [OF b'(2) scan_start] by blast
  have "fst r = None" using r(2) assms(5) by (auto simp: search_ok_def split: option.splits if_splits)
  then show ?thesis using b' r(1) by (cases r) (auto simp: hscfs_find_target_dentry_def)
qed

text \<open>A block with one entry, for the witnesses.\<close>

lemma one_slot: "GET_DENTRY_SLOTS (length [c]) = 1" "GET_DENTRY_SLOTS (Suc 0) = 1"
  by (simp_all add: GET_DENTRY_SLOTS_def)

lemma one_entry:
  assumes "represents b m" "\<not> test_bitmap_pos s b" "s < 214" "s mod 64 < 32"
  obtains b' where "represents b' (m(s \<mapsto> ([c], ino, ty)))"
proof -
  have "\<exists>b'. create_dentry_in_blk [c] ty ino s b = Inr b' \<and> represents b' (m(s \<mapsto> ([c], ino, ty)))"
    by (rule create_ok [OF assms(1)]) (use assms(2-4) in \<open>auto simp: free_run_def one_slot less_Suc_eq_le dest: le_antisym\<close>)
  then show thesis using that by blast
qed

theorem remove_then_absent_witness:
  "\<exists>b b' mx pos. remove_dentry_in_blk [97] 3 b = Inr b' \<and>
     hscfs_find_target_dentry b' [97] (hscfs_dentry_hash [97]) = Inr (None, mx, pos)"
proof -
  have z: "\<not> test_bitmap_pos 3 zero_block" using representsD(3) [OF represents_zero, of 3] by simp
  obtain b where b: "represents b (Map.empty(3 \<mapsto> ([97], 7, 1)))"
    using one_entry [OF represents_zero z, of 97 7 1] by auto
  have "\<not> test_bitmap_pos i b" if "i < 214" "i mod 64 \<ge> 32" for i
  proof -
    have "i \<noteq> 3" using that(2) by auto
    then show ?thesis using representsD(3) [OF b that(1)] by (auto simp: occ_def one_slot split: if_splits)
  qed
  then show ?thesis using remove_then_absent [OF b, of 3 "[97]" 7 1] by (auto simp: one_slot)
qed

text \<open>
  \<^verbatim>\<open>reset_bitmap_pos\<close> clears the upper half of the word it changes. In the last word that
  half holds the low 16 bits of the hash of the entry in slot 0: removing any entry from slot
  192 on makes the entry in slot 0 stop matching its name.
\<close>

theorem remove_damages_first_entry:
  assumes "represents b m" "m s = Some (name, ino, ty)" "192 \<le> s"
    "m 0 = Some (first, ino0, ty0)" "take_bit 16 (hscfs_dentry_hash first) \<noteq> 0"
  shows "\<exists>b'. remove_dentry_in_blk name s b = Inr b' \<and> \<not> test_bitmap_pos s b' \<and>
    hscfs_match_name b first (hscfs_dentry_hash first) 0 = Inr True \<and>
    hscfs_match_name b' first (hscfs_dentry_hash first) 0 = Inr False"
proof -
  let ?n = "GET_DENTRY_SLOTS (length name)" and ?z = "\<lparr>hash_code = 0, de_ino = 0, name_len = 0, file_type = 0\<rparr>"
  have o: "0 < ?n" "s + ?n \<le> 214" "s < 214" using occ_pos [OF representsD(2) [OF assms(1,2)]] by (simp_all add: occ_def)
  have low: "\<forall>i. s \<le> i \<and> i < s + ?n \<longrightarrow> i mod 64 < 32"
  proof (intro allI impI)
    fix i assume i: "s \<le> i \<and> i < s + ?n"
    then have "i div 64 = 3" using word3 [of i] o(2) assms(3) by simp
    with i o(2) show "i mod 64 < 32" using div_mult_mod_eq [of i 64] by linarith
  qed
  obtain b1 fn where b1: "blk_ok b1" "dentry b1 = dentry b"
    and rm: "remove_dentry_in_blk name s b = Inr ((write_entry s ?z b1)\<lparr>filename := fn\<rparr>)"
    and t: "\<forall>q. test_bitmap_pos q b1 \<longleftrightarrow> test_bitmap_pos q b \<and> \<not> (s \<le> q \<and> q < s + ?n) \<and>
       \<not> (q mod 64 \<ge> 32 \<and> (\<exists>p. s \<le> p \<and> p < s + ?n \<and> q div 64 = p div 64))"
    and w: "192 \<le> s \<longrightarrow> drop_bit 48 (bitmap b1 ! 3) = 0"
    by (rule remove_run [OF assms(1,2) low]) blast
  let ?b = "(write_entry s ?z b1)\<lparr>filename := fn\<rparr>"
  note we = write_entry_ok [OF b1(1) o(3), where e = ?z]
  have "take_bit 16 (read_hash 0 b1) = 0"
    using w assms(3) by (simp add: read_hash_def take_bit_push_bit)
  then have "read_hash 0 ?b \<noteq> hscfs_dentry_hash first" using we(5) [of 0] assms(3,5) by auto
  then have "hscfs_match_name ?b first (hscfs_dentry_hash first) 0 = Inr False" by (simp add: hscfs_match_name_def)
  moreover have "hscfs_match_name b first (hscfs_dentry_hash first) 0 = Inr True"
    using match_name_spec [OF representsD(1) [OF assms(1)] representsD(2) [OF assms(1,4)], of first] by simp
  moreover have "\<not> test_bitmap_pos s ?b" using we(4) [of s] t o by simp
  ultimately show ?thesis using rm by blast
qed

theorem remove_damages_first_entry_witness:
  "\<exists>b b'. remove_dentry_in_blk [98] 192 b = Inr b' \<and> hscfs_match_name b' [97] (hscfs_dentry_hash [97]) 0 = Inr False"
proof -
  have z: "\<not> test_bitmap_pos 0 zero_block" using representsD(3) [OF represents_zero, of 0] by simp
  obtain b0 where b0: "represents b0 (Map.empty(0 \<mapsto> ([97], 7, 1)))"
    using one_entry [OF represents_zero z, of 97 7 1] by auto
  have z1: "\<not> test_bitmap_pos 192 b0"
    using representsD(3) [OF b0, of 192] by (auto simp: occ_def one_slot split: if_splits)
  obtain b where b: "represents b (Map.empty(0 \<mapsto> ([97], 7, 1), 192 \<mapsto> ([98], 8, 1)))"
    using one_entry [OF b0 z1, of 98 8 1] by auto
  have "take_bit 16 (hscfs_dentry_hash [97]) \<noteq> 0" by code_simp
  then show ?thesis using remove_damages_first_entry [OF b, of 192 "[98]" 8 1 "[97]" 7 1] by auto
qed

text \<open>
  The buckets of the hash levels partition the blocks of a directory. In a directory of
  depth up to 30 every block number below the number of blocks of its levels lies in exactly
  one bucket of one level, and the 32-bit computation of a bucket's first block does not
  overflow.
\<close>

theorem buckets_partition_directory:
  assumes "depth \<le> 30" "blk < 2 * (2 ^ (depth + 1) - 1)"
  shows "(\<Sum>i\<le>depth. bucket_num i 0 * bucket_block_num i) = 2 * (2 ^ (depth + 1) - 1) \<and>
    (\<exists>!(level, idx). level \<le> depth \<and> idx < bucket_num level 0 \<and>
      bucket_start_block_index level 0 idx \<le> blk \<and>
      blk < bucket_start_block_index level 0 idx + bucket_block_num level)"
proof -
  have sum: "(\<Sum>i\<le>depth. bucket_num i 0 * bucket_block_num i) = 2 * (2 ^ (depth + 1) - 1)"
    using level_blocks [of "Suc depth"] assms(1) by (simp add: lessThan_Suc_atMost)
  let ?in = "\<lambda>level idx. level \<le> depth \<and> idx < bucket_num level 0 \<and>
      bucket_start_block_index level 0 idx \<le> blk \<and> blk < bucket_start_block_index level 0 idx + bucket_block_num level"
  have iff: "?in level idx \<longleftrightarrow> level \<le> depth \<and> 2 ^ level \<le> blk div 2 + 1 \<and> blk div 2 + 1 < 2 ^ (level + 1) \<and>
      idx = blk div 2 + 1 - 2 ^ level" for level idx
  proof (cases "level \<le> depth")
    case True
    then have l: "bucket_num level 0 = 2 ^ level" "bucket_block_num level = 2" "level \<le> 30"
      using assms(1) by (simp_all add: bucket_num_def bucket_block_num_def)
    define p where "p = (2 :: nat) ^ level"
    have p: "1 \<le> p" by (simp add: p_def)
    have half: "2 * k \<le> blk \<and> blk < 2 * k + 2 \<longleftrightarrow> blk div 2 = k" for k by presburger
    have "?in level idx \<longleftrightarrow> idx < p \<and> 2 * (p - 1 + idx) \<le> blk \<and> blk < 2 * (p - 1 + idx) + 2"
      using True l bucket_start [of level idx] by (cases "idx < p") (auto simp: p_def distrib_left)
    also have "\<dots> \<longleftrightarrow> p \<le> blk div 2 + 1 \<and> blk div 2 + 1 < 2 * p \<and> idx = blk div 2 + 1 - p"
      unfolding half using p by auto
    finally show ?thesis using True by (simp add: p_def)
  next
    case False
    then show ?thesis by simp
  qed
  obtain level where lv: "2 ^ level \<le> blk div 2 + 1" "blk div 2 + 1 < 2 ^ (level + 1)"
    using ex_power_ivl1 [of 2 "blk div 2 + 1"] by auto
  have "level \<le> depth"
  proof (rule ccontr)
    assume "\<not> level \<le> depth"
    then have "(2 :: nat) ^ (depth + 1) \<le> 2 ^ level" by (intro power_increasing) auto
    with lv(1) assms(2) show False by linarith
  qed
  moreover have "l = level" if "2 ^ l \<le> blk div 2 + 1" "blk div 2 + 1 < 2 ^ (l + 1)" for l
  proof -
    have "(2 :: nat) ^ l < 2 ^ (level + 1)" "(2 :: nat) ^ level < 2 ^ (l + 1)" using that lv by linarith+
    then have "l < level + 1" "level < l + 1" by (simp_all only: power_strict_increasing_iff one_less_numeral_iff semiring_norm)
    then show ?thesis by simp
  qed
  ultimately have here: "?in level (blk div 2 + 1 - 2 ^ level)"
    and only: "?in l i \<Longrightarrow> (l, i) = (level, blk div 2 + 1 - 2 ^ level)" for l i
    unfolding iff using lv by blast+
  have "\<exists>!(level, idx). ?in level idx"
  proof (rule ex1I [of _ "(level, blk div 2 + 1 - 2 ^ level)"])
    show "case (level, blk div 2 + 1 - 2 ^ level) of (level, idx) \<Rightarrow> ?in level idx" using here by simp
    fix x assume "case x of (level, idx) \<Rightarrow> ?in level idx"
    then have "?in (fst x) (snd x)" by (cases x) simp
    from only [OF this] show "x = (level, blk div 2 + 1 - 2 ^ level)" by (metis prod.collapse)
  qed
  with sum show ?thesis by blast
qed

theorem buckets_partition_directory_witness:
  "\<exists>!(level, idx). level \<le> 3 \<and> idx < bucket_num level 0 \<and>
     bucket_start_block_index level 0 idx \<le> 9 \<and> 9 < bucket_start_block_index level 0 idx + bucket_block_num level"
  using buckets_partition_directory [of 3 9] by simp

end
