(* ===== verification/File_Mapping.thy ===== *)
theory File_Mapping
  imports Node_Cache_Inv Dentry_Block
begin

text \<open>
  \<^verbatim>\<open>src/fs/file_utils.cc\<close> over the node block cache: finding the address of a block of a file,
  changing it, growing and shrinking the index tree of a file, creating and deleting files,
  and the times in an inode. The search that the SSD performs on a cache miss is a
  parameter: a function from the inode, the node to start at, the block number and the
  number of levels to the nodes on the path, or nothing when the command fails. The clock
  is a parameter too.
\<close>

type_synonym ssd_search = "u32 \<Rightarrow> u32 \<Rightarrow> u32 \<Rightarrow> nat \<Rightarrow> hscfs_node list option"

section \<open>Block addresses\<close>

record block_addr_info =
  bai_lpa :: u32
  bai_nid :: u32
  bai_nid_off :: nat
  bai_nid_handle :: nc_handle

definition do_filemapping_search :: "ssd_search \<Rightarrow> u32 \<Rightarrow> u32 \<Rightarrow> u32 \<Rightarrow> nat \<Rightarrow> (fsys, hscfs_node list) prog" where
  "do_filemapping_search srch ino nid_to_start blkno level_num =
     (case srch ino nid_to_start blkno level_num of None \<Rightarrow> fail (Throw Io_error) | Some ns \<Rightarrow> ret ns)"

text \<open>The nodes found by the SSD go into the cache one below the other.\<close>

fun insert_search_result :: "hscfs_node list \<Rightarrow> u32 \<Rightarrow> (fsys, unit) prog" where
  "insert_search_result [] parent = ret ()"
| "insert_search_result (b # bs) parent =
     bnd (on_meta (get_lpa_of_nid (f_nid b))) (\<lambda>lpa.
     bnd (nc_add b (f_nid b) parent lpa) (\<lambda>p.
     bnd (nc_handle_dtor (Some p)) (\<lambda>_.
     insert_search_result bs (f_nid b))))"

text \<open>
  The loop of \<^verbatim>\<open>get_addr_of_block\<close>. It goes on for as long as the SSD returns nodes other than
  the one asked for, so it takes fuel; each level of the path needs at most two rounds.
\<close>

fun get_addr_loop ::
    "ssd_search \<Rightarrow> u32 \<Rightarrow> u32 \<Rightarrow> nat \<Rightarrow> nat list \<Rightarrow> nat list \<Rightarrow> nat \<Rightarrow> nat \<Rightarrow> u32 \<Rightarrow> u32 \<Rightarrow> nc_handle \<Rightarrow> (fsys, u32) prog" where
  "get_addr_loop srch ino blkno level offset noffset 0 cur_level cur_nid parent_nid cur_handle = fail Still_running"
| "get_addr_loop srch ino blkno level offset noffset (Suc fuel) cur_level cur_nid parent_nid cur_handle =
     bnd (nc_get cur_nid) (\<lambda>h.
     bnd (nc_handle_move_assign cur_handle h) (\<lambda>_.
     case h of
       None \<Rightarrow>
         bnd (do_filemapping_search srch ino cur_nid blkno (level - cur_level + 1)) (\<lambda>bs.
         bnd (insert_search_result bs parent_nid) (\<lambda>_.
         get_addr_loop srch ino blkno level offset noffset fuel cur_level cur_nid parent_nid None))
     | Some p \<Rightarrow>
         bnd (nc_entry p) (\<lambda>e.
         bnd (assert_that (f_ino (nb_node e) = ino)) (\<lambda>_.
         bnd (assert_that (f_nid (nb_node e) = cur_nid)) (\<lambda>_.
         bnd (assert_that (f_offset (nb_node e) = word_of_nat (noffset ! cur_level))) (\<lambda>_.
         if cur_level = level then ret cur_nid
         else
           bnd (of_result (get_next_nid (nb_node e) (offset ! cur_level) cur_level)) (\<lambda>nxt_nid.
           get_addr_loop srch ino blkno level offset noffset fuel (Suc cur_level) nxt_nid cur_nid (Some p))))))))"

definition get_addr_of_block :: "ssd_search \<Rightarrow> nat \<Rightarrow> u32 \<Rightarrow> u32 \<Rightarrow> (fsys, block_addr_info) prog" where
  "get_addr_of_block srch fuel ino blkno =
     (case get_node_path (unat blkno) of
        None \<Rightarrow> fail Assert_failed
      | Some (level, offset, noffset) \<Rightarrow>
          bnd (get_addr_loop srch ino blkno level offset noffset fuel 0 ino INVALID_NID None) (\<lambda>cur_nid.
          bnd (nc_entry cur_nid) (\<lambda>e.
          bnd (of_result (get_lpa (nb_node e) (offset ! level) level)) (\<lambda>target_lpa.
          ret \<lparr>bai_lpa = target_lpa, bai_nid = cur_nid, bai_nid_off = offset ! level,
               bai_nid_handle = Some cur_nid\<rparr>))))"

definition update_block_mapping :: "ssd_search \<Rightarrow> nat \<Rightarrow> u32 \<Rightarrow> u32 \<Rightarrow> u32 \<Rightarrow> (fsys, block_addr_info) prog" where
  "update_block_mapping srch fuel ino blkno new_lpa =
     bnd (get_addr_of_block srch fuel ino blkno) (\<lambda>addr.
     bnd (assert_that (bai_lpa addr \<noteq> new_lpa)) (\<lambda>_.
     bnd (nc_entry (bai_nid addr)) (\<lambda>e.
     bnd (assert_that (nb_nid e = bai_nid addr)) (\<lambda>_.
     let level = (if ino = bai_nid addr then 0 else 1) in
     bnd (of_result (set_lpa (nb_node e) (bai_nid_off addr) level new_lpa)) (\<lambda>node.
     bnd (nc_set_node (bai_nid addr) (\<lambda>_. node)) (\<lambda>_.
     bnd (nc_mark_dirty (bai_nid addr)) (\<lambda>_.
     ret (addr\<lparr>bai_lpa := new_lpa\<rparr>))))))))"

section \<open>Shrinking a file\<close>

definition intersect :: "u32 \<Rightarrow> u32 \<Rightarrow> u32 \<Rightarrow> u32 \<Rightarrow> (u32 \<times> u32) option" where
  "intersect start1 end1 start2 end2 =
     (if end1 < start2 \<or> start1 > end2 then None else Some (max start1 start2, min end1 end2))"

text \<open>The pointers \<open>is\<close> of a node, stored from word \<open>base\<close> on, are invalidated and cleared.\<close>

fun free_pointers :: "u32 \<Rightarrow> nat \<Rightarrow> nat list \<Rightarrow> (fsys, unit) prog" where
  "free_pointers p base [] = ret ()"
| "free_pointers p base (i # is) =
     bnd (nc_entry p) (\<lambda>e.
     let lpa = wd (base + i) (nb_node e) in
     bnd (if lpa \<noteq> INVALID_LPA then
            bnd (on_meta (invalidate_lpa lpa)) (\<lambda>_. nc_set_node p (set_wd (base + i) INVALID_LPA))
          else ret ()) (\<lambda>_.
     free_pointers p base is))"

definition proc_direct_pointers_in_inode :: "u32 \<Rightarrow> u32 \<Rightarrow> u32 \<Rightarrow> (fsys, unit) prog" where
  "proc_direct_pointers_in_inode start_blk end_blk inode =
     (case intersect 0 (932 - 1) start_blk end_blk of
        None \<Rightarrow> ret ()
      | Some (start, stop) \<Rightarrow> free_pointers inode 83 [unat start..<Suc (unat stop)])"

definition proc_single_node :: "u32 \<Rightarrow> u32 \<Rightarrow> u32 \<Rightarrow> u32 \<Rightarrow> (fsys, bool) prog" where
  "proc_single_node start_blk end_blk handle manage_start =
     (let manage_end = manage_start + 1020 - 1 in
      case intersect start_blk end_blk manage_start manage_end of
        None \<Rightarrow> ret False
      | Some (start_off, end_off) \<Rightarrow>
          bnd (free_pointers handle 0 [unat (start_off - manage_start)..<Suc (unat (end_off - manage_start))]) (\<lambda>_.
          ret (manage_start \<ge> start_blk)))"

text \<open>
  A child node is processed and then either deleted, with its pointer cleared, or marked
  dirty; its handle is released at the end. \<open>at\<close> is the word of the pointer in the parent. The
  loops inside the tree delete the node first, those over the inode clear the pointer first.
\<close>

definition proc_child :: "bool \<Rightarrow> (u32 \<Rightarrow> (fsys, bool) prog) \<Rightarrow> u32 \<Rightarrow> nat \<Rightarrow> u32 \<Rightarrow> u32 \<Rightarrow> (fsys, unit) prog" where
  "proc_child delete_first proc parent at child parent_nid =
     bnd (get_node_entry child parent_nid) (\<lambda>h.
     scoped (nc_handle_dtor (Some h)) (
       bnd (proc h) (\<lambda>invalid.
       if invalid then
         (if delete_first
          then bnd (nc_remove_entry h) (\<lambda>_. nc_set_node parent (set_wd at INVALID_NID))
          else bnd (nc_set_node parent (set_wd at INVALID_NID)) (\<lambda>_. nc_remove_entry h))
       else nc_mark_dirty h)))"

text \<open>
  The loop over the children of an indirect node. A child that lies before the range is
  skipped by \<^verbatim>\<open>continue\<close>, which does not advance the start of the next child.
\<close>

fun proc_children ::
    "(u32 \<Rightarrow> u32 \<Rightarrow> (fsys, bool) prog) \<Rightarrow> u32 \<Rightarrow> u32 \<Rightarrow> u32 \<Rightarrow> u32 \<Rightarrow> nat list \<Rightarrow> u32 \<Rightarrow> (fsys, unit) prog" where
  "proc_children proc blks start_blk end_blk handle [] child_start = ret ()"
| "proc_children proc blks start_blk end_blk handle (i # is) child_start =
     (let child_end = child_start + blks - 1 in
      if child_end < start_blk then proc_children proc blks start_blk end_blk handle is child_start
      else
        bnd (nc_entry handle) (\<lambda>e.
        if child_start > end_blk then assert_that (wd i (nb_node e) = INVALID_NID)
        else
          bnd (assert_that (wd i (nb_node e) \<noteq> INVALID_NID)) (\<lambda>_.
          bnd (proc_child True (\<lambda>h. proc h child_start) handle i (wd i (nb_node e)) (f_nid (nb_node e))) (\<lambda>_.
          proc_children proc blks start_blk end_blk handle is (child_start + blks)))))"

definition proc_double_node :: "u32 \<Rightarrow> u32 \<Rightarrow> u32 \<Rightarrow> u32 \<Rightarrow> (fsys, bool) prog" where
  "proc_double_node start_blk end_blk handle manage_start =
     bnd (proc_children (proc_single_node start_blk end_blk) 1020 start_blk end_blk handle
            [0..<NIDS_PER_BLOCK] manage_start) (\<lambda>_.
     ret (manage_start \<ge> start_blk))"

definition proc_triple_node :: "u32 \<Rightarrow> u32 \<Rightarrow> u32 \<Rightarrow> u32 \<Rightarrow> (fsys, bool) prog" where
  "proc_triple_node start_blk end_blk handle manage_start =
     bnd (proc_children (proc_double_node start_blk end_blk) 1040400 start_blk end_blk handle
            [0..<NIDS_PER_BLOCK] manage_start) (\<lambda>_.
     ret (manage_start \<ge> start_blk))"

text \<open>
  The loops over the pointers of the inode give the start of the next range, or nothing when
  the function has returned.
\<close>

fun proc_inode_nids ::
    "(u32 \<Rightarrow> u32 \<Rightarrow> (fsys, bool) prog) \<Rightarrow> u32 \<Rightarrow> u32 \<Rightarrow> u32 \<Rightarrow> u32 \<Rightarrow> nat list \<Rightarrow> u32 \<Rightarrow> (fsys, u32 option) prog" where
  "proc_inode_nids proc blks start_blk end_blk inode [] cur_start = ret (Some cur_start)"
| "proc_inode_nids proc blks start_blk end_blk inode (k # ks) cur_start =
     (let cur_end = cur_start + blks - 1 in
      if cur_end < start_blk then proc_inode_nids proc blks start_blk end_blk inode ks cur_start
      else if cur_start > end_blk then ret None
      else
        bnd (nc_entry inode) (\<lambda>e.
        bnd (proc_child False (\<lambda>h. proc h cur_start) inode (1015 + k) (i_nid k (nb_node e)) (f_ino (nb_node e))) (\<lambda>_.
        proc_inode_nids proc blks start_blk end_blk inode ks (cur_start + blks))))"

definition free_blocks_in_range :: "u32 \<Rightarrow> u32 \<Rightarrow> u32 \<Rightarrow> (fsys, unit) prog" where
  "free_blocks_in_range inode start_blk end_blk =
     bnd (proc_direct_pointers_in_inode start_blk end_blk inode) (\<lambda>_.
     bnd (proc_inode_nids (proc_single_node start_blk end_blk) 1020 start_blk end_blk inode [0, 1] 932) (\<lambda>r1.
     case r1 of
       None \<Rightarrow> ret ()
     | Some cur_start \<Rightarrow>
         bnd (proc_inode_nids (proc_double_node start_blk end_blk) 1040400 start_blk end_blk inode [2, 3] cur_start) (\<lambda>r2.
         case r2 of
           None \<Rightarrow> ret ()
         | Some cur_start \<Rightarrow>
             if cur_start > end_blk then ret ()
             else
               bnd (nc_entry inode) (\<lambda>e.
               proc_child False (\<lambda>h. proc_triple_node start_blk end_blk h cur_start) inode (1015 + 4)
                 (i_nid 4 (nb_node e)) (f_ino (nb_node e))))))"

definition reduce :: "u32 \<Rightarrow> u64 \<Rightarrow> (fsys, unit) prog" where
  "reduce ino tar_size =
     bnd (get_node_entry ino INVALID_NID) (\<lambda>h.
     scoped (nc_handle_dtor (Some h)) (
       bnd (nc_entry h) (\<lambda>e.
       let node = nb_node e in
       bnd (assert_that (f_ino node = f_nid node)) (\<lambda>_.
       bnd (assert_that (f_offset node = 0)) (\<lambda>_.
       let cur_size = i_size node in
       if cur_size \<le> tar_size then ret ()
       else
         bnd (nc_set_node h (set_wd64 6 tar_size)) (\<lambda>_.
         bnd (nc_mark_dirty h) (\<lambda>_.
         let start_blk = ucast (SIZE_TO_BLOCK tar_size);
             end_blk = ucast (SIZE_TO_BLOCK cur_size - 1) in
         if start_blk > end_blk then assert_that (start_blk = end_blk + 1)
         else free_blocks_in_range h start_blk end_blk)))))))"

section \<open>Growing a file\<close>

text \<open>
  One level of the walk along the path of a block: the next node is created when the pointer
  is empty and read otherwise. The result is the next node and the handle held on it.
\<close>

definition expand_level :: "u32 \<Rightarrow> nat list \<Rightarrow> nat list \<Rightarrow> nat \<Rightarrow> u32 \<Rightarrow> (fsys, u32) prog" where
  "expand_level ino offset noffset level cur_nid =
     bnd (nc_entry cur_nid) (\<lambda>e.
     bnd (of_result (get_next_nid (nb_node e) (offset ! level) level)) (\<lambda>nxt_nid.
     bnd (if nxt_nid = INVALID_NID then
            bnd (on_throw (nc_handle_dtor (Some cur_nid))
                   (create_node_entry ino (word_of_nat (noffset ! Suc level)) cur_nid)) (\<lambda>nxt_handle.
            bnd (nc_entry nxt_handle) (\<lambda>en.
            bnd (nc_entry cur_nid) (\<lambda>e.
            bnd (of_result (set_next_nid (nb_node e) (offset ! level) level (nb_nid en))) (\<lambda>node.
            bnd (nc_set_node cur_nid (\<lambda>_. node)) (\<lambda>_.
            bnd (nc_mark_dirty cur_nid) (\<lambda>_.
            bnd (nc_handle_assign (Some cur_nid) (Some nxt_handle)) (\<lambda>_.
            bnd (nc_handle_dtor (Some nxt_handle)) (\<lambda>_.
            ret (nb_nid en)))))))))
          else
            bnd (on_throw (nc_handle_dtor (Some cur_nid)) (get_node_entry nxt_nid cur_nid)) (\<lambda>h.
            bnd (nc_handle_move_assign (Some cur_nid) (Some h)) (\<lambda>_.
            ret nxt_nid))) (\<lambda>nxt_nid.
     bnd (nc_entry nxt_nid) (\<lambda>en.
     bnd (assert_that (nb_nid en = nxt_nid)) (\<lambda>_.
     bnd (assert_that (f_ino (nb_node en) = ino)) (\<lambda>_.
     bnd (assert_that (f_nid (nb_node en) = nxt_nid)) (\<lambda>_.
     bnd (assert_that (f_offset (nb_node en) = word_of_nat (noffset ! Suc level))) (\<lambda>_.
     ret nxt_nid))))))))"

fun expand_path :: "u32 \<Rightarrow> nat list \<Rightarrow> nat list \<Rightarrow> nat list \<Rightarrow> u32 \<Rightarrow> (fsys, u32) prog" where
  "expand_path ino offset noffset [] cur_nid = ret cur_nid"
| "expand_path ino offset noffset (level # levels) cur_nid =
     bnd (expand_level ino offset noffset level cur_nid) (\<lambda>nxt_nid.
     expand_path ino offset noffset levels nxt_nid)"

text \<open>The body of the loop over the new blocks: a copy of the inode's handle starts the walk.\<close>

definition expand_block :: "u32 \<Rightarrow> nat \<Rightarrow> (fsys, unit) prog" where
  "expand_block ino blk =
     (case get_node_path blk of
        None \<Rightarrow> fail Assert_failed
      | Some (level, offset, noffset) \<Rightarrow>
          bnd (nc_handle_copy (Some ino)) (\<lambda>_.
          bnd (expand_path ino offset noffset [0..<level] ino) (\<lambda>last.
          nc_handle_dtor (Some last))))"

fun expand_blocks :: "u32 \<Rightarrow> nat list \<Rightarrow> (fsys, unit) prog" where
  "expand_blocks ino [] = ret ()"
| "expand_blocks ino (blk # blks) = bnd (expand_block ino blk) (\<lambda>_. expand_blocks ino blks)"

definition expand :: "u32 \<Rightarrow> u64 \<Rightarrow> (fsys, unit) prog" where
  "expand ino tar_size =
     bnd (get_node_entry ino INVALID_NID) (\<lambda>h.
     scoped (nc_handle_dtor (Some h)) (
       bnd (nc_entry h) (\<lambda>e.
       let node = nb_node e in
       bnd (assert_that (f_ino node = f_nid node)) (\<lambda>_.
       bnd (assert_that (f_offset node = 0)) (\<lambda>_.
       let cur_size = i_size node in
       if tar_size \<le> cur_size then ret ()
       else if unat (SIZE_TO_BLOCK tar_size) > max_blkno_limit then fail (Throw Expand_file_size_exceed_limit)
       else
         bnd (nc_set_node h (set_wd64 6 tar_size)) (\<lambda>_.
         bnd (nc_mark_dirty h) (\<lambda>_.
         let start_blk = ucast (SIZE_TO_BLOCK cur_size) :: u32;
             end_blk = ucast (SIZE_TO_BLOCK tar_size - 1) :: u32 in
         if start_blk > end_blk then assert_that (start_blk = end_blk + 1)
         else expand_blocks ino [unat start_blk..<Suc (unat end_blk)])))))))"

section \<open>Times, creation and deletion\<close>

type_synonym timespec = "u64 \<times> u32"

definition set_atime :: "timespec \<Rightarrow> hscfs_node \<Rightarrow> hscfs_node" where
  "set_atime t node = set_wd 3 (snd t) (set_wd64 10 (fst t) node)"

definition set_mtime :: "timespec \<Rightarrow> hscfs_node \<Rightarrow> hscfs_node" where
  "set_mtime t node = set_wd 5 (snd t) (set_wd64 14 (fst t) node)"

definition on_inode :: "u32 \<Rightarrow> (hscfs_node \<Rightarrow> hscfs_node) \<Rightarrow> (fsys, unit) prog" where
  "on_inode ino f =
     bnd (get_node_entry ino INVALID_NID) (\<lambda>h.
     scoped (nc_handle_dtor (Some h)) (
       bnd (nc_entry h) (\<lambda>e.
       bnd (assert_that (f_ino (nb_node e) = ino)) (\<lambda>_.
       bnd (assert_that (f_nid (nb_node e) = ino)) (\<lambda>_.
       bnd (assert_that (f_offset (nb_node e) = 0)) (\<lambda>_.
       bnd (nc_set_node h f) (\<lambda>_.
       nc_mark_dirty h)))))))"

definition inode_mark_access :: "timespec \<Rightarrow> u32 \<Rightarrow> (fsys, unit) prog" where
  "inode_mark_access t ino = on_inode ino (set_atime t)"

definition inode_mark_modified :: "timespec \<Rightarrow> u32 \<Rightarrow> (fsys, unit) prog" where
  "inode_mark_modified t ino = on_inode ino (\<lambda>n. set_mtime t (set_atime t n))"

abbreviation HSCFS_FT_REG_FILE :: u32 where "HSCFS_FT_REG_FILE \<equiv> 1"
abbreviation HSCFS_FT_DIR :: u32 where "HSCFS_FT_DIR \<equiv> 2"

definition create_base_inode :: "timespec \<Rightarrow> (fsys, u32) prog" where
  "create_base_inode t =
     bnd create_inode_entry (\<lambda>h.
     bnd (nc_set_node h (\<lambda>n. set_mtime t (set_atime t (set_wd 2 1 n)))) (\<lambda>_.
     ret h))"

definition create_generic_file :: "timespec \<Rightarrow> (fsys, u32) prog" where
  "create_generic_file t =
     bnd (create_base_inode t) (\<lambda>h.
     bnd (nc_entry h) (\<lambda>e.
     bnd (assert_that (i_size (nb_node e) = 0)) (\<lambda>_.
     bnd (nc_set_node h (set_wd 1 HSCFS_FT_REG_FILE)) (\<lambda>_.
     ret h))))"

definition create_directory :: "timespec \<Rightarrow> (fsys, u32) prog" where
  "create_directory t =
     bnd (create_base_inode t) (\<lambda>h.
     bnd (nc_set_node h (set_wd 1 HSCFS_FT_DIR)) (\<lambda>_.
     bnd (nc_entry h) (\<lambda>e.
     bnd (assert_that (i_dentry_num (nb_node e) = 0)) (\<lambda>_.
     bnd (assert_that (i_current_depth (nb_node e) = 0)) (\<lambda>_.
     bnd (assert_that (i_dir_level (nb_node e) = 0)) (\<lambda>_.
     let blk_num = bucket_num (unat (i_current_depth (nb_node e))) (unat (i_dir_level (nb_node e))) *
                   bucket_block_num (unat (i_current_depth (nb_node e))) in
     bnd (nc_set_node h (set_wd64 6 (word_of_nat (blk_num * 4096 mod 2 ^ 32)))) (\<lambda>_.
     bnd (assert_that (i_addr 0 (nb_node e) = INVALID_LPA)) (\<lambda>_.
     bnd (assert_that (i_addr 1 (nb_node e) = INVALID_LPA)) (\<lambda>_.
     ret h)))))))))"

definition delete_file :: "u32 \<Rightarrow> (fsys, unit) prog" where
  "delete_file ino =
     bnd (reduce ino 0) (\<lambda>_.
     bnd (get_node_entry ino INVALID_NID) (\<lambda>h.
     scoped (nc_handle_dtor (Some h)) (nc_remove_entry h)))"

end
