(* ===== verification/Block_Lookup.thy ===== *)
theory Block_Lookup
  imports File_Mapping
begin

text \<open>
  Finding the address of a block of a file. Whatever part of the index path is cached, and
  whatever is replaced on the way, \<^verbatim>\<open>get_addr_of_block\<close> gives the address that the index tree
  holds for the block, keeps every node as it was and ends within \<open>level + 2\<close> rounds.
\<close>

section \<open>Paths in the index tree\<close>

text \<open>The nodes \<open>ns\<close> on the path given by the offsets \<open>offs\<close>, as a reader of nodes sees them.\<close>

definition path_nodes :: "(u32 \<Rightarrow> hscfs_node option) \<Rightarrow> u32 \<Rightarrow> nat list \<Rightarrow> u32 list \<Rightarrow> bool" where
  "path_nodes view ino offs ns \<longleftrightarrow>
     length ns = length offs \<and> ns ! 0 = ino \<and> distinct ns \<and> INVALID_NID \<notin> set ns \<and>
     (\<forall>i < length ns. case view (ns ! i) of
        None \<Rightarrow> False
      | Some b \<Rightarrow> f_nid b = ns ! i \<and> f_ino b = ino \<and> f_offset b = word_of_nat (node_number (take i offs)) \<and>
          (Suc i < length ns \<longrightarrow> get_next_nid b (offs ! i) i = Inr (ns ! Suc i)))"

lemma path_nodesD:
  assumes "path_nodes view ino offs ns"
  shows "length ns = length offs" "ns ! 0 = ino" "distinct ns" "i < length ns \<Longrightarrow> ns ! i \<noteq> INVALID_NID"
    "i < length ns \<Longrightarrow> \<exists>b. view (ns ! i) = Some b \<and> f_nid b = ns ! i \<and> f_ino b = ino \<and>
       f_offset b = word_of_nat (node_number (take i offs)) \<and>
       (Suc i < length ns \<longrightarrow> get_next_nid b (offs ! i) i = Inr (ns ! Suc i))"
proof -
  show "length ns = length offs" "ns ! 0 = ino" "distinct ns" using assms by (simp_all add: path_nodes_def)
  show "i < length ns \<Longrightarrow> ns ! i \<noteq> INVALID_NID" using assms nth_mem unfolding path_nodes_def by metis
  show "i < length ns \<Longrightarrow> \<exists>b. view (ns ! i) = Some b \<and> f_nid b = ns ! i \<and> f_ino b = ino \<and>
       f_offset b = word_of_nat (node_number (take i offs)) \<and>
       (Suc i < length ns \<longrightarrow> get_next_nid b (offs ! i) i = Inr (ns ! Suc i))"
    using assms by (auto simp: path_nodes_def split: option.splits)
qed

text \<open>A cached node of the path was entered below its predecessor.\<close>

definition path_parents :: "fsys \<Rightarrow> u32 list \<Rightarrow> bool" where
  "path_parents s ns \<longleftrightarrow>
     (\<forall>i. Suc i < length ns \<longrightarrow> (\<forall>q. nc_parents s (ns ! Suc i) = Some q \<longrightarrow> q = ns ! i))"

text \<open>
  What the SSD answers: started at a node that the host does not hold, it returns the nodes
  from there to the end of the path, as they are on the device.
\<close>

definition search_answers :: "ssd_search \<Rightarrow> fsys \<Rightarrow> u32 \<Rightarrow> u32 \<Rightarrow> u32 list \<Rightarrow> bool" where
  "search_answers srch s ino blkno ns \<longleftrightarrow>
     (\<forall>i < length ns. ns ! i \<notin> dom (nc_ix s) \<longrightarrow>
        srch ino (ns ! i) blkno (length ns - i) = Some (map (\<lambda>n. the (node_ondisk s n)) (drop i ns)))"

lemma parent_cached:
  assumes "nc_inv ext W s" "path_parents s ns" "Suc i < length ns" "ns ! Suc i \<in> dom (nc_ix s)" "ns ! i \<noteq> INVALID_NID"
  shows "ns ! i \<in> dom (nc_ix s)"
proof -
  obtain e where e: "nc_ix s (ns ! Suc i) = Some e" using assms(4) by auto
  then have "nb_parent_nid e = ns ! i" using assms(2,3) by (simp add: path_parents_def nc_parents_def)
  then show ?thesis using nc_invD(8) [OF assms(1) e] assms(5) by (auto simp: nc_entry_ok_def)
qed

text \<open>The cached nodes of a path are its upper part.\<close>

lemma ancestors_cached:
  assumes inv: "nc_inv ext W s" and par: "path_parents s ns" and nz: "\<forall>i < length ns. ns ! i \<noteq> INVALID_NID"
    and j: "j < length ns" "ns ! j \<in> dom (nc_ix s)" "i \<le> j"
  shows "ns ! i \<in> dom (nc_ix s)"
  using j(3,1,2)
proof (induction rule: dec_induct)
  case base
  then show ?case by simp
next
  case (step k)
  then show ?case using parent_cached [OF inv par, of k] nz by simp
qed

section \<open>Entering the nodes the SSD returns\<close>

lemma node_ondisk_frame: "sys_frame s s' \<Longrightarrow> node_ondisk s' = node_ondisk s"
  by (auto simp: sys_frame_def node_ondisk_def fun_eq_iff dest: meta_stepD(4) split: option.splits)

lemma sys_frame_range: "sys_frame s s' \<Longrightarrow> nid_in_range (fs_meta s') = nid_in_range (fs_meta s)"
  by (auto simp: sys_frame_def nid_in_range_def fun_eq_iff dest: meta_stepD(3))

lemma map_le_Some: "m \<subseteq>\<^sub>m m' \<Longrightarrow> m k = Some v \<Longrightarrow> m' k = Some v"
  by (metis map_le_def domI)

lemma path_parents_mono:
  assumes "nc_parents s' \<subseteq>\<^sub>m nc_parents s" "path_parents s ns"
  shows "path_parents s' ns"
  unfolding path_parents_def
proof (intro allI impI)
  fix i q assume i: "Suc i < length ns" "nc_parents s' (ns ! Suc i) = Some q"
  from map_le_Some [OF assms(1) i(2)] assms(2) i(1) show "q = ns ! i" by (simp add: path_parents_def)
qed

lemma insert_one:
  assumes inv: "nc_inv ext W s" and room: "nc_room ext 3 s" and meta: "meta_ready s"
    and n: "n \<noteq> INVALID_NID" "n \<notin> dom (nc_ix s)" "nid_in_range (fs_meta s) n" "node_ondisk s n = Some b" "f_nid b = n"
    and p: "p \<noteq> INVALID_NID \<longrightarrow> p \<in> dom (nc_ix s)"
  shows "\<exists>s'. (\<forall>bs. insert_search_result (b # bs) p s = insert_search_result bs n s') \<and> nc_inv ext W s' \<and> sys_frame s s' \<and>
    nc_parents s' \<subseteq>\<^sub>m (nc_parents s)(n \<mapsto> p) \<and> n \<in> dom (nc_ix s') \<and> dom (nc_ix s') \<subseteq> insert n (dom (nc_ix s))"
proof -
  obtain ne where ne: "nat_at (fs_meta s) n = Some ne"
    using n(4) by (auto simp: node_ondisk_def split: option.splits)
  obtain mt where mt: "on_meta (get_lpa_of_nid n) s = (Inr (ne_block_addr ne), s\<lparr>fs_meta := mt\<rparr>)"
      "meta_step (fs_meta s) [] [] [] mt" "nat_at mt = nat_at (fs_meta s)"
    using get_lpa_of_nid_sys [OF meta n(3) ne] by auto
  let ?s = "s\<lparr>fs_meta := mt\<rparr>"
  note inv1 = nc_inv_meta [OF inv mt(3)]
  have nd: "node_ondisk ?s n = Some b"
    using n(4) by (simp add: node_ondisk_def mt(3) split: option.splits)
  have "\<exists>s'. nc_add b n p (ne_block_addr ne) ?s = (Inr n, s') \<and> nc_inv (ext(n := 1)) W s' \<and>
        nc_next s' = Suc (nc_next ?s) \<and> fs_meta s' = fs_meta ?s \<and> node_dev s' = node_dev ?s \<and> nc_expect s' = nc_expect ?s \<and>
        nc_dirty s' = nc_dirty ?s \<and> nc_dirty_pos s' = nc_dirty_pos ?s \<and>
        node_view s' = (node_view ?s)(n \<mapsto> b) \<and> nc_parents s' \<subseteq>\<^sub>m (nc_parents ?s)(n \<mapsto> p) \<and>
        dom (nc_ix s') \<subseteq> insert n (dom (nc_ix ?s))"
    by (intro nc_add_ok [OF inv1(1)]) (use room n p nd in \<open>auto simp: nc_room_def\<close>)
  then obtain s1 where s1: "nc_add b n p (ne_block_addr ne) ?s = (Inr n, s1)" "nc_inv (ext(n := 1)) W s1"
      "fs_meta s1 = mt" "node_dev s1 = node_dev s" "nc_dirty s1 = nc_dirty s"
      "node_view s1 = (node_view s)(n \<mapsto> b)" "nc_parents s1 \<subseteq>\<^sub>m (nc_parents s)(n \<mapsto> p)"
      "dom (nc_ix s1) \<subseteq> insert n (dom (nc_ix s))"
    using inv1(2,3) by auto
  have e0: "ext n = 0" by (rule nc_inv_ext_outside [OF inv n(2)])
  have nW: "n \<notin> W" using nc_invD(7) [OF inv] e0 by auto
  have "n \<in> dom (nc_ix s1)" using nc_invD(6) [OF s1(2)] by auto
  moreover obtain s2 where s2: "nc_handle_dtor (Some n) s1 = (Inr (), s2)" "nc_inv (ext(n := 1, n := 1 - 1)) W s2"
      "nc_frame s1 s2" "dom (nc_ix s2) = dom (nc_ix s1)"
    using nc_handle_dtor_ok [OF s1(2), of n] nW by auto
  moreover have "ext(n := 1, n := 1 - 1) = ext" using e0 by auto
  moreover have "node_view s1 = node_view s"
    using s1(6) n(2,4) by (auto simp: node_view_def fun_eq_iff split: option.splits)
  then have "sys_frame s s2"
    using mt(2) s1 s2(3) by (simp add: sys_frame_def nc_frame_def dirty_nids_def)
  moreover have "\<forall>bs. insert_search_result (b # bs) p s = insert_search_result bs n s2"
    using mt(1) s1(1) s2(1) n(5) by (simp add: prog_simps)
  moreover have "nc_parents s2 \<subseteq>\<^sub>m (nc_parents s)(n \<mapsto> p)"
    using s2(3) s1(7) by (auto simp: nc_frame_def intro: map_le_trans)
  ultimately show ?thesis using s1(8) by (intro exI [of _ s2]) simp
qed

lemma insert_search_result_ok:
  assumes "nc_inv ext W s" "nc_room ext (3 + length ns) s" "meta_ready s" "ns \<noteq> []" "distinct ns" "INVALID_NID \<notin> set ns"
    "\<forall>n \<in> set ns. n \<notin> dom (nc_ix s) \<and> nid_in_range (fs_meta s) n \<and> (\<exists>b. node_ondisk s n = Some b \<and> f_nid b = n)"
    "p \<noteq> INVALID_NID \<longrightarrow> p \<in> dom (nc_ix s)"
  shows "\<exists>s'. insert_search_result (map (\<lambda>n. the (node_ondisk s n)) ns) p s = (Inr (), s') \<and> nc_inv ext W s' \<and>
    sys_frame s s' \<and> last ns \<in> dom (nc_ix s') \<and> card (dom (nc_ix s')) \<le> card (dom (nc_ix s)) + length ns \<and>
    (\<forall>k q. nc_parents s' k = Some q \<longrightarrow> nc_parents s k = Some q \<or> (k, q) \<in> set (zip ns (p # ns)))"
  using assms
proof (induction ns arbitrary: s p)
  case Nil
  then show ?case by simp
next
  case (Cons n ns)
  obtain b where b: "node_ondisk s n = Some b" "f_nid b = n" using Cons.prems(7) by auto
  have room3: "nc_room ext 3 s" using Cons.prems(2) by (rule nc_room_mono) simp
  obtain s1 where s1: "\<forall>bs. insert_search_result (b # bs) p s = insert_search_result bs n s1" "nc_inv ext W s1" "sys_frame s s1"
     "nc_parents s1 \<subseteq>\<^sub>m (nc_parents s)(n \<mapsto> p)" "n \<in> dom (nc_ix s1)" "dom (nc_ix s1) \<subseteq> insert n (dom (nc_ix s))"
    using insert_one [OF Cons.prems(1) room3 Cons.prems(3), of n b p] b Cons.prems(6,7,8) by auto
  have par: "nc_parents s k = Some q \<or> (k, q) = (n, p)" if "nc_parents s1 k = Some q" for k q
    using map_le_Some [OF s1(4) that] by (auto split: if_splits)
  have card: "card (dom (nc_ix s1)) \<le> card (dom (nc_ix s)) + 1"
  proof -
    have "card (dom (nc_ix s1)) \<le> card (insert n (dom (nc_ix s)))"
      using s1(6) nc_invD(3) [OF Cons.prems(1)] by (intro card_mono) auto
    also have "\<dots> \<le> card (dom (nc_ix s)) + 1"
      using nc_invD(3) [OF Cons.prems(1)] by (simp add: card_insert_if)
    finally show ?thesis .
  qed
  have run: "insert_search_result (map (\<lambda>n. the (node_ondisk s n)) (n # ns)) p s =
      insert_search_result (map (\<lambda>n. the (node_ondisk s1 n)) ns) n s1"
    using s1(1) b(1) by (simp add: node_ondisk_frame [OF s1(3)] del: insert_search_result.simps)
  show ?case
  proof (cases "ns = []")
    case True
    have "insert_search_result (map (\<lambda>n. the (node_ondisk s n)) (n # ns)) p s = (Inr (), s1)"
      unfolding run using True by (simp add: ret_def)
    then show ?thesis using True s1 card par by (intro exI [of _ s1]) auto
  next
    case False
    have room1: "nc_room ext (3 + length ns) s1"
      using Cons.prems(2) by (rule nc_room_mono) (use card in simp)
    have "\<exists>s'. insert_search_result (map (\<lambda>n. the (node_ondisk s1 n)) ns) n s1 = (Inr (), s') \<and> nc_inv ext W s' \<and>
      sys_frame s1 s' \<and> last ns \<in> dom (nc_ix s') \<and> card (dom (nc_ix s')) \<le> card (dom (nc_ix s1)) + length ns \<and>
      (\<forall>k q. nc_parents s' k = Some q \<longrightarrow> nc_parents s1 k = Some q \<or> (k, q) \<in> set (zip ns (n # ns)))"
    proof (rule Cons.IH [OF s1(2) room1 sys_frame_ready [OF s1(3) Cons.prems(3)] False])
      show "\<forall>m \<in> set ns. m \<notin> dom (nc_ix s1) \<and> nid_in_range (fs_meta s1) m \<and> (\<exists>b. node_ondisk s1 m = Some b \<and> f_nid b = m)"
        using Cons.prems(5,7) s1(6) unfolding node_ondisk_frame [OF s1(3)] sys_frame_range [OF s1(3)] by auto
    qed (use Cons.prems(5,6) s1(5) in auto)
    then obtain s2 where s2: "insert_search_result (map (\<lambda>n. the (node_ondisk s1 n)) ns) n s1 = (Inr (), s2)" "nc_inv ext W s2"
      "sys_frame s1 s2" "last ns \<in> dom (nc_ix s2)" "card (dom (nc_ix s2)) \<le> card (dom (nc_ix s1)) + length ns"
      "\<forall>k q. nc_parents s2 k = Some q \<longrightarrow> nc_parents s1 k = Some q \<or> (k, q) \<in> set (zip ns (n # ns))" by blast
    have "nc_parents s k = Some q \<or> (k, q) \<in> set (zip (n # ns) (p # n # ns))" if "nc_parents s2 k = Some q" for k q
      using s2(6) that par [of k q] by auto
    then show ?thesis
      unfolding run using s2 card False sys_frame_trans [OF s1(3) s2(3)] by (intro exI [of _ s2]) auto
  qed
qed

section \<open>The loop\<close>

text \<open>The count of handles when one more is held.\<close>

definition with_handle :: "nc_handle \<Rightarrow> (u32 \<Rightarrow> nat) \<Rightarrow> u32 \<Rightarrow> nat" where
  "with_handle h ext = (case h of None \<Rightarrow> ext | Some p \<Rightarrow> ext(p := Suc (ext p)))"

lemma move_assign_ok:
  assumes "nc_inv (with_handle h ext) W s" "\<forall>k \<in> W. ext k \<noteq> 0"
  shows "\<exists>s'. nc_handle_move_assign h h' s = (Inr h', s') \<and> nc_inv ext W s' \<and> nc_frame s s' \<and> dom (nc_ix s') = dom (nc_ix s)"
proof (cases h)
  case None
  then show ?thesis using assms by (simp add: with_handle_def nc_handle_move_assign_def nc_do_subref_def prog_simps)
next
  case (Some p)
  let ?ext = "with_handle h ext"
  have e: "?ext p = Suc (ext p)" "?ext(p := ?ext p - 1) = ext" using Some by (auto simp: with_handle_def)
  obtain m where "nc_sub_refcount p s = (Inr (), s\<lparr>nc_mgr := m\<rparr>)" "nc_inv ext W (s\<lparr>nc_mgr := m\<rparr>)"
      "nc_frame s (s\<lparr>nc_mgr := m\<rparr>)" "dom (cm_index m) = dom (nc_ix s)"
    using nc_sub_refcount_ok [OF assms(1), of p] e assms(2) by auto
  then show ?thesis
    using Some by (intro exI [of _ "s\<lparr>nc_mgr := m\<rparr>"]) (simp add: nc_handle_move_assign_def nc_do_subref_def prog_simps)
qed

lemma with_handle_commute:
  "with_handle h (ext(n := Suc (ext n))) = (with_handle h ext)(n := Suc (with_handle h ext n))"
  by (auto simp: with_handle_def fun_eq_iff split: option.splits)

lemma with_handle_le: "with_handle h ext k \<le> Suc (ext k)"
  by (auto simp: with_handle_def split: option.splits)

text \<open>A round on a cached node.\<close>

lemma get_addr_hit:
  assumes inv: "nc_inv (with_handle h ext) W s" and W: "\<forall>k \<in> W. ext k \<noteq> 0" and room: "nc_room ext 4 s"
    and i: "i < length ns" "ns ! i \<in> dom (nc_ix s)" and path: "path_nodes (node_view s) ino offs ns"
    and nof: "noffs = map (\<lambda>k. node_number (take k offs)) [0..<length offs]" and L: "length ns = Suc L"
  shows "\<exists>s'. nc_inv (with_handle (Some (ns ! i)) ext) W s' \<and> nc_frame s s' \<and> dom (nc_ix s') = dom (nc_ix s) \<and>
    get_addr_loop srch ino blkno L offs noffs (Suc fuel) i (ns ! i) q h s =
      (if i = L then (Inr (ns ! i), s')
       else get_addr_loop srch ino blkno L offs noffs fuel (Suc i) (ns ! Suc i) (ns ! i) (Some (ns ! i)) s')"
proof -
  let ?n = "ns ! i"
  obtain b where b: "node_view s ?n = Some b" "f_nid b = ?n" "f_ino b = ino" "f_offset b = word_of_nat (node_number (take i offs))"
      "Suc i < length ns \<longrightarrow> get_next_nid b (offs ! i) i = Inr (ns ! Suc i)"
    using path_nodesD(5) [OF path i(1)] by blast
  have "nc_room (with_handle h ext) 3 s" using room
    by (rule nc_room_mono) (use with_handle_le [of h ext] in \<open>auto simp: le_Suc_eq Suc_le_eq\<close>)
  from nc_get_hit [OF inv this i(2)] obtain s1 where s1: "nc_get ?n s = (Inr (Some ?n), s1)"
      "nc_inv (with_handle h (ext(?n := Suc (ext ?n)))) W s1" "nc_frame s s1" "dom (nc_ix s1) = dom (nc_ix s)"
    unfolding with_handle_commute [symmetric] by blast
  have W1: "\<forall>k \<in> W. (ext(?n := Suc (ext ?n))) k \<noteq> 0" using W by simp
  obtain s2 where s2: "nc_handle_move_assign h (Some ?n) s1 = (Inr (Some ?n), s2)" "nc_inv (ext(?n := Suc (ext ?n))) W s2"
      "nc_frame s1 s2" "dom (nc_ix s2) = dom (nc_ix s1)"
    using move_assign_ok [OF s1(2) W1, of "Some ?n"] by blast
  have fr: "nc_frame s s2" using nc_frame_trans [OF s1(3) s2(3)] .
  obtain e where "nc_ix s2 ?n = Some e" "node_view s2 ?n = Some (nb_node e)"
    using nc_held [OF s2(2), of ?n] by auto
  then have e: "nc_entry ?n s2 = (Inr e, s2)" "nb_node e = b" using fr b(1) by (simp_all add: nc_entry_def nc_frame_def)
  have no: "noffs ! i = node_number (take i offs)"
    using i(1) path_nodesD(1) [OF path] by (simp add: nof)
  have "get_addr_loop srch ino blkno L offs noffs (Suc fuel) i ?n q h s =
      (if i = L then (Inr ?n, s2)
       else get_addr_loop srch ino blkno L offs noffs fuel (Suc i) (ns ! Suc i) ?n (Some ?n) s2)"
    using s1(1) s2(1) e b no i(1) L by (simp add: prog_simps)
  then show ?thesis using s2 fr s1(4) by (auto simp: with_handle_def)
qed

lemma get_addr_cached:
  assumes "nc_inv (with_handle h ext) W s" "\<forall>k \<in> W. ext k \<noteq> 0" "nc_room ext 4 s"
    "\<forall>j < length ns. ns ! j \<in> dom (nc_ix s)" "path_nodes (node_view s) ino offs ns"
    "noffs = map (\<lambda>k. node_number (take k offs)) [0..<length offs]" "length ns = Suc L"
    "i \<le> L" "L - i < fuel"
  shows "\<exists>s'. get_addr_loop srch ino blkno L offs noffs fuel i (ns ! i) q h s = (Inr (ns ! L), s') \<and>
    nc_inv (with_handle (Some (ns ! L)) ext) W s' \<and> nc_frame s s' \<and> dom (nc_ix s') = dom (nc_ix s)"
  using assms
proof (induction fuel arbitrary: i s h q)
  case 0
  then show ?case by simp
next
  case (Suc fuel)
  have i: "i < length ns" "ns ! i \<in> dom (nc_ix s)" using Suc.prems(4,7,8) by auto
  obtain s1 where s1: "nc_inv (with_handle (Some (ns ! i)) ext) W s1" "nc_frame s s1" "dom (nc_ix s1) = dom (nc_ix s)"
    "get_addr_loop srch ino blkno L offs noffs (Suc fuel) i (ns ! i) q h s =
      (if i = L then (Inr (ns ! i), s1)
       else get_addr_loop srch ino blkno L offs noffs fuel (Suc i) (ns ! Suc i) (ns ! i) (Some (ns ! i)) s1)"
    using get_addr_hit [OF Suc.prems(1-3) i Suc.prems(5-7), of srch blkno fuel q] by blast
  show ?case
  proof (cases "i = L")
    case True
    with s1 show ?thesis by auto
  next
    case False
    have v: "node_view s1 = node_view s" using s1(2) by (simp add: nc_frame_def)
    have "\<exists>s'. get_addr_loop srch ino blkno L offs noffs fuel (Suc i) (ns ! Suc i) (ns ! i) (Some (ns ! i)) s1 = (Inr (ns ! L), s') \<and>
      nc_inv (with_handle (Some (ns ! L)) ext) W s' \<and> nc_frame s1 s' \<and> dom (nc_ix s') = dom (nc_ix s1)"
      by (rule Suc.IH [OF s1(1) Suc.prems(2)])
         (use Suc.prems False s1(3) v in \<open>auto simp: nc_room_def\<close>)
    with s1 False show ?thesis using nc_frame_trans [OF s1(2)] by auto
  qed
qed

text \<open>A round on a node that is not cached enters the rest of the path.\<close>

lemma get_addr_miss:
  assumes inv: "nc_inv (with_handle h ext) W s" and W: "\<forall>k \<in> W. ext k \<noteq> 0" and room: "nc_room ext (4 + length ns) s"
    and meta: "meta_ready s" and i: "i < length ns" "ns ! i \<notin> dom (nc_ix s)" "\<forall>j < i. ns ! j \<in> dom (nc_ix s)"
    and path: "path_nodes (node_view s) ino offs ns" "path_parents s ns" "\<forall>n \<in> set ns. nid_in_range (fs_meta s) n"
    and srch: "search_answers srch s ino blkno ns" and L: "length ns = Suc L"
    and q: "q = (if i = 0 then INVALID_NID else ns ! (i - 1))"
  shows "\<exists>s'. nc_inv ext W s' \<and> sys_frame s s' \<and> (\<forall>j < length ns. ns ! j \<in> dom (nc_ix s')) \<and> nc_room ext 4 s' \<and>
    card (dom (nc_ix s')) \<le> card (dom (nc_ix s)) + length ns \<and>
    get_addr_loop srch ino blkno L offs noffs (Suc fuel) i (ns ! i) q h s =
      get_addr_loop srch ino blkno L offs noffs fuel i (ns ! i) q None s'"
proof -
  let ?n = "ns ! i" and ?rest = "drop i ns"
  note pd = path_nodesD [OF path(1)]
  have below: "ns ! j \<notin> dom (nc_ix s)" if "i \<le> j" "j < length ns" for j
    using ancestors_cached [OF inv path(2), of j i] pd(4) i(2) that by blast
  obtain s1 where s1: "nc_handle_move_assign h None s = (Inr None, s1)" "nc_inv ext W s1" "nc_frame s s1"
      "dom (nc_ix s1) = dom (nc_ix s)"
    using move_assign_ok [OF inv W, of None] by blast
  have f1: "sys_frame s s1" using nc_frame_sys [OF s1(3)] meta by (simp add: meta_ready_def)
  note od = node_ondisk_frame [OF f1] and rg = sys_frame_range [OF f1]
  have disk: "\<exists>b. node_ondisk s n = Some b \<and> f_nid b = n" "n \<notin> dom (nc_ix s)" if n: "n \<in> set ?rest" for n
  proof -
    obtain j where j: "n = ns ! j" "i \<le> j" "j < length ns"
      using n i(1) by (auto simp: in_set_conv_nth)
    show "n \<notin> dom (nc_ix s)" using below j by simp
    with pd(5) [OF j(3)] j(1) show "\<exists>b. node_ondisk s n = Some b \<and> f_nid b = n"
      by (auto simp: node_view_def split: option.splits)
  qed
  have qd: "q \<noteq> INVALID_NID \<longrightarrow> q \<in> dom (nc_ix s1)" using q i(3) s1(4) by auto
  have "\<exists>s'. insert_search_result (map (\<lambda>n. the (node_ondisk s1 n)) ?rest) q s1 = (Inr (), s') \<and> nc_inv ext W s' \<and>
    sys_frame s1 s' \<and> last ?rest \<in> dom (nc_ix s') \<and> card (dom (nc_ix s')) \<le> card (dom (nc_ix s1)) + length ?rest \<and>
    (\<forall>k q'. nc_parents s' k = Some q' \<longrightarrow> nc_parents s1 k = Some q' \<or> (k, q') \<in> set (zip ?rest (q # ?rest)))"
  proof (rule insert_search_result_ok [OF s1(2) _ sys_frame_ready [OF f1 meta]])
    show "nc_room ext (3 + length ?rest) s1" using room by (rule nc_room_mono) (simp add: s1(4))
    show "\<forall>n \<in> set ?rest. n \<notin> dom (nc_ix s1) \<and> nid_in_range (fs_meta s1) n \<and> (\<exists>b. node_ondisk s1 n = Some b \<and> f_nid b = n)"
      unfolding od rg s1(4) using disk path(3) by (auto dest: in_set_dropD)
    show "distinct ?rest" using pd(3) by simp
    show "INVALID_NID \<notin> set ?rest" using path(1) by (auto simp: path_nodes_def dest: in_set_dropD)
  qed (use i(1) qd in auto)
  then obtain s2 where s2: "insert_search_result (map (\<lambda>n. the (node_ondisk s1 n)) ?rest) q s1 = (Inr (), s2)"
    "nc_inv ext W s2" "sys_frame s1 s2" "last ?rest \<in> dom (nc_ix s2)"
    "card (dom (nc_ix s2)) \<le> card (dom (nc_ix s1)) + length ?rest"
    "\<forall>k q'. nc_parents s2 k = Some q' \<longrightarrow> nc_parents s1 k = Some q' \<or> (k, q') \<in> set (zip ?rest (q # ?rest))"
    by blast
  have par2: "path_parents s2 ns"
    unfolding path_parents_def
  proof (intro allI impI)
    fix j q' assume j: "Suc j < length ns" "nc_parents s2 (ns ! Suc j) = Some q'"
    then consider "nc_parents s1 (ns ! Suc j) = Some q'" | "(ns ! Suc j, q') \<in> set (zip ?rest (q # ?rest))"
      using s2(6) by blast
    then show "q' = ns ! j"
    proof cases
      case 1
      then have "nc_parents s (ns ! Suc j) = Some q'" using s1(3) map_le_Some by (auto simp: nc_frame_def)
      then show ?thesis using path(2) j(1) by (simp add: path_parents_def)
    next
      case 2
      then obtain t where t: "t < length ?rest" "?rest ! t = ns ! Suc j" "(q # ?rest) ! t = q'"
        by (auto simp: in_set_zip)
      then have "i + t = Suc j" using pd(3) j(1) by (simp add: nth_eq_iff_index_eq)
      then show ?thesis using t q by (cases t) auto
    qed
  qed
  have nz: "\<forall>j < length ns. ns ! j \<noteq> INVALID_NID" using pd(4) by blast
  have "ns ! L \<in> dom (nc_ix s2)" using s2(4) i(1) L by (simp add: last_conv_nth)
  then have all: "\<forall>j < length ns. ns ! j \<in> dom (nc_ix s2)"
    using ancestors_cached [OF s2(2) par2 nz, of L] L by auto
  have miss: "nc_get ?n s = (Inr None, s)" by (rule nc_get_miss [OF inv i(2)])
  have "srch ino ?n blkno (L - i + 1) = Some (map (\<lambda>n. the (node_ondisk s n)) ?rest)"
    using srch i(1,2) L by (auto simp: search_answers_def Suc_diff_le less_Suc_eq_le)
  then have run: "get_addr_loop srch ino blkno L offs noffs (Suc fuel) i ?n q h s =
      get_addr_loop srch ino blkno L offs noffs fuel i ?n q None s2"
    using miss s1(1) s2(1) by (simp add: prog_simps do_filemapping_search_def od)
  have "nc_room ext 4 s2" using room by (rule nc_room_mono) (use s2(5) s1(4) in simp)
  moreover have "card (dom (nc_ix s2)) \<le> card (dom (nc_ix s)) + length ns" using s2(5) s1(4) by simp
  ultimately show ?thesis using s2(2) sys_frame_trans [OF f1 s2(3)] all run by blast
qed

lemma get_addr_loop_ok:
  assumes "nc_inv (with_handle h ext) W s" "\<forall>k \<in> W. ext k \<noteq> 0" "nc_room ext (4 + length ns) s" "meta_ready s"
    "path_nodes (node_view s) ino offs ns" "path_parents s ns" "\<forall>n \<in> set ns. nid_in_range (fs_meta s) n"
    "search_answers srch s ino blkno ns"
    "noffs = map (\<lambda>k. node_number (take k offs)) [0..<length offs]" "length ns = Suc L"
    "i \<le> L" "\<forall>j < i. ns ! j \<in> dom (nc_ix s)" "q = (if i = 0 then INVALID_NID else ns ! (i - 1))" "Suc (L - i) < fuel"
  shows "\<exists>s'. get_addr_loop srch ino blkno L offs noffs fuel i (ns ! i) q h s = (Inr (ns ! L), s') \<and>
    nc_inv (with_handle (Some (ns ! L)) ext) W s' \<and> sys_frame s s' \<and>
    card (dom (nc_ix s')) \<le> card (dom (nc_ix s)) + length ns"
  using assms
proof (induction fuel arbitrary: i s h q)
  case 0
  then show ?case by simp
next
  case (Suc fuel)
  have i: "i < length ns" using Suc.prems by simp
  show ?case
  proof (cases "ns ! i \<in> dom (nc_ix s)")
    case False
    obtain s1 where s1: "nc_inv ext W s1" "sys_frame s s1" "\<forall>j < length ns. ns ! j \<in> dom (nc_ix s1)" "nc_room ext 4 s1"
      "card (dom (nc_ix s1)) \<le> card (dom (nc_ix s)) + length ns"
      "get_addr_loop srch ino blkno L offs noffs (Suc fuel) i (ns ! i) q h s =
       get_addr_loop srch ino blkno L offs noffs fuel i (ns ! i) q None s1"
      using get_addr_miss [OF Suc.prems(1-4) i False Suc.prems(12,5,6,7,8,10,13), of noffs fuel] by blast
    have inv1: "nc_inv (with_handle None ext) W s1" using s1(1) by (simp add: with_handle_def)
    have p1: "path_nodes (node_view s1) ino offs ns" using s1(2) Suc.prems(5) by (simp add: sys_frame_def)
    have fu: "L - i < fuel" using Suc.prems(14) by simp
    obtain s2 where s2: "get_addr_loop srch ino blkno L offs noffs fuel i (ns ! i) q None s1 = (Inr (ns ! L), s2)"
        "nc_inv (with_handle (Some (ns ! L)) ext) W s2" "nc_frame s1 s2" "dom (nc_ix s2) = dom (nc_ix s1)"
      using get_addr_cached [OF inv1 Suc.prems(2) s1(4,3) p1 Suc.prems(9,10,11) fu, of srch blkno q] by blast
    have "sys_frame s1 s2" using nc_frame_sys [OF s2(3)] sys_frame_ready [OF s1(2) Suc.prems(4)] by (simp add: meta_ready_def)
    then have "sys_frame s s2" by (rule sys_frame_trans [OF s1(2)])
    with s1(5,6) s2(1,2,4) show ?thesis by auto
  next
    case True
    have room4: "nc_room ext 4 s" using Suc.prems(3) by (rule nc_room_mono) simp
    obtain s1 where s1: "nc_inv (with_handle (Some (ns ! i)) ext) W s1" "nc_frame s s1" "dom (nc_ix s1) = dom (nc_ix s)"
      "get_addr_loop srch ino blkno L offs noffs (Suc fuel) i (ns ! i) q h s =
        (if i = L then (Inr (ns ! i), s1)
         else get_addr_loop srch ino blkno L offs noffs fuel (Suc i) (ns ! Suc i) (ns ! i) (Some (ns ! i)) s1)"
      using get_addr_hit [OF Suc.prems(1,2) room4 i True Suc.prems(5,9,10), of srch blkno fuel q] by blast
    have f1: "sys_frame s s1" using nc_frame_sys [OF s1(2)] Suc.prems(4) by (simp add: meta_ready_def)
    show ?thesis
    proof (cases "i = L")
      case True
      with s1 f1 show ?thesis by auto
    next
      case False
      have pp: "path_parents s1 ns"
        using path_parents_mono [OF _ Suc.prems(6)] s1(2) by (simp add: nc_frame_def)
      have sa: "search_answers srch s1 ino blkno ns"
        using Suc.prems(8) unfolding search_answers_def s1(3) node_ondisk_frame [OF f1] .
      have "\<exists>s'. get_addr_loop srch ino blkno L offs noffs fuel (Suc i) (ns ! Suc i) (ns ! i) (Some (ns ! i)) s1 = (Inr (ns ! L), s') \<and>
        nc_inv (with_handle (Some (ns ! L)) ext) W s' \<and> sys_frame s1 s' \<and>
        card (dom (nc_ix s')) \<le> card (dom (nc_ix s1)) + length ns"
      proof (rule Suc.IH [OF s1(1) Suc.prems(2) _ sys_frame_ready [OF f1 Suc.prems(4)] _ pp _ sa Suc.prems(9,10)])
        show "nc_room ext (4 + length ns) s1" using Suc.prems(3) by (simp add: nc_room_def s1(3))
        show "path_nodes (node_view s1) ino offs ns" using Suc.prems(5) f1 by (simp add: sys_frame_def)
        show "\<forall>n \<in> set ns. nid_in_range (fs_meta s1) n" using Suc.prems(7) by (simp add: sys_frame_range [OF f1])
        show "\<forall>j < Suc i. ns ! j \<in> dom (nc_ix s1)" using Suc.prems(12) True by (simp add: s1(3) less_Suc_eq)
      qed (use False Suc.prems(11,14) in auto)
      with s1(3,4) False sys_frame_trans [OF f1] show ?thesis by auto
    qed
  qed
qed

section \<open>The address of a block\<close>

text \<open>The address that the last node of a path holds for a block.\<close>

definition tree_lpa :: "(u32 \<Rightarrow> hscfs_node option) \<Rightarrow> nat list \<Rightarrow> u32 list \<Rightarrow> u32" where
  "tree_lpa view offs ns =
     (case view (last ns) of
        None \<Rightarrow> INVALID_LPA
      | Some b \<Rightarrow> if length offs = 1 then i_addr (last offs) b else wd (last offs) b)"

lemma valid_path_last:
  assumes "valid_path offs"
  shows "offs \<noteq> []" "last offs < (if length offs = 1 then DEF_ADDRS_PER_INODE else DEF_ADDRS_PER_BLOCK)"
    "last offs < (if length offs - 1 = 0 then DEF_ADDRS_PER_INODE else DEF_ADDRS_PER_BLOCK)"
    "(length offs = 1) = (length offs - 1 = 0)"
  using assms by (cases rule: valid_path_shapes; auto)+

lemma get_addr_of_block_ok:
  assumes inv: "nc_inv ext W s" and room: "nc_room ext 8 s" and meta: "meta_ready s"
    and offs: "valid_path offs" "path_block offs = unat blkno"
    and path: "path_nodes (node_view s) ino offs ns" "path_parents s ns" "\<forall>n \<in> set ns. nid_in_range (fs_meta s) n"
    and srch: "search_answers srch s ino blkno ns" and fuel: "length offs < fuel"
  shows "\<exists>s'. get_addr_of_block srch fuel ino blkno s =
      (Inr \<lparr>bai_lpa = tree_lpa (node_view s) offs ns, bai_nid = last ns, bai_nid_off = last offs, bai_nid_handle = Some (last ns)\<rparr>, s') \<and>
    nc_inv (ext(last ns := Suc (ext (last ns)))) W s' \<and> sys_frame s s' \<and>
    card (dom (nc_ix s')) \<le> card (dom (nc_ix s)) + 4"
proof -
  define L where "L = length offs - 1"
  note pd = path_nodesD [OF path(1)] and vl = valid_path_last [OF offs(1)]
  have L: "length ns = Suc L" "length offs = Suc L" using pd(1) vl(1) by (simp_all add: L_def)
  have len: "length ns \<le> 4" using offs(1) pd(1) by (cases rule: valid_path_shapes) auto
  have gp: "get_node_path (unat blkno) = Some (L, offs, map (\<lambda>k. node_number (take k offs)) [0..<length offs])"
    using get_node_path_of [OF offs(1)] offs(2) by (simp add: path_of_def L_def)
  have lst: "last ns = ns ! L" "last offs = offs ! L" using L by (simp_all add: last_conv_nth flip: length_greater_0_conv)
  have inv0: "nc_inv (with_handle None ext) W s" using inv by (simp add: with_handle_def)
  have W: "\<forall>k \<in> W. ext k \<noteq> 0" using nc_invD(7) [OF inv] by auto
  have "nc_room ext (4 + length ns) s" using room by (rule nc_room_mono) (use len in simp)
  then obtain s' where s': "get_addr_loop srch ino blkno L offs (map (\<lambda>k. node_number (take k offs)) [0..<length offs])
        fuel 0 (ns ! 0) INVALID_NID None s = (Inr (ns ! L), s')"
      "nc_inv (with_handle (Some (ns ! L)) ext) W s'" "sys_frame s s'"
      "card (dom (nc_ix s')) \<le> card (dom (nc_ix s)) + length ns"
    using get_addr_loop_ok [OF inv0 W _ meta path srch refl L(1), of 0 INVALID_NID fuel] fuel L by auto
  obtain e where e: "nc_ix s' (ns ! L) = Some e" "node_view s' (ns ! L) = Some (nb_node e)"
    using nc_held [OF s'(2), of "ns ! L"] by (auto simp: with_handle_def)
  have v: "node_view s (ns ! L) = Some (nb_node e)" using e(2) s'(3) by (simp add: sys_frame_def)
  have lpa: "get_lpa (nb_node e) (offs ! L) L = Inr (tree_lpa (node_view s) offs ns)"
    using vl(2) L v by (auto simp: get_lpa_def tree_lpa_def lst split: if_splits)
  have "get_addr_of_block srch fuel ino blkno s =
      (Inr \<lparr>bai_lpa = tree_lpa (node_view s) offs ns, bai_nid = last ns, bai_nid_off = last offs, bai_nid_handle = Some (last ns)\<rparr>, s')"
    using gp s'(1) e(1) lpa pd(2) by (simp add: get_addr_of_block_def prog_simps nc_entry_def lst)
  with s'(2,3,4) len show ?thesis by (auto simp: with_handle_def lst)
qed

section \<open>The index tree as a map\<close>

text \<open>The reference definition: follow the pointers from the inode, with no cache involved.\<close>

fun walk :: "(u32 \<Rightarrow> hscfs_node option) \<Rightarrow> u32 \<Rightarrow> nat \<Rightarrow> nat list \<Rightarrow> u32 option" where
  "walk view n level [] = None"
| "walk view n level [off] =
     (case view n of None \<Rightarrow> None | Some b \<Rightarrow>
        (case get_lpa b off level of Inl _ \<Rightarrow> None | Inr lpa \<Rightarrow> Some lpa))"
| "walk view n level (off # offs) =
     (case view n of None \<Rightarrow> None | Some b \<Rightarrow>
        (case get_next_nid b off level of Inl _ \<Rightarrow> None | Inr n' \<Rightarrow> walk view n' (Suc level) offs))"

definition block_addr :: "(u32 \<Rightarrow> hscfs_node option) \<Rightarrow> u32 \<Rightarrow> nat \<Rightarrow> u32 option" where
  "block_addr view ino blk =
     (case get_node_path blk of None \<Rightarrow> None | Some (_, offs, _) \<Rightarrow> walk view ino 0 offs)"

lemma walk_drop:
  assumes path: "path_nodes view ino offs ns" and v: "valid_path offs" and L: "length offs = Suc L" and i: "i \<le> L"
  shows "walk view (ns ! i) i (drop i offs) = Some (tree_lpa view offs ns)"
  using i
proof (induction rule: inc_induct)
  case base
  note pd = path_nodesD [OF path]
  obtain b where b: "view (ns ! L) = Some b" using pd(5) [of L] pd(1) L by auto
  have lst: "last ns = ns ! L" "last offs = offs ! L" using L pd(1) by (simp_all add: last_conv_nth flip: length_greater_0_conv)
  have "drop L offs = [offs ! L]" using L by (simp add: Cons_nth_drop_Suc [symmetric])
  then show ?case
    using b valid_path_last [OF v] L by (auto simp: tree_lpa_def lst get_lpa_def split: if_splits)
next
  case (step i)
  note pd = path_nodesD [OF path]
  obtain b where b: "view (ns ! i) = Some b" "get_next_nid b (offs ! i) i = Inr (ns ! Suc i)"
    using pd(5) [of i] pd(1) L step.hyps by auto
  obtain o2 os where d: "drop (Suc i) offs = o2 # os" using L step.hyps by (cases "drop (Suc i) offs") auto
  have "drop i offs = offs ! i # drop (Suc i) offs" using L step.hyps by (simp add: Cons_nth_drop_Suc)
  then show ?case using b step.IH by (simp add: d)
qed

lemma block_addr_path:
  assumes "path_nodes view ino offs ns" "valid_path offs"
  shows "block_addr view ino (path_block offs) = Some (tree_lpa view offs ns)"
proof -
  have ne: "offs \<noteq> []" using valid_path_last [OF assms(2)] by simp
  then have "walk view (ns ! 0) 0 (drop 0 offs) = Some (tree_lpa view offs ns)"
    by (intro walk_drop [OF assms, of "length offs - 1"]) (cases offs; simp)+
  then show ?thesis
    using get_node_path_of [OF assms(2)] path_nodesD(2) [OF assms(1)] by (simp add: block_addr_def path_of_def)
qed

section \<open>Changing the address of a block\<close>

lemma set_lpa_ok:
  assumes "node_ok b" "off < (if level = 0 then DEF_ADDRS_PER_INODE else DEF_ADDRS_PER_BLOCK)"
  obtains b' where "set_lpa b off level lpa = Inr b'" "node_ok b'" "f_nid b' = f_nid b" "f_ino b' = f_ino b"
    "f_offset b' = f_offset b" "get_lpa b' off level = Inr lpa"
    "\<forall>o2. o2 \<noteq> off \<longrightarrow> get_lpa b' o2 level = get_lpa b o2 level"
    "level = 0 \<longrightarrow> (\<forall>o2. get_next_nid b' o2 0 = get_next_nid b o2 0)"
    "level = 0 \<longrightarrow> i_size b' = i_size b"
proof -
  let ?b = "set_wd (if level = 0 then 83 + off else off) lpa b"
  have "set_lpa b off level lpa = Inr ?b" using assms(2) by (auto simp: set_lpa_def split: if_splits)
  then show thesis
    by (rule that) (use assms in \<open>auto simp: get_lpa_def get_next_nid_def i_addr_def i_nid_def i_size_def wd64_def split: if_splits\<close>)
qed

text \<open>Two paths that meet in the last node of one of them.\<close>

lemma node_number_small: "valid_path offs \<Longrightarrow> i < length offs \<Longrightarrow> node_number (take i offs) < 2 ^ 32"
  by (drule (1) prefix_shape) auto

lemma path_meets_last:
  assumes p1: "path_nodes view ino offs ns" "valid_path offs" and p2: "path_nodes view ino offs2 ns2" "valid_path offs2"
    and i: "i < length ns2" "ns2 ! i = last ns"
  shows "take i offs2 = butlast offs" "0 < i \<Longrightarrow> Suc i = length offs2"
proof -
  note d1 = path_nodesD [OF p1(1)] and d2 = path_nodesD [OF p2(1)]
  have ne: "offs \<noteq> []" using valid_path_last [OF p1(2)] by simp
  define L where "L = length offs - 1"
  have L: "L < length offs" "length ns = Suc L" "last ns = ns ! L" using ne d1(1)
    by (simp_all add: L_def last_conv_nth flip: length_greater_0_conv)
  obtain b where b: "view (ns ! L) = Some b" "f_offset b = word_of_nat (node_number (take L offs))"
    using d1(5) [of L] L by auto
  then have "word_of_nat (node_number (take i offs2)) = (word_of_nat (node_number (take L offs)) :: u32)"
    using d2(5) [OF i(1)] i(2) L(3) by auto
  then have "node_number (take i offs2) = node_number (take L offs)"
    using of_nat_u32_inj [OF node_number_small [OF p2(2)] node_number_small [OF p1(2) L(1)]] i(1) d2(1) by simp
  then have e: "take i offs2 = take L offs"
    using node_number_inj [OF p2(2) _ p1(2) L(1), of i] i(1) d2(1) by auto
  then show "take i offs2 = butlast offs" by (simp add: butlast_conv_take L_def)
  show "Suc i = length offs2" if "0 < i"
    using p1(2) p2(2) e that L(1) i(1) d2(1) L_def
    by (auto elim!: valid_path_shapes simp: take_Cons split: nat.splits)
qed

lemma get_lpa_level: "0 < i \<Longrightarrow> 0 < j \<Longrightarrow> get_lpa b k i = get_lpa b k j"
  by (simp add: get_lpa_def)

lemma tree_lpa_get:
  assumes "path_nodes view ino offs ns" "valid_path offs" "view (last ns) = Some b"
  shows "get_lpa b (last offs) (length offs - 1) = Inr (tree_lpa view offs ns)"
  using valid_path_last(3) [OF assms(2)] assms(3)
  unfolding tree_lpa_def valid_path_last(4) [OF assms(2)] by (auto simp: get_lpa_def split: if_splits)

lemma path_nodes_update:
  assumes p1: "path_nodes view ino offs ns" "valid_path offs" and b: "view (last ns) = Some b" "node_ok b"
    and b': "set_lpa b (last offs) (length offs - 1) lpa = Inr b'"
    and p2: "path_nodes view ino offs2 ns2" "valid_path offs2"
  shows "path_nodes (view(last ns \<mapsto> b')) ino offs2 ns2"
    and "offs2 \<noteq> offs \<Longrightarrow> tree_lpa (view(last ns \<mapsto> b')) offs2 ns2 = tree_lpa view offs2 ns2"
    and "tree_lpa (view(last ns \<mapsto> b')) offs ns = lpa"
proof -
  note vl = valid_path_last [OF p1(2)] and vl2 = valid_path_last [OF p2(2)] and d2 = path_nodesD [OF p2(1)]
  obtain b'' where b'': "set_lpa b (last offs) (length offs - 1) lpa = Inr b''" "node_ok b''" "f_nid b'' = f_nid b" "f_ino b'' = f_ino b"
      "f_offset b'' = f_offset b" "get_lpa b'' (last offs) (length offs - 1) = Inr lpa"
      "\<forall>o2. o2 \<noteq> last offs \<longrightarrow> get_lpa b'' o2 (length offs - 1) = get_lpa b o2 (length offs - 1)"
      "length offs - 1 = 0 \<longrightarrow> (\<forall>o2. get_next_nid b'' o2 0 = get_next_nid b o2 0)"
      "length offs - 1 = 0 \<longrightarrow> i_size b'' = i_size b"
    by (rule set_lpa_ok [OF b(2) vl(3)])
  then have eq: "b'' = b'" using b' by simp
  show pn: "path_nodes (view(last ns \<mapsto> b')) ino offs2 ns2"
    unfolding path_nodes_def
  proof (intro conjI allI impI)
    fix i assume i: "i < length ns2"
    obtain c where c: "view (ns2 ! i) = Some c" "f_nid c = ns2 ! i" "f_ino c = ino"
        "f_offset c = word_of_nat (node_number (take i offs2))"
        "Suc i < length ns2 \<longrightarrow> get_next_nid c (offs2 ! i) i = Inr (ns2 ! Suc i)"
      using d2(5) [OF i] by blast
    have "Suc i < length ns2 \<longrightarrow> get_next_nid b' (offs2 ! i) i = Inr (ns2 ! Suc i)" if same: "ns2 ! i = last ns"
    proof
      assume si: "Suc i < length ns2"
      have "i = 0" using path_meets_last(2) [OF p1 p2 i same] si d2(1) by (cases i) auto
      moreover have "butlast offs = []" using path_meets_last(1) [OF p1 p2 i same] \<open>i = 0\<close> by simp
      then have "length offs - 1 = 0" by (metis length_butlast list.size(3))
      ultimately show "get_next_nid b' (offs2 ! i) i = Inr (ns2 ! Suc i)"
        using c(1,5) si same b(1) b''(8) eq by simp
    qed
    then show "case (view(last ns \<mapsto> b')) (ns2 ! i) of None \<Rightarrow> False
      | Some b \<Rightarrow> f_nid b = ns2 ! i \<and> f_ino b = ino \<and> f_offset b = word_of_nat (node_number (take i offs2)) \<and>
          (Suc i < length ns2 \<longrightarrow> get_next_nid b (offs2 ! i) i = Inr (ns2 ! Suc i))"
      using c b(1) b''(3-5) eq by (cases "ns2 ! i = last ns") auto
  qed (use p2(1) in \<open>auto simp: path_nodes_def\<close>)
  show "tree_lpa (view(last ns \<mapsto> b')) offs ns = lpa"
    using b''(6) eq vl(3) unfolding tree_lpa_def vl(4) by (auto simp: get_lpa_def split: if_splits)
  show "tree_lpa (view(last ns \<mapsto> b')) offs2 ns2 = tree_lpa view offs2 ns2" if ne: "offs2 \<noteq> offs"
  proof (cases "last ns2 = last ns")
    case False
    then show ?thesis by (simp add: tree_lpa_def)
  next
    case True
    have "ns2 \<noteq> []" using vl2(1) d2(1) by auto
    then have L2: "length ns2 - 1 < length ns2" "last ns2 = ns2 ! (length ns2 - 1)" by (simp_all add: last_conv_nth)
    have bl: "butlast offs2 = butlast offs"
      using path_meets_last(1) [OF p1 p2 L2(1)] True L2(2) d2(1) by (simp add: butlast_conv_take)
    then have len: "length offs2 - 1 = length offs - 1" by (metis length_butlast)
    have "last offs2 \<noteq> last offs" using bl ne vl(1) vl2(1) by (metis append_butlast_last_id)
    then have g: "get_lpa b' (last offs2) (length offs2 - 1) = get_lpa b (last offs2) (length offs2 - 1)"
      using b''(7) eq len by simp
    have v2: "(view(last ns \<mapsto> b')) (last ns2) = Some b'" "view (last ns2) = Some b" using True b(1) by simp_all
    show ?thesis
      using tree_lpa_get [OF pn p2(2) v2(1)] tree_lpa_get [OF p2 v2(2)] g by (metis sum.inject(2))
  qed
qed

lemma update_block_mapping_ok:
  assumes inv: "nc_inv ext W s" and room: "nc_room ext 8 s" and meta: "meta_ready s"
    and offs: "valid_path offs" "path_block offs = unat blkno"
    and path: "path_nodes (node_view s) ino offs ns" "path_parents s ns" "\<forall>n \<in> set ns. nid_in_range (fs_meta s) n"
    and srch: "search_answers srch s ino blkno ns" and fuel: "length offs < fuel"
    and b: "node_view s (last ns) = Some b" "node_ok b" and new: "lpa \<noteq> tree_lpa (node_view s) offs ns"
  shows "\<exists>b' s'. set_lpa b (last offs) (length offs - 1) lpa = Inr b' \<and>
    update_block_mapping srch fuel ino blkno lpa s =
      (Inr \<lparr>bai_lpa = lpa, bai_nid = last ns, bai_nid_off = last offs, bai_nid_handle = Some (last ns)\<rparr>, s') \<and>
    nc_inv (ext(last ns := Suc (ext (last ns)))) (W - {last ns}) s' \<and>
    meta_step (fs_meta s) [] [] [] (fs_meta s') \<and> node_dev s' = node_dev s \<and>
    dirty_nids s' = insert (last ns) (dirty_nids s) \<and> node_view s' = (node_view s)(last ns \<mapsto> b')"
proof -
  let ?n = "last ns" and ?ext = "ext(last ns := Suc (ext (last ns)))"
  note vl = valid_path_last [OF offs(1)] and pd = path_nodesD [OF path(1)]
  obtain s1 where s1: "get_addr_of_block srch fuel ino blkno s =
      (Inr \<lparr>bai_lpa = tree_lpa (node_view s) offs ns, bai_nid = ?n, bai_nid_off = last offs, bai_nid_handle = Some ?n\<rparr>, s1)"
      "nc_inv ?ext W s1" "sys_frame s s1" "card (dom (nc_ix s1)) \<le> card (dom (nc_ix s)) + 4"
    using get_addr_of_block_ok [OF inv room meta offs path srch fuel] by blast
  have v1: "node_view s1 ?n = Some b" using s1(3) b(1) by (simp add: sys_frame_def)
  obtain b' where b': "set_lpa b (last offs) (length offs - 1) lpa = Inr b'"
    by (rule set_lpa_ok [OF b(2) vl(3)])
  have lev: "set_lpa b (last offs) (if ino = ?n then 0 else 1) lpa = Inr b'"
  proof -
    have "ns \<noteq> []" using vl(1) pd(1) by auto
    then have "(ino = ?n) = (length offs - 1 = 0)"
      using nth_eq_iff_index_eq [OF pd(3), of 0 "length ns - 1"] pd(1,2) vl(1) by (auto simp: last_conv_nth)
    then show ?thesis using b' by (auto simp: set_lpa_def split: if_splits)
  qed
  obtain e where e: "nc_ix s1 ?n = Some e" "nc_entry_ok ?ext W s1 ?n e" "node_view s1 ?n = Some (nb_node e)"
    using nc_held [OF s1(2), of ?n] by auto
  have ext1: "?ext ?n \<noteq> 0" by simp
  obtain s2 where s2: "nc_set_node ?n (\<lambda>_. b') s1 = (Inr (), s2)" "nc_inv ?ext (insert ?n W) s2"
      "fs_meta s2 = fs_meta s1" "node_dev s2 = node_dev s1" "nc_dirty s2 = nc_dirty s1"
      "node_view s2 = (node_view s1)(?n \<mapsto> b')" "dom (nc_ix s2) = dom (nc_ix s1)"
    using nc_set_node_ok [OF s1(2) ext1 v1, of "\<lambda>_. b'"] by blast
  have "nc_room ?ext 3 s2" using room by (rule nc_room_mono) (use s1(4) s2(7) in auto)
  then obtain s3 where s3: "nc_mark_dirty ?n s2 = (Inr (), s3)" "nc_inv ?ext (insert ?n W - {?n}) s3"
      "fs_meta s3 = fs_meta s2" "node_dev s3 = node_dev s2" "dirty_nids s3 = insert ?n (dirty_nids s2)"
      "node_view s3 = node_view s2"
    using nc_mark_dirty_ok [OF s2(2) ext1] by blast
  have "update_block_mapping srch fuel ino blkno lpa s =
      (Inr \<lparr>bai_lpa = lpa, bai_nid = ?n, bai_nid_off = last offs, bai_nid_handle = Some ?n\<rparr>, s3)"
    using s1(1) s2(1) s3(1) e lev v1 new
    by (auto simp: update_block_mapping_def prog_simps nc_entry_def Let_def nc_entry_ok_def)
  moreover have "insert ?n W - {?n} = W - {?n}" by auto
  moreover have "dirty_nids s3 = insert ?n (dirty_nids s)" "node_view s3 = (node_view s)(?n \<mapsto> b')"
    using s3 s2 s1(3) by (simp_all add: sys_frame_def dirty_nids_def)
  ultimately show ?thesis using b' s3 s2 s1(3) by (auto simp: sys_frame_def)
qed

section \<open>A concrete search\<close>

definition sample_search :: ssd_search where
  "sample_search ino start blkno levels =
     (if ino = 10 \<and> start = 10 \<and> blkno = 937 then Some [sample_inode, sample_direct]
      else if ino = 10 \<and> start = 20 \<and> blkno = 937 then Some [sample_direct] else None)"

lemma sample_sys_facts:
  "nc_inv (\<lambda>_. 0) {} sample_sys" "nc_room (\<lambda>_. 0) 8 sample_sys" "meta_ready sample_sys"
  "node_view sample_sys 10 = Some sample_inode" "node_view sample_sys 20 = Some sample_direct"
  "path_nodes (node_view sample_sys) 10 [933, 5] [10, 20]" "path_parents sample_sys [10, 20]"
  "\<forall>n \<in> set [10, 20]. nid_in_range (fs_meta sample_sys) n"
  "search_answers sample_search sample_sys 10 937 [10, 20]"
proof -
  have d: "node_ondisk sample_sys 10 = Some sample_inode" "node_ondisk sample_sys 20 = Some sample_direct"
    by (simp_all add: node_ondisk_def sample_sys_def)
  then show v: "node_view sample_sys 10 = Some sample_inode" "node_view sample_sys 20 = Some sample_direct"
    by (simp_all add: node_view_def sample_sys_def)
  show "nc_inv (\<lambda>_. 0) {} sample_sys" "nc_room (\<lambda>_. 0) 8 sample_sys" "meta_ready sample_sys"
    by (simp_all add: nc_inv_def nc_room_def meta_ready_def sample_sys_def dirty_nids_def)
  show "path_nodes (node_view sample_sys) 10 [933, 5] [10, 20]"
    using v by (auto simp: path_nodes_def less_Suc_eq get_next_nid_def i_nid_def)
  show "path_parents sample_sys [10, 20]" by (simp add: path_parents_def nc_parents_def sample_sys_def)
  show "\<forall>n \<in> set [10, 20]. nid_in_range (fs_meta sample_sys) n"
    by (simp add: nid_in_range_def sample_sys_def sample_super_def)
  show "search_answers sample_search sample_sys 10 937 [10, 20]"
    using d by (auto simp: search_answers_def sample_search_def less_Suc_eq)
qed

section \<open>Properties\<close>

text \<open>
  C37. Looking up a block of a file agrees with the index tree. For every block number with a
  path in the tree, \<^verbatim>\<open>get_addr_of_block\<close> returns the address, the node and the offset that
  following the pointers from the inode gives, whichever nodes of the path are cached and
  whatever the cache replaces meanwhile, provided the SSD answers a search with the nodes it
  holds. It ends within one round per level and one more; it keeps the invariant of the
  cache with one more handle, on the node returned, and changes neither the tables nor any
  node.
\<close>

theorem get_addr_of_block_is_walk:
  assumes "nc_inv ext W s" "nc_room ext 8 s" "meta_ready s" "valid_path offs" "path_block offs = unat blkno"
    "path_nodes (node_view s) ino offs ns" "path_parents s ns" "\<forall>n \<in> set ns. nid_in_range (fs_meta s) n"
    "search_answers srch s ino blkno ns" "length offs < fuel"
  shows "\<exists>lpa s'. block_addr (node_view s) ino (unat blkno) = Some lpa \<and>
    get_addr_of_block srch fuel ino blkno s =
      (Inr \<lparr>bai_lpa = lpa, bai_nid = last ns, bai_nid_off = last offs, bai_nid_handle = Some (last ns)\<rparr>, s') \<and>
    nc_inv (ext(last ns := Suc (ext (last ns)))) W s' \<and> sys_frame s s'"
  using get_addr_of_block_ok [OF assms] block_addr_path [OF assms(6,4)] assms(5) by auto

theorem get_addr_of_block_is_walk_witness:
  "\<exists>s'. get_addr_of_block sample_search 3 10 937 sample_sys =
     (Inr \<lparr>bai_lpa = 888, bai_nid = 20, bai_nid_off = 5, bai_nid_handle = Some 20\<rparr>, s') \<and>
     nc_inv ((\<lambda>_. 0)(20 := 1)) {} s'"
proof -
  note f = sample_sys_facts
  have "\<exists>lpa s'. block_addr (node_view sample_sys) 10 (unat (937 :: u32)) = Some lpa \<and>
    get_addr_of_block sample_search 3 10 937 sample_sys =
      (Inr \<lparr>bai_lpa = lpa, bai_nid = last [10, 20], bai_nid_off = last [933, 5], bai_nid_handle = Some (last [10, 20])\<rparr>, s') \<and>
    nc_inv ((\<lambda>_. 0)(last [10, 20] := Suc 0)) {} s' \<and> sys_frame sample_sys s'"
    by (rule get_addr_of_block_is_walk [OF f(1-3) _ _ f(6-9)]) simp_all
  moreover have "block_addr (node_view sample_sys) 10 937 = Some 888"
    using block_addr_path [OF f(6)] f(5) by (simp add: tree_lpa_def)
  ultimately show ?thesis by auto
qed

text \<open>
  C38. Changing the address of a block. After \<^verbatim>\<open>update_block_mapping\<close> the index tree gives the new
  address for the block and the old one for every other block of the file, the changed node
  is dirty, and every path of the tree is still a path.
\<close>

theorem update_block_mapping_updates_one:
  assumes "nc_inv ext W s" "nc_room ext 8 s" "meta_ready s" "valid_path offs" "path_block offs = unat blkno"
    "path_nodes (node_view s) ino offs ns" "path_parents s ns" "\<forall>n \<in> set ns. nid_in_range (fs_meta s) n"
    "search_answers srch s ino blkno ns" "length offs < fuel"
    "node_view s (last ns) = Some b" "node_ok b" "block_addr (node_view s) ino (unat blkno) \<noteq> Some lpa"
  shows "\<exists>s'. update_block_mapping srch fuel ino blkno lpa s =
      (Inr \<lparr>bai_lpa = lpa, bai_nid = last ns, bai_nid_off = last offs, bai_nid_handle = Some (last ns)\<rparr>, s') \<and>
    nc_inv (ext(last ns := Suc (ext (last ns)))) (W - {last ns}) s' \<and>
    block_addr (node_view s') ino (unat blkno) = Some lpa \<and> dirty_nids s' = insert (last ns) (dirty_nids s) \<and>
    (\<forall>offs2 ns2. valid_path offs2 \<and> path_nodes (node_view s) ino offs2 ns2 \<longrightarrow>
       path_nodes (node_view s') ino offs2 ns2 \<and>
       (path_block offs2 \<noteq> unat blkno \<longrightarrow>
          block_addr (node_view s') ino (path_block offs2) = block_addr (node_view s) ino (path_block offs2)))"
proof -
  have new: "lpa \<noteq> tree_lpa (node_view s) offs ns"
    using assms(13) block_addr_path [OF assms(6,4)] assms(5) by auto
  obtain b' s' where s': "set_lpa b (last offs) (length offs - 1) lpa = Inr b'"
    "update_block_mapping srch fuel ino blkno lpa s =
      (Inr \<lparr>bai_lpa = lpa, bai_nid = last ns, bai_nid_off = last offs, bai_nid_handle = Some (last ns)\<rparr>, s')"
    "nc_inv (ext(last ns := Suc (ext (last ns)))) (W - {last ns}) s'"
    "dirty_nids s' = insert (last ns) (dirty_nids s)" "node_view s' = (node_view s)(last ns \<mapsto> b')"
    using update_block_mapping_ok [OF assms(1-12) new] by blast
  note upd = path_nodes_update [OF assms(6,4,11,12) s'(1), folded s'(5)]
  have "block_addr (node_view s') ino (unat blkno) = Some lpa"
    using block_addr_path [OF upd(1) [OF assms(6,4)] assms(4)] upd(3) [OF assms(6,4)] assms(5) by simp
  moreover have "path_nodes (node_view s') ino offs2 ns2 \<and>
       (path_block offs2 \<noteq> unat blkno \<longrightarrow>
          block_addr (node_view s') ino (path_block offs2) = block_addr (node_view s) ino (path_block offs2))"
    if p2: "valid_path offs2" "path_nodes (node_view s) ino offs2 ns2" for offs2 ns2
    using upd(1,2) [OF p2(2,1)] block_addr_path [OF _ p2(1)] p2(2) assms(5) by auto
  ultimately show ?thesis using s' by blast
qed

theorem update_block_mapping_updates_one_witness:
  "\<exists>s'. update_block_mapping sample_search 3 10 937 999 sample_sys =
     (Inr \<lparr>bai_lpa = 999, bai_nid = 20, bai_nid_off = 5, bai_nid_handle = Some 20\<rparr>, s') \<and>
     block_addr (node_view s') 10 937 = Some 999"
proof -
  note f = sample_sys_facts
  have "block_addr (node_view sample_sys) 10 937 = Some 888"
    using block_addr_path [OF f(6)] f(5) by (simp add: tree_lpa_def)
  then have "\<exists>s'. update_block_mapping sample_search 3 10 937 999 sample_sys =
      (Inr \<lparr>bai_lpa = 999, bai_nid = last [10, 20], bai_nid_off = last [933, 5], bai_nid_handle = Some (last [10, 20])\<rparr>, s') \<and>
    nc_inv ((\<lambda>_. 0)(last [10, 20] := Suc 0)) ({} - {last [10, 20]}) s' \<and>
    block_addr (node_view s') 10 (unat (937 :: u32)) = Some 999 \<and> dirty_nids s' = insert (last [10, 20]) (dirty_nids sample_sys) \<and>
    (\<forall>offs2 ns2. valid_path offs2 \<and> path_nodes (node_view sample_sys) 10 offs2 ns2 \<longrightarrow>
       path_nodes (node_view s') 10 offs2 ns2 \<and>
       (path_block offs2 \<noteq> unat (937 :: u32) \<longrightarrow>
          block_addr (node_view s') 10 (path_block offs2) = block_addr (node_view sample_sys) 10 (path_block offs2)))"
    by (intro update_block_mapping_updates_one [OF f(1-3) _ _ f(6-9), of 3 sample_direct]) (simp_all add: f(5))
  then show ?thesis by auto
qed

end
