(* ===== verification/File_Resize.thy ===== *)
theory File_Resize
  imports Block_Lookup
begin

text \<open>
  Shrinking a file. A file whose blocks are all addressed by its inode loses exactly the blocks
  beyond the new size; a range that starts behind the first direct node is not freed at all.
\<close>

section \<open>Freeing pointers of a node\<close>

text \<open>Every block of the device has a well-formed SIT entry with room for \<open>n\<close> more changes.\<close>

definition sit_ready :: "nat \<Rightarrow> meta \<Rightarrow> bool" where
  "sit_ready n m \<longleftrightarrow>
     (\<forall>j. \<exists>e. sit_at m j = Some e \<and> sit_wf e) \<and> (\<forall>k. sn_refs (sit_cache m) k + n + 1 < 2 ^ 32)"

lemma sit_ready_mono: "sit_ready n m \<Longrightarrow> k \<le> n \<Longrightarrow> sit_ready k m"
  unfolding sit_ready_def by (meson add_le_mono1 add_left_mono le_less_trans)

lemma invalidate_ready:
  assumes m: "meta_inv m" "sit_ready (Suc n) m" and l: "lpa \<noteq> INVALID_LPA" "lpa_valid m lpa"
  shows "\<exists>m' dt. invalidate_lpa lpa m = (Inr (), m') \<and> meta_step m [] [] dt m' \<and> sit_ready n m' \<and>
    lpa_valid m' = (lpa_valid m)(lpa := False)"
proof -
  obtain e where e: "sit_at m (lpa_seg m lpa) = Some e" "sit_wf e" using m(2) by (auto simp: sit_ready_def)
  have ref: "sn_refs (sit_cache m) k + Suc n + 1 < 2 ^ 32" for k using m(2) unfolding sit_ready_def by blast
  have bit: "sit_bit e (lpa_off m lpa)" using e(1) l(2) by (simp add: lpa_valid_def)
  then obtain e' where e': "sit_entry_change (lpa_off m lpa) False e = Inr e'"
    using sit_entry_change_val [OF e(2) lpa_off_less [of m lpa], of False] by (auto simp: Let_def)
  have "Suc (Suc (sn_refs (sit_cache m) (sit_blk m (lpa_seg m lpa)))) < 2 ^ 32"
    using ref [of "sit_blk m (lpa_seg m lpa)"] by linarith
  from change_lpa_state_ok [OF m(1) l(1) e(1) e' this] obtain m' where
    m': "change_lpa_state lpa False m = (Inr (), m')" "meta_step m [] [] [\<lparr>segID = lpa_seg m lpa, sit_newValue = e'\<rparr>] m'"
    by (auto simp: Let_def)
  have "sit_wf e'" using sit_entry_change_props [OF e(2) lpa_off_less e'] e(2) by (simp add: sit_wf_def sit_toggle_def)
  then have "\<forall>j. \<exists>x. sit_at m' j = Some x \<and> sit_wf x"
    using meta_stepD(5) [OF m'(2)] m(2) by (auto simp: sit_ready_def)
  moreover have "sn_refs (sit_cache m') k + n + 1 < 2 ^ 32" for k
    using ref [of k] meta_stepD(9) [OF m'(2)] by (simp add: sit_versions_def)
  ultimately have "sit_ready n m'" unfolding sit_ready_def by blast
  with m' lpa_valid_change(1) [OF meta_stepD(2) [OF m'(2)] e e'] show ?thesis
    by (auto simp: invalidate_lpa_def)
qed

text \<open>The addresses held by the pointers \<open>is\<close>, stored from word \<open>base\<close> on.\<close>

definition freed_lpas :: "nat \<Rightarrow> nat list \<Rightarrow> hscfs_node \<Rightarrow> u32 set" where
  "freed_lpas base is b = {wd (base + i) b | i. i \<in> set is \<and> wd (base + i) b \<noteq> INVALID_LPA}"

definition pointers_ok :: "meta \<Rightarrow> nat \<Rightarrow> nat list \<Rightarrow> hscfs_node \<Rightarrow> bool" where
  "pointers_ok m base is b \<longleftrightarrow>
     node_ok b \<and> distinct is \<and> (\<forall>i \<in> set is. base + i < 1020) \<and>
     (\<forall>i \<in> set is. wd (base + i) b \<noteq> INVALID_LPA \<longrightarrow> lpa_valid m (wd (base + i) b)) \<and>
     (\<forall>i \<in> set is. \<forall>j \<in> set is. i \<noteq> j \<and> wd (base + i) b \<noteq> INVALID_LPA \<longrightarrow> wd (base + i) b \<noteq> wd (base + j) b)"

text \<open>The pointers are cleared in the node and what they held is no longer valid; nothing else changes.\<close>

definition pointers_freed :: "u32 \<Rightarrow> nat \<Rightarrow> nat list \<Rightarrow> hscfs_node \<Rightarrow> fsys \<Rightarrow> fsys \<Rightarrow> bool" where
  "pointers_freed p base is b s s' \<longleftrightarrow>
    (\<exists>dt. meta_step (fs_meta s) [] [] dt (fs_meta s')) \<and> node_dev s' = node_dev s \<and> dirty_nids s' = dirty_nids s \<and>
    dom (nc_ix s') = dom (nc_ix s) \<and>
    (\<exists>b'. node_view s' = (node_view s)(p \<mapsto> b') \<and> node_ok b' \<and>
       f_nid b' = f_nid b \<and> f_ino b' = f_ino b \<and> f_offset b' = f_offset b \<and>
       (\<forall>k < 1020. wd k b' = (if k \<in> (+) base ` set is then INVALID_LPA else wd k b))) \<and>
    (\<forall>l. lpa_valid (fs_meta s') l \<longleftrightarrow> lpa_valid (fs_meta s) l \<and> l \<notin> freed_lpas base is b)"

lemma pointers_freed_nil:
  assumes "meta_inv (fs_meta s)" "node_view s p = Some b" "node_ok b"
  shows "pointers_freed p base [] b s s"
proof -
  have "node_view s = (node_view s)(p \<mapsto> b)" using assms(2) by auto
  then show ?thesis
    using assms meta_step_nil [OF assms(1)] unfolding pointers_freed_def freed_lpas_def by auto
qed

lemma free_pointers_ok:
  assumes "nc_inv ext W s" "ext p \<noteq> 0" "node_view s p = Some b" "p \<in> W" "meta_inv (fs_meta s)"
    "sit_ready (length is) (fs_meta s)" "pointers_ok (fs_meta s) base is b"
  shows "\<exists>s'. free_pointers p base is s = (Inr (), s') \<and> nc_inv ext W s' \<and> pointers_freed p base is b s s'"
  using assms
proof (induction "is" arbitrary: s b)
  case Nil
  then show ?case
    using pointers_freed_nil [of s p b base] by (auto simp: ret_def pointers_ok_def)
next
  case (Cons i "is")
  note prems = Cons.prems
  let ?k = "base + i" and ?lpa = "wd (base + i) b"
  have ok: "node_ok b" "distinct is" "i \<notin> set is" "?k < 1020" "\<forall>j \<in> set is. base + j < 1020"
    "?lpa \<noteq> INVALID_LPA \<longrightarrow> lpa_valid (fs_meta s) ?lpa" "\<forall>j \<in> set is. ?lpa \<noteq> INVALID_LPA \<longrightarrow> ?lpa \<noteq> wd (base + j) b"
    using prems(7) by (auto simp: pointers_ok_def)
  obtain e where e: "nc_ix s p = Some e" "nb_node e = b"
    using nc_held [OF prems(1,2)] prems(3) by (metis option.inject)
  have sr: "sit_ready (length is) (fs_meta s)" using prems(6) by (rule sit_ready_mono) simp
  obtain s1 b1 dt1 where s1:
    "(if ?lpa \<noteq> INVALID_LPA then bnd (on_meta (invalidate_lpa ?lpa)) (\<lambda>_. nc_set_node p (set_wd ?k INVALID_LPA)) else ret ()) s = (Inr (), s1)"
    "nc_inv ext W s1" "meta_step (fs_meta s) [] [] dt1 (fs_meta s1)" "node_dev s1 = node_dev s" "dirty_nids s1 = dirty_nids s"
    "dom (nc_ix s1) = dom (nc_ix s)" "node_view s1 = (node_view s)(p \<mapsto> b1)" "b1 = set_wd ?k INVALID_LPA b"
    "sit_ready (length is) (fs_meta s1)"
    "\<forall>l. lpa_valid (fs_meta s1) l \<longleftrightarrow> lpa_valid (fs_meta s) l \<and> \<not> (?lpa \<noteq> INVALID_LPA \<and> l = ?lpa)"
  proof (cases "?lpa = INVALID_LPA")
    case True
    have "set_wd ?k INVALID_LPA b = b"
      using True ok(1,4) by (cases b) (auto simp: set_wd_def wd_def node_ok_def list_update_same_conv)
    moreover have "node_view s = (node_view s)(p \<mapsto> b)" using prems(3) by auto
    ultimately show ?thesis
      using True prems sr meta_step_nil [OF prems(5)]
      by (intro that [of s "[]" b]) (auto simp: ret_def)
  next
    case False
    obtain m' dt where m': "invalidate_lpa ?lpa (fs_meta s) = (Inr (), m')" "meta_step (fs_meta s) [] [] dt m'"
        "sit_ready (length is) m'" "lpa_valid m' = (lpa_valid (fs_meta s))(?lpa := False)"
      using invalidate_ready [OF prems(5) _ False, of "length is"] prems(6) ok(6) False by auto
    have nat: "nat_at m' = nat_at (fs_meta s)" using meta_stepD(4) [OF m'(2)] by simp
    note inv1 = nc_inv_meta [OF prems(1) nat]
    have v1: "node_view (s\<lparr>fs_meta := m'\<rparr>) p = Some b" using prems(3) inv1(2) by simp
    obtain s2 where s2: "nc_set_node p (set_wd ?k INVALID_LPA) (s\<lparr>fs_meta := m'\<rparr>) = (Inr (), s2)"
        "nc_inv ext (insert p W) s2" "fs_meta s2 = m'" "node_dev s2 = node_dev s" "nc_dirty s2 = nc_dirty s"
        "node_view s2 = (node_view s)(p \<mapsto> set_wd ?k INVALID_LPA b)" "dom (nc_ix s2) = dom (nc_ix s)"
      using nc_set_node_ok [OF inv1(1) prems(2) v1, of "set_wd ?k INVALID_LPA"] inv1(2) by auto
    have "insert p W = W" using prems(4) by blast
    then show ?thesis
      using False m' s2 by (intro that [of s2 dt]) (auto simp: on_meta_def bnd_def dirty_nids_def)
  qed
  have v1: "node_view s1 p = Some b1" by (simp add: s1(7))
  have w1: "wd (base + j) b1 = wd (base + j) b" if "j \<in> set is" for j
    using that ok(1,3,4) by (auto simp: s1(8))
  have po: "pointers_ok (fs_meta s1) base is b1"
    using prems(7) ok(1,2,4) w1 s1(10) unfolding pointers_ok_def by (auto simp: s1(8))
  obtain s2 where s2: "free_pointers p base is s1 = (Inr (), s2)" "nc_inv ext W s2" "pointers_freed p base is b1 s1 s2"
    using Cons.IH [OF s1(2) prems(2) v1 prems(4) meta_stepD(1) [OF s1(3)] s1(9) po] by blast
  obtain b2 dt2 where b2: "meta_step (fs_meta s1) [] [] dt2 (fs_meta s2)" "node_view s2 = (node_view s1)(p \<mapsto> b2)" "node_ok b2"
    "f_nid b2 = f_nid b1" "f_ino b2 = f_ino b1" "f_offset b2 = f_offset b1"
    "\<forall>k < 1020. wd k b2 = (if k \<in> (+) base ` set is then INVALID_LPA else wd k b1)"
    using s2(3) unfolding pointers_freed_def by blast
  have fl: "l \<in> freed_lpas base (i # is) b \<longleftrightarrow> (?lpa \<noteq> INVALID_LPA \<and> l = ?lpa) \<or> l \<in> freed_lpas base is b1" for l
    using w1 by (auto simp: freed_lpas_def)
  have "free_pointers p base (i # is) s = (Inr (), s2)"
    using e s1(1) s2(1) by (cases "?lpa = INVALID_LPA") (simp_all add: nc_entry_def Let_def bnd_def)
  moreover have "\<forall>k < 1020. wd k b2 = (if k \<in> (+) base ` set (i # is) then INVALID_LPA else wd k b)"
    using b2(7) ok(1,4) by (auto simp: s1(8))
  moreover have "\<forall>l. lpa_valid (fs_meta s2) l \<longleftrightarrow> lpa_valid (fs_meta s) l \<and> l \<notin> freed_lpas base (i # is) b"
    using s2(3) s1(10) fl unfolding pointers_freed_def by auto
  moreover have "node_view s2 = (node_view s)(p \<mapsto> b2)" "f_nid b2 = f_nid b" "f_ino b2 = f_ino b" "f_offset b2 = f_offset b"
    using b2 by (simp_all add: s1(7,8))
  ultimately have "pointers_freed p base (i # is) b s s2"
    using meta_step_trans [OF s1(3) b2(1)] s2(3) s1(4-6) b2(3) unfolding pointers_freed_def by auto
  with \<open>free_pointers p base (i # is) s = (Inr (), s2)\<close> s2(2) show ?case by blast
qed

section \<open>The set of nodes being written\<close>

lemma nc_inv_writing: "nc_inv ext W s \<Longrightarrow> ext p \<noteq> 0 \<Longrightarrow> nc_inv ext (insert p W) s"
  by (auto simp: nc_inv_def nc_entry_ok_def)

lemma nc_inv_dirty:
  assumes "nc_inv ext W s" "p \<in> dirty_nids s"
  shows "nc_inv ext (W - {p}) s"
proof (rule nc_invI)
  fix k e assume e: "nc_ix s k = Some e"
  from nc_invD(8) [OF assms(1) e] assms(2) show "nc_entry_ok ext (W - {p}) s k e"
    unfolding nc_entry_ok_def by (cases "k = p") auto
qed (use nc_invD [OF assms(1)] in auto)

section \<open>Shrinking a file of direct blocks\<close>

lemma ucast_small: "unat (x :: u64) < 2 ^ 32 \<Longrightarrow> unat (ucast x :: u32) = unat x"
  by (simp add: unsigned_ucast_eq take_bit_nat_eq_self_iff)

text \<open>The number of blocks of a file of a given size.\<close>

definition blocks_of :: "u64 \<Rightarrow> nat" where
  "blocks_of sz = (unat sz + 4095) div 4096"

lemma blocks_of_word:
  assumes "unat sz \<le> 932 * 4096"
  shows "unat (ucast (SIZE_TO_BLOCK sz) :: u32) = blocks_of sz" "blocks_of sz \<le> 932"
    "0 < unat sz \<Longrightarrow> unat (ucast (SIZE_TO_BLOCK sz - 1) :: u32) = blocks_of sz - 1" "0 < unat sz \<Longrightarrow> 0 < blocks_of sz"
proof -
  have b: "unat (SIZE_TO_BLOCK sz) = blocks_of sz" using assms by (simp add: SIZE_TO_BLOCK_ceil blocks_of_def)
  show le: "blocks_of sz \<le> 932" using assms unfolding blocks_of_def by simp
  show "unat (ucast (SIZE_TO_BLOCK sz) :: u32) = blocks_of sz" using ucast_small [of "SIZE_TO_BLOCK sz"] b le by simp
  assume "0 < unat sz"
  then show pos: "0 < blocks_of sz" by (simp add: blocks_of_def div_greater_zero_iff)
  then have "SIZE_TO_BLOCK sz \<noteq> 0" using b by auto
  then have "unat (SIZE_TO_BLOCK sz - 1) = blocks_of sz - 1" using b by (simp add: unat_minus_one)
  then show "unat (ucast (SIZE_TO_BLOCK sz - 1) :: u32) = blocks_of sz - 1"
    using ucast_small [of "SIZE_TO_BLOCK sz - 1"] le by simp
qed

lemma free_direct_range:
  assumes inv: "nc_inv ext W s" "ext p \<noteq> 0" "node_view s p = Some b" "p \<in> W" "meta_inv (fs_meta s)"
    and blk: "unat start_blk \<le> unat end_blk" "unat end_blk < 932"
    and ok: "sit_ready (unat end_blk - unat start_blk + 1) (fs_meta s)" "pointers_ok (fs_meta s) 83 [unat start_blk..<Suc (unat end_blk)] b"
  shows "\<exists>s'. free_blocks_in_range p start_blk end_blk s = (Inr (), s') \<and> nc_inv ext W s' \<and>
    pointers_freed p 83 [unat start_blk..<Suc (unat end_blk)] b s s'"
proof -
  have se: "start_blk \<le> end_blk" "end_blk < 932" using blk by (simp_all add: word_le_nat_alt word_less_nat_alt)
  have "intersect 0 (932 - 1) start_blk end_blk = Some (start_blk, end_blk)"
  proof -
    have "end_blk \<le> 931" "start_blk \<le> 931" using blk by (simp_all add: word_le_nat_alt)
    then show ?thesis using se by (auto simp: intersect_def max_def min_absorb2)
  qed
  then have d: "proc_direct_pointers_in_inode start_blk end_blk p = free_pointers p 83 [unat start_blk..<Suc (unat end_blk)]"
    by (simp add: proc_direct_pointers_in_inode_def)
  have n: "proc_inode_nids (proc_single_node start_blk end_blk) 1020 start_blk end_blk p [0, 1] 932 = ret None"
    using blk by (simp add: Let_def word_less_nat_alt)
  have "free_blocks_in_range p start_blk end_blk = bnd (free_pointers p 83 [unat start_blk..<Suc (unat end_blk)]) (\<lambda>_. ret ())"
    unfolding free_blocks_in_range_def d n by (simp add: fun_eq_iff prog_simps)
  moreover have "sit_ready (length [unat start_blk..<Suc (unat end_blk)]) (fs_meta s)" using ok(1) blk(1) by (simp add: Suc_diff_le)
  then obtain s' where "free_pointers p 83 [unat start_blk..<Suc (unat end_blk)] s = (Inr (), s')" "nc_inv ext W s'"
      "pointers_freed p 83 [unat start_blk..<Suc (unat end_blk)] b s s'"
    using free_pointers_ok [OF inv _ ok(2)] by blast
  ultimately show ?thesis by (intro exI [of _ s']) (simp add: bnd_def ret_def)
qed

lemma set_wd64_simps:
  assumes "node_ok b"
  shows "node_ok (set_wd64 6 v b)" "f_nid (set_wd64 6 v b) = f_nid b" "f_ino (set_wd64 6 v b) = f_ino b"
    "f_offset (set_wd64 6 v b) = f_offset b" "i_size (set_wd64 6 v b) = v"
    "k \<noteq> 6 \<Longrightarrow> k \<noteq> 7 \<Longrightarrow> wd k (set_wd64 6 v b) = wd k b"
  using assms wd64_set_wd64 [of b 6 v] by (simp_all add: set_wd64_def i_size_def)

lemma pointers_ok_cong:
  assumes "pointers_ok m base is b" "node_ok b'" "\<forall>i \<in> set is. wd (base + i) b' = wd (base + i) b"
  shows "pointers_ok m base is b'" "freed_lpas base is b' = freed_lpas base is b"
proof -
  show "pointers_ok m base is b'" using assms unfolding pointers_ok_def by simp
  show "freed_lpas base is b' = freed_lpas base is b" using assms(3) unfolding freed_lpas_def by (metis (no_types, lifting))
qed

lemma lpa_valid_nil: "meta_step m [] [] [] m' \<Longrightarrow> lpa_valid m' = lpa_valid m"
  by (rule meta_step_lpa_valid)

lemma sit_ready_nil: "meta_step m [] [] [] m' \<Longrightarrow> sit_ready n m' = sit_ready n m"
  using meta_step_lpa_valid(3,5) [of m "[]" "[]" m'] by (simp add: sit_ready_def)

lemma reduce_direct_ok:
  assumes inv: "nc_inv ext W s" and room: "nc_room ext 5 s" and meta: "meta_ready s"
    and ino: "ino \<noteq> INVALID_NID" "node_view s ino = Some b" "ino \<notin> dom (nc_ix s) \<longrightarrow> nid_in_range (fs_meta s) ino" "ino \<notin> W"
    and b: "node_ok b" "f_nid b = ino" "f_ino b = ino" "f_offset b = 0"
    and sz: "unat tar_size < unat (i_size b)" "unat (i_size b) \<le> 932 * 4096"
    and ok: "sit_ready 932 (fs_meta s)" "pointers_ok (fs_meta s) 83 [blocks_of tar_size..<blocks_of (i_size b)] b"
  shows "\<exists>s' b' dt. reduce ino tar_size s = (Inr (), s') \<and> nc_inv ext W s' \<and>
    meta_step (fs_meta s) [] [] dt (fs_meta s') \<and> dirty_nids s' = insert ino (dirty_nids s) \<and>
    node_view s' = (node_view s)(ino \<mapsto> b') \<and> node_ok b' \<and> i_size b' = tar_size \<and>
    (\<forall>k < 932. i_addr k b' = (if blocks_of tar_size \<le> k \<and> k < blocks_of (i_size b) then INVALID_LPA else i_addr k b)) \<and>
    (\<forall>l. lpa_valid (fs_meta s') l \<longleftrightarrow> lpa_valid (fs_meta s) l \<and> l \<notin> freed_lpas 83 [blocks_of tar_size..<blocks_of (i_size b)] b)"
proof -
  let ?ext = "ext(ino := Suc (ext ino))" and ?b1 = "set_wd64 6 tar_size b"
  let ?start = "ucast (SIZE_TO_BLOCK tar_size) :: u32" and ?stop = "ucast (SIZE_TO_BLOCK (i_size b) - 1) :: u32"
  let ?is = "[blocks_of tar_size..<blocks_of (i_size b)]"
  have tz: "unat tar_size \<le> 932 * 4096" using sz by linarith
  note B = blocks_of_word [OF sz(2)] and T = blocks_of_word [OF tz]
  have pos: "0 < unat (i_size b)" using sz by linarith
  have mono: "blocks_of tar_size \<le> blocks_of (i_size b)" using sz(1) unfolding blocks_of_def by (simp add: div_le_mono)
  have "nc_room ext 3 s" using room by (rule nc_room_mono) simp
  then obtain s1 where s1: "get_node_entry ino INVALID_NID s = (Inr ino, s1)" "nc_inv ?ext W s1" "sys_frame s s1"
      "dom (nc_ix s1) \<subseteq> insert ino (dom (nc_ix s))"
    using get_node_entry_ok [OF inv _ meta ino(1-3) b(2), of INVALID_NID] b(3) by auto
  have m1: "meta_step (fs_meta s) [] [] [] (fs_meta s1)" "meta_inv (fs_meta s1)" and v1: "node_view s1 = node_view s"
    using s1(3) meta_stepD(1) by (auto simp: sys_frame_def)
  obtain e where e: "nc_ix s1 ino = Some e" "nb_node e = b"
    using nc_held [OF s1(2), of ino] v1 ino(2) by (metis fun_upd_same nat.simps(3) option.inject)
  obtain s2 where s2: "nc_set_node ino (set_wd64 6 tar_size) s1 = (Inr (), s2)" "nc_inv ?ext (insert ino W) s2"
      "fs_meta s2 = fs_meta s1" "node_dev s2 = node_dev s1" "nc_dirty s2 = nc_dirty s1"
      "node_view s2 = (node_view s1)(ino \<mapsto> ?b1)" "dom (nc_ix s2) = dom (nc_ix s1)"
    using nc_set_node_ok [OF s1(2), of ino b "set_wd64 6 tar_size"] v1 ino(2) by auto
  have "card (dom (nc_ix s1)) \<le> card (insert ino (dom (nc_ix s)))"
    using s1(4) nc_invD(3) [OF inv] by (intro card_mono) auto
  then have card: "card (dom (nc_ix s2)) \<le> card (dom (nc_ix s)) + 1"
    using nc_invD(3) [OF inv] s2(7) by (simp add: card_insert_if split: if_splits)
  have "nc_room ?ext 3 s2" using room by (rule nc_room_mono) (use card in auto)
  then obtain s3 where s3: "nc_mark_dirty ino s2 = (Inr (), s3)" "nc_inv ?ext (insert ino W - {ino}) s3" "fs_meta s3 = fs_meta s2"
      "node_dev s3 = node_dev s2" "dirty_nids s3 = insert ino (dirty_nids s2)" "node_view s3 = node_view s2"
    using nc_mark_dirty_ok [OF s2(2), of ino] by auto
  have inv3: "nc_inv ?ext W s3" using s3(2) ino(4) by simp
  note b1 = set_wd64_simps [OF b(1), where v = tar_size]
  have v3: "node_view s3 = (node_view s)(ino \<mapsto> ?b1)" using s3(6) s2(6) v1 by simp
  have dn3: "dirty_nids s3 = insert ino (dirty_nids s)" using s3(5) s2(5) s1(3) by (simp add: dirty_nids_def sys_frame_def)
  have fm3: "fs_meta s3 = fs_meta s1" using s3(3) s2(3) by simp
  have same: "\<forall>i \<in> set ?is. wd (83 + i) ?b1 = wd (83 + i) b" using b1(6) by simp
  have lv: "lpa_valid (fs_meta s1) = lpa_valid (fs_meta s)" by (rule lpa_valid_nil [OF m1(1)])
  have ok1: "sit_ready 932 (fs_meta s3)" "pointers_ok (fs_meta s3) 83 ?is ?b1" "freed_lpas 83 ?is ?b1 = freed_lpas 83 ?is b"
    using ok sit_ready_nil [OF m1(1)] pointers_ok_cong [OF ok(2) b1(1) same] lv
    unfolding fm3 pointers_ok_def by simp_all
  obtain s4 where s4: "(if ?start > ?stop then assert_that (?start = ?stop + 1) else free_blocks_in_range ino ?start ?stop) s3 = (Inr (), s4)"
    "nc_inv ?ext (insert ino W) s4" "pointers_freed ino 83 ?is ?b1 s3 s4"
  proof (cases "?start > ?stop")
    case True
    then have "blocks_of tar_size > blocks_of (i_size b) - 1" using B(3) [OF pos] T(1) by (simp add: word_less_nat_alt)
    then have eq: "blocks_of tar_size = blocks_of (i_size b)" using mono B(4) [OF pos] by linarith
    have "unat (?stop + 1) = Suc (unat ?stop)"
      by (rule unat_u32_inc) (use B(2) B(3) [OF pos] in \<open>auto simp: unat_u32_max\<close>)
    then have st: "?start = ?stop + 1" using B(3,4) [OF pos] T(1) eq by (simp add: word_unat_eq_iff)
    have "pointers_freed ino 83 ?is ?b1 s3 s3" using eq pointers_freed_nil [of s3 ino ?b1 83] v3 b1(1) m1(2) fm3 by simp
    then show ?thesis
      using that [of s3] True st nc_inv_writing [OF inv3, of ino] by (simp add: assert_that_def ret_def)
  next
    case False
    then have le: "unat ?start \<le> unat ?stop" by (simp add: word_less_nat_alt)
    have lt: "unat ?stop < 932" using B(2) B(3,4) [OF pos] by simp
    have upt: "[unat ?start..<Suc (unat ?stop)] = ?is" using T(1) B(3,4) [OF pos] by simp
    have sr: "sit_ready (unat ?stop - unat ?start + 1) (fs_meta s3)" using ok1(1) by (rule sit_ready_mono) (use lt in simp)
    have "\<exists>s'. free_blocks_in_range ino ?start ?stop s3 = (Inr (), s') \<and> nc_inv ?ext (insert ino W) s' \<and>
      pointers_freed ino 83 [unat ?start..<Suc (unat ?stop)] ?b1 s3 s'"
      by (rule free_direct_range [OF nc_inv_writing [OF inv3] _ _ _ _ le lt sr])
         (use v3 ok1(2) upt fm3 m1(2) in simp_all)
    then show ?thesis using that False upt by auto
  qed
  then obtain b4 dt where b4: "meta_step (fs_meta s3) [] [] dt (fs_meta s4)" "node_view s4 = (node_view s3)(ino \<mapsto> b4)" "node_ok b4"
    "\<forall>k < 1020. wd k b4 = (if k \<in> (+) 83 ` set ?is then INVALID_LPA else wd k ?b1)" "dirty_nids s4 = dirty_nids s3"
    "\<forall>l. lpa_valid (fs_meta s4) l \<longleftrightarrow> lpa_valid (fs_meta s3) l \<and> l \<notin> freed_lpas 83 ?is ?b1"
    unfolding pointers_freed_def by blast
  have inv4: "nc_inv ?ext W s4" using nc_inv_dirty [OF s4(2), of ino] b4(5) dn3 ino(4) by simp
  obtain s5 where s5: "nc_handle_dtor (Some ino) s4 = (Inr (), s5)" "nc_inv (?ext(ino := ?ext ino - 1)) W s5" "nc_frame s4 s5"
    using nc_handle_dtor_ok [OF inv4, of ino] ino(4) by auto
  have ext5: "?ext(ino := ?ext ino - 1) = ext" by auto
  have run: "reduce ino tar_size s = (Inr (), s5)"
  proof -
    have c: "\<not> i_size b \<le> tar_size" using sz(1) by (simp add: word_le_nat_alt)
    show ?thesis
      using s1(1) e b c s2(1) s3(1) s4(1) s5(1)
      by (cases "?start > ?stop") (simp_all add: reduce_def nc_entry_def prog_simps Let_def)
  qed
  have f5: "fs_meta s5 = fs_meta s4" "node_view s5 = node_view s4" "dirty_nids s5 = dirty_nids s4"
    using s5(3) by (simp_all add: nc_frame_def dirty_nids_def)
  have ms: "meta_step (fs_meta s) [] [] dt (fs_meta s5)"
    using meta_step_trans [OF m1(1) b4(1) [unfolded fm3]] f5(1) by simp
  have sizeb: "i_size b4 = tar_size"
    using b4(4) b1(5) by (auto simp: i_size_def wd64_def)
  have ad: "\<forall>k < 932. i_addr k b4 = (if blocks_of tar_size \<le> k \<and> k < blocks_of (i_size b) then INVALID_LPA else i_addr k b)"
    using b4(4) b1(6) by (auto simp: i_addr_def)
  have lvs: "\<forall>l. lpa_valid (fs_meta s5) l \<longleftrightarrow> lpa_valid (fs_meta s) l \<and> l \<notin> freed_lpas 83 ?is b"
    using b4(6) ok1(3) f5(1) fm3 lv by simp
  show ?thesis
    by (rule exI [of _ s5], rule exI [of _ b4], rule exI [of _ dt])
       (use run s5(2) ext5 ms f5 b4(2,3,5) v3 dn3 sizeb ad lvs in simp)
qed

section \<open>Ranges behind the first direct node\<close>

lemma proc_children_skip:
  assumes "child_start + blks - 1 < start_blk"
  shows "proc_children proc blks start_blk end_blk h is child_start = ret ()"
  using assms by (induction "is") (simp_all add: Let_def)

lemma bnd_ret [simp]: "bnd (ret x) f = f x"
  by (simp add: bnd_def ret_def)

text \<open>
  For a range that starts behind the first direct node and ends before block 1041332 the
  function visits the first double node of the inode, skips all its children and stops.
\<close>

lemma free_blocks_skips:
  assumes "1951 < start_blk" "start_blk \<le> end_blk" "end_blk < 1041332"
  shows "free_blocks_in_range ino start_blk end_blk =
    bnd (nc_entry ino) (\<lambda>e. proc_child False (\<lambda>h. ret False) ino 1017 (i_nid 2 (nb_node e)) (f_ino (nb_node e)))"
proof -
  have n: "1951 < unat start_blk" "unat start_blk \<le> unat end_blk" "unat end_blk < 1041332"
    using assms by (simp_all add: word_less_nat_alt word_le_nat_alt)
  have d: "proc_direct_pointers_in_inode start_blk end_blk ino = ret ()"
    using n by (simp add: proc_direct_pointers_in_inode_def intersect_def word_less_nat_alt)
  have one: "proc_inode_nids (proc_single_node start_blk end_blk) 1020 start_blk end_blk ino [0, 1] 932 = ret (Some 932)"
    using n by (simp add: Let_def word_less_nat_alt)
  have dbl: "proc_double_node start_blk end_blk h 932 = ret False" for h
    using n by (simp add: proc_double_node_def proc_children_skip word_less_nat_alt word_le_nat_alt)
  have two: "proc_inode_nids (proc_double_node start_blk end_blk) 1040400 start_blk end_blk ino [2, 3] 932 =
    bnd (nc_entry ino) (\<lambda>e. bnd (proc_child False (\<lambda>h. ret False) ino 1017 (i_nid 2 (nb_node e)) (f_ino (nb_node e))) (\<lambda>_. ret None))"
    using n by (simp add: Let_def word_less_nat_alt dbl)
  show ?thesis
    unfolding free_blocks_in_range_def d one bnd_ret option.case two bnd_assoc
    by (simp add: bnd_def ret_def fun_eq_iff split: prod.splits sum.splits)
qed

section \<open>Concrete states\<close>

text \<open>
  A file of four blocks on a device whose blocks are all valid, and a file with a double
  node.
\<close>

definition shrink_inode :: hscfs_node where
  "shrink_inode = set_wd64 6 16384 sample_inode"

definition shrink_sys :: fsys where
  "shrink_sys = sample_sys\<lparr>fs_meta := full_meta, node_dev := [11 \<mapsto> shrink_inode]\<rparr>"

definition large_inode :: hscfs_node where
  "large_inode = set_wd 1017 20 sample_inode"

definition large_sys :: fsys where
  "large_sys = sample_sys\<lparr>node_dev := [11 \<mapsto> large_inode, 21 \<mapsto> sample_direct]\<rparr>"

section \<open>Properties\<close>

text \<open>
  C39. Shrinking a file whose blocks are all addressed by its inode: \<^verbatim>\<open>reduce\<close> sets the size,
  clears exactly the pointers of the blocks that lie beyond the new size, makes exactly the
  blocks they addressed invalid, and leaves the inode dirty; every other node, every other
  pointer and the validity of every other block stay as they were, and the change of the SIT
  is journalled.
\<close>

theorem reduce_frees_exactly:
  assumes "nc_inv ext W s" "nc_room ext 5 s" "meta_ready s"
    "ino \<noteq> INVALID_NID" "node_view s ino = Some b" "ino \<notin> dom (nc_ix s) \<longrightarrow> nid_in_range (fs_meta s) ino" "ino \<notin> W"
    "node_ok b" "f_nid b = ino" "f_ino b = ino" "f_offset b = 0"
    "unat tar_size < unat (i_size b)" "unat (i_size b) \<le> 932 * 4096"
    "sit_ready 932 (fs_meta s)" "pointers_ok (fs_meta s) 83 [blocks_of tar_size..<blocks_of (i_size b)] b"
  shows "\<exists>s' b' dt. reduce ino tar_size s = (Inr (), s') \<and> nc_inv ext W s' \<and>
    meta_step (fs_meta s) [] [] dt (fs_meta s') \<and> dirty_nids s' = insert ino (dirty_nids s) \<and>
    node_view s' = (node_view s)(ino \<mapsto> b') \<and> node_ok b' \<and> i_size b' = tar_size \<and>
    (\<forall>k < 932. i_addr k b' = (if blocks_of tar_size \<le> k \<and> k < blocks_of (i_size b) then INVALID_LPA else i_addr k b)) \<and>
    (\<forall>l. lpa_valid (fs_meta s') l \<longleftrightarrow> lpa_valid (fs_meta s) l \<and> l \<notin> freed_lpas 83 [blocks_of tar_size..<blocks_of (i_size b)] b)"
  using assms by (rule reduce_direct_ok)

theorem reduce_frees_exactly_witness:
  "\<exists>s'. reduce 10 8192 shrink_sys = (Inr (), s') \<and> lpa_valid (fs_meta shrink_sys) 777 \<and>
     \<not> lpa_valid (fs_meta s') 777 \<and> lpa_valid (fs_meta s') 778"
proof -
  have n: "node_ok shrink_inode" "f_nid shrink_inode = 10" "f_ino shrink_inode = 10" "f_offset shrink_inode = 0"
      "i_size shrink_inode = 16384"
    by (simp_all add: shrink_inode_def set_wd64_simps)
  have w: "wd 85 shrink_inode = 0" "wd 86 shrink_inode = 777"
    by (simp_all add: shrink_inode_def set_wd64_simps sample_inode_def)
  have r: "[blocks_of 8192..<blocks_of (i_size shrink_inode)] = [2, 3]" by (simp add: n blocks_of_def upt_rec)
  have p: "pointers_ok (fs_meta shrink_sys) 83 [blocks_of 8192..<blocks_of (i_size shrink_inode)] shrink_inode"
    unfolding r pointers_ok_def using full_meta_facts(8) by (simp add: w n shrink_sys_def)
  have f: "freed_lpas 83 [blocks_of 8192..<blocks_of (i_size shrink_inode)] shrink_inode = {777}"
    unfolding r freed_lpas_def using w by (auto intro: exI [of _ 3])
  have sit: "sit_ready 932 (fs_meta shrink_sys)"
    using full_meta_facts(6,7) by (simp add: sit_ready_def shrink_sys_def) (simp add: full_meta_def sample_meta_def)
  have v: "node_view shrink_sys 10 = Some shrink_inode"
  proof -
    have "nat_at full_meta 10 = nat_at sample_meta 10" by (simp add: nat_at_tbl full_meta_def)
    then show ?thesis by (simp add: node_view_def node_ondisk_def shrink_sys_def sample_sys_def)
  qed
  have "\<exists>s' b' dt. reduce 10 8192 shrink_sys = (Inr (), s') \<and> nc_inv (\<lambda>_. 0) {} s' \<and>
    meta_step (fs_meta shrink_sys) [] [] dt (fs_meta s') \<and> dirty_nids s' = insert 10 (dirty_nids shrink_sys) \<and>
    node_view s' = (node_view shrink_sys)(10 \<mapsto> b') \<and> node_ok b' \<and> i_size b' = 8192 \<and>
    (\<forall>k < 932. i_addr k b' = (if blocks_of 8192 \<le> k \<and> k < blocks_of (i_size shrink_inode) then INVALID_LPA else i_addr k shrink_inode)) \<and>
    (\<forall>l. lpa_valid (fs_meta s') l \<longleftrightarrow> lpa_valid (fs_meta shrink_sys) l \<and>
       l \<notin> freed_lpas 83 [blocks_of 8192..<blocks_of (i_size shrink_inode)] shrink_inode)"
    by (rule reduce_frees_exactly [OF _ _ _ _ v _ _ n(1-4) _ _ sit p])
       (use full_meta_facts in \<open>simp_all add: n nc_inv_def nc_room_def meta_ready_def shrink_sys_def sample_sys_def
          dirty_nids_def nid_in_range_def\<close>)
  then show ?thesis using full_meta_facts(8) unfolding f by (auto simp: shrink_sys_def)
qed

text \<open>
  Shrinking a large file frees nothing. When the range to free starts behind the blocks of
  the first direct node (block 1951) and ends before block 1041332, the loops over the
  pointers of the inode never advance their start; \<^verbatim>\<open>free_blocks_in_range\<close> then succeeds without
  invalidating any block or clearing any pointer, and only marks the first double node dirty.
\<close>

theorem shrink_leaves_blocks_allocated:
  assumes "nc_inv ext W s" "nc_room ext 8 s" "meta_ready s" "1951 < start_blk" "start_blk \<le> end_blk" "end_blk < 1041332"
    "ext ino \<noteq> 0" "node_view s ino = Some b" "f_ino b = ino" "ino \<noteq> INVALID_NID"
    "i_nid 2 b = d" "d \<noteq> INVALID_NID" "node_view s d = Some db" "f_nid db = d" "d \<notin> W" "nid_in_range (fs_meta s) d"
  shows "\<exists>s'. free_blocks_in_range ino start_blk end_blk s = (Inr (), s') \<and> nc_inv ext W s' \<and>
    meta_step (fs_meta s) [] [] [] (fs_meta s') \<and> node_view s' = node_view s \<and> lpa_valid (fs_meta s') = lpa_valid (fs_meta s) \<and>
    dirty_nids s' = insert d (dirty_nids s)"
proof -
  let ?ext = "ext(d := Suc (ext d))"
  obtain e where e: "nc_ix s ino = Some e" "nb_node e = b"
    using nc_held [OF assms(1,7)] assms(8) by (metis option.inject)
  have "nc_room ext 3 s" using assms(2) by (rule nc_room_mono) simp
  then obtain s1 where s1: "get_node_entry d ino s = (Inr d, s1)" "nc_inv ?ext W s1" "sys_frame s s1"
      "dom (nc_ix s1) \<subseteq> insert d (dom (nc_ix s))"
    using get_node_entry_ok [OF assms(1) _ assms(3,12,13), of ino] assms(10,14,16) e(1) by auto
  have "card (dom (nc_ix s1)) \<le> card (insert d (dom (nc_ix s)))"
    using s1(4) nc_invD(3) [OF assms(1)] by (intro card_mono) auto
  then have card: "card (dom (nc_ix s1)) \<le> card (dom (nc_ix s)) + 1"
    using nc_invD(3) [OF assms(1)] by (simp add: card_insert_if split: if_splits)
  have "nc_room ?ext 3 s1" using assms(2) by (rule nc_room_mono) (use card in auto)
  then obtain s2 where s2: "nc_mark_dirty d s1 = (Inr (), s2)" "nc_inv ?ext (W - {d}) s2" "fs_meta s2 = fs_meta s1"
      "dirty_nids s2 = insert d (dirty_nids s1)" "node_view s2 = node_view s1"
    using nc_mark_dirty_ok [OF s1(2), of d] by auto
  obtain s3 where s3: "nc_handle_dtor (Some d) s2 = (Inr (), s3)" "nc_inv (?ext(d := ?ext d - 1)) (W - {d}) s3" "nc_frame s2 s3"
    using nc_handle_dtor_ok [OF s2(2), of d] by auto
  have x: "?ext(d := ?ext d - 1) = ext" "W - {d} = W" using assms(15) by auto
  have m: "meta_step (fs_meta s) [] [] [] (fs_meta s3)" "node_view s3 = node_view s" "dirty_nids s3 = insert d (dirty_nids s)"
    using s1(3) s2 s3(3) by (simp_all add: sys_frame_def nc_frame_def dirty_nids_def)
  have "free_blocks_in_range ino start_blk end_blk s = (Inr (), s3)"
    unfolding free_blocks_skips [OF assms(4-6)]
    using e s1(1) s2(1) s3(1) assms(9,11) by (simp add: nc_entry_def proc_child_def prog_simps)
  with m s3(2) x lpa_valid_nil [OF m(1)] show ?thesis by auto
qed

theorem shrink_leaves_blocks_allocated_witness:
  "\<exists>s s'. node_view s 10 = Some large_inode \<and> free_blocks_in_range 10 2000 3000 s = (Inr (), s') \<and>
     node_view s' = node_view s \<and> lpa_valid (fs_meta s') = lpa_valid (fs_meta s)"
proof -
  have n: "f_ino large_inode = 10" "i_nid 2 large_inode = 20"
    by (simp_all add: large_inode_def i_nid_def)
  have d: "node_ondisk large_sys 10 = Some large_inode" "node_ondisk large_sys 20 = Some sample_direct"
    by (simp_all add: node_ondisk_def large_sys_def sample_sys_def)
  have s0: "nc_inv (\<lambda>_. 0) {} large_sys" "nc_room (\<lambda>_. 0) 3 large_sys"
    by (simp_all add: nc_inv_def nc_room_def large_sys_def sample_sys_def dirty_nids_def)
  obtain s where s: "nc_inv ((\<lambda>_. 0)(10 := 1)) {} s" "fs_meta s = sample_meta"
      "node_view s = (node_view large_sys)(10 \<mapsto> large_inode)" "dom (nc_ix s) \<subseteq> {10}"
    using nc_add_ok [OF s0, of 10 0 "{}" large_inode 11] d(1) by (auto simp: large_sys_def sample_sys_def)
  have "card (dom (nc_ix s)) \<le> card {10 :: u32}" using s(4) by (intro card_mono) auto
  then have room: "nc_room ((\<lambda>_. 0)(10 := 1)) 8 s" by (auto simp: nc_room_def)
  have v: "node_view s 10 = Some large_inode" "node_view s 20 = Some sample_direct"
    using d(2) by (simp_all add: s(3) node_view_def large_sys_def sample_sys_def)
  have "\<exists>s'. free_blocks_in_range 10 2000 3000 s = (Inr (), s') \<and> nc_inv ((\<lambda>_. 0)(10 := 1)) {} s' \<and>
    meta_step (fs_meta s) [] [] [] (fs_meta s') \<and> node_view s' = node_view s \<and> lpa_valid (fs_meta s') = lpa_valid (fs_meta s) \<and>
    dirty_nids s' = insert 20 (dirty_nids s)"
    by (rule shrink_leaves_blocks_allocated [OF s(1) room _ _ _ _ _ v(1) n(1) _ n(2) _ v(2)])
       (simp_all add: meta_ready_def s(2) nid_in_range_def sample_super_def)
  with v(1) show ?thesis by blast
qed

end
