(* ===== verification/Page_Cache.thy ===== *)
theory Page_Cache
  imports Cache_Manager
begin

text \<open>
  The cache of the pages of one file, \<^verbatim>\<open>inc/cache/page_cache.hh\<close> and \<^verbatim>\<open>src/cache/page_cache.cc\<close>. A
  page is pinned for as long as it has a reference; the set of dirty pages holds one on each
  of its pages, so that a dirty page is never replaced. A page that is replaced gives its
  object, with the buffer, to the page that is read next.
\<close>

section \<open>State\<close>

datatype page_state = Page_invalid | Page_ready

record page_entry =
  pg_blkoff :: u32
  pg_lpa :: u32
  pg_state :: page_state
  pg_data :: "u8 list"
  pg_ref_count :: u32
  pg_dirty :: bool

text \<open>
  \<^verbatim>\<open>dirty_pages\<close> is ordered by the block offset; its handles point to the pages of these
  offsets. \<^verbatim>\<open>cur_size\<close> is a \<^verbatim>\<open>size_t\<close> and wraps around.
\<close>

record page_cache =
  pc_mgr :: "(u32, page_entry) cache_manager"
  pc_dirty :: "u32 list"
  pc_expect :: u64
  pc_cur :: u64

definition page_entry_init :: "u32 \<Rightarrow> page_entry" where
  "page_entry_init blkoff = \<lparr>pg_blkoff = blkoff, pg_lpa = 0, pg_state = Page_invalid,
     pg_data = replicate 4096 0, pg_ref_count = 0, pg_dirty = False\<rparr>"

definition page_cache_init :: "u64 \<Rightarrow> page_cache" where
  "page_cache_init expect_size = \<lparr>pc_mgr = cm_empty, pc_dirty = [], pc_expect = expect_size, pc_cur = 0\<rparr>"

text \<open>Access to a page through a pointer, and calls of the cache manager.\<close>

definition pc_page :: "u32 \<Rightarrow> (page_cache, page_entry) prog" where
  "pc_page p = (\<lambda>c. case cm_index (pc_mgr c) p of None \<Rightarrow> (Inl Undefined, c) | Some e \<Rightarrow> (Inr e, c))"

definition pc_write :: "u32 \<Rightarrow> (page_entry \<Rightarrow> page_entry) \<Rightarrow> (page_cache, unit) prog" where
  "pc_write p f = modify (\<lambda>c. c\<lparr>pc_mgr := cm_update p f (pc_mgr c)\<rparr>)"

definition pc_on_mgr ::
    "((u32, page_entry) cache_manager \<Rightarrow> fault + (u32, page_entry) cache_manager) \<Rightarrow> (page_cache, unit) prog" where
  "pc_on_mgr f = (\<lambda>c. case f (pc_mgr c) of Inl e \<Rightarrow> (Inl e, c) | Inr m \<Rightarrow> (Inr (), c\<lparr>pc_mgr := m\<rparr>))"

section \<open>Operations\<close>

definition pc_add_refcount :: "u32 \<Rightarrow> (page_cache, unit) prog" where
  "pc_add_refcount p =
     bnd (pc_page p) (\<lambda>e.
     bnd (pc_write p (\<lambda>e. e\<lparr>pg_ref_count := pg_ref_count e + 1\<rparr>)) (\<lambda>_.
     if pg_ref_count e = 0 then
       bnd (assert_that (\<not> pg_dirty e)) (\<lambda>_. pc_on_mgr (cm_pin (pg_blkoff e)))
     else ret ()))"

text \<open>
  Releasing a reference has two parts, between which other threads may run: the atomic decrement,
  whose result is the count before it, and, for the thread that took the count from one to zero,
  a second look at the page under the lock of the cache.
\<close>

definition pc_sub_dec :: "u32 \<Rightarrow> (page_cache, u32) prog" where
  "pc_sub_dec p =
     bnd (pc_page p) (\<lambda>e.
     bnd (pc_write p (\<lambda>e. e\<lparr>pg_ref_count := pg_ref_count e - 1\<rparr>)) (\<lambda>_.
     ret (pg_ref_count e)))"

definition pc_sub_unpin :: "u32 \<Rightarrow> (page_cache, unit) prog" where
  "pc_sub_unpin p =
     bnd (pc_page p) (\<lambda>e.
     if pg_ref_count e = 0 then
       bnd (assert_that (\<not> pg_dirty e)) (\<lambda>_. pc_on_mgr (cm_unpin (pg_blkoff e)))
     else ret ())"

definition pc_sub_refcount :: "u32 \<Rightarrow> (page_cache, unit) prog" where
  "pc_sub_refcount p = bnd (pc_sub_dec p) (\<lambda>origin. if origin = 1 then pc_sub_unpin p else ret ())"

definition pc_handle_dtor :: "u32 option \<Rightarrow> (page_cache, unit) prog" where
  "pc_handle_dtor h = (case h of None \<Rightarrow> ret () | Some p \<Rightarrow> catch_all (pc_sub_refcount p))"

definition pc_handle_copy :: "u32 option \<Rightarrow> (page_cache, u32 option) prog" where
  "pc_handle_copy h = bnd (case h of None \<Rightarrow> ret () | Some p \<Rightarrow> pc_add_refcount p) (\<lambda>_. ret h)"

definition pc_handle_assign :: "u32 option \<Rightarrow> u32 option \<Rightarrow> (page_cache, u32 option) prog" where
  "pc_handle_assign dst src =
     bnd (case dst of None \<Rightarrow> ret () | Some p \<Rightarrow> pc_sub_refcount p) (\<lambda>_. pc_handle_copy src)"

text \<open>Move assignment between distinct handles; the source is null afterwards.\<close>

definition pc_handle_move_assign :: "u32 option \<Rightarrow> u32 option \<Rightarrow> (page_cache, u32 option) prog" where
  "pc_handle_move_assign dst src =
     bnd (case dst of None \<Rightarrow> ret () | Some p \<Rightarrow> pc_sub_refcount p) (\<lambda>_. ret src)"

definition page_replaceable :: "page_entry \<Rightarrow> bool" where
  "page_replaceable e \<longleftrightarrow> pg_ref_count e = 0 \<and> \<not> pg_dirty e"

definition pc_do_replace :: "(page_cache, unit) prog" where
  "pc_do_replace = (\<lambda>c.
     if pc_cur c > pc_expect c then
       (case cm_evict page_replaceable (unat (pc_expect c)) (unat (pc_cur c)) (pc_mgr c) of
          Inl f \<Rightarrow> (Inl f, c)
        | Inr (n, m) \<Rightarrow> (Inr (), c\<lparr>pc_mgr := m, pc_cur := word_of_nat n\<rparr>))
     else (Inr (), c))"

definition pc_new_page :: "u32 \<Rightarrow> (page_cache, unit) prog" where
  "pc_new_page blkoff =
     bnd (pc_on_mgr (cm_add blkoff (page_entry_init blkoff))) (\<lambda>_.
     bnd (pc_add_refcount blkoff) (\<lambda>_.
     modify (\<lambda>c. c\<lparr>pc_cur := pc_cur c + 1\<rparr>)))"

definition pc_reuse_page :: "page_entry \<Rightarrow> u32 \<Rightarrow> (page_cache, unit) prog" where
  "pc_reuse_page victim blkoff =
     bnd (assert_that (page_replaceable victim)) (\<lambda>_.
     bnd (pc_on_mgr (cm_add blkoff (victim\<lparr>pg_blkoff := blkoff, pg_state := Page_invalid\<rparr>))) (\<lambda>_.
     bnd (pc_add_refcount blkoff) (\<lambda>_.
     pc_do_replace)))"

text \<open>The result is the pointer in the handle.\<close>

definition pc_get :: "u32 \<Rightarrow> (page_cache, u32) prog" where
  "pc_get blkoff = (\<lambda>c.
     case cm_get blkoff True (pc_mgr c) of
       Inl f \<Rightarrow> (Inl f, c)
     | Inr (Some _, m) \<Rightarrow> bnd (pc_add_refcount blkoff) (\<lambda>_. ret blkoff) (c\<lparr>pc_mgr := m\<rparr>)
     | Inr (None, m) \<Rightarrow>
         if pc_cur c \<ge> pc_expect c then
           (case cm_replace_one m of
              Inl f \<Rightarrow> (Inl f, c)
            | Inr (Some victim, m') \<Rightarrow>
                bnd (pc_reuse_page victim blkoff) (\<lambda>_. ret blkoff) (c\<lparr>pc_mgr := m'\<rparr>)
            | Inr (None, m') \<Rightarrow> bnd (pc_new_page blkoff) (\<lambda>_. ret blkoff) (c\<lparr>pc_mgr := m'\<rparr>))
         else bnd (pc_new_page blkoff) (\<lambda>_. ret blkoff) (c\<lparr>pc_mgr := m\<rparr>))"

text \<open>
  \<^verbatim>\<open>emplace\<close> copies the handle before it looks for the key; when the key is there the copy
  is destroyed.
\<close>

definition add_to_dirty_pages :: "u32 \<Rightarrow> (page_cache, unit) prog" where
  "add_to_dirty_pages p =
     bnd (pc_page p) (\<lambda>e.
     bnd (assert_that (pg_ref_count e \<ge> 1)) (\<lambda>_.
     bnd (pc_add_refcount p) (\<lambda>_.
     bnd (reads pc_dirty) (\<lambda>d.
     if pg_blkoff e \<in> set d then pc_handle_dtor (Some p)
     else modify (\<lambda>c. c\<lparr>pc_dirty := insort (pg_blkoff e) (pc_dirty c)\<rparr>)))))"

definition pc_mark_dirty :: "u32 \<Rightarrow> (page_cache, unit) prog" where
  "pc_mark_dirty p =
     bnd (pc_page p) (\<lambda>e.
     if \<not> pg_dirty e then
       bnd (pc_write p (\<lambda>e. e\<lparr>pg_dirty := True\<rparr>)) (\<lambda>_. add_to_dirty_pages p)
     else ret ())"

fun pc_release_all :: "u32 list \<Rightarrow> (page_cache, unit) prog" where
  "pc_release_all [] = ret ()"
| "pc_release_all (p # ps) = bnd (pc_handle_dtor (Some p)) (\<lambda>_. pc_release_all ps)"

fun pc_forget :: "u32 list \<Rightarrow> (page_cache, unit) prog" where
  "pc_forget [] = ret ()"
| "pc_forget (p # ps) =
     bnd (pc_write p (\<lambda>e. e\<lparr>pg_dirty := False, pg_state := Page_invalid\<rparr>)) (\<lambda>_.
     bnd (modify (\<lambda>c. c\<lparr>pc_cur := pc_cur c - 1\<rparr>)) (\<lambda>_.
     pc_forget ps))"

definition pc_truncate :: "u32 \<Rightarrow> (page_cache, unit) prog" where
  "pc_truncate max_blkoff =
     bnd (reads (\<lambda>c. filter (\<lambda>k. k > max_blkoff) (pc_dirty c))) (\<lambda>ks.
     bnd (pc_forget ks) (\<lambda>_.
     bnd (modify (\<lambda>c. c\<lparr>pc_dirty := filter (\<lambda>k. \<not> k > max_blkoff) (pc_dirty c)\<rparr>)) (\<lambda>_.
     pc_release_all ks)))"

fun pc_clean :: "u32 list \<Rightarrow> (page_cache, unit) prog" where
  "pc_clean [] = ret ()"
| "pc_clean (p # ps) = bnd (pc_write p (\<lambda>e. e\<lparr>pg_dirty := False\<rparr>)) (\<lambda>_. pc_clean ps)"

definition clear_dirty_pages :: "(page_cache, unit) prog" where
  "clear_dirty_pages =
     bnd (reads pc_dirty) (\<lambda>ks.
     bnd (pc_clean ks) (\<lambda>_.
     bnd (modify (\<lambda>c. c\<lparr>pc_dirty := []\<rparr>)) (\<lambda>_.
     pc_release_all ks)))"

end
