(* ===== verification/IO_Sync.thy ===== *)
theory IO_Sync
  imports HSCFS_Prelude
begin

text \<open>
  Waiting for a group of asynchronous writes, \<^verbatim>\<open>async_vecio_synchronizer\<close> of
  \<^verbatim>\<open>inc/utils/io_utils.hh\<close>. The callbacks of the writes may run at the same time; each takes
  three steps: it counts itself, it records its result, and the last one to count itself
  reports the recorded result to the waiting thread.
\<close>

section \<open>State\<close>

datatype comm_cmd_result = COMM_CMD_SUCCESS | COMM_CMD_CQE_ERROR | COMM_CMD_TID_QUERY_ERROR

record vecio =
  vio_num :: u64
  vio_res :: comm_cmd_result
  vio_cplt :: "comm_cmd_result option"

definition vecio_init :: "u64 \<Rightarrow> vecio" where
  "vecio_init io_num = \<lparr>vio_num = io_num, vio_res = COMM_CMD_SUCCESS,
     vio_cplt = (if io_num = 0 then Some COMM_CMD_SUCCESS else None)\<rparr>"

text \<open>The three steps of \<^verbatim>\<open>cplt_once\<close>.\<close>

definition cplt_count :: "vecio \<Rightarrow> u64 \<times> vecio" where
  "cplt_count v = (vio_num v, v\<lparr>vio_num := vio_num v - 1\<rparr>)"

definition cplt_record :: "comm_cmd_result \<Rightarrow> vecio \<Rightarrow> vecio" where
  "cplt_record r v = (if vio_res v = COMM_CMD_SUCCESS then v\<lparr>vio_res := r\<rparr> else v)"

definition cplt_notify :: "u64 \<Rightarrow> vecio \<Rightarrow> vecio" where
  "cplt_notify num v = (if num = 1 then v\<lparr>vio_cplt := Some (vio_res v)\<rparr> else v)"

definition cplt_once :: "comm_cmd_result \<Rightarrow> vecio \<Rightarrow> vecio" where
  "cplt_once r v = (let (num, v1) = cplt_count v in cplt_notify num (cplt_record r v1))"

section \<open>Concurrent callbacks\<close>

datatype callback = Started comm_cmd_result | Counted u64 comm_cmd_result | Recorded u64 | Finished

inductive cb_step :: "vecio \<times> callback list \<Rightarrow> vecio \<times> callback list \<Rightarrow> bool" where
  cb_count: "i < length cs \<Longrightarrow> cs ! i = Started r \<Longrightarrow> cplt_count v = (num, v') \<Longrightarrow>
    cb_step (v, cs) (v', cs[i := Counted num r])"
| cb_record: "i < length cs \<Longrightarrow> cs ! i = Counted num r \<Longrightarrow> cb_step (v, cs) (cplt_record r v, cs[i := Recorded num])"
| cb_notify: "i < length cs \<Longrightarrow> cs ! i = Recorded num \<Longrightarrow> cb_step (v, cs) (cplt_notify num v, cs[i := Finished])"

inductive cb_reach :: "comm_cmd_result list \<Rightarrow> vecio \<times> callback list \<Rightarrow> bool" for rs where
  start: "cb_reach rs (vecio_init (word_of_nat (length rs)), map Started rs)"
| step: "cb_reach rs s \<Longrightarrow> cb_step s s' \<Longrightarrow> cb_reach rs s'"

inductive_cases cb_stepE: "cb_step (v, cs) s'"

definition is_started :: "callback \<Rightarrow> bool" where
  "is_started c = (case c of Started _ \<Rightarrow> True | _ \<Rightarrow> False)"

definition cb_pending :: "callback list \<Rightarrow> nat" where
  "cb_pending cs = length (filter is_started cs)"

text \<open>The value of the counter that a callback has taken.\<close>

definition cb_num :: "callback \<Rightarrow> u64 option" where
  "cb_num c = (case c of Counted n _ \<Rightarrow> Some n | Recorded n \<Rightarrow> Some n | _ \<Rightarrow> None)"

lemma pending_update:
  assumes "i < length cs"
  shows "cb_pending (cs[i := c]) + of_bool (is_started (cs ! i)) = cb_pending cs + of_bool (is_started c)"
proof -
  define c0 where "c0 = cs ! i"
  obtain xs ys where cs: "cs = xs @ c0 # ys" "length xs = i"
    using id_take_nth_drop [OF assms] assms unfolding c0_def by fastforce
  then have "cs[i := c] = xs @ c # ys" by (simp add: list_update_append)
  then show ?thesis unfolding c0_def [symmetric] by (simp add: cs(1) cb_pending_def)
qed

text \<open>
  The counter is the number of callbacks that have not counted themselves; whoever holds the
  value 1, and whoever has reported, came after all of them.
\<close>

definition cb_inv :: "vecio \<times> callback list \<Rightarrow> bool" where
  "cb_inv s \<longleftrightarrow> (case s of (v, cs) \<Rightarrow> length cs < 2 ^ 64 \<and> unat (vio_num v) = cb_pending cs \<and>
     ((\<exists>c \<in> set cs. cb_num c = Some 1) \<or> vio_cplt v \<noteq> None \<longrightarrow> cb_pending cs = 0))"

lemma cb_pending_le: "cb_pending cs \<le> length cs"
  by (simp add: cb_pending_def)

lemma cb_pending_zero: "cb_pending cs = 0 \<longleftrightarrow> (\<forall>c \<in> set cs. \<not> is_started c)"
  by (simp add: cb_pending_def filter_empty_conv)

lemma cb_step_inv:
  assumes "cb_step s s'" "cb_inv s"
  shows "cb_inv s'"
  using assms
proof cases
  case (cb_count i cs r v num v')
  then have p: "Suc (cb_pending (cs[i := Counted num r])) = cb_pending cs"
    using pending_update [of i cs "Counted num r"] by (simp add: is_started_def)
  have num: "num = vio_num v" "v' = v\<lparr>vio_num := vio_num v - 1\<rparr>" using cb_count(5) by (auto simp: cplt_count_def)
  have inv: "length cs < 2 ^ 64" "unat (vio_num v) = cb_pending cs"
    "(\<exists>c \<in> set cs. cb_num c = Some 1) \<or> vio_cplt v \<noteq> None \<longrightarrow> cb_pending cs = 0"
    using assms(2) cb_count(1) by (simp_all add: cb_inv_def)
  then have nz: "vio_num v \<noteq> 0" using p by auto
  then have u: "unat (vio_num v - 1) = cb_pending (cs[i := Counted num r])" using inv(2) p by (simp add: unat_minus_one)
  have "cb_pending (cs[i := Counted num r]) = 0"
    if "(\<exists>c \<in> set (cs[i := Counted num r]). cb_num c = Some 1) \<or> vio_cplt v' \<noteq> None"
  proof -
    have "vio_cplt v = None" "\<forall>c \<in> set cs. cb_num c \<noteq> Some 1" using inv(3) p by auto
    then have "num = 1"
      using that set_update_subset_insert [of cs i "Counted num r"] by (auto simp: num(2) cb_num_def split: if_splits)
    then show ?thesis using inv(2) num p by simp
  qed
  then show ?thesis using inv(1) u cb_count(2) num(2) by (simp add: cb_inv_def)
next
  case (cb_record i cs num r v)
  then have p: "cb_pending (cs[i := Recorded num]) = cb_pending cs"
    using pending_update [of i cs "Recorded num"] by (simp add: is_started_def)
  have "\<exists>c \<in> set cs. cb_num c = Some 1" if "c \<in> set (cs[i := Recorded num])" "cb_num c = Some 1" for c
  proof -
    have "c = Recorded num \<or> c \<in> set cs" using that(1) set_update_subset_insert [of cs i "Recorded num"] by blast
    then show ?thesis
      using that(2) nth_mem [OF cb_record(3)] cb_record(4) by (auto simp: cb_num_def intro: bexI [of _ "cs ! i"])
  qed
  then show ?thesis using assms(2) cb_record p by (auto simp: cb_inv_def cplt_record_def)
next
  case (cb_notify i cs num v)
  then have p: "cb_pending (cs[i := Finished]) = cb_pending cs"
    using pending_update [of i cs Finished] by (simp add: is_started_def)
  have "\<exists>c \<in> set cs. cb_num c = Some 1" if "c \<in> set (cs[i := Finished])" "cb_num c = Some 1" for c
    using that set_update_subset_insert [of cs i Finished] by (auto simp: cb_num_def)
  moreover have "\<exists>c \<in> set cs. cb_num c = Some 1" if "num = 1"
    using that nth_mem [OF cb_notify(3)] cb_notify(4) by (intro bexI [of _ "cs ! i"]) (auto simp: cb_num_def)
  ultimately show ?thesis using assms(2) cb_notify p by (auto simp: cb_inv_def cplt_notify_def)
qed

lemma cb_reach_inv: "cb_reach rs s \<Longrightarrow> length rs < 2 ^ 64 \<Longrightarrow> cb_inv s"
proof (induction rule: cb_reach.induct)
  case start
  then have "cb_pending (map Started rs) = length rs" by (simp add: cb_pending_def is_started_def filter_True)
  moreover have "unat (word_of_nat (length rs) :: u64) = length rs" using start by (simp add: unat_of_nat take_bit_nat_eq_self)
  ultimately show ?case using start by (auto simp: cb_inv_def vecio_init_def cb_num_def)
next
  case (step s s')
  then show ?case using cb_step_inv by blast
qed

text \<open>Callbacks that do not overlap.\<close>

lemma fold_cplt_once:
  assumes "unat (vio_num v) = length rs" "rs \<noteq> []"
  shows "\<exists>r. vio_cplt (fold cplt_once rs v) = Some r \<and>
    (r = COMM_CMD_SUCCESS \<longleftrightarrow> vio_res v = COMM_CMD_SUCCESS \<and> (\<forall>x \<in> set rs. x = COMM_CMD_SUCCESS))"
  using assms
proof (induction rs arbitrary: v)
  case (Cons x rs)
  have nz: "vio_num v \<noteq> 0" using Cons.prems(1) by auto
  have num: "vio_num (cplt_once x v) = vio_num v - 1"
    "vio_res (cplt_once x v) = (if vio_res v = COMM_CMD_SUCCESS then x else vio_res v)"
    by (simp_all add: cplt_once_def cplt_count_def cplt_notify_def cplt_record_def)
  show ?case
  proof (cases "rs = []")
    case True
    then have "unat (vio_num v) = unat (1 :: u64)" using Cons.prems(1) by simp
    then have "vio_num v = 1" by (simp only: word_unat_eq_iff)
    then show ?thesis using True by (auto simp: cplt_once_def cplt_count_def cplt_notify_def cplt_record_def)
  next
    case False
    have "unat (vio_num (cplt_once x v)) = length rs" using Cons.prems(1) nz by (simp add: num unat_minus_one)
    from Cons.IH [OF this False] show ?thesis by (auto simp: num(2) split: if_splits)
  qed
qed simp

lemma vecio_result:
  assumes "length rs < 2 ^ 64"
  shows "\<exists>r. vio_cplt (fold cplt_once rs (vecio_init (word_of_nat (length rs)))) = Some r \<and>
    (r = COMM_CMD_SUCCESS \<longleftrightarrow> (\<forall>x \<in> set rs. x = COMM_CMD_SUCCESS))"
proof -
  have u: "unat (word_of_nat (length rs) :: u64) = length rs" using assms by (simp add: unat_of_nat take_bit_nat_eq_self)
  show ?thesis
    using fold_cplt_once [of "vecio_init (word_of_nat (length rs))" rs] u
    by (cases "rs = []") (simp_all add: vecio_init_def)
qed

section \<open>Properties\<close>

text \<open>
  Whatever the interleaving of the callbacks, a result is reported only after every write
  of the group has completed; and when the callbacks run one after the other a result is
  reported, which is a success exactly when every write succeeded.
\<close>

theorem vecio_waits_for_all:
  assumes "length rs < 2 ^ 64"
  shows "(\<forall>v cs. cb_reach rs (v, cs) \<and> vio_cplt v \<noteq> None \<longrightarrow> (\<forall>c \<in> set cs. \<not> is_started c)) \<and>
    (\<exists>r. vio_cplt (fold cplt_once rs (vecio_init (word_of_nat (length rs)))) = Some r \<and>
      (r = COMM_CMD_SUCCESS \<longleftrightarrow> (\<forall>x \<in> set rs. x = COMM_CMD_SUCCESS)))"
proof (intro conjI allI impI)
  fix v cs assume "cb_reach rs (v, cs) \<and> vio_cplt v \<noteq> None"
  then have "cb_pending cs = 0" using cb_reach_inv [OF _ assms] by (fastforce simp: cb_inv_def)
  then show "\<forall>c \<in> set cs. \<not> is_started c" by (simp add: cb_pending_zero)
qed (rule vecio_result [OF assms])

theorem vecio_waits_for_all_witness:
  "\<exists>r. vio_cplt (fold cplt_once [COMM_CMD_SUCCESS, COMM_CMD_CQE_ERROR] (vecio_init 2)) = Some r \<and> r \<noteq> COMM_CMD_SUCCESS"
  using vecio_waits_for_all [of "[COMM_CMD_SUCCESS, COMM_CMD_CQE_ERROR]"] by simp

text \<open>
  When the last callback reports between the two steps of another one, the error of the other
  is lost.
\<close>

theorem vecio_error_lost:
  "\<exists>v. cb_reach [COMM_CMD_CQE_ERROR, COMM_CMD_SUCCESS] (v, [Finished, Finished]) \<and> vio_cplt v = Some COMM_CMD_SUCCESS"
proof -
  let ?ini = "vecio_init 2"
  let ?one = "snd (cplt_count ?ini)" let ?two = "snd (cplt_count ?one)"
  let ?rep = "cplt_notify 1 (cplt_record COMM_CMD_SUCCESS ?two)"
  let ?fin = "cplt_notify 2 (cplt_record COMM_CMD_CQE_ERROR ?rep)"
  note go = cb_reach.step [of "[COMM_CMD_CQE_ERROR, COMM_CMD_SUCCESS]"]
  have "cb_reach [COMM_CMD_CQE_ERROR, COMM_CMD_SUCCESS] (?ini, [Started COMM_CMD_CQE_ERROR, Started COMM_CMD_SUCCESS])"
    using cb_reach.start [of "[COMM_CMD_CQE_ERROR, COMM_CMD_SUCCESS]"] by simp
  then have "cb_reach [COMM_CMD_CQE_ERROR, COMM_CMD_SUCCESS] (?one, [Counted 2 COMM_CMD_CQE_ERROR, Started COMM_CMD_SUCCESS])"
    using go cb_count [of 0 "[Started COMM_CMD_CQE_ERROR, Started COMM_CMD_SUCCESS]" COMM_CMD_CQE_ERROR ?ini 2 ?one]
    by (auto simp: cplt_count_def vecio_init_def)
  then have "cb_reach [COMM_CMD_CQE_ERROR, COMM_CMD_SUCCESS] (?two, [Counted 2 COMM_CMD_CQE_ERROR, Counted 1 COMM_CMD_SUCCESS])"
    using go cb_count [of 1 "[Counted 2 COMM_CMD_CQE_ERROR, Started COMM_CMD_SUCCESS]" COMM_CMD_SUCCESS ?one 1 ?two]
    by (auto simp: cplt_count_def vecio_init_def)
  then have "cb_reach [COMM_CMD_CQE_ERROR, COMM_CMD_SUCCESS] (cplt_record COMM_CMD_SUCCESS ?two, [Counted 2 COMM_CMD_CQE_ERROR, Recorded 1])"
    using go cb_record [of 1 "[Counted 2 COMM_CMD_CQE_ERROR, Counted 1 COMM_CMD_SUCCESS]" 1 COMM_CMD_SUCCESS ?two] by simp
  then have "cb_reach [COMM_CMD_CQE_ERROR, COMM_CMD_SUCCESS] (?rep, [Counted 2 COMM_CMD_CQE_ERROR, Finished])"
    using go cb_notify [of 1 "[Counted 2 COMM_CMD_CQE_ERROR, Recorded 1]" 1 "cplt_record COMM_CMD_SUCCESS ?two"] by simp
  then have "cb_reach [COMM_CMD_CQE_ERROR, COMM_CMD_SUCCESS] (cplt_record COMM_CMD_CQE_ERROR ?rep, [Recorded 2, Finished])"
    using go cb_record [of 0 "[Counted 2 COMM_CMD_CQE_ERROR, Finished]" 2 COMM_CMD_CQE_ERROR ?rep] by simp
  then have "cb_reach [COMM_CMD_CQE_ERROR, COMM_CMD_SUCCESS] (?fin, [Finished, Finished])"
    using go cb_notify [of 0 "[Recorded 2, Finished]" 2 "cplt_record COMM_CMD_CQE_ERROR ?rep"] by simp
  moreover have "vio_cplt ?fin = Some COMM_CMD_SUCCESS"
    by (simp add: cplt_notify_def cplt_record_def cplt_count_def vecio_init_def)
  ultimately show ?thesis by blast
qed

end
