(* ===== verification/Srmap.thy ===== *)
theory Srmap
  imports FS_Layout IO_Sync
begin

text \<open>
  The segment reverse map of \<^verbatim>\<open>src/fs/srmap_utils.cc\<close>: for every block of the device the file
  and offset, or the node, that it belongs to. Blocks of the table are cached while a group
  of changes is written back, then written in place and dropped.
\<close>

section \<open>State and operations\<close>

record hscfs_summary =
  sum_nid :: u32
  sum_ofs_in_node :: u32

abbreviation ENTRIES_IN_SUM :: u32 where "ENTRIES_IN_SUM \<equiv> 512"

record srmap_utils =
  srmap_start_lpa :: u32
  srmap_cache :: "u32 \<rightharpoonup> hscfs_summary list"
  dirty_blks :: "u32 list"
  srmap_dev :: "u32 \<Rightarrow> hscfs_summary list option"

definition srmap_init :: "u32 \<Rightarrow> (u32 \<Rightarrow> hscfs_summary list option) \<Rightarrow> srmap_utils" where
  "srmap_init start dev = \<lparr>srmap_start_lpa = start, srmap_cache = Map.empty, dirty_blks = [], srmap_dev = dev\<rparr>"

definition zero_summary :: "hscfs_summary list" where
  "zero_summary = replicate 512 \<lparr>sum_nid = 0, sum_ofs_in_node = 0\<rparr>"

definition get_srmap_pos_of_lpa :: "u32 \<Rightarrow> srmap_utils \<Rightarrow> u32 \<times> u32" where
  "get_srmap_pos_of_lpa lpa s = (lpa div ENTRIES_IN_SUM + srmap_start_lpa s, lpa mod ENTRIES_IN_SUM)"

text \<open>
  \<^verbatim>\<open>srmap_cache[lpa]\<close> enters an empty buffer before it is read; it stays when the read fails.
\<close>

definition get_srmap_blk :: "u32 \<Rightarrow> (srmap_utils, hscfs_summary list) prog" where
  "get_srmap_blk lpa = (\<lambda>s.
     case srmap_cache s lpa of
       Some b \<Rightarrow> (Inr b, s)
     | None \<Rightarrow>
         (let s1 = s\<lparr>srmap_cache := (srmap_cache s)(lpa \<mapsto> zero_summary)\<rparr> in
          case srmap_dev s lpa of
            None \<Rightarrow> (Inl (Throw Io_error), s1)
          | Some b \<Rightarrow> (Inr b, s1\<lparr>srmap_cache := (srmap_cache s)(lpa \<mapsto> b)\<rparr>)))"

text \<open>A write through the reference to the cached block; the index is within the block.\<close>

definition set_summary :: "u32 \<Rightarrow> u32 \<Rightarrow> (hscfs_summary \<Rightarrow> hscfs_summary) \<Rightarrow> (srmap_utils, unit) prog" where
  "set_summary srmap_lpa srmap_idx f =
     bnd (get_srmap_blk srmap_lpa) (\<lambda>b.
     bnd (modify (\<lambda>s. s\<lparr>srmap_cache := (srmap_cache s)(srmap_lpa \<mapsto> b[unat srmap_idx := f (b ! unat srmap_idx)])\<rparr>)) (\<lambda>_.
     modify (\<lambda>s. s\<lparr>dirty_blks := List.insert srmap_lpa (dirty_blks s)\<rparr>)))"

definition write_srmap_of_data :: "u32 \<Rightarrow> u32 \<Rightarrow> u32 \<Rightarrow> (srmap_utils, unit) prog" where
  "write_srmap_of_data data_lpa ino blkoff =
     bnd (reads (get_srmap_pos_of_lpa data_lpa)) (\<lambda>(srmap_lpa, srmap_idx).
     set_summary srmap_lpa srmap_idx (\<lambda>e. e\<lparr>sum_nid := ino, sum_ofs_in_node := blkoff\<rparr>))"

definition write_srmap_of_node :: "u32 \<Rightarrow> u32 \<Rightarrow> (srmap_utils, unit) prog" where
  "write_srmap_of_node node_lpa n =
     bnd (reads (get_srmap_pos_of_lpa node_lpa)) (\<lambda>(srmap_lpa, srmap_idx).
     set_summary srmap_lpa srmap_idx (\<lambda>e. e\<lparr>sum_nid := n\<rparr>))"

text \<open>
  Writing back. The device accepts a command or not (\<open>submit_ok\<close>) and completes it with a
  result; a block reaches the device when its command succeeds.
\<close>

fun submit_srmap :: "(u32 \<Rightarrow> bool) \<Rightarrow> (u32 \<Rightarrow> comm_cmd_result) \<Rightarrow> u32 list \<Rightarrow> (srmap_utils, unit) prog" where
  "submit_srmap submit_ok res [] = ret ()"
| "submit_srmap submit_ok res (lpa # lpas) =
     (if \<not> submit_ok lpa then fail (Throw Io_error)
      else
        bnd (modify (\<lambda>s.
          let b = (case srmap_cache s lpa of None \<Rightarrow> zero_summary | Some b \<Rightarrow> b) in
          s\<lparr>srmap_cache := (srmap_cache s)(lpa \<mapsto> b),
            srmap_dev := (if res lpa = COMM_CMD_SUCCESS then (srmap_dev s)(lpa \<mapsto> b) else srmap_dev s)\<rparr>)) (\<lambda>_.
        under_way True (submit_srmap submit_ok res lpas)))"

definition write_dirty_srmap_sync :: "(u32 \<Rightarrow> bool) \<Rightarrow> (u32 \<Rightarrow> comm_cmd_result) \<Rightarrow> (srmap_utils, unit) prog" where
  "write_dirty_srmap_sync submit_ok res =
     bnd (reads dirty_blks) (\<lambda>lpas.
     bnd (submit_srmap submit_ok res lpas) (\<lambda>_.
     case vio_cplt (fold cplt_once (map res lpas) (vecio_init (word_of_nat (length lpas)))) of
       None \<Rightarrow> fail Still_running
     | Some r \<Rightarrow> if r \<noteq> COMM_CMD_SUCCESS then fail (Throw Io_error) else ret ()))"

definition clear_cache :: "(srmap_utils, unit) prog" where
  "clear_cache = modify (\<lambda>s. s\<lparr>dirty_blks := [], srmap_cache := Map.empty\<rparr>)"

section \<open>Invariant and view\<close>

text \<open>
  The table as the cache shows it, and as it is on the device. A block that is not dirty is
  cached as it is on the device.
\<close>

definition srmap_at :: "(u32 \<Rightarrow> hscfs_summary list option) \<Rightarrow> u32 \<Rightarrow> u32 \<Rightarrow> hscfs_summary option" where
  "srmap_at dev start lpa = map_option (\<lambda>b. b ! unat (lpa mod ENTRIES_IN_SUM)) (dev (lpa div ENTRIES_IN_SUM + start))"

definition srmap_view :: "srmap_utils \<Rightarrow> u32 \<Rightarrow> hscfs_summary list option" where
  "srmap_view s lpa = (case srmap_cache s lpa of None \<Rightarrow> srmap_dev s lpa | Some b \<Rightarrow> Some b)"

definition srmap_inv :: "srmap_utils \<Rightarrow> bool" where
  "srmap_inv s \<longleftrightarrow> distinct (dirty_blks s) \<and> length (dirty_blks s) < 2 ^ 64 \<and> set (dirty_blks s) \<subseteq> dom (srmap_cache s) \<and>
     (\<forall>l b. srmap_view s l = Some b \<longrightarrow> length b = 512) \<and>
     (\<forall>l b. srmap_cache s l = Some b \<and> l \<notin> set (dirty_blks s) \<longrightarrow> srmap_dev s l = Some b)"

lemma summary_all [simp]: "e\<lparr>sum_nid := a, sum_ofs_in_node := b\<rparr> = \<lparr>sum_nid = a, sum_ofs_in_node = b\<rparr>"
  by (cases e) simp

lemma srmap_pos_inj:
  assumes "a div ENTRIES_IN_SUM + st = b div ENTRIES_IN_SUM + st" "a mod ENTRIES_IN_SUM = b mod ENTRIES_IN_SUM"
  shows "a = b"
  using assms word_mod_div_equality [of a ENTRIES_IN_SUM] word_mod_div_equality [of b ENTRIES_IN_SUM]
  by (metis add_right_cancel)

lemma set_summary_ok:
  assumes inv: "srmap_inv s" and v: "srmap_view s p = Some b" and room: "length (dirty_blks s) + 1 < 2 ^ 64"
  shows "\<exists>s'. set_summary p i f s = (Inr (), s') \<and> srmap_inv s' \<and> srmap_start_lpa s' = srmap_start_lpa s \<and>
    srmap_view s' = (srmap_view s)(p \<mapsto> b[unat i := f (b ! unat i)]) \<and> srmap_dev s' = srmap_dev s \<and>
    length (dirty_blks s') \<le> length (dirty_blks s) + 1"
proof -
  let ?b = "b[unat i := f (b ! unat i)]"
  let ?s = "s\<lparr>srmap_cache := (srmap_cache s)(p \<mapsto> ?b), dirty_blks := List.insert p (dirty_blks s)\<rparr>"
  have "set_summary p i f s = (Inr (), ?s)"
    using v by (auto simp: set_summary_def get_srmap_blk_def srmap_view_def prog_simps Let_def split: option.splits)
  moreover have "srmap_view ?s = (srmap_view s)(p \<mapsto> ?b)"
    by (auto simp: srmap_view_def fun_eq_iff split: option.splits)
  moreover have "length b = 512" using inv v by (simp add: srmap_inv_def)
  ultimately show ?thesis using inv room by (auto simp: srmap_inv_def List.insert_def)
qed

lemma submit_srmap_ok:
  assumes "\<forall>l \<in> set ls. submit_ok l \<and> res l = COMM_CMD_SUCCESS" "set ls \<subseteq> dom (srmap_cache s)"
  shows "submit_srmap submit_ok res ls s =
    (Inr (), s\<lparr>srmap_dev := (\<lambda>l. if l \<in> set ls then srmap_cache s l else srmap_dev s l)\<rparr>)"
  using assms
proof (induction ls arbitrary: s)
  case Nil
  then show ?case by (simp add: prog_simps)
next
  case (Cons l ls)
  then obtain b where b: "srmap_cache s l = Some b" by auto
  then have up: "(srmap_cache s)(l \<mapsto> b) = srmap_cache s" by auto
  let ?s = "s\<lparr>srmap_cache := (srmap_cache s)(l \<mapsto> b), srmap_dev := (srmap_dev s)(l \<mapsto> b)\<rparr>"
  have ih: "submit_srmap submit_ok res ls ?s = (Inr (), ?s\<lparr>srmap_dev := (\<lambda>j. if j \<in> set ls then srmap_cache ?s j else srmap_dev ?s j)\<rparr>)"
    using Cons.prems b by (intro Cons.IH) auto
  have "submit_srmap submit_ok res (l # ls) s = under_way True (submit_srmap submit_ok res ls) ?s"
    using Cons.prems(1) b by (simp add: prog_simps)
  also have "under_way True (submit_srmap submit_ok res ls) ?s =
      (Inr (), ?s\<lparr>srmap_dev := (\<lambda>j. if j \<in> set ls then srmap_cache ?s j else srmap_dev ?s j)\<rparr>)"
    by (simp add: under_way_def ih)
  also have "?s\<lparr>srmap_dev := (\<lambda>j. if j \<in> set ls then srmap_cache ?s j else srmap_dev ?s j)\<rparr> =
      s\<lparr>srmap_dev := (\<lambda>j. if j \<in> set (l # ls) then srmap_cache s j else srmap_dev s j)\<rparr>"
    using b by (simp add: up) (auto simp: fun_eq_iff)
  finally show ?case .
qed

text \<open>Writing back makes the device agree with the cache; dropping the cache then changes nothing.\<close>

lemma srmap_write_back_ok:
  assumes inv: "srmap_inv s" and ok: "\<forall>l \<in> set (dirty_blks s). submit_ok l \<and> res l = COMM_CMD_SUCCESS"
  shows "\<exists>s'. bnd (write_dirty_srmap_sync submit_ok res) (\<lambda>_. clear_cache) s = (Inr (), s') \<and> srmap_inv s' \<and>
    srmap_start_lpa s' = srmap_start_lpa s \<and> srmap_dev s' = srmap_view s \<and> srmap_view s' = srmap_view s \<and>
    dirty_blks s' = [] \<and> srmap_cache s' = Map.empty"
proof -
  let ?ls = "dirty_blks s"
  let ?s = "s\<lparr>srmap_dev := (\<lambda>l. if l \<in> set ?ls then srmap_cache s l else srmap_dev s l)\<rparr>"
  have sub: "submit_srmap submit_ok res ?ls s = (Inr (), ?s)"
    using ok inv by (intro submit_srmap_ok) (auto simp: srmap_inv_def)
  have "length (map res ?ls) < 2 ^ 64" using inv by (simp add: srmap_inv_def)
  from vecio_result [OF this] ok
  have res: "vio_cplt (fold cplt_once (map res ?ls) (vecio_init (word_of_nat (length ?ls)))) = Some COMM_CMD_SUCCESS"
    by auto
  have dev: "srmap_dev ?s = srmap_view s"
    using inv by (auto simp: srmap_inv_def srmap_view_def fun_eq_iff split: option.splits)
  let ?t = "?s\<lparr>dirty_blks := [], srmap_cache := Map.empty\<rparr>"
  have "bnd (write_dirty_srmap_sync submit_ok res) (\<lambda>_. clear_cache) s = (Inr (), ?t)"
    using sub res by (simp add: write_dirty_srmap_sync_def clear_cache_def prog_simps)
  moreover have v: "srmap_view ?t = srmap_view s" using dev by (simp add: srmap_view_def [abs_def])
  moreover have "srmap_inv ?t" using inv unfolding srmap_inv_def v by simp
  ultimately show ?thesis using dev by (intro exI [of _ ?t]) simp
qed

section \<open>Properties\<close>

text \<open>
  C33. Recording the owner of a block and writing the table back: afterwards the table on the
  device names the owner for this block, and for every other block what the cache showed
  before.
\<close>

theorem srmap_roundtrip:
  assumes "srmap_inv s" "length (dirty_blks s) + 1 < 2 ^ 64"
    "srmap_view s (l div ENTRIES_IN_SUM + srmap_start_lpa s) \<noteq> None" "\<forall>l. submit_ok l \<and> res l = COMM_CMD_SUCCESS"
  shows "\<exists>s'. bnd (write_srmap_of_data l ino blkoff) (\<lambda>_. bnd (write_dirty_srmap_sync submit_ok res) (\<lambda>_. clear_cache)) s = (Inr (), s') \<and>
    srmap_inv s' \<and> dirty_blks s' = [] \<and> srmap_cache s' = Map.empty \<and>
    (\<forall>j. srmap_at (srmap_dev s') (srmap_start_lpa s) j =
      (if j = l then Some \<lparr>sum_nid = ino, sum_ofs_in_node = blkoff\<rparr> else srmap_at (srmap_view s) (srmap_start_lpa s) j))"
proof -
  let ?p = "l div ENTRIES_IN_SUM + srmap_start_lpa s" and ?i = "l mod ENTRIES_IN_SUM"
    and ?e = "\<lparr>sum_nid = ino, sum_ofs_in_node = blkoff\<rparr>"
  obtain b where b: "srmap_view s ?p = Some b" using assms(3) by blast
  then have len: "length b = 512" using assms(1) by (simp add: srmap_inv_def)
  obtain s1 where s1: "write_srmap_of_data l ino blkoff s = (Inr (), s1)" "srmap_inv s1" "srmap_start_lpa s1 = srmap_start_lpa s"
      "srmap_view s1 = (srmap_view s)(?p \<mapsto> b[unat ?i := ?e])"
    using set_summary_ok [OF assms(1) b assms(2), of ?i "\<lambda>e. e\<lparr>sum_nid := ino, sum_ofs_in_node := blkoff\<rparr>"]
    by (auto simp: write_srmap_of_data_def get_srmap_pos_of_lpa_def prog_simps)
  obtain s' where s': "bnd (write_dirty_srmap_sync submit_ok res) (\<lambda>_. clear_cache) s1 = (Inr (), s')" "srmap_inv s'"
      "srmap_dev s' = srmap_view s1" "dirty_blks s' = []" "srmap_cache s' = Map.empty"
    using srmap_write_back_ok [OF s1(2), of submit_ok res] assms(4) by blast
  have idx: "unat (j mod ENTRIES_IN_SUM) < 512" for j :: u32 by (simp add: unat_mod)
  have "srmap_at (srmap_dev s') (srmap_start_lpa s) j = (if j = l then Some ?e else srmap_at (srmap_view s) (srmap_start_lpa s) j)" for j
  proof (cases "j div ENTRIES_IN_SUM + srmap_start_lpa s = ?p \<and> j \<noteq> l")
    case True
    then have "unat (j mod ENTRIES_IN_SUM) \<noteq> unat ?i" using srmap_pos_inj [of j "srmap_start_lpa s" l] word_unat_eq_iff by blast
    then show ?thesis using True b by (simp add: srmap_at_def s'(3) s1(4))
  next
    case False
    then show ?thesis using idx [of l] len by (auto simp: srmap_at_def s'(3) s1(4))
  qed
  moreover have "bnd (write_srmap_of_data l ino blkoff) (\<lambda>_. bnd (write_dirty_srmap_sync submit_ok res) (\<lambda>_. clear_cache)) s = (Inr (), s')"
    using s1(1) s'(1) by (simp add: bnd_def)
  ultimately show ?thesis using s' by blast
qed

definition sample_srmap :: srmap_utils where
  "sample_srmap = srmap_init 100 (\<lambda>_. Some zero_summary)"

theorem srmap_roundtrip_witness:
  "\<exists>s'. bnd (write_srmap_of_data 777 10 3) (\<lambda>_. bnd (write_dirty_srmap_sync (\<lambda>_. True) (\<lambda>_. COMM_CMD_SUCCESS)) (\<lambda>_. clear_cache)) sample_srmap = (Inr (), s') \<and>
    srmap_at (srmap_dev s') 100 777 = Some \<lparr>sum_nid = 10, sum_ofs_in_node = 3\<rparr>"
proof -
  have inv: "srmap_inv sample_srmap" "srmap_start_lpa sample_srmap = 100"
    by (simp_all add: srmap_inv_def sample_srmap_def srmap_init_def srmap_view_def zero_summary_def)
  show ?thesis
    using srmap_roundtrip [OF inv(1), of 777 "\<lambda>_. True" "\<lambda>_. COMM_CMD_SUCCESS" 10 3]
    by (auto simp: inv(2) srmap_view_def sample_srmap_def srmap_init_def)
qed

text \<open>
  A failed read leaves an empty block in the cache. When the device works again, recording an
  owner takes the empty block for the real one, and writing back clears what the table held
  for all other blocks of the segment.
\<close>

theorem srmap_cleared_after_read_error:
  assumes "srmap_cache s = Map.empty" "dirty_blks s = []" "srmap_dev s (l div ENTRIES_IN_SUM + srmap_start_lpa s) = None"
  shows "\<exists>s1 s2. write_srmap_of_data l ino blkoff s = (Inl (Throw Io_error), s1) \<and>
    bnd (write_srmap_of_data l ino blkoff) (\<lambda>_. write_dirty_srmap_sync (\<lambda>_. True) (\<lambda>_. COMM_CMD_SUCCESS)) (s1\<lparr>srmap_dev := dev\<rparr>) = (Inr (), s2) \<and>
    (\<forall>j. j \<noteq> l \<and> j div ENTRIES_IN_SUM = l div ENTRIES_IN_SUM \<longrightarrow>
      srmap_at (srmap_dev s2) (srmap_start_lpa s) j = Some \<lparr>sum_nid = 0, sum_ofs_in_node = 0\<rparr>)"
proof -
  let ?p = "l div ENTRIES_IN_SUM + srmap_start_lpa s" and ?i = "l mod ENTRIES_IN_SUM"
    and ?e = "\<lparr>sum_nid = ino, sum_ofs_in_node = blkoff\<rparr>"
  let ?s1 = "s\<lparr>srmap_cache := [?p \<mapsto> zero_summary]\<rparr>"
  let ?s2 = "?s1\<lparr>dirty_blks := [?p], srmap_cache := [?p \<mapsto> zero_summary[unat ?i := ?e]], srmap_dev := dev(?p \<mapsto> zero_summary[unat ?i := ?e])\<rparr>"
  have one: "vio_cplt (cplt_once COMM_CMD_SUCCESS (vecio_init 1)) = Some COMM_CMD_SUCCESS"
    by (simp add: cplt_once_def cplt_count_def cplt_record_def cplt_notify_def vecio_init_def)
  have "write_srmap_of_data l ino blkoff s = (Inl (Throw Io_error), ?s1)"
    using assms by (simp add: write_srmap_of_data_def get_srmap_pos_of_lpa_def set_summary_def get_srmap_blk_def prog_simps Let_def)
  moreover have "bnd (write_srmap_of_data l ino blkoff) (\<lambda>_. write_dirty_srmap_sync (\<lambda>_. True) (\<lambda>_. COMM_CMD_SUCCESS)) (?s1\<lparr>srmap_dev := dev\<rparr>) = (Inr (), ?s2)"
    using assms one
    by (simp add: write_srmap_of_data_def get_srmap_pos_of_lpa_def set_summary_def get_srmap_blk_def prog_simps Let_def
        write_dirty_srmap_sync_def List.insert_def)
  moreover have "srmap_at (srmap_dev ?s2) (srmap_start_lpa s) j = Some \<lparr>sum_nid = 0, sum_ofs_in_node = 0\<rparr>"
    if "j \<noteq> l" "j div ENTRIES_IN_SUM = l div ENTRIES_IN_SUM" for j
  proof -
    have "unat (j mod ENTRIES_IN_SUM) \<noteq> unat ?i"
      using srmap_pos_inj [of j "srmap_start_lpa s" l] that word_unat_eq_iff by metis
    moreover have "unat (j mod ENTRIES_IN_SUM) < 512" by (simp add: unat_mod)
    ultimately show ?thesis using that(2) by (simp add: srmap_at_def zero_summary_def)
  qed
  ultimately show ?thesis by blast
qed

end
