(* ===== verification/File_Objects.thy ===== *)
theory File_Objects
  imports File_Mapping Page_Cache Srmap
begin

text \<open>
  File objects with their page caches, \<^verbatim>\<open>src/fs/file.cc\<close>, the cache of file objects, the link
  counters of \<^verbatim>\<open>src/fs/file_utils.cc\<close> and opened files, \<^verbatim>\<open>src/fs/opened_file.cc\<close>. Locks are not
  modelled: the operations are atomic steps. The clock, the search of the SSD and the
  results of asynchronous writes are parameters.
\<close>

section \<open>State\<close>

record file_obj =
  fi_ino :: u32
  fi_size :: u64
  fi_atime :: timespec
  fi_mtime :: timespec
  fi_dirty :: bool
  fi_nlink :: u32
  fi_ref_count :: u32
  fi_fd_ref_count :: u32
  fi_pages :: page_cache

text \<open>
  The file system with the data blocks of the device, the reverse map and the cache of file
  objects. \<open>fo_dirty\<close> lists the keys of \<^verbatim>\<open>dirty_files\<close>.
\<close>

record iosys =
  io_fs :: fsys
  io_data :: "u32 \<Rightarrow> u8 list option"
  io_srmap :: srmap_utils
  fo_mgr :: "(u32, file_obj) cache_manager"
  fo_dirty :: "u32 list"
  fo_expect :: nat
  fo_cur :: nat
  page_cache_size :: u64

text \<open>
  The constructor of a file leaves size, times and link count unset; they come from \<open>junk\<close>,
  the content of the memory.
\<close>

definition file_init :: "file_obj \<Rightarrow> u32 \<Rightarrow> u64 \<Rightarrow> file_obj" where
  "file_init junk ino psize =
     junk\<lparr>fi_ino := ino, fi_pages := page_cache_init psize, fi_ref_count := 0, fi_fd_ref_count := 0, fi_dirty := False\<rparr>"

definition on_fs :: "(fsys, 'a) prog \<Rightarrow> (iosys, 'a) prog" where
  "on_fs p = (\<lambda>s. case p (io_fs s) of (r, f) \<Rightarrow> (r, s\<lparr>io_fs := f\<rparr>))"

definition on_srmap :: "(srmap_utils, 'a) prog \<Rightarrow> (iosys, 'a) prog" where
  "on_srmap p = (\<lambda>s. case p (io_srmap s) of (r, f) \<Rightarrow> (r, s\<lparr>io_srmap := f\<rparr>))"

definition fo_on_mgr :: "((u32, file_obj) cache_manager \<Rightarrow> fault + (u32, file_obj) cache_manager) \<Rightarrow> (iosys, unit) prog" where
  "fo_on_mgr f = (\<lambda>s. case f (fo_mgr s) of Inl e \<Rightarrow> (Inl e, s) | Inr m \<Rightarrow> (Inr (), s\<lparr>fo_mgr := m\<rparr>))"

definition fo_file :: "u32 \<Rightarrow> (iosys, file_obj) prog" where
  "fo_file p = (\<lambda>s. case cm_index (fo_mgr s) p of None \<Rightarrow> (Inl Undefined, s) | Some f \<Rightarrow> (Inr f, s))"

definition fo_write :: "u32 \<Rightarrow> (file_obj \<Rightarrow> file_obj) \<Rightarrow> (iosys, unit) prog" where
  "fo_write p g = modify (\<lambda>s. s\<lparr>fo_mgr := cm_update p g (fo_mgr s)\<rparr>)"

definition on_pages :: "u32 \<Rightarrow> (page_cache, 'a) prog \<Rightarrow> (iosys, 'a) prog" where
  "on_pages p m = (\<lambda>s.
     case cm_index (fo_mgr s) p of
       None \<Rightarrow> (Inl Undefined, s)
     | Some f \<Rightarrow>
         (case m (fi_pages f) of
            (r, c) \<Rightarrow> (r, s\<lparr>fo_mgr := cm_update p (\<lambda>f. f\<lparr>fi_pages := c\<rparr>) (fo_mgr s)\<rparr>)))"

section \<open>Metadata of a file\<close>

definition file_mark_dirty :: "u32 \<Rightarrow> (iosys, bool) prog" where
  "file_mark_dirty p =
     bnd (fo_file p) (\<lambda>f.
     if \<not> fi_dirty f then bnd (fo_write p (\<lambda>f. f\<lparr>fi_dirty := True\<rparr>)) (\<lambda>_. ret True) else ret False)"

definition read_meta :: "u32 \<Rightarrow> (iosys, unit) prog" where
  "read_meta p =
     bnd (fo_file p) (\<lambda>f.
     bnd (on_fs (get_node_entry (fi_ino f) INVALID_NID)) (\<lambda>h.
     scoped (on_fs (nc_handle_dtor (Some h))) (
       bnd (on_fs (nc_entry h)) (\<lambda>e.
       let node = nb_node e in
       bnd (assert_that (fi_ino f = f_ino node)) (\<lambda>_.
       bnd (assert_that (fi_ino f = f_nid node)) (\<lambda>_.
       bnd (assert_that (0 = f_offset node)) (\<lambda>_.
       bnd (assert_that (i_type node = HSCFS_FT_REG_FILE)) (\<lambda>_.
       fo_write p (\<lambda>f. f\<lparr>fi_size := i_size node, fi_nlink := i_nlink node,
         fi_atime := (wd64 10 node, wd 3 node), fi_mtime := (wd64 14 node, wd 5 node), fi_dirty := False\<rparr>)))))))))"

definition file_mark_access :: "timespec \<Rightarrow> u32 \<Rightarrow> (iosys, unit) prog" where
  "file_mark_access t p = fo_write p (\<lambda>f. f\<lparr>fi_atime := t\<rparr>)"

definition file_mark_modified :: "timespec \<Rightarrow> u32 \<Rightarrow> (iosys, unit) prog" where
  "file_mark_modified t p = fo_write p (\<lambda>f. f\<lparr>fi_atime := t, fi_mtime := t\<rparr>)"

definition set_cur_size_if_larger :: "u64 \<Rightarrow> u32 \<Rightarrow> (iosys, unit) prog" where
  "set_cur_size_if_larger size_after_write p =
     fo_write p (\<lambda>f. if size_after_write > fi_size f then f\<lparr>fi_size := size_after_write\<rparr> else f)"

definition update_meta_to_inode :: "u32 \<Rightarrow> (iosys, unit) prog" where
  "update_meta_to_inode p =
     bnd (fo_file p) (\<lambda>f.
     bnd (on_fs (get_node_entry (fi_ino f) INVALID_NID)) (\<lambda>h.
     scoped (on_fs (nc_handle_dtor (Some h))) (
       bnd (on_fs (nc_entry h)) (\<lambda>e.
       bnd (if fi_size f > i_size (nb_node e) then on_fs (expand (fi_ino f) (fi_size f)) else ret ()) (\<lambda>_.
       bnd (on_fs (nc_set_node h (\<lambda>n. set_mtime (fi_mtime f) (set_atime (fi_atime f) n)))) (\<lambda>_.
       on_fs (nc_mark_dirty h)))))))"

section \<open>Reading and writing pages\<close>

text \<open>The page is marked as ready before its content is there.\<close>

definition prepare_page_content :: "ssd_search \<Rightarrow> nat \<Rightarrow> u32 \<Rightarrow> u32 \<Rightarrow> (iosys, unit) prog" where
  "prepare_page_content srch fuel p page =
     bnd (on_pages p (pc_page page)) (\<lambda>pe.
     if pg_state pe = Page_ready then ret ()
     else
       bnd (on_pages p (pc_write page (\<lambda>e. e\<lparr>pg_state := Page_ready\<rparr>))) (\<lambda>_.
       bnd (fo_file p) (\<lambda>f.
       bnd (on_fs (get_node_entry (fi_ino f) INVALID_NID)) (\<lambda>h.
       scoped (on_fs (nc_handle_dtor (Some h))) (
         bnd (on_fs (nc_entry h)) (\<lambda>e.
         let max_blkoff_in_inode = SIZE_TO_BLOCK (i_size (nb_node e)) - 1 in
         if ucast (pg_blkoff pe) > max_blkoff_in_inode
         then on_pages p (pc_write page (\<lambda>e. e\<lparr>pg_lpa := INVALID_LPA\<rparr>))
         else
           bnd (on_fs (get_addr_of_block srch fuel (fi_ino f) (pg_blkoff pe))) (\<lambda>addr.
           scoped (on_fs (nc_handle_dtor (bai_nid_handle addr))) (
             if bai_lpa addr = INVALID_LPA
             then on_pages p (pc_write page (\<lambda>e. e\<lparr>pg_lpa := INVALID_LPA\<rparr>))
             else
               bnd (on_pages p (pc_write page (\<lambda>e. e\<lparr>pg_lpa := bai_lpa addr\<rparr>))) (\<lambda>_.
               bnd (reads (\<lambda>s. io_data s (bai_lpa addr))) (\<lambda>r.
                 case r of
                   None \<Rightarrow> fail (Throw Io_error)
                 | Some b \<Rightarrow> on_pages p (pc_write page (\<lambda>e. e\<lparr>pg_data := b\<rparr>))))))))))))"

definition idx_of_blk :: "u64 \<Rightarrow> u32" where "idx_of_blk pos = ucast (pos div 4096)"
definition off_in_blk :: "u64 \<Rightarrow> u32" where "off_in_blk pos = ucast (pos mod 4096)"
definition end_pos_of_cur_blk :: "u64 \<Rightarrow> u64" where
  "end_pos_of_cur_blk cur_pos = cur_pos + 4096 - ucast (off_in_blk cur_pos)"

text \<open>
  One round of the loops: the page is taken and prepared, \<open>use\<close> copies from or to it, and the
  handle of the page before is released. What was taken is released when a call throws.
\<close>

definition with_page ::
    "ssd_search \<Rightarrow> nat \<Rightarrow> u32 \<Rightarrow> u32 option \<Rightarrow> u32 \<Rightarrow> (u32 \<Rightarrow> (page_cache, 'a) prog) \<Rightarrow> (iosys, 'a) prog" where
  "with_page srch fuel p pre_page cur_blkno act =
     bnd (on_throw (on_pages p (pc_handle_dtor pre_page)) (on_pages p (pc_get cur_blkno))) (\<lambda>cur_page.
     on_throw (on_pages p (pc_handle_dtor pre_page)) (
     on_throw (on_pages p (pc_handle_dtor (Some cur_page))) (
       bnd (prepare_page_content srch fuel p cur_page) (\<lambda>_.
       bnd (on_pages p (act cur_page)) (\<lambda>x.
       bnd (on_pages p (pc_handle_move_assign pre_page (Some cur_page))) (\<lambda>_.
       ret x))))))"

definition copy_from_page :: "nat \<Rightarrow> nat \<Rightarrow> u32 \<Rightarrow> (page_cache, u8 list) prog" where
  "copy_from_page off cnt page = bnd (pc_page page) (\<lambda>e. ret (take cnt (drop off (pg_data e))))"

definition copy_to_page :: "nat \<Rightarrow> u8 list \<Rightarrow> u32 \<Rightarrow> (page_cache, unit) prog" where
  "copy_to_page off bs page =
     bnd (pc_write page (\<lambda>e. e\<lparr>pg_data := take off (pg_data e) @ bs @ drop (off + length bs) (pg_data e)\<rparr>)) (\<lambda>_.
     pc_mark_dirty page)"

text \<open>The bytes read are the result; \<open>pre_page\<close> is destroyed at the end.\<close>

function file_read_loop :: "ssd_search \<Rightarrow> nat \<Rightarrow> u32 \<Rightarrow> u64 \<Rightarrow> u32 option \<Rightarrow> u64 \<Rightarrow> (iosys, u8 list) prog" where
  "file_read_loop srch fuel p read_end_pos pre_page pos s =
     (if pos < read_end_pos then
        let cur_blkno = idx_of_blk pos; end_pos = min (end_pos_of_cur_blk pos) read_end_pos in
        if \<not> (end_pos > pos \<and> end_pos - pos \<le> 4096) then (Inl Assert_failed, s)
        else
          (case with_page srch fuel p pre_page cur_blkno
                  (copy_from_page (unat (off_in_blk pos)) (unat (end_pos - pos))) s of
             (Inl f, s1) \<Rightarrow> (Inl f, s1)
           | (Inr bs, s1) \<Rightarrow>
               (case file_read_loop srch fuel p read_end_pos (Some cur_blkno) end_pos s1 of
                  (Inl f, s2) \<Rightarrow> (Inl f, s2)
                | (Inr rest, s2) \<Rightarrow> (Inr (bs @ rest), s2)))
      else bnd (on_pages p (pc_handle_dtor pre_page)) (\<lambda>_. ret []) s)"
  by pat_completeness auto
termination
  by (relation "measure (\<lambda>(srch, fuel, p, e, pre, pos, s). unat e - unat pos)")
     (auto simp: word_less_nat_alt word_le_nat_alt min_def split: if_splits)

declare file_read_loop.simps [simp del]

definition file_read :: "ssd_search \<Rightarrow> nat \<Rightarrow> timespec \<Rightarrow> u32 \<Rightarrow> u64 \<Rightarrow> u64 \<Rightarrow> (iosys, u8 list) prog" where
  "file_read srch fuel t p count pos =
     bnd (fo_file p) (\<lambda>f.
     bnd (file_read_loop srch fuel p (min (fi_size f) (pos + count)) None pos) (\<lambda>bs.
     bnd (file_mark_access t p) (\<lambda>_.
     ret bs)))"

text \<open>\<open>buffer\<close> is what is left to write; \<^verbatim>\<open>write_count < count\<close> says that it is not empty.\<close>

function file_write_loop :: "ssd_search \<Rightarrow> nat \<Rightarrow> u32 \<Rightarrow> u64 \<Rightarrow> u32 option \<Rightarrow> u8 list \<Rightarrow> u64 \<Rightarrow> (iosys, unit) prog" where
  "file_write_loop srch fuel p write_end_pos pre_page buffer pos s =
     (if buffer \<noteq> [] then
        if \<not> pos < write_end_pos then (Inl Assert_failed, s)
        else
          let cur_blkno = idx_of_blk pos; end_pos = min (end_pos_of_cur_blk pos) write_end_pos in
          if \<not> (end_pos > pos \<and> end_pos - pos \<le> 4096) then (Inl Assert_failed, s)
          else
            (case with_page srch fuel p pre_page cur_blkno
                    (copy_to_page (unat (off_in_blk pos)) (take (unat (end_pos - pos)) buffer)) s of
               (Inl f, s1) \<Rightarrow> (Inl f, s1)
             | (Inr _, s1) \<Rightarrow>
                 file_write_loop srch fuel p write_end_pos (Some cur_blkno) (drop (unat (end_pos - pos)) buffer) end_pos s1)
      else on_pages p (pc_handle_dtor pre_page) s)"
  by pat_completeness auto
termination
  by (relation "measure (\<lambda>(srch, fuel, p, e, pre, buf, pos, s). unat e - unat pos)")
     (auto simp: word_less_nat_alt word_le_nat_alt min_def split: if_splits)

declare file_write_loop.simps [simp del]

definition file_write :: "ssd_search \<Rightarrow> nat \<Rightarrow> timespec \<Rightarrow> u32 \<Rightarrow> u8 list \<Rightarrow> u64 \<Rightarrow> (iosys, nat) prog" where
  "file_write srch fuel t p buffer pos =
     (let write_end_pos = pos + word_of_nat (length buffer) in
      bnd (file_write_loop srch fuel p write_end_pos None buffer pos) (\<lambda>_.
      bnd (set_cur_size_if_larger write_end_pos p) (\<lambda>_.
      bnd (file_mark_modified t p) (\<lambda>_.
      ret (length buffer)))))"

definition file_truncate :: "timespec \<Rightarrow> u32 \<Rightarrow> u64 \<Rightarrow> (iosys, bool) prog" where
  "file_truncate t p tar_size =
     bnd (fo_file p) (\<lambda>f.
     bnd (on_fs (get_node_entry (fi_ino f) INVALID_NID)) (\<lambda>h.
     scoped (on_fs (nc_handle_dtor (Some h))) (
       bnd (on_fs (nc_entry h)) (\<lambda>e.
       let sz = i_size (nb_node e) in
       if sz = tar_size then ret False
       else
         bnd (if sz < tar_size then on_fs (expand (fi_ino f) tar_size) else on_fs (reduce (fi_ino f) tar_size)) (\<lambda>_.
         bnd (fo_write p (\<lambda>f. f\<lparr>fi_size := tar_size\<rparr>)) (\<lambda>_.
         bnd (file_mark_modified t p) (\<lambda>_.
         bnd (on_pages p (pc_truncate (ucast (SIZE_TO_BLOCK tar_size - 1)))) (\<lambda>_.
         ret True))))))))"

end
