(* ===== verification/File_Cache.thy ===== *)
theory File_Cache
  imports File_Objects
begin

unbundle bit_operations_syntax

text \<open>
  The cache of file objects and its handles (\<^verbatim>\<open>src/fs/file.cc\<close>), writing a file back, the link
  counters and opened files.
\<close>

section \<open>The cache of file objects\<close>

definition fo_add_refcount :: "u32 \<Rightarrow> (iosys, unit) prog" where
  "fo_add_refcount p =
     bnd (fo_write p (\<lambda>f. f\<lparr>fi_ref_count := fi_ref_count f + 1\<rparr>)) (\<lambda>_.
     bnd (fo_file p) (\<lambda>f.
     if fi_ref_count f = 1 then fo_on_mgr (cm_pin (fi_ino f)) else ret ()))"

definition fo_sub_refcount :: "u32 \<Rightarrow> (iosys, unit) prog" where
  "fo_sub_refcount p =
     bnd (fo_write p (\<lambda>f. f\<lparr>fi_ref_count := fi_ref_count f - 1\<rparr>)) (\<lambda>_.
     bnd (fo_file p) (\<lambda>f.
     if fi_ref_count f = 0 then fo_on_mgr (cm_unpin (fi_ino f)) else ret ()))"

definition fo_do_replace :: "(iosys, unit) prog" where
  "fo_do_replace = (\<lambda>s.
     if fo_cur s > fo_expect s then
       (case cm_evict (\<lambda>f. fi_ref_count f = 0) (fo_expect s) (fo_cur s) (fo_mgr s) of
          Inl e \<Rightarrow> (Inl e, s)
        | Inr (n, m) \<Rightarrow> (Inr (), s\<lparr>fo_mgr := m, fo_cur := n\<rparr>))
     else (Inr (), s))"

definition fo_get_raw :: "u32 \<Rightarrow> (iosys, file_obj option) prog" where
  "fo_get_raw ino = (\<lambda>s.
     case cm_get ino True (fo_mgr s) of Inl e \<Rightarrow> (Inl e, s) | Inr (f, m) \<Rightarrow> (Inr f, s\<lparr>fo_mgr := m\<rparr>))"

definition fo_add :: "file_obj \<Rightarrow> u32 \<Rightarrow> (iosys, u32) prog" where
  "fo_add junk ino =
     bnd (fo_get_raw ino) (\<lambda>r.
     bnd (assert_that (r = None)) (\<lambda>_.
     bnd (reads page_cache_size) (\<lambda>n.
     bnd (fo_on_mgr (cm_add ino (file_init junk ino n))) (\<lambda>_.
     bnd (modify (\<lambda>s. s\<lparr>fo_cur := Suc (fo_cur s)\<rparr>)) (\<lambda>_.
     bnd (fo_add_refcount ino) (\<lambda>_.
     bnd fo_do_replace (\<lambda>_.
     ret ino)))))))"

definition fo_get :: "u32 \<Rightarrow> (iosys, u32 option) prog" where
  "fo_get ino =
     bnd (fo_get_raw ino) (\<lambda>r.
     if r = None then ret None else bnd (fo_add_refcount ino) (\<lambda>_. ret (Some ino)))"

definition fo_contains :: "u32 \<Rightarrow> (iosys, bool) prog" where
  "fo_contains ino = bnd (fo_get_raw ino) (\<lambda>r. ret (r \<noteq> None))"

definition fo_handle_dtor :: "u32 option \<Rightarrow> (iosys, unit) prog" where
  "fo_handle_dtor h = (case h of None \<Rightarrow> ret () | Some p \<Rightarrow> catch_all (fo_sub_refcount p))"

definition fo_handle_copy :: "u32 option \<Rightarrow> (iosys, u32 option) prog" where
  "fo_handle_copy h = bnd (case h of None \<Rightarrow> ret () | Some p \<Rightarrow> fo_add_refcount p) (\<lambda>_. ret h)"

definition fo_handle_assign :: "u32 option \<Rightarrow> u32 option \<Rightarrow> (iosys, u32 option) prog" where
  "fo_handle_assign dst src =
     bnd (case dst of None \<Rightarrow> ret () | Some p \<Rightarrow> fo_sub_refcount p) (\<lambda>_. fo_handle_copy src)"

definition fo_handle_move_assign :: "u32 option \<Rightarrow> u32 option \<Rightarrow> (iosys, u32 option) prog" where
  "fo_handle_move_assign dst src =
     bnd (case dst of None \<Rightarrow> ret () | Some p \<Rightarrow> fo_sub_refcount p) (\<lambda>_. ret src)"

section \<open>Dirty files\<close>

definition add_to_dirty_files :: "u32 \<Rightarrow> (iosys, unit) prog" where
  "add_to_dirty_files p =
     bnd (fo_file p) (\<lambda>f.
     bnd (reads fo_dirty) (\<lambda>d.
     bnd (assert_that (fi_ino f \<notin> set d)) (\<lambda>_.
     bnd (fo_add_refcount p) (\<lambda>_.
     modify (\<lambda>s. s\<lparr>fo_dirty := fo_dirty s @ [fi_ino f]\<rparr>)))))"

text \<open>Erasing the element destroys the handle in it.\<close>

definition erase_dirty_file :: "u32 \<Rightarrow> (iosys, unit) prog" where
  "erase_dirty_file ino =
     bnd (reads fo_dirty) (\<lambda>d.
     bnd (assert_that (ino \<in> set d)) (\<lambda>_.
     bnd (modify (\<lambda>s. s\<lparr>fo_dirty := remove1 ino (fo_dirty s)\<rparr>)) (\<lambda>_.
     fo_handle_dtor (Some ino))))"

definition remove_from_dirty_files :: "u32 \<Rightarrow> (iosys, unit) prog" where
  "remove_from_dirty_files p = bnd (fo_file p) (\<lambda>f. erase_dirty_file (fi_ino f))"

definition fh_mark_dirty :: "u32 \<Rightarrow> (iosys, unit) prog" where
  "fh_mark_dirty p = bnd (file_mark_dirty p) (\<lambda>b. if b then add_to_dirty_files p else ret ())"

definition fh_clear_dirty :: "u32 \<Rightarrow> (iosys, unit) prog" where
  "fh_clear_dirty p =
     bnd (fo_file p) (\<lambda>f.
     if fi_dirty f then
       bnd (fo_write p (\<lambda>f. f\<lparr>fi_dirty := False\<rparr>)) (\<lambda>_. remove_from_dirty_files p)
     else ret ())"

fun fo_clean :: "u32 list \<Rightarrow> (iosys, unit) prog" where
  "fo_clean [] = ret ()"
| "fo_clean (p # ps) = bnd (fo_write p (\<lambda>f. f\<lparr>fi_dirty := False\<rparr>)) (\<lambda>_. fo_clean ps)"

text \<open>The handles of the dirty files go to the caller.\<close>

definition get_and_clear_dirty_files :: "(iosys, u32 list) prog" where
  "get_and_clear_dirty_files =
     bnd (reads fo_dirty) (\<lambda>d.
     bnd (fo_clean d) (\<lambda>_.
     bnd (modify (\<lambda>s. s\<lparr>fo_dirty := []\<rparr>)) (\<lambda>_.
     ret d)))"

definition remove_file :: "u32 \<Rightarrow> (iosys, unit) prog" where
  "remove_file p =
     bnd (fo_file p) (\<lambda>f.
     bnd (if fi_dirty f then
            bnd (erase_dirty_file (fi_ino f)) (\<lambda>_. fo_write p (\<lambda>f. f\<lparr>fi_dirty := False\<rparr>))
          else ret ()) (\<lambda>_.
     bnd (fo_file p) (\<lambda>f.
     bnd (assert_that (fi_ref_count f = 1)) (\<lambda>_.
     bnd (fo_write p (\<lambda>f. f\<lparr>fi_ref_count := 0\<rparr>)) (\<lambda>_.
     bnd (fo_on_mgr (cm_unpin (fi_ino f))) (\<lambda>_.
     bnd (fo_on_mgr (cm_remove (fi_ino f))) (\<lambda>_.
     modify (\<lambda>s. s\<lparr>fo_cur := fo_cur s - 1\<rparr>))))))))"

definition fh_delete_file :: "u32 \<Rightarrow> (iosys, unit) prog" where
  "fh_delete_file p =
     bnd (fo_file p) (\<lambda>f.
     bnd (assert_that (fi_nlink f = 0)) (\<lambda>_.
     bnd (assert_that (fi_fd_ref_count f = 0)) (\<lambda>_.
     bnd (assert_that (fi_ref_count f \<le> 2)) (\<lambda>_.
     bnd (on_fs (delete_file (fi_ino f))) (\<lambda>_.
     remove_file p)))))"

text \<open>
  \<^verbatim>\<open>get_file_obj\<close>: the object enters the cache before its metadata is read; when the reading
  throws, the handle is released and the object stays.
\<close>

definition get_file_obj :: "file_obj \<Rightarrow> u32 \<Rightarrow> (iosys, u32) prog" where
  "get_file_obj junk ino =
     bnd (fo_get ino) (\<lambda>h.
     if h = None then
       bnd (fo_add junk ino) (\<lambda>p.
       bnd (on_throw (fo_handle_dtor (Some p)) (read_meta p)) (\<lambda>_.
       ret p))
     else ret ino)"

section \<open>Writing back\<close>

text \<open>
  \<^verbatim>\<open>do_write_back_async\<close> in two parts: the new address with the release of the old one, and
  the command. \<open>submit_ok\<close> says which commands are accepted.
\<close>

datatype block_type = Node_block | Data_block

definition new_write_back_lpa :: "block_type \<Rightarrow> u32 \<Rightarrow> (fsys, u32) prog" where
  "new_write_back_lpa type lpa =
     bnd (on_meta (if type = Data_block then alloc_data_lpa else alloc_node_lpa)) (\<lambda>new_lpa.
     bnd (if lpa \<noteq> INVALID_LPA then on_meta (invalidate_lpa lpa) else ret ()) (\<lambda>_.
     ret new_lpa))"

definition write_page_async :: "(u32 \<Rightarrow> bool) \<Rightarrow> (u32 \<Rightarrow> comm_cmd_result) \<Rightarrow> u32 \<Rightarrow> u32 \<Rightarrow> (iosys, u32) prog" where
  "write_page_async submit_ok res p page =
     bnd (on_pages p (pc_page page)) (\<lambda>e.
     bnd (on_fs (new_write_back_lpa Data_block (pg_lpa e))) (\<lambda>new_lpa.
     bnd (on_pages p (pc_write page (\<lambda>e. e\<lparr>pg_lpa := new_lpa\<rparr>))) (\<lambda>_.
     if \<not> submit_ok new_lpa then fail (Throw Io_error)
     else
       bnd (modify (\<lambda>s. if res new_lpa = COMM_CMD_SUCCESS then s\<lparr>io_data := (io_data s)(new_lpa \<mapsto> pg_data e)\<rparr> else s)) (\<lambda>_.
       ret new_lpa))))"

text \<open>The loop over the dirty pages gives the results of the commands.\<close>

fun write_back_pages ::
    "ssd_search \<Rightarrow> nat \<Rightarrow> (u32 \<Rightarrow> bool) \<Rightarrow> (u32 \<Rightarrow> comm_cmd_result) \<Rightarrow> u32 \<Rightarrow> u32 list \<Rightarrow> (iosys, comm_cmd_result list) prog" where
  "write_back_pages srch fuel submit_ok res p [] = ret []"
| "write_back_pages srch fuel submit_ok res p (page # pages) =
     bnd (write_page_async submit_ok res p page) (\<lambda>new_lpa.
     under_way True (
     bnd (fo_file p) (\<lambda>f.
     bnd (on_pages p (pc_page page)) (\<lambda>e.
     bnd (assert_that (new_lpa = pg_lpa e)) (\<lambda>_.
     bnd (on_fs (update_block_mapping srch fuel (fi_ino f) (pg_blkoff e) new_lpa)) (\<lambda>addr.
     bnd (scoped (on_fs (nc_handle_dtor (bai_nid_handle addr)))
            (on_srmap (write_srmap_of_data new_lpa (fi_ino f) (pg_blkoff e)))) (\<lambda>_.
     bnd (write_back_pages srch fuel submit_ok res p pages) (\<lambda>rs.
     ret (res new_lpa # rs)))))))))"

definition file_write_back ::
    "ssd_search \<Rightarrow> nat \<Rightarrow> (u32 \<Rightarrow> bool) \<Rightarrow> (u32 \<Rightarrow> comm_cmd_result) \<Rightarrow> u32 \<Rightarrow> (iosys, unit) prog" where
  "file_write_back srch fuel submit_ok res p =
     bnd (update_meta_to_inode p) (\<lambda>_.
     bnd (on_pages p (reads pc_dirty)) (\<lambda>pages.
     bnd (write_back_pages srch fuel submit_ok res p pages) (\<lambda>rs.
     case vio_cplt (fold cplt_once rs (vecio_init (word_of_nat (length pages)))) of
       None \<Rightarrow> fail Still_running
     | Some r \<Rightarrow>
         if r \<noteq> COMM_CMD_SUCCESS then fail (Throw Io_error)
         else on_pages p clear_dirty_pages)))"

definition fh_write_back ::
    "ssd_search \<Rightarrow> nat \<Rightarrow> (u32 \<Rightarrow> bool) \<Rightarrow> (u32 \<Rightarrow> comm_cmd_result) \<Rightarrow> u32 \<Rightarrow> (iosys, unit) prog" where
  "fh_write_back srch fuel submit_ok res p =
     bnd (fh_clear_dirty p) (\<lambda>_. file_write_back srch fuel submit_ok res p)"

section \<open>Link counters\<close>

text \<open>
  \<^verbatim>\<open>sub_nlink\<close> and \<^verbatim>\<open>add_nlink\<close> differ in the assertion and in the direction; a cached file object
  follows the inode.
\<close>

definition change_nlink :: "(u32 \<Rightarrow> bool) \<Rightarrow> (u32 \<Rightarrow> u32) \<Rightarrow> u32 \<Rightarrow> (iosys, u32) prog" where
  "change_nlink ok g ino =
     bnd (on_fs (get_node_entry ino INVALID_NID)) (\<lambda>h.
     scoped (on_fs (nc_handle_dtor (Some h))) (
       bnd (on_fs (nc_entry h)) (\<lambda>e.
       bnd (assert_that (ok (i_nlink (nb_node e)))) (\<lambda>_.
       bnd (on_fs (nc_set_node h (\<lambda>n. set_wd 2 (g (i_nlink n)) n))) (\<lambda>_.
       bnd (on_fs (nc_mark_dirty h)) (\<lambda>_.
       bnd (on_fs (nc_entry h)) (\<lambda>e.
       bnd (if i_type (nb_node e) = HSCFS_FT_REG_FILE then
              bnd (fo_contains ino) (\<lambda>b.
              if b then
                bnd (fo_get ino) (\<lambda>fh.
                scoped (fo_handle_dtor fh) (
                  bnd (assert_that (fh \<noteq> None)) (\<lambda>_.
                  bnd (fo_write ino (\<lambda>f. f\<lparr>fi_nlink := g (fi_nlink f)\<rparr>)) (\<lambda>_.
                  bnd (fo_file ino) (\<lambda>f.
                  assert_that (fi_nlink f = i_nlink (nb_node e)))))))
              else ret ())
            else ret ()) (\<lambda>_.
       ret (i_nlink (nb_node e))))))))))"

definition sub_nlink :: "u32 \<Rightarrow> (iosys, u32) prog" where
  "sub_nlink = change_nlink (\<lambda>n. n \<ge> 1) (\<lambda>n. n - 1)"

definition add_nlink :: "u32 \<Rightarrow> (iosys, u32) prog" where
  "add_nlink = change_nlink (\<lambda>_. True) (\<lambda>n. n + 1)"

section \<open>Opened files\<close>

abbreviation O_RDONLY :: u32 where "O_RDONLY \<equiv> 0"
abbreviation O_WRONLY :: u32 where "O_WRONLY \<equiv> 1"
abbreviation O_RDWR :: u32 where "O_RDWR \<equiv> 2"
abbreviation O_CREAT :: u32 where "O_CREAT \<equiv> 64"
abbreviation O_TRUNC :: u32 where "O_TRUNC \<equiv> 512"
abbreviation O_APPEND :: u32 where "O_APPEND \<equiv> 1024"

record opened_file =
  of_flags :: u32
  of_pos :: u64
  of_file :: u32

datatype rw_operation = Rw_read | Rw_write

definition opened_file_init :: "u32 \<Rightarrow> u32 \<Rightarrow> (iosys, opened_file) prog" where
  "opened_file_init flags file =
     bnd (fo_handle_copy (Some file)) (\<lambda>_.
     bnd (fo_write file (\<lambda>f. f\<lparr>fi_fd_ref_count := fi_fd_ref_count f + 1\<rparr>)) (\<lambda>_.
     ret \<lparr>of_flags = flags, of_pos = 0, of_file = file\<rparr>))"

text \<open>The methods of an opened file work on the object and on the file system.\<close>

type_synonym 'a of_prog = "(iosys \<times> opened_file, 'a) prog"

definition on_io :: "(iosys, 'a) prog \<Rightarrow> 'a of_prog" where
  "on_io m = (\<lambda>(s, f). case m s of (r, s') \<Rightarrow> (r, (s', f)))"

definition set_pos :: "u64 \<Rightarrow> unit of_prog" where
  "set_pos pos = modify (\<lambda>(s, f). (s, f\<lparr>of_pos := pos\<rparr>))"

definition rw_check_flags :: "rw_operation \<Rightarrow> unit of_prog" where
  "rw_check_flags op =
     bnd (reads (\<lambda>s. of_flags (snd s) AND 3)) (\<lambda>rw_flag.
     if op = Rw_read
     then (if rw_flag = O_WRONLY then fail (Throw Rw_conflict_with_open_flag) else ret ())
     else (if rw_flag = O_RDONLY then fail (Throw Rw_conflict_with_open_flag) else ret ()))"

text \<open>The count is signed; the result is what was read.\<close>

definition opened_read :: "ssd_search \<Rightarrow> nat \<Rightarrow> timespec \<Rightarrow> int \<Rightarrow> u8 list of_prog" where
  "opened_read srch fuel t count =
     bnd (rw_check_flags Rw_read) (\<lambda>_.
     bnd (reads snd) (\<lambda>f.
     bnd (on_io (file_read srch fuel t (of_file f) (word_of_int (max 0 count)) (of_pos f))) (\<lambda>bs.
     bnd (on_io (fh_mark_dirty (of_file f))) (\<lambda>_.
     bnd (set_pos (of_pos f + word_of_nat (length bs))) (\<lambda>_.
     ret bs)))))"

text \<open>The buffer holds at least \<open>count\<close> bytes; appending moves to the end first.\<close>

definition opened_write :: "ssd_search \<Rightarrow> nat \<Rightarrow> timespec \<Rightarrow> u8 list \<Rightarrow> int \<Rightarrow> nat of_prog" where
  "opened_write srch fuel t buffer count =
     bnd (rw_check_flags Rw_write) (\<lambda>_.
     bnd (reads snd) (\<lambda>f.
     bnd (if of_flags f AND O_APPEND \<noteq> 0
          then bnd (on_io (fo_file (of_file f))) (\<lambda>fo. set_pos (fi_size fo)) else ret ()) (\<lambda>_.
     bnd (reads (\<lambda>s. of_pos (snd s))) (\<lambda>pos.
     bnd (on_io (file_write srch fuel t (of_file f) (take (nat (max 0 count)) buffer) pos)) (\<lambda>num_write.
     bnd (on_io (fh_mark_dirty (of_file f))) (\<lambda>_.
     bnd (set_pos (pos + word_of_nat num_write)) (\<lambda>_.
     ret num_write)))))))"

text \<open>Whence is 0 for the start, 1 for the current position and 2 for the end.\<close>

definition set_rw_pos :: "int \<Rightarrow> int \<Rightarrow> u64 of_prog" where
  "set_rw_pos offset whence =
     bnd (reads snd) (\<lambda>f.
     bnd (if whence = 0 then set_pos (word_of_int offset)
          else if whence = 1 then set_pos (of_pos f + word_of_int offset)
          else if whence = 2 then bnd (on_io (fo_file (of_file f))) (\<lambda>fo. set_pos (fi_size fo + word_of_int offset))
          else ret ()) (\<lambda>_.
     reads (\<lambda>s. of_pos (snd s))))"

end
