(* ===== verification/Page_Cache_Inv.thy ===== *)
theory Page_Cache_Inv
  imports Page_Cache
begin

text \<open>
  The invariant of the page cache: a reference count is the number of handles and one for a
  dirty page, exactly the pages without references can be replaced, and a dirty page holds
  valid content. A release that has lowered the count to zero and has not yet looked again keeps
  its page from being replaced; \<open>P\<close> is the set of these pages. Every operation keeps the invariant;
  what a dirty page or a page with a handle holds survives every replacement.
\<close>

section \<open>Invariant\<close>

abbreviation pc_ix :: "page_cache \<Rightarrow> u32 \<rightharpoonup> page_entry" where "pc_ix c \<equiv> cm_index (pc_mgr c)"

definition pc_entry_ok :: "(u32 \<Rightarrow> nat) \<Rightarrow> u32 set \<Rightarrow> u32 \<Rightarrow> page_entry \<Rightarrow> bool" where
  "pc_entry_ok ext D k e \<longleftrightarrow> pg_blkoff e = k \<and> length (pg_data e) = 4096 \<and> (pg_dirty e \<longleftrightarrow> k \<in> D) \<and>
     (pg_dirty e \<longrightarrow> pg_state e = Page_ready) \<and> unat (pg_ref_count e) = ext k + of_bool (k \<in> D)"

definition pc_invp :: "(u32 \<Rightarrow> nat) \<Rightarrow> u32 set \<Rightarrow> page_cache \<Rightarrow> bool" where
  "pc_invp ext P c \<longleftrightarrow> cm_inv (pc_mgr c) \<and> sorted (pc_dirty c) \<and> distinct (pc_dirty c) \<and>
     set (pc_dirty c) \<subseteq> dom (pc_ix c) \<and> (\<forall>k. ext k \<noteq> 0 \<longrightarrow> k \<in> dom (pc_ix c)) \<and> P \<subseteq> dom (pc_ix c) \<and>
     (\<forall>k e. pc_ix c k = Some e \<longrightarrow> pc_entry_ok ext (set (pc_dirty c)) k e) \<and>
     set (cm_cands (pc_mgr c)) = {k \<in> dom (pc_ix c). ext k = 0 \<and> k \<notin> set (pc_dirty c) \<and> k \<notin> P}"

text \<open>Between operations that do not overlap, no release is under way.\<close>

abbreviation pc_inv :: "(u32 \<Rightarrow> nat) \<Rightarrow> page_cache \<Rightarrow> bool" where "pc_inv ext \<equiv> pc_invp ext {}"

text \<open>What a page holds, without its reference count.\<close>

definition pc_content :: "page_cache \<Rightarrow> u32 \<Rightarrow> (u32 \<times> page_state \<times> u8 list) option" where
  "pc_content c k = map_option (\<lambda>e. (pg_lpa e, pg_state e, pg_data e)) (pc_ix c k)"

lemma pc_invD:
  assumes "pc_invp ext P c"
  shows "cm_inv (pc_mgr c)" "sorted (pc_dirty c)" "distinct (pc_dirty c)" "set (pc_dirty c) \<subseteq> dom (pc_ix c)"
    "ext k \<noteq> 0 \<Longrightarrow> k \<in> dom (pc_ix c)" "pc_ix c k = Some e \<Longrightarrow> pc_entry_ok ext (set (pc_dirty c)) k e"
    "set (cm_cands (pc_mgr c)) = {k \<in> dom (pc_ix c). ext k = 0 \<and> k \<notin> set (pc_dirty c) \<and> k \<notin> P}" "P \<subseteq> dom (pc_ix c)"
  using assms by (auto simp: pc_invp_def)

lemma pc_held: "pc_invp ext P c \<Longrightarrow> ext k \<noteq> 0 \<Longrightarrow> \<exists>e. pc_ix c k = Some e" 
  using pc_invD(5) by blast

lemma pc_init_inv: "pc_inv (\<lambda>_. 0) (page_cache_init n)"
  by (simp add: pc_invp_def page_cache_init_def)

text \<open>
  An entry is rewritten and the replacer changes: the invariant for new handle counts and a
  new set of dirty pages.
\<close>

lemma pc_inv_change:
  assumes "pc_invp ext P c" "pc_ix c k = Some e" "cm_inv m" "cm_index m = (pc_ix c)(k \<mapsto> e')"
    "pc_entry_ok ext' (set d) k e'" "\<forall>j. j \<noteq> k \<longrightarrow> ext' j = ext j \<and> (j \<in> set d \<longleftrightarrow> j \<in> set (pc_dirty c)) \<and> (j \<in> P' \<longleftrightarrow> j \<in> P)"
    "sorted d" "distinct d"
    "set (cm_cands m) = (if ext' k = 0 \<and> k \<notin> set d \<and> k \<notin> P' then insert k (set (cm_cands (pc_mgr c)))
       else set (cm_cands (pc_mgr c)) - {k})"
  shows "pc_invp ext' P' (c\<lparr>pc_mgr := m, pc_dirty := d\<rparr>)"
proof -
  note I = pc_invD [OF assms(1)]
  have "pc_entry_ok ext' (set d) j x" if "(if j = k then Some e' else pc_ix c j) = Some x" for j x
    using that assms(5,6) I(6) [of j x] by (auto simp: pc_entry_ok_def split: if_splits)
  moreover have "set d \<subseteq> insert k (dom (pc_ix c))" using I(4) assms(6) by blast
  moreover have "P' \<subseteq> insert k (dom (pc_ix c))" using I(8) assms(6) by blast
  moreover have "j \<in> insert k (dom (pc_ix c))" if "ext' j \<noteq> 0" for j
    using I(5) [of j] that assms(6) by (cases "j = k") auto
  moreover have "set (cm_cands m) = {j. (j = k \<or> j \<in> dom (pc_ix c)) \<and> ext' j = 0 \<and> j \<notin> set d \<and> j \<notin> P'}"
  proof (rule set_eqI)
    fix j
    show "j \<in> set (cm_cands m) \<longleftrightarrow> j \<in> {j. (j = k \<or> j \<in> dom (pc_ix c)) \<and> ext' j = 0 \<and> j \<notin> set d \<and> j \<notin> P'}"
      using assms(2) assms(6) [rule_format, of j] unfolding assms(9) I(7) by (cases "j = k") auto
  qed
  ultimately show ?thesis using assms(3,4,7,8) by (auto simp: pc_invp_def)
qed

lemma pc_add_refcount_ok:
  assumes inv: "pc_invp ext P c" and k: "k \<in> dom (pc_ix c)" and room: "ext k + 2 < 2 ^ 32"
  shows "\<exists>m. pc_add_refcount k c = (Inr (), c\<lparr>pc_mgr := m\<rparr>) \<and> pc_invp (ext(k := Suc (ext k))) P (c\<lparr>pc_mgr := m\<rparr>) \<and>
    pc_content (c\<lparr>pc_mgr := m\<rparr>) = pc_content c"
proof -
  note I = pc_invD [OF inv]
  obtain e where e: "pc_ix c k = Some e" using k by blast
  let ?e = "e\<lparr>pg_ref_count := pg_ref_count e + 1\<rparr>" and ?m = "cm_update k (\<lambda>e. e\<lparr>pg_ref_count := pg_ref_count e + 1\<rparr>) (pc_mgr c)"
  have ok: "pc_entry_ok ext (set (pc_dirty c)) k e" using I(6) e by blast
  then have ru: "unat (pg_ref_count e) = ext k + of_bool (k \<in> set (pc_dirty c))" by (simp add: pc_entry_ok_def)
  then have "unat (pg_ref_count e) < 2 ^ 32 - 1" using room by (cases "k \<in> set (pc_dirty c)") simp_all
  then have "pg_ref_count e \<noteq> - 1" by (auto simp: unat_u32_max)
  then have "unat (pg_ref_count e + 1) = Suc (unat (pg_ref_count e))" by (rule unat_u32_inc)
  then have ok': "pc_entry_ok (ext(k := Suc (ext k))) (set (pc_dirty c)) k ?e"
    using ok by (simp add: pc_entry_ok_def)
  have z: "pg_ref_count e = 0 \<longleftrightarrow> ext k = 0 \<and> k \<notin> set (pc_dirty c)" using ru by (auto simp: unat_eq_0 [symmetric])
  have ix: "cm_index ?m = (pc_ix c)(k \<mapsto> ?e)" using e by simp
  have cont: "pc_content (c\<lparr>pc_mgr := m\<rparr>) = pc_content c" if "cm_index m = (pc_ix c)(k \<mapsto> ?e)" for m
    using that e by (auto simp: pc_content_def fun_eq_iff)
  show ?thesis
  proof (cases "pg_ref_count e = 0")
    case True
    obtain m where m: "cm_pin k ?m = Inr m" "cm_inv m" "cm_index m = cm_index ?m"
        "set (cm_cands m) = set (cm_cands ?m) - {k}"
      using cm_pin_ok [of ?m k] I(1) e by auto
    have "pc_invp (ext(k := Suc (ext k))) P (c\<lparr>pc_mgr := m, pc_dirty := pc_dirty c\<rparr>)"
      by (rule pc_inv_change [OF inv e m(2)]) (use m ix I(2,3) ok' in auto)
    then show ?thesis
      using True e m ok z cont [of m] ix
      by (intro exI [of _ m]) (simp add: pc_add_refcount_def pc_page_def pc_write_def pc_on_mgr_def prog_simps pc_entry_ok_def)
  next
    case False
    have c: "k \<notin> set (cm_cands (pc_mgr c))" using False z unfolding I(7) by blast
    have "pc_invp (ext(k := Suc (ext k))) P (c\<lparr>pc_mgr := ?m, pc_dirty := pc_dirty c\<rparr>)"
      by (rule pc_inv_change [OF inv e]) (use I(1,2,3) ix c ok' in auto)
    then show ?thesis
      using False e cont [OF ix]
      by (intro exI [of _ ?m]) (simp add: pc_add_refcount_def pc_page_def pc_write_def prog_simps)
  qed
qed

text \<open>
  The two parts of a release. The decrement to zero makes the release pending; no other release of
  the page may be pending then.
\<close>

lemma pc_sub_dec_ok:
  assumes inv: "pc_invp ext P c" and k: "ext k \<noteq> 0"
  shows "\<exists>r m. pc_sub_dec k c = (Inr r, c\<lparr>pc_mgr := m\<rparr>) \<and> (r = 1 \<longleftrightarrow> ext k = 1 \<and> k \<notin> set (pc_dirty c)) \<and>
    pc_invp (ext(k := ext k - 1)) (if r = 1 then insert k P else P) (c\<lparr>pc_mgr := m\<rparr>) \<and>
    pc_content (c\<lparr>pc_mgr := m\<rparr>) = pc_content c"
proof -
  note I = pc_invD [OF inv]
  obtain e where e: "pc_ix c k = Some e" using pc_held [OF inv k] by blast
  let ?e = "e\<lparr>pg_ref_count := pg_ref_count e - 1\<rparr>" and ?m = "cm_update k (\<lambda>e. e\<lparr>pg_ref_count := pg_ref_count e - 1\<rparr>) (pc_mgr c)"
  let ?P = "if pg_ref_count e = 1 then insert k P else P"
  have ok: "pc_entry_ok ext (set (pc_dirty c)) k e" using I(6) e by blast
  then have ru: "unat (pg_ref_count e) = ext k + of_bool (k \<in> set (pc_dirty c))" by (simp add: pc_entry_ok_def)
  then have d: "unat (pg_ref_count e - 1) = unat (pg_ref_count e) - 1" using k unat_u32_dec [of "pg_ref_count e"] by fastforce
  then have ok': "pc_entry_ok (ext(k := ext k - 1)) (set (pc_dirty c)) k ?e"
    using ok ru k by (auto simp: pc_entry_ok_def)
  have z: "pg_ref_count e = 1 \<longleftrightarrow> ext k = 1 \<and> k \<notin> set (pc_dirty c)"
  proof -
    have "pg_ref_count e = 1 \<longleftrightarrow> unat (pg_ref_count e) = 1" by (metis unat_1 word_unat_eq_iff)
    then show ?thesis using ru k by (cases "k \<in> set (pc_dirty c)") auto
  qed
  have ix: "cm_index ?m = (pc_ix c)(k \<mapsto> ?e)" using e by simp
  have nc: "k \<notin> set (cm_cands (pc_mgr c))" using k unfolding I(7) by blast
  have np: "\<not> (ext k - 1 = 0 \<and> k \<notin> set (pc_dirty c) \<and> k \<notin> ?P)" using z k by auto
  have "pc_invp (ext(k := ext k - 1)) ?P (c\<lparr>pc_mgr := ?m, pc_dirty := pc_dirty c\<rparr>)"
    by (rule pc_inv_change [OF inv e]) (use I(1,2,3) ix nc np ok' in auto)
  then show ?thesis using e z
    by (intro exI [of _ "pg_ref_count e"] exI [of _ ?m])
      (auto simp: pc_sub_dec_def pc_page_def pc_write_def prog_simps pc_content_def fun_eq_iff)
qed

lemma pc_sub_unpin_ok:
  assumes inv: "pc_invp ext P c" and k: "k \<in> P"
  shows "\<exists>m. pc_sub_unpin k c = (Inr (), c\<lparr>pc_mgr := m\<rparr>) \<and> pc_invp ext (P - {k}) (c\<lparr>pc_mgr := m\<rparr>) \<and>
    pc_content (c\<lparr>pc_mgr := m\<rparr>) = pc_content c"
proof -
  note I = pc_invD [OF inv]
  obtain e where e: "pc_ix c k = Some e" using k I(8) by auto
  have ok: "pc_entry_ok ext (set (pc_dirty c)) k e" using I(6) e by blast
  have z: "pg_ref_count e = 0 \<longleftrightarrow> ext k = 0 \<and> k \<notin> set (pc_dirty c)"
    using ok by (auto simp: pc_entry_ok_def unat_eq_0 [symmetric])
  have nc: "k \<notin> set (cm_cands (pc_mgr c))" using k unfolding I(7) by blast
  have ix: "pc_ix c = (pc_ix c)(k \<mapsto> e)" using e by auto
  show ?thesis
  proof (cases "pg_ref_count e = 0")
    case True
    obtain m where m: "cm_unpin k (pc_mgr c) = Inr m" "cm_inv m" "cm_index m = pc_ix c"
        "set (cm_cands m) = insert k (set (cm_cands (pc_mgr c)))"
      using cm_unpin_ok [OF I(1), of k] e by auto
    have "pc_invp ext (P - {k}) (c\<lparr>pc_mgr := m, pc_dirty := pc_dirty c\<rparr>)"
      by (rule pc_inv_change [OF inv e m(2)]) (use m ix I(2,3) ok True z in auto)
    then show ?thesis using True e m ok z
      by (intro exI [of _ m])
        (simp add: pc_sub_unpin_def pc_page_def pc_on_mgr_def prog_simps pc_entry_ok_def pc_content_def fun_eq_iff)
  next
    case False
    have "pc_invp ext (P - {k}) (c\<lparr>pc_mgr := pc_mgr c, pc_dirty := pc_dirty c\<rparr>)"
      by (rule pc_inv_change [OF inv e I(1)]) (use ix I(2,3) ok False z nc in auto)
    then show ?thesis using False e
      by (intro exI [of _ "pc_mgr c"]) (simp add: pc_sub_unpin_def pc_page_def prog_simps)
  qed
qed

lemma pc_sub_refcount_ok:
  assumes inv: "pc_inv ext c" and k: "ext k \<noteq> 0"
  shows "\<exists>m. pc_sub_refcount k c = (Inr (), c\<lparr>pc_mgr := m\<rparr>) \<and> pc_inv (ext(k := ext k - 1)) (c\<lparr>pc_mgr := m\<rparr>) \<and>
    pc_content (c\<lparr>pc_mgr := m\<rparr>) = pc_content c"
proof -
  obtain r m where m: "pc_sub_dec k c = (Inr r, c\<lparr>pc_mgr := m\<rparr>)"
      "pc_invp (ext(k := ext k - 1)) (if r = 1 then {k} else {}) (c\<lparr>pc_mgr := m\<rparr>)" "pc_content (c\<lparr>pc_mgr := m\<rparr>) = pc_content c"
    using pc_sub_dec_ok [OF inv k] by auto
  show ?thesis
  proof (cases "r = 1")
    case True
    then show ?thesis using m pc_sub_unpin_ok [of "ext(k := ext k - 1)" "{k}" "c\<lparr>pc_mgr := m\<rparr>" k]
      by (auto simp: pc_sub_refcount_def prog_simps)
  next
    case False
    then show ?thesis using m by (auto simp: pc_sub_refcount_def prog_simps)
  qed
qed

text \<open>Pages without references may go; the others keep what they hold.\<close>

definition pc_survive :: "(u32 \<Rightarrow> nat) \<Rightarrow> page_cache \<Rightarrow> page_cache \<Rightarrow> bool" where
  "pc_survive ext c c' \<longleftrightarrow> pc_dirty c' = pc_dirty c \<and> pc_expect c' = pc_expect c \<and>
     (\<forall>k. pc_content c' k = pc_content c k \<or> pc_content c' k = None \<and> ext k = 0 \<and> k \<notin> set (pc_dirty c))"

lemma pc_survive_refl [simp]: "pc_survive ext c c"
  by (simp add: pc_survive_def)

lemma pc_inv_restrict:
  assumes inv: "pc_invp ext P c" and m: "cm_inv m" "cm_index m = pc_ix c |` (- K)" "K \<subseteq> set (cm_cands (pc_mgr c))"
    "set (cm_cands m) = set (cm_cands (pc_mgr c)) - K"
  shows "pc_invp ext P (c\<lparr>pc_mgr := m, pc_cur := n\<rparr>)" "pc_survive ext c (c\<lparr>pc_mgr := m, pc_cur := n\<rparr>)"
proof -
  note I = pc_invD [OF inv]
  have K: "ext k = 0 \<and> k \<notin> set (pc_dirty c) \<and> k \<notin> P" if "k \<in> K" for k using that m(3) unfolding I(7) by blast
  have d: "dom (cm_index m) = dom (pc_ix c) - K" by (auto simp: m(2) restrict_map_def split: if_splits)
  have e: "cm_index m k = Some e \<Longrightarrow> pc_ix c k = Some e" for k e by (auto simp: m(2) restrict_map_def split: if_splits)
  have "set (pc_dirty c) \<subseteq> dom (cm_index m)" using I(4) K unfolding d by blast
  moreover have "k \<in> dom (cm_index m)" if "ext k \<noteq> 0" for k using I(5) [OF that] K that unfolding d by auto
  moreover have "P \<subseteq> dom (cm_index m)" using I(8) K unfolding d by blast
  moreover have "set (cm_cands m) = {k \<in> dom (cm_index m). ext k = 0 \<and> k \<notin> set (pc_dirty c) \<and> k \<notin> P}"
    unfolding m(4) d I(7) by blast
  ultimately show "pc_invp ext P (c\<lparr>pc_mgr := m, pc_cur := n\<rparr>)"
    using I(2,3) I(6) e m(1) by (auto simp: pc_invp_def)
  show "pc_survive ext c (c\<lparr>pc_mgr := m, pc_cur := n\<rparr>)"
    using K by (auto simp: pc_survive_def pc_content_def m(2) restrict_map_def)
qed

lemma pc_do_replace_ok:
  assumes inv: "pc_invp ext P c"
  shows "\<exists>c'. pc_do_replace c = (Inr (), c') \<and> pc_invp ext P c' \<and> pc_survive ext c c'"
proof (cases "pc_cur c > pc_expect c")
  case True
  note I = pc_invD [OF inv]
  have ok: "\<forall>k e. k \<in> set (cm_cands (pc_mgr c)) \<longrightarrow> pc_ix c k = Some e \<longrightarrow> page_replaceable e"
    using I(6) unfolding I(7) by (auto simp: page_replaceable_def pc_entry_ok_def unat_eq_0 [symmetric])
  have lt: "unat (pc_expect c) < unat (pc_cur c)" using True by (simp add: word_less_nat_alt)
  define n where "n = min (length (cm_cands (pc_mgr c))) (unat (pc_cur c) - unat (pc_expect c))"
  obtain m where m: "cm_evict page_replaceable (unat (pc_expect c)) (unat (pc_cur c)) (pc_mgr c) = Inr (unat (pc_cur c) - n, m)"
      "cm_inv m" "cm_index m = pc_ix c |` (- set (take n (cm_cands (pc_mgr c))))" "cm_cands m = drop n (cm_cands (pc_mgr c))"
    using cm_evict_ok [OF I(1) ok lt] unfolding Let_def n_def by blast
  have "set (cm_cands m) = set (cm_cands (pc_mgr c)) - set (take n (cm_cands (pc_mgr c)))"
    unfolding m(4) using cm_invD(3) [OF I(1)]
    by (metis append_take_drop_id distinct_append Diff_cancel Un_Diff Un_Int_eq(3) set_append Diff_triv inf_commute sup_bot.left_neutral)
  then show ?thesis
    using pc_inv_restrict [OF inv m(2,3) set_take_subset, of "word_of_nat (unat (pc_cur c) - n)"] True m(1)
    by (auto simp: pc_do_replace_def)
next
  case False
  then show ?thesis using inv by (auto simp: pc_do_replace_def)
qed

text \<open>A page that was not cached is added without content.\<close>

lemma pc_add_page:
  assumes inv: "pc_invp ext P c" and k: "k \<notin> dom (pc_ix c)" and e: "pg_blkoff e = k" "length (pg_data e) = 4096"
    "\<not> pg_dirty e" "pg_ref_count e = 0"
  shows "\<exists>m. pc_on_mgr (cm_add k e) c = (Inr (), c\<lparr>pc_mgr := m\<rparr>) \<and> pc_invp ext P (c\<lparr>pc_mgr := m\<rparr>) \<and>
    cm_index m = (pc_ix c)(k \<mapsto> e)"
proof -
  note I = pc_invD [OF inv]
  have kn: "pc_ix c k = None" "ext k = 0" "k \<notin> set (pc_dirty c) \<and> k \<notin> P" using k I(4,8) I(5) [of k] by auto
  obtain m where m: "cm_add k e (pc_mgr c) = Inr m" "cm_inv m" "cm_index m = (pc_ix c)(k \<mapsto> e)"
      "cm_cands m = cm_cands (pc_mgr c) @ [k]"
    using cm_add_ok [OF I(1) kn(1), of e] by blast
  have "pc_entry_ok ext (set (pc_dirty c)) k e" using e kn by (simp add: pc_entry_ok_def)
  moreover have "set (pc_dirty c) \<subseteq> insert k (dom (pc_ix c))" "P \<subseteq> insert k (dom (pc_ix c))" "\<forall>j. ext j \<noteq> 0 \<longrightarrow> j \<in> insert k (dom (pc_ix c))"
    using I(4,8) I(5) by blast+
  ultimately have "pc_invp ext P (c\<lparr>pc_mgr := m\<rparr>)"
    using I(2,3) I(6) I(7) m(2) kn(2,3) unfolding pc_invp_def by (auto simp: m(3,4))
  then show ?thesis using m(1,3) by (auto simp: pc_on_mgr_def)
qed

text \<open>After \<^verbatim>\<open>get\<close>: the page is as it was, or new and without content.\<close>

definition pc_got :: "(u32 \<Rightarrow> nat) \<Rightarrow> u32 \<Rightarrow> page_cache \<Rightarrow> page_cache \<Rightarrow> bool" where
  "pc_got ext k c c' \<longleftrightarrow> pc_dirty c' = pc_dirty c \<and> pc_expect c' = pc_expect c \<and>
     (\<forall>j. j \<noteq> k \<longrightarrow> pc_content c' j = pc_content c j \<or> pc_content c' j = None \<and> ext j = 0 \<and> j \<notin> set (pc_dirty c)) \<and>
     (if pc_content c k = None then \<exists>l d. pc_content c' k = Some (l, Page_invalid, d) else pc_content c' k = pc_content c k)"

lemma pc_content_dom: "pc_content c k = None \<longleftrightarrow> k \<notin> dom (pc_ix c)"
  by (auto simp: pc_content_def)

lemma pc_inv_cur [simp]: "pc_invp ext P (c\<lparr>pc_cur := n\<rparr>) = pc_invp ext P c" "pc_content (c\<lparr>pc_cur := n\<rparr>) = pc_content c"
  by (simp_all add: pc_invp_def pc_content_def fun_eq_iff)

lemma pc_new_page_ok:
  assumes inv: "pc_invp ext P c" and k: "k \<notin> dom (pc_ix c)"
  shows "\<exists>c'. pc_new_page k c = (Inr (), c') \<and> pc_invp (ext(k := 1)) P c' \<and> pc_dirty c' = pc_dirty c \<and> pc_expect c' = pc_expect c \<and>
    pc_content c' = (pc_content c)(k \<mapsto> (0, Page_invalid, replicate 4096 0))"
proof -
  obtain m1 where m1: "pc_on_mgr (cm_add k (page_entry_init k)) c = (Inr (), c\<lparr>pc_mgr := m1\<rparr>)"
      "pc_invp ext P (c\<lparr>pc_mgr := m1\<rparr>)" "cm_index m1 = (pc_ix c)(k \<mapsto> page_entry_init k)"
    using pc_add_page [OF inv k, of "page_entry_init k"] by (auto simp: page_entry_init_def)
  have z: "ext k = 0" using pc_invD(5) [OF inv, of k] k by auto
  obtain m2 where m2: "pc_add_refcount k (c\<lparr>pc_mgr := m1\<rparr>) = (Inr (), c\<lparr>pc_mgr := m2\<rparr>)"
      "pc_invp (ext(k := Suc (ext k))) P (c\<lparr>pc_mgr := m2\<rparr>)" "pc_content (c\<lparr>pc_mgr := m2\<rparr>) = pc_content (c\<lparr>pc_mgr := m1\<rparr>)"
    using pc_add_refcount_ok [OF m1(2), of k] m1(3) z by auto
  have "pc_content (c\<lparr>pc_mgr := m1\<rparr>) = (pc_content c)(k \<mapsto> (0, Page_invalid, replicate 4096 0))"
    by (auto simp: pc_content_def m1(3) page_entry_init_def)
  then show ?thesis
    using m1(1) m2 z by (auto simp: pc_new_page_def prog_simps)
qed

lemma pc_reuse_page_ok:
  assumes inv: "pc_invp ext P c" and k: "k \<notin> dom (pc_ix c)" and v: "page_replaceable v" "length (pg_data v) = 4096"
  shows "\<exists>c'. pc_reuse_page v k c = (Inr (), c') \<and> pc_invp (ext(k := 1)) P c' \<and>
    (\<exists>c1. pc_survive (ext(k := 1)) c1 c' \<and> pc_content c1 = (pc_content c)(k \<mapsto> (pg_lpa v, Page_invalid, pg_data v)) \<and>
      pc_dirty c1 = pc_dirty c \<and> pc_expect c1 = pc_expect c)"
proof -
  let ?v = "v\<lparr>pg_blkoff := k, pg_state := Page_invalid\<rparr>"
  obtain m1 where m1: "pc_on_mgr (cm_add k ?v) c = (Inr (), c\<lparr>pc_mgr := m1\<rparr>)"
      "pc_invp ext P (c\<lparr>pc_mgr := m1\<rparr>)" "cm_index m1 = (pc_ix c)(k \<mapsto> ?v)"
    using pc_add_page [OF inv k, of ?v] v by (auto simp: page_replaceable_def)
  have z: "ext k = 0" using pc_invD(5) [OF inv, of k] k by auto
  obtain m2 where m2: "pc_add_refcount k (c\<lparr>pc_mgr := m1\<rparr>) = (Inr (), c\<lparr>pc_mgr := m2\<rparr>)"
      "pc_invp (ext(k := Suc (ext k))) P (c\<lparr>pc_mgr := m2\<rparr>)" "pc_content (c\<lparr>pc_mgr := m2\<rparr>) = pc_content (c\<lparr>pc_mgr := m1\<rparr>)"
    using pc_add_refcount_ok [OF m1(2), of k] m1(3) z by auto
  obtain c' where c': "pc_do_replace (c\<lparr>pc_mgr := m2\<rparr>) = (Inr (), c')" "pc_invp (ext(k := Suc (ext k))) P c'"
      "pc_survive (ext(k := Suc (ext k))) (c\<lparr>pc_mgr := m2\<rparr>) c'"
    using pc_do_replace_ok [OF m2(2)] by blast
  have "pc_content (c\<lparr>pc_mgr := m1\<rparr>) = (pc_content c)(k \<mapsto> (pg_lpa v, Page_invalid, pg_data v))"
    by (auto simp: pc_content_def m1(3))
  moreover have "pc_reuse_page v k c = (Inr (), c')"
    using m1(1) m2(1) c'(1) v(1) by (simp add: pc_reuse_page_def prog_simps)
  ultimately show ?thesis using c'(2,3) m2(3) z
    by (intro exI [of _ c'] conjI exI [of _ "c\<lparr>pc_mgr := m2\<rparr>"]) simp_all
qed

lemma pc_get_ok:
  assumes inv: "pc_invp ext P c" and room: "ext k + 2 < 2 ^ 32"
  shows "\<exists>c'. pc_get k c = (Inr k, c') \<and> pc_invp (ext(k := Suc (ext k))) P c' \<and> pc_got ext k c c'"
proof -
  note I = pc_invD [OF inv]
  obtain m where m: "cm_get k True (pc_mgr c) = Inr (pc_ix c k, m)" "cm_inv m" "cm_index m = pc_ix c"
      "set (cm_cands m) = set (cm_cands (pc_mgr c))"
    using cm_get_ok [OF I(1), of k True] by blast
  let ?c = "c\<lparr>pc_mgr := m\<rparr>"
  have inv1: "pc_invp ext P ?c" using inv m by (simp add: pc_invp_def)
  have cont: "pc_content ?c = pc_content c" by (simp add: pc_content_def m(3) fun_eq_iff)
  show ?thesis
  proof (cases "pc_ix c k")
    case (Some e)
    then obtain m2 where m2: "pc_add_refcount k ?c = (Inr (), ?c\<lparr>pc_mgr := m2\<rparr>)" "pc_invp (ext(k := Suc (ext k))) P (?c\<lparr>pc_mgr := m2\<rparr>)"
        "pc_content (?c\<lparr>pc_mgr := m2\<rparr>) = pc_content ?c"
      using pc_add_refcount_ok [OF inv1 _ room] m(3) by auto
    have "pc_got ext k c (?c\<lparr>pc_mgr := m2\<rparr>)" using m2(3) cont Some by (auto simp: pc_got_def pc_content_dom)
    then show ?thesis using m(1) m2 Some by (auto simp: pc_get_def prog_simps)
  next
    case None
    then have k: "k \<notin> dom (pc_ix ?c)" "k \<notin> dom (pc_ix c)" "pc_content c k = None" using m(3) by (auto simp: pc_content_dom)
    have z: "ext k = 0" using I(5) [of k] None by auto
    have new: "\<exists>c'. bnd (pc_new_page k) (\<lambda>_. ret k) ?c = (Inr k, c') \<and> pc_invp (ext(k := Suc (ext k))) P c' \<and> pc_got ext k c c'"
      using pc_new_page_ok [OF inv1 k(1)] cont k(3) z by (auto simp: prog_simps pc_got_def)
    show ?thesis
    proof (cases "pc_cur c \<ge> pc_expect c \<and> cm_cands m \<noteq> []")
      case False
      then show ?thesis
        using new m(1) None cm_replace_one_empty [of m] by (auto simp: pc_get_def)
    next
      case True
      then obtain v ks where vs: "cm_cands m = v # ks" by (cases "cm_cands m") auto
      obtain m' e where m': "cm_replace_one m = Inr (Some e, m')" "pc_ix c v = Some e" "cm_inv m'"
          "cm_index m' = (pc_ix c)(v := None)" "cm_cands m' = ks"
        using cm_replace_one_ok [OF m(2) vs] m(3) by auto
      have v: "v \<in> set (cm_cands (pc_mgr c))" "set ks = set (cm_cands (pc_mgr c)) - {v}"
        using m(4) vs cm_invD(3) [OF m(2)] by auto
      have "pc_invp ext P (c\<lparr>pc_mgr := m', pc_cur := pc_cur c\<rparr>)" "pc_survive ext c (c\<lparr>pc_mgr := m', pc_cur := pc_cur c\<rparr>)"
        by (rule pc_inv_restrict [OF inv m'(3), of "{v}"]; use m'(4,5) v in \<open>simp add: restrict_complement_singleton_eq\<close>)+
      then have c2: "pc_invp ext P (c\<lparr>pc_mgr := m'\<rparr>)" "pc_survive ext c (c\<lparr>pc_mgr := m'\<rparr>)" by simp_all
      have "page_replaceable e" "length (pg_data e) = 4096"
        using I(6) [OF m'(2)] v(1) unfolding I(7) by (auto simp: page_replaceable_def pc_entry_ok_def unat_eq_0 [symmetric])
      with pc_reuse_page_ok [OF c2(1), of k e] m'(4) None obtain c' c1 where
          c': "pc_reuse_page e k (c\<lparr>pc_mgr := m'\<rparr>) = (Inr (), c')" "pc_invp (ext(k := 1)) P c'" "pc_survive (ext(k := 1)) c1 c'"
            "pc_content c1 = (pc_content (c\<lparr>pc_mgr := m'\<rparr>))(k \<mapsto> (pg_lpa e, Page_invalid, pg_data e))" "pc_dirty c1 = pc_dirty c" "pc_expect c1 = pc_expect c"
        by auto
      have g: "pc_content c' j = pc_content c j \<or> pc_content c' j = None \<and> ext j = 0 \<and> j \<notin> set (pc_dirty c)" if "j \<noteq> k" for j
        using c'(3,4,5) c2(2) that unfolding pc_survive_def by (metis fun_upd_other page_cache.select_convs(2))
      moreover have "pc_content c' k = Some (pg_lpa e, Page_invalid, pg_data e)"
        using c'(3,4) unfolding pc_survive_def by (metis fun_upd_same zero_neq_one)
      ultimately have "pc_got ext k c c'" using c'(3,5,6) k(3) by (auto simp: pc_got_def pc_survive_def)
      then show ?thesis using m(1) m'(1) None True c'(1,2) z by (auto simp: pc_get_def prog_simps)
    qed
  qed
qed

section \<open>Writing to pages\<close>

text \<open>A write to a page that keeps its key, count and dirty flag.\<close>

lemma pc_write_ok:
  assumes inv: "pc_invp ext P c" and e: "pc_ix c k = Some e"
    and f: "pg_blkoff (f e) = pg_blkoff e" "pg_ref_count (f e) = pg_ref_count e" "pg_dirty (f e) = pg_dirty e"
      "length (pg_data (f e)) = 4096" "pg_dirty e \<longrightarrow> pg_state (f e) = Page_ready"
  shows "\<exists>c'. pc_write k f c = (Inr (), c') \<and> pc_invp ext P c' \<and> pc_ix c' = (pc_ix c)(k \<mapsto> f e) \<and>
    pc_content c' = (pc_content c)(k \<mapsto> (pg_lpa (f e), pg_state (f e), pg_data (f e))) \<and> pc_dirty c' = pc_dirty c \<and> pc_expect c' = pc_expect c"
proof -
  note I = pc_invD [OF inv]
  let ?m = "cm_update k f (pc_mgr c)"
  have ix: "cm_index ?m = (pc_ix c)(k \<mapsto> f e)" using e by simp
  have "pc_invp ext P (c\<lparr>pc_mgr := ?m, pc_dirty := pc_dirty c\<rparr>)"
    by (rule pc_inv_change [OF inv e _ ix])
       (use I(1,2,3) I(6) [OF e] I(7) e f in \<open>auto simp: pc_entry_ok_def\<close>)
  then show ?thesis
    using e by (auto simp: pc_write_def prog_simps pc_content_def fun_eq_iff)
qed

lemma pc_mark_dirty_ok:
  assumes inv: "pc_invp ext P c" and k: "ext k \<noteq> 0" "ext k + 2 < 2 ^ 32" "pc_content c k = Some (l, Page_ready, d)"
  shows "\<exists>c'. pc_mark_dirty k c = (Inr (), c') \<and> pc_invp ext P c' \<and> pc_content c' = pc_content c \<and>
    set (pc_dirty c') = insert k (set (pc_dirty c)) \<and> pc_expect c' = pc_expect c"
proof -
  note I = pc_invD [OF inv]
  obtain e where e: "pc_ix c k = Some e" using pc_held [OF inv k(1)] by blast
  have ok: "pc_entry_ok ext (set (pc_dirty c)) k e" using I(6) e by blast
  show ?thesis
  proof (cases "pg_dirty e")
    case True
    then show ?thesis using inv e ok by (auto simp: pc_mark_dirty_def pc_page_def prog_simps pc_entry_ok_def)
  next
    case False
    let ?e = "e\<lparr>pg_dirty := True, pg_ref_count := pg_ref_count e + 1\<rparr>"
      and ?f = "\<lambda>e. e\<lparr>pg_dirty := True\<rparr>" and ?g = "\<lambda>e. e\<lparr>pg_ref_count := pg_ref_count e + 1\<rparr>"
    let ?m1 = "cm_update k ?f (pc_mgr c)"
    let ?m = "cm_update k ?g ?m1" and ?d = "insort k (pc_dirty c)"
    have nd: "k \<notin> set (pc_dirty c)" and ru: "unat (pg_ref_count e) = ext k" "pg_blkoff e = k"
      using ok False by (auto simp: pc_entry_ok_def)
    then have nz: "pg_ref_count e \<noteq> 0" "1 \<le> pg_ref_count e"
      using k(1) by (auto simp: unat_eq_0 [symmetric] word_le_nat_alt)
    have "pg_ref_count e \<noteq> - 1" using ru(1) k(2) by (auto simp: unat_u32_max)
    then have "unat (pg_ref_count e + 1) = Suc (ext k)" using unat_u32_inc ru(1) by simp
    then have ok': "pc_entry_ok ext (set ?d) k ?e"
      using ok k(3) e by (auto simp: pc_entry_ok_def set_insort_key pc_content_def)
    have ix: "cm_index ?m = (pc_ix c)(k \<mapsto> ?e)" using e by (simp add: fun_eq_iff)
    have "pc_invp ext P (c\<lparr>pc_mgr := ?m, pc_dirty := ?d\<rparr>)"
      by (rule pc_inv_change [OF inv e _ ix ok'])
         (use I(1,2,3) I(7) nd k(1) in \<open>auto simp: set_insort_key sorted_insort distinct_insort\<close>)
    moreover have "pc_mark_dirty k c = (Inr (), c\<lparr>pc_mgr := ?m, pc_dirty := ?d\<rparr>)"
      using e False nz nd ru(2)
      by (simp add: pc_mark_dirty_def add_to_dirty_pages_def pc_add_refcount_def pc_page_def pc_write_def prog_simps)
    moreover have "pc_content (c\<lparr>pc_mgr := ?m, pc_dirty := ?d\<rparr>) = pc_content c"
      using e by (auto simp: pc_content_def fun_eq_iff)
    ultimately show ?thesis by (auto simp: set_insort_key)
  qed
qed

text \<open>Releasing a handle, and handing one over.\<close>

definition pc_with :: "(u32 \<Rightarrow> nat) \<Rightarrow> u32 option \<Rightarrow> u32 \<Rightarrow> nat" where
  "pc_with ext h = (case h of None \<Rightarrow> ext | Some p \<Rightarrow> ext(p := Suc (ext p)))"

lemma pc_with_simps [simp]: "pc_with ext None = ext" "pc_with ext (Some p) = ext(p := Suc (ext p))"
  by (simp_all add: pc_with_def)

lemma pc_release_ok:
  assumes "pc_inv (pc_with ext h) c"
  shows "\<exists>c'. pc_handle_dtor h c = (Inr (), c') \<and> pc_inv ext c' \<and> pc_content c' = pc_content c \<and>
    pc_dirty c' = pc_dirty c \<and> pc_expect c' = pc_expect c"
  using assms pc_sub_refcount_ok [of "pc_with ext h" c]
  by (cases h) (fastforce simp: pc_handle_dtor_def prog_simps)+

lemma pc_move_ok:
  assumes "pc_inv (pc_with (pc_with ext h) (Some p)) c"
  shows "\<exists>c'. pc_handle_move_assign h (Some p) c = (Inr (Some p), c') \<and> pc_inv (pc_with ext (Some p)) c' \<and>
    pc_content c' = pc_content c \<and> pc_dirty c' = pc_dirty c \<and> pc_expect c' = pc_expect c"
proof (cases h)
  case None
  then show ?thesis using assms by (simp add: pc_handle_move_assign_def prog_simps)
next
  case (Some q)
  let ?E = "pc_with (pc_with ext h) (Some p)"
  have "?E q \<noteq> 0" by (simp add: Some)
  moreover have "?E(q := ?E q - 1) = pc_with ext (Some p)" by (auto simp: Some)
  ultimately obtain m where "pc_sub_refcount q c = (Inr (), c\<lparr>pc_mgr := m\<rparr>)" "pc_inv (pc_with ext (Some p)) (c\<lparr>pc_mgr := m\<rparr>)"
      "pc_content (c\<lparr>pc_mgr := m\<rparr>) = pc_content c"
    using pc_sub_refcount_ok [OF assms, of q] by metis
  then show ?thesis by (simp add: Some pc_handle_move_assign_def prog_simps)
qed

end
