(* ===== verification/Page_Cache_Safe.thy ===== *)
theory Page_Cache_Safe
  imports Page_Cache_Inv
begin

text \<open>
  Cleaning and truncating the page cache, and safety of its use by several threads: the states that
  the operations reach from an empty cache, with the two parts of a release as steps of their own,
  satisfy the invariant, and in each of them what the owners of the handles may do returns.
\<close>

section \<open>Cleaning a set of dirty pages\<close>

text \<open>The loops rewrite the entries of the keys they are given.\<close>

definition pc_map :: "u32 set \<Rightarrow> (page_entry \<Rightarrow> page_entry) \<Rightarrow> page_cache \<Rightarrow> page_cache" where
  "pc_map K g c = c\<lparr>pc_mgr := (pc_mgr c)\<lparr>cm_index := (\<lambda>k. if k \<in> K then map_option g (pc_ix c k) else pc_ix c k)\<rparr>\<rparr>"

lemma pc_map_simps [simp]:
  "pc_dirty (pc_map K g c) = pc_dirty c" "pc_expect (pc_map K g c) = pc_expect c" "pc_cur (pc_map K g c) = pc_cur c"
  "pc_ix (pc_map K g c) k = (if k \<in> K then map_option g (pc_ix c k) else pc_ix c k)"
  "cm_replacer (pc_mgr (pc_map K g c)) = cm_replacer (pc_mgr c)"
  by (simp_all add: pc_map_def)

lemma pc_write_map: "pc_write p g c = (Inr (), pc_map {p} g c)"
  by (auto simp: pc_write_def pc_map_def cm_update_def modify_def fun_eq_iff
      intro!: page_cache.equality cache_manager.equality)

lemma pc_map_insert:
  "p \<notin> K \<Longrightarrow> pc_map K g (pc_map {p} g c) = pc_map (insert p K) g c"
  by (auto simp: pc_map_def fun_eq_iff intro!: page_cache.equality cache_manager.equality)

lemma pc_clean_run: "distinct ks \<Longrightarrow> pc_clean ks c = (Inr (), pc_map (set ks) (\<lambda>e. e\<lparr>pg_dirty := False\<rparr>) c)"
proof (induction ks arbitrary: c)
  case Nil
  show ?case by (auto simp: prog_simps pc_map_def)
next
  case (Cons p ks)
  then show ?case by (simp add: bnd_def pc_write_map pc_map_insert)
qed

lemma pc_map_cur: "pc_map K g (c\<lparr>pc_cur := n\<rparr>) = (pc_map K g c)\<lparr>pc_cur := n\<rparr>"
  by (auto simp: pc_map_def intro!: page_cache.equality cong: if_cong)

lemma pc_content_domain: "dom (pc_content c) = dom (pc_ix c)"
  by (auto simp: pc_content_def)

lemma pc_forget_run:
  "distinct ks \<Longrightarrow> pc_forget ks c =
    (Inr (), (pc_map (set ks) (\<lambda>e. e\<lparr>pg_dirty := False, pg_state := Page_invalid\<rparr>) c)\<lparr>pc_cur := pc_cur c - word_of_nat (length ks)\<rparr>)"
proof (induction ks arbitrary: c)
  case Nil
  show ?case by (auto simp: prog_simps pc_map_def)
next
  case (Cons p ks)
  then show ?case
    by (simp add: bnd_def pc_write_map modify_def pc_map_cur pc_map_insert diff_diff_eq add.commute)
qed

text \<open>
  The references of the dirty set become handles of their own; releasing them gives the
  pages free.
\<close>

lemma pc_undirty:
  assumes inv: "pc_inv ext c" and K: "K \<subseteq> set (pc_dirty c)"
    and g: "\<And>e. pg_blkoff (g e) = pg_blkoff e" "\<And>e. pg_data (g e) = pg_data e" "\<And>e. pg_ref_count (g e) = pg_ref_count e" "\<And>e. \<not> pg_dirty (g e)"
  shows "pc_inv (\<lambda>k. ext k + of_bool (k \<in> K)) ((pc_map K g c)\<lparr>pc_dirty := filter (\<lambda>k. k \<notin> K) (pc_dirty c), pc_cur := n\<rparr>)"
proof -
  note I = pc_invD [OF inv]
  have "dom (pc_ix (pc_map K g c)) = dom (pc_ix c)" by (auto simp: dom_def)
  moreover have "cm_inv (pc_mgr (pc_map K g c))" using I(1) by (auto simp: cm_inv_def dom_def pc_map_def)
  moreover have "pc_entry_ok (\<lambda>k. ext k + of_bool (k \<in> K)) {k \<in> set (pc_dirty c). k \<notin> K} k e" if "pc_ix (pc_map K g c) k = Some e" for k e
    using that I(6) [of k] K g by (fastforce simp: pc_entry_ok_def split: if_splits)
  ultimately show ?thesis
    using I(2,3,4,5,7) K by (auto simp: pc_invp_def sorted_filter [where f = "\<lambda>k. k", simplified])
qed

lemma pc_release_all_ok:
  assumes "pc_inv (\<lambda>k. ext k + of_bool (k \<in> set ks)) c" "distinct ks"
  shows "\<exists>c'. pc_release_all ks c = (Inr (), c') \<and> pc_inv ext c' \<and> pc_content c' = pc_content c \<and> pc_dirty c' = pc_dirty c \<and>
    pc_cur c' = pc_cur c \<and> dom (pc_ix c') = dom (pc_ix c)"
  using assms
proof (induction ks arbitrary: c)
  case Nil
  then show ?case by (simp add: prog_simps)
next
  case (Cons p ks)
  let ?E = "\<lambda>k. ext k + of_bool (k \<in> set (p # ks))"
  have "?E(p := ?E p - 1) = (\<lambda>k. ext k + of_bool (k \<in> set ks))" using Cons.prems(2) by (auto simp: fun_eq_iff)
  then obtain m where m: "pc_sub_refcount p c = (Inr (), c\<lparr>pc_mgr := m\<rparr>)" "pc_inv (\<lambda>k. ext k + of_bool (k \<in> set ks)) (c\<lparr>pc_mgr := m\<rparr>)"
      "pc_content (c\<lparr>pc_mgr := m\<rparr>) = pc_content c"
    using pc_sub_refcount_ok [OF Cons.prems(1), of p] by auto
  have "dom (pc_ix (c\<lparr>pc_mgr := m\<rparr>)) = dom (pc_ix c)" using m(3) pc_content_domain by metis
  moreover obtain c' where "pc_release_all ks (c\<lparr>pc_mgr := m\<rparr>) = (Inr (), c')" "pc_inv ext c'" "pc_content c' = pc_content (c\<lparr>pc_mgr := m\<rparr>)"
      "pc_dirty c' = pc_dirty c" "pc_cur c' = pc_cur c" "dom (pc_ix c') = dom (pc_ix (c\<lparr>pc_mgr := m\<rparr>))"
    using Cons.IH [OF m(2)] Cons.prems(2) by auto
  ultimately show ?case using m(1,3) by (simp add: pc_handle_dtor_def catch_all_def bnd_def)
qed

section \<open>Properties\<close>

text \<open>
  Truncating: the dirty pages behind the last block lose their content and their reference,
  all others keep theirs.
\<close>

definition pc_cut :: "u32 \<Rightarrow> page_cache \<Rightarrow> u32 \<Rightarrow> (u32 \<times> page_state \<times> u8 list) option" where
  "pc_cut max_blkoff c k = (if k > max_blkoff \<and> k \<in> set (pc_dirty c)
     then map_option (\<lambda>(l, _, d). (l, Page_invalid, d)) (pc_content c k) else pc_content c k)"

lemma pc_truncate_ok:
  assumes inv: "pc_inv ext c"
  shows "\<exists>c'. pc_truncate m c = (Inr (), c') \<and> pc_inv ext c' \<and> pc_content c' = pc_cut m c \<and>
    pc_dirty c' = filter (\<lambda>k. \<not> k > m) (pc_dirty c) \<and> pc_cur c' = pc_cur c - word_of_nat (length (filter (\<lambda>k. k > m) (pc_dirty c))) \<and>
    dom (pc_ix c') = dom (pc_ix c)"
proof -
  note I = pc_invD [OF inv]
  let ?ks = "filter (\<lambda>k. k > m) (pc_dirty c)" and ?g = "\<lambda>e. e\<lparr>pg_dirty := False, pg_state := Page_invalid\<rparr>"
  let ?n = "pc_cur c - word_of_nat (length ?ks)"
  let ?c = "(pc_map (set ?ks) ?g c)\<lparr>pc_cur := ?n\<rparr>"
  let ?d = "filter (\<lambda>k. \<not> k > m) (pc_dirty c)"
  have d: "filter (\<lambda>k. k \<notin> set ?ks) (pc_dirty c) = ?d" by (rule filter_cong) auto
  have e: "(pc_map (set ?ks) ?g c)\<lparr>pc_dirty := ?d, pc_cur := ?n\<rparr> = ?c\<lparr>pc_dirty := ?d\<rparr>" by (auto intro!: page_cache.equality)
  have "pc_inv (\<lambda>k. ext k + of_bool (k \<in> set ?ks)) (?c\<lparr>pc_dirty := ?d\<rparr>)"
    using pc_undirty [OF inv, of "set ?ks" ?g ?n] unfolding d e by auto
  from pc_release_all_ok [OF this] I(3) obtain c' where c': "pc_release_all ?ks (?c\<lparr>pc_dirty := ?d\<rparr>) = (Inr (), c')" "pc_inv ext c'"
      "pc_content c' = pc_content (?c\<lparr>pc_dirty := ?d\<rparr>)" "pc_dirty c' = ?d" "pc_cur c' = ?n" "dom (pc_ix c') = dom (pc_ix (?c\<lparr>pc_dirty := ?d\<rparr>))"
    by auto
  have "pc_truncate m c = (Inr (), c')"
    using c'(1) I(3) by (simp add: pc_truncate_def bnd_def reads_def modify_def pc_forget_run)
  moreover have "pc_content c' = pc_cut m c"
    unfolding c'(3) by (auto simp: pc_content_def pc_cut_def fun_eq_iff option.map_comp comp_def)
  moreover have "dom (pc_ix c') = dom (pc_ix c)" unfolding c'(6) by (auto simp: dom_def)
  ultimately show ?thesis using c'(2,4,5) by blast
qed

lemma clear_dirty_pages_ok:
  assumes inv: "pc_inv ext c"
  shows "\<exists>c'. clear_dirty_pages c = (Inr (), c') \<and> pc_inv ext c' \<and> pc_content c' = pc_content c \<and> pc_dirty c' = [] \<and> pc_cur c' = pc_cur c"
proof -
  note I = pc_invD [OF inv]
  let ?K = "set (pc_dirty c)" and ?g = "\<lambda>e. e\<lparr>pg_dirty := False\<rparr>"
  let ?c = "(pc_map ?K ?g c)\<lparr>pc_dirty := []\<rparr>"
  have e: "(pc_map ?K ?g c)\<lparr>pc_dirty := filter (\<lambda>k. k \<notin> ?K) (pc_dirty c), pc_cur := pc_cur c\<rparr> = ?c"
    by (auto simp: pc_map_def filter_empty_conv intro!: page_cache.equality)
  have "pc_inv (\<lambda>k. ext k + of_bool (k \<in> ?K)) ?c"
    using pc_undirty [OF inv, of ?K ?g "pc_cur c"] unfolding e by auto
  from pc_release_all_ok [OF this I(3)] obtain c' where c': "pc_release_all (pc_dirty c) ?c = (Inr (), c')" "pc_inv ext c'"
      "pc_content c' = pc_content ?c" "pc_dirty c' = []" "pc_cur c' = pc_cur c" by auto
  have "clear_dirty_pages c = (Inr (), c')"
    using c'(1) I(3) by (simp add: clear_dirty_pages_def bnd_def reads_def modify_def pc_clean_run)
  moreover have "pc_content c' = pc_content c"
    unfolding c'(3) by (auto simp: pc_content_def fun_eq_iff option.map_comp comp_def)
  ultimately show ?thesis using c'(2,4,5) by blast
qed

text \<open>
  The states that the users of the cache reach. \<open>ext\<close> counts the handles they hold, and \<open>P\<close> are the
  pages whose count a release has lowered to zero and not yet looked at again; between these two
  parts the others go on. A page is marked dirty and written only through a handle, and only after
  its content was prepared; truncating and cleaning have the file for themselves. The side
  condition of \<open>pc_use_dec\<close> excludes that two releases of one page are between their parts.
\<close>

inductive pc_reach :: "(u32 \<Rightarrow> nat) \<Rightarrow> u32 set \<Rightarrow> page_cache \<Rightarrow> bool" where
  pc_start: "pc_reach (\<lambda>_. 0) {} (page_cache_init n)"
| pc_use_get: "pc_reach ext P c \<Longrightarrow> ext k + 2 < 2 ^ 32 \<Longrightarrow> pc_get k c = (r, c') \<Longrightarrow> pc_reach (ext(k := Suc (ext k))) P c'"
| pc_use_dec: "pc_reach ext P c \<Longrightarrow> ext k \<noteq> 0 \<Longrightarrow> \<not> (k \<in> P \<and> ext k = 1 \<and> k \<notin> set (pc_dirty c)) \<Longrightarrow>
    pc_sub_dec k c = (r, c') \<Longrightarrow> pc_reach (ext(k := ext k - 1)) (if r = Inr 1 then insert k P else P) c'"
| pc_use_unpin: "pc_reach ext P c \<Longrightarrow> k \<in> P \<Longrightarrow> pc_sub_unpin k c = (r, c') \<Longrightarrow> pc_reach ext (P - {k}) c'"
| pc_use_prepare: "pc_reach ext P c \<Longrightarrow> ext k \<noteq> 0 \<Longrightarrow> length d = 4096 \<Longrightarrow>
    pc_write k (\<lambda>e. e\<lparr>pg_state := Page_ready, pg_lpa := l, pg_data := d\<rparr>) c = (r, c') \<Longrightarrow> pc_reach ext P c'"
| pc_use_mark: "pc_reach ext P c \<Longrightarrow> ext k \<noteq> 0 \<Longrightarrow> ext k + 2 < 2 ^ 32 \<Longrightarrow> pc_content c k = Some (l, Page_ready, d) \<Longrightarrow>
    pc_mark_dirty k c = (r, c') \<Longrightarrow> pc_reach ext P c'"
| pc_use_truncate: "pc_reach ext {} c \<Longrightarrow> pc_truncate m c = (r, c') \<Longrightarrow> pc_reach ext {} c'"
| pc_use_clear: "pc_reach ext {} c \<Longrightarrow> clear_dirty_pages c = (r, c') \<Longrightarrow> pc_reach ext {} c'"

lemma pc_dtor_ok: "pc_inv ext c \<Longrightarrow> ext k \<noteq> 0 \<Longrightarrow> \<exists>c'. pc_handle_dtor (Some k) c = (Inr (), c') \<and> pc_inv (ext(k := ext k - 1)) c'"
  using pc_release_ok [of "ext(k := ext k - 1)" "Some k" c] by auto

lemma pc_reach_inv: "pc_reach ext P c \<Longrightarrow> pc_invp ext P c"
proof (induction rule: pc_reach.induct)
  case (pc_start n)
  show ?case by (rule pc_init_inv)
next
  case (pc_use_get ext P c k r c')
  then show ?case using pc_get_ok [of ext P c k] by (auto simp: fun_upd_def)
next
  case (pc_use_dec ext P c k r c')
  then show ?case using pc_sub_dec_ok [of ext P c k] by (auto simp: fun_upd_def)
next
  case (pc_use_unpin ext P c k r c')
  then show ?case using pc_sub_unpin_ok [of ext P c k] by auto
next
  case (pc_use_prepare ext P c k d l r c')
  obtain e where e: "pc_ix c k = Some e" using pc_held pc_use_prepare.IH pc_use_prepare.hyps(2) by blast
  show ?case
    using pc_write_ok [OF pc_use_prepare.IH e, of "\<lambda>e. e\<lparr>pg_state := Page_ready, pg_lpa := l, pg_data := d\<rparr>"] pc_use_prepare.hyps by auto
next
  case (pc_use_mark ext P c k l d r c')
  then show ?case using pc_mark_dirty_ok [of ext P c k l d] by auto
next
  case (pc_use_truncate ext c m r c')
  then show ?case using pc_truncate_ok [of ext c m] by auto
next
  case (pc_use_clear ext c r c')
  then show ?case using clear_dirty_pages_ok [of ext c] by auto
qed

text \<open>
  C31. The page cache is safe for several threads as long as no two releases of the same page are
  between their two parts, the decrement of the count to zero and the unpinning. In every state
  reached so, whichever operations and parts of releases were interleaved before, taking a page,
  lowering the count of a page that one holds, the second part of a pending release and marking a
  prepared page dirty return, and so do truncating, cleaning and a whole release when no release is
  pending: none fails an assertion or touches a page that is gone. Every page that has a handle, is
  dirty, or whose release is pending is in the cache; its reference count is the number of its
  handles plus one when it is dirty, and no dirty page is without content. (Without the condition
  this fails: \<open>two_releases_touch_gone_page\<close> below.)
\<close>

theorem page_cache_safe:
  assumes "pc_reach ext P c" "\<forall>k. ext k + 2 < 2 ^ 32"
  shows "(\<exists>c'. pc_get k c = (Inr k, c')) \<and> (ext k \<noteq> 0 \<longrightarrow> (\<exists>n c'. pc_sub_dec k c = (Inr n, c'))) \<and>
    (k \<in> P \<longrightarrow> (\<exists>c'. pc_sub_unpin k c = (Inr (), c'))) \<and>
    (ext k \<noteq> 0 \<and> pc_content c k = Some (l, Page_ready, d) \<longrightarrow> (\<exists>c'. pc_mark_dirty k c = (Inr (), c'))) \<and>
    (P = {} \<longrightarrow> (\<exists>c'. pc_truncate m c = (Inr (), c')) \<and> (\<exists>c'. clear_dirty_pages c = (Inr (), c')) \<and>
       (ext k \<noteq> 0 \<longrightarrow> (\<exists>c'. pc_handle_dtor (Some k) c = (Inr (), c')))) \<and>
    (ext k \<noteq> 0 \<or> k \<in> set (pc_dirty c) \<or> k \<in> P \<longrightarrow> (\<exists>e. cm_index (pc_mgr c) k = Some e \<and>
      unat (pg_ref_count e) = ext k + of_bool (k \<in> set (pc_dirty c)) \<and> (k \<in> set (pc_dirty c) \<longrightarrow> pg_dirty e \<and> pg_state e = Page_ready)))"
proof -
  note inv = pc_reach_inv [OF assms(1)]
  note I = pc_invD [OF inv]
  have room: "ext k + 2 < 2 ^ 32" using assms(2) by blast
  have "\<exists>e. pc_ix c k = Some e \<and> unat (pg_ref_count e) = ext k + of_bool (k \<in> set (pc_dirty c)) \<and>
      (k \<in> set (pc_dirty c) \<longrightarrow> pg_dirty e \<and> pg_state e = Page_ready)" if "ext k \<noteq> 0 \<or> k \<in> set (pc_dirty c) \<or> k \<in> P"
  proof -
    obtain e where "pc_ix c k = Some e" using \<open>ext k \<noteq> 0 \<or> k \<in> set (pc_dirty c) \<or> k \<in> P\<close> I(4,8) I(5) by blast
    then show ?thesis using I(6) [of k e] by (auto simp: pc_entry_ok_def)
  qed
  moreover have "(\<exists>c'. pc_truncate m c = (Inr (), c')) \<and> (\<exists>c'. clear_dirty_pages c = (Inr (), c')) \<and>
       (ext k \<noteq> 0 \<longrightarrow> (\<exists>c'. pc_handle_dtor (Some k) c = (Inr (), c')))" if "P = {}"
    using inv pc_truncate_ok [of ext c m] clear_dirty_pages_ok [of ext c] pc_dtor_ok [of ext c k] unfolding that by blast
  ultimately show ?thesis
    using pc_get_ok [OF inv room] pc_sub_dec_ok [OF inv, of k] pc_sub_unpin_ok [OF inv, of k] pc_mark_dirty_ok [OF inv _ room, of l d]
    by blast
qed

theorem page_cache_safe_witness:
  "\<exists>c c1 c2 c3. pc_get 5 (page_cache_init 4) = (Inr 5, c) \<and> pc_sub_dec 5 c = (Inr 1, c1) \<and> pc_get 6 c1 = (Inr 6, c2) \<and>
     pc_sub_unpin 5 c2 = (Inr (), c3)"
proof -
  have "\<exists>c. pc_get 5 (page_cache_init 4) = (Inr 5, c)"
    using page_cache_safe [OF pc_start, of 5 4] by simp
  then obtain c where c: "pc_get 5 (page_cache_init 4) = (Inr 5, c)" by blast
  have r: "pc_reach ((\<lambda>_. 0)(5 := Suc 0)) {} c" by (rule pc_use_get [OF pc_start _ c]) simp
  from pc_get_ok [OF pc_init_inv, of 5 4] c have d: "pc_dirty c = []" by (auto simp: pc_got_def page_cache_init_def)
  obtain n c1 where c1: "pc_sub_dec 5 c = (Inr n, c1)" "n = 1"
    using pc_sub_dec_ok [OF pc_reach_inv [OF r], of 5] d by auto
  let ?e = "(\<lambda>_. 0)(5 := Suc 0) :: u32 \<Rightarrow> nat"
  have "pc_reach (?e(5 := ?e 5 - 1)) (if Inr n = (Inr 1 :: fault + u32) then insert 5 {} else {}) c1"
    by (rule pc_use_dec [OF r _ _ c1(1)]) simp_all
  then have r1: "pc_reach (\<lambda>_. 0) {5} c1" using c1(2) by (simp add: fun_upd_idem)
  obtain c2 where c2: "pc_get 6 c1 = (Inr 6, c2)" using page_cache_safe [OF r1, of 6] by auto
  have r2: "pc_reach ((\<lambda>_. 0)(6 := Suc 0)) {5} c2" by (rule pc_use_get [OF r1 _ c2]) simp
  have "\<forall>k :: u32. ((\<lambda>_. 0)(6 := Suc 0)) k + 2 < 2 ^ 32" by auto
  from page_cache_safe [OF r2 this, of 5] obtain c3 where "pc_sub_unpin 5 c2 = (Inr (), c3)" by auto
  then show ?thesis using c c1 c2 by blast
qed

text \<open>
  Two releases of page 5 between their parts. The first thread lowers the count to zero; the second
  takes the page and releases it wholly, which makes it replaceable; taking page 7 then reuses the
  object of page 8 and frees that of page 5, which the first thread goes on to read.
\<close>

definition two_releases :: "(page_cache, unit) prog" where
  "two_releases =
     bnd (pc_get 8) (\<lambda>_. bnd (pc_get 5) (\<lambda>_. bnd (pc_sub_refcount 8) (\<lambda>_.
     bnd (pc_sub_dec 5) (\<lambda>_.
     bnd (pc_get 5) (\<lambda>_. bnd (pc_sub_refcount 5) (\<lambda>_. bnd (pc_get 7) (\<lambda>_.
     pc_sub_unpin 5)))))))"

lemma two_releases_touch_gone_page: "\<exists>c. two_releases (page_cache_init 1) = (Inl Undefined, c)"
  by (simp add: two_releases_def page_cache_init_def prog_simps pc_get_def cm_get_def index_get_def cm_empty_def lru_empty_def
    pc_new_page_def pc_on_mgr_def cm_add_def index_add_def lru_add_def add_to_lru_tail_def page_entry_init_def pc_add_refcount_def
    pc_page_def pc_write_def cm_update_def cm_pin_def lru_pin_def erase_node_def add_to_pinned_tail_def cm_replace_one_def
    get_num_can_replace_def pc_sub_refcount_def pc_sub_dec_def pc_sub_unpin_def cm_unpin_def lru_unpin_def pinned_flag_def
    pop_replaced_def index_remove_def pc_reuse_page_def page_replaceable_def pc_do_replace_def cm_evict.simps lru_access_def Let_def)

text \<open>
  Truncating a file drops its dirty pages only. The dirty pages behind the new last block
  lose their content, and the counter of cached pages is lowered by their number although they
  stay in the cache; a clean page keeps its old content and stays ready, so that a file that
  grows again shows the bytes that were cut off.
\<close>

theorem truncate_keeps_clean_pages:
  assumes "pc_reach ext {} c"
  shows "\<exists>c'. pc_truncate m c = (Inr (), c') \<and> pc_reach ext {} c' \<and> dom (cm_index (pc_mgr c')) = dom (cm_index (pc_mgr c)) \<and>
    set (pc_dirty c') = {k \<in> set (pc_dirty c). k \<le> m} \<and>
    pc_cur c' + word_of_nat (card {k \<in> set (pc_dirty c). k > m}) = pc_cur c \<and>
    (\<forall>k. pc_content c' k = (if k > m \<and> k \<in> set (pc_dirty c)
       then map_option (\<lambda>(l, _, d). (l, Page_invalid, d)) (pc_content c k) else pc_content c k))"
proof -
  note inv = pc_reach_inv [OF assms]
  obtain c' where c': "pc_truncate m c = (Inr (), c')" "pc_content c' = pc_cut m c" "pc_dirty c' = filter (\<lambda>k. \<not> k > m) (pc_dirty c)"
      "pc_cur c' = pc_cur c - word_of_nat (length (filter (\<lambda>k. k > m) (pc_dirty c)))" "dom (pc_ix c') = dom (pc_ix c)"
    using pc_truncate_ok [OF inv, of m] by blast
  have "distinct (filter (\<lambda>k. k > m) (pc_dirty c))" using pc_invD(3) [OF inv] by simp
  then have "length (filter (\<lambda>k. k > m) (pc_dirty c)) = card {k \<in> set (pc_dirty c). k > m}"
    using distinct_card by fastforce
  moreover have "pc_reach ext {} c'" by (rule pc_use_truncate [OF assms c'(1)])
  ultimately show ?thesis using c' by (auto simp: pc_cut_def)
qed

theorem truncate_keeps_clean_pages_witness:
  "\<exists>c c'. pc_get 5 (page_cache_init 4) = (Inr 5, c) \<and> pc_truncate 3 c = (Inr (), c') \<and> pc_content c' 5 = pc_content c 5 \<and> pc_cur c' = pc_cur c"
proof -
  obtain c where c: "pc_get 5 (page_cache_init 4) = (Inr 5, c)" "pc_got (\<lambda>_. 0) 5 (page_cache_init 4) c"
    using pc_get_ok [OF pc_init_inv, of 5 4] by auto
  have r: "pc_reach ((\<lambda>_. 0)(5 := Suc 0)) {} c" by (rule pc_use_get [OF pc_start _ c(1)]) simp
  have "pc_dirty c = []" using c(2) by (auto simp: pc_got_def page_cache_init_def)
  then show ?thesis using truncate_keeps_clean_pages [OF r, of 3] c(1) by auto
qed

end
