(* ===== verification/File_IO.thy ===== *)
theory File_IO
  imports File_Cache Page_Cache_Safe
begin

text \<open>
  Reading and writing through the page cache. What a write puts into the pages of a file is
  what a read of the same range returns, whatever the cache replaces meanwhile.
\<close>

section \<open>The pages of a file\<close>

text \<open>
  \<open>pages_are p f c s\<close>: the file \<open>p\<close> is \<open>f\<close> with the page cache \<open>c\<close>; every data block has 4096
  bytes.
\<close>

definition pages_are :: "u32 \<Rightarrow> file_obj \<Rightarrow> page_cache \<Rightarrow> iosys \<Rightarrow> bool" where
  "pages_are p f c s \<longleftrightarrow> cm_index (fo_mgr s) p = Some (f\<lparr>fi_pages := c\<rparr>) \<and> (\<forall>l b. io_data s l = Some b \<longrightarrow> length b = 4096)"

lemma on_pages_run:
  assumes "pages_are p f c s" "m c = (r, c')"
  shows "\<exists>s'. on_pages p m s = (r, s') \<and> pages_are p f c' s' \<and> io_data s' = io_data s"
  using assms by (auto simp: pages_are_def on_pages_def)

lemma fo_file_run: "pages_are p f c s \<Longrightarrow> fo_file p s = (Inr (f\<lparr>fi_pages := c\<rparr>), s)"
  by (simp add: pages_are_def fo_file_def)

lemma on_fs_pages [simp]: "pages_are p f c (s\<lparr>io_fs := x\<rparr>) = pages_are p f c s"
  by (simp add: pages_are_def)

lemma keeps_on_fs: "(\<And>s x. Q s \<Longrightarrow> Q (s\<lparr>io_fs := x\<rparr>)) \<Longrightarrow> keeps Q (on_fs m)"
  by (auto simp: keeps_def on_fs_def split: prod.splits)

text \<open>A page is prepared: only this page changes, and it is marked as ready.\<close>

definition prepared :: "u32 \<Rightarrow> file_obj \<Rightarrow> (u32 \<Rightarrow> nat) \<Rightarrow> page_cache \<Rightarrow> u32 \<Rightarrow> iosys \<Rightarrow> bool" where
  "prepared p f ext c page s \<longleftrightarrow>
     (\<exists>c' l d. pages_are p f c' s \<and> pc_inv ext c' \<and> pc_dirty c' = pc_dirty c \<and>
        pc_content c' = (pc_content c)(page \<mapsto> (l, Page_ready, d)))"

lemma prepared_fs: "prepared p f ext c page s \<Longrightarrow> prepared p f ext c page (s\<lparr>io_fs := x\<rparr>)"
  by (auto simp: prepared_def)

lemma prepared_set:
  assumes "prepared p f ext c page s" "ext page \<noteq> 0"
    and g: "\<And>e. pg_blkoff (g e) = pg_blkoff e" "\<And>e. pg_ref_count (g e) = pg_ref_count e" "\<And>e. pg_dirty (g e) = pg_dirty e"
      "\<And>e. pg_state (g e) = pg_state e" "\<And>e. length (pg_data e) = 4096 \<Longrightarrow> length (pg_data (g e)) = 4096"
  shows "prepared p f ext c page (snd (on_pages p (pc_write page g) s))"
proof -
  obtain c' l d where c': "pages_are p f c' s" "pc_inv ext c'" "pc_dirty c' = pc_dirty c"
      "pc_content c' = (pc_content c)(page \<mapsto> (l, Page_ready, d))"
    using assms(1) unfolding prepared_def by blast
  obtain e where e: "pc_ix c' page = Some e" using pc_held [OF c'(2) assms(2)] by blast
  have ok: "length (pg_data e) = 4096" "pg_state e = Page_ready"
    using pc_invD(6) [OF c'(2) e] fun_cong [OF c'(4), of page] e by (auto simp: pc_entry_ok_def pc_content_def)
  obtain c2 where c2: "pc_write page g c' = (Inr (), c2)" "pc_inv ext c2" "pc_dirty c2 = pc_dirty c'"
      "pc_content c2 = (pc_content c')(page \<mapsto> (pg_lpa (g e), pg_state (g e), pg_data (g e)))"
    using pc_write_ok [OF c'(2) e, of g] g ok by metis
  obtain s2 where "on_pages p (pc_write page g) s = (Inr (), s2)" "pages_are p f c2 s2"
    using on_pages_run [where m = "pc_write page g", OF c'(1) c2(1)] by blast
  then show ?thesis
    using c2 c'(3,4) g(4) ok(2) unfolding prepared_def by (intro exI [of _ c2]) auto
qed

lemma keeps_prepared_set:
  assumes "ext page \<noteq> 0" "\<And>e. pg_blkoff (g e) = pg_blkoff e" "\<And>e. pg_ref_count (g e) = pg_ref_count e" "\<And>e. pg_dirty (g e) = pg_dirty e"
    "\<And>e. pg_state (g e) = pg_state e" "\<And>e. length (pg_data e) = 4096 \<Longrightarrow> length (pg_data (g e)) = 4096"
  shows "keeps (prepared p f ext c page) (on_pages p (pc_write page g))"
  unfolding keeps_def by (intro allI impI, rule prepared_set) (use assms in auto)

lemma keeps_prepared_read:
  assumes "ext page \<noteq> 0"
  shows "keeps (prepared p f ext c page) (bnd (reads (\<lambda>s. io_data s lpa)) (\<lambda>r.
    case r of None \<Rightarrow> fail (Throw Io_error) | Some b \<Rightarrow> on_pages p (pc_write page (\<lambda>e. e\<lparr>pg_data := b\<rparr>))))"
  unfolding keeps_def
proof (intro allI impI)
  fix s assume s: "prepared p f ext c page s"
  show "prepared p f ext c page (snd (bnd (reads (\<lambda>s. io_data s lpa)) (\<lambda>r.
    case r of None \<Rightarrow> fail (Throw Io_error) | Some b \<Rightarrow> on_pages p (pc_write page (\<lambda>e. e\<lparr>pg_data := b\<rparr>))) s))"
  proof (cases "io_data s lpa")
    case None
    then show ?thesis using s by (simp add: prog_simps)
  next
    case (Some b)
    then have "length b = 4096" using s by (auto simp: prepared_def pages_are_def)
    then show ?thesis using prepared_set [OF s assms, of "\<lambda>e. e\<lparr>pg_data := b\<rparr>"] Some by (simp add: prog_simps)
  qed
qed

lemma prepare_page_content_frame:
  assumes s: "pages_are p f c s" "pc_inv ext c" "ext page \<noteq> 0" and run: "prepare_page_content srch fuel p page s = (r, s')"
  shows "(\<exists>l d. pc_content c page = Some (l, Page_ready, d)) \<and> r = Inr () \<and> s' = s \<or> prepared p f ext c page s'"
proof -
  obtain e where e: "pc_ix c page = Some e" using pc_held [OF s(2,3)] by blast
  have pg: "on_pages p (pc_page page) s = (Inr e, s)"
  proof -
    have "cm_update p (\<lambda>f. f\<lparr>fi_pages := c\<rparr>) (fo_mgr s) = fo_mgr s"
      using s(1) by (auto simp: cm_update_def pages_are_def intro!: cache_manager.equality)
    then show ?thesis using s(1) e by (simp add: on_pages_def pages_are_def pc_page_def)
  qed
  show ?thesis
  proof (cases "pg_state e = Page_ready")
    case True
    then show ?thesis using run pg e by (auto simp: prepare_page_content_def bnd_def ret_def pc_content_def)
  next
    case False
    obtain c1 where c1: "pc_write page (\<lambda>e. e\<lparr>pg_state := Page_ready\<rparr>) c = (Inr (), c1)" "pc_inv ext c1" "pc_dirty c1 = pc_dirty c"
        "pc_content c1 = (pc_content c)(page \<mapsto> (pg_lpa e, Page_ready, pg_data e))"
      using pc_write_ok [OF s(2) e, of "\<lambda>e. e\<lparr>pg_state := Page_ready\<rparr>"] pc_invD(6) [OF s(2) e] by (auto simp: pc_entry_ok_def)
    obtain s1 where s1: "on_pages p (pc_write page (\<lambda>e. e\<lparr>pg_state := Page_ready\<rparr>)) s = (Inr (), s1)" "pages_are p f c1 s1"
      using on_pages_run [where m = "pc_write page (\<lambda>e. e\<lparr>pg_state := Page_ready\<rparr>)", OF s(1) c1(1)] by blast
    let ?Q = "prepared p f ext c page"
    have q: "?Q s1" using s1(2) c1 unfolding prepared_def by blast
    have fs: "keeps ?Q (on_fs m)" for m :: "(fsys, 'x) prog" by (rule keeps_on_fs) (rule prepared_fs)
    have fo: "keeps ?Q (fo_file p)" by (auto simp: keeps_def fo_file_def split: option.splits)
    have lpa: "keeps ?Q (on_pages p (pc_write page (\<lambda>e. e\<lparr>pg_lpa := l\<rparr>)))" for l
      by (rule keeps_prepared_set) (use s(3) in simp_all)
    have rd: "keeps ?Q (bnd (reads (\<lambda>s. io_data s l)) (\<lambda>r. case r of None \<Rightarrow> fail (Throw Io_error)
        | Some b \<Rightarrow> on_pages p (pc_write page (\<lambda>e. e\<lparr>pg_data := b\<rparr>))))" for l
      using s(3) by (rule keeps_prepared_read)
    note rules = rd fs fo lpa keeps_rules
    let ?rest = "bnd (fo_file p) (\<lambda>f.
       bnd (on_fs (get_node_entry (fi_ino f) INVALID_NID)) (\<lambda>h.
       scoped (on_fs (nc_handle_dtor (Some h))) (
         bnd (on_fs (nc_entry h)) (\<lambda>en.
         let max_blkoff_in_inode = SIZE_TO_BLOCK (i_size (nb_node en)) - 1 in
         if ucast (pg_blkoff e) > max_blkoff_in_inode
         then on_pages p (pc_write page (\<lambda>e. e\<lparr>pg_lpa := INVALID_LPA\<rparr>))
         else
           bnd (on_fs (get_addr_of_block srch fuel (fi_ino f) (pg_blkoff e))) (\<lambda>addr.
           scoped (on_fs (nc_handle_dtor (bai_nid_handle addr))) (
             if bai_lpa addr = INVALID_LPA
             then on_pages p (pc_write page (\<lambda>e. e\<lparr>pg_lpa := INVALID_LPA\<rparr>))
             else
               bnd (on_pages p (pc_write page (\<lambda>e. e\<lparr>pg_lpa := bai_lpa addr\<rparr>))) (\<lambda>_.
               bnd (reads (\<lambda>s. io_data s (bai_lpa addr))) (\<lambda>r.
                 case r of
                   None \<Rightarrow> fail (Throw Io_error)
                 | Some b \<Rightarrow> on_pages p (pc_write page (\<lambda>e. e\<lparr>pg_data := b\<rparr>))))))))))"
    have kp: "keeps ?Q ?rest" unfolding Let_def by (intro rules)
    have run': "?rest s1 = (r, s')"
      using run unfolding prepare_page_content_def bnd_run [of "on_pages p (pc_page page)", OF pg] if_not_P [OF False]
        bnd_run [of "on_pages p (pc_write page (\<lambda>e. e\<lparr>pg_state := Page_ready\<rparr>))", OF s1(1)] .
    have "?Q s'" using kp q run' by (rule keeps_snd)
    then show ?thesis ..
  qed
qed

section \<open>One round of the loops\<close>

abbreviation pc_room :: "(u32 \<Rightarrow> nat) \<Rightarrow> bool" where "pc_room ext \<equiv> \<forall>j. ext j + 4 < 2 ^ 32"

lemma on_throw_Inr: "m s = (Inr x, s1) \<Longrightarrow> on_throw d m s = (Inr x, s1)"
  by (simp add: on_throw_def)

lemma on_throw_InrD: "on_throw d m s = (Inr x, s1) \<Longrightarrow> m s = (Inr x, s1)"
  by (auto simp: on_throw_def prog_simps split: prod.splits sum.splits fault.splits)

text \<open>The page is taken: it has one more handle, and dirty pages are where they were.\<close>

lemma get_page_run:
  assumes s: "pages_are p f c s" "pc_inv (pc_with ext pre) c" "pc_room ext"
  shows "\<exists>c1 s1. on_pages p (pc_get blk) s = (Inr blk, s1) \<and> pages_are p f c1 s1 \<and>
    pc_inv (pc_with (pc_with ext pre) (Some blk)) c1 \<and> pc_dirty c1 = pc_dirty c \<and>
    (\<forall>j \<in> set (pc_dirty c). pc_content c1 j = pc_content c j) \<and>
    (pc_content c blk \<noteq> None \<longrightarrow> pc_content c1 blk = pc_content c blk)"
proof -
  have "pc_with ext pre blk \<le> Suc (ext blk)" by (cases pre) auto
  then have room: "pc_with ext pre blk + 2 < 2 ^ 32" using s(3) [rule_format, of blk] by linarith
  obtain c1 where c1: "pc_get blk c = (Inr blk, c1)" "pc_inv (pc_with (pc_with ext pre) (Some blk)) c1" "pc_got (pc_with ext pre) blk c c1"
    using pc_get_ok [OF s(2) room] by auto
  obtain s1 where s1: "on_pages p (pc_get blk) s = (Inr blk, s1)" "pages_are p f c1 s1"
    using on_pages_run [where m = "pc_get blk", OF s(1) c1(1)] by blast
  have "pc_content c1 j = pc_content c j" if "j \<in> set (pc_dirty c)" for j
  proof -
    have "pc_content c j \<noteq> None" using that pc_invD(4) [OF s(2)] by (auto simp: pc_content_dom)
    then show ?thesis using c1(3) that by (cases "j = blk") (auto simp: pc_got_def)
  qed
  then show ?thesis using s1 c1(2,3) by (auto simp: pc_got_def)
qed

text \<open>A page that is prepared successfully has content; a page that had content keeps it.\<close>

lemma prepare_run:
  assumes s: "pages_are p f c s" "pc_inv ext c" "ext page \<noteq> 0" and run: "prepare_page_content srch fuel p page s = (r, s')"
  obtains c' l d where "pages_are p f c' s'" "pc_inv ext c'" "pc_dirty c' = pc_dirty c"
    "pc_content c' = (pc_content c)(page \<mapsto> (l, Page_ready, d))" "length d = 4096"
proof -
  have len: "length d = 4096" if "pc_inv ext c1" "pc_content c1 page = Some (l, st, d)" for c1 l st d
    using that pc_invD(6) [OF that(1)] by (auto simp: pc_content_def pc_entry_ok_def)
  from prepare_page_content_frame [OF s run] show thesis
  proof
    assume "(\<exists>l d. pc_content c page = Some (l, Page_ready, d)) \<and> r = Inr () \<and> s' = s"
    then obtain l d where ld: "pc_content c page = Some (l, Page_ready, d)" "s' = s" by blast
    then show thesis using that [of c l d] s(1,2) len [OF s(2)] by (simp add: fun_upd_idem)
  next
    assume "prepared p f ext c page s'"
    then obtain c' l d where "pages_are p f c' s'" "pc_inv ext c'" "pc_dirty c' = pc_dirty c"
        "pc_content c' = (pc_content c)(page \<mapsto> (l, Page_ready, d))"
      unfolding prepared_def by blast
    then show thesis using that len [of c' l Page_ready d] by simp
  qed
qed

lemma prepare_ready:
  assumes "pages_are p f c s" "pc_inv ext c" "pc_content c page = Some (l, Page_ready, d)"
  shows "prepare_page_content srch fuel p page s = (Inr (), s)"
proof -
  obtain e where e: "pc_ix c page = Some e" "pg_state e = Page_ready" using assms(3) by (auto simp: pc_content_def)
  have "cm_update p (\<lambda>f. f\<lparr>fi_pages := c\<rparr>) (fo_mgr s) = fo_mgr s"
    using assms(1) by (auto simp: cm_update_def pages_are_def intro!: cache_manager.equality)
  then have "on_pages p (pc_page page) s = (Inr e, s)" using assms(1) e by (simp add: on_pages_def pages_are_def pc_page_def)
  then show ?thesis using e(2) by (simp add: prepare_page_content_def bnd_def ret_def)
qed

lemma copy_to_page_ok:
  assumes c: "pc_inv ext c" "ext page \<noteq> 0" "ext page + 2 < 2 ^ 32" "pc_content c page = Some (l, Page_ready, d)" and off: "off + length bs \<le> 4096"
  shows "\<exists>c'. copy_to_page off bs page c = (Inr (), c') \<and> pc_inv ext c' \<and> set (pc_dirty c') = insert page (set (pc_dirty c)) \<and>
    pc_content c' = (pc_content c)(page \<mapsto> (l, Page_ready, take off d @ bs @ drop (off + length bs) d))"
proof -
  obtain e where e: "pc_ix c page = Some e" "pg_lpa e = l" "pg_state e = Page_ready" "pg_data e = d"
    using c(4) by (auto simp: pc_content_def)
  let ?g = "\<lambda>e. e\<lparr>pg_data := take off (pg_data e) @ bs @ drop (off + length bs) (pg_data e)\<rparr>"
  have len: "length d = 4096" using pc_invD(6) [OF c(1) e(1)] e(4) by (auto simp: pc_entry_ok_def)
  obtain c1 where c1: "pc_write page ?g c = (Inr (), c1)" "pc_inv ext c1" "pc_dirty c1 = pc_dirty c"
      "pc_content c1 = (pc_content c)(page \<mapsto> (l, Page_ready, take off d @ bs @ drop (off + length bs) d))"
    using pc_write_ok [OF c(1) e(1), of ?g] e len off by auto
  obtain c2 where c2: "pc_mark_dirty page c1 = (Inr (), c2)" "pc_inv ext c2" "pc_content c2 = pc_content c1"
      "set (pc_dirty c2) = insert page (set (pc_dirty c1))"
    using pc_mark_dirty_ok [OF c1(2) c(2,3)] c1(4) by auto
  show ?thesis using c1 c2 by (auto simp: copy_to_page_def bnd_def)
qed

lemma with_page_write:
  assumes s: "pages_are p f c s" "pc_inv (pc_with ext pre) c" "pc_room ext" and off: "off + length bs \<le> 4096"
    and run: "with_page srch fuel p pre blk (copy_to_page off bs) s = (Inr x, s')"
  obtains c' l d where "pages_are p f c' s'" "pc_inv (pc_with ext (Some blk)) c'" "set (pc_dirty c') = insert blk (set (pc_dirty c))"
    "\<forall>j \<in> set (pc_dirty c) - {blk}. pc_content c' j = pc_content c j"
    "pc_content c' blk = Some (l, Page_ready, take off d @ bs @ drop (off + length bs) d)" "length d = 4096"
    "blk \<in> set (pc_dirty c) \<Longrightarrow> \<exists>l0. pc_content c blk = Some (l0, Page_ready, d)"
proof -
  let ?E = "pc_with (pc_with ext pre) (Some blk)"
  obtain c1 s1 where g: "on_pages p (pc_get blk) s = (Inr blk, s1)" "pages_are p f c1 s1" "pc_inv ?E c1" "pc_dirty c1 = pc_dirty c"
      "\<forall>j \<in> set (pc_dirty c). pc_content c1 j = pc_content c j"
    using get_page_run [OF s, of blk] by blast
  let ?rest = "bnd (prepare_page_content srch fuel p blk) (\<lambda>_. bnd (on_pages p (copy_to_page off bs blk)) (\<lambda>x.
       bnd (on_pages p (pc_handle_move_assign pre (Some blk))) (\<lambda>_. ret x)))"
  have rest: "?rest s1 = (Inr x, s')"
    using run on_throw_Inr [where m = "on_pages p (pc_get blk)", OF g(1)] unfolding with_page_def by (auto simp: bnd_def dest!: on_throw_InrD)
  obtain r s2 where pr: "prepare_page_content srch fuel p blk s1 = (r, s2)" by fastforce
  have E: "?E blk \<noteq> 0" "?E blk + 2 < 2 ^ 32" using s(3) [rule_format, of blk] by (cases pre; auto)+
  obtain c2 l d where c2: "pages_are p f c2 s2" "pc_inv ?E c2" "pc_dirty c2 = pc_dirty c1"
      "pc_content c2 = (pc_content c1)(blk \<mapsto> (l, Page_ready, d))" "length d = 4096"
    by (rule prepare_run [OF g(2,3) E(1) pr])
  have r: "r = Inr ()" using rest pr by (cases r) (auto simp: bnd_def)
  have cb: "pc_content c2 blk = Some (l, Page_ready, d)" by (simp add: c2(4))
  obtain c3 where c3: "copy_to_page off bs blk c2 = (Inr (), c3)" "pc_inv ?E c3" "set (pc_dirty c3) = insert blk (set (pc_dirty c2))"
      "pc_content c3 = (pc_content c2)(blk \<mapsto> (l, Page_ready, take off d @ bs @ drop (off + length bs) d))"
    using copy_to_page_ok [OF c2(2) E cb off] by blast
  obtain s3 where s3: "on_pages p (copy_to_page off bs blk) s2 = (Inr (), s3)" "pages_are p f c3 s3"
    using on_pages_run [where m = "copy_to_page off bs blk", OF c2(1) c3(1)] by blast
  obtain c4 where c4: "pc_handle_move_assign pre (Some blk) c3 = (Inr (Some blk), c4)" "pc_inv (pc_with ext (Some blk)) c4"
      "pc_content c4 = pc_content c3" "pc_dirty c4 = pc_dirty c3"
    using pc_move_ok [OF c3(2)] by blast
  obtain s4 where s4: "on_pages p (pc_handle_move_assign pre (Some blk)) s3 = (Inr (Some blk), s4)" "pages_are p f c4 s4"
    using on_pages_run [where m = "pc_handle_move_assign pre (Some blk)", OF s3(2) c4(1)] by blast
  have fin: "s' = s4" using rest pr r s3(1) s4(1) by (simp add: bnd_def ret_def)
  have "\<exists>l0. pc_content c blk = Some (l0, Page_ready, d)" if b: "blk \<in> set (pc_dirty c)"
  proof -
    obtain e where e: "pc_ix c blk = Some e" using pc_invD(4) [OF s(2)] b by blast
    then have "pg_state e = Page_ready" using pc_invD(6) [OF s(2) e] b by (auto simp: pc_entry_ok_def)
    then have ct: "pc_content c1 blk = Some (pg_lpa e, Page_ready, pg_data e)" "pc_content c blk = Some (pg_lpa e, Page_ready, pg_data e)"
      using e g(5) b by (auto simp: pc_content_def)
    have "s2 = s1" using prepare_ready [OF g(2,3) ct(1)] pr by simp
    then have "c2 = c1" using c2(1) g(2) by (auto simp: pages_are_def dest!: arg_cong [of _ _ fi_pages])
    then show ?thesis using ct c2(4) by (metis fun_upd_same option.inject prod.inject)
  qed
  moreover have "\<forall>j \<in> set (pc_dirty c) - {blk}. pc_content c4 j = pc_content c j"
    using c4(3) c3(4) c2(4) g(5) by simp
  ultimately show thesis
    using that [of c4 l d] s4(2) c4 c3(3,4) c2(3,5) g(4) fin by simp
qed

lemma with_page_read:
  assumes s: "pages_are p f c s" "pc_inv (pc_with ext pre) c" "pc_room ext"
    and d: "pc_content c blk = Some (l, Page_ready, d)"
  obtains c' s' where "with_page srch fuel p pre blk (copy_from_page off cnt) s = (Inr (take cnt (drop off d)), s')"
    "pages_are p f c' s'" "pc_inv (pc_with ext (Some blk)) c'" "pc_dirty c' = pc_dirty c"
    "\<forall>j \<in> set (pc_dirty c). pc_content c' j = pc_content c j"
proof -
  let ?E = "pc_with (pc_with ext pre) (Some blk)"
  obtain c1 s1 where g: "on_pages p (pc_get blk) s = (Inr blk, s1)" "pages_are p f c1 s1" "pc_inv ?E c1" "pc_dirty c1 = pc_dirty c"
      "\<forall>j \<in> set (pc_dirty c). pc_content c1 j = pc_content c j" "pc_content c blk \<noteq> None \<longrightarrow> pc_content c1 blk = pc_content c blk"
    using get_page_run [OF s, of blk] by blast
  have d1: "pc_content c1 blk = Some (l, Page_ready, d)" using g(6) d by simp
  then have "copy_from_page off cnt blk c1 = (Inr (take cnt (drop off d)), c1)"
    by (auto simp: copy_from_page_def pc_page_def prog_simps pc_content_def)
  from on_pages_run [where m = "copy_from_page off cnt blk", OF g(2) this] obtain s2
    where s2: "on_pages p (copy_from_page off cnt blk) s1 = (Inr (take cnt (drop off d)), s2)" "pages_are p f c1 s2" by blast
  obtain c3 where c3: "pc_handle_move_assign pre (Some blk) c1 = (Inr (Some blk), c3)" "pc_inv (pc_with ext (Some blk)) c3"
      "pc_content c3 = pc_content c1" "pc_dirty c3 = pc_dirty c1"
    using pc_move_ok [OF g(3)] by blast
  obtain s3 where s3: "on_pages p (pc_handle_move_assign pre (Some blk)) s2 = (Inr (Some blk), s3)" "pages_are p f c3 s3"
    using on_pages_run [where m = "pc_handle_move_assign pre (Some blk)", OF s2(2) c3(1)] by blast
  have "with_page srch fuel p pre blk (copy_from_page off cnt) s = (Inr (take cnt (drop off d)), s3)"
    using on_throw_Inr [where m = "on_pages p (pc_get blk)", OF g(1)] prepare_ready [OF g(2,3) d1] s2(1) s3(1)
    by (simp add: with_page_def bnd_def on_throw_def ret_def)
  then show thesis using that s3(2) c3 g(4,5) by simp
qed

section \<open>The loops\<close>

lemma block_split:
  obtains q r where "(n :: nat) = q * 4096 + r" "r < 4096" "n div 4096 = q" "n mod 4096 = r"
  using that [of "n div 4096" "n mod 4096"] by simp

lemma pos_arith:
  assumes "unat pos < 2 ^ 44"
  shows "idx_of_blk pos = word_of_nat (unat pos div 4096)" "unat (off_in_blk pos) = unat pos mod 4096"
    "unat (end_pos_of_cur_blk pos) = (unat pos div 4096 + 1) * 4096"
proof -
  have d: "unat (pos div 4096) = unat pos div 4096" by (simp add: unat_div)
  have "ucast (pos div 4096) = (word_of_nat (unat (pos div 4096)) :: u32)" by simp
  then show "idx_of_blk pos = word_of_nat (unat pos div 4096)" by (simp add: idx_of_blk_def d)
  have m: "unat (pos mod 4096) = unat pos mod 4096" by (simp add: unat_mod)
  have "unat (ucast (pos mod 4096) :: u32) = unat (pos mod 4096)"
  proof -
    have "unat pos mod 4096 < 2 ^ 32" using mod_less_divisor [of 4096 "unat pos"] by simp
    then show ?thesis by (simp add: unsigned_ucast_eq take_bit_nat_eq_self_iff m)
  qed
  then show off: "unat (off_in_blk pos) = unat pos mod 4096" by (simp add: off_in_blk_def m)
  have "ucast (off_in_blk pos) = (word_of_nat (unat pos mod 4096) :: u64)"
    unfolding off [symmetric] by simp
  then have e: "end_pos_of_cur_blk pos = word_of_nat (unat pos + 4096 - unat pos mod 4096)"
    unfolding end_pos_of_cur_blk_def by (simp add: of_nat_diff)
  obtain q r where qr: "unat pos = q * 4096 + r" "r < 4096" "unat pos div 4096 = q" "unat pos mod 4096 = r"
    by (rule block_split)
  define n where "n = unat pos + 4096 - unat pos mod 4096"
  have "n = (unat pos div 4096 + 1) * 4096"
    unfolding qr(3,4) n_def using qr(1,2) by simp
  moreover have "n < 2 ^ 64" using assms by (simp add: n_def)
  then have "unat (word_of_nat n :: u64) = n" by (simp add: unat_of_nat take_bit_nat_eq_self)
  ultimately show "unat (end_pos_of_cur_blk pos) = (unat pos div 4096 + 1) * 4096"
    unfolding e n_def [symmetric] by simp
qed

text \<open>The next round starts at the end of the block or of the range.\<close>

lemma round_arith:
  assumes "unat pos < unat fin" "unat fin < 2 ^ 44"
  defines "stop \<equiv> min (end_pos_of_cur_blk pos) fin"
  shows "unat stop = min ((unat pos div 4096 + 1) * 4096) (unat fin)" "pos < stop" "unat (stop - pos) = unat stop - unat pos"
    "stop - pos \<le> 4096" "unat pos mod 4096 + unat (stop - pos) \<le> 4096"
    "\<lbrakk>unat pos \<le> i; i < unat stop\<rbrakk> \<Longrightarrow> i div 4096 = unat pos div 4096 \<and> i mod 4096 = unat pos mod 4096 + (i - unat pos)"
proof -
  have p: "unat pos < 2 ^ 44" using assms(1,2) by linarith
  show u: "unat stop = min ((unat pos div 4096 + 1) * 4096) (unat fin)"
    using pos_arith(3) [OF p] unfolding stop_def by (auto simp: min_def word_le_nat_alt)
  obtain q r where qr: "unat pos = q * 4096 + r" "r < 4096" "unat pos div 4096 = q" "unat pos mod 4096 = r"
    by (rule block_split)
  have u': "unat stop = min ((q + 1) * 4096) (unat fin)" using u qr(3) by simp
  have lt: "unat pos < unat stop" unfolding u' using assms(1) qr(1,2) by simp
  then show ps: "pos < stop" by (simp add: word_less_nat_alt)
  then show d: "unat (stop - pos) = unat stop - unat pos" by (simp add: unat_sub_if_size word_less_nat_alt)
  have "unat stop \<le> (q + 1) * 4096" unfolding u' by simp
  then show le: "unat pos mod 4096 + unat (stop - pos) \<le> 4096" unfolding d qr(4) using qr(1) lt by simp
  then show "stop - pos \<le> 4096" by (simp add: word_le_nat_alt)
  show "i div 4096 = unat pos div 4096 \<and> i mod 4096 = unat pos mod 4096 + (i - unat pos)" if "unat pos \<le> i" "i < unat stop"
  proof -
    define m where "m = r + (i - unat pos)"
    have "m < 4096" using le that unfolding d m_def qr(4) by simp
    moreover have "i = q * 4096 + m" unfolding m_def using qr(1) that(1) by simp
    ultimately show ?thesis unfolding qr(3,4) m_def [symmetric] by simp
  qed
qed

text \<open>The byte \<open>i\<close> of the file is \<open>b\<close>, in a dirty page.\<close>

definition dirty_byte :: "page_cache \<Rightarrow> nat \<Rightarrow> u8 \<Rightarrow> bool" where
  "dirty_byte c i b \<longleftrightarrow> word_of_nat (i div 4096) \<in> set (pc_dirty c) \<and>
     (\<exists>l d. pc_content c (word_of_nat (i div 4096)) = Some (l, Page_ready, d) \<and> length d = 4096 \<and> d ! (i mod 4096) = b)"

lemma blk_inj: "i < 2 ^ 44 \<Longrightarrow> j < 2 ^ 44 \<Longrightarrow> (word_of_nat (i div 4096) :: u32) = word_of_nat (j div 4096) \<Longrightarrow> i div 4096 = j div 4096"
  by (rule of_nat_u32_inj) (simp_all add: less_mult_imp_div_less)

lemma splice_nth:
  assumes "length d = 4096" "off + length bs \<le> 4096" "m < 4096"
  shows "(take off d @ bs @ drop (off + length bs) d) ! m = (if off \<le> m \<and> m < off + length bs then bs ! (m - off) else d ! m)"
  using assms by (auto simp: nth_append min_def)

text \<open>Splicing bytes into a page changes exactly these bytes of the file.\<close>

lemma dirty_byte_splice:
  assumes blk: "blk = word_of_nat (q div 4096)" "q < 2 ^ 44" and off: "off + length bs \<le> 4096"
    and c': "set (pc_dirty c') = insert blk (set (pc_dirty c))" "\<forall>j \<in> set (pc_dirty c) - {blk}. pc_content c' j = pc_content c j"
      "pc_content c' blk = Some (l, Page_ready, take off d @ bs @ drop (off + length bs) d)" "length d = 4096"
      "blk \<in> set (pc_dirty c) \<Longrightarrow> \<exists>l0. pc_content c blk = Some (l0, Page_ready, d)"
  shows "i div 4096 = q div 4096 \<Longrightarrow> i mod 4096 = off + k \<Longrightarrow> k < length bs \<Longrightarrow> dirty_byte c' i (bs ! k)"
    and "i < 2 ^ 44 \<Longrightarrow> dirty_byte c i b \<Longrightarrow> \<not> (i div 4096 = q div 4096 \<and> off \<le> i mod 4096 \<and> i mod 4096 < off + length bs) \<Longrightarrow> dirty_byte c' i b"
proof -
  show "dirty_byte c' i (bs ! k)" if "i div 4096 = q div 4096" "i mod 4096 = off + k" "k < length bs"
    using that off c'(1,3,4) blk(1) splice_nth [OF c'(4) off, of "i mod 4096"] by (simp add: dirty_byte_def)
  assume i: "i < 2 ^ 44" "dirty_byte c i b" "\<not> (i div 4096 = q div 4096 \<and> off \<le> i mod 4096 \<and> i mod 4096 < off + length bs)"
  show "dirty_byte c' i b"
  proof (cases "(word_of_nat (i div 4096) :: u32) = blk")
    case False
    then show ?thesis using i(2) c'(1,2) by (auto simp: dirty_byte_def)
  next
    case True
    then have "i div 4096 = q div 4096" using blk_inj i(1) blk by simp
    then have "\<not> (off \<le> i mod 4096 \<and> i mod 4096 < off + length bs)" using i(3) by blast
    moreover have "d ! (i mod 4096) = b" using i(2) c'(5) True by (auto simp: dirty_byte_def)
    ultimately show ?thesis
      using splice_nth [OF c'(4) off, of "i mod 4096"] c'(1,3,4) off True by (auto simp: dirty_byte_def)
  qed
qed

lemma file_write_loop_ok:
  assumes "file_write_loop srch fuel p fin pre buf pos s = (Inr u, s')" "pages_are p f c s" "pc_inv (pc_with ext pre) c" "pc_room ext"
    "unat fin = unat pos + length buf" "unat fin < 2 ^ 44"
  shows "\<exists>c'. pages_are p f c' s' \<and> pc_inv ext c' \<and> (\<forall>k < length buf. dirty_byte c' (unat pos + k) (buf ! k)) \<and>
    (\<forall>i b. i < 2 ^ 44 \<and> dirty_byte c i b \<and> \<not> (unat pos \<le> i \<and> i < unat fin) \<longrightarrow> dirty_byte c' i b)"
  using assms
proof (induction srch fuel p fin pre buf pos s arbitrary: c rule: file_write_loop.induct)
  case (1 srch fuel p fin pre buf pos s)
  show ?case
  proof (cases "buf = []")
    case True
    obtain c' where c': "pc_handle_dtor pre c = (Inr (), c')" "pc_inv ext c'" "pc_content c' = pc_content c" "pc_dirty c' = pc_dirty c"
      using pc_release_ok [OF "1.prems"(3)] by blast
    obtain s1 where "on_pages p (pc_handle_dtor pre) s = (Inr (), s1)" "pages_are p f c' s1"
      using on_pages_run [where m = "pc_handle_dtor pre", OF "1.prems"(2) c'(1)] by blast
    then show ?thesis
      using "1.prems"(1) True c' by (auto simp: file_write_loop.simps dirty_byte_def)
  next
    case False
    define stop where "stop = min (end_pos_of_cur_blk pos) fin"
    have lt: "unat pos < unat fin" using False "1.prems"(5) by simp
    have p44: "unat pos < 2 ^ 44" using lt "1.prems"(6) by linarith
    note A = round_arith [OF lt "1.prems"(6), folded stop_def] and P = pos_arith [OF p44]
    let ?n = "unat (stop - pos)" and ?blk = "idx_of_blk pos"
    have le: "unat stop \<le> unat fin" using A(1) by simp
    then have n: "length (take ?n buf) = ?n" "unat pos + ?n = unat stop" using A(3) lt "1.prems"(5) A(2) by (auto simp: word_less_nat_alt)
    have off: "unat (off_in_blk pos) + length (take ?n buf) \<le> 4096" using A(5) n(1) P(2) by simp
    obtain r s1 where wp: "with_page srch fuel p pre ?blk (copy_to_page (unat (off_in_blk pos)) (take ?n buf)) s = (r, s1)" by fastforce
    have pl: "pos < fin" using lt by (simp add: word_less_nat_alt)
    have "r = Inr ()" and rec: "file_write_loop srch fuel p fin (Some ?blk) (drop ?n buf) stop s1 = (Inr u, s')"
      using "1.prems"(1) False pl A(2,4) wp unfolding file_write_loop.simps [of srch fuel p fin pre buf pos s]
      by (auto simp: stop_def [symmetric] Let_def split: sum.splits)
    then obtain c1 l d where c1: "pages_are p f c1 s1" "pc_inv (pc_with ext (Some ?blk)) c1" "set (pc_dirty c1) = insert ?blk (set (pc_dirty c))"
        "\<forall>j \<in> set (pc_dirty c) - {?blk}. pc_content c1 j = pc_content c j"
        "pc_content c1 ?blk = Some (l, Page_ready, take (unat (off_in_blk pos)) d @ take ?n buf @ drop (unat (off_in_blk pos) + length (take ?n buf)) d)"
        "length d = 4096" "?blk \<in> set (pc_dirty c) \<Longrightarrow> \<exists>l0. pc_content c ?blk = Some (l0, Page_ready, d)"
      using with_page_write [OF "1.prems"(2,3,4) off] wp by metis
    note B = dirty_byte_splice [OF P(1) p44 off c1(3-7)]
    have "\<exists>c'. pages_are p f c' s' \<and> pc_inv ext c' \<and> (\<forall>k < length (drop ?n buf). dirty_byte c' (unat stop + k) (drop ?n buf ! k)) \<and>
        (\<forall>i b. i < 2 ^ 44 \<and> dirty_byte c1 i b \<and> \<not> (unat stop \<le> i \<and> i < unat fin) \<longrightarrow> dirty_byte c' i b)"
      by (rule "1.IH") (use False pl A(2,4) wp \<open>r = Inr ()\<close> rec c1(1,2) "1.prems"(4-6) n in \<open>auto simp: stop_def [symmetric] simp del: pc_with_simps\<close>)
    then obtain c' where c': "pages_are p f c' s'" "pc_inv ext c'" "\<forall>k < length (drop ?n buf). dirty_byte c' (unat stop + k) (drop ?n buf ! k)"
        "\<forall>i b. i < 2 ^ 44 \<and> dirty_byte c1 i b \<and> \<not> (unat stop \<le> i \<and> i < unat fin) \<longrightarrow> dirty_byte c' i b" by blast
    have "dirty_byte c' (unat pos + k) (buf ! k)" if k: "k < length buf" for k
    proof (cases "k < ?n")
      case True
      then have "dirty_byte c1 (unat pos + k) (take ?n buf ! k)"
        using A(6) [of "unat pos + k"] n P(2) by (intro B(1)) auto
      moreover have "unat pos + k < 2 ^ 44" using k "1.prems"(5,6) by linarith
      ultimately show ?thesis using c'(4) True n(2) by simp
    next
      case False
      then have "unat stop + (k - ?n) = unat pos + k" "k - ?n < length (drop ?n buf)" "drop ?n buf ! (k - ?n) = buf ! k" using k n by auto
      then show ?thesis using c'(3) by metis
    qed
    moreover have "dirty_byte c' i b" if i: "i < 2 ^ 44" "dirty_byte c i b" "\<not> (unat pos \<le> i \<and> i < unat fin)" for i b
    proof -
      have "\<not> (i div 4096 = unat pos div 4096 \<and> unat (off_in_blk pos) \<le> i mod 4096 \<and> i mod 4096 < unat (off_in_blk pos) + length (take ?n buf))"
      proof
        assume h: "i div 4096 = unat pos div 4096 \<and> unat (off_in_blk pos) \<le> i mod 4096 \<and> i mod 4096 < unat (off_in_blk pos) + length (take ?n buf)"
        have "i = i div 4096 * 4096 + i mod 4096" "unat pos = unat pos div 4096 * 4096 + unat pos mod 4096" by simp_all
        then have "unat pos \<le> i" "i < unat pos + ?n" using h n(1) P(2) by linarith+
        then show False using i(3) n(2) le by linarith
      qed
      then have "dirty_byte c1 i b" using B(2) i by blast
      moreover have "\<not> (unat stop \<le> i \<and> i < unat fin)" using i(3) n(2) by auto
      ultimately show ?thesis using c'(4) i(1) by blast
    qed
    ultimately show ?thesis using c'(1,2) by blast
  qed
qed

lemma file_read_loop_ok:
  assumes "pages_are p f c s" "pc_inv (pc_with ext pre) c" "pc_room ext" "unat fin < 2 ^ 44"
    "\<forall>i. unat pos \<le> i \<and> i < unat fin \<longrightarrow> dirty_byte c i (b i)"
  shows "\<exists>c' s'. file_read_loop srch fuel p fin pre pos s = (Inr (map b [unat pos..<unat fin]), s') \<and> pages_are p f c' s' \<and> pc_inv ext c' \<and>
    pc_dirty c' = pc_dirty c \<and> (\<forall>j \<in> set (pc_dirty c). pc_content c' j = pc_content c j)"
  using assms
proof (induction srch fuel p fin pre pos s arbitrary: c rule: file_read_loop.induct)
  case (1 srch fuel p fin pre pos s)
  show ?case
  proof (cases "pos < fin")
    case False
    obtain c' where c': "pc_handle_dtor pre c = (Inr (), c')" "pc_inv ext c'" "pc_content c' = pc_content c" "pc_dirty c' = pc_dirty c"
      using pc_release_ok [OF "1.prems"(2)] by blast
    obtain s1 where "on_pages p (pc_handle_dtor pre) s = (Inr (), s1)" "pages_are p f c' s1"
      using on_pages_run [where m = "pc_handle_dtor pre", OF "1.prems"(1) c'(1)] by blast
    then show ?thesis
      using False c' by (auto simp: file_read_loop.simps prog_simps word_less_nat_alt)
  next
    case True
    define stop where "stop = min (end_pos_of_cur_blk pos) fin"
    have lt: "unat pos < unat fin" using True by (simp add: word_less_nat_alt)
    have p44: "unat pos < 2 ^ 44" using lt "1.prems"(4) by linarith
    note A = round_arith [OF lt "1.prems"(4), folded stop_def] and P = pos_arith [OF p44]
    let ?n = "unat (stop - pos)" and ?blk = "idx_of_blk pos"
    have n: "unat stop \<le> unat fin" "unat pos < unat stop" "unat pos + ?n = unat stop" using A(1,2,3) by (simp_all add: word_less_nat_alt)
    have "dirty_byte c (unat pos) (b (unat pos))" using "1.prems"(5) lt by blast
    then obtain l d where ld: "?blk \<in> set (pc_dirty c)" "pc_content c ?blk = Some (l, Page_ready, d)" "length d = 4096"
      by (auto simp: dirty_byte_def P(1))
    obtain c1 s1 where c1: "with_page srch fuel p pre ?blk (copy_from_page (unat (off_in_blk pos)) ?n) s = (Inr (take ?n (drop (unat (off_in_blk pos)) d)), s1)"
        "pages_are p f c1 s1" "pc_inv (pc_with ext (Some ?blk)) c1" "pc_dirty c1 = pc_dirty c" "\<forall>j \<in> set (pc_dirty c). pc_content c1 j = pc_content c j"
      by (rule with_page_read [OF "1.prems"(1,2,3) ld(2)])
    have bytes: "take ?n (drop (unat (off_in_blk pos)) d) = map b [unat pos..<unat stop]"
    proof (rule nth_equalityI)
      show len: "length (take ?n (drop (unat (off_in_blk pos)) d)) = length (map b [unat pos..<unat stop])"
        using A(5) n ld(3) P(2) by simp
      fix k assume "k < length (take ?n (drop (unat (off_in_blk pos)) d))"
      then have k: "k < ?n" "unat pos + k < unat stop" using n by auto
      have "dirty_byte c (unat pos + k) (b (unat pos + k))" using "1.prems"(5) k n by auto
      then have "d ! (unat (off_in_blk pos) + k) = b (unat pos + k)"
        using A(6) [of "unat pos + k"] k ld(2) P(1,2) by (auto simp: dirty_byte_def)
      then show "take ?n (drop (unat (off_in_blk pos)) d) ! k = map b [unat pos..<unat stop] ! k"
        using k A(5) P(2) ld(3) by simp
    qed
    have keep: "\<forall>i. unat stop \<le> i \<and> i < unat fin \<longrightarrow> dirty_byte c1 i (b i)"
      using "1.prems"(5) n c1(4,5) by (auto simp: dirty_byte_def)
    have "\<exists>c' s'. file_read_loop srch fuel p fin (Some ?blk) stop s1 = (Inr (map b [unat stop..<unat fin]), s') \<and> pages_are p f c' s' \<and>
        pc_inv ext c' \<and> pc_dirty c' = pc_dirty c1 \<and> (\<forall>j \<in> set (pc_dirty c1). pc_content c' j = pc_content c1 j)"
      by (rule "1.IH") (use True A(2,4) c1 keep "1.prems"(3,4) in \<open>auto simp: stop_def [symmetric] simp del: pc_with_simps\<close>)
    then obtain c' s' where c': "file_read_loop srch fuel p fin (Some ?blk) stop s1 = (Inr (map b [unat stop..<unat fin]), s')" "pages_are p f c' s'"
        "pc_inv ext c'" "pc_dirty c' = pc_dirty c1" "\<forall>j \<in> set (pc_dirty c1). pc_content c' j = pc_content c1 j" by blast
    have "[unat pos..<unat fin] = [unat pos..<unat stop] @ [unat stop..<unat fin]" 
      using n upt_add_eq_append [of "unat pos" "unat stop" "unat fin - unat stop"] by simp
    then have "file_read_loop srch fuel p fin pre pos s = (Inr (map b [unat pos..<unat fin]), s')"
      using True A(2,4) c1(1) c'(1) bytes unfolding file_read_loop.simps [of srch fuel p fin pre pos s]
      by (simp add: stop_def [symmetric] Let_def)
    then show ?thesis using c' c1(4,5) by auto
  qed
qed

section \<open>A read of one page\<close>

lemma one_round:
  assumes "unat pos < unat fin" "unat fin < 2 ^ 44" "unat fin \<le> (unat pos div 4096 + 1) * 4096"
  shows "min (end_pos_of_cur_blk pos) fin = fin" "pos < fin" "fin - pos \<le> 4096" "unat (fin - pos) = unat fin - unat pos"
    "unat (off_in_blk pos) = unat pos mod 4096" "unat pos mod 4096 + (unat fin - unat pos) \<le> 4096"
proof -
  have p: "unat pos < 2 ^ 44" using assms(1,2) by linarith
  note A = round_arith [OF assms(1,2)]
  show e: "min (end_pos_of_cur_blk pos) fin = fin"
    using pos_arith(3) [OF p] assms(3) by (intro min_absorb2) (simp add: word_le_nat_alt)
  show "pos < fin" "fin - pos \<le> 4096" "unat (fin - pos) = unat fin - unat pos"
    "unat pos mod 4096 + (unat fin - unat pos) \<le> 4096" using A [unfolded e] by simp_all
  show "unat (off_in_blk pos) = unat pos mod 4096" by (rule pos_arith(2) [OF p])
qed

lemma read_ready_page:
  assumes s: "pages_are p f c s" "pc_inv (\<lambda>_. 0) c" "pc_content c (idx_of_blk pos) = Some (l, Page_ready, d)"
    and r: "unat pos < unat fin" "unat fin < 2 ^ 44" "unat fin \<le> (unat pos div 4096 + 1) * 4096"
  shows "\<exists>c' s'. file_read_loop srch fuel p fin None pos s = (Inr (take (unat fin - unat pos) (drop (unat pos mod 4096) d)), s') \<and>
    pages_are p f c' s' \<and> pc_inv (\<lambda>_. 0) c'"
proof -
  note A = one_round [OF r]
  have inv: "pc_inv (pc_with (\<lambda>_. 0) None) c" "pc_room (\<lambda>_. 0)" using s(2) by simp_all
  obtain c1 s1 where c1: "with_page srch fuel p None (idx_of_blk pos) (copy_from_page (unat (off_in_blk pos)) (unat (fin - pos))) s =
      (Inr (take (unat (fin - pos)) (drop (unat (off_in_blk pos)) d)), s1)" "pages_are p f c1 s1" "pc_inv (pc_with (\<lambda>_. 0) (Some (idx_of_blk pos))) c1"
    by (rule with_page_read [OF s(1) inv s(3)])
  obtain c2 where c2: "pc_handle_dtor (Some (idx_of_blk pos)) c1 = (Inr (), c2)" "pc_inv (\<lambda>_. 0) c2"
    using pc_release_ok [OF c1(3)] by blast
  obtain s2 where s2: "on_pages p (pc_handle_dtor (Some (idx_of_blk pos))) s1 = (Inr (), s2)" "pages_are p f c2 s2"
    using on_pages_run [where m = "pc_handle_dtor (Some (idx_of_blk pos))", OF c1(2) c2(1)] by blast
  have "file_read_loop srch fuel p fin (Some (idx_of_blk pos)) fin s1 = (Inr [], s2)"
    using s2(1) by (simp add: file_read_loop.simps prog_simps)
  then have "file_read_loop srch fuel p fin None pos s = (Inr (take (unat fin - unat pos) (drop (unat pos mod 4096) d)), s2)"
    using c1(1) A unfolding file_read_loop.simps [of srch fuel p fin None pos s] by (simp add: Let_def)
  then show ?thesis using s2(2) c2(2) by blast
qed

text \<open>A read that throws has marked its page as ready.\<close>

lemma read_failed_page:
  assumes s: "pages_are p f c s" "pc_inv (\<lambda>_. 0) c"
    and r: "unat pos < unat fin" "unat fin < 2 ^ 44" "unat fin \<le> (unat pos div 4096 + 1) * 4096"
    and run: "file_read_loop srch fuel p fin None pos s = (Inl (Throw e), s1)"
  shows "\<exists>c' l d. pages_are p f c' s1 \<and> pc_inv (\<lambda>_. 0) c' \<and> pc_content c' (idx_of_blk pos) = Some (l, Page_ready, d) \<and> length d = 4096"
proof -
  note A = one_round [OF r]
  let ?blk = "idx_of_blk pos" and ?act = "copy_from_page (unat (off_in_blk pos)) (unat (fin - pos))"
  have inv: "pc_inv (pc_with (\<lambda>_. 0) None) c" "pc_room (\<lambda>_. 0)" using s(2) by simp_all
  let ?E = "pc_with (pc_with (\<lambda>_. 0) None) (Some ?blk)"
  obtain c1 s2 where g: "on_pages p (pc_get ?blk) s = (Inr ?blk, s2)" "pages_are p f c1 s2" "pc_inv ?E c1"
    using get_page_run [OF s(1) inv, of ?blk] by blast
  obtain r' s3 where pr: "prepare_page_content srch fuel p ?blk s2 = (r', s3)" by fastforce
  obtain c2 l d where c2: "pages_are p f c2 s3" "pc_inv ?E c2" "pc_content c2 = (pc_content c1)(?blk \<mapsto> (l, Page_ready, d))" "length d = 4096"
    by (rule prepare_run [OF g(2,3) _ pr]) auto
  have b: "pc_content c2 ?blk = Some (l, Page_ready, d)" by (simp add: c2(3))
  have loop: "file_read_loop srch fuel p fin None pos s =
      (case with_page srch fuel p None ?blk ?act s of (Inl x, t) \<Rightarrow> (Inl x, t)
       | (Inr bs, t) \<Rightarrow> (case file_read_loop srch fuel p fin (Some ?blk) fin t of (Inl x, t2) \<Rightarrow> (Inl x, t2) | (Inr rest, t2) \<Rightarrow> (Inr (bs @ rest), t2)))"
    using A unfolding file_read_loop.simps [of srch fuel p fin None pos s] by (simp add: Let_def)
  show ?thesis
  proof (cases r')
    case (Inl x)
    obtain c3 where c3: "pc_handle_dtor (Some ?blk) c2 = (Inr (), c3)" "pc_inv (\<lambda>_. 0) c3" "pc_content c3 = pc_content c2"
      using pc_release_ok [of "\<lambda>_. 0" "Some ?blk" c2] c2(2) by auto
    obtain s4 where s4: "on_pages p (pc_handle_dtor (Some ?blk)) s3 = (Inr (), s4)" "pages_are p f c3 s4"
      using on_pages_run [where m = "pc_handle_dtor (Some ?blk)", OF c2(1) c3(1)] by blast
    have "pc_handle_dtor None c3 = (Inr (), c3)" by (simp add: pc_handle_dtor_def ret_def)
    from on_pages_run [where m = "pc_handle_dtor None", OF s4(2) this]
    obtain s5 where s5: "on_pages p (pc_handle_dtor None) s4 = (Inr (), s5)" "pages_are p f c3 s5" by blast
    have "s1 = s5"
      using run g(1) pr Inl s4(1) s5(1) unfolding loop with_page_def
      by (cases x) (auto simp: bnd_def on_throw_def fail_def)
    then show ?thesis using s5(2) c3 b c2(4) by auto
  next
    case (Inr u)
    have "?act ?blk c2 = (Inr (take (unat (fin - pos)) (drop (unat (off_in_blk pos)) d)), c2)"
      using b by (auto simp: copy_from_page_def pc_page_def prog_simps pc_content_def)
    from on_pages_run [where m = "?act ?blk", OF c2(1) this] obtain s4
      where s4: "on_pages p (?act ?blk) s3 = (Inr (take (unat (fin - pos)) (drop (unat (off_in_blk pos)) d)), s4)" "pages_are p f c2 s4" by blast
    obtain c3 where c3: "pc_handle_move_assign None (Some ?blk) c2 = (Inr (Some ?blk), c3)" "pc_inv (pc_with (\<lambda>_. 0) (Some ?blk)) c3"
      using pc_move_ok [OF c2(2)] by blast
    obtain s5 where s5: "on_pages p (pc_handle_move_assign None (Some ?blk)) s4 = (Inr (Some ?blk), s5)" "pages_are p f c3 s5"
      using on_pages_run [where m = "pc_handle_move_assign None (Some ?blk)", OF s4(2) c3(1)] by blast
    obtain c4 where c4: "pc_handle_dtor (Some ?blk) c3 = (Inr (), c4)" using pc_release_ok [OF c3(2)] by blast
    obtain s6 where s6: "on_pages p (pc_handle_dtor (Some ?blk)) s5 = (Inr (), s6)"
      using on_pages_run [where m = "pc_handle_dtor (Some ?blk)", OF s5(2) c4] by blast
    have "with_page srch fuel p None ?blk ?act s = (Inr (take (unat (fin - pos)) (drop (unat (off_in_blk pos)) d)), s5)"
      using g(1) pr Inr s4(1) s5(1) by (simp add: with_page_def bnd_def on_throw_def ret_def)
    then have False using run s6 unfolding loop by (simp add: file_read_loop.simps prog_simps)
    then show ?thesis ..
  qed
qed

section \<open>A concrete file\<close>

text \<open>A file whose first page is cached with zeros.\<close>

definition sample_pages :: page_cache where
  "sample_pages = \<lparr>pc_mgr = \<lparr>cm_index = [0 \<mapsto> (page_entry_init 0)\<lparr>pg_state := Page_ready\<rparr>],
     cm_replacer = \<lparr>lru_list = [(0, 0)], pinned_list = [], key_states = [0 \<mapsto> (False, 0)], next_node = 1\<rparr>\<rparr>,
     pc_dirty = [], pc_expect = 4, pc_cur = 1\<rparr>"

definition sample_file :: file_obj where
  "sample_file = \<lparr>fi_ino = 10, fi_size = 0, fi_atime = (0, 0), fi_mtime = (0, 0), fi_dirty = False, fi_nlink = 1,
     fi_ref_count = 0, fi_fd_ref_count = 0, fi_pages = sample_pages\<rparr>"

definition sample_io :: iosys where
  "sample_io = \<lparr>io_fs = sample_sys, io_data = (\<lambda>_. Some (replicate 4096 0)), io_srmap = sample_srmap,
     fo_mgr = \<lparr>cm_index = [10 \<mapsto> sample_file],
       cm_replacer = \<lparr>lru_list = [(0, 10)], pinned_list = [], key_states = [10 \<mapsto> (False, 0)], next_node = 1\<rparr>\<rparr>,
     fo_dirty = [], fo_expect = 4, fo_cur = 1, page_cache_size = 4\<rparr>"

lemma sample_pages_inv: "pc_inv (\<lambda>_. 0) sample_pages"
  by (simp add: pc_invp_def pc_entry_ok_def sample_pages_def page_entry_init_def cm_inv_def lru_abs_defs nodes_ok_def)

lemma sample_write:
  "\<exists>s1. file_write (\<lambda>_ _ _ _. None) 0 (5, 6) 10 [1, 2, 3] 100 sample_io = (Inr 3, s1)"
  by (simp add: file_write_def file_write_loop.simps Let_def idx_of_blk_def off_in_blk_def end_pos_of_cur_blk_def prog_simps
    with_page_def prepare_page_content_def on_pages_def sample_io_def sample_file_def
    pc_get_def cm_get_def index_get_def lru_access_def erase_node_def sample_pages_def add_to_lru_tail_def pinned_flag_def
    pc_add_refcount_def pc_page_def pc_write_def cm_update_def pc_on_mgr_def cm_pin_def lru_pin_def add_to_pinned_tail_def page_entry_init_def
    copy_to_page_def pc_mark_dirty_def add_to_dirty_pages_def pc_handle_move_assign_def pc_handle_dtor_def pc_sub_refcount_def pc_sub_dec_def pc_sub_unpin_def cm_unpin_def lru_unpin_def
    set_cur_size_if_larger_def file_mark_modified_def fo_write_def)

text \<open>A file of one block on a device that does not answer.\<close>

definition broken_file :: file_obj where
  "broken_file = sample_file\<lparr>fi_size := 4096, fi_pages := page_cache_init 4\<rparr>"

definition broken_io :: iosys where
  "broken_io = sample_io\<lparr>io_fs := sample_sys\<lparr>fs_meta := sample_meta\<lparr>nat_dev := \<lambda>_. None\<rparr>\<rparr>,
     fo_mgr := (fo_mgr sample_io)\<lparr>cm_index := [10 \<mapsto> broken_file]\<rparr>\<rparr>"

lemma broken_read:
  "\<exists>s1. file_read (\<lambda>_ _ _ _. None) 0 (5, 6) 10 8 100 broken_io = (Inl (Throw Io_error), s1)"
  by (simp add: file_read_def file_read_loop.simps Let_def idx_of_blk_def off_in_blk_def end_pos_of_cur_blk_def prog_simps
    with_page_def prepare_page_content_def on_pages_def sample_io_def sample_file_def broken_io_def broken_file_def fo_file_def
    pc_get_def cm_get_def index_get_def page_cache_init_def cm_empty_def pc_new_page_def cm_add_def
    pc_add_refcount_def pc_page_def pc_write_def cm_update_def pc_on_mgr_def page_entry_init_def
    on_fs_def get_node_entry_def nc_get_def sample_sys_def on_meta_def get_lpa_of_nid_def get_nid_pos_in_nat_def
    sample_meta_def sample_super_def nat_get_def on_nat_def sn_get_def sn_get_inner_def sn_init_def sn_read_lpa_def
    pc_handle_dtor_def pc_sub_refcount_def pc_sub_dec_def pc_sub_unpin_def on_throw_def index_add_def lru_add_def lru_empty_def add_to_lru_tail_def cm_pin_def lru_pin_def
    erase_node_def pinned_flag_def add_to_pinned_tail_def cm_unpin_def lru_unpin_def)

section \<open>Properties\<close>

text \<open>
  C30. What is written to a file is what is read back. When a write returns, it has written the
  whole buffer, and reading the same range returns the buffer, without asking the device:
  the pages that were written stay in the cache, whatever was replaced on the way. The
  invariant of the page cache is kept.
\<close>

theorem write_then_read:
  assumes "cm_index (fo_mgr s) p = Some f" "\<forall>l b. io_data s l = Some b \<longrightarrow> length b = 4096" "pc_inv (\<lambda>_. 0) (fi_pages f)"
    "unat pos + length buffer < 2 ^ 44" "file_write srch fuel t p buffer pos s = (Inr n, s1)"
  shows "n = length buffer \<and> (\<exists>s2 f2. file_read srch2 fuel2 t2 p (word_of_nat (length buffer)) pos s1 = (Inr buffer, s2) \<and>
    cm_index (fo_mgr s2) p = Some f2 \<and> pc_inv (\<lambda>_. 0) (fi_pages f2) \<and> unat pos + length buffer \<le> unat (fi_size f2))"
proof -
  let ?fin = "pos + word_of_nat (length buffer)"
  have "unat (word_of_nat (length buffer) :: u64) = length buffer" using assms(4) by (simp add: unat_of_nat take_bit_nat_eq_self)
  then have fin: "unat ?fin = unat pos + length buffer" using assms(4) by (simp add: unat_word_ariths)
  have s: "pages_are p f (fi_pages f) s" using assms(1,2) by (simp add: pages_are_def)
  obtain u s0 where w: "file_write_loop srch fuel p ?fin None buffer pos s = (Inr u, s0)" and n: "n = length buffer"
      and s1: "s1 = snd (bnd (set_cur_size_if_larger ?fin p) (\<lambda>_. file_mark_modified t p) s0)"
    using assms(5) by (auto simp: file_write_def Let_def bnd_def ret_def set_cur_size_if_larger_def file_mark_modified_def fo_write_def modify_def
        split: prod.splits sum.splits)
  obtain c where c: "pages_are p f c s0" "pc_inv (\<lambda>_. 0) c" "\<forall>k < length buffer. dirty_byte c (unat pos + k) (buffer ! k)"
    using file_write_loop_ok [OF w s _ _ fin, of "\<lambda>_. 0"] assms(3,4) fin by auto
  have bt: "dirty_byte c i (buffer ! (i - unat pos))" if "unat pos \<le> i \<and> i < unat ?fin" for i
  proof -
    have "i - unat pos < length buffer" "unat pos + (i - unat pos) = i" using that fin by auto
    then show ?thesis using c(3) by metis
  qed
  define g where "g = (let f1 = (if ?fin > fi_size f then f\<lparr>fi_size := ?fin\<rparr> else f) in f1\<lparr>fi_atime := t, fi_mtime := t\<rparr>)"
  have pg: "pages_are p g c s1"
    using c(1) unfolding s1 by (auto simp: pages_are_def bnd_def set_cur_size_if_larger_def file_mark_modified_def fo_write_def modify_def g_def Let_def)
  have sz: "?fin \<le> fi_size g" by (auto simp: g_def Let_def)
  obtain c2 s2 where r: "file_read_loop srch2 fuel2 p ?fin None pos s1 = (Inr (map (\<lambda>i. buffer ! (i - unat pos)) [unat pos..<unat ?fin]), s2)"
      "pages_are p g c2 s2" "pc_inv (\<lambda>_. 0) c2"
    using file_read_loop_ok [OF pg, of "\<lambda>_. 0" None ?fin pos "\<lambda>i. buffer ! (i - unat pos)" srch2 fuel2] c(2) bt fin assms(4)
    by auto
  have "map (\<lambda>i. buffer ! (i - unat pos)) [unat pos..<unat ?fin] = buffer"
    unfolding fin by (rule nth_equalityI) simp_all
  then have "file_read srch2 fuel2 t2 p (word_of_nat (length buffer)) pos s1 = (Inr buffer, snd (file_mark_access t2 p s2))"
    using r(1) pg sz by (simp add: file_read_def fo_file_run bnd_def ret_def file_mark_access_def fo_write_def modify_def min_def)
  moreover have "cm_index (fo_mgr (snd (file_mark_access t2 p s2))) p = Some (g\<lparr>fi_pages := c2, fi_atime := t2\<rparr>)"
    using r(2) by (simp add: pages_are_def file_mark_access_def fo_write_def modify_def)
  ultimately show ?thesis using r(3) n sz fin by (auto simp: word_le_nat_alt)
qed

theorem write_then_read_witness:
  "\<exists>s1 s2. file_write (\<lambda>_ _ _ _. None) 0 (5, 6) 10 [1, 2, 3] 100 sample_io = (Inr 3, s1) \<and>
    file_read (\<lambda>_ _ _ _. None) 0 (7, 8) 10 3 100 s1 = (Inr [1, 2, 3], s2)"
proof -
  obtain s1 where s1: "file_write (\<lambda>_ _ _ _. None) 0 (5, 6) 10 [1, 2, 3] 100 sample_io = (Inr 3, s1)"
    using sample_write by blast
  have "cm_index (fo_mgr sample_io) 10 = Some sample_file" "\<forall>l b. io_data sample_io l = Some b \<longrightarrow> length b = 4096"
      "pc_inv (\<lambda>_. 0) (fi_pages sample_file)"
    using sample_pages_inv by (simp_all add: sample_io_def sample_file_def)
  from write_then_read [OF this _ s1, of "\<lambda>_ _ _ _. None" 0 "(7, 8)"] s1 show ?thesis by auto
qed

text \<open>
  C32. A failed read is not noticed by the next one. When reading within one page throws, the
  page stays in the cache marked as ready, and the next read of the same range succeeds and
  returns what the buffer of the page happens to hold, whatever the device would answer.
\<close>

theorem read_error_forgotten:
  assumes "cm_index (fo_mgr s) p = Some f" "\<forall>l b. io_data s l = Some b \<longrightarrow> length b = 4096" "pc_inv (\<lambda>_. 0) (fi_pages f)"
    "pos < fin" "fin \<le> fi_size f" "unat fin < 2 ^ 44" "unat fin \<le> (unat pos div 4096 + 1) * 4096"
    "file_read srch fuel t p (fin - pos) pos s = (Inl (Throw e), s1)"
  shows "\<exists>bs s2. file_read srch2 fuel2 t2 p (fin - pos) pos s1 = (Inr bs, s2) \<and> length bs = unat (fin - pos)"
proof -
  have r: "unat pos < unat fin" using assms(4) by (simp add: word_less_nat_alt)
  have s: "pages_are p f (fi_pages f) s" using assms(1,2) by (simp add: pages_are_def)
  have m: "min (fi_size f) (pos + (fin - pos)) = fin" using assms(5) by (simp add: min_absorb2)
  have "file_read_loop srch fuel p fin None pos s = (Inl (Throw e), s1)"
    using assms(8) m by (auto simp: file_read_def fo_file_run [OF s] bnd_def ret_def file_mark_access_def fo_write_def modify_def
        split: prod.splits sum.splits)
  then obtain c l d where c: "pages_are p f c s1" "pc_inv (\<lambda>_. 0) c" "pc_content c (idx_of_blk pos) = Some (l, Page_ready, d)" "length d = 4096"
    using read_failed_page [OF s assms(3) r assms(6,7)] by blast
  obtain s2 where s2: "file_read_loop srch2 fuel2 p fin None pos s1 = (Inr (take (unat fin - unat pos) (drop (unat pos mod 4096) d)), s2)"
    using read_ready_page [OF c(1,2,3) r assms(6,7)] by blast
  have sz: "fi_size (f\<lparr>fi_pages := c\<rparr>) = fi_size f" by simp
  note A = one_round [OF r assms(6,7)]
  have "length (take (unat fin - unat pos) (drop (unat pos mod 4096) d)) = unat (fin - pos)" using A c(4) by simp
  moreover have "file_read srch2 fuel2 t2 p (fin - pos) pos s1 =
      (Inr (take (unat fin - unat pos) (drop (unat pos mod 4096) d)), snd (file_mark_access t2 p s2))"
    using s2 m by (simp add: file_read_def fo_file_run [OF c(1)] bnd_def ret_def file_mark_access_def fo_write_def modify_def)
  ultimately show ?thesis by blast
qed

theorem read_error_forgotten_witness:
  "\<exists>s1 bs s2. file_read (\<lambda>_ _ _ _. None) 0 (5, 6) 10 8 100 broken_io = (Inl (Throw Io_error), s1) \<and>
    file_read (\<lambda>_ _ _ _. None) 0 (7, 8) 10 8 100 s1 = (Inr bs, s2) \<and> length bs = 8"
proof -
  obtain s1 where s1: "file_read (\<lambda>_ _ _ _. None) 0 (5, 6) 10 8 100 broken_io = (Inl (Throw Io_error), s1)"
    using broken_read by blast
  have "cm_index (fo_mgr broken_io) 10 = Some broken_file" "\<forall>l b. io_data broken_io l = Some b \<longrightarrow> length b = 4096"
      "pc_inv (\<lambda>_. 0) (fi_pages broken_file)"
    using pc_init_inv by (simp_all add: broken_io_def sample_io_def broken_file_def)
  from read_error_forgotten [OF this, of 100 108 "\<lambda>_ _ _ _. None" 0 "(5, 6)" Io_error s1 "\<lambda>_ _ _ _. None" 0 "(7, 8)"] s1
  show ?thesis by (auto simp: broken_file_def)
qed

end
