(* ===== verification/Mkfs.thy ===== *)
theory Mkfs
  imports File_Mapping
begin

text \<open>
  The formatter, \<^verbatim>\<open>mkfs/mkhscfs.cc\<close>: it computes the layout of the device and writes the super
  block, the SIT with the list of free segments, the NAT with the list of free node ids, and
  the root directory. Whether a write succeeds, the clock and the answers to the commands
  that initialise the SSD are parameters. Sizes keep the widths of the code.
\<close>

section \<open>State\<close>

datatype disk_block =
    Super_on_disk hscfs_super_block
  | Sit_on_disk hscfs_sit_block
  | Nat_on_disk hscfs_nat_block
  | Node_on_disk hscfs_node
  | Zero_on_disk

record mkfs =
  super_buffer :: hscfs_super_block
  mk_dev :: "u32 \<Rightarrow> disk_block option"

abbreviation ROOT_INO :: u32 where "ROOT_INO \<equiv> 2"
abbreviation META_JOURNAL_BLK_CNT :: u64 where "META_JOURNAL_BLK_CNT \<equiv> 1024"

definition UPPER_BOUND :: "u64 \<Rightarrow> u64 \<Rightarrow> u64" where
  "UPPER_BOUND x y = (x + y - 1) div y"

definition blk_cnt_to_seg_cnt :: "u64 \<Rightarrow> u32" where
  "blk_cnt_to_seg_cnt blk_cnt = ucast (UPPER_BOUND blk_cnt 512)"

definition seg_cnt_to_blk_cnt :: "u64 \<Rightarrow> u64" where
  "seg_cnt_to_blk_cnt seg_cnt = seg_cnt * 512"

definition blk_idx_to_seg_idx :: "u64 \<Rightarrow> (mkfs, u64) prog" where
  "blk_idx_to_seg_idx blk_idx = bnd (assert_that (blk_idx mod 512 = 0)) (\<lambda>_. ret (blk_idx div 512))"

definition seg_idx_to_blk_idx :: "u64 \<Rightarrow> u64" where
  "seg_idx_to_blk_idx seg_idx = seg_idx * 512"

text \<open>
  The block is written to the sector \<^verbatim>\<open>lpa * 8\<close>, computed with 32 bits; the device is indexed by
  the number of the block that starts there.
\<close>

definition write_block :: "(u32 \<Rightarrow> bool) \<Rightarrow> disk_block \<Rightarrow> u32 \<Rightarrow> (mkfs, int) prog" where
  "write_block wr b lpa = (\<lambda>s.
     let lba = lpa * 8 in
     if wr lba then (Inr 0, s\<lparr>mk_dev := (mk_dev s)(lba div 8 \<mapsto> b)\<rparr>) else (Inr (-1), s))"

definition get_lpa_number :: "u64 \<Rightarrow> u64" where
  "get_lpa_number sector_num = sector_num div (4096 div 512)"

definition set_super :: "(hscfs_super_block \<Rightarrow> hscfs_super_block) \<Rightarrow> (mkfs, unit) prog" where
  "set_super f = modify (\<lambda>s. s\<lparr>super_buffer := f (super_buffer s)\<rparr>)"

text \<open>A call that failed ends the function with -1.\<close>

definition checked :: "(mkfs, int) prog \<Rightarrow> (mkfs, int) prog \<Rightarrow> (mkfs, int) prog" where
  "checked p q = bnd p (\<lambda>r. if r \<noteq> 0 then ret (-1) else q)"

section \<open>The super block\<close>

text \<open>The first address behind a table of \<open>cnt\<close> segments that starts at \<open>start\<close>.\<close>

definition start_behind :: "u32 \<Rightarrow> u32 \<Rightarrow> (mkfs, u32) prog" where
  "start_behind start cnt =
     bnd (blk_idx_to_seg_idx (ucast start)) (\<lambda>i. ret (ucast (seg_idx_to_blk_idx (i + ucast cnt))))"

definition format_super :: "(u32 \<Rightarrow> bool) \<Rightarrow> u64 \<Rightarrow> (mkfs, int) prog" where
  "format_super wr lpa_num =
     (if lpa_num \<ge> 0xFFFFFFFF then ret (-1)
      else
        let seg_cnt = ucast (lpa_num div 512); blk_cnt = lpa_num - lpa_num mod 512 in
        bnd (assert_that (blk_cnt = ucast (seg_cnt * BLOCK_PER_SEGMENT))) (\<lambda>_.
        bnd (set_super (\<lambda>s. s\<lparr>block_count := blk_cnt, segment_count := seg_cnt, segment0_blkaddr := 0, magic := HSCFS_MAGIC_NUMBER\<rparr>)) (\<lambda>_.
        let meta_journal_seg_cnt = blk_cnt_to_seg_cnt META_JOURNAL_BLK_CNT; meta_journal_start_blk_lpa = BLOCK_PER_SEGMENT in
        bnd (set_super (\<lambda>s. s\<lparr>meta_journal_blkaddr := meta_journal_start_blk_lpa, segment_count_meta_journal := meta_journal_seg_cnt,
               meta_journal_start_blkoff := ucast meta_journal_start_blk_lpa,
               meta_journal_end_blkoff := ucast (ucast meta_journal_start_blk_lpa + META_JOURNAL_BLK_CNT)\<rparr>)) (\<lambda>_.
        let sit_seg_cnt = blk_cnt_to_seg_cnt (UPPER_BOUND (ucast seg_cnt) 60) in
        bnd (start_behind meta_journal_start_blk_lpa meta_journal_seg_cnt) (\<lambda>sit_start_blk_lpa.
        bnd (set_super (\<lambda>s. s\<lparr>sit_blkaddr := sit_start_blk_lpa, segment_count_sit := sit_seg_cnt\<rparr>)) (\<lambda>_.
        let nat_seg_cnt = blk_cnt_to_seg_cnt (UPPER_BOUND blk_cnt 512) in
        bnd (start_behind sit_start_blk_lpa sit_seg_cnt) (\<lambda>nat_start_blk_lpa.
        bnd (set_super (\<lambda>s. s\<lparr>nat_blkaddr := nat_start_blk_lpa, segment_count_nat := nat_seg_cnt\<rparr>)) (\<lambda>_.
        let srmap_seg_cnt = blk_cnt_to_seg_cnt (UPPER_BOUND blk_cnt 512) in
        bnd (start_behind nat_start_blk_lpa nat_seg_cnt) (\<lambda>srmap_start_blk_lpa.
        bnd (set_super (\<lambda>s. s\<lparr>srmap_blkaddr := srmap_start_blk_lpa, segment_count_srmap := srmap_seg_cnt\<rparr>)) (\<lambda>_.
        bnd (blk_idx_to_seg_idx (ucast srmap_start_blk_lpa)) (\<lambda>srmap_segid.
        let ma_start_segid = ucast (srmap_segid + ucast srmap_seg_cnt) in
        if ma_start_segid \<ge> seg_cnt then ret (-1)
        else
          bnd (set_super (\<lambda>s. s\<lparr>main_blkaddr := ucast (seg_idx_to_blk_idx (ucast ma_start_segid)), segment_count_main := seg_cnt - ma_start_segid,
                 current_node_segment_id := ma_start_segid, current_data_segment_id := ma_start_segid + 1,
                 current_node_segment_blkoff := 1, current_data_segment_blkoff := 2, first_free_segment_id := ma_start_segid + 2\<rparr>)) (\<lambda>_.
          if ma_start_segid + 2 \<ge> seg_cnt then ret (-1)
          else
            bnd (set_super (\<lambda>s. s\<lparr>free_segment_count := seg_cnt - (ma_start_segid + 2), first_node_segment_id := INVALID_SEGID,
                   first_data_segment_id := INVALID_SEGID, root_ino := ROOT_INO, next_free_nid := ROOT_INO + 1\<rparr>)) (\<lambda>_.
            bnd (reads super_buffer) (\<lambda>s.
            checked (write_block wr (Super_on_disk s) 0) (ret 0)))))))))))))))"

section \<open>The SIT\<close>

definition zero_sit_entry :: hscfs_sit_entry where
  "zero_sit_entry = \<lparr>vblocks = 0, valid_map = replicate 64 0\<rparr>"

definition zero_sit_block :: hscfs_sit_block where
  "zero_sit_block = replicate 60 zero_sit_entry"

text \<open>The entry that the loop writes for a segment, over the cleared one in the buffer.\<close>

definition sit_entry_init :: "hscfs_super_block \<Rightarrow> u32 \<Rightarrow> hscfs_sit_entry \<Rightarrow> hscfs_sit_entry" where
  "sit_entry_init s segid e =
     (if segid = current_node_segment_id s then e\<lparr>valid_map := (valid_map e)[0 := 1], vblocks := 1\<rparr>
      else if segid = current_data_segment_id s then e\<lparr>valid_map := (valid_map e)[0 := 3], vblocks := 2\<rparr>
      else SET_NEXT_SEG (if segid = segment_count s - 1 then INVALID_SEGID else segid + 1) e)"

lemma unat_dec_lt: "(x :: u32) \<noteq> y \<Longrightarrow> unat (y - (x + 1)) < unat (y - x)"
proof -
  assume "x \<noteq> y"
  then have "y - x \<noteq> 0" by simp
  then have "unat (y - x - 1) < unat (y - x)" by (metis measure_unat)
  then show ?thesis by (simp add: diff_diff_eq)
qed

lemma write_block_super: "write_block wr b lpa s = (r, s') \<Longrightarrow> super_buffer s' = super_buffer s"
  by (auto simp: write_block_def Let_def split: if_splits)

text \<open>
  The loop; \<open>sit_lpa\<close> is the address of the last entry written, which is not set before the first
  round.
\<close>

function format_sit_loop :: "(u32 \<Rightarrow> bool) \<Rightarrow> hscfs_sit_block \<Rightarrow> u32 option \<Rightarrow> u32 \<Rightarrow> (mkfs, int) prog" where
  "format_sit_loop wr buffer sit_lpa segid s =
     (if segid = segment_count (super_buffer s) then
        (case sit_lpa of None \<Rightarrow> (Inl Undefined, s) | Some lpa \<Rightarrow> checked (write_block wr (Sit_on_disk buffer) lpa) (ret 0) s)
      else
        let sb = super_buffer s; idx = segid div SIT_ENTRY_PER_BLOCK; off = unat (segid mod SIT_ENTRY_PER_BLOCK) in
        if \<not> idx < segment_count_sit sb * BLOCK_PER_SEGMENT then (Inl Assert_failed, s)
        else
          let lpa = sit_blkaddr sb + idx;
              b = (if off = 0 then zero_sit_block else buffer);
              b' = b[off := sit_entry_init sb segid (b ! off)]
          in
            if off = 59 then
              (case write_block wr (Sit_on_disk b') lpa s of
                 (Inr r, s') \<Rightarrow> if r \<noteq> 0 then (Inr (-1), s') else format_sit_loop wr b' (Some lpa) (segid + 1) s'
               | (Inl f, s') \<Rightarrow> (Inl f, s'))
            else format_sit_loop wr b' (Some lpa) (segid + 1) s)"
  by pat_completeness auto
termination
proof (relation "measure (\<lambda>(wr, b, l, segid, s). unat (segment_count (super_buffer s) - segid))", goal_cases)
  case (2 wr buffer sit_lpa segid s)
  then show ?case using write_block_super [OF sym] by (fastforce simp: unat_dec_lt)
next
  case (3 wr buffer sit_lpa segid s)
  then show ?case by (simp add: unat_dec_lt)
qed simp

declare format_sit_loop.simps [simp del]

definition format_sit :: "(u32 \<Rightarrow> bool) \<Rightarrow> (mkfs, int) prog" where
  "format_sit wr =
     bnd (reads super_buffer) (\<lambda>s.
     bnd (blk_idx_to_seg_idx (ucast (main_blkaddr s))) (\<lambda>i.
     let main_start_segid = ucast i in
     bnd (assert_that (current_node_segment_id s = main_start_segid)) (\<lambda>_.
     bnd (assert_that (current_data_segment_id s = main_start_segid + 1)) (\<lambda>_.
     bnd (assert_that (first_free_segment_id s = main_start_segid + 2)) (\<lambda>_.
     format_sit_loop wr zero_sit_block None main_start_segid)))))"

section \<open>The NAT\<close>

definition zero_nat_block :: hscfs_nat_block where
  "zero_nat_block = replicate 512 \<lparr>ne_ino = 0, ne_block_addr = 0\<rparr>"

function format_nat_loop :: "(u32 \<Rightarrow> bool) \<Rightarrow> u32 \<Rightarrow> hscfs_nat_block \<Rightarrow> u32 \<Rightarrow> u32 \<Rightarrow> u32 \<Rightarrow> (mkfs, int) prog" where
  "format_nat_loop wr nat_end_lpa buffer nat_lpa nat_idx cur_nid s =
     (if nat_lpa < nat_end_lpa then
        if \<not> (cur_nid div NAT_ENTRY_PER_BLOCK + nat_blkaddr (super_buffer s) = nat_lpa \<and> cur_nid mod NAT_ENTRY_PER_BLOCK = nat_idx)
        then (Inl Assert_failed, s)
        else
          let nxt_nid = (if nat_lpa = nat_end_lpa - 1 \<and> nat_idx = NAT_ENTRY_PER_BLOCK - 1 then INVALID_NID else cur_nid + 1);
              b = buffer[unat nat_idx := \<lparr>ne_ino = 0, ne_block_addr = nxt_nid\<rparr>]
          in
            if nat_idx = NAT_ENTRY_PER_BLOCK - 1 then
              (case write_block wr (Nat_on_disk b) nat_lpa s of
                 (Inr r, s') \<Rightarrow> if r \<noteq> 0 then (Inr (-1), s') else format_nat_loop wr nat_end_lpa zero_nat_block (nat_lpa + 1) 0 (cur_nid + 1) s'
               | (Inl f, s') \<Rightarrow> (Inl f, s'))
            else format_nat_loop wr nat_end_lpa b nat_lpa (nat_idx + 1) (cur_nid + 1) s
      else (Inr 0, s))"
  by pat_completeness auto
termination
proof (relation "measures [\<lambda>(wr, fin, b, lpa, i, n, s). unat fin - unat lpa, \<lambda>(wr, fin, b, lpa, i, n, s). 512 - unat i]", goal_cases)
  case (2 wr nat_end_lpa buffer nat_lpa nat_idx cur_nid s)
  then have "nat_lpa < nat_end_lpa" by simp
  then have "nat_lpa \<noteq> - 1" "unat nat_lpa < unat nat_end_lpa"
    by (auto simp: word_order.extremum_strict) (simp add: word_less_nat_alt)
  then have "unat (nat_lpa + 1) = Suc (unat nat_lpa)" "unat nat_lpa < unat nat_end_lpa" by (simp_all add: unat_u32_inc)
  then show ?case by (simp, linarith)
next
  case (3 wr nat_end_lpa buffer nat_lpa nat_idx cur_nid s)
  have "unat nat_idx < 512" using 3 by (auto simp: unat_mod)
  then have "unat (nat_idx + 1) = Suc (unat nat_idx)" by (simp add: unat_word_ariths)
  then show ?case using \<open>unat nat_idx < 512\<close> by simp
qed simp

declare format_nat_loop.simps [simp del]

definition format_nat :: "(u32 \<Rightarrow> bool) \<Rightarrow> (mkfs, int) prog" where
  "format_nat wr =
     bnd (reads super_buffer) (\<lambda>s.
     let nat_start_lpa = nat_blkaddr s;
         nat_end_lpa = ucast (ucast nat_start_lpa + seg_cnt_to_blk_cnt (ucast (segment_count_nat s)));
         root_node_lpa = ucast (seg_idx_to_blk_idx (ucast (current_node_segment_id s)))
     in
       format_nat_loop wr nat_end_lpa (zero_nat_block[unat ROOT_INO := \<lparr>ne_ino = ROOT_INO, ne_block_addr = root_node_lpa\<rparr>])
         nat_start_lpa (ROOT_INO + 1) (ROOT_INO + 1))"

section \<open>The root directory\<close>

definition root_node :: "timespec \<Rightarrow> u32 \<Rightarrow> hscfs_node" where
  "root_node t first_data_lpa =
     (let n = zero_node\<lparr>f_ino := ROOT_INO, f_nid := ROOT_INO, f_offset := 0\<rparr>;
          n1 = set_wd64 12 0 (set_wd64 6 (4096 * 2) (set_wd 2 1 (set_wd 1 HSCFS_FT_DIR n)));
          n2 = set_mtime t (set_atime t (set_wd 16 0 n1))
      in set_wd (83 + 1) (first_data_lpa + 1) (set_wd 83 first_data_lpa n2))"

definition format_main_area :: "(u32 \<Rightarrow> bool) \<Rightarrow> timespec \<Rightarrow> (mkfs, int) prog" where
  "format_main_area wr t =
     bnd (reads super_buffer) (\<lambda>s.
     let first_data_lpa = ucast (seg_idx_to_blk_idx (ucast (current_data_segment_id s))) in
     checked (write_block wr (Node_on_disk (root_node t first_data_lpa)) (ucast (seg_idx_to_blk_idx (ucast (current_node_segment_id s)))))
       (checked (write_block wr Zero_on_disk (first_data_lpa + 0))
         (checked (write_block wr Zero_on_disk (first_data_lpa + 1)) (ret 0))))"

section \<open>Formatting\<close>

text \<open>The results of the three commands to the SSD.\<close>

definition init_ssd_db :: "int \<times> int \<times> int \<Rightarrow> (mkfs, int) prog" where
  "init_ssd_db r = (case r of (fs_module, clear, db) \<Rightarrow> checked (ret fs_module) (checked (ret clear) (checked (ret db) (ret 0))))"

definition format_ssd :: "(u32 \<Rightarrow> bool) \<Rightarrow> timespec \<Rightarrow> int \<times> int \<times> int \<Rightarrow> u64 \<Rightarrow> (mkfs, int) prog" where
  "format_ssd wr t r sector_num =
     checked (format_super wr (get_lpa_number sector_num))
       (checked (format_sit wr) (checked (format_nat wr) (checked (format_main_area wr t) (checked (init_ssd_db r) (ret 0)))))"

end
