(* ===== verification/Mkfs_Correct.thy ===== *)
theory Mkfs_Correct
  imports Mkfs Super_Manager
begin

text \<open>
  What a formatted device holds. The layout computed by \<^verbatim>\<open>format_super\<close> is stated with natural
  numbers; the loops that write the SIT and the NAT leave every block of the tables with the
  entries it should have; a file system mounted from the device satisfies the invariants of
  the allocators.
\<close>

section \<open>The layout\<close>

definition ceil_div :: "nat \<Rightarrow> nat \<Rightarrow> nat" where "ceil_div x y = (x + y - 1) div y"

definition lay_sit :: "nat \<Rightarrow> nat" where "lay_sit S = ceil_div (ceil_div S 60) 512"
definition lay_nat :: "nat \<Rightarrow> nat" where "lay_nat S = ceil_div S 512"
definition lay_main :: "nat \<Rightarrow> nat" where "lay_main S = 3 + lay_sit S + lay_nat S + lay_nat S"

lemma lay_bounds:
  assumes "S < 2 ^ 23"
  shows "lay_sit S \<le> 274" "lay_nat S \<le> 16384" "S \<le> lay_nat S * 512" "lay_main S \<le> 33045"
    "b * 60 < S \<Longrightarrow> b < lay_sit S * 512"
proof -
  have s: "S \<le> 8388607" using assms by simp
  have "(S + 59) div 60 \<le> 139811" using div_le_mono [of "S + 59" 8388666 60] s by simp
  then have "((S + 59) div 60 + 511) div 512 \<le> 274" using div_le_mono [of "(S + 59) div 60 + 511" 140322 512] by simp
  then show a: "lay_sit S \<le> 274" by (simp add: lay_sit_def ceil_div_def)
  have "(S + 511) div 512 \<le> 16384" using div_le_mono [of "S + 511" 8389118 512] s by simp
  then show b: "lay_nat S \<le> 16384" by (simp add: lay_nat_def ceil_div_def)
  show "S \<le> lay_nat S * 512" unfolding lay_nat_def ceil_div_def by simp
  show "lay_main S \<le> 33045" using a b by (simp add: lay_main_def)
  show "b < lay_sit S * 512" if "b * 60 < S"
  proof -
    have "b < (S + 59) div 60" using that by simp
    then show ?thesis by (simp add: lay_sit_def ceil_div_def)
  qed
qed

lemma UPPER_BOUND_nat:
  assumes "unat x + unat y < 2 ^ 64" "y \<noteq> 0"
  shows "unat (UPPER_BOUND x y) = ceil_div (unat x) (unat y)"
proof -
  have "0 < unat y" using assms(2) by (simp add: unat_gt_0)
  moreover have "unat (x + y) = unat x + unat y" using assms(1) by (simp add: unat_word_ariths)
  ultimately show ?thesis by (simp add: UPPER_BOUND_def ceil_div_def unat_div unat_sub_if_size)
qed

lemma word_of_unat: "unat w = k \<Longrightarrow> w = word_of_nat k"
  by auto

lemma unat_ucast_small: "unat (x :: u64) < 2 ^ 32 \<Longrightarrow> unat (ucast x :: u32) = unat x"
  by (simp add: unsigned_ucast_eq take_bit_nat_eq_self_iff)

lemma unat_ucast_up [simp]: "unat (ucast (x :: u32) :: u64) = unat x"
proof -
  have "unat x < 2 ^ LENGTH(32)" by (rule unsigned_less)
  then show ?thesis by (simp add: unsigned_ucast_eq take_bit_nat_eq_self_iff)
qed

lemma seg_idx_nat: "unat i < 2 ^ 22 \<Longrightarrow> unat (ucast (seg_idx_to_blk_idx i) :: u32) = unat i * 512"
  by (simp add: seg_idx_to_blk_idx_def unat_ucast_small unat_word_ariths)

lemma blk_cnt_to_seg_cnt_nat:
  assumes "unat x < 2 ^ 40"
  shows "unat (blk_cnt_to_seg_cnt x) = ceil_div (unat x) 512"
proof -
  have u: "unat (UPPER_BOUND x 512) = ceil_div (unat x) 512" using UPPER_BOUND_nat [of x 512] assms by simp
  have "ceil_div (unat x) 512 \<le> (2 ^ 40 + 511) div 512" unfolding ceil_div_def by (rule div_le_mono) (use assms in simp)
  then have "ceil_div (unat x) 512 < 2 ^ 32" by simp
  then show ?thesis by (simp add: blk_cnt_to_seg_cnt_def unat_ucast_small u)
qed

lemma start_behind_ok:
  assumes "unat start = k * 512" "k + unat cnt < 2 ^ 22"
  shows "\<exists>l. unat l = (k + unat cnt) * 512 \<and> (\<forall>s. start_behind start cnt s = (Inr l, s))"
proof -
  have d: "unat (ucast start div 512 :: u64) = k" using assms(1) by (simp add: unat_div)
  have m: "(ucast start :: u64) mod 512 = 0" using assms(1) by (simp add: word_unat_eq_iff unat_mod)
  have "unat (ucast start div 512 + ucast cnt :: u64) = k + unat cnt" using assms(2) d by (simp add: unat_word_ariths)
  then have "unat (ucast (seg_idx_to_blk_idx (ucast start div 512 + ucast cnt)) :: u32) = (k + unat cnt) * 512"
    using assms(2) by (subst seg_idx_nat) simp_all
  then show ?thesis using m by (simp add: start_behind_def blk_idx_to_seg_idx_def prog_simps)
qed

section \<open>The super block\<close>

text \<open>The super block of a device of \<open>S\<close> segments.\<close>

definition layout :: "nat \<Rightarrow> hscfs_super_block \<Rightarrow> bool" where
  "layout S sb \<longleftrightarrow> S < 2 ^ 23 \<and> lay_main S + 2 < S \<and>
     unat (segment_count sb) = S \<and> segment0_blkaddr sb = 0 \<and> magic sb = HSCFS_MAGIC_NUMBER \<and>
     unat (sit_blkaddr sb) = 1536 \<and> unat (segment_count_sit sb) = lay_sit S \<and>
     unat (nat_blkaddr sb) = (3 + lay_sit S) * 512 \<and> unat (segment_count_nat sb) = lay_nat S \<and>
     unat (srmap_blkaddr sb) = (3 + lay_sit S + lay_nat S) * 512 \<and> unat (segment_count_srmap sb) = lay_nat S \<and>
     unat (main_blkaddr sb) = lay_main S * 512 \<and> unat (segment_count_main sb) = S - lay_main S \<and>
     unat (current_node_segment_id sb) = lay_main S \<and> unat (current_data_segment_id sb) = lay_main S + 1 \<and>
     unat (first_free_segment_id sb) = lay_main S + 2 \<and> unat (free_segment_count sb) = S - (lay_main S + 2) \<and>
     current_node_segment_blkoff sb = 1 \<and> current_data_segment_blkoff sb = 2 \<and>
     first_node_segment_id sb = 0 \<and> first_data_segment_id sb = 0 \<and> root_ino sb = ROOT_INO \<and> next_free_nid sb = ROOT_INO + 1"

lemma write_block_at:
  assumes "unat lpa < 2 ^ 29"
  shows "write_block wr b lpa s = (if wr (lpa * 8) then (Inr 0, s\<lparr>mk_dev := (mk_dev s)(lpa \<mapsto> b)\<rparr>) else (Inr (-1), s))"
proof -
  have "unat (lpa * 8) = unat lpa * 8" using assms by (simp add: unat_word_ariths)
  then have "unat (lpa * 8 div 8) = unat lpa" by (simp add: unat_div)
  then have "lpa * 8 div 8 = lpa" by (simp only: word_unat_eq_iff)
  then show ?thesis by (simp add: write_block_def Let_def)
qed


lemma format_super_ok:
  "\<exists>r s'. format_super wr lpa s = (Inr r, s') \<and> (r = 0 \<or> r = -1) \<and>
    ((\<forall>l. wr l) \<and> lpa < 0xFFFFFFFF \<and> lay_main (unat lpa div 512) + 2 < unat lpa div 512 \<longrightarrow> r = 0) \<and>
    (r = 0 \<longrightarrow> layout (unat lpa div 512) (super_buffer s') \<and> mk_dev s' = (mk_dev s)(0 \<mapsto> Super_on_disk (super_buffer s')))"
proof (cases "lpa \<ge> 0xFFFFFFFF")
  case True
  then show ?thesis by (simp add: format_super_def ret_def)
next
  case False
  define S where "S = unat lpa div 512"
  define sc where "sc = (ucast (lpa div 512) :: u32)"
  define bc where "bc = lpa - lpa mod 512"
  have L: "unat lpa < 2 ^ 32 - 1" using False by (simp add: word_le_nat_alt)
  have S: "S < 2 ^ 23" unfolding S_def using div_le_mono [of "unat lpa" "2 ^ 32 - 2" 512] L by simp
  note B = lay_bounds [OF S]
  have sc: "unat sc = S" unfolding sc_def using L by (subst unat_ucast_small) (simp_all add: unat_div S_def)
  have bc: "unat bc = S * 512" unfolding bc_def S_def
    by (subst unat_sub_if_size) (simp add: unat_mod minus_mod_eq_div_mult)
  have "unat (sc * BLOCK_PER_SEGMENT) = S * 512" using sc S by (simp add: unat_word_ariths)
  then have a: "bc = ucast (sc * BLOCK_PER_SEGMENT)" using bc by (simp add: word_unat_eq_iff)
  define mj where "mj = blk_cnt_to_seg_cnt META_JOURNAL_BLK_CNT"
  have mj: "unat mj = 2" unfolding mj_def by (subst blk_cnt_to_seg_cnt_nat) (simp_all add: ceil_div_def)
  define ss where "ss = blk_cnt_to_seg_cnt (UPPER_BOUND (ucast sc) 60)"
  have u1: "unat (UPPER_BOUND (ucast sc) 60) = ceil_div S 60" using sc S UPPER_BOUND_nat [of "ucast sc" 60] by simp
  have "ceil_div S 60 < 2 ^ 40" unfolding ceil_div_def using S div_le_dividend [of "S + 60 - 1" 60] by simp
  then have ss: "unat ss = lay_sit S" unfolding ss_def lay_sit_def by (subst blk_cnt_to_seg_cnt_nat) (simp_all add: u1)
  define ns where "ns = blk_cnt_to_seg_cnt (UPPER_BOUND bc 512)"
  have u2: "unat (UPPER_BOUND bc 512) = S" using bc S UPPER_BOUND_nat [of bc 512] by (simp add: ceil_div_def)
  have ns: "unat ns = lay_nat S" unfolding ns_def lay_nat_def using S by (subst blk_cnt_to_seg_cnt_nat) (simp_all add: u2)
  obtain l1 where l1: "unat l1 = (1 + unat mj) * 512" "\<And>s. start_behind BLOCK_PER_SEGMENT mj s = (Inr l1, s)"
    using start_behind_ok [of BLOCK_PER_SEGMENT 1 mj] mj by auto
  obtain l2 where l2: "unat l2 = (3 + unat ss) * 512" "\<And>s. start_behind l1 ss s = (Inr l2, s)"
    using start_behind_ok [of l1 3 ss] l1(1) mj ss B by auto
  obtain l3 where l3: "unat l3 = (3 + unat ss + unat ns) * 512" "\<And>s. start_behind l2 ns s = (Inr l3, s)"
    using start_behind_ok [of l2 "3 + unat ss" ns] l2(1) ss ns B by auto
  have l3d: "\<And>s. blk_idx_to_seg_idx (ucast l3) s = (Inr (ucast l3 div 512), s)"
    using l3(1) by (simp add: blk_idx_to_seg_idx_def prog_simps word_unat_eq_iff unat_mod)
  define ma where "ma = (ucast (ucast l3 div 512 + ucast ns :: u64) :: u32)"
  have "unat (ucast l3 div 512 :: u64) = 3 + unat ss + unat ns" using l3(1) by (simp add: unat_div)
  then have "unat (ucast l3 div 512 + ucast ns :: u64) = lay_main S" using ss ns B by (simp add: unat_word_ariths lay_main_def)
  then have ma: "unat ma = lay_main S" unfolding ma_def using B by (subst unat_ucast_small) simp_all
  have m1: "unat (ma + 1) = lay_main S + 1" "unat (ma + 2) = lay_main S + 2" using ma B by (simp_all add: unat_word_ariths)
  note D = format_super_def [of wr lpa, folded sc_def bc_def, unfolded Let_def, folded mj_def ss_def ns_def ma_def]
  show ?thesis
  proof (cases "lay_main S + 2 < S")
    case lt: True
    have c: "\<not> sc \<le> ma" "\<not> sc \<le> ma + 2" using lt ma m1 sc by (simp_all add: word_le_nat_alt)
    have mb: "unat (ucast (seg_idx_to_blk_idx (ucast ma)) :: u32) = lay_main S * 512" using ma B by (subst seg_idx_nat) simp_all
    have d: "unat (sc - ma) = S - lay_main S" "unat (sc - (ma + 2)) = S - (lay_main S + 2)"
      using lt sc ma m1 by (simp_all add: unat_sub_if_size)
    have z: "unat (0 :: u32) < 2 ^ 29" by simp
    show ?thesis
      using False a l1 l2 l3 l3d c mb d ma m1 sc S mj ss ns lt unfolding D S_def [symmetric]
      by (auto simp: prog_simps checked_def set_super_def layout_def write_block_at [OF z] ma_def [symmetric])
  next
    case ge: False
    then have c: "sc \<le> ma + 2" using m1 sc by (simp add: word_le_nat_alt)
    show ?thesis
      using False ge a l1 l2 l3 l3d c unfolding D S_def [symmetric] by (auto simp: prog_simps set_super_def ma_def [symmetric])
  qed
qed

section \<open>Writing a table block by block\<close>

text \<open>
  Both tables are written through a buffer of \<open>per\<close> entries: the block \<open>b\<close> of a table of which
  the entries below \<open>n\<close> are written, and a device on which the full blocks are.
\<close>

definition tbl_img :: "nat \<Rightarrow> (nat \<Rightarrow> 'e) \<Rightarrow> 'e \<Rightarrow> nat \<Rightarrow> nat \<Rightarrow> 'e list" where
  "tbl_img per ent z n b = map (\<lambda>j. if b * per + j < n then ent (b * per + j) else z) [0..<per]"

lemma tbl_img_simps [simp]: "length (tbl_img per ent z n b) = per"
  "j < per \<Longrightarrow> tbl_img per ent z n b ! j = (if b * per + j < n then ent (b * per + j) else z)"
  by (simp_all add: tbl_img_def)

lemma tbl_img_empty: "n \<le> b * per \<Longrightarrow> tbl_img per ent z n b = replicate per z"
  by (auto intro!: nth_equalityI)

lemma tbl_img_zero: "\<forall>i < n. ent i = z \<Longrightarrow> tbl_img per ent z n b = replicate per z"
  by (auto intro!: nth_equalityI)

lemma tbl_img_full: "b * per + per \<le> n \<Longrightarrow> b * per + per \<le> m \<Longrightarrow> tbl_img per ent z n b = tbl_img per ent z m b"
  by (rule nth_equalityI) auto

lemma tbl_img_step:
  assumes "x = ent n" "0 < per"
  shows "(tbl_img per ent z n (n div per))[n mod per := x] = tbl_img per ent z (Suc n) (n div per)"
proof (rule nth_equalityI)
  have e: "n div per * per + n mod per = n" by simp
  fix j assume "j < length ((tbl_img per ent z n (n div per))[n mod per := x])"
  then have j: "j < per" "j \<noteq> n mod per \<Longrightarrow> n div per * per + j < Suc n \<longleftrightarrow> n div per * per + j < n" using e by (simp, linarith)
  then show "(tbl_img per ent z n (n div per))[n mod per := x] ! j = tbl_img per ent z (Suc n) (n div per) ! j"
    using assms e by (cases "j = n mod per") auto
qed simp

definition tbl_written ::
    "nat \<Rightarrow> ('e list \<Rightarrow> disk_block) \<Rightarrow> (nat \<Rightarrow> 'e) \<Rightarrow> 'e \<Rightarrow> nat \<Rightarrow> nat \<Rightarrow> nat \<Rightarrow> nat \<Rightarrow> (u32 \<Rightarrow> disk_block option) \<Rightarrow> bool" where
  "tbl_written per wrap ent z st lo n N d \<longleftrightarrow>
     (\<forall>b. lo \<le> b \<and> b * per + per \<le> n \<longrightarrow> d (word_of_nat (st + b)) = Some (wrap (tbl_img per ent z N b)))"

definition tbl_done ::
    "nat \<Rightarrow> ('e list \<Rightarrow> disk_block) \<Rightarrow> (nat \<Rightarrow> 'e) \<Rightarrow> 'e \<Rightarrow> nat \<Rightarrow> nat \<Rightarrow> nat \<Rightarrow> (u32 \<Rightarrow> disk_block option) \<Rightarrow> bool" where
  "tbl_done per wrap ent z st lo N d \<longleftrightarrow>
     (\<forall>b. lo \<le> b \<and> b * per < N \<longrightarrow> d (word_of_nat (st + b)) = Some (wrap (tbl_img per ent z N b)))"

lemma tbl_key:
  assumes "st + N div per < 2 ^ 32" "0 < per" "b * per < N" "b' * per < N" "b \<noteq> b'"
  shows "(word_of_nat (st + b) :: u32) \<noteq> word_of_nat (st + b')"
proof -
  have "b \<le> N div per" "b' \<le> N div per"
    using div_le_mono [of "b * per" N per] div_le_mono [of "b' * per" N per] assms(2-4) by simp_all
  then show ?thesis using of_nat_u32_inj [of "st + b" "st + b'"] assms(1,5) by auto
qed

lemma tbl_written_next:
  assumes "tbl_written per wrap ent z st lo n N d" "n mod per \<noteq> per - 1" "0 < per"
  shows "tbl_written per wrap ent z st lo (Suc n) N d"
proof -
  have "b * per + per \<noteq> Suc n" for b
  proof
    assume "b * per + per = Suc n"
    then have "n = b * per + (per - 1)" using assms(3) by simp
    then have "n mod per = (per - 1) mod per" by (simp only: mod_mult_self3)
    then show False using assms(2,3) by simp
  qed
  then show ?thesis using assms(1) unfolding tbl_written_def by (metis le_Suc_eq)
qed

lemma tbl_written_block:
  assumes "tbl_written per wrap ent z st lo n N d" "n mod per = per - 1" "0 < per" "Suc n \<le> N" "st + N div per < 2 ^ 32"
  shows "tbl_written per wrap ent z st lo (Suc n) N (d(word_of_nat (st + n div per) \<mapsto> wrap (tbl_img per ent z (Suc n) (n div per))))"
  unfolding tbl_written_def
proof (intro allI impI)
  have full: "n div per * per + per = Suc n" using div_mult_mod_eq [of n per] assms(2,3) by simp
  fix b assume b: "lo \<le> b \<and> b * per + per \<le> Suc n"
  show "(d(word_of_nat (st + n div per) \<mapsto> wrap (tbl_img per ent z (Suc n) (n div per)))) (word_of_nat (st + b)) = Some (wrap (tbl_img per ent z N b))"
  proof (cases "b = n div per")
    case True
    then show ?thesis using tbl_img_full [of "n div per" per "Suc n" N ent z] full assms(4) by simp
  next
    case False
    have "b * per < N" "n div per * per < N" using b full assms(3,4) by linarith+
    then have "(word_of_nat (st + b) :: u32) \<noteq> word_of_nat (st + n div per)" using tbl_key [OF assms(5,3)] False by blast
    moreover have "b * per + per \<noteq> n div per * per + per" using False assms(3) by simp
    then have "b * per + per \<le> n" using b full by linarith
    ultimately show ?thesis using b assms(1) by (simp add: tbl_written_def)
  qed
qed

lemma tbl_done_last:
  assumes "tbl_written per wrap ent z st lo N N d" "0 < per" "0 < N" "st + N div per < 2 ^ 32"
  shows "tbl_done per wrap ent z st lo N (d(word_of_nat (st + (N - 1) div per) \<mapsto> wrap (tbl_img per ent z N ((N - 1) div per))))"
  unfolding tbl_done_def
proof (intro allI impI)
  let ?b = "(N - 1) div per"
  have "?b * per \<le> N - 1" by (rule div_times_less_eq_dividend)
  then have l: "?b * per < N" using assms(3) by linarith
  fix b assume b: "lo \<le> b \<and> b * per < N"
  show "(d(word_of_nat (st + ?b) \<mapsto> wrap (tbl_img per ent z N ?b))) (word_of_nat (st + b)) = Some (wrap (tbl_img per ent z N b))"
  proof (cases "b = ?b")
    case False
    have "b * per \<le> N - 1" using b by linarith
    then have "b \<le> ?b" using div_le_mono [of "b * per" "N - 1" per] assms(2) by simp
    then have "(b + 1) * per \<le> ?b * per" using False by (intro mult_le_mono1) simp
    then have "b * per + per \<le> N" using l by simp
    then show ?thesis using tbl_key [OF assms(4,2), of b ?b] b l False assms(1) by (simp add: tbl_written_def)
  qed simp
qed

definition outside :: "nat \<Rightarrow> nat \<Rightarrow> (u32 \<Rightarrow> disk_block option) \<Rightarrow> (u32 \<Rightarrow> disk_block option) \<Rightarrow> bool" where
  "outside a b d d' \<longleftrightarrow> (\<forall>l. unat l < a \<or> b \<le> unat l \<longrightarrow> d' l = d l)"

lemma outside_trans: "outside a b d d' \<Longrightarrow> outside a b d' d'' \<Longrightarrow> outside a b d d''"
  by (simp add: outside_def)

lemma outside_refl [simp]: "outside a b d d"
  by (simp add: outside_def)

lemma write_tbl_block:
  assumes "a \<le> l" "l < e" "e \<le> 2 ^ 29"
  shows "\<exists>r d. write_block wr x (word_of_nat l) s = (Inr r, s\<lparr>mk_dev := d\<rparr>) \<and> (r = 0 \<or> r = -1) \<and> ((\<forall>l. wr l) \<longrightarrow> r = 0) \<and> outside a e (mk_dev s) d \<and>
    (r = 0 \<longrightarrow> d = (mk_dev s)(word_of_nat l \<mapsto> x))"
proof -
  have "unat (word_of_nat l :: u32) = l" using assms by (simp add: unat_of_nat_u32)
  then show ?thesis using assms by (auto simp: write_block_at outside_def intro: exI [of _ "mk_dev s"])
qed

section \<open>The SIT\<close>

definition sit_ent :: "hscfs_super_block \<Rightarrow> nat \<Rightarrow> hscfs_sit_entry" where
  "sit_ent sb i = (if i < lay_main (unat (segment_count sb)) then zero_sit_entry else sit_entry_init sb (word_of_nat i) zero_sit_entry)"

abbreviation sit_img :: "hscfs_super_block \<Rightarrow> nat \<Rightarrow> nat \<Rightarrow> hscfs_sit_block" where
  "sit_img sb \<equiv> tbl_img 60 (sit_ent sb) zero_sit_entry"

abbreviation sit_written :: "hscfs_super_block \<Rightarrow> nat \<Rightarrow> nat \<Rightarrow> (u32 \<Rightarrow> disk_block option) \<Rightarrow> bool" where
  "sit_written sb n S \<equiv> tbl_written 60 Sit_on_disk (sit_ent sb) zero_sit_entry 1536 (lay_main S div 60) n S"

abbreviation sit_done :: "hscfs_super_block \<Rightarrow> nat \<Rightarrow> (u32 \<Rightarrow> disk_block option) \<Rightarrow> bool" where
  "sit_done sb S \<equiv> tbl_done 60 Sit_on_disk (sit_ent sb) zero_sit_entry 1536 (lay_main S div 60) S"

text \<open>One round of the loop, with natural numbers.\<close>

lemma format_sit_loop_step:
  assumes lay: "layout S sb" and sb: "sb = super_buffer s" and n: "lay_main S \<le> n" "n < S" and buffer: "buffer = sit_img sb n ((n - 1) div 60)"
  shows "format_sit_loop wr buffer sit_lpa (word_of_nat n) s =
      (if n mod 60 = 59 then
         (case write_block wr (Sit_on_disk (sit_img sb (Suc n) (n div 60))) (word_of_nat (1536 + n div 60)) s of
            (Inr r, s') \<Rightarrow> if r \<noteq> 0 then (Inr (-1), s')
              else format_sit_loop wr (sit_img sb (Suc n) (n div 60)) (Some (word_of_nat (1536 + n div 60))) (word_of_nat (Suc n)) s'
          | (Inl f, s') \<Rightarrow> (Inl f, s'))
       else format_sit_loop wr (sit_img sb (Suc n) (n div 60)) (Some (word_of_nat (1536 + n div 60))) (word_of_nat (Suc n)) s)"
proof -
  have S: "S < 2 ^ 23" "unat (segment_count sb) = S" "unat (sit_blkaddr sb) = 1536" "unat (segment_count_sit sb) = lay_sit S"
    using lay by (simp_all add: layout_def)
  note B = lay_bounds [OF S(1)]
  let ?b = "n div 60"
  have "?b * 60 \<le> n" by (rule div_times_less_eq_dividend)
  then have b: "?b < lay_sit S * 512" using B(5) n(2) by fastforce
  have un: "unat (word_of_nat n :: u32) = n" using n S(1) by (simp add: unat_of_nat_u32)
  then have d: "unat (word_of_nat n div 60 :: u32) = ?b" "unat (word_of_nat n mod 60 :: u32) = n mod 60" by (simp_all add: unat_div unat_mod)
  have ne: "(word_of_nat n :: u32) \<noteq> segment_count sb" using un n S(2) by auto
  have "unat (segment_count_sit sb * BLOCK_PER_SEGMENT) = lay_sit S * 512" using S(4) B(1) by (simp add: unat_word_ariths)
  then have as: "word_of_nat n div SIT_ENTRY_PER_BLOCK < segment_count_sit sb * BLOCK_PER_SEGMENT"
    using d(1) b by (simp add: word_less_nat_alt)
  have "unat (sit_blkaddr sb + word_of_nat n div SIT_ENTRY_PER_BLOCK) = 1536 + ?b" "unat (word_of_nat (1536 + ?b) :: u32) = 1536 + ?b"
    using d(1) S(3) B(1) b by (simp add: unat_word_ariths, subst unat_of_nat_u32) simp_all
  then have lpa: "sit_blkaddr sb + word_of_nat n div SIT_ENTRY_PER_BLOCK = word_of_nat (1536 + ?b)"
    by (simp only: word_unat_eq_iff)
  have buf: "(if n mod 60 = 0 then zero_sit_block else buffer) = sit_img sb n ?b"
  proof (cases "n mod 60 = 0")
    case True
    then have "n \<le> ?b * 60" by (simp add: mod_eq_0_iff_dvd)
    then show ?thesis using True by (simp add: tbl_img_empty zero_sit_block_def)
  next
    case False
    then have "(n - 1) div 60 = ?b" by (cases n) (auto simp: div_Suc split: if_splits)
    then show ?thesis using False buffer by simp
  qed
  have "sit_img sb n ?b ! (n mod 60) = zero_sit_entry" by (subst tbl_img_simps) simp_all
  then have img: "(sit_img sb n ?b)[n mod 60 := sit_entry_init sb (word_of_nat n) (sit_img sb n ?b ! (n mod 60))] = sit_img sb (Suc n) ?b"
    using n S(2) by (intro tbl_img_step) (simp_all add: sit_ent_def)
  have nx: "word_of_nat n + (1 :: u32) = word_of_nat (Suc n)" by simp
  show ?thesis
    using ne as unfolding format_sit_loop.simps [of wr buffer sit_lpa "word_of_nat n" s] Let_def sb [symmetric] d lpa buf img nx
    by (simp del: tbl_img_simps of_nat_Suc)
qed

lemma format_sit_loop_ok:
  assumes "layout S sb" "lay_main S \<le> n" "n \<le> S" "sb = super_buffer s"
    "sit_lpa = (if n = lay_main S then None else Some (word_of_nat (1536 + (n - 1) div 60)))"
    "buffer = sit_img sb n ((n - 1) div 60)" "sit_written sb n S (mk_dev s)"
  shows "\<exists>r s'. format_sit_loop wr buffer sit_lpa (word_of_nat n) s = (Inr r, s') \<and> (r = 0 \<or> r = -1) \<and> ((\<forall>l. wr l) \<longrightarrow> r = 0) \<and> super_buffer s' = sb \<and>
    outside 1536 ((3 + lay_sit S) * 512) (mk_dev s) (mk_dev s') \<and> (r = 0 \<longrightarrow> sit_done sb S (mk_dev s'))"
  using assms
proof (induction "S - n" arbitrary: n s buffer sit_lpa)
  case (0 n s)
  then have n: "n = S" and S: "S < 2 ^ 23" "lay_main S + 2 < S" "unat (segment_count sb) = S" by (simp_all add: layout_def)
  note B = lay_bounds [OF S(1)]
  have seg: "word_of_nat n = segment_count (super_buffer s)" using 0 S n by (simp add: word_unat_eq_iff unat_of_nat_u32)
  let ?b = "(S - 1) div 60"
  have "?b * 60 \<le> S - 1" by (rule div_times_less_eq_dividend)
  then have b: "?b < lay_sit S * 512" using S(2) B(5) by fastforce
  obtain r d where w: "write_block wr (Sit_on_disk buffer) (word_of_nat (1536 + ?b)) s = (Inr r, s\<lparr>mk_dev := d\<rparr>)" "(r = 0 \<or> r = -1) \<and> ((\<forall>l. wr l) \<longrightarrow> r = 0)"
      "outside 1536 ((3 + lay_sit S) * 512) (mk_dev s) d" "r = 0 \<longrightarrow> d = (mk_dev s)(word_of_nat (1536 + ?b) \<mapsto> Sit_on_disk buffer)"
    using write_tbl_block [of 1536 "1536 + ?b" "(3 + lay_sit S) * 512" wr "Sit_on_disk buffer" s] b B(1) by auto
  have dn: "sit_done sb S ((mk_dev s)(word_of_nat (1536 + ?b) \<mapsto> Sit_on_disk buffer))"
    using tbl_done_last [of 60 Sit_on_disk "sit_ent sb" zero_sit_entry 1536 "lay_main S div 60" S "mk_dev s"] 0 n S div_le_dividend [of S 60] by simp
  have l: "sit_lpa = Some (word_of_nat (1536 + ?b))" using 0 n S(2) by simp
  have "format_sit_loop wr buffer sit_lpa (word_of_nat n) s = (Inr (if r = 0 then 0 else -1), s\<lparr>mk_dev := d\<rparr>)"
    using w(1) unfolding seg l format_sit_loop.simps [of wr buffer _ "segment_count (super_buffer s)" s] by (simp add: checked_def prog_simps)
  then show ?case using w(2,3,4) dn 0 by auto
next
  case (Suc k n s)
  then have n: "n < S" "S - Suc n = k" by simp_all
  have S: "S < 2 ^ 23" using Suc.prems(1) by (simp add: layout_def)
  note B = lay_bounds [OF S]
  let ?b' = "sit_img sb (Suc n) (n div 60)" and ?l = "1536 + n div 60"
  note step = format_sit_loop_step [OF Suc.prems(1,4,2) n(1) Suc.prems(6), of wr sit_lpa]
  have IH: "\<exists>r s'. format_sit_loop wr ?b' (Some (word_of_nat ?l)) (word_of_nat (Suc n)) t = (Inr r, s') \<and> (r = 0 \<or> r = -1) \<and> ((\<forall>l. wr l) \<longrightarrow> r = 0) \<and> super_buffer s' = sb \<and>
      outside 1536 ((3 + lay_sit S) * 512) (mk_dev t) (mk_dev s') \<and> (r = 0 \<longrightarrow> sit_done sb S (mk_dev s'))"
    if "super_buffer t = super_buffer s" "sit_written sb (Suc n) S (mk_dev t)" for t
    by (rule Suc.hyps(1)) (use that n Suc.prems in auto)
  show ?case
  proof (cases "n mod 60 = 59")
    case False
    then show ?thesis using IH [of s] tbl_written_next [OF Suc.prems(7)] unfolding step by simp
  next
    case True
    have "n div 60 * 60 \<le> n" by (rule div_times_less_eq_dividend)
    then have b: "n div 60 < lay_sit S * 512" using B(5) n(1) by fastforce
    obtain r d where w: "write_block wr (Sit_on_disk ?b') (word_of_nat ?l) s = (Inr r, s\<lparr>mk_dev := d\<rparr>)" "(r = 0 \<or> r = -1) \<and> ((\<forall>l. wr l) \<longrightarrow> r = 0)"
        "outside 1536 ((3 + lay_sit S) * 512) (mk_dev s) d" "r = 0 \<longrightarrow> d = (mk_dev s)(word_of_nat ?l \<mapsto> Sit_on_disk ?b')"
      using write_tbl_block [of 1536 ?l "(3 + lay_sit S) * 512" wr "Sit_on_disk ?b'" s] b B(1) by auto
    show ?thesis
    proof (cases "r = 0")
      case r: True
      have "sit_written sb (Suc n) S d"
        using tbl_written_block [OF Suc.prems(7)] True n(1) S w(4) r div_le_dividend [of S 60] by simp
      then obtain r' s' where "format_sit_loop wr ?b' (Some (word_of_nat ?l)) (word_of_nat (Suc n)) (s\<lparr>mk_dev := d\<rparr>) = (Inr r', s')" "(r' = 0 \<or> r' = -1) \<and> ((\<forall>l. wr l) \<longrightarrow> r' = 0)"
          "super_buffer s' = sb" "outside 1536 ((3 + lay_sit S) * 512) d (mk_dev s')" "r' = 0 \<longrightarrow> sit_done sb S (mk_dev s')"
        using IH [of "s\<lparr>mk_dev := d\<rparr>"] by auto
      then show ?thesis using True w(1) r outside_trans [OF w(3)] unfolding step by simp
    next
      case False
      then show ?thesis using True w Suc.prems(4) unfolding step by auto
    qed
  qed
qed

lemma format_sit_ok:
  assumes lay: "layout S (super_buffer s)"
  shows "\<exists>r s'. format_sit wr s = (Inr r, s') \<and> (r = 0 \<or> r = -1) \<and> ((\<forall>l. wr l) \<longrightarrow> r = 0) \<and> super_buffer s' = super_buffer s \<and>
    outside 1536 ((3 + lay_sit S) * 512) (mk_dev s) (mk_dev s') \<and> (r = 0 \<longrightarrow> sit_done (super_buffer s) S (mk_dev s'))"
proof -
  let ?sb = "super_buffer s"
  have S: "S < 2 ^ 23" "lay_main S + 2 < S" "unat (segment_count ?sb) = S" "unat (main_blkaddr ?sb) = lay_main S * 512"
      "unat (current_node_segment_id ?sb) = lay_main S" "unat (current_data_segment_id ?sb) = lay_main S + 1" "unat (first_free_segment_id ?sb) = lay_main S + 2"
    using lay by (simp_all add: layout_def)
  note B = lay_bounds [OF S(1)]
  define ms where "ms = (ucast (ucast (main_blkaddr ?sb) div 512 :: u64) :: u32)"
  have i: "blk_idx_to_seg_idx (ucast (main_blkaddr ?sb)) s = (Inr (ucast (main_blkaddr ?sb) div 512), s)"
    using S(4) by (simp add: blk_idx_to_seg_idx_def prog_simps word_unat_eq_iff unat_mod)
  have u: "unat ms = lay_main S" unfolding ms_def using S(4) B(4) by (subst unat_ucast_small) (simp_all add: unat_div)
  have ms: "ms = word_of_nat (lay_main S)" using u B(4) by (simp add: word_unat_eq_iff unat_of_nat_u32)
  have a: "current_node_segment_id ?sb = ms" "current_data_segment_id ?sb = ms + 1" "first_free_segment_id ?sb = ms + 2"
    using S u B(4) by (simp_all add: word_unat_eq_iff unat_word_ariths)
  have r: "format_sit wr s = format_sit_loop wr zero_sit_block None (word_of_nat (lay_main S)) s"
    using i a unfolding format_sit_def Let_def ms [symmetric] by (simp add: prog_simps ms_def [symmetric])
  have z: "zero_sit_block = sit_img ?sb (lay_main S) ((lay_main S - 1) div 60)"
    using S(3) by (subst tbl_img_zero) (simp_all add: sit_ent_def zero_sit_block_def)
  have w: "sit_written ?sb (lay_main S) S (mk_dev s)"
    unfolding tbl_written_def
  proof (intro allI impI)
    fix b assume b: "lay_main S div 60 \<le> b \<and> b * 60 + 60 \<le> lay_main S"
    have "b + 1 \<le> lay_main S div 60" using b div_le_mono [of "(b + 1) * 60" "lay_main S" 60] by simp
    then show "mk_dev s (word_of_nat (1536 + b)) = Some (Sit_on_disk (sit_img ?sb S b))" using b by linarith
  qed
  show ?thesis unfolding r using format_sit_loop_ok [OF lay order_refl _ refl refl z w] S(2) by simp
qed

section \<open>The NAT\<close>

definition nat_ent :: "hscfs_super_block \<Rightarrow> nat \<Rightarrow> hscfs_nat_entry" where
  "nat_ent sb i =
     (if i < 2 then \<lparr>ne_ino = 0, ne_block_addr = 0\<rparr>
      else if i = 2 then \<lparr>ne_ino = ROOT_INO, ne_block_addr = ucast (seg_idx_to_blk_idx (ucast (current_node_segment_id sb)))\<rparr>
      else \<lparr>ne_ino = 0, ne_block_addr = (if Suc i = unat (segment_count_nat sb) * 262144 then INVALID_NID else word_of_nat (Suc i))\<rparr>)"

abbreviation nat_img :: "hscfs_super_block \<Rightarrow> nat \<Rightarrow> nat \<Rightarrow> hscfs_nat_block" where
  "nat_img sb \<equiv> tbl_img 512 (nat_ent sb) \<lparr>ne_ino = 0, ne_block_addr = 0\<rparr>"

abbreviation nat_written :: "hscfs_super_block \<Rightarrow> nat \<Rightarrow> nat \<Rightarrow> (u32 \<Rightarrow> disk_block option) \<Rightarrow> bool" where
  "nat_written sb st n \<equiv> tbl_written 512 Nat_on_disk (nat_ent sb) \<lparr>ne_ino = 0, ne_block_addr = 0\<rparr> st 0 n (unat (segment_count_nat sb) * 262144)"

text \<open>One round of the loop, with natural numbers.\<close>

lemma format_nat_loop_step:
  assumes sb: "sb = super_buffer s" and st: "unat (nat_blkaddr sb) = st" and N: "N = unat (segment_count_nat sb) * 262144" "N \<le> 2 ^ 32" "st < 2 ^ 28"
    and n: "3 \<le> n" "n < N" and buffer: "buffer = nat_img sb n (n div 512)"
  shows "format_nat_loop wr (word_of_nat (st + N div 512)) buffer (word_of_nat (st + n div 512)) (word_of_nat (n mod 512)) (word_of_nat n) s =
      (if n mod 512 = 511 then
         (case write_block wr (Nat_on_disk (nat_img sb (Suc n) (n div 512))) (word_of_nat (st + n div 512)) s of
            (Inr r, s') \<Rightarrow> if r \<noteq> 0 then (Inr (-1), s')
              else format_nat_loop wr (word_of_nat (st + N div 512)) (nat_img sb (Suc n) (Suc n div 512)) (word_of_nat (st + Suc n div 512)) (word_of_nat (Suc n mod 512)) (word_of_nat (Suc n)) s'
          | (Inl f, s') \<Rightarrow> (Inl f, s'))
       else format_nat_loop wr (word_of_nat (st + N div 512)) (nat_img sb (Suc n) (Suc n div 512)) (word_of_nat (st + Suc n div 512)) (word_of_nat (Suc n mod 512)) (word_of_nat (Suc n)) s)"
proof -
  have Nd: "N div 512 \<le> 2 ^ 23" using N(2) div_le_mono [of N "2 ^ 32" 512] by simp
  have ne: "N div 512 * 512 = N" using N(1) by simp
  have nd: "n div 512 < N div 512" using n(2) ne by (metis less_mult_imp_div_less)
  have un: "unat (word_of_nat n :: u32) = n" using n(2) N(2) by (simp add: unat_of_nat_u32)
  have ul: "unat (word_of_nat (st + n div 512) :: u32) = st + n div 512" using nd Nd N(3) by (simp add: unat_of_nat_u32 del: of_nat_add)
  have uf: "unat (word_of_nat (st + N div 512) :: u32) = st + N div 512" using Nd N(3) by (simp add: unat_of_nat_u32 del: of_nat_add)
  have ui: "unat (word_of_nat (n mod 512) :: u32) = n mod 512" using mod_less_divisor [of 512 n] by (subst unat_of_nat_u32) simp_all
  have lt: "(word_of_nat (st + n div 512) :: u32) < word_of_nat (st + N div 512)" using ul uf nd by (simp add: word_less_nat_alt del: of_nat_add)
  have "unat (word_of_nat n div 512 + nat_blkaddr sb) = st + n div 512" using un st nd Nd N(3) by (simp add: unat_word_ariths unat_div)
  then have as1: "word_of_nat n div NAT_ENTRY_PER_BLOCK + nat_blkaddr sb = word_of_nat (st + n div 512)" using ul by (simp only: word_unat_eq_iff)
  have as2: "word_of_nat n mod NAT_ENTRY_PER_BLOCK = word_of_nat (n mod 512)"
    using un ui by (simp only: word_unat_eq_iff) (simp add: unat_mod)
  have idx: "word_of_nat (n mod 512) = NAT_ENTRY_PER_BLOCK - 1 \<longleftrightarrow> n mod 512 = 511" using ui by (simp add: word_unat_eq_iff)
  have "unat (word_of_nat (st + N div 512) - 1 :: u32) = st + N div 512 - 1" using uf nd by (subst unat_sub_if_size) simp
  then have last: "word_of_nat (st + n div 512) = word_of_nat (st + N div 512) - (1 :: u32) \<longleftrightarrow> Suc (n div 512) = N div 512"
    using ul nd by (simp only: word_unat_eq_iff) linarith
  have qr: "n = n div 512 * 512 + n mod 512" "n mod 512 < 512" by simp_all
  have fin: "Suc (n div 512) = N div 512 \<and> n mod 512 = 511 \<longleftrightarrow> Suc n = N" using qr ne nd by linarith
  have nx: "word_of_nat n + (1 :: u32) = word_of_nat (Suc n)" "word_of_nat (st + n div 512) + (1 :: u32) = word_of_nat (st + Suc (n div 512))"
    "word_of_nat (n mod 512) + (1 :: u32) = word_of_nat (Suc (n mod 512))" by simp_all
  have img: "(nat_img sb n (n div 512))[n mod 512 := \<lparr>ne_ino = 0, ne_block_addr = (if Suc n = N then INVALID_NID else word_of_nat (Suc n))\<rparr>] = nat_img sb (Suc n) (n div 512)"
    using n(1) by (intro tbl_img_step) (simp_all add: nat_ent_def N(1))
  have zero: "n mod 512 = 511 \<Longrightarrow> zero_nat_block = nat_img sb (Suc n) (Suc n div 512)"
  proof -
    assume "n mod 512 = 511"
    then have "Suc n mod 512 = 0" by (simp add: mod_Suc)
    then have "Suc n div 512 * 512 = Suc n" using div_mult_mod_eq [of "Suc n" 512] by linarith
    then show ?thesis by (simp add: tbl_img_empty zero_nat_block_def)
  qed
  have sd: "n mod 512 = 511 \<Longrightarrow> Suc n div 512 = Suc (n div 512) \<and> Suc n mod 512 = 0"
    "n mod 512 \<noteq> 511 \<Longrightarrow> Suc n div 512 = n div 512 \<and> Suc n mod 512 = Suc (n mod 512)"
    by (simp_all add: div_Suc mod_Suc)
  show ?thesis
    unfolding format_nat_loop.simps [of wr "word_of_nat (st + N div 512)" buffer "word_of_nat (st + n div 512)" "word_of_nat (n mod 512)" "word_of_nat n" s]
    unfolding Let_def sb [symmetric] as1 as2 idx last fin ui buffer nx img
    using lt zero sd by (cases "n mod 512 = 511") (simp_all del: tbl_img_simps of_nat_Suc of_nat_add split: prod.splits sum.splits)
qed

lemma format_nat_loop_ok:
  assumes "sb = super_buffer s" "unat (nat_blkaddr sb) = st" "N = unat (segment_count_nat sb) * 262144" "N \<le> 2 ^ 32" "st < 2 ^ 28"
    "3 \<le> n" "n \<le> N" "buffer = nat_img sb n (n div 512)" "nat_written sb st n (mk_dev s)"
  shows "\<exists>r s'. format_nat_loop wr (word_of_nat (st + N div 512)) buffer (word_of_nat (st + n div 512)) (word_of_nat (n mod 512)) (word_of_nat n) s = (Inr r, s') \<and>
    (r = 0 \<or> r = -1) \<and> ((\<forall>l. wr l) \<longrightarrow> r = 0) \<and> super_buffer s' = sb \<and> outside st (st + N div 512) (mk_dev s) (mk_dev s') \<and> (r = 0 \<longrightarrow> nat_written sb st N (mk_dev s'))"
  using assms
proof (induction "N - n" arbitrary: n s buffer)
  case (0 n s)
  then show ?case by (simp add: format_nat_loop.simps)
next
  case (Suc k n s)
  then have n: "n < N" "N - Suc n = k" by simp_all
  let ?b' = "nat_img sb (Suc n) (n div 512)" and ?l = "st + n div 512"
  let ?rec = "format_nat_loop wr (word_of_nat (st + N div 512)) (nat_img sb (Suc n) (Suc n div 512)) (word_of_nat (st + Suc n div 512)) (word_of_nat (Suc n mod 512)) (word_of_nat (Suc n))"
  note step = format_nat_loop_step [OF Suc.prems(1-6) n(1) Suc.prems(8), of wr]
  have IH: "\<exists>r s'. ?rec t = (Inr r, s') \<and> (r = 0 \<or> r = -1) \<and> ((\<forall>l. wr l) \<longrightarrow> r = 0) \<and> super_buffer s' = sb \<and> outside st (st + N div 512) (mk_dev t) (mk_dev s') \<and>
      (r = 0 \<longrightarrow> nat_written sb st N (mk_dev s'))"
    if "super_buffer t = super_buffer s" "nat_written sb st (Suc n) (mk_dev t)" for t
    by (rule Suc.hyps(1)) (use that n Suc.prems in auto)
  show ?case
  proof (cases "n mod 512 = 511")
    case False
    then show ?thesis using IH [of s] tbl_written_next [OF Suc.prems(9)] unfolding step by simp
  next
    case True
    have Nd: "N div 512 \<le> 2 ^ 23" using Suc.prems(4) div_le_mono [of N "2 ^ 32" 512] by simp
    have "N div 512 * 512 = N" using Suc.prems(3) by simp
    then have nd: "n div 512 < N div 512" using n(1) by (metis less_mult_imp_div_less)
    obtain r d where w: "write_block wr (Nat_on_disk ?b') (word_of_nat ?l) s = (Inr r, s\<lparr>mk_dev := d\<rparr>)" "(r = 0 \<or> r = -1) \<and> ((\<forall>l. wr l) \<longrightarrow> r = 0)"
        "outside st (st + N div 512) (mk_dev s) d" "r = 0 \<longrightarrow> d = (mk_dev s)(word_of_nat ?l \<mapsto> Nat_on_disk ?b')"
      using write_tbl_block [of st ?l "st + N div 512" wr "Nat_on_disk ?b'" s] nd Nd Suc.prems(5) by auto
    show ?thesis
    proof (cases "r = 0")
      case r: True
      have "nat_written sb st (Suc n) d"
        using tbl_written_block [OF Suc.prems(9)] True n(1) Nd Suc.prems(3,5) w(4) r by simp
      then obtain r' s' where "?rec (s\<lparr>mk_dev := d\<rparr>) = (Inr r', s')" "(r' = 0 \<or> r' = -1) \<and> ((\<forall>l. wr l) \<longrightarrow> r' = 0)"
          "super_buffer s' = sb" "outside st (st + N div 512) d (mk_dev s')" "r' = 0 \<longrightarrow> nat_written sb st N (mk_dev s')"
        using IH [of "s\<lparr>mk_dev := d\<rparr>"] by auto
      then show ?thesis using True w(1) r outside_trans [OF w(3)] unfolding step by simp
    next
      case False
      then show ?thesis using True w Suc.prems(1) unfolding step by auto
    qed
  qed
qed

lemma format_nat_ok:
  assumes lay: "layout S (super_buffer s)"
  shows "\<exists>r s'. format_nat wr s = (Inr r, s') \<and> (r = 0 \<or> r = -1) \<and> ((\<forall>l. wr l) \<longrightarrow> r = 0) \<and> super_buffer s' = super_buffer s \<and>
    outside ((3 + lay_sit S) * 512) ((3 + lay_sit S + lay_nat S) * 512) (mk_dev s) (mk_dev s') \<and>
    (r = 0 \<longrightarrow> nat_written (super_buffer s) ((3 + lay_sit S) * 512) (lay_nat S * 262144) (mk_dev s'))"
proof -
  let ?sb = "super_buffer s" and ?st = "(3 + lay_sit S) * 512" and ?N = "lay_nat S * 262144"
  have S: "S < 2 ^ 23" "lay_main S + 2 < S" "unat (nat_blkaddr ?sb) = ?st" "unat (segment_count_nat ?sb) = lay_nat S"
    using lay by (simp_all add: layout_def)
  note B = lay_bounds [OF S(1)]
  have N: "?N \<le> 2 ^ 32" "?st < 2 ^ 28" "?N div 512 = lay_nat S * 512" using B by simp_all
  have pos: "0 < lay_nat S" using S(2) B(3) by (cases "lay_nat S") auto
  have "unat (ucast (nat_blkaddr ?sb) + seg_cnt_to_blk_cnt (ucast (segment_count_nat ?sb))) = ?st + ?N div 512"
    using S(3,4) B unfolding N(3) by (simp add: seg_cnt_to_blk_cnt_def unat_word_ariths)
  then have "unat (ucast (ucast (nat_blkaddr ?sb) + seg_cnt_to_blk_cnt (ucast (segment_count_nat ?sb))) :: u32) = ?st + ?N div 512"
    using B unfolding N(3) by (subst unat_ucast_small) simp_all
  then have e: "ucast (ucast (nat_blkaddr ?sb) + seg_cnt_to_blk_cnt (ucast (segment_count_nat ?sb))) = (word_of_nat (?st + ?N div 512) :: u32)"
    by (rule word_of_unat)
  have l: "nat_blkaddr ?sb = word_of_nat (?st + 3 div 512)" using S(3) by (intro word_of_unat) simp
  have b: "zero_nat_block[unat ROOT_INO := \<lparr>ne_ino = ROOT_INO, ne_block_addr = ucast (seg_idx_to_blk_idx (ucast (current_node_segment_id ?sb)))\<rparr>] =
      nat_img ?sb 3 (3 div 512)"
    by (rule nth_equalityI) (auto simp: zero_nat_block_def nat_ent_def nth_list_update)
  have w: "nat_written ?sb ?st 3 (mk_dev s)" by (simp add: tbl_written_def)
  have r: "format_nat wr s = format_nat_loop wr (word_of_nat (?st + ?N div 512)) (nat_img ?sb 3 (3 div 512)) (word_of_nat (?st + 3 div 512)) (word_of_nat (3 mod 512)) (word_of_nat 3) s"
    using e b l by (simp add: format_nat_def Let_def prog_simps)
  have en: "(3 + lay_sit S + lay_nat S) * 512 = ?st + ?N div 512" unfolding N(3) by simp
  show ?thesis
    unfolding r en
    using format_nat_loop_ok [OF refl S(3) _ N(1,2) _ _ refl, of 3 wr] S(4) pos w by simp
qed

section \<open>The whole device\<close>

lemma root_node_ok:
  "f_nid (root_node t l) = ROOT_INO" "f_ino (root_node t l) = ROOT_INO" "f_offset (root_node t l) = 0" "i_type (root_node t l) = HSCFS_FT_DIR"
  "i_nlink (root_node t l) = 1" "i_size (root_node t l) = 8192" "i_addr 0 (root_node t l) = l" "i_addr 1 (root_node t l) = l + 1"
  "length (node_words (root_node t l)) = 1020"
  by (simp_all add: root_node_def Let_def set_mtime_def set_atime_def i_type_def i_nlink_def i_addr_def i_size_def wd64_def set_wd64_def set_wd_def wd_def zero_node_def)

text \<open>The metadata of a file system that is mounted from the device, with empty caches.\<close>

definition mount_meta :: "nat \<Rightarrow> hscfs_super_block \<Rightarrow> (u32 \<Rightarrow> disk_block option) \<Rightarrow> meta" where
  "mount_meta n sb d = \<lparr>super_blk = sb, nat_cache = sn_init n, sit_cache = sn_init n,
     nat_dev = (\<lambda>l. case d l of Some (Nat_on_disk b) \<Rightarrow> Some b | _ \<Rightarrow> None),
     sit_dev = (\<lambda>l. case d l of Some (Sit_on_disk b) \<Rightarrow> Some b | _ \<Rightarrow> None),
     cur_journal = empty_journal, uncommit_node_segs = [], uncommit_data_segs = []\<rparr>"

lemma mount_nat_at:
  assumes "layout S sb" "nat_written sb ((3 + lay_sit S) * 512) (lay_nat S * 262144) d" "i < lay_nat S * 262144"
  shows "nat_at (mount_meta n sb d) (word_of_nat i) = Some (nat_ent sb i)"
proof -
  have S: "S < 2 ^ 23" "unat (nat_blkaddr sb) = (3 + lay_sit S) * 512" "unat (segment_count_nat sb) = lay_nat S"
    using assms(1) by (simp_all add: layout_def)
  note B = lay_bounds [OF S(1)]
  have i32: "i < 2 ^ 32" using assms(3) B(2) by simp
  have u: "unat (word_of_nat i :: u32) = i" by (rule unat_of_nat_u32 [OF i32])
  have d: "unat (word_of_nat i div 512 :: u32) = i div 512" "unat (word_of_nat i mod 512 :: u32) = i mod 512" using u by (simp_all add: unat_div unat_mod)
  have i5: "i div 512 < lay_nat S * 512" using assms(3) by (simp add: less_mult_imp_div_less)
  have "unat (nat_blkaddr sb + word_of_nat i div 512) = (3 + lay_sit S) * 512 + i div 512"
    using d(1) S(2) i5 B by (simp add: unat_word_ariths)
  then have l: "nat_blkaddr sb + word_of_nat i div 512 = word_of_nat ((3 + lay_sit S) * 512 + i div 512)" by (rule word_of_unat)
  have "i div 512 * 512 + 512 \<le> lay_nat S * 262144" using i5 mult_le_mono1 [of "Suc (i div 512)" "lay_nat S * 512" 512] by simp
  then have b: "d (nat_blkaddr sb + word_of_nat i div 512) = Some (Nat_on_disk (nat_img sb (lay_nat S * 262144) (i div 512)))"
    using assms(2) S(3) unfolding l tbl_written_def by simp
  show ?thesis
    using b d(2) assms(3) by (simp add: nat_at_tbl tbl_at_def mount_meta_def)
qed

lemma mount_sit_at:
  assumes "layout S sb" "sit_done sb S d" "lay_main S \<le> i" "i < S"
  shows "sit_at (mount_meta n sb d) (word_of_nat i) = Some (sit_ent sb i)"
proof -
  have S: "S < 2 ^ 23" "unat (sit_blkaddr sb) = 1536" using assms(1) by (simp_all add: layout_def)
  note B = lay_bounds [OF S(1)]
  have u: "unat (word_of_nat i :: u32) = i" using assms(4) S(1) by (simp add: unat_of_nat_u32)
  have d: "unat (word_of_nat i div 60 :: u32) = i div 60" "unat (word_of_nat i mod 60 :: u32) = i mod 60" using u by (simp_all add: unat_div unat_mod)
  have "i div 60 * 60 \<le> i" by (rule div_times_less_eq_dividend)
  then have b: "i div 60 * 60 < S" using assms(4) by linarith
  have "unat (sit_blkaddr sb + word_of_nat i div 60) = 1536 + i div 60"
    using d(1) S(2) B(1) B(5) [OF b] by (simp add: unat_word_ariths)
  then have l: "sit_blkaddr sb + word_of_nat i div 60 = word_of_nat (1536 + i div 60)" by (rule word_of_unat)
  have "d (sit_blkaddr sb + word_of_nat i div 60) = Some (Sit_on_disk (sit_img sb S (i div 60)))"
    using assms(2) b div_le_mono [OF assms(3), of 60] unfolding l tbl_done_def by blast
  then show ?thesis using d(2) assms(4) by (simp add: sit_at_tbl tbl_at_def mount_meta_def)
qed

text \<open>The free lists.\<close>

lemma nid_chain_upto:
  assumes "\<And>i. 3 \<le> i \<Longrightarrow> i < N \<Longrightarrow> tb (word_of_nat i) = Some \<lparr>ne_ino = 0, ne_block_addr = (if Suc i = N then INVALID_NID else word_of_nat (Suc i))\<rparr>"
    "N \<le> 2 ^ 32" "3 \<le> k" "k \<le> N"
  shows "nid_chain tb (if k = N then INVALID_NID else word_of_nat k) (map word_of_nat [k..<N])"
  using assms(3,4)
proof (induction "N - k" arbitrary: k)
  case (Suc j k)
  then have k: "k < N" "3 \<le> k" by simp_all
  have "word_of_nat k \<noteq> (0 :: u32)" using k assms(2) by (metis gr_implies_not0 less_le_trans not_numeral_le_zero unat_of_nat_u32 unat_0)
  moreover have "nid_chain tb (if Suc k = N then INVALID_NID else word_of_nat (Suc k)) (map word_of_nat [Suc k..<N])"
    using Suc by simp
  ultimately show ?case using k assms(1) [OF k(2,1)] by (simp add: upt_conv_Cons)
qed simp

lemma seg_chain_upto:
  assumes "\<And>i. m \<le> i \<Longrightarrow> i < S \<Longrightarrow> tb (word_of_nat i) = Some (SET_NEXT_SEG (if Suc i = S then INVALID_SEGID else word_of_nat (Suc i)) zero_sit_entry)"
    "S < 2 ^ 23" "m \<le> k" "k \<le> S"
  shows "seg_chain tb (if k = S then INVALID_SEGID else word_of_nat k) (map word_of_nat [k..<S])"
  using assms(3,4)
proof (induction "S - k" arbitrary: k)
  case (Suc j k)
  then have k: "k < S" "m \<le> k" by simp_all
  let ?nx = "if Suc k = S then INVALID_SEGID else word_of_nat (Suc k)"
  have "seg_chain tb ?nx (map word_of_nat [Suc k..<S])" using Suc by simp
  moreover have "unat (word_of_nat (Suc k) :: u32) = Suc k" using k assms(2) by (subst unat_of_nat_u32) simp_all
  then have "unat ?nx < 2 ^ 23" using k assms(2) by (auto simp del: of_nat_Suc)
  then have "GET_NEXT_SEG (SET_NEXT_SEG ?nx zero_sit_entry) = GET_NEXT_SEG zero_sit_entry OR ?nx" by (rule SET_NEXT_SEG_or)
  then have "GET_NEXT_SEG (SET_NEXT_SEG ?nx zero_sit_entry) = ?nx"
    by (simp add: GET_NEXT_SEG_def [of zero_sit_entry]) (simp add: zero_sit_entry_def)
  moreover have "GET_SIT_VBLOCKS (SET_NEXT_SEG ?nx zero_sit_entry) = 0"
    unfolding SET_NEXT_SEG_count by (simp add: zero_sit_entry_def GET_SIT_VBLOCKS_def)
  moreover have "valid_offs (SET_NEXT_SEG ?nx zero_sit_entry) = {}" "sit_wf (SET_NEXT_SEG ?nx zero_sit_entry)"
    by (auto simp: valid_offs_def sit_bit_def SET_NEXT_SEG_def zero_sit_entry_def sit_wf_def word_less_nat_alt unat_div)
  ultimately show ?case using k assms(1) [OF k(2,1)] by (simp add: upt_conv_Cons del: of_nat_Suc)
qed simp

text \<open>The blocks of the root directory are the only valid ones.\<close>

lemma active_map:
  assumes "valid_map e = (replicate 64 0)[0 := v]" "\<And>j. unat k \<le> j \<Longrightarrow> \<not> bit v j" "k \<le> off"
  shows "off \<notin> valid_offs e"
proof
  assume "off \<in> valid_offs e"
  then have o: "off < 512" "sit_bit e off" by (simp_all add: valid_offs_def)
  then have u: "unat off < 512" by (simp add: word_less_nat_alt)
  show False
  proof (cases "unat off div 8 = 0")
    case True
    then have "bit v (unat off mod 8)" "unat off mod 8 = unat off" using o(2) assms(1) by (simp_all add: sit_bit_def unat_div unat_mod)
    then have "bit v (unat off)" by simp
    moreover have "unat k \<le> unat off" using assms(3) by (simp add: word_le_nat_alt)
    ultimately show False using assms(2) by blast
  next
    case False
    then show False using o u assms(1) by (simp add: sit_bit_def unat_div unat_mod nth_list_update)
  qed
qed

lemma root_segments:
  assumes "current_node_segment_id sb = word_of_nat i" "current_data_segment_id sb = word_of_nat (Suc i)" "unat (segment_count sb) = S" "i = lay_main S" "Suc i < 2 ^ 32"
  shows "sit_wf (sit_ent sb i)" "\<And>off. 1 \<le> off \<Longrightarrow> off \<notin> valid_offs (sit_ent sb i)" "sit_wf (sit_ent sb (Suc i))" "\<And>off. 2 \<le> off \<Longrightarrow> off \<notin> valid_offs (sit_ent sb (Suc i))"
proof -
  have ne: "word_of_nat (Suc i) \<noteq> (word_of_nat i :: u32)" using of_nat_u32_inj [of "Suc i" i] assms(5) by auto
  have e: "sit_ent sb i = \<lparr>vblocks = 1, valid_map = (replicate 64 0)[0 := 1]\<rparr>" "sit_ent sb (Suc i) = \<lparr>vblocks = 2, valid_map = (replicate 64 0)[0 := 3]\<rparr>"
    using assms(1-4) ne by (simp_all add: sit_ent_def sit_entry_init_def zero_sit_entry_def del: of_nat_Suc)
  have t: "(3 :: u8) = mask 2" by (simp add: mask_eq_exp_minus_1)
  show "sit_wf (sit_ent sb i)" "sit_wf (sit_ent sb (Suc i))" by (simp_all add: e sit_wf_def)
  show "off \<notin> valid_offs (sit_ent sb i)" if "1 \<le> off" for off
    by (rule active_map [where k = 1 and v = 1, OF _ _ that]) (simp_all add: e bit_1_iff)
  show "off \<notin> valid_offs (sit_ent sb (Suc i))" if "2 \<le> off" for off
    by (rule active_map [where k = 2 and v = 3, OF _ _ that]) (simp_all add: e t bit_mask_iff)
qed

text \<open>What the formatter leaves on the device, for the file system that is mounted from it.\<close>

definition formatted :: "nat \<Rightarrow> timespec \<Rightarrow> mkfs \<Rightarrow> bool" where
  "formatted S t s \<longleftrightarrow> layout S (super_buffer s) \<and> mk_dev s 0 = Some (Super_on_disk (super_buffer s)) \<and>
     sit_done (super_buffer s) S (mk_dev s) \<and> nat_written (super_buffer s) ((3 + lay_sit S) * 512) (lay_nat S * 262144) (mk_dev s) \<and>
     mk_dev s (word_of_nat (lay_main S * 512)) = Some (Node_on_disk (root_node t (word_of_nat ((lay_main S + 1) * 512)))) \<and>
     (\<forall>k < 2. mk_dev s (word_of_nat ((lay_main S + 1) * 512 + k)) = Some Zero_on_disk)"

lemma distinct_upto_u32: "n \<le> 2 ^ 32 \<Longrightarrow> distinct (map word_of_nat [k..<n] :: u32 list)"
  unfolding distinct_map
proof (intro conjI inj_onI distinct_upt)
  fix x y assume "n \<le> 2 ^ 32" "x \<in> set [k..<n]" "y \<in> set [k..<n]" "word_of_nat x = (word_of_nat y :: u32)"
  then show "x = y" using of_nat_u32_inj [of x y] by simp
qed

lemma formatted_nids:
  assumes "formatted S t s"
  shows "free_nids (mount_meta n (super_buffer s) (mk_dev s)) (map word_of_nat [3..<lay_nat S * 262144])"
proof -
  let ?sb = "super_buffer s" and ?N = "lay_nat S * 262144" and ?m = "mount_meta n (super_buffer s) (mk_dev s)"
  have f: "layout S ?sb" "nat_written ?sb ((3 + lay_sit S) * 512) ?N (mk_dev s)" using assms by (simp_all add: formatted_def)
  have S: "S < 2 ^ 23" "lay_main S + 2 < S" "unat (segment_count_nat ?sb) = lay_nat S" "next_free_nid ?sb = 3" using f(1) by (simp_all add: layout_def)
  note B = lay_bounds [OF S(1)]
  have pos: "0 < lay_nat S" using S(2) B(3) by (cases "lay_nat S") auto
  have N: "?N \<le> 2 ^ 32" using B(2) by simp
  have "nid_chain (nat_at ?m) (if 3 = ?N then INVALID_NID else word_of_nat 3) (map word_of_nat [3..<?N])"
  proof (rule nid_chain_upto)
    fix i assume "3 \<le> i" "i < ?N"
    then show "nat_at ?m (word_of_nat i) = Some \<lparr>ne_ino = 0, ne_block_addr = (if Suc i = ?N then INVALID_NID else word_of_nat (Suc i))\<rparr>"
      using mount_nat_at [OF f] S(3) by (simp add: nat_ent_def)
  qed (use N pos in auto)
  moreover have "262144 \<le> ?N" using pos by (cases "lay_nat S") simp_all
  moreover have "distinct (map word_of_nat [3..<?N] :: u32 list)" by (rule distinct_upto_u32 [OF N])
  moreover have "nid_in_range ?m (word_of_nat i)" if "i < ?N" for i
  proof -
    have "unat (word_of_nat i div 512 :: u32) = i div 512" using that N by (simp add: unat_div unat_of_nat_u32)
    moreover have "i div 512 < lay_nat S * 512" using that by (simp add: less_mult_imp_div_less)
    moreover have "unat (segment_count_nat ?sb * 512) = lay_nat S * 512" using S(3) B(2) by (simp add: unat_word_ariths)
    ultimately show ?thesis by (simp add: nid_in_range_def mount_meta_def word_less_nat_alt)
  qed
  ultimately show ?thesis using S(4) by (simp add: free_nids_def mount_meta_def)
qed

lemma formatted_segs:
  assumes "formatted S t s"
  shows "seg_inv (mount_meta n (super_buffer s) (mk_dev s)) (map word_of_nat [lay_main S + 2..<S])"
proof -
  let ?sb = "super_buffer s" and ?M = "lay_main S" and ?m = "mount_meta n (super_buffer s) (mk_dev s)"
  have f: "layout S ?sb" "sit_done ?sb S (mk_dev s)" using assms by (simp_all add: formatted_def)
  have S: "S < 2 ^ 23" "?M + 2 < S" "unat (segment_count ?sb) = S" "unat (segment_count_sit ?sb) = lay_sit S" "segment0_blkaddr ?sb = 0"
      "unat (free_segment_count ?sb) = S - (?M + 2)" "current_node_segment_blkoff ?sb = 1" "current_data_segment_blkoff ?sb = 2"
    using f(1) by (simp_all add: layout_def)
  have W: "current_node_segment_id ?sb = word_of_nat ?M" "current_data_segment_id ?sb = word_of_nat (Suc ?M)" "first_free_segment_id ?sb = word_of_nat (?M + 2)"
    using f(1) by (intro word_of_unat; simp add: layout_def)+
  note B = lay_bounds [OF S(1)]
  have inj: "i = j" if "word_of_nat i = (word_of_nat j :: u32)" "i < S" "j < S" for i j
    using of_nat_u32_inj [of i j] that S(1) by simp
  have at: "sit_at ?m (word_of_nat i) = Some (sit_ent ?sb i)" if "?M \<le> i" "i < S" for i by (rule mount_sit_at [OF f that])
  have nx: "sit_at ?m (word_of_nat i) = Some (SET_NEXT_SEG (if Suc i = S then INVALID_SEGID else word_of_nat (Suc i)) zero_sit_entry)"
    if i: "?M + 2 \<le> i" "i < S" for i
  proof -
    have "word_of_nat i \<noteq> current_node_segment_id ?sb" "word_of_nat i \<noteq> current_data_segment_id ?sb" using W i inj [of i ?M] inj [of i "Suc ?M"] S(2) by auto
    moreover have "unat (segment_count ?sb - 1) = S - 1" using S by (subst unat_sub_if_size) simp
    then have "word_of_nat i = segment_count ?sb - 1 \<longleftrightarrow> Suc i = S" using i S(1) by (auto simp: word_unat_eq_iff unat_of_nat_u32)
    ultimately show ?thesis using at [of i] i S(3) by (simp add: sit_ent_def sit_entry_init_def add.commute)
  qed
  have "seg_chain (sit_at ?m) (if ?M + 2 = S then INVALID_SEGID else word_of_nat (?M + 2)) (map word_of_nat [?M + 2..<S])"
    by (rule seg_chain_upto [OF nx S(1) order_refl]) (use S(2) in simp_all)
  then have chain: "seg_chain (sit_at ?m) (word_of_nat (?M + 2)) (map word_of_nat [?M + 2..<S])" using S(2) by (simp del: of_nat_add)
  have "[?M..<S] = ?M # Suc ?M # [?M + 2..<S]" using S(2) by (simp add: upt_conv_Cons)
  then have dist: "distinct (word_of_nat ?M # word_of_nat (Suc ?M) # map word_of_nat [?M + 2..<S] :: u32 list)"
    using distinct_upto_u32 [of S ?M] S(1) by (simp del: of_nat_Suc of_nat_add)
  have range: "seg_range ?m (word_of_nat i)" if i: "?M \<le> i" "i < S" for i
  proof -
    have u: "unat (word_of_nat i :: u32) = i" using i S(1) by (simp add: unat_of_nat_u32)
    have "i div 60 * 60 \<le> i" by (rule div_times_less_eq_dividend)
    then have "i div 60 < lay_sit S * 512" using B(5) i by fastforce
    moreover have "unat (segment_count_sit ?sb * 512) = lay_sit S * 512" using S(4) B(1) by (simp add: unat_word_ariths)
    ultimately have "seg_in_range ?m (word_of_nat i)" using u by (simp add: seg_in_range_def mount_meta_def word_less_nat_alt unat_div)
    moreover have "word_of_nat i \<noteq> (0 :: u32)" using u i by (auto simp: lay_main_def)
    moreover have "i * 512 + 512 \<le> 2 ^ 32" using i S(1) by simp
    ultimately show ?thesis using S(5) u by (simp add: seg_range_def mount_meta_def)
  qed
  note R = root_segments [OF W(1,2) S(3) refl]
  have act: "active_ok ?m (word_of_nat ?M) 1" "active_ok ?m (word_of_nat (Suc ?M)) 2"
    using at [of ?M] at [of "Suc ?M"] R S(1,2) by (simp_all add: active_ok_def del: of_nat_Suc)
  have cur: "cur_seg Node_lpa ?m = word_of_nat ?M" "cur_seg Data_lpa ?m = word_of_nat (Suc ?M)" "cur_off Node_lpa ?m = 1" "cur_off Data_lpa ?m = 2"
    using W S(7,8) by (simp_all add: cur_seg_def cur_off_def create_lpa_alloc_context_def mount_meta_def del: of_nat_Suc)
  have "\<forall>s \<in> set (word_of_nat ?M # word_of_nat (Suc ?M) # map word_of_nat [?M + 2..<S]). seg_range ?m s"
    using range S(2) by (simp del: of_nat_Suc of_nat_add)
  moreover have "first_free_segment_id (super_blk ?m) = word_of_nat (?M + 2)" "unat (free_segment_count (super_blk ?m)) = S - (?M + 2)"
    using W(3) S(6) by (simp_all add: mount_meta_def)
  ultimately show ?thesis
    using chain dist act unfolding seg_inv_def cur by (simp del: of_nat_Suc of_nat_add)
qed

lemma tbl_done_frame:
  assumes "tbl_done per wrap ent z st lo N d" "outside a e d d'" "\<And>b. b * per < N \<Longrightarrow> st + b < a \<and> st + b < 2 ^ 32"
  shows "tbl_done per wrap ent z st lo N d'"
  using assms(1) unfolding tbl_done_def
proof (intro allI impI)
  fix b assume b: "lo \<le> b \<and> b * per < N" and w: "\<forall>b. lo \<le> b \<and> b * per < N \<longrightarrow> d (word_of_nat (st + b)) = Some (wrap (tbl_img per ent z N b))"
  have "unat (word_of_nat (st + b) :: u32) < a" using assms(3) [of b] b by (simp add: unat_of_nat_u32 del: of_nat_add)
  then show "d' (word_of_nat (st + b)) = Some (wrap (tbl_img per ent z N b))" using w b assms(2) by (simp add: outside_def)
qed

lemma tbl_written_frame:
  assumes "tbl_written per wrap ent z st lo n N d" "outside a e d d'" "\<And>b. b * per + per \<le> n \<Longrightarrow> st + b < a \<and> st + b < 2 ^ 32"
  shows "tbl_written per wrap ent z st lo n N d'"
  using assms(1) unfolding tbl_written_def
proof (intro allI impI)
  fix b assume b: "lo \<le> b \<and> b * per + per \<le> n"
    and w: "\<forall>b. lo \<le> b \<and> b * per + per \<le> n \<longrightarrow> d (word_of_nat (st + b)) = Some (wrap (tbl_img per ent z N b))"
  have "unat (word_of_nat (st + b) :: u32) < a" using assms(3) [of b] b by (simp add: unat_of_nat_u32 del: of_nat_add)
  then show "d' (word_of_nat (st + b)) = Some (wrap (tbl_img per ent z N b))" using w b assms(2) by (simp add: outside_def)
qed

lemma format_main_area_ok:
  assumes lay: "layout S (super_buffer s)"
  shows "\<exists>r s'. format_main_area wr t s = (Inr r, s') \<and> (r = 0 \<or> r = -1) \<and> ((\<forall>l. wr l) \<longrightarrow> r = 0) \<and> super_buffer s' = super_buffer s \<and>
    outside (lay_main S * 512) ((lay_main S + 2) * 512) (mk_dev s) (mk_dev s') \<and>
    (r = 0 \<longrightarrow> mk_dev s' (word_of_nat (lay_main S * 512)) = Some (Node_on_disk (root_node t (word_of_nat ((lay_main S + 1) * 512)))) \<and>
     (\<forall>k < 2. mk_dev s' (word_of_nat ((lay_main S + 1) * 512 + k)) = Some Zero_on_disk))"
proof -
  let ?sb = "super_buffer s" and ?M = "lay_main S"
  have S: "S < 2 ^ 23" "unat (current_node_segment_id ?sb) = ?M" "unat (current_data_segment_id ?sb) = ?M + 1" using lay by (simp_all add: layout_def)
  note B = lay_bounds [OF S(1)]
  define a where "a = (word_of_nat (?M * 512) :: u32)"
  define b where "b = (word_of_nat ((?M + 1) * 512) :: u32)"
  have ab: "ucast (seg_idx_to_blk_idx (ucast (current_node_segment_id ?sb))) = a" "ucast (seg_idx_to_blk_idx (ucast (current_data_segment_id ?sb))) = b"
    unfolding a_def b_def using S B(4) by (intro word_of_unat; subst seg_idx_nat; simp)+
  have u: "unat a = ?M * 512" "unat b = (?M + 1) * 512" unfolding a_def b_def using B(4) by (subst unat_of_nat_u32; simp)+
  have u1: "unat (b + 1) = (?M + 1) * 512 + 1" using u(2) B(4) by (simp add: unat_word_ariths)
  have b1: "word_of_nat ((?M + 1) * 512 + 1) = b + 1" "word_of_nat ((?M + 1) * 512 + 0) = b" unfolding b_def by simp_all
  have small: "unat a < 2 ^ 29" "unat b < 2 ^ 29" "unat (b + 1) < 2 ^ 29" using u u1 B(4) by simp_all
  have ne: "a \<noteq> b" "a \<noteq> b + 1" "b \<noteq> b + 1" using u u1 by auto
  have out: "outside (?M * 512) ((?M + 2) * 512) d (d(a \<mapsto> x))" "outside (?M * 512) ((?M + 2) * 512) d (d(b \<mapsto> x))"
    "outside (?M * 512) ((?M + 2) * 512) d (d(b + 1 \<mapsto> x))" for d x using u u1 by (auto simp: outside_def)
  have k2: "(\<forall>k < (2 :: nat). P k) \<longleftrightarrow> P 0 \<and> P 1" for P using less_2_cases_iff by auto
  have run: "format_main_area wr t s = checked (write_block wr (Node_on_disk (root_node t b)) a)
      (checked (write_block wr Zero_on_disk b) (checked (write_block wr Zero_on_disk (b + 1)) (ret 0))) s"
    using ab by (simp add: format_main_area_def Let_def prog_simps)
  show ?thesis
    unfolding run k2 b1 a_def [symmetric] b_def [symmetric] using out outside_trans [OF out(1) outside_trans [OF out(2) out(3)]] outside_trans [OF out(1) out(2)] ne
    by (auto simp: checked_def prog_simps write_block_at [OF small(1)] write_block_at [OF small(2)] write_block_at [OF small(3)])
qed

definition seg_number :: "u64 \<Rightarrow> nat" where
  "seg_number sectors = unat (get_lpa_number sectors) div 512"

lemma checked_ok:
  assumes "p s = (Inr r, s1)"
  shows "checked p q s = (if r = 0 then q s1 else (Inr (-1), s1))"
  using assms by (simp add: checked_def prog_simps)

lemma init_ssd_db_ok: "init_ssd_db r s = (Inr (if r = (0, 0, 0) then 0 else -1), s)"
  by (auto simp: init_ssd_db_def checked_def prog_simps split: prod.splits)

lemma format_ssd_ok:
  "\<exists>rc s'. format_ssd wr t r sectors s = (Inr rc, s') \<and> (rc = 0 \<or> rc = -1) \<and>
    ((\<forall>l. wr l) \<and> r = (0, 0, 0) \<and> get_lpa_number sectors < 0xFFFFFFFF \<and> lay_main (seg_number sectors) + 2 < seg_number sectors \<longrightarrow> rc = 0) \<and>
    (rc = 0 \<longrightarrow> formatted (seg_number sectors) t s')"
proof -
  let ?S = "seg_number sectors"
  obtain r1 s1 where s1: "format_super wr (get_lpa_number sectors) s = (Inr r1, s1)"
      "(\<forall>l. wr l) \<and> get_lpa_number sectors < 0xFFFFFFFF \<and> lay_main ?S + 2 < ?S \<longrightarrow> r1 = 0"
      "r1 = 0 \<longrightarrow> layout ?S (super_buffer s1) \<and> mk_dev s1 = (mk_dev s)(0 \<mapsto> Super_on_disk (super_buffer s1))"
    using format_super_ok [of wr "get_lpa_number sectors" s] by (auto simp: seg_number_def)
  show ?thesis
  proof (cases "r1 = 0")
    case False
    then show ?thesis using s1 by (auto simp: format_ssd_def checked_ok)
  next
    case True
    then have lay: "layout ?S (super_buffer s1)" and d1: "mk_dev s1 0 = Some (Super_on_disk (super_buffer s1))" using s1(3) by simp_all
    have S: "?S < 2 ^ 23" using lay by (simp add: layout_def)
    note B = lay_bounds [OF S]
    obtain r2 s2 where s2: "format_sit wr s1 = (Inr r2, s2)" "(\<forall>l. wr l) \<longrightarrow> r2 = 0" "super_buffer s2 = super_buffer s1"
        "outside 1536 ((3 + lay_sit ?S) * 512) (mk_dev s1) (mk_dev s2)" "r2 = 0 \<longrightarrow> sit_done (super_buffer s1) ?S (mk_dev s2)"
      using format_sit_ok [OF lay] by blast
    obtain r3 s3 where s3: "format_nat wr s2 = (Inr r3, s3)" "(\<forall>l. wr l) \<longrightarrow> r3 = 0" "super_buffer s3 = super_buffer s1"
        "outside ((3 + lay_sit ?S) * 512) ((3 + lay_sit ?S + lay_nat ?S) * 512) (mk_dev s2) (mk_dev s3)"
        "r3 = 0 \<longrightarrow> nat_written (super_buffer s1) ((3 + lay_sit ?S) * 512) (lay_nat ?S * 262144) (mk_dev s3)"
      using format_nat_ok [of ?S s2 wr] lay s2(3) by auto
    obtain r4 s4 where s4: "format_main_area wr t s3 = (Inr r4, s4)" "(\<forall>l. wr l) \<longrightarrow> r4 = 0" "super_buffer s4 = super_buffer s1"
        "outside (lay_main ?S * 512) ((lay_main ?S + 2) * 512) (mk_dev s3) (mk_dev s4)"
        "r4 = 0 \<longrightarrow> mk_dev s4 (word_of_nat (lay_main ?S * 512)) = Some (Node_on_disk (root_node t (word_of_nat ((lay_main ?S + 1) * 512)))) \<and>
          (\<forall>k < 2. mk_dev s4 (word_of_nat ((lay_main ?S + 1) * 512 + k)) = Some Zero_on_disk)"
      using format_main_area_ok [of ?S s3 wr t] lay s3(3) by auto
    have "formatted ?S t s4" if z: "r2 = 0" "r3 = 0" "r4 = 0"
    proof -
      have "mk_dev s4 0 = mk_dev s1 0" using s2(4) s3(4) s4(4) by (simp add: outside_def lay_main_def)
      moreover have sd: "1536 + b < (3 + lay_sit ?S) * 512 \<and> 1536 + b < lay_main ?S * 512 \<and> 1536 + b < 2 ^ 32" if "b * 60 < ?S" for b
        using B(5) [OF that] B(1) by (simp add: lay_main_def)
      have "sit_done (super_buffer s1) ?S (mk_dev s4)"
        by (rule tbl_done_frame [OF tbl_done_frame [OF _ s3(4)] s4(4)]) (use s2(5) z sd in auto)
      moreover have nd: "(3 + lay_sit ?S) * 512 + b < lay_main ?S * 512 \<and> (3 + lay_sit ?S) * 512 + b < 2 ^ 32" if "b * 512 + 512 \<le> lay_nat ?S * 262144" for b
      proof -
        have "b < lay_nat ?S * 512" using that by simp
        then show ?thesis using B(1,2) by (simp add: lay_main_def)
      qed
      have "nat_written (super_buffer s1) ((3 + lay_sit ?S) * 512) (lay_nat ?S * 262144) (mk_dev s4)"
        by (rule tbl_written_frame [OF _ s4(4)]) (use s3(5) z nd in auto)
      ultimately show ?thesis using lay d1 s4(3,5) z by (simp add: formatted_def)
    qed
    then show ?thesis
      using True s1 s2(1,2) s3(1,2) s4(1,2)
      by (auto simp: format_ssd_def checked_ok checked_ok [OF init_ssd_db_ok] ret_def)
  qed
qed

lemma formatted_mount:
  fixes n :: nat
  assumes f: "formatted S t s"
  defines "m \<equiv> mount_meta n (super_buffer s) (mk_dev s)" and "l \<equiv> lay_main S * 512"
  shows "mk_dev s 0 = Some (Super_on_disk (super_blk m))" "meta_inv m" "meta_room m"
    "nat_at m ROOT_INO = Some \<lparr>ne_ino = ROOT_INO, ne_block_addr = word_of_nat l\<rparr>"
    "mk_dev s (word_of_nat l) = Some (Node_on_disk (root_node t (word_of_nat (l + 512))))"
    "\<forall>k < 2. mk_dev s (word_of_nat (l + 512 + k)) = Some Zero_on_disk"
proof -
  show "meta_inv m" "meta_room m" "mk_dev s 0 = Some (Super_on_disk (super_blk m))"
    using f by (simp_all add: m_def mount_meta_def meta_inv_def meta_room_def sn_init_inv formatted_def)
  have e: "l + 512 = (lay_main S + 1) * 512" by (simp add: l_def)
  show "mk_dev s (word_of_nat l) = Some (Node_on_disk (root_node t (word_of_nat (l + 512))))" "\<forall>k < 2. mk_dev s (word_of_nat (l + 512 + k)) = Some Zero_on_disk"
    using f unfolding formatted_def l_def [symmetric] e [symmetric] by blast+
  have g: "layout S (super_buffer s)" "nat_written (super_buffer s) ((3 + lay_sit S) * 512) (lay_nat S * 262144) (mk_dev s)"
    using f by (simp_all add: formatted_def)
  then have S: "S < 2 ^ 23" "lay_main S + 2 < S" "unat (current_node_segment_id (super_buffer s)) = lay_main S" by (simp_all add: layout_def)
  note B = lay_bounds [OF S(1)]
  have "0 < lay_nat S" using S(2) B(3) by (cases "lay_nat S") auto
  moreover have "ucast (seg_idx_to_blk_idx (ucast (current_node_segment_id (super_buffer s)))) = (word_of_nat l :: u32)"
    unfolding l_def using S(3) B(4) by (intro word_of_unat) (subst seg_idx_nat, simp_all)
  ultimately show "nat_at m ROOT_INO = Some \<lparr>ne_ino = ROOT_INO, ne_block_addr = word_of_nat l\<rparr>"
    using mount_nat_at [OF g, of 2 n] by (simp add: nat_ent_def m_def)
qed

section \<open>Properties\<close>

text \<open>
  C3. Formatting a device. The formatter never fails an assertion and returns 0 or -1; when all
  writes and commands succeed it returns 0 for every device that is not too large and has room
  for the tables and three segments. When it returns 0, the file system mounted from the
  device satisfies the invariants of the allocators: the super block on the device is the one
  in memory, the free node ids are all ids of the NAT from 3 on, in order, the free segments
  are all segments of the main area but the two active ones, the blocks of the active
  segments from the allocation offsets on are not valid, and the root inode is where the NAT
  says, with its two empty directory blocks.
\<close>

theorem format_establishes_invariants:
  "\<exists>rc s'. format_ssd wr t r sectors s = (Inr rc, s') \<and> (rc = 0 \<or> rc = -1) \<and>
    ((\<forall>l. wr l) \<and> r = (0, 0, 0) \<and> get_lpa_number sectors < 0xFFFFFFFF \<and> lay_main (seg_number sectors) + 2 < seg_number sectors \<longrightarrow> rc = 0) \<and>
    (rc = 0 \<longrightarrow> (let m = mount_meta n (super_buffer s') (mk_dev s'); S = seg_number sectors; l = lay_main S * 512 in
       mk_dev s' 0 = Some (Super_on_disk (super_blk m)) \<and> meta_inv m \<and> meta_room m \<and>
       free_nids m (map word_of_nat [3..<lay_nat S * 262144]) \<and> seg_inv m (map word_of_nat [lay_main S + 2..<S]) \<and>
       nat_at m ROOT_INO = Some \<lparr>ne_ino = ROOT_INO, ne_block_addr = word_of_nat l\<rparr> \<and>
       mk_dev s' (word_of_nat l) = Some (Node_on_disk (root_node t (word_of_nat (l + 512)))) \<and>
       (\<forall>k < 2. mk_dev s' (word_of_nat (l + 512 + k)) = Some Zero_on_disk)))"
proof -
  obtain rc s' where s': "format_ssd wr t r sectors s = (Inr rc, s')" "rc = 0 \<or> rc = -1"
      "(\<forall>l. wr l) \<and> r = (0, 0, 0) \<and> get_lpa_number sectors < 0xFFFFFFFF \<and> lay_main (seg_number sectors) + 2 < seg_number sectors \<longrightarrow> rc = 0"
      "rc = 0 \<longrightarrow> formatted (seg_number sectors) t s'"
    using format_ssd_ok [of wr t r sectors s] by blast
  then have ok: "rc = 0 \<Longrightarrow> formatted (seg_number sectors) t s'" by blast
  show ?thesis
    unfolding Let_def
    by (intro exI [of _ rc] exI [of _ s'] conjI impI s'(1,2) s'(3) [rule_format] formatted_mount formatted_nids formatted_segs) (erule ok | blast)+
qed

definition empty_super :: hscfs_super_block where
  "empty_super = \<lparr>magic = 0, block_count = 0, segment_count = 0, segment_count_sit = 0, segment_count_nat = 0,
     segment_count_srmap = 0, segment_count_meta_journal = 0, segment_count_main = 0, segment0_blkaddr = 0, sit_blkaddr = 0,
     nat_blkaddr = 0, srmap_blkaddr = 0, meta_journal_blkaddr = 0, main_blkaddr = 0, root_ino = 0, first_free_segment_id = 0,
     first_data_segment_id = 0, first_node_segment_id = 0, current_data_segment_id = 0, current_data_segment_blkoff = 0,
     current_node_segment_id = 0, current_node_segment_blkoff = 0, meta_journal_start_blkoff = 0, meta_journal_end_blkoff = 0,
     free_segment_count = 0, next_free_nid = 0\<rparr>"

text \<open>A device of 100 segments.\<close>

theorem format_establishes_invariants_witness:
  "\<exists>s'. format_ssd (\<lambda>_. True) (5, 6) (0, 0, 0) 409600 \<lparr>super_buffer = empty_super, mk_dev = \<lambda>_. None\<rparr> = (Inr 0, s') \<and>
    seg_inv (mount_meta 2 (super_buffer s') (mk_dev s')) (map word_of_nat [8..<100]) \<and>
    free_nids (mount_meta 2 (super_buffer s') (mk_dev s')) (map word_of_nat [3..<262144])"
proof -
  have S: "seg_number 409600 = 100" "lay_main 100 = 6" "lay_nat 100 = 1" "get_lpa_number 409600 < 0xFFFFFFFF"
    by (simp_all add: seg_number_def get_lpa_number_def lay_main_def lay_sit_def lay_nat_def ceil_div_def)
  show ?thesis
    using format_establishes_invariants [of "\<lambda>_. True" "(5, 6)" "(0, 0, 0)" 409600 "\<lparr>super_buffer = empty_super, mk_dev = \<lambda>_. None\<rparr>" 2]
    unfolding S(1) Let_def S(2,3) using S(4) by (auto simp del: upt_rec_numeral)
qed

text \<open>
  The sector of a block is computed with 32 bits, so that from 2 TB on the addresses of two
  blocks are the same on the device; the formatter accepts devices of up to 16 TB. The
  write to the block \<open>2 ^ 29\<close> replaces the super block.
\<close>

theorem large_address_hits_super_block: "write_block wr b (2 ^ 29) s = write_block wr b 0 s"
proof -
  have "(2 ^ 29 * 8 :: u32) = 0" by (simp add: word_unat_eq_iff unat_word_ariths)
  then show ?thesis by (simp only: write_block_def mult_zero_left)
qed

end
