(* ===== verification/Ref_Cache.thy ===== *)
theory Ref_Cache
  imports Cache_Manager
begin

text \<open>
  Reference counts over the cache manager, as the caches of directory blocks, of directory
  entries and of file objects keep them: an entry is pinned while its count is not zero.
  The operations take the accessors of the entry as arguments; the locale \<open>counted_entry\<close> says
  what the accessors promise, and its lemmas hold for each of the caches.
\<close>

section \<open>Operations\<close>

text \<open>\<open>upd\<close> changes the count, \<open>key\<close> is the key stored in the entry.\<close>

definition rc_addref :: "('e \<Rightarrow> u32) \<Rightarrow> ((u32 \<Rightarrow> u32) \<Rightarrow> 'e \<Rightarrow> 'e) \<Rightarrow> ('e \<Rightarrow> 'k) \<Rightarrow> 'k \<Rightarrow> ('k, 'e) cache_manager \<Rightarrow> fault + ('k, 'e) cache_manager" where
  "rc_addref ref upd key p m =
     (case cm_index m p of
        None \<Rightarrow> Inl Undefined
      | Some e \<Rightarrow>
          let m1 = cm_update p (upd (\<lambda>r. r + 1)) m in
          if ref e + 1 = 1 then cm_pin (key e) m1 else Inr m1)"

definition rc_subref :: "('e \<Rightarrow> u32) \<Rightarrow> ((u32 \<Rightarrow> u32) \<Rightarrow> 'e \<Rightarrow> 'e) \<Rightarrow> ('e \<Rightarrow> 'k) \<Rightarrow> 'k \<Rightarrow> ('k, 'e) cache_manager \<Rightarrow> fault + ('k, 'e) cache_manager" where
  "rc_subref ref upd key p m =
     (case cm_index m p of
        None \<Rightarrow> Inl Undefined
      | Some e \<Rightarrow>
          let m1 = cm_update p (upd (\<lambda>r. r - 1)) m in
          if ref e - 1 = 0 then cm_unpin (key e) m1 else Inr m1)"

section \<open>Invariant\<close>

text \<open>\<open>ext k\<close> is the number of references to the entry of \<open>k\<close>.\<close>

definition rc_inv :: "('e \<Rightarrow> u32) \<Rightarrow> ('e \<Rightarrow> 'k) \<Rightarrow> ('k \<Rightarrow> nat) \<Rightarrow> ('k, 'e) cache_manager \<Rightarrow> bool" where
  "rc_inv ref key ext m \<longleftrightarrow> cm_inv m \<and> (\<forall>k. ext k \<noteq> 0 \<longrightarrow> k \<in> dom (cm_index m)) \<and>
     (\<forall>k e. cm_index m k = Some e \<longrightarrow> key e = k \<and> unat (ref e) = ext k) \<and>
     set (cm_cands m) = {k \<in> dom (cm_index m). ext k = 0}"

lemma rc_invD:
  assumes "rc_inv ref key ext m"
  shows "cm_inv m" "ext k \<noteq> 0 \<Longrightarrow> k \<in> dom (cm_index m)" "cm_index m k = Some e \<Longrightarrow> key e = k" "cm_index m k = Some e \<Longrightarrow> unat (ref e) = ext k"
    "set (cm_cands m) = {k \<in> dom (cm_index m). ext k = 0}"
  using assms by (auto simp: rc_inv_def)

lemma rc_inv_empty: "rc_inv ref key (\<lambda>_. 0) cm_empty"
  by (simp add: rc_inv_def)

locale counted_entry =
  fixes ref :: "'e \<Rightarrow> u32" and upd :: "(u32 \<Rightarrow> u32) \<Rightarrow> 'e \<Rightarrow> 'e" and key :: "'e \<Rightarrow> 'k"
  assumes ref_upd: "ref (upd f e) = f (ref e)" and key_upd: "key (upd f e) = key e"
begin

text \<open>An entry is rewritten, keeping its key, and the replacer follows the count.\<close>

lemma rc_inv_change:
  assumes inv: "rc_inv ref key ext m" and e: "cm_index m k = Some e" and m': "cm_inv m'" "cm_index m' = (cm_index m)(k \<mapsto> e')"
    and e': "key e' = k" "unat (ref e') = n"
    and c: "set (cm_cands m') = (if n = 0 then insert k (set (cm_cands m)) else set (cm_cands m) - {k})"
  shows "rc_inv ref key (ext(k := n)) m'"
proof -
  note I = rc_invD [OF inv]
  have "set (cm_cands m') = {j \<in> dom (cm_index m'). (ext(k := n)) j = 0}"
    using I(5) m'(2) e unfolding c by auto
  then show ?thesis using I(2-4) m' e' e by (auto simp: rc_inv_def split: if_splits)
qed

lemma rc_addref_ok:
  assumes inv: "rc_inv ref key ext m" and k: "cm_index m k = Some e" and room: "Suc (ext k) < 2 ^ 32"
  shows "\<exists>m'. rc_addref ref upd key k m = Inr m' \<and> rc_inv ref key (ext(k := Suc (ext k))) m' \<and>
    cm_index m' = (cm_index m)(k \<mapsto> upd (\<lambda>r. r + 1) e)"
proof -
  note I = rc_invD [OF inv]
  let ?m = "cm_update k (upd (\<lambda>r. r + 1)) m" and ?e = "upd (\<lambda>r. r + 1) e"
  have u: "unat (ref e) = ext k" "key e = k" using I k by auto
  have ix: "cm_index ?m = (cm_index m)(k \<mapsto> ?e)" using k by simp
  have "ref e \<noteq> - 1" using u room by (auto simp: unat_u32_max)
  then have u': "unat (ref ?e) = Suc (ext k)" using u by (simp add: ref_upd unat_u32_inc)
  have z: "ref e + 1 = 1 \<longleftrightarrow> ext k = 0" using u by (metis add_left_cancel add.commute add_0 unat_eq_zero)
  obtain m' where m': "rc_addref ref upd key k m = Inr m'" "cm_inv m'" "cm_index m' = cm_index ?m" "set (cm_cands m') = set (cm_cands m) - {k}"
  proof (cases "ext k = 0")
    case True
    then show ?thesis
      using cm_pin_ok [of ?m k] I(1) k u(2) z that by (auto simp: rc_addref_def Let_def)
  next
    case False
    then have "k \<notin> set (cm_cands m)" using I(5) by simp
    then show ?thesis using False I(1) k z that [of ?m] by (auto simp: rc_addref_def Let_def)
  qed
  then have "rc_inv ref key (ext(k := Suc (ext k))) m'"
    using u' u(2) ix by (intro rc_inv_change [OF inv k, of m' ?e]) (auto simp: key_upd)
  then show ?thesis using m' ix by auto
qed

lemma rc_subref_ok:
  assumes inv: "rc_inv ref key ext m" and k: "ext k \<noteq> 0" "cm_index m k = Some e"
  shows "\<exists>m'. rc_subref ref upd key k m = Inr m' \<and> rc_inv ref key (ext(k := ext k - 1)) m' \<and>
    cm_index m' = (cm_index m)(k \<mapsto> upd (\<lambda>r. r - 1) e)"
proof -
  note I = rc_invD [OF inv]
  let ?m = "cm_update k (upd (\<lambda>r. r - 1)) m" and ?e = "upd (\<lambda>r. r - 1) e"
  have u: "unat (ref e) = ext k" "key e = k" using I k by auto
  have ix: "cm_index ?m = (cm_index m)(k \<mapsto> ?e)" using k by simp
  have "ref e \<noteq> 0" using u k(1) by auto
  then have u': "unat (ref ?e) = ext k - 1" using u unat_u32_dec [of "ref e"] by (simp add: ref_upd)
  have z: "ref e - 1 = 0 \<longleftrightarrow> ext k - 1 = 0" using u' by (metis ref_upd unat_eq_zero)
  have nk: "k \<notin> set (cm_cands m)" using I(5) k(1) by simp
  obtain m' where m': "rc_subref ref upd key k m = Inr m'" "cm_inv m'" "cm_index m' = cm_index ?m"
      "set (cm_cands m') = (if ext k - 1 = 0 then insert k (set (cm_cands m)) else set (cm_cands m) - {k})"
  proof (cases "ext k - 1 = 0")
    case True
    then show ?thesis using cm_unpin_ok [of ?m k] I(1) k u(2) z that by (auto simp: rc_subref_def Let_def)
  next
    case False
    then show ?thesis using I(1) k z that [of ?m] nk by (auto simp: rc_subref_def Let_def)
  qed
  then have "rc_inv ref key (ext(k := ext k - 1)) m'"
    using u' u(2) ix by (intro rc_inv_change [OF inv k(2), of m' ?e]) (auto simp: key_upd)
  then show ?thesis using m' ix by auto
qed

text \<open>A field other than count and key is written.\<close>

lemma rc_write_ok:
  assumes inv: "rc_inv ref key ext m" and g: "\<And>e. ref (g e) = ref e" "\<And>e. key (g e) = key e"
  shows "rc_inv ref key ext (cm_update k g m)"
  using assms rc_invD [OF inv] by (auto simp: rc_inv_def dom_def split: if_splits)

lemma rc_insert_ok:
  assumes inv: "rc_inv ref key ext m" and k: "cm_index m k = None" and e: "key e = k" "ref e = 0"
  shows "\<exists>m'. cm_add k e m = Inr m' \<and> rc_inv ref key ext m' \<and> cm_index m' = (cm_index m)(k \<mapsto> e)"
proof -
  note I = rc_invD [OF inv]
  obtain m' where m': "cm_add k e m = Inr m'" "cm_inv m'" "cm_index m' = (cm_index m)(k \<mapsto> e)" "cm_cands m' = cm_cands m @ [k]"
    using cm_add_ok [OF I(1) k, of e] by blast
  have z: "ext k = 0" using I(2) k by fastforce
  have "set (cm_cands m') = {j \<in> dom (cm_index m'). ext j = 0}" using I(5) z m'(3,4) by auto
  then have "rc_inv ref key ext m'" using I(2-4) m' e z by (auto simp: rc_inv_def split: if_splits)
  then show ?thesis using m' by blast
qed

lemma rc_lookup_ok:
  assumes inv: "rc_inv ref key ext m"
  shows "\<exists>m'. cm_get k a m = Inr (cm_index m k, m') \<and> rc_inv ref key ext m' \<and> cm_index m' = cm_index m"
  using cm_get_ok [OF rc_invD(1) [OF inv], of k a] rc_invD [OF inv] by (auto simp: rc_inv_def)

lemma rc_restrict_inv:
  assumes inv: "rc_inv ref key ext m" and m': "cm_inv m'" "cm_index m' = cm_index m |` (- K)" "set (cm_cands m') = set (cm_cands m) - K" "\<forall>k \<in> K. ext k = 0"
  shows "rc_inv ref key ext m'"
proof -
  note I = rc_invD [OF inv]
  have "set (cm_cands m') = {j \<in> dom (cm_index m'). ext j = 0}" using I(5) m' by auto
  moreover have "k \<in> dom (cm_index m')" if "ext k \<noteq> 0" for k
  proof -
    have "k \<notin> K" using that m'(4) by auto
    then show ?thesis using I(2) [OF that] m'(2) by auto
  qed
  ultimately show ?thesis using I(3,4) m'(1,2) by (auto simp: rc_inv_def restrict_map_def split: if_splits)
qed

text \<open>The eviction loop removes entries without references only.\<close>

lemma rc_evict_ok:
  assumes inv: "rc_inv ref key ext m" and lt: "expect < cur"
  shows "\<exists>m' n K. cm_evict (\<lambda>e. ref e = 0) expect cur m = Inr (cur - n, m') \<and> rc_inv ref key ext m' \<and>
    cm_index m' = cm_index m |` (- K) \<and> (\<forall>k \<in> K. ext k = 0) \<and> K \<subseteq> dom (cm_index m) \<and> card K = n \<and> n \<le> cur - expect"
proof -
  note I = rc_invD [OF inv]
  have "\<forall>k e. k \<in> set (cm_cands m) \<longrightarrow> cm_index m k = Some e \<longrightarrow> ref e = 0"
  proof (intro allI impI)
    fix k e assume "k \<in> set (cm_cands m)" "cm_index m k = Some e"
    then have "unat (ref e) = 0" using I(4,5) by simp
    then show "ref e = 0" by (simp only: unat_eq_zero)
  qed
  from cm_evict_ok [where ok = "\<lambda>e. ref e = 0", OF I(1) this lt] obtain m' n where
    m': "n = min (length (cm_cands m)) (cur - expect)" "cm_evict (\<lambda>e. ref e = 0) expect cur m = Inr (cur - n, m')" "cm_inv m'"
      "cm_index m' = cm_index m |` (- set (take n (cm_cands m)))" "cm_cands m' = drop n (cm_cands m)"
    by (auto simp: Let_def)
  let ?K = "set (take n (cm_cands m))"
  have d: "distinct (cm_cands m)" by (rule cm_invD(3) [OF I(1)])
  have "set (cm_cands m') = set (cm_cands m) - ?K"
    unfolding m'(5) using d by (metis append_take_drop_id distinct_append Diff_disjoint Un_Diff Diff_triv Int_commute Un_empty_left Diff_cancel set_append)
  moreover have K: "\<forall>k \<in> ?K. ext k = 0" "?K \<subseteq> dom (cm_index m)" using I(5) in_set_takeD by fastforce+
  ultimately have "rc_inv ref key ext m'" using rc_restrict_inv [OF inv m'(3,4)] by blast
  moreover have "card ?K = n" using d m'(1) by (simp add: distinct_card)
  ultimately show ?thesis using m'(1,2,4) K by (intro exI [of _ m'] exI [of _ n] exI [of _ ?K]) auto
qed

lemma rc_remove_ok:
  assumes inv: "rc_inv ref key ext m" and k: "k \<in> dom (cm_index m)"
  shows "\<exists>m'. cm_remove k m = Inr m' \<and> rc_inv ref key (ext(k := 0)) m' \<and> cm_index m' = (cm_index m)(k := None)"
proof -
  note I = rc_invD [OF inv]
  obtain m' where m': "cm_remove k m = Inr m'" "cm_inv m'" "cm_index m' = (cm_index m)(k := None)" "set (cm_cands m') = set (cm_cands m) - {k}"
    using cm_remove_ok [OF I(1) k] by blast
  have "set (cm_cands m') = {j \<in> dom (cm_index m'). (ext(k := 0)) j = 0}" using I(5) m'(3,4) by auto
  then have "rc_inv ref key (ext(k := 0)) m'" using I(2-4) m'(2,3) by (auto simp: rc_inv_def split: if_splits)
  then show ?thesis using m' by blast
qed

end

end
