(* ===== verification/Dentry_Cache.thy ===== *)
theory Dentry_Cache
  imports Ref_Cache Node_Block_Cache
begin

text \<open>
  The cache of directory entries, \<^verbatim>\<open>inc/cache/dentry_cache.hh\<close> and \<^verbatim>\<open>src/cache/dentry_cache.cc\<close>.
  An entry is keyed by its directory and name and keeps a pointer to the entry of that directory,
  which it references; replacing an entry drops this reference. A handle has copy and assignment
  operators that count references and no destructor, so a handle that goes out of scope keeps its
  reference.
\<close>

section \<open>State\<close>

datatype dentry_key = Dentry_key (dk_dir: u32) (dk_name: "u8 list")

datatype dentry_state = Dentry_valid | Dentry_deleted

record dentry_store_pos =
  sp_blkno :: u32
  sp_slotno :: u32
  sp_is_valid :: bool

abbreviation INVALID_DENTRY_BITPOS :: u32 where "INVALID_DENTRY_BITPOS \<equiv> 215"

definition dentry_store_pos_init :: dentry_store_pos where
  "dentry_store_pos_init = \<lparr>sp_blkno = 0, sp_slotno = INVALID_DENTRY_BITPOS, sp_is_valid = False\<rparr>"

definition store_pos_set :: "u32 \<Rightarrow> u32 \<Rightarrow> dentry_store_pos" where
  "store_pos_set b slot = \<lparr>sp_blkno = b, sp_slotno = slot, sp_is_valid = True\<rparr>"

abbreviation HSCFS_FT_UNKNOWN :: u8 where "HSCFS_FT_UNKNOWN \<equiv> 0"

text \<open>The parent pointer is the key of the entry of the directory, absent for the root.\<close>

record dentry_obj =
  dn_key :: dentry_key
  dn_ino :: u32
  dn_type :: u8
  dn_parent :: "dentry_key option"
  dn_pos :: dentry_store_pos
  dn_ref :: u32
  dn_state :: dentry_state
  dn_dirty :: bool

record dentry_cache =
  dc_mgr :: "(dentry_key, dentry_obj) cache_manager"
  dc_expect :: nat
  dc_cur :: nat
  dc_dirty :: "dentry_key list"

definition dc_init :: "nat \<Rightarrow> dentry_cache" where
  "dc_init expect_size = \<lparr>dc_mgr = cm_empty, dc_expect = expect_size, dc_cur = 0, dc_dirty = []\<rparr>"

definition dentry_init :: "u32 \<Rightarrow> dentry_key option \<Rightarrow> u32 \<Rightarrow> u8 list \<Rightarrow> dentry_obj" where
  "dentry_init dir_ino parent dentry_ino name =
     \<lparr>dn_key = Dentry_key dir_ino name, dn_ino = dentry_ino, dn_type = HSCFS_FT_UNKNOWN, dn_parent = parent,
      dn_pos = dentry_store_pos_init, dn_ref = 0, dn_state = Dentry_valid, dn_dirty = False\<rparr>"

definition is_newly_created :: "dentry_obj \<Rightarrow> bool" where
  "is_newly_created d \<longleftrightarrow> dn_state d = Dentry_valid \<and> dn_dirty d"

definition dc_on_mgr ::
    "((dentry_key, dentry_obj) cache_manager \<Rightarrow> fault + (dentry_key, dentry_obj) cache_manager) \<Rightarrow> (dentry_cache, unit) prog" where
  "dc_on_mgr f = (\<lambda>c. case f (dc_mgr c) of Inl e \<Rightarrow> (Inl e, c) | Inr m \<Rightarrow> (Inr (), c\<lparr>dc_mgr := m\<rparr>))"

definition dc_entry :: "dentry_key \<Rightarrow> (dentry_cache, dentry_obj) prog" where
  "dc_entry p = (\<lambda>c. case cm_index (dc_mgr c) p of None \<Rightarrow> (Inl Undefined, c) | Some e \<Rightarrow> (Inr e, c))"

definition dc_write :: "dentry_key \<Rightarrow> (dentry_obj \<Rightarrow> dentry_obj) \<Rightarrow> (dentry_cache, unit) prog" where
  "dc_write p f = modify (\<lambda>c. c\<lparr>dc_mgr := cm_update p f (dc_mgr c)\<rparr>)"

text \<open>A directory's key, the entry's own for the root.\<close>

definition get_parent_key :: "dentry_key \<Rightarrow> (dentry_cache, dentry_key) prog" where
  "get_parent_key p =
     bnd (dc_entry p) (\<lambda>e. case dn_parent e of None \<Rightarrow> ret (dn_key e) | Some q \<Rightarrow> bnd (dc_entry q) (\<lambda>d. ret (dn_key d)))"

section \<open>References and replacement\<close>

definition dc_add_refcount :: "dentry_key \<Rightarrow> (dentry_cache, unit) prog" where
  "dc_add_refcount p = dc_on_mgr (rc_addref dn_ref dn_ref_update dn_key p)"

definition dc_sub_refcount :: "dentry_key \<Rightarrow> (dentry_cache, unit) prog" where
  "dc_sub_refcount p = dc_on_mgr (rc_subref dn_ref dn_ref_update dn_key p)"

definition dc_handle_copy :: "dentry_key option \<Rightarrow> (dentry_cache, dentry_key option) prog" where
  "dc_handle_copy h = bnd (case h of None \<Rightarrow> ret () | Some p \<Rightarrow> dc_add_refcount p) (\<lambda>_. ret h)"

definition dc_handle_assign :: "dentry_key option \<Rightarrow> dentry_key option \<Rightarrow> (dentry_cache, dentry_key option) prog" where
  "dc_handle_assign dst src =
     bnd (case dst of None \<Rightarrow> ret () | Some p \<Rightarrow> dc_sub_refcount p) (\<lambda>_. dc_handle_copy src)"

text \<open>Move assignment is \<^verbatim>\<open>noexcept\<close>.\<close>

definition dc_handle_move_assign :: "dentry_key option \<Rightarrow> dentry_key option \<Rightarrow> (dentry_cache, dentry_key option) prog" where
  "dc_handle_move_assign dst src =
     bnd (no_throw (case dst of None \<Rightarrow> ret () | Some p \<Rightarrow> dc_sub_refcount p)) (\<lambda>_. ret src)"

definition dc_is_exist :: "dentry_key option \<Rightarrow> (dentry_cache, bool) prog" where
  "dc_is_exist h = (case h of None \<Rightarrow> ret False | Some p \<Rightarrow> bnd (dc_entry p) (\<lambda>e. ret (dn_state e = Dentry_valid)))"

definition dc_release_parent :: "dentry_key option \<Rightarrow> (dentry_cache, unit) prog" where
  "dc_release_parent parent = (case parent of None \<Rightarrow> ret () | Some p \<Rightarrow> dc_sub_refcount p)"

lemma dc_release_parent_size: "dc_release_parent q c = (r, c') \<Longrightarrow> cm_size (dc_mgr c') \<le> cm_size (dc_mgr c)"
  by (auto simp: dc_release_parent_def dc_sub_refcount_def dc_on_mgr_def rc_subref_def prog_simps Let_def
      dest!: cm_unpin_size split: option.splits sum.splits if_splits)

function dc_replace_loop :: "(dentry_cache, unit) prog" where
  "dc_replace_loop c =
     (case cm_replace_one (dc_mgr c) of
        Inl f \<Rightarrow> (Inl f, c)
      | Inr (None, m) \<Rightarrow> (Inr (), c\<lparr>dc_mgr := m\<rparr>)
      | Inr (Some e, m) \<Rightarrow>
          if dn_ref e \<noteq> 0 then (Inl Assert_failed, c\<lparr>dc_mgr := m\<rparr>)
          else
            (case dc_release_parent (dn_parent e) (c\<lparr>dc_mgr := m, dc_cur := dc_cur c - 1\<rparr>) of
               (Inl f, c2) \<Rightarrow> (Inl f, c2)
             | (Inr _, c2) \<Rightarrow> if dc_cur c2 \<le> dc_expect c2 then (Inr (), c2) else dc_replace_loop c2))"
  by pat_completeness auto
termination
proof (relation "measure (\<lambda>c. cm_size (dc_mgr c))", goal_cases)
  case (2 c p y m e r c2 u)
  then have "cm_size m < cm_size (dc_mgr c)" "cm_size (dc_mgr c2) \<le> cm_size m"
    by (auto dest!: cm_replace_one_size dc_release_parent_size [OF sym])
  then show ?case by simp
qed simp

declare dc_replace_loop.simps [simp del]

definition dc_do_replace :: "(dentry_cache, unit) prog" where
  "dc_do_replace c = (if dc_cur c > dc_expect c then dc_replace_loop c else (Inr (), c))"

section \<open>Operations\<close>

definition dc_get_raw :: "bool \<Rightarrow> dentry_key \<Rightarrow> (dentry_cache, dentry_obj option) prog" where
  "dc_get_raw acc k = (\<lambda>c. case cm_get k acc (dc_mgr c) of Inl f \<Rightarrow> (Inl f, c) | Inr (e, m) \<Rightarrow> (Inr e, c\<lparr>dc_mgr := m\<rparr>))"

definition dc_add :: "u32 \<Rightarrow> dentry_key option \<Rightarrow> u32 \<Rightarrow> u8 list \<Rightarrow> (dentry_cache, dentry_key) prog" where
  "dc_add dir_ino dir_handle dentry_ino name =
     (let k = Dentry_key dir_ino name in
      bnd (dc_get_raw True k) (\<lambda>r.
      bnd (assert_that (r = None)) (\<lambda>_.
      case dir_handle of
        None \<Rightarrow> fail Assert_failed
      | Some parent \<Rightarrow>
          bnd (dc_entry parent) (\<lambda>d.
          bnd (dc_get_raw False (dn_key d)) (\<lambda>q.
          bnd (assert_that (q \<noteq> None)) (\<lambda>_.
          bnd (dc_add_refcount parent) (\<lambda>_.
          bnd (dc_on_mgr (cm_add k (dentry_init dir_ino (Some parent) dentry_ino name))) (\<lambda>_.
          bnd (dc_add_refcount k) (\<lambda>_.
          bnd (modify (\<lambda>c. c\<lparr>dc_cur := Suc (dc_cur c)\<rparr>)) (\<lambda>_.
          bnd dc_do_replace (\<lambda>_.
          ret k)))))))))))"

text \<open>The root entry is pinned before its reference is counted.\<close>

definition dc_add_root :: "u32 \<Rightarrow> (dentry_cache, dentry_key) prog" where
  "dc_add_root rino =
     (let k = Dentry_key rino [47] in
      bnd (dc_on_mgr (cm_add k (dentry_init rino None rino [47]))) (\<lambda>_.
      bnd (dc_on_mgr (cm_pin k)) (\<lambda>_.
      bnd (dc_add_refcount k) (\<lambda>_.
      bnd (modify (\<lambda>c. c\<lparr>dc_cur := Suc (dc_cur c)\<rparr>)) (\<lambda>_.
      ret k)))))"

definition dc_get :: "u32 \<Rightarrow> u8 list \<Rightarrow> (dentry_cache, dentry_key option) prog" where
  "dc_get dir_ino name =
     (let k = Dentry_key dir_ino name in
      bnd (dc_get_raw True k) (\<lambda>r. if r = None then ret None else bnd (dc_add_refcount k) (\<lambda>_. ret (Some k))))"

definition dc_mark_dirty :: "dentry_key \<Rightarrow> (dentry_cache, unit) prog" where
  "dc_mark_dirty p =
     bnd (dc_entry p) (\<lambda>e.
     if \<not> dn_dirty e then
       bnd (dc_write p (\<lambda>e. e\<lparr>dn_dirty := True\<rparr>)) (\<lambda>_.
       bnd (dc_add_refcount p) (\<lambda>_.
       modify (\<lambda>c. c\<lparr>dc_dirty := dc_dirty c @ [p]\<rparr>)))
     else ret ())"

fun dc_clean :: "dentry_key list \<Rightarrow> (dentry_cache, unit) prog" where
  "dc_clean [] = ret ()"
| "dc_clean (p # ps) =
     bnd (dc_entry p) (\<lambda>_.
     bnd (dc_write p (\<lambda>e. e\<lparr>dn_dirty := False\<rparr>)) (\<lambda>_.
     dc_clean ps))"

definition get_and_clear_dirty_list :: "(dentry_cache, dentry_key list) prog" where
  "get_and_clear_dirty_list =
     bnd (reads dc_dirty) (\<lambda>d.
     bnd (dc_clean d) (\<lambda>_.
     bnd (modify (\<lambda>c. c\<lparr>dc_dirty := []\<rparr>)) (\<lambda>_.
     ret d)))"

interpretation dn: counted_entry dn_ref dn_ref_update dn_key
  by unfold_locales simp_all

section \<open>Invariant\<close>

abbreviation dc_ix :: "dentry_cache \<Rightarrow> dentry_key \<Rightarrow> dentry_obj option" where
  "dc_ix c \<equiv> cm_index (dc_mgr c)"

definition kids :: "(dentry_key \<rightharpoonup> dentry_obj) \<Rightarrow> dentry_key \<Rightarrow> nat" where
  "kids ix p = card {j. \<exists>e. ix j = Some e \<and> dn_parent e = Some p}"

text \<open>
  The references to an entry: \<open>ext k\<close> by handles, one by each cached entry of the directory, and
  one by the dirty list.
\<close>

definition dn_refs :: "(dentry_key \<Rightarrow> nat) \<Rightarrow> dentry_key set \<Rightarrow> (dentry_key \<rightharpoonup> dentry_obj) \<Rightarrow> dentry_key \<Rightarrow> nat" where
  "dn_refs ext D ix k = ext k + kids ix k + of_bool (k \<in> D)"

definition dc_inv :: "(dentry_key \<Rightarrow> nat) \<Rightarrow> dentry_cache \<Rightarrow> bool" where
  "dc_inv ext c \<longleftrightarrow> rc_inv dn_ref dn_key (dn_refs ext (set (dc_dirty c)) (dc_ix c)) (dc_mgr c) \<and> distinct (dc_dirty c) \<and>
     (\<forall>k e. dc_ix c k = Some e \<longrightarrow> (dn_dirty e \<longleftrightarrow> k \<in> set (dc_dirty c))) \<and> dc_cur c = card (dom (dc_ix c))"

lemma dc_invD:
  assumes "dc_inv ext c"
  shows "rc_inv dn_ref dn_key (dn_refs ext (set (dc_dirty c)) (dc_ix c)) (dc_mgr c)" "distinct (dc_dirty c)"
    "\<And>k e. dc_ix c k = Some e \<Longrightarrow> dn_dirty e \<longleftrightarrow> k \<in> set (dc_dirty c)" "dc_cur c = card (dom (dc_ix c))" "finite (dom (dc_ix c))"
  using assms cm_invD(4) rc_invD(1) unfolding dc_inv_def by blast+

lemma kids_finite: "finite (dom ix) \<Longrightarrow> finite {j. \<exists>e. ix j = Some e \<and> dn_parent e = Some p}"
  by (rule finite_subset [of _ "dom ix"]) auto

lemma kids_le: "finite (dom ix) \<Longrightarrow> kids ix p \<le> card (dom ix)"
  unfolding kids_def by (rule card_mono) auto

lemma kids_upd:
  assumes "ix k = Some e" "dn_parent e' = dn_parent e"
  shows "kids (ix(k \<mapsto> e')) = kids ix"
proof
  fix p
  have "{j. \<exists>x. (ix(k \<mapsto> e')) j = Some x \<and> dn_parent x = Some p} = {j. \<exists>x. ix j = Some x \<and> dn_parent x = Some p}"
    using assms by (auto split: if_splits)
  then show "kids (ix(k \<mapsto> e')) p = kids ix p" by (simp add: kids_def)
qed

lemma kids_add:
  assumes "ix k = None" "finite (dom ix)"
  shows "kids (ix(k \<mapsto> e)) p = kids ix p + of_bool (dn_parent e = Some p)"
proof -
  have "{j. \<exists>x. (ix(k \<mapsto> e)) j = Some x \<and> dn_parent x = Some p} =
      {j. \<exists>x. ix j = Some x \<and> dn_parent x = Some p} \<union> (if dn_parent e = Some p then {k} else {})"
    using assms(1) by auto
  moreover have "k \<notin> {j. \<exists>x. ix j = Some x \<and> dn_parent x = Some p}" using assms(1) by simp
  ultimately show ?thesis using kids_finite [OF assms(2), of p] by (simp add: kids_def)
qed

lemma kids_remove:
  assumes "ix k = Some e" "finite (dom ix)"
  shows "kids ix p = kids (ix(k := None)) p + of_bool (dn_parent e = Some p)"
proof -
  have "ix = (ix(k := None))(k \<mapsto> e)" using assms(1) by (auto simp: fun_eq_iff)
  moreover have "finite (dom (ix(k := None)))" using assms(2) by simp
  ultimately show ?thesis using kids_add [of "ix(k := None)" k e p] by simp
qed

text \<open>The directory of a cached entry is cached.\<close>

lemma dc_parent_cached:
  assumes inv: "dc_inv ext c" and e: "dc_ix c k = Some e" "dn_parent e = Some p"
  shows "p \<in> dom (dc_ix c)"
proof -
  have "kids (dc_ix c) p \<noteq> 0"
    using kids_finite [OF dc_invD(5) [OF inv], of p] e by (auto simp: kids_def)
  then show ?thesis using rc_invD(2) [OF dc_invD(1) [OF inv], of p] by (simp add: dn_refs_def)
qed

lemma dc_held: "dc_inv ext c \<Longrightarrow> ext k \<noteq> 0 \<or> k \<in> set (dc_dirty c) \<Longrightarrow> \<exists>e. dc_ix c k = Some e"
  using rc_invD(2) [OF dc_invD(1), of ext c k] by (auto simp: dn_refs_def)

lemma dc_init_inv: "dc_inv (\<lambda>_. 0) (dc_init n)"
proof -
  have "dn_refs (\<lambda>_. 0) {} Map.empty = (\<lambda>_. 0)" by (simp add: dn_refs_def kids_def fun_eq_iff)
  then show ?thesis by (simp add: dc_inv_def dc_init_def rc_inv_empty)
qed

text \<open>One entry is rewritten, with the parent and the dirty mark unchanged.\<close>

lemma dc_inv_entry:
  assumes inv: "dc_inv ext c" and e: "dc_ix c k = Some e" and m: "rc_inv dn_ref dn_key (dn_refs ext' (set (dc_dirty c)) (dc_ix c)) m"
    and ix: "cm_index m = (dc_ix c)(k \<mapsto> e')" and e': "dn_parent e' = dn_parent e" "dn_dirty e' = dn_dirty e"
  shows "dc_inv ext' (c\<lparr>dc_mgr := m\<rparr>)"
proof -
  note I = dc_invD [OF inv]
  have "dn_refs ext' D (cm_index m) = dn_refs ext' D (dc_ix c)" for D
    using kids_upd [of "dc_ix c", OF e e'(1)] by (simp add: dn_refs_def ix fun_eq_iff)
  moreover have "dom (cm_index m) = dom (dc_ix c)" using e by (auto simp: ix)
  moreover have "dn_dirty x \<longleftrightarrow> j \<in> set (dc_dirty c)" if "cm_index m j = Some x" for j x
    using that I(3) [of j] e e'(2) by (auto simp: ix split: if_splits)
  ultimately show ?thesis using I(2,4) m by (simp add: dc_inv_def)
qed

lemma dc_mgr_upd_inj: "c\<lparr>dc_mgr := m\<rparr> = c\<lparr>dc_mgr := m'\<rparr> \<longleftrightarrow> m = m'"
  by (metis dentry_cache.select_convs(1) dentry_cache.surjective dentry_cache.update_convs(1))

lemma dc_addref_mgr:
  "dc_add_refcount k c = (Inr (), c\<lparr>dc_mgr := m\<rparr>) \<longleftrightarrow> rc_addref dn_ref dn_ref_update dn_key k (dc_mgr c) = Inr m"
  by (auto simp: dc_add_refcount_def dc_on_mgr_def dc_mgr_upd_inj split: sum.splits)

lemma dn_ref_upd_const: "dn_ref_update f e = e\<lparr>dn_ref := f (dn_ref e)\<rparr>"
  by simp

lemma dc_addref_ok:
  assumes inv: "dc_inv ext c" and k: "dc_ix c k = Some e" and room: "ext k + card (dom (dc_ix c)) + 2 < 2 ^ 32"
  shows "\<exists>m. dc_add_refcount k c = (Inr (), c\<lparr>dc_mgr := m\<rparr>) \<and> dc_inv (ext(k := Suc (ext k))) (c\<lparr>dc_mgr := m\<rparr>) \<and>
    cm_index m = (dc_ix c)(k \<mapsto> e\<lparr>dn_ref := dn_ref e + 1\<rparr>)"
proof -
  note I = dc_invD [OF inv]
  let ?R = "dn_refs ext (set (dc_dirty c)) (dc_ix c)"
  have R: "?R(k := Suc (?R k)) = dn_refs (ext(k := Suc (ext k))) (set (dc_dirty c)) (dc_ix c)"
    by (auto simp: dn_refs_def fun_eq_iff)
  have "Suc (?R k) < 2 ^ 32" using room kids_le [OF I(5), of k] by (simp add: dn_refs_def)
  from dn.rc_addref_ok [OF I(1) k this] obtain m where
    m: "rc_addref dn_ref dn_ref_update dn_key k (dc_mgr c) = Inr m"
      "rc_inv dn_ref dn_key (dn_refs (ext(k := Suc (ext k))) (set (dc_dirty c)) (dc_ix c)) m"
      "cm_index m = (dc_ix c)(k \<mapsto> dn_ref_update (\<lambda>r. r + 1) e)"
    unfolding R by blast
  have "dc_inv (ext(k := Suc (ext k))) (c\<lparr>dc_mgr := m\<rparr>)" by (rule dc_inv_entry [OF inv k m(2,3)]) simp_all
  then show ?thesis using m(1,3) dn_ref_upd_const [of "\<lambda>r. r + 1" e] by (intro exI [of _ m]) (simp add: dc_add_refcount_def dc_on_mgr_def)
qed

lemma dc_subref_ok:
  assumes inv: "dc_inv ext c" and k: "ext k \<noteq> 0"
  shows "\<exists>m e. dc_sub_refcount k c = (Inr (), c\<lparr>dc_mgr := m\<rparr>) \<and> dc_inv (ext(k := ext k - 1)) (c\<lparr>dc_mgr := m\<rparr>) \<and>
    dc_ix c k = Some e \<and> cm_index m = (dc_ix c)(k \<mapsto> e\<lparr>dn_ref := dn_ref e - 1\<rparr>)"
proof -
  note I = dc_invD [OF inv]
  let ?R = "dn_refs ext (set (dc_dirty c)) (dc_ix c)"
  have R: "?R(k := ?R k - 1) = dn_refs (ext(k := ext k - 1)) (set (dc_dirty c)) (dc_ix c)"
    using k by (auto simp: dn_refs_def fun_eq_iff)
  obtain e where e: "dc_ix c k = Some e" using dc_held [OF inv] k by blast
  have "?R k \<noteq> 0" using k by (simp add: dn_refs_def)
  from dn.rc_subref_ok [OF I(1) this e] obtain m where
    m: "rc_subref dn_ref dn_ref_update dn_key k (dc_mgr c) = Inr m"
      "rc_inv dn_ref dn_key (dn_refs (ext(k := ext k - 1)) (set (dc_dirty c)) (dc_ix c)) m"
      "cm_index m = (dc_ix c)(k \<mapsto> dn_ref_update (\<lambda>r. r - 1) e)"
    unfolding R by blast
  have "dc_inv (ext(k := ext k - 1)) (c\<lparr>dc_mgr := m\<rparr>)" by (rule dc_inv_entry [OF inv e m(2,3)]) simp_all
  then show ?thesis
    using m(1,3) e dn_ref_upd_const [of "\<lambda>r. r - 1" e] by (intro exI [of _ m] exI [of _ e]) (simp add: dc_sub_refcount_def dc_on_mgr_def)
qed


section \<open>Replacement\<close>

text \<open>A replaced entry leaves its reference on the directory, which the release then takes.\<close>

lemma dc_evict_inv:
  assumes inv: "dc_inv ext c" and k: "k \<in> set (cm_cands (dc_mgr c))" and e: "dc_ix c k = Some e"
    and m: "cm_inv m" "cm_index m = (dc_ix c)(k := None)" "set (cm_cands m) = set (cm_cands (dc_mgr c)) - {k}"
  shows "dc_inv (case dn_parent e of None \<Rightarrow> ext | Some p \<Rightarrow> ext(p := Suc (ext p))) (c\<lparr>dc_mgr := m, dc_cur := dc_cur c - 1\<rparr>)"
    "dn_ref e = 0" "ext k = 0" "k \<notin> set (dc_dirty c)"
proof -
  note I = dc_invD [OF inv] and R = rc_invD [OF dc_invD(1) [OF inv]]
  let ?D = "set (dc_dirty c)" and ?ext = "case dn_parent e of None \<Rightarrow> ext | Some p \<Rightarrow> ext(p := Suc (ext p))"
  have z: "dn_refs ext ?D (dc_ix c) k = 0" using R(5) k by simp
  then show x: "ext k = 0" "k \<notin> ?D" by (auto simp: dn_refs_def)
  have "unat (dn_ref e) = 0" using R(4) [OF e] z by simp
  then show "dn_ref e = 0" by (simp only: unat_eq_zero)
  have same: "dn_refs ?ext ?D (cm_index m) = dn_refs ext ?D (dc_ix c)"
    unfolding fun_eq_iff dn_refs_def m(2) using kids_remove [OF e I(5)] by (auto split: option.splits)
  have "cm_index m = dc_ix c |` (- {k})" by (simp add: m(2) restrict_map_def fun_eq_iff)
  then have "rc_inv dn_ref dn_key (dn_refs ext ?D (dc_ix c)) m"
    using dn.rc_restrict_inv [OF I(1) m(1) _ m(3)] z by simp
  then have "rc_inv dn_ref dn_key (dn_refs ?ext ?D (cm_index m)) m" unfolding same .
  moreover have "dn_dirty x \<longleftrightarrow> j \<in> ?D" if "cm_index m j = Some x" for j x using that I(3) by (auto simp: m(2) split: if_splits)
  moreover have "dc_cur c - 1 = card (dom (cm_index m))" using I(4,5) e by (simp add: m(2) domI)
  ultimately show "dc_inv ?ext (c\<lparr>dc_mgr := m, dc_cur := dc_cur c - 1\<rparr>)" using I(2) by (simp add: dc_inv_def)
qed

text \<open>Two states whose entries agree except for the reference counts and for entries that are gone.\<close>

definition dc_shrinks :: "dentry_cache \<Rightarrow> dentry_cache \<Rightarrow> dentry_key set \<Rightarrow> bool" where
  "dc_shrinks c c' K \<longleftrightarrow> dc_expect c' = dc_expect c \<and> dc_dirty c' = dc_dirty c \<and> dom (dc_ix c') = dom (dc_ix c) - K \<and>
     (\<forall>k e'. dc_ix c' k = Some e' \<longrightarrow> (\<exists>e. dc_ix c k = Some e \<and> e'\<lparr>dn_ref := 0\<rparr> = e\<lparr>dn_ref := 0\<rparr>))"

lemma dc_shrinks_entryD:
  "dc_shrinks c c' K \<Longrightarrow> dc_ix c' k = Some e' \<Longrightarrow> \<exists>e. dc_ix c k = Some e \<and> e'\<lparr>dn_ref := 0\<rparr> = e\<lparr>dn_ref := 0\<rparr>"
  unfolding dc_shrinks_def by blast

lemma dc_shrinks_refl: "dc_shrinks c c {}"
  by (simp add: dc_shrinks_def)

lemma dc_shrinks_trans:
  assumes 1: "dc_shrinks c d K" and 2: "dc_shrinks d e L"
  shows "dc_shrinks c e (K \<union> L)"
  unfolding dc_shrinks_def
proof (intro conjI allI impI)
  fix k x assume "dc_ix e k = Some x"
  then obtain y where "dc_ix d k = Some y" "x\<lparr>dn_ref := 0\<rparr> = y\<lparr>dn_ref := 0\<rparr>" using dc_shrinks_entryD [OF 2] by blast
  moreover then obtain z where "dc_ix c k = Some z" "y\<lparr>dn_ref := 0\<rparr> = z\<lparr>dn_ref := 0\<rparr>" using dc_shrinks_entryD [OF 1] by blast
  ultimately show "\<exists>z. dc_ix c k = Some z \<and> x\<lparr>dn_ref := 0\<rparr> = z\<lparr>dn_ref := 0\<rparr>" by metis
qed (use 1 2 in \<open>auto simp: dc_shrinks_def\<close>)

lemma dc_evict_step:
  assumes inv: "dc_inv ext c" and c: "cm_cands (dc_mgr c) = k # ks"
  obtains e m c2 where "cm_replace_one (dc_mgr c) = Inr (Some e, m)" "dn_ref e = 0"
    "dc_release_parent (dn_parent e) (c\<lparr>dc_mgr := m, dc_cur := dc_cur c - 1\<rparr>) = (Inr (), c2)"
    "dc_inv ext c2" "dc_shrinks c c2 {k}" "ext k = 0" "k \<notin> set (dc_dirty c)"
proof -
  note I = dc_invD [OF inv]
  obtain m e where m: "cm_replace_one (dc_mgr c) = Inr (Some e, m)" "dc_ix c k = Some e" "cm_inv m"
      "cm_index m = (dc_ix c)(k := None)" "cm_cands m = ks"
    using cm_replace_one_ok [OF rc_invD(1) [OF I(1)] c] by auto
  have "set (cm_cands m) = set (cm_cands (dc_mgr c)) - {k}" using cm_invD(3) [OF rc_invD(1) [OF I(1)]] c m(5) by auto
  note ev = dc_evict_inv [OF inv _ m(2-4) this, unfolded c, simplified]
  let ?c = "c\<lparr>dc_mgr := m, dc_cur := dc_cur c - 1\<rparr>"
  have sh: "dc_shrinks c ?c {k}" by (auto simp: dc_shrinks_def m(4))
  show thesis
  proof (cases "dn_parent e")
    case None
    show ?thesis by (rule that [OF m(1) ev(2), of ?c]) (use None ev sh in \<open>auto simp: dc_release_parent_def prog_simps\<close>)
  next
    case (Some p)
    let ?ext = "ext(p := Suc (ext p))"
    have i: "dc_inv ?ext ?c" using ev(1) Some by simp
    obtain m2 d where m2: "dc_sub_refcount p ?c = (Inr (), ?c\<lparr>dc_mgr := m2\<rparr>)" "dc_inv (?ext(p := ?ext p - 1)) (?c\<lparr>dc_mgr := m2\<rparr>)"
        "dc_ix ?c p = Some d" "cm_index m2 = (dc_ix ?c)(p \<mapsto> d\<lparr>dn_ref := dn_ref d - 1\<rparr>)"
      using dc_subref_ok [OF i, of p] by auto
    have "?ext(p := ?ext p - 1) = ext" by auto
    moreover have "dc_shrinks ?c (?c\<lparr>dc_mgr := m2\<rparr>) {}" using m2(3,4) by (auto simp: dc_shrinks_def)
    then have "dc_shrinks c (?c\<lparr>dc_mgr := m2\<rparr>) {k}" using dc_shrinks_trans [OF sh] by fastforce
    ultimately show ?thesis
      using that [OF m(1) ev(2), of "?c\<lparr>dc_mgr := m2\<rparr>"] m2(1,2) Some ev(3,4) by (simp add: dc_release_parent_def)
  qed
qed

lemma dc_replace_loop_ok:
  assumes "dc_inv ext c"
  shows "\<exists>c' K. dc_replace_loop c = (Inr (), c') \<and> dc_inv ext c' \<and> dc_shrinks c c' K \<and> (\<forall>k \<in> K. ext k = 0 \<and> k \<notin> set (dc_dirty c)) \<and>
    (dc_cur c' \<le> dc_expect c \<or> cm_cands (dc_mgr c') = [])"
  using assms
proof (induction c rule: dc_replace_loop.induct)
  case (1 c)
  show ?case
  proof (cases "cm_cands (dc_mgr c)")
    case Nil
    with "1.prems" show ?thesis
      by (intro exI [of _ c] exI [of _ "{}"]) (simp add: dc_replace_loop.simps [of c] cm_replace_one_empty dc_shrinks_refl)
  next
    case (Cons k ks)
    obtain e m c2 where st: "cm_replace_one (dc_mgr c) = Inr (Some e, m)" "dn_ref e = 0"
        "dc_release_parent (dn_parent e) (c\<lparr>dc_mgr := m, dc_cur := dc_cur c - 1\<rparr>) = (Inr (), c2)"
        "dc_inv ext c2" "dc_shrinks c c2 {k}" "ext k = 0" "k \<notin> set (dc_dirty c)"
      using dc_evict_step [OF "1.prems" Cons] by blast
    have ex: "dc_expect c2 = dc_expect c" "dc_dirty c2 = dc_dirty c" using st(5) by (simp_all add: dc_shrinks_def)
    show ?thesis
    proof (cases "dc_cur c2 \<le> dc_expect c2")
      case True
      with st ex show ?thesis by (intro exI [of _ c2] exI [of _ "{k}"]) (simp add: dc_replace_loop.simps [of c])
    next
      case False
      obtain c3 K where c3: "dc_replace_loop c2 = (Inr (), c3)" "dc_inv ext c3" "dc_shrinks c2 c3 K" "\<forall>k \<in> K. ext k = 0 \<and> k \<notin> set (dc_dirty c2)"
          "dc_cur c3 \<le> dc_expect c2 \<or> cm_cands (dc_mgr c3) = []"
        using "1.IH" [OF st(1) refl refl _ st(3) [symmetric] refl False st(4)] st(2) by auto
      with st ex False dc_shrinks_trans [OF st(5) c3(3)] show ?thesis
        by (intro exI [of _ c3] exI [of _ "{k} \<union> K"]) (auto simp: dc_replace_loop.simps [of c])
    qed
  qed
qed

text \<open>Replacement keeps the entries that a handle, a cached entry or the dirty list refers to.\<close>

lemma dc_do_replace_ok:
  assumes "dc_inv ext c"
  shows "\<exists>c' K. dc_do_replace c = (Inr (), c') \<and> dc_inv ext c' \<and> dc_shrinks c c' K \<and> (\<forall>k \<in> K. ext k = 0 \<and> k \<notin> set (dc_dirty c)) \<and>
    (dc_cur c' \<le> dc_expect c \<or> cm_cands (dc_mgr c') = [])"
proof (cases "dc_cur c > dc_expect c")
  case True
  then show ?thesis using dc_replace_loop_ok [OF assms] by (simp add: dc_do_replace_def)
next
  case False
  then show ?thesis using assms by (intro exI [of _ c] exI [of _ "{}"]) (simp add: dc_do_replace_def dc_shrinks_refl)
qed


section \<open>Adding and finding entries\<close>

lemma dc_shrinks_entry:
  assumes "dc_ix c k = Some e" "cm_index m = (dc_ix c)(k \<mapsto> e\<lparr>dn_ref := r\<rparr>)"
  shows "dc_shrinks c (c\<lparr>dc_mgr := m\<rparr>) {}"
  using assms by (auto simp: dc_shrinks_def)

lemma dc_get_raw_ok:
  assumes inv: "dc_inv ext c"
  shows "\<exists>m. dc_get_raw a k c = (Inr (dc_ix c k), c\<lparr>dc_mgr := m\<rparr>) \<and> dc_inv ext (c\<lparr>dc_mgr := m\<rparr>) \<and> cm_index m = dc_ix c"
proof -
  note I = dc_invD [OF inv]
  obtain m where m: "cm_get k a (dc_mgr c) = Inr (dc_ix c k, m)" "rc_inv dn_ref dn_key (dn_refs ext (set (dc_dirty c)) (dc_ix c)) m"
      "cm_index m = dc_ix c"
    using dn.rc_lookup_ok [OF I(1)] by blast
  have "dc_inv ext (c\<lparr>dc_mgr := m\<rparr>)" using I(2-4) m(2,3) by (simp add: dc_inv_def)
  then show ?thesis using m by (auto simp: dc_get_raw_def)
qed

lemma dc_get_ok:
  assumes inv: "dc_inv ext c" and room: "ext (Dentry_key i n) + card (dom (dc_ix c)) + 2 < 2 ^ 32"
  shows "\<exists>c'. dc_get i n c = (Inr (map_option (\<lambda>_. Dentry_key i n) (dc_ix c (Dentry_key i n))), c') \<and> dc_shrinks c c' {} \<and>
    dc_inv (ext(Dentry_key i n := ext (Dentry_key i n) + of_bool (dc_ix c (Dentry_key i n) \<noteq> None))) c'"
proof -
  let ?k = "Dentry_key i n"
  obtain m where m: "dc_get_raw True ?k c = (Inr (dc_ix c ?k), c\<lparr>dc_mgr := m\<rparr>)" "dc_inv ext (c\<lparr>dc_mgr := m\<rparr>)" "cm_index m = dc_ix c"
    using dc_get_raw_ok [OF inv] by blast
  have s1: "dc_shrinks c (c\<lparr>dc_mgr := m\<rparr>) {}" using m(3) by (simp add: dc_shrinks_def)
  show ?thesis
  proof (cases "dc_ix c ?k")
    case None
    then show ?thesis using m s1 by (simp add: dc_get_def Let_def prog_simps)
  next
    case (Some e)
    obtain m2 where m2: "dc_add_refcount ?k (c\<lparr>dc_mgr := m\<rparr>) = (Inr (), c\<lparr>dc_mgr := m2\<rparr>)" "dc_inv (ext(?k := Suc (ext ?k))) (c\<lparr>dc_mgr := m2\<rparr>)"
        "cm_index m2 = (dc_ix c)(?k \<mapsto> e\<lparr>dn_ref := dn_ref e + 1\<rparr>)"
      using dc_addref_ok [OF m(2), of ?k e] room Some m(3) by auto
    then show ?thesis using m(1) Some dc_shrinks_entry [OF Some m2(3)] by (simp add: dc_get_def Let_def prog_simps)
  qed
qed

text \<open>
  The new entry is returned with one reference and its directory has one more; entries in use and
  dirty entries stay.
\<close>

lemma dc_inv_insert:
  assumes inv: "dc_inv ext c" and k: "dc_ix c k = None" and e: "dn_key e = k" "dn_ref e = 0" "\<not> dn_dirty e" "dn_parent e = Some p"
    and p: "ext p \<noteq> 0" and m: "rc_inv dn_ref dn_key (dn_refs ext (set (dc_dirty c)) (dc_ix c)) m" "cm_index m = (dc_ix c)(k \<mapsto> e)"
  shows "dc_inv (ext(p := ext p - 1)) (c\<lparr>dc_mgr := m, dc_cur := Suc (dc_cur c)\<rparr>)"
proof -
  note I = dc_invD [OF inv]
  have z: "k \<notin> set (dc_dirty c)" using dc_held [OF inv, of k] k by (metis option.distinct(1))
  have "dn_refs (ext(p := ext p - 1)) (set (dc_dirty c)) (cm_index m) = dn_refs ext (set (dc_dirty c)) (dc_ix c)"
    using kids_add [OF k I(5), of e] p e(4) by (auto simp: dn_refs_def m(2) fun_eq_iff)
  moreover have "dn_dirty x \<longleftrightarrow> j \<in> set (dc_dirty c)" if "cm_index m j = Some x" for j x
    using that I(3) z e(3) by (auto simp: m(2) split: if_splits)
  moreover have "Suc (dc_cur c) = card (dom (cm_index m))" using I(4,5) k by (simp add: m(2) domIff)
  ultimately show ?thesis using I(2) m(1) by (simp add: dc_inv_def)
qed

lemma dc_add_ok:
  assumes inv: "dc_inv ext c" and k: "dc_ix c (Dentry_key i n) = None" and p: "ext p \<noteq> 0"
    and room: "ext p + card (dom (dc_ix c)) + 4 < 2 ^ 32"
  shows "\<exists>c' K e'. dc_add i (Some p) ino n c = (Inr (Dentry_key i n), c') \<and> dc_inv (ext(Dentry_key i n := 1)) c' \<and>
    dc_ix c' (Dentry_key i n) = Some e' \<and> e'\<lparr>dn_ref := 0\<rparr> = dentry_init i (Some p) ino n \<and> dc_dirty c' = dc_dirty c \<and>
    dom (dc_ix c') = insert (Dentry_key i n) (dom (dc_ix c)) - K \<and> (\<forall>j \<in> K. ext j = 0 \<and> j \<notin> set (dc_dirty c)) \<and>
    (\<forall>j x. j \<noteq> Dentry_key i n \<longrightarrow> dc_ix c' j = Some x \<longrightarrow> (\<exists>y. dc_ix c j = Some y \<and> x\<lparr>dn_ref := 0\<rparr> = y\<lparr>dn_ref := 0\<rparr>))"
proof -
  let ?k = "Dentry_key i n" and ?e = "dentry_init i (Some p) ino n"
  obtain d where d: "dc_ix c p = Some d" using dc_held [OF inv] p by blast
  have kp: "dn_key d = p" using rc_invD(3) [OF dc_invD(1) [OF inv] d] .
  have pk: "p \<noteq> ?k" using d k by auto
  have z: "ext ?k = 0" using dc_held [OF inv, of ?k] k by (metis option.distinct(1))
  obtain m1 where m1: "dc_get_raw True ?k c = (Inr None, c\<lparr>dc_mgr := m1\<rparr>)" "dc_inv ext (c\<lparr>dc_mgr := m1\<rparr>)" "cm_index m1 = dc_ix c"
    using dc_get_raw_ok [OF inv, of True ?k] k by auto
  obtain m2 where m2: "dc_get_raw False p (c\<lparr>dc_mgr := m1\<rparr>) = (Inr (Some d), c\<lparr>dc_mgr := m2\<rparr>)" "dc_inv ext (c\<lparr>dc_mgr := m2\<rparr>)" "cm_index m2 = dc_ix c"
    using dc_get_raw_ok [OF m1(2), of False p] m1(3) d by auto
  obtain m3 where m3: "dc_add_refcount p (c\<lparr>dc_mgr := m2\<rparr>) = (Inr (), c\<lparr>dc_mgr := m3\<rparr>)" "dc_inv (ext(p := Suc (ext p))) (c\<lparr>dc_mgr := m3\<rparr>)"
      "cm_index m3 = (dc_ix c)(p \<mapsto> d\<lparr>dn_ref := dn_ref d + 1\<rparr>)"
    using dc_addref_ok [OF m2(2), of p d] room m2(3) d by auto
  note I3 = dc_invD [OF m3(2)]
  have k3: "dc_ix (c\<lparr>dc_mgr := m3\<rparr>) ?k = None" using k pk by (simp add: m3(3))
  obtain m4 where m4: "cm_add ?k ?e m3 = Inr m4" "rc_inv dn_ref dn_key (dn_refs (ext(p := Suc (ext p))) (set (dc_dirty c)) (cm_index m3)) m4"
      "cm_index m4 = (cm_index m3)(?k \<mapsto> ?e)"
    using dn.rc_insert_ok [OF I3(1) k3, of ?e] by (auto simp: dentry_init_def)
  let ?c4 = "c\<lparr>dc_mgr := m4, dc_cur := Suc (dc_cur c)\<rparr>"
  have i4: "dc_inv ext ?c4"
    using dc_inv_insert [OF m3(2) k3, of ?e p m4] m4(2,3) by (simp add: dentry_init_def)
  have "card (dom (cm_index m3)) = card (dom (dc_ix c))" using d by (simp add: m3(3) insert_absorb domI)
  then have "card (dom (cm_index m4)) = Suc (card (dom (dc_ix c)))"
    using k3 I3(5) by (simp add: m4(3) domIff)
  then obtain m5 where m5: "dc_add_refcount ?k ?c4 = (Inr (), ?c4\<lparr>dc_mgr := m5\<rparr>)" "dc_inv (ext(?k := 1)) (?c4\<lparr>dc_mgr := m5\<rparr>)"
      "cm_index m5 = (cm_index m4)(?k \<mapsto> ?e\<lparr>dn_ref := dn_ref ?e + 1\<rparr>)"
    using dc_addref_ok [OF i4, of ?k ?e] room z by (auto simp: m4(3))
  obtain c6 K where c6: "dc_do_replace (?c4\<lparr>dc_mgr := m5\<rparr>) = (Inr (), c6)" "dc_inv (ext(?k := 1)) c6" "dc_shrinks (?c4\<lparr>dc_mgr := m5\<rparr>) c6 K"
      "\<forall>j \<in> K. (ext(?k := 1)) j = 0 \<and> j \<notin> set (dc_dirty c)"
    using dc_do_replace_ok [OF m5(2)] by auto
  have eq: "?c4\<lparr>dc_mgr := m5\<rparr> = c\<lparr>dc_mgr := m5, dc_cur := Suc (dc_cur c)\<rparr>" by (rule dentry_cache.equality) simp_all
  have run: "dc_add i (Some p) ino n c = (Inr ?k, c6)"
    using m1(1,3) d kp m2(1) m3(1) m4(1) c6(1) [unfolded eq] dc_addref_mgr [of ?k "c\<lparr>dc_mgr := m4\<rparr>" m5] dc_addref_mgr [of ?k ?c4 m5] m5(1)
    by (simp add: dc_add_def Let_def prog_simps dc_entry_def dc_on_mgr_def)
  have kK: "?k \<notin> K" using c6(4) by fastforce
  have dm: "dom (dc_ix c6) = insert ?k (dom (dc_ix c)) - K"
    using c6(3) d by (auto simp: dc_shrinks_def m5(3) m4(3) m3(3))
  then obtain e' where e': "dc_ix c6 ?k = Some e'" using kK by blast
  then have "e'\<lparr>dn_ref := 0\<rparr> = ?e\<lparr>dn_ref := 0\<rparr>" using dc_shrinks_entryD [OF c6(3) e'] by (auto simp: m5(3))
  then have "e'\<lparr>dn_ref := 0\<rparr> = ?e" by (simp add: dentry_init_def)
  moreover have "\<exists>y. dc_ix c j = Some y \<and> x\<lparr>dn_ref := 0\<rparr> = y\<lparr>dn_ref := 0\<rparr>" if "j \<noteq> ?k" "dc_ix c6 j = Some x" for j x
  proof -
    note jx = that
    obtain y where y: "cm_index m3 j = Some y" "x\<lparr>dn_ref := 0\<rparr> = y\<lparr>dn_ref := 0\<rparr>"
      using dc_shrinks_entryD [OF c6(3) jx(2)] jx(1) by (auto simp: m5(3) m4(3))
    then show ?thesis using d by (cases "j = p") (auto simp: m3(3))
  qed
  moreover have "\<forall>j \<in> K. ext j = 0 \<and> j \<notin> set (dc_dirty c)" using c6(4) kK by (auto split: if_splits)
  moreover have "dc_dirty c6 = dc_dirty c" using c6(3) by (simp add: dc_shrinks_def)
  ultimately show ?thesis using run c6(2) e' dm by blast
qed


text \<open>The attributes of an entry are written through its handle.\<close>

lemma dc_write_ok:
  assumes inv: "dc_inv ext c" and e: "dc_ix c k = Some e"
    and g: "\<And>e. dn_ref (g e) = dn_ref e \<and> dn_key (g e) = dn_key e \<and> dn_parent (g e) = dn_parent e \<and> dn_dirty (g e) = dn_dirty e"
  shows "\<exists>m. dc_write k g c = (Inr (), c\<lparr>dc_mgr := m\<rparr>) \<and> dc_inv ext (c\<lparr>dc_mgr := m\<rparr>) \<and> cm_index m = (dc_ix c)(k \<mapsto> g e)"
proof -
  let ?m = "cm_update k g (dc_mgr c)"
  have "rc_inv dn_ref dn_key (dn_refs ext (set (dc_dirty c)) (dc_ix c)) ?m" using g by (intro dn.rc_write_ok [OF dc_invD(1) [OF inv]]) auto
  then have "dc_inv ext (c\<lparr>dc_mgr := ?m\<rparr>)" by (rule dc_inv_entry [OF inv e _ _, where e' = "g e"]) (use e g in auto)
  then show ?thesis using e by (intro exI [of _ ?m]) (simp add: dc_write_def prog_simps)
qed

lemma dc_mark_dirty_ok:
  assumes inv: "dc_inv ext c" and k: "ext k \<noteq> 0" and room: "ext k + card (dom (dc_ix c)) + 2 < 2 ^ 32"
  shows "\<exists>c' e e'. dc_mark_dirty k c = (Inr (), c') \<and> dc_inv ext c' \<and> dc_expect c' = dc_expect c \<and>
    dc_dirty c' = (if k \<in> set (dc_dirty c) then dc_dirty c else dc_dirty c @ [k]) \<and>
    dc_ix c k = Some e \<and> dc_ix c' = (dc_ix c)(k \<mapsto> e') \<and> e'\<lparr>dn_ref := 0\<rparr> = e\<lparr>dn_ref := 0, dn_dirty := True\<rparr>"
proof -
  note I = dc_invD [OF inv]
  let ?D = "set (dc_dirty c)"
  obtain e where e: "dc_ix c k = Some e" using dc_held [OF inv] k by blast
  show ?thesis
  proof (cases "k \<in> ?D")
    case True
    then have "dn_dirty e" using I(3) [OF e] by simp
    then have "e\<lparr>dn_ref := 0\<rparr> = e\<lparr>dn_ref := 0, dn_dirty := True\<rparr>" by simp
    then show ?thesis using True inv e \<open>dn_dirty e\<close>
      by (intro exI [of _ c] exI [of _ e]) (simp add: dc_mark_dirty_def prog_simps dc_entry_def map_upd_triv)
  next
    case False
    let ?m = "cm_update k (\<lambda>e. e\<lparr>dn_dirty := True\<rparr>) (dc_mgr c)" and ?R = "dn_refs ext ?D (dc_ix c)"
    have m: "rc_inv dn_ref dn_key ?R ?m" by (rule dn.rc_write_ok [OF I(1)]) simp_all
    have e2: "cm_index ?m k = Some (e\<lparr>dn_dirty := True\<rparr>)" using e by simp
    have R: "?R(k := Suc (?R k)) = dn_refs ext (insert k ?D) (dc_ix c)" using False by (auto simp: dn_refs_def fun_eq_iff)
    have "Suc (?R k) < 2 ^ 32" using room kids_le [OF I(5), of k] by (simp add: dn_refs_def)
    from dn.rc_addref_ok [OF m e2 this] obtain m' where
      m': "rc_addref dn_ref dn_ref_update dn_key k ?m = Inr m'" "rc_inv dn_ref dn_key (dn_refs ext (insert k ?D) (dc_ix c)) m'"
        "cm_index m' = (cm_index ?m)(k \<mapsto> dn_ref_update (\<lambda>r. r + 1) (e\<lparr>dn_dirty := True\<rparr>))"
      unfolding R by blast
    let ?e' = "dn_ref_update (\<lambda>r. r + 1) (e\<lparr>dn_dirty := True\<rparr>)"
    have ix: "cm_index m' = (dc_ix c)(k \<mapsto> ?e')" using e by (simp add: m'(3))
    let ?c = "c\<lparr>dc_mgr := m', dc_dirty := dc_dirty c @ [k]\<rparr>"
    have run: "dc_mark_dirty k c = (Inr (), ?c)"
      using False I(3) [OF e] e m'(1) by (simp add: dc_mark_dirty_def prog_simps dc_entry_def dc_write_def dc_add_refcount_def dc_on_mgr_def)
    have "dn_refs ext (insert k ?D) (cm_index m') = dn_refs ext (insert k ?D) (dc_ix c)"
      using kids_upd [of "dc_ix c", OF e, of ?e'] by (simp add: dn_refs_def ix fun_eq_iff)
    moreover have "dom (cm_index m') = dom (dc_ix c)" using e by (auto simp: ix)
    moreover have "dn_dirty x \<longleftrightarrow> j \<in> insert k ?D" if "cm_index m' j = Some x" for j x
      using that I(3) [of j] by (auto simp: ix split: if_splits)
    ultimately have "dc_inv ext ?c" using I(2,4) m'(2) False by (simp add: dc_inv_def)
    then show ?thesis using run False e ix by (intro exI [of _ ?c] exI [of _ e] exI [of _ ?e']) simp
  qed
qed

lemma dc_clean_ok:
  assumes "rc_inv dn_ref dn_key R (dc_mgr c)" "set ks \<subseteq> dom (dc_ix c)"
  shows "\<exists>m. dc_clean ks c = (Inr (), c\<lparr>dc_mgr := m\<rparr>) \<and> rc_inv dn_ref dn_key R m \<and>
    (\<forall>j. cm_index m j = (if j \<in> set ks then map_option (dn_dirty_update (\<lambda>_. False)) (dc_ix c j) else dc_ix c j))"
  using assms
proof (induction ks arbitrary: c)
  case Nil
  then show ?case by (intro exI [of _ "dc_mgr c"]) (simp add: prog_simps)
next
  case (Cons k ks)
  obtain e where e: "dc_ix c k = Some e" using Cons.prems(2) by auto
  let ?m = "cm_update k (\<lambda>e. e\<lparr>dn_dirty := False\<rparr>) (dc_mgr c)"
  have "rc_inv dn_ref dn_key R ?m" by (rule dn.rc_write_ok [OF Cons.prems(1)]) simp_all
  then obtain m where m: "dc_clean ks (c\<lparr>dc_mgr := ?m\<rparr>) = (Inr (), c\<lparr>dc_mgr := m\<rparr>)" "rc_inv dn_ref dn_key R m"
      "\<forall>j. cm_index m j = (if j \<in> set ks then map_option (dn_dirty_update (\<lambda>_. False)) (cm_index ?m j) else cm_index ?m j)"
    using Cons.IH [of "c\<lparr>dc_mgr := ?m\<rparr>"] Cons.prems(2) e by fastforce
  have "cm_index m j = (if j \<in> set (k # ks) then map_option (dn_dirty_update (\<lambda>_. False)) (dc_ix c j) else dc_ix c j)" for j
    using m(3) by (auto simp: e)
  moreover have "dc_clean (k # ks) c = (Inr (), c\<lparr>dc_mgr := m\<rparr>)" using e m(1) by (simp add: prog_simps dc_entry_def dc_write_def)
  ultimately show ?case using m(2) by blast
qed

text \<open>The dirty list goes to the caller as handles, and no entry is dirty afterwards.\<close>

lemma get_and_clear_dirty_list_ok:
  assumes inv: "dc_inv ext c"
  shows "\<exists>c'. get_and_clear_dirty_list c = (Inr (dc_dirty c), c') \<and> dc_inv (\<lambda>k. ext k + of_bool (k \<in> set (dc_dirty c))) c' \<and>
    dc_dirty c' = [] \<and> dom (dc_ix c') = dom (dc_ix c)"
proof -
  note I = dc_invD [OF inv]
  let ?D = "set (dc_dirty c)" and ?ext = "\<lambda>k. ext k + of_bool (k \<in> set (dc_dirty c))"
  have "?D \<subseteq> dom (dc_ix c)" using dc_held [OF inv] by blast
  from dc_clean_ok [OF I(1) this] obtain m where
    m: "dc_clean (dc_dirty c) c = (Inr (), c\<lparr>dc_mgr := m\<rparr>)" "rc_inv dn_ref dn_key (dn_refs ext ?D (dc_ix c)) m"
      "\<forall>j. cm_index m j = (if j \<in> ?D then map_option (dn_dirty_update (\<lambda>_. False)) (dc_ix c j) else dc_ix c j)"
    by blast
  let ?c = "c\<lparr>dc_mgr := m, dc_dirty := []\<rparr>"
  have run: "get_and_clear_dirty_list c = (Inr (dc_dirty c), ?c)" using m(1) by (simp add: get_and_clear_dirty_list_def prog_simps)
  have "{j. \<exists>x. cm_index m j = Some x \<and> dn_parent x = Some p} = {j. \<exists>x. dc_ix c j = Some x \<and> dn_parent x = Some p}" for p
    using m(3) by (intro Collect_cong) auto
  then have "dn_refs ?ext {} (cm_index m) = dn_refs ext ?D (dc_ix c)" by (auto simp: dn_refs_def kids_def fun_eq_iff)
  moreover have "\<not> dn_dirty x" if "cm_index m j = Some x" for j x using that m(3) I(3) [of j] by (auto split: if_splits)
  moreover have dm: "dom (cm_index m) = dom (dc_ix c)" using m(3) by (intro set_eqI) (simp add: domIff)
  ultimately have "dc_inv ?ext ?c" using I(4) m(2) by (simp add: dc_inv_def)
  then show ?thesis using run dm by auto
qed


lemma dc_add_root_ok:
  assumes inv: "dc_inv ext c" and k: "dc_ix c (Dentry_key r [47]) = None"
  shows "\<exists>c'. dc_add_root r c = (Inr (Dentry_key r [47]), c') \<and> dc_inv (ext(Dentry_key r [47] := 1)) c' \<and>
    dc_ix c' = (dc_ix c)(Dentry_key r [47] \<mapsto> (dentry_init r None r [47])\<lparr>dn_ref := 1\<rparr>)"
proof -
  note I = dc_invD [OF inv]
  let ?k = "Dentry_key r [47]" and ?e = "dentry_init r None r [47]" and ?D = "set (dc_dirty c)"
  have z: "ext ?k = 0" "?k \<notin> ?D" using dc_held [OF inv, of ?k] k by (metis option.distinct(1))+
  obtain m1 where m1: "cm_add ?k ?e (dc_mgr c) = Inr m1" "rc_inv dn_ref dn_key (dn_refs ext ?D (dc_ix c)) m1" "cm_index m1 = (dc_ix c)(?k \<mapsto> ?e)"
    using dn.rc_insert_ok [OF I(1) k, of ?e] by (auto simp: dentry_init_def)
  obtain m2 where m2: "cm_pin ?k m1 = Inr m2" "cm_inv m2" "cm_index m2 = cm_index m1" "set (cm_cands m2) = set (cm_cands m1) - {?k}"
    using cm_pin_ok [OF rc_invD(1) [OF m1(2)], of ?k] by (auto simp: m1(3))
  let ?u = "cm_update ?k (dn_ref_update (\<lambda>r. r + 1)) m2" and ?e1 = "?e\<lparr>dn_ref := 1\<rparr>"
  obtain m3 where m3: "cm_pin ?k ?u = Inr m3" "cm_inv m3" "cm_index m3 = cm_index ?u" "set (cm_cands m3) = set (cm_cands m2) - {?k}"
    using cm_pin_ok [of ?u ?k] m2(2,3) by (auto simp: m1(3))
  have ix: "cm_index m3 = (dc_ix c)(?k \<mapsto> ?e1)" by (simp add: m3(3) m2(3) m1(3) dentry_init_def)
  have add: "rc_addref dn_ref dn_ref_update dn_key ?k m2 = Inr m3"
    using m3(1) by (simp add: rc_addref_def m2(3) m1(3) dentry_init_def)
  have "rc_inv dn_ref dn_key ((dn_refs ext ?D (dc_ix c))(?k := 1)) m3"
    by (rule dn.rc_inv_change [OF m1(2), of ?k ?e m3 ?e1]) (use m3(2,4) m2(4) in \<open>auto simp: ix m1(3) dentry_init_def\<close>)
  moreover have "dn_refs ext ?D (dc_ix c) ?k = 0" using rc_invD(2) [OF I(1), of ?k] k by (metis domIff)
  then have "(dn_refs ext ?D (dc_ix c))(?k := 1) = dn_refs (ext(?k := 1)) ?D (cm_index m3)"
    using kids_add [OF k I(5), of ?e1] z by (auto simp: dn_refs_def ix fun_eq_iff dentry_init_def)
  moreover have "dn_dirty x \<longleftrightarrow> j \<in> ?D" if "cm_index m3 j = Some x" for j x
    using that I(3) z(2) by (auto simp: ix dentry_init_def split: if_splits)
  moreover have "Suc (dc_cur c) = card (dom (cm_index m3))" using I(4,5) k by (simp add: ix domIff)
  ultimately have "dc_inv (ext(?k := 1)) (c\<lparr>dc_mgr := m3, dc_cur := Suc (dc_cur c)\<rparr>)" using I(2) by (simp add: dc_inv_def)
  then show ?thesis using m1(1) m2(1) add ix by (simp add: dc_add_root_def Let_def prog_simps dc_on_mgr_def dc_add_refcount_def)
qed

section \<open>Histories\<close>

text \<open>
  The cache in use: \<open>ext\<close> counts the references that handles hold. A handle that is overwritten
  releases its reference; one that is destroyed does not. Counters stay below \<open>2\<^sup>3\<^sup>2\<close>.
\<close>

definition dc_room :: "(dentry_key \<Rightarrow> nat) \<Rightarrow> dentry_cache \<Rightarrow> bool" where
  "dc_room ext c \<longleftrightarrow> (\<forall>k. ext k + card (dom (dc_ix c)) + 4 < 2 ^ 32)"

lemma dc_roomD: "dc_room ext c \<Longrightarrow> ext k + card (dom (dc_ix c)) + 4 < 2 ^ 32" "dc_room ext c \<Longrightarrow> ext k + card (dom (dc_ix c)) + 2 < 2 ^ 32"
  unfolding dc_room_def by (metis, metis add_lessD1 add.assoc numeral_Bit0)

inductive dc_run :: "(dentry_key \<Rightarrow> nat) \<Rightarrow> dentry_cache \<Rightarrow> bool" where
  run_init: "dc_run (\<lambda>_. 0) (dc_init n)"
| run_root: "dc_run ext c \<Longrightarrow> dc_ix c (Dentry_key r [47]) = None \<Longrightarrow> dc_add_root r c = (res, c') \<Longrightarrow>
    dc_run (ext(Dentry_key r [47] := 1)) c'"
| run_get: "dc_run ext c \<Longrightarrow> dc_room ext c \<Longrightarrow> dc_get i n c = (res, c') \<Longrightarrow>
    dc_run (ext(Dentry_key i n := ext (Dentry_key i n) + of_bool (dc_ix c (Dentry_key i n) \<noteq> None))) c'"
| run_add: "dc_run ext c \<Longrightarrow> dc_room ext c \<Longrightarrow> dc_ix c (Dentry_key i n) = None \<Longrightarrow> ext p \<noteq> 0 \<Longrightarrow>
    dc_add i (Some p) ino n c = (res, c') \<Longrightarrow> dc_run (ext(Dentry_key i n := 1)) c'"
| run_copy: "dc_run ext c \<Longrightarrow> dc_room ext c \<Longrightarrow> ext k \<noteq> 0 \<Longrightarrow> dc_handle_copy (Some k) c = (res, c') \<Longrightarrow>
    dc_run (ext(k := Suc (ext k))) c'"
| run_overwrite: "dc_run ext c \<Longrightarrow> ext k \<noteq> 0 \<Longrightarrow> dc_handle_move_assign (Some k) h c = (res, c') \<Longrightarrow>
    dc_run (ext(k := ext k - 1)) c'"
| run_mark: "dc_run ext c \<Longrightarrow> dc_room ext c \<Longrightarrow> ext k \<noteq> 0 \<Longrightarrow> dc_mark_dirty k c = (res, c') \<Longrightarrow> dc_run ext c'"
| run_clear: "dc_run ext c \<Longrightarrow> get_and_clear_dirty_list c = (res, c') \<Longrightarrow>
    dc_run (\<lambda>k. ext k + of_bool (k \<in> set (dc_dirty c))) c'"

lemma dc_run_inv: "dc_run ext c \<Longrightarrow> dc_inv ext c"
proof (induction rule: dc_run.induct)
  case (run_root ext c r res c')
  then show ?case using dc_add_root_ok [of ext c r] by (auto simp del: fun_upd_apply)
next
  case (run_get ext c i n res c')
  then show ?case using dc_get_ok [OF run_get.IH dc_roomD(2) [OF run_get.hyps(2)], of i n] by (auto simp del: fun_upd_apply)
next
  case (run_add ext c i n p ino res c')
  then show ?case
    using dc_add_ok [OF run_add.IH run_add.hyps(3,4) dc_roomD(1) [OF run_add.hyps(2)], of ino] by (auto simp del: fun_upd_apply)
next
  case (run_copy ext c k res c')
  then obtain e where "dc_ix c k = Some e" using dc_held [of ext c k] by blast
  from dc_addref_ok [OF run_copy.IH this dc_roomD(2) [OF run_copy.hyps(2)]] show ?case
    using run_copy.hyps by (auto simp: dc_handle_copy_def prog_simps simp del: fun_upd_apply)
next
  case (run_overwrite ext c k h res c')
  then show ?case using dc_subref_ok [of ext c k] by (auto simp: dc_handle_move_assign_def prog_simps simp del: fun_upd_apply)
next
  case (run_mark ext c k res c')
  then show ?case using dc_mark_dirty_ok [OF run_mark.IH run_mark.hyps(3) dc_roomD(2) [OF run_mark.hyps(2)]] by auto
next
  case (run_clear ext c res c')
  then show ?case using get_and_clear_dirty_list_ok [of ext c] by auto
qed (rule dc_init_inv)


section \<open>Properties\<close>

text \<open>
  C25. The parent pointer of a cached entry never dangles. In every state that the operations lead
  to, whatever was replaced on the way, the entry of the directory of a cached entry is cached, so
  that \<^verbatim>\<open>get_parent_key\<close>, which follows the pointer, returns its key, and the root's own key for
  the root; and an entry that is dirty or that a handle refers to is cached.
\<close>

theorem dentry_parent_cached:
  assumes "dc_run ext c" and "dc_ix c k = Some e"
  shows "get_parent_key k c = (Inr (case dn_parent e of None \<Rightarrow> k | Some p \<Rightarrow> p), c) \<and>
    (\<forall>p. dn_parent e = Some p \<longrightarrow> p \<in> dom (dc_ix c)) \<and> (\<forall>j. ext j \<noteq> 0 \<or> j \<in> set (dc_dirty c) \<longrightarrow> j \<in> dom (dc_ix c))"
proof -
  note inv = dc_run_inv [OF assms(1)]
  note K = rc_invD(3) [OF dc_invD(1) [OF inv]]
  have p: "\<forall>p. dn_parent e = Some p \<longrightarrow> p \<in> dom (dc_ix c)" using dc_parent_cached [OF inv assms(2)] by blast
  then have "get_parent_key k c = (Inr (case dn_parent e of None \<Rightarrow> k | Some p \<Rightarrow> p), c)"
    using assms(2) K by (auto simp: get_parent_key_def prog_simps dc_entry_def split: option.splits)
  then show ?thesis using p dc_held [OF inv] by blast
qed

definition sample_dentries :: dentry_cache where
  "sample_dentries = snd (dc_add 3 (Some (Dentry_key 3 [47])) 7 [97] (snd (dc_add_root 3 (dc_init 4))))"

lemma sample_dentries_run: "dc_run ((\<lambda>_. 0)(Dentry_key 3 [47] := 1, Dentry_key 3 [97] := 1)) sample_dentries"
proof -
  obtain c where c: "dc_add_root 3 (dc_init 4) = (Inr (Dentry_key 3 [47]), c)" "dc_inv ((\<lambda>_. 0)(Dentry_key 3 [47] := 1)) c"
      "dc_ix c = [Dentry_key 3 [47] \<mapsto> (dentry_init 3 None 3 [47])\<lparr>dn_ref := 1\<rparr>]"
    using dc_add_root_ok [OF dc_init_inv, of 4 3] by (auto simp: dc_init_def)
  have r: "dc_run ((\<lambda>_. 0)(Dentry_key 3 [47] := 1)) c" by (rule run_root [OF run_init _ c(1)]) (simp add: dc_init_def)
  have "dc_room ((\<lambda>_. 0)(Dentry_key 3 [47] := 1)) c" by (simp add: dc_room_def c(3))
  then have "dc_run ((\<lambda>_. 0)(Dentry_key 3 [47] := 1, Dentry_key 3 [97] := 1)) (snd (dc_add 3 (Some (Dentry_key 3 [47])) 7 [97] c))"
    by (rule run_add [OF r]) (simp_all add: c(3) prod_eq_iff)
  then show ?thesis by (simp add: sample_dentries_def c(1))
qed

theorem dentry_parent_cached_witness:
  "\<exists>e. dc_ix sample_dentries (Dentry_key 3 [97]) = Some e \<and>
     get_parent_key (Dentry_key 3 [97]) sample_dentries = (Inr (Dentry_key 3 [47]), sample_dentries)"
proof -
  have "map_option dn_parent (dc_ix sample_dentries (Dentry_key 3 [97])) = Some (Some (Dentry_key 3 [47]))" by code_simp
  then obtain e where e: "dc_ix sample_dentries (Dentry_key 3 [97]) = Some e" "dn_parent e = Some (Dentry_key 3 [47])" by auto
  show ?thesis using dentry_parent_cached [OF sample_dentries_run e(1)] e by simp
qed

end
