(* ===== verification/Dir_Cache.thy ===== *)
theory Dir_Cache
  imports Ref_Cache Dentry_Block
begin

text \<open>
  The cache of directory blocks, \<^verbatim>\<open>inc/cache/dir_data_block_cache.hh\<close> and
  \<^verbatim>\<open>src/cache/dir_data_block_cache.cc\<close>. Blocks are keyed by directory and offset; the dirty
  blocks are kept per directory, with a reference on each.
\<close>

section \<open>State\<close>

datatype dir_data_block_entry_state = Dd_uptodate | Dd_dirty

datatype dd_key = Dd_key (key_ino: u32) (key_blkoff: u32)

record dir_data_block_entry =
  ddb_key :: dd_key
  ddb_lpa :: u32
  ddb_block :: hscfs_dentry_block
  ddb_state :: dir_data_block_entry_state
  ddb_ref :: u32

text \<open>
  \<open>dd_dirty\<close> is \<^verbatim>\<open>dirty_blks\<close>, the vectors of handles by directory, in the order in which the
  directories were entered.
\<close>

record dir_cache =
  dd_mgr :: "(dd_key, dir_data_block_entry) cache_manager"
  dd_expect :: nat
  dd_cur :: nat
  dd_dirty :: "(u32 \<times> dd_key list) list"

definition dd_init :: "nat \<Rightarrow> dir_cache" where
  "dd_init expect_size = \<lparr>dd_mgr = cm_empty, dd_expect = expect_size, dd_cur = 0, dd_dirty = []\<rparr>"

definition dir_data_block_entry_init :: "u32 \<Rightarrow> u32 \<Rightarrow> u32 \<Rightarrow> hscfs_dentry_block \<Rightarrow> dir_data_block_entry" where
  "dir_data_block_entry_init ino blkoff lpa block =
     \<lparr>ddb_key = Dd_key ino blkoff, ddb_lpa = lpa, ddb_block = block, ddb_state = Dd_uptodate, ddb_ref = 0\<rparr>"

text \<open>Calls of the cache manager, and access through the pointer of a handle.\<close>

definition dd_on_mgr ::
    "((dd_key, dir_data_block_entry) cache_manager \<Rightarrow> fault + (dd_key, dir_data_block_entry) cache_manager) \<Rightarrow> (dir_cache, unit) prog" where
  "dd_on_mgr f = (\<lambda>c. case f (dd_mgr c) of Inl e \<Rightarrow> (Inl e, c) | Inr m \<Rightarrow> (Inr (), c\<lparr>dd_mgr := m\<rparr>))"

definition dd_entry :: "dd_key \<Rightarrow> (dir_cache, dir_data_block_entry) prog" where
  "dd_entry p = (\<lambda>c. case cm_index (dd_mgr c) p of None \<Rightarrow> (Inl Undefined, c) | Some e \<Rightarrow> (Inr e, c))"

definition dd_write :: "dd_key \<Rightarrow> (dir_data_block_entry \<Rightarrow> dir_data_block_entry) \<Rightarrow> (dir_cache, unit) prog" where
  "dd_write p f = modify (\<lambda>c. c\<lparr>dd_mgr := cm_update p f (dd_mgr c)\<rparr>)"

section \<open>Operations\<close>

definition dd_add_refcount :: "dd_key \<Rightarrow> (dir_cache, unit) prog" where
  "dd_add_refcount p = dd_on_mgr (rc_addref ddb_ref ddb_ref_update ddb_key p)"

definition dd_sub_refcount :: "dd_key \<Rightarrow> (dir_cache, unit) prog" where
  "dd_sub_refcount p = dd_on_mgr (rc_subref ddb_ref ddb_ref_update ddb_key p)"

definition dd_handle_dtor :: "dd_key option \<Rightarrow> (dir_cache, unit) prog" where
  "dd_handle_dtor h = (case h of None \<Rightarrow> ret () | Some p \<Rightarrow> catch_all (dd_sub_refcount p))"

definition dd_handle_copy :: "dd_key option \<Rightarrow> (dir_cache, dd_key option) prog" where
  "dd_handle_copy h = bnd (case h of None \<Rightarrow> ret () | Some p \<Rightarrow> dd_add_refcount p) (\<lambda>_. ret h)"

definition dd_handle_assign :: "dd_key option \<Rightarrow> dd_key option \<Rightarrow> (dir_cache, dd_key option) prog" where
  "dd_handle_assign dst src =
     bnd (case dst of None \<Rightarrow> ret () | Some p \<Rightarrow> dd_sub_refcount p) (\<lambda>_. dd_handle_copy src)"

definition dd_handle_move_assign :: "dd_key option \<Rightarrow> dd_key option \<Rightarrow> (dir_cache, dd_key option) prog" where
  "dd_handle_move_assign dst src =
     bnd (case dst of None \<Rightarrow> ret () | Some p \<Rightarrow> dd_sub_refcount p) (\<lambda>_. ret src)"

definition dd_do_replace :: "(dir_cache, unit) prog" where
  "dd_do_replace = (\<lambda>c.
     if dd_cur c > dd_expect c then
       (case cm_evict (\<lambda>e. ddb_ref e = 0) (dd_expect c) (dd_cur c) (dd_mgr c) of
          Inl f \<Rightarrow> (Inl f, c)
        | Inr (n, m) \<Rightarrow> (Inr (), c\<lparr>dd_mgr := m, dd_cur := n\<rparr>))
     else (Inr (), c))"

definition dd_get_raw :: "dd_key \<Rightarrow> (dir_cache, dir_data_block_entry option) prog" where
  "dd_get_raw k = (\<lambda>c. case cm_get k True (dd_mgr c) of Inl f \<Rightarrow> (Inl f, c) | Inr (e, m) \<Rightarrow> (Inr e, c\<lparr>dd_mgr := m\<rparr>))"

definition dd_add :: "u32 \<Rightarrow> u32 \<Rightarrow> u32 \<Rightarrow> hscfs_dentry_block \<Rightarrow> (dir_cache, dd_key) prog" where
  "dd_add ino blkoff lpa block =
     bnd (dd_get_raw (Dd_key ino blkoff)) (\<lambda>r.
     bnd (assert_that (r = None)) (\<lambda>_.
     bnd (dd_on_mgr (cm_add (Dd_key ino blkoff) (dir_data_block_entry_init ino blkoff lpa block))) (\<lambda>_.
     bnd (modify (\<lambda>c. c\<lparr>dd_cur := Suc (dd_cur c)\<rparr>)) (\<lambda>_.
     bnd (dd_add_refcount (Dd_key ino blkoff)) (\<lambda>_.
     bnd dd_do_replace (\<lambda>_.
     ret (Dd_key ino blkoff)))))))"

definition dd_get :: "u32 \<Rightarrow> u32 \<Rightarrow> (dir_cache, dd_key option) prog" where
  "dd_get ino blkoff =
     bnd (dd_get_raw (Dd_key ino blkoff)) (\<lambda>r.
     if r = None then ret None else bnd (dd_add_refcount (Dd_key ino blkoff)) (\<lambda>_. ret (Some (Dd_key ino blkoff))))"

text \<open>\<^verbatim>\<open>dirty_blks[ino].emplace_back(handle)\<close>, which copies the handle.\<close>

fun dirty_push :: "u32 \<Rightarrow> dd_key \<Rightarrow> (u32 \<times> dd_key list) list \<Rightarrow> (u32 \<times> dd_key list) list" where
  "dirty_push ino k [] = [(ino, [k])]"
| "dirty_push ino k ((i, ks) # d) = (if i = ino then (i, ks @ [k]) # d else (i, ks) # dirty_push ino k d)"

definition dd_mark_dirty :: "dd_key \<Rightarrow> (dir_cache, unit) prog" where
  "dd_mark_dirty p =
     bnd (dd_entry p) (\<lambda>e.
     if ddb_state e \<noteq> Dd_dirty then
       bnd (dd_write p (\<lambda>e. e\<lparr>ddb_state := Dd_dirty\<rparr>)) (\<lambda>_.
       bnd (dd_add_refcount p) (\<lambda>_.
       modify (\<lambda>c. c\<lparr>dd_dirty := dirty_push (key_ino (ddb_key e)) p (dd_dirty c)\<rparr>)))
     else ret ())"

fun dd_release_all :: "dd_key list \<Rightarrow> (dir_cache, unit) prog" where
  "dd_release_all [] = ret ()"
| "dd_release_all (p # ps) = bnd (dd_handle_dtor (Some p)) (\<lambda>_. dd_release_all ps)"

text \<open>The keys of the index, which the replacer lists.\<close>

definition cm_keys :: "('k, 'e) cache_manager \<Rightarrow> 'k list" where
  "cm_keys m = map snd (lru_list (cm_replacer m)) @ map snd (pinned_list (cm_replacer m))"

fun dd_erase_all :: "dd_key list \<Rightarrow> (dir_cache, unit) prog" where
  "dd_erase_all [] = ret ()"
| "dd_erase_all (p # ps) = bnd (dd_on_mgr (cm_remove p)) (\<lambda>_. dd_erase_all ps)"

definition remove_ino_blks :: "u32 \<Rightarrow> (dir_cache, unit) prog" where
  "remove_ino_blks ino =
     bnd (reads dd_dirty) (\<lambda>d.
     bnd (case map_of d ino of
            None \<Rightarrow> ret ()
          | Some ks \<Rightarrow>
              bnd (modify (\<lambda>c. c\<lparr>dd_dirty := filter (\<lambda>x. fst x \<noteq> ino) (dd_dirty c)\<rparr>)) (\<lambda>_. dd_release_all ks)) (\<lambda>_.
     bnd (reads (\<lambda>c. filter (\<lambda>k. key_ino k = ino) (cm_keys (dd_mgr c)))) (\<lambda>ks.
     dd_erase_all ks)))"

fun dd_clean :: "dd_key list \<Rightarrow> (dir_cache, unit) prog" where
  "dd_clean [] = ret ()"
| "dd_clean (p # ps) =
     bnd (dd_entry p) (\<lambda>e.
     bnd (assert_that (ddb_state e = Dd_dirty \<and> ddb_ref e \<ge> 1)) (\<lambda>_.
     bnd (dd_write p (\<lambda>e. e\<lparr>ddb_state := Dd_uptodate\<rparr>)) (\<lambda>_.
     dd_clean ps)))"

text \<open>The handles go to the caller.\<close>

definition get_and_clear_dirty_blks :: "(dir_cache, (u32 \<times> dd_key list) list) prog" where
  "get_and_clear_dirty_blks =
     bnd (reads dd_dirty) (\<lambda>d.
     bnd (dd_clean (concat (map snd d))) (\<lambda>_.
     bnd (modify (\<lambda>c. c\<lparr>dd_dirty := []\<rparr>)) (\<lambda>_.
     ret d)))"

interpretation dd: counted_entry ddb_ref ddb_ref_update ddb_key
  by unfold_locales simp_all

section \<open>Invariant\<close>

abbreviation dd_ix :: "dir_cache \<Rightarrow> dd_key \<Rightarrow> dir_data_block_entry option" where
  "dd_ix c \<equiv> cm_index (dd_mgr c)"

definition dd_dirty_keys :: "dir_cache \<Rightarrow> dd_key list" where
  "dd_dirty_keys c = concat (map snd (dd_dirty c))"

text \<open>
  The references to a block: \<open>ext k\<close> handles of users, and the one of the dirty list.
\<close>

definition dd_refs :: "(dd_key \<Rightarrow> nat) \<Rightarrow> dd_key set \<Rightarrow> dd_key \<Rightarrow> nat" where
  "dd_refs ext D k = ext k + of_bool (k \<in> D)"

text \<open>
  The counter of cached blocks is an upper bound only, since removing a directory does not lower
  it.
\<close>

definition dd_inv :: "(dd_key \<Rightarrow> nat) \<Rightarrow> dir_cache \<Rightarrow> bool" where
  "dd_inv ext c \<longleftrightarrow> rc_inv ddb_ref ddb_key (dd_refs ext (set (dd_dirty_keys c))) (dd_mgr c) \<and>
     distinct (map fst (dd_dirty c)) \<and> distinct (dd_dirty_keys c) \<and> (\<forall>x \<in> set (dd_dirty c). \<forall>k \<in> set (snd x). key_ino k = fst x) \<and>
     (\<forall>k e. dd_ix c k = Some e \<longrightarrow> (ddb_state e = Dd_dirty \<longleftrightarrow> k \<in> set (dd_dirty_keys c))) \<and>
     card (dom (dd_ix c)) \<le> dd_cur c"

text \<open>What a block holds, without its reference count and state.\<close>

definition dd_content :: "dir_cache \<Rightarrow> dd_key \<Rightarrow> (u32 \<times> hscfs_dentry_block) option" where
  "dd_content c k = map_option (\<lambda>e. (ddb_lpa e, ddb_block e)) (dd_ix c k)"

lemma dd_invD:
  assumes "dd_inv ext c"
  shows "rc_inv ddb_ref ddb_key (dd_refs ext (set (dd_dirty_keys c))) (dd_mgr c)" "distinct (map fst (dd_dirty c))"
    "distinct (dd_dirty_keys c)" "\<forall>x \<in> set (dd_dirty c). \<forall>k \<in> set (snd x). key_ino k = fst x"
    "\<And>k e. dd_ix c k = Some e \<Longrightarrow> ddb_state e = Dd_dirty \<longleftrightarrow> k \<in> set (dd_dirty_keys c)" "card (dom (dd_ix c)) \<le> dd_cur c"
  using assms unfolding dd_inv_def by blast+

lemma dd_inv_cached:
  assumes inv: "dd_inv ext c" and k: "ext k \<noteq> 0 \<or> k \<in> set (dd_dirty_keys c)"
  shows "\<exists>e. dd_ix c k = Some e"
proof -
  have "dd_refs ext (set (dd_dirty_keys c)) k \<noteq> 0" using k by (auto simp: dd_refs_def)
  then show ?thesis using rc_invD(2) [OF dd_invD(1) [OF inv]] by blast
qed

lemma dd_init_inv: "dd_inv (\<lambda>_. 0) (dd_init n)"
proof -
  have "dd_refs (\<lambda>_. 0) {} = (\<lambda>_. 0)" by (simp add: dd_refs_def fun_eq_iff)
  then show ?thesis by (simp add: dd_inv_def dd_init_def dd_dirty_keys_def rc_inv_empty)
qed

lemma dd_dirty_keys_upd [simp]:
  "dd_dirty_keys (c\<lparr>dd_mgr := m\<rparr>) = dd_dirty_keys c" "dd_dirty_keys (c\<lparr>dd_cur := n\<rparr>) = dd_dirty_keys c"
  by (simp_all add: dd_dirty_keys_def)

text \<open>The index changes in counts and by evictions only, with the same dirty list.\<close>

lemma dd_inv_index:
  assumes inv: "dd_inv ext c" and m: "rc_inv ddb_ref ddb_key (dd_refs ext' (set (dd_dirty_keys c))) m"
    and e: "\<And>k e'. cm_index m k = Some e' \<Longrightarrow> \<exists>e. dd_ix c k = Some e \<and> ddb_state e' = ddb_state e" and n: "card (dom (cm_index m)) \<le> n"
  shows "dd_inv ext' (c\<lparr>dd_mgr := m, dd_cur := n\<rparr>)"
proof -
  note I = dd_invD [OF inv]
  have "ddb_state e' = Dd_dirty \<longleftrightarrow> k \<in> set (dd_dirty_keys c)" if "cm_index m k = Some e'" for k e'
    using e [OF that] I(5) by metis
  then show ?thesis using I(2-4) m n by (simp add: dd_inv_def)
qed

lemma dd_refs_upd: "(dd_refs ext D)(k := n + of_bool (k \<in> D)) = dd_refs (ext(k := n)) D"
  by (auto simp: dd_refs_def fun_eq_iff)

lemma dd_addref_ok:
  assumes inv: "dd_inv ext c" and k: "dd_ix c k = Some e" and room: "ext k + 2 < 2 ^ 32"
  shows "\<exists>c'. dd_add_refcount k c = (Inr (), c') \<and> dd_inv (ext(k := Suc (ext k))) c' \<and>
    dd_ix c' = (dd_ix c)(k \<mapsto> e\<lparr>ddb_ref := ddb_ref e + 1\<rparr>) \<and> c' = c\<lparr>dd_mgr := dd_mgr c'\<rparr>"
proof -
  let ?R = "dd_refs ext (set (dd_dirty_keys c))"
  have R: "?R(k := Suc (?R k)) = dd_refs (ext(k := Suc (ext k))) (set (dd_dirty_keys c))"
    by (auto simp: dd_refs_def fun_eq_iff)
  have "Suc (?R k) < 2 ^ 32" using room by (simp add: dd_refs_def)
  from dd.rc_addref_ok [OF dd_invD(1) [OF inv] k this] obtain m where
    m: "rc_addref ddb_ref ddb_ref_update ddb_key k (dd_mgr c) = Inr m" "rc_inv ddb_ref ddb_key (dd_refs (ext(k := Suc (ext k))) (set (dd_dirty_keys c))) m"
      "cm_index m = (dd_ix c)(k \<mapsto> ddb_ref_update (\<lambda>r. r + 1) e)"
    unfolding R by blast
  have "dd_inv (ext(k := Suc (ext k))) (c\<lparr>dd_mgr := m, dd_cur := dd_cur c\<rparr>)"
    using dd_invD(6) [OF inv] k m(3) by (intro dd_inv_index [OF inv m(2)]) (auto simp: insert_absorb domI split: if_splits)
  then show ?thesis using m by (auto simp: dd_add_refcount_def dd_on_mgr_def)
qed

lemma dd_subref_ok:
  assumes inv: "dd_inv ext c" and k: "ext k \<noteq> 0"
  shows "\<exists>c' e. dd_sub_refcount k c = (Inr (), c') \<and> dd_inv (ext(k := ext k - 1)) c' \<and> dd_ix c k = Some e \<and>
    dd_ix c' = (dd_ix c)(k \<mapsto> e\<lparr>ddb_ref := ddb_ref e - 1\<rparr>) \<and> c' = c\<lparr>dd_mgr := dd_mgr c'\<rparr>"
proof -
  let ?R = "dd_refs ext (set (dd_dirty_keys c))"
  have R: "?R(k := ?R k - 1) = dd_refs (ext(k := ext k - 1)) (set (dd_dirty_keys c))"
    using k by (auto simp: dd_refs_def fun_eq_iff)
  obtain e where e: "dd_ix c k = Some e" using dd_inv_cached [OF inv] k by blast
  have "?R k \<noteq> 0" using k by (simp add: dd_refs_def)
  from dd.rc_subref_ok [OF dd_invD(1) [OF inv] this e] obtain m where
    m: "rc_subref ddb_ref ddb_ref_update ddb_key k (dd_mgr c) = Inr m" "rc_inv ddb_ref ddb_key (dd_refs (ext(k := ext k - 1)) (set (dd_dirty_keys c))) m"
      "cm_index m = (dd_ix c)(k \<mapsto> ddb_ref_update (\<lambda>r. r - 1) e)"
    unfolding R by blast
  have "dd_inv (ext(k := ext k - 1)) (c\<lparr>dd_mgr := m, dd_cur := dd_cur c\<rparr>)"
    using dd_invD(6) [OF inv] e m(3) by (intro dd_inv_index [OF inv m(2)]) (auto simp: insert_absorb domI split: if_splits)
  then show ?thesis using m e by (auto simp: dd_sub_refcount_def dd_on_mgr_def)
qed

lemma dd_content_upd:
  "dd_ix c k = Some e \<Longrightarrow> dd_ix c' = (dd_ix c)(k \<mapsto> e\<lparr>ddb_ref := r\<rparr>) \<Longrightarrow> dd_content c' = dd_content c"
  by (auto simp: dd_content_def fun_eq_iff)

lemma dd_handle_dtor_ok:
  assumes inv: "dd_inv ext c" and k: "ext k \<noteq> 0"
  shows "\<exists>c'. dd_handle_dtor (Some k) c = (Inr (), c') \<and> dd_inv (ext(k := ext k - 1)) c' \<and>
    dd_content c' = dd_content c \<and> dd_dirty c' = dd_dirty c \<and> dom (dd_ix c') = dom (dd_ix c)"
proof -
  obtain c' e where c': "dd_sub_refcount k c = (Inr (), c')" "dd_inv (ext(k := ext k - 1)) c'" "dd_ix c k = Some e"
      "dd_ix c' = (dd_ix c)(k \<mapsto> e\<lparr>ddb_ref := ddb_ref e - 1\<rparr>)" "c' = c\<lparr>dd_mgr := dd_mgr c'\<rparr>"
    using dd_subref_ok [OF inv k] by blast
  have "dd_dirty c' = dd_dirty c" by (subst c'(5)) simp
  moreover have "dom (dd_ix c') = dom (dd_ix c)" using c'(3,4) by (auto simp: domIff)
  ultimately show ?thesis using c' dd_content_upd [OF c'(3,4)] by (simp add: dd_handle_dtor_def catch_all_def)
qed

lemma dd_get_raw_ok:
  assumes inv: "dd_inv ext c"
  shows "\<exists>c'. dd_get_raw k c = (Inr (dd_ix c k), c') \<and> dd_inv ext c' \<and> dd_ix c' = dd_ix c \<and> c' = c\<lparr>dd_mgr := dd_mgr c'\<rparr>"
proof -
  obtain m where m: "cm_get k True (dd_mgr c) = Inr (dd_ix c k, m)" "rc_inv ddb_ref ddb_key (dd_refs ext (set (dd_dirty_keys c))) m"
      "cm_index m = dd_ix c"
    using dd.rc_lookup_ok [OF dd_invD(1) [OF inv]] by blast
  have "dd_inv ext (c\<lparr>dd_mgr := m, dd_cur := dd_cur c\<rparr>)"
    using dd_invD(6) [OF inv] m(3) by (intro dd_inv_index [OF inv m(2)]) auto
  then show ?thesis using m by (auto simp: dd_get_raw_def)
qed

lemma dd_get_ok:
  assumes inv: "dd_inv ext c" and room: "ext (Dd_key ino b) + 2 < 2 ^ 32"
  shows "\<exists>c'. dd_get ino b c = (Inr (map_option (\<lambda>_. Dd_key ino b) (dd_content c (Dd_key ino b))), c') \<and>
    dd_inv (ext(Dd_key ino b := ext (Dd_key ino b) + of_bool (dd_content c (Dd_key ino b) \<noteq> None))) c' \<and> dd_content c' = dd_content c \<and> dd_dirty c' = dd_dirty c"
proof -
  obtain c1 where c1: "dd_get_raw (Dd_key ino b) c = (Inr (dd_ix c (Dd_key ino b)), c1)" "dd_inv ext c1" "dd_ix c1 = dd_ix c" "c1 = c\<lparr>dd_mgr := dd_mgr c1\<rparr>"
    using dd_get_raw_ok [OF inv] by blast
  have d1: "dd_dirty c1 = dd_dirty c" by (subst c1(4)) simp
  have t1: "dd_content c1 = dd_content c" using c1(3) by (simp add: dd_content_def fun_eq_iff)
  show ?thesis
  proof (cases "dd_ix c (Dd_key ino b)")
    case None
    then show ?thesis using c1 d1 t1 by (auto simp: dd_get_def prog_simps dd_content_def)
  next
    case (Some e)
    then have e: "dd_ix c1 (Dd_key ino b) = Some e" using c1(3) by simp
    obtain c2 where c2: "dd_add_refcount (Dd_key ino b) c1 = (Inr (), c2)" "dd_inv (ext(Dd_key ino b := Suc (ext (Dd_key ino b)))) c2"
        "dd_ix c2 = (dd_ix c1)(Dd_key ino b \<mapsto> e\<lparr>ddb_ref := ddb_ref e + 1\<rparr>)" "c2 = c1\<lparr>dd_mgr := dd_mgr c2\<rparr>"
      using dd_addref_ok [OF c1(2) e room] by blast
    have "dd_dirty c2 = dd_dirty c1" by (subst c2(4)) simp
    moreover have "dd_content c2 = dd_content c1" by (rule dd_content_upd [OF e c2(3)])
    ultimately show ?thesis using c1(1) c2(1,2) d1 t1 Some by (simp add: dd_get_def prog_simps dd_content_def)
  qed
qed


lemma dd_do_replace_ok:
  assumes inv: "dd_inv ext c"
  shows "\<exists>c' K. dd_do_replace c = (Inr (), c') \<and> dd_inv ext c' \<and> dd_ix c' = dd_ix c |` (- K) \<and> dd_dirty c' = dd_dirty c \<and>
    (\<forall>k \<in> K. ext k = 0 \<and> k \<notin> set (dd_dirty_keys c))"
proof (cases "dd_cur c > dd_expect c")
  case False
  then show ?thesis using inv by (intro exI [of _ c] exI [of _ "{}"]) (simp add: dd_do_replace_def restrict_map_def)
next
  case True
  note I = dd_invD [OF inv]
  from dd.rc_evict_ok [OF I(1) True] obtain m n K where
    m: "cm_evict (\<lambda>e. ddb_ref e = 0) (dd_expect c) (dd_cur c) (dd_mgr c) = Inr (dd_cur c - n, m)"
      "rc_inv ddb_ref ddb_key (dd_refs ext (set (dd_dirty_keys c))) m" "cm_index m = dd_ix c |` (- K)"
      "\<forall>k \<in> K. dd_refs ext (set (dd_dirty_keys c)) k = 0" "K \<subseteq> dom (dd_ix c)" "card K = n"
    by blast
  have fin: "finite (dom (dd_ix c))" using cm_invD [OF rc_invD(1) [OF I(1)]] by auto
  have "dom (cm_index m) = dom (dd_ix c) - K" using m(3) by auto
  then have "card (dom (cm_index m)) \<le> dd_cur c - n"
    using I(6) m(5,6) fin by (simp add: card_Diff_subset finite_subset)
  then have "dd_inv ext (c\<lparr>dd_mgr := m, dd_cur := dd_cur c - n\<rparr>)"
    using m(3) by (intro dd_inv_index [OF inv m(2)]) (auto simp: restrict_map_def split: if_splits)
  moreover have "\<forall>k \<in> K. ext k = 0 \<and> k \<notin> set (dd_dirty_keys c)" using m(4) by (auto simp: dd_refs_def)
  ultimately show ?thesis using True m(1,3) by (auto simp: dd_do_replace_def)
qed

text \<open>The new block is returned with one reference; blocks in use and dirty blocks stay.\<close>

lemma dd_add_ok:
  assumes inv: "dd_inv ext c" and k: "dd_content c (Dd_key ino b) = None"
  shows "\<exists>c'. dd_add ino b lpa blk c = (Inr (Dd_key ino b), c') \<and> dd_inv (ext(Dd_key ino b := 1)) c' \<and>
    dd_content c' (Dd_key ino b) = Some (lpa, blk) \<and> dd_dirty c' = dd_dirty c \<and>
    (\<forall>k. dd_content c' k \<noteq> None \<longrightarrow> k \<noteq> Dd_key ino b \<longrightarrow> dd_content c' k = dd_content c k) \<and>
    (\<forall>k. ext k \<noteq> 0 \<or> k \<in> set (dd_dirty_keys c) \<longrightarrow> dd_content c' k = dd_content c k)"
proof -
  let ?k = "Dd_key ino b" and ?e = "dir_data_block_entry_init ino b lpa blk"
  have n: "dd_ix c ?k = None" using k by (simp add: dd_content_def)
  have z: "ext ?k = 0" "?k \<notin> set (dd_dirty_keys c)" using dd_inv_cached [OF inv, of ?k] n by (metis option.distinct(1))+
  obtain c1 where c1: "dd_get_raw ?k c = (Inr None, c1)" "dd_inv ext c1" "dd_ix c1 = dd_ix c" "c1 = c\<lparr>dd_mgr := dd_mgr c1\<rparr>"
    using dd_get_raw_ok [OF inv, of ?k] n by auto
  note I = dd_invD [OF c1(2)]
  have d1: "dd_dirty c1 = dd_dirty c" "dd_dirty_keys c1 = dd_dirty_keys c" by (subst c1(4); simp)+
  obtain m where m: "cm_add ?k ?e (dd_mgr c1) = Inr m" "rc_inv ddb_ref ddb_key (dd_refs ext (set (dd_dirty_keys c1))) m" "cm_index m = (dd_ix c1)(?k \<mapsto> ?e)"
    using dd.rc_insert_ok [OF I(1), of ?k ?e] n c1(3) by (auto simp: dir_data_block_entry_init_def)
  let ?c = "c1\<lparr>dd_mgr := m, dd_cur := Suc (dd_cur c1)\<rparr>"
  have fin: "finite (dom (dd_ix c1))" using cm_invD [OF rc_invD(1) [OF I(1)]] by auto
  have "card (dom (cm_index m)) \<le> Suc (dd_cur c1)" using I(6) fin n c1(3) by (simp add: m(3) domIff)
  moreover have "ddb_state e = Dd_dirty \<longleftrightarrow> j \<in> set (dd_dirty_keys c1)" if "cm_index m j = Some e" for j e
  proof (cases "j = ?k")
    case True
    then show ?thesis using that z(2) d1 by (auto simp: m(3) dir_data_block_entry_init_def)
  next
    case False
    then show ?thesis using that I(5) by (simp add: m(3))
  qed
  ultimately have inv2: "dd_inv ext ?c" using I(2-4) m(2) by (simp add: dd_inv_def)
  obtain c3 where c3: "dd_add_refcount ?k ?c = (Inr (), c3)" "dd_inv (ext(?k := 1)) c3"
      "dd_ix c3 = (dd_ix ?c)(?k \<mapsto> ?e\<lparr>ddb_ref := ddb_ref ?e + 1\<rparr>)" "c3 = ?c\<lparr>dd_mgr := dd_mgr c3\<rparr>"
    using dd_addref_ok [OF inv2, of ?k ?e] m(3) z by auto
  have d3: "dd_dirty c3 = dd_dirty c" "dd_dirty_keys c3 = dd_dirty_keys c" using d1 by (subst c3(4); simp)+
  obtain c4 K where c4: "dd_do_replace c3 = (Inr (), c4)" "dd_inv (ext(?k := 1)) c4" "dd_ix c4 = dd_ix c3 |` (- K)" "dd_dirty c4 = dd_dirty c3"
      "\<forall>k \<in> K. (ext(?k := 1)) k = 0 \<and> k \<notin> set (dd_dirty_keys c3)"
    using dd_do_replace_ok [OF c3(2)] by blast
  have run: "dd_add ino b lpa blk c = (Inr ?k, c4)"
    using c1(1) m(1) c3(1) c4(1) by (simp add: dd_add_def prog_simps dd_on_mgr_def)
  have K: "?k \<notin> K" using c4(5) by fastforce
  have t: "dd_content c4 j = (if j = ?k then Some (lpa, blk) else if j \<in> K then None else dd_content c j)" for j
    using K c1(3) by (auto simp: dd_content_def c4(3) c3(3) m(3) restrict_map_def dir_data_block_entry_init_def)
  have "dd_content c4 j = dd_content c j" if "ext j \<noteq> 0 \<or> j \<in> set (dd_dirty_keys c)" for j
    using that c4(5) z d3(2) t [of j] by (metis (mono_tags, lifting) fun_upd_other)
  then show ?thesis using run c4(2,4) d3(1) t by auto
qed


section \<open>Dirty blocks\<close>

lemma dirty_push_keys:
  "set (concat (map snd (dirty_push i k d))) = insert k (set (concat (map snd d)))"
  "set (map fst (dirty_push i k d)) = insert i (set (map fst d))"
  by (induction i k d rule: dirty_push.induct) auto

lemma dirty_push_distinct:
  "distinct (map fst d) \<Longrightarrow> distinct (map fst (dirty_push i k d))"
  "distinct (concat (map snd d)) \<Longrightarrow> k \<notin> set (concat (map snd d)) \<Longrightarrow> distinct (concat (map snd (dirty_push i k d)))"
proof (induction i k d rule: dirty_push.induct)
  case (2 ino k i ks d)
  {
    case 1
    then show ?case using 2 dirty_push_keys(2) [of ino k d] by auto
  next
    case 2
    then show ?case using "2.IH"(2) dirty_push_keys(1) [of ino k d] by auto
  }
qed auto

lemma dirty_push_owner:
  "\<forall>x \<in> set d. \<forall>j \<in> set (snd x). key_ino j = fst x \<Longrightarrow> key_ino k = i \<Longrightarrow> \<forall>x \<in> set (dirty_push i k d). \<forall>j \<in> set (snd x). key_ino j = fst x"
  by (induction i k d rule: dirty_push.induct) auto

text \<open>
  Marking a block that a handle refers to: it is in the dirty list of its directory, once, and
  keeps its content.
\<close>

lemma dd_mark_dirty_ok:
  assumes inv: "dd_inv ext c" and k: "ext k \<noteq> 0" and room: "ext k + 2 < 2 ^ 32"
  shows "\<exists>c'. dd_mark_dirty k c = (Inr (), c') \<and> dd_inv ext c' \<and> dd_content c' = dd_content c \<and>
    dd_dirty c' = (if k \<in> set (dd_dirty_keys c) then dd_dirty c else dirty_push (key_ino k) k (dd_dirty c))"
proof -
  note I = dd_invD [OF inv]
  let ?D = "set (dd_dirty_keys c)"
  obtain e where e: "dd_ix c k = Some e" using dd_inv_cached [OF inv] k by blast
  have ke: "ddb_key e = k" using rc_invD(3) [OF I(1) e] .
  show ?thesis
  proof (cases "k \<in> ?D")
    case True
    then show ?thesis using I(5) [OF e] inv e by (simp add: dd_mark_dirty_def prog_simps dd_entry_def)
  next
    case False
    let ?m = "cm_update k (\<lambda>e. e\<lparr>ddb_state := Dd_dirty\<rparr>) (dd_mgr c)"
    have m: "rc_inv ddb_ref ddb_key (dd_refs ext ?D) ?m" by (rule dd.rc_write_ok [OF I(1)]) simp_all
    have e2: "cm_index ?m k = Some (e\<lparr>ddb_state := Dd_dirty\<rparr>)" using e by simp
    have R: "(dd_refs ext ?D)(k := Suc (dd_refs ext ?D k)) = dd_refs ext (insert k ?D)"
      using False by (auto simp: dd_refs_def fun_eq_iff)
    have "Suc (dd_refs ext ?D k) < 2 ^ 32" using room by (simp add: dd_refs_def)
    from dd.rc_addref_ok [OF m e2 this] obtain m' where
      m': "rc_addref ddb_ref ddb_ref_update ddb_key k ?m = Inr m'" "rc_inv ddb_ref ddb_key (dd_refs ext (insert k ?D)) m'"
        "cm_index m' = (cm_index ?m)(k \<mapsto> ddb_ref_update (\<lambda>r. r + 1) (e\<lparr>ddb_state := Dd_dirty\<rparr>))"
      unfolding R by blast
    let ?c = "c\<lparr>dd_mgr := m', dd_dirty := dirty_push (key_ino k) k (dd_dirty c)\<rparr>"
    have run: "dd_mark_dirty k c = (Inr (), ?c)"
      using False I(5) [OF e] e m'(1) ke
      by (simp add: dd_mark_dirty_def prog_simps dd_entry_def dd_write_def dd_add_refcount_def dd_on_mgr_def)
    have D: "set (dd_dirty_keys ?c) = insert k ?D" using dirty_push_keys(1) [of "key_ino k" k "dd_dirty c"] by (simp add: dd_dirty_keys_def)
    have "ddb_state e' = Dd_dirty \<longleftrightarrow> j \<in> insert k ?D" if "dd_ix ?c j = Some e'" for j e'
      using that I(5) [of j] by (auto simp: m'(3) split: if_splits)
    moreover have "dom (dd_ix ?c) = dom (dd_ix c)" using e by (auto simp: m'(3))
    moreover have "distinct (dd_dirty_keys ?c)" using I(3) False dirty_push_distinct(2) by (simp add: dd_dirty_keys_def)
    moreover have "distinct (map fst (dd_dirty ?c))" using dirty_push_distinct(1) [OF I(2)] by simp
    moreover have "\<forall>x \<in> set (dd_dirty ?c). \<forall>j \<in> set (snd x). key_ino j = fst x" using dirty_push_owner [OF I(4) refl] by simp
    moreover have "rc_inv ddb_ref ddb_key (dd_refs ext (insert k ?D)) (dd_mgr ?c)" using m'(2) by simp
    moreover have "dd_cur ?c = dd_cur c" by simp
    ultimately have "dd_inv ext ?c"
      unfolding dd_inv_def D using I(6) by presburger
    moreover have "dd_content ?c = dd_content c" using e by (auto simp: dd_content_def m'(3) fun_eq_iff)
    ultimately show ?thesis using run False by auto
  qed
qed

text \<open>Entries that agree in key, address, block and state.\<close>

definition dd_like :: "('k \<rightharpoonup> dir_data_block_entry) \<Rightarrow> ('k \<rightharpoonup> dir_data_block_entry) \<Rightarrow> bool" where
  "dd_like m m' \<longleftrightarrow> (\<forall>k. map_option (ddb_ref_update (\<lambda>_. 0)) (m k) = map_option (ddb_ref_update (\<lambda>_. 0)) (m' k))"

lemma dd_clean_ok:
  assumes "rc_inv ddb_ref ddb_key R (dd_mgr c)" "distinct ks" "\<forall>k \<in> set ks. R k \<noteq> 0 \<and> map_option ddb_state (dd_ix c k) = Some Dd_dirty"
  shows "\<exists>m. dd_clean ks c = (Inr (), c\<lparr>dd_mgr := m\<rparr>) \<and> rc_inv ddb_ref ddb_key R m \<and>
    (\<forall>j. cm_index m j = (if j \<in> set ks then map_option (ddb_state_update (\<lambda>_. Dd_uptodate)) (dd_ix c j) else dd_ix c j))"
  using assms
proof (induction ks arbitrary: c)
  case Nil
  then show ?case by (intro exI [of _ "dd_mgr c"]) (simp add: prog_simps)
next
  case (Cons k ks)
  obtain e where e: "dd_ix c k = Some e" "ddb_state e = Dd_dirty" using Cons.prems(3) by auto
  have "unat (ddb_ref e) \<noteq> 0" using rc_invD(4) [OF Cons.prems(1) e(1)] Cons.prems(3) by simp
  then have r: "1 \<le> ddb_ref e" by (metis unat_gt_0 word_neq_0_conv gr0I inc_le add_0)
  let ?m = "cm_update k (\<lambda>e. e\<lparr>ddb_state := Dd_uptodate\<rparr>) (dd_mgr c)"
  have "rc_inv ddb_ref ddb_key R ?m" by (rule dd.rc_write_ok [OF Cons.prems(1)]) simp_all
  then obtain m where m: "dd_clean ks (c\<lparr>dd_mgr := ?m\<rparr>) = (Inr (), c\<lparr>dd_mgr := m\<rparr>)" "rc_inv ddb_ref ddb_key R m"
      "\<forall>j. cm_index m j = (if j \<in> set ks then map_option (ddb_state_update (\<lambda>_. Dd_uptodate)) (cm_index ?m j) else cm_index ?m j)"
    using Cons.IH [of "c\<lparr>dd_mgr := ?m\<rparr>"] Cons.prems(2,3) by fastforce
  have "cm_index m j = (if j \<in> set (k # ks) then map_option (ddb_state_update (\<lambda>_. Dd_uptodate)) (dd_ix c j) else dd_ix c j)" for j
    using m(3) Cons.prems(2) by auto
  moreover have "dd_clean (k # ks) c = (Inr (), c\<lparr>dd_mgr := m\<rparr>)"
    using e r m(1) by (simp add: prog_simps dd_entry_def dd_write_def)
  ultimately show ?case using m(2) by blast
qed

text \<open>The dirty list goes to the caller as handles, and no block is dirty afterwards.\<close>

lemma get_and_clear_dirty_blks_ok:
  assumes inv: "dd_inv ext c"
  shows "\<exists>c'. get_and_clear_dirty_blks c = (Inr (dd_dirty c), c') \<and> dd_inv (dd_refs ext (set (dd_dirty_keys c))) c' \<and>
    dd_dirty c' = [] \<and> dd_content c' = dd_content c"
proof -
  note I = dd_invD [OF inv]
  let ?D = "set (dd_dirty_keys c)"
  have "map_option ddb_state (dd_ix c k) = Some Dd_dirty" if "k \<in> ?D" for k
    using dd_inv_cached [OF inv] I(5) that by force
  then have "\<forall>k \<in> ?D. dd_refs ext ?D k \<noteq> 0 \<and> map_option ddb_state (dd_ix c k) = Some Dd_dirty"
    by (simp add: dd_refs_def)
  from dd_clean_ok [OF I(1,3) this] obtain m where
    m: "dd_clean (dd_dirty_keys c) c = (Inr (), c\<lparr>dd_mgr := m\<rparr>)" "rc_inv ddb_ref ddb_key (dd_refs ext ?D) m"
      "\<forall>j. cm_index m j = (if j \<in> ?D then map_option (ddb_state_update (\<lambda>_. Dd_uptodate)) (dd_ix c j) else dd_ix c j)"
    by blast
  let ?c = "c\<lparr>dd_mgr := m, dd_dirty := []\<rparr>"
  have run: "get_and_clear_dirty_blks c = (Inr (dd_dirty c), ?c)"
    using m(1) by (simp add: get_and_clear_dirty_blks_def prog_simps dd_dirty_keys_def)
  have "ddb_state e \<noteq> Dd_dirty" if "cm_index m j = Some e" for j e
    using that m(3) I(5) [of j] by (auto split: if_splits)
  moreover have "dom (cm_index m) = dom (dd_ix c)" using m(3) by (intro set_eqI) (simp add: domIff)
  moreover have "dd_refs (dd_refs ext ?D) {} = dd_refs ext ?D" by (simp add: dd_refs_def fun_eq_iff)
  ultimately have "dd_inv (dd_refs ext ?D) ?c" using I(6) m(2) by (simp add: dd_inv_def dd_dirty_keys_def)
  moreover have "dd_content ?c = dd_content c" using m(3) by (auto simp: dd_content_def fun_eq_iff option.map_comp o_def)
  ultimately show ?thesis using run by auto
qed


section \<open>Removing a directory\<close>

lemma dd_release_all_ok:
  assumes "rc_inv ddb_ref ddb_key R (dd_mgr c)" "distinct ks" "\<forall>k \<in> set ks. R k \<noteq> 0"
  shows "\<exists>m. dd_release_all ks c = (Inr (), c\<lparr>dd_mgr := m\<rparr>) \<and> rc_inv ddb_ref ddb_key (\<lambda>j. R j - of_bool (j \<in> set ks)) m \<and>
    dd_like (cm_index m) (dd_ix c)"
  using assms
proof (induction ks arbitrary: c R)
  case Nil
  then show ?case by (intro exI [of _ "dd_mgr c"]) (simp add: prog_simps dd_like_def)
next
  case (Cons k ks)
  obtain e where e: "dd_ix c k = Some e" using rc_invD(2) [OF Cons.prems(1), of k] Cons.prems(3) by auto
  obtain m1 where m1: "rc_subref ddb_ref ddb_ref_update ddb_key k (dd_mgr c) = Inr m1" "rc_inv ddb_ref ddb_key (R(k := R k - 1)) m1"
      "cm_index m1 = (dd_ix c)(k \<mapsto> ddb_ref_update (\<lambda>r. r - 1) e)"
    using dd.rc_subref_ok [OF Cons.prems(1) _ e] Cons.prems(3) by auto
  have "\<forall>j \<in> set ks. (R(k := R k - 1)) j \<noteq> 0" using Cons.prems(2,3) by auto
  from Cons.IH [of "R(k := R k - 1)" "c\<lparr>dd_mgr := m1\<rparr>", OF _ _ this] obtain m where
    m: "dd_release_all ks (c\<lparr>dd_mgr := m1\<rparr>) = (Inr (), c\<lparr>dd_mgr := m\<rparr>)"
      "rc_inv ddb_ref ddb_key (\<lambda>j. (R(k := R k - 1)) j - of_bool (j \<in> set ks)) m" "dd_like (cm_index m) (cm_index m1)"
    using m1(2) Cons.prems(2) by (auto simp del: fun_upd_apply)
  have "(\<lambda>j. (R(k := R k - 1)) j - of_bool (j \<in> set ks)) = (\<lambda>j. R j - of_bool (j \<in> set (k # ks)))"
    using Cons.prems(2) by (auto simp: fun_eq_iff)
  moreover have "dd_like (cm_index m) (dd_ix c)" using m(3) m1(3) e by (auto simp: dd_like_def)
  moreover have "dd_release_all (k # ks) c = (Inr (), c\<lparr>dd_mgr := m\<rparr>)"
    using m1(1) m(1) by (simp add: prog_simps dd_handle_dtor_def dd_sub_refcount_def dd_on_mgr_def)
  ultimately show ?case using m(2) by auto
qed

lemma dd_erase_all_ok:
  assumes "rc_inv ddb_ref ddb_key R (dd_mgr c)" "distinct ks" "set ks \<subseteq> dom (dd_ix c)"
  shows "\<exists>m. dd_erase_all ks c = (Inr (), c\<lparr>dd_mgr := m\<rparr>) \<and> rc_inv ddb_ref ddb_key (\<lambda>j. if j \<in> set ks then 0 else R j) m \<and>
    cm_index m = dd_ix c |` (- set ks)"
  using assms
proof (induction ks arbitrary: c R)
  case Nil
  then show ?case by (intro exI [of _ "dd_mgr c"]) (simp add: prog_simps restrict_map_def)
next
  case (Cons k ks)
  obtain m1 where m1: "cm_remove k (dd_mgr c) = Inr m1" "rc_inv ddb_ref ddb_key (R(k := 0)) m1" "cm_index m1 = (dd_ix c)(k := None)"
    using dd.rc_remove_ok [OF Cons.prems(1), of k] Cons.prems(3) by auto
  have "set ks \<subseteq> dom (cm_index m1)" using Cons.prems(2,3) m1(3) by auto
  then obtain m where m: "dd_erase_all ks (c\<lparr>dd_mgr := m1\<rparr>) = (Inr (), c\<lparr>dd_mgr := m\<rparr>)"
      "rc_inv ddb_ref ddb_key (\<lambda>j. if j \<in> set ks then 0 else (R(k := 0)) j) m" "cm_index m = cm_index m1 |` (- set ks)"
    using Cons.IH [of "R(k := 0)" "c\<lparr>dd_mgr := m1\<rparr>"] m1(2) Cons.prems(2) by (auto simp del: fun_upd_apply)
  have "(\<lambda>j. if j \<in> set ks then 0 else (R(k := 0)) j) = (\<lambda>j. if j \<in> set (k # ks) then 0 else R j)"
    by (auto simp: fun_eq_iff)
  moreover have "cm_index m = dd_ix c |` (- set (k # ks))" using m(3) m1(3) by (auto simp: restrict_map_def fun_eq_iff)
  moreover have "dd_erase_all (k # ks) c = (Inr (), c\<lparr>dd_mgr := m\<rparr>)"
    using m1(1) m(1) by (simp add: prog_simps dd_on_mgr_def)
  ultimately show ?case using m(2) by auto
qed

lemma cm_keys_ok: "cm_inv m \<Longrightarrow> set (cm_keys m) = dom (cm_index m) \<and> distinct (cm_keys m)"
  using cm_invD(1,2) [of m] by (auto simp: cm_keys_def lru_inv_def nodes_ok_def lru_cands_def lru_pins_def)

lemma dd_like_dom: "dd_like m m' \<Longrightarrow> dom m = dom m'"
  by (intro set_eqI) (metis (mono_tags) dd_like_def domIff option.map_disc_iff)

lemma dd_like_entry:
  assumes "dd_like m m'" and "m k = Some e"
  shows "\<exists>e'. m' k = Some e' \<and> ddb_state e = ddb_state e' \<and> ddb_lpa e = ddb_lpa e' \<and> ddb_block e = ddb_block e'"
proof -
  have "map_option (ddb_ref_update (\<lambda>_. 0)) (m' k) = Some (ddb_ref_update (\<lambda>_. 0) e)"
    using assms unfolding dd_like_def by (metis option.simps(9))
  then obtain e' where "m' k = Some e'" "e'\<lparr>ddb_ref := 0\<rparr> = e\<lparr>ddb_ref := 0\<rparr>" by auto
  then show ?thesis by (metis dir_data_block_entry.select_convs dir_data_block_entry.surjective dir_data_block_entry.update_convs(5))
qed

lemma distinct_concat_filter: "distinct (concat (map snd d)) \<Longrightarrow> distinct (concat (map snd (filter P d)))"
  by (induction d) auto

lemma dirty_of_ino:
  assumes own: "\<forall>x \<in> set d. \<forall>k \<in> set (snd x). key_ino k = fst x" and u: "distinct (map fst d)"
  shows "set (case map_of d ino of None \<Rightarrow> [] | Some ks \<Rightarrow> ks) = {k \<in> set (concat (map snd d)). key_ino k = ino}"
    "set (concat (map snd (filter (\<lambda>x. fst x \<noteq> ino) d))) = {k \<in> set (concat (map snd d)). key_ino k \<noteq> ino}"
proof -
  show "set (case map_of d ino of None \<Rightarrow> [] | Some ks \<Rightarrow> ks) = {k \<in> set (concat (map snd d)). key_ino k = ino}"
  proof (cases "map_of d ino")
    case None
    then have "ino \<notin> fst ` set d" by (simp add: map_of_eq_None_iff)
    then show ?thesis using None own by force
  next
    case (Some ks)
    then have ks: "(ino, ks) \<in> set d" by (rule map_of_SomeD)
    have "snd x = ks" if "x \<in> set d" "fst x = ino" for x
      using that ks u by (metis eq_key_imp_eq_value prod.collapse)
    then have "k \<in> set ks" if "k \<in> set (concat (map snd d))" "key_ino k = ino" for k using that own by fastforce
    moreover have "key_ino k = ino" "k \<in> set (concat (map snd d))" if "k \<in> set ks" for k
      using that ks own [rule_format, OF ks, of k] by (auto intro!: bexI [of _ "(ino, ks)"])
    ultimately have "set ks = {k \<in> set (concat (map snd d)). key_ino k = ino}" by blast
    then show ?thesis using Some by simp
  qed
  show "set (concat (map snd (filter (\<lambda>x. fst x \<noteq> ino) d))) = {k \<in> set (concat (map snd d)). key_ino k \<noteq> ino}"
    using own by (induction d) auto
qed

text \<open>
  No handle refers to a block of the directory: afterwards none of its blocks is cached or dirty,
  and the other directories are as before. The count of cached blocks is not lowered.
\<close>

lemma remove_ino_blks_ok:
  assumes inv: "dd_inv ext c" and free: "\<And>k. key_ino k = ino \<Longrightarrow> ext k = 0"
  shows "\<exists>c'. remove_ino_blks ino c = (Inr (), c') \<and> dd_inv ext c' \<and> dd_cur c' = dd_cur c \<and>
    (\<forall>k. dd_content c' k = (if key_ino k = ino then None else dd_content c k)) \<and> dd_dirty c' = filter (\<lambda>x. fst x \<noteq> ino) (dd_dirty c)"
proof -
  note I = dd_invD [OF inv]
  let ?D = "set (dd_dirty_keys c)" and ?d = "filter (\<lambda>x. fst x \<noteq> ino) (dd_dirty c)"
  let ?ks = "case map_of (dd_dirty c) ino of None \<Rightarrow> [] | Some ks \<Rightarrow> ks"
  note K = dirty_of_ino [OF I(4,2), of ino, folded dd_dirty_keys_def]
  let ?c = "c\<lparr>dd_dirty := ?d\<rparr>"
  have ids: "?d = dd_dirty c" if "map_of (dd_dirty c) ino = None"
    using that by (auto simp: filter_id_conv map_of_eq_None_iff)
  have "distinct ?ks"
    using I(3) by (force simp: dd_dirty_keys_def distinct_concat_iff split: option.splits dest: map_of_SomeD)
  moreover have "rc_inv ddb_ref ddb_key (dd_refs ext ?D) (dd_mgr ?c)" using I(1) by simp
  moreover have "\<forall>k \<in> set ?ks. dd_refs ext ?D k \<noteq> 0" unfolding K(1) by (simp add: dd_refs_def)
  ultimately obtain m1 where m1: "dd_release_all ?ks ?c = (Inr (), ?c\<lparr>dd_mgr := m1\<rparr>)"
      "rc_inv ddb_ref ddb_key (\<lambda>j. dd_refs ext ?D j - of_bool (j \<in> set ?ks)) m1" "dd_like (cm_index m1) (dd_ix ?c)"
    using dd_release_all_ok [of "dd_refs ext ?D" ?c ?ks] by blast
  have R: "(\<lambda>j. dd_refs ext ?D j - of_bool (j \<in> set ?ks)) = dd_refs ext {k \<in> ?D. key_ino k \<noteq> ino}"
    unfolding K(1) by (auto simp: dd_refs_def fun_eq_iff)
  let ?es = "filter (\<lambda>k. key_ino k = ino) (cm_keys m1)"
  note ck = cm_keys_ok [OF rc_invD(1) [OF m1(2)]]
  have e0: "distinct ?es" "set ?es \<subseteq> dom (dd_ix (?c\<lparr>dd_mgr := m1\<rparr>))" using ck by auto
  obtain m2 where m2: "dd_erase_all ?es (?c\<lparr>dd_mgr := m1\<rparr>) = (Inr (), ?c\<lparr>dd_mgr := m2\<rparr>)"
      "rc_inv ddb_ref ddb_key (\<lambda>j. if j \<in> set ?es then 0 else dd_refs ext {k \<in> ?D. key_ino k \<noteq> ino} j) m2" "cm_index m2 = cm_index m1 |` (- set ?es)"
    using dd_erase_all_ok [OF _ e0] m1(2) unfolding R by fastforce
  have R2: "(\<lambda>j. if j \<in> set ?es then 0 else dd_refs ext {k \<in> ?D. key_ino k \<noteq> ino} j) = dd_refs ext {k \<in> ?D. key_ino k \<noteq> ino}"
    using free by (auto simp: dd_refs_def fun_eq_iff)
  have ix: "cm_index m2 j = (if key_ino j = ino then None else cm_index m1 j)" for j
    using ck by (auto simp: m2(3) restrict_map_def domIff)
  let ?r = "?c\<lparr>dd_mgr := m2\<rparr>"
  have run: "remove_ino_blks ino c = (Inr (), ?r)"
  proof (cases "map_of (dd_dirty c) ino")
    case None
    then have e: "c\<lparr>dd_mgr := m1\<rparr> = c" using m1(1) ids by (simp add: prog_simps)
    then have "dd_mgr c = m1" by (metis dir_cache.select_convs(1) dir_cache.surjective dir_cache.update_convs(1))
    then show ?thesis using None m2(1) ids by (simp add: remove_ino_blks_def prog_simps e)
  next
    case (Some ks)
    then show ?thesis using m1(1) m2(1) by (simp add: remove_ino_blks_def prog_simps)
  qed
  have D: "set (dd_dirty_keys ?r) = {k \<in> ?D. key_ino k \<noteq> ino}" using K(2) by (simp add: dd_dirty_keys_def)
  have like: "\<exists>e'. dd_ix c k = Some e' \<and> ddb_state e = ddb_state e' \<and> ddb_lpa e = ddb_lpa e' \<and> ddb_block e = ddb_block e'"
    if "cm_index m1 k = Some e" for k e using dd_like_entry [OF m1(3) that] by simp
  have "ddb_state e = Dd_dirty \<longleftrightarrow> k \<in> {k \<in> ?D. key_ino k \<noteq> ino}" if "dd_ix ?r k = Some e" for k e
    using that like [of k e] I(5) [of k] by (auto simp: ix split: if_splits)
  moreover have "dom (dd_ix ?r) \<subseteq> dom (dd_ix c)" using dd_like_dom [OF m1(3)] by (auto simp: ix domIff split: if_splits)
  then have "card (dom (dd_ix ?r)) \<le> card (dom (dd_ix c))" by (rule card_mono [OF cm_invD(4) [OF rc_invD(1) [OF I(1)]]])
  then have "card (dom (dd_ix ?r)) \<le> dd_cur ?r" using I(6) by (rule order_trans [THEN order_trans]) simp
  moreover have "distinct (map fst ?d)" by (rule distinct_map_filter [OF I(2)])
  moreover have "distinct (concat (map snd ?d))"
    using I(3) by (simp add: dd_dirty_keys_def distinct_concat_filter)
  moreover have "\<forall>x \<in> set ?d. \<forall>k \<in> set (snd x). key_ino k = fst x" using I(4) by simp
  ultimately have "dd_inv ext ?r" using m2(2) unfolding R2 dd_inv_def D by (simp add: dd_dirty_keys_def)
  moreover have "dd_content ?r k = (if key_ino k = ino then None else dd_content c k)" for k
    using like [of k] dd_like_dom [OF m1(3)] by (cases "cm_index m1 k") (auto simp: dd_content_def ix domIff)
  ultimately show ?thesis using run by auto
qed

text \<open>A write through the pointer of a handle.\<close>

lemma dd_write_block_ok:
  assumes inv: "dd_inv ext c" and g: "\<And>e. ddb_ref (g e) = ddb_ref e \<and> ddb_key (g e) = ddb_key e \<and> ddb_state (g e) = ddb_state e"
    and e: "dd_ix c k = Some e"
  shows "\<exists>c'. dd_write k g c = (Inr (), c') \<and> dd_inv ext c' \<and> dd_ix c' = (dd_ix c)(k \<mapsto> g e) \<and> dd_dirty c' = dd_dirty c"
proof -
  note I = dd_invD [OF inv]
  let ?m = "cm_update k g (dd_mgr c)"
  have "rc_inv ddb_ref ddb_key (dd_refs ext (set (dd_dirty_keys c))) ?m" using g by (intro dd.rc_write_ok [OF I(1)]) auto
  moreover have "card (dom (cm_index ?m)) \<le> dd_cur c" using e I(6) by (simp add: insert_absorb domI)
  ultimately have "dd_inv ext (c\<lparr>dd_mgr := ?m, dd_cur := dd_cur c\<rparr>)" using g e by (intro dd_inv_index [OF inv]) (auto split: if_splits)
  then show ?thesis using e by (auto simp: dd_write_def prog_simps)
qed

end
