(* ===== verification/Directory.thy ===== *)
theory Directory
  imports Dentry_Cache Dir_Cache Block_Lookup
begin

text \<open>
  Directories, \<^verbatim>\<open>src/fs/directory.cc\<close> with \<^verbatim>\<open>dir_data_cache_helper\<close> of
  \<^verbatim>\<open>src/cache/dir_data_block_cache.cc\<close>: looking up, creating, linking and removing an entry of a
  directory, over the node blocks, the directory blocks and the directory entries. A pair that is
  returned takes over the references of the local objects it is built from. The SSD's search and
  the clock are parameters, as before.
\<close>

section \<open>State\<close>

record dirsys =
  ds_fs :: fsys
  ds_dir :: dir_cache
  ds_dentry :: dentry_cache
  ds_dev :: "u32 \<Rightarrow> hscfs_dentry_block option"

definition on_dfs :: "(fsys, 'a) prog \<Rightarrow> (dirsys, 'a) prog" where
  "on_dfs p = (\<lambda>s. case p (ds_fs s) of (r, f) \<Rightarrow> (r, s\<lparr>ds_fs := f\<rparr>))"

definition on_dir :: "(dir_cache, 'a) prog \<Rightarrow> (dirsys, 'a) prog" where
  "on_dir p = (\<lambda>s. case p (ds_dir s) of (r, f) \<Rightarrow> (r, s\<lparr>ds_dir := f\<rparr>))"

definition on_dentry :: "(dentry_cache, 'a) prog \<Rightarrow> (dirsys, 'a) prog" where
  "on_dentry p = (\<lambda>s. case p (ds_dentry s) of (r, f) \<Rightarrow> (r, s\<lparr>ds_dentry := f\<rparr>))"

record dentry_info =
  di_ino :: u32
  di_type :: u8
  di_pos :: dentry_store_pos

definition dentry_info_init :: dentry_info where
  "dentry_info_init = \<lparr>di_ino = INVALID_NID, di_type = HSCFS_FT_UNKNOWN, di_pos = dentry_store_pos_init\<rparr>"

definition inode_of :: "u32 \<Rightarrow> (dirsys, hscfs_node) prog" where
  "inode_of h = on_dfs (bnd (nc_entry h) (\<lambda>e. ret (nb_node e)))"

section \<open>Directory blocks\<close>

text \<open>
  The address information is absent on a hit, where the caller must not use it. When the read
  fails, the handle in it is released.
\<close>

definition addr_release :: "block_addr_info option \<Rightarrow> (dirsys, unit) prog" where
  "addr_release a = on_dfs (nc_handle_dtor (case a of None \<Rightarrow> None | Some x \<Rightarrow> bai_nid_handle x))"

definition read_dir_block :: "u32 \<Rightarrow> (dirsys, hscfs_dentry_block) prog" where
  "read_dir_block lpa = (\<lambda>s. case ds_dev s lpa of None \<Rightarrow> (Inl (Throw Io_error), s) | Some b \<Rightarrow> (Inr b, s))"

definition get_dir_data_block :: "ssd_search \<Rightarrow> nat \<Rightarrow> u32 \<Rightarrow> u32 \<Rightarrow> (dirsys, dd_key option \<times> block_addr_info option) prog" where
  "get_dir_data_block srch fuel dir_ino blkno =
     bnd (on_dir (dd_get dir_ino blkno)) (\<lambda>h.
     if h = None then
       bnd (on_dfs (get_addr_of_block srch fuel dir_ino blkno)) (\<lambda>addr.
       if bai_lpa addr = INVALID_LPA then ret (None, Some addr)
       else
         bnd (on_throw (addr_release (Some addr)) (read_dir_block (bai_lpa addr))) (\<lambda>buffer.
         bnd (on_dir (dd_add dir_ino blkno (bai_lpa addr) buffer)) (\<lambda>k.
         ret (Some k, Some addr))))
     else ret (h, None))"

definition blk_release :: "dd_key option \<times> block_addr_info option \<Rightarrow> (dirsys, unit) prog" where
  "blk_release r = bnd (on_dir (dd_handle_dtor (fst r))) (\<lambda>_. addr_release (snd r))"

section \<open>Lookup\<close>

definition find_dentry_in_block :: "ssd_search \<Rightarrow> nat \<Rightarrow> u32 \<Rightarrow> u32 \<Rightarrow> u8 list \<Rightarrow> u32 \<Rightarrow> (dirsys, dentry_info) prog" where
  "find_dentry_in_block srch fuel ino blkno name name_hash =
     bnd (get_dir_data_block srch fuel ino blkno) (\<lambda>r.
     scoped (blk_release r)
       (case fst r of
          None \<Rightarrow>
            (case snd r of
               None \<Rightarrow> fail Undefined
             | Some addr \<Rightarrow>
                 bnd (assert_that (bai_lpa addr = INVALID_LPA)) (\<lambda>_.
                 ret (dentry_info_init\<lparr>di_pos := store_pos_set blkno 0\<rparr>)))
        | Some k \<Rightarrow>
            bnd (on_dir (dd_entry k)) (\<lambda>e.
            bnd (of_result (hscfs_find_target_dentry (ddb_block e) name name_hash)) (\<lambda>res.
            case res of
              (None, max_free_slot_num, max_free_slot_pos) \<Rightarrow>
                if GET_DENTRY_SLOTS (length name) \<le> max_free_slot_num then
                  (case max_free_slot_pos of
                     None \<Rightarrow> fail Undefined
                   | Some q \<Rightarrow> ret (dentry_info_init\<lparr>di_pos := store_pos_set blkno (word_of_nat q)\<rparr>))
                else ret dentry_info_init
            | (Some slot, _, _) \<Rightarrow>
                let tar_dentry = Dentry_Block.dentry (ddb_block e) ! slot in
                ret \<lparr>di_ino = de_ino tar_dentry, di_type = file_type tar_dentry, di_pos = store_pos_set blkno (word_of_nat slot)\<rparr>))))"

text \<open>
  The blocks of one bucket: the search ends at the entry, and the first position where the
  entry could be created is kept.
\<close>

fun lookup_bucket :: "ssd_search \<Rightarrow> nat \<Rightarrow> u32 \<Rightarrow> u8 list \<Rightarrow> u32 \<Rightarrow> nat list \<Rightarrow> dentry_info \<Rightarrow> (dirsys, dentry_info) prog" where
  "lookup_bucket srch fuel ino name name_hash [] target_info = ret target_info"
| "lookup_bucket srch fuel ino name name_hash (blkno # blks) target_info =
     bnd (find_dentry_in_block srch fuel ino (word_of_nat blkno) name name_hash) (\<lambda>target_in_cur_blk.
     if di_ino target_in_cur_blk \<noteq> INVALID_NID then ret target_in_cur_blk
     else
       lookup_bucket srch fuel ino name name_hash blks
         (if \<not> sp_is_valid (di_pos target_info) \<and> sp_is_valid (di_pos target_in_cur_blk)
          then target_info\<lparr>di_pos := di_pos target_in_cur_blk\<rparr> else target_info))"

text \<open>The end of a bucket is computed in 32 bits and the size is compared in 64.\<close>

definition bucket_blocks :: "nat \<Rightarrow> nat \<Rightarrow> u32 \<Rightarrow> nat list" where
  "bucket_blocks level dir_level name_hash =
     (let start = bucket_start_block_index level dir_level (unat name_hash mod bucket_num level dir_level) in
      [start..<(start + bucket_block_num level) mod 2 ^ 32])"

definition bucket_end :: "nat \<Rightarrow> nat \<Rightarrow> u32 \<Rightarrow> nat" where
  "bucket_end level dir_level name_hash =
     (bucket_start_block_index level dir_level (unat name_hash mod bucket_num level dir_level) + bucket_block_num level) mod 2 ^ 32"

fun lookup_levels :: "ssd_search \<Rightarrow> nat \<Rightarrow> u32 \<Rightarrow> u8 list \<Rightarrow> u32 \<Rightarrow> nat list \<Rightarrow> dentry_info \<Rightarrow> (dirsys, dentry_info) prog" where
  "lookup_levels srch fuel ino name name_hash [] target_info = ret target_info"
| "lookup_levels srch fuel ino name name_hash (level # levels) target_info =
     bnd (inode_of ino) (\<lambda>inode.
     let dir_level = unat (i_dir_level inode) in
     bnd (assert_that (bucket_end level dir_level name_hash \<le> unat (SIZE_TO_BLOCK (i_size inode)))) (\<lambda>_.
     bnd (lookup_bucket srch fuel ino name name_hash (bucket_blocks level dir_level name_hash) target_info) (\<lambda>info.
     if di_ino info \<noteq> INVALID_NID then ret info
     else lookup_levels srch fuel ino name name_hash levels info)))"

definition lookup :: "ssd_search \<Rightarrow> nat \<Rightarrow> u32 \<Rightarrow> u8 list \<Rightarrow> (dirsys, dentry_info) prog" where
  "lookup srch fuel ino name =
     bnd (on_dfs (get_node_entry ino INVALID_NID)) (\<lambda>h.
     scoped (on_dfs (nc_handle_dtor (Some h)))
       (bnd (inode_of h) (\<lambda>inode.
        bnd (assert_that (f_ino inode = ino)) (\<lambda>_.
        bnd (assert_that (f_nid inode = ino)) (\<lambda>_.
        lookup_levels srch fuel ino name (hscfs_dentry_hash name) [0..<Suc (unat (i_current_depth inode))] dentry_info_init)))))"

section \<open>Creating\<close>

text \<open>The slots are tested one after the other; the bitmap has 256 bits.\<close>

fun slots_free :: "hscfs_dentry_block \<Rightarrow> u32 \<Rightarrow> nat list \<Rightarrow> fault + bool" where
  "slots_free b slotno [] = Inr True"
| "slots_free b slotno (i # is) =
     (let q = unat (word_of_nat i + slotno) in
      if q \<ge> 256 then Inl Undefined
      else if test_bitmap_pos q b then Inr False
      else slots_free b slotno is)"

definition is_create_pos_valid :: "ssd_search \<Rightarrow> nat \<Rightarrow> u32 \<Rightarrow> u8 list \<Rightarrow> dentry_store_pos \<Rightarrow> u32 \<Rightarrow> (dirsys, bool) prog" where
  "is_create_pos_valid srch fuel ino name hint max_blk_off =
     (if sp_blkno hint > max_blk_off then ret False
      else
        bnd (get_dir_data_block srch fuel ino (sp_blkno hint)) (\<lambda>r.
        scoped (blk_release r)
          (case fst r of
             None \<Rightarrow> ret True
           | Some k \<Rightarrow>
               bnd (on_dir (dd_entry k)) (\<lambda>e.
               of_result (slots_free (ddb_block e) (sp_slotno hint) [0..<GET_DENTRY_SLOTS (length name)])))))"

text \<open>The new level is written to the inode before the file grows.\<close>

definition append_hash_level :: "u32 \<Rightarrow> (dirsys, unit) prog" where
  "append_hash_level ino =
     bnd (on_dfs (nc_set_node ino (\<lambda>n. set_wd 16 (i_current_depth n + 1) n))) (\<lambda>_.
     bnd (inode_of ino) (\<lambda>inode.
     let level = unat (i_current_depth inode); dir_level = unat (i_dir_level inode);
         blknum_need_expand = word_of_nat (bucket_num level dir_level) * word_of_nat (bucket_block_num level) :: u32;
         size_after_expand = (SIZE_TO_BLOCK (i_size inode) + ucast blknum_need_expand) * 4096 in
     on_dfs (expand ino size_after_expand)))"

text \<open>The position to create at, and the block, which is entered into the cache for a hole.\<close>

definition search_create_pos :: "ssd_search \<Rightarrow> nat \<Rightarrow> u32 \<Rightarrow> u8 list \<Rightarrow> (dirsys, dentry_store_pos) prog" where
  "search_create_pos srch fuel ino name =
     bnd (lookup srch fuel ino name) (\<lambda>info.
     bnd (assert_that (di_ino info = INVALID_NID)) (\<lambda>_.
     if \<not> sp_is_valid (di_pos info) then
       bnd (append_hash_level ino) (\<lambda>_.
       bnd (lookup srch fuel ino name) (\<lambda>info2.
       bnd (assert_that (di_ino info2 = INVALID_NID)) (\<lambda>_.
       bnd (assert_that (sp_is_valid (di_pos info2))) (\<lambda>_.
       ret (di_pos info2)))))
     else ret (di_pos info)))"

definition get_create_pos ::
    "ssd_search \<Rightarrow> nat \<Rightarrow> u32 \<Rightarrow> u8 list \<Rightarrow> dentry_store_pos option \<Rightarrow> (dirsys, dd_key \<times> dentry_store_pos) prog" where
  "get_create_pos srch fuel ino name create_pos_hint =
     bnd (on_dfs (get_node_entry ino INVALID_NID)) (\<lambda>h.
     scoped (on_dfs (nc_handle_dtor (Some h)))
       (bnd (inode_of h) (\<lambda>inode.
        bnd (assert_that (i_size inode mod 4096 = 0)) (\<lambda>_.
        bnd (case create_pos_hint of
               None \<Rightarrow> ret False
             | Some hint \<Rightarrow>
                 if \<not> sp_is_valid hint then ret False
                 else is_create_pos_valid srch fuel ino name hint (ucast (SIZE_TO_BLOCK (i_size inode) - 1))) (\<lambda>hint_valid.
        bnd (if hint_valid then ret (the create_pos_hint) else search_create_pos srch fuel ino name) (\<lambda>create_pos.
        bnd (assert_that (sp_is_valid create_pos)) (\<lambda>_.
        bnd (get_dir_data_block srch fuel ino (sp_blkno create_pos)) (\<lambda>r.
        bnd (addr_release (snd r)) (\<lambda>_.
        case fst r of
          Some k \<Rightarrow> ret (k, create_pos)
        | None \<Rightarrow>
            bnd (on_dir (dd_add ino (sp_blkno create_pos) INVALID_LPA zero_block)) (\<lambda>k.
            bnd (on_dir (dd_mark_dirty k)) (\<lambda>_.
            ret (k, create_pos))))))))))))"

text \<open>Writing an entry into the block of a handle, which is passed by value.\<close>

definition blk_create :: "u8 list \<Rightarrow> u8 \<Rightarrow> u32 \<Rightarrow> dd_key \<Rightarrow> dentry_store_pos \<Rightarrow> (dirsys, unit) prog" where
  "blk_create name type new_ino blk_handle pos =
     on_dir (bnd (dd_handle_copy (Some blk_handle)) (\<lambda>h.
       scoped (dd_handle_dtor h)
         (bnd (dd_entry blk_handle) (\<lambda>e.
          bnd (of_result (create_dentry_in_blk name type new_ino (unat (sp_slotno pos)) (ddb_block e))) (\<lambda>b.
          bnd (dd_write blk_handle (\<lambda>e. e\<lparr>ddb_block := b\<rparr>)) (\<lambda>_.
          dd_mark_dirty blk_handle))))))"

text \<open>The count of entries and the times of the directory's inode.\<close>

definition update_dir_inode :: "timespec \<Rightarrow> (u64 \<Rightarrow> u64) \<Rightarrow> u32 \<Rightarrow> (dirsys, unit) prog" where
  "update_dir_inode t f ino =
     on_dfs (bnd (get_node_entry ino INVALID_NID) (\<lambda>h.
       scoped (nc_handle_dtor (Some h))
         (bnd (nc_set_node h (\<lambda>n. set_mtime t (set_atime t (set_wd64 12 (f (i_dentry_num n)) n)))) (\<lambda>_.
          nc_mark_dirty h))))"

text \<open>\<open>dir\<close> is the handle of the directory's own entry.\<close>

definition create_dentry ::
    "timespec \<Rightarrow> u32 \<Rightarrow> dentry_key option \<Rightarrow> u8 list \<Rightarrow> u8 \<Rightarrow> u32 \<Rightarrow> dd_key \<Rightarrow> dentry_store_pos \<Rightarrow> (dirsys, dentry_key) prog" where
  "create_dentry t ino dir name type new_inode create_blk_handle create_pos =
     bnd (blk_create name type new_inode create_blk_handle create_pos) (\<lambda>_.
     bnd (on_dentry (dc_get ino name)) (\<lambda>h.
     bnd (case h of
            Some d \<Rightarrow>
              on_dentry (
                bnd (dc_entry d) (\<lambda>e.
                bnd (assert_that (dn_state e = Dentry_deleted)) (\<lambda>_.
                bnd (assert_that (dk_name (dn_key e) = name)) (\<lambda>_.
                bnd (assert_that (dk_dir (dn_key e) = ino)) (\<lambda>_.
                bnd (dc_write d (\<lambda>e. e\<lparr>dn_state := Dentry_valid, dn_ino := new_inode\<rparr>)) (\<lambda>_.
                ret d))))))
          | None \<Rightarrow> on_dentry (dc_add ino dir new_inode name)) (\<lambda>d.
     bnd (on_dentry (dc_write d (\<lambda>e. e\<lparr>dn_pos := create_pos, dn_type := type\<rparr>))) (\<lambda>_.
     bnd (on_dentry (no_throw (dc_mark_dirty d))) (\<lambda>_.
     bnd (update_dir_inode t (\<lambda>n. n + 1) ino) (\<lambda>_.
     ret d))))))"

definition create ::
    "ssd_search \<Rightarrow> nat \<Rightarrow> timespec \<Rightarrow> u32 \<Rightarrow> dentry_key option \<Rightarrow> u8 list \<Rightarrow> u8 \<Rightarrow> dentry_store_pos option \<Rightarrow> (dirsys, dentry_key) prog" where
  "create srch fuel t ino dir name type create_pos_hint =
     bnd (get_create_pos srch fuel ino name create_pos_hint) (\<lambda>(blk, create_pos).
     scoped (on_dir (dd_handle_dtor (Some blk)))
       (bnd (if type = 1 then on_dfs (create_generic_file t)
             else bnd (assert_that (type = 2)) (\<lambda>_. on_dfs (create_directory t))) (\<lambda>new_inode.
        scoped (on_dfs (nc_handle_dtor (Some new_inode)))
          (create_dentry t ino dir name type new_inode blk create_pos))))"

text \<open>The handle that \<^verbatim>\<open>create_dentry\<close> returns is dropped, and keeps its reference.\<close>

definition link ::
    "ssd_search \<Rightarrow> nat \<Rightarrow> timespec \<Rightarrow> u32 \<Rightarrow> dentry_key option \<Rightarrow> u8 list \<Rightarrow> u32 \<Rightarrow> dentry_store_pos option \<Rightarrow> (dirsys, unit) prog" where
  "link srch fuel t ino dir name link_ino create_pos_hint =
     bnd (get_create_pos srch fuel ino name create_pos_hint) (\<lambda>(blk, create_pos).
     scoped (on_dir (dd_handle_dtor (Some blk)))
       (bnd (create_dentry t ino dir name 1 link_ino blk create_pos) (\<lambda>_. ret ())))"

section \<open>Removing\<close>

text \<open>The type of an entry, read from the inode the first time.\<close>

definition dentry_get_type :: "dentry_key \<Rightarrow> (dirsys, u8) prog" where
  "dentry_get_type d =
     bnd (on_dentry (dc_entry d)) (\<lambda>e.
     if dn_type e \<noteq> HSCFS_FT_UNKNOWN then ret (dn_type e)
     else
       bnd (on_dfs (get_node_entry (dn_ino e) INVALID_NID)) (\<lambda>h.
       scoped (on_dfs (nc_handle_dtor (Some h)))
         (bnd (inode_of h) (\<lambda>node.
          bnd (assert_that (f_ino node = f_nid node)) (\<lambda>_.
          bnd (on_dentry (dc_write d (\<lambda>e. e\<lparr>dn_type := ucast (i_type node)\<rparr>))) (\<lambda>_.
          bnd (assert_that (ucast (i_type node) \<noteq> HSCFS_FT_UNKNOWN)) (\<lambda>_.
          ret (ucast (i_type node)))))))))"

definition blk_remove :: "u8 list \<Rightarrow> dd_key \<Rightarrow> dentry_store_pos \<Rightarrow> (dirsys, unit) prog" where
  "blk_remove name blk_handle pos =
     on_dir (bnd (dd_entry blk_handle) (\<lambda>e.
       bnd (of_result (remove_dentry_in_blk name (unat (sp_slotno pos)) (ddb_block e))) (\<lambda>b.
       bnd (dd_write blk_handle (\<lambda>e. e\<lparr>ddb_block := b\<rparr>)) (\<lambda>_.
       dd_mark_dirty blk_handle))))"

definition remove :: "ssd_search \<Rightarrow> nat \<Rightarrow> timespec \<Rightarrow> u32 \<Rightarrow> dentry_key \<Rightarrow> (dirsys, unit) prog" where
  "remove srch fuel t ino d =
     bnd (on_dentry (dc_entry d)) (\<lambda>e.
     let name = dk_name (dn_key e) in
     bnd (if sp_is_valid (dn_pos e) then
            bnd (find_dentry_in_block srch fuel ino (sp_blkno (dn_pos e)) name (hscfs_dentry_hash name)) (\<lambda>d_info.
            bnd (assert_that (di_ino d_info = dn_ino e)) (\<lambda>_.
            bnd (dentry_get_type d) (\<lambda>type.
            bnd (assert_that (di_type d_info = type)) (\<lambda>_.
            assert_that (dn_pos e = di_pos d_info)))))
          else
            bnd (lookup srch fuel ino name) (\<lambda>d_info.
            bnd (assert_that (di_ino d_info = dn_ino e)) (\<lambda>_.
            bnd (assert_that (sp_is_valid (di_pos d_info))) (\<lambda>_.
            on_dentry (dc_write d (\<lambda>e. e\<lparr>dn_pos := di_pos d_info\<rparr>)))))) (\<lambda>_.
     bnd (on_dentry (dc_entry d)) (\<lambda>e2.
     bnd (get_dir_data_block srch fuel ino (sp_blkno (dn_pos e2))) (\<lambda>r.
     bnd (addr_release (snd r)) (\<lambda>_.
     case fst r of
       None \<Rightarrow> fail Assert_failed
     | Some k \<Rightarrow>
         scoped (on_dir (dd_handle_dtor (Some k)))
           (bnd (blk_remove name k (dn_pos e2)) (\<lambda>_.
            update_dir_inode t (\<lambda>n. n - 1) ino)))))))"

text \<open>Deleting a directory with its cached blocks.\<close>

definition delete_dir_with_data_cache :: "u32 \<Rightarrow> (dirsys, unit) prog" where
  "delete_dir_with_data_cache ino = bnd (on_dfs (delete_file ino)) (\<lambda>_. on_dir (remove_ino_blks ino))"

end
