(* ===== verification/Directory_Lookup.thy ===== *)
theory Directory_Lookup
  imports Directory
begin

text \<open>
  Looking up a name in a directory whose blocks are addressed by the inode itself, as are all
  blocks of the hash levels 0 to 7. Blocks may be cached, on the device or unallocated, and may be
  entered into the cache and replaced during the search.
\<close>

section \<open>The blocks of a directory\<close>

text \<open>The content of a block as a reader sees it; an unallocated block has none.\<close>

definition dir_view :: "dirsys \<Rightarrow> u32 \<Rightarrow> u32 \<Rightarrow> hscfs_dentry_block option" where
  "dir_view s ino b =
     (case dd_content (ds_dir s) (Dd_key ino b) of
        Some (lpa, B) \<Rightarrow> Some B
      | None \<Rightarrow>
          (case node_view (ds_fs s) ino of
             None \<Rightarrow> None
           | Some n \<Rightarrow> if i_addr (unat b) n = INVALID_LPA then None else ds_dev s (i_addr (unat b) n)))"

lemma dir_view_cong:
  assumes "dd_content (ds_dir s') (Dd_key ino b) = dd_content (ds_dir s) (Dd_key ino b)"
    "node_view (ds_fs s') ino = node_view (ds_fs s) ino" "ds_dev s' = ds_dev s"
  shows "dir_view s' ino b = dir_view s ino b"
  unfolding dir_view_def assms ..

text \<open>A cached block that is not dirty is the one on the device.\<close>

definition clean_blocks :: "hscfs_node \<Rightarrow> u32 \<Rightarrow> dirsys \<Rightarrow> bool" where
  "clean_blocks n ino s \<longleftrightarrow>
     (\<forall>b lpa B. unat b < 932 \<longrightarrow> dd_content (ds_dir s) (Dd_key ino b) = Some (lpa, B) \<longrightarrow>
        Dd_key ino b \<notin> set (dd_dirty_keys (ds_dir s)) \<longrightarrow>
        lpa = i_addr (unat b) n \<and> lpa \<noteq> INVALID_LPA \<and> ds_dev s lpa = Some B)"

text \<open>A directory with inode \<open>n\<close>, which a handle refers to.\<close>

definition dir_ready :: "(u32 \<Rightarrow> nat) \<Rightarrow> u32 set \<Rightarrow> (dd_key \<Rightarrow> nat) \<Rightarrow> u32 \<Rightarrow> hscfs_node \<Rightarrow> dirsys \<Rightarrow> bool" where
  "dir_ready ext W dext ino n s \<longleftrightarrow>
     nc_inv ext W (ds_fs s) \<and> nc_room ext 4 (ds_fs s) \<and> ext ino \<noteq> 0 \<and> node_view (ds_fs s) ino = Some n \<and>
     f_nid n = ino \<and> f_ino n = ino \<and> f_offset n = 0 \<and> dd_inv dext (ds_dir s) \<and> (\<forall>k. dext k + 2 < 2 ^ 32) \<and> clean_blocks n ino s"

text \<open>What a lookup leaves alone.\<close>

definition dir_frame :: "u32 \<Rightarrow> dirsys \<Rightarrow> dirsys \<Rightarrow> bool" where
  "dir_frame ino s s' \<longleftrightarrow> nc_frame (ds_fs s) (ds_fs s') \<and> dom (nc_ix (ds_fs s')) = dom (nc_ix (ds_fs s)) \<and> ds_dev s' = ds_dev s \<and>
     ds_dentry s' = ds_dentry s \<and> dd_dirty (ds_dir s') = dd_dirty (ds_dir s) \<and>
     (\<forall>b. unat b < 932 \<longrightarrow> dir_view s' ino b = dir_view s ino b)"

lemma dir_frame_refl: "dir_frame ino s s"
  by (simp add: dir_frame_def)

lemma dir_frame_trans: "dir_frame ino s t \<Longrightarrow> dir_frame ino t u \<Longrightarrow> dir_frame ino s u"
  by (auto simp: dir_frame_def intro: nc_frame_trans)

section \<open>The address of a block\<close>

text \<open>The inode is held, so no other node is needed.\<close>

lemma get_addr_direct:
  assumes inv: "nc_inv ext W s" and room: "nc_room ext 3 s" and ino: "ext ino \<noteq> 0" "node_view s ino = Some n"
    and n: "f_nid n = ino" "f_ino n = ino" "f_offset n = 0" and b: "unat b < 932"
  shows "\<exists>s'. get_addr_of_block srch (Suc f) ino b s =
      (Inr \<lparr>bai_lpa = i_addr (unat b) n, bai_nid = ino, bai_nid_off = unat b, bai_nid_handle = Some ino\<rparr>, s') \<and>
    nc_inv (ext(ino := Suc (ext ino))) W s' \<and> nc_frame s s' \<and> dom (nc_ix s') = dom (nc_ix s)"
proof -
  have gp: "get_node_path (unat b) = Some (0, [unat b], [0])"
    using get_node_path_of [of "[unat b]"] b by (simp add: path_of_def)
  have "ino \<in> dom (nc_ix s)" using nc_invD(6) [OF inv] ino(1) by auto
  then obtain s' where s': "nc_get ino s = (Inr (Some ino), s')" "nc_inv (ext(ino := Suc (ext ino))) W s'" "nc_frame s s'"
      "dom (nc_ix s') = dom (nc_ix s)"
    using nc_get_hit [OF inv room] by blast
  obtain e where e: "nc_ix s' ino = Some e" "node_view s' ino = Some (nb_node e)" using nc_held [OF s'(2), of ino] by auto
  then have v: "nb_node e = n" using ino(2) s'(3) by (simp add: nc_frame_def)
  have "get_addr_of_block srch (Suc f) ino b s =
      (Inr \<lparr>bai_lpa = i_addr (unat b) n, bai_nid = ino, bai_nid_off = unat b, bai_nid_handle = Some ino\<rparr>, s')"
    using gp s'(1) e(1) v n b
    by (simp add: get_addr_of_block_def prog_simps nc_entry_def nc_handle_move_assign_def nc_do_subref_def get_lpa_def)
  then show ?thesis using s' by blast
qed


section \<open>Getting a block\<close>

text \<open>The directory cache changes to \<open>c'\<close>: the new block is on the device and only clean blocks are gone.\<close>

lemma dir_view_add:
  assumes cl: "clean_blocks n ino s" and v: "node_view (ds_fs s) ino = Some n" and fs: "node_view (ds_fs s') = node_view (ds_fs s)"
    and dev: "ds_dev s' = ds_dev s" and dirty: "dd_dirty (ds_dir s') = dd_dirty (ds_dir s)"
    and old: "\<And>k. dd_content (ds_dir s') k \<noteq> None \<Longrightarrow> k \<noteq> Dd_key ino b \<Longrightarrow> dd_content (ds_dir s') k = dd_content (ds_dir s) k"
    and keep: "\<And>k. k \<in> set (dd_dirty_keys (ds_dir s)) \<Longrightarrow> dd_content (ds_dir s') k = dd_content (ds_dir s) k"
    and new: "dd_content (ds_dir s) (Dd_key ino b) = None" "dd_content (ds_dir s') (Dd_key ino b) = Some (lpa, B)"
      "lpa = i_addr (unat b) n" "lpa \<noteq> INVALID_LPA" "ds_dev s lpa = Some B"
  shows "clean_blocks n ino s'" "\<forall>b. unat b < 932 \<longrightarrow> dir_view s' ino b = dir_view s ino b"
proof -
  have dk: "dd_dirty_keys (ds_dir s') = dd_dirty_keys (ds_dir s)" by (simp add: dd_dirty_keys_def dirty)
  show "clean_blocks n ino s'"
    unfolding clean_blocks_def
  proof (intro allI impI)
    fix c l C assume c: "unat c < 932" "dd_content (ds_dir s') (Dd_key ino c) = Some (l, C)" "Dd_key ino c \<notin> set (dd_dirty_keys (ds_dir s'))"
    show "l = i_addr (unat c) n \<and> l \<noteq> INVALID_LPA \<and> ds_dev s' l = Some C"
    proof (cases "c = b")
      case True
      then show ?thesis using c(2) new dev by simp
    next
      case False
      then have "dd_content (ds_dir s) (Dd_key ino c) = Some (l, C)" using old [of "Dd_key ino c"] c(2) by simp
      then show ?thesis using cl c(1,3) dev dk unfolding clean_blocks_def by simp
    qed
  qed
  show "\<forall>b. unat b < 932 \<longrightarrow> dir_view s' ino b = dir_view s ino b"
  proof (intro allI impI)
    fix c :: u32 assume c: "unat c < 932"
    show "dir_view s' ino c = dir_view s ino c"
    proof (cases "dd_content (ds_dir s') (Dd_key ino c)")
      case None
      then have nd: "Dd_key ino c \<in> set (dd_dirty_keys (ds_dir s)) \<Longrightarrow> dd_content (ds_dir s) (Dd_key ino c) = None" using keep by simp
      show ?thesis
      proof (cases "dd_content (ds_dir s) (Dd_key ino c)")
        case None
        then show ?thesis using \<open>dd_content (ds_dir s') (Dd_key ino c) = None\<close> fs dev by (intro dir_view_cong) simp_all
      next
        case (Some p)
        obtain l C where p: "p = (l, C)" by (cases p)
        then have "l = i_addr (unat c) n" "i_addr (unat c) n \<noteq> INVALID_LPA" "ds_dev s (i_addr (unat c) n) = Some C"
          using cl c Some nd unfolding clean_blocks_def by auto
        then show ?thesis using None Some p fs dev v by (simp add: dir_view_def)
      qed
    next
      case (Some p)
      show ?thesis
      proof (cases "c = b")
        case True
        then show ?thesis using new v by (simp add: dir_view_def)
      next
        case False
        then show ?thesis using old [of "Dd_key ino c"] Some fs dev by (intro dir_view_cong) simp_all
      qed
    qed
  qed
qed

definition addr_at :: "u32 \<Rightarrow> u32 \<Rightarrow> hscfs_node \<Rightarrow> block_addr_info" where
  "addr_at ino b n = \<lparr>bai_lpa = i_addr (unat b) n, bai_nid = ino, bai_nid_off = unat b, bai_nid_handle = Some ino\<rparr>"

lemma dd_content_entry: "dd_content c k = Some (l, B) \<longleftrightarrow> (\<exists>e. dd_ix c k = Some e \<and> ddb_lpa e = l \<and> ddb_block e = B)"
  by (auto simp: dd_content_def)

lemma get_dir_data_block_ok:
  assumes R: "dir_ready ext W dext ino n s" and b: "unat b < 932" and hole: "dir_view s ino b = None \<longrightarrow> i_addr (unat b) n = INVALID_LPA"
  shows "\<exists>s' a. get_dir_data_block srch (Suc f) ino b s = (Inr (map_option (\<lambda>_. Dd_key ino b) (dir_view s ino b), a), s') \<and>
    (a = None \<or> a = Some (addr_at ino b n)) \<and> (dir_view s ino b = None \<longrightarrow> a \<noteq> None) \<and>
    nc_inv (if a = None then ext else ext(ino := Suc (ext ino))) W (ds_fs s') \<and>
    dd_inv (dext(Dd_key ino b := dext (Dd_key ino b) + of_bool (dir_view s ino b \<noteq> None))) (ds_dir s') \<and>
    (\<forall>B. dir_view s ino b = Some B \<longrightarrow> (\<exists>e. dd_ix (ds_dir s') (Dd_key ino b) = Some e \<and> ddb_block e = B)) \<and>
    clean_blocks n ino s' \<and> dir_frame ino s s'"
proof -
  let ?k = "Dd_key ino b"
  have r: "nc_inv ext W (ds_fs s)" "nc_room ext 4 (ds_fs s)" "ext ino \<noteq> 0" "node_view (ds_fs s) ino = Some n"
    "f_nid n = ino" "f_ino n = ino" "f_offset n = 0" "dd_inv dext (ds_dir s)" "dext ?k + 2 < 2 ^ 32" "clean_blocks n ino s"
    using R unfolding dir_ready_def by blast+
  obtain c where c: "dd_get ino b (ds_dir s) = (Inr (map_option (\<lambda>_. ?k) (dd_content (ds_dir s) ?k)), c)"
      "dd_inv (dext(?k := dext ?k + of_bool (dd_content (ds_dir s) ?k \<noteq> None))) c" "dd_content c = dd_content (ds_dir s)" "dd_dirty c = dd_dirty (ds_dir s)"
    using dd_get_ok [OF r(8,9)] by blast
  let ?s = "s\<lparr>ds_dir := c\<rparr>"
  have dk: "dd_dirty_keys c = dd_dirty_keys (ds_dir s)" by (simp add: dd_dirty_keys_def c(4))
  have cl1: "clean_blocks n ino ?s" using r(10) by (simp add: clean_blocks_def c(3) dk)
  have v1: "dir_view ?s ino = dir_view s ino" using c(3) by (intro ext dir_view_cong) simp_all
  show ?thesis
  proof (cases "dd_content (ds_dir s) ?k")
    case (Some p)
    obtain l B where p: "p = (l, B)" by (cases p)
    have v: "dir_view s ino b = Some B" using Some p by (simp add: dir_view_def)
    obtain e where e: "dd_ix c ?k = Some e" "ddb_block e = B" using Some p c(3) dd_content_entry [of c ?k l B] by auto
    have run: "get_dir_data_block srch (Suc f) ino b s = (Inr (Some ?k, None), ?s)"
      using c(1) Some by (simp add: get_dir_data_block_def prog_simps on_dir_def)
    have "dir_frame ino s ?s" using v1 c(4) by (simp add: dir_frame_def)
    then show ?thesis using run v e c(2) Some r(1) cl1 by (intro exI [of _ ?s] exI [of _ "None"]) simp
  next
    case None
    have room3: "nc_room ext 3 (ds_fs s)" using r(2) by (rule nc_room_mono) simp
    obtain fs where fs: "get_addr_of_block srch (Suc f) ino b (ds_fs s) = (Inr (addr_at ino b n), fs)"
        "nc_inv (ext(ino := Suc (ext ino))) W fs" "nc_frame (ds_fs s) fs" "dom (nc_ix fs) = dom (nc_ix (ds_fs s))"
      using get_addr_direct [OF r(1) room3 r(3-7) b] unfolding addr_at_def by blast
    let ?t = "s\<lparr>ds_dir := c, ds_fs := fs\<rparr>"
    have nv: "node_view fs = node_view (ds_fs s)" using fs(3) by (simp add: nc_frame_def)
    have cl2: "clean_blocks n ino ?t" using cl1 by (simp add: clean_blocks_def)
    have v2: "dir_view ?t ino = dir_view s ino" using c(3) nv by (intro ext dir_view_cong) simp_all
    have fr2: "dir_frame ino s ?t" using fs(3,4) c(4) v2 by (simp add: dir_frame_def)
    have c2: "dd_inv dext c" using c(2) None by simp
    show ?thesis
    proof (cases "i_addr (unat b) n = INVALID_LPA")
      case True
      then have v: "dir_view s ino b = None" using None r(4) by (simp add: dir_view_def)
      have run: "get_dir_data_block srch (Suc f) ino b s = (Inr (None, Some (addr_at ino b n)), ?t)"
        using c(1) None fs(1) True by (simp add: get_dir_data_block_def prog_simps on_dir_def on_dfs_def) (simp add: addr_at_def)
      show ?thesis using run v c2 fs(2) cl2 fr2 by (intro exI [of _ ?t] exI [of _ "Some (addr_at ino b n)"]) simp
    next
      case False
      then obtain B where B: "ds_dev s (i_addr (unat b) n) = Some B" using hole None r(4) by (fastforce simp: dir_view_def)
      have v: "dir_view s ino b = Some B" using None r(4) False B by (simp add: dir_view_def)
      have cn: "dd_content c ?k = None" using None c(3) by simp
      obtain c3 where c3: "dd_add ino b (i_addr (unat b) n) B c = (Inr ?k, c3)" "dd_inv (dext(?k := 1)) c3"
          "dd_content c3 ?k = Some (i_addr (unat b) n, B)" "dd_dirty c3 = dd_dirty c"
          "\<forall>k. dd_content c3 k \<noteq> None \<longrightarrow> k \<noteq> ?k \<longrightarrow> dd_content c3 k = dd_content c k"
          "\<forall>k. dext k \<noteq> 0 \<or> k \<in> set (dd_dirty_keys c) \<longrightarrow> dd_content c3 k = dd_content c k"
        using dd_add_ok [OF c2 cn, of "i_addr (unat b) n" B] by blast
      let ?u = "s\<lparr>ds_dir := c3, ds_fs := fs\<rparr>"
      have run: "get_dir_data_block srch (Suc f) ino b s = (Inr (Some ?k, Some (addr_at ino b n)), ?u)"
        using c(1) None fs(1) False B c3(1)
        by (simp add: get_dir_data_block_def prog_simps on_dir_def on_dfs_def read_dir_block_def) (simp add: addr_at_def)
      note ad = dir_view_add [of n ino ?t ?u b "i_addr (unat b) n" B]
      have ok: "clean_blocks n ino ?u" "\<forall>b. unat b < 932 \<longrightarrow> dir_view ?u ino b = dir_view ?t ino b"
        by (rule ad; use cl2 r(4) nv c3 cn False B in simp)+
      have z: "dext ?k = 0"
      proof (rule ccontr)
        assume "dext ?k \<noteq> 0"
        then obtain e where "dd_ix c ?k = Some e" using dd_inv_cached [OF c2] by blast
        then show False using cn by (simp add: dd_content_def)
      qed
      have "dir_frame ino s ?u" using fr2 ok(2) c3(4) by (simp add: dir_frame_def)
      moreover have "\<exists>e. dd_ix c3 ?k = Some e \<and> ddb_block e = B" using c3(3) dd_content_entry [of c3 ?k] by blast
      ultimately show ?thesis using run v c3(2) z fs(2) ok(1) by (intro exI [of _ ?u] exI [of _ "Some (addr_at ino b n)"]) simp
    qed
  qed
qed


section \<open>Searching a block\<close>

text \<open>What the search of one block gives, from its content.\<close>

definition block_result :: "u8 list \<Rightarrow> u32 \<Rightarrow> hscfs_dentry_block option \<Rightarrow> dentry_info \<Rightarrow> bool" where
  "block_result name b v info \<longleftrightarrow>
     (case v of
        None \<Rightarrow> info = dentry_info_init\<lparr>di_pos := store_pos_set b 0\<rparr>
      | Some B \<Rightarrow>
          (case hscfs_find_target_dentry B name (hscfs_dentry_hash name) of
             Inl _ \<Rightarrow> False
           | Inr (None, mx, q) \<Rightarrow>
               if GET_DENTRY_SLOTS (length name) \<le> mx then
                 (\<exists>q'. q = Some q' \<and> info = dentry_info_init\<lparr>di_pos := store_pos_set b (word_of_nat q')\<rparr>)
               else info = dentry_info_init
           | Inr (Some slot, _, _) \<Rightarrow>
               info = \<lparr>di_ino = de_ino (Dentry_Block.dentry B ! slot), di_type = file_type (Dentry_Block.dentry B ! slot),
                       di_pos = store_pos_set b (word_of_nat slot)\<rparr>))"

lemma blk_release_ok:
  assumes a: "a = None \<or> a = Some (addr_at ino b n)" and nc: "nc_inv (if a = None then ext else ext(ino := Suc (ext ino))) W (ds_fs s)"
    and e: "ext ino \<noteq> 0" and dd: "dd_inv (dext(k := dext k + of_bool x)) (ds_dir s)"
  shows "\<exists>s'. blk_release (if x then Some k else None, a) s = (Inr (), s') \<and> nc_inv ext W (ds_fs s') \<and> dd_inv dext (ds_dir s') \<and>
    nc_frame (ds_fs s) (ds_fs s') \<and> dom (nc_ix (ds_fs s')) = dom (nc_ix (ds_fs s)) \<and> ds_dev s' = ds_dev s \<and> ds_dentry s' = ds_dentry s \<and>
    dd_content (ds_dir s') = dd_content (ds_dir s) \<and> dd_dirty (ds_dir s') = dd_dirty (ds_dir s)"
proof -
  obtain c where c: "dd_handle_dtor (if x then Some k else None) (ds_dir s) = (Inr (), c)" "dd_inv dext c" "dd_content c = dd_content (ds_dir s)" "dd_dirty c = dd_dirty (ds_dir s)"
  proof (cases x)
    case True
    then show ?thesis using dd_handle_dtor_ok [OF dd, of k] that by auto
  next
    case False
    then show ?thesis using dd that [of "ds_dir s"] by (simp add: dd_handle_dtor_def prog_simps)
  qed
  obtain fs where fs: "nc_handle_dtor (case a of None \<Rightarrow> None | Some x \<Rightarrow> bai_nid_handle x) (ds_fs s) = (Inr (), fs)" "nc_inv ext W fs"
      "nc_frame (ds_fs s) fs" "dom (nc_ix fs) = dom (nc_ix (ds_fs s))"
  proof (cases a)
    case None
    then show ?thesis using nc that [of "ds_fs s"] by (simp add: nc_handle_dtor_def nc_do_subref_def prog_simps)
  next
    case (Some y)
    have "(ext(ino := Suc (ext ino)))(ino := (ext(ino := Suc (ext ino))) ino - 1) = ext" by auto
    then show ?thesis using nc_handle_dtor_ok [of "ext(ino := Suc (ext ino))" W "ds_fs s" ino] nc e a Some that by (auto simp: addr_at_def)
  qed
  show ?thesis
    using c fs by (intro exI [of _ "s\<lparr>ds_dir := c, ds_fs := fs\<rparr>"])
      (simp add: blk_release_def addr_release_def on_dir_def on_dfs_def prog_simps)
qed

lemma find_dentry_in_block_ok:
  assumes R: "dir_ready ext W dext ino n s" and b: "unat b < 932" and hole: "dir_view s ino b = None \<longrightarrow> i_addr (unat b) n = INVALID_LPA"
    and res: "block_result name b (dir_view s ino b) info"
  shows "\<exists>s'. find_dentry_in_block srch (Suc f) ino b name (hscfs_dentry_hash name) s = (Inr info, s') \<and>
    dir_ready ext W dext ino n s' \<and> dir_frame ino s s'"
proof -
  let ?k = "Dd_key ino b" and ?x = "dir_view s ino b \<noteq> None"
  have r: "ext ino \<noteq> 0" using R unfolding dir_ready_def by blast
  obtain s1 a where s1: "get_dir_data_block srch (Suc f) ino b s = (Inr (map_option (\<lambda>_. ?k) (dir_view s ino b), a), s1)"
      "a = None \<or> a = Some (addr_at ino b n)" "dir_view s ino b = None \<longrightarrow> a \<noteq> None"
      "nc_inv (if a = None then ext else ext(ino := Suc (ext ino))) W (ds_fs s1)"
      "dd_inv (dext(?k := dext ?k + of_bool ?x)) (ds_dir s1)"
      "\<forall>B. dir_view s ino b = Some B \<longrightarrow> (\<exists>e. dd_ix (ds_dir s1) ?k = Some e \<and> ddb_block e = B)"
      "clean_blocks n ino s1" "dir_frame ino s s1"
    using get_dir_data_block_ok [OF R b hole, of srch f] by (elim exE conjE) (rule that, assumption+)
  obtain s2 where s2: "blk_release (if ?x then Some ?k else None, a) s1 = (Inr (), s2)" "nc_inv ext W (ds_fs s2)" "dd_inv dext (ds_dir s2)"
      "nc_frame (ds_fs s1) (ds_fs s2)" "dom (nc_ix (ds_fs s2)) = dom (nc_ix (ds_fs s1))" "ds_dev s2 = ds_dev s1" "ds_dentry s2 = ds_dentry s1"
      "dd_content (ds_dir s2) = dd_content (ds_dir s1)" "dd_dirty (ds_dir s2) = dd_dirty (ds_dir s1)"
    using blk_release_ok [OF s1(2,4) r s1(5)] by (elim exE conjE) (rule that, assumption+)
  have opt: "map_option (\<lambda>_. ?k) (dir_view s ino b) = (if ?x then Some ?k else None)" by (cases "dir_view s ino b") auto
  have nv: "node_view (ds_fs s2) = node_view (ds_fs s1)" using s2(4) by (simp add: nc_frame_def)
  have "\<forall>c. dir_view s2 ino c = dir_view s1 ino c" using s2(6,8) nv by (intro allI dir_view_cong) simp_all
  then have fr: "dir_frame ino s1 s2" using s2 by (simp add: dir_frame_def)
  then have frame: "dir_frame ino s s2" using s1(8) dir_frame_trans by blast
  have "clean_blocks n ino s2" using s1(7) s2(6,8,9) by (simp add: clean_blocks_def dd_dirty_keys_def)
  moreover have "node_view (ds_fs s2) ino = node_view (ds_fs s) ino" "card (dom (nc_ix (ds_fs s2))) = card (dom (nc_ix (ds_fs s)))"
    using frame by (simp_all add: dir_frame_def nc_frame_def)
  ultimately have ready: "dir_ready ext W dext ino n s2" using R s2(2,3) by (simp add: dir_ready_def nc_room_def)
  have "find_dentry_in_block srch (Suc f) ino b name (hscfs_dentry_hash name) s = (Inr info, s2)"
  proof (cases "dir_view s ino b")
    case None
    then have "a = Some (addr_at ino b n)" "i_addr (unat b) n = INVALID_LPA" using s1(2,3) hole by auto
    then show ?thesis
      using None s1(1) s2(1) res by (simp add: find_dentry_in_block_def prog_simps block_result_def addr_at_def)
  next
    case (Some B)
    then obtain e where e: "dd_ix (ds_dir s1) ?k = Some e" "ddb_block e = B" using s1(6) by blast
    then show ?thesis
      using Some s1(1) s2(1) res
      by (auto simp: find_dentry_in_block_def prog_simps block_result_def on_dir_def dd_entry_def Let_def
          split: sum.splits prod.splits option.splits if_splits)
  qed
  then show ?thesis using ready frame by blast
qed


section \<open>Searching the buckets\<close>

text \<open>The result from the results \<open>I\<close> of the blocks, in the order in which they are visited.\<close>

fun pick :: "(nat \<Rightarrow> dentry_info) \<Rightarrow> nat list \<Rightarrow> dentry_info \<Rightarrow> dentry_info" where
  "pick I [] info = info"
| "pick I (b # bs) info =
     (if di_ino (I b) \<noteq> INVALID_NID then I b
      else pick I bs (if \<not> sp_is_valid (di_pos info) \<and> sp_is_valid (di_pos (I b)) then info\<lparr>di_pos := di_pos (I b)\<rparr> else info))"

lemma pick_append:
  "pick I (xs @ ys) info = (if \<exists>b \<in> set xs. di_ino (I b) \<noteq> INVALID_NID then pick I xs info else pick I ys (pick I xs info))"
  by (induction xs arbitrary: info) auto

lemma pick_found: "di_ino info = INVALID_NID \<Longrightarrow> di_ino (pick I xs info) \<noteq> INVALID_NID \<longleftrightarrow> (\<exists>b \<in> set xs. di_ino (I b) \<noteq> INVALID_NID)"
  by (induction xs arbitrary: info) auto

definition blocks_known :: "u8 list \<Rightarrow> u32 \<Rightarrow> hscfs_node \<Rightarrow> dirsys \<Rightarrow> (nat \<Rightarrow> dentry_info) \<Rightarrow> nat list \<Rightarrow> bool" where
  "blocks_known name ino n s I bs \<longleftrightarrow>
     (\<forall>b \<in> set bs. b < 932 \<and> (dir_view s ino (word_of_nat b) = None \<longrightarrow> i_addr b n = INVALID_LPA) \<and>
        block_result name (word_of_nat b) (dir_view s ino (word_of_nat b)) (I b))"

lemma small_block: "b < 932 \<Longrightarrow> unat (word_of_nat b :: u32) = b"
  by (rule unat_of_nat_u32) simp

lemma blocks_known_frame: "dir_frame ino s s' \<Longrightarrow> blocks_known name ino n s I bs \<Longrightarrow> blocks_known name ino n s' I bs"
  unfolding blocks_known_def dir_frame_def by (metis small_block)

lemma lookup_bucket_ok:
  assumes "dir_ready ext W dext ino n s" "blocks_known name ino n s I bs"
  shows "\<exists>s'. lookup_bucket srch (Suc f) ino name (hscfs_dentry_hash name) bs info s = (Inr (pick I bs info), s') \<and>
    dir_ready ext W dext ino n s' \<and> dir_frame ino s s'"
  using assms
proof (induction bs arbitrary: s info)
  case Nil
  then show ?case by (auto simp: prog_simps dir_frame_refl)
next
  case (Cons b bs)
  have b: "b < 932" "dir_view s ino (word_of_nat b) = None \<longrightarrow> i_addr (unat (word_of_nat b :: u32)) n = INVALID_LPA"
      "block_result name (word_of_nat b) (dir_view s ino (word_of_nat b)) (I b)"
    using Cons.prems(2) by (auto simp: blocks_known_def small_block)
  have u: "unat (word_of_nat b :: u32) < 932" using b(1) by (simp add: small_block)
  obtain s1 where s1: "find_dentry_in_block srch (Suc f) ino (word_of_nat b) name (hscfs_dentry_hash name) s = (Inr (I b), s1)"
      "dir_ready ext W dext ino n s1" "dir_frame ino s s1"
    using find_dentry_in_block_ok [OF Cons.prems(1) u b(2,3), of srch f] by (elim exE conjE) (rule that, assumption+)
  have k: "blocks_known name ino n s1 I bs"
    using blocks_known_frame [OF s1(3) Cons.prems(2)] by (simp add: blocks_known_def)
  show ?case
  proof (cases "di_ino (I b) = INVALID_NID")
    case False
    then show ?thesis using s1 by (auto simp: prog_simps)
  next
    case True
    let ?i = "if \<not> sp_is_valid (di_pos info) \<and> sp_is_valid (di_pos (I b)) then info\<lparr>di_pos := di_pos (I b)\<rparr> else info"
    obtain s2 where "lookup_bucket srch (Suc f) ino name (hscfs_dentry_hash name) bs ?i s1 = (Inr (pick I bs ?i), s2)"
        "dir_ready ext W dext ino n s2" "dir_frame ino s1 s2"
      using Cons.IH [OF s1(2) k] by blast
    then show ?thesis using True s1 dir_frame_trans by (simp add: bnd_def)
  qed
qed

lemma inode_of_ok:
  assumes "dir_ready ext W dext ino n s"
  shows "inode_of ino s = (Inr n, s)"
proof -
  have "nc_inv ext W (ds_fs s)" "ext ino \<noteq> 0" "node_view (ds_fs s) ino = Some n" using assms unfolding dir_ready_def by blast+
  then obtain e where "nc_ix (ds_fs s) ino = Some e" "nb_node e = n" using nc_held [of ext W "ds_fs s" ino] by (metis option.inject)
  then show ?thesis by (simp add: inode_of_def on_dfs_def prog_simps nc_entry_def)
qed

lemma lookup_levels_ok:
  assumes "dir_ready ext W dext ino n s" "blocks_known name ino n s I (concat (map (\<lambda>l. bucket_blocks l (unat (i_dir_level n)) (hscfs_dentry_hash name)) ls))"
    "\<forall>l \<in> set ls. bucket_end l (unat (i_dir_level n)) (hscfs_dentry_hash name) \<le> unat (SIZE_TO_BLOCK (i_size n))" "di_ino info = INVALID_NID"
  shows "\<exists>s'. lookup_levels srch (Suc f) ino name (hscfs_dentry_hash name) ls info s =
      (Inr (pick I (concat (map (\<lambda>l. bucket_blocks l (unat (i_dir_level n)) (hscfs_dentry_hash name)) ls)) info), s') \<and>
    dir_ready ext W dext ino n s' \<and> dir_frame ino s s'"
  using assms
proof (induction ls arbitrary: s info)
  case Nil
  then show ?case by (auto simp: prog_simps dir_frame_refl)
next
  case (Cons l ls)
  let ?h = "hscfs_dentry_hash name" and ?d = "unat (i_dir_level n)"
  let ?bs = "bucket_blocks l ?d ?h" and ?cs = "concat (map (\<lambda>l. bucket_blocks l ?d ?h) ls)"
  have k: "blocks_known name ino n s I ?bs" "blocks_known name ino n s I ?cs" using Cons.prems(2) by (auto simp: blocks_known_def)
  obtain s1 where s1: "lookup_bucket srch (Suc f) ino name ?h ?bs info s = (Inr (pick I ?bs info), s1)"
      "dir_ready ext W dext ino n s1" "dir_frame ino s s1"
    using lookup_bucket_ok [OF Cons.prems(1) k(1), of srch f info] by blast
  have head: "lookup_levels srch (Suc f) ino name ?h (l # ls) info s =
      (if di_ino (pick I ?bs info) \<noteq> INVALID_NID then (Inr (pick I ?bs info), s1)
       else lookup_levels srch (Suc f) ino name ?h ls (pick I ?bs info) s1)"
    using inode_of_ok [OF Cons.prems(1)] Cons.prems(3) s1(1) by (simp add: bnd_def assert_that_def ret_def Let_def)
  note pf = pick_found [OF Cons.prems(4), of I ?bs]
  show ?case
  proof (cases "di_ino (pick I ?bs info) = INVALID_NID")
    case False
    then show ?thesis using head pf s1(2,3) by (auto simp: pick_append)
  next
    case True
    obtain s2 where "lookup_levels srch (Suc f) ino name ?h ls (pick I ?bs info) s1 = (Inr (pick I ?cs (pick I ?bs info)), s2)"
        "dir_ready ext W dext ino n s2" "dir_frame ino s1 s2"
      using Cons.IH [OF s1(2) blocks_known_frame [OF s1(3) k(2)] _ True] Cons.prems(3) by auto
    then show ?thesis using head True pf s1(3) dir_frame_trans by (auto simp: pick_append)
  qed
qed


section \<open>The whole lookup\<close>

text \<open>
  A directory without user handles on its inode. \<open>name_blocks\<close> are the blocks of the buckets of
  a name, level by level.
\<close>

definition name_blocks :: "hscfs_node \<Rightarrow> u8 list \<Rightarrow> nat list" where
  "name_blocks n name =
     concat (map (\<lambda>l. bucket_blocks l (unat (i_dir_level n)) (hscfs_dentry_hash name)) [0..<Suc (unat (i_current_depth n))])"

definition dir_idle :: "(u32 \<Rightarrow> nat) \<Rightarrow> u32 set \<Rightarrow> (dd_key \<Rightarrow> nat) \<Rightarrow> u32 \<Rightarrow> hscfs_node \<Rightarrow> dirsys \<Rightarrow> bool" where
  "dir_idle ext W dext ino n s \<longleftrightarrow>
     nc_inv ext W (ds_fs s) \<and> nc_room ext 6 (ds_fs s) \<and> meta_ready (ds_fs s) \<and> ino \<noteq> INVALID_NID \<and> nid_in_range (fs_meta (ds_fs s)) ino \<and>
     node_view (ds_fs s) ino = Some n \<and> f_nid n = ino \<and> f_ino n = ino \<and> f_offset n = 0 \<and>
     dd_inv dext (ds_dir s) \<and> (\<forall>k. dext k + 2 < 2 ^ 32) \<and> clean_blocks n ino s"

text \<open>What a lookup changes is not visible: only cached copies come and go.\<close>

definition dir_same :: "u32 \<Rightarrow> dirsys \<Rightarrow> dirsys \<Rightarrow> bool" where
  "dir_same ino s s' \<longleftrightarrow> sys_frame (ds_fs s) (ds_fs s') \<and> ds_dev s' = ds_dev s \<and> ds_dentry s' = ds_dentry s \<and>
     dd_dirty (ds_dir s') = dd_dirty (ds_dir s) \<and> (\<forall>b. unat b < 932 \<longrightarrow> dir_view s' ino b = dir_view s ino b)"

lemma lookup_ok:
  assumes idle: "dir_idle ext W dext ino n s" and k: "blocks_known name ino n s I (name_blocks n name)"
    and sz: "\<forall>l \<le> unat (i_current_depth n). bucket_end l (unat (i_dir_level n)) (hscfs_dentry_hash name) \<le> unat (SIZE_TO_BLOCK (i_size n))"
  shows "\<exists>s'. lookup srch (Suc f) ino name s = (Inr (pick I (name_blocks n name) dentry_info_init), s') \<and>
    nc_inv ext W (ds_fs s') \<and> dd_inv dext (ds_dir s') \<and> clean_blocks n ino s' \<and> dir_same ino s s'"
proof -
  note d = idle [unfolded dir_idle_def]
  have a: "nc_inv ext W (ds_fs s)" "nc_room ext 3 (ds_fs s)" "meta_ready (ds_fs s)" "ino \<noteq> INVALID_NID" "node_view (ds_fs s) ino = Some n"
      "f_nid n = ino" "f_ino n = ino" "f_offset n = 0" "nid_in_range (fs_meta (ds_fs s)) ino"
    using d nc_room_mono [of ext 6 "ds_fs s" ext "ds_fs s" 3] by auto
  obtain g where g: "get_node_entry ino INVALID_NID (ds_fs s) = (Inr ino, g)" "nc_inv (ext(ino := Suc (ext ino))) W g" "sys_frame (ds_fs s) g"
      "dom (nc_ix g) \<subseteq> insert ino (dom (nc_ix (ds_fs s)))"
    using get_node_entry_ok [OF a(1-5) _ a(6), of INVALID_NID] a(7,9) by auto
  let ?s = "s\<lparr>ds_fs := g\<rparr>" and ?ext = "ext(ino := Suc (ext ino))"
  have nv: "node_view g = node_view (ds_fs s)" using g(3) by (simp add: sys_frame_def)
  have v1: "dir_view ?s ino b = dir_view s ino b" for b using nv by (intro dir_view_cong) simp_all
  have "card (dom (nc_ix g)) \<le> Suc (card (dom (nc_ix (ds_fs s))))"
    using card_mono [OF _ g(4)] nc_invD(3) [OF a(1)] by (simp add: card_insert_if split: if_splits)
  then have "nc_room ?ext 4 g" using d nc_room_mono [of ext 6 "ds_fs s" ?ext g 4] by simp
  then have ready: "dir_ready ?ext W dext ino n ?s" using g(2) a d nv by (simp add: dir_ready_def clean_blocks_def)
  have k1: "blocks_known name ino n ?s I (name_blocks n name)" using k unfolding blocks_known_def v1 .
  have "\<forall>l \<in> set [0..<Suc (unat (i_current_depth n))]. bucket_end l (unat (i_dir_level n)) (hscfs_dentry_hash name) \<le> unat (SIZE_TO_BLOCK (i_size n))"
    using sz by (simp add: less_Suc_eq_le)
  from lookup_levels_ok [OF ready k1 [unfolded name_blocks_def] this, of dentry_info_init srch f, folded name_blocks_def] obtain s1 where
    s1: "lookup_levels srch (Suc f) ino name (hscfs_dentry_hash name) [0..<Suc (unat (i_current_depth n))] dentry_info_init ?s =
          (Inr (pick I (name_blocks n name) dentry_info_init), s1)"
      "dir_ready ?ext W dext ino n s1" "dir_frame ino ?s s1"
    by (auto simp: dentry_info_init_def)
  have r: "nc_inv ?ext W (ds_fs s1)" "dd_inv dext (ds_dir s1)" "clean_blocks n ino s1" using s1(2) unfolding dir_ready_def by blast+
  have W: "ino \<in> W \<longrightarrow> ?ext ino \<noteq> 1" using nc_invD(7) [OF a(1)] by auto
  have e0: "?ext(ino := ?ext ino - 1) = ext" by auto
  obtain g2 where g2: "nc_handle_dtor (Some ino) (ds_fs s1) = (Inr (), g2)" "nc_inv ext W g2" "nc_frame (ds_fs s1) g2"
    using nc_handle_dtor_ok [OF r(1) _ W] unfolding e0 by auto
  let ?r = "s1\<lparr>ds_fs := g2\<rparr>"
  have run: "lookup srch (Suc f) ino name s = (Inr (pick I (name_blocks n name) dentry_info_init), ?r)"
    using g(1) inode_of_ok [OF ready] a(6,7) s1(1) g2(1)
    by (simp add: lookup_def on_dfs_def bnd_def scoped_def assert_that_def ret_def del: upt_Suc)
  have nv2: "node_view g2 = node_view (ds_fs s1)" using g2(3) by (simp add: nc_frame_def)
  have v2: "dir_view ?r ino b = dir_view s1 ino b" for b using nv2 by (intro dir_view_cong) simp_all
  have ready1: "meta_ready g" by (rule sys_frame_ready [OF g(3) a(3)])
  then have f1: "sys_frame g (ds_fs s1)" using s1(3) nc_frame_sys by (auto simp: dir_frame_def meta_ready_def)
  have f2: "sys_frame (ds_fs s1) g2" using nc_frame_sys [OF g2(3)] sys_frame_ready [OF f1 ready1] by (simp add: meta_ready_def)
  have "sys_frame (ds_fs s) g2" by (rule sys_frame_trans [OF sys_frame_trans [OF g(3) f1] f2])
  then have "dir_same ino s ?r" using s1(3) v1 v2 by (simp add: dir_same_def dir_frame_def)
  moreover have "clean_blocks n ino ?r" using r(3) by (simp add: clean_blocks_def)
  ultimately show ?thesis using run g2(2) r(2) by auto
qed

section \<open>Buckets of a directory of depth at most seven\<close>

lemma bucket_blocks_small:
  assumes l: "l \<le> 7"
  shows "bucket_end l 0 h \<le> 2 * (2 ^ (l + 1) - 1)"
    "bucket_blocks l 0 h = [2 * (2 ^ l - 1) + 2 * (unat h mod 2 ^ l), 2 * (2 ^ l - 1) + 2 * (unat h mod 2 ^ l) + 1]"
proof -
  have bn: "bucket_num l 0 = 2 ^ l" "bucket_block_num l = 2" using l by (simp_all add: bucket_num_def bucket_block_num_def)
  have m: "unat h mod 2 ^ l < 2 ^ l" by simp
  have st: "bucket_start_block_index l 0 (unat h mod 2 ^ l) = 2 * (2 ^ l - 1) + 2 * (unat h mod 2 ^ l)"
    using bucket_start [of l "unat h mod 2 ^ l"] l m bn by simp
  have p: "(2 :: nat) ^ l \<le> 128" using power_increasing [of l 7 "2 :: nat"] l by simp
  obtain p where p2: "(2 :: nat) ^ l = p" "1 \<le> p" by simp
  obtain i where i: "unat h mod p = i" "i < p" using m p2 by simp
  have lt: "2 * (p - 1) + 2 * i + 2 < 2 ^ 32" using p i p2 by simp
  have e: "(2 * (p - 1) + 2 * i + 2) mod 2 ^ 32 = 2 * (p - 1) + 2 * i + 2" using lt by simp
  show "bucket_end l 0 h \<le> 2 * (2 ^ (l + 1) - 1)"
  proof -
    have "bucket_end l 0 h = 2 * (p - 1) + 2 * i + 2" using e by (simp add: bucket_end_def bn st [unfolded p2 i] p2 i)
    then show ?thesis using i(2) p2 by simp
  qed
  show "bucket_blocks l 0 h = [2 * (2 ^ l - 1) + 2 * (unat h mod 2 ^ l), 2 * (2 ^ l - 1) + 2 * (unat h mod 2 ^ l) + 1]"
    using e by (simp add: bucket_blocks_def bn st [unfolded p2 i] p2 i Let_def upt_conv_Cons)
qed

lemma name_blocks_bound:
  assumes "i_dir_level n = 0" "unat (i_current_depth n) \<le> 7" "b \<in> set (name_blocks n name)"
  shows "b < 2 * (2 ^ (unat (i_current_depth n) + 1) - 1)" "b < 932"
proof -
  let ?d = "unat (i_current_depth n)" and ?h = "unat (hscfs_dentry_hash name)"
  obtain l where l: "l \<le> ?d" "b \<in> set (bucket_blocks l 0 (hscfs_dentry_hash name))"
    using assms(1,3) by (auto simp: name_blocks_def less_Suc_eq_le simp del: upt_Suc)
  obtain i where i: "?h mod 2 ^ l = i" "i < 2 ^ l" by simp
  have "b = 2 * (2 ^ l - 1) + 2 * i \<or> b = 2 * (2 ^ l - 1) + 2 * i + 1"
    using l bucket_blocks_small(2) [of l "hscfs_dentry_hash name"] assms(2) by (auto simp: i)
  then have "b < 2 * (2 ^ (l + 1) - 1)" using i(2) by auto
  also have "\<dots> \<le> 2 * (2 ^ (?d + 1) - 1)" using power_increasing [of "l + 1" "?d + 1" "2 :: nat"] l(1) by (intro mult_left_mono diff_le_mono) auto
  finally show b: "b < 2 * (2 ^ (?d + 1) - 1)" .
  have "(2 :: nat) ^ (?d + 1) \<le> 2 ^ 8" using assms(2) by (intro power_increasing) auto
  then show "b < 932" using b by simp
qed


section \<open>Entries of a directory\<close>

text \<open>The slots a new entry needs are free at slot \<open>q\<close> of a block; an unallocated block is free.\<close>

definition room_at :: "u8 list \<Rightarrow> hscfs_dentry_block option \<Rightarrow> nat \<Rightarrow> bool" where
  "room_at name v q \<longleftrightarrow>
     (case v of None \<Rightarrow> True | Some B \<Rightarrow> q + GET_DENTRY_SLOTS (length name) \<le> 214 \<and> free_run B q (GET_DENTRY_SLOTS (length name)))"

definition block_holds :: "hscfs_dentry_block option \<Rightarrow> slot_map \<Rightarrow> bool" where
  "block_holds v m \<longleftrightarrow> (case v of None \<Rightarrow> m = Map.empty | Some B \<Rightarrow> represents B m) \<and>
     (\<forall>slot nm i ty. m slot = Some (nm, i, ty) \<longrightarrow> i \<noteq> INVALID_NID)"

definition info_spec :: "u8 list \<Rightarrow> u32 \<Rightarrow> hscfs_dentry_block option \<Rightarrow> slot_map \<Rightarrow> dentry_info \<Rightarrow> bool" where
  "info_spec name b v m info \<longleftrightarrow>
     (if \<exists>slot i ty. m slot = Some (name, i, ty)
      then di_ino info \<noteq> INVALID_NID \<and>
        (\<exists>slot. m slot = Some (name, di_ino info, di_type info) \<and> di_pos info = store_pos_set b (word_of_nat slot))
      else di_ino info = INVALID_NID \<and> (sp_is_valid (di_pos info) \<longleftrightarrow> (\<exists>q. room_at name v q)) \<and>
        (sp_is_valid (di_pos info) \<longrightarrow> (\<exists>q. room_at name v q \<and> di_pos info = store_pos_set b (word_of_nat q))))"

lemma free_run_less: "free_run B q k \<Longrightarrow> j \<le> k \<Longrightarrow> free_run B q j"
  by (auto simp: free_run_def)

lemma block_result_spec:
  assumes h: "block_holds v m" and name: "name \<noteq> []"
  shows "\<exists>info. block_result name b v info \<and> info_spec name b v m info"
proof (cases v)
  case None
  then have "m = Map.empty" using h by (simp add: block_holds_def)
  then show ?thesis using None
    by (intro exI [of _ "dentry_info_init\<lparr>di_pos := store_pos_set b 0\<rparr>"])
      (auto simp: block_result_def info_spec_def room_at_def dentry_info_init_def store_pos_set_def intro: exI [of _ 0])
next
  case (Some B)
  let ?k = "GET_DENTRY_SLOTS (length name)"
  have k: "0 < ?k" using name by simp
  have rep: "represents B m" using h Some by (simp add: block_holds_def)
  obtain fnd mx q where r: "hscfs_find_target_dentry B name (hscfs_dentry_hash name) = Inr (fnd, mx, q)" "search_ok B m name 0 (fnd, mx, q)"
    using find_loop_spec [OF rep scan_start] unfolding hscfs_find_target_dentry_def by (metis prod_cases3)
  show ?thesis
  proof (cases fnd)
    case (Some slot)
    then obtain i ty where e: "m slot = Some (name, i, ty)" using r(2) by (auto simp: search_ok_def)
    then have "slot_entry_ok B slot (name, i, ty)" "i \<noteq> INVALID_NID" using representsD(2) [OF rep e] h unfolding block_holds_def by blast+
    then show ?thesis using \<open>v = Some B\<close> Some r(1) e
      by (intro exI [of _ "\<lparr>di_ino = i, di_type = ty, di_pos = store_pos_set b (word_of_nat slot)\<rparr>"])
        (auto simp: block_result_def info_spec_def slot_entry_ok_def)
  next
    case None
    then have none: "\<nexists>slot i ty. m slot = Some (name, i, ty)" and best: "best_run B 214 (mx, q)" using r(2) by (auto simp: search_ok_def)
    show ?thesis
    proof (cases "?k \<le> mx")
      case True
      then obtain q' where q': "q = Some q'" "q' + mx \<le> 214" "free_run B q' mx" using best k by (auto simp: best_run_def)
      then have "room_at name v q'" using True \<open>v = Some B\<close> free_run_less by (auto simp: room_at_def)
      then show ?thesis using none True q'(1) None r(1) \<open>v = Some B\<close>
        by (intro exI [of _ "dentry_info_init\<lparr>di_pos := store_pos_set b (word_of_nat q')\<rparr>"])
          (auto simp: block_result_def info_spec_def dentry_info_init_def store_pos_set_def)
    next
      case False
      then have "\<not> room_at name v p" for p using best \<open>v = Some B\<close> by (auto simp: room_at_def best_run_def)
      then show ?thesis using none False None r(1) \<open>v = Some B\<close>
        by (intro exI [of _ dentry_info_init]) (auto simp: block_result_def info_spec_def dentry_info_init_def dentry_store_pos_init_def)
    qed
  qed
qed

lemma pick_hit: "\<exists>b \<in> set xs. di_ino (I b) \<noteq> INVALID_NID \<Longrightarrow> \<exists>b \<in> set xs. di_ino (I b) \<noteq> INVALID_NID \<and> pick I xs info = I b"
  by (induction xs arbitrary: info) auto

lemma pick_miss:
  assumes "\<forall>b \<in> set xs. di_ino (I b) = INVALID_NID"
  shows "di_ino (pick I xs info) = di_ino info \<and>
    (sp_is_valid (di_pos (pick I xs info)) \<longleftrightarrow> sp_is_valid (di_pos info) \<or> (\<exists>b \<in> set xs. sp_is_valid (di_pos (I b)))) \<and>
    (di_pos (pick I xs info) = di_pos info \<or> (\<exists>b \<in> set xs. sp_is_valid (di_pos (I b)) \<and> di_pos (pick I xs info) = di_pos (I b)))"
  using assms
proof (induction xs arbitrary: info)
  case (Cons b xs)
  let ?i = "if \<not> sp_is_valid (di_pos info) \<and> sp_is_valid (di_pos (I b)) then info\<lparr>di_pos := di_pos (I b)\<rparr> else info"
  have "\<forall>b \<in> set xs. di_ino (I b) = INVALID_NID" using Cons.prems by simp
  from Cons.IH [OF this, of ?i] show ?case using Cons.prems by (auto split: if_splits)
qed simp

text \<open>
  A directory whose size is that of all levels of its hash table up to the current depth (of two
  blocks per bucket, as below level 32) and whose blocks hold the entries \<open>M\<close>. A block that shows no
  content is one that is not allocated, so every allocated block can be read.
\<close>

definition dir_holds :: "u32 \<Rightarrow> hscfs_node \<Rightarrow> (nat \<Rightarrow> slot_map) \<Rightarrow> dirsys \<Rightarrow> bool" where
  "dir_holds ino n M s \<longleftrightarrow>
     unat (SIZE_TO_BLOCK (i_size n)) = 2 * (2 ^ (unat (i_current_depth n) + 1) - 1) \<and>
     (\<forall>b < 2 * (2 ^ (unat (i_current_depth n) + 1) - 1).
        (dir_view s ino (word_of_nat b) = None \<longrightarrow> i_addr b n = INVALID_LPA) \<and> block_holds (dir_view s ino (word_of_nat b)) (M b))"

section \<open>Properties\<close>

text \<open>
  C24. Looking up a name in a directory of hash level 0 and depth at most 7, whose at most 510
  blocks are all addressed by the inode itself (an inode addresses 932; deeper directories need
  index nodes and the path search of the SSD, and are not treated here). When each block of the
  directory is cached, or can be read from the device, or is not allocated, and the blocks hold
  the entries \<open>M\<close>, \<^verbatim>\<open>lookup\<close> returns without fault. If a bucket of the name holds an entry with
  that name, the result is the inode, the type and the position of such an entry. Otherwise the
  result has no inode, and it has a position exactly if some block of the buckets of the name has
  room for the entry; the position is then in such a block, at slots that are free. Whatever was
  read and replaced meanwhile, the content of the directory and of the inodes, the dirty blocks and
  all reference counts are as before.
\<close>

theorem lookup_correct:
  assumes "dir_idle ext W dext ino n s" and "dir_holds ino n M s" and "name \<noteq> []"
    and "i_dir_level n = 0" and "unat (i_current_depth n) \<le> 7"
  shows "\<exists>info s'. lookup srch (Suc f) ino name s = (Inr info, s') \<and>
    (if \<exists>b \<in> set (name_blocks n name). \<exists>slot i ty. M b slot = Some (name, i, ty)
     then \<exists>b \<in> set (name_blocks n name). \<exists>slot. M b slot = Some (name, di_ino info, di_type info) \<and>
            di_pos info = store_pos_set (word_of_nat b) (word_of_nat slot)
     else di_ino info = INVALID_NID \<and>
       (sp_is_valid (di_pos info) \<longleftrightarrow> (\<exists>b \<in> set (name_blocks n name). \<exists>q. room_at name (dir_view s ino (word_of_nat b)) q)) \<and>
       (sp_is_valid (di_pos info) \<longrightarrow> (\<exists>b \<in> set (name_blocks n name). \<exists>q. room_at name (dir_view s ino (word_of_nat b)) q \<and>
            di_pos info = store_pos_set (word_of_nat b) (word_of_nat q)))) \<and>
    nc_inv ext W (ds_fs s') \<and> dd_inv dext (ds_dir s') \<and> clean_blocks n ino s' \<and> dir_same ino s s'"
proof -
  let ?bs = "name_blocks n name" and ?v = "\<lambda>b. dir_view s ino (word_of_nat b)"
  note lv = assms(4,5)
  have sz: "unat (SIZE_TO_BLOCK (i_size n)) = 2 * (2 ^ (unat (i_current_depth n) + 1) - 1)" and
    bl: "\<And>b. b < 2 * (2 ^ (unat (i_current_depth n) + 1) - 1) \<Longrightarrow> (?v b = None \<longrightarrow> i_addr b n = INVALID_LPA) \<and> block_holds (?v b) (M b)"
    using assms(2) unfolding dir_holds_def by blast+
  note nb = name_blocks_bound [OF lv]
  have "\<forall>b. \<exists>info. b \<in> set ?bs \<longrightarrow> block_result name (word_of_nat b) (?v b) info \<and> info_spec name (word_of_nat b) (?v b) (M b) info"
    using block_result_spec [OF _ assms(3)] bl nb(1) by blast
  then obtain I where I: "\<And>b. b \<in> set ?bs \<Longrightarrow> block_result name (word_of_nat b) (?v b) (I b)"
      "\<And>b. b \<in> set ?bs \<Longrightarrow> info_spec name (word_of_nat b) (?v b) (M b) (I b)" by metis
  have known: "blocks_known name ino n s I ?bs" using I(1) bl nb by (simp add: blocks_known_def)
  have "bucket_end l (unat (i_dir_level n)) (hscfs_dentry_hash name) \<le> unat (SIZE_TO_BLOCK (i_size n))" if "l \<le> unat (i_current_depth n)" for l
  proof -
    have "bucket_end l 0 (hscfs_dentry_hash name) \<le> 2 * (2 ^ (l + 1) - 1)" using bucket_blocks_small(1) that lv(2) by simp
    also have "\<dots> \<le> 2 * (2 ^ (unat (i_current_depth n) + 1) - 1)" using that by (intro mult_left_mono diff_le_mono power_increasing) auto
    finally show ?thesis using lv(1) sz by simp
  qed
  then obtain s' where s': "lookup srch (Suc f) ino name s = (Inr (pick I ?bs dentry_info_init), s')"
      "nc_inv ext W (ds_fs s') \<and> dd_inv dext (ds_dir s') \<and> clean_blocks n ino s' \<and> dir_same ino s s'"
    using lookup_ok [OF assms(1) known, of srch f] by blast
  let ?r = "pick I ?bs dentry_info_init"
  have found: "di_ino (I b) \<noteq> INVALID_NID \<longleftrightarrow> (\<exists>slot i ty. M b slot = Some (name, i, ty))" if "b \<in> set ?bs" for b
    using I(2) [OF that] by (auto simp: info_spec_def split: if_splits)
  show ?thesis
  proof (cases "\<exists>b \<in> set ?bs. \<exists>slot i ty. M b slot = Some (name, i, ty)")
    case True
    then obtain b where b: "b \<in> set ?bs" "di_ino (I b) \<noteq> INVALID_NID" "?r = I b" using pick_hit [of ?bs I] found by blast
    then have "\<exists>slot. M b slot = Some (name, di_ino ?r, di_type ?r) \<and> di_pos ?r = store_pos_set (word_of_nat b) (word_of_nat slot)"
      using I(2) [OF b(1)] by (auto simp: info_spec_def split: if_splits)
    then show ?thesis using s' True b(1) by (intro exI [of _ ?r] exI [of _ s']) auto
  next
    case False
    then have miss: "\<forall>b \<in> set ?bs. di_ino (I b) = INVALID_NID" using found by blast
    have sp: "sp_is_valid (di_pos (I b)) \<longleftrightarrow> (\<exists>q. room_at name (?v b) q)"
        "sp_is_valid (di_pos (I b)) \<Longrightarrow> \<exists>q. room_at name (?v b) q \<and> di_pos (I b) = store_pos_set (word_of_nat b) (word_of_nat q)"
      if "b \<in> set ?bs" for b using I(2) [OF that] False that by (auto simp: info_spec_def split: if_splits)
    note pm = pick_miss [OF miss, of dentry_info_init]
    have i0: "di_ino dentry_info_init = INVALID_NID" "\<not> sp_is_valid (di_pos dentry_info_init)" by (simp_all add: dentry_info_init_def dentry_store_pos_init_def)
    have "sp_is_valid (di_pos ?r) \<longleftrightarrow> (\<exists>b \<in> set ?bs. \<exists>q. room_at name (?v b) q)" using pm i0 sp(1) by blast
    moreover have "\<exists>b \<in> set ?bs. \<exists>q. room_at name (?v b) q \<and> di_pos ?r = store_pos_set (word_of_nat b) (word_of_nat q)" if "sp_is_valid (di_pos ?r)"
    proof -
      note valid = that
      obtain b where "b \<in> set ?bs" "sp_is_valid (di_pos (I b))" "di_pos ?r = di_pos (I b)" using pm i0 valid by metis
      then show ?thesis using sp(2) by metis
    qed
    moreover have "di_ino ?r = INVALID_NID" using pm i0 by simp
    ultimately show ?thesis using s' False by (intro exI [of _ ?r] exI [of _ s']) simp
  qed
qed


text \<open>A directory 10 of depth 0: block 0 is on the device and holds the name \<open>a\<close>, block 1 is not allocated.\<close>

definition sample_dir_inode :: hscfs_node where
  "sample_dir_inode = (set_wd 83 777 (set_wd 6 8192 zero_node))\<lparr>f_nid := 10, f_ino := 10\<rparr>"

definition sample_dir_block :: hscfs_dentry_block where
  "sample_dir_block = (case create_dentry_in_blk [97] 1 7 3 zero_block of Inr b \<Rightarrow> b)"

definition sample_dir :: dirsys where
  "sample_dir = \<lparr>ds_fs = sample_sys\<lparr>node_dev := [11 \<mapsto> sample_dir_inode]\<rparr>, ds_dir = dd_init 4, ds_dentry = dc_init 4,
     ds_dev = [777 \<mapsto> sample_dir_block]\<rparr>"

lemma sample_dir_block_ok: "represents sample_dir_block [3 \<mapsto> ([97], 7, 1)]"
proof -
  have "create_pos_free [97] 3 zero_block" by code_simp
  then obtain b where "create_dentry_in_blk [97] 1 7 3 zero_block = Inr b" "represents b (Map.empty(3 \<mapsto> ([97], 7, 1)))"
    using create_ok [OF represents_zero, of "[97]" 3 1 7] representsD(3) [OF represents_zero]
    by (auto simp: free_run_def GET_DENTRY_SLOTS_def)
  then show ?thesis by (simp add: sample_dir_block_def)
qed

lemma sample_dir_facts:
  "dir_idle (\<lambda>_. 0) {} (\<lambda>_. 0) 10 sample_dir_inode sample_dir"
  "dir_holds 10 sample_dir_inode (\<lambda>b. if b = 0 then [3 \<mapsto> ([97], 7, 1)] else Map.empty) sample_dir"
proof -
  let ?n = sample_dir_inode and ?fs = "ds_fs sample_dir"
  have w: "wd k ?n = (if k = 83 then 777 else if k = 6 then 8192 else 0)" if "k < 1020" for k
    using that by (simp add: sample_dir_inode_def)
  have a: "i_addr 0 ?n = 777" "i_addr (Suc 0) ?n = INVALID_LPA" by (simp_all add: i_addr_def w)
  have v: "node_view ?fs 10 = Some ?n" by (simp add: sample_dir_def sample_sys_def node_view_def node_ondisk_def)
  have c: "dd_content (ds_dir sample_dir) k = None" for k by (simp add: sample_dir_def dd_init_def dd_content_def)
  have nc: "nc_inv (\<lambda>_. 0) {} ?fs" "nc_room (\<lambda>_. 0) 6 ?fs" "meta_ready ?fs" "nid_in_range (fs_meta ?fs) 10"
    using sample_sys_facts(3,8) by (simp_all add: nc_inv_def nc_room_def meta_ready_def sample_dir_def sample_sys_def dirty_nids_def)
  have "dd_inv (\<lambda>_. 0) (ds_dir sample_dir)" by (simp add: sample_dir_def dd_init_inv)
  then show "dir_idle (\<lambda>_. 0) {} (\<lambda>_. 0) 10 ?n sample_dir"
    using nc v c by (simp add: dir_idle_def clean_blocks_def) (simp add: sample_dir_inode_def zero_node_def)
  have d0: "i_dir_level ?n = 0" "i_current_depth ?n = 0" "SIZE_TO_BLOCK (i_size ?n) = 2"
    by (simp_all add: i_dir_level_def i_current_depth_def i_size_def wd64_def w SIZE_TO_BLOCK_def)
  have "dir_view sample_dir 10 0 = Some sample_dir_block" "dir_view sample_dir 10 1 = None"
    using v c a by (simp_all add: dir_view_def) (simp add: sample_dir_def)
  then show "dir_holds 10 ?n (\<lambda>b. if b = 0 then [3 \<mapsto> ([97], 7, 1)] else Map.empty) sample_dir"
    using d0 a sample_dir_block_ok by (auto simp: dir_holds_def block_holds_def less_2_cases_iff)
qed

theorem lookup_correct_witness:
  "\<exists>info s'. lookup (\<lambda>_ _ _ _. None) 1 10 [97] sample_dir = (Inr info, s') \<and> di_ino info = 7 \<and> di_pos info = store_pos_set 0 3"
proof -
  let ?M = "\<lambda>b. if b = (0 :: nat) then [3 :: nat \<mapsto> ([97], 7, 1)] else (Map.empty :: slot_map)"
  have nb: "name_blocks sample_dir_inode [97] = [0, 1]"
  proof -
    have "i_dir_level sample_dir_inode = 0" "i_current_depth sample_dir_inode = 0"
      by (simp_all add: i_dir_level_def i_current_depth_def sample_dir_inode_def)
    then show ?thesis using bucket_blocks_small(2) [of 0 "hscfs_dentry_hash [97]"] by (simp add: name_blocks_def)
  qed
  have "\<exists>b \<in> set (name_blocks sample_dir_inode [97]). \<exists>slot i ty. ?M b slot = Some ([97], i, ty)" by (auto simp: nb)
  moreover have "i_dir_level sample_dir_inode = 0" "unat (i_current_depth sample_dir_inode) \<le> 7"
    by (simp_all add: i_dir_level_def i_current_depth_def sample_dir_inode_def)
  ultimately obtain info s' b slot where
    "lookup (\<lambda>_ _ _ _. None) (Suc 0) 10 [97] sample_dir = (Inr info, s')" "b \<in> set (name_blocks sample_dir_inode [97])"
    "?M b slot = Some ([97], di_ino info, di_type info)" "di_pos info = store_pos_set (word_of_nat b) (word_of_nat slot)"
    using lookup_correct [OF sample_dir_facts, of "[97]" "\<lambda>_ _ _ _. None" 0] by auto
  then show ?thesis by (intro exI [of _ info] exI [of _ s']) (auto simp: nb split: if_splits)
qed

end
