(* ===== verification/Replace_Protect.thy ===== *)
theory Replace_Protect
  imports Block_Lookup Dentry_Cache
begin

text \<open>
  Replacement protection, \<^verbatim>\<open>src/fs/replace_protect.cc\<close> with \<^verbatim>\<open>inc/fs/replace_protect.hh\<close>: the record
  of a transaction whose journal the SSD has not applied yet, the lists that the manager keeps of
  them, and the task that releases the cached blocks of a transaction once its journal is
  applied. What the calls do under the manager's lock is a function here; how the threads that
  make them are interleaved is in \<open>Protect_Threads\<close>.
\<close>

section \<open>Records\<close>

record trp_record =
  trp_tx_id :: u64
  trp_dirty_nodes :: "u32 list"
  trp_dirty_dentrys :: "dentry_key list"
  trp_journal :: journal_container
  trp_node_segs :: "u32 list"
  trp_data_segs :: "u32 list"

record rp_manager =
  trp_list :: "trp_record list"
  protect_processing_tx :: "u64 set"

definition rp_init :: rp_manager where
  "rp_init = \<lparr>trp_list = [], protect_processing_tx = {}\<rparr>"

definition add_tx :: "trp_record \<Rightarrow> rp_manager \<Rightarrow> rp_manager" where
  "add_tx r m = m\<lparr>trp_list := trp_list m @ [r]\<rparr>"

text \<open>
  The part of \<^verbatim>\<open>notify_cplt_tx\<close> under the lock, and the assertion after it. It gives the first
  record and whether the list has become empty.
\<close>

definition notify_cplt_tx :: "u64 \<Rightarrow> rp_manager \<Rightarrow> fault + (trp_record \<times> bool \<times> rp_manager)" where
  "notify_cplt_tx cplt m =
     (case trp_list m of
        [] \<Rightarrow> Inl Assert_failed
      | r # rs \<Rightarrow>
          if trp_tx_id r \<in> protect_processing_tx m then Inl Assert_failed
          else if trp_tx_id r \<noteq> cplt then Inl Assert_failed
          else Inr (r, rs = [], \<lparr>trp_list = rs, protect_processing_tx = insert (trp_tx_id r) (protect_processing_tx m)\<rparr>))"

text \<open>It gives whether no transaction is being processed any more.\<close>

definition mark_protect_process_cplt :: "u64 \<Rightarrow> rp_manager \<Rightarrow> fault + (bool \<times> rp_manager)" where
  "mark_protect_process_cplt t m =
     (if t \<notin> protect_processing_tx m then Inl Assert_failed
      else let ps = protect_processing_tx m - {t} in Inr (ps = {}, m\<lparr>protect_processing_tx := ps\<rparr>))"

text \<open>What the two waiting calls wait for.\<close>

definition journal_applied :: "rp_manager \<Rightarrow> bool" where
  "journal_applied m \<longleftrightarrow> trp_list m = []"

definition protect_cplt :: "rp_manager \<Rightarrow> bool" where
  "protect_cplt m \<longleftrightarrow> protect_processing_tx m = {}"

section \<open>The task\<close>

definition nat_add_SSD_version :: "u32 \<Rightarrow> (meta, unit) prog" where
  "nat_add_SSD_version lpa m = on_nat (sn_add_SSD_version (nat_dev m) lpa) m"

definition sit_add_SSD_version :: "u32 \<Rightarrow> (meta, unit) prog" where
  "sit_add_SSD_version lpa m = on_sit (sn_add_SSD_version (sit_dev m) lpa) m"

fun add_nat_versions :: "NAT_journal_entry list \<Rightarrow> (meta, unit) prog" where
  "add_nat_versions [] = ret ()"
| "add_nat_versions (e # es) =
     bnd (get_nid_pos_in_nat (nid e)) (\<lambda>(lpa, _).
     bnd (nat_add_SSD_version lpa) (\<lambda>_. add_nat_versions es))"

fun add_sit_versions :: "SIT_journal_entry list \<Rightarrow> (meta, unit) prog" where
  "add_sit_versions [] = ret ()"
| "add_sit_versions (e # es) =
     bnd (get_segid_pos_in_sit (segID e)) (\<lambda>(lpa, _).
     bnd (sit_add_SSD_version lpa) (\<lambda>_. add_sit_versions es))"

fun add_all_segs :: "(u32 \<Rightarrow> (meta, unit) prog) \<Rightarrow> u32 list \<Rightarrow> (meta, unit) prog" where
  "add_all_segs add [] = ret ()"
| "add_all_segs add (s # ss) = bnd (add s) (\<lambda>_. add_all_segs add ss)"

text \<open>
  The record is destroyed: its node handles are released one after the other. Handles of
  directory entries have no destructor, so the references they hold stay.
\<close>

fun release_nodes :: "u32 list \<Rightarrow> (fsys, unit) prog" where
  "release_nodes [] = ret ()"
| "release_nodes (n # ns) = bnd (nc_handle_dtor (Some n)) (\<lambda>_. release_nodes ns)"

definition replace_protect_task :: "trp_record \<Rightarrow> (fsys, unit) prog" where
  "replace_protect_task r =
     bnd (on_meta (add_nat_versions (NAT_journal (trp_journal r)))) (\<lambda>_.
     bnd (on_meta (add_sit_versions (SIT_journal (trp_journal r)))) (\<lambda>_.
     bnd (on_meta (add_all_segs add_to_node_segment_list (trp_node_segs r))) (\<lambda>_.
     bnd (on_meta (add_all_segs add_to_data_segment_list (trp_data_segs r))) (\<lambda>_.
     release_nodes (trp_dirty_nodes r)))))"

section \<open>Caches without their device\<close>

text \<open>
  When a block loses its last version it may be replaced, whether or not the device holds what the
  cache holds. What follows therefore says nothing of the device: it only speaks of the counts and
  of the structure of a cache, which is right for some content of the device.
\<close>

definition sn_counted :: "'b sn_cache \<Rightarrow> bool" where
  "sn_counted c \<longleftrightarrow> (\<exists>dev. sn_inv dev c)"

text \<open>While a block is cached, the device is not asked for it.\<close>

lemma sn_cached_dev:
  assumes "sn_inv dev c" "k \<in> dom (cm_index (sn_mgr c))"
  shows "sn_get dev' k c = sn_get dev k c" "sn_add_SSD_version dev' k c = sn_add_SSD_version dev k c"
proof -
  have "sn_get_inner dev' k a c = sn_get_inner dev k a c" for a
    using cm_get_ok [OF sn_invD(1) [OF assms(1)], of k a] assms(2) by (auto simp: sn_get_inner_def)
  then show "sn_get dev' k c = sn_get dev k c" "sn_add_SSD_version dev' k c = sn_add_SSD_version dev k c"
    by (simp_all add: sn_get_def sn_add_SSD_version_def)
qed

lemma sn_inv_own_view: "sn_inv dev c \<Longrightarrow> sn_inv (sn_view dev c) c"
  by (auto simp: sn_inv_def sn_view_def)

lemma sn_add_SSD_version_cached:
  assumes "sn_inv dev c" "sn_cur c \<le> sn_expect c" "k \<in> dom (cm_index (sn_mgr c))" "sn_add_SSD_version dev k c = Inr c'"
  shows "k \<in> dom (cm_index (sn_mgr c'))"
proof -
  obtain m where m: "cm_get k False (sn_mgr c) = Inr (cm_index (sn_mgr c) k, m)" "cm_inv m" "cm_index m = cm_index (sn_mgr c)"
    using cm_get_ok [OF sn_invD(1) [OF assms(1)], of k False] by blast
  obtain e where e: "cm_index (sn_mgr c) k = Some e" using assms(3) by auto
  then have le: "sne_lpa e = k" by (rule sn_inv_entry(1) [OF assms(1)])
  let ?m = "cm_update k (\<lambda>e. e\<lparr>sne_ref_count := sne_ref_count e - 1\<rparr>) m"
  have i: "cm_inv ?m" "k \<in> dom (cm_index ?m)" using m e by auto
  show ?thesis
  proof (cases "sne_ref_count e - 1 = 0")
    case True
    obtain m2 where m2: "cm_unpin k ?m = Inr m2" "cm_index m2 = cm_index ?m" using cm_unpin_ok [OF i] by blast
    show ?thesis using assms(2,4) m e le True m2
      by (auto simp: sn_add_SSD_version_def sn_get_inner_def sn_sub_refcount_def sn_do_replace_def Let_def)
  next
    case False
    then show ?thesis using assms(4) m e by (auto simp: sn_add_SSD_version_def sn_get_inner_def sn_sub_refcount_def Let_def)
  qed
qed

lemma sn_cached_refs: "sn_refs c k \<noteq> 0 \<Longrightarrow> k \<in> dom (cm_index (sn_mgr c))"
  by (auto simp: sn_refs_def split: option.splits)


lemma sn_counted_own: "sn_counted c \<Longrightarrow> sn_inv (sn_view dev c) c"
  by (auto simp: sn_counted_def sn_inv_def sn_view_def)

lemma sn_own_idem: "sn_view (sn_view dev c) c = sn_view dev c"
  by (auto simp: sn_view_def fun_eq_iff split: option.splits)

text \<open>A block that is not cached is read from the device, which is what the view shows.\<close>

lemma sn_get_own:
  assumes "sn_counted c"
  shows "sn_get (sn_view dev c) k c = sn_get dev k c"
proof -
  note i = sn_counted_own [OF assms, of dev]
  have "sn_get_inner (sn_view dev c) k a c = sn_get_inner dev k a c" for a
    using cm_get_ok [OF sn_invD(1) [OF i], of k a]
    by (cases "cm_index (sn_mgr c) k") (auto simp: sn_get_inner_def sn_read_lpa_def sn_view_def)
  then show ?thesis by (simp add: sn_get_def)
qed

text \<open>After a step, a block shows what it showed before (or \<open>V\<close>, at which it was written), or it is gone and shows the device.\<close>

definition drifts :: "(u32 \<Rightarrow> 'b option) \<Rightarrow> (u32 \<Rightarrow> 'b option) \<Rightarrow> 'b sn_cache \<Rightarrow> bool" where
  "drifts V dev c \<longleftrightarrow> (\<forall>k. sn_view dev c k = V k \<or> sn_refs c k = 0 \<and> sn_view dev c k = dev k)"

lemma drifts_ghost: "sn_view D c = V \<Longrightarrow> drifts V dev c"
  by (auto simp: drifts_def sn_view_def sn_refs_def fun_eq_iff split: option.splits)

lemma drifts_trans:
  assumes "drifts V dev c" "drifts (sn_view dev c) dev c'" "\<And>k. sn_refs c k = 0 \<Longrightarrow> sn_refs c' k = 0"
  shows "drifts V dev c'"
  using assms unfolding drifts_def by metis

lemma drifts_refl: "drifts (sn_view dev c) dev c"
  by (simp add: drifts_def)

lemma sn_release_any:
  assumes "sn_counted c" "sn_refs c k = Suc n"
  shows "\<exists>c'. sn_add_SSD_version dev k c = Inr c' \<and> sn_counted c' \<and> sn_refs c' = (sn_refs c)(k := n) \<and>
    drifts (sn_view dev c) dev c'"
proof -
  note i = sn_counted_own [OF assms(1), of dev]
  have k: "k \<in> dom (cm_index (sn_mgr c))" using assms(2) by (intro sn_cached_refs) simp
  obtain c' where "sn_add_SSD_version (sn_view dev c) k c = Inr c'" "sn_inv (sn_view dev c) c'"
      "sn_view (sn_view dev c) c' = sn_view dev c" "sn_refs c' = (sn_refs c)(k := n)"
    using sn_add_SSD_version_keeps [OF i assms(2)] by (auto simp: sn_own_idem elim: sn_keepsE)
  then show ?thesis
    using sn_cached_dev(2) [OF i k, of dev] drifts_ghost by (auto simp: sn_counted_def)
qed

lemma sn_write_any:
  assumes "sn_counted c" "sn_view dev c k = Some b" "Suc (sn_refs c k) < 2 ^ 32"
  shows "\<exists>c1 c2. sn_get dev k c = Inr c1 \<and> sn_deref k c1 = Inr b \<and> sn_sub_refcount k (sn_store k b' c1) = Inr c2 \<and>
    sn_counted c2 \<and> sn_refs c2 = sn_refs c \<and> drifts ((sn_view dev c)(k \<mapsto> b')) dev c2"
proof -
  let ?D = "sn_view dev c"
  let ?E = "?D(k \<mapsto> b')"
  note i = sn_counted_own [OF assms(1), of dev]
  obtain c1 where c1: "sn_get ?D k c = Inr c1" "sn_inv ?D c1" "sn_view ?D c1 = ?D" "sn_refs c1 = (sn_refs c)(k := Suc (sn_refs c k))"
    using sn_get_keeps [OF i _ assms(3)] assms(2) by (auto simp: sn_own_idem elim: sn_keepsE)
  have r: "sn_refs c1 k \<noteq> 0" using c1(4) by simp
  note st = sn_store_inv [OF c1(2) r, of b']
  obtain e where e: "cm_index (sn_mgr c1) k = Some e" "sne_ref_count e \<noteq> 0"
    using r by (auto simp: sn_refs_def unat_gt_0 split: option.splits)
  let ?s = "sn_store k b' c1"
  have ek: "cm_index (sn_mgr ?s) k = Some (e\<lparr>sne_cache := b'\<rparr>)" using e(1) by (simp add: sn_store_def)
  have iE: "sn_inv ?E ?s"
  proof (rule sn_invI)
    fix j x assume x: "cm_index (sn_mgr ?s) j = Some x"
    show "sne_lpa x = j" "j \<in> cm_pins (sn_mgr ?s) \<longleftrightarrow> sne_ref_count x \<noteq> 0" using sn_inv_entry(1,2) [OF st(1) x] by simp_all
    assume z: "sne_ref_count x = 0"
    then have "j \<noteq> k" using ek e(2) x by auto
    then show "?E j = Some (sne_cache x)" using sn_inv_entry(3) [OF st(1) x z] by simp
  qed (rule sn_invD(1,2) [OF st(1)])+
  have vE: "sn_view ?E ?s = ?E"
  proof
    fix j
    have "sn_view ?D ?s j = ?E j" using st(2) c1(3) by simp
    then show "sn_view ?E ?s j = ?E j" using ek by (cases "j = k"; cases "cm_index (sn_mgr ?s) j") (auto simp add: sn_view_def [of ?D ?s] sn_view_def [of ?E ?s])
  qed
  have "sn_refs (sn_store k b' c1) k = Suc (sn_refs c k)" using st(3) c1(4) by simp
  then obtain c2 where c2: "sn_sub_refcount k (sn_store k b' c1) = Inr c2" "sn_inv ?E c2" "sn_view ?E c2 = ?E"
      "sn_refs c2 = (sn_refs (sn_store k b' c1))(k := sn_refs c k)"
    using sn_sub_refcount_keeps [OF iE] vE by (metis sn_keepsE)
  have "sn_deref k c1 = Inr b" using sn_deref_view [OF r, of ?D b] c1(3) assms(2) by simp
  moreover have "sn_refs c2 = sn_refs c" unfolding c2(4) st(3) c1(4) by (simp add: fun_upd_idem)
  ultimately show ?thesis
    using c1(1) c2 sn_get_own [OF assms(1), of dev k] drifts_ghost by (auto simp: sn_counted_def)
qed

section \<open>Versions\<close>

lemma nat_versions_Cons: "nat_versions m (e # es) k = of_bool (nat_blk m (nid e) = k) + nat_versions m es k"
  by (simp add: nat_versions_def)

lemma sit_versions_Cons: "sit_versions m (e # es) k = of_bool (sit_blk m (segID e) = k) + sit_versions m es k"
  by (simp add: sit_versions_def)

lemma table_pos_cong:
  "nat_blk (m\<lparr>nat_cache := c\<rparr>) = nat_blk m" "sit_blk (m\<lparr>nat_cache := c\<rparr>) = sit_blk m"
  "nat_blk (m\<lparr>sit_cache := d\<rparr>) = nat_blk m" "sit_blk (m\<lparr>sit_cache := d\<rparr>) = sit_blk m"
  "nid_in_range (m\<lparr>nat_cache := c\<rparr>) = nid_in_range m" "seg_in_range (m\<lparr>sit_cache := d\<rparr>) = seg_in_range m"
  "seg_in_range (m\<lparr>nat_cache := c\<rparr>) = seg_in_range m"
  "nat_versions (m\<lparr>nat_cache := c\<rparr>) = nat_versions m" "sit_versions (m\<lparr>sit_cache := d\<rparr>) = sit_versions m"
  "sit_versions (m\<lparr>nat_cache := c\<rparr>) = sit_versions m"
  by (simp_all add: nat_blk_def sit_blk_def nid_in_range_def seg_in_range_def nat_versions_def sit_versions_def fun_eq_iff)

text \<open>One version is removed for each journal entry: the counts fall to what they were without them.\<close>

lemma add_nat_versions_ok:
  assumes "sn_counted (nat_cache m)" "\<forall>e \<in> set es. nid_in_range m (nid e)"
    "sn_refs (nat_cache m) = (\<lambda>k. base k + nat_versions m es k)"
  shows "\<exists>c. add_nat_versions es m = (Inr (), m\<lparr>nat_cache := c\<rparr>) \<and> sn_counted c \<and> sn_refs c = base \<and>
    drifts (nat_view m) (nat_dev m) c"
  using assms
proof (induction es arbitrary: m)
  case Nil
  then show ?case by (intro exI [of _ "nat_cache m"]) (simp add: prog_simps nat_view_def nat_versions_def drifts_refl)
next
  case (Cons e es)
  let ?k = "nat_blk m (nid e)"
  let ?n = "base ?k + nat_versions m es ?k"
  have "sn_refs (nat_cache m) ?k = Suc ?n" using Cons.prems(3) by (simp add: nat_versions_Cons)
  from sn_release_any [OF Cons.prems(1) this] obtain c where
    c: "sn_add_SSD_version (nat_dev m) ?k (nat_cache m) = Inr c" "sn_counted c"
      "sn_refs c = (sn_refs (nat_cache m))(?k := ?n)" "drifts (nat_view m) (nat_dev m) c" by (auto simp: nat_view_def)
  let ?m = "m\<lparr>nat_cache := c\<rparr>"
  have r: "sn_refs c = (\<lambda>k. base k + nat_versions m es k)"
    unfolding c(3) Cons.prems(3) by (auto simp: nat_versions_Cons fun_eq_iff)
  then obtain c' where c': "add_nat_versions es ?m = (Inr (), m\<lparr>nat_cache := c'\<rparr>)" "sn_counted c'" "sn_refs c' = base"
      "drifts (sn_view (nat_dev m) c) (nat_dev m) c'"
    using Cons.IH [of ?m] Cons.prems(2) c(2) by (auto simp: table_pos_cong nat_view_def)
  have "drifts (nat_view m) (nat_dev m) c'" by (rule drifts_trans [OF c(4) c'(4)]) (simp add: r c'(3))
  moreover have "add_nat_versions (e # es) m = add_nat_versions es ?m"
    using Cons.prems(2) c(1) get_nid_pos_ok [of m "nid e"]
    by (simp add: prog_simps nat_add_SSD_version_def on_nat_def)
  ultimately show ?case using c' by auto
qed

lemma add_sit_versions_ok:
  assumes "sn_counted (sit_cache m)" "\<forall>e \<in> set es. seg_in_range m (segID e)"
    "sn_refs (sit_cache m) = (\<lambda>k. base k + sit_versions m es k)"
  shows "\<exists>c. add_sit_versions es m = (Inr (), m\<lparr>sit_cache := c\<rparr>) \<and> sn_counted c \<and> sn_refs c = base \<and>
    drifts (sit_view m) (sit_dev m) c"
  using assms
proof (induction es arbitrary: m)
  case Nil
  then show ?case by (intro exI [of _ "sit_cache m"]) (simp add: prog_simps sit_view_def sit_versions_def drifts_refl)
next
  case (Cons e es)
  let ?k = "sit_blk m (segID e)"
  let ?n = "base ?k + sit_versions m es ?k"
  have "sn_refs (sit_cache m) ?k = Suc ?n" using Cons.prems(3) by (simp add: sit_versions_Cons)
  from sn_release_any [OF Cons.prems(1) this] obtain c where
    c: "sn_add_SSD_version (sit_dev m) ?k (sit_cache m) = Inr c" "sn_counted c"
      "sn_refs c = (sn_refs (sit_cache m))(?k := ?n)" "drifts (sit_view m) (sit_dev m) c" by (auto simp: sit_view_def)
  let ?m = "m\<lparr>sit_cache := c\<rparr>"
  have r: "sn_refs c = (\<lambda>k. base k + sit_versions m es k)"
    unfolding c(3) Cons.prems(3) by (auto simp: sit_versions_Cons fun_eq_iff)
  then obtain c' where c': "add_sit_versions es ?m = (Inr (), m\<lparr>sit_cache := c'\<rparr>)" "sn_counted c'" "sn_refs c' = base"
      "drifts (sn_view (sit_dev m) c) (sit_dev m) c'"
    using Cons.IH [of ?m] Cons.prems(2) c(2) by (auto simp: table_pos_cong sit_view_def)
  have "drifts (sit_view m) (sit_dev m) c'" by (rule drifts_trans [OF c(4) c'(4)]) (simp add: r c'(3))
  moreover have "add_sit_versions (e # es) m = add_sit_versions es ?m"
    using Cons.prems(2) c(1) get_segid_pos_ok [of m "segID e"]
    by (simp add: prog_simps sit_add_SSD_version_def on_sit_def)
  ultimately show ?case using c' by auto
qed

section \<open>Full segments\<close>

text \<open>The entry of a segment on the device.\<close>

definition sit_dev_at :: "meta \<Rightarrow> u32 \<rightharpoonup> hscfs_sit_entry" where
  "sit_dev_at m = tbl_at (sit_dev m) (sit_blkaddr (super_blk m)) SIT_ENTRY_PER_BLOCK"

text \<open>
  The entry of a segment is known when it is shown by the cache, and its block either stays
  referenced or is on the device with the same entry of this segment.
\<close>

definition seg_known :: "(u32 \<Rightarrow> nat) \<Rightarrow> (u32 \<Rightarrow> hscfs_sit_entry) \<Rightarrow> meta \<Rightarrow> u32 \<Rightarrow> bool" where
  "seg_known bs E m g \<longleftrightarrow> seg_in_range m g \<and> sit_at m g = Some (E g) \<and>
     (bs (sit_blk m g) \<noteq> 0 \<or> sit_dev_at m g = Some (E g))"

text \<open>What linking segments to a list whose head is \<open>h\<close> writes to the SIT: each points to the one before.\<close>

fun linked :: "(u32 \<Rightarrow> hscfs_sit_entry) \<Rightarrow> u32 \<Rightarrow> u32 list \<Rightarrow> SIT_journal_entry list" where
  "linked E h [] = []"
| "linked E h (g # gs) = \<lparr>segID = g, sit_newValue = SET_NEXT_SEG h (E g)\<rparr> # linked E g gs"

lemma drifts_sit_at:
  assumes "drifts V (sit_dev m) (sit_cache m)"
  shows "sit_at m g = tbl_at V (sit_blkaddr (super_blk m)) SIT_ENTRY_PER_BLOCK g \<or>
    sn_refs (sit_cache m) (sit_blk m g) = 0 \<and> sit_at m g = sit_dev_at m g"
  using spec [OF assms [unfolded drifts_def], of "sit_blk m g"]
  by (auto simp: sit_at_def sit_dev_at_def sit_blk_def sit_view_def tbl_at_def)

lemma link_one:
  fixes get_head :: "hscfs_super_block \<Rightarrow> u32"
  assumes lay: "\<And>v x. sit_blkaddr (set_head v x) = sit_blkaddr x \<and> segment_count_sit (set_head v x) = segment_count_sit x"
    and cnt: "sn_counted (sit_cache m)" "Suc (sn_refs (sit_cache m) (sit_blk m g)) < 2 ^ 32"
    and g: "seg_known (sn_refs (sit_cache m)) E m g"
  defines "e' \<equiv> SET_NEXT_SEG (get_head (super_blk m)) (E g)"
  obtains c where "add_seg_to_list g get_head set_head off m = (Inr (), m\<lparr>super_blk := set_head g (super_blk m), sit_cache := c,
        cur_journal := (cur_journal m)\<lparr>
          super_block_journal := super_block_journal (cur_journal m) @ [\<lparr>Off = off, newVal = g\<rparr>],
          SIT_journal := SIT_journal (cur_journal m) @ [\<lparr>segID = g, sit_newValue = e'\<rparr>]\<rparr>\<rparr>)"
    "sn_counted c" "sn_refs c = sn_refs (sit_cache m)"
    "(\<forall>m'. sit_cache m' = c \<and> sit_dev m' = sit_dev m \<and> super_blk m' = set_head g (super_blk m) \<longrightarrow>
       (\<forall>h. sn_refs c (sit_blk m h) \<noteq> 0 \<longrightarrow> sit_at m' h = ((sit_at m)(g \<mapsto> e')) h) \<and>
       (\<forall>h. h \<noteq> g \<and> seg_known (sn_refs (sit_cache m)) E m h \<longrightarrow> seg_known (sn_refs (sit_cache m)) E m' h))"
proof -
  let ?k = "sit_blk m g" and ?r = "sn_refs (sit_cache m)"
  have at: "sit_at m g = Some (E g)" "seg_in_range m g" using g by (simp_all add: seg_known_def)
  obtain b where b: "sn_view (sit_dev m) (sit_cache m) ?k = Some b" "unat (g mod 60) < length b" "b ! unat (g mod 60) = E g"
    using at(1) [unfolded sit_at_tbl] unfolding sit_blk_def by (rule tbl_at_Some)
  let ?b = "b[unat (g mod 60) := e']"
  obtain c1 c2 where c: "sn_get (sit_dev m) ?k (sit_cache m) = Inr c1" "sn_deref ?k c1 = Inr b"
      "sn_sub_refcount ?k (sn_store ?k ?b c1) = Inr c2" "sn_counted c2" "sn_refs c2 = ?r"
      "drifts ((sn_view (sit_dev m) (sit_cache m))(?k \<mapsto> ?b)) (sit_dev m) c2"
    using sn_write_any [OF cnt(1) b(1) cnt(2)] by blast
  have tbl: "tbl_at ((sn_view (sit_dev m) (sit_cache m))(?k \<mapsto> ?b)) (sit_blkaddr (super_blk m)) 60 = (sit_at m)(g \<mapsto> e')"
    unfolding sit_at_tbl sit_blk_def using b(1,2) unfolding sit_blk_def by (rule tbl_at_upd)
  have run: "add_seg_to_list g get_head set_head off m = (Inr (), m\<lparr>super_blk := set_head g (super_blk m), sit_cache := c2,
        cur_journal := (cur_journal m)\<lparr>
          super_block_journal := super_block_journal (cur_journal m) @ [\<lparr>Off = off, newVal = g\<rparr>],
          SIT_journal := SIT_journal (cur_journal m) @ [\<lparr>segID = g, sit_newValue = e'\<rparr>]\<rparr>\<rparr>)"
    using c(1,2) sn_handle_dtor_Inr [OF c(3)] b get_segid_pos_ok [OF at(2)]
    by (simp add: add_seg_to_list_def e'_def prog_simps meta_op_defs array_at_def array_set_def Let_def)
  have after: "(\<forall>h. sn_refs c2 (sit_blk m h) \<noteq> 0 \<longrightarrow> sit_at m' h = ((sit_at m)(g \<mapsto> e')) h) \<and>
       (\<forall>h. h \<noteq> g \<and> seg_known ?r E m h \<longrightarrow> seg_known ?r E m' h)"
    if m': "sit_cache m' = c2" "sit_dev m' = sit_dev m" "super_blk m' = set_head g (super_blk m)" for m'
  proof -
    have pos: "sit_blk m' = sit_blk m" "seg_in_range m' = seg_in_range m" "sit_dev_at m' = sit_dev_at m"
      using m' lay by (auto simp: sit_blk_def seg_in_range_def sit_dev_at_def)
    have "drifts ((sn_view (sit_dev m) (sit_cache m))(?k \<mapsto> ?b)) (sit_dev m') (sit_cache m')" using c(6) m' by simp
    from drifts_sit_at [OF this]
    have v: "sit_at m' h = ((sit_at m)(g \<mapsto> e')) h \<or> sn_refs c2 (sit_blk m h) = 0 \<and> sit_at m' h = sit_dev_at m h" for h
      using tbl m' lay pos by auto
    have "seg_known ?r E m' h" if "h \<noteq> g" "seg_known ?r E m h" for h
      using v [of h] that c(5) unfolding seg_known_def pos by auto
    moreover have "sit_at m' h = ((sit_at m)(g \<mapsto> e')) h" if "sn_refs c2 (sit_blk m h) \<noteq> 0" for h
      using v [of h] that by (elim disjE conjE) simp_all
    ultimately show ?thesis by simp
  qed
  show thesis by (rule that [OF run c(4,5)]) (use after in simp)
qed

text \<open>
  The SIT after linking, in any state with the cache \<open>c\<close> that resulted: blocks that are referenced
  show the links, and the entries of other segments are still known.
\<close>

definition link_done :: "(u32 \<Rightarrow> hscfs_sit_entry) \<Rightarrow> meta \<Rightarrow> u32 \<Rightarrow> u32 list \<Rightarrow> hscfs_sit_block sn_cache \<Rightarrow> bool" where
  "link_done E m h0 gs c \<longleftrightarrow>
     (\<forall>m'. sit_cache m' = c \<and> sit_dev m' = sit_dev m \<and> sit_blk m' = sit_blk m \<and> seg_in_range m' = seg_in_range m \<and>
        sit_blkaddr (super_blk m') = sit_blkaddr (super_blk m) \<longrightarrow>
       (\<forall>h. sn_refs c (sit_blk m h) \<noteq> 0 \<longrightarrow> sit_at m' h = replay_sit (linked E h0 gs) (sit_at m) h) \<and>
       (\<forall>h. h \<notin> set gs \<and> seg_known (sn_refs (sit_cache m)) E m h \<longrightarrow> seg_known (sn_refs (sit_cache m)) E m' h))"

lemma link_doneD:
  assumes "link_done E m h0 gs c" "sit_cache m' = c" "sit_dev m' = sit_dev m" "sit_blk m' = sit_blk m"
    "seg_in_range m' = seg_in_range m" "sit_blkaddr (super_blk m') = sit_blkaddr (super_blk m)"
  shows "sn_refs c (sit_blk m h) \<noteq> 0 \<Longrightarrow> sit_at m' h = replay_sit (linked E h0 gs) (sit_at m) h"
    "h \<notin> set gs \<Longrightarrow> seg_known (sn_refs (sit_cache m)) E m h \<Longrightarrow> seg_known (sn_refs (sit_cache m)) E m' h"
  using assms(1) [unfolded link_done_def, rule_format, OF conjI [OF assms(2) conjI [OF assms(3) conjI [OF assms(4) conjI [OF assms(5,6)]]]]]
  by blast+

lemma link_done_Nil: "link_done E m h0 [] (sit_cache m)"
proof -
  have "seg_known r E m' h = seg_known r E m h \<and> sit_at m' h = sit_at m h"
    if "sit_cache m' = sit_cache m" "sit_dev m' = sit_dev m" "sit_blk m' = sit_blk m" "seg_in_range m' = seg_in_range m"
      "sit_blkaddr (super_blk m') = sit_blkaddr (super_blk m)" for m' r h
  proof -
    have "sit_at m' = sit_at m" "sit_dev_at m' = sit_dev_at m" by (simp_all only: sit_at_def sit_dev_at_def sit_view_def that)
    then show ?thesis by (intro conjI) (simp_all only: seg_known_def that)
  qed
  then show ?thesis unfolding link_done_def linked.simps replay_simps by blast
qed

lemma replay_sit_local: "f x = f' x \<Longrightarrow> replay_sit es f x = replay_sit es f' x"
proof (induction es arbitrary: f f')
  case (Cons e es)
  have "(f(segID e \<mapsto> sit_newValue e)) x = (f'(segID e \<mapsto> sit_newValue e)) x" using Cons.prems by simp
  then show ?case unfolding replay_sit_def foldl.simps using Cons.IH [unfolded replay_sit_def] by blast
qed (simp add: replay_sit_def)

lemma link_done_Cons:
  assumes "\<forall>m'. sit_cache m' = c1 \<and> sit_dev m' = sit_dev m \<and> super_blk m' = sb \<longrightarrow>
       (\<forall>h. sn_refs c1 (sit_blk m h) \<noteq> 0 \<longrightarrow> sit_at m' h = ((sit_at m)(g \<mapsto> SET_NEXT_SEG h0 (E g))) h) \<and>
       (\<forall>h. h \<noteq> g \<and> seg_known (sn_refs (sit_cache m)) E m h \<longrightarrow> seg_known (sn_refs (sit_cache m)) E m' h)"
    and m1: "sit_cache m1 = c1" "sit_dev m1 = sit_dev m" "super_blk m1 = sb" "sit_blk m1 = sit_blk m"
      "seg_in_range m1 = seg_in_range m" "sit_blkaddr (super_blk m1) = sit_blkaddr (super_blk m)"
    and r: "sn_refs c1 = sn_refs (sit_cache m)" "sn_refs c2 = sn_refs c1" and d: "link_done E m1 g gs c2"
  shows "link_done E m h0 (g # gs) c2"
proof -
  let ?e = "SET_NEXT_SEG h0 (E g)" and ?r = "sn_refs (sit_cache m)"
  note s1 = assms(1) [rule_format, OF conjI [OF m1(1) conjI [OF m1(2,3)]]]
  have rep: "replay_sit (linked E h0 (g # gs)) f = replay_sit (linked E g gs) (f(g \<mapsto> ?e))" for f
    by (simp add: replay_sit_def)
  have "(sn_refs c2 (sit_blk m h) \<noteq> 0 \<longrightarrow> sit_at m' h = replay_sit (linked E h0 (g # gs)) (sit_at m) h) \<and>
       (h \<notin> set (g # gs) \<and> seg_known ?r E m h \<longrightarrow> seg_known ?r E m' h)"
    if m': "sit_cache m' = c2" "sit_dev m' = sit_dev m" "sit_blk m' = sit_blk m" "seg_in_range m' = seg_in_range m"
      "sit_blkaddr (super_blk m') = sit_blkaddr (super_blk m)" for m' h
  proof -
    have q: "sit_dev m' = sit_dev m1" "sit_blk m' = sit_blk m1" "seg_in_range m' = seg_in_range m1"
      "sit_blkaddr (super_blk m') = sit_blkaddr (super_blk m1)" using m' m1 by simp_all
    note D = link_doneD [OF d m'(1) q, of h]
    have "sit_at m' h = replay_sit (linked E g gs) ((sit_at m)(g \<mapsto> ?e)) h" if z: "sn_refs c2 (sit_blk m h) \<noteq> 0"
    proof -
      have "sn_refs c1 (sit_blk m h) \<noteq> 0" using z r(2) by metis
      then have "sit_at m1 h = ((sit_at m)(g \<mapsto> ?e)) h" using s1 by blast
      from replay_sit_local [where f = "sit_at m1" and f' = "(sit_at m)(g \<mapsto> ?e)", OF this]
      show ?thesis using D(1) z unfolding m1(4) by metis
    qed
    moreover have "seg_known ?r E m' h" if k: "h \<notin> set (g # gs)" "seg_known ?r E m h"
    proof -
      have "h \<noteq> g" "h \<notin> set gs" using k(1) by auto
      then have "seg_known ?r E m1 h" using s1 k(2) by blast
      then show ?thesis using D(2) \<open>h \<notin> set gs\<close> unfolding m1(1) r(1) by blast
    qed
    ultimately show ?thesis unfolding rep by blast
  qed
  then show ?thesis unfolding link_done_def by blast
qed

lemma link_list:
  fixes get_head :: "hscfs_super_block \<Rightarrow> u32"
  assumes add: "\<And>s. add s = add_seg_to_list s get_head set_head off"
    and lay: "\<And>v x. sit_blkaddr (set_head v x) = sit_blkaddr x \<and> segment_count_sit (set_head v x) = segment_count_sit x"
    and fld: "\<And>v x. get_head (set_head v x) = v" "\<And>x. set_head (get_head x) x = x" "\<And>v w x. set_head v (set_head w x) = set_head v x"
    and m: "sn_counted (sit_cache m)" "\<forall>k. Suc (sn_refs (sit_cache m) k) < 2 ^ 32" "distinct gs"
      "\<forall>g \<in> set gs. seg_known (sn_refs (sit_cache m)) E m g"
  shows "\<exists>c. add_all_segs add gs m = (Inr (), m\<lparr>super_blk := set_head (last (get_head (super_blk m) # gs)) (super_blk m), sit_cache := c,
        cur_journal := (cur_journal m)\<lparr>
          super_block_journal := super_block_journal (cur_journal m) @ map (\<lambda>g. \<lparr>Off = off, newVal = g\<rparr>) gs,
          SIT_journal := SIT_journal (cur_journal m) @ linked E (get_head (super_blk m)) gs\<rparr>\<rparr>) \<and>
    sn_counted c \<and> sn_refs c = sn_refs (sit_cache m) \<and>
    link_done E m (get_head (super_blk m)) gs c"
  using m
proof (induction gs arbitrary: m)
  case Nil
  have "add_all_segs add [] m = (Inr (), m\<lparr>super_blk := set_head (last [get_head (super_blk m)]) (super_blk m), sit_cache := sit_cache m,
      cur_journal := (cur_journal m)\<lparr>super_block_journal := super_block_journal (cur_journal m) @ map (\<lambda>g. \<lparr>Off = off, newVal = g\<rparr>) [],
        SIT_journal := SIT_journal (cur_journal m) @ linked E (get_head (super_blk m)) []\<rparr>\<rparr>)"
    by (simp add: prog_simps fld)
  then show ?case using Nil.prems(1) link_done_Nil by blast
next
  case (Cons g gs)
  let ?r = "sn_refs (sit_cache m)" and ?h = "get_head (super_blk m)"
  let ?e = "SET_NEXT_SEG ?h (E g)"
  obtain c where c: "add_seg_to_list g get_head set_head off m = (Inr (), m\<lparr>super_blk := set_head g (super_blk m), sit_cache := c,
        cur_journal := (cur_journal m)\<lparr>
          super_block_journal := super_block_journal (cur_journal m) @ [\<lparr>Off = off, newVal = g\<rparr>],
          SIT_journal := SIT_journal (cur_journal m) @ [\<lparr>segID = g, sit_newValue = ?e\<rparr>]\<rparr>\<rparr>)"
      "sn_counted c" "sn_refs c = ?r"
      "\<forall>m'. sit_cache m' = c \<and> sit_dev m' = sit_dev m \<and> super_blk m' = set_head g (super_blk m) \<longrightarrow>
       (\<forall>h. sn_refs c (sit_blk m h) \<noteq> 0 \<longrightarrow> sit_at m' h = ((sit_at m)(g \<mapsto> ?e)) h) \<and>
       (\<forall>h. h \<noteq> g \<and> seg_known ?r E m h \<longrightarrow> seg_known ?r E m' h)"
    by (rule link_one [OF lay Cons.prems(1) spec [OF Cons.prems(2)] bspec [OF Cons.prems(4) list.set_intros(1)]])
  define m1 where "m1 = m\<lparr>super_blk := set_head g (super_blk m), sit_cache := c,
        cur_journal := (cur_journal m)\<lparr>
          super_block_journal := super_block_journal (cur_journal m) @ [\<lparr>Off = off, newVal = g\<rparr>],
          SIT_journal := SIT_journal (cur_journal m) @ [\<lparr>segID = g, sit_newValue = ?e\<rparr>]\<rparr>\<rparr>"
  have m1: "sit_cache m1 = c" "sit_dev m1 = sit_dev m" "super_blk m1 = set_head g (super_blk m)" "sit_blk m1 = sit_blk m"
      "seg_in_range m1 = seg_in_range m" "sit_blkaddr (super_blk m1) = sit_blkaddr (super_blk m)"
    using lay by (simp_all add: m1_def sit_blk_def seg_in_range_def fun_eq_iff)
  note s1 = c(4) [rule_format, OF conjI [OF m1(1) conjI [OF m1(2,3)]]]
  have "\<forall>x \<in> set gs. seg_known (sn_refs (sit_cache m1)) E m1 x" using s1 Cons.prems(3,4) c(3) m1(1) by auto
  moreover have "sn_counted (sit_cache m1)" "\<forall>k. Suc (sn_refs (sit_cache m1) k) < 2 ^ 32" "distinct gs"
    using c(2,3) Cons.prems(2,3) m1(1) by simp_all
  ultimately obtain c' where c': "add_all_segs add gs m1 = (Inr (), m1\<lparr>super_blk := set_head (last (get_head (super_blk m1) # gs)) (super_blk m1), sit_cache := c',
        cur_journal := (cur_journal m1)\<lparr>
          super_block_journal := super_block_journal (cur_journal m1) @ map (\<lambda>g. \<lparr>Off = off, newVal = g\<rparr>) gs,
          SIT_journal := SIT_journal (cur_journal m1) @ linked E (get_head (super_blk m1)) gs\<rparr>\<rparr>)"
      "sn_counted c'" "sn_refs c' = sn_refs (sit_cache m1)" "link_done E m1 (get_head (super_blk m1)) gs c'"
    using Cons.IH [of m1] by blast
  have "add_all_segs add (g # gs) m = (Inr (), m\<lparr>super_blk := set_head (last (?h # g # gs)) (super_blk m), sit_cache := c',
        cur_journal := (cur_journal m)\<lparr>
          super_block_journal := super_block_journal (cur_journal m) @ map (\<lambda>g. \<lparr>Off = off, newVal = g\<rparr>) (g # gs),
          SIT_journal := SIT_journal (cur_journal m) @ linked E ?h (g # gs)\<rparr>\<rparr>)"
    using c(1) c'(1) by (simp add: add prog_simps m1_def fld)
  moreover have "link_done E m ?h (g # gs) c'"
    using link_done_Cons [OF c(4) m1 c(3)] c'(3,4) m1(1,3) fld(1) by simp
  moreover have "sn_refs c' = ?r" using c'(3) m1(1) c(3) by simp
  ultimately show ?case using c'(2) by blast
qed

section \<open>Node handles\<close>

text \<open>The node cache, for some content of the tables and of the device.\<close>

definition nc_counted :: "(u32 \<Rightarrow> nat) \<Rightarrow> fsys \<Rightarrow> bool" where
  "nc_counted ext s \<longleftrightarrow> (\<exists>g d. nc_inv ext {} (s\<lparr>fs_meta := g, node_dev := d\<rparr>))"

lemma nc_counted_meta [simp]: "nc_counted ext (s\<lparr>fs_meta := m\<rparr>) = nc_counted ext s"
  by (simp add: nc_counted_def)

text \<open>Giving a handle on a node that is not deleted back only concerns the entries of the cache.\<close>

lemma nc_sub_live:
  assumes "nc_ix s k = Some e" "nb_state e \<noteq> Deleted"
  shows "nc_sub_refcount k s =
    (let u = cm_update k (\<lambda>e. e\<lparr>nb_ref_count := nb_ref_count e - 1\<rparr>) (nc_mgr s) in
     case (if nb_ref_count e - 1 = 0 then cm_unpin (nb_nid e) u else Inr u) of
       Inl f \<Rightarrow> (Inl f, s\<lparr>nc_mgr := u\<rparr>) | Inr m \<Rightarrow> (Inr (), s\<lparr>nc_mgr := m\<rparr>))"
  using assms
  by (auto simp: nc_sub_refcount.simps nc_dec_def nc_write_def nc_entry_def on_mgr_def prog_simps Let_def split: sum.splits)

lemma nc_handle_dtor_any:
  assumes "nc_counted ext s" "ext k \<noteq> 0"
  shows "\<exists>m. nc_handle_dtor (Some k) s = (Inr (), s\<lparr>nc_mgr := m\<rparr>) \<and> nc_counted (ext(k := ext k - 1)) (s\<lparr>nc_mgr := m\<rparr>) \<and>
    (\<forall>j. map_option nb_node (cm_index m j) = map_option nb_node (nc_ix s j))"
proof -
  obtain g d where i: "nc_inv ext {} (s\<lparr>fs_meta := g, node_dev := d\<rparr>)" using assms(1) by (auto simp: nc_counted_def)
  let ?t = "s\<lparr>fs_meta := g, node_dev := d\<rparr>"
  obtain m where m: "nc_sub_refcount k ?t = (Inr (), ?t\<lparr>nc_mgr := m\<rparr>)" "nc_inv (ext(k := ext k - 1)) {} (?t\<lparr>nc_mgr := m\<rparr>)"
      "nc_frame ?t (?t\<lparr>nc_mgr := m\<rparr>)" "dom (cm_index m) = dom (nc_ix ?t)"
    using nc_sub_refcount_ok [OF i assms(2)] by blast
  obtain e where e: "nc_ix s k = Some e" "nb_state e \<noteq> Deleted"
    using nc_invD(6) [OF i] nc_invD(8) [OF i, unfolded nc_entry_ok_def] assms(2) by fastforce
  have "nc_sub_refcount k s = (Inr (), s\<lparr>nc_mgr := m\<rparr>)"
    using arg_cong [OF m(1), of fst] arg_cong [OF m(1), of "\<lambda>x. nc_mgr (snd x)"] nc_sub_live [OF e] nc_sub_live [of ?t k e] e
    by (auto simp: Let_def split: sum.splits if_splits)
  moreover have "map_option nb_node (cm_index m j) = map_option nb_node (nc_ix s j)" for j
  proof -
    have "node_view (?t\<lparr>nc_mgr := m\<rparr>) j = node_view ?t j" using m(3) by (simp add: nc_frame_def)
    moreover have "j \<in> dom (cm_index m) \<longleftrightarrow> j \<in> dom (nc_ix s)" using m(4) by simp
    ultimately show ?thesis by (auto simp: node_view_def split: option.splits)
  qed
  moreover have "nc_counted (ext(k := ext k - 1)) (s\<lparr>nc_mgr := m\<rparr>)"
  proof -
    have "s\<lparr>nc_mgr := m, fs_meta := g, node_dev := d\<rparr> = ?t\<lparr>nc_mgr := m\<rparr>" by simp
    then show ?thesis using m(2) unfolding nc_counted_def by metis
  qed
  ultimately show ?thesis by (simp add: nc_handle_dtor_def nc_do_subref_def catch_all_def) blast
qed

lemma release_nodes_ok:
  assumes "nc_counted ext s" "\<forall>n. count_list ns n \<le> ext n"
  shows "\<exists>m. release_nodes ns s = (Inr (), s\<lparr>nc_mgr := m\<rparr>) \<and> nc_counted (\<lambda>n. ext n - count_list ns n) (s\<lparr>nc_mgr := m\<rparr>) \<and>
    (\<forall>j. map_option nb_node (cm_index m j) = map_option nb_node (nc_ix s j))"
  using assms
proof (induction ns arbitrary: ext s)
  case Nil
  then show ?case by (intro exI [of _ "nc_mgr s"]) (simp add: prog_simps)
next
  case (Cons n ns)
  have "ext n \<noteq> 0" using Cons.prems(2) [rule_format, of n] by simp
  then obtain m where m: "nc_handle_dtor (Some n) s = (Inr (), s\<lparr>nc_mgr := m\<rparr>)" "nc_counted (ext(n := ext n - 1)) (s\<lparr>nc_mgr := m\<rparr>)"
      "\<forall>j. map_option nb_node (cm_index m j) = map_option nb_node (nc_ix s j)"
    using nc_handle_dtor_any [OF Cons.prems(1)] by blast
  have "\<forall>k. count_list ns k \<le> (ext(n := ext n - 1)) k"
  proof
    fix k show "count_list ns k \<le> (ext(n := ext n - 1)) k" using Cons.prems(2) [rule_format, of k] by auto
  qed
  from Cons.IH [OF m(2) this] obtain m' where m': "release_nodes ns (s\<lparr>nc_mgr := m\<rparr>) = (Inr (), s\<lparr>nc_mgr := m'\<rparr>)"
      "nc_counted (\<lambda>k. (ext(n := ext n - 1)) k - count_list ns k) (s\<lparr>nc_mgr := m'\<rparr>)"
      "\<forall>j. map_option nb_node (cm_index m' j) = map_option nb_node (cm_index m j)" by auto
  moreover have "(\<lambda>k. (ext(n := ext n - 1)) k - count_list ns k) = (\<lambda>k. ext k - count_list (n # ns) k)"
    by (auto simp: fun_eq_iff)
  ultimately show ?case using m by (intro exI [of _ m']) (simp add: prog_simps)
qed

section \<open>The task as a whole\<close>

text \<open>
  The references of the NAT and SIT blocks when the task runs: \<open>bn\<close> and \<open>bs\<close> are those of other
  transactions and handles, and each journal entry accounts for one more. Nothing is said about
  what the device holds.
\<close>

definition tx_held :: "(u32 \<Rightarrow> nat) \<Rightarrow> (u32 \<Rightarrow> nat) \<Rightarrow> journal_container \<Rightarrow> meta \<Rightarrow> bool" where
  "tx_held bn bs j m \<longleftrightarrow>
     (\<forall>e \<in> set (NAT_journal j). nid_in_range m (nid e)) \<and> (\<forall>e \<in> set (SIT_journal j). seg_in_range m (segID e)) \<and>
     sn_refs (nat_cache m) = (\<lambda>k. bn k + nat_versions m (NAT_journal j) k) \<and>
     sn_refs (sit_cache m) = (\<lambda>k. bs k + sit_versions m (SIT_journal j) k)"

lemma versions_removed:
  assumes "sn_counted (nat_cache m)" "sn_counted (sit_cache m)" "tx_held bn bs j m"
  shows "\<exists>c d. bnd (add_nat_versions (NAT_journal j)) (\<lambda>_. add_sit_versions (SIT_journal j)) m =
      (Inr (), m\<lparr>nat_cache := c, sit_cache := d\<rparr>) \<and>
    sn_counted c \<and> sn_refs c = bn \<and> drifts (nat_view m) (nat_dev m) c \<and>
    sn_counted d \<and> sn_refs d = bs \<and> drifts (sit_view m) (sit_dev m) d"
proof -
  obtain c where c: "add_nat_versions (NAT_journal j) m = (Inr (), m\<lparr>nat_cache := c\<rparr>)" "sn_counted c" "sn_refs c = bn"
      "drifts (nat_view m) (nat_dev m) c"
    using add_nat_versions_ok [OF assms(1), of "NAT_journal j" bn] assms(3) by (auto simp: tx_held_def)
  let ?m = "m\<lparr>nat_cache := c\<rparr>"
  have "sn_counted (sit_cache ?m)" "\<forall>e \<in> set (SIT_journal j). seg_in_range ?m (segID e)"
      "sn_refs (sit_cache ?m) = (\<lambda>k. bs k + sit_versions ?m (SIT_journal j) k)"
    using assms(2,3) by (simp_all add: tx_held_def table_pos_cong)
  then obtain d where d: "add_sit_versions (SIT_journal j) ?m = (Inr (), ?m\<lparr>sit_cache := d\<rparr>)" "sn_counted d" "sn_refs d = bs"
      "drifts (sit_view ?m) (sit_dev ?m) d"
    using add_sit_versions_ok [of ?m "SIT_journal j" bs] by blast
  moreover have "sit_view ?m = sit_view m" "sit_dev ?m = sit_dev m" by (simp_all add: sit_view_def)
  ultimately show ?thesis using c by (intro exI [of _ c] exI [of _ d]) (simp add: prog_simps)
qed

lemma seg_known_drift:
  assumes "drifts (sit_view m) (sit_dev m) d" "sn_refs d = bs" "seg_known bs E m g"
  shows "seg_known bs E (m\<lparr>nat_cache := c, sit_cache := d\<rparr>) g"
proof -
  let ?m = "m\<lparr>nat_cache := c, sit_cache := d\<rparr>"
  have "drifts (sit_view m) (sit_dev ?m) (sit_cache ?m)" using assms(1) by simp
  from drifts_sit_at [OF this, of g] show ?thesis
    using assms(2,3) by (auto simp: seg_known_def sit_at_def sit_dev_at_def sit_blk_def seg_in_range_def)
qed

lemma on_meta_bnd: "on_meta (bnd p f) = bnd (on_meta p) (\<lambda>x. on_meta (f x))"
  by (simp add: on_meta_def bnd_def fun_eq_iff split: prod.splits sum.splits)

lemma replace_protect_task_split:
  "replace_protect_task r =
     bnd (on_meta (bnd (add_nat_versions (NAT_journal (trp_journal r))) (\<lambda>_. add_sit_versions (SIT_journal (trp_journal r))))) (\<lambda>_.
     bnd (on_meta (bnd (add_all_segs add_to_node_segment_list (trp_node_segs r)) (\<lambda>_. add_all_segs add_to_data_segment_list (trp_data_segs r)))) (\<lambda>_.
     release_nodes (trp_dirty_nodes r)))"
  unfolding replace_protect_task_def on_meta_bnd bnd_assoc ..

text \<open>Both lists, one after the other.\<close>

definition linked_super :: "trp_record \<Rightarrow> hscfs_super_block \<Rightarrow> hscfs_super_block" where
  "linked_super r s = s\<lparr>first_node_segment_id := last (first_node_segment_id s # trp_node_segs r),
     first_data_segment_id := last (first_data_segment_id s # trp_data_segs r)\<rparr>"

definition linked_sit :: "(u32 \<Rightarrow> hscfs_sit_entry) \<Rightarrow> trp_record \<Rightarrow> hscfs_super_block \<Rightarrow> SIT_journal_entry list" where
  "linked_sit E r s = linked E (first_node_segment_id s) (trp_node_segs r) @ linked E (first_data_segment_id s) (trp_data_segs r)"

definition linked_journal :: "(u32 \<Rightarrow> hscfs_sit_entry) \<Rightarrow> trp_record \<Rightarrow> hscfs_super_block \<Rightarrow> journal_container \<Rightarrow> journal_container" where
  "linked_journal E r s j = j\<lparr>
     super_block_journal := super_block_journal j @
       map (\<lambda>g. \<lparr>Off = off_first_node_segment_id, newVal = g\<rparr>) (trp_node_segs r) @
       map (\<lambda>g. \<lparr>Off = off_first_data_segment_id, newVal = g\<rparr>) (trp_data_segs r),
     SIT_journal := SIT_journal j @ linked_sit E r s\<rparr>"

lemma link_segs:
  assumes "sn_counted (sit_cache m)" "\<forall>k. Suc (sn_refs (sit_cache m) k) < 2 ^ 32" "distinct (trp_node_segs r @ trp_data_segs r)"
    "\<forall>g \<in> set (trp_node_segs r @ trp_data_segs r). seg_known (sn_refs (sit_cache m)) E m g"
  shows "\<exists>c. bnd (add_all_segs add_to_node_segment_list (trp_node_segs r)) (\<lambda>_. add_all_segs add_to_data_segment_list (trp_data_segs r)) m =
      (Inr (), m\<lparr>super_blk := linked_super r (super_blk m), sit_cache := c, cur_journal := linked_journal E r (super_blk m) (cur_journal m)\<rparr>) \<and>
    sn_counted c \<and> sn_refs c = sn_refs (sit_cache m) \<and>
    (\<forall>g. sn_refs c (sit_blk m g) \<noteq> 0 \<longrightarrow>
       sit_at (m\<lparr>super_blk := linked_super r (super_blk m), sit_cache := c, cur_journal := j\<rparr>) g = replay_sit (linked_sit E r (super_blk m)) (sit_at m) g)"
proof -
  let ?ns = "trp_node_segs r" and ?ds = "trp_data_segs r" and ?s = "super_blk m"
  obtain c where c: "add_all_segs add_to_node_segment_list ?ns m = (Inr (), m\<lparr>super_blk := ?s\<lparr>first_node_segment_id := last (first_node_segment_id ?s # ?ns)\<rparr>,
        sit_cache := c, cur_journal := (cur_journal m)\<lparr>
          super_block_journal := super_block_journal (cur_journal m) @ map (\<lambda>g. \<lparr>Off = off_first_node_segment_id, newVal = g\<rparr>) ?ns,
          SIT_journal := SIT_journal (cur_journal m) @ linked E (first_node_segment_id ?s) ?ns\<rparr>\<rparr>)"
      "sn_counted c" "sn_refs c = sn_refs (sit_cache m)" "link_done E m (first_node_segment_id ?s) ?ns c"
    using link_list [OF add_to_node_segment_list_def _ _ _ _ assms(1,2), of ?ns E] assms(3,4) by auto
  define m1 where "m1 = m\<lparr>super_blk := ?s\<lparr>first_node_segment_id := last (first_node_segment_id ?s # ?ns)\<rparr>,
        sit_cache := c, cur_journal := (cur_journal m)\<lparr>
          super_block_journal := super_block_journal (cur_journal m) @ map (\<lambda>g. \<lparr>Off = off_first_node_segment_id, newVal = g\<rparr>) ?ns,
          SIT_journal := SIT_journal (cur_journal m) @ linked E (first_node_segment_id ?s) ?ns\<rparr>\<rparr>"
  have m1: "sit_cache m1 = c" "sit_dev m1 = sit_dev m" "sit_blk m1 = sit_blk m" "seg_in_range m1 = seg_in_range m"
      "sit_blkaddr (super_blk m1) = sit_blkaddr ?s" "first_data_segment_id (super_blk m1) = first_data_segment_id ?s"
    by (simp_all add: m1_def sit_blk_def seg_in_range_def fun_eq_iff)
  note D1 = link_doneD [OF c(4) m1(1-5)]
  have k1: "\<forall>g \<in> set ?ds. seg_known (sn_refs (sit_cache m1)) E m1 g"
  proof
    fix g assume "g \<in> set ?ds"
    then have "g \<notin> set ?ns" "seg_known (sn_refs (sit_cache m)) E m g" using assms(3,4) by auto
    then show "seg_known (sn_refs (sit_cache m1)) E m1 g" using D1(2) unfolding m1(1) c(3) by blast
  qed
  have "sn_counted (sit_cache m1)" "\<forall>k. Suc (sn_refs (sit_cache m1) k) < 2 ^ 32" "distinct ?ds"
    using c(2,3) assms(2,3) m1(1) by simp_all
  then obtain d where d: "add_all_segs add_to_data_segment_list ?ds m1 = (Inr (), m1\<lparr>
        super_blk := (super_blk m1)\<lparr>first_data_segment_id := last (first_data_segment_id (super_blk m1) # ?ds)\<rparr>,
        sit_cache := d, cur_journal := (cur_journal m1)\<lparr>
          super_block_journal := super_block_journal (cur_journal m1) @ map (\<lambda>g. \<lparr>Off = off_first_data_segment_id, newVal = g\<rparr>) ?ds,
          SIT_journal := SIT_journal (cur_journal m1) @ linked E (first_data_segment_id (super_blk m1)) ?ds\<rparr>\<rparr>)"
      "sn_counted d" "sn_refs d = sn_refs (sit_cache m1)" "link_done E m1 (first_data_segment_id (super_blk m1)) ?ds d"
    using link_list [OF add_to_data_segment_list_def _ _ _ _, of m1 ?ds E] k1 by auto
  let ?m2 = "\<lambda>j. m\<lparr>super_blk := linked_super r ?s, sit_cache := d, cur_journal := j\<rparr>"
  have run: "bnd (add_all_segs add_to_node_segment_list ?ns) (\<lambda>_. add_all_segs add_to_data_segment_list ?ds) m =
      (Inr (), ?m2 (linked_journal E r ?s (cur_journal m)))"
    using c(1) d(1) by (simp add: prog_simps m1_def linked_super_def linked_journal_def linked_sit_def)
  have rep: "sit_at (?m2 j) g = replay_sit (linked_sit E r ?s) (sit_at m) g" if z: "sn_refs d (sit_blk m g) \<noteq> 0" for g
  proof -
    have m2: "sit_cache (?m2 j) = d" "sit_dev (?m2 j) = sit_dev m1" "sit_blk (?m2 j) = sit_blk m1"
        "seg_in_range (?m2 j) = seg_in_range m1" "sit_blkaddr (super_blk (?m2 j)) = sit_blkaddr (super_blk m1)"
      by (simp_all add: m1_def linked_super_def sit_blk_def seg_in_range_def fun_eq_iff)
    have zc: "sn_refs c (sit_blk m g) \<noteq> 0" using z d(3) m1(1) by simp
    have "sit_at (?m2 j) g = replay_sit (linked E (first_data_segment_id ?s) ?ds) (sit_at m1) g"
      using link_doneD(1) [OF d(4) m2] z m1(3,6) by simp
    also have "\<dots> = replay_sit (linked E (first_data_segment_id ?s) ?ds) (replay_sit (linked E (first_node_segment_id ?s) ?ns) (sit_at m)) g"
      using D1(1) [OF zc] by (rule replay_sit_local)
    finally show ?thesis by (simp add: linked_sit_def)
  qed
  have "sn_refs d = sn_refs (sit_cache m)" using d(3) m1(1) c(3) by simp
  then show ?thesis using run rep d(2) by (intro exI [of _ d]) blast
qed

section \<open>Properties\<close>

text \<open>
  C13. The task of a transaction, for any transaction and whatever the device holds by then. It
  does not fail, and it releases what the transaction held and nothing else: the references of every
  NAT and SIT block fall to \<open>bn\<close> and \<open>bs\<close>, those that other transactions and handles have, one
  version for each entry of the journal, and NAT blocks that are still referenced keep their
  content; each node handle of the record is given back, and no content of a node changes. The
  full segments, node segments first, are put one by one at the heads of their lists in the super
  block, and the current journal gains for each of them the new head and the SIT entry that it had,
  \<open>E\<close>, with the pointer to the head before; where its block of the SIT stays referenced, the cache
  shows the link. The segments are distinct, and their entries are known: they are shown by the
  cache, and their blocks stay referenced or are on the device with the same entry.
\<close>

theorem protect_task_settles:
  assumes "nc_counted ext s" "sn_counted (nat_cache (fs_meta s))" "sn_counted (sit_cache (fs_meta s))"
    and "tx_held bn bs (trp_journal r) (fs_meta s)" "\<forall>k. Suc (bs k) < 2 ^ 32"
    and "distinct (trp_node_segs r @ trp_data_segs r)"
    and "\<forall>g \<in> set (trp_node_segs r @ trp_data_segs r). seg_known bs E (fs_meta s) g"
    and "\<forall>n. count_list (trp_dirty_nodes r) n \<le> ext n"
  shows "\<exists>s'. replace_protect_task r s = (Inr (), s') \<and>
    sn_counted (nat_cache (fs_meta s')) \<and> sn_refs (nat_cache (fs_meta s')) = bn \<and>
    sn_counted (sit_cache (fs_meta s')) \<and> sn_refs (sit_cache (fs_meta s')) = bs \<and>
    (\<forall>k. bn k \<noteq> 0 \<longrightarrow> nat_view (fs_meta s') k = nat_view (fs_meta s) k) \<and>
    nc_counted (\<lambda>n. ext n - count_list (trp_dirty_nodes r) n) s' \<and>
    (\<forall>n. map_option nb_node (nc_ix s' n) = map_option nb_node (nc_ix s n)) \<and>
    super_blk (fs_meta s') = linked_super r (super_blk (fs_meta s)) \<and>
    cur_journal (fs_meta s') = linked_journal E r (super_blk (fs_meta s)) (cur_journal (fs_meta s)) \<and>
    (\<forall>g. bs (sit_blk (fs_meta s) g) \<noteq> 0 \<longrightarrow>
       sit_at (fs_meta s') g = replay_sit (linked_sit E r (super_blk (fs_meta s))) (sit_at (fs_meta s)) g)"
proof -
  let ?m = "fs_meta s"
  obtain c d where cd: "bnd (add_nat_versions (NAT_journal (trp_journal r))) (\<lambda>_. add_sit_versions (SIT_journal (trp_journal r))) ?m =
      (Inr (), ?m\<lparr>nat_cache := c, sit_cache := d\<rparr>)"
      "sn_counted c" "sn_refs c = bn" "drifts (nat_view ?m) (nat_dev ?m) c"
      "sn_counted d" "sn_refs d = bs" "drifts (sit_view ?m) (sit_dev ?m) d"
    using versions_removed [OF assms(2-4)] by blast
  let ?m1 = "?m\<lparr>nat_cache := c, sit_cache := d\<rparr>"
  have pos: "super_blk ?m1 = super_blk ?m" "cur_journal ?m1 = cur_journal ?m" "sit_blk ?m1 = sit_blk ?m" "sit_cache ?m1 = d"
    by (simp_all add: sit_blk_def fun_eq_iff)
  have "\<forall>g \<in> set (trp_node_segs r @ trp_data_segs r). seg_known (sn_refs (sit_cache ?m1)) E ?m1 g"
    using seg_known_drift [OF cd(7,6)] assms(7) cd(6) by simp
  moreover have "\<forall>k. Suc (sn_refs (sit_cache ?m1) k) < 2 ^ 32" "sn_counted (sit_cache ?m1)" using cd(5,6) assms(5) by simp_all
  ultimately obtain e where e: "bnd (add_all_segs add_to_node_segment_list (trp_node_segs r))
        (\<lambda>_. add_all_segs add_to_data_segment_list (trp_data_segs r)) ?m1 =
      (Inr (), ?m1\<lparr>super_blk := linked_super r (super_blk ?m), sit_cache := e, cur_journal := linked_journal E r (super_blk ?m) (cur_journal ?m)\<rparr>)"
      "sn_counted e" "sn_refs e = bs"
      "\<forall>g. bs (sit_blk ?m g) \<noteq> 0 \<longrightarrow> sit_at (?m1\<lparr>super_blk := linked_super r (super_blk ?m), sit_cache := e,
         cur_journal := linked_journal E r (super_blk ?m) (cur_journal ?m)\<rparr>) g = replay_sit (linked_sit E r (super_blk ?m)) (sit_at ?m1) g"
    using link_segs [of ?m1 r E "linked_journal E r (super_blk ?m) (cur_journal ?m)"] assms(6) unfolding pos cd(6) by blast
  define m2 where "m2 = ?m1\<lparr>super_blk := linked_super r (super_blk ?m), sit_cache := e, cur_journal := linked_journal E r (super_blk ?m) (cur_journal ?m)\<rparr>"
  obtain n where n: "release_nodes (trp_dirty_nodes r) (s\<lparr>fs_meta := m2\<rparr>) = (Inr (), s\<lparr>fs_meta := m2, nc_mgr := n\<rparr>)"
      "nc_counted (\<lambda>k. ext k - count_list (trp_dirty_nodes r) k) (s\<lparr>fs_meta := m2, nc_mgr := n\<rparr>)"
      "\<forall>j. map_option nb_node (cm_index n j) = map_option nb_node (nc_ix s j)"
    using release_nodes_ok [of ext "s\<lparr>fs_meta := m2\<rparr>" "trp_dirty_nodes r"] assms(1,8) by auto
  have "replace_protect_task r s = (Inr (), s\<lparr>fs_meta := m2, nc_mgr := n\<rparr>)"
    using cd(1) e(1) n(1) unfolding replace_protect_task_split m2_def by (simp add: on_meta_def bnd_def)
  moreover have "nat_view m2 k = nat_view ?m k" if "bn k \<noteq> 0" for k
    using cd(3,4) that unfolding m2_def nat_view_def drifts_def by auto
  moreover have "sit_at m2 g = replay_sit (linked_sit E r (super_blk ?m)) (sit_at ?m) g" if "bs (sit_blk ?m g) \<noteq> 0" for g
  proof -
    have "drifts (sit_view ?m) (sit_dev ?m1) (sit_cache ?m1)" using cd(7) by simp
    from drifts_sit_at [OF this, of g] have "sit_at ?m1 g = sit_at ?m g" using that cd(6) pos by (auto simp: sit_at_def)
    then have "replay_sit (linked_sit E r (super_blk ?m)) (sit_at ?m1) g = replay_sit (linked_sit E r (super_blk ?m)) (sit_at ?m) g"
      by (rule replay_sit_local)
    then show ?thesis using e(4) [rule_format, OF that] unfolding m2_def by (rule trans [rotated])
  qed
  ultimately show ?thesis using n(2,3) cd(2,3) e(2,3) by (intro exI [of _ "s\<lparr>fs_meta := m2, nc_mgr := n\<rparr>"]) (simp add: m2_def)
qed

text \<open>
  A transaction that wrote node 10 back to block 99 and filled the node segment 10. The cached NAT
  block still has the old address 11 where the device has the new one, and nothing but the
  transaction refers to the blocks.
\<close>

definition sample_tx :: trp_record where
  "sample_tx = \<lparr>trp_tx_id = 0, trp_dirty_nodes = [10], trp_dirty_dentrys = [],
     trp_journal = empty_journal\<lparr>NAT_journal := [\<lparr>nid = 10, nat_newValue = \<lparr>ne_ino = 0, ne_block_addr = 99\<rparr>\<rparr>],
       SIT_journal := [\<lparr>segID = 10, sit_newValue = sample_sit_entry\<rparr>]\<rparr>,
     trp_node_segs = [10], trp_data_segs = []\<rparr>"

lemma sample_tx_simps [simp]:
  "NAT_journal (trp_journal sample_tx) = [\<lparr>nid = 10, nat_newValue = \<lparr>ne_ino = 0, ne_block_addr = 99\<rparr>\<rparr>]"
  "SIT_journal (trp_journal sample_tx) = [\<lparr>segID = 10, sit_newValue = sample_sit_entry\<rparr>]"
  "trp_node_segs sample_tx = [10]" "trp_data_segs sample_tx = []" "trp_dirty_nodes sample_tx = [10]"
  by (simp_all add: sample_tx_def empty_journal_def)

lemma sample_tx_state:
  obtains s where "nc_counted ((\<lambda>_. 0)(10 := 1)) s" "sn_counted (nat_cache (fs_meta s))" "sn_counted (sit_cache (fs_meta s))"
    "tx_held (\<lambda>_. 0) (\<lambda>_. 0) (trp_journal sample_tx) (fs_meta s)" "seg_known (\<lambda>_. 0) (\<lambda>_. sample_sit_entry) (fs_meta s) 10"
    "super_blk (fs_meta s) = sample_super" "cur_journal (fs_meta s) = empty_journal"
    "nat_dev (fs_meta s) 1024 = Some (sample_nat_block[10 := \<lparr>ne_ino = 0, ne_block_addr = 99\<rparr>])" "nat_view (fs_meta s) 1024 = Some sample_nat_block"
proof -
  let ?D = "\<lambda>_ :: u32. Some sample_nat_block" and ?S = "\<lambda>_ :: u32. Some (replicate 60 sample_sit_entry)"
  let ?N = "\<lambda>_ :: u32. Some (sample_nat_block[10 := \<lparr>ne_ino = 0, ne_block_addr = 99\<rparr>])"
  note S = sample_sys_facts
  have "nc_room (\<lambda>_. 0) 3 sample_sys" by (simp add: nc_room_def sample_sys_def)
  then obtain s1 where s1: "nc_inv ((\<lambda>_. 0)(10 := Suc 0)) {} s1"
    using get_node_entry_ok [OF S(1) _ S(3) _ S(4), of INVALID_NID] S(8) by auto
  obtain c where c: "sn_inv ?D c" "sn_view ?D c = ?D" "sn_refs c = (\<lambda>_. 0)(1024 := Suc 0)"
    using sn_get_keeps [OF sn_init_inv, of ?D 2 1024 sample_nat_block] by (auto elim: sn_keepsE)
  obtain d where d: "sn_inv ?S d" "sn_view ?S d = ?S" "sn_refs d = (\<lambda>_. 0)(512 := Suc 0)"
    using sn_get_keeps [OF sn_init_inv, of ?S 2 512 "replicate 60 sample_sit_entry"] by (auto elim: sn_keepsE)
  let ?m = "sample_meta\<lparr>nat_cache := c, sit_cache := d, nat_dev := ?N\<rparr>"
  have pos: "nat_blk ?m 10 = 1024" "sit_blk ?m 10 = 512" "nid_in_range ?m 10" "seg_in_range ?m 10" "sit_dev ?m = ?S" "sit_view ?m = ?S"
    using d(2) by (simp_all add: sample_meta_def nat_blk_def sit_blk_def sample_super_def nid_in_range_def seg_in_range_def sit_view_def)
  have "tx_held (\<lambda>_. 0) (\<lambda>_. 0) (trp_journal sample_tx) ?m"
    using pos c(3) d(3) by (auto simp: tx_held_def nat_versions_def sit_versions_def fun_eq_iff)
  moreover have "seg_known (\<lambda>_. 0) (\<lambda>_. sample_sit_entry) ?m 10"
    using pos by (simp add: seg_known_def sit_at_def sit_dev_at_def tbl_at_def)
  moreover have "1024 \<in> dom (cm_index (sn_mgr c))" using c(3) by (intro sn_cached_refs) simp
  then have "nat_view ?m 1024 = Some sample_nat_block" using fun_cong [OF c(2), of 1024] by (auto simp: nat_view_def sn_view_def)
  moreover have "nc_counted ((\<lambda>_. 0)(10 := 1)) s1"
    unfolding nc_counted_def using s1 by (intro exI [of _ "fs_meta s1"] exI [of _ "node_dev s1"]) simp
  ultimately show thesis using c(1) d(1)
    by (intro that [of "s1\<lparr>fs_meta := ?m\<rparr>"]) (auto simp: sn_counted_def sample_meta_def)
qed

theorem protect_task_settles_witness:
  "\<exists>s s'. replace_protect_task sample_tx s = (Inr (), s') \<and>
    nat_dev (fs_meta s) 1024 \<noteq> nat_view (fs_meta s) 1024 \<and>
    sn_refs (nat_cache (fs_meta s')) 1024 = 0 \<and> sn_refs (sit_cache (fs_meta s')) 512 = 0 \<and> nc_counted (\<lambda>_. 0) s' \<and>
    first_node_segment_id (super_blk (fs_meta s')) = 10 \<and>
    SIT_journal (cur_journal (fs_meta s')) = [\<lparr>segID = 10, sit_newValue = SET_NEXT_SEG 0 sample_sit_entry\<rparr>]"
proof -
  obtain s where s: "nc_counted ((\<lambda>_. 0)(10 := 1)) s" "sn_counted (nat_cache (fs_meta s))" "sn_counted (sit_cache (fs_meta s))"
    "tx_held (\<lambda>_. 0) (\<lambda>_. 0) (trp_journal sample_tx) (fs_meta s)" "seg_known (\<lambda>_. 0) (\<lambda>_. sample_sit_entry) (fs_meta s) 10"
    "super_blk (fs_meta s) = sample_super" "cur_journal (fs_meta s) = empty_journal"
    "nat_dev (fs_meta s) 1024 = Some (sample_nat_block[10 := \<lparr>ne_ino = 0, ne_block_addr = 99\<rparr>])" "nat_view (fs_meta s) 1024 = Some sample_nat_block"
    by (rule sample_tx_state)
  have ne: "nat_dev (fs_meta s) 1024 \<noteq> nat_view (fs_meta s) 1024"
  proof -
    have "sample_nat_block ! 10 \<noteq> \<lparr>ne_ino = 0, ne_block_addr = 99\<rparr>" "10 < length sample_nat_block"
      by (simp_all add: sample_nat_block_def)
    then have "sample_nat_block[10 := \<lparr>ne_ino = 0, ne_block_addr = 99\<rparr>] \<noteq> sample_nat_block" by (metis nth_list_update_eq)
    then show ?thesis unfolding s(8,9) by simp
  qed
  have e: "(\<lambda>n. ((\<lambda>_. 0 :: nat)(10 := 1)) n - count_list (trp_dirty_nodes sample_tx) n) = (\<lambda>_. 0)"
    by (auto simp: fun_eq_iff)
  have "\<forall>n. count_list (trp_dirty_nodes sample_tx) n \<le> ((\<lambda>_. 0)(10 := 1)) n" by simp
  moreover have "\<forall>g \<in> set (trp_node_segs sample_tx @ trp_data_segs sample_tx). seg_known (\<lambda>_. 0) (\<lambda>_. sample_sit_entry) (fs_meta s) g"
      "distinct (trp_node_segs sample_tx @ trp_data_segs sample_tx)" "\<forall>k :: u32. Suc 0 < 2 ^ 32"
    using s(5) by simp_all
  note settled = protect_task_settles [OF s(1-4) this(3,2,1) calculation]
  obtain s' where s': "replace_protect_task sample_tx s = (Inr (), s')"
      "sn_refs (nat_cache (fs_meta s')) = (\<lambda>_. 0)" "sn_refs (sit_cache (fs_meta s')) = (\<lambda>_. 0)" "nc_counted (\<lambda>_. 0) s'"
      "super_blk (fs_meta s') = linked_super sample_tx sample_super"
      "cur_journal (fs_meta s') = linked_journal (\<lambda>_. sample_sit_entry) sample_tx sample_super empty_journal"
    using settled unfolding e s(6,7) by blast
  have "first_node_segment_id (super_blk (fs_meta s')) = 10"
    "SIT_journal (cur_journal (fs_meta s')) = [\<lparr>segID = 10, sit_newValue = SET_NEXT_SEG 0 sample_sit_entry\<rparr>]"
    unfolding s'(5,6) by (simp_all add: linked_super_def linked_journal_def linked_sit_def empty_journal_def sample_super_def)
  then show ?thesis using s' ne by (intro exI [of _ s] exI [of _ s']) simp
qed

section \<open>Stale addresses\<close>

text \<open>
  C36. The new address of a node that is written back is lost: \<open>set_lpa_of_nid\<close> journals it, but the
  cached NAT block keeps the old address; after the SSD has applied the journal, whatever the
  device then holds, the task removes the version that protected the block, and a lookup still
  finds the old address for as long as the block is cached.
\<close>

theorem node_address_lost:
  assumes "meta_inv m" "meta_room m" "nid_in_range m n" "nat_at m n = Some e"
    and "set_lpa_of_nid n new_lpa m = (Inr (), m1)" "sn_cur (nat_cache m1) \<le> sn_expect (nat_cache m1)"
  shows "\<exists>m2 m3. add_nat_versions [\<lparr>nid = n, nat_newValue = e\<lparr>ne_block_addr := new_lpa\<rparr>\<rparr>] (m1\<lparr>nat_dev := dev\<rparr>) = (Inr (), m2) \<and>
    get_lpa_of_nid n m2 = (Inr (ne_block_addr e), m3)"
proof -
  let ?k = "nat_blk m n"
  obtain c where m1: "m1 = m\<lparr>nat_cache := c, cur_journal :=
        append_NAT_journal_entry \<lparr>nid = n, nat_newValue = e\<lparr>ne_block_addr := new_lpa\<rparr>\<rparr> (cur_journal m)\<rparr>"
      "meta_inv m1" "nat_at m1 = nat_at m" "sn_refs c ?k = Suc (sn_refs (nat_cache m) ?k)"
    using set_lpa_of_nid_effect [OF assms(1,3,4) meta_roomD(1) [OF assms(2)], of new_lpa] assms(5) by (auto simp: Let_def)
  define D where "D = sn_view (nat_dev m) c"
  have c: "nat_cache m1 = c" "nat_dev m1 = nat_dev m" "super_blk m1 = super_blk m" using m1(1) by simp_all
  have i: "sn_inv D c" "sn_view D c = D"
    using sn_inv_own_view m1(2) c by (auto simp: meta_inv_def D_def sn_view_def fun_eq_iff split: option.splits)
  have k: "?k \<in> dom (cm_index (sn_mgr c))" using m1(4) by (intro sn_cached_refs) simp
  obtain c2 where c2: "sn_add_SSD_version D ?k c = Inr c2" "sn_inv D c2" "sn_view D c2 = D"
      "sn_refs c2 = (sn_refs c)(?k := sn_refs (nat_cache m) ?k)"
    using sn_add_SSD_version_keeps [OF i(1) m1(4)] i(2) by (auto elim: sn_keepsE)
  let ?m2 = "m1\<lparr>nat_dev := dev, nat_cache := c2\<rparr>"
  have one: "add_nat_versions [\<lparr>nid = n, nat_newValue = e\<lparr>ne_block_addr := new_lpa\<rparr>\<rparr>] (m1\<lparr>nat_dev := dev\<rparr>) = (Inr (), ?m2)"
    using get_nid_pos_ok [of "m1\<lparr>nat_dev := dev\<rparr>" n] assms(3) c2(1) sn_cached_dev(2) [OF i(1) k, of dev] c
    by (simp add: prog_simps nat_add_SSD_version_def on_nat_def nid_in_range_def nat_blk_def)
  have k2: "?k \<in> dom (cm_index (sn_mgr c2))" using sn_add_SSD_version_cached [OF i(1) _ k c2(1)] assms(6) c by simp
  have "tbl_at (sn_view D c2) (nat_blkaddr (super_blk m)) 512 n = Some e"
    unfolding c2(3) unfolding D_def using m1(3) assms(4) c by (simp add: nat_at_tbl)
  moreover have "Suc (sn_refs c2 (nat_blkaddr (super_blk m) + n div 512)) < 2 ^ 32"
    using meta_roomD(3) [OF assms(2), of ?k] c2(4) by (simp add: nat_blk_def)
  ultimately obtain c3 b c4 where "sn_get D ?k c2 = Inr c3" "sn_deref ?k c3 = Inr b" "array_at b (unat (n mod 512)) = Inr e"
      "sn_handle_dtor (Some ?k) c3 = Inr c4"
    unfolding nat_blk_def using tbl_read_through [OF c2(2)] by metis
  then have "get_lpa_of_nid n ?m2 = (Inr (ne_block_addr e), ?m2\<lparr>nat_cache := c4\<rparr>)"
    using get_nid_pos_ok [of ?m2 n] assms(3) sn_cached_dev(1) [OF c2(2) k2, of dev] c
    by (simp add: get_lpa_of_nid_def prog_simps meta_op_defs nid_in_range_def nat_blk_def)
  with one show ?thesis by blast
qed

lemma sample_move:
  "fst (set_lpa_of_nid 10 99 sample_meta) = Inr ()"
  "sn_cur (nat_cache (snd (set_lpa_of_nid 10 99 sample_meta))) \<le> sn_expect (nat_cache (snd (set_lpa_of_nid 10 99 sample_meta)))"
  by (simp_all add: set_lpa_of_nid_def get_nid_pos_in_nat_def prog_simps meta_op_defs sample_meta_def sample_super_def sn_get_def
      sn_get_inner_def sn_init_def cm_empty_def cm_get_def index_get_def sn_read_lpa_def cm_add_def index_add_def lru_add_def
      lru_empty_def add_to_lru_tail_def add_to_pinned_tail_def sn_add_refcount_def cm_update_def Let_def cm_pin_def lru_pin_def
      erase_node_def sn_do_replace_def array_at_def sn_deref_def sn_handle_dtor_def sn_do_subref_def sn_sub_refcount_def
      sample_nat_block_def pinned_flag_def)

theorem node_address_lost_witness:
  "\<exists>m1 m2 m3. set_lpa_of_nid 10 99 sample_meta = (Inr (), m1) \<and>
    add_nat_versions [\<lparr>nid = 10, nat_newValue = \<lparr>ne_ino = 0, ne_block_addr = 99\<rparr>\<rparr>]
      (m1\<lparr>nat_dev := (\<lambda>_. Some (sample_nat_block[10 := \<lparr>ne_ino = 0, ne_block_addr = 99\<rparr>]))\<rparr>) = (Inr (), m2) \<and>
    get_lpa_of_nid 10 m2 = (Inr 11, m3)"
proof -
  have r: "nid_in_range sample_meta 10" by (simp add: nid_in_range_def sample_super_def)
  have a: "nat_at sample_meta 10 = Some \<lparr>ne_ino = 0, ne_block_addr = 11\<rparr>" by simp
  obtain m1 where m1: "set_lpa_of_nid 10 99 sample_meta = (Inr (), m1)" "sn_cur (nat_cache m1) \<le> sn_expect (nat_cache m1)"
    using sample_move by (metis prod.collapse)
  show ?thesis
    using m1(1) node_address_lost [OF sample_inv r a m1, of "\<lambda>_. Some (sample_nat_block[10 := \<lparr>ne_ino = 0, ne_block_addr = 99\<rparr>])"] by auto
qed

end
