(* ===== verification/Protect_Threads.thy ===== *)
theory Protect_Threads
  imports Replace_Protect
begin

text \<open>
  The threads that take part in replacement protection: calls of the file system, the thread of
  the journal processor that reports applied transactions (\<^verbatim>\<open>notify_cplt_tx\<close>), the server thread
  of \<^verbatim>\<open>inc/fs/server_thread.hh\<close> that runs the protection tasks, and the SSD. A step is what a thread
  does between two points at which another thread can run: the critical sections under the
  manager's lock are single steps, the two locks that are held over several steps
  (\<^verbatim>\<open>fs_meta_lock\<close> and \<^verbatim>\<open>mtx\<close> of the server thread) are part of the state, and a condition
  variable wakes those who wait when it is notified. A wake-up without a notification would only
  test the condition again and is left out. Journals are applied and reported in the order of
  their commits, as shown for the journal processor.
\<close>

section \<open>State\<close>

text \<open>
  Callers of the file system: one that is outside, inside with \<^verbatim>\<open>fs_meta_lock\<close> held, between
  \<^verbatim>\<open>add_tx\<close> and \<^verbatim>\<open>commit_journal\<close>, or inside \<^verbatim>\<open>wait_all_journal_applied_in_SSD\<close>; then the caller
  of \<^verbatim>\<open>fini\<close>, which is alone and does not take the lock.
\<close>

datatype user_pc =
    U_out | U_op | U_commit u64 | U_wait | U_woken
  | F_op | F_commit u64 | F_wait_applied | F_woken_applied | F_wait_protect | F_woken_protect
  | F_waited | F_signal | F_join | F_end

datatype journal_pc = J_idle | J_notify trp_record bool | J_post trp_record | J_wake bool

datatype server_pc =
    S_start | S_run | S_wait | S_woken | S_task trp_record | S_body trp_record | S_mark u64 | S_signal bool | S_exit

datatype meta_owner = Free | By_user | By_server

record psys =
  ps_rp :: rp_manager
  ps_queue :: "trp_record list"
  ps_exit :: bool
  ps_mtx :: bool
  ps_meta :: meta_owner
  ps_user :: user_pc
  ps_jrn :: journal_pc
  ps_srv :: server_pc
  ps_committed :: "u64 list"
  ps_applied :: "u64 list"
  ps_started :: nat
  ps_done :: nat

definition psys_init :: psys where
  "psys_init = \<lparr>ps_rp = rp_init, ps_queue = [], ps_exit = False, ps_mtx = False, ps_meta = Free, ps_user = U_out,
     ps_jrn = J_idle, ps_srv = S_start, ps_committed = [], ps_applied = [], ps_started = 0, ps_done = 0\<rparr>"

section \<open>Condition variables\<close>

definition notify_list_empty :: "psys \<Rightarrow> psys" where
  "notify_list_empty s = (case ps_user s of
     U_wait \<Rightarrow> s\<lparr>ps_user := U_woken\<rparr> | F_wait_applied \<Rightarrow> s\<lparr>ps_user := F_woken_applied\<rparr> | _ \<Rightarrow> s)"

definition notify_protect_cplt :: "psys \<Rightarrow> psys" where
  "notify_protect_cplt s = (if ps_user s = F_wait_protect then s\<lparr>ps_user := F_woken_protect\<rparr> else s)"

definition notify_server :: "psys \<Rightarrow> psys" where
  "notify_server s = (if ps_srv s = S_wait then s\<lparr>ps_srv := S_woken\<rparr> else s)"

section \<open>The waiting calls\<close>

definition wait_all_journal_applied_in_SSD :: "rp_manager \<Rightarrow> user_pc" where
  "wait_all_journal_applied_in_SSD m = (if journal_applied m then U_op else U_wait)"

definition wait_protect :: "rp_manager \<Rightarrow> user_pc" where
  "wait_protect m = (if protect_cplt m then F_waited else F_wait_protect)"

definition wait_all_protect_task_cplt :: "rp_manager \<Rightarrow> user_pc" where
  "wait_all_protect_task_cplt m = (if journal_applied m then wait_protect m else F_wait_applied)"

section \<open>The server thread\<close>

definition post_task :: "trp_record \<Rightarrow> psys \<Rightarrow> psys" where
  "post_task r s = s\<lparr>ps_queue := ps_queue s @ [r], ps_jrn := J_wake (ps_queue s = [])\<rparr>"

text \<open>One round of the loop, with \<^verbatim>\<open>mtx\<close> held: wait, leave, or take the next task.\<close>

definition thread_main_round :: "psys \<Rightarrow> psys" where
  "thread_main_round s = (case ps_queue s of
     [] \<Rightarrow> if ps_exit s then s\<lparr>ps_srv := S_exit, ps_mtx := False\<rparr> else s\<lparr>ps_srv := S_wait, ps_mtx := False\<rparr>
   | r # rs \<Rightarrow> s\<lparr>ps_queue := rs, ps_srv := S_task r\<rparr>)"

section \<open>Steps\<close>

inductive p_step :: "psys \<Rightarrow> psys \<Rightarrow> bool" where
  u_lock: "ps_user s = U_out \<Longrightarrow> ps_meta s = Free \<Longrightarrow> p_step s (s\<lparr>ps_user := U_op, ps_meta := By_user\<rparr>)"
| u_unlock: "ps_user s = U_op \<Longrightarrow> p_step s (s\<lparr>ps_user := U_out, ps_meta := Free\<rparr>)"
| u_add: "ps_user s = U_op \<Longrightarrow> trp_tx_id r = word_of_nat (ps_started s) \<Longrightarrow>
    p_step s (s\<lparr>ps_rp := add_tx r (ps_rp s), ps_started := Suc (ps_started s), ps_user := U_commit (trp_tx_id r)\<rparr>)"
| u_commit: "ps_user s = U_commit t \<Longrightarrow> p_step s (s\<lparr>ps_committed := ps_committed s @ [t], ps_user := U_op\<rparr>)"
| u_wait: "ps_user s = U_op \<or> ps_user s = U_woken \<Longrightarrow> p_step s (s\<lparr>ps_user := wait_all_journal_applied_in_SSD (ps_rp s)\<rparr>)"
| f_begin: "ps_user s = U_out \<Longrightarrow> p_step s (s\<lparr>ps_user := F_op\<rparr>)"
| f_add: "ps_user s = F_op \<Longrightarrow> trp_tx_id r = word_of_nat (ps_started s) \<Longrightarrow>
    p_step s (s\<lparr>ps_rp := add_tx r (ps_rp s), ps_started := Suc (ps_started s), ps_user := F_commit (trp_tx_id r)\<rparr>)"
| f_commit: "ps_user s = F_commit t \<Longrightarrow> p_step s (s\<lparr>ps_committed := ps_committed s @ [t], ps_user := F_op\<rparr>)"
| f_wait: "ps_user s = F_op \<or> ps_user s = F_woken_applied \<Longrightarrow>
    p_step s (s\<lparr>ps_user := wait_all_protect_task_cplt (ps_rp s)\<rparr>)"
| f_woken: "ps_user s = F_woken_protect \<Longrightarrow> p_step s (s\<lparr>ps_user := wait_protect (ps_rp s)\<rparr>)"
| f_again: "ps_user s = F_waited \<Longrightarrow> p_step s (s\<lparr>ps_user := F_op\<rparr>)"
| f_stop: "ps_user s = F_waited \<Longrightarrow> \<not> ps_mtx s \<Longrightarrow> p_step s (s\<lparr>ps_exit := True, ps_user := F_signal\<rparr>)"
| f_signal: "ps_user s = F_signal \<Longrightarrow> p_step s ((notify_server s)\<lparr>ps_user := F_join\<rparr>)"
| f_join: "ps_user s = F_join \<Longrightarrow> ps_srv s = S_exit \<Longrightarrow> p_step s (s\<lparr>ps_user := F_end\<rparr>)"
| ssd_apply: "ps_committed s = t # ts \<Longrightarrow> p_step s (s\<lparr>ps_committed := ts, ps_applied := ps_applied s @ [t]\<rparr>)"
| j_notify: "ps_jrn s = J_idle \<Longrightarrow> ps_applied s = t # ts \<Longrightarrow> notify_cplt_tx t (ps_rp s) = Inr (r, emptied, m) \<Longrightarrow>
    p_step s (s\<lparr>ps_applied := ts, ps_rp := m, ps_jrn := J_notify r emptied\<rparr>)"
| j_signal: "ps_jrn s = J_notify r emptied \<Longrightarrow>
    p_step s ((if emptied then notify_list_empty s else s)\<lparr>ps_jrn := J_post r\<rparr>)"
| j_post: "ps_jrn s = J_post r \<Longrightarrow> \<not> ps_mtx s \<Longrightarrow> p_step s (post_task r s)"
| j_wake: "ps_jrn s = J_wake need_wakeup \<Longrightarrow> p_step s ((if need_wakeup then notify_server s else s)\<lparr>ps_jrn := J_idle\<rparr>)"
| s_lock: "ps_srv s = S_start \<or> ps_srv s = S_woken \<Longrightarrow> \<not> ps_mtx s \<Longrightarrow> p_step s (s\<lparr>ps_srv := S_run, ps_mtx := True\<rparr>)"
| s_run: "ps_srv s = S_run \<Longrightarrow> p_step s (thread_main_round s)"
| s_meta: "ps_srv s = S_task r \<Longrightarrow> ps_meta s = Free \<Longrightarrow> p_step s (s\<lparr>ps_srv := S_body r, ps_meta := By_server\<rparr>)"
| s_body: "ps_srv s = S_body r \<Longrightarrow> p_step s (s\<lparr>ps_srv := S_mark (trp_tx_id r), ps_meta := Free\<rparr>)"
| s_mark: "ps_srv s = S_mark t \<Longrightarrow> mark_protect_process_cplt t (ps_rp s) = Inr (none_left, m) \<Longrightarrow>
    p_step s (s\<lparr>ps_rp := m, ps_srv := S_signal none_left, ps_done := Suc (ps_done s)\<rparr>)"
| s_signal: "ps_srv s = S_signal none_left \<Longrightarrow>
    p_step s ((if none_left then notify_protect_cplt s else s)\<lparr>ps_srv := S_run\<rparr>)"

section \<open>Invariant\<close>

text \<open>The transactions in flight, oldest first: in the task, in the queue, being posted, not applied.\<close>

fun srv_tx :: "server_pc \<Rightarrow> u64 list" where
  "srv_tx (S_task r) = [trp_tx_id r]"
| "srv_tx (S_body r) = [trp_tx_id r]"
| "srv_tx (S_mark t) = [t]"
| "srv_tx _ = []"

fun jrn_tx :: "journal_pc \<Rightarrow> u64 list" where
  "jrn_tx (J_notify r b) = [trp_tx_id r]"
| "jrn_tx (J_post r) = [trp_tx_id r]"
| "jrn_tx _ = []"

fun user_tx :: "user_pc \<Rightarrow> u64 list" where
  "user_tx (U_commit t) = [t]"
| "user_tx (F_commit t) = [t]"
| "user_tx _ = []"

definition processing :: "psys \<Rightarrow> u64 list" where
  "processing s = srv_tx (ps_srv s) @ map trp_tx_id (ps_queue s) @ jrn_tx (ps_jrn s)"

definition tx_inv :: "psys \<Rightarrow> bool" where
  "tx_inv s \<longleftrightarrow> ps_done s \<le> ps_started s \<and>
     processing s @ map trp_tx_id (trp_list (ps_rp s)) = map word_of_nat [ps_done s..<ps_started s] \<and>
     ps_applied s @ ps_committed s @ user_tx (ps_user s) = map trp_tx_id (trp_list (ps_rp s)) \<and>
     protect_processing_tx (ps_rp s) = set (processing s)"

fun holds_mtx :: "server_pc \<Rightarrow> bool" where
  "holds_mtx S_start = False"
| "holds_mtx S_wait = False"
| "holds_mtx S_woken = False"
| "holds_mtx S_exit = False"
| "holds_mtx _ = True"

fun in_body :: "server_pc \<Rightarrow> bool" where
  "in_body (S_body r) = True"
| "in_body _ = False"

fun holds_meta :: "user_pc \<Rightarrow> bool" where
  "holds_meta U_op = True"
| "holds_meta (U_commit t) = True"
| "holds_meta U_wait = True"
| "holds_meta U_woken = True"
| "holds_meta _ = False"

definition lock_inv :: "psys \<Rightarrow> bool" where
  "lock_inv s \<longleftrightarrow> (ps_mtx s \<longleftrightarrow> holds_mtx (ps_srv s)) \<and> (ps_meta s = By_user \<longleftrightarrow> holds_meta (ps_user s)) \<and>
     (ps_meta s = By_server \<longleftrightarrow> in_body (ps_srv s))"

definition leaving :: "user_pc \<Rightarrow> bool" where
  "leaving u \<longleftrightarrow> u \<in> {F_signal, F_join, F_end}"

text \<open>No notification is missed.\<close>

definition wait_inv :: "psys \<Rightarrow> bool" where
  "wait_inv s \<longleftrightarrow>
     (ps_srv s = S_wait \<longrightarrow> ps_queue s = [] \<and> \<not> ps_exit s \<or> ps_jrn s = J_wake True \<or> ps_user s = F_signal) \<and>
     (ps_user s = U_wait \<or> ps_user s = F_wait_applied \<longrightarrow> trp_list (ps_rp s) \<noteq> [] \<or> (\<exists>r. ps_jrn s = J_notify r True)) \<and>
     (ps_user s = F_wait_protect \<or> ps_user s = F_woken_protect \<longrightarrow> trp_list (ps_rp s) = []) \<and>
     (ps_user s = F_wait_protect \<longrightarrow> protect_processing_tx (ps_rp s) \<noteq> {} \<or> ps_srv s = S_signal True) \<and>
     (ps_user s = F_waited \<or> leaving (ps_user s) \<longrightarrow> ps_done s = ps_started s) \<and>
     (ps_exit s \<longleftrightarrow> leaving (ps_user s)) \<and> (ps_srv s = S_exit \<longrightarrow> ps_exit s) \<and> (ps_user s = F_end \<longrightarrow> ps_srv s = S_exit)"

definition ps_inv :: "psys \<Rightarrow> bool" where
  "ps_inv s \<longleftrightarrow> tx_inv s \<and> lock_inv s \<and> wait_inv s"

lemmas p_defs = wait_all_journal_applied_in_SSD_def wait_all_protect_task_cplt_def wait_protect_def journal_applied_def
  protect_cplt_def notify_list_empty_def notify_protect_cplt_def notify_server_def post_task_def thread_main_round_def
  add_tx_def leaving_def

lemma ps_inv_init: "ps_inv psys_init"
  by (simp add: ps_inv_def tx_inv_def lock_inv_def wait_inv_def psys_init_def rp_init_def processing_def leaving_def)

lemma lock_inv_step: "p_step s s' \<Longrightarrow> lock_inv s \<Longrightarrow> lock_inv s'"
  by (induction rule: p_step.induct)
     (auto simp: lock_inv_def p_defs split: list.splits user_pc.splits if_splits)

lemma ids_distinct: "b \<le> 2 ^ 64 \<Longrightarrow> distinct (map word_of_nat [a..<b] :: u64 list)"
  by (auto simp: distinct_map inj_on_def word_of_nat_eq_iff take_bit_nat_eq_self)

lemma tx_invD:
  assumes "tx_inv s"
  shows "ps_done s \<le> ps_started s" "processing s @ map trp_tx_id (trp_list (ps_rp s)) = map word_of_nat [ps_done s..<ps_started s]"
    "ps_applied s @ ps_committed s @ user_tx (ps_user s) = map trp_tx_id (trp_list (ps_rp s))"
    "protect_processing_tx (ps_rp s) = set (processing s)"
  using assms by (simp_all add: tx_inv_def)

lemma tx_inv_user: "tx_inv s \<Longrightarrow> user_tx u = user_tx (ps_user s) \<Longrightarrow> tx_inv (s\<lparr>ps_user := u\<rparr>)"
  by (simp add: tx_inv_def processing_def)

lemma tx_inv_srv: "tx_inv s \<Longrightarrow> srv_tx u = srv_tx (ps_srv s) \<Longrightarrow> tx_inv (s\<lparr>ps_srv := u\<rparr>)"
  by (simp add: tx_inv_def processing_def)

lemma tx_inv_jrn: "tx_inv s \<Longrightarrow> jrn_tx u = jrn_tx (ps_jrn s) \<Longrightarrow> tx_inv (s\<lparr>ps_jrn := u\<rparr>)"
  by (simp add: tx_inv_def processing_def)

lemma tx_inv_locks [simp]:
  "tx_inv (s\<lparr>ps_mtx := b\<rparr>) = tx_inv s" "tx_inv (s\<lparr>ps_meta := o'\<rparr>) = tx_inv s" "tx_inv (s\<lparr>ps_exit := b\<rparr>) = tx_inv s"
  by (simp_all add: tx_inv_def processing_def)

lemma tx_inv_notify:
  assumes "tx_inv s"
  shows "tx_inv (notify_list_empty s)" "tx_inv (notify_protect_cplt s)" "tx_inv (notify_server s)"
    "ps_jrn (notify_list_empty s) = ps_jrn s" "ps_srv (notify_protect_cplt s) = ps_srv s"
    "ps_jrn (notify_server s) = ps_jrn s" "ps_user (notify_server s) = ps_user s"
  using assms by (auto simp: p_defs intro: tx_inv_user tx_inv_srv split: user_pc.splits)

lemma tx_inv_add:
  assumes "tx_inv s" "trp_tx_id r = word_of_nat (ps_started s)" "user_tx (ps_user s) = []" "user_tx u = [trp_tx_id r]"
  shows "tx_inv (s\<lparr>ps_rp := add_tx r (ps_rp s), ps_started := Suc (ps_started s), ps_user := u\<rparr>)"
  using assms by (auto simp: tx_inv_def processing_def add_tx_def)

lemma tx_inv_notify_cplt:
  assumes "tx_inv s" "ps_jrn s = J_idle" "ps_applied s = t # ts" "notify_cplt_tx t (ps_rp s) = Inr (r, emptied, m)"
  shows "tx_inv (s\<lparr>ps_applied := ts, ps_rp := m, ps_jrn := J_notify r emptied\<rparr>)"
  using assms by (auto simp: tx_inv_def processing_def notify_cplt_tx_def split: list.splits if_splits)

lemma tx_inv_mark:
  assumes "tx_inv s" "ps_srv s = S_mark t" "mark_protect_process_cplt t (ps_rp s) = Inr (b, m)" "ps_started s \<le> 2 ^ 64"
  shows "tx_inv (s\<lparr>ps_rp := m, ps_srv := S_signal b, ps_done := Suc (ps_done s)\<rparr>)"
proof -
  note T = tx_invD [OF assms(1)]
  let ?q = "map trp_tx_id (ps_queue s) @ jrn_tx (ps_jrn s)"
  have m: "m = (ps_rp s)\<lparr>protect_processing_tx := protect_processing_tx (ps_rp s) - {t}\<rparr>"
    using assms(3) by (auto simp: mark_protect_process_cplt_def Let_def split: if_splits)
  have eq: "t # ?q @ map trp_tx_id (trp_list (ps_rp s)) = map word_of_nat [ps_done s..<ps_started s]"
    using T(2) assms(2) by (simp add: processing_def)
  then have lt: "ps_done s < ps_started s" by (cases "ps_done s < ps_started s") auto
  have "t \<notin> set ?q" using ids_distinct [OF assms(4), of "ps_done s"] unfolding eq [symmetric] by simp
  moreover have "?q @ map trp_tx_id (trp_list (ps_rp s)) = map word_of_nat [Suc (ps_done s)..<ps_started s]"
    using eq lt by (simp add: upt_conv_Cons)
  ultimately show ?thesis using T lt assms(2) by (auto simp: tx_inv_def processing_def m)
qed

lemma tx_inv_step: "p_step s s' \<Longrightarrow> tx_inv s \<Longrightarrow> ps_started s' \<le> 2 ^ 64 \<Longrightarrow> tx_inv s'"
proof (induction rule: p_step.induct)
  case (u_add s r) then show ?case by (intro tx_inv_add) auto
next
  case (f_add s r) then show ?case by (intro tx_inv_add) auto
next
  case (j_notify s t ts r emptied m) then show ?case by (intro tx_inv_notify_cplt)
next
  case (s_mark s t b m) then show ?case by (intro tx_inv_mark) auto
next
  case (u_commit s t) then show ?case by (simp add: tx_inv_def processing_def)
next
  case (f_commit s t) then show ?case by (simp add: tx_inv_def processing_def)
next
  case (ssd_apply s t ts) then show ?case by (simp add: tx_inv_def processing_def)
next
  case (j_post s r) then show ?case by (simp add: tx_inv_def processing_def post_task_def)
next
  case (s_run s) then show ?case by (auto simp: tx_inv_def processing_def thread_main_round_def split: list.splits)
next
  case (f_wait s) then show ?case by (intro tx_inv_user) (auto simp: p_defs)
next
  case (u_wait s) then show ?case by (intro tx_inv_user) (auto simp: p_defs)
next
  case (f_woken s) then show ?case by (intro tx_inv_user) (auto simp: p_defs)
next
  case (s_meta s r) then show ?case by (simp add: tx_inv_def processing_def)
next
  case (s_body s r) then show ?case by (simp add: tx_inv_def processing_def)
qed (auto intro!: tx_inv_user tx_inv_srv tx_inv_jrn simp: tx_inv_notify)

lemma tx_inv_settled: "tx_inv s \<Longrightarrow> ps_done s = ps_started s \<longleftrightarrow> trp_list (ps_rp s) = [] \<and> protect_processing_tx (ps_rp s) = {}"
proof -
  assume "tx_inv s"
  note T = tx_invD [OF this]
  have "ps_done s = ps_started s \<longleftrightarrow> (map word_of_nat [ps_done s..<ps_started s] :: u64 list) = []" using T(1) by auto
  also have "\<dots> \<longleftrightarrow> trp_list (ps_rp s) = [] \<and> protect_processing_tx (ps_rp s) = {}"
    unfolding T(2) [symmetric] T(4) by auto
  finally show ?thesis .
qed

lemma tx_inv_busy:
  assumes "tx_inv s" "processing s \<noteq> [] \<or> trp_list (ps_rp s) \<noteq> []"
  shows "ps_done s \<noteq> ps_started s" "processing s \<noteq> [] \<Longrightarrow> protect_processing_tx (ps_rp s) \<noteq> {}"
  using assms tx_inv_settled [OF assms(1)] tx_invD(4) [OF assms(1)] by auto

lemma notify_cplt_txD:
  "notify_cplt_tx t m = Inr (r, b, m') \<Longrightarrow> \<exists>rs. trp_list m = r # rs \<and> trp_tx_id r = t \<and> b = (rs = []) \<and>
     m' = \<lparr>trp_list = rs, protect_processing_tx = insert t (protect_processing_tx m)\<rparr>"
  by (auto simp: notify_cplt_tx_def split: list.splits if_splits)

lemma mark_protectD:
  "mark_protect_process_cplt t m = Inr (b, m') \<Longrightarrow>
     b = (protect_processing_tx m' = {}) \<and> m' = m\<lparr>protect_processing_tx := protect_processing_tx m - {t}\<rparr>"
  by (auto simp: mark_protect_process_cplt_def Let_def split: if_splits)

lemma wait_inv_step:
  assumes "p_step s s'" "tx_inv s" "lock_inv s" "wait_inv s"
  shows "wait_inv s'"
  using assms
proof (induction rule: p_step.induct)
  case (j_notify s t ts r emptied m)
  obtain rs where rs: "trp_list (ps_rp s) = r # rs" "emptied = (rs = [])"
      "m = \<lparr>trp_list = rs, protect_processing_tx = insert t (protect_processing_tx (ps_rp s))\<rparr>"
    using notify_cplt_txD [OF j_notify.hyps(3)] by auto
  have "ps_done s \<noteq> ps_started s" using tx_inv_busy(1) [OF j_notify.prems(1)] rs(1) by simp
  then show ?case using j_notify.prems(3) j_notify.hyps(1) rs unfolding wait_inv_def by (simp add: leaving_def) blast
next
  case (s_mark s t b m)
  then have "processing s \<noteq> []" by (simp add: processing_def)
  then show ?case using tx_inv_busy [OF s_mark.prems(1)] s_mark.hyps s_mark.prems(3) by (auto simp: wait_inv_def dest!: mark_protectD)
next
  case (j_post s r)
  then have "processing s \<noteq> []" by (simp add: processing_def)
  then show ?case using tx_inv_busy [OF j_post.prems(1)] j_post.hyps j_post.prems(3) by (auto simp: wait_inv_def post_task_def leaving_def)
next
  case (f_wait s)
  show ?case
    using tx_inv_settled [OF f_wait.prems(1)] f_wait.hyps f_wait.prems(3)
    by (cases "trp_list (ps_rp s) = []"; cases "protect_processing_tx (ps_rp s) = {}"; cases "ps_srv s = S_wait"; cases "ps_srv s = S_exit")
       (auto simp: wait_inv_def p_defs)
next
  case (f_woken s)
  show ?case
    using tx_inv_settled [OF f_woken.prems(1)] f_woken.hyps f_woken.prems(3)
    by (cases "trp_list (ps_rp s) = []"; cases "protect_processing_tx (ps_rp s) = {}"; cases "ps_srv s = S_wait"; cases "ps_srv s = S_exit")
       (auto simp: wait_inv_def p_defs)
next
  case (s_run s)
  then show ?case by (auto simp: wait_inv_def p_defs split: list.splits)
next
  case (j_signal s r b)
  then show ?case by (cases b; cases "ps_user s") (auto simp: wait_inv_def p_defs)
next
  case (s_signal s b)
  then show ?case by (cases b) (auto simp: wait_inv_def p_defs)
next
  case (u_wait s)
  from u_wait.hyps u_wait.prems(3) show ?case by (elim disjE) (simp_all add: wait_inv_def p_defs, blast+)
next
  case (u_add s r)
  then show ?case by (simp add: wait_inv_def p_defs, blast?)
next
  case (f_add s r)
  then show ?case by (simp add: wait_inv_def p_defs, blast?)
next
  case (f_stop s)
  then show ?case by (simp add: wait_inv_def p_defs, blast?)
next
  case (f_signal s)
  then show ?case by (cases "ps_srv s = S_wait") (simp_all add: wait_inv_def p_defs, (blast+)?)
next
  case (j_wake s b)
  then show ?case by (cases "ps_srv s = S_wait"; cases b) (simp_all add: wait_inv_def p_defs, (blast+)?)
next
  case (u_lock s)
  from u_lock.hyps u_lock.prems(3) show ?case by (simp add: wait_inv_def p_defs, blast?)
next
  case (u_unlock s)
  from u_unlock.hyps u_unlock.prems(3) show ?case by (simp add: wait_inv_def p_defs, blast?)
next
  case (u_commit s t)
  from u_commit.hyps u_commit.prems(3) show ?case by (simp add: wait_inv_def p_defs, blast?)
next
  case (f_begin s)
  from f_begin.hyps f_begin.prems(3) show ?case by (simp add: wait_inv_def p_defs, blast?)
next
  case (f_commit s t)
  from f_commit.hyps f_commit.prems(3) show ?case by (simp add: wait_inv_def p_defs, blast?)
next
  case (f_again s)
  from f_again.hyps f_again.prems(3) show ?case by (simp add: wait_inv_def p_defs, blast?)
next
  case (f_join s)
  from f_join.hyps f_join.prems(3) show ?case by (simp add: wait_inv_def p_defs, blast?)
next
  case (ssd_apply s t ts)
  from ssd_apply.hyps ssd_apply.prems(3) show ?case by (simp add: wait_inv_def p_defs, blast?)
next
  case (s_meta s r)
  from s_meta.hyps s_meta.prems(3) show ?case by (simp add: wait_inv_def p_defs, blast?)
next
  case (s_body s r)
  from s_body.hyps s_body.prems(3) show ?case by (simp add: wait_inv_def p_defs, blast?)
next
  case (s_lock s)
  from s_lock.hyps s_lock.prems(3) show ?case by (elim disjE) (simp_all add: wait_inv_def p_defs, (blast+)?)
qed

lemma p_step_started: "p_step s s' \<Longrightarrow> ps_started s \<le> ps_started s'"
  by (induction rule: p_step.induct) (auto simp: p_defs split: list.splits user_pc.splits)

lemma ps_inv_reachable: "p_step\<^sup>*\<^sup>* psys_init s \<Longrightarrow> ps_started s \<le> 2 ^ 64 \<Longrightarrow> ps_inv s"
proof (induction rule: rtranclp_induct)
  case base
  then show ?case by (simp add: ps_inv_init)
next
  case (step s s')
  then have "ps_inv s" using p_step_started [OF step.hyps(2)] by simp
  then show ?case using step tx_inv_step lock_inv_step wait_inv_step by (auto simp: ps_inv_def)
qed

section \<open>Who can move\<close>

definition stuck :: "psys \<Rightarrow> bool" where
  "stuck s \<longleftrightarrow> (\<forall>s'. \<not> p_step s s')"

text \<open>
  The caller holds \<^verbatim>\<open>fs_meta_lock\<close> and waits for the list to become empty; the server thread holds
  \<^verbatim>\<open>mtx\<close> and its task waits for \<^verbatim>\<open>fs_meta_lock\<close>; the journal thread, which would empty the list,
  waits for \<^verbatim>\<open>mtx\<close> to post the next task.
\<close>

definition deadlocked :: "psys \<Rightarrow> bool" where
  "deadlocked s \<longleftrightarrow> ps_user s = U_wait \<and> (\<exists>r. ps_srv s = S_task r) \<and> (\<exists>q. ps_jrn s = J_post q) \<and>
     trp_list (ps_rp s) \<noteq> [] \<and> ps_committed s = []"

definition finished :: "psys \<Rightarrow> bool" where
  "finished s \<longleftrightarrow> ps_user s = F_end \<and> ps_srv s = S_exit \<and> ps_jrn s = J_idle \<and> ps_done s = ps_started s \<and>
     ps_committed s = []"

lemma stuckD: "stuck s \<Longrightarrow> p_step s s' \<Longrightarrow> False"
  by (simp add: stuck_def)

lemma notify_possible:
  assumes "tx_inv s" "ps_applied s = t # ts" "ps_started s \<le> 2 ^ 64"
  shows "\<exists>r b m. notify_cplt_tx t (ps_rp s) = Inr (r, b, m)"
proof -
  note T = tx_invD [OF assms(1)]
  obtain r rs where r: "trp_list (ps_rp s) = r # rs" "trp_tx_id r = t" using T(3) assms(2) by (cases "trp_list (ps_rp s)") auto
  have "distinct (processing s @ map trp_tx_id (trp_list (ps_rp s)))"
    unfolding T(2) by (rule ids_distinct [OF assms(3)])
  then have "t \<notin> protect_processing_tx (ps_rp s)" using r T(4) by auto
  then show ?thesis using r by (simp add: notify_cplt_tx_def)
qed

lemma mark_possible:
  assumes "tx_inv s" "ps_srv s = S_mark t"
  shows "\<exists>b m. mark_protect_process_cplt t (ps_rp s) = Inr (b, m)"
  using tx_invD(4) [OF assms(1)] assms(2) by (simp add: mark_protect_process_cplt_def processing_def Let_def)

text \<open>The server thread moves unless it waits for a task, for a lock or has ended.\<close>

lemma server_moves:
  assumes "stuck s" "tx_inv s" "lock_inv s"
  shows "(\<exists>r. ps_srv s = S_task r \<and> ps_meta s = By_user) \<or> ps_srv s = S_wait \<or> ps_srv s = S_exit"
proof (cases "ps_srv s")
  case S_start then show ?thesis using p_step.s_lock [of s] stuckD [OF assms(1)] assms(3) by (auto simp: lock_inv_def)
next
  case S_run then show ?thesis using p_step.s_run [of s] stuckD [OF assms(1)] by auto
next
  case S_woken then show ?thesis using p_step.s_lock [of s] stuckD [OF assms(1)] assms(3) by (auto simp: lock_inv_def)
next
  case (S_task r)
  moreover have "ps_meta s \<noteq> By_server" using assms(3) S_task by (simp add: lock_inv_def)
  ultimately show ?thesis using p_step.s_meta [of s r] stuckD [OF assms(1)] by (cases "ps_meta s") auto
next
  case (S_body r) then show ?thesis using p_step.s_body [of s r] stuckD [OF assms(1)] by auto
next
  case (S_mark t) then show ?thesis using p_step.s_mark [of s t] stuckD [OF assms(1)] mark_possible [OF assms(2)] by blast
next
  case (S_signal b) then show ?thesis using p_step.s_signal [of s b] stuckD [OF assms(1)] by auto
qed auto

lemma journal_moves:
  assumes "stuck s" "tx_inv s" "ps_started s \<le> 2 ^ 64"
  shows "ps_jrn s = J_idle \<and> ps_applied s = [] \<or> (\<exists>r. ps_jrn s = J_post r \<and> ps_mtx s)" "ps_committed s = []"
proof -
  show "ps_committed s = []" using p_step.ssd_apply [of s] stuckD [OF assms(1)] by (cases "ps_committed s") auto
  show "ps_jrn s = J_idle \<and> ps_applied s = [] \<or> (\<exists>r. ps_jrn s = J_post r \<and> ps_mtx s)"
  proof (cases "ps_jrn s")
    case J_idle
    then show ?thesis
      using p_step.j_notify [of s] stuckD [OF assms(1)] notify_possible [OF assms(2) _ assms(3)] by (cases "ps_applied s") blast+
  next
    case (J_notify r b) then show ?thesis using p_step.j_signal [of s r b] stuckD [OF assms(1)] by auto
  next
    case (J_post r) then show ?thesis using p_step.j_post [of s r] stuckD [OF assms(1)] by auto
  next
    case (J_wake b) then show ?thesis using p_step.j_wake [of s b] stuckD [OF assms(1)] by auto
  qed
qed

lemma user_moves:
  assumes "stuck s"
  shows "ps_user s \<in> {U_wait, F_wait_applied, F_wait_protect, F_join, F_end} \<or> ps_user s = F_waited \<and> ps_mtx s"
  using stuckD [OF assms] p_step.u_unlock [of s] p_step.u_commit [of s] p_step.u_wait [of s] p_step.f_begin [of s]
    p_step.f_commit [of s] p_step.f_wait [of s] p_step.f_woken [of s] p_step.f_again [of s] p_step.f_signal [of s]
  by (cases "ps_user s") blast+

lemma deadlocked_stuck: "deadlocked s \<Longrightarrow> ps_inv s \<Longrightarrow> stuck s"
  unfolding stuck_def
proof (intro allI notI)
  fix s' assume d: "deadlocked s" and i: "ps_inv s" and "p_step s s'"
  have "ps_mtx s" "ps_meta s = By_user" using d i by (auto simp: deadlocked_def ps_inv_def lock_inv_def)
  with \<open>p_step s s'\<close> d show False by (auto simp: deadlocked_def elim: p_step.cases)
qed

lemma finished_stuck: "finished s \<Longrightarrow> ps_inv s \<Longrightarrow> stuck s"
  unfolding stuck_def
proof (intro allI notI)
  fix s' assume d: "finished s" and i: "ps_inv s" and "p_step s s'"
  have "ps_applied s = []"
    using d tx_inv_settled [of s] tx_invD(3) [of s] i by (auto simp: finished_def ps_inv_def)
  with \<open>p_step s s'\<close> d show False by (auto simp: finished_def elim: p_step.cases)
qed

lemma stuck_cases:
  assumes "stuck s" "ps_inv s" "ps_started s \<le> 2 ^ 64"
  shows "deadlocked s \<or> finished s"
proof -
  have I: "tx_inv s" "lock_inv s" "wait_inv s" using assms(2) by (simp_all add: ps_inv_def)
  note T = tx_invD [OF I(1)]
  note S = server_moves [OF assms(1) I(1,2)] and J = journal_moves [OF assms(1) I(1) assms(3)] and U = user_moves [OF assms(1)]
  show ?thesis
  proof (cases "\<exists>r. ps_srv s = S_task r")
    case True
    then have u: "ps_user s = U_wait" using S U I(2) by (auto simp: lock_inv_def)
    then have "trp_list (ps_rp s) \<noteq> []" using I(3) J(1) by (auto simp: wait_inv_def)
    moreover from this have "ps_applied s \<noteq> []" using T(3) J(2) u by auto
    ultimately show ?thesis using True J u by (auto simp: deadlocked_def)
  next
    case False
    then have srv: "ps_srv s = S_wait \<or> ps_srv s = S_exit" using S by blast
    then have "\<not> ps_mtx s" using I(2) by (auto simp: lock_inv_def)
    then have j: "ps_jrn s = J_idle" "ps_applied s = []" using J(1) by auto
    have "user_tx (ps_user s) = []" using U by auto
    then have trp: "trp_list (ps_rp s) = []" using T(3) j(2) J(2) by simp
    have u: "ps_user s \<in> {F_wait_protect, F_join, F_end}" using U I(3) trp j(1) \<open>\<not> ps_mtx s\<close> by (auto simp: wait_inv_def)
    show ?thesis
    proof (cases "ps_srv s = S_exit")
      case True
      then have "ps_user s = F_end"
        using u I(3) p_step.f_join [of s] stuckD [OF assms(1)] by (auto simp: wait_inv_def leaving_def)
      then show ?thesis using True j J(2) I(3) by (auto simp: finished_def wait_inv_def leaving_def)
    next
      case False
      then have w: "ps_srv s = S_wait" using srv by simp
      then have "ps_queue s = []" "\<not> ps_exit s" using I(3) u j(1) by (auto simp: wait_inv_def)
      then have "ps_user s = F_wait_protect" using u I(3) by (auto simp: wait_inv_def leaving_def)
      moreover have "protect_processing_tx (ps_rp s) = {}" using T(4) w j(1) \<open>ps_queue s = []\<close> by (simp add: processing_def)
      ultimately show ?thesis using I(3) w by (auto simp: wait_inv_def)
    qed
  qed
qed

lemma deadlock_in_flight: "deadlocked s \<Longrightarrow> tx_inv s \<Longrightarrow> ps_done s + 3 \<le> ps_started s"
proof -
  assume d: "deadlocked s" and i: "tx_inv s"
  have "length (processing s @ map trp_tx_id (trp_list (ps_rp s))) = ps_started s - ps_done s"
    unfolding tx_invD(2) [OF i] by simp
  moreover have "2 \<le> length (processing s)" "1 \<le> length (trp_list (ps_rp s))"
    using d by (auto simp: deadlocked_def processing_def Suc_le_eq)
  ultimately show ?thesis by simp
qed

section \<open>Properties\<close>

text \<open>
  C11. When the threads of replacement protection cannot move: after any run in which fewer than
  2^64 transactions were started, no thread can take a step exactly if the file system has been
  shut down with every transaction finished, or if there is a deadlock between a caller that waits
  with \<^verbatim>\<open>fs_meta_lock\<close> held for all journals to be applied, the server thread, whose task needs that
  lock and which holds its own mutex while it runs a task, and the journal thread, which needs
  that mutex. The deadlock takes three transactions in flight. In particular the assertions on the
  order of completions hold, no wake-up is missed, and the shutdown, which waits without the lock,
  does not get stuck.
\<close>

theorem protect_stuck_iff:
  assumes "p_step\<^sup>*\<^sup>* psys_init s" "ps_started s \<le> 2 ^ 64"
  shows "((\<forall>s'. \<not> p_step s s') \<longleftrightarrow> deadlocked s \<or> finished s) \<and> (deadlocked s \<longrightarrow> ps_done s + 3 \<le> ps_started s)"
proof -
  have i: "ps_inv s" by (rule ps_inv_reachable [OF assms])
  then show ?thesis
    using stuck_cases [OF _ i assms(2)] deadlocked_stuck [OF _ i] finished_stuck [OF _ i] deadlock_in_flight
    unfolding stuck_def ps_inv_def by blast
qed

text \<open>
  The deadlock is reached: three transactions are committed by a caller that then waits, the SSD
  applies them, the first task is taken by the server thread and the second is to be posted.
\<close>

definition sample_trp :: "u64 \<Rightarrow> trp_record" where
  "sample_trp t = sample_tx\<lparr>trp_tx_id := t\<rparr>"

definition waiting_state :: psys where
  "waiting_state = psys_init\<lparr>ps_user := U_wait, ps_meta := By_user, ps_started := 3, ps_committed := [0, 1, 2],
     ps_rp := \<lparr>trp_list = map sample_trp [0, 1, 2], protect_processing_tx = {}\<rparr>\<rparr>"

definition dead_state :: psys where
  "dead_state = waiting_state\<lparr>ps_committed := [], ps_applied := [2], ps_mtx := True, ps_srv := S_task (sample_trp 0),
     ps_jrn := J_post (sample_trp 1), ps_rp := \<lparr>trp_list = [sample_trp 2], protect_processing_tx = {1, 0}\<rparr>\<rparr>"

lemmas run_step = converse_rtranclp_into_rtranclp [where r = p_step]

lemmas run_simps = psys_init_def rp_init_def sample_trp_def waiting_state_def dead_state_def p_defs notify_cplt_tx_def
  numeral_3_eq_3

lemma waiting_run: "p_step\<^sup>*\<^sup>* psys_init waiting_state"
  apply (rule run_step, rule p_step.u_lock, simp add: run_simps, simp add: run_simps)
  apply (rule run_step, rule p_step.u_add [of _ "sample_trp 0"], simp add: run_simps, simp add: run_simps)
  apply (rule run_step, rule p_step.u_commit [of _ 0], simp add: run_simps)
  apply (rule run_step, rule p_step.u_add [of _ "sample_trp 1"], simp add: run_simps, simp add: run_simps)
  apply (rule run_step, rule p_step.u_commit [of _ 1], simp add: run_simps)
  apply (rule run_step, rule p_step.u_add [of _ "sample_trp 2"], simp add: run_simps, simp add: run_simps)
  apply (rule run_step, rule p_step.u_commit [of _ 2], simp add: run_simps)
  apply (rule run_step, rule p_step.u_wait, simp add: run_simps)
  apply (simp add: run_simps)
  done

lemma dead_run: "p_step\<^sup>*\<^sup>* waiting_state dead_state"
  apply (rule run_step, rule p_step.ssd_apply [of _ 0 "[1, 2]"], simp add: run_simps)
  apply (rule run_step, rule p_step.ssd_apply [of _ 1 "[2]"], simp add: run_simps)
  apply (rule run_step, rule p_step.ssd_apply [of _ 2 "[]"], simp add: run_simps)
  apply (rule run_step, rule p_step.j_notify [of _ 0 "[1, 2]" "sample_trp 0" False "\<lparr>trp_list = [sample_trp 1, sample_trp 2], protect_processing_tx = {0}\<rparr>"], simp add: run_simps, simp add: run_simps, simp add: run_simps)
  apply (rule run_step, rule p_step.j_signal [of _ "sample_trp 0" False], simp)
  apply (rule run_step, rule p_step.j_post [of _ "sample_trp 0"], simp, simp add: run_simps)
  apply (rule run_step, rule p_step.s_lock, simp add: run_simps, simp add: run_simps)
  apply (rule run_step, rule p_step.s_run, simp)
  apply (rule run_step, rule p_step.j_wake [of _ True], simp add: run_simps)
  apply (rule run_step, rule p_step.j_notify [of _ 1 "[2]" "sample_trp 1" False "\<lparr>trp_list = [sample_trp 2], protect_processing_tx = {1, 0}\<rparr>"], simp add: run_simps, simp add: run_simps, simp add: run_simps)
  apply (rule run_step, rule p_step.j_signal [of _ "sample_trp 1" False], simp)
  apply (simp add: run_simps)
  done

theorem protect_stuck_iff_witness:
  "p_step\<^sup>*\<^sup>* psys_init dead_state \<and> (\<forall>s'. \<not> p_step dead_state s') \<and> ps_started dead_state = 3"
proof -
  have r: "p_step\<^sup>*\<^sup>* psys_init dead_state" using waiting_run dead_run by (rule rtranclp_trans)
  moreover have "deadlocked dead_state" "ps_started dead_state = 3"
    by (simp_all add: deadlocked_def dead_state_def waiting_state_def psys_init_def)
  ultimately show ?thesis using protect_stuck_iff [OF r] by simp
qed

text \<open>
  C12. Tasks run in the order of the commits: in a run with fewer than 2^64 transactions the
  transactions in flight are, oldest first, the one of the running task, those queued, the one
  being posted and those not applied, numbered without a gap from the number of finished ones;
  and when \<^verbatim>\<open>wait_all_protect_task_cplt\<close> returns in \<^verbatim>\<open>fini\<close>, all are finished.
\<close>

theorem protect_in_commit_order:
  assumes "p_step\<^sup>*\<^sup>* psys_init s" "ps_started s \<le> 2 ^ 64"
  shows "srv_tx (ps_srv s) @ map trp_tx_id (ps_queue s) @ jrn_tx (ps_jrn s) @ map trp_tx_id (trp_list (ps_rp s)) =
      map word_of_nat [ps_done s..<ps_started s] \<and>
    (ps_user s = F_waited \<longrightarrow> ps_done s = ps_started s \<and> trp_list (ps_rp s) = [] \<and> protect_processing_tx (ps_rp s) = {})"
proof -
  have i: "ps_inv s" by (rule ps_inv_reachable [OF assms])
  then show ?thesis using tx_invD(2) [of s] tx_inv_settled [of s] by (auto simp: ps_inv_def wait_inv_def processing_def)
qed

theorem protect_in_commit_order_witness:
  "p_step\<^sup>*\<^sup>* psys_init waiting_state \<and>
   map trp_tx_id (trp_list (ps_rp waiting_state)) = map word_of_nat [ps_done waiting_state..<ps_started waiting_state]"
proof -
  have "ps_started waiting_state \<le> 2 ^ 64" by (simp add: waiting_state_def)
  from protect_in_commit_order [OF waiting_run this] show ?thesis
    using waiting_run by (simp add: waiting_state_def psys_init_def del: upt_rec_numeral)
qed

end
