(* ===== verification/FS_Manager.thy ===== *)
theory FS_Manager
  imports File_Cache Directory Replace_Protect Journal_Processor FD_Array
begin

text \<open>
  The file system manager, \<^verbatim>\<open>src/fs/fs_manager.cc\<close>, which owns all components, and the commit of a
  transaction, \<^verbatim>\<open>write_meta_back_sync\<close> of \<^verbatim>\<open>src/fs/write_back_helper.cc\<close>: dirty directory blocks, then
  dirty nodes are written to new addresses, the reverse map is written, and the journal is handed
  to the journal processor, with the record that protects what it changed from replacement.
\<close>

section \<open>State\<close>

text \<open>
  The parts that the calls work on. The metadata and node cache are those of \<open>hs_io\<close>; the ones in
  \<open>hs_dir\<close> are replaced by them when a directory operation runs. Records leave \<open>hs_rp\<close> when the SSD
  has applied them, which is the subject of \<open>Protect_Threads\<close>; a call that waits for that goes on
  with the state it had.
\<close>

record hscfs =
  hs_io :: iosys
  hs_dir :: dirsys
  hs_rp :: rp_manager
  hs_env :: journal_process_env
  hs_fd :: "opened_file fd_array"
  hs_root :: "dentry_key option"
  hs_unrecoverable :: bool

definition on_ios :: "(iosys, 'a) prog \<Rightarrow> (hscfs, 'a) prog" where
  "on_ios p = (\<lambda>s. case p (hs_io s) of (r, i) \<Rightarrow> (r, s\<lparr>hs_io := i\<rparr>))"

definition on_dirs :: "(dirsys, 'a) prog \<Rightarrow> (hscfs, 'a) prog" where
  "on_dirs p = (\<lambda>s. case p ((hs_dir s)\<lparr>ds_fs := io_fs (hs_io s)\<rparr>) of
     (r, d) \<Rightarrow> (r, s\<lparr>hs_dir := d, hs_io := (hs_io s)\<lparr>io_fs := ds_fs d\<rparr>\<rparr>))"

definition on_fsys :: "(fsys, 'a) prog \<Rightarrow> (hscfs, 'a) prog" where
  "on_fsys p = on_ios (on_fs p)"

definition check_state :: "(hscfs, unit) prog" where
  "check_state = bnd (reads hs_unrecoverable) (\<lambda>b. if b then fail (Throw Not_recoverable) else ret ())"

definition get_and_reset_cur_journal :: "(meta, journal_container) prog" where
  "get_and_reset_cur_journal =
     bnd (reads meta.cur_journal) (\<lambda>j. bnd (modify (\<lambda>m. m\<lparr>meta.cur_journal := empty_journal\<rparr>)) (\<lambda>_. ret j))"

section \<open>Writing back metadata\<close>

text \<open>
  What the device does with the write commands: whether a command is accepted, and its result. A
  block reaches the device when its command succeeds.
\<close>

record wb_answers =
  wb_submit_ok :: "u32 \<Rightarrow> bool"
  wb_res :: "u32 \<Rightarrow> comm_cmd_result"

definition write_dir_block :: "wb_answers \<Rightarrow> dd_key \<Rightarrow> (hscfs, u32) prog" where
  "write_dir_block a k =
     bnd (on_dirs (on_dir (dd_entry k))) (\<lambda>e.
     bnd (on_fsys (new_write_back_lpa Data_block (ddb_lpa e))) (\<lambda>new_lpa.
     bnd (on_dirs (on_dir (dd_write k (\<lambda>e. e\<lparr>ddb_lpa := new_lpa\<rparr>)))) (\<lambda>_.
     if \<not> wb_submit_ok a new_lpa then fail (Throw Io_error)
     else
       bnd (modify (\<lambda>s. if wb_res a new_lpa = COMM_CMD_SUCCESS
              then s\<lparr>hs_dir := (hs_dir s)\<lparr>ds_dev := (ds_dev (hs_dir s))(new_lpa \<mapsto> ddb_block e)\<rparr>\<rparr> else s)) (\<lambda>_.
       ret new_lpa))))"

text \<open>The loops over the dirty blocks of a directory, over the directories and over the nodes give the results of their commands.\<close>

fun write_back_dir_blks :: "ssd_search \<Rightarrow> nat \<Rightarrow> wb_answers \<Rightarrow> u32 \<Rightarrow> dd_key list \<Rightarrow> (hscfs, comm_cmd_result list) prog" where
  "write_back_dir_blks srch fuel a dir_ino [] = ret []"
| "write_back_dir_blks srch fuel a dir_ino (k # ks) =
     bnd (on_dirs (on_dir (dd_entry k))) (\<lambda>e.
     bnd (assert_that (key_ino (ddb_key e) = dir_ino)) (\<lambda>_.
     bnd (write_dir_block a k) (\<lambda>new_lpa.
     under_way True (
     bnd (on_fsys (update_block_mapping srch fuel dir_ino (key_blkoff (ddb_key e)) new_lpa)) (\<lambda>addr.
     bnd (scoped (on_fsys (nc_handle_dtor (bai_nid_handle addr)))
            (on_ios (on_srmap (write_srmap_of_data new_lpa dir_ino (key_blkoff (ddb_key e)))))) (\<lambda>_.
     bnd (write_back_dir_blks srch fuel a dir_ino ks) (\<lambda>rs.
     ret (wb_res a new_lpa # rs))))))))"

fun write_back_dirs :: "ssd_search \<Rightarrow> nat \<Rightarrow> wb_answers \<Rightarrow> (u32 \<times> dd_key list) list \<Rightarrow> (hscfs, comm_cmd_result list) prog" where
  "write_back_dirs srch fuel a [] = ret []"
| "write_back_dirs srch fuel a ((dir_ino, ks) # ds) =
     bnd (write_back_dir_blks srch fuel a dir_ino ks) (\<lambda>rs.
     bnd (under_way (rs \<noteq> []) (write_back_dirs srch fuel a ds)) (\<lambda>rs'.
     ret (rs @ rs')))"

definition write_node_block :: "wb_answers \<Rightarrow> u32 \<Rightarrow> (fsys, u32) prog" where
  "write_node_block a n =
     bnd (nc_entry n) (\<lambda>e.
     bnd (new_write_back_lpa Node_block (nb_lpa e)) (\<lambda>new_lpa.
     bnd (nc_write n (\<lambda>e. e\<lparr>nb_lpa := new_lpa\<rparr>)) (\<lambda>_.
     if \<not> wb_submit_ok a new_lpa then fail (Throw Io_error)
     else
       bnd (modify (\<lambda>s. if wb_res a new_lpa = COMM_CMD_SUCCESS
              then s\<lparr>node_dev := (node_dev s)(new_lpa \<mapsto> nb_node e)\<rparr> else s)) (\<lambda>_.
       ret new_lpa))))"

fun write_back_nodes :: "wb_answers \<Rightarrow> u32 list \<Rightarrow> (hscfs, comm_cmd_result list) prog" where
  "write_back_nodes a [] = ret []"
| "write_back_nodes a (n # ns) =
     bnd (on_fsys (nc_entry n)) (\<lambda>e.
     bnd (on_fsys (write_node_block a n)) (\<lambda>new_lpa.
     under_way True (
     bnd (on_fsys (on_meta (set_lpa_of_nid (nb_nid e) new_lpa))) (\<lambda>_.
     bnd (on_ios (on_srmap (write_srmap_of_node new_lpa (nb_nid e)))) (\<lambda>_.
     bnd (write_back_nodes a ns) (\<lambda>rs.
     ret (wb_res a new_lpa # rs)))))))"

text \<open>\<^verbatim>\<open>wait_cplt\<close> of a group of commands; its result is not used.\<close>

definition wait_cplt :: "comm_cmd_result list \<Rightarrow> (hscfs, comm_cmd_result) prog" where
  "wait_cplt rs = (case vio_cplt (fold cplt_once rs (vecio_init (word_of_nat (length rs)))) of
     None \<Rightarrow> fail Still_running | Some r \<Rightarrow> ret r)"

definition release_dir_blks :: "(u32 \<times> dd_key list) list \<Rightarrow> (hscfs, unit) prog" where
  "release_dir_blks ds = on_dirs (on_dir (dd_release_all (concat (map snd ds))))"

text \<open>
  The transaction of a journal that is not empty: the record takes over the node handles; of an
  empty journal the handles are released.
\<close>

definition commit_transaction :: "journal_container \<Rightarrow> u32 list \<Rightarrow> (hscfs, unit) prog" where
  "commit_transaction jc dirty_nodes =
     bnd (reads (\<lambda>s. alloc_tx_id (hs_env s))) (\<lambda>(t, env).
     bnd (modify (\<lambda>s. s\<lparr>hs_env := env\<rparr>)) (\<lambda>_.
     let j = jc\<lparr>tx_id := t\<rparr> in
     bnd (on_dirs (on_dentry get_and_clear_dirty_list)) (\<lambda>dirty_dentrys.
     bnd (on_fsys (on_meta get_and_clear_uncommit_node_segs)) (\<lambda>node_segs.
     bnd (on_fsys (on_meta get_and_clear_uncommit_data_segs)) (\<lambda>data_segs.
     modify (\<lambda>s. s\<lparr>
       hs_rp := add_tx \<lparr>trp_tx_id = t, trp_dirty_nodes = dirty_nodes, trp_dirty_dentrys = dirty_dentrys, trp_journal = j,
         trp_node_segs = node_segs, trp_data_segs = data_segs\<rparr> (hs_rp s),
       hs_env := fst (commit_journal j (hs_env s))\<rparr>))))))"

definition write_meta_back_sync :: "ssd_search \<Rightarrow> nat \<Rightarrow> wb_answers \<Rightarrow> (hscfs, unit) prog" where
  "write_meta_back_sync srch fuel a =
     bnd (on_dirs (on_dir get_and_clear_dirty_blks)) (\<lambda>dirty_dir_blks.
     scoped (release_dir_blks dirty_dir_blks) (
       bnd (assert_that (\<forall>(ino, ks) \<in> set dirty_dir_blks. ks \<noteq> [])) (\<lambda>_.
       bnd (write_back_dirs srch fuel a dirty_dir_blks) (\<lambda>res1.
       bnd (on_fsys nc_get_and_clear_dirty_list) (\<lambda>l.
       let dirty_nodes = map snd l in
       bnd (on_throw (on_fsys (release_nodes dirty_nodes)) (
         bnd (under_way (res1 \<noteq> []) (write_back_nodes a dirty_nodes)) (\<lambda>res2.
         bnd (under_way (res1 @ res2 \<noteq> []) (on_ios (on_srmap (write_dirty_srmap_sync (wb_submit_ok a) (wb_res a))))) (\<lambda>_.
         bnd (on_ios (on_srmap clear_cache)) (\<lambda>_.
         bnd (wait_cplt res1) (\<lambda>_.
         bnd (wait_cplt res2) (\<lambda>_.
         on_fsys (on_meta get_and_reset_cur_journal)))))))) (\<lambda>jc.
       if \<not> journal_is_empty jc then commit_transaction jc dirty_nodes
       else on_fsys (release_nodes dirty_nodes)))))))"

end
