(* ===== verification/FS_Commit.thy ===== *)
theory FS_Commit
  imports FS_Manager "HOL-Library.Sublist"
begin

text \<open>
  The write back of all metadata, \<^verbatim>\<open>write_meta_back_sync\<close>, as a transaction: at most one journal is
  committed, with everything that was journalled before and with its record of replacement protection,
  whatever fails on the way.
\<close>

text \<open>Releasing directory blocks changes their cache only.\<close>

lemma release_dir_blks_frame:
  "release_dir_blks ds s = (r, s') \<Longrightarrow> hs_rp s' = hs_rp s \<and> hs_env s' = hs_env s \<and> hs_io s' = hs_io s \<and>
     ds_dentry (hs_dir s') = ds_dentry (hs_dir s)"
  by (auto simp: release_dir_blks_def on_dirs_def on_dir_def split: prod.splits)

section \<open>The commit\<close>

definition hs_meta :: "hscfs \<Rightarrow> meta" where
  "hs_meta s = fs_meta (io_fs (hs_io s))"

text \<open>Between two states either nothing is committed, or one journal together with its record.\<close>

definition journal_extends :: "journal_container \<Rightarrow> journal_container \<Rightarrow> bool" where
  "journal_extends j k \<longleftrightarrow> prefix (super_block_journal j) (super_block_journal k) \<and>
     prefix (NAT_journal j) (NAT_journal k) \<and> prefix (SIT_journal j) (SIT_journal k)"

definition committed :: "journal_container \<Rightarrow> hscfs \<Rightarrow> hscfs \<Rightarrow> bool" where
  "committed j s s' \<longleftrightarrow>
     (\<exists>x. trp_list (hs_rp s') = trp_list (hs_rp s) @ [x] \<and> protect_processing_tx (hs_rp s') = protect_processing_tx (hs_rp s) \<and>
        commit_queue (hs_env s') = commit_queue (hs_env s) @ [trp_journal x] \<and>
        tx_id (trp_journal x) = trp_tx_id x \<and> trp_tx_id x = tx_id_to_alloc (hs_env s) \<and>
        tx_id_to_alloc (hs_env s') = tx_id_to_alloc (hs_env s) + 1 \<and> \<not> journal_is_empty (trp_journal x) \<and> journal_extends j (trp_journal x)) \<and>
     meta.cur_journal (hs_meta s') = empty_journal \<and> uncommit_node_segs (hs_meta s') = [] \<and> uncommit_data_segs (hs_meta s') = [] \<and>
     dc_dirty (ds_dentry (hs_dir s')) = []"

definition nothing_committed :: "hscfs \<Rightarrow> hscfs \<Rightarrow> bool" where
  "nothing_committed s s' \<longleftrightarrow> hs_rp s' = hs_rp s \<and> commit_queue (hs_env s') = commit_queue (hs_env s)"

lemma dc_clean_dirty: "dc_clean ks c = (r, c') \<Longrightarrow> dc_dirty c' = dc_dirty c"
  by (induction ks arbitrary: c)
     (auto simp: prog_simps dc_entry_def dc_write_def split: option.splits sum.splits prod.splits)

lemma commit_transaction_commits:
  assumes "commit_transaction jc ns s = (r, s')" "meta.cur_journal (hs_meta s) = empty_journal" "\<not> journal_is_empty jc"
  shows "r = Inr () \<and> committed jc s s' \<or> r \<noteq> Inr () \<and> nothing_committed s s'"
proof -
  have e: "journal_is_empty (jc\<lparr>tx_id := t\<rparr>) = journal_is_empty jc" for t by (simp add: journal_is_empty_def)
  show ?thesis
    using assms
    by (auto simp: commit_transaction_def alloc_tx_id_def on_dirs_def on_dentry_def get_and_clear_dirty_list_def on_fsys_def on_ios_def
        on_fs_def on_meta_def get_and_clear_uncommit_node_segs_def get_and_clear_uncommit_data_segs_def prog_simps Let_def
        committed_def nothing_committed_def hs_meta_def add_tx_def commit_journal_def e journal_extends_def
        split: prod.splits sum.splits dest!: dc_clean_dirty)
qed



section \<open>The journal only grows\<close>

definition grown :: "journal_container \<Rightarrow> meta \<Rightarrow> bool" where
  "grown j m \<longleftrightarrow> journal_extends j (meta.cur_journal m)"

lemma grown_cong [simp]:
  "grown j (m\<lparr>nat_cache := c\<rparr>) = grown j m" "grown j (m\<lparr>sit_cache := d\<rparr>) = grown j m"
  "grown j (m\<lparr>super_blk := b\<rparr>) = grown j m" "grown j (m\<lparr>uncommit_node_segs := u\<rparr>) = grown j m"
  "grown j (m\<lparr>uncommit_data_segs := u\<rparr>) = grown j m"
  by (simp_all add: grown_def)

lemma grown_accesses [keeps_rules]:
  "keeps (grown j) (on_nat f)" "keeps (grown j) (on_sit g)" "keeps (grown j) (nat_get l)" "keeps (grown j) (sit_get l)"
  "keeps (grown j) (nat_entry_read l i)" "keeps (grown j) (sit_entry_read l i)"
  "keeps (grown j) (get_nid_pos_in_nat n)" "keeps (grown j) (get_segid_pos_in_sit n)"
  "keeps (grown j) (upd_super h)" "keeps (grown j) (of_result x)"
  by (auto simp: keeps_def on_nat_def on_sit_def nat_get_def sit_get_def nat_entry_read_def sit_entry_read_def
      get_nid_pos_in_nat_def get_segid_pos_in_sit_def upd_super_def prog_simps split: sum.splits)

lemma grown_appends [keeps_rules]:
  "keeps (grown j) (append_super p v)" "keeps (grown j) (append_NAT n e)" "keeps (grown j) (append_SIT i e')"
  by (auto simp: keeps_def append_super_def append_NAT_def append_SIT_def prog_simps grown_def journal_extends_def
      append_super_block_journal_entry_def append_NAT_journal_entry_def append_SIT_journal_entry_def)

lemma grown_released [keeps_rules]:
  "keeps (grown j) (nat_release l)" "keeps (grown j) (sit_release l)"
  "keeps (grown j) (nat_add_host_version l)" "keeps (grown j) (sit_add_host_version l)"
  "keeps (grown j) (nat_entry_write l i e)" "keeps (grown j) (sit_entry_write l i e')"
  unfolding nat_release_def sit_release_def nat_add_host_version_def sit_add_host_version_def
    nat_entry_write_def sit_entry_write_def
  by (rule keeps_rules)+

lemma keeps_case_prod: "(\<And>x y. keeps Q (f x y)) \<Longrightarrow> keeps Q (case p of (x, y) \<Rightarrow> f x y)"
  by (cases p) simp

lemma grown_utils [keeps_rules]:
  "keeps (grown j) (get_lpa_of_nid n)" "keeps (grown j) (set_lpa_of_nid n l)" "keeps (grown j) (free_nid n)"
  "keeps (grown j) alloc_segment"
  unfolding get_lpa_of_nid_def set_lpa_of_nid_def free_nid_def alloc_segment_def Let_def
  by (intro keeps_rules keeps_case_prod)+

lemma grown_lpa_state [keeps_rules]:
  "keeps (grown j) (change_lpa_state l b)" "keeps (grown j) (validate_lpa l)" "keeps (grown j) (invalidate_lpa l)"
proof -
  show a: "keeps (grown j) (change_lpa_state l b)" for l b
    unfolding keeps_def change_lpa_state_def Let_def
    by (intro allI impI; split if_split; intro conjI impI; rule keeps_snd [OF _ _ surjective_pairing], intro keeps_rules; assumption)
  show "keeps (grown j) (validate_lpa l)" "keeps (grown j) (invalidate_lpa l)"
    by (simp_all add: validate_lpa_def invalidate_lpa_def a)
qed

lemma grown_alloc [keeps_rules]: "keeps (grown j) alloc_node_lpa" "keeps (grown j) alloc_data_lpa"
  unfolding alloc_node_lpa_def alloc_data_lpa_def alloc_lpa_inner_def
  by (intro keeps_rules keeps_modify; simp add: create_lpa_alloc_context_def)+


text \<open>Programs on the node block cache.\<close>

definition grown_fs :: "journal_container \<Rightarrow> fsys \<Rightarrow> bool" where
  "grown_fs j s \<longleftrightarrow> grown j (fs_meta s)"

lemma grown_on_meta [keeps_rules]: "keeps (grown j) p \<Longrightarrow> keeps (grown_fs j) (on_meta p)"
  by (auto simp: keeps_def on_meta_def grown_fs_def split: prod.splits)

lemma grown_fs_basic [keeps_rules]:
  "keeps (grown_fs j) (on_mgr f)" "keeps (grown_fs j) (nc_entry p)" "keeps (grown_fs j) (nc_write p g)"
  "keeps (grown_fs j) (of_result x)" "keeps (grown_fs j) (read_node l)"
  by (auto simp: keeps_def on_mgr_def nc_entry_def nc_write_def read_node_def prog_simps grown_fs_def split: sum.splits option.splits)

lemma grown_fs_refs [keeps_rules]:
  "keeps (grown_fs j) (nc_add_refcount p)" "keeps (grown_fs j) (nc_dec p)" "keeps (grown_fs j) (nc_drop e)"
  unfolding nc_add_refcount_def nc_dec_def nc_drop_def
  by (intro keeps_rules keeps_modify; simp add: grown_fs_def)+

lemma grown_fs_sub [keeps_rules]: "keeps (grown_fs j) (nc_sub_refcount p)"
proof -
  have "grown_fs j s \<Longrightarrow> grown_fs j (snd (nc_sub_refcount p s))" for p s
  proof (induction p s rule: nc_sub_refcount.induct)
    case (1 p s)
    obtain x t where t: "nc_dec p s = (x, t)" by fastforce
    have gt: "grown_fs j t" using keeps_snd [OF grown_fs_refs(2) "1.prems" t] .
    show ?case
    proof (cases "\<exists>e. x = Inr e \<and> nb_ref_count e = 0 \<and> nb_state e = Deleted")
      case True
      then obtain e where e: "x = Inr e" "nb_ref_count e = 0" "nb_state e = Deleted" by blast
      obtain y u where u: "nc_drop e t = (y, u)" by fastforce
      have gu: "grown_fs j u" using keeps_snd [OF grown_fs_refs(3) gt u] .
      show ?thesis
        using "1.IH" [OF t [symmetric] e(1), of y u "()"] e gu
        by (subst nc_sub_refcount.simps) (auto simp: t u split: sum.splits option.splits)
    qed (use gt in \<open>subst nc_sub_refcount.simps, auto simp: t split: sum.splits\<close>)
  qed
  then show ?thesis by (simp add: keeps_def)
qed

lemma grown_fs_replace [keeps_rules]: "keeps (grown_fs j) nc_do_replace"
proof -
  have p: "grown_fs j s'" if "grown_fs j s" "nc_release_parent q s = (r, s')" for q s r s'
    using that keeps_snd [OF grown_fs_sub] by (auto simp: nc_release_parent_def split: if_splits option.splits)
  have "grown_fs j s \<Longrightarrow> grown_fs j (snd (nc_replace_loop s))" for s
  proof (induction s rule: nc_replace_loop.induct)
    case (1 s)
    have q: "grown_fs j (s\<lparr>nc_mgr := m\<rparr>)" "grown_fs j (s\<lparr>nc_mgr := m, nc_cur := k\<rparr>)" for m k
      using "1.prems" by (simp_all add: grown_fs_def)
    show ?case
    proof (cases "\<exists>e m. cm_replace_one (nc_mgr s) = Inr (Some e, m) \<and> nb_ref_count e = 0")
      case True
      then obtain e m where e: "cm_replace_one (nc_mgr s) = Inr (Some e, m)" "nb_ref_count e = 0" by blast
      obtain y u where u: "nc_release_parent (nb_parent_nid e) (s\<lparr>nc_mgr := m, nc_cur := nc_cur s - 1\<rparr>) = (y, u)" by fastforce
      have gu: "grown_fs j u" by (rule p [OF q(2) u])
      show ?thesis
        using "1.IH" [OF e(1) refl refl, of y u "()"] e gu
        by (subst nc_replace_loop.simps) (auto simp: u simp del: One_nat_def split: sum.splits)
    qed (use q "1.prems" in \<open>subst nc_replace_loop.simps, auto split: sum.splits option.splits\<close>)
  qed
  then show ?thesis by (auto simp: keeps_def nc_do_replace_def)
qed

lemma keeps_catch_all [keeps_rules]: "keeps Q m \<Longrightarrow> keeps Q (catch_all m)"
  unfolding keeps_def by (auto simp: prog_simps split: prod.splits sum.splits fault.splits)

lemma keeps_case_option [keeps_rules]: "keeps Q a \<Longrightarrow> (\<And>x. keeps Q (f x)) \<Longrightarrow> keeps Q (case h of None \<Rightarrow> a | Some x \<Rightarrow> f x)"
  by (cases h) simp_all

lemma grown_fs_handles [keeps_rules]:
  "keeps (grown_fs j) (nc_handle_dtor h)" "keeps (grown_fs j) (nc_handle_move_assign h h')"
  unfolding nc_handle_dtor_def nc_handle_move_assign_def nc_do_subref_def
  by (intro keeps_rules)+

lemma grown_fs_get [keeps_rules]: "keeps (grown_fs j) (nc_get n)"
proof -
  have "grown_fs j (snd (nc_get n s))" if "grown_fs j s" for s
  proof -
    have "grown_fs j (snd (bnd (nc_add_refcount n) (\<lambda>_. ret (Some n)) (s\<lparr>nc_mgr := m\<rparr>)))" for m
      by (rule keeps_snd [OF _ _ surjective_pairing], intro keeps_rules) (use that in \<open>simp add: grown_fs_def\<close>)
    then show ?thesis using that by (auto simp: nc_get_def grown_fs_def split: sum.splits option.splits)
  qed
  then show ?thesis by (simp add: keeps_def)
qed

lemma grown_fs_add [keeps_rules]: "keeps (grown_fs j) (nc_add b n q l)"
  unfolding nc_add_def by (intro keeps_rules keeps_modify) (simp add: grown_fs_def)

lemma grown_fs_mark [keeps_rules]: "keeps (grown_fs j) (nc_mark_dirty p)"
  unfolding nc_mark_dirty_def by (intro keeps_rules keeps_modify) (simp add: grown_fs_def)

lemma grown_fs_insert [keeps_rules]: "keeps (grown_fs j) (insert_search_result bs q)"
  by (induction bs arbitrary: q) (auto intro!: keeps_rules)

lemma grown_fs_addr_loop [keeps_rules]:
  "keeps (grown_fs j) (get_addr_loop srch ino b l off noff fuel cl cn pn h)"
  by (induction fuel arbitrary: cl cn pn h)
     (auto intro!: keeps_rules simp: do_filemapping_search_def split: option.splits)

lemma grown_fs_mapping [keeps_rules]: "keeps (grown_fs j) (update_block_mapping srch fuel ino b l)"
  unfolding update_block_mapping_def get_addr_of_block_def Let_def nc_set_node_def
  by (intro keeps_rules keeps_case_prod)

lemma grown_fs_clear [keeps_rules]: "keeps (grown_fs j) (nc_clear_dirty ps)"
  by (induction ps) (auto intro!: keeps_rules)

lemma grown_fs_write [keeps_rules]:
  "keeps (grown_fs j) (new_write_back_lpa ty l)" "keeps (grown_fs j) (write_node_block a n)"
  "keeps (grown_fs j) nc_get_and_clear_dirty_list"
  unfolding write_node_block_def new_write_back_lpa_def nc_get_and_clear_dirty_list_def
  by (intro keeps_rules keeps_modify; simp add: grown_fs_def)+

lemma grown_fs_release [keeps_rules]: "keeps (grown_fs j) (release_nodes ns)"
  by (induction ns) (auto intro!: keeps_rules)


section \<open>What the parts of a write back leave alone\<close>

definition uncommitted :: "journal_container \<Rightarrow> hscfs \<Rightarrow> hscfs \<Rightarrow> bool" where
  "uncommitted j s0 s \<longleftrightarrow> hs_rp s = hs_rp s0 \<and> hs_env s = hs_env s0 \<and> grown j (hs_meta s)"

lemma uncommitted_srmap [keeps_rules]: "keeps (uncommitted j s0) (on_ios (on_srmap p))"
  by (auto simp: keeps_def uncommitted_def hs_meta_def on_ios_def on_srmap_def split: prod.splits)

lemma uncommitted_dir [keeps_rules]: "keeps (uncommitted j s0) (on_dirs (on_dir q))"
  by (auto simp: keeps_def uncommitted_def hs_meta_def on_dirs_def on_dir_def split: prod.splits)

lemma uncommitted_fsys [keeps_rules]: "keeps (grown_fs j) f \<Longrightarrow> keeps (uncommitted j s0) (on_fsys f)"
  by (auto simp: keeps_def uncommitted_def hs_meta_def grown_fs_def on_fsys_def on_ios_def on_fs_def split: prod.splits)

lemma uncommitted_wait [keeps_rules]: "keeps (uncommitted j s0) (wait_cplt rs)"
  unfolding wait_cplt_def by (intro keeps_rules)

lemma uncommitted_write_dir_block [keeps_rules]: "keeps (uncommitted j s0) (write_dir_block a k)"
  unfolding write_dir_block_def by (intro keeps_rules keeps_modify) (simp add: uncommitted_def hs_meta_def)

lemma uncommitted_dir_blks [keeps_rules]: "keeps (uncommitted j s0) (write_back_dir_blks srch fuel a i ks)"
  by (induction ks) (auto intro!: keeps_rules)

lemma uncommitted_dirs [keeps_rules]: "keeps (uncommitted j s0) (write_back_dirs srch fuel a ds)"
  by (induction ds) (auto intro!: keeps_rules)

lemma uncommitted_nodes [keeps_rules]: "keeps (uncommitted j s0) (write_back_nodes a ns)"
  by (induction ns) (auto intro!: keeps_rules)

lemma uncommitted_release [keeps_rules]: "keeps (uncommitted j s0) (release_dir_blks ds)"
  unfolding release_dir_blks_def by (intro keeps_rules)

section \<open>The transaction of a write back\<close>

lemma bnd_keepsE:
  assumes "bnd m f s = (r, s')" "keeps Q m" "Q s"
  obtains e where "r = Inl e" "Q s'" | x t where "m s = (Inr x, t)" "Q t" "f x t = (r, s')"
  using assms keeps_snd [OF assms(2,3)] by (auto simp: bnd_def split: prod.splits sum.splits)

text \<open>A program does its work in one transaction, or fails or has nothing to commit.\<close>

definition one_tx :: "journal_container \<Rightarrow> hscfs \<Rightarrow> (hscfs, unit) prog \<Rightarrow> hscfs \<Rightarrow> bool" where
  "one_tx j s0 p s \<longleftrightarrow> (case p s of (r, s') \<Rightarrow>
     committed j s0 s' \<or> nothing_committed s0 s' \<and> (r = Inr () \<longrightarrow> journal_is_empty j))"

lemma one_tx_bnd:
  assumes "keeps (uncommitted j s0) m" "uncommitted j s0 s" "\<And>x t. m s = (Inr x, t) \<Longrightarrow> uncommitted j s0 t \<Longrightarrow> one_tx j s0 (f x) t"
  shows "one_tx j s0 (bnd m f) s"
proof -
  obtain r s' where r: "bnd m f s = (r, s')" by fastforce
  from r assms(1,2) show ?thesis
  proof (cases rule: bnd_keepsE)
    case (1 e)
    then show ?thesis by (simp add: one_tx_def r uncommitted_def nothing_committed_def)
  next
    case (2 x t)
    then show ?thesis using assms(3) [of x t] by (simp add: one_tx_def r)
  qed
qed


lemma on_throw_bnd:
  "(\<And>x s. \<exists>y s'. g x s = (Inr y, s')) \<Longrightarrow> on_throw d (bnd m g) = bnd (on_throw d m) g"
  by (auto simp: prog_simps fun_eq_iff split: prod.splits sum.splits fault.splits) (metis Inr_Inl_False prod.inject)+

lemma get_and_reset_returns: "\<exists>y s'. on_fsys (on_meta get_and_reset_cur_journal) s = (Inr y, s')"
  by (simp add: on_fsys_def on_ios_def on_fs_def on_meta_def get_and_reset_cur_journal_def prog_simps)

lemma journal_extends_empty: "journal_extends j k \<Longrightarrow> journal_is_empty k \<Longrightarrow> journal_is_empty j"
  by (simp add: journal_extends_def journal_is_empty_def)

lemma committed_from:
  "committed k t s' \<Longrightarrow> journal_extends j k \<Longrightarrow> hs_rp t = hs_rp s0 \<Longrightarrow> hs_env t = hs_env s0 \<Longrightarrow> committed j s0 s'"
  unfolding committed_def journal_extends_def by (elim conjE exE) (auto intro: prefix_order.trans)

lemma one_tx_commit:
  assumes "uncommitted j s0 t"
  shows "one_tx j s0 (bnd (on_fsys (on_meta get_and_reset_cur_journal)) (\<lambda>jc.
     if \<not> journal_is_empty jc then commit_transaction jc ns else on_fsys (release_nodes ns))) t"
proof -
  define jc where "jc = meta.cur_journal (hs_meta t)"
  obtain u where u: "on_fsys (on_meta get_and_reset_cur_journal) t = (Inr jc, u)"
      "meta.cur_journal (hs_meta u) = empty_journal" "hs_rp u = hs_rp s0" "hs_env u = hs_env s0"
    using assms by (simp add: on_fsys_def on_ios_def on_fs_def on_meta_def get_and_reset_cur_journal_def prog_simps
        jc_def hs_meta_def uncommitted_def)
  have x: "journal_extends j jc" using assms by (simp add: jc_def uncommitted_def grown_def)
  show ?thesis
  proof (cases "journal_is_empty jc")
    case True
    obtain r s' where r: "on_fsys (release_nodes ns) u = (r, s')" by fastforce
    then have "hs_rp s' = hs_rp u \<and> hs_env s' = hs_env u"
      by (auto simp: on_fsys_def on_ios_def split: prod.splits)
    then show ?thesis
      using True x u r journal_extends_empty [OF x] by (simp add: one_tx_def bnd_run nothing_committed_def)
  next
    case False
    obtain r s' where r: "commit_transaction jc ns u = (r, s')" by fastforce
    then show ?thesis
      using commit_transaction_commits [OF r u(2) False] committed_from [OF _ x u(3,4)] False u
      by (auto simp: one_tx_def bnd_run nothing_committed_def)
  qed
qed

text \<open>Releasing the directory blocks at the end changes none of it.\<close>

lemma one_tx_scoped:
  assumes "one_tx j s0 p s"
  shows "one_tx j s0 (scoped (release_dir_blks ds) p) s"
proof -
  obtain r t where p: "p s = (r, t)" by fastforce
  obtain r' s' where d: "release_dir_blks ds t = (r', s')" by fastforce
  have f: "committed j s0 t \<Longrightarrow> committed j s0 s'" "nothing_committed s0 t \<Longrightarrow> nothing_committed s0 s'"
    using release_dir_blks_frame [OF d] by (simp_all add: committed_def nothing_committed_def hs_meta_def)
  show ?thesis
    using assms p d f by (auto simp: one_tx_def prog_simps split: sum.splits fault.splits)
qed

lemma write_meta_back_one_tx: "one_tx (meta.cur_journal (hs_meta s)) s (write_meta_back_sync srch fuel a) s"
proof -
  define j where "j = meta.cur_journal (hs_meta s)"
  have s: "uncommitted j s s"
    by (simp add: uncommitted_def grown_def j_def journal_extends_def)
  note eq = on_throw_bnd [where g = "\<lambda>_. on_fsys (on_meta get_and_reset_cur_journal)", OF get_and_reset_returns]
  show ?thesis
    unfolding write_meta_back_sync_def j_def [symmetric] Let_def bnd_assoc [symmetric] eq
    unfolding bnd_assoc
    by (intro one_tx_bnd [OF _ s] one_tx_scoped one_tx_bnd one_tx_commit keeps_rules; assumption)
qed

section \<open>A concrete manager\<close>

text \<open>Nothing is dirty, and a change of the address of node 3 has been journalled.\<close>

definition sample_journal :: journal_container where
  "sample_journal = append_NAT_journal_entry \<lparr>nid = 3, nat_newValue = \<lparr>ne_ino = 3, ne_block_addr = 777\<rparr>\<rparr> empty_journal"

definition sample_hs :: hscfs where
  "sample_hs = \<lparr>
     hs_io = \<lparr>io_fs = sample_sys\<lparr>fs_meta := sample_meta\<lparr>meta.cur_journal := sample_journal\<rparr>\<rparr>, io_data = Map.empty,
       io_srmap = sample_srmap, fo_mgr = cm_empty, fo_dirty = [], fo_expect = 32, fo_cur = 0, page_cache_size = 32\<rparr>,
     hs_dir = \<lparr>ds_fs = sample_sys, ds_dir = dd_init 64, ds_dentry = dc_init 128, ds_dev = Map.empty\<rparr>,
     hs_rp = rp_init, hs_env = journal_process_env_init, hs_fd = fd_array_init 4, hs_root = None, hs_unrecoverable = False\<rparr>"

definition good_answers :: wb_answers where
  "good_answers = \<lparr>wb_submit_ok = \<lambda>_. True, wb_res = \<lambda>_. COMM_CMD_SUCCESS\<rparr>"

section \<open>Property\<close>

text \<open>
  C14. A write back commits at most one transaction, and exactly one when it returns and anything was
  journalled before: the journal handed to the SSD holds all of it, carries the number of the
  record that protects the transaction, and the record is in the list before the call returns; the
  next number, an empty journal and empty lists of segments and dirty entries are left. A call that
  fails before that has neither committed a journal nor added a record.
\<close>

theorem commit_is_protected:
  assumes "write_meta_back_sync srch fuel a s = (r, s')"
  shows "(committed (meta.cur_journal (hs_meta s)) s s' \<or> nothing_committed s s') \<and>
    (r = Inr () \<and> \<not> journal_is_empty (meta.cur_journal (hs_meta s)) \<longrightarrow> committed (meta.cur_journal (hs_meta s)) s s')"
  using write_meta_back_one_tx [of s srch fuel a] assms by (auto simp: one_tx_def)


theorem commit_is_protected_witness:
  "\<exists>s'. write_meta_back_sync sample_search 3 good_answers sample_hs = (Inr (), s') \<and> committed sample_journal sample_hs s'"
proof -
  have j: "meta.cur_journal (hs_meta sample_hs) = sample_journal" "\<not> journal_is_empty sample_journal"
    by (simp_all add: hs_meta_def sample_hs_def journal_is_empty_def sample_journal_def append_NAT_journal_entry_def)
  obtain s' where r: "write_meta_back_sync sample_search 3 good_answers sample_hs = (Inr (), s')"
    by (simp add: write_meta_back_sync_def prog_simps sample_hs_def on_dirs_def on_dir_def get_and_clear_dirty_blks_def dd_init_def
        on_fsys_def on_ios_def on_fs_def nc_get_and_clear_dirty_list_def sample_sys_def on_srmap_def write_dirty_srmap_sync_def
        sample_srmap_def srmap_init_def vecio_init_def clear_cache_def wait_cplt_def on_meta_def get_and_reset_cur_journal_def
        sample_journal_def append_NAT_journal_entry_def journal_is_empty_def commit_transaction_def alloc_tx_id_def Let_def
        on_dentry_def get_and_clear_dirty_list_def dc_init_def get_and_clear_uncommit_node_segs_def
        get_and_clear_uncommit_data_segs_def release_dir_blks_def)
  show ?thesis using commit_is_protected [OF r] j r by auto
qed

end
