(* ===== verification/Path_Lookup.thy ===== *)
theory Path_Lookup
  imports FS_Manager Path_Utils
begin

text \<open>
  Path lookup, \<^verbatim>\<open>path_lookup_processor\<close> and \<^verbatim>\<open>ssd_path_lookup_controller\<close> of
  \<^verbatim>\<open>src/fs/path_utils.cc\<close>: the components are followed in the cache of directory entries; at the
  first one that is not there the rest of the path goes to the SSD, and what it finds is entered
  into the cache. Handles of directory entries are only released by an assignment to them.
\<close>

section \<open>The environment of a call\<close>

text \<open>
  The answer of the SSD to a path lookup. The array of inode numbers has \<^verbatim>\<open>MAX_PATH_DEPTH\<close> elements,
  however many the SSD filled in; a read beyond them is undefined.
\<close>

definition MAX_PATH_DEPTH :: nat where
  "MAX_PATH_DEPTH = (4096 - 12) div 4"

record path_lookup_result =
  dentry_blkidx :: u64
  dentry_bitpos :: u32
  path_inos :: "nat \<Rightarrow> u32"

definition path_ino_at :: "path_lookup_result \<Rightarrow> nat \<Rightarrow> fault + u32" where
  "path_ino_at r i = (if i < MAX_PATH_DEPTH then Inr (path_inos r i) else Inl Undefined)"

text \<open>
  What a call gets from outside: the SSD's searches and write results, the bound on the rounds of
  the search for a block, the clock, the content of uninitialised memory, whether memory for the
  device is available, and the prefix of user paths.
\<close>

record sys_env =
  se_search :: ssd_search
  se_fuel :: nat
  se_wb :: wb_answers
  se_path :: "hscfs \<Rightarrow> path_lookup_task \<Rightarrow> path_lookup_result option"
  se_time :: timespec
  se_junk :: file_obj
  se_alloc_ok :: bool
  se_prefix :: "string option"

definition name_bytes :: "string \<Rightarrow> u8 list" where
  "name_bytes s = map of_char s"

section \<open>The SSD's answer\<close>

definition get_result_pos :: "path_lookup_result \<Rightarrow> nat \<Rightarrow> fault + dentry_store_pos" where
  "get_result_pos r dpt =
     (let last_component = dpt - 1 in
      obind (path_ino_at r last_component) (\<lambda>last_ino.
      if last_ino \<noteq> INVALID_NID then
        (if dentry_bitpos r = INVALID_DENTRY_BITPOS then Inl Assert_failed
         else Inr (store_pos_set (ucast (dentry_blkidx r)) (dentry_bitpos r)))
      else
        obind (if last_component = 0 then Inr True
               else obind (path_ino_at r (last_component - 1)) (\<lambda>i. Inr (i \<noteq> INVALID_NID))) (\<lambda>dir_exists.
        if dir_exists \<and> dentry_bitpos r \<noteq> INVALID_DENTRY_BITPOS
        then Inr (store_pos_set (ucast (dentry_blkidx r)) (dentry_bitpos r))
        else Inr dentry_store_pos_init)))"

section \<open>Following the path\<close>

text \<open>\<^verbatim>\<open>cur_dentry = d_cache->get(parent)\<close>, for the component \<^verbatim>\<open>..\<close>.\<close>

definition goto_parent :: "dentry_key \<Rightarrow> (dentry_cache, dentry_key) prog" where
  "goto_parent cur =
     bnd (get_parent_key cur) (\<lambda>parent_key.
     bnd (dc_get (dk_dir parent_key) (dk_name parent_key)) (\<lambda>h.
     bnd (dc_handle_move_assign (Some cur) h) (\<lambda>_.
     case h of None \<Rightarrow> fail Assert_failed | Some q \<Rightarrow> ret q)))"

text \<open>
  The inner loop over the SSD's answer. \<open>d\<close> is \<^verbatim>\<open>cur_depth\<close>, which is also the position in the
  array; the result is the entry found, if any, the position where it could be created, and the
  depth reached. The first argument bounds the rounds.
\<close>

fun ssd_walk ::
    "nat \<Rightarrow> path_lookup_result \<Rightarrow> nat \<Rightarrow> path_dentry_iterator \<Rightarrow> nat \<Rightarrow> dentry_key \<Rightarrow>
     (dentry_cache, dentry_key option \<times> dentry_store_pos \<times> nat) prog" where
  "ssd_walk 0 r dpt it d cur = fail Still_running"
| "ssd_walk (Suc n) r dpt it d cur =
     (if it_eq it (it_end (it_path it)) then ret (Some cur, dentry_store_pos_init, d)
      else
        let component_name = fst (it_get it); it1 = snd (it_get it) in
        bnd (dc_entry cur) (\<lambda>e.
        bnd (of_result (path_ino_at r d)) (\<lambda>res_ino.
        if component_name = ''.'' then
          bnd (assert_that (res_ino = dn_ino e)) (\<lambda>_. ssd_walk n r dpt (it_next it1) (Suc d) cur)
        else if component_name = ''..'' then
          bnd (assert_that (res_ino = dk_dir (dn_key e))) (\<lambda>_.
          bnd (goto_parent cur) (\<lambda>q.
          ssd_walk n r dpt (it_next it1) (Suc d) q))
        else if res_ino = INVALID_NID then
          bnd (if is_last_component it1 then of_result (get_result_pos r dpt) else ret dentry_store_pos_init) (\<lambda>pos.
          ret (None, pos, d))
        else
          bnd (dc_add (dn_ino e) (Some cur) res_ino (name_bytes component_name)) (\<lambda>k.
          bnd (dc_handle_move_assign (Some cur) (Some k)) (\<lambda>_.
          ssd_walk n r dpt (it_next it1) (Suc d) k)))))"

definition ssd_path_lookup ::
    "sys_env \<Rightarrow> path_dentry_iterator \<Rightarrow> dentry_key \<Rightarrow> (hscfs, dentry_key option \<times> dentry_store_pos) prog" where
  "ssd_path_lookup v it cur =
     bnd (on_dirs (on_dentry (dc_entry cur))) (\<lambda>e.
     bnd (if is_newly_created e then
            bnd (write_meta_back_sync (se_search v) (se_fuel v) (se_wb v)) (\<lambda>_.
            bnd (on_dirs (on_dentry (dc_entry cur))) (\<lambda>e'.
            assert_that (\<not> is_newly_created e')))
          else ret ()) (\<lambda>_.
     bnd (of_result (construct_task (se_alloc_ok v) (dn_ino e) it)) (\<lambda>task.
     bnd (reads (\<lambda>s. se_path v s task)) (\<lambda>answer.
     case answer of
       None \<Rightarrow> fail (Throw Io_error)
     | Some r \<Rightarrow>
         bnd (on_dirs (on_dentry (ssd_walk (Suc (length (it_path it))) r (depth task) it 0 cur))) (\<lambda>(h, pos, d).
         case h of
           None \<Rightarrow> ret (None, pos)
         | Some k \<Rightarrow>
             bnd (assert_that (d = depth task)) (\<lambda>_.
             bnd (of_result (get_result_pos r (depth task))) (\<lambda>ssd_pos_info.
             bnd (on_dirs (on_dentry (dc_write k (\<lambda>e. e\<lparr>dn_pos := ssd_pos_info\<rparr>)))) (\<lambda>_.
             ret (Some k, ssd_pos_info)))))))))"

fun lookup_walk :: "sys_env \<Rightarrow> nat \<Rightarrow> path_dentry_iterator \<Rightarrow> dentry_key \<Rightarrow> (hscfs, dentry_key option \<times> dentry_store_pos) prog" where
  "lookup_walk v 0 it cur = fail Still_running"
| "lookup_walk v (Suc n) it cur =
     (if it_eq it (it_end (it_path it)) then ret (Some cur, dentry_store_pos_init)
      else
        bnd (on_dirs (dentry_get_type cur)) (\<lambda>type.
        if type \<noteq> 2 then ret (None, dentry_store_pos_init)
        else
          bnd (on_dirs (on_dentry (dc_entry cur))) (\<lambda>e.
          if dn_state e \<noteq> Dentry_valid then ret (None, dentry_store_pos_init)
          else
            let component_name = fst (it_get it); it1 = snd (it_get it) in
            if component_name = ''.'' then lookup_walk v n (it_next it1) cur
            else if component_name = ''..'' then
              bnd (on_dirs (on_dentry (goto_parent cur))) (\<lambda>q. lookup_walk v n (it_next it1) q)
            else
              bnd (on_dirs (on_dentry (dc_get (dn_ino e) (name_bytes component_name)))) (\<lambda>h.
              case h of
                None \<Rightarrow> ssd_path_lookup v it1 cur
              | Some c \<Rightarrow>
                  bnd (on_dirs (on_dentry (dc_handle_assign (Some cur) (Some c)))) (\<lambda>_.
                  lookup_walk v n (it_next it1) c)))))"

text \<open>A round of the loop for each component, of which there are at most as many as characters.\<close>

definition do_path_lookup :: "sys_env \<Rightarrow> dentry_key option \<Rightarrow> string \<Rightarrow> (hscfs, dentry_key option \<times> dentry_store_pos) prog" where
  "do_path_lookup v start_dentry path =
     (case start_dentry of
        None \<Rightarrow> fail Undefined
      | Some d \<Rightarrow>
          bnd (on_dirs (on_dentry (dc_handle_copy (Some d)))) (\<lambda>_.
          lookup_walk v (Suc (length path)) (it_begin path) d))"

text \<open>
  Setting the start of the lookup: \<open>old\<close> is the handle that the processor had. The handle of the root
  is copied and the copy moved in; a directory's handle is assigned.
\<close>

definition set_abs_path :: "dentry_key option \<Rightarrow> (hscfs, dentry_key option) prog" where
  "set_abs_path old =
     bnd (reads hs_root) (\<lambda>root.
     bnd (on_dirs (on_dentry (dc_handle_copy root))) (\<lambda>h.
     on_dirs (on_dentry (dc_handle_move_assign old h))))"

definition set_rel_path :: "dentry_key option \<Rightarrow> dentry_key option \<Rightarrow> (hscfs, dentry_key option) prog" where
  "set_rel_path old dir = on_dirs (on_dentry (dc_handle_assign old dir))"

end
