(* ===== verification/Path_Correct.thy ===== *)
theory Path_Correct
  imports FS_Commit Path_Lookup
begin

text \<open>
  What path lookup finds. When the entries on the way are cached, it follows the components of the
  path as \<open>cached_walk\<close> says, without asking the SSD. What it does with the SSD's answer fails for a
  path that leads through an entry again.
\<close>

section \<open>Following a path in the cache\<close>

text \<open>
  The result is nothing when the cache does not know, and otherwise the entry, if there is one. An
  entry that is no directory, or is deleted, has nothing below it.
\<close>

fun cached_walk :: "(dentry_key \<Rightarrow> dentry_obj option) \<Rightarrow> string list \<Rightarrow> dentry_key \<Rightarrow> dentry_key option option" where
  "cached_walk ix [] d = Some (Some d)"
| "cached_walk ix (w # ws) d =
     (case ix d of
        None \<Rightarrow> None
      | Some e \<Rightarrow>
          if dn_type e = HSCFS_FT_UNKNOWN then None
          else if dn_type e \<noteq> 2 \<or> dn_state e \<noteq> Dentry_valid then Some None
          else if w = ''.'' then cached_walk ix ws d
          else if w = ''..'' then cached_walk ix ws (case dn_parent e of None \<Rightarrow> d | Some q \<Rightarrow> q)
          else if ix (Dentry_key (dn_ino e) (name_bytes w)) = None then None
          else cached_walk ix ws (Dentry_key (dn_ino e) (name_bytes w)))"

lemma dc_shrinks_ix:
  assumes "dc_shrinks c c' {}"
  shows "dc_ix c' k = None \<longleftrightarrow> dc_ix c k = None"
    "dc_ix c k = Some e \<Longrightarrow> \<exists>e'. dc_ix c' k = Some e' \<and> e'\<lparr>dn_ref := 0\<rparr> = e\<lparr>dn_ref := 0\<rparr>"
proof -
  have "dom (dc_ix c') = dom (dc_ix c)" using assms by (simp add: dc_shrinks_def)
  then show n: "dc_ix c' k = None \<longleftrightarrow> dc_ix c k = None" for k by (metis domIff)
  show "\<exists>e'. dc_ix c' k = Some e' \<and> e'\<lparr>dn_ref := 0\<rparr> = e\<lparr>dn_ref := 0\<rparr>" if "dc_ix c k = Some e"
    using n [of k] that dc_shrinks_entryD [OF assms, of k] by (cases "dc_ix c' k") auto
qed

lemma cached_walk_shrinks:
  assumes "dc_shrinks c c' {}"
  shows "cached_walk (dc_ix c') ws d = cached_walk (dc_ix c) ws d"
proof (induction ws arbitrary: d)
  case (Cons w ws)
  show ?case
  proof (cases "dc_ix c d")
    case (Some e)
    then obtain e' where e: "dc_ix c' d = Some e'" "e'\<lparr>dn_ref := 0\<rparr> = e\<lparr>dn_ref := 0\<rparr>"
      using dc_shrinks_ix(2) [OF assms] by blast
    have "dn_type (e'\<lparr>dn_ref := 0\<rparr>) = dn_type (e\<lparr>dn_ref := 0\<rparr>)" "dn_state (e'\<lparr>dn_ref := 0\<rparr>) = dn_state (e\<lparr>dn_ref := 0\<rparr>)"
      "dn_parent (e'\<lparr>dn_ref := 0\<rparr>) = dn_parent (e\<lparr>dn_ref := 0\<rparr>)" "dn_ino (e'\<lparr>dn_ref := 0\<rparr>) = dn_ino (e\<lparr>dn_ref := 0\<rparr>)"
      by (simp_all only: e(2))
    then show ?thesis using Some e(1) Cons.IH dc_shrinks_ix(1) [OF assms] by simp
  next
    case None
    moreover have "dc_ix c' d = None" using None dc_shrinks_ix(1) [OF assms] by blast
    ultimately show ?thesis by simp
  qed
qed simp

section \<open>The iterator in the loop\<close>

lemma it_step:
  assumes "it_wf it" "components (it_rest it) = w # ws"
  shows "\<not> it_eq it (it_end (it_path it))" "fst (it_get it) = w" "it_wf (it_next (snd (it_get it)))"
    "components (it_rest (it_next (snd (it_get it)))) = ws"
    "length (it_rest (it_next (snd (it_get it)))) < length (it_rest it)"
proof -
  have cur: "cur_pos it \<le> length (it_path it)" using assms(1) by (simp add: it_wf_def)
  let ?r = "dropWhile (\<lambda>c. c = slash) (it_rest it)"
  have ne: "?r \<noteq> []" using assms(2) components_skip [of "it_rest it"] components_Nil by (metis list.distinct(1))
  then have hd: "hd ?r \<noteq> slash" by (rule hd_dropWhile)
  note cw = components_word [OF ne hd, unfolded components_skip assms(2)]
  show "\<not> it_eq it (it_end (it_path it))" using it_eq_end [OF cur] ne by simp
  show "fst (it_get it) = w" using it_end_pos_val(3) [OF cur] cw by simp
  show "it_wf (it_next (snd (it_get it)))" by (rule it_next_get(1) [OF assms(1)])
  show "components (it_rest (it_next (snd (it_get it)))) = ws" unfolding it_next_get(3) [OF assms(1)] using cw by simp
  have "length (dropWhile (\<lambda>c. c \<noteq> slash) ?r) < length ?r"
    using ne hd by (cases ?r) (auto simp: le_imp_less_Suc length_dropWhile_le)
  then show "length (it_rest (it_next (snd (it_get it)))) < length (it_rest it)"
    unfolding it_next_get(3) [OF assms(1)] using length_dropWhile_le [of "\<lambda>c. c = slash" "it_rest it"] by linarith
qed

lemma it_done:
  assumes "it_wf it" "components (it_rest it) = []"
  shows "it_eq it (it_end (it_path it))"
proof -
  have cur: "cur_pos it \<le> length (it_path it)" using assms(1) by (simp add: it_wf_def)
  have "dropWhile (\<lambda>c. c = slash) (it_rest it) = []"
  proof (rule ccontr)
    assume ne: "dropWhile (\<lambda>c. c = slash) (it_rest it) \<noteq> []"
    then have "hd (dropWhile (\<lambda>c. c = slash) (it_rest it)) \<noteq> slash" by (rule hd_dropWhile)
    from components_word [OF ne this] assms(2) show False by (simp add: components_skip)
  qed
  then show ?thesis using it_eq_end [OF cur] by simp
qed

section \<open>Programs on the entry cache\<close>

definition put_dentry :: "dentry_cache \<Rightarrow> hscfs \<Rightarrow> hscfs" where
  "put_dentry c s = s\<lparr>hs_dir := (hs_dir s)\<lparr>ds_fs := io_fs (hs_io s), ds_dentry := c\<rparr>\<rparr>"

abbreviation dentries :: "hscfs \<Rightarrow> dentry_cache" where "dentries s \<equiv> ds_dentry (hs_dir s)"

lemma put_dentry_simps [simp]:
  "dentries (put_dentry c s) = c" "put_dentry c (put_dentry d s) = put_dentry c s" "hs_io (put_dentry c s) = hs_io s"
  by (simp_all add: put_dentry_def)

lemma on_dentry_run [simp]:
  "on_dirs (on_dentry p) s = (case p (dentries s) of (r, c) \<Rightarrow> (r, put_dentry c s))"
proof -
  have "(s\<lparr>hs_dir := d, hs_io := (hs_io s)\<lparr>io_fs := io_fs (hs_io s)\<rparr>\<rparr>) = s\<lparr>hs_dir := d\<rparr>" for d by simp
  then show ?thesis by (simp add: on_dirs_def on_dentry_def put_dentry_def split: prod.splits)
qed

lemma cached_type:
  assumes "dc_ix (dentries s) d = Some e" "dn_type e \<noteq> HSCFS_FT_UNKNOWN"
  shows "on_dirs (dentry_get_type d) s = (Inr (dn_type e), put_dentry (dentries s) s)"
proof -
  have "(s\<lparr>hs_dir := x, hs_io := (hs_io s)\<lparr>io_fs := io_fs (hs_io s)\<rparr>\<rparr>) = s\<lparr>hs_dir := x\<rparr>" for x by simp
  then show ?thesis
    using assms by (simp add: on_dirs_def on_dentry_def dentry_get_type_def dc_entry_def prog_simps put_dentry_def)
qed

lemma dc_entry_run: "dc_ix c d = Some e \<Longrightarrow> dc_entry d c = (Inr e, c)"
  by (simp add: dc_entry_def)

text \<open>References may be taken \<open>n\<close> more times.\<close>

definition dc_room_for :: "nat \<Rightarrow> (dentry_key \<Rightarrow> nat) \<Rightarrow> dentry_cache \<Rightarrow> bool" where
  "dc_room_for n ext c \<longleftrightarrow> (\<forall>k. ext k + card (dom (dc_ix c)) + 2 * n + 2 < 2 ^ 32)"

lemma dc_room_less: "dc_room_for (Suc n) ext c \<Longrightarrow> dc_room_for n ext c"
  unfolding dc_room_for_def by (intro allI, erule_tac x = k in allE) simp

lemma dc_shrinks_dom: "dc_shrinks c c' {} \<Longrightarrow> dom (dc_ix c') = dom (dc_ix c)"
  by (simp add: dc_shrinks_def)

lemma goto_parent_ok:
  assumes inv: "dc_inv ext c" and d: "ext d \<noteq> 0" "dc_ix c d = Some e" and room: "dc_room_for (Suc n) ext c"
  defines "q \<equiv> (case dn_parent e of None \<Rightarrow> d | Some q \<Rightarrow> q)"
  shows "\<exists>c' ext'. goto_parent d c = (Inr q, c') \<and> dc_inv ext' c' \<and> dc_shrinks c c' {} \<and> ext' q \<noteq> 0 \<and> dc_room_for n ext' c'"
proof -
  note K = rc_invD(3) [OF dc_invD(1) [OF inv]]
  have q: "dc_ix c q \<noteq> None" "get_parent_key d c = (Inr q, c)"
    using d(2) dc_parent_cached [OF inv d(2)] K by (auto simp: q_def get_parent_key_def dc_entry_def prog_simps split: option.splits)
  have r: "ext k + card (dom (dc_ix c)) + 2 < 2 ^ 32" for k using room by (auto simp: dc_room_for_def dest!: spec [of _ k])
  obtain i m where qk: "q = Dentry_key i m" by (cases q) auto
  obtain c1 where c1: "dc_get i m c = (Inr (Some q), c1)" "dc_shrinks c c1 {}" "dc_inv (ext(q := Suc (ext q))) c1"
    using dc_get_ok [OF inv r, of i m] q(1) by (auto simp: qk simp del: fun_upd_apply)
  let ?e1 = "ext(q := Suc (ext q))"
  have nz: "?e1 d \<noteq> 0" using d(1) by simp
  obtain m2 e2 where c2: "dc_sub_refcount d c1 = (Inr (), c1\<lparr>dc_mgr := m2\<rparr>)" "dc_inv (?e1(d := ?e1 d - 1)) (c1\<lparr>dc_mgr := m2\<rparr>)"
      "dc_ix c1 d = Some e2" "cm_index m2 = (dc_ix c1)(d \<mapsto> e2\<lparr>dn_ref := dn_ref e2 - 1\<rparr>)"
    using dc_subref_ok [OF c1(3) nz] by blast
  let ?e2 = "?e1(d := ?e1 d - 1)" and ?c2 = "c1\<lparr>dc_mgr := m2\<rparr>"
  have s: "dc_shrinks c ?c2 {}" using dc_shrinks_trans [OF c1(2) dc_shrinks_entry [OF c2(3,4)]] by simp
  have "goto_parent d c = (Inr q, ?c2)"
    using q(2) c1(1) c2(1) by (simp add: goto_parent_def prog_simps qk dc_handle_move_assign_def)
  moreover have "?e2 q \<noteq> 0" using d(1) by auto
  moreover have "dc_room_for n ?e2 ?c2"
    unfolding dc_room_for_def dc_shrinks_dom [OF s]
  proof
    fix k show "?e2 k + card (dom (dc_ix c)) + 2 * n + 2 < 2 ^ 32"
      using room unfolding dc_room_for_def by (drule_tac spec [of _ k]) auto
  qed
  ultimately show ?thesis using c2(2) s by blast
qed

text \<open>The handle that the search returned is copied into the current one and not released.\<close>

lemma goto_child_ok:
  assumes inv: "dc_inv ext c" and d: "ext d \<noteq> 0" and k: "dc_ix c (Dentry_key i m) \<noteq> None" and room: "dc_room_for (Suc n) ext c"
  shows "\<exists>c1 c2 ext'. dc_get i m c = (Inr (Some (Dentry_key i m)), c1) \<and>
    dc_handle_assign (Some d) (Some (Dentry_key i m)) c1 = (Inr (Some (Dentry_key i m)), c2) \<and>
    dc_inv ext' c2 \<and> dc_shrinks c c2 {} \<and> ext' (Dentry_key i m) \<noteq> 0 \<and> dc_room_for n ext' c2"
proof -
  let ?q = "Dentry_key i m"
  have r: "ext j + card (dom (dc_ix c)) + 2 * n + 4 < 2 ^ 32" for j using room by (auto simp: dc_room_for_def dest!: spec [of _ j])
  have r2: "ext j + card (dom (dc_ix c)) + 2 < 2 ^ 32" for j using r [of j] by simp
  obtain c1 where c1: "dc_get i m c = (Inr (Some ?q), c1)" "dc_shrinks c c1 {}" "dc_inv (ext(?q := Suc (ext ?q))) c1"
    using dc_get_ok [OF inv r2, of i m] k by (auto simp del: fun_upd_apply)
  let ?e1 = "ext(?q := Suc (ext ?q))"
  have nz: "?e1 d \<noteq> 0" using d(1) by simp
  obtain m2 e2 where c2: "dc_sub_refcount d c1 = (Inr (), c1\<lparr>dc_mgr := m2\<rparr>)" "dc_inv (?e1(d := ?e1 d - 1)) (c1\<lparr>dc_mgr := m2\<rparr>)"
      "dc_ix c1 d = Some e2" "cm_index m2 = (dc_ix c1)(d \<mapsto> e2\<lparr>dn_ref := dn_ref e2 - 1\<rparr>)"
    using dc_subref_ok [OF c1(3) nz] by blast
  let ?e2 = "?e1(d := ?e1 d - 1)" and ?c2 = "c1\<lparr>dc_mgr := m2\<rparr>"
  have s: "dc_shrinks c ?c2 {}" using dc_shrinks_trans [OF c1(2) dc_shrinks_entry [OF c2(3,4)]] by simp
  obtain eq where eq: "dc_ix ?c2 ?q = Some eq" using dc_shrinks_ix(1) [OF s, of ?q] k by blast
  have "?e2 ?q + card (dom (dc_ix ?c2)) + 2 < 2 ^ 32" unfolding dc_shrinks_dom [OF s] using r [of ?q] by auto
  from dc_addref_ok [OF c2(2) eq this] obtain m3 where
    c3: "dc_add_refcount ?q ?c2 = (Inr (), ?c2\<lparr>dc_mgr := m3\<rparr>)" "dc_inv (?e2(?q := Suc (?e2 ?q))) (?c2\<lparr>dc_mgr := m3\<rparr>)"
      "cm_index m3 = (dc_ix ?c2)(?q \<mapsto> eq\<lparr>dn_ref := dn_ref eq + 1\<rparr>)" by blast
  let ?e3 = "?e2(?q := Suc (?e2 ?q))" and ?c3 = "?c2\<lparr>dc_mgr := m3\<rparr>"
  have s3: "dc_shrinks c ?c3 {}" using dc_shrinks_trans [OF s dc_shrinks_entry [OF eq c3(3)]] by simp
  have "dc_room_for n ?e3 ?c3"
    unfolding dc_room_for_def dc_shrinks_dom [OF s3]
  proof
    fix j show "?e3 j + card (dom (dc_ix c)) + 2 * n + 2 < 2 ^ 32" using r [of j] by auto
  qed
  moreover have "dc_handle_assign (Some d) (Some ?q) c1 = (Inr (Some ?q), ?c3)"
    using c2(1) c3(1) by (simp add: dc_handle_assign_def dc_handle_copy_def prog_simps)
  moreover have "?e3 ?q \<noteq> 0" by simp
  ultimately show ?thesis using c1(1) c3(2) s3 by blast
qed


section \<open>The loop\<close>

text \<open>Nothing but the references in the cache has changed.\<close>

definition only_references :: "hscfs \<Rightarrow> hscfs \<Rightarrow> bool" where
  "only_references s s' \<longleftrightarrow> put_dentry (dentries s) s' = put_dentry (dentries s) s \<and> dc_shrinks (dentries s) (dentries s') {}"

lemma only_references_put: "dc_shrinks (dentries s) c {} \<Longrightarrow> only_references s (put_dentry c s)"
  by (simp add: only_references_def)

lemma only_references_trans: "only_references s t \<Longrightarrow> only_references t u \<Longrightarrow> only_references s u"
  unfolding only_references_def using dc_shrinks_trans [of _ _ "{}" _ "{}"] by (metis put_dentry_simps(2) sup_bot.right_neutral)

lemma lookup_walk_cached:
  assumes "it_wf it" "length (it_rest it) < n" "dc_inv ext (dentries s)" "ext d \<noteq> 0"
    "cached_walk (dc_ix (dentries s)) (components (it_rest it)) d = Some r"
    "dc_room_for (length (components (it_rest it))) ext (dentries s)"
  shows "\<exists>s' ext'. lookup_walk v n it d s = (Inr (r, dentry_store_pos_init), s') \<and> only_references s s' \<and>
    dc_inv ext' (dentries s') \<and> (\<forall>k. r = Some k \<longrightarrow> ext' k \<noteq> 0)"
  using assms
proof (induction n arbitrary: it ext s d)
  case (Suc n)
  show ?case
  proof (cases "components (it_rest it)")
    case Nil
    have "lookup_walk v (Suc n) it d s = (Inr (r, dentry_store_pos_init), s)"
      using it_done [OF Suc.prems(1) Nil] Suc.prems(5) Nil by (simp add: prog_simps)
    moreover have "only_references s s" by (simp add: only_references_def dc_shrinks_refl)
    ultimately show ?thesis using Suc.prems(3,4,5) Nil by auto
  next
    case (Cons w ws)
    note st = it_step [OF Suc.prems(1) Cons]
    let ?it = "it_next (snd (it_get it))" and ?c = "dentries s"
    note walk = Suc.prems(5) [unfolded Cons]
    obtain e where e: "dc_ix ?c d = Some e" "dn_type e \<noteq> HSCFS_FT_UNKNOWN"
      using walk by (auto split: option.splits if_splits)
    define s1 where "s1 = put_dentry ?c s"
    have s1: "dentries s1 = ?c" "only_references s s1" by (simp_all add: s1_def only_references_def dc_shrinks_refl)
    have ty: "bnd (on_dirs (dentry_get_type d)) f s = f (dn_type e) s1" for f :: "u8 \<Rightarrow> (hscfs, 'x) prog"
      using cached_type [OF e] by (simp add: bnd_def s1_def)
    have head: "lookup_walk v (Suc n) it d s =
        (if dn_type e \<noteq> 2 then ret (None, dentry_store_pos_init)
         else bnd (on_dirs (on_dentry (dc_entry d))) (\<lambda>e.
          if dn_state e \<noteq> Dentry_valid then ret (None, dentry_store_pos_init)
          else if w = ''.'' then lookup_walk v n ?it d
          else if w = ''..'' then bnd (on_dirs (on_dentry (goto_parent d))) (\<lambda>q. lookup_walk v n ?it q)
          else bnd (on_dirs (on_dentry (dc_get (dn_ino e) (name_bytes w)))) (\<lambda>h.
              case h of
                None \<Rightarrow> ssd_path_lookup v (snd (it_get it)) d
              | Some c \<Rightarrow> bnd (on_dirs (on_dentry (dc_handle_assign (Some d) (Some c)))) (\<lambda>_.
                  lookup_walk v n ?it c)))) s1"
      unfolding lookup_walk.simps Let_def st(2) by (simp add: st(1) ty del: on_dentry_run)
    have en: "on_dirs (on_dentry (dc_entry d)) s1 = (Inr e, put_dentry ?c s1)"
      using dc_entry_run [OF e(1)] by (simp add: s1(1))
    have s2: "put_dentry ?c s1 = s1" by (simp add: s1_def)
    note IH = Suc.IH [OF st(3), unfolded st(4)]
    have len: "length (it_rest ?it) < n" using st(5) Suc.prems(2) by simp
    have room: "dc_room_for (Suc (length ws)) ext ?c" using Suc.prems(6) Cons by simp
    consider (stop) "dn_type e \<noteq> 2 \<or> dn_state e \<noteq> Dentry_valid"
      | (dot) "dn_type e = 2" "dn_state e = Dentry_valid" "w = ''.''"
      | (up) "dn_type e = 2" "dn_state e = Dentry_valid" "w = ''..''"
      | (down) "dn_type e = 2" "dn_state e = Dentry_valid" "w \<noteq> ''.''" "w \<noteq> ''..''" by blast
    then show ?thesis
    proof cases
      case stop
      then have r: "r = None" using walk e by (auto split: if_splits)
      have "lookup_walk v (Suc n) it d s = (Inr (r, dentry_store_pos_init), s1)"
        unfolding head using stop en s2 r by (auto simp: prog_simps)
      then show ?thesis using s1 Suc.prems(3) r by auto
    next
      case dot
      have "cached_walk (dc_ix (dentries s1)) ws d = Some r" using walk e dot by (simp add: s1(1))
      moreover have "dc_room_for (length ws) ext (dentries s1)"
        using dc_room_less [OF room] by (simp add: s1(1))
      ultimately obtain s' ext' where "lookup_walk v n ?it d s1 = (Inr (r, dentry_store_pos_init), s')" "only_references s1 s'"
          "dc_inv ext' (dentries s')" "\<forall>k. r = Some k \<longrightarrow> ext' k \<noteq> 0"
        using IH [OF len, of ext s1 d] Suc.prems(3,4) s1(1) by auto
      moreover have "lookup_walk v (Suc n) it d s = lookup_walk v n ?it d s1"
        unfolding head using dot en s2 by (simp add: bnd_def)
      ultimately show ?thesis using only_references_trans [OF s1(2)] by metis
    next
      case up
      let ?q = "case dn_parent e of None \<Rightarrow> d | Some q \<Rightarrow> q"
      obtain c2 ext2 where g: "goto_parent d ?c = (Inr ?q, c2)" "dc_inv ext2 c2" "dc_shrinks ?c c2 {}" "ext2 ?q \<noteq> 0"
          "dc_room_for (length ws) ext2 c2"
        using goto_parent_ok [OF Suc.prems(3,4) e(1) room] by blast
      have "cached_walk (dc_ix (dentries (put_dentry c2 s1))) ws ?q = Some r"
        using walk e up by (simp add: cached_walk_shrinks [OF g(3)])
      then obtain s' ext' where "lookup_walk v n ?it ?q (put_dentry c2 s1) = (Inr (r, dentry_store_pos_init), s')"
          "only_references (put_dentry c2 s1) s'" "dc_inv ext' (dentries s')" "\<forall>k. r = Some k \<longrightarrow> ext' k \<noteq> 0"
        using IH [OF len, of ext2 "put_dentry c2 s1" ?q] g by auto
      moreover have "lookup_walk v (Suc n) it d s = lookup_walk v n ?it ?q (put_dentry c2 s1)"
        unfolding head using up en s2 g(1) by (simp add: bnd_def s1(1))
      moreover have "only_references s1 (put_dentry c2 s1)" using g(3) s1(1) by (intro only_references_put) simp
      ultimately show ?thesis using only_references_trans [OF s1(2)] only_references_trans by metis
    next
      case down
      let ?k = "Dentry_key (dn_ino e) (name_bytes w)"
      have k: "dc_ix ?c ?k \<noteq> None" "cached_walk (dc_ix ?c) ws ?k = Some r" using walk e down by (auto split: if_splits)
      obtain c2 c3 ext3 where g: "dc_get (dn_ino e) (name_bytes w) ?c = (Inr (Some ?k), c2)"
          "dc_handle_assign (Some d) (Some ?k) c2 = (Inr (Some ?k), c3)" "dc_inv ext3 c3" "dc_shrinks ?c c3 {}" "ext3 ?k \<noteq> 0"
          "dc_room_for (length ws) ext3 c3"
        using goto_child_ok [OF Suc.prems(3,4) k(1) room] by blast
      have "cached_walk (dc_ix (dentries (put_dentry c3 s1))) ws ?k = Some r"
        using k by (simp add: cached_walk_shrinks [OF g(4)])
      then obtain s' ext' where "lookup_walk v n ?it ?k (put_dentry c3 s1) = (Inr (r, dentry_store_pos_init), s')"
          "only_references (put_dentry c3 s1) s'" "dc_inv ext' (dentries s')" "\<forall>k. r = Some k \<longrightarrow> ext' k \<noteq> 0"
        using IH [OF len, of ext3 "put_dentry c3 s1" ?k] g by auto
      moreover have "lookup_walk v (Suc n) it d s = lookup_walk v n ?it ?k (put_dentry c3 s1)"
        unfolding head using down en s2 g(1,2) by (simp add: bnd_def s1(1))
      moreover have "only_references s1 (put_dentry c3 s1)" using g(4) s1(1) by (intro only_references_put) simp
      ultimately show ?thesis using only_references_trans [OF s1(2)] only_references_trans by metis
    qed
  qed
qed simp

lemma it_begin_wf: "it_wf (it_begin p)" "it_rest (it_begin p) = p"
  by (simp_all add: it_wf_def it_begin_def it_rest_def)

section \<open>Properties\<close>

text \<open>
  C15. A path whose entries are all cached, with their types known, is followed in the cache: the
  lookup ends, gives the entry that \<open>cached_walk\<close> gives for the components of the path, or none, and
  a handle to it, and changes nothing but references. Neither the SSD nor the device is asked.
\<close>

theorem cached_path_lookup:
  assumes "dc_inv ext (dentries s)" "ext d \<noteq> 0" "cached_walk (dc_ix (dentries s)) (components path) d = Some r"
    "dc_room_for (Suc (length (components path))) ext (dentries s)"
  shows "\<exists>s' ext'. do_path_lookup v (Some d) path s = (Inr (r, dentry_store_pos_init), s') \<and> only_references s s' \<and>
    dc_inv ext' (dentries s') \<and> (\<forall>k. r = Some k \<longrightarrow> ext' k \<noteq> 0)"
proof -
  have room: "ext k + card (dom (dc_ix (dentries s))) + 2 * length (components path) + 4 < 2 ^ 32" for k
    using assms(4) by (auto simp: dc_room_for_def dest!: spec [of _ k])
  have r2: "ext d + card (dom (dc_ix (dentries s))) + 2 < 2 ^ 32" using room [of d] by simp
  obtain e where e: "dc_ix (dentries s) d = Some e" using dc_held [OF assms(1)] assms(2) by blast
  obtain m where m: "dc_add_refcount d (dentries s) = (Inr (), (dentries s)\<lparr>dc_mgr := m\<rparr>)"
      "dc_inv (ext(d := Suc (ext d))) ((dentries s)\<lparr>dc_mgr := m\<rparr>)" "cm_index m = (dc_ix (dentries s))(d \<mapsto> e\<lparr>dn_ref := dn_ref e + 1\<rparr>)"
    using dc_addref_ok [OF assms(1) e r2] by blast
  let ?c = "(dentries s)\<lparr>dc_mgr := m\<rparr>" and ?ext = "ext(d := Suc (ext d))"
  have sh: "dc_shrinks (dentries s) ?c {}" by (rule dc_shrinks_entry [OF e m(3)])
  let ?s = "put_dentry ?c s"
  have 1: "dc_inv ?ext (dentries ?s)" "?ext d \<noteq> 0" using m(2) by simp_all
  have 2: "cached_walk (dc_ix (dentries ?s)) (components (it_rest (it_begin path))) d = Some r"
    using assms(3) cached_walk_shrinks [OF sh] by (simp add: it_begin_wf(2))
  have 3: "dc_room_for (length (components (it_rest (it_begin path)))) ?ext (dentries ?s)"
    unfolding dc_room_for_def put_dentry_simps dc_shrinks_dom [OF sh] it_begin_wf(2)
  proof
    fix k show "?ext k + card (dom (dc_ix (dentries s))) + 2 * length (components path) + 2 < 2 ^ 32" using room [of k] by auto
  qed
  have "length (it_rest (it_begin path)) < Suc (length path)" by (simp add: it_begin_wf(2))
  from lookup_walk_cached [OF it_begin_wf(1) this 1 2 3] obtain s' ext' where
    "lookup_walk v (Suc (length path)) (it_begin path) d ?s = (Inr (r, dentry_store_pos_init), s')" "only_references ?s s'"
    "dc_inv ext' (dentries s')" "\<forall>k. r = Some k \<longrightarrow> ext' k \<noteq> 0" by blast
  moreover from this(1) have "do_path_lookup v (Some d) path s = (Inr (r, dentry_store_pos_init), s')"
    using m(1) by (simp add: do_path_lookup_def dc_handle_copy_def bnd_def ret_def)
  ultimately show ?thesis using only_references_trans [OF only_references_put [OF sh]] by metis
qed


definition sample_root :: dentry_key where "sample_root = Dentry_key 3 [47]"

definition sample_tree :: hscfs where
  "sample_tree = sample_hs\<lparr>
     hs_dir := (hs_dir sample_hs)\<lparr>ds_dentry := snd (dc_write sample_root (\<lambda>e. e\<lparr>dn_type := 2\<rparr>) sample_dentries)\<rparr>,
     hs_root := Some sample_root\<rparr>"

theorem cached_path_lookup_witness:
  "\<forall>v. \<exists>s'. do_path_lookup v (Some sample_root) ''//.././a'' sample_tree = (Inr (Some (Dentry_key 3 [97]), dentry_store_pos_init), s') \<and>
     hs_io s' = hs_io sample_tree"
proof
  fix v
  let ?ext = "(\<lambda>_. 0)(Dentry_key 3 [47] := 1, Dentry_key 3 [97] := 1) :: dentry_key \<Rightarrow> nat"
  let ?c = "dentries sample_tree"
  have i0: "dc_inv ?ext sample_dentries" by (rule dc_run_inv [OF sample_dentries_run])
  obtain e where e: "dc_ix sample_dentries sample_root = Some e"
    using dc_held [OF i0, of sample_root] by (auto simp: sample_root_def)
  have c: "?c = snd (dc_write sample_root (\<lambda>e. e\<lparr>dn_type := 2\<rparr>) sample_dentries)" by (simp add: sample_tree_def)
  have inv: "dc_inv ?ext ?c"
    unfolding c using dc_write_ok [OF i0 e, of "\<lambda>e. e\<lparr>dn_type := 2\<rparr>"] by auto
  have w: "cached_walk (dc_ix ?c) (components ''//.././a'') sample_root = Some (Some (Dentry_key 3 [97]))"
    unfolding c by code_simp
  have "dc_cur ?c = 2" unfolding c by code_simp
  then have "card (dom (dc_ix ?c)) = 2" using dc_invD(4) [OF inv] by simp
  then have "dc_room_for (Suc (length (components ''//.././a''))) ?ext ?c"
    by (auto simp: dc_room_for_def components_def)
  moreover have "?ext sample_root \<noteq> 0" by (simp add: sample_root_def)
  ultimately obtain s' where
    "do_path_lookup v (Some sample_root) ''//.././a'' sample_tree = (Inr (Some (Dentry_key 3 [97]), dentry_store_pos_init), s')"
    "only_references sample_tree s'" using cached_path_lookup [OF inv _ w, of v] by blast
  moreover from this(2) have "hs_io s' = hs_io sample_tree" unfolding only_references_def by (metis put_dentry_simps(3))
  ultimately show "\<exists>s'. do_path_lookup v (Some sample_root) ''//.././a'' sample_tree = (Inr (Some (Dentry_key 3 [97]), dentry_store_pos_init), s') \<and>
     hs_io s' = hs_io sample_tree" by blast
qed

section \<open>A path that comes back to an entry\<close>

lemma it_get_again:
  assumes "it_wf it"
  shows "it_wf (snd (it_get it))" "it_rest (snd (it_get it)) = it_rest it"
    "it_path (snd (it_get it)) = it_path it"
  using assms by (auto simp: it_wf_def it_get_def it_rest_def it_end_pos_def it_start_pos_def)

text \<open>
  The loop over the SSD's answer at a component that is not cached, which is left and entered again:
  the second time the component is in the cache, and entering it fails.
\<close>

lemma ssd_walk_again:
  assumes "dc_inv ext c" "ext d \<noteq> 0" "dc_ix c d = Some e" "dc_ix c (Dentry_key (dn_ino e) (name_bytes w)) = None"
    "dc_room_for 4 ext c" "it_wf it" "components (it_rest it) = w # ''..'' # w # ws" "w \<noteq> ''.''" "w \<noteq> ''..''"
    "path_ino_at r k = Inr x" "x \<noteq> INVALID_NID" "path_ino_at r (Suc k) = Inr (dn_ino e)"
    "path_ino_at r (Suc (Suc k)) = Inr y" "y \<noteq> INVALID_NID"
  shows "\<exists>c'. ssd_walk (Suc (Suc (Suc n))) r dpt it k d c = (Inl Assert_failed, c')"
proof -
  let ?it1 = "it_next (snd (it_get it))"
  let ?it2 = "it_next (snd (it_get ?it1))"
  note s0 = it_step [OF assms(6,7)]
  note s1 = it_step [OF s0(3,4)]
  note s2 = it_step [OF s1(3,4)]
  let ?i = "dn_ino e" and ?n = "name_bytes w"
  let ?k = "Dentry_key ?i ?n"
  have room: "ext j + card (dom (dc_ix c)) + 10 < 2 ^ 32" for j using assms(5) by (auto simp: dc_room_for_def dest!: spec [of _ j])
  obtain c1 K e1 where c1: "dc_add ?i (Some d) x ?n c = (Inr ?k, c1)" "dc_inv (ext(?k := 1)) c1" "dc_ix c1 ?k = Some e1"
      "e1\<lparr>dn_ref := 0\<rparr> = dentry_init ?i (Some d) x ?n" "dom (dc_ix c1) = insert ?k (dom (dc_ix c)) - K"
      "\<forall>j x. j \<noteq> ?k \<longrightarrow> dc_ix c1 j = Some x \<longrightarrow> (\<exists>y. dc_ix c j = Some y \<and> x\<lparr>dn_ref := 0\<rparr> = y\<lparr>dn_ref := 0\<rparr>)"
    using dc_add_ok [OF assms(1,4,2), of x] room [of d] by fastforce
  have ne: "d \<noteq> ?k" using assms(3,4) by auto
  have par: "dn_parent e1 = Some d" "dk_dir (dn_key e1) = ?i"
    using arg_cong [OF c1(4), of dn_parent] arg_cong [OF c1(4), of dn_key] by (simp_all add: dentry_init_def)
  obtain m2 e2 where c2: "dc_sub_refcount d c1 = (Inr (), c1\<lparr>dc_mgr := m2\<rparr>)" "dc_inv ((ext(?k := 1))(d := ext d - 1)) (c1\<lparr>dc_mgr := m2\<rparr>)"
      "dc_ix c1 d = Some e2" "cm_index m2 = (dc_ix c1)(d \<mapsto> e2\<lparr>dn_ref := dn_ref e2 - 1\<rparr>)"
    using dc_subref_ok [OF c1(2), of d] assms(2) ne by auto
  let ?c2 = "c1\<lparr>dc_mgr := m2\<rparr>" and ?ext2 = "(ext(?k := 1))(d := ext d - 1)"
  have e2: "dn_ino e2 = ?i"
  proof -
    obtain y where y: "dc_ix c d = Some y" "e2\<lparr>dn_ref := 0\<rparr> = y\<lparr>dn_ref := 0\<rparr>" using c1(6) ne c2(3) by blast
    have "dn_ino e2 = dn_ino y" using arg_cong [OF y(2), of dn_ino] by simp
    then show ?thesis using y(1) assms(3) by simp
  qed
  have k2: "dc_ix ?c2 ?k = Some e1" using c2(4) c1(3) ne by simp
  have f: "finite (dom (dc_ix c))" by (rule dc_invD(5) [OF assms(1)])
  have "card (dom (dc_ix c1)) \<le> card (insert ?k (dom (dc_ix c)))"
    unfolding c1(5) by (rule card_mono) (use f in auto)
  then have card1: "card (dom (dc_ix c1)) \<le> Suc (card (dom (dc_ix c)))" using f by (simp add: card_insert_if split: if_splits)
  have dom2: "dom (dc_ix ?c2) = dom (dc_ix c1)" using dc_shrinks_dom [OF dc_shrinks_entry [OF c2(3,4)]] .
  have r2: "dc_room_for (Suc 0) ?ext2 ?c2"
    unfolding dc_room_for_def
  proof (intro allI)
    fix j show "?ext2 j + card (dom (dc_ix ?c2)) + 2 * Suc 0 + 2 < 2 ^ 32"
      using card1 room [of j] room [of d] unfolding dom2 by auto
  qed
  obtain c3 ext3 where c3: "goto_parent ?k ?c2 = (Inr d, c3)" "dc_inv ext3 c3" "dc_shrinks ?c2 c3 {}"
    using goto_parent_ok [OF c2(2) _ k2 r2] par(1) ne by auto
  obtain e3 where e3: "dc_ix c3 d = Some e3" "dn_ino e3 = ?i"
  proof -
    have "dc_ix ?c2 d = Some (e2\<lparr>dn_ref := dn_ref e2 - 1\<rparr>)" using c2(4) by simp
    from dc_shrinks_ix(2) [OF c3(3) this] obtain y where y: "dc_ix c3 d = Some y" "y\<lparr>dn_ref := 0\<rparr> = e2\<lparr>dn_ref := 0\<rparr>" by auto
    have "dn_ino y = dn_ino e2" using arg_cong [OF y(2), of dn_ino] by simp
    then show thesis using that [OF y(1)] e2 by simp
  qed
  obtain e4 where "dc_ix c3 ?k = Some e4" using dc_shrinks_ix(2) [OF c3(3) k2] by blast
  moreover obtain m4 where "dc_get_raw True ?k c3 = (Inr (dc_ix c3 ?k), c3\<lparr>dc_mgr := m4\<rparr>)" using dc_get_raw_ok [OF c3(2)] by blast
  ultimately have last: "dc_add ?i (Some d) z ?n c3 = (Inl Assert_failed, c3\<lparr>dc_mgr := m4\<rparr>)" for z
    by (simp add: dc_add_def Let_def prog_simps)
  have entry: "dc_entry d c = (Inr e, c)" "dc_entry ?k ?c2 = (Inr e1, ?c2)" "dc_entry d c3 = (Inr e3, c3)"
    using assms(3) k2 e3(1) by (simp_all add: dc_entry_def)
  have move: "dc_handle_move_assign (Some d) (Some ?k) c1 = (Inr (Some ?k), ?c2)"
    using c2(1) by (simp add: dc_handle_move_assign_def prog_simps)
  have "ssd_walk (Suc n) r dpt ?it2 (Suc (Suc k)) d c3 = (Inl Assert_failed, c3\<lparr>dc_mgr := m4\<rparr>)"
    using s2(1,2) assms(8,9,13,14) e3(2)
    by (simp add: bnd_def entry Let_def of_result_def ret_def last)
  moreover have "ssd_walk (Suc (Suc n)) r dpt ?it1 (Suc k) ?k ?c2 = ssd_walk (Suc n) r dpt ?it2 (Suc (Suc k)) d c3"
    using s1(1,2) assms(12) par(2)
    by (simp only: ssd_walk.simps) (simp add: bnd_def entry Let_def of_result_def assert_that_def ret_def c3(1))
  moreover have "ssd_walk (Suc (Suc (Suc n))) r dpt it k d c = ssd_walk (Suc (Suc n)) r dpt ?it1 (Suc k) ?k ?c2"
    using s0(1,2) assms(8-11)
    by (simp only: ssd_walk.simps(2) [of "Suc (Suc n)"]) (simp add: bnd_def entry Let_def of_result_def ret_def c1(1) move del: ssd_walk.simps)
  ultimately show ?thesis by simp
qed

text \<open>
  C23. A path that begins, after any number of slashes, with \<open>w/../w\<close> for any name \<open>w\<close> is looked up
  from a cached directory that is not new and in which \<open>w\<close> is not cached. When the task for the SSD
  can be built and the SSD finds these three components (the directory again for the second), the
  lookup stops the program, whatever follows in the path: the loop over the answer enters every
  component into the cache without looking whether it is there.
\<close>

theorem path_through_entry_again_asserts:
  assumes "dc_inv ext (dentries s)" "ext d \<noteq> 0" "dc_room_for 5 ext (dentries s)"
    "dc_ix (dentries s) d = Some e" "dn_type e = 2" "dn_state e = Dentry_valid" "\<not> is_newly_created e"
    "components path = w # ''..'' # w # ws" "w \<noteq> ''.''" "w \<noteq> ''..''"
    "dc_ix (dentries s) (Dentry_key (dn_ino e) (name_bytes w)) = None"
    "construct_task (se_alloc_ok v) (dn_ino e) (snd (it_get (it_begin path))) = Inr task"
    "\<forall>s. se_path v s task = Some r"
    "path_inos r 0 \<noteq> INVALID_NID" "path_inos r 1 = dn_ino e" "path_inos r 2 \<noteq> INVALID_NID"
  shows "\<exists>s'. do_path_lookup v (Some d) path s = (Inl Assert_failed, s')"
proof -
  let ?c = "dentries s" and ?k = "Dentry_key (dn_ino e) (name_bytes w)" and ?it = "it_begin path"
  have room: "ext j + card (dom (dc_ix ?c)) + 12 < 2 ^ 32" for j using assms(3) by (auto simp: dc_room_for_def dest!: spec [of _ j])
  have r2: "ext d + card (dom (dc_ix ?c)) + 2 < 2 ^ 32" using room [of d] by simp
  obtain m where m: "dc_add_refcount d ?c = (Inr (), ?c\<lparr>dc_mgr := m\<rparr>)"
      "dc_inv (ext(d := Suc (ext d))) (?c\<lparr>dc_mgr := m\<rparr>)" "cm_index m = (dc_ix ?c)(d \<mapsto> e\<lparr>dn_ref := dn_ref e + 1\<rparr>)"
    using dc_addref_ok [OF assms(1,4) r2] by blast
  let ?c1 = "?c\<lparr>dc_mgr := m\<rparr>" and ?ext = "ext(d := Suc (ext d))" and ?e = "e\<lparr>dn_ref := dn_ref e + 1\<rparr>"
  have d1: "dc_ix ?c1 d = Some ?e" "dc_ix ?c1 ?k = None" using m(3) assms(4,11) by auto
  have dom1: "dom (dc_ix ?c1) = dom (dc_ix ?c)" using m(3) assms(4) by auto
  obtain c2 where c2: "dc_get (dn_ino e) (name_bytes w) ?c1 = (Inr None, c2)" "dc_shrinks ?c1 c2 {}" "dc_inv ?ext c2"
  proof -
    have "?ext ?k + card (dom (dc_ix ?c1)) + 2 < 2 ^ 32" unfolding dom1 using room [of ?k] by auto
    moreover have "?ext(?k := ?ext ?k + of_bool (dc_ix ?c1 ?k \<noteq> None)) = ?ext" using d1(2) by (auto simp: fun_eq_iff)
    ultimately show thesis using dc_get_ok [OF m(2), of "dn_ino e" "name_bytes w"] d1(2) that
      by (auto simp del: fun_upd_apply)
  qed
  obtain e2 where e2: "dc_ix c2 d = Some e2" "e2\<lparr>dn_ref := 0\<rparr> = e\<lparr>dn_ref := 0\<rparr>"
    using dc_shrinks_ix(2) [OF c2(2) d1(1)] by auto
  have e2': "dn_ino e2 = dn_ino e" "dn_state e2 = dn_state e" "dn_dirty e2 = dn_dirty e"
    using arg_cong [OF e2(2), of dn_ino] arg_cong [OF e2(2), of dn_state] arg_cong [OF e2(2), of dn_dirty] by simp_all
  have k2: "dc_ix c2 (Dentry_key (dn_ino e2) (name_bytes w)) = None" using dc_shrinks_ix(1) [OF c2(2)] d1(2) by (simp add: e2')
  have rm: "dc_room_for 4 ?ext c2"
    unfolding dc_room_for_def dc_shrinks_dom [OF c2(2)] dom1
  proof
    fix j show "?ext j + card (dom (dc_ix ?c)) + 2 * 4 + 2 < 2 ^ 32" using room [of j] by auto
  qed
  let ?it1 = "snd (it_get ?it)"
  have rest: "components (it_rest ?it) = w # ''..'' # w # ws" using assms(8) by (simp add: it_begin_wf(2))
  note ga = it_get_again [OF it_begin_wf(1), of path]
  have r1: "components (it_rest ?it1) = w # ''..'' # w # ws" using ga(2) rest by simp
  obtain n where n: "length (it_path ?it1) = Suc (Suc n)"
  proof -
    note s0 = it_step [OF ga(1) r1]
    note s1 = it_step [OF s0(3,4)]
    have "2 \<le> length (it_rest ?it1)" using s0(5) s1(5) by linarith
    then have "2 \<le> length (it_path ?it1)" by (simp add: it_rest_def)
    then show thesis using that by (metis add_2_eq_Suc le_Suc_ex)
  qed
  obtain c' where walk: "ssd_walk (Suc (length (it_path ?it1))) r (depth task) ?it1 0 d c2 = (Inl Assert_failed, c')"
    using ssd_walk_again [OF c2(3) _ e2(1) k2 rm ga(1) r1 assms(9,10), of r 0 "path_inos r 0" "path_inos r 2" n "depth task"] assms(14-16) n
    by (auto simp: path_ino_at_def MAX_PATH_DEPTH_def e2'(1) numeral_2_eq_2)
  let ?s = "put_dentry ?c1 s"
  have ssd: "ssd_path_lookup v ?it1 d (put_dentry c2 t) = (Inl Assert_failed, put_dentry c' t)" for t
  proof -
    have "\<not> is_newly_created e2" using e2' assms(7) by (auto simp: is_newly_created_def)
    then show ?thesis using e2'(1) assms(12,13) walk
      by (simp add: ssd_path_lookup_def bnd_def dc_entry_run [OF e2(1)] ret_def of_result_def reads_def del: ssd_walk.simps)
  qed
  have ty: "on_dirs (dentry_get_type d) ?s = (Inr 2, put_dentry ?c1 ?s)"
    using cached_type [of ?s d ?e] d1(1) assms(5) by simp
  have "lookup_walk v (Suc (length path)) ?it d ?s = (Inl Assert_failed, put_dentry c' s)"
    using it_step(1,2) [OF it_begin_wf(1) rest] assms(6,9,10) c2(1) ssd [of s]
    by (simp add: bnd_def ty dc_entry_run [OF d1(1)] Let_def)
  then show ?thesis using m(1) by (simp add: do_path_lookup_def dc_handle_copy_def bnd_def ret_def del: lookup_walk.simps)
qed

text \<open>The root directory of a cache that holds nothing else, and an SSD that finds \<open>a\<close> under number 9.\<close>

definition sample_answer :: path_lookup_result where
  "sample_answer = \<lparr>dentry_blkidx = 777, dentry_bitpos = 5, path_inos = (\<lambda>i. if i = 1 then 3 else 9)\<rparr>"

definition found_env :: sys_env where
  "found_env = \<lparr>se_search = \<lambda>_ _ _ _. None, se_fuel = 0, se_wb = good_answers, se_path = \<lambda>_ _. Some sample_answer,
     se_time = (5, 6),
     se_junk = \<lparr>fi_ino = 0, fi_size = 0, fi_atime = (0, 0), fi_mtime = (0, 0), fi_dirty = False, fi_nlink = 0,
       fi_ref_count = 0, fi_fd_ref_count = 0, fi_pages = page_cache_init 4\<rparr>, se_alloc_ok = True, se_prefix = None\<rparr>"

definition sample_root_only :: hscfs where
  "sample_root_only = put_dentry (snd (dc_write sample_root (\<lambda>e. e\<lparr>dn_type := 2\<rparr>) (snd (dc_add_root 3 (dc_init 4))))) sample_hs"

theorem path_through_entry_again_asserts_witness:
  "\<exists>s'. do_path_lookup found_env (Some sample_root) ''/a/../a/bc'' sample_root_only = (Inl Assert_failed, s')"
proof -
  let ?e = "(dentry_init 3 None 3 [47])\<lparr>dn_ref := 1\<rparr>" and ?ext = "(\<lambda>_. 0)(sample_root := 1) :: dentry_key \<Rightarrow> nat"
  obtain c where c: "dc_add_root 3 (dc_init 4) = (Inr sample_root, c)" "dc_inv ?ext c" "dc_ix c = [sample_root \<mapsto> ?e]"
    using dc_add_root_ok [OF dc_init_inv, of 4 3] by (auto simp: dc_init_def sample_root_def)
  let ?c = "snd (dc_write sample_root (\<lambda>e. e\<lparr>dn_type := 2\<rparr>) c)"
  have e: "dc_ix c sample_root = Some ?e" by (simp add: c(3))
  obtain c1 where c1: "dc_write sample_root (\<lambda>e. e\<lparr>dn_type := 2\<rparr>) c = (Inr (), c1)" "dc_inv ?ext c1"
      "dc_ix c1 = [sample_root \<mapsto> ?e\<lparr>dn_type := 2\<rparr>]"
    using dc_write_ok [OF c(2) e, of "\<lambda>e. e\<lparr>dn_type := 2\<rparr>"] c(3) by auto
  have d: "dentries sample_root_only = c1" by (simp add: sample_root_only_def c c1)
  have room: "dc_room_for 5 ?ext c1" by (simp add: dc_room_for_def c1(3))
  have "\<not> isl (construct_task True 3 (snd (it_get (it_begin ''/a/../a/bc''))))" by code_simp
  then obtain task where t: "construct_task True 3 (snd (it_get (it_begin ''/a/../a/bc''))) = Inr task"
    by (cases "construct_task True 3 (snd (it_get (it_begin ''/a/../a/bc'')))") simp_all
  show ?thesis
    by (rule path_through_entry_again_asserts [where w = "''a''" and ws = "[''bc'']" and r = sample_answer and
          e = "?e\<lparr>dn_type := 2\<rparr>" and ext = ?ext and task = task])
       (use d c1 room t in \<open>simp_all add: found_env_def sample_answer_def dentry_init_def components_def is_newly_created_def sample_root_def name_bytes_def\<close>)
qed

end
