(* ===== verification/System_Calls.thy ===== *)
theory System_Calls
  imports Path_Lookup
begin

text \<open>
  The system calls of \<^verbatim>\<open>src/api/\<close>, with the conversion of exceptions of
  \<^verbatim>\<open>src/utils/exception_handler.cc\<close>, and start and end of the file system manager. A call gives a
  value or an error number. The locks that the calls take are not modelled.
\<close>

unbundle bit_operations_syntax

section \<open>Errors\<close>

datatype errno = EINVAL | EBADF | ENOENT | ENONET | EISDIR | ENOTDIR | EEXIST | ENOTEMPTY | ENOTRECOVERABLE

datatype 'a api = Ret 'a | Err errno

definition recoverable_exceptions_errno :: "fs_exn \<Rightarrow> errno option" where
  "recoverable_exceptions_errno e =
     (if e = User_path_invalid then Some EINVAL
      else if e = Invalid_fd then Some EBADF
      else if e = Rw_conflict_with_open_flag then Some EINVAL
      else None)"

text \<open>
  The constructor of the handler does not initialise its member \<^verbatim>\<open>fs_manager\<close>, so that marking the
  manager as unrecoverable goes through a pointer with no value. That is undefined behaviour: the
  program may stop, mark this manager, or do anything else. The state that stands beside
  \<open>Undefined\<close> has no meaning, and no property says anything about it.
\<close>

definition convert_to_errno :: "bool \<Rightarrow> fs_exn \<Rightarrow> (hscfs, errno) prog" where
  "convert_to_errno set_unrecoverable e =
     (case recoverable_exceptions_errno e of
        Some n \<Rightarrow> ret n
      | None \<Rightarrow> if set_unrecoverable then fail Undefined else ret ENOTRECOVERABLE)"

text \<open>A \<^verbatim>\<open>try\<close> block that catches every exception.\<close>

definition catching :: "bool \<Rightarrow> (hscfs, 'a api) prog \<Rightarrow> (hscfs, 'a api) prog" where
  "catching set_unrecoverable p = (\<lambda>s. case p s of
     (Inl (Throw e), s') \<Rightarrow> bnd (convert_to_errno set_unrecoverable e) (\<lambda>n. ret (Err n)) s'
   | r \<Rightarrow> r)"

text \<open>The frame of the calls that check the state of the manager, and of those that do not.\<close>

definition checked_call :: "(hscfs, 'a api) prog \<Rightarrow> (hscfs, 'a api) prog" where
  "checked_call p = catching False (bnd check_state (\<lambda>_. catching True p))"

definition unchecked_call :: "(hscfs, 'a api) prog \<Rightarrow> (hscfs, 'a api) prog" where
  "unchecked_call p = catching False (catching True p)"

section \<open>Directory entries\<close>

definition is_exist :: "dentry_key option \<Rightarrow> (hscfs, bool) prog" where
  "is_exist h = on_dirs (on_dentry (dc_is_exist h))"

definition dentry_ino_of :: "dentry_key \<Rightarrow> (hscfs, u32) prog" where
  "dentry_ino_of d = bnd (on_dirs (on_dentry (dc_entry d))) (\<lambda>e. ret (dn_ino e))"

text \<open>Access through a handle that may be empty.\<close>

definition with_dentry :: "dentry_key option \<Rightarrow> (dentry_key \<Rightarrow> (hscfs, 'a) prog) \<Rightarrow> (hscfs, 'a) prog" where
  "with_dentry h f = (case h of None \<Rightarrow> fail Undefined | Some d \<Rightarrow> f d)"

text \<open>The constructor of \<^verbatim>\<open>directory\<close>, which is \<^verbatim>\<open>noexcept\<close>: its copy of the handle is never released.\<close>

definition make_directory :: "dentry_key \<Rightarrow> (hscfs, u32) prog" where
  "make_directory d =
     bnd (dentry_ino_of d) (\<lambda>ino.
     bnd (no_throw (on_dirs (on_dentry (dc_handle_assign None (Some d))))) (\<lambda>_.
     ret ino))"

text \<open>The entry of the directory that an entry is in.\<close>

definition parent_directory :: "dentry_key \<Rightarrow> (hscfs, dentry_key) prog" where
  "parent_directory d =
     bnd (on_dirs (on_dentry (get_parent_key d))) (\<lambda>parent_key.
     bnd (on_dirs (on_dentry (dc_get (dk_dir parent_key) (dk_name parent_key)))) (\<lambda>h.
     case h of None \<Rightarrow> fail Assert_failed | Some q \<Rightarrow> ret q))"

text \<open>Marking an entry as deleted and removing it from its directory, as \<^verbatim>\<open>unlink\<close> and \<^verbatim>\<open>rmdir\<close> do.\<close>

definition mark_deleted :: "dentry_key \<Rightarrow> (hscfs, unit) prog" where
  "mark_deleted d =
     bnd (on_dirs (on_dentry (dc_write d (\<lambda>e. e\<lparr>dn_state := Dentry_deleted\<rparr>)))) (\<lambda>_.
     on_dirs (on_dentry (no_throw (dc_mark_dirty d))))"

definition remove_from_parent :: "sys_env \<Rightarrow> dentry_key \<Rightarrow> (hscfs, unit) prog" where
  "remove_from_parent v d =
     bnd (parent_directory d) (\<lambda>q.
     bnd (make_directory q) (\<lambda>ino.
     on_dirs (remove (se_search v) (se_fuel v) (se_time v) ino d)))"

section \<open>open\<close>

text \<open>The part of \<^verbatim>\<open>open\<close> after the entry is found or created.\<close>

definition open_file :: "sys_env \<Rightarrow> u32 \<Rightarrow> dentry_key \<Rightarrow> (hscfs, nat api) prog" where
  "open_file v flags d =
     bnd (dentry_ino_of d) (\<lambda>ino.
     bnd (on_ios (get_file_obj (se_junk v) ino)) (\<lambda>file.
     scoped (on_ios (fo_handle_dtor (Some file))) (
       bnd (on_ios (opened_file_init flags file)) (\<lambda>p_opened_file.
       bnd (reads (\<lambda>s. alloc_fd p_opened_file (hs_fd s))) (\<lambda>r.
       case r of
         Inl f \<Rightarrow> fail f
       | Inr (fd, fds) \<Rightarrow>
           bnd (modify (\<lambda>s. s\<lparr>hs_fd := fds\<rparr>)) (\<lambda>_.
           bnd (if flags AND O_TRUNC \<noteq> 0 then
                  bnd (on_ios (file_truncate (se_time v) file 0)) (\<lambda>changed.
                  if changed then on_ios (fh_mark_dirty file) else ret ())
                else ret ()) (\<lambda>_.
           ret (Ret fd))))))))"

definition open_body :: "sys_env \<Rightarrow> string \<Rightarrow> u32 \<Rightarrow> (hscfs, nat api) prog" where
  "open_body v pathname flags =
     bnd (of_result (extract_abs_path (se_prefix v) pathname)) (\<lambda>abs_path.
     bnd (of_result (extract_dir_path abs_path)) (\<lambda>dir_path.
     bnd (of_result (extract_file_name abs_path)) (\<lambda>file_name.
     if length dir_path = 0 \<or> length file_name = 0 \<or> flags AND 3 = 3 then ret (Err EINVAL)
     else
       bnd (set_abs_path None) (\<lambda>start.
       bnd (do_path_lookup v start dir_path) (\<lambda>(dir_dentry, _).
       bnd (is_exist dir_dentry) (\<lambda>dir_exists.
       if \<not> dir_exists then ret (Err ENOENT)
       else
         with_dentry dir_dentry (\<lambda>dir.
         bnd (on_dirs (dentry_get_type dir)) (\<lambda>dir_type.
         if dir_type \<noteq> 2 then ret (Err ENOENT)
         else
           bnd (set_rel_path start dir_dentry) (\<lambda>start.
           bnd (do_path_lookup v start file_name) (\<lambda>(target_dentry, target_pos_hint).
           bnd (is_exist target_dentry) (\<lambda>exists.
           if \<not> exists then
             if flags AND O_CREAT \<noteq> 0 then
               bnd (make_directory dir) (\<lambda>ino.
               bnd (on_dirs (create (se_search v) (se_fuel v) (se_time v) ino dir_dentry (name_bytes file_name) 1 (Some target_pos_hint))) (\<lambda>d.
               bnd (on_dirs (on_dentry (dc_handle_move_assign target_dentry (Some d)))) (\<lambda>_.
               open_file v flags d)))
             else ret (Err ENOENT)
           else
             with_dentry target_dentry (\<lambda>d.
             bnd (on_dirs (dentry_get_type d)) (\<lambda>type.
             if type \<noteq> 1 then ret (Err EISDIR) else open_file v flags d)))))))))))))"

definition sys_open :: "sys_env \<Rightarrow> string \<Rightarrow> u32 \<Rightarrow> (hscfs, nat api) prog" where
  "sys_open v pathname flags = checked_call (open_body v pathname flags)"

section \<open>close\<close>

text \<open>
  The opened file is destroyed at the end, with its handle, which deleting the file has emptied.
\<close>

definition do_close :: "int \<Rightarrow> (hscfs, unit) prog" where
  "do_close fd =
     bnd (reads (\<lambda>s. free_fd fd (hs_fd s))) (\<lambda>r.
     case r of
       Inl f \<Rightarrow> fail f
     | Inr (o_file, fds) \<Rightarrow>
         bnd (modify (\<lambda>s. s\<lparr>hs_fd := fds\<rparr>)) (\<lambda>_.
         let file = of_file o_file in
         bnd (on_ios (fo_write file (\<lambda>f. f\<lparr>fi_fd_ref_count := fi_fd_ref_count f - 1\<rparr>))) (\<lambda>_.
         bnd (on_ios (fo_file file)) (\<lambda>f.
         if fi_fd_ref_count f = 0 \<and> fi_nlink f = 0
         then on_throw (on_ios (fo_handle_dtor (Some file))) (on_ios (fh_delete_file file))
         else on_ios (fo_handle_dtor (Some file))))))"

definition sys_close :: "int \<Rightarrow> (hscfs, unit api) prog" where
  "sys_close fd = checked_call (bnd (do_close fd) (\<lambda>_. ret (Ret ())))"

section \<open>Calls on descriptors\<close>

text \<open>A method of the opened file of a descriptor.\<close>

definition on_opened :: "int \<Rightarrow> 'a of_prog \<Rightarrow> (hscfs, 'a) prog" where
  "on_opened fd p = (\<lambda>s.
     case get_opened_file_of_fd fd (hs_fd s) of
       Inl f \<Rightarrow> (Inl f, s)
     | Inr f \<Rightarrow>
         (case p (hs_io s, f) of
            (r, (i, f')) \<Rightarrow> (r, s\<lparr>hs_io := i, hs_fd := (hs_fd s)\<lparr>fd_arr := (fd_arr (hs_fd s))[nat fd := Some f']\<rparr>\<rparr>)))"

text \<open>The number of bytes read is the length of the result; the count is an unsigned 64-bit number.\<close>

definition sys_read :: "sys_env \<Rightarrow> int \<Rightarrow> u64 \<Rightarrow> (hscfs, u8 list api) prog" where
  "sys_read v fd count =
     catching False (bnd (on_opened fd (opened_read (se_search v) (se_fuel v) (se_time v) (sint count))) (\<lambda>bs. ret (Ret bs)))"

definition sys_write :: "sys_env \<Rightarrow> int \<Rightarrow> u8 list \<Rightarrow> u64 \<Rightarrow> (hscfs, nat api) prog" where
  "sys_write v fd buffer count =
     catching False (bnd (on_opened fd (opened_write (se_search v) (se_fuel v) (se_time v) buffer (sint count))) (\<lambda>n. ret (Ret n)))"

definition sys_lseek :: "int \<Rightarrow> int \<Rightarrow> int \<Rightarrow> (hscfs, u64 api) prog" where
  "sys_lseek fd offset whence = unchecked_call (bnd (on_opened fd (set_rw_pos offset whence)) (\<lambda>p. ret (Ret p)))"

definition opened_of :: "int \<Rightarrow> (hscfs, opened_file) prog" where
  "opened_of fd = bnd (reads (\<lambda>s. get_opened_file_of_fd fd (hs_fd s))) of_result"

definition sys_truncate :: "sys_env \<Rightarrow> int \<Rightarrow> u64 \<Rightarrow> (hscfs, unit api) prog" where
  "sys_truncate v fd len =
     unchecked_call (
       bnd (opened_of fd) (\<lambda>f.
       bnd (on_ios (file_truncate (se_time v) (of_file f) len)) (\<lambda>changed.
       bnd (if changed then on_ios (fh_mark_dirty (of_file f)) else ret ()) (\<lambda>_.
       ret (Ret ())))))"

definition sys_fsync :: "sys_env \<Rightarrow> int \<Rightarrow> (hscfs, unit api) prog" where
  "sys_fsync v fd =
     unchecked_call (
       bnd (opened_of fd) (\<lambda>f.
       bnd (on_ios (fh_write_back (se_search v) (se_fuel v) (wb_submit_ok (se_wb v)) (wb_res (se_wb v)) (of_file f))) (\<lambda>_.
       bnd (write_meta_back_sync (se_search v) (se_fuel v) (se_wb v)) (\<lambda>_.
       ret (Ret ())))))"

section \<open>Calls on paths\<close>

definition mkdir_body :: "sys_env \<Rightarrow> string \<Rightarrow> (hscfs, unit api) prog" where
  "mkdir_body v pathname =
     bnd (of_result (extract_abs_path (se_prefix v) pathname)) (\<lambda>abs_path.
     bnd (of_result (extract_dir_path abs_path)) (\<lambda>dir_path.
     bnd (of_result (extract_file_name abs_path)) (\<lambda>file.
     if length dir_path = 0 \<or> length file = 0 then ret (Err EINVAL)
     else
       bnd (set_abs_path None) (\<lambda>start.
       bnd (do_path_lookup v start dir_path) (\<lambda>(dir_dentry, _).
       bnd (is_exist dir_dentry) (\<lambda>dir_exists.
       if \<not> dir_exists then ret (Err ENOENT)
       else
         with_dentry dir_dentry (\<lambda>dir.
         bnd (on_dirs (dentry_get_type dir)) (\<lambda>dir_type.
         if dir_type \<noteq> 2 then ret (Err ENOENT)
         else
           bnd (set_rel_path start dir_dentry) (\<lambda>start.
           bnd (do_path_lookup v start file) (\<lambda>(target_dentry, create_pos_hint).
           bnd (is_exist target_dentry) (\<lambda>exists.
           if exists then ret (Err EEXIST)
           else
             bnd (make_directory dir) (\<lambda>ino.
             bnd (on_dirs (create (se_search v) (se_fuel v) (se_time v) ino dir_dentry (name_bytes file) 2 (Some create_pos_hint))) (\<lambda>_.
             ret (Ret ()))))))))))))))"

definition sys_mkdir :: "sys_env \<Rightarrow> string \<Rightarrow> (hscfs, unit api) prog" where
  "sys_mkdir v pathname = checked_call (mkdir_body v pathname)"

text \<open>The second error for a directory that is none is \<^verbatim>\<open>ENONET\<close>, as in the source.\<close>

definition link_body :: "sys_env \<Rightarrow> string \<Rightarrow> string \<Rightarrow> (hscfs, unit api) prog" where
  "link_body v oldpath newpath =
     bnd (of_result (extract_abs_path (se_prefix v) oldpath)) (\<lambda>old_path.
     bnd (of_result (extract_abs_path (se_prefix v) newpath)) (\<lambda>new_path.
     if length old_path = 0 \<or> length new_path = 0 then ret (Err EINVAL)
     else
       bnd (set_abs_path None) (\<lambda>start.
       bnd (do_path_lookup v start old_path) (\<lambda>(old_dentry, _).
       bnd (is_exist old_dentry) (\<lambda>old_exists.
       if \<not> old_exists then ret (Err ENOENT)
       else
         with_dentry old_dentry (\<lambda>old.
         bnd (on_dirs (dentry_get_type old)) (\<lambda>old_type.
         if old_type = 2 then ret (Err EISDIR)
         else
           bnd (of_result (extract_dir_path new_path)) (\<lambda>new_dir.
           bnd (set_abs_path start) (\<lambda>start.
           bnd (do_path_lookup v start new_dir) (\<lambda>(new_dir_dentry, _).
           bnd (is_exist new_dir_dentry) (\<lambda>dir_exists.
           if \<not> dir_exists then ret (Err ENOENT)
           else
             with_dentry new_dir_dentry (\<lambda>dir.
             bnd (on_dirs (dentry_get_type dir)) (\<lambda>dir_type.
             if dir_type \<noteq> 2 then ret (Err ENONET)
             else
               bnd (of_result (extract_file_name new_path)) (\<lambda>new_file.
               bnd (set_rel_path start new_dir_dentry) (\<lambda>start.
               bnd (do_path_lookup v start new_file) (\<lambda>(new_file_dentry, create_pos_hint).
               bnd (is_exist new_file_dentry) (\<lambda>exists.
               if exists then ret (Err EEXIST)
               else
                 bnd (dentry_ino_of old) (\<lambda>old_ino.
                 bnd (on_ios (add_nlink old_ino)) (\<lambda>nlink.
                 bnd (make_directory dir) (\<lambda>dir_ino.
                 bnd (on_dirs (link (se_search v) (se_fuel v) (se_time v) dir_ino new_dir_dentry (name_bytes new_file) old_ino (Some create_pos_hint))) (\<lambda>_.
                 ret (Ret ()))))))))))))))))))))))"

definition sys_link :: "sys_env \<Rightarrow> string \<Rightarrow> string \<Rightarrow> (hscfs, unit api) prog" where
  "sys_link v oldpath newpath = checked_call (link_body v oldpath newpath)"

text \<open>
  The file is deleted when its last link goes and no descriptor refers to it: through its object
  when it is cached, otherwise directly.
\<close>

definition delete_unlinked :: "sys_env \<Rightarrow> u32 \<Rightarrow> (hscfs, unit) prog" where
  "delete_unlinked v target_ino =
     bnd (on_ios (fo_contains target_ino)) (\<lambda>cached.
     if cached then
       bnd (on_ios (get_file_obj (se_junk v) target_ino)) (\<lambda>h.
       bnd (on_ios (fo_file h)) (\<lambda>f.
       if fi_fd_ref_count f > 0 then on_ios (fo_handle_dtor (Some h))
       else on_throw (on_ios (fo_handle_dtor (Some h))) (on_ios (fh_delete_file h))))
     else on_fsys (delete_file target_ino))"

definition unlink_body :: "sys_env \<Rightarrow> string \<Rightarrow> (hscfs, unit api) prog" where
  "unlink_body v pathname =
     bnd (of_result (extract_abs_path (se_prefix v) pathname)) (\<lambda>abs_path.
     if length abs_path = 0 then ret (Err EINVAL)
     else
       bnd (set_abs_path None) (\<lambda>start.
       bnd (do_path_lookup v start abs_path) (\<lambda>(target_dentry, _).
       bnd (is_exist target_dentry) (\<lambda>exists.
       if \<not> exists then ret (Err ENOENT)
       else
         with_dentry target_dentry (\<lambda>d.
         bnd (on_dirs (dentry_get_type d)) (\<lambda>type.
         if type = 2 then ret (Err EISDIR)
         else
           bnd (dentry_ino_of d) (\<lambda>target_ino.
           bnd (on_ios (sub_nlink target_ino)) (\<lambda>nlink.
           bnd (if nlink = 0 then delete_unlinked v target_ino else ret ()) (\<lambda>_.
           bnd (mark_deleted d) (\<lambda>_.
           bnd (remove_from_parent v d) (\<lambda>_.
           ret (Ret ()))))))))))))"

definition sys_unlink :: "sys_env \<Rightarrow> string \<Rightarrow> (hscfs, unit api) prog" where
  "sys_unlink v pathname = checked_call (unlink_body v pathname)"

definition rmdir_body :: "sys_env \<Rightarrow> string \<Rightarrow> (hscfs, unit api) prog" where
  "rmdir_body v pathname =
     bnd (of_result (extract_abs_path (se_prefix v) pathname)) (\<lambda>abs_path.
     if length abs_path = 0 then ret (Err EINVAL)
     else
       bnd (set_abs_path None) (\<lambda>start.
       bnd (do_path_lookup v start abs_path) (\<lambda>(target_dentry, _).
       bnd (is_exist target_dentry) (\<lambda>exists.
       if \<not> exists then ret (Err ENOENT)
       else
         with_dentry target_dentry (\<lambda>d.
         bnd (on_dirs (dentry_get_type d)) (\<lambda>type.
         if type \<noteq> 2 then ret (Err ENOTDIR)
         else
           bnd (dentry_ino_of d) (\<lambda>target_ino.
           bnd (on_fsys (get_node_entry target_ino INVALID_NID)) (\<lambda>inode_handle.
           scoped (on_fsys (nc_handle_dtor (Some inode_handle))) (
             bnd (on_fsys (nc_entry inode_handle)) (\<lambda>e.
             if i_dentry_num (nb_node e) \<noteq> 0 then ret (Err ENOTEMPTY)
             else
               bnd (on_ios (sub_nlink target_ino)) (\<lambda>nlink.
               bnd (assert_that (nlink = 0)) (\<lambda>_.
               bnd (on_dirs (delete_dir_with_data_cache target_ino)) (\<lambda>_.
               bnd (mark_deleted d) (\<lambda>_.
               bnd (remove_from_parent v d) (\<lambda>_.
               ret (Ret ()))))))))))))))))"

definition sys_rmdir :: "sys_env \<Rightarrow> string \<Rightarrow> (hscfs, unit api) prog" where
  "sys_rmdir v pathname = checked_call (rmdir_body v pathname)"

section \<open>Start and end of the file system\<close>

text \<open>
  The manager after \<^verbatim>\<open>init\<close>: the super block is read, everything else is empty, and the root entry
  is in its cache. \<open>fs_devices\<close> holds what is on the device.
\<close>

record fs_devices =
  fd_super :: "hscfs_super_block option"
  fd_nat :: "u32 \<Rightarrow> hscfs_nat_block option"
  fd_sit :: "u32 \<Rightarrow> hscfs_sit_block option"
  fd_nodes :: "u32 \<Rightarrow> hscfs_node option"
  fd_data :: "u32 \<Rightarrow> u8 list option"
  fd_dirs :: "u32 \<Rightarrow> hscfs_dentry_block option"
  fd_srmap :: "u32 \<Rightarrow> hscfs_summary list option"

definition fsys_init :: "fs_devices \<Rightarrow> hscfs_super_block \<Rightarrow> fsys" where
  "fsys_init dv sb = \<lparr>
     fs_meta = \<lparr>super_blk = sb, nat_cache = sn_init 64, sit_cache = sn_init 64, nat_dev = fd_nat dv, sit_dev = fd_sit dv,
       cur_journal = empty_journal, uncommit_node_segs = [], uncommit_data_segs = []\<rparr>,
     nc_mgr = cm_empty, nc_expect = 32, nc_cur = 0, nc_dirty = [], nc_dirty_pos = Map.empty, nc_next = 0,
     node_dev = fd_nodes dv\<rparr>"

definition fs_init :: "fs_devices \<Rightarrow> journal_process_env \<Rightarrow> fault + hscfs" where
  "fs_init dv jenv =
     (case fd_super dv of
        None \<Rightarrow> Inl (Throw Io_error)
      | Some sb \<Rightarrow>
          (case dc_add_root (root_ino sb) (dc_init 128) of
             (Inl f, _) \<Rightarrow> Inl f
           | (Inr root, dc) \<Rightarrow> Inr \<lparr>
               hs_io = \<lparr>io_fs = fsys_init dv sb, io_data = fd_data dv, io_srmap = srmap_init (srmap_blkaddr sb) (fd_srmap dv),
                 fo_mgr = cm_empty, fo_dirty = [], fo_expect = 32, fo_cur = 0, page_cache_size = 32\<rparr>,
               hs_dir = \<lparr>ds_fs = fsys_init dv sb, ds_dir = dd_init 64, ds_dentry = dc, ds_dev = fd_dirs dv\<rparr>,
               hs_rp = rp_init, hs_env = jenv, hs_fd = fd_array_init 512, hs_root = Some root, hs_unrecoverable = False\<rparr>))"

text \<open>
  The wait for the protection tasks: the SSD applies the journals (\<open>ssd\<close> is what becomes of the
  tables on the device), and then the tasks run in the order of the commits, as shown for the threads.
\<close>

fun run_tasks :: "(journal_container \<Rightarrow> meta \<Rightarrow> meta) \<Rightarrow> trp_record list \<Rightarrow> (hscfs, unit) prog" where
  "run_tasks ssd [] = ret ()"
| "run_tasks ssd (r # rs) =
     bnd (on_fsys (on_meta (modify (ssd (trp_journal r))))) (\<lambda>_.
     bnd (no_throw (on_fsys (replace_protect_task r))) (\<lambda>_.
     run_tasks ssd rs))"

definition wait_protect_tasks :: "(journal_container \<Rightarrow> meta \<Rightarrow> meta) \<Rightarrow> (hscfs, unit) prog" where
  "wait_protect_tasks ssd =
     bnd (reads (\<lambda>s. trp_list (hs_rp s))) (\<lambda>rs.
     bnd (run_tasks ssd rs) (\<lambda>_.
     modify (\<lambda>s. s\<lparr>hs_rp := rp_init\<rparr>)))"

fun close_all :: "nat list \<Rightarrow> (hscfs, unit) prog" where
  "close_all [] = ret ()"
| "close_all (fd # fds) = bnd (do_close (int fd)) (\<lambda>_. close_all fds)"

fun write_back_files :: "sys_env \<Rightarrow> u32 list \<Rightarrow> (hscfs, unit) prog" where
  "write_back_files v [] = ret ()"
| "write_back_files v (p # ps) =
     bnd (on_ios (file_write_back (se_search v) (se_fuel v) (wb_submit_ok (se_wb v)) (wb_res (se_wb v)) p)) (\<lambda>_.
     write_back_files v ps)"

fun release_files :: "u32 list \<Rightarrow> (hscfs, unit) prog" where
  "release_files [] = ret ()"
| "release_files (p # ps) = bnd (on_ios (fo_handle_dtor (Some p))) (\<lambda>_. release_files ps)"

text \<open>The order in which the set of open descriptors is walked is \<open>order\<close>.\<close>

definition write_back_all_dirty_sync ::
    "sys_env \<Rightarrow> (nat set \<Rightarrow> nat list) \<Rightarrow> (journal_container \<Rightarrow> meta \<Rightarrow> meta) \<Rightarrow> (hscfs, unit) prog" where
  "write_back_all_dirty_sync v order ssd =
     bnd (reads (\<lambda>s. get_and_clear_unclosed_fds (hs_fd s))) (\<lambda>(fds, arr).
     bnd (modify (\<lambda>s. s\<lparr>hs_fd := arr\<rparr>)) (\<lambda>_.
     bnd (close_all (order fds)) (\<lambda>_.
     bnd (on_ios get_and_clear_dirty_files) (\<lambda>dirty_files.
     scoped (release_files dirty_files) (
       bnd (write_back_files v dirty_files) (\<lambda>_.
       bnd (write_meta_back_sync (se_search v) (se_fuel v) (se_wb v)) (\<lambda>_.
       bnd (wait_protect_tasks ssd) (\<lambda>_.
       bnd (reads (\<lambda>s. meta.cur_journal (fs_meta (io_fs (hs_io s))))) (\<lambda>j.
       bnd (if \<not> journal_is_empty j then
              bnd (write_meta_back_sync (se_search v) (se_fuel v) (se_wb v)) (\<lambda>_. wait_protect_tasks ssd)
            else ret ()) (\<lambda>_.
       bnd (reads (\<lambda>s. meta.cur_journal (fs_meta (io_fs (hs_io s))))) (\<lambda>j.
       assert_that (journal_is_empty j))))))))))))"

text \<open>The write back of \<^verbatim>\<open>fini\<close>; the server thread then stops and the manager is destroyed.\<close>

definition fs_fini ::
    "sys_env \<Rightarrow> (nat set \<Rightarrow> nat list) \<Rightarrow> (journal_container \<Rightarrow> meta \<Rightarrow> meta) \<Rightarrow> (hscfs, unit) prog" where
  "fs_fini v order ssd = bnd check_state (\<lambda>_. write_back_all_dirty_sync v order ssd)"

end
