(* ===== verification/Call_Correct.thy ===== *)
theory Call_Correct
  imports System_Calls FS_Commit
begin

text \<open>
  What the system calls of \<open>System_Calls\<close> promise about errors: descriptors that are not open, and
  the state of the manager in which no more changes may be made. The lemmas follow two predicates
  through the programs: what a call keeps of the flag, and which value it never gives.
\<close>

section \<open>The flag of the manager is never changed\<close>

definition flagged :: "bool \<Rightarrow> hscfs \<Rightarrow> bool" where
  "flagged b s \<longleftrightarrow> hs_unrecoverable s = b"

lemma flagged_lift [keeps_rules]:
  "keeps (flagged b) (on_ios p)" "keeps (flagged b) (on_dirs q)" "keeps (flagged b) (on_fsys f)" "keeps (flagged b) (of_result x)"
  by (auto simp: keeps_def flagged_def on_ios_def on_dirs_def on_fsys_def of_result_def split: prod.splits)

lemma flagged_opened [keeps_rules]: "keeps (flagged b) (on_opened fd p)"
  by (auto simp: keeps_def flagged_def on_opened_def split: prod.splits sum.splits)

lemma flagged_check [keeps_rules]: "keeps (flagged b) check_state"
  unfolding check_state_def by (intro keeps_rules)

lemma flagged_catching [keeps_rules]: "keeps (flagged b) p \<Longrightarrow> keeps (flagged b) (catching u p)"
  unfolding keeps_def
  by (auto simp: catching_def convert_to_errno_def prog_simps split: prod.splits sum.splits fault.splits option.splits) 

lemma flagged_wait [keeps_rules]: "keeps (flagged b) (wait_cplt rs)"
  unfolding wait_cplt_def by (intro keeps_rules)

lemma flagged_write_dir_block [keeps_rules]: "keeps (flagged b) (write_dir_block a k)"
  unfolding write_dir_block_def by (intro keeps_rules keeps_modify) (simp add: flagged_def)

lemma flagged_dir_blks [keeps_rules]: "keeps (flagged b) (write_back_dir_blks srch fuel a i ks)"
  by (induction ks) (auto intro!: keeps_rules)

lemma flagged_dirs [keeps_rules]: "keeps (flagged b) (write_back_dirs srch fuel a ds)"
  by (induction ds) (auto intro!: keeps_rules)

lemma flagged_nodes [keeps_rules]: "keeps (flagged b) (write_back_nodes a ns)"
  by (induction ns) (auto intro!: keeps_rules)

lemma flagged_commit [keeps_rules]: "keeps (flagged b) (commit_transaction jc ns)"
  unfolding commit_transaction_def Let_def
  by (intro keeps_rules keeps_case_prod keeps_modify; simp add: flagged_def)

lemma flagged_write_back [keeps_rules]: "keeps (flagged b) (write_meta_back_sync srch fuel a)"
  unfolding write_meta_back_sync_def release_dir_blks_def Let_def by (intro keeps_rules)

lemma flagged_ssd_path_lookup [keeps_rules]: "keeps (flagged b) (ssd_path_lookup v it d)"
  unfolding ssd_path_lookup_def by (intro keeps_rules keeps_case_prod)

lemma flagged_lookup_walk [keeps_rules]: "keeps (flagged b) (lookup_walk v n it d)"
  by (induction n arbitrary: it d) (auto intro!: keeps_rules simp: Let_def)

lemma flagged_lookup [keeps_rules]: "keeps (flagged b) (do_path_lookup v d path)"
  unfolding do_path_lookup_def by (intro keeps_rules)

lemmas call_parts = set_abs_path_def set_rel_path_def is_exist_def dentry_ino_of_def with_dentry_def make_directory_def
  parent_directory_def mark_deleted_def remove_from_parent_def opened_of_def delete_unlinked_def

lemma keeps_case_sum [keeps_rules]:
  "(\<And>x. keeps Q (f x)) \<Longrightarrow> (\<And>y. keeps Q (g y)) \<Longrightarrow> keeps Q (case r of Inl x \<Rightarrow> f x | Inr y \<Rightarrow> g y)"
  by (cases r) simp_all

declare keeps_case_prod [keeps_rules]

lemma flagged_set_fd [keeps_rules]: "keeps (flagged b) (modify (hs_fd_update f))"
  by (rule keeps_modify) (simp add: flagged_def)

lemma flagged_open_file [keeps_rules]: "keeps (flagged b) (open_file v fl d)"
  unfolding open_file_def call_parts by (intro keeps_rules)

lemma flagged_do_close [keeps_rules]: "keeps (flagged b) (do_close fd)"
  unfolding do_close_def Let_def by (intro keeps_rules)

lemma flagged_bodies [keeps_rules]:
  "keeps (flagged b) (open_body v path fl)" "keeps (flagged b) (mkdir_body v path)" "keeps (flagged b) (link_body v path path')"
  "keeps (flagged b) (unlink_body v path)" "keeps (flagged b) (rmdir_body v path)"
  unfolding open_body_def mkdir_body_def link_body_def unlink_body_def rmdir_body_def call_parts
  by (intro keeps_rules)+

lemmas calls = sys_open_def sys_close_def sys_mkdir_def sys_link_def sys_unlink_def sys_rmdir_def
  sys_read_def sys_write_def sys_lseek_def sys_truncate_def sys_fsync_def checked_call_def unchecked_call_def

lemma flagged_calls:
  "keeps (flagged b) (sys_open v path fl)" "keeps (flagged b) (sys_close fd)" "keeps (flagged b) (sys_mkdir v path)"
  "keeps (flagged b) (sys_link v path path')" "keeps (flagged b) (sys_unlink v path)" "keeps (flagged b) (sys_rmdir v path)"
  "keeps (flagged b) (sys_read v fd n)" "keeps (flagged b) (sys_write v fd bs n)" "keeps (flagged b) (sys_lseek fd off wh)"
  "keeps (flagged b) (sys_truncate v fd len)" "keeps (flagged b) (sys_fsync v fd)"
  unfolding calls opened_of_def by (intro keeps_rules)+

section \<open>Values that a program never gives\<close>

definition never :: "'a \<Rightarrow> (hscfs, 'a) prog \<Rightarrow> bool" where
  "never x p \<longleftrightarrow> (\<forall>s s'. p s \<noteq> (Inr x, s'))"

named_theorems never_rules

lemma never_bnd [never_rules]: "(\<And>y. never x (f y)) \<Longrightarrow> never x (bnd m f)"
  by (auto simp: never_def bnd_def split: prod.splits sum.splits)

lemma never_basic [never_rules]: "y \<noteq> x \<Longrightarrow> never x (ret y)" "never x (fail e)"
  by (simp_all add: never_def prog_simps)

lemma never_scoped [never_rules]: "never x m \<Longrightarrow> never x (scoped d m)"
  by (auto simp: never_def prog_simps split: prod.splits sum.splits fault.splits)

lemma never_cases [never_rules]:
  "never x p \<Longrightarrow> never x q \<Longrightarrow> never x (if c then p else q)"
  "(\<And>y z. never x (f y z)) \<Longrightarrow> never x (case k of (y, z) \<Rightarrow> f y z)"
  "never x p \<Longrightarrow> (\<And>y. never x (g y)) \<Longrightarrow> never x (case h of None \<Rightarrow> p | Some y \<Rightarrow> g y)"
  "(\<And>y. never x (g' y)) \<Longrightarrow> (\<And>y. never x (g y)) \<Longrightarrow> never x (case r of Inl y \<Rightarrow> g' y | Inr y \<Rightarrow> g y)"
  by (simp_all split: prod.splits option.splits sum.splits)

abbreviation never_dead :: "(hscfs, 'a api) prog \<Rightarrow> bool" where
  "never_dead \<equiv> never (Err ENOTRECOVERABLE)"

lemma never_bodies [never_rules]:
  "never_dead (open_body v path fl)" "never_dead (mkdir_body v path)" "never_dead (link_body v path path')"
  "never_dead (unlink_body v path)" "never_dead (rmdir_body v path)" "never_dead (open_file v fl d)"
  unfolding open_body_def mkdir_body_def link_body_def unlink_body_def rmdir_body_def with_dentry_def open_file_def
  by (intro never_rules; simp)+

text \<open>An error that is not the user's leaves the inner frame of a call as undefined behaviour.\<close>

lemma never_catching [never_rules]: "never_dead p \<Longrightarrow> never_dead (catching True p)"
  by (auto simp: never_def catching_def convert_to_errno_def recoverable_exceptions_errno_def prog_simps
      split: prod.splits sum.splits fault.splits)

lemma catching_throws: "p s = (Inl (Throw e), s') \<Longrightarrow> recoverable_exceptions_errno e = None \<Longrightarrow> catching True p s = (Inl Undefined, s')"
  by (simp add: catching_def convert_to_errno_def prog_simps)

lemma catching_outer:
  assumes "never_dead p"
  shows "fst (catching False p s) = Inr (Err ENOTRECOVERABLE) \<longleftrightarrow>
    (\<exists>e. fst (p s) = Inl (Throw e) \<and> recoverable_exceptions_errno e = None)"
  using assms
  by (auto simp: never_def catching_def convert_to_errno_def recoverable_exceptions_errno_def prog_simps
      split: prod.splits sum.splits fault.splits)

text \<open>What leaves the inner frame is not an exception any more.\<close>

lemma catching_no_throw: "fst (catching True p s) \<noteq> Inl (Throw e)"
  by (auto simp: catching_def convert_to_errno_def prog_simps split: prod.splits sum.splits fault.splits option.splits)

lemma checked_call_dead:
  assumes "never_dead p"
  shows "fst (checked_call p s) = Inr (Err ENOTRECOVERABLE) \<longleftrightarrow> hs_unrecoverable s"
proof (cases "hs_unrecoverable s")
  case True
  then show ?thesis
    by (simp add: checked_call_def catching_def check_state_def convert_to_errno_def recoverable_exceptions_errno_def prog_simps)
next
  case False
  have "bnd check_state (\<lambda>_. catching True p) s = catching True p s"
    using False by (simp add: check_state_def prog_simps)
  moreover have "never_dead (bnd check_state (\<lambda>_. catching True p))" using assms by (intro never_rules)
  ultimately show ?thesis using False catching_outer catching_no_throw by (metis checked_call_def)
qed


lemma checked_call_gate:
  "hs_unrecoverable s \<Longrightarrow> checked_call p s = (Inr (Err ENOTRECOVERABLE), s)"
  by (simp add: checked_call_def catching_def check_state_def convert_to_errno_def recoverable_exceptions_errno_def prog_simps)

lemma checked_call_open: "\<not> hs_unrecoverable s \<Longrightarrow> checked_call p s = unchecked_call p s"
  by (simp add: checked_call_def unchecked_call_def catching_def check_state_def prog_simps)

section \<open>Programs that do not look at the flag\<close>

definition blind :: "(hscfs, 'a) prog \<Rightarrow> bool" where
  "blind p \<longleftrightarrow> (\<forall>s b. p (s\<lparr>hs_unrecoverable := b\<rparr>) = (case p s of (r, s') \<Rightarrow> (r, s'\<lparr>hs_unrecoverable := b\<rparr>)))"

named_theorems blind_rules

lemma blind_bnd [blind_rules]: "blind m \<Longrightarrow> (\<And>x. blind (f x)) \<Longrightarrow> blind (bnd m f)"
  unfolding blind_def by (simp add: bnd_def split: prod.splits sum.splits)

lemma blind_basic [blind_rules]: "blind (ret x)" "blind (fail e)" "blind (assert_that c)" "blind (of_result r)"
  by (simp_all add: blind_def prog_simps)

lemma blind_state:
  "(\<And>s b. g (s\<lparr>hs_unrecoverable := b\<rparr>) = g s) \<Longrightarrow> blind (reads g)"
  "(\<And>s b. h (s\<lparr>hs_unrecoverable := b\<rparr>) = (h s)\<lparr>hs_unrecoverable := b\<rparr>) \<Longrightarrow> blind (modify h)"
  by (simp_all add: blind_def prog_simps)

lemma blind_lift [blind_rules]: "blind (on_ios p)" "blind (on_dirs q)" "blind (on_fsys f)" "blind (on_opened fd p')"
  by (simp_all add: blind_def on_ios_def on_dirs_def on_fsys_def on_opened_def split: prod.splits sum.splits)

lemma blind_frames [blind_rules]:
  "blind d \<Longrightarrow> blind m \<Longrightarrow> blind (scoped d m)" "blind d \<Longrightarrow> blind m \<Longrightarrow> blind (on_throw d m)"
  "blind m \<Longrightarrow> blind (under_way b m)"
  unfolding blind_def by (simp_all add: prog_simps split: prod.splits sum.splits fault.splits)

lemma blind_catching [blind_rules]: "blind p' \<Longrightarrow> blind (catching u p')"
  unfolding blind_def
  by (simp add: catching_def convert_to_errno_def prog_simps split: prod.splits sum.splits fault.splits option.splits)

lemma blind_cases [blind_rules]:
  "blind p \<Longrightarrow> blind q \<Longrightarrow> blind (if c then p else q)"
  "(\<And>y z. blind (f y z)) \<Longrightarrow> blind (case k of (y, z) \<Rightarrow> f y z)"
  "blind p \<Longrightarrow> (\<And>y. blind (g y)) \<Longrightarrow> blind (case h of None \<Rightarrow> p | Some y \<Rightarrow> g y)"
  by (simp_all split: prod.splits option.splits)

lemma blind_write_dir_block [blind_rules]: "blind (write_dir_block a k)"
  unfolding write_dir_block_def by (intro blind_rules blind_state) simp

lemma blind_dir_blks [blind_rules]: "blind (write_back_dir_blks srch fuel a i ks)"
  by (induction ks) (auto intro!: blind_rules)

lemma blind_dirs [blind_rules]: "blind (write_back_dirs srch fuel a ds)"
  by (induction ds) (auto intro!: blind_rules)

lemma blind_nodes [blind_rules]: "blind (write_back_nodes a ns)"
  by (induction ns) (auto intro!: blind_rules)

lemma blind_commit [blind_rules]: "blind (commit_transaction jc ns)"
  unfolding commit_transaction_def Let_def by (intro blind_rules blind_state; simp)

lemma blind_write_back [blind_rules]: "blind (write_meta_back_sync srch fuel a)"
  unfolding write_meta_back_sync_def release_dir_blks_def wait_cplt_def Let_def by (intro blind_rules)

lemma blind_opened_of [blind_rules]: "blind (opened_of fd)"
  unfolding opened_of_def by (intro blind_rules blind_state) simp

lemma blind_calls:
  "blind (sys_read v fd n)" "blind (sys_write v fd bs n)" "blind (sys_lseek fd off wh)"
  "blind (sys_truncate v fd len)" "blind (sys_fsync v fd)"
  unfolding calls by (intro blind_rules)+

section \<open>A manager on a device that does not answer\<close>

definition broken_hs :: hscfs where
  "broken_hs = sample_hs\<lparr>
     hs_io := (hs_io sample_hs)\<lparr>io_fs := sample_sys\<lparr>fs_meta := sample_meta\<lparr>nat_dev := Map.empty\<rparr>\<rparr>\<rparr>,
     hs_dir := (hs_dir sample_hs)\<lparr>ds_dentry := snd (dc_add_root 2 (dc_init 128))\<rparr>, hs_root := Some (Dentry_key 2 [47])\<rparr>"

definition sample_env :: sys_env where
  "sample_env = \<lparr>se_search = sample_search, se_fuel = 3, se_wb = good_answers, se_path = \<lambda>_ _. None, se_time = (5, 6),
     se_junk = \<lparr>fi_ino = 0, fi_size = 0, fi_atime = (0, 0), fi_mtime = (0, 0), fi_dirty = False, fi_nlink = 0,
       fi_ref_count = 0, fi_fd_ref_count = 0, fi_pages = page_cache_init 4\<rparr>, se_alloc_ok = True, se_prefix = None\<rparr>"

lemma broken_mkdir: "\<exists>s'. mkdir_body sample_env ''/a'' broken_hs = (Inl (Throw Io_error), s')"
  by (simp add: mkdir_body_def prog_simps extract_abs_path_def sample_env_def extract_dir_path_def extract_file_name_def
    set_abs_path_def broken_hs_def do_path_lookup_def on_dirs_def on_dentry_def it_eq_def it_begin_def it_end_def is_pos_equal_def
    find_from_def is_exist_def with_dentry_def dentry_get_type_def sample_hs_def dc_init_def dc_add_root_def
    dc_handle_copy_def dc_add_refcount_def dc_on_mgr_def rc_addref_def Let_def cm_add_def cm_empty_def cm_pin_def cm_update_def
    index_add_def lru_add_def lru_empty_def add_to_lru_tail_def lru_pin_def erase_node_def pinned_flag_def add_to_pinned_tail_def
    dentry_init_def dc_handle_move_assign_def dc_is_exist_def dc_entry_def on_dfs_def get_node_entry_def nc_get_def
    sample_sys_def cm_get_def index_get_def lru_access_def on_meta_def get_lpa_of_nid_def get_nid_pos_in_nat_def sample_meta_def sample_super_def
    nat_get_def on_nat_def sn_get_def sn_get_inner_def sn_init_def sn_read_lpa_def)

section \<open>Properties\<close>

text \<open>
  A call on a descriptor that is not open reports \<^verbatim>\<open>EBADF\<close> and changes nothing.
\<close>

lemma bad_fd_rejected:
  assumes "fd_slot fd (hs_fd s) = None" "\<not> hs_unrecoverable s"
  shows "sys_read v fd n s = (Inr (Err EBADF), s) \<and> sys_write v fd bs n s = (Inr (Err EBADF), s) \<and>
    sys_lseek fd off wh s = (Inr (Err EBADF), s) \<and> sys_truncate v fd len s = (Inr (Err EBADF), s) \<and>
    sys_fsync v fd s = (Inr (Err EBADF), s) \<and> sys_close fd s = (Inr (Err EBADF), s)"
  using assms
  by (simp add: calls catching_def convert_to_errno_def recoverable_exceptions_errno_def on_opened_def opened_of_def
      get_opened_file_of_fd_def check_state_def do_close_def free_fd_def prog_simps)

lemma closed_fd: "fd_slot fd (hs_fd s) = None \<Longrightarrow> \<not> hs_unrecoverable s \<Longrightarrow> sys_close fd s = (Inr (Err EBADF), s)"
  using bad_fd_rejected by blast

text \<open>
  C21. When the manager is marked as unrecoverable, the calls that look at the mark report it and
  change nothing. The calls on open descriptors do not look at it: they give what they give in a
  manager that is not marked, so that \<^verbatim>\<open>fsync\<close> goes on committing transactions.
\<close>

theorem unrecoverable_gate:
  assumes "hs_unrecoverable s"
  shows "sys_open v path fl s = (Inr (Err ENOTRECOVERABLE), s) \<and> sys_close fd s = (Inr (Err ENOTRECOVERABLE), s) \<and>
    sys_mkdir v path s = (Inr (Err ENOTRECOVERABLE), s) \<and> sys_link v path path' s = (Inr (Err ENOTRECOVERABLE), s) \<and>
    sys_unlink v path s = (Inr (Err ENOTRECOVERABLE), s) \<and> sys_rmdir v path s = (Inr (Err ENOTRECOVERABLE), s) \<and>
    (let t = s\<lparr>hs_unrecoverable := False\<rparr>; mark = (\<lambda>s. s\<lparr>hs_unrecoverable := True\<rparr>) in
       sys_read v fd n s = map_prod id mark (sys_read v fd n t) \<and> sys_write v fd bs n s = map_prod id mark (sys_write v fd bs n t) \<and>
       sys_lseek fd off wh s = map_prod id mark (sys_lseek fd off wh t) \<and>
       sys_truncate v fd len s = map_prod id mark (sys_truncate v fd len t) \<and>
       sys_fsync v fd s = map_prod id mark (sys_fsync v fd t))"
proof -
  have s: "s = (s\<lparr>hs_unrecoverable := False\<rparr>)\<lparr>hs_unrecoverable := True\<rparr>" using assms by simp
  have b: "p s = map_prod id (\<lambda>s. s\<lparr>hs_unrecoverable := True\<rparr>) (p (s\<lparr>hs_unrecoverable := False\<rparr>))" if "blind p"
    for p :: "(hscfs, 'x) prog"
    using that unfolding blind_def by (subst s) (simp add: map_prod_def split: prod.splits)
  show ?thesis
    unfolding Let_def
    by (intro conjI b blind_calls) (simp_all add: calls(1-6) checked_call_gate [OF assms])
qed

theorem unrecoverable_gate_witness:
  "sys_close 3 (sample_hs\<lparr>hs_unrecoverable := True\<rparr>) = (Inr (Err ENOTRECOVERABLE), sample_hs\<lparr>hs_unrecoverable := True\<rparr>)"
  using unrecoverable_gate [of "sample_hs\<lparr>hs_unrecoverable := True\<rparr>" _ _ _ 3] by simp

text \<open>What a call gave, started in \<open>s\<close>: an outcome that is not undefined kept the mark, and reports it exactly if it was set.\<close>

definition mark_respected :: "hscfs \<Rightarrow> (fault + 'a api) \<times> hscfs \<Rightarrow> bool" where
  "mark_respected s = (\<lambda>(r, s'). hs_unrecoverable s' = hs_unrecoverable s \<and>
     (r = Inr (Err ENOTRECOVERABLE) \<longleftrightarrow> hs_unrecoverable s))"

text \<open>
  C22. No call whose behaviour is defined sets the mark: started in any state, each call of the API
  either has undefined behaviour (as when an error that is not the user's leads to the pointer of
  the exception handler that was never given a value, after which nothing is known) or leaves the
  mark as it was; and the calls that look at the mark then report \<^verbatim>\<open>ENOTRECOVERABLE\<close> exactly if it was set.
  So in a defined run the mark, once clear, stays clear, whatever errors the device reports.
\<close>

theorem unrecoverable_never_set:
  "(fst (sys_open v path fl s) \<noteq> Inl Undefined \<longrightarrow> mark_respected s (sys_open v path fl s)) \<and>
   (fst (sys_close fd s) \<noteq> Inl Undefined \<longrightarrow> mark_respected s (sys_close fd s)) \<and>
   (fst (sys_mkdir v path s) \<noteq> Inl Undefined \<longrightarrow> mark_respected s (sys_mkdir v path s)) \<and>
   (fst (sys_link v path path' s) \<noteq> Inl Undefined \<longrightarrow> mark_respected s (sys_link v path path' s)) \<and>
   (fst (sys_unlink v path s) \<noteq> Inl Undefined \<longrightarrow> mark_respected s (sys_unlink v path s)) \<and>
   (fst (sys_rmdir v path s) \<noteq> Inl Undefined \<longrightarrow> mark_respected s (sys_rmdir v path s)) \<and>
   (fst (sys_read v fd n s) \<noteq> Inl Undefined \<longrightarrow> hs_unrecoverable (snd (sys_read v fd n s)) = hs_unrecoverable s) \<and>
   (fst (sys_write v fd bs n s) \<noteq> Inl Undefined \<longrightarrow> hs_unrecoverable (snd (sys_write v fd bs n s)) = hs_unrecoverable s) \<and>
   (fst (sys_lseek fd off wh s) \<noteq> Inl Undefined \<longrightarrow> hs_unrecoverable (snd (sys_lseek fd off wh s)) = hs_unrecoverable s) \<and>
   (fst (sys_truncate v fd len s) \<noteq> Inl Undefined \<longrightarrow> hs_unrecoverable (snd (sys_truncate v fd len s)) = hs_unrecoverable s) \<and>
   (fst (sys_fsync v fd s) \<noteq> Inl Undefined \<longrightarrow> hs_unrecoverable (snd (sys_fsync v fd s)) = hs_unrecoverable s)"
proof -
  have k: "hs_unrecoverable (snd (p s)) = hs_unrecoverable s" if "keeps (flagged (hs_unrecoverable s)) p" for p :: "(hscfs, 'x) prog"
    using that by (simp add: keeps_def flagged_def)
  have m: "mark_respected s (checked_call p s)" if "keeps (flagged (hs_unrecoverable s)) (checked_call p)" "never_dead p"
    for p :: "(hscfs, 'x api) prog"
    using k [OF that(1)] checked_call_dead [OF that(2), of s] by (auto simp: mark_respected_def split: prod.splits)
  have c: "never_dead (bnd (do_close fd) (\<lambda>_. ret (Ret ())))" by (intro never_rules) simp
  note f = flagged_calls [of "hs_unrecoverable s"]
  have "mark_respected s (sys_open v path fl s) \<and> mark_respected s (sys_close fd s) \<and> mark_respected s (sys_mkdir v path s) \<and>
      mark_respected s (sys_link v path path' s) \<and> mark_respected s (sys_unlink v path s) \<and> mark_respected s (sys_rmdir v path s)"
    unfolding calls(1-6) by (intro conjI m f(1-6) [unfolded calls(1-6)] never_bodies(1-5) c)
  then show ?thesis using k [OF f(7)] k [OF f(8)] k [OF f(9)] k [OF f(10)] k [OF f(11)] by blast
qed

theorem unrecoverable_never_set_witness:
  "fst (sys_close 7 sample_hs) = Inr (Err EBADF) \<and> \<not> hs_unrecoverable (snd (sys_close 7 sample_hs))"
proof -
  have "fd_slot 7 (hs_fd sample_hs) = None" "\<not> hs_unrecoverable sample_hs"
    by (simp_all add: sample_hs_def fd_slot_def fd_array_init_def)
  note c = this(2) closed_fd [OF this]
  then have "fst (sys_close 7 sample_hs) \<noteq> Inl Undefined" by simp
  then have "mark_respected sample_hs (sys_close 7 sample_hs)" using unrecoverable_never_set [of _ _ _ sample_hs 7] by blast
  then show ?thesis using c by (simp add: mark_respected_def)
qed

text \<open>
  An exception that is not the user's, met inside the inner frame of a call, goes through the
  pointer with no value. Creating a directory on a device that does not answer is an example.
\<close>

lemma mkdir_io_error_undefined: "\<exists>s'. sys_mkdir sample_env ''/a'' broken_hs = (Inl Undefined, s')"
proof -
  obtain s' where "mkdir_body sample_env ''/a'' broken_hs = (Inl (Throw Io_error), s')" using broken_mkdir by blast
  then have "catching True (mkdir_body sample_env ''/a'') broken_hs = (Inl Undefined, s')"
    by (rule catching_throws) (simp add: recoverable_exceptions_errno_def)
  moreover have "\<not> hs_unrecoverable broken_hs" by (simp add: broken_hs_def sample_hs_def)
  ultimately show ?thesis by (simp add: sys_mkdir_def checked_call_open unchecked_call_def catching_def)
qed

end
