(* ===== verification/Comm_Session.thy ===== *)
theory Comm_Session
  imports IO_Sync
begin

text \<open>
  The communication with the SSD: the channel controller of \<^verbatim>\<open>src/communication/channel.c\<close>, which
  spreads commands over queue pairs, and the session layer of \<^verbatim>\<open>src/communication/session.c\<close>, whose
  polling thread follows each command from its submission to its completion. A long command
  completes in two steps: the SSD first reports its task id as finished, and then its result is
  asked for with a second command. SPDK and the device are parameters.
\<close>

section \<open>Channels\<close>

text \<open>\<^verbatim>\<open>comm_channel_controller_get_channel\<close>: the loop for the smallest use count.\<close>

fun min_channel_loop :: "u64 list \<Rightarrow> nat \<Rightarrow> u64 \<Rightarrow> nat \<Rightarrow> nat" where
  "min_channel_loop [] i min_use min_channel = min_channel"
| "min_channel_loop (cur_use # us) i min_use min_channel =
     (if cur_use < min_use then min_channel_loop us (Suc i) cur_use i
      else min_channel_loop us (Suc i) min_use min_channel)"

definition channel_get :: "u64 list \<Rightarrow> fault + (nat \<times> u64 list)" where
  "channel_get cnt =
     (let i = min_channel_loop cnt 0 (- 1) 0 in
      if i < length cnt then Inr (i, cnt[i := cnt ! i + 1]) else Inl Undefined)"

definition channel_release :: "nat \<Rightarrow> u64 list \<Rightarrow> fault + u64 list" where
  "channel_release i cnt = (if i < length cnt then Inr (cnt[i := cnt ! i - 1]) else Inl Undefined)"

section \<open>Command contexts\<close>

datatype comm_session_cmd_nvme_type = SESSION_ADMIN_CMD | SESSION_IO_CMD

datatype comm_session_cmd_state =
    SESSION_CMD_NEED_POLLING
  | SESSION_CMD_RECEIVED_CQE
  | SESSION_CMD_TID_WAIT_QUERY
  | SESSION_CMD_TID_CAN_QUERY
  | SESSION_CMD_TID_CPLT_QUERY

text \<open>
  The union of the two kinds of commands: a synchronous one has a flag that the waiting thread
  looks at, an asynchronous one a callback, and whether the polling thread frees it.
\<close>

datatype session_callback = Upper_cb | Tid_query_cb

datatype comm_session_cmd_sync_attr =
    SESSION_SYNC_CMD (cmd_is_cplt: bool)
  | SESSION_ASYNC_CMD (async_cb: session_callback) (has_ownership: bool)

record comm_session_cmd_ctx =
  cc_channel :: nat
  cmd_result :: comm_cmd_result
  cmd_sync_type :: comm_session_cmd_sync_attr
  is_long_cmd :: bool
  cc_tid :: u16
  cmd_nvme_type :: comm_session_cmd_nvme_type
  cmd_session_state :: comm_session_cmd_state

text \<open>The contexts of the two callbacks that the session layer gives to the channel layer.\<close>

datatype channel_callback = Polling_cb | Query_result_cb

datatype comm_cmd_CQE_result = CMD_CQE_SUCCESS | CMD_CQE_ERROR

datatype cplt_tid_polling_state =
    CPLT_TID_POLL_DISABLE
  | CPLT_TID_POLL_WAIT_PERIOD
  | CPLT_TID_POLL_RUNNING
  | CPLT_TID_POLL_FINISHED
  | CPLT_TID_POLL_ERROR

section \<open>State\<close>

text \<open>
  \<open>ctxs\<close> holds the contexts that exist; the polling thread's own context for its queries is number 0.
  The device's part is \<open>inflight\<close>: the commands that were sent and whose callback has not run, with
  the queue pair they were sent on, none for the admin queue. \<open>upper_calls\<close> lists the callbacks of the
  upper layer that were made.
\<close>

record comm_env =
  ctxs :: "nat \<rightharpoonup> comm_session_cmd_ctx"
  channel_use_cnt :: "u64 list"
  cmd_queue :: "nat list"
  cmd_queue_size :: nat
  polling_thread_exit_req :: bool
  cq_queue :: "nat list"
  tid_queue :: "nat list"
  err_queue :: "nat list"
  cplt_tid_list :: "u16 list"
  cplt_tid_buffer :: "u16 list"
  cplt_tid_query_state :: cplt_tid_polling_state
  need_exit :: bool
  next_tid :: u16
  inflight :: "(nat \<times> channel_callback \<times> nat option) list"
  upper_calls :: "(nat \<times> comm_cmd_result) list"

abbreviation (input) tid_query_ctx :: nat where "tid_query_ctx \<equiv> 0"

abbreviation (input) INVALID_TID :: u16 where "INVALID_TID \<equiv> 0"

datatype try_lock = Locked | Busy | Lock_error

text \<open>
  What happens outside: whether a poll of a queue fails, which of the sent commands it finds completed
  and how, the locks that are tried, whether a waiting thread returns between the moment at which its
  command is marked as completed and the moment at which it is signalled, whether commands are accepted, memory, condition variables, the timer, and what the
  SSD writes as the list of finished task ids.
\<close>

record comm_world =
  cw_poll_fails :: "comm_env \<Rightarrow> bool"
  cw_cqe :: "comm_env \<Rightarrow> nat \<Rightarrow> comm_cmd_CQE_result option"
  cw_queue_lock :: "comm_env \<Rightarrow> try_lock"
  cw_channel_lock :: "comm_env \<Rightarrow> nat \<Rightarrow> try_lock"
  cw_wait_lock :: "comm_env \<Rightarrow> nat \<Rightarrow> try_lock"
  cw_returns_early :: "comm_env \<Rightarrow> nat \<Rightarrow> bool"
  cw_send_ok :: "comm_env \<Rightarrow> bool"
  cw_malloc_ok :: "comm_env \<Rightarrow> bool"
  cw_cond_ok :: "comm_env \<Rightarrow> bool"
  cw_timer_start_ok :: "comm_env \<Rightarrow> bool"
  cw_timer :: "comm_env \<Rightarrow> bool option"
  cw_tids :: "comm_env \<Rightarrow> u16 list"

section \<open>Queues\<close>

text \<open>
  The queues are linked through a field of the context, so that a context is in one queue at a time;
  inserting one that is in a queue, or removing one from a queue it is not in, damages the lists.
\<close>

definition queued :: "comm_env \<Rightarrow> nat list" where
  "queued s = cmd_queue s @ cq_queue s @ tid_queue s @ err_queue s"

definition ctx_of :: "nat \<Rightarrow> (comm_env, comm_session_cmd_ctx) prog" where
  "ctx_of c = (\<lambda>s. case ctxs s c of None \<Rightarrow> (Inl Undefined, s) | Some x \<Rightarrow> (Inr x, s))"

definition ctx_write :: "nat \<Rightarrow> (comm_session_cmd_ctx \<Rightarrow> comm_session_cmd_ctx) \<Rightarrow> (comm_env, unit) prog" where
  "ctx_write c f = bnd (ctx_of c) (\<lambda>x. modify (\<lambda>s. s\<lparr>ctxs := (ctxs s)(c \<mapsto> f x)\<rparr>))"

definition insert_tail :: "((nat list \<Rightarrow> nat list) \<Rightarrow> comm_env \<Rightarrow> comm_env) \<Rightarrow> nat \<Rightarrow> (comm_env, unit) prog" where
  "insert_tail upd c = (\<lambda>s.
     if ctxs s c = None \<or> c \<in> set (queued s) then (Inl Undefined, s) else (Inr (), upd (\<lambda>q. q @ [c]) s))"

definition queue_remove ::
    "(comm_env \<Rightarrow> nat list) \<Rightarrow> ((nat list \<Rightarrow> nat list) \<Rightarrow> comm_env \<Rightarrow> comm_env) \<Rightarrow> nat \<Rightarrow> (comm_env, unit) prog" where
  "queue_remove q upd c = (\<lambda>s.
     if ctxs s c = None \<or> c \<notin> set (q s) then (Inl Undefined, s) else (Inr (), upd (remove1 c) s))"

definition queue_next :: "nat list \<Rightarrow> nat \<Rightarrow> nat option" where
  "queue_next q c = (case dropWhile (\<lambda>d. d \<noteq> c) q of _ # d # _ \<Rightarrow> Some d | _ \<Rightarrow> None)"

text \<open>
  \<^verbatim>\<open>TAILQ_FOREACH_SAFE\<close>: the next element is read before the body runs, and an element that the body
  appends is visited as well. \<open>n\<close> bounds the rounds.
\<close>

fun foreach_safe :: "(comm_env \<Rightarrow> nat list) \<Rightarrow> (nat \<Rightarrow> (comm_env, unit) prog) \<Rightarrow> nat \<Rightarrow> nat option \<Rightarrow> (comm_env, unit) prog" where
  "foreach_safe q body n None = ret ()"
| "foreach_safe q body 0 (Some c) = fail Still_running"
| "foreach_safe q body (Suc n) (Some c) =
     bnd (reads (\<lambda>s. queue_next (q s) c)) (\<lambda>nxt.
     bnd (body c) (\<lambda>_.
     foreach_safe q body n nxt))"

definition queue_first :: "nat list \<Rightarrow> nat option" where
  "queue_first q = (case q of [] \<Rightarrow> None | c # _ \<Rightarrow> Some c)"

section \<open>Constructing and submitting commands\<close>

definition alloc_new_tid :: "comm_env \<Rightarrow> u16 \<times> comm_env" where
  "alloc_new_tid s =
     (let t = (if next_tid s = - 1 then 0 else next_tid s) in (t + 1, s\<lparr>next_tid := t + 1\<rparr>))"

definition comm_session_cmd_ctx_constructor ::
    "nat \<Rightarrow> nat \<Rightarrow> comm_session_cmd_nvme_type \<Rightarrow> comm_session_cmd_sync_attr \<Rightarrow> bool \<Rightarrow> comm_session_cmd_ctx \<Rightarrow> (comm_env, unit) prog" where
  "comm_session_cmd_ctx_constructor c channel nvme sync long junk =
     bnd (if long then (\<lambda>s. case alloc_new_tid s of (t, s') \<Rightarrow> (Inr t, s')) else ret (cc_tid junk)) (\<lambda>t.
     modify (\<lambda>s. s\<lparr>ctxs := (ctxs s)(c \<mapsto>
       \<lparr>cc_channel = channel, cmd_result = cmd_result junk, cmd_sync_type = sync, is_long_cmd = long, cc_tid = t,
        cmd_nvme_type = nvme, cmd_session_state = SESSION_CMD_NEED_POLLING\<rparr>)\<rparr>))"

text \<open>The result is whether the polling thread is woken up.\<close>

definition comm_session_submit_cmd_ctx :: "nat \<Rightarrow> (comm_env, bool) prog" where
  "comm_session_submit_cmd_ctx c =
     bnd (insert_tail cmd_queue_update c) (\<lambda>_.
     bnd (reads (\<lambda>s. cmd_queue_size s = 0)) (\<lambda>need_wakeup_polling.
     bnd (modify (\<lambda>s. s\<lparr>cmd_queue_size := Suc (cmd_queue_size s)\<rparr>)) (\<lambda>_.
     ret need_wakeup_polling)))"

definition get_channel :: "(comm_env, nat) prog" where
  "get_channel = (\<lambda>s. case channel_get (channel_use_cnt s) of
     Inl f \<Rightarrow> (Inl f, s) | Inr (i, cnt) \<Rightarrow> (Inr i, s\<lparr>channel_use_cnt := cnt\<rparr>))"

definition comm_channel_release :: "nat \<Rightarrow> (comm_env, unit) prog" where
  "comm_channel_release i = (\<lambda>s. case channel_release i (channel_use_cnt s) of
     Inl f \<Rightarrow> (Inl f, s) | Inr cnt \<Rightarrow> (Inr (), s\<lparr>channel_use_cnt := cnt\<rparr>))"

text \<open>Sending a command on a queue pair, or on the admin queue.\<close>

definition send_cmd :: "comm_world \<Rightarrow> nat \<Rightarrow> channel_callback \<Rightarrow> nat option \<Rightarrow> (comm_env, bool) prog" where
  "send_cmd w c cb qpair = (\<lambda>s.
     if cw_send_ok w s then (Inr True, s\<lparr>inflight := inflight s @ [(c, cb, qpair)]\<rparr>) else (Inr False, s))"

definition free_ctx :: "nat \<Rightarrow> (comm_env, unit) prog" where
  "free_ctx c = modify (\<lambda>s. s\<lparr>ctxs := (ctxs s)(c := None)\<rparr>)"

section \<open>Callbacks of the channel layer\<close>

definition comm_session_polling_thread_callback :: "comm_cmd_CQE_result \<Rightarrow> nat \<Rightarrow> (comm_env, unit) prog" where
  "comm_session_polling_thread_callback r c =
     ctx_write c (\<lambda>x. x\<lparr>cmd_result := (if r = CMD_CQE_ERROR then COMM_CMD_CQE_ERROR else COMM_CMD_SUCCESS),
       cmd_session_state := SESSION_CMD_RECEIVED_CQE\<rparr>)"

definition polling_thread_query_result_callback :: "comm_cmd_CQE_result \<Rightarrow> nat \<Rightarrow> (comm_env, unit) prog" where
  "polling_thread_query_result_callback r c =
     ctx_write c (\<lambda>x. x\<lparr>cmd_result := (if r = CMD_CQE_ERROR then COMM_CMD_TID_QUERY_ERROR else COMM_CMD_SUCCESS),
       cmd_session_state := SESSION_CMD_TID_CPLT_QUERY\<rparr>)"

text \<open>When the query for finished task ids completes, the SSD has written the list.\<close>

fun run_callbacks :: "comm_world \<Rightarrow> (nat \<times> channel_callback \<times> comm_cmd_CQE_result) list \<Rightarrow> (comm_env, unit) prog" where
  "run_callbacks w [] = ret ()"
| "run_callbacks w ((c, cb, r) # ds) =
     bnd (if c = tid_query_ctx \<and> r = CMD_CQE_SUCCESS
          then modify (\<lambda>s. s\<lparr>cplt_tid_buffer := cw_tids w s\<rparr>) else ret ()) (\<lambda>_.
     bnd (case cb of Polling_cb \<Rightarrow> comm_session_polling_thread_callback r c
          | Query_result_cb \<Rightarrow> polling_thread_query_result_callback r c) (\<lambda>_.
     run_callbacks w ds))"

text \<open>A poll of a queue runs the callbacks of what has completed there; it gives whether it worked.\<close>

definition completed_of :: "comm_world \<Rightarrow> nat option \<Rightarrow> comm_env \<Rightarrow> (nat \<times> channel_callback \<times> comm_cmd_CQE_result) list" where
  "completed_of w qpair s =
     [(c, cb, the (cw_cqe w s c)). (c, cb, q) \<leftarrow> inflight s, q = qpair \<and> cw_cqe w s c \<noteq> None]"

definition poll_queue :: "comm_world \<Rightarrow> nat option \<Rightarrow> (comm_env, bool) prog" where
  "poll_queue w qpair =
     bnd (reads (cw_poll_fails w)) (\<lambda>fails.
     if fails then ret False
     else
       bnd (reads (completed_of w qpair)) (\<lambda>ds.
       bnd (modify (\<lambda>s. s\<lparr>inflight := filter (\<lambda>(c, cb, q). \<not> (q = qpair \<and> cw_cqe w s c \<noteq> None)) (inflight s)\<rparr>)) (\<lambda>_.
       bnd (run_callbacks w ds) (\<lambda>_.
       ret True))))"

section \<open>Completed commands\<close>

text \<open>The callback of the polling thread's own query, and those of the upper layer.\<close>

definition call_upper :: "nat \<Rightarrow> session_callback \<Rightarrow> comm_cmd_result \<Rightarrow> (comm_env, unit) prog" where
  "call_upper c cb r =
     (case cb of
        Tid_query_cb \<Rightarrow> modify (\<lambda>s. s\<lparr>cplt_tid_query_state :=
          (if r \<noteq> COMM_CMD_SUCCESS then CPLT_TID_POLL_ERROR else CPLT_TID_POLL_FINISHED)\<rparr>)
      | Upper_cb \<Rightarrow> modify (\<lambda>s. s\<lparr>upper_calls := upper_calls s @ [(c, r)]\<rparr>))"

text \<open>
  The end of a request that waits, in the waiting thread: \<^term>\<open>None\<close> while the context is not marked; otherwise the
  context, which is a local object, goes, and the channel is released.
\<close>

datatype api_result = Api_ok | Api_errno | Api_failed

definition sync_cmd_return :: "nat \<Rightarrow> (comm_env, api_result option) prog" where
  "sync_cmd_return c =
     bnd (ctx_of c) (\<lambda>ctx.
     if cmd_sync_type ctx = SESSION_SYNC_CMD True then
       bnd (free_ctx c) (\<lambda>_.
       bnd (comm_channel_release (cc_channel ctx)) (\<lambda>_.
       ret (Some (if cmd_result ctx = COMM_CMD_SUCCESS then Api_ok else Api_failed))))
     else ret None)"

text \<open>
  The result is whether the lock of a synchronous command was busy. The thread marks the command under
  its lock and gives the lock back; from then on the waiting thread may return, and only after that is the condition
  variable of the context signalled.
\<close>

definition cond_broadcast :: "nat \<Rightarrow> (comm_env, unit) prog" where
  "cond_broadcast c = bnd (ctx_of c) (\<lambda>_. ret ())"

definition polling_thread_process_cplt_cmd :: "comm_world \<Rightarrow> nat \<Rightarrow> (comm_env, bool) prog" where
  "polling_thread_process_cplt_cmd w c =
     bnd (ctx_of c) (\<lambda>cmd.
     case cmd_sync_type cmd of
       SESSION_ASYNC_CMD cb owned \<Rightarrow>
         bnd (call_upper c cb (cmd_result cmd)) (\<lambda>_.
         bnd (if owned then bnd (comm_channel_release (cc_channel cmd)) (\<lambda>_. free_ctx c) else ret ()) (\<lambda>_.
         ret False))
     | SESSION_SYNC_CMD _ \<Rightarrow>
         bnd (reads (\<lambda>s. cw_wait_lock w s c)) (\<lambda>l.
         case l of
           Busy \<Rightarrow> ret True
         | Lock_error \<Rightarrow> bnd (insert_tail err_queue_update c) (\<lambda>_. ret False)
         | Locked \<Rightarrow>
             bnd (ctx_write c (\<lambda>x. x\<lparr>cmd_sync_type := SESSION_SYNC_CMD True\<rparr>)) (\<lambda>_.
             bnd (reads (\<lambda>s. cw_returns_early w s c)) (\<lambda>early.
             bnd (if early then sync_cmd_return c else ret None) (\<lambda>_.
             bnd (cond_broadcast c) (\<lambda>_. ret False))))))"

text \<open>
  A long command whose submission failed is completed, and then treated as one that succeeded.
\<close>

definition polling_thread_process_cmd_received_CQE :: "comm_world \<Rightarrow> nat \<Rightarrow> (comm_env, unit) prog" where
  "polling_thread_process_cmd_received_CQE w c =
     bnd (queue_remove cq_queue cq_queue_update c) (\<lambda>_.
     bnd (ctx_of c) (\<lambda>cmd.
     if \<not> is_long_cmd cmd then
       bnd (polling_thread_process_cplt_cmd w c) (\<lambda>busy.
       if busy then insert_tail cq_queue_update c else ret ())
     else
       bnd (if cmd_result cmd = COMM_CMD_CQE_ERROR then
              bnd (polling_thread_process_cplt_cmd w c) (\<lambda>busy.
              if busy then insert_tail err_queue_update c else ret ())
            else ret ()) (\<lambda>_.
       bnd (ctx_of c) (\<lambda>cmd.
       bnd (if cmd_session_state cmd = SESSION_CMD_RECEIVED_CQE
            then ctx_write c (\<lambda>x. x\<lparr>cmd_session_state := SESSION_CMD_TID_WAIT_QUERY\<rparr>) else ret ()) (\<lambda>_.
       insert_tail tid_queue_update c)))))"

definition move_to_err :: "(comm_env \<Rightarrow> nat list) \<Rightarrow> ((nat list \<Rightarrow> nat list) \<Rightarrow> comm_env \<Rightarrow> comm_env) \<Rightarrow> nat \<Rightarrow> (comm_env, unit) prog" where
  "move_to_err q upd c = bnd (queue_remove q upd c) (\<lambda>_. insert_tail err_queue_update c)"

definition poll_for_cmd :: "comm_world \<Rightarrow> nat \<Rightarrow> comm_session_cmd_ctx \<Rightarrow> (comm_env, unit) prog" where
  "poll_for_cmd w c cmd =
     (let poll = (\<lambda>qpair. bnd (poll_queue w qpair) (\<lambda>ok. if ok then ret () else move_to_err cq_queue cq_queue_update c)) in
      if cmd_nvme_type cmd = SESSION_ADMIN_CMD then poll None
      else
        bnd (reads (\<lambda>s. cw_channel_lock w s (cc_channel cmd))) (\<lambda>l.
        case l of
          Busy \<Rightarrow> ret ()
        | Lock_error \<Rightarrow> move_to_err cq_queue cq_queue_update c
        | Locked \<Rightarrow> poll (Some (cc_channel cmd))))"

definition process_cq_cmd :: "comm_world \<Rightarrow> nat \<Rightarrow> (comm_env, unit) prog" where
  "process_cq_cmd w c =
     bnd (ctx_of c) (\<lambda>cmd.
     if cmd_session_state cmd = SESSION_CMD_NEED_POLLING then
       bnd (poll_for_cmd w c cmd) (\<lambda>_.
       bnd (ctx_of c) (\<lambda>cmd.
       if cmd_session_state cmd \<in> {SESSION_CMD_RECEIVED_CQE, SESSION_CMD_TID_CPLT_QUERY}
       then polling_thread_process_cmd_received_CQE w c else ret ()))
     else if cmd_session_state cmd \<in> {SESSION_CMD_RECEIVED_CQE, SESSION_CMD_TID_CPLT_QUERY}
     then polling_thread_process_cmd_received_CQE w c
     else ret ())"

definition polling_thread_process_cq_queue :: "comm_world \<Rightarrow> nat \<Rightarrow> (comm_env, unit) prog" where
  "polling_thread_process_cq_queue w n =
     bnd (reads (\<lambda>s. queue_first (cq_queue s))) (foreach_safe cq_queue (process_cq_cmd w) n)"

section \<open>Long commands\<close>

text \<open>
  Matching the finished task ids with the waiting commands. The entry of an id is freed at the first
  match; the loop over the commands goes on, and a second match would free it again.
\<close>

fun match_cmds :: "u16 \<Rightarrow> nat list \<Rightarrow> bool \<Rightarrow> (comm_env, bool) prog" where
  "match_cmds tid [] matched = ret matched"
| "match_cmds tid (c # cs) matched =
     bnd (ctx_of c) (\<lambda>cmd.
     if cc_tid cmd = tid \<and> cmd_session_state cmd = SESSION_CMD_TID_WAIT_QUERY then
       bnd (ctx_write c (\<lambda>x. x\<lparr>cmd_session_state := SESSION_CMD_TID_CAN_QUERY\<rparr>)) (\<lambda>_.
       if matched then fail Undefined
       else bnd (modify (\<lambda>s. s\<lparr>cplt_tid_list := remove1 tid (cplt_tid_list s)\<rparr>)) (\<lambda>_. match_cmds tid cs True))
     else match_cmds tid cs matched)"

fun match_tids :: "u16 list \<Rightarrow> (comm_env, unit) prog" where
  "match_tids [] = ret ()"
| "match_tids (t # ts) =
     bnd (reads tid_queue) (\<lambda>cs.
     bnd (match_cmds t cs False) (\<lambda>_.
     match_tids ts))"

definition polling_thread_send_query_result_cmd :: "comm_world \<Rightarrow> nat \<Rightarrow> (comm_env, unit) prog" where
  "polling_thread_send_query_result_cmd w c =
     bnd (send_cmd w c Query_result_cb None) (\<lambda>ok.
     if \<not> ok then move_to_err tid_queue tid_queue_update c
     else
       bnd (ctx_write c (\<lambda>x. x\<lparr>cmd_session_state := SESSION_CMD_NEED_POLLING\<rparr>)) (\<lambda>_.
       bnd (queue_remove tid_queue tid_queue_update c) (\<lambda>_.
       insert_tail cq_queue_update c)))"

definition process_tid_cmd :: "comm_world \<Rightarrow> nat \<Rightarrow> (comm_env, unit) prog" where
  "process_tid_cmd w c =
     bnd (ctx_of c) (\<lambda>cmd.
     if cmd_session_state cmd = SESSION_CMD_TID_CAN_QUERY then polling_thread_send_query_result_cmd w c
     else if cmd_session_state cmd = SESSION_CMD_TID_CPLT_QUERY then
       bnd (queue_remove tid_queue tid_queue_update c) (\<lambda>_.
       bnd (polling_thread_process_cplt_cmd w c) (\<lambda>busy.
       if busy then insert_tail tid_queue_update c else ret ()))
     else ret ())"

definition polling_thread_process_tid_queue :: "comm_world \<Rightarrow> nat \<Rightarrow> (comm_env, unit) prog" where
  "polling_thread_process_tid_queue w n =
     bnd (reads cplt_tid_list) (\<lambda>ts.
     bnd (match_tids ts) (\<lambda>_.
     bnd (reads (\<lambda>s. queue_first (tid_queue s))) (foreach_safe tid_queue (process_tid_cmd w) n)))"

section \<open>The query for finished task ids\<close>

definition polling_thread_send_query_cplt_tid_cmd :: "comm_world \<Rightarrow> (comm_env, bool) prog" where
  "polling_thread_send_query_cplt_tid_cmd w =
     bnd (ctx_of tid_query_ctx) (\<lambda>old.
     bnd (comm_session_cmd_ctx_constructor tid_query_ctx (cc_channel old) SESSION_ADMIN_CMD (SESSION_ASYNC_CMD Tid_query_cb False) False old) (\<lambda>_.
     bnd (send_cmd w tid_query_ctx Polling_cb None) (\<lambda>ok.
     if \<not> ok then ret False
     else bnd (insert_tail cq_queue_update tid_query_ctx) (\<lambda>_. ret True))))"

text \<open>New ids go to the front of the list; the first invalid one ends the buffer. The result is whether memory sufficed.\<close>

fun add_cplt_tids :: "comm_world \<Rightarrow> u16 list \<Rightarrow> (comm_env, bool) prog" where
  "add_cplt_tids w [] = ret True"
| "add_cplt_tids w (tid # ts) =
     (if tid = INVALID_TID then ret True
      else
        bnd (reads cplt_tid_list) (\<lambda>l.
        if tid \<in> set l then add_cplt_tids w ts
        else
          bnd (reads (cw_malloc_ok w)) (\<lambda>ok.
          if \<not> ok then ret False
          else bnd (modify (\<lambda>s. s\<lparr>cplt_tid_list := tid # cplt_tid_list s\<rparr>)) (\<lambda>_. add_cplt_tids w ts))))"

definition set_query_state :: "cplt_tid_polling_state \<Rightarrow> (comm_env, unit) prog" where
  "set_query_state q = modify (\<lambda>s. s\<lparr>cplt_tid_query_state := q\<rparr>)"

definition polling_thread_process_cplt_tid_query :: "comm_world \<Rightarrow> (comm_env, unit) prog" where
  "polling_thread_process_cplt_tid_query w =
     bnd (reads cplt_tid_query_state) (\<lambda>q.
     case q of
       CPLT_TID_POLL_DISABLE \<Rightarrow>
         bnd (reads tid_queue) (\<lambda>l.
         if l \<noteq> [] then
           bnd (reads (cw_timer_start_ok w)) (\<lambda>ok. set_query_state (if ok then CPLT_TID_POLL_WAIT_PERIOD else CPLT_TID_POLL_ERROR))
         else ret ())
     | CPLT_TID_POLL_WAIT_PERIOD \<Rightarrow>
         bnd (reads (cw_timer w)) (\<lambda>expired.
         case expired of
           None \<Rightarrow> set_query_state CPLT_TID_POLL_ERROR
         | Some e \<Rightarrow>
             if \<not> e then ret ()
             else
               bnd (polling_thread_send_query_cplt_tid_cmd w) (\<lambda>ok.
               set_query_state (if ok then CPLT_TID_POLL_RUNNING else CPLT_TID_POLL_ERROR)))
     | CPLT_TID_POLL_FINISHED \<Rightarrow>
         bnd (reads cplt_tid_buffer) (\<lambda>b.
         bnd (add_cplt_tids w (take 8 b)) (\<lambda>ok.
         if ok then set_query_state CPLT_TID_POLL_DISABLE else ret ()))
     | _ \<Rightarrow> ret ())"

section \<open>The polling thread\<close>

definition polling_thread_is_working :: "comm_env \<Rightarrow> bool" where
  "polling_thread_is_working s \<longleftrightarrow> \<not> (cq_queue s = [] \<and> tid_queue s = [])"

text \<open>
  An idle thread sleeps while there is nothing to do, which is the result \<^term>\<open>False\<close>; a working one
  only tries the lock. A lock that cannot be taken for another reason is not modelled for the idle thread.
\<close>

definition polling_thread_fetch_cmd_from_session :: "comm_world \<Rightarrow> (comm_env, bool) prog" where
  "polling_thread_fetch_cmd_from_session w = (\<lambda>s.
     if polling_thread_is_working s \<and> cw_queue_lock w s \<noteq> Locked then (Inr True, s)
     else if \<not> polling_thread_is_working s \<and> cmd_queue_size s = 0 \<and> \<not> polling_thread_exit_req s then (Inr False, s)
     else (Inr True, s\<lparr>need_exit := need_exit s \<or> polling_thread_exit_req s, cq_queue := cq_queue s @ cmd_queue s,
       cmd_queue := [], cmd_queue_size := 0\<rparr>))"

definition polling_thread_is_error :: "comm_env \<Rightarrow> bool" where
  "polling_thread_is_error s \<longleftrightarrow> err_queue s \<noteq> [] \<or> cplt_tid_query_state s = CPLT_TID_POLL_ERROR"

datatype thread_round = Sleeping | Goes_on | Error_exit | Requested_exit

definition polling_round :: "comm_world \<Rightarrow> nat \<Rightarrow> (comm_env, thread_round) prog" where
  "polling_round w n =
     bnd (polling_thread_fetch_cmd_from_session w) (\<lambda>fetched.
     if \<not> fetched then ret Sleeping
     else
       bnd (polling_thread_process_cq_queue w n) (\<lambda>_.
       bnd (polling_thread_process_tid_queue w n) (\<lambda>_.
       bnd (polling_thread_process_cplt_tid_query w) (\<lambda>_.
       bnd (reads polling_thread_is_error) (\<lambda>err.
       if err then ret Error_exit
       else bnd (reads need_exit) (\<lambda>ex. ret (if ex then Requested_exit else Goes_on)))))))"

text \<open>
  The contexts in the queues that the thread owns are freed when it ends. The field that says so is
  part of the union, and a synchronous command has other data there (\<open>junk\<close>); its context is an
  object of the waiting thread, which must not be freed.
\<close>

fun session_clear_queue :: "(nat \<Rightarrow> bool) \<Rightarrow> nat list \<Rightarrow> (comm_env, unit) prog" where
  "session_clear_queue junk [] = ret ()"
| "session_clear_queue junk (c # cs) =
     bnd (ctx_of c) (\<lambda>cmd.
     bnd (case cmd_sync_type cmd of
            SESSION_ASYNC_CMD _ owned \<Rightarrow>
              if owned then bnd (comm_channel_release (cc_channel cmd)) (\<lambda>_. free_ctx c) else ret ()
          | SESSION_SYNC_CMD _ \<Rightarrow> if junk c then fail Undefined else ret ()) (\<lambda>_.
     session_clear_queue junk cs))"

definition polling_thread_env_destructor :: "(nat \<Rightarrow> bool) \<Rightarrow> (comm_env, unit) prog" where
  "polling_thread_env_destructor junk =
     bnd (ctx_of tid_query_ctx) (\<lambda>q.
     bnd (comm_channel_release (cc_channel q)) (\<lambda>_.
     bnd (reads (\<lambda>s. cq_queue s @ tid_queue s @ err_queue s)) (\<lambda>cs.
     bnd (session_clear_queue junk cs) (\<lambda>_.
     modify (\<lambda>s. s\<lparr>cq_queue := [], tid_queue := [], err_queue := [], cplt_tid_list := []\<rparr>)))))"

text \<open>
  The thread runs until a round ends it, and then releases what it has; \<open>k\<close> bounds the rounds. At the end of the
  session it is asked to exit, and what was submitted after it looked is cleared.
\<close>

fun comm_session_polling_thread :: "comm_world \<Rightarrow> nat \<Rightarrow> (nat \<Rightarrow> bool) \<Rightarrow> nat \<Rightarrow> (comm_env, unit) prog" where
  "comm_session_polling_thread w n junk 0 = fail Still_running"
| "comm_session_polling_thread w n junk (Suc k) =
     bnd (polling_round w n) (\<lambda>r.
     if r \<in> {Error_exit, Requested_exit} then polling_thread_env_destructor junk
     else comm_session_polling_thread w n junk k)"

definition comm_session_env_fini :: "comm_world \<Rightarrow> nat \<Rightarrow> (nat \<Rightarrow> bool) \<Rightarrow> nat \<Rightarrow> (comm_env, unit) prog" where
  "comm_session_env_fini w n junk k =
     bnd (modify (\<lambda>s. s\<lparr>polling_thread_exit_req := True\<rparr>)) (\<lambda>_.
     bnd (comm_session_polling_thread w n junk k) (\<lambda>_.
     bnd (reads cmd_queue) (\<lambda>cs.
     bnd (session_clear_queue junk cs) (\<lambda>_.
     modify (\<lambda>s. s\<lparr>cmd_queue := []\<rparr>)))))"

text \<open>The state at the start of the thread, on \<open>n\<close> channels, the first of which it uses for its query.\<close>

definition comm_session_env_init :: "nat \<Rightarrow> comm_session_cmd_ctx \<Rightarrow> comm_env" where
  "comm_session_env_init n junk = \<lparr>
     ctxs = [tid_query_ctx \<mapsto> junk\<lparr>cc_channel := 0, cmd_sync_type := SESSION_ASYNC_CMD Tid_query_cb False, is_long_cmd := False,
       cmd_nvme_type := SESSION_ADMIN_CMD, cmd_session_state := SESSION_CMD_NEED_POLLING\<rparr>],
     channel_use_cnt = (replicate n 0)[0 := 1], cmd_queue = [], cmd_queue_size = 0, polling_thread_exit_req = False,
     cq_queue = [], tid_queue = [], err_queue = [], cplt_tid_list = [], cplt_tid_buffer = replicate 8 0,
     cplt_tid_query_state = CPLT_TID_POLL_DISABLE, need_exit = False, next_tid = 0, inflight = [], upper_calls = []\<rparr>"

end
