(* ===== verification/Session_Inv.thy ===== *)
theory Session_Inv
  imports Comm_Session
begin

text \<open>
  The invariant of the session layer: every context in a queue exists and is in one queue once, its
  state says whether its command is still with the device, and task ids of long commands differ.
\<close>

section \<open>Loops over queues\<close>

lemma queue_next_split: "c \<notin> set pre \<Longrightarrow> queue_next (pre @ c # suf) c = queue_first suf"
  by (induction pre) (auto simp: queue_next_def queue_first_def split: list.splits)

lemma queue_first_Cons [simp]: "queue_first (c # cs) = Some c" "queue_first [] = None"
  by (simp_all add: queue_first_def)

lemma queue_next_SomeD:
  assumes "queue_next q c = Some d"
  shows "\<exists>pre suf. q = pre @ c # d # suf"
proof -
  let ?r = "dropWhile (\<lambda>d. d \<noteq> c) q"
  obtain x ys where r: "?r = x # d # ys" using assms by (auto simp: queue_next_def split: list.splits)
  then have "x = c" using hd_dropWhile [of "\<lambda>d. d \<noteq> c" q] by simp
  then have "q = takeWhile (\<lambda>d. d \<noteq> c) q @ c # d # ys" using takeWhile_dropWhile_id [of "\<lambda>d. d \<noteq> c" q] r by simp
  then show ?thesis by blast
qed

lemma queue_next_other: "distinct q \<Longrightarrow> queue_next q c = Some d \<Longrightarrow> d \<in> set q - {c}"
  by (auto dest!: queue_next_SomeD)

text \<open>
  What a program promises: it does not fault, but for a loop that runs on, and \<open>Q\<close> holds of the
  result and the state; \<open>I\<close> holds when the loop is cut off.
\<close>

definition safely :: "('s \<Rightarrow> bool) \<Rightarrow> ('s, 'a) prog \<Rightarrow> 's \<Rightarrow> ('a \<Rightarrow> 's \<Rightarrow> bool) \<Rightarrow> bool" where
  "safely I m s Q \<longleftrightarrow> (case m s of (Inr x, s') \<Rightarrow> Q x s' | (Inl e, s') \<Rightarrow> e = Still_running \<and> I s')"

lemma safely_ret [simp]: "safely I (ret x) s Q = Q x s"
  by (simp add: safely_def prog_simps)

lemma safely_reads [simp]: "safely I (reads g) s Q = Q (g s) s"
  by (simp add: safely_def prog_simps)

lemma safely_modify [simp]: "safely I (modify h) s Q = Q () (h s)"
  by (simp add: safely_def prog_simps)

lemma safely_bnd [simp]: "safely I (bnd m f) s Q = safely I m s (\<lambda>x s'. safely I (f x) s' Q)"
  by (auto simp: safely_def prog_simps split: prod.splits sum.splits)

lemma safely_fail [simp]: "safely I (fail e) s Q = (e = Still_running \<and> I s)"
  by (simp add: safely_def prog_simps)

lemma safely_mono: "safely I m s Q \<Longrightarrow> (\<And>x s'. Q x s' \<Longrightarrow> R x s') \<Longrightarrow> safely I m s R"
  by (auto simp: safely_def split: prod.splits sum.splits)

text \<open>
  What the body of a loop does to its own queue: its element stays, leaves, or goes to the end, the
  last only when the thread that waits for the command holds its lock at that moment.
\<close>

definition never_busy :: "comm_world \<Rightarrow> bool" where
  "never_busy w \<longleftrightarrow> (\<forall>s c. cw_wait_lock w s c \<noteq> Busy)"

definition moved :: "comm_world \<Rightarrow> nat \<Rightarrow> nat list \<Rightarrow> nat list \<Rightarrow> bool" where
  "moved w c q q' \<longleftrightarrow> q' = q \<or> q' = remove1 c q \<or> (\<not> never_busy w \<and> q' = remove1 c q @ [c])"

lemma moved_simps [simp]: "moved w c q q" "moved w c q (remove1 c q)"
  by (simp_all add: moved_def)

lemma moved_others: "moved w c q q' \<Longrightarrow> set q - {c} \<subseteq> set q'"
proof -
  have "set q - {c} \<subseteq> set (remove1 c q)" by (metis Diff_iff in_set_remove1 insertI1 subsetI)
  then show "moved w c q q' \<Longrightarrow> set q - {c} \<subseteq> set q'" by (auto simp: moved_def)
qed

lemma foreach_safe_inv:
  assumes step: "\<And>c s. J s \<Longrightarrow> c \<in> set (q s) \<Longrightarrow> safely J (body c) s (\<lambda>_ s'. J s' \<and> moved w c (q s) (q s'))"
    and dist: "\<And>s. J s \<Longrightarrow> distinct (q s)"
  shows "J s \<Longrightarrow> (\<forall>c. cur = Some c \<longrightarrow> c \<in> set (q s)) \<Longrightarrow> safely J (foreach_safe q body n cur) s (\<lambda>_. J)"
proof (induction n arbitrary: s cur)
  case 0
  then show ?case by (cases cur) auto
next
  case (Suc n)
  show ?case
  proof (cases cur)
    case None
    then show ?thesis using Suc.prems by simp
  next
    case (Some c)
    then have c: "c \<in> set (q s)" using Suc.prems(2) by blast
    have "safely J (foreach_safe q body n (queue_next (q s) c)) s' (\<lambda>_. J)" if s': "J s' \<and> moved w c (q s) (q s')" for s'
      using Suc.IH [of s' "queue_next (q s) c"] s' moved_others [of w c "q s" "q s'"] queue_next_other [OF dist [OF Suc.prems(1)]] by blast
    then show ?thesis using safely_mono [OF step [OF Suc.prems(1) c]] Some by simp
  qed
qed

text \<open>When no lock is busy the loop visits each element once, and then ends.\<close>

lemma foreach_safe_ends:
  assumes step: "\<And>c s. J s \<Longrightarrow> c \<in> set (q s) \<Longrightarrow> safely (\<lambda>_. False) (body c) s (\<lambda>_ s'. J s' \<and> moved w c (q s) (q s'))"
    and dist: "\<And>s. J s \<Longrightarrow> distinct (q s)" and w: "never_busy w"
  shows "J s \<Longrightarrow> q s = pre @ suf \<Longrightarrow> length suf \<le> n \<Longrightarrow> safely (\<lambda>_. False) (foreach_safe q body n (queue_first suf)) s (\<lambda>_. J)"
proof (induction suf arbitrary: s pre n)
  case Nil
  then show ?case by (cases n) simp_all
next
  case (Cons c suf)
  from Cons.prems(3) obtain m where m: "n = Suc m" "length suf \<le> m" by (cases n) auto
  have c: "c \<notin> set pre" using dist [OF Cons.prems(1)] Cons.prems(2) by simp
  have nxt: "queue_next (q s) c = queue_first suf" using queue_next_split [OF c] Cons.prems(2) by simp
  have "safely (\<lambda>_. False) (foreach_safe q body m (queue_first suf)) s' (\<lambda>_. J)" if s': "J s' \<and> moved w c (q s) (q s')" for s'
  proof -
    have "q s' = (pre @ [c]) @ suf \<or> q s' = pre @ suf" using s' w c Cons.prems(2) by (auto simp: moved_def remove1_append)
    then show ?thesis using Cons.IH [of s' _ m] s' m(2) by blast
  qed
  then show ?case using safely_mono [OF step [OF Cons.prems(1)]] Cons.prems(2) m(1) nxt by simp
qed

section \<open>Invariant\<close>

text \<open>The command of the context is with the device.\<close>

definition with_device :: "(nat \<times> channel_callback \<times> nat option) list \<Rightarrow> nat \<Rightarrow> bool" where
  "with_device l c \<longleftrightarrow> c \<in> fst ` set l"

definition unfinished :: "comm_session_cmd_ctx \<Rightarrow> bool" where
  "unfinished x \<longleftrightarrow> cmd_sync_type x \<noteq> SESSION_SYNC_CMD True"

text \<open>A context in the first queues, whose command is with the device (\<open>d\<close>) or not, and one in the queue of task ids.\<close>

definition awaits_cqe :: "comm_session_cmd_ctx \<Rightarrow> bool \<Rightarrow> bool" where
  "awaits_cqe x d \<longleftrightarrow> unfinished x \<and>
     (case cmd_session_state x of
        SESSION_CMD_NEED_POLLING \<Rightarrow> d
      | SESSION_CMD_RECEIVED_CQE \<Rightarrow> \<not> d \<and> (is_long_cmd x \<longrightarrow> cmd_result x \<noteq> COMM_CMD_CQE_ERROR)
      | SESSION_CMD_TID_CPLT_QUERY \<Rightarrow> \<not> d \<and> is_long_cmd x \<and> cmd_result x \<noteq> COMM_CMD_CQE_ERROR
      | _ \<Rightarrow> False)"

definition awaits_tid :: "comm_session_cmd_ctx \<Rightarrow> bool \<Rightarrow> bool" where
  "awaits_tid x d \<longleftrightarrow> unfinished x \<and> is_long_cmd x \<and> \<not> d \<and>
     cmd_session_state x \<in> {SESSION_CMD_TID_WAIT_QUERY, SESSION_CMD_TID_CAN_QUERY, SESSION_CMD_TID_CPLT_QUERY}"

definition ctx_is :: "(nat \<rightharpoonup> comm_session_cmd_ctx) \<Rightarrow> (nat \<times> channel_callback \<times> nat option) list \<Rightarrow>
    (comm_session_cmd_ctx \<Rightarrow> bool \<Rightarrow> bool) \<Rightarrow> nat \<Rightarrow> bool" where
  "ctx_is m l R c \<longleftrightarrow> (case m c of None \<Rightarrow> False | Some x \<Rightarrow> R x (with_device l c))"

text \<open>
  \<open>P\<close> are contexts that are in no queue at the moment: they are about to be submitted, or, those in \<open>D\<close>,
  moved by the polling thread.
\<close>

definition queues_ok :: "nat set \<Rightarrow> nat set \<Rightarrow> (nat \<rightharpoonup> comm_session_cmd_ctx) \<Rightarrow> (nat \<times> channel_callback \<times> nat option) list \<Rightarrow>
    nat list \<Rightarrow> nat list \<Rightarrow> nat list \<Rightarrow> nat list \<Rightarrow> bool" where
  "queues_ok D P m l cmds cqs tids errs \<longleftrightarrow>
     distinct (cmds @ cqs @ tids @ errs) \<and> P \<inter> set (cmds @ cqs @ tids @ errs) = {} \<and>
     (\<forall>c \<in> set cmds \<union> set cqs. ctx_is m l awaits_cqe c) \<and> (\<forall>c \<in> set tids. ctx_is m l awaits_tid c) \<and>
     (\<forall>c \<in> set errs. ctx_is m l (\<lambda>x _. unfinished x) c) \<and> (\<forall>c \<in> P. ctx_is m l awaits_cqe c \<or> (c \<in> D \<and> ctx_is m l awaits_tid c))"

definition ctx_ok :: "nat \<Rightarrow> nat \<Rightarrow> comm_session_cmd_ctx \<Rightarrow> bool" where
  "ctx_ok n c x \<longleftrightarrow> cc_channel x < n \<and> (c = tid_query_ctx \<longrightarrow> \<not> is_long_cmd x) \<and>
     (case cmd_sync_type x of SESSION_SYNC_CMD _ \<Rightarrow> c \<noteq> tid_query_ctx
      | SESSION_ASYNC_CMD cb owned \<Rightarrow> (if c = tid_query_ctx then cb = Tid_query_cb \<and> \<not> owned else cb = Upper_cb \<and> owned))"

definition ctxs_ok :: "(nat \<rightharpoonup> comm_session_cmd_ctx) \<Rightarrow> nat \<Rightarrow> bool" where
  "ctxs_ok m n \<longleftrightarrow> (\<forall>c x. m c = Some x \<longrightarrow> ctx_ok n c x) \<and> m tid_query_ctx \<noteq> None \<and>
     (\<forall>c d x y. m c = Some x \<longrightarrow> m d = Some y \<longrightarrow> is_long_cmd x \<longrightarrow> is_long_cmd y \<longrightarrow> cc_tid x = cc_tid y \<longrightarrow> c = d)"

definition device_ok :: "(nat \<rightharpoonup> comm_session_cmd_ctx) \<Rightarrow> (nat \<times> channel_callback \<times> nat option) list \<Rightarrow> bool" where
  "device_ok m l \<longleftrightarrow> distinct (map fst l) \<and>
     (\<forall>c cb q. (c, cb, q) \<in> set l \<longrightarrow>
        (\<exists>x. m c = Some x \<and> unfinished x \<and> cmd_session_state x = SESSION_CMD_NEED_POLLING \<and> (cb = Query_result_cb \<longrightarrow> is_long_cmd x)))"

definition query_ok :: "bool \<Rightarrow> bool \<Rightarrow> cplt_tid_polling_state \<Rightarrow> bool" where
  "query_ok pending d q \<longleftrightarrow> (pending \<longleftrightarrow> q = CPLT_TID_POLL_RUNNING) \<and> (d \<longrightarrow> q = CPLT_TID_POLL_RUNNING)"

definition calls_ok :: "(nat \<rightharpoonup> comm_session_cmd_ctx) \<Rightarrow> (nat \<times> comm_cmd_result) list \<Rightarrow> bool" where
  "calls_ok m us \<longleftrightarrow> distinct (map fst us) \<and> (\<forall>c \<in> fst ` set us. m c = None)"

definition session_inv :: "nat set \<Rightarrow> nat set \<Rightarrow> comm_env \<Rightarrow> bool" where
  "session_inv D P s \<longleftrightarrow>
     queues_ok D P (ctxs s) (inflight s) (cmd_queue s) (cq_queue s) (tid_queue s) (err_queue s) \<and>
     cmd_queue_size s = length (cmd_queue s) \<and> distinct (cplt_tid_list s) \<and>
     ctxs_ok (ctxs s) (length (channel_use_cnt s)) \<and> device_ok (ctxs s) (inflight s) \<and>
     query_ok (tid_query_ctx \<in> set (queued s) \<union> P) (with_device (inflight s) tid_query_ctx) (cplt_tid_query_state s) \<and>
     calls_ok (ctxs s) (upper_calls s)"

text \<open>While the thread moves a context, that context may wait for its task id outside of the queues.\<close>

lemma queues_ok_moving:
  "queues_ok D P m l cmds cqs tids errs \<Longrightarrow> queues_ok (insert c D) P m l cmds cqs tids errs"
  "queues_ok (insert c D) P m l cmds cqs tids errs \<Longrightarrow> c \<notin> P \<Longrightarrow> queues_ok D P m l cmds cqs tids errs"
  unfolding queues_ok_def by blast+

lemma session_inv_moving:
  "session_inv D P s \<Longrightarrow> session_inv (insert c D) P s"
  "session_inv (insert c D) P s \<Longrightarrow> c \<notin> P \<Longrightarrow> session_inv D P s"
  unfolding session_inv_def using queues_ok_moving by blast+

lemma session_invD:
  assumes "session_inv D P s"
  shows "queues_ok D P (ctxs s) (inflight s) (cmd_queue s) (cq_queue s) (tid_queue s) (err_queue s)"
    "ctxs_ok (ctxs s) (length (channel_use_cnt s))" "device_ok (ctxs s) (inflight s)"
    "query_ok (tid_query_ctx \<in> set (queued s) \<union> P) (with_device (inflight s) tid_query_ctx) (cplt_tid_query_state s)"
    "calls_ok (ctxs s) (upper_calls s)" "distinct (queued s)" "distinct (cplt_tid_list s)"
    "cmd_queue_size s = length (cmd_queue s)"
  using assms by (simp_all add: session_inv_def queues_ok_def queued_def)

section \<open>Moving contexts between the queues\<close>

lemma queued_ctx:
  assumes "session_inv D P s"
  shows "c \<in> set (cq_queue s) \<Longrightarrow> ctx_is (ctxs s) (inflight s) awaits_cqe c"
    "c \<in> set (tid_queue s) \<Longrightarrow> ctx_is (ctxs s) (inflight s) awaits_tid c"
    "c \<in> P \<Longrightarrow> ctx_is (ctxs s) (inflight s) awaits_cqe c \<or> (c \<in> D \<and> ctx_is (ctxs s) (inflight s) awaits_tid c)"
    "c \<in> P \<Longrightarrow> c \<notin> set (queued s)"
  using assms by (auto simp: session_inv_def queues_ok_def queued_def)

lemma ctx_isE:
  assumes "ctx_is m l R c"
  obtains x where "m c = Some x" "R x (with_device l c)"
  using assms by (auto simp: ctx_is_def split: option.splits)

lemma queues_ok_detach:
  "queues_ok D P m l cmds cqs tids errs \<Longrightarrow> c \<in> set cqs \<Longrightarrow> queues_ok D (insert c P) m l cmds (remove1 c cqs) tids errs"
  "queues_ok D P m l cmds cqs tids errs \<Longrightarrow> c \<in> set tids \<Longrightarrow> c \<in> D \<Longrightarrow> queues_ok D (insert c P) m l cmds cqs (remove1 c tids) errs"
  unfolding queues_ok_def by auto

lemma queues_ok_attach:
  "queues_ok D P m l cmds cqs tids errs \<Longrightarrow> c \<in> P \<Longrightarrow> ctx_is m l awaits_cqe c \<Longrightarrow> queues_ok D (P - {c}) m l cmds (cqs @ [c]) tids errs"
  "queues_ok D P m l cmds cqs tids errs \<Longrightarrow> c \<in> P \<Longrightarrow> ctx_is m l awaits_cqe c \<Longrightarrow> queues_ok D (P - {c}) m l (cmds @ [c]) cqs tids errs"
  "queues_ok D P m l cmds cqs tids errs \<Longrightarrow> c \<in> P \<Longrightarrow> ctx_is m l awaits_tid c \<Longrightarrow> queues_ok D (P - {c}) m l cmds cqs (tids @ [c]) errs"
  unfolding queues_ok_def by auto

lemma awaits_unfinished: "awaits_cqe x d \<Longrightarrow> unfinished x" "awaits_tid x d \<Longrightarrow> unfinished x"
  by (simp_all add: awaits_cqe_def awaits_tid_def)

lemma queues_ok_attach_err:
  assumes "queues_ok D P m l cmds cqs tids errs" "c \<in> P"
  shows "queues_ok D (P - {c}) m l cmds cqs tids (errs @ [c])"
proof -
  have "ctx_is m l awaits_cqe c \<or> ctx_is m l awaits_tid c" using assms unfolding queues_ok_def by blast
  then have "ctx_is m l (\<lambda>x _. unfinished x) c" using awaits_unfinished by (auto simp: ctx_is_def split: option.splits)
  then show ?thesis using assms unfolding queues_ok_def by auto
qed

lemma pending_moved:
  "c \<in> set q \<Longrightarrow> distinct q \<Longrightarrow> (z \<in> set (a @ remove1 c q @ b) \<union> insert c P \<longleftrightarrow> z \<in> set (a @ q @ b) \<union> P)"
  "c \<in> P \<Longrightarrow> (z \<in> set (a @ (q @ [c]) @ b) \<union> (P - {c}) \<longleftrightarrow> z \<in> set (a @ q @ b) \<union> P)"
  by auto

lemma detach:
  assumes "session_inv D P s"
  shows "c \<in> set (cq_queue s) \<Longrightarrow> session_inv D (insert c P) (s\<lparr>cq_queue := remove1 c (cq_queue s)\<rparr>)"
    "c \<in> set (tid_queue s) \<Longrightarrow> c \<in> D \<Longrightarrow> session_inv D (insert c P) (s\<lparr>tid_queue := remove1 c (tid_queue s)\<rparr>)"
proof -
  note d = session_invD [OF assms]
  show "session_inv D (insert c P) (s\<lparr>cq_queue := remove1 c (cq_queue s)\<rparr>)" if "c \<in> set (cq_queue s)"
    using that d queues_ok_detach(1) [OF d(1) that] pending_moved(1) [of c "cq_queue s" tid_query_ctx "cmd_queue s" "tid_queue s @ err_queue s" P]
    by (simp add: session_inv_def queued_def)
  show "session_inv D (insert c P) (s\<lparr>tid_queue := remove1 c (tid_queue s)\<rparr>)" if t: "c \<in> set (tid_queue s)" and "c \<in> D"
    using that d queues_ok_detach(2) [OF d(1) that] pending_moved(1) [of c "tid_queue s" tid_query_ctx "cmd_queue s @ cq_queue s" "err_queue s" P]
    by (simp add: session_inv_def queued_def)
qed

lemma attach:
  assumes "session_inv D P s" "c \<in> P"
  shows "ctx_is (ctxs s) (inflight s) awaits_cqe c \<Longrightarrow> session_inv D (P - {c}) (s\<lparr>cq_queue := cq_queue s @ [c]\<rparr>)"
    "ctx_is (ctxs s) (inflight s) awaits_tid c \<Longrightarrow> session_inv D (P - {c}) (s\<lparr>tid_queue := tid_queue s @ [c]\<rparr>)"
    "session_inv D (P - {c}) (s\<lparr>err_queue := err_queue s @ [c]\<rparr>)"
proof -
  note d = session_invD [OF assms(1)]
  show "session_inv D (P - {c}) (s\<lparr>cq_queue := cq_queue s @ [c]\<rparr>)" if "ctx_is (ctxs s) (inflight s) awaits_cqe c"
    using d queues_ok_attach(1) [OF d(1) assms(2) that] pending_moved(2) [OF assms(2), of tid_query_ctx "cmd_queue s" "cq_queue s" "tid_queue s @ err_queue s"]
    by (simp add: session_inv_def queued_def)
  show "session_inv D (P - {c}) (s\<lparr>tid_queue := tid_queue s @ [c]\<rparr>)" if "ctx_is (ctxs s) (inflight s) awaits_tid c"
    using d queues_ok_attach(3) [OF d(1) assms(2) that] pending_moved(2) [OF assms(2), of tid_query_ctx "cmd_queue s @ cq_queue s" "tid_queue s" "err_queue s"]
    by (simp add: session_inv_def queued_def)
  show "session_inv D (P - {c}) (s\<lparr>err_queue := err_queue s @ [c]\<rparr>)"
    using d queues_ok_attach_err [OF d(1) assms(2)] pending_moved(2) [OF assms(2), of tid_query_ctx "cmd_queue s @ cq_queue s @ tid_queue s" "err_queue s" "[]"]
    by (simp add: session_inv_def queued_def)
qed

section \<open>Changing a context\<close>

lemma ctx_is_upd: "ctx_is (m(c \<mapsto> y)) l R d = (if d = c then R y (with_device l c) else ctx_is m l R d)"
  by (simp add: ctx_is_def)

lemma ctx_is_other: "with_device l' d = with_device l d \<Longrightarrow> m' d = m d \<Longrightarrow> ctx_is m' l' R d = ctx_is m l R d"
  by (simp add: ctx_is_def split: option.splits)

text \<open>In place: what held of the context in its queue still holds.\<close>

lemma queues_ok_upd:
  assumes q: "queues_ok D P m l cmds cqs tids errs" and x: "m c = Some x"
    and other: "\<And>d. d \<noteq> c \<Longrightarrow> with_device l' d = with_device l d"
    and cqe: "awaits_cqe x (with_device l c) \<Longrightarrow> awaits_cqe y (with_device l' c)"
    and tid: "awaits_tid x (with_device l c) \<Longrightarrow> awaits_tid y (with_device l' c)" and u: "unfinished x \<Longrightarrow> unfinished y"
  shows "queues_ok D P (m(c \<mapsto> y)) l' cmds cqs tids errs"
proof -
  have e: "ctx_is (m(c \<mapsto> y)) l' (\<lambda>x _. unfinished x) d" if "ctx_is m l (\<lambda>x _. unfinished x) d" for d
    using that u x by (cases "d = c") (simp_all add: ctx_is_def)
  have a: "ctx_is (m(c \<mapsto> y)) l' awaits_cqe d" if "ctx_is m l awaits_cqe d" for d
    using that cqe ctx_is_other [OF other, of d "m(c \<mapsto> y)" m awaits_cqe] x by (cases "d = c") (simp_all add: ctx_is_def)
  have b: "ctx_is (m(c \<mapsto> y)) l' awaits_tid d" if "ctx_is m l awaits_tid d" for d
    using that tid ctx_is_other [OF other, of d "m(c \<mapsto> y)" m awaits_tid] x by (cases "d = c") (simp_all add: ctx_is_def)
  show ?thesis using q a b e unfolding queues_ok_def by blast
qed

text \<open>A context that is in no queue may change to wait for something else, or go.\<close>

lemma queues_ok_upd_pending:
  assumes q: "queues_ok D P m l cmds cqs tids errs" and c: "c \<in> P"
    and other: "\<And>d. d \<noteq> c \<Longrightarrow> with_device l' d = with_device l d"
    and y: "awaits_cqe y (with_device l' c) \<or> (c \<in> D \<and> awaits_tid y (with_device l' c))"
  shows "queues_ok D P (m(c \<mapsto> y)) l' cmds cqs tids errs"
proof -
  have o: "ctx_is (m(c \<mapsto> y)) l' R d = ctx_is m l R d" if "d \<noteq> c" for d R
    using that by (intro ctx_is_other other) simp_all
  have n: "d \<noteq> c" if "d \<in> set cmds \<union> set cqs \<union> set tids \<union> set errs" for d
    using that q c unfolding queues_ok_def by auto
  have p: "ctx_is (m(c \<mapsto> y)) l' awaits_cqe c \<or> (c \<in> D \<and> ctx_is (m(c \<mapsto> y)) l' awaits_tid c)"
    using y by (simp add: ctx_is_def)
  have p': "\<forall>d \<in> P. ctx_is (m(c \<mapsto> y)) l' awaits_cqe d \<or> (d \<in> D \<and> ctx_is (m(c \<mapsto> y)) l' awaits_tid d)"
    using q o p unfolding queues_ok_def by metis
  show ?thesis using q o n p' unfolding queues_ok_def by auto
qed

lemma queues_ok_drop:
  assumes q: "queues_ok D P m l cmds cqs tids errs" and c: "c \<notin> set (cmds @ cqs @ tids @ errs)"
  shows "queues_ok D (P - {c}) (m(c := z)) l cmds cqs tids errs"
proof -
  have o: "ctx_is (m(c := z)) l R d = ctx_is m l R d" if "d \<noteq> c" for d R
    using that by (simp add: ctx_is_def)
  have n: "d \<noteq> c" if "d \<in> set cmds \<union> set cqs \<union> set tids \<union> set errs" for d
    using that c by auto
  show ?thesis using q o n unfolding queues_ok_def by auto
qed

text \<open>The parts of a context that do not change once it is constructed.\<close>

definition same_cmd :: "comm_session_cmd_ctx \<Rightarrow> comm_session_cmd_ctx \<Rightarrow> bool" where
  "same_cmd x y \<longleftrightarrow> cc_channel y = cc_channel x \<and> is_long_cmd y = is_long_cmd x \<and> cc_tid y = cc_tid x \<and>
     (case cmd_sync_type x of SESSION_SYNC_CMD _ \<Rightarrow> \<exists>f. cmd_sync_type y = SESSION_SYNC_CMD f
      | SESSION_ASYNC_CMD _ _ \<Rightarrow> cmd_sync_type y = cmd_sync_type x)"

lemma ctx_ok_same: "ctx_ok n c x \<Longrightarrow> same_cmd x y \<Longrightarrow> ctx_ok n c y"
  by (auto simp: ctx_ok_def same_cmd_def split: comm_session_cmd_sync_attr.splits)

lemma ctxs_ok_upd:
  assumes "ctxs_ok m n" "m c = Some x" "same_cmd x y"
  shows "ctxs_ok (m(c \<mapsto> y)) n"
proof -
  have l: "is_long_cmd y = is_long_cmd x" "cc_tid y = cc_tid x" using assms(3) by (simp_all add: same_cmd_def)
  have "ctx_ok n c y" using assms ctx_ok_same unfolding ctxs_ok_def by blast
  then have "\<forall>d z. (m(c \<mapsto> y)) d = Some z \<longrightarrow> ctx_ok n d z"
    using assms(1) unfolding ctxs_ok_def by simp
  moreover have "\<forall>d e u v. (m(c \<mapsto> y)) d = Some u \<longrightarrow> (m(c \<mapsto> y)) e = Some v \<longrightarrow> is_long_cmd u \<longrightarrow> is_long_cmd v \<longrightarrow>
      cc_tid u = cc_tid v \<longrightarrow> d = e"
  proof (intro allI impI)
    fix d e u v
    assume h: "(m(c \<mapsto> y)) d = Some u" "(m(c \<mapsto> y)) e = Some v" "is_long_cmd u" "is_long_cmd v" "cc_tid u = cc_tid v"
    obtain u' where u': "m d = Some u'" "is_long_cmd u'" "cc_tid u' = cc_tid u" using h(1,3) l assms(2) by (cases "d = c") auto
    obtain v' where v': "m e = Some v'" "is_long_cmd v'" "cc_tid v' = cc_tid v" using h(2,4) l assms(2) by (cases "e = c") auto
    show "d = e" using assms(1) u' v' h(5) unfolding ctxs_ok_def by metis
  qed
  moreover have "(m(c \<mapsto> y)) tid_query_ctx \<noteq> None" using assms(1) unfolding ctxs_ok_def by simp
  ultimately show ?thesis unfolding ctxs_ok_def by blast
qed

lemma ctxs_ok_remove: "ctxs_ok m n \<Longrightarrow> c \<noteq> tid_query_ctx \<Longrightarrow> ctxs_ok (m(c := None)) n"
  unfolding ctxs_ok_def by (auto split: if_splits)

lemma device_ok_upd: "device_ok m l \<Longrightarrow> \<not> with_device l c \<Longrightarrow> device_ok (m(c := z)) l"
  unfolding device_ok_def with_device_def by (metis fst_conv fun_upd_other imageI)

lemma calls_ok_upd: "calls_ok m us \<Longrightarrow> m c = Some x \<Longrightarrow> calls_ok (m(c \<mapsto> y)) us"
  unfolding calls_ok_def by auto

text \<open>One change of a context in place, whose command is not with the device.\<close>

lemma inv_upd:
  assumes s: "session_inv D P s" and x: "ctxs s c = Some x" and d: "\<not> with_device (inflight s) c" and y: "same_cmd x y"
    and cqe: "awaits_cqe x False \<Longrightarrow> awaits_cqe y False" and tid: "awaits_tid x False \<Longrightarrow> awaits_tid y False"
    and u: "unfinished x \<Longrightarrow> unfinished y"
  shows "session_inv D P (s\<lparr>ctxs := (ctxs s)(c \<mapsto> y)\<rparr>)"
proof -
  note i = session_invD [OF s]
  have "queues_ok D P ((ctxs s)(c \<mapsto> y)) (inflight s) (cmd_queue s) (cq_queue s) (tid_queue s) (err_queue s)"
    using queues_ok_upd [OF i(1) x] d cqe tid u by simp
  then show ?thesis
    using i ctxs_ok_upd [OF i(2) x y] device_ok_upd [OF i(3) d] calls_ok_upd [OF i(5) x] by (simp add: session_inv_def queued_def)
qed

lemma inv_upd_pending:
  assumes s: "session_inv D P s" and c: "c \<in> P" and x: "ctxs s c = Some x" and d: "\<not> with_device (inflight s) c" and y: "same_cmd x y"
    and a: "awaits_cqe y False \<or> (c \<in> D \<and> awaits_tid y False)"
  shows "session_inv D P (s\<lparr>ctxs := (ctxs s)(c \<mapsto> y)\<rparr>)"
proof -
  note i = session_invD [OF s]
  have "queues_ok D P ((ctxs s)(c \<mapsto> y)) (inflight s) (cmd_queue s) (cq_queue s) (tid_queue s) (err_queue s)"
    using queues_ok_upd_pending [OF i(1) c] d a by simp
  then show ?thesis
    using i ctxs_ok_upd [OF i(2) x y] device_ok_upd [OF i(3) d] calls_ok_upd [OF i(5) x] by (simp add: session_inv_def queued_def)
qed

section \<open>Callbacks\<close>

lemma device_okD:
  assumes "device_ok m l" "(c, cb, q) \<in> set l"
  obtains x where "m c = Some x" "unfinished x" "cmd_session_state x = SESSION_CMD_NEED_POLLING" "cb = Query_result_cb \<longrightarrow> is_long_cmd x"
    "with_device l c"
  using assms unfolding device_ok_def with_device_def by force

lemma device_ok_done:
  assumes l: "device_ok m l"
  shows "device_ok (m(c \<mapsto> y)) (filter (\<lambda>e. fst e \<noteq> c) l)"
proof -
  have "distinct (map fst (filter (\<lambda>e. fst e \<noteq> c) l))" using l distinct_map_filter unfolding device_ok_def by blast
  then show ?thesis using l unfolding device_ok_def by (auto simp: fun_upd_apply)
qed

lemma with_device_done:
  "\<not> with_device (filter (\<lambda>e. fst e \<noteq> c) l) c"
  "d \<noteq> c \<Longrightarrow> with_device (filter (\<lambda>e. fst e \<noteq> c) l) d = with_device l d"
  by (auto simp: with_device_def)

text \<open>The context after its callback.\<close>

definition answered :: "channel_callback \<Rightarrow> comm_cmd_CQE_result \<Rightarrow> comm_session_cmd_ctx \<Rightarrow> comm_session_cmd_ctx" where
  "answered cb r x = (case cb of
     Polling_cb \<Rightarrow> x\<lparr>cmd_result := (if r = CMD_CQE_ERROR then COMM_CMD_CQE_ERROR else COMM_CMD_SUCCESS), cmd_session_state := SESSION_CMD_RECEIVED_CQE\<rparr>
   | Query_result_cb \<Rightarrow> x\<lparr>cmd_result := (if r = CMD_CQE_ERROR then COMM_CMD_TID_QUERY_ERROR else COMM_CMD_SUCCESS), cmd_session_state := SESSION_CMD_TID_CPLT_QUERY\<rparr>)"

lemma answered_same: "same_cmd x (answered cb r x)"
  by (auto simp: answered_def same_cmd_def split: channel_callback.splits comm_session_cmd_sync_attr.splits)

lemma inv_answered:
  assumes s: "session_inv D P s" and m: "(c, cb, q) \<in> set (inflight s)"
    and x: "ctxs s c = Some x" and ok: "cb = Polling_cb \<Longrightarrow> is_long_cmd x \<Longrightarrow> r \<noteq> CMD_CQE_ERROR"
  shows "session_inv D P (s\<lparr>ctxs := (ctxs s)(c \<mapsto> answered cb r x), inflight := filter (\<lambda>e. fst e \<noteq> c) (inflight s), cplt_tid_buffer := b\<rparr>)"
proof -
  note i = session_invD [OF s]
  let ?l = "filter (\<lambda>e. fst e \<noteq> c) (inflight s)"
  have x': "unfinished x" "cmd_session_state x = SESSION_CMD_NEED_POLLING" "cb = Query_result_cb \<longrightarrow> is_long_cmd x" and w: "with_device (inflight s) c"
    using device_okD [OF i(3) m] x by auto
  have a: "awaits_cqe (answered cb r x) False"
    using x' ok by (cases cb) (auto simp: awaits_cqe_def answered_def unfinished_def)
  have t: "\<not> awaits_tid x True" by (simp add: awaits_tid_def)
  have "queues_ok D P ((ctxs s)(c \<mapsto> answered cb r x)) ?l (cmd_queue s) (cq_queue s) (tid_queue s) (err_queue s)"
    by (rule queues_ok_upd [OF i(1) x]) (use with_device_done a t w awaits_unfinished(1) [OF a] in auto)
  moreover have "query_ok (tid_query_ctx \<in> set (queued s) \<union> P) (with_device ?l tid_query_ctx) (cplt_tid_query_state s)"
    using i(4) with_device_done(1) [of c "inflight s"] with_device_done(2) [of tid_query_ctx c "inflight s"] unfolding query_ok_def by (cases "c = tid_query_ctx") auto
  ultimately show ?thesis
    using i ctxs_ok_upd [OF i(2) x answered_same] device_ok_done [OF i(3)] calls_ok_upd [OF i(5) x]
    by (simp add: session_inv_def queued_def)
qed

lemma safely_ctx_of: "ctxs s c = Some x \<Longrightarrow> safely I (ctx_of c) s Q = Q x s"
  by (simp add: safely_def ctx_of_def)

lemma safely_ctx_write: "ctxs s c = Some x \<Longrightarrow> safely I (ctx_write c f) s Q = Q () (s\<lparr>ctxs := (ctxs s)(c \<mapsto> f x)\<rparr>)"
  by (simp add: ctx_write_def safely_ctx_of)

text \<open>
  The hypothesis on the device: it does not refuse a long command when that is submitted. A refusal
  comes as an error in the answer to the submission.
\<close>

definition accepts_long :: "comm_world \<Rightarrow> comm_env \<Rightarrow> bool" where
  "accepts_long w s \<longleftrightarrow> (\<forall>c q x. (c, Polling_cb, q) \<in> set (inflight s) \<longrightarrow> ctxs s c = Some x \<longrightarrow> is_long_cmd x \<longrightarrow>
     cw_cqe w s c \<noteq> Some CMD_CQE_ERROR)"

text \<open>
  The hypothesis on the scheduling: a waiting thread does not return in the gap between the mark and the signal.
\<close>

definition signals_first :: "comm_world \<Rightarrow> bool" where
  "signals_first w \<longleftrightarrow> (\<forall>s c. \<not> cw_returns_early w s c)"

definition same_queues :: "comm_env \<Rightarrow> comm_env \<Rightarrow> bool" where
  "same_queues s s' \<longleftrightarrow> cmd_queue s' = cmd_queue s \<and> cq_queue s' = cq_queue s \<and> tid_queue s' = tid_queue s \<and> err_queue s' = err_queue s"

lemma callback_run:
  assumes "ctxs s c = Some x"
  shows "safely I (case cb of Polling_cb \<Rightarrow> comm_session_polling_thread_callback r c
           | Query_result_cb \<Rightarrow> polling_thread_query_result_callback r c) s Q =
         Q () (s\<lparr>ctxs := (ctxs s)(c \<mapsto> answered cb r x)\<rparr>)"
  using assms
  by (cases cb) (simp_all add: comm_session_polling_thread_callback_def polling_thread_query_result_callback_def safely_ctx_write answered_def)

lemma run_callbacks_inv:
  assumes "session_inv D P (s\<lparr>inflight := L\<rparr>)" "distinct (map fst ds)"
    and "\<And>c cb r. (c, cb, r) \<in> set ds \<Longrightarrow> (\<exists>q. (c, cb, q) \<in> set L) \<and> (\<forall>x. ctxs s c = Some x \<longrightarrow> cb = Polling_cb \<longrightarrow> is_long_cmd x \<longrightarrow> r \<noteq> CMD_CQE_ERROR)"
  shows "safely I (run_callbacks w ds) s (\<lambda>_ s'. session_inv D P (s'\<lparr>inflight := filter (\<lambda>e. fst e \<notin> fst ` set ds) L\<rparr>) \<and>
           same_queues s s' \<and> inflight s' = inflight s)"
  using assms
proof (induction ds arbitrary: s L)
  case Nil
  then show ?case by (simp add: same_queues_def)
next
  case (Cons d ds)
  obtain c cb r where d: "d = (c, cb, r)" by (cases d) auto
  obtain q where q: "(c, cb, q) \<in> set L" using Cons.prems(3) d by fastforce
  obtain x where x: "ctxs s c = Some x"
    using session_invD(3) [OF Cons.prems(1)] q by (auto elim: device_okD)
  have ok: "cb = Polling_cb \<Longrightarrow> is_long_cmd x \<Longrightarrow> r \<noteq> CMD_CQE_ERROR" using Cons.prems(3) d x by fastforce
  let ?L = "filter (\<lambda>e. fst e \<noteq> c) L"
  have step: "safely I (run_callbacks w ds) s1 (\<lambda>_ s'. session_inv D P (s'\<lparr>inflight := filter (\<lambda>e. fst e \<notin> fst ` set (d # ds)) L\<rparr>) \<and>
           same_queues s s' \<and> inflight s' = inflight s)"
    if s1: "s1 = s\<lparr>cplt_tid_buffer := b, ctxs := (ctxs s)(c \<mapsto> answered cb r x)\<rparr>" for s1 b
  proof -
    have i: "session_inv D P (s1\<lparr>inflight := ?L\<rparr>)"
      using inv_answered [OF Cons.prems(1), of c cb q x r b] q x ok s1 by (simp add: session_inv_def queued_def)
    have h: "(\<exists>q. (c', cb', q) \<in> set ?L) \<and> (\<forall>y. ctxs s1 c' = Some y \<longrightarrow> cb' = Polling_cb \<longrightarrow> is_long_cmd y \<longrightarrow> r' \<noteq> CMD_CQE_ERROR)"
      if m: "(c', cb', r') \<in> set ds" for c' cb' r'
    proof -
      have "c' \<noteq> c" using Cons.prems(2) d m by force
      then show ?thesis using Cons.prems(3) [of c' cb' r'] m s1 by auto
    qed
    have f: "filter (\<lambda>e. fst e \<notin> fst ` set ds) ?L = filter (\<lambda>e. fst e \<notin> fst ` set (d # ds)) L"
      using d by (auto intro: filter_cong)
    show ?thesis
      using safely_mono [OF Cons.IH [OF i _ h]] Cons.prems(2) s1 unfolding f by (simp add: same_queues_def d)
  qed
  show ?case
  proof (cases "c = tid_query_ctx \<and> r = CMD_CQE_SUCCESS")
    case True
    have "ctxs (s\<lparr>cplt_tid_buffer := cw_tids w s\<rparr>) c = Some x" using x by simp
    from callback_run [OF this] show ?thesis
      unfolding d run_callbacks.simps(2) if_P [OF True] safely_bnd safely_modify
      using step [OF refl, of "cw_tids w s"] by (simp add: d)
  next
    case False
    show ?thesis
      unfolding d run_callbacks.simps(2) if_not_P [OF False] safely_bnd safely_ret callback_run [OF x]
      using step [OF refl, of "cplt_tid_buffer s"] by (simp add: d)
  qed
qed

lemma poll_queue_inv:
  assumes s: "session_inv D P s" and w: "accepts_long w s"
  shows "safely I (poll_queue w qpair) s (\<lambda>ok s'. session_inv D P s' \<and> same_queues s s' \<and> (\<not> ok \<longrightarrow> s' = s))"
proof (cases "cw_poll_fails w s")
  case True
  then show ?thesis using s by (simp add: poll_queue_def same_queues_def)
next
  case False
  let ?ds = "completed_of w qpair s"
  let ?f = "\<lambda>(c, cb, q). \<not> (q = qpair \<and> cw_cqe w s c \<noteq> None)"
  let ?s = "s\<lparr>inflight := filter ?f (inflight s)\<rparr>"
  have di: "distinct (map fst (inflight s))" using session_invD(3) [OF s] by (simp add: device_ok_def)
  have ds: "map fst ?ds = map fst (filter (\<lambda>e. \<not> ?f e) (inflight s))"
  proof -
    have "map fst [(c, cb, the (cw_cqe w s c)). (c, cb, q) \<leftarrow> l, q = qpair \<and> cw_cqe w s c \<noteq> None] =
        map fst (filter (\<lambda>e. \<not> ?f e) l)" for l
    proof (induction l)
      case (Cons e l)
      then show ?case by (cases "cw_cqe w s (fst e)"; cases e) simp_all
    qed simp
    then show ?thesis unfolding completed_of_def by blast
  qed
  have "distinct (map fst ?ds)" using ds distinct_map_filter [OF di] by simp
  moreover have "(\<exists>q. (c, cb, q) \<in> set (inflight s)) \<and> (\<forall>x. ctxs ?s c = Some x \<longrightarrow> cb = Polling_cb \<longrightarrow> is_long_cmd x \<longrightarrow> r \<noteq> CMD_CQE_ERROR)"
    if "(c, cb, r) \<in> set ?ds" for c cb r
    using that w by (auto simp: completed_of_def accepts_long_def)
  moreover have "session_inv D P (?s\<lparr>inflight := inflight s\<rparr>)" using s by simp
  ultimately have run: "safely I (run_callbacks w ?ds) ?s (\<lambda>_ s'. session_inv D P (s'\<lparr>inflight := filter (\<lambda>e. fst e \<notin> fst ` set ?ds) (inflight s)\<rparr>) \<and>
           same_queues ?s s' \<and> inflight s' = inflight ?s)"
    by (intro run_callbacks_inv) auto
  have fs: "fst ` set ?ds = fst ` set (filter (\<lambda>e. \<not> ?f e) (inflight s))"
    using arg_cong [OF ds, of set] by simp
  have "filter (\<lambda>e. fst e \<notin> fst ` set ?ds) (inflight s) = filter ?f (inflight s)"
  proof (rule filter_cong [OF refl])
    fix e assume e: "e \<in> set (inflight s)"
    have "fst e \<in> fst ` set (filter (\<lambda>e. \<not> ?f e) (inflight s)) \<longleftrightarrow> \<not> ?f e"
      using e di by (force simp: distinct_map inj_on_def)
    then show "(fst e \<notin> fst ` set ?ds) = ?f e" unfolding fs by blast
  qed
  then have l: "filter (\<lambda>e. fst e \<notin> fst ` set ?ds) (inflight s) = inflight ?s" by simp
  have same: "same_queues s s'" if "same_queues ?s s'" for s' using that by (simp add: same_queues_def)
  have inv: "session_inv D P s'" if "session_inv D P (s'\<lparr>inflight := filter (\<lambda>e. fst e \<notin> fst ` set ?ds) (inflight s)\<rparr>)" "inflight s' = inflight ?s" for s'
    using that(1) unfolding l that(2) [symmetric] by simp
  have "safely I (run_callbacks w ?ds) ?s (\<lambda>_ s'. session_inv D P s' \<and> same_queues s s')"
    by (rule safely_mono [OF run]) (use same inv in blast)
  then show ?thesis using False by (simp add: poll_queue_def)
qed

section \<open>Completed commands\<close>

lemma inv_freed:
  assumes s: "session_inv D P s" and c: "c \<in> P" "c \<noteq> tid_query_ctx" and x: "ctxs s c = Some x" and d: "\<not> with_device (inflight s) c"
    and n: "length cnt = length (channel_use_cnt s)"
  shows "session_inv D (P - {c}) (s\<lparr>upper_calls := upper_calls s @ [(c, r)], channel_use_cnt := cnt, ctxs := (ctxs s)(c := None)\<rparr>)"
proof -
  note i = session_invD [OF s]
  have nq: "c \<notin> set (cmd_queue s @ cq_queue s @ tid_queue s @ err_queue s)"
    using queued_ctx(4) [OF s c(1)] by (simp add: queued_def)
  have "calls_ok ((ctxs s)(c := None)) (upper_calls s @ [(c, r)])"
    using i(5) x unfolding calls_ok_def by auto
  then show ?thesis
    using i queues_ok_drop [OF i(1) nq] ctxs_ok_remove [OF i(2) c(2)] device_ok_upd [OF i(3) d] n c(2)
    by (simp add: session_inv_def queued_def query_ok_def)
qed

lemma inv_query_answered:
  assumes s: "session_inv D P s" and c: "tid_query_ctx \<in> P" and d: "\<not> with_device (inflight s) tid_query_ctx" and q: "q \<noteq> CPLT_TID_POLL_RUNNING"
  shows "session_inv D (P - {tid_query_ctx}) (s\<lparr>cplt_tid_query_state := q\<rparr>)"
proof -
  note i = session_invD [OF s]
  have nq: "tid_query_ctx \<notin> set (cmd_queue s @ cq_queue s @ tid_queue s @ err_queue s)"
    using queued_ctx(4) [OF s c(1)] by (simp add: queued_def)
  have "queues_ok D (P - {tid_query_ctx}) (ctxs s) (inflight s) (cmd_queue s) (cq_queue s) (tid_queue s) (err_queue s)"
    using queues_ok_drop [OF i(1) nq, of "ctxs s tid_query_ctx"] by simp
  then show ?thesis using i d q nq by (simp add: session_inv_def queued_def query_ok_def)
qed

lemma inv_flagged:
  assumes s: "session_inv D P s" and c: "c \<in> P" "c \<noteq> tid_query_ctx" and x: "ctxs s c = Some x" and d: "\<not> with_device (inflight s) c"
    and y: "same_cmd x y"
  shows "session_inv D (P - {c}) (s\<lparr>ctxs := (ctxs s)(c \<mapsto> y)\<rparr>)"
proof -
  note i = session_invD [OF s]
  have nq: "c \<notin> set (cmd_queue s @ cq_queue s @ tid_queue s @ err_queue s)"
    using queued_ctx(4) [OF s c(1)] by (simp add: queued_def)
  show ?thesis
    using i queues_ok_drop [OF i(1) nq] ctxs_ok_upd [OF i(2) x y] device_ok_upd [OF i(3) d] calls_ok_upd [OF i(5) x] c(2)
    by (simp add: session_inv_def queued_def query_ok_def)
qed

lemma safely_insert_tail:
  assumes "ctxs s c \<noteq> None" "c \<notin> set (queued s)"
  shows "safely I (insert_tail cmd_queue_update c) s Q = Q () (s\<lparr>cmd_queue := cmd_queue s @ [c]\<rparr>)"
    "safely I (insert_tail cq_queue_update c) s Q = Q () (s\<lparr>cq_queue := cq_queue s @ [c]\<rparr>)"
    "safely I (insert_tail tid_queue_update c) s Q = Q () (s\<lparr>tid_queue := tid_queue s @ [c]\<rparr>)"
    "safely I (insert_tail err_queue_update c) s Q = Q () (s\<lparr>err_queue := err_queue s @ [c]\<rparr>)"
  using assms by (cases s; auto simp: safely_def insert_tail_def)+

lemma safely_queue_remove:
  assumes "ctxs s c \<noteq> None"
  shows "c \<in> set (cq_queue s) \<Longrightarrow> safely I (queue_remove cq_queue cq_queue_update c) s Q = Q () (s\<lparr>cq_queue := remove1 c (cq_queue s)\<rparr>)"
    "c \<in> set (tid_queue s) \<Longrightarrow> safely I (queue_remove tid_queue tid_queue_update c) s Q = Q () (s\<lparr>tid_queue := remove1 c (tid_queue s)\<rparr>)"
  using assms by (cases s; auto simp: safely_def queue_remove_def)+

lemma safely_channel_release:
  "i < length (channel_use_cnt s) \<Longrightarrow>
    safely I (comm_channel_release i) s Q = Q () (s\<lparr>channel_use_cnt := (channel_use_cnt s)[i := channel_use_cnt s ! i - 1]\<rparr>)"
  by (simp add: safely_def comm_channel_release_def channel_release_def)

definition process_done :: "comm_world \<Rightarrow> nat set \<Rightarrow> nat set \<Rightarrow> nat \<Rightarrow> comm_env \<Rightarrow> bool \<Rightarrow> comm_env \<Rightarrow> bool" where
  "process_done w D P c s busy s' \<longleftrightarrow> (if busy then s' = s \<and> \<not> never_busy w else session_inv D (P - {c}) s') \<and>
     cmd_queue s' = cmd_queue s \<and> cq_queue s' = cq_queue s \<and> tid_queue s' = tid_queue s \<and> set (err_queue s') \<subseteq> insert c (set (err_queue s))"

lemma process_cplt_cmd_inv:
  assumes s: "session_inv D P s" and c: "c \<in> P" and x: "ctxs s c = Some x" and d: "\<not> with_device (inflight s) c"
    and e: "signals_first w"
  shows "safely I (polling_thread_process_cplt_cmd w c) s (process_done w D P c s)"
proof -
  have ok: "ctx_ok (length (channel_use_cnt s)) c x" using session_invD(2) [OF s] x by (simp add: ctxs_ok_def)
  note nq = queued_ctx(4) [OF s c]
  show ?thesis
  proof (cases "cmd_sync_type x")
    case (SESSION_ASYNC_CMD cb owned)
    show ?thesis
    proof (cases "c = tid_query_ctx")
      case True
      then have "cb = Tid_query_cb" "\<not> owned" using ok SESSION_ASYNC_CMD by (auto simp: ctx_ok_def)
      then show ?thesis
        using inv_query_answered [OF s, of CPLT_TID_POLL_ERROR] inv_query_answered [OF s, of CPLT_TID_POLL_FINISHED] True c d x SESSION_ASYNC_CMD
        by (simp add: polling_thread_process_cplt_cmd_def safely_ctx_of [OF x [unfolded True]] call_upper_def process_done_def subset_insertI)
    next
      case False
      then have o: "cb = Upper_cb" "owned" "cc_channel x < length (channel_use_cnt s)" using ok SESSION_ASYNC_CMD by (auto simp: ctx_ok_def)
      then show ?thesis
        using inv_freed [OF s c False x d, of "(channel_use_cnt s)[cc_channel x := channel_use_cnt s ! cc_channel x - 1]" "cmd_result x"] SESSION_ASYNC_CMD
        by (simp add: polling_thread_process_cplt_cmd_def safely_ctx_of [OF x] call_upper_def process_done_def safely_channel_release free_ctx_def subset_insertI)
    qed
  next
    case (SESSION_SYNC_CMD f)
    then have n: "c \<noteq> tid_query_ctx" using ok by (auto simp: ctx_ok_def)
    have y: "same_cmd x (x\<lparr>cmd_sync_type := SESSION_SYNC_CMD True\<rparr>)" using SESSION_SYNC_CMD by (auto simp: same_cmd_def)
    show ?thesis
      using inv_flagged [OF s c n x d y] attach(3) [OF s c] SESSION_SYNC_CMD x nq e
      by (cases "cw_wait_lock w s c")
        (auto simp: polling_thread_process_cplt_cmd_def safely_ctx_of safely_ctx_write safely_insert_tail process_done_def fun_upd_def never_busy_def
          signals_first_def cond_broadcast_def)
  qed
qed

text \<open>What a step does to the queue of its loop, and that no context comes to the queues.\<close>

definition stepped :: "comm_world \<Rightarrow> nat set \<Rightarrow> nat set \<Rightarrow> (comm_env \<Rightarrow> nat list) \<Rightarrow> nat \<Rightarrow> comm_env \<Rightarrow> comm_env \<Rightarrow> bool" where
  "stepped w D P q c s s' \<longleftrightarrow> session_inv D P s' \<and> moved w c (q s) (q s') \<and> set (queued s') \<subseteq> set (queued s)"

text \<open>A command in the first queue that was answered.\<close>

definition answered_state :: "comm_session_cmd_state \<Rightarrow> bool" where
  "answered_state q \<longleftrightarrow> q \<in> {SESSION_CMD_RECEIVED_CQE, SESSION_CMD_TID_CPLT_QUERY}"

lemma received_CQE_inv:
  assumes s: "session_inv D P s" and c: "c \<in> set (cq_queue s)" and x: "ctxs s c = Some x" and a: "answered_state (cmd_session_state x)"
    and e: "signals_first w"
  shows "safely I (polling_thread_process_cmd_received_CQE w c) s (\<lambda>_. stepped w D P cq_queue c s)"
proof -
  have cqe: "awaits_cqe x (with_device (inflight s) c)" using queued_ctx(1) [OF s c] x by (simp add: ctx_is_def)
  then have d: "\<not> with_device (inflight s) c" using a by (auto simp: awaits_cqe_def answered_state_def)
  have cp: "c \<notin> P" using queued_ctx(4) [OF s] c by (auto simp: queued_def)
  then have P: "insert c P - {c} = P" by auto
  let ?s = "s\<lparr>cq_queue := remove1 c (cq_queue s)\<rparr>"
  have s1: "session_inv D (insert c P) ?s" using detach(1) [OF s c] .
  have x1: "ctxs ?s c = Some x" "\<not> with_device (inflight ?s) c" using x d by simp_all
  have sub: "set (remove1 c (cq_queue s)) \<subseteq> set (cq_queue s)" by (rule set_remove1_subset)
  note nq = queued_ctx(4) [OF s1, of c, simplified]
  show ?thesis
  proof (cases "is_long_cmd x")
    case False
    have cont: "safely I (if busy then insert_tail cq_queue_update c else ret ()) s' (\<lambda>_. stepped w D P cq_queue c s)"
      if "process_done w D (insert c P) c ?s busy s'" for busy s'
      using that attach(1) [OF s1, of c] x d cqe P nq sub c
      by (cases busy) (auto simp: process_done_def safely_insert_tail ctx_is_def stepped_def queued_def moved_def)
    show ?thesis
      using safely_mono [OF process_cplt_cmd_inv [OF s1 insertI1 x1 e] cont] False x c
      by (simp add: polling_thread_process_cmd_received_CQE_def safely_queue_remove safely_ctx_of)
  next
    case True
    then have r: "cmd_result x \<noteq> COMM_CMD_CQE_ERROR" using cqe a by (auto simp: awaits_cqe_def answered_state_def)
    let ?y = "if cmd_session_state x = SESSION_CMD_RECEIVED_CQE then x\<lparr>cmd_session_state := SESSION_CMD_TID_WAIT_QUERY\<rparr> else x"
    let ?s2 = "?s\<lparr>ctxs := (ctxs s)(c \<mapsto> ?y)\<rparr>"
    have t: "awaits_tid ?y False" using a True cqe by (auto simp: awaits_tid_def awaits_cqe_def answered_state_def unfinished_def)
    have y: "same_cmd x ?y" by (simp add: same_cmd_def split: comm_session_cmd_sync_attr.split)
    have "session_inv (insert c D) (insert c P) (?s\<lparr>ctxs := (ctxs ?s)(c \<mapsto> ?y)\<rparr>)"
      by (rule inv_upd_pending [OF session_inv_moving(1) [OF s1] _ x1 y]) (use t in auto)
    then have s2: "session_inv (insert c D) (insert c P) ?s2" by simp
    have "ctx_is (ctxs ?s2) (inflight ?s2) awaits_tid c" using t d by (simp add: ctx_is_def)
    from attach(2) [OF s2 _ this] P session_inv_moving(2) [OF _ cp] have s3: "session_inv D P (?s2\<lparr>tid_queue := tid_queue s @ [c]\<rparr>)" by simp
    have nq2: "c \<notin> set (queued ?s2)" using queued_ctx(4) [OF s2, of c] by simp
    show ?thesis
      using True r x c s3 nq2 nq sub
      by (cases "cmd_session_state x = SESSION_CMD_RECEIVED_CQE")
        (auto simp: polling_thread_process_cmd_received_CQE_def safely_queue_remove safely_ctx_of safely_ctx_write safely_insert_tail fun_upd_idem
          stepped_def queued_def)
  qed
qed

section \<open>The first queue\<close>

lemma move_to_err_inv:
  assumes s: "session_inv D P s"
  shows "c \<in> set (cq_queue s) \<Longrightarrow> safely I (move_to_err cq_queue cq_queue_update c) s
      (\<lambda>_ s'. session_inv D P s' \<and> s' = s\<lparr>cq_queue := remove1 c (cq_queue s), err_queue := err_queue s @ [c]\<rparr>)"
    "c \<in> set (tid_queue s) \<Longrightarrow> safely I (move_to_err tid_queue tid_queue_update c) s
      (\<lambda>_ s'. session_inv D P s' \<and> s' = s\<lparr>tid_queue := remove1 c (tid_queue s), err_queue := err_queue s @ [c]\<rparr>)"
proof -
  have P: "insert c P - {c} = P" if "c \<in> set (queued s)" using queued_ctx(4) [OF s, of c] that by auto
  show "safely I (move_to_err cq_queue cq_queue_update c) s
      (\<lambda>_ s'. session_inv D P s' \<and> s' = s\<lparr>cq_queue := remove1 c (cq_queue s), err_queue := err_queue s @ [c]\<rparr>)" if c: "c \<in> set (cq_queue s)"
  proof -
    note d = detach(1) [OF s c]
    have x: "ctxs s c \<noteq> None" using queued_ctx(1) [OF s c] by (auto elim: ctx_isE)
    show ?thesis using attach(3) [OF d insertI1] P c x queued_ctx(4) [OF d insertI1]
      by (simp add: move_to_err_def safely_queue_remove safely_insert_tail queued_def)
  qed
  show "safely I (move_to_err tid_queue tid_queue_update c) s
      (\<lambda>_ s'. session_inv D P s' \<and> s' = s\<lparr>tid_queue := remove1 c (tid_queue s), err_queue := err_queue s @ [c]\<rparr>)" if c: "c \<in> set (tid_queue s)"
  proof -
    note d = detach(2) [OF session_inv_moving(1) [OF s] c insertI1]
    have cp: "c \<notin> P" using queued_ctx(4) [OF s, of c] c by (auto simp: queued_def)
    have x: "ctxs s c \<noteq> None" using queued_ctx(2) [OF s c] by (auto elim: ctx_isE)
    show ?thesis using session_inv_moving(2) [OF _ cp] attach(3) [OF d insertI1] P c x queued_ctx(4) [OF d insertI1]
      by (simp add: move_to_err_def safely_queue_remove safely_insert_tail queued_def)
  qed
qed

definition polled :: "nat set \<Rightarrow> nat set \<Rightarrow> nat \<Rightarrow> comm_env \<Rightarrow> comm_env \<Rightarrow> bool" where
  "polled D P c s s' \<longleftrightarrow> session_inv D P s' \<and> set (queued s') \<subseteq> set (queued s) \<and>
     (\<exists>x. ctxs s' c = Some x \<and>
        (cq_queue s' = cq_queue s \<or> (\<not> answered_state (cmd_session_state x) \<and> cq_queue s' = remove1 c (cq_queue s))))"

lemma poll_for_cmd_inv:
  assumes s: "session_inv D P s" and c: "c \<in> set (cq_queue s)" and x: "ctxs s c = Some x" and n: "cmd_session_state x = SESSION_CMD_NEED_POLLING"
    and w: "accepts_long w s"
  shows "safely I (poll_for_cmd w c x) s (\<lambda>_. polled D P c s)"
proof -
  have keep: "polled D P c s s'" if i: "session_inv D P s'" and q: "same_queues s s'" for s'
  proof -
    have "c \<in> set (cq_queue s')" using q c by (simp add: same_queues_def)
    then obtain y where "ctxs s' c = Some y" using queued_ctx(1) [OF i] by (auto elim: ctx_isE)
    then show ?thesis using i q by (simp add: polled_def same_queues_def queued_def)
  qed
  have sub: "set (remove1 c (cq_queue s)) \<subseteq> set (cq_queue s)" by (rule set_remove1_subset)
  have err: "safely I (move_to_err cq_queue cq_queue_update c) s (\<lambda>_. polled D P c s)"
    by (rule safely_mono [OF move_to_err_inv(1) [OF s c]])
      (use x n c sub in \<open>auto simp: polled_def answered_state_def queued_def\<close>)
  have p: "safely I (bnd (poll_queue w q) (\<lambda>ok. if ok then ret () else move_to_err cq_queue cq_queue_update c)) s (\<lambda>_. polled D P c s)" for q
    unfolding safely_bnd by (rule safely_mono [OF poll_queue_inv [OF s w]]) (use keep err in auto)
  have k: "polled D P c s s" using keep [OF s] by (simp add: same_queues_def)
  show ?thesis
    using p [of None] p [of "Some (cc_channel x)"] err k
    by (cases "cw_channel_lock w s (cc_channel x)") (simp_all add: poll_for_cmd_def Let_def)
qed

lemma process_cq_cmd_inv:
  assumes s: "session_inv D P s" and c: "c \<in> set (cq_queue s)" and w: "\<And>s. accepts_long w s" and e: "signals_first w"
  shows "safely I (process_cq_cmd w c) s (\<lambda>_. stepped w D P cq_queue c s)"
proof -
  obtain x where x: "ctxs s c = Some x" using queued_ctx(1) [OF s c] by (auto elim: ctx_isE)
  have after: "safely I (bnd (ctx_of c) (\<lambda>cmd. if answered_state (cmd_session_state cmd)
        then polling_thread_process_cmd_received_CQE w c else ret ())) s' (\<lambda>_. stepped w D P cq_queue c s)"
    if pd: "polled D P c s s'" for s'
  proof -
    obtain y where y: "ctxs s' c = Some y"
        "cq_queue s' = cq_queue s \<or> (\<not> answered_state (cmd_session_state y) \<and> cq_queue s' = remove1 c (cq_queue s))"
      and p: "session_inv D P s'" "set (queued s') \<subseteq> set (queued s)"
      using pd unfolding polled_def by blast
    show ?thesis
    proof (cases "answered_state (cmd_session_state y)")
      case True
      then have q: "cq_queue s' = cq_queue s" using y(2) by blast
      have "safely I (polling_thread_process_cmd_received_CQE w c) s' (\<lambda>_. stepped w D P cq_queue c s)"
        by (rule safely_mono [OF received_CQE_inv [OF p(1) _ y(1) True e]]) (use p(2) q c in \<open>auto simp: stepped_def\<close>)
      then show ?thesis using True y(1) by (simp add: safely_ctx_of)
    qed (use p y in \<open>auto simp: safely_ctx_of stepped_def moved_def\<close>)
  qed
  show ?thesis
  proof (cases "cmd_session_state x = SESSION_CMD_NEED_POLLING")
    case True
    show ?thesis
      using safely_mono [OF poll_for_cmd_inv [OF s c x True w] after] True
      by (simp add: process_cq_cmd_def safely_ctx_of [OF x] answered_state_def)
  next
    case False
    then show ?thesis
      using received_CQE_inv [OF s c x _ e] s
      by (auto simp: process_cq_cmd_def safely_ctx_of [OF x] answered_state_def stepped_def)
  qed
qed

text \<open>The invariant of the loops: the contexts in the queues are among \<open>U\<close>.\<close>

definition loop_inv :: "nat set \<Rightarrow> nat set \<Rightarrow> nat set \<Rightarrow> comm_env \<Rightarrow> bool" where
  "loop_inv D P U s \<longleftrightarrow> session_inv D P s \<and> set (queued s) \<subseteq> U"

lemma loop_inv_distinct: "loop_inv D P U s \<Longrightarrow> distinct (cq_queue s)" "loop_inv D P U s \<Longrightarrow> distinct (tid_queue s)"
  using session_invD(6) by (auto simp: loop_inv_def queued_def)

lemma loop_inv_bound:
  assumes "loop_inv D P U s" "finite U"
  shows "length (cq_queue s) \<le> card U" "length (tid_queue s) \<le> card U"
proof -
  have "set (cq_queue s) \<subseteq> U" "set (tid_queue s) \<subseteq> U" using assms(1) by (auto simp: loop_inv_def queued_def)
  then show "length (cq_queue s) \<le> card U" "length (tid_queue s) \<le> card U"
    using assms(2) loop_inv_distinct [OF assms(1)] card_mono by (metis distinct_card)+
qed

lemma loop_step:
  assumes "\<And>I. session_inv D P s \<Longrightarrow> safely I m s (\<lambda>_. stepped w D P q c s)" "loop_inv D P U s"
  shows "safely I m s (\<lambda>_ s'. loop_inv D P U s' \<and> moved w c (q s) (q s'))"
  by (rule safely_mono [OF assms(1)]) (use assms(2) in \<open>auto simp: loop_inv_def stepped_def\<close>)

lemma loop_inv_runs:
  assumes step: "\<And>I c s. session_inv D P s \<Longrightarrow> c \<in> set (q s) \<Longrightarrow> safely I (body c) s (\<lambda>_. stepped w D P q c s)"
    and dist: "\<And>s. loop_inv D P U s \<Longrightarrow> distinct (q s)" and s: "loop_inv D P U s"
  shows "safely (loop_inv D P U) (foreach_safe q body n (queue_first (q s))) s (\<lambda>_. loop_inv D P U)"
    "never_busy w \<Longrightarrow> length (q s) \<le> n \<Longrightarrow> safely (\<lambda>_. False) (foreach_safe q body n (queue_first (q s))) s (\<lambda>_. loop_inv D P U)"
proof -
  show "safely (loop_inv D P U) (foreach_safe q body n (queue_first (q s))) s (\<lambda>_. loop_inv D P U)"
    by (rule foreach_safe_inv [where w = w, OF loop_step [OF step] dist s]) (auto simp: queue_first_def split: list.splits)
  show "safely (\<lambda>_. False) (foreach_safe q body n (queue_first (q s))) s (\<lambda>_. loop_inv D P U)" if "never_busy w" "length (q s) \<le> n"
    by (rule foreach_safe_ends [where w = w and pre = "[]", OF loop_step [OF step] dist that(1) s]) (use that(2) in auto)
qed

lemma process_cq_queue_inv:
  assumes s: "loop_inv D P U s" and w: "\<And>s. accepts_long w s" and e: "signals_first w"
  shows "safely (loop_inv D P U) (polling_thread_process_cq_queue w n) s (\<lambda>_. loop_inv D P U)"
    "never_busy w \<Longrightarrow> length (cq_queue s) \<le> n \<Longrightarrow> safely (\<lambda>_. False) (polling_thread_process_cq_queue w n) s (\<lambda>_. loop_inv D P U)"
  using loop_inv_runs [of D P cq_queue "process_cq_cmd w" w, OF process_cq_cmd_inv [OF _ _ w e] loop_inv_distinct(1) s]
  by (simp_all add: polling_thread_process_cq_queue_def)

section \<open>The queue of task ids\<close>

text \<open>The ids of waiting commands differ, so that one id finds at most one of them.\<close>

lemma match_cmds_inv:
  assumes s: "session_inv D P s" and cs: "set cs \<subseteq> set (tid_queue s)" "distinct cs"
    and m: "matched \<Longrightarrow> \<forall>c \<in> set cs. \<forall>x. ctxs s c = Some x \<longrightarrow> cc_tid x \<noteq> t"
  shows "safely I (match_cmds t cs matched) s (\<lambda>_ s'. session_inv D P s' \<and> same_queues s s')"
  using assms
proof (induction cs arbitrary: s matched)
  case Nil
  then show ?case by (simp add: same_queues_def)
next
  case (Cons c cs)
  have c: "c \<in> set (tid_queue s)" using Cons.prems(2) by simp
  obtain x where x: "ctxs s c = Some x" and a: "awaits_tid x (with_device (inflight s) c)" using queued_ctx(2) [OF Cons.prems(1) c] by (auto elim: ctx_isE)
  then have d: "\<not> with_device (inflight s) c" by (simp add: awaits_tid_def)
  show ?case
  proof (cases "cc_tid x = t \<and> cmd_session_state x = SESSION_CMD_TID_WAIT_QUERY")
    case False
    have "safely I (match_cmds t cs matched) s (\<lambda>_ s'. session_inv D P s' \<and> same_queues s s')"
      by (rule Cons.IH [OF Cons.prems(1)]) (use Cons.prems in auto)
    then show ?thesis using False by (auto simp: safely_ctx_of [OF x])
  next
    case True
    then have nm: "\<not> matched" using Cons.prems(4) x by auto
    let ?y = "x\<lparr>cmd_session_state := SESSION_CMD_TID_CAN_QUERY\<rparr>"
    let ?s = "s\<lparr>ctxs := (ctxs s)(c \<mapsto> ?y)\<rparr>"
    let ?s' = "?s\<lparr>cplt_tid_list := remove1 t (cplt_tid_list s)\<rparr>"
    have y: "same_cmd x ?y" by (simp add: same_cmd_def split: comm_session_cmd_sync_attr.split)
    have "session_inv D P ?s"
      by (rule inv_upd [OF Cons.prems(1) x d y]) (use a True in \<open>auto simp: awaits_tid_def awaits_cqe_def unfinished_def\<close>)
    then have s': "session_inv D P ?s'" by (simp add: session_inv_def queued_def)
    have "\<forall>e \<in> set cs. \<forall>z. ctxs ?s' e = Some z \<longrightarrow> cc_tid z \<noteq> t"
    proof (intro ballI allI impI notI)
      fix e z assume e: "e \<in> set cs" and z: "ctxs ?s' e = Some z" "cc_tid z = t"
      have ne: "e \<noteq> c" using e Cons.prems(3) by auto
      then have z': "ctxs s e = Some z" using z by simp
      have "is_long_cmd z" using queued_ctx(2) [OF Cons.prems(1), of e] e Cons.prems(2) z' by (auto simp: ctx_is_def awaits_tid_def)
      moreover have "is_long_cmd x" using a by (simp add: awaits_tid_def)
      ultimately show False using session_invD(2) [OF Cons.prems(1)] x z' z(2) ne True unfolding ctxs_ok_def by metis
    qed
    then have "safely I (match_cmds t cs True) ?s' (\<lambda>_ s''. session_inv D P s'' \<and> same_queues ?s' s'')"
      by (intro Cons.IH [OF s']) (use Cons.prems in auto)
    then show ?thesis using True nm by (simp add: safely_ctx_of [OF x] safely_ctx_write [OF x] same_queues_def)
  qed
qed

lemma match_tids_inv:
  "loop_inv D P U s \<Longrightarrow> safely I (match_tids ts) s (\<lambda>_. loop_inv D P U)"
proof (induction ts arbitrary: s)
  case Nil
  then show ?case by simp
next
  case (Cons t ts)
  have s: "session_inv D P s" using Cons.prems by (simp add: loop_inv_def)
  have "safely I (match_cmds t (tid_queue s) False) s (\<lambda>_ s'. session_inv D P s' \<and> same_queues s s')"
    by (rule match_cmds_inv [OF s]) (use loop_inv_distinct(2) [OF Cons.prems] in auto)
  moreover have "safely I (match_tids ts) s' (\<lambda>_. loop_inv D P U)" if "session_inv D P s'" "same_queues s s'" for s'
    by (rule Cons.IH) (use that Cons.prems in \<open>simp add: loop_inv_def same_queues_def queued_def\<close>)
  ultimately show ?case by (simp add: safely_mono)
qed

text \<open>A context whose command was just sent.\<close>

lemma queues_ok_new:
  assumes q: "queues_ok D P m l cmds cqs tids errs" and c: "c \<notin> set (cmds @ cqs @ tids @ errs)"
    and other: "\<And>d. d \<noteq> c \<Longrightarrow> with_device l' d = with_device l d"
    and y: "awaits_cqe y (with_device l' c)"
  shows "queues_ok D (insert c P) (m(c \<mapsto> y)) l' cmds cqs tids errs"
proof -
  have o: "ctx_is (m(c \<mapsto> y)) l' R d = ctx_is m l R d" if "d \<noteq> c" for d R
    using that by (intro ctx_is_other other) simp_all
  have n: "d \<noteq> c" if "d \<in> set cmds \<union> set cqs \<union> set tids \<union> set errs" for d
    using that c by auto
  have "ctx_is (m(c \<mapsto> y)) l' awaits_cqe c" using y by (simp add: ctx_is_def)
  then have "\<forall>d \<in> insert c P. ctx_is (m(c \<mapsto> y)) l' awaits_cqe d \<or> (d \<in> D \<and> ctx_is (m(c \<mapsto> y)) l' awaits_tid d)"
    using q o unfolding queues_ok_def by (metis insert_iff)
  then show ?thesis using q o n c unfolding queues_ok_def by auto
qed

lemma device_ok_sent:
  assumes "device_ok m l" "\<not> with_device l c" "unfinished y" "cmd_session_state y = SESSION_CMD_NEED_POLLING" "cb = Query_result_cb \<longrightarrow> is_long_cmd y"
  shows "device_ok (m(c \<mapsto> y)) (l @ [(c, cb, q)])"
  using device_ok_upd [OF assms(1,2), of "Some y"] assms unfolding device_ok_def with_device_def by auto

lemma with_device_sent:
  "with_device (l @ [(c, cb, q)]) c" "d \<noteq> c \<Longrightarrow> with_device (l @ [(c, cb, q)]) d = with_device l d"
  by (auto simp: with_device_def)

lemma sent_awaits: "unfinished y \<Longrightarrow> cmd_session_state y = SESSION_CMD_NEED_POLLING \<Longrightarrow> awaits_cqe y True"
  by (simp add: awaits_cqe_def)

lemma safely_send:
  "safely I (send_cmd w c cb q) s Q = (if cw_send_ok w s then Q True (s\<lparr>inflight := inflight s @ [(c, cb, q)]\<rparr>) else Q False s)"
  by (simp add: safely_def send_cmd_def)

lemma send_query_result_inv:
  assumes s: "session_inv D P s" and c: "c \<in> set (tid_queue s)" and x: "ctxs s c = Some x"
  shows "safely I (polling_thread_send_query_result_cmd w c) s (\<lambda>_. stepped w D P tid_queue c s)"
proof (cases "cw_send_ok w s")
  case False
  have "safely I (move_to_err tid_queue tid_queue_update c) s (\<lambda>_. stepped w D P tid_queue c s)"
    by (rule safely_mono [OF move_to_err_inv(2) [OF s c]]) (use c set_remove1_subset [of c "tid_queue s"] in \<open>auto simp: stepped_def queued_def\<close>)
  then show ?thesis using False by (simp add: polling_thread_send_query_result_cmd_def safely_send)
next
  case True
  note i = session_invD [OF s]
  have a: "awaits_tid x (with_device (inflight s) c)" using queued_ctx(2) [OF s c] x by (simp add: ctx_is_def)
  then have d: "\<not> with_device (inflight s) c" and u: "unfinished x" "is_long_cmd x" by (simp_all add: awaits_tid_def)
  let ?y = "x\<lparr>cmd_session_state := SESSION_CMD_NEED_POLLING\<rparr>"
  let ?l = "inflight s @ [(c, Query_result_cb, None)]"
  let ?s = "s\<lparr>inflight := ?l, ctxs := (ctxs s)(c \<mapsto> ?y), tid_queue := remove1 c (tid_queue s), cq_queue := cq_queue s @ [c]\<rparr>"
  have u': "unfinished ?y" "cmd_session_state ?y = SESSION_CMD_NEED_POLLING" "is_long_cmd ?y" using u by (simp_all add: unfinished_def)
  have y: "same_cmd x ?y" by (simp add: same_cmd_def split: comm_session_cmd_sync_attr.split)
  have nP: "c \<notin> P" using queued_ctx(4) [OF s] c by (auto simp: queued_def)
  have n: "c \<noteq> tid_query_ctx" using i(2) x u(2) by (auto simp: ctxs_ok_def ctx_ok_def)
  have q1: "queues_ok (insert c D) (insert c P) ((ctxs s)(c \<mapsto> ?y)) ?l (cmd_queue s) (cq_queue s) (remove1 c (tid_queue s)) (err_queue s)"
    by (rule queues_ok_upd_pending [OF queues_ok_detach(2) [OF queues_ok_moving(1) [OF i(1)] c insertI1]]) (use with_device_sent sent_awaits [OF u'(1,2)] in auto)
  have "ctx_is ((ctxs s)(c \<mapsto> ?y)) ?l awaits_cqe c" using sent_awaits [OF u'(1,2)] with_device_sent(1) by (simp add: ctx_is_def)
  from queues_ok_attach(1) [OF q1 insertI1 this] nP queues_ok_moving(2) [OF _ nP]
  have q2: "queues_ok D P ((ctxs s)(c \<mapsto> ?y)) ?l (cmd_queue s) (cq_queue s @ [c]) (remove1 c (tid_queue s)) (err_queue s)"
    by simp
  have "query_ok (tid_query_ctx \<in> set (queued ?s) \<union> P) (with_device ?l tid_query_ctx) (cplt_tid_query_state s)"
    using i(4) n with_device_sent(2) [of tid_query_ctx c] by (auto simp: query_ok_def queued_def)
  then have s': "session_inv D P ?s"
    using i q2 ctxs_ok_upd [OF i(2) x y] device_ok_sent [OF i(3) d u'(1,2)] u'(3) calls_ok_upd [OF i(5) x] by (simp add: session_inv_def)
  have nq: "c \<notin> set (remove1 c (tid_queue s))" "c \<notin> set (cmd_queue s)" "c \<notin> set (cq_queue s)" "c \<notin> set (err_queue s)"
    using i(6) c by (auto simp: queued_def)
  show ?thesis
    using True s' c nq x set_remove1_subset [of c "tid_queue s"]
    by (auto simp: polling_thread_send_query_result_cmd_def safely_send
        safely_ctx_write safely_queue_remove safely_insert_tail queued_def stepped_def)
qed

lemma process_tid_cmd_inv:
  assumes s: "session_inv D P s" and c: "c \<in> set (tid_queue s)" and e: "signals_first w"
  shows "safely I (process_tid_cmd w c) s (\<lambda>_. stepped w D P tid_queue c s)"
proof -
  obtain x where x: "ctxs s c = Some x" and a: "awaits_tid x (with_device (inflight s) c)" using queued_ctx(2) [OF s c] by (auto elim: ctx_isE)
  then have d: "\<not> with_device (inflight s) c" by (simp add: awaits_tid_def)
  let ?s = "s\<lparr>tid_queue := remove1 c (tid_queue s)\<rparr>"
  have s1: "session_inv (insert c D) (insert c P) ?s" using detach(2) [OF session_inv_moving(1) [OF s] c insertI1] .
  have cp: "c \<notin> P" using queued_ctx(4) [OF s, of c] c by (auto simp: queued_def)
  have P: "insert c P - {c} = P" using queued_ctx(4) [OF s] c by (auto simp: queued_def)
  have x1: "ctxs ?s c = Some x" "\<not> with_device (inflight ?s) c" using x d by simp_all
  note nq = queued_ctx(4) [OF s1 insertI1]
  have cont: "safely I (if busy then insert_tail tid_queue_update c else ret ()) s' (\<lambda>_. stepped w D P tid_queue c s)"
    if "process_done w (insert c D) (insert c P) c ?s busy s'" for busy s'
    using that session_inv_moving(2) [OF _ cp] attach(2) [OF s1 insertI1] x d a P nq c set_remove1_subset [of c "tid_queue s"]
    by (cases busy) (auto simp: process_done_def safely_insert_tail ctx_is_def stepped_def queued_def moved_def)
  show ?thesis
    using safely_mono [OF process_cplt_cmd_inv [OF s1 insertI1 x1 e] cont] send_query_result_inv [OF s c x] c x s
    by (auto simp: process_tid_cmd_def safely_ctx_of safely_queue_remove stepped_def)
qed

lemma process_tid_queue_inv:
  assumes s: "loop_inv D P U s" and e: "signals_first w"
  shows "safely (loop_inv D P U) (polling_thread_process_tid_queue w n) s (\<lambda>_. loop_inv D P U)"
    "never_busy w \<Longrightarrow> finite U \<Longrightarrow> card U \<le> n \<Longrightarrow> safely (\<lambda>_. False) (polling_thread_process_tid_queue w n) s (\<lambda>_. loop_inv D P U)"
proof -
  have l1: "safely (loop_inv D P U) (foreach_safe tid_queue (process_tid_cmd w) n (queue_first (tid_queue s))) s (\<lambda>_. loop_inv D P U)"
    if "loop_inv D P U s" for s
    using loop_inv_runs(1) [of D P tid_queue "process_tid_cmd w" w, OF process_tid_cmd_inv [OF _ _ e] loop_inv_distinct(2) that] by simp
  have l2: "safely (\<lambda>_. False) (foreach_safe tid_queue (process_tid_cmd w) n (queue_first (tid_queue s))) s (\<lambda>_. loop_inv D P U)"
    if "loop_inv D P U s" "never_busy w" "finite U" "card U \<le> n" for s
    using loop_inv_runs(2) [of D P tid_queue "process_tid_cmd w" w, OF process_tid_cmd_inv [OF _ _ e] loop_inv_distinct(2) that(1) that(2)]
      loop_inv_bound(2) [OF that(1,3)] that(4) by simp
  show "safely (loop_inv D P U) (polling_thread_process_tid_queue w n) s (\<lambda>_. loop_inv D P U)"
    unfolding polling_thread_process_tid_queue_def safely_bnd safely_reads
    by (rule safely_mono [OF match_tids_inv [OF s]]) (rule l1)
  show "safely (\<lambda>_. False) (polling_thread_process_tid_queue w n) s (\<lambda>_. loop_inv D P U)" if w: "never_busy w" "finite U" "card U \<le> n"
    unfolding polling_thread_process_tid_queue_def safely_bnd safely_reads
    by (rule safely_mono [OF match_tids_inv [OF s]]) (rule l2 [OF _ w])
qed

section \<open>The query for task ids and the round\<close>

lemma inv_query_state:
  assumes s: "session_inv D P s" and q: "cplt_tid_query_state s \<noteq> CPLT_TID_POLL_RUNNING" "q \<noteq> CPLT_TID_POLL_RUNNING"
  shows "session_inv D P (s\<lparr>cplt_tid_query_state := q\<rparr>)"
proof -
  note i = session_invD [OF s]
  show ?thesis using i q by (simp add: session_inv_def query_ok_def queued_def)
qed

lemma add_cplt_tids_inv:
  "session_inv D P s \<Longrightarrow> safely I (add_cplt_tids w ts) s
    (\<lambda>_ s'. session_inv D P s' \<and> cplt_tid_query_state s' = cplt_tid_query_state s)"
proof (induction ts arbitrary: s)
  case Nil
  then show ?case by simp
next
  case (Cons t ts)
  have "session_inv D P (s\<lparr>cplt_tid_list := t # cplt_tid_list s\<rparr>)" if "t \<notin> set (cplt_tid_list s)"
    using Cons.prems that by (simp add: session_inv_def queued_def)
  from Cons.IH [OF this] Cons.IH [OF Cons.prems] Cons.prems show ?case by simp
qed

lemma send_query_cplt_tid_inv:
  assumes s: "session_inv D P s" and q: "cplt_tid_query_state s \<noteq> CPLT_TID_POLL_RUNNING"
  shows "safely I (bnd (polling_thread_send_query_cplt_tid_cmd w) (\<lambda>ok.
     set_query_state (if ok then CPLT_TID_POLL_RUNNING else CPLT_TID_POLL_ERROR))) s (\<lambda>_. session_inv D P)"
proof -
  note i = session_invD [OF s]
  have nq: "tid_query_ctx \<notin> set (cmd_queue s @ cq_queue s @ tid_queue s @ err_queue s)" "tid_query_ctx \<notin> P"
    and d: "\<not> with_device (inflight s) tid_query_ctx"
    using i(4) q by (auto simp: query_ok_def queued_def)
  obtain x where x: "ctxs s tid_query_ctx = Some x" using i(2) by (auto simp: ctxs_ok_def)
  have ok: "cmd_sync_type x = SESSION_ASYNC_CMD Tid_query_cb False" "\<not> is_long_cmd x"
  proof -
    have "ctx_ok (length (channel_use_cnt s)) tid_query_ctx x" using i(2) x unfolding ctxs_ok_def by blast
    then show "cmd_sync_type x = SESSION_ASYNC_CMD Tid_query_cb False" "\<not> is_long_cmd x"
      by (auto simp: ctx_ok_def split: comm_session_cmd_sync_attr.splits)
  qed
  let ?y = "\<lparr>cc_channel = cc_channel x, cmd_result = cmd_result x, cmd_sync_type = SESSION_ASYNC_CMD Tid_query_cb False, is_long_cmd = False,
    cc_tid = cc_tid x, cmd_nvme_type = SESSION_ADMIN_CMD, cmd_session_state = SESSION_CMD_NEED_POLLING\<rparr>"
  have y: "same_cmd x ?y" "unfinished ?y" "cmd_session_state ?y = SESSION_CMD_NEED_POLLING"
    using ok by (simp_all add: same_cmd_def unfinished_def)
  let ?m = "(ctxs s)(tid_query_ctx \<mapsto> ?y)" and ?l = "inflight s @ [(tid_query_ctx, Polling_cb, None)]"
  have q1: "queues_ok D (insert tid_query_ctx P) ?m ?l (cmd_queue s) (cq_queue s) (tid_queue s) (err_queue s)"
    by (rule queues_ok_new [OF i(1) nq(1)]) (use with_device_sent sent_awaits [OF y(2,3)] in auto)
  have "ctx_is ?m ?l awaits_cqe tid_query_ctx" using sent_awaits [OF y(2,3)] with_device_sent(1) by (simp add: ctx_is_def)
  from queues_ok_attach(1) [OF q1 insertI1 this] nq(2)
  have q2: "queues_ok D P ?m ?l (cmd_queue s) (cq_queue s @ [tid_query_ctx]) (tid_queue s) (err_queue s)" by simp
  have sent: "session_inv D P (s\<lparr>ctxs := ?m, inflight := ?l, cq_queue := cq_queue s @ [tid_query_ctx], cplt_tid_query_state := CPLT_TID_POLL_RUNNING\<rparr>)"
    using i q2 ctxs_ok_upd [OF i(2) x y(1)] device_ok_sent [OF i(3) d y(2,3)] calls_ok_upd [OF i(5) x]
    by (simp add: session_inv_def query_ok_def queued_def)
  have "queues_ok D (P - {tid_query_ctx}) ?m (inflight s) (cmd_queue s) (cq_queue s) (tid_queue s) (err_queue s)"
    by (rule queues_ok_drop [OF i(1) nq(1)])
  then have failed: "session_inv D P (s\<lparr>ctxs := ?m, cplt_tid_query_state := CPLT_TID_POLL_ERROR\<rparr>)"
    using i nq d ctxs_ok_upd [OF i(2) x y(1)] device_ok_upd [OF i(3) d] calls_ok_upd [OF i(5) x]
    by (simp add: session_inv_def query_ok_def queued_def)
  have nq': "tid_query_ctx \<notin> set (queued (s\<lparr>ctxs := ?m, inflight := ?l\<rparr>))" using nq by (simp add: queued_def)
  show ?thesis
    using sent failed nq'
    by (simp add: polling_thread_send_query_cplt_tid_cmd_def comm_session_cmd_ctx_constructor_def safely_ctx_of x safely_send
        safely_insert_tail set_query_state_def)
qed

lemma process_cplt_tid_query_inv:
  assumes s: "session_inv D P s"
  shows "safely I (polling_thread_process_cplt_tid_query w) s (\<lambda>_. session_inv D P)"
proof (cases "cplt_tid_query_state s")
  case CPLT_TID_POLL_DISABLE
  then show ?thesis using s inv_query_state [OF s] by (simp add: polling_thread_process_cplt_tid_query_def set_query_state_def)
next
  case CPLT_TID_POLL_WAIT_PERIOD
  then show ?thesis using s inv_query_state [OF s] send_query_cplt_tid_inv [OF s]
    by (simp add: polling_thread_process_cplt_tid_query_def set_query_state_def split: option.split)
next
  case CPLT_TID_POLL_FINISHED
  have "safely I (add_cplt_tids w (take 8 (cplt_tid_buffer s))) s
      (\<lambda>ok s'. safely I (if ok then set_query_state CPLT_TID_POLL_DISABLE else ret ()) s' (\<lambda>_. session_inv D P))"
    by (rule safely_mono [OF add_cplt_tids_inv [OF s]])
      (use inv_query_state CPLT_TID_POLL_FINISHED in \<open>auto simp: set_query_state_def\<close>)
  then show ?thesis using CPLT_TID_POLL_FINISHED by (simp add: polling_thread_process_cplt_tid_query_def)
qed (use s in \<open>simp_all add: polling_thread_process_cplt_tid_query_def\<close>)

lemma fetch_inv:
  assumes s: "session_inv D P s"
  shows "safely I (polling_thread_fetch_cmd_from_session w) s (\<lambda>_. loop_inv D P (set (queued s)))"
proof -
  note i = session_invD [OF s]
  have "queues_ok D P (ctxs s) (inflight s) [] (cq_queue s @ cmd_queue s) (tid_queue s) (err_queue s)"
    using i(1) unfolding queues_ok_def by auto
  then have "session_inv D P (s\<lparr>need_exit := e, cq_queue := cq_queue s @ cmd_queue s, cmd_queue := [], cmd_queue_size := 0\<rparr>)" for e
    using i by (simp add: session_inv_def queued_def query_ok_def) blast
  then show ?thesis using s by (auto simp: safely_def polling_thread_fetch_cmd_from_session_def loop_inv_def queued_def)
qed

text \<open>
  One round. \<open>I\<close> is \<^term>\<open>session_inv D P\<close> in general; when no lock is busy the loops end, and it may be
  anything.
\<close>

lemma polling_round_inv:
  assumes s: "session_inv D P s" and w: "\<And>s. accepts_long w s" and e: "signals_first w"
  shows "safely (loop_inv D P (set (queued s))) (polling_round w n) s (\<lambda>_. session_inv D P)"
    "never_busy w \<Longrightarrow> length (queued s) \<le> n \<Longrightarrow> safely (\<lambda>_. False) (polling_round w n) s (\<lambda>_. session_inv D P)"
proof -
  let ?U = "set (queued s)" and ?J = "loop_inv D P (set (queued s))"
  let ?q = "bnd (polling_thread_process_cplt_tid_query w) (\<lambda>_.
       bnd (reads polling_thread_is_error) (\<lambda>err. if err then ret Error_exit
       else bnd (reads need_exit) (\<lambda>ex. ret (if ex then Requested_exit else Goes_on))))"
  let ?t = "bnd (polling_thread_process_tid_queue w n) (\<lambda>_. ?q)"
  let ?c = "bnd (polling_thread_process_cq_queue w n) (\<lambda>_. ?t)"
  have q: "safely I ?q s (\<lambda>_. session_inv D P)" if i: "?J s" for s I
  proof -
    have "session_inv D P s" using i by (simp add: loop_inv_def)
    then show ?thesis unfolding safely_bnd by (intro safely_mono [OF process_cplt_tid_query_inv]) simp_all
  qed
  have c: "safely I ?c s (\<lambda>_. session_inv D P)"
    if cq: "\<And>s. ?J s \<Longrightarrow> safely I (polling_thread_process_cq_queue w n) s (\<lambda>_. ?J)"
      and tq: "\<And>s. ?J s \<Longrightarrow> safely I (polling_thread_process_tid_queue w n) s (\<lambda>_. ?J)" and i: "?J s" for s I
    unfolding safely_bnd [of _ "polling_thread_process_cq_queue w n"] safely_bnd [of _ "polling_thread_process_tid_queue w n"]
    by (rule safely_mono [OF cq [OF i]], rule safely_mono [OF tq], assumption, rule q)
  have all: "safely I (polling_round w n) s (\<lambda>_. session_inv D P)"
    if cq: "\<And>s. ?J s \<Longrightarrow> safely I (polling_thread_process_cq_queue w n) s (\<lambda>_. ?J)"
      and tq: "\<And>s. ?J s \<Longrightarrow> safely I (polling_thread_process_tid_queue w n) s (\<lambda>_. ?J)" for I
    unfolding polling_round_def safely_bnd [of _ "polling_thread_fetch_cmd_from_session w"]
    by (rule safely_mono [OF fetch_inv [OF s]]) (use c [OF cq tq] in \<open>auto simp: loop_inv_def\<close>)
  show "safely ?J (polling_round w n) s (\<lambda>_. session_inv D P)"
    by (rule all) (rule process_cq_queue_inv(1) [OF _ w e] process_tid_queue_inv(1) [OF _ e], assumption)+
  show "safely (\<lambda>_. False) (polling_round w n) s (\<lambda>_. session_inv D P)" if nb: "never_busy w" and n: "length (queued s) \<le> n"
  proof (rule all)
    have n': "card ?U \<le> n" using n card_length [of "queued s"] by linarith
    show "safely (\<lambda>_. False) (polling_thread_process_cq_queue w n) s (\<lambda>_. ?J)" if i: "?J s" for s
      using process_cq_queue_inv(2) [OF i w e nb] loop_inv_bound(1) [OF i] n' by simp
    show "safely (\<lambda>_. False) (polling_thread_process_tid_queue w n) s (\<lambda>_. ?J)" if i: "?J s" for s
      using process_tid_queue_inv(2) [OF i e nb _ n'] by simp
  qed
qed

end
