(* ===== verification/Comm_Api.thy ===== *)
theory Comm_Api
  imports Comm_Session
begin

text \<open>
  The interface of the communication layer, \<^verbatim>\<open>src/communication/comm_api.c\<close>: requests that wait for their
  command and requests with a callback, on the channels and the session layer below, and how the
  commands of the SSD are encoded. Data buffers are not modelled here; what is read and written is
  the device of the other theories.
\<close>

section \<open>The channel controller\<close>

text \<open>
  \<^verbatim>\<open>comm_channel_controller_constructor\<close>. What is allocated and not yet released: the array of channels,
  the channels with their queue pairs, the lock, the use counts. \<open>ok\<close> says of each channel whether it
  can be constructed.
\<close>

record controller_res =
  res_array :: bool
  res_channels :: "nat list"
  res_lock :: bool
  res_counts :: "u64 list option"

definition no_controller :: controller_res where
  "no_controller = \<lparr>res_array = False, res_channels = [], res_lock = False, res_counts = None\<rparr>"

fun construct_channels :: "(nat \<Rightarrow> bool) \<Rightarrow> nat \<Rightarrow> nat \<Rightarrow> nat list \<Rightarrow> bool \<times> nat list" where
  "construct_channels ok 0 i done = (True, done)"
| "construct_channels ok (Suc k) i done =
     (if ok i then construct_channels ok k (Suc i) (done @ [i]) else (False, done))"

fun destruct_channels :: "nat list \<Rightarrow> nat list \<Rightarrow> nat list" where
  "destruct_channels [] r = r"
| "destruct_channels (i # is) r = destruct_channels is (remove1 i r)"

definition controller_err1 :: "nat \<Rightarrow> controller_res \<Rightarrow> controller_res" where
  "controller_err1 init_cnt r = r\<lparr>res_channels := destruct_channels [0..<init_cnt] (res_channels r), res_array := False\<rparr>"

definition comm_channel_controller_constructor ::
    "(nat \<Rightarrow> bool) \<Rightarrow> bool \<Rightarrow> bool \<Rightarrow> bool \<Rightarrow> nat \<Rightarrow> bool \<times> controller_res" where
  "comm_channel_controller_constructor ok array_ok lock_ok counts_ok channel_num =
     (if \<not> array_ok then (False, no_controller)
      else
        let (all_ok, cs) = construct_channels ok channel_num 0 [];
            r = no_controller\<lparr>res_array := True, res_channels := cs\<rparr> in
        if \<not> all_ok then (False, controller_err1 (length cs) r)
        else if \<not> lock_ok then (False, controller_err1 channel_num r)
        else if \<not> counts_ok then
          (let r = r\<lparr>res_lock := True\<rparr> in (False, controller_err1 channel_num (r\<lparr>res_lock := False\<rparr>)))
        else (True, r\<lparr>res_lock := True, res_counts := Some (replicate channel_num 0)\<rparr>))"

definition comm_channel_controller_destructor :: "nat \<Rightarrow> controller_res \<Rightarrow> controller_res" where
  "comm_channel_controller_destructor channel_num r =
     r\<lparr>res_channels := destruct_channels [0..<channel_num] (res_channels r), res_array := False, res_counts := None, res_lock := False\<rparr>"

section \<open>Commands\<close>

record comm_raw_cmd =
  opcode :: u8
  dword10 :: u32
  dword12 :: u32
  dword13 :: u32
  dword14 :: u32
  dword15 :: u32

abbreviation VENDOR_SET_OPCODE :: u8 where "VENDOR_SET_OPCODE \<equiv> 0xc5"

abbreviation VENDOR_GET_OPCODE :: u8 where "VENDOR_GET_OPCODE \<equiv> 0xc2"

definition zero_cmd :: comm_raw_cmd where
  "zero_cmd = \<lparr>opcode = 0, dword10 = 0, dword12 = 0, dword13 = 0, dword14 = 0, dword15 = 0\<rparr>"

text \<open>The sizes of the task structures of \<^verbatim>\<open>inc/communication/vendor_cmds.h\<close>.\<close>

abbreviation size_migrate_task :: u32 where "size_migrate_task \<equiv> 88"

abbreviation size_filemapping_search_task :: u32 where "size_filemapping_search_task \<equiv> 24"

definition migrate_cmd :: comm_raw_cmd where
  "migrate_cmd = zero_cmd\<lparr>opcode := VENDOR_SET_OPCODE, dword10 := size_migrate_task div 4, dword12 := 0x10021\<rparr>"

definition path_lookup_cmd :: "u64 \<Rightarrow> comm_raw_cmd" where
  "path_lookup_cmd task_length = zero_cmd\<lparr>opcode := VENDOR_SET_OPCODE, dword10 := ucast (task_length div 4), dword12 := 0x20021\<rparr>"

definition filemapping_search_cmd :: comm_raw_cmd where
  "filemapping_search_cmd = zero_cmd\<lparr>opcode := VENDOR_SET_OPCODE, dword10 := size_filemapping_search_task div 4, dword12 := 0x30021\<rparr>"

definition update_metajournal_tail_cmd :: "u64 \<Rightarrow> u32 \<Rightarrow> comm_raw_cmd" where
  "update_metajournal_tail_cmd origin_lpa write_block_num =
     zero_cmd\<lparr>opcode := VENDOR_SET_OPCODE, dword12 := 0x40021, dword13 := ucast (drop_bit 32 origin_lpa),
       dword14 := ucast (and origin_lpa (ucast (- 1 :: u32))), dword15 := write_block_num\<rparr>"

definition get_metajournal_head_cmd :: comm_raw_cmd where
  "get_metajournal_head_cmd = zero_cmd\<lparr>opcode := VENDOR_GET_OPCODE, dword10 := 4, dword12 := 0x70021\<rparr>"

definition fs_module_init_cmd :: comm_raw_cmd where
  "fs_module_init_cmd = zero_cmd\<lparr>opcode := VENDOR_SET_OPCODE, dword12 := 0x80021\<rparr>"

definition fs_db_init_cmd :: comm_raw_cmd where
  "fs_db_init_cmd = zero_cmd\<lparr>opcode := VENDOR_SET_OPCODE, dword12 := 0x90021\<rparr>"

definition fs_recover_from_db_cmd :: comm_raw_cmd where
  "fs_recover_from_db_cmd = zero_cmd\<lparr>opcode := VENDOR_SET_OPCODE, dword12 := 0xA0021\<rparr>"

definition clear_metajournal_cmd :: comm_raw_cmd where
  "clear_metajournal_cmd = zero_cmd\<lparr>opcode := VENDOR_SET_OPCODE, dword12 := 0xB0021\<rparr>"

definition start_apply_journal_cmd :: comm_raw_cmd where
  "start_apply_journal_cmd = zero_cmd\<lparr>opcode := VENDOR_SET_OPCODE, dword12 := 0xC0021\<rparr>"

definition stop_apply_journal_cmd :: comm_raw_cmd where
  "stop_apply_journal_cmd = zero_cmd\<lparr>opcode := VENDOR_SET_OPCODE, dword12 := 0xD0021\<rparr>"

text \<open>The commands of the polling thread: the finished task ids, at most 8 of them, and the result of one.\<close>

definition query_cplt_tid_cmd :: comm_raw_cmd where
  "query_cplt_tid_cmd = zero_cmd\<lparr>opcode := VENDOR_GET_OPCODE, dword10 := 8 * 2 div 4, dword12 := 0x50021, dword13 := 0\<rparr>"

definition query_result_cmd :: "u32 \<Rightarrow> u16 \<Rightarrow> comm_raw_cmd" where
  "query_result_cmd tid_result_buf_len t = zero_cmd\<lparr>opcode := VENDOR_GET_OPCODE, dword10 := tid_result_buf_len div 4,
     dword12 := 0x60021, dword13 := ucast t\<rparr>"

text \<open>What is given to the NVMe driver: the command words of the raw command; the others are 0.\<close>

record spdk_nvme_cmd =
  opc :: u8
  nsid :: u32
  cdw10 :: u32
  cdw11 :: u32
  cdw12 :: u32
  cdw13 :: u32
  cdw14 :: u32
  cdw15 :: u32

definition build_nvme_cmd :: "u32 \<Rightarrow> comm_raw_cmd \<Rightarrow> spdk_nvme_cmd" where
  "build_nvme_cmd ns raw = \<lparr>opc = opcode raw, nsid = ns, cdw10 = dword10 raw, cdw11 = 0, cdw12 = dword12 raw,
     cdw13 = dword13 raw, cdw14 = dword14 raw, cdw15 = dword15 raw\<rparr>"

section \<open>Requests\<close>

text \<open>
  The results: 0, an error number, and -1 when the command failed. A request is in parts: it sends its
  command, hands the context to the session layer, and, when it waits, returns once the context is
  marked as completed. The failure of a mutex is not modelled. \<open>c\<close> is the new context.
\<close>

definition async_rw_send :: "comm_world \<Rightarrow> nat \<Rightarrow> comm_session_cmd_ctx \<Rightarrow> (comm_env, bool) prog" where
  "async_rw_send w c junk =
     bnd get_channel (\<lambda>channel.
     bnd (reads (cw_malloc_ok w)) (\<lambda>ok.
     if \<not> ok then bnd (comm_channel_release channel) (\<lambda>_. ret False)
     else
       bnd (comm_session_cmd_ctx_constructor c channel SESSION_IO_CMD (SESSION_ASYNC_CMD Upper_cb True) False junk) (\<lambda>_.
       bnd (send_cmd w c Polling_cb (Some channel)) (\<lambda>ok.
       if ok then ret True
       else bnd (free_ctx c) (\<lambda>_. bnd (comm_channel_release channel) (\<lambda>_. ret False))))))"

definition comm_submit_async_rw_request :: "comm_world \<Rightarrow> nat \<Rightarrow> comm_session_cmd_ctx \<Rightarrow> (comm_env, api_result) prog" where
  "comm_submit_async_rw_request w c junk =
     bnd (async_rw_send w c junk) (\<lambda>sent.
     if sent then bnd (comm_session_submit_cmd_ctx c) (\<lambda>_. ret Api_ok) else ret Api_errno)"

definition sync_rw_send :: "comm_world \<Rightarrow> nat \<Rightarrow> comm_session_cmd_ctx \<Rightarrow> (comm_env, bool) prog" where
  "sync_rw_send w c junk =
     bnd get_channel (\<lambda>channel.
     bnd (reads (cw_cond_ok w)) (\<lambda>ok.
     if \<not> ok then bnd (comm_channel_release channel) (\<lambda>_. ret False)
     else
       bnd (comm_session_cmd_ctx_constructor c channel SESSION_IO_CMD (SESSION_SYNC_CMD False) False junk) (\<lambda>_.
       bnd (send_cmd w c Polling_cb (Some channel)) (\<lambda>ok.
       if ok then ret True
       else bnd (free_ctx c) (\<lambda>_. bnd (comm_channel_release channel) (\<lambda>_. ret False))))))"

text \<open>A long command carries the task id of its context; the result is the command as it was sent.\<close>

definition async_raw_send :: "comm_world \<Rightarrow> nat \<Rightarrow> bool \<Rightarrow> comm_raw_cmd \<Rightarrow> comm_session_cmd_ctx \<Rightarrow> (comm_env, comm_raw_cmd option) prog" where
  "async_raw_send w c is_long raw junk =
     bnd get_channel (\<lambda>channel.
     bnd (reads (cw_malloc_ok w)) (\<lambda>ok.
     if \<not> ok then bnd (comm_channel_release channel) (\<lambda>_. ret None)
     else
       bnd (comm_session_cmd_ctx_constructor c channel SESSION_ADMIN_CMD (SESSION_ASYNC_CMD Upper_cb True) is_long junk) (\<lambda>_.
       bnd (ctx_of c) (\<lambda>ctx.
       let raw' = (if is_long then raw\<lparr>dword13 := ucast (cc_tid ctx)\<rparr> else raw) in
       bnd (send_cmd w c Polling_cb None) (\<lambda>ok.
       if ok then ret (Some raw')
       else bnd (free_ctx c) (\<lambda>_. bnd (comm_channel_release channel) (\<lambda>_. ret None)))))))"

definition comm_raw_async_cmd_sender :: "comm_world \<Rightarrow> nat \<Rightarrow> bool \<Rightarrow> comm_raw_cmd \<Rightarrow> comm_session_cmd_ctx \<Rightarrow> (comm_env, api_result) prog" where
  "comm_raw_async_cmd_sender w c is_long raw junk =
     bnd (async_raw_send w c is_long raw junk) (\<lambda>sent.
     if sent \<noteq> None then bnd (comm_session_submit_cmd_ctx c) (\<lambda>_. ret Api_ok) else ret Api_errno)"

definition sync_raw_send :: "comm_world \<Rightarrow> nat \<Rightarrow> bool \<Rightarrow> comm_raw_cmd \<Rightarrow> comm_session_cmd_ctx \<Rightarrow> (comm_env, comm_raw_cmd option) prog" where
  "sync_raw_send w c is_long raw junk =
     bnd get_channel (\<lambda>channel.
     bnd (reads (cw_cond_ok w)) (\<lambda>ok.
     if \<not> ok then bnd (comm_channel_release channel) (\<lambda>_. ret None)
     else
       bnd (comm_session_cmd_ctx_constructor c channel SESSION_ADMIN_CMD (SESSION_SYNC_CMD False) is_long junk) (\<lambda>_.
       bnd (ctx_of c) (\<lambda>ctx.
       let raw' = (if is_long then raw\<lparr>dword13 := ucast (cc_tid ctx)\<rparr> else raw) in
       bnd (send_cmd w c Polling_cb None) (\<lambda>ok.
       if ok then ret (Some raw')
       else bnd (free_ctx c) (\<lambda>_. bnd (comm_channel_release channel) (\<lambda>_. ret None)))))))"

text \<open>A waiting request on its own, while the polling thread makes rounds; \<open>k\<close> bounds the rounds, \<open>n\<close> the loops in each.\<close>

fun wait_for :: "comm_world \<Rightarrow> nat \<Rightarrow> nat \<Rightarrow> nat \<Rightarrow> (comm_env, api_result) prog" where
  "wait_for w n 0 c = fail Still_running"
| "wait_for w n (Suc k) c =
     bnd (sync_cmd_return c) (\<lambda>r.
     case r of
       Some a \<Rightarrow> ret a
     | None \<Rightarrow> bnd (polling_round w n) (\<lambda>_. wait_for w n k c))"

definition comm_submit_sync_rw_request :: "comm_world \<Rightarrow> nat \<Rightarrow> nat \<Rightarrow> nat \<Rightarrow> comm_session_cmd_ctx \<Rightarrow> (comm_env, api_result) prog" where
  "comm_submit_sync_rw_request w n k c junk =
     bnd (sync_rw_send w c junk) (\<lambda>sent.
     if sent then bnd (comm_session_submit_cmd_ctx c) (\<lambda>_. wait_for w n k c) else ret Api_errno)"

definition comm_raw_sync_cmd_sender ::
    "comm_world \<Rightarrow> nat \<Rightarrow> nat \<Rightarrow> nat \<Rightarrow> bool \<Rightarrow> comm_raw_cmd \<Rightarrow> comm_session_cmd_ctx \<Rightarrow> (comm_env, api_result) prog" where
  "comm_raw_sync_cmd_sender w n k c is_long raw junk =
     bnd (sync_raw_send w c is_long raw junk) (\<lambda>sent.
     if sent \<noteq> None then bnd (comm_session_submit_cmd_ctx c) (\<lambda>_. wait_for w n k c) else ret Api_errno)"

text \<open>The requests of the program; the long ones are those that search or move data in the SSD.\<close>

definition comm_submit_sync_migrate_request :: "comm_world \<Rightarrow> nat \<Rightarrow> nat \<Rightarrow> nat \<Rightarrow> comm_session_cmd_ctx \<Rightarrow> (comm_env, api_result) prog" where
  "comm_submit_sync_migrate_request w n k c junk = comm_raw_sync_cmd_sender w n k c True migrate_cmd junk"

definition comm_submit_async_migrate_request :: "comm_world \<Rightarrow> nat \<Rightarrow> comm_session_cmd_ctx \<Rightarrow> (comm_env, api_result) prog" where
  "comm_submit_async_migrate_request w c junk = comm_raw_async_cmd_sender w c True migrate_cmd junk"

definition comm_submit_sync_path_lookup_request :: "comm_world \<Rightarrow> nat \<Rightarrow> nat \<Rightarrow> nat \<Rightarrow> u64 \<Rightarrow> comm_session_cmd_ctx \<Rightarrow> (comm_env, api_result) prog" where
  "comm_submit_sync_path_lookup_request w n k c task_length junk = comm_raw_sync_cmd_sender w n k c True (path_lookup_cmd task_length) junk"

definition comm_submit_async_path_lookup_request :: "comm_world \<Rightarrow> nat \<Rightarrow> u64 \<Rightarrow> comm_session_cmd_ctx \<Rightarrow> (comm_env, api_result) prog" where
  "comm_submit_async_path_lookup_request w c task_length junk = comm_raw_async_cmd_sender w c True (path_lookup_cmd task_length) junk"

definition comm_submit_sync_filemapping_search_request :: "comm_world \<Rightarrow> nat \<Rightarrow> nat \<Rightarrow> nat \<Rightarrow> comm_session_cmd_ctx \<Rightarrow> (comm_env, api_result) prog" where
  "comm_submit_sync_filemapping_search_request w n k c junk = comm_raw_sync_cmd_sender w n k c True filemapping_search_cmd junk"

definition comm_submit_async_filemapping_search_request :: "comm_world \<Rightarrow> nat \<Rightarrow> comm_session_cmd_ctx \<Rightarrow> (comm_env, api_result) prog" where
  "comm_submit_async_filemapping_search_request w c junk = comm_raw_async_cmd_sender w c True filemapping_search_cmd junk"

definition comm_submit_sync_update_metajournal_tail_request :: "comm_world \<Rightarrow> nat \<Rightarrow> nat \<Rightarrow> nat \<Rightarrow> u64 \<Rightarrow> u32 \<Rightarrow> comm_session_cmd_ctx \<Rightarrow> (comm_env, api_result) prog" where
  "comm_submit_sync_update_metajournal_tail_request w n k c origin_lpa write_block_num junk = comm_raw_sync_cmd_sender w n k c False (update_metajournal_tail_cmd origin_lpa write_block_num) junk"

definition comm_submit_async_update_metajournal_tail_request :: "comm_world \<Rightarrow> nat \<Rightarrow> u64 \<Rightarrow> u32 \<Rightarrow> comm_session_cmd_ctx \<Rightarrow> (comm_env, api_result) prog" where
  "comm_submit_async_update_metajournal_tail_request w c origin_lpa write_block_num junk = comm_raw_async_cmd_sender w c False (update_metajournal_tail_cmd origin_lpa write_block_num) junk"

definition comm_submit_sync_get_metajournal_head_request :: "comm_world \<Rightarrow> nat \<Rightarrow> nat \<Rightarrow> nat \<Rightarrow> comm_session_cmd_ctx \<Rightarrow> (comm_env, api_result) prog" where
  "comm_submit_sync_get_metajournal_head_request w n k c junk = comm_raw_sync_cmd_sender w n k c False get_metajournal_head_cmd junk"

definition comm_submit_async_get_metajournal_head_request :: "comm_world \<Rightarrow> nat \<Rightarrow> comm_session_cmd_ctx \<Rightarrow> (comm_env, api_result) prog" where
  "comm_submit_async_get_metajournal_head_request w c junk = comm_raw_async_cmd_sender w c False get_metajournal_head_cmd junk"

definition comm_submit_fs_module_init_request :: "comm_world \<Rightarrow> nat \<Rightarrow> nat \<Rightarrow> nat \<Rightarrow> comm_session_cmd_ctx \<Rightarrow> (comm_env, api_result) prog" where
  "comm_submit_fs_module_init_request w n k c junk = comm_raw_sync_cmd_sender w n k c False fs_module_init_cmd junk"

definition comm_submit_fs_db_init_request :: "comm_world \<Rightarrow> nat \<Rightarrow> nat \<Rightarrow> nat \<Rightarrow> comm_session_cmd_ctx \<Rightarrow> (comm_env, api_result) prog" where
  "comm_submit_fs_db_init_request w n k c junk = comm_raw_sync_cmd_sender w n k c False fs_db_init_cmd junk"

definition comm_submit_fs_recover_from_db_request :: "comm_world \<Rightarrow> nat \<Rightarrow> nat \<Rightarrow> nat \<Rightarrow> comm_session_cmd_ctx \<Rightarrow> (comm_env, api_result) prog" where
  "comm_submit_fs_recover_from_db_request w n k c junk = comm_raw_sync_cmd_sender w n k c False fs_recover_from_db_cmd junk"

definition comm_submit_clear_metajournal_request :: "comm_world \<Rightarrow> nat \<Rightarrow> nat \<Rightarrow> nat \<Rightarrow> comm_session_cmd_ctx \<Rightarrow> (comm_env, api_result) prog" where
  "comm_submit_clear_metajournal_request w n k c junk = comm_raw_sync_cmd_sender w n k c False clear_metajournal_cmd junk"

definition comm_submit_start_apply_journal_request :: "comm_world \<Rightarrow> nat \<Rightarrow> nat \<Rightarrow> nat \<Rightarrow> comm_session_cmd_ctx \<Rightarrow> (comm_env, api_result) prog" where
  "comm_submit_start_apply_journal_request w n k c junk = comm_raw_sync_cmd_sender w n k c False start_apply_journal_cmd junk"

definition comm_submit_stop_apply_journal_request :: "comm_world \<Rightarrow> nat \<Rightarrow> nat \<Rightarrow> nat \<Rightarrow> comm_session_cmd_ctx \<Rightarrow> (comm_env, api_result) prog" where
  "comm_submit_stop_apply_journal_request w n k c junk = comm_raw_sync_cmd_sender w n k c False stop_apply_journal_cmd junk"

section \<open>Requests and the polling thread together\<close>

text \<open>
  The threads of the program: each step is a part of a request, or a round of the polling thread. The second
  part of the state are the contexts whose command was sent and that are not yet submitted.
\<close>

datatype session_op =
    Send_rw nat bool comm_session_cmd_ctx
  | Send_raw nat bool bool comm_raw_cmd comm_session_cmd_ctx
  | Submit nat
  | Return nat
  | Round nat

type_synonym session_sys = "comm_env \<times> nat set"

definition session_send :: "nat \<Rightarrow> (comm_env, bool) prog \<Rightarrow> (session_sys, unit) prog" where
  "session_send c m = (\<lambda>(s, P). case m s of
     (Inl e, s') \<Rightarrow> (Inl e, (s', P))
   | (Inr sent, s') \<Rightarrow> (Inr (), (s', if sent then insert c P else P)))"

definition session_part :: "nat set \<Rightarrow> (comm_env, 'a) prog \<Rightarrow> (session_sys, unit) prog" where
  "session_part D m = (\<lambda>(s, P). case m s of
     (Inl e, s') \<Rightarrow> (Inl e, (s', P))
   | (Inr _, s') \<Rightarrow> (Inr (), (s', P - D)))"

fun session_do :: "comm_world \<Rightarrow> session_op \<Rightarrow> (session_sys, unit) prog" where
  "session_do w (Send_rw c sync junk) = session_send c (if sync then sync_rw_send w c junk else async_rw_send w c junk)"
| "session_do w (Send_raw c sync is_long raw junk) =
     session_send c (bnd (if sync then sync_raw_send w c is_long raw junk else async_raw_send w c is_long raw junk) (\<lambda>r. ret (r \<noteq> None)))"
| "session_do w (Submit c) = session_part {c} (comm_session_submit_cmd_ctx c)"
| "session_do w (Return c) = session_part {} (sync_cmd_return c)"
| "session_do w (Round n) = session_part {} (polling_round w n)"

text \<open>
  What a caller does: a new context is an object that does not exist, and the number is not used again;
  the task id of a new long command is not in use, which the source leaves to its callers; a context is
  submitted once; and only the request that sent a synchronous command waits for it.
\<close>

definition new_ctx :: "comm_env \<Rightarrow> nat \<Rightarrow> bool" where
  "new_ctx s c \<longleftrightarrow> ctxs s c = None \<and> c \<notin> fst ` set (upper_calls s)"

definition tid_free :: "comm_env \<Rightarrow> u16 \<Rightarrow> bool" where
  "tid_free s t \<longleftrightarrow> (\<forall>d x. ctxs s d = Some x \<longrightarrow> is_long_cmd x \<longrightarrow> cc_tid x \<noteq> t)"

fun op_allowed :: "session_op \<Rightarrow> session_sys \<Rightarrow> bool" where
  "op_allowed (Send_rw c sync junk) (s, P) \<longleftrightarrow> new_ctx s c"
| "op_allowed (Send_raw c sync is_long raw junk) (s, P) \<longleftrightarrow> new_ctx s c \<and> (is_long \<longrightarrow> tid_free s (fst (alloc_new_tid s)))"
| "op_allowed (Submit c) (s, P) \<longleftrightarrow> c \<in> P"
| "op_allowed (Return c) (s, P) \<longleftrightarrow> c \<notin> P \<and> (\<exists>x f. ctxs s c = Some x \<and> cmd_sync_type x = SESSION_SYNC_CMD f)"
| "op_allowed (Round n) (s, P) \<longleftrightarrow> True"

inductive session_reach :: "comm_world \<Rightarrow> nat \<Rightarrow> comm_session_cmd_ctx \<Rightarrow> session_sys \<Rightarrow> bool" for w channels junk where
  reach_init: "session_reach w channels junk (comm_session_env_init channels junk, {})"
| reach_step: "session_reach w channels junk st \<Longrightarrow> op_allowed op st \<Longrightarrow> session_do w op st = (Inr (), st') \<Longrightarrow>
     session_reach w channels junk st'"

end
