(* ===== verification/Session_Correct.thy ===== *)
theory Session_Correct
  imports Session_Inv Comm_Api
begin

text \<open>
  The communication layer as a whole: requests of several threads interleaved with the rounds of the
  polling thread keep the invariant and never go wrong, as long as the device accepts long commands and
  waiting threads do not return before they are signalled; a request that waits ends.
\<close>

section \<open>Channels\<close>

lemma min_channel_bound:
  "min_channel < i + length us \<Longrightarrow> min_channel_loop us i min_use min_channel < i + length us"
proof (induction us arbitrary: i min_use min_channel)
  case (Cons u us)
  show ?case using Cons.IH [of i "Suc i" u] Cons.IH [of min_channel "Suc i" min_use] Cons.prems by simp
qed simp

lemma channel_get_ok:
  assumes "cnt \<noteq> []"
  shows "\<exists>i. i < length cnt \<and> channel_get cnt = Inr (i, cnt[i := cnt ! i + 1])"
  using min_channel_bound [of 0 0 cnt "- 1"] assms by (simp add: channel_get_def Let_def)

text \<open>The channel taken is one with the smallest count.\<close>

lemma min_channel_least:
  "(\<forall>j < i. min_use \<le> pre ! j) \<Longrightarrow> length pre = i \<Longrightarrow> (min_channel < i \<and> min_use = pre ! min_channel) \<or> (min_use = - 1 \<and> min_channel = 0) \<Longrightarrow>
    pre @ us \<noteq> [] \<Longrightarrow> \<forall>u \<in> set (pre @ us). (pre @ us) ! min_channel_loop us i min_use min_channel \<le> u"
proof (induction us arbitrary: i min_use min_channel pre)
  case Nil
  then have "(pre ! min_channel = min_use \<and> min_channel < length pre) \<or> min_use = - 1" by auto
  moreover have "\<forall>u \<in> set pre. min_use \<le> u" using Nil by (auto simp: in_set_conv_nth)
  moreover have "min_use = - 1 \<Longrightarrow> pre ! j = - 1" if "j < length pre" for j
    using Nil.prems(1,2) that word_order.extremum_unique by (metis (full_types))
  ultimately show ?case using Nil.prems(3,4) by (auto simp: in_set_conv_nth)
next
  case (Cons u us)
  have a: "pre @ u # us = (pre @ [u]) @ us" by simp
  show ?case
  proof (cases "u < min_use")
    case True
    have "\<forall>j < Suc i. u \<le> (pre @ [u]) ! j" using Cons.prems(1,2) True by (auto simp: nth_append less_Suc_eq)
    moreover have "(pre @ [u]) ! i = u" using Cons.prems(2) by (simp add: nth_append)
    ultimately show ?thesis using Cons.IH [of "Suc i" u "pre @ [u]" i] True Cons.prems(2) unfolding a by simp
  next
    case False
    have "\<forall>j < Suc i. min_use \<le> (pre @ [u]) ! j" using Cons.prems(1,2) False by (auto simp: nth_append less_Suc_eq)
    moreover have "(min_channel < Suc i \<and> min_use = (pre @ [u]) ! min_channel) \<or> (min_use = - 1 \<and> min_channel = 0)"
      using Cons.prems(2,3) by (auto simp: nth_append)
    ultimately show ?thesis using Cons.IH [of "Suc i" min_use "pre @ [u]" min_channel] False Cons.prems(2) unfolding a by simp
  qed
qed

section \<open>Sending\<close>










section \<open>The other parts of a request\<close>




section \<open>The system\<close>








text \<open>The second condition: the waiting thread returns in the gap, and the signal uses its context.\<close>

lemma signal_after_return_undefined:
  assumes "ctxs s c = Some x" "cmd_sync_type x = SESSION_SYNC_CMD f" "cw_wait_lock w s c = Locked" "\<And>s. cw_returns_early w s c"
    "cc_channel x < length (channel_use_cnt s)"
  shows "fst (polling_thread_process_cplt_cmd w c s) = Inl Undefined"
  using assms
  by (simp add: polling_thread_process_cplt_cmd_def prog_simps ctx_of_def ctx_write_def sync_cmd_return_def free_ctx_def
      comm_channel_release_def channel_release_def cond_broadcast_def)

definition sample_comm_world :: comm_world where
  "sample_comm_world = \<lparr>cw_poll_fails = \<lambda>s. False, cw_cqe = \<lambda>s c. Some CMD_CQE_SUCCESS, cw_queue_lock = \<lambda>s. Locked,
     cw_channel_lock = \<lambda>s i. Locked, cw_wait_lock = \<lambda>s c. Locked, cw_returns_early = \<lambda>s c. False, cw_send_ok = \<lambda>s. True, cw_malloc_ok = \<lambda>s. True,
     cw_cond_ok = \<lambda>s. True, cw_timer_start_ok = \<lambda>s. True, cw_timer = \<lambda>s. Some True, cw_tids = \<lambda>s. [1, 0, 0, 0, 0, 0, 0, 0]\<rparr>"

definition sample_ctx :: comm_session_cmd_ctx where
  "sample_ctx = \<lparr>cc_channel = 0, cmd_result = COMM_CMD_SUCCESS, cmd_sync_type = SESSION_SYNC_CMD True, is_long_cmd = False, cc_tid = 0,
     cmd_nvme_type = SESSION_IO_CMD, cmd_session_state = SESSION_CMD_NEED_POLLING\<rparr>"










section \<open>Errors\<close>

text \<open>
  C19. A long command with a callback whose submission the device refuses is freed when its callback
  was made, and then used again: the function does not return after the command is completed.
\<close>

theorem refused_long_command_undefined:
  assumes "ctxs s c = Some x" "c \<in> set (cq_queue s)" "is_long_cmd x" "cmd_result x = COMM_CMD_CQE_ERROR"
    "cmd_sync_type x = SESSION_ASYNC_CMD Upper_cb True" "cc_channel x < length (channel_use_cnt s)"
  shows "fst (polling_thread_process_cmd_received_CQE w c s) = Inl Undefined"
  using assms
  by (simp add: polling_thread_process_cmd_received_CQE_def queue_remove_def bnd_def ctx_of_def polling_thread_process_cplt_cmd_def call_upper_def
      modify_def comm_channel_release_def channel_release_def free_ctx_def ret_def)

definition refused_ctx :: comm_session_cmd_ctx where
  "refused_ctx = sample_ctx\<lparr>is_long_cmd := True, cmd_result := COMM_CMD_CQE_ERROR, cmd_sync_type := SESSION_ASYNC_CMD Upper_cb True\<rparr>"

definition refused_env :: comm_env where
  "refused_env = (comm_session_env_init 1 sample_ctx)\<lparr>cq_queue := [1], ctxs := [1 \<mapsto> refused_ctx]\<rparr>"

theorem refused_long_command_undefined_witness:
  "fst (polling_thread_process_cmd_received_CQE sample_comm_world 1 refused_env) = Inl Undefined"
  by (rule refused_long_command_undefined [where x = refused_ctx])
    (simp_all add: refused_env_def refused_ctx_def comm_session_env_init_def sample_ctx_def)

section \<open>A request that waits\<close>

text \<open>Nothing is under way, and the thread's query for task ids is at rest.\<close>

definition idle :: "comm_env \<Rightarrow> bool" where
  "idle s \<longleftrightarrow> cmd_queue s = [] \<and> cq_queue s = [] \<and> tid_queue s = [] \<and> err_queue s = [] \<and> cmd_queue_size s = 0 \<and> inflight s = [] \<and>
     cplt_tid_query_state s = CPLT_TID_POLL_DISABLE"

text \<open>
  The device answers each command at once with \<open>r\<close>, nothing fails or is locked, and the waiting thread
  does not return before it is signalled.
\<close>

definition prompt :: "comm_world \<Rightarrow> comm_cmd_CQE_result \<Rightarrow> bool" where
  "prompt w r \<longleftrightarrow> (\<forall>s. \<not> cw_poll_fails w s \<and> cw_send_ok w s \<and> cw_cond_ok w s \<and>
     (\<forall>c. cw_cqe w s c = Some r \<and> cw_wait_lock w s c = Locked \<and> \<not> cw_returns_early w s c \<and> cw_channel_lock w s c = Locked))"

lemma match_tids_none: "tid_queue s = [] \<Longrightarrow> match_tids ts s = (Inr (), s)"
  by (induction ts) (simp_all add: prog_simps)

text \<open>The states of such a request: submitted, and answered.\<close>

definition rw_ctx :: "nat \<Rightarrow> comm_session_cmd_ctx \<Rightarrow> comm_session_cmd_ctx" where
  "rw_ctx i junk = \<lparr>cc_channel = i, cmd_result = cmd_result junk, cmd_sync_type = SESSION_SYNC_CMD False, is_long_cmd = False,
     cc_tid = cc_tid junk, cmd_nvme_type = SESSION_IO_CMD, cmd_session_state = SESSION_CMD_NEED_POLLING\<rparr>"

definition rw_submitted :: "nat \<Rightarrow> u64 list \<Rightarrow> nat \<Rightarrow> comm_session_cmd_ctx \<Rightarrow> comm_env \<Rightarrow> comm_env" where
  "rw_submitted i cnt c junk s = s\<lparr>channel_use_cnt := cnt, ctxs := (ctxs s)(c \<mapsto> rw_ctx i junk), inflight := [(c, Polling_cb, Some i)],
     cmd_queue := [c], cmd_queue_size := 1\<rparr>"

definition rw_answered :: "comm_cmd_CQE_result \<Rightarrow> nat \<Rightarrow> u64 list \<Rightarrow> nat \<Rightarrow> comm_session_cmd_ctx \<Rightarrow> comm_env \<Rightarrow> comm_env" where
  "rw_answered r i cnt c junk s = s\<lparr>channel_use_cnt := cnt,
     ctxs := (ctxs s)(c \<mapsto> (answered Polling_cb r (rw_ctx i junk))\<lparr>cmd_sync_type := SESSION_SYNC_CMD True\<rparr>),
     need_exit := need_exit s \<or> polling_thread_exit_req s\<rparr>"

lemma rw_round:
  assumes "idle s" "prompt w r" "c \<noteq> tid_query_ctx"
  shows "safely I (polling_round w (Suc n)) (rw_submitted i cnt c junk s) (\<lambda>_ s'. s' = rw_answered r i cnt c junk s)"
proof -
  have w: "\<not> cw_poll_fails w s" "cw_cqe w s d = Some r" "cw_wait_lock w s d = Locked" "\<not> cw_returns_early w s d"
      "cw_channel_lock w s d = Locked" for s d
    using assms(2) by (simp_all add: prompt_def)
  let ?s1 = "rw_submitted i cnt c junk s" and ?s3 = "rw_answered r i cnt c junk s"
  let ?s2 = "?s1\<lparr>need_exit := need_exit s \<or> polling_thread_exit_req s, cq_queue := [c], cmd_queue := [], cmd_queue_size := 0\<rparr>"
  have idle: "cmd_queue s = []" "cq_queue s = []" "tid_queue s = []" "err_queue s = []" "cmd_queue_size s = 0" "inflight s = []"
      "cplt_tid_query_state s = CPLT_TID_POLL_DISABLE"
    using assms(1) by (simp_all add: idle_def)
  have f: "safely I (polling_thread_fetch_cmd_from_session w) ?s1 Q = Q True ?s2" for Q
    using idle by (simp add: safely_def polling_thread_fetch_cmd_from_session_def polling_thread_is_working_def rw_submitted_def)
  have p: "safely I (poll_queue w (Some i)) ?s2 Q = Q True (?s2\<lparr>inflight := [], ctxs := (ctxs s)(c \<mapsto> answered Polling_cb r (rw_ctx i junk))\<rparr>)" for Q
  proof -
    have d: "completed_of w (Some i) ?s2 = [(c, Polling_cb, r)]" by (simp add: completed_of_def rw_submitted_def w)
    have "ctxs (?s2\<lparr>inflight := []\<rparr>) c = Some (rw_ctx i junk)" by (simp add: rw_submitted_def)
    from callback_run [OF this, of I r Polling_cb] show ?thesis
      using d assms(3) w by (simp add: poll_queue_def) (simp add: rw_submitted_def w)
  qed
  let ?y = "answered Polling_cb r (rw_ctx i junk)"
  let ?s4 = "?s2\<lparr>inflight := [], ctxs := (ctxs s)(c \<mapsto> ?y)\<rparr>"
  have y: "cmd_session_state ?y = SESSION_CMD_RECEIVED_CQE" "\<not> is_long_cmd ?y" "cmd_sync_type ?y = SESSION_SYNC_CMD False"
    by (simp_all add: answered_def rw_ctx_def)
  have y4: "ctxs ?s4 c = Some ?y" "cq_queue ?s4 = [c]" by simp_all
  have x2: "ctxs ?s2 c = Some (rw_ctx i junk)" by (simp add: rw_submitted_def)
  have rx: "cmd_session_state (rw_ctx i junk) = SESSION_CMD_NEED_POLLING" "cmd_nvme_type (rw_ctx i junk) = SESSION_IO_CMD"
      "cc_channel (rw_ctx i junk) = i"
    by (simp_all add: rw_ctx_def)
  have rc: "safely I (polling_thread_process_cmd_received_CQE w c) ?s4 Q = Q () ?s3" for Q
  proof -
    have e: "?s4\<lparr>cq_queue := [], ctxs := (ctxs s)(c \<mapsto> ?y\<lparr>cmd_sync_type := SESSION_SYNC_CMD True\<rparr>)\<rparr> = ?s3"
      using idle by (simp add: rw_answered_def rw_submitted_def)
    have z: "ctxs ?s3 c = Some (?y\<lparr>cmd_sync_type := SESSION_SYNC_CMD True\<rparr>)" by (simp add: rw_answered_def)
    show ?thesis
      using y w e safely_ctx_of [OF z]
      by (simp add: polling_thread_process_cmd_received_CQE_def safely_queue_remove safely_ctx_of polling_thread_process_cplt_cmd_def safely_ctx_write
        cond_broadcast_def)
  qed
  have b: "safely I (process_cq_cmd w c) ?s2 Q = Q () ?s3" for Q
    using w y rx
    by (simp add: process_cq_cmd_def safely_ctx_of [OF x2] poll_for_cmd_def p [simplified] safely_ctx_of rc [simplified])
  have cq: "safely I (polling_thread_process_cq_queue w (Suc n)) ?s2 Q = Q () ?s3" for Q
    using b by (cases n) (simp_all add: polling_thread_process_cq_queue_def queue_next_def)
  have tq: "safely I (polling_thread_process_tid_queue w (Suc n)) ?s3 Q = Q () ?s3" for Q
    using match_tids_none [of ?s3 "cplt_tid_list s"] idle
    by (simp add: polling_thread_process_tid_queue_def safely_def [of _ "match_tids _"] queue_first_def rw_answered_def)
  have qq: "safely I (polling_thread_process_cplt_tid_query w) ?s3 Q = Q () ?s3" for Q
    using idle by (simp add: polling_thread_process_cplt_tid_query_def rw_answered_def)
  show ?thesis by (simp add: polling_round_def f cq [simplified] tq qq)
qed

text \<open>
  C17. A synchronous read or write on an idle session, with a device that answers and a waiting thread that is signalled before it returns, returns in one round of the polling
  thread, with 0 or with -1 as the device answered, and leaves nothing behind: the context is gone,
  the queues are empty and the channel is released.
\<close>

theorem sync_rw_completes:
  assumes "idle s" "prompt w r" "channel_use_cnt s \<noteq> []" "ctxs s c = None" "c \<noteq> tid_query_ctx"
  shows "comm_submit_sync_rw_request w (Suc n) (Suc (Suc k)) c junk s =
    (Inr (if r = CMD_CQE_SUCCESS then Api_ok else Api_failed), s\<lparr>need_exit := need_exit s \<or> polling_thread_exit_req s\<rparr>)"
proof -
  obtain i where i: "i < length (channel_use_cnt s)" "channel_get (channel_use_cnt s) = Inr (i, (channel_use_cnt s)[i := channel_use_cnt s ! i + 1])"
    using channel_get_ok [OF assms(3)] by blast
  let ?cnt = "(channel_use_cnt s)[i := channel_use_cnt s ! i + 1]"
  let ?s1 = "rw_submitted i ?cnt c junk s" and ?s3 = "rw_answered r i ?cnt c junk s"
  let ?e = "s\<lparr>need_exit := need_exit s \<or> polling_thread_exit_req s\<rparr>"
  have w: "cw_send_ok w s" "cw_cond_ok w s" for s using assms(2) by (simp_all add: prompt_def)
  have idle: "cmd_queue s = []" "cq_queue s = []" "tid_queue s = []" "err_queue s = []" "cmd_queue_size s = 0" "inflight s = []"
    using assms(1) by (simp_all add: idle_def)
  have g: "safely I get_channel s Q = Q i (s\<lparr>channel_use_cnt := ?cnt\<rparr>)" for I Q by (simp add: safely_def get_channel_def i(2))
  have send: "safely I (sync_rw_send w c junk) s Q = Q True (s\<lparr>channel_use_cnt := ?cnt, ctxs := (ctxs s)(c \<mapsto> rw_ctx i junk), inflight := [(c, Polling_cb, Some i)]\<rparr>)" for I Q
    using w idle by (simp add: sync_rw_send_def g comm_session_cmd_ctx_constructor_def safely_send rw_ctx_def)
  have sub: "safely I (comm_session_submit_cmd_ctx c) (s\<lparr>channel_use_cnt := ?cnt, ctxs := (ctxs s)(c \<mapsto> rw_ctx i junk), inflight := [(c, Polling_cb, Some i)]\<rparr>) Q = Q True ?s1" for I Q
    using idle by (simp add: comm_session_submit_cmd_ctx_def safely_insert_tail queued_def rw_submitted_def)
  have r1: "safely I (sync_cmd_return c) ?s1 Q = Q None ?s1" for I Q
    by (simp add: sync_cmd_return_def safely_ctx_of rw_submitted_def rw_ctx_def)
  have r3: "safely I (sync_cmd_return c) ?s3 Q = Q (Some (if r = CMD_CQE_SUCCESS then Api_ok else Api_failed)) ?e" for I Q
  proof -
    have m: "(ctxs s)(c := None) = ctxs s" using assms(4) by auto
    have "?s3\<lparr>ctxs := ctxs s, channel_use_cnt := channel_use_cnt s\<rparr> = ?e" by (simp add: rw_answered_def)
    then show ?thesis
      using i(1) m by (cases r)
        (simp_all add: sync_cmd_return_def safely_ctx_of safely_channel_release free_ctx_def rw_answered_def rw_ctx_def answered_def)
  qed
  have "safely (\<lambda>_. False) (wait_for w (Suc n) (Suc (Suc k)) c) ?s1 (\<lambda>a s'. a = (if r = CMD_CQE_SUCCESS then Api_ok else Api_failed) \<and> s' = ?e)"
    unfolding wait_for.simps(2) [of w "Suc n" "Suc k"] safely_bnd r1 option.case
    by (rule safely_mono [OF rw_round [OF assms(1,2,5)]]) (simp add: r3)
  then have "safely (\<lambda>_. False) (comm_submit_sync_rw_request w (Suc n) (Suc (Suc k)) c junk) s
      (\<lambda>a s'. a = (if r = CMD_CQE_SUCCESS then Api_ok else Api_failed) \<and> s' = ?e)"
    by (simp add: comm_submit_sync_rw_request_def send sub del: wait_for.simps)
  then show ?thesis by (simp add: safely_def split: prod.splits sum.splits)
qed

theorem sync_rw_completes_witness:
  "comm_submit_sync_rw_request sample_comm_world 1 2 7 sample_ctx (comm_session_env_init 3 sample_ctx) = (Inr Api_ok, comm_session_env_init 3 sample_ctx)"
  using sync_rw_completes [of "comm_session_env_init 3 sample_ctx" sample_comm_world CMD_CQE_SUCCESS 7 0 0 sample_ctx]
  by (simp add: idle_def prompt_def sample_comm_world_def comm_session_env_init_def numeral_3_eq_3 numeral_2_eq_2)

section \<open>Task ids and channels\<close>

text \<open>The task ids of long commands, one after the other.\<close>

fun nth_tid :: "nat \<Rightarrow> comm_env \<Rightarrow> u16" where
  "nth_tid 0 s = fst (alloc_new_tid s)"
| "nth_tid (Suc k) s = nth_tid k (snd (alloc_new_tid s))"

lemma unat_alloc_new_tid: "unat (fst (alloc_new_tid s)) = unat (next_tid s) mod 65535 + 1"
  "next_tid (snd (alloc_new_tid s)) = fst (alloc_new_tid s)"
proof -
  have m: "unat (- 1 :: u16) = 65535" by (simp add: unsigned_minus_1_eq_mask mask_eq_exp_minus_1)
  have "unat (next_tid s + 1) = unat (next_tid s) + 1" "unat (next_tid s) < 65535" if "next_tid s \<noteq> - 1"
  proof -
    have "unat (next_tid s) \<noteq> 65535" using that m by (metis word_unat_eq_iff)
    moreover have "unat (next_tid s) < 2 ^ 16" using unsigned_less [of "next_tid s"] by simp
    ultimately show "unat (next_tid s) < 65535" by simp
    then show "unat (next_tid s + 1) = unat (next_tid s) + 1" by (simp add: unat_word_ariths)
  qed
  then show "unat (fst (alloc_new_tid s)) = unat (next_tid s) mod 65535 + 1"
    using m by (cases "next_tid s = - 1") (simp_all add: alloc_new_tid_def Let_def)
  show "next_tid (snd (alloc_new_tid s)) = fst (alloc_new_tid s)" by (simp add: alloc_new_tid_def Let_def)
qed

lemma unat_nth_tid: "unat (nth_tid k s) = (unat (next_tid s) + k) mod 65535 + 1"
proof (induction k arbitrary: s)
  case (Suc k)
  have "(unat (next_tid s) mod 65535 + 1 + k) mod 65535 = (unat (next_tid s) + Suc k) mod 65535"
    using mod_add_left_eq [of "unat (next_tid s)" 65535 "Suc k"] by simp
  then show ?case by (simp add: Suc unat_alloc_new_tid)
qed (simp add: unat_alloc_new_tid)

text \<open>
  C20. The task ids of long commands that are started one after the other are never the invalid id 0,
  by which the SSD ends its list of finished ids, and any 65535 of them in a row differ. (Two threads
  that allocate at the same time can get around this, since the reset of the counter is a separate step.)
\<close>

theorem tids_differ:
  "nth_tid j s \<noteq> INVALID_TID \<and> (j < k \<and> k < j + 65535 \<longrightarrow> nth_tid j s \<noteq> nth_tid k s)"
proof (intro conjI impI notI)
  show False if "nth_tid j s = INVALID_TID" using unat_nth_tid [of j s] that by simp
  assume jk: "j < k \<and> k < j + 65535" and "nth_tid j s = nth_tid k s"
  then have "(unat (next_tid s) + j) mod 65535 = (unat (next_tid s) + k) mod 65535"
    using unat_nth_tid [of j s] unat_nth_tid [of k s] by simp
  then have "65535 dvd (unat (next_tid s) + k) - (unat (next_tid s) + j)" by (metis mod_eq_dvd_iff_nat jk add_le_cancel_left less_imp_le)
  then show False using jk by (auto dest: dvd_imp_le)
qed

theorem tids_differ_witness:
  "nth_tid 3 (comm_session_env_init 1 sample_ctx) \<noteq> nth_tid 65537 (comm_session_env_init 1 sample_ctx)"
  using tids_differ [of 3 "comm_session_env_init 1 sample_ctx" 65537] by simp

text \<open>
  A channel that is taken is one that the fewest commands use, and giving it back restores the counts.
\<close>

theorem channel_least_used:
  assumes "channel_get cnt = Inr (i, cnt')"
  shows "i < length cnt \<and> (\<forall>u \<in> set cnt. cnt ! i \<le> u) \<and> channel_release i cnt' = Inr cnt"
proof -
  have c: "min_channel_loop cnt 0 (- 1) 0 = i" "i < length cnt" "cnt' = cnt[i := cnt ! i + 1]"
    using assms by (auto simp: channel_get_def Let_def split: if_splits)
  have "cnt \<noteq> []" using c(2) by auto
  then have "\<forall>u \<in> set cnt. cnt ! i \<le> u" using min_channel_least [of 0 "- 1" "[]" 0 cnt] c(1) by simp
  then show ?thesis using c by (simp add: channel_release_def)
qed

theorem channel_least_used_witness:
  "channel_release 1 [5, 3, 4] = Inr [5, 2, 4]"
  using channel_least_used [of "[5, 2, 4]" 1 "[5, 3, 4]"] by (simp add: channel_get_def Let_def)

text \<open>A controller that cannot be made leaves nothing behind, and neither does one that is destroyed.\<close>

lemma construct_channels_upto:
  "\<exists>j. construct_channels ok k i [0..<i] = (j = i + k, [0..<j]) \<and> i \<le> j \<and> j \<le> i + k"
proof (induction k arbitrary: i)
  case (Suc k)
  show ?case
  proof (cases "ok i")
    case True
    then show ?thesis using Suc.IH [of "Suc i"] by auto
  next
    case False
    then show ?thesis by (intro exI [of _ i]) simp
  qed
qed auto

lemma destruct_channels_all: "destruct_channels xs xs = []"
proof (induction xs)
  case (Cons x xs)
  then show ?case by simp
qed simp

theorem controller_no_leak:
  "case comm_channel_controller_constructor ok array_ok lock_ok counts_ok channel_num of
     (False, r) \<Rightarrow> r = no_controller
   | (True, r) \<Rightarrow> res_channels r = [0..<channel_num] \<and> res_counts r = Some (replicate channel_num 0) \<and>
       comm_channel_controller_destructor channel_num r = no_controller"
proof -
  obtain j where j: "construct_channels ok channel_num 0 [] = (j = channel_num, [0..<j])"
    using construct_channels_upto [of ok channel_num 0] by auto
  show ?thesis
    by (cases array_ok; cases "j = channel_num"; cases lock_ok; cases counts_ok)
      (simp_all add: comm_channel_controller_constructor_def j controller_err1_def destruct_channels_all no_controller_def
        comm_channel_controller_destructor_def Let_def)
qed

end
