(* ===== verification/Start_Up.thy ===== *)
theory Start_Up
  imports System_Calls Comm_Api
begin

text \<open>
  The start of the program, \<^verbatim>\<open>src/api/init.cc\<close>, from the arguments to the caches: the device is found,
  channels and the polling thread are made, the SSD starts its part and finishes the journal of the
  last run, and the file system layer and the journal processor begin where the SSD's journal is.
  And its end, \<^verbatim>\<open>src/api/fini.cc\<close>. SPDK is a parameter.
\<close>

section \<open>Arguments\<close>

definition TRID_CONFIG_PREFIX :: string where
  "TRID_CONFIG_PREFIX = ''--trid=''"

fun trid_loop :: "string list \<Rightarrow> string" where
  "trid_loop [] = []"
| "trid_loop (a # as) =
     (if length a < length TRID_CONFIG_PREFIX then trid_loop as
      else if take (length TRID_CONFIG_PREFIX) a \<noteq> TRID_CONFIG_PREFIX then trid_loop as
      else drop (length TRID_CONFIG_PREFIX) a)"

definition parse_trid_from_argv :: "string list \<Rightarrow> string" where
  "parse_trid_from_argv argv = (if length argv \<le> 1 then [] else trid_loop (drop 1 argv))"

section \<open>Outside\<close>

text \<open>
  A request that waits can fail before its context is handed to the session layer, end with an error or
  with success, or get no answer at all, as when the polling thread has ended because of an error.
\<close>

datatype request_answer = Not_sent | Failed | Answered | No_answer

datatype start_request = Fs_module_init | Recover_from_db | Read_super | Start_apply | Journal_pos

text \<open>
  Whether the device is found; the number of processors; what of the channels and of the session layer
  can be made; memory; how the SSD answers a request, what the super block holds and where the SSD's
  journal is, given the requests before.
\<close>

record start_env =
  su_spdk_ok :: "string \<Rightarrow> bool"
  su_cpu_num :: int
  su_channel_ok :: "nat \<Rightarrow> bool"
  su_controller_ok :: "bool \<times> bool \<times> bool"
  su_session_ok :: "bool \<times> bool \<times> bool \<times> bool \<times> bool"
  su_dma_ok :: "start_request \<Rightarrow> bool"
  su_answer :: "start_request list \<Rightarrow> start_request \<Rightarrow> request_answer"
  su_super :: "start_request list \<Rightarrow> hscfs_super_block"
  su_pos :: "start_request list \<Rightarrow> u64 \<times> u64"
  su_devices :: fs_devices

text \<open>
  The requests that were submitted; whether the mutex of the session layer exists, and its thread; the channels.
\<close>

record start_state =
  su_requests :: "start_request list"
  su_mutex :: bool
  su_thread :: bool
  su_controller :: controller_res

definition start_state_init :: start_state where
  "start_state_init = \<lparr>su_requests = [], su_mutex = False, su_thread = False, su_controller = no_controller\<rparr>"

text \<open>A request that was sent locks the mutex of the session layer to hand over its context.\<close>

definition start_request :: "start_env \<Rightarrow> start_request \<Rightarrow> (start_state, bool) prog" where
  "start_request v r =
     bnd (reads (\<lambda>s. su_answer v (su_requests s) r)) (\<lambda>a.
     if a = Not_sent then ret False
     else
       bnd (reads su_mutex) (\<lambda>exists.
       if \<not> exists then fail Undefined
       else if a = No_answer then fail Still_running
       else bnd (modify (\<lambda>s. s\<lparr>su_requests := su_requests s @ [r]\<rparr>)) (\<lambda>_. ret (a = Answered))))"

section \<open>Steps\<close>

text \<open>The steps give whether they succeeded, which is 0 or -1 in the program.\<close>

definition CHANNEL_NUM_DEFAULT :: int where
  "CHANNEL_NUM_DEFAULT = 4"

definition device_env_init :: "start_env \<Rightarrow> (start_state, bool) prog" where
  "device_env_init v =
     (let cpu_num = (if su_cpu_num v \<le> 0 then CHANNEL_NUM_DEFAULT else su_cpu_num v);
          (array_ok, lock_ok, counts_ok) = su_controller_ok v;
          (ok, r) = comm_channel_controller_constructor (su_channel_ok v) array_ok lock_ok counts_ok (nat cpu_num) in
      bnd (modify (\<lambda>s. s\<lparr>su_controller := r\<rparr>)) (\<lambda>_. ret ok))"

text \<open>
  \<^verbatim>\<open>comm_session_env_init\<close>: the condition variable, the mutex, the memory for the argument of the thread,
  and the thread. The error path destroys the mutex; when there is no memory the result is that of
  the mutex, which is 0. A thread that cannot make its own state runs the destructor on what it has not
  made (\<^verbatim>\<open>comm_session_polling_thread\<close>).
\<close>

definition session_start :: "start_env \<Rightarrow> (start_state, bool) prog" where
  "session_start v =
     (case su_session_ok v of (cond_ok, mutex_ok, malloc_ok, thread_ok, thread_env_ok) \<Rightarrow>
        if \<not> cond_ok then ret False
        else if \<not> mutex_ok then ret False
        else
          bnd (modify (\<lambda>s. s\<lparr>su_mutex := True\<rparr>)) (\<lambda>_.
          if \<not> malloc_ok then bnd (modify (\<lambda>s. s\<lparr>su_mutex := False\<rparr>)) (\<lambda>_. ret True)
          else if \<not> thread_ok then bnd (modify (\<lambda>s. s\<lparr>su_mutex := False\<rparr>)) (\<lambda>_. ret False)
          else if \<not> thread_env_ok then fail Undefined
          else bnd (modify (\<lambda>s. s\<lparr>su_thread := True\<rparr>)) (\<lambda>_. ret True)))"

definition check_super_block :: "start_env \<Rightarrow> (start_state, bool) prog" where
  "check_super_block v =
     (if \<not> su_dma_ok v Read_super then ret False
      else
        bnd (start_request v Read_super) (\<lambda>ok.
        if \<not> ok then ret False
        else
          bnd (reads (\<lambda>s. su_super v (su_requests s))) (\<lambda>super.
          ret (magic super = HSCFS_MAGIC_NUMBER))))"

definition ssd_check_and_init :: "start_env \<Rightarrow> (start_state, bool) prog" where
  "ssd_check_and_init v =
     bnd (start_request v Fs_module_init) (\<lambda>ok.
     if \<not> ok then ret False
     else
       bnd (start_request v Recover_from_db) (\<lambda>ok.
       if \<not> ok then ret False
       else
         bnd (check_super_block v) (\<lambda>ok.
         if \<not> ok then ret False
         else start_request v Start_apply)))"

text \<open>The loop asks until head and tail of the SSD's journal are equal; \<open>n\<close> bounds the questions.\<close>

fun recovery_loop :: "start_env \<Rightarrow> nat \<Rightarrow> (start_state, u64 option) prog" where
  "recovery_loop v 0 = fail Still_running"
| "recovery_loop v (Suc n) =
     bnd (start_request v Journal_pos) (\<lambda>ok.
     if \<not> ok then ret None
     else
       bnd (reads (\<lambda>s. su_pos v (su_requests s))) (\<lambda>(head, tail).
       if head \<noteq> tail then recovery_loop v n else ret (Some head)))"

definition ssd_recovery :: "start_env \<Rightarrow> nat \<Rightarrow> (start_state, u64 option) prog" where
  "ssd_recovery v n = (if \<not> su_dma_ok v Journal_pos then ret None else recovery_loop v n)"

text \<open>An exception of the file system layer is caught, and the start fails.\<close>

definition init :: "start_env \<Rightarrow> nat \<Rightarrow> string list \<Rightarrow> (start_state, (hscfs \<times> journal_processor) option) prog" where
  "init v n argv =
     (let trid = parse_trid_from_argv argv in
      if trid = [] then ret None
      else if \<not> su_spdk_ok v trid then ret None
      else
        bnd (device_env_init v) (\<lambda>ok. if \<not> ok then ret None else
        bnd (session_start v) (\<lambda>ok. if \<not> ok then ret None else
        bnd (ssd_check_and_init v) (\<lambda>ok. if \<not> ok then ret None else
        bnd (ssd_recovery v n) (\<lambda>pos.
        case pos of None \<Rightarrow> ret None
        | Some journal_fifo_pos \<Rightarrow>
            (case fs_init (su_devices v) journal_process_env_init of
               Inl (Throw _) \<Rightarrow> ret None
             | Inl f \<Rightarrow> fail f
             | Inr hs \<Rightarrow>
                 (let super = super_blk (fs_meta (io_fs (hs_io hs))) in
                  ret (Some (hs, journal_processor_init (unat (meta_journal_start_blkoff super))
                    (unat (meta_journal_end_blkoff super)) (unat journal_fifo_pos))))))))))"

section \<open>The end\<close>

text \<open>
  \<^verbatim>\<open>fini\<close> writes everything back, stops the journal thread and the session, and destroys the channels. An
  exception of the write back skips the rest, which is the result \<^term>\<open>False\<close>.
\<close>

definition fini ::
    "sys_env \<Rightarrow> (nat set \<Rightarrow> nat list) \<Rightarrow> (journal_container \<Rightarrow> meta \<Rightarrow> meta) \<Rightarrow> nat \<Rightarrow> (hscfs \<times> start_state, bool) prog" where
  "fini v order ssd channel_num = (\<lambda>(hs, s).
     case fs_fini v order ssd hs of
       (Inl (Throw _), hs') \<Rightarrow> (Inr False, (hs', s))
     | (Inl f, hs') \<Rightarrow> (Inl f, (hs', s))
     | (Inr _, hs') \<Rightarrow> (Inr True, (hs'\<lparr>hs_env := stop_process_thread (hs_env hs')\<rparr>,
         s\<lparr>su_mutex := False, su_thread := False, su_controller := comm_channel_controller_destructor channel_num (su_controller s)\<rparr>)))"

section \<open>Properties\<close>

lemma trid_loop_found: "trid_loop as \<noteq> [] \<Longrightarrow> TRID_CONFIG_PREFIX @ trid_loop as \<in> set as"
proof (induction as)
  case (Cons a as)
  show ?case
  proof (cases "length a < length TRID_CONFIG_PREFIX \<or> take (length TRID_CONFIG_PREFIX) a \<noteq> TRID_CONFIG_PREFIX")
    case True
    then have "trid_loop (a # as) = trid_loop as" by auto
    then show ?thesis using Cons by simp
  next
    case False
    then have "TRID_CONFIG_PREFIX @ drop (length TRID_CONFIG_PREFIX) a = a" by (metis append_take_drop_id)
    then show ?thesis using False by simp
  qed
qed simp

lemma parse_trid_found: "parse_trid_from_argv argv \<noteq> [] \<Longrightarrow> TRID_CONFIG_PREFIX @ parse_trid_from_argv argv \<in> set (tl argv)"
  using trid_loop_found [of "tl argv"] by (auto simp: parse_trid_from_argv_def drop_Suc split: if_splits)

lemma start_request_run:
  "su_mutex s \<Longrightarrow> start_request v r s =
     (case su_answer v (su_requests s) r of
        Not_sent \<Rightarrow> (Inr False, s)
      | No_answer \<Rightarrow> (Inl Still_running, s)
      | a \<Rightarrow> (Inr (a = Answered), s\<lparr>su_requests := su_requests s @ [r]\<rparr>))"
  by (cases "su_answer v (su_requests s) r") (simp_all add: start_request_def prog_simps)

text \<open>The questions of the recovery: the positions differ in all answers but the last.\<close>

definition settled_after :: "start_env \<Rightarrow> start_request list \<Rightarrow> nat \<Rightarrow> bool" where
  "settled_after v rs k \<longleftrightarrow> (\<forall>i \<le> k. su_answer v (rs @ replicate i Journal_pos) Journal_pos = Answered) \<and>
     (\<forall>i \<le> k. (fst (su_pos v (rs @ replicate (Suc i) Journal_pos)) = snd (su_pos v (rs @ replicate (Suc i) Journal_pos))) = (i = k))"

lemma append_replicate_Suc: "rs @ replicate (Suc i) x = (rs @ [x]) @ replicate i x"
  by simp

lemma settled_0:
  "settled_after v rs 0 \<longleftrightarrow> su_answer v rs Journal_pos = Answered \<and> fst (su_pos v (rs @ [Journal_pos])) = snd (su_pos v (rs @ [Journal_pos]))"
  by (simp add: settled_after_def)

lemma settled_Suc:
  "settled_after v rs (Suc k) \<longleftrightarrow> su_answer v rs Journal_pos = Answered \<and> fst (su_pos v (rs @ [Journal_pos])) \<noteq> snd (su_pos v (rs @ [Journal_pos])) \<and>
     settled_after v (rs @ [Journal_pos]) k"
proof -
  have all: "(\<forall>i \<le> Suc k. R i) \<longleftrightarrow> R 0 \<and> (\<forall>i \<le> k. R (Suc i))" for R :: "nat \<Rightarrow> bool"
    by (metis Suc_le_mono le0 not0_implies_Suc)
  show ?thesis unfolding settled_after_def all by auto
qed

text \<open>The state after the recovery.\<close>

definition recovered :: "start_state \<Rightarrow> nat \<Rightarrow> start_state" where
  "recovered s k = s\<lparr>su_requests := su_requests s @ replicate (Suc k) Journal_pos\<rparr>"

lemma recovery_loop_iff:
  "su_mutex s \<Longrightarrow> recovery_loop v n s = (Inr (Some h), s') \<longleftrightarrow>
    (\<exists>k < n. settled_after v (su_requests s) k \<and> s' = recovered s k \<and> h = fst (su_pos v (su_requests s')))"
proof (induction n arbitrary: s)
  case 0
  then show ?case by (simp add: prog_simps)
next
  case (Suc n)
  let ?s = "s\<lparr>su_requests := su_requests s @ [Journal_pos]\<rparr>"
  have ex: "(\<exists>k < Suc n. R k) \<longleftrightarrow> R 0 \<or> (\<exists>k < n. R (Suc k))" for R by (auto simp: less_Suc_eq_0_disj)
  have rec: "recovered ?s k = recovered s (Suc k)" for k by (simp add: recovered_def)
  obtain a b where p: "su_pos v (su_requests s @ [Journal_pos]) = (a, b)" by (cases "su_pos v (su_requests s @ [Journal_pos])")
  have IH: "recovery_loop v n ?s = (Inr (Some h), s') \<longleftrightarrow>
    (\<exists>k < n. settled_after v (su_requests s @ [Journal_pos]) k \<and> s' = recovered s (Suc k) \<and> h = fst (su_pos v (su_requests s')))"
    using Suc.IH [of ?s] Suc.prems rec by simp
  show ?case
    unfolding ex settled_Suc settled_0 recovery_loop.simps
    using Suc.prems IH p by (cases "su_answer v (su_requests s) Journal_pos"; cases "a = b")
      (auto simp: bnd_def start_request_run ret_def reads_def recovered_def)
qed

text \<open>What a start needs, and the state it leaves.\<close>

definition start_order :: "start_request list" where
  "start_order = [Fs_module_init, Recover_from_db, Read_super, Start_apply]"

definition made_controller :: "start_env \<Rightarrow> bool \<times> controller_res" where
  "made_controller v = (case su_controller_ok v of (array_ok, lock_ok, counts_ok) \<Rightarrow>
     comm_channel_controller_constructor (su_channel_ok v) array_ok lock_ok counts_ok
       (nat (if su_cpu_num v \<le> 0 then CHANNEL_NUM_DEFAULT else su_cpu_num v)))"

definition ssd_ready :: "start_env \<Rightarrow> bool" where
  "ssd_ready v \<longleftrightarrow> su_answer v [] Fs_module_init = Answered \<and> su_answer v [Fs_module_init] Recover_from_db = Answered \<and> su_dma_ok v Read_super \<and>
     su_answer v [Fs_module_init, Recover_from_db] Read_super = Answered \<and>
     magic (su_super v [Fs_module_init, Recover_from_db, Read_super]) = HSCFS_MAGIC_NUMBER \<and>
     su_answer v [Fs_module_init, Recover_from_db, Read_super] Start_apply = Answered"

definition start_ok :: "start_env \<Rightarrow> string list \<Rightarrow> nat \<Rightarrow> bool" where
  "start_ok v argv k \<longleftrightarrow> (\<exists>trid. trid \<noteq> [] \<and> TRID_CONFIG_PREFIX @ trid \<in> set (tl argv) \<and> parse_trid_from_argv argv = trid \<and> su_spdk_ok v trid) \<and>
     fst (made_controller v) \<and> su_session_ok v = (True, True, True, True, True) \<and> ssd_ready v \<and> su_dma_ok v Journal_pos \<and>
     settled_after v start_order k"

definition started :: "start_env \<Rightarrow> nat \<Rightarrow> start_state" where
  "started v k = \<lparr>su_requests = start_order @ replicate (Suc k) Journal_pos, su_mutex = True, su_thread = True, su_controller = snd (made_controller v)\<rparr>"

lemma device_env_init_run:
  "device_env_init v s = (Inr (fst (made_controller v)), s\<lparr>su_controller := snd (made_controller v)\<rparr>)"
  by (simp add: device_env_init_def made_controller_def Let_def prog_simps split: prod.split)

lemma ssd_check_iff:
  assumes "su_mutex s" "su_requests s = []"
  shows "ssd_check_and_init v s = (Inr True, s') \<longleftrightarrow> ssd_ready v \<and> s' = s\<lparr>su_requests := start_order\<rparr>"
  using assms
  by (auto simp: ssd_check_and_init_def check_super_block_def ssd_ready_def start_order_def bnd_def start_request_run ret_def reads_def
      split: request_answer.splits)

lemma ssd_check_no_mutex: "\<not> su_mutex s \<Longrightarrow> fst (ssd_check_and_init v s) \<in> {Inr False, Inl Undefined}"
  by (simp add: ssd_check_and_init_def start_request_def prog_simps)

text \<open>The part of the start after the polling thread runs.\<close>

definition init_rest :: "start_env \<Rightarrow> nat \<Rightarrow> (start_state, (hscfs \<times> journal_processor) option) prog" where
  "init_rest v n = bnd (ssd_check_and_init v) (\<lambda>ok. if \<not> ok then ret None else
        bnd (ssd_recovery v n) (\<lambda>pos.
        case pos of None \<Rightarrow> ret None
        | Some journal_fifo_pos \<Rightarrow>
            (case fs_init (su_devices v) journal_process_env_init of
               Inl (Throw _) \<Rightarrow> ret None
             | Inl f \<Rightarrow> fail f
             | Inr hs \<Rightarrow>
                 (let super = super_blk (fs_meta (io_fs (hs_io hs))) in
                  ret (Some (hs, journal_processor_init (unat (meta_journal_start_blkoff super))
                    (unat (meta_journal_end_blkoff super)) (unat journal_fifo_pos)))))))"

definition first_processor :: "start_env \<Rightarrow> nat \<Rightarrow> hscfs \<Rightarrow> journal_processor" where
  "first_processor v k hs = (let super = super_blk (fs_meta (io_fs (hs_io hs))) in
     journal_processor_init (unat (meta_journal_start_blkoff super)) (unat (meta_journal_end_blkoff super))
       (unat (fst (su_pos v (su_requests (started v k))))))"

lemma init_split:
  "init v n argv = (if parse_trid_from_argv argv = [] then ret None else if \<not> su_spdk_ok v (parse_trid_from_argv argv) then ret None
     else bnd (device_env_init v) (\<lambda>ok. if \<not> ok then ret None else bnd (session_start v) (\<lambda>ok. if \<not> ok then ret None else init_rest v n)))"
  unfolding init_def init_rest_def Let_def by (rule refl)

lemma init_rest_no_mutex: "\<not> su_mutex s \<Longrightarrow> fst (init_rest v n s) \<in> {Inr None, Inl Undefined}"
  using ssd_check_no_mutex [of s v] by (cases "ssd_check_and_init v s") (auto simp: init_rest_def bnd_def ret_def)

lemma init_rest_iff:
  assumes s: "su_mutex s" "su_requests s = []"
  shows "init_rest v n s = (Inr (Some (hs, jp)), s') \<longleftrightarrow>
    (\<exists>k < n. ssd_ready v \<and> su_dma_ok v Journal_pos \<and> settled_after v start_order k \<and> fs_init (su_devices v) journal_process_env_init = Inr hs \<and>
       jp = first_processor v k hs \<and> s' = s\<lparr>su_requests := su_requests (started v k)\<rparr>)"
proof (cases "ssd_ready v")
  case False
  then have "fst (ssd_check_and_init v s) \<noteq> Inr True" using ssd_check_iff [OF s] by (metis prod.collapse)
  then show ?thesis using False by (auto simp: init_rest_def bnd_def ret_def split: prod.splits sum.splits if_splits)
next
  case True
  let ?s = "s\<lparr>su_requests := start_order\<rparr>"
  have c: "ssd_check_and_init v s = (Inr True, ?s)" using ssd_check_iff [OF s] True by simp
  have rec: "recovered ?s k = s\<lparr>su_requests := su_requests (started v k)\<rparr>" for k by (simp add: recovered_def started_def)
  show ?thesis
  proof (cases "su_dma_ok v Journal_pos")
    case False
    then show ?thesis using c by (simp add: init_rest_def bnd_def ssd_recovery_def ret_def)
  next
    case dma: True
    have it: "recovery_loop v n ?s = (Inr (Some h), s') \<longleftrightarrow>
        (\<exists>k < n. settled_after v start_order k \<and> s' = s\<lparr>su_requests := su_requests (started v k)\<rparr> \<and> h = fst (su_pos v (su_requests (started v k))))" for h
      using recovery_loop_iff [of ?s v n h s'] s(1) rec by auto
    have "init_rest v n s = (Inr (Some (hs, jp)), s') \<longleftrightarrow>
        (\<exists>h. recovery_loop v n ?s = (Inr (Some h), s') \<and> fs_init (su_devices v) journal_process_env_init = Inr hs \<and>
          jp = (let super = super_blk (fs_meta (io_fs (hs_io hs))) in
                journal_processor_init (unat (meta_journal_start_blkoff super)) (unat (meta_journal_end_blkoff super)) (unat h)))"
      using c dma
      by (auto simp: init_rest_def bnd_def ssd_recovery_def ret_def fail_def Let_def split: prod.splits sum.splits option.splits fault.splits)
    then show ?thesis unfolding it using True dma by (auto simp: first_processor_def Let_def)
  qed
qed

text \<open>
  C18. The start succeeds exactly when a device name is given and found, the channels and the polling
  thread can be made, the SSD starts its part, restores the super block and holds this file system,
  and the SSD's journal settles within the questions asked; then the requests were made in
  that order, and the journal processor starts where the SSD's journal ends, with the super block's limits.
\<close>

theorem start_up_correct:
  "init v n argv start_state_init = (Inr (Some (hs, jp)), s') \<longleftrightarrow>
    (\<exists>k < n. start_ok v argv k \<and> fs_init (su_devices v) journal_process_env_init = Inr hs \<and> jp = first_processor v k hs \<and> s' = started v k)"
proof -
  let ?c = "snd (made_controller v)"
  let ?s = "\<lparr>su_requests = [], su_mutex = True, su_thread = True, su_controller = ?c\<rparr>"
  have st: "?s\<lparr>su_requests := su_requests (started v k)\<rparr> = started v k" for k by (simp add: started_def)
  obtain a b c d e where ses: "su_session_ok v = (a, b, c, d, e)" by (cases "su_session_ok v") auto
  have i: "init v n argv start_state_init = (Inr (Some (hs, jp)), s') \<longleftrightarrow>
      parse_trid_from_argv argv \<noteq> [] \<and> su_spdk_ok v (parse_trid_from_argv argv) \<and> fst (made_controller v) \<and>
      a \<and> b \<and> c \<and> d \<and> e \<and> init_rest v n ?s = (Inr (Some (hs, jp)), s')"
    using init_rest_no_mutex [of "start_state_init\<lparr>su_controller := ?c, su_mutex := False\<rparr>" v n]
    by (auto simp: init_split bnd_def device_env_init_run session_start_def ses modify_def ret_def fail_def start_state_init_def)
  show ?thesis
    unfolding i init_rest_iff [of ?s, simplified] start_ok_def using parse_trid_found [of argv] st ses by auto
qed

text \<open>
  When there is no memory for the argument of the polling thread, the session layer reports success although it has
  destroyed its mutex: the start fails if its first request cannot be sent, and otherwise locks that mutex.
\<close>

lemma start_without_memory:
  assumes "su_session_ok v = (True, True, False, t, e)" "parse_trid_from_argv argv \<noteq> []" "su_spdk_ok v (parse_trid_from_argv argv)"
    "fst (made_controller v)"
  shows "fst (init v n argv start_state_init) = (if su_answer v [] Fs_module_init = Not_sent then Inr None else Inl Undefined)"
  using assms
  by (simp add: init_split bnd_def device_env_init_run session_start_def modify_def ret_def start_state_init_def init_rest_def
      ssd_check_and_init_def start_request_def prog_simps)

text \<open>The caches are made whenever the super block can be read.\<close>

lemma fs_init_ok: "fd_super dv = Some sb \<Longrightarrow> \<exists>hs. fs_init dv e = Inr hs \<and> super_blk (fs_meta (io_fs (hs_io hs))) = sb"
proof -
  assume sb: "fd_super dv = Some sb"
  have "dc_ix (dc_init 128) (Dentry_key (root_ino sb) [47]) = None" by (simp add: dc_init_def)
  from dc_add_root_ok [OF dc_init_inv this] obtain c' where "dc_add_root (root_ino sb) (dc_init 128) = (Inr (Dentry_key (root_ino sb) [47]), c')" by blast
  then show ?thesis using sb by (simp add: fs_init_def fsys_init_def)
qed

definition sample_start :: start_env where
  "sample_start = \<lparr>su_spdk_ok = \<lambda>_. True, su_cpu_num = 2, su_channel_ok = \<lambda>_. True, su_controller_ok = (True, True, True),
     su_session_ok = (True, True, True, True, True), su_dma_ok = \<lambda>_. True, su_answer = \<lambda>_ _. Answered,
     su_super = \<lambda>_. sample_super, su_pos = \<lambda>rs. (word_of_nat (length rs), 6),
     su_devices = \<lparr>fd_super = Some sample_super, fd_nat = \<lambda>_. None, fd_sit = \<lambda>_. None, fd_nodes = \<lambda>_. None, fd_data = \<lambda>_. None,
       fd_dirs = \<lambda>_. None, fd_srmap = \<lambda>_. None\<rparr>\<rparr>"

text \<open>A start that succeeds after two questions.\<close>

lemma sample_start_succeeds:
  "\<exists>hs jp s'. init sample_start 3 [''hscfs'', ''--trid=pci''] start_state_init = (Inr (Some (hs, jp)), s')"
proof -
  have "start_ok sample_start [''hscfs'', ''--trid=pci''] 1"
    by (auto simp: start_ok_def sample_start_def parse_trid_from_argv_def TRID_CONFIG_PREFIX_def made_controller_def
      comm_channel_controller_constructor_def Let_def numeral_2_eq_2 ssd_ready_def settled_after_def start_order_def sample_super_def le_Suc_eq)
  moreover obtain hs where "fs_init (su_devices sample_start) journal_process_env_init = Inr hs"
    using fs_init_ok [of "su_devices sample_start" sample_super] by (auto simp: sample_start_def)
  ultimately have "init sample_start 3 [''hscfs'', ''--trid=pci''] start_state_init = (Inr (Some (hs, first_processor sample_start 1 hs)), started sample_start 1)"
    unfolding start_up_correct by (intro exI [of _ 1]) simp
  then show ?thesis by blast
qed

end
