(* ===== verification/Spec2Isabelle.thy ===== *)
theory Spec2Isabelle
  imports FD_Array Path_Utils Journal_Processor File_Resize File_IO Mkfs_Correct Directory_Lookup Protect_Threads Path_Correct Call_Correct Session_Correct Start_Up
begin

text \<open>
  Verification development of HSCFS, the host side of a log-structured file system that shares
  its work with an SSD. The host keeps caches of the on-disk tables, of the index nodes of files, of
  directories and of file pages, changes them in memory, writes blocks to new addresses and
  hands the SSD a journal of every change of the tables; the SSD applies the journal and answers
  searches for paths and for block addresses. What a transaction has written stays in the caches, protected
  from replacement, until the SSD has applied its journal.

  \<^bold>\<open>Parts and theories\<close>

  \<^item> \<open>HSCFS_Prelude\<close>: machine integers, the exceptions of \<^verbatim>\<open>inc/utils/hscfs_exceptions.hh\<close> and the
    outcomes of a call. A call throws (\<open>Throw\<close>), fails an \<^verbatim>\<open>assert\<close> or is terminated
    (\<open>Assert_failed\<close>), has undefined behaviour (\<open>Undefined\<close>, after which the state has no meaning), or has
    used up the rounds given to a loop that need not end (\<open>Still_running\<close>). Stateful code is \<open>('s, 'a) prog\<close>,
    explicit state passing in which the state survives an exception; \<open>scoped\<close>, \<open>on_throw\<close> and
    \<open>catch_all\<close> run destructors, \<open>no_throw\<close> is \<^verbatim>\<open>noexcept\<close>, and \<open>under_way\<close> is an exception that destroys a
    synchroniser which asynchronous commands still use.
  \<^item> \<open>Cache_Manager\<close>: \<^verbatim>\<open>inc/cache/cache_manager.hh\<close>, the hash index, the LRU replacer and the
    manager that joins them. Pointers to entries are keys, iterators into lists are node
    identities, so a dangling one is visible. The locale \<open>replacer\<close> states what a replacer
    promises and is interpreted on the LRU replacer. \<open>Ref_Cache\<close> adds reference counts for the caches that pin
    their entries by them (locale \<open>counted_entry\<close>).
  \<^item> \<open>SIT_NAT_Cache\<close>: \<^verbatim>\<open>inc/cache/SIT_NAT_cache.hh\<close>, the reference counted cache of table blocks
    (locale \<open>refcounted_cache\<close>): a cached block equals the device's unless it has a host
    version the device has not seen.
  \<^item> \<open>FS_Layout\<close>, \<open>Journal_Container\<close>, \<open>Meta_State\<close>: the structures of \<^verbatim>\<open>inc/fs/fs.h\<close>, journal
    entries and their replay, and the metadata that \<^verbatim>\<open>file_system_manager\<close> owns. \<open>meta_step\<close> is the
    contract of every operation on the metadata: the changes of the tables are exactly those
    in the journal, and the caches have one host version more for each.
  \<^item> \<open>NAT_SIT_Utils\<close>, \<open>Super_Manager\<close>: \<^verbatim>\<open>src/fs/NAT_utils.cc\<close>, \<^verbatim>\<open>src/fs/SIT_utils.cc\<close> and
    \<^verbatim>\<open>src/fs/super_manager.cc\<close>, addresses of nodes, validity of blocks, node ids, segments and blocks; the free list in
    the NAT refines a stack, the allocator refines a set of blocks that are not valid.
  \<^item> \<open>Mkfs\<close>, \<open>Mkfs_Correct\<close>: \<^verbatim>\<open>mkfs/mkhscfs.cc\<close>, the formatter, and what it leaves on the device.
  \<^item> \<open>Journal_Writer\<close>, \<open>Journal_Processor\<close>: \<^verbatim>\<open>src/journal/\<close>. The writer merges the entries of a
    transaction and lays them out in blocks (locale \<open>keyed_update\<close>: merging keeps the effect);
    the processor's thread is a step relation with the device over the ring of journal
    blocks.
  \<^item> \<open>Node_Tree\<close>, \<open>Node_Block_Cache\<close>, \<open>Node_Cache_Inv\<close>: the index tree of a file and the cache of its nodes,
    \<^verbatim>\<open>src/cache/node_block_cache.cc\<close>. A reference count is the number of handles,
    cached children and dirty-list entries, and a node that is not dirty equals its block.
  \<^item> \<open>File_Mapping\<close>, \<open>Block_Lookup\<close>, \<open>File_Resize\<close>: \<^verbatim>\<open>src/fs/file_utils.cc\<close> over the node cache:
    lookup and update of block addresses, growing and shrinking, creation and deletion.
  \<^item> \<open>IO_Sync\<close>, \<open>Srmap\<close>: the synchroniser of a group of asynchronous writes, \<^verbatim>\<open>inc/utils/io_utils.hh\<close>, with
    the steps of its callbacks interleaved, and the reverse map of \<^verbatim>\<open>src/fs/srmap_utils.cc\<close>.
  \<^item> \<open>Page_Cache\<close>, \<open>Page_Cache_Inv\<close>, \<open>Page_Cache_Safe\<close>: \<^verbatim>\<open>src/cache/page_cache.cc\<close>. The release of a page is in the
    two parts of the code, and the states that threads reach are those of the parts interleaved.
  \<^item> \<open>File_Objects\<close>, \<open>File_Cache\<close>, \<open>File_IO\<close>: \<^verbatim>\<open>src/fs/file.cc\<close> and \<^verbatim>\<open>src/fs/opened_file.cc\<close>: file objects with
    their cache, reading and writing through the pages, writing back.
  \<^item> \<open>Dentry_Block\<close>, \<open>Dir_Cache\<close>, \<open>Dentry_Cache\<close>, \<open>Directory\<close>, \<open>Directory_Lookup\<close>: \<^verbatim>\<open>src/fs/directory.cc\<close>,
    \<^verbatim>\<open>src/cache/dir_data_block_cache.cc\<close> and \<^verbatim>\<open>src/cache/dentry_cache.cc\<close>: the hash and the operations inside one
    directory block over a map from slots to names, the two caches, and directories over both.
  \<^item> \<open>FD_Array\<close>, \<open>Path_Utils\<close>: \<^verbatim>\<open>src/fs/fd_array.cc\<close> and the path strings of
    \<^verbatim>\<open>src/fs/path_utils.cc\<close>; \<open>Path_Lookup\<close>, \<open>Path_Correct\<close>: following a path in the cache of directory entries and with
    the answer of the SSD.
  \<^item> \<open>Replace_Protect\<close>, \<open>Protect_Threads\<close>: \<^verbatim>\<open>src/fs/replace_protect.cc\<close> with \<^verbatim>\<open>inc/fs/server_thread.hh\<close>: the records of
    transactions in flight, the task that releases one, and a step relation of the threads that take part, with
    their locks and condition variables.
  \<^item> \<open>FS_Manager\<close>, \<open>FS_Commit\<close>: \<^verbatim>\<open>src/fs/fs_manager.cc\<close> and \<^verbatim>\<open>src/fs/write_back_helper.cc\<close>: the components together, and
    the write back of all metadata as a transaction.
  \<^item> \<open>System_Calls\<close>, \<open>Call_Correct\<close>: \<^verbatim>\<open>src/api/\<close> with \<^verbatim>\<open>src/utils/exception_handler.cc\<close>.
  \<^item> \<open>Comm_Session\<close>, \<open>Session_Inv\<close>, \<open>Comm_Api\<close>, \<open>Session_Correct\<close>: \<^verbatim>\<open>src/communication/\<close>: channels, the polling thread
    with its queues, requests that wait and requests with a callback, and both interleaved.
  \<^item> \<open>Start_Up\<close>: \<^verbatim>\<open>src/api/init.cc\<close> and \<^verbatim>\<open>src/api/fini.cc\<close>.

  \<^bold>\<open>What is shown\<close>

  Each component has an invariant that its operations keep, and its operations have their
  effect on every branch. The properties in the theories are numbered. The allocators and the formatter:
  what they give is free, and journalled; what the formatter leaves satisfies their invariants. The caches: what
  a reader sees never depends on what is cached or replaced, and counts are exact. The journal:
  it can be read back, is never overwritten before it is applied, and its transactions are reported in order; one
  write back commits one journal under protection, tasks run in the order of the commits and release what their
  transactions hold. Files and directories: lookup and update of addresses are those of the index tree, what
  is written is read back, names that are created are found. Calls, start and communication: which outcomes they
  have, and that no step of the session layer is undefined under two conditions on its outside.

  Some lemmas show where the code does not keep what it promises: the new address of a
  node is lost for lookups, the counter of valid blocks saturates
  (\<open>sit_counter_tracks_bitmap\<close>), bitmap words are shifted by 32 bit constants
  (\<open>create_in_upper_half_undefined\<close>, \<open>remove_damages_first_entry\<close>), an applied transaction can
  stay unreported (\<open>applied_transaction_not_reported\<close>), a stale iterator is used after a write
  back (\<open>delete_after_write_back_undefined\<close>), shrinking a large file frees nothing
  (\<open>shrink_leaves_blocks_allocated\<close>), a read error is forgotten, two releases of one page can
  touch a page that is gone (\<open>two_releases_touch_gone_page\<close>), three transactions can block all threads,
  a path through an entry again stops the program, an
  internal error uses a pointer without value (\<open>mkdir_io_error_undefined\<close>), a refused long
  command and an early return of a waiting thread use a context that is gone
  (for the second \<open>signal_after_return_undefined\<close>), and a start without memory locks a
  destroyed mutex (\<open>start_without_memory\<close>).

  \<^bold>\<open>Bounds and fuel\<close>

  Reference counts are 32-bit words; the room that the invariants ask for (\<open>pc_room\<close>, \<open>dc_room_for\<close> and the like)
  keeps them from wrapping around. File positions are below 2^44, the limit of 32-bit block numbers; the
  formatter is treated for less than 2^23 segments; fewer than 2^64 transactions are numbered. Creation and removal in a
  directory block are right only in the slots that the 32-bit shifts reach (\<open>i mod 64 < 32\<close>), and lookup in a
  directory is treated up to depth 7, whose blocks the inode addresses. An answer of the SSD to a path lookup has
  1021 elements (\<open>MAX_PATH_DEPTH\<close>); beyond them the access is undefined. The loops of the writer take fuel and
  one round per entry and block is shown to be enough; the lookup of a block takes fuel because it repeats
  its search for as long as the SSD returns other nodes, and one round per level and one more are
  enough when the SSD returns the nodes it holds; the loops over a path take one more than its length; those of a
  round of the polling thread as many as there are contexts in the queues. Recursion through parents in the
  node cache and the eviction loops terminate because the number of entries falls.

  \<^bold>\<open>Parameters\<close>

  The contents of the device, its answers to the processor, its searches for block addresses and paths, whether
  write commands are accepted and how they end, the results of commands, what the SSD does to the metadata
  when it applies a journal, the order in which unordered sets are walked, memory, the clock and
  uninitialised memory are arguments. The hypotheses on the search for blocks say that it returns the node blocks on the
  device along the path. For the session layer, \<open>comm_world\<close> holds the answers of the driver and of tried
  locks, and whether a waiting thread returns before it is signalled; for the start, \<open>start_env\<close> holds what can be
  made and how the SSD answers.

  \<^bold>\<open>Not modelled\<close>

  SPDK, the list macros of \<^verbatim>\<open>queue_extras\<close>, logging, the text of debug output, and timers. Locks have no part in
  the state except in \<open>Protect_Threads\<close> and, as answers of the outside, in the session layer; elsewhere the operations that
  a lock covers are single steps, and the only finer steps are those of the callbacks in \<open>IO_Sync\<close>, of the release of a
  page, and of the completion signal. Mutexes that fail are left out. Keys stand for pointers, so that an
  entry of the node cache that is freed never gives its address to a new one: a stale position in the dirty list
  is undefined behaviour at once, and cannot meet another entry. Devices are keyed by block addresses; the
  conversion to sector numbers wraps around at 32 bits, from block 2^29 on, and this is treated for the formatter
  only (\<open>large_address_hits_super_block\<close>), so that the properties speak of devices with fewer blocks. Handles of
  directory entries have no destructor, as in the code, and keep their references.
\<close>

end
